(* ===== verification/Prelude.thy ===== *)
theory Prelude
  imports "HOL-Library.Word" "HOL-Library.Monad_Syntax"
begin

text \<open>
  Shared base of the library.

  \<^item> Type synonyms for the Rust integers that keep their width. A \<open>usize\<close> that is a
    position or a count is a \<open>nat\<close>; where a \<open>usize\<close> operation can leave its range on
    inputs the code accepts, the operation is written out (checked subtraction here, the
    width in the theory that needs it).
  \<^item> Outcomes: a value of type \<open>'a option\<close> returned by a model of code that does not
    itself return \<open>Option\<close> is \<open>None\<close> when the execution panics (a failed assertion, an
    index out of bounds, an arithmetic overflow trapped by overflow checks) or reads
    outside a slice in unchecked code. A Rust \<open>Option\<close> result is then a nested option.
  \<^item> Counting over positions (\<open>cntp\<close>) and selection (\<open>selp\<close>), the mathematical
    meaning of rank and select, with the lemmas all components share.
  \<^item> Population count, packed fixed-width fields, and list slices.
\<close>

unbundle bit_operations_syntax

type_synonym u8 = "8 word"
type_synonym u16 = "16 word"
type_synonym u32 = "32 word"
type_synonym u64 = "64 word"
type_synonym u128 = "128 word"

named_theorems packed \<open>reading fields of packed counter words\<close>

section \<open>Outcomes\<close>

definition idx :: "'a list \<Rightarrow> nat \<Rightarrow> 'a option" where
  "idx xs i = (if i < length xs then Some (xs ! i) else None)"

definition chk_sub :: "nat \<Rightarrow> nat \<Rightarrow> nat option" where
  "chk_sub a b = (if b \<le> a then Some (a - b) else None)"

text \<open>\<open>usize\<close> addition, where it can overflow.\<close>

definition add_usize :: "nat \<Rightarrow> nat \<Rightarrow> nat option" where
  "add_usize a b = (if a + b < 2 ^ 64 then Some (a + b) else None)"

text \<open>\<open>usize\<close> multiplication, and \<open>vec![x; n]\<close> with elements of \<open>elem_size\<close> bytes, which panics when the vector would
  take more than \<open>isize::MAX\<close> bytes.\<close>

definition mul_usize :: "nat \<Rightarrow> nat \<Rightarrow> nat option" where
  "mul_usize a b = (if a * b < 2 ^ 64 then Some (a * b) else None)"

definition vec_of :: "nat \<Rightarrow> 'a \<Rightarrow> nat \<Rightarrow> 'a list option" where
  "vec_of elem_size x n = (if n * elem_size < 2 ^ 63 then Some (replicate n x) else None)"

definition guard :: "bool \<Rightarrow> unit option" where
  "guard b = (if b then Some () else None)"

definition div_ceil :: "nat \<Rightarrow> nat \<Rightarrow> nat" where
  "div_ceil a b = (a div b) + (if a mod b = 0 then 0 else 1)"

lemma idx_Some [simp]: "i < length xs \<Longrightarrow> idx xs i = Some (xs ! i)"
  by (simp add: idx_def)

lemma idx_None [simp]: "length xs \<le> i \<Longrightarrow> idx xs i = None"
  by (simp add: idx_def)

lemma idx_eq_Some_iff: "idx xs i = Some x \<longleftrightarrow> i < length xs \<and> xs ! i = x"
  by (auto simp: idx_def)

lemma chk_sub_Some [simp]: "b \<le> a \<Longrightarrow> chk_sub a b = Some (a - b)"
  by (simp add: chk_sub_def)

lemma chk_sub_None [simp]: "a < b \<Longrightarrow> chk_sub a b = None"
  by (simp add: chk_sub_def)

lemma add_usize_Some [simp]: "a + b < 2 ^ 64 \<Longrightarrow> add_usize a b = Some (a + b)"
  by (simp add: add_usize_def)

lemma add_usize_None [simp]: "2 ^ 64 \<le> a + b \<Longrightarrow> add_usize a b = None"
  by (simp add: add_usize_def)

lemma guard_simps [simp]: "guard True = Some ()" "guard False = None"
  by (simp_all add: guard_def)

lemma div_ceil_pos_le:
  assumes "0 < b"
  shows "a \<le> b * div_ceil a b"
proof -
  have split: "b * (a div b) + a mod b = a" by simp
  have "a mod b < b" using assms by simp
  then have "a mod b \<le> b * (if a mod b = 0 then 0 else 1)" by simp
  then have "b * (a div b) + a mod b \<le> b * (a div b) + b * (if a mod b = 0 then 0 else 1)"
    by (rule add_left_mono)
  then show ?thesis unfolding split div_ceil_def by (simp only: distrib_left)
qed

lemma div_ceil_le:
  assumes "0 < b" "a \<le> b * k"
  shows "div_ceil a b \<le> k"
proof (cases "a mod b = 0")
  case True
  then show ?thesis using div_le_mono [OF assms(2), of b] assms(1) by (simp add: div_ceil_def)
next
  case False
  then have "a \<noteq> k * b" by auto
  then have "a < k * b" using assms(2) by (simp add: mult.commute)
  then have "a div b < k" by (rule less_mult_imp_div_less)
  then show ?thesis by (simp add: div_ceil_def)
qed

lemma div_less_div_ceil:
  assumes "0 < b" "i < a"
  shows "i div b < div_ceil a b"
proof -
  have "i < b * div_ceil a b" using assms div_ceil_pos_le [of b a] by linarith
  then show ?thesis by (simp add: less_mult_imp_div_less mult.commute)
qed

section \<open>Loops\<close>

text \<open>A \<open>for\<close> loop that threads a state and may panic.\<close>

fun foldM :: "('s \<Rightarrow> 'a \<Rightarrow> 's option) \<Rightarrow> 's \<Rightarrow> 'a list \<Rightarrow> 's option" where
  "foldM f s [] = Some s"
| "foldM f s (x # xs) = do { s' \<leftarrow> f s x; foldM f s' xs }"

lemma those_map_Some: "(\<And>x. x \<in> set xs \<Longrightarrow> f x = Some (g x)) \<Longrightarrow> those (map f xs) = Some (map g xs)"
  by (induction xs) auto

lemma foldM_append: "foldM f s (xs @ ys) = do { s' \<leftarrow> foldM f s xs; foldM f s' ys }"
  by (induction xs arbitrary: s) (auto split: bind_splits)

lemma foldM_upt_value:
  assumes "\<And>k. k < n \<Longrightarrow> f (g k) k = Some (g (Suc k))"
  shows "foldM f (g 0) [0..<n] = Some (g n)"
  using assms by (induction n) (auto simp: foldM_append)

lemma foldM_upt_inv:
  assumes "Inv 0 s" "\<And>k s. k < n \<Longrightarrow> Inv k s \<Longrightarrow> \<exists>s'. f s k = Some s' \<and> Inv (Suc k) s'"
  shows "\<exists>s'. foldM f s [0..<n] = Some s' \<and> Inv n s'"
  using assms
proof (induction n)
  case (Suc n)
  then obtain s1 where "foldM f s [0..<n] = Some s1" "Inv n s1" by force
  moreover from this(2) obtain s2 where "f s1 n = Some s2" "Inv (Suc n) s2" using Suc.prems(2) [of n] by blast
  ultimately show ?case by (simp add: foldM_append)
qed simp

lemma foldM_from_inv:
  assumes "a \<le> b" "Inv a s" "\<And>k s. a \<le> k \<Longrightarrow> k < b \<Longrightarrow> Inv k s \<Longrightarrow> \<exists>s'. f s k = Some s' \<and> Inv (Suc k) s'"
  shows "\<exists>s'. foldM f s [a..<b] = Some s' \<and> Inv b s'"
  using assms
proof (induction "b - a" arbitrary: a s)
  case (Suc d)
  then have a: "a < b" by simp
  obtain s1 where "f s a = Some s1" "Inv (Suc a) s1" using Suc.prems(3) [OF order_refl a Suc.prems(2)] by blast
  moreover from this(2) have "\<exists>s'. foldM f s1 [Suc a..<b] = Some s' \<and> Inv b s'"
    using Suc.hyps(1) [of "Suc a" s1] Suc.hyps(2) Suc.prems(3) a by simp
  ultimately show ?case using a by (simp add: upt_conv_Cons)
qed simp

text \<open>A loop that pushes on a stack the images of the elements with a property.\<close>

lemma foldM_push_rev:
  assumes "\<And>b st. b \<in> set bs \<Longrightarrow> f st b = Some (if P b then g b # st else st)"
  shows "foldM f st (rev bs) = Some (map g (filter P bs) @ st)"
  using assms
proof (induction bs)
  case (Cons b bs)
  then show ?case by (simp add: foldM_append)
qed simp

lemma foldM_append_map:
  assumes "\<And>b st. b \<in> set bs \<Longrightarrow> f st b = Some (st @ g b)"
  shows "foldM f st bs = Some (st @ concat (map g bs))"
  using assms by (induction bs arbitrary: st) auto

text \<open>
  The scan \<open>while pos < last { if get(pos) >= target { break } pos += step }\<close>; a step of
  zero may make it run forever, \<open>None\<close>.
\<close>

partial_function (option) scan_while :: "(nat \<Rightarrow> nat option) \<Rightarrow> nat \<Rightarrow> nat \<Rightarrow> nat \<Rightarrow> nat \<Rightarrow> nat option" where
  "scan_while get target lst step pos =
     (if pos < lst then do {
        v \<leftarrow> get pos;
        if v \<ge> target then Some pos else scan_while get target lst step (pos + step)
      } else Some pos)"

lemma scan_while_result:
  assumes "0 < step" "\<And>k. k < lst \<Longrightarrow> get k = Some (g k)"
  shows "\<exists>m. scan_while get target lst step pos = Some (pos + m * step)
    \<and> (\<forall>m'<m. pos + m' * step < lst \<and> g (pos + m' * step) < target)
    \<and> (lst \<le> pos + m * step \<or> target \<le> g (pos + m * step))"
proof (induction "lst - pos" arbitrary: pos rule: less_induct)
  case less
  show ?case
  proof (cases "pos < lst \<and> g pos < target")
    case False
    then have "scan_while get target lst step pos = Some pos"
      by (auto simp: scan_while.simps [of _ _ _ _ pos] assms(2))
    with False show ?thesis by (intro exI [of _ 0]) auto
  next
    case True
    then have "lst - (pos + step) < lst - pos" using assms(1) by (intro diff_less_mono2) auto
    from less [OF this] obtain m where m: "scan_while get target lst step (pos + step) = Some (pos + step + m * step)"
      "\<forall>m'<m. pos + step + m' * step < lst \<and> g (pos + step + m' * step) < target"
      "lst \<le> pos + step + m * step \<or> target \<le> g (pos + step + m * step)" by blast
    have "scan_while get target lst step pos = Some (pos + Suc m * step)"
      using True m(1) by (simp add: scan_while.simps [of _ _ _ _ pos] assms(2) add.assoc)
    moreover have "pos + m' * step < lst \<and> g (pos + m' * step) < target" if "m' < Suc m" for m'
      using that True m(2) by (cases m') (auto simp: add.assoc)
    ultimately show ?thesis using m(3) by (intro exI [of _ "Suc m"]) (simp add: add.assoc)
  qed
qed

section \<open>Packed fields\<close>

text \<open>The \<open>k\<close>-th of the \<open>n\<close>-bit fields a word packs, counted from the low end.\<close>

definition fld :: "nat \<Rightarrow> 'a::len word \<Rightarrow> nat \<Rightarrow> nat" where
  "fld n w k = unat (take_bit n (drop_bit (n * k) w))"

lemma bit_of_nat_less:
  assumes "v < 2 ^ n" "bit (of_nat v :: 'a::len word) j"
  shows "j < n"
proof -
  have "bit v j" using assms(2) by (simp add: bit_of_nat_iff)
  moreover have "take_bit n v = v" using assms(1) by (simp add: take_bit_nat_eq_self)
  ultimately show ?thesis by (metis bit_take_bit_iff)
qed

lemma field_index: "n * k \<le> n * k' + j \<Longrightarrow> n * k' + j - n * k < n \<Longrightarrow> j < n \<Longrightarrow> k' = k"
  for n k k' j :: nat
proof -
  assume a: "n * k \<le> n * k' + j" "n * k' + j - n * k < n" "j < n"
  then have "n * k' + j < n * Suc k" by simp
  then have "n * k' < n * Suc k" by linarith
  then have "k' \<le> k" by (metis mult_less_cancel1 less_Suc_eq_le)
  moreover have "n * k < n * Suc k'" using a(1,3) by simp
  then have "k \<le> k'" by (metis mult_less_cancel1 less_Suc_eq_le)
  ultimately show ?thesis by simp
qed

lemma unat_of_nat_small: "v < 2 ^ LENGTH('a::len) \<Longrightarrow> unat (of_nat v :: 'a word) = v"
  by (simp add: unsigned_of_nat take_bit_nat_eq_self)

lemma fld_or_push:
  assumes "v < 2 ^ n" "n * Suc k \<le> LENGTH('a)" "fld n (w :: 'a::len word) k = 0"
  shows "fld n (w OR push_bit (n * k) (of_nat v)) k' = (if k' = k then v else fld n w k')"
proof -
  let ?p = "push_bit (n * k) (of_nat v) :: 'a word"
  have or: "take_bit n (drop_bit (n * k') (w OR ?p)) = take_bit n (drop_bit (n * k') w) OR take_bit n (drop_bit (n * k') ?p)"
    by simp
  show ?thesis
  proof (cases "k' = k")
    case True
    have n: "n \<le> LENGTH('a)" using assms(2) by simp
    have "take_bit n (drop_bit (n * k) ?p) = of_nat v"
    proof (rule bit_word_eqI)
      fix j assume "j < LENGTH('a)"
      show "bit (take_bit n (drop_bit (n * k) ?p)) j = bit (of_nat v :: 'a word) j"
        using bit_of_nat_less [OF assms(1), of j] assms(2)
        by (auto simp: bit_take_bit_iff bit_drop_bit_eq bit_push_bit_iff)
    qed
    moreover have "take_bit n (drop_bit (n * k) w) = 0"
      using assms(3) by (simp add: fld_def unsigned_eq_0_iff)
    moreover have "unat (of_nat v :: 'a word) = v"
    proof -
      have "v < 2 ^ LENGTH('a)" using assms(1) n by (metis order_less_le_trans power_increasing one_le_numeral)
      then show ?thesis by (simp add: unsigned_of_nat take_bit_nat_eq_self)
    qed
    ultimately show ?thesis using True or by (simp add: fld_def)
  next
    case False
    have "take_bit n (drop_bit (n * k') ?p) = 0"
    proof (rule bit_word_eqI)
      fix j assume "j < LENGTH('a)"
      show "bit (take_bit n (drop_bit (n * k') ?p)) j = bit (0 :: 'a word) j"
        using field_index [of n k k' j] bit_of_nat_less [OF assms(1), of "n * k' + j - n * k"] False
        by (auto simp: bit_take_bit_iff bit_drop_bit_eq bit_push_bit_iff)
    qed
    then show ?thesis using False or by (simp add: fld_def)
  qed
qed

lemma drop_bit_or_push:
  assumes "v < 2 ^ n" "m + n \<le> t"
  shows "drop_bit t (w OR push_bit m (of_nat v)) = drop_bit t (w :: 'a::len word)"
proof (rule bit_word_eqI)
  fix j assume "j < LENGTH('a)"
  have "\<not> bit (of_nat v :: 'a word) (t + j - m)"
    using bit_of_nat_less [OF assms(1), of "t + j - m"] assms(2) by fastforce
  then show "bit (drop_bit t (w OR push_bit m (of_nat v))) j = bit (drop_bit t w) j"
    by (auto simp: bit_or_iff bit_drop_bit_eq bit_push_bit_iff)
qed

lemma fld_push_high:
  assumes "n * Suc k \<le> t"
  shows "fld n (push_bit t (w :: 'a::len word)) k = 0"
proof -
  have "take_bit n (drop_bit (n * k) (push_bit t w)) = 0"
    by (rule bit_word_eqI) (use assms in \<open>auto simp: bit_take_bit_iff bit_drop_bit_eq bit_push_bit_iff\<close>)
  then show ?thesis by (simp add: fld_def)
qed

lemma fld_less: "fld n w k < 2 ^ n"
  unfolding fld_def by (metis take_bit_nat_less_exp unsigned_take_bit_eq)

section \<open>Counting and selecting positions\<close>

fun cntp :: "(nat \<Rightarrow> bool) \<Rightarrow> nat \<Rightarrow> nat" where
  "cntp P 0 = 0"
| "cntp P (Suc n) = (if P n then Suc (cntp P n) else cntp P n)"

definition selp :: "(nat \<Rightarrow> bool) \<Rightarrow> nat \<Rightarrow> nat \<Rightarrow> nat option" where
  "selp P n k = idx (filter P [0..<n]) k"

lemma cntp_le: "cntp P n \<le> n"
  by (induction n) auto

lemma cntp_le_trans: "n \<le> m \<Longrightarrow> cntp P n \<le> m"
  using cntp_le le_trans by blast

lemma cntp_add: "cntp P (m + n) = cntp P m + cntp (\<lambda>i. P (m + i)) n"
  by (induction n) auto

lemma cntp_mono: "m \<le> n \<Longrightarrow> cntp P m \<le> cntp P n"
  by (metis cntp_add le_add1 le_iff_add)

lemma cntp_diff_le: "m \<le> n \<Longrightarrow> cntp P n \<le> cntp P m + (n - m)"
  by (metis add_left_mono cntp_add cntp_le le_add_diff_inverse)

lemma cntp_cong: "(\<And>i. i < n \<Longrightarrow> P i \<longleftrightarrow> Q i) \<Longrightarrow> cntp P n = cntp Q n"
  by (induction n) auto

lemma cntp_neg_add: "cntp P n + cntp (\<lambda>i. \<not> P i) n = n"
  by (induction n) auto

lemma cntp_neg: "cntp (\<lambda>i. \<not> P i) n = n - cntp P n"
  using cntp_neg_add [of P n] by linarith

lemma cntp_False [simp]: "cntp (\<lambda>i. False) n = 0"
  by (induction n) auto

lemma cntp_True [simp]: "cntp (\<lambda>i. True) n = n"
  by (induction n) auto

lemma cntp_zero_iff: "cntp P n = 0 \<longleftrightarrow> (\<forall>i<n. \<not> P i)"
  by (induction n) (auto simp: less_Suc_eq)

lemma cntp_filter: "cntp P n = length (filter P [0..<n])"
  by (induction n) auto

lemma length_filter_cntp: "length (filter Q xs) = cntp (\<lambda>j. Q (xs ! j)) (length xs)"
proof (induction xs rule: rev_induct)
  case (snoc x xs)
  have "cntp (\<lambda>j. Q ((xs @ [x]) ! j)) (length xs) = cntp (\<lambda>j. Q (xs ! j)) (length xs)"
    by (rule cntp_cong) (simp add: nth_append)
  with snoc show ?case by simp
qed simp

lemma cntp_strict: "P p \<Longrightarrow> p < n \<Longrightarrow> cntp P p < cntp P n"
  by (metis Suc_leI cntp.simps(2) cntp_mono le_imp_less_Suc not_less_eq_eq order_le_less_trans lessI less_le_trans)

lemma cntp_less_imp: "cntp P p < cntp P n \<Longrightarrow> p < n"
  using cntp_mono not_le by blast

lemma cntp_ex: "k < cntp P n \<Longrightarrow> \<exists>p<n. P p \<and> cntp P p = k"
  by (induction n) (auto split: if_splits simp: less_Suc_eq)

lemma cntp_unique:
  assumes "P p" "P q" "cntp P p = cntp P q"
  shows "p = q"
  by (metis assms cntp_strict nat_neq_iff)

lemma upt_split: "b < m \<Longrightarrow> [0..<m] = [0..<b] @ b # [Suc b..<m]"
  using upt_add_eq_append [of 0 b "m - b"] by (simp add: upt_conv_Cons)

lemma filter_upt_nth:
  assumes "P p" "p < n"
  shows "filter P [0..<n] ! cntp P p = p"
  using assms by (simp add: upt_split [of p n] nth_append cntp_filter)

lemma selp_eq_Some_iff: "selp P n k = Some p \<longleftrightarrow> p < n \<and> P p \<and> cntp P p = k"
proof
  assume sel: "selp P n k = Some p"
  then have k: "k < cntp P n" and p: "filter P [0..<n] ! k = p"
    by (auto simp: selp_def idx_eq_Some_iff cntp_filter)
  from k obtain q where "q < n" "P q" "cntp P q = k" by (blast dest: cntp_ex)
  with filter_upt_nth [of P q n] p show "p < n \<and> P p \<and> cntp P p = k" by simp
next
  assume "p < n \<and> P p \<and> cntp P p = k"
  then show "selp P n k = Some p"
    using filter_upt_nth [of P p n] cntp_strict [of P p n]
    by (auto simp: selp_def idx_eq_Some_iff cntp_filter)
qed

lemma selp_None_iff: "selp P n k = None \<longleftrightarrow> cntp P n \<le> k"
  by (auto simp: selp_def idx_def cntp_filter)

lemma selpI: "p < n \<Longrightarrow> P p \<Longrightarrow> cntp P p = k \<Longrightarrow> selp P n k = Some p"
  by (simp add: selp_eq_Some_iff)

section \<open>Iterators\<close>

text \<open>
  An iterator is a state and a \<open>next\<close> step that returns an item or \<open>None\<close> and the new
  state; the step itself may panic. \<open>collect\<close> runs a \<open>for\<close> loop over it and gathers the
  items.
\<close>

partial_function (option) collect :: "('s \<Rightarrow> ('a option \<times> 's) option) \<Rightarrow> 's \<Rightarrow> 'a list option" where
  "collect nxt s = do {
     r \<leftarrow> nxt s;
     case r of
       (None, s') \<Rightarrow> Some []
     | (Some x, s') \<Rightarrow> do { xs \<leftarrow> collect nxt s'; Some (x # xs) }
   }"

lemma collect_None: "nxt s = Some (None, s') \<Longrightarrow> collect nxt s = Some []"
  by (simp add: collect.simps [of nxt s])

lemma collect_Some: "nxt s = Some (Some x, s') \<Longrightarrow> collect nxt s' = Some xs \<Longrightarrow> collect nxt s = Some (x # xs)"
  by (simp add: collect.simps [of nxt s])

text \<open>An iterator that walks the positions \<open>k, k + 1, \<dots>\<close> of a list from a numbered state.\<close>

lemma collect_run:
  assumes "\<And>k. k < length xs \<Longrightarrow> nxt (st k) = Some (Some (xs ! k), st (Suc k))"
    and "nxt (st (length xs)) = Some (None, s')" "k \<le> length xs"
  shows "collect nxt (st k) = Some (drop k xs)"
  using assms(3)
proof (induction "length xs - k" arbitrary: k)
  case 0
  then have "k = length xs" by simp
  then show ?case using assms(2) by (simp add: collect_None)
next
  case (Suc d)
  then have rest: "collect nxt (st (Suc k)) = Some (drop (Suc k) xs)" and k: "k < length xs" by auto
  have "collect nxt (st k) = Some (xs ! k # drop (Suc k) xs)"
    by (rule collect_Some [where s' = "st (Suc k)"]) (simp_all add: assms(1) k rest)
  then show ?case using k by (simp add: Cons_nth_drop_Suc)
qed

text \<open>
  A state stands for the list \<open>den s\<close> of the items still to come when each step returns its
  first item and leaves a state for the rest.
\<close>

lemma collect_den:
  assumes "\<And>s. I s \<Longrightarrow> den s = [] \<Longrightarrow> \<exists>s'. nxt s = Some (None, s')"
    and "\<And>s x xs. I s \<Longrightarrow> den s = x # xs \<Longrightarrow> \<exists>s'. nxt s = Some (Some x, s') \<and> I s' \<and> den s' = xs"
    and "I s"
  shows "collect nxt s = Some (den s)"
  using assms(3)
proof (induction "den s" arbitrary: s)
  case Nil
  then obtain s' where "nxt s = Some (None, s')" using assms(1) by metis
  then show ?case using Nil.hyps by (simp add: collect_None)
next
  case (Cons x xs)
  then obtain s' where s': "nxt s = Some (Some x, s')" "I s'" "den s' = xs" using assms(2) by metis
  have "collect nxt s' = Some xs" using Cons.hyps(1) [of s'] s'(2,3) by simp
  with collect_Some [of nxt s x s' xs] s'(1) show ?case using Cons.hyps(2) by simp
qed

section \<open>Population count of a word\<close>

definition pop :: "'a::len word \<Rightarrow> nat" where
  "pop w = cntp (bit w) LENGTH('a)"

lemma pop_le: "pop (w :: 'a::len word) \<le> LENGTH('a)"
  by (simp add: pop_def cntp_le)

lemma pop_not: "pop (NOT w :: 'a::len word) = LENGTH('a) - pop w"
proof -
  have "cntp (bit (NOT w)) LENGTH('a) = cntp (\<lambda>i. \<not> bit w i) LENGTH('a)"
    by (rule cntp_cong) (simp add: bit_not_iff)
  then show ?thesis by (simp add: pop_def cntp_neg)
qed

lemma cntp_conj_less: "m \<le> n \<Longrightarrow> cntp (\<lambda>i. P i \<and> i < m) n = cntp P m"
proof (induction n)
  case (Suc n)
  then show ?case
    by (cases "m = Suc n") (auto intro!: cntp_cong)
qed simp

lemma pop_and_mask:
  assumes "n \<le> LENGTH('a)"
  shows "pop ((w :: 'a::len word) AND mask n) = cntp (bit w) n"
proof -
  have "cntp (bit (w AND mask n)) LENGTH('a) = cntp (\<lambda>i. bit w i \<and> i < n) LENGTH('a)"
    by (rule cntp_cong) (simp add: bit_and_iff bit_mask_iff)
  then show ?thesis using assms by (simp add: pop_def cntp_conj_less)
qed

lemma exp_minus_1_mask: "push_bit n 1 - 1 = (mask n :: 'a::len word)"
  by (simp add: mask_eq_exp_minus_1)

end
