(* ===== verification/StablePart.thy ===== *)
theory StablePart
  imports Prelude
begin

text \<open>
  The mathematics of a stable partition by a digit: the list of the elements with digit 0,
  then those with digit 1, and so on, each group in its original order (\<open>buckets\<close>).
  A level of a wavelet tree is such a partition of the level above. The lemma
  \<open>slice_buckets\<close> is what every query descends with: the elements with digit \<open>c\<close> inside a
  slice are again a slice of the partitioned list, whose ends are found by two ranks.
\<close>

definition slice :: "'a list \<Rightarrow> nat \<Rightarrow> nat \<Rightarrow> 'a list" where
  "slice xs s e = take (e - s) (drop s xs)"

definition buckets :: "('a \<Rightarrow> nat) \<Rightarrow> nat \<Rightarrow> 'a list \<Rightarrow> 'a list" where
  "buckets f m xs = concat (map (\<lambda>b. filter (\<lambda>x. f x = b) xs) [0..<m])"

text \<open>Rank and number of smaller digits in the sequence of digits of a level.\<close>

definition rank_of :: "'a list \<Rightarrow> 'a \<Rightarrow> nat \<Rightarrow> nat" where
  "rank_of xs c i = count_list (take i xs) c"

definition smaller_of :: "nat list \<Rightarrow> nat \<Rightarrow> nat" where
  "smaller_of xs c = length (filter (\<lambda>x. x < c) xs)"

definition select_of :: "'a list \<Rightarrow> 'a \<Rightarrow> nat \<Rightarrow> nat option" where
  "select_of xs c k = selp (\<lambda>i. xs ! i = c) (length xs) k"

section \<open>Slices\<close>

lemma length_slice: "e \<le> length xs \<Longrightarrow> length (slice xs s e) = e - s"
  by (simp add: slice_def)

lemma nth_slice: "e \<le> length xs \<Longrightarrow> i < e - s \<Longrightarrow> slice xs s e ! i = xs ! (s + i)"
  by (simp add: slice_def add.commute)

lemma slice_0: "slice xs 0 e = take e xs"
  by (simp add: slice_def)

lemma slice_empty: "e \<le> s \<Longrightarrow> slice xs s e = []"
  by (simp add: slice_def)

lemma slice_map: "slice (map f xs) s e = map f (slice xs s e)"
  by (simp add: slice_def take_map drop_map)

lemma take_slice: "s \<le> e \<Longrightarrow> take e xs = take s xs @ slice xs s e"
  by (metis le_add_diff_inverse slice_def take_add)

lemma slice_append3: "slice (as @ bs @ cs) (length as + i) (length as + j) = slice bs i j"
  if "j \<le> length bs"
  using that by (simp add: slice_def)

section \<open>Ranks\<close>

lemma rank_of_cntp: "i \<le> length xs \<Longrightarrow> rank_of xs c i = cntp (\<lambda>j. xs ! j = c) i"
proof -
  assume "i \<le> length xs"
  then have "cntp (\<lambda>j. take i xs ! j = c) i = cntp (\<lambda>j. xs ! j = c) i"
    by (intro cntp_cong) simp
  moreover have "count_list ys c = length (filter (\<lambda>x. x = c) ys)" for ys
    by (induction ys) auto
  ultimately show ?thesis
    using \<open>i \<le> length xs\<close> length_filter_cntp [of "\<lambda>x. x = c" "take i xs"] by (simp add: rank_of_def)
qed

lemma rank_of_map: "rank_of (map f xs) c i = length (filter (\<lambda>x. f x = c) (take i xs))"
proof -
  have "count_list (map f ys) c = length (filter (\<lambda>x. f x = c) ys)" for ys
    by (induction ys) auto
  then show ?thesis by (simp add: rank_of_def take_map)
qed

lemma rank_of_0 [simp]: "rank_of xs c 0 = 0"
  by (simp add: rank_of_def)

lemma rank_of_le: "rank_of xs c i \<le> i"
  by (metis count_le_length length_take min.cobounded2 le_trans rank_of_def)

lemma rank_of_mono: "i \<le> j \<Longrightarrow> rank_of xs c i \<le> rank_of xs c j"
  by (metis count_list_append le_add1 rank_of_def take_slice)

lemma rank_of_Suc: "i < length xs \<Longrightarrow> rank_of xs c (Suc i) = rank_of xs c i + (if xs ! i = c then 1 else 0)"
  by (simp add: rank_of_def take_Suc_conv_app_nth)

lemma select_of_Some: "select_of xs c k = Some p \<longleftrightarrow> p < length xs \<and> xs ! p = c \<and> rank_of xs c p = k"
  by (auto simp: select_of_def selp_eq_Some_iff rank_of_cntp)

lemma select_of_None: "select_of xs c k = None \<longleftrightarrow> count_list xs c \<le> k"
  using rank_of_cntp [of "length xs" xs c] by (simp add: select_of_def selp_None_iff rank_of_def)

lemma length_filter_less_Suc:
  "length (filter (\<lambda>x. f x < Suc c) xs) = length (filter (\<lambda>x. f x < c) xs) + length (filter (\<lambda>x. f x = c) xs)"
  for f :: "'a \<Rightarrow> nat"
  by (induction xs) auto

lemma smaller_of_Suc: "smaller_of xs (Suc c) = smaller_of xs c + count_list xs c"
proof -
  have "count_list xs c = length (filter (\<lambda>x. x = c) xs)" by (induction xs) auto
  then show ?thesis
    using length_filter_less_Suc [of "\<lambda>x. x" c xs] by (simp add: smaller_of_def)
qed

lemma smaller_of_0 [simp]: "smaller_of xs 0 = 0"
  by (simp add: smaller_of_def)

section \<open>The partition\<close>

lemma length_concat_buckets:
  "length (concat (map (\<lambda>b. filter (\<lambda>x. f x = b) xs) [0..<c])) = smaller_of (map f xs) c"
proof (induction c)
  case (Suc c)
  have "count_list (map f xs) c = length (filter (\<lambda>x. f x = c) xs)" by (induction xs) auto
  with Suc show ?case by (simp add: smaller_of_Suc)
qed simp

lemma buckets_split:
  assumes "c < m"
  obtains as cs where "buckets f m xs = as @ filter (\<lambda>x. f x = c) xs @ cs"
    "length as = smaller_of (map f xs) c"
proof
  have "[0..<m] = [0..<c] @ c # [Suc c..<m]"
    using assms by (rule upt_split)
  then show "buckets f m xs = concat (map (\<lambda>b. filter (\<lambda>x. f x = b) xs) [0..<c])
      @ filter (\<lambda>x. f x = c) xs @ concat (map (\<lambda>b. filter (\<lambda>x. f x = b) xs) [Suc c..<m])"
    by (simp add: buckets_def)
  show "length (concat (map (\<lambda>b. filter (\<lambda>x. f x = b) xs) [0..<c])) = smaller_of (map f xs) c"
    by (rule length_concat_buckets)
qed

lemma length_buckets: "\<forall>x\<in>set xs. f x < m \<Longrightarrow> length (buckets f m xs) = length xs"
  by (simp add: buckets_def length_concat_buckets smaller_of_def)

lemma set_buckets: "\<forall>x\<in>set xs. f x < m \<Longrightarrow> set (buckets f m xs) = set xs"
  by (auto simp: buckets_def)

lemma slice_buckets:
  assumes "c < m" "s \<le> e" "e \<le> length xs"
  shows "slice (buckets f m xs)
      (smaller_of (map f xs) c + rank_of (map f xs) c s)
      (smaller_of (map f xs) c + rank_of (map f xs) c e)
    = filter (\<lambda>x. f x = c) (slice xs s e)"
proof -
  let ?F = "filter (\<lambda>x. f x = c)"
  obtain as cs where b: "buckets f m xs = as @ ?F xs @ cs" "length as = smaller_of (map f xs) c"
    by (rule buckets_split [OF assms(1)])
  have xs: "xs = take s xs @ slice xs s e @ drop e xs"
    using assms(2) by (metis append_assoc append_take_drop_id take_slice)
  have "?F xs = ?F (take s xs) @ ?F (slice xs s e) @ ?F (drop e xs)"
    by (subst xs) (simp only: filter_append)
  moreover have "length (?F (take e xs)) = length (?F (take s xs)) + length (?F (slice xs s e))"
    using assms(2) by (simp add: take_slice [of s e])
  ultimately have "slice (?F xs) (length (?F (take s xs))) (length (?F (take e xs))) = ?F (slice xs s e)"
    by (simp add: slice_def)
  moreover have "length (?F (take e xs)) \<le> length (?F xs)"
    by (metis append_take_drop_id filter_append le_add1 length_append)
  ultimately show ?thesis
    unfolding b(1) rank_of_map b(2) [symmetric] by (subst slice_append3) auto
qed

lemma nth_buckets:
  assumes "c < m" "p < length xs" "f (xs ! p) = c"
  shows "buckets f m xs ! (smaller_of (map f xs) c + rank_of (map f xs) c p) = xs ! p"
proof -
  let ?F = "filter (\<lambda>x. f x = c)"
  obtain as cs where b: "buckets f m xs = as @ ?F xs @ cs" "length as = smaller_of (map f xs) c"
    by (rule buckets_split [OF assms(1)])
  have "xs = take p xs @ xs ! p # drop (Suc p) xs" using assms(2) by (rule id_take_nth_drop)
  then have "?F xs = ?F (take p xs) @ xs ! p # ?F (drop (Suc p) xs)"
    using assms(3) by (metis (mono_tags, lifting) filter.simps(2) filter_append)
  then show ?thesis
    unfolding b(1) rank_of_map b(2) [symmetric] by (simp add: nth_append)
qed

lemma rank_step_le:
  assumes "i \<le> length xs" "\<forall>x\<in>set xs. f x < m" "c < m"
  shows "smaller_of (map f xs) c + rank_of (map f xs) c i \<le> length xs"
proof -
  have "rank_of (map f xs) c i \<le> rank_of (map f xs) c (length xs)"
    using assms(1) by (rule rank_of_mono)
  also have "rank_of (map f xs) c (length xs) = count_list (map f xs) c" by (simp add: rank_of_def)
  finally have "smaller_of (map f xs) c + rank_of (map f xs) c i \<le> smaller_of (map f xs) (Suc c)"
    by (simp add: smaller_of_Suc)
  also have "\<dots> \<le> length xs" unfolding smaller_of_def by (metis length_filter_le length_map)
  finally show ?thesis .
qed

text \<open>Stability composes: filtering by a later property commutes with the partition.\<close>

lemma filter_buckets:
  "c < m \<Longrightarrow> filter (\<lambda>x. f x = c \<and> Q x) (buckets f m xs) = filter (\<lambda>x. f x = c \<and> Q x) xs"
proof -
  assume "c < m"
  have "filter (\<lambda>x. f x = c \<and> Q x) (concat (map (\<lambda>b. filter (\<lambda>x. f x = b) xs) bs))
      = concat (map (\<lambda>b. if b = c then filter (\<lambda>x. f x = c \<and> Q x) xs else []) bs)" for bs
    by (induction bs) (auto simp: filter_empty_conv intro!: filter_cong)
  moreover have "concat (map (\<lambda>b. if b = c then ys else []) [0..<m]) = ys" for ys :: "'a list"
    using \<open>c < m\<close>
  proof (induction m)
    case (Suc m)
    have "concat (map (\<lambda>b. if b = m then ys else []) [0..<m]) = []" by auto
    with Suc show ?case by (cases "c = m") auto
  qed simp
  ultimately show ?thesis by (simp add: buckets_def)
qed

section \<open>Writing into one block of a concatenation\<close>

lemma concat_update:
  assumes "b < m" "j < length (g b)"
  shows "(concat (map g [0..<m])) [sum_list (map (length \<circ> g) [0..<b]) + j := s]
    = concat (map (g(b := (g b)[j := s])) [0..<m])"
proof -
  have u: "[0..<m] = [0..<b] @ b # [Suc b..<m]"
    using assms(1) by (rule upt_split)
  have l: "length (concat (map g [0..<b])) = sum_list (map (length \<circ> g) [0..<b])"
    by (simp add: length_concat o_def)
  have m: "map (g(b := (g b)[j := s])) [0..<b] = map g [0..<b]"
    "map (g(b := (g b)[j := s])) [Suc b..<m] = map g [Suc b..<m]" by auto
  show ?thesis
    unfolding u map_append concat_append list.map concat.simps m
    using assms(2) by (simp add: list_update_append l [symmetric])
qed

end
