(* ===== verification/SelectWord.thy ===== *)
theory SelectWord
  imports SelectTable
begin

text \<open>
  The word-level select of \<^verbatim>\<open>src/utils/mod.rs\<close>: the table \<open>K_SELECT_IN_BYTE\<close>, the
  broadword \<open>select_in_word\<close> and its two-word version \<open>select_in_word_u128\<close>.

  The additions, subtractions and multiplications the Rust code writes with plain operators
  are checked (\<open>None\<close> on overflow), \<open>wrapping_mul\<close> wraps. The main result,
  \<open>select_in_word_eq\<close>, says that for every word and every rank below 128 nothing
  overflows, the table is read inside its bounds, and the result is the position of the
  set bit with that rank, or 64 when there is none.

  The proof reads a word as eight base-256 digits (\<open>bval\<close>): every mask-and-shift step
  acts on the digits one by one, the multiplication turns them into prefix sums.
\<close>

unbundle bit_operations_syntax

section \<open>The code\<close>

definition chk_add_w :: "'a::len word \<Rightarrow> 'a word \<Rightarrow> 'a word option" where
  "chk_add_w a b = (if unat a + unat b < 2 ^ LENGTH('a) then Some (a + b) else None)"

definition chk_sub_w :: "'a::len word \<Rightarrow> 'a word \<Rightarrow> 'a word option" where
  "chk_sub_w a b = (if b \<le> a then Some (a - b) else None)"

definition chk_mul_w :: "'a::len word \<Rightarrow> 'a word \<Rightarrow> 'a word option" where
  "chk_mul_w a b = (if unat a * unat b < 2 ^ LENGTH('a) then Some (a * b) else None)"

definition select_in_word :: "u64 \<Rightarrow> u64 \<Rightarrow> nat option" where
  "select_in_word word k = do {
     let k_ones_step4 = 0x1111111111111111;
     let k_ones_step8 = 0x0101010101010101;
     let k_lambdas_step8 = 0x8080808080808080;
     s \<leftarrow> chk_sub_w word (drop_bit 1 (word AND (0xA * k_ones_step4)));
     s \<leftarrow> chk_add_w (s AND (0x3 * k_ones_step4)) ((drop_bit 2 s) AND (0x3 * k_ones_step4));
     s \<leftarrow> chk_add_w s (drop_bit 4 s);
     let s = s AND (0xF * k_ones_step8);
     let byte_sums = s * k_ones_step8;
     k_step8 \<leftarrow> chk_mul_w k k_ones_step8;
     d \<leftarrow> chk_sub_w (k_step8 OR k_lambdas_step8) byte_sums;
     let geq_k_step8 = d AND k_lambdas_step8;
     let place = pop geq_k_step8 * 8;
     if place = 64 then Some 64
     else do {
       byte_rank \<leftarrow> chk_sub_w k ((drop_bit place (push_bit 8 byte_sums)) AND 0xFF);
       t \<leftarrow> idx K_SELECT_IN_BYTE
              (unat (((drop_bit place word) AND 0xFF) OR (push_bit 8 byte_rank)));
       Some (place + t)
     }
   }"

definition select_in_word_u128 :: "u128 \<Rightarrow> u64 \<Rightarrow> nat option" where
  "select_in_word_u128 word k = (
     let first = (ucast word :: u64); kp = pop first in
     if kp > unat k then select_in_word first k
     else do {
       k' \<leftarrow> chk_sub_w k (of_nat kp);
       r \<leftarrow> select_in_word (ucast (drop_bit 64 word)) k';
       Some (64 + r)
     })"

section \<open>Numbers as lists of bytes\<close>

fun bval :: "nat list \<Rightarrow> nat" where
  "bval [] = 0"
| "bval (b # bs) = b + 256 * bval bs"

lemma bval_less: "(\<forall>b\<in>set bs. b < 256) \<Longrightarrow> bval bs < 256 ^ length bs"
proof (induction bs)
  case (Cons b bs)
  then have "bval bs + 1 \<le> 256 ^ length bs" "b < 256" by auto
  then show ?case by simp
qed simp

lemma bval_add: "length xs = length ys \<Longrightarrow> bval (map2 (+) xs ys) = bval xs + bval ys"
  by (induction xs ys rule: list_induct2) auto

lemma bval_le: "list_all2 (\<le>) xs ys \<Longrightarrow> bval xs \<le> bval ys"
  by (induction xs ys rule: list_all2_induct) auto

lemma bval_diff: "list_all2 (\<le>) ys xs \<Longrightarrow> bval (map2 (-) xs ys) = bval xs - bval ys"
proof (induction ys xs rule: list_all2_induct)
  case (Cons y ys x xs)
  have "bval ys \<le> bval xs" using Cons.hyps(2) by (rule bval_le)
  then show ?case using Cons by simp
qed simp

lemma field_and:
  fixes a c x y :: nat
  assumes "a < 2 ^ m" "c < 2 ^ m"
  shows "(a + 2 ^ m * x) AND (c + 2 ^ m * y) = (a AND c) + 2 ^ m * (x AND y)"
proof -
  have tk: "take_bit m (a + 2 ^ m * x) = a" "take_bit m (c + 2 ^ m * y) = c"
    using assms by (simp_all add: take_bit_eq_mod)
  have dr: "drop_bit m (a + 2 ^ m * x) = x" "drop_bit m (c + 2 ^ m * y) = y"
    using assms by (simp_all add: drop_bit_eq_div)
  have split: "n = take_bit m n + 2 ^ m * drop_bit m n" for n :: nat
    by (simp add: take_bit_eq_mod drop_bit_eq_div)
  show ?thesis
    using split [of "(a + 2 ^ m * x) AND (c + 2 ^ m * y)"]
    by (simp only: take_bit_and drop_bit_and tk dr)
qed

lemma byte_and:
  "a < 256 \<Longrightarrow> c < 256 \<Longrightarrow> (a + 256 * x) AND (c + 256 * y) = (a AND c) + 256 * (x AND y)"
  for a c x y :: nat
  using field_and [of a 8 c x y] by simp

lemma bval_and:
  "length xs = length ys \<Longrightarrow> \<forall>b\<in>set xs. b < 256 \<Longrightarrow> \<forall>b\<in>set ys. b < 256
     \<Longrightarrow> bval xs AND bval ys = bval (map2 (AND) xs ys)"
  by (induction xs ys rule: list_induct2) (simp_all add: byte_and)

lemma field_or:
  fixes a c x y :: nat
  assumes "a < 2 ^ m" "c < 2 ^ m"
  shows "(a + 2 ^ m * x) OR (c + 2 ^ m * y) = (a OR c) + 2 ^ m * (x OR y)"
proof -
  have tk: "take_bit m (a + 2 ^ m * x) = a" "take_bit m (c + 2 ^ m * y) = c"
    using assms by (simp_all add: take_bit_eq_mod)
  have dr: "drop_bit m (a + 2 ^ m * x) = x" "drop_bit m (c + 2 ^ m * y) = y"
    using assms by (simp_all add: drop_bit_eq_div)
  have split: "n = take_bit m n + 2 ^ m * drop_bit m n" for n :: nat
    by (simp add: take_bit_eq_mod drop_bit_eq_div)
  show ?thesis
    using split [of "(a + 2 ^ m * x) OR (c + 2 ^ m * y)"]
    by (simp only: take_bit_or drop_bit_or tk dr)
qed

lemma byte_or:
  "a < 256 \<Longrightarrow> c < 256 \<Longrightarrow> (a + 256 * x) OR (c + 256 * y) = (a OR c) + 256 * (x OR y)"
  for a c x y :: nat
  using field_or [of a 8 c x y] by simp

lemma bval_or:
  "length xs = length ys \<Longrightarrow> \<forall>b\<in>set xs. b < 256 \<Longrightarrow> \<forall>b\<in>set ys. b < 256
     \<Longrightarrow> bval xs OR bval ys = bval (map2 (OR) xs ys)"
  by (induction xs ys rule: list_induct2) (simp_all add: byte_or)

text \<open>The bytes of a word.\<close>

fun nbytes :: "nat \<Rightarrow> nat \<Rightarrow> nat list" where
  "nbytes 0 x = []"
| "nbytes (Suc n) x = x mod 256 # nbytes n (x div 256)"

lemma length_nbytes [simp]: "length (nbytes n x) = n"
  by (induction n arbitrary: x) auto

lemma nbytes_less: "\<forall>b\<in>set (nbytes n x). b < 256"
  by (induction n arbitrary: x) auto

lemma bval_nbytes: "x < 256 ^ n \<Longrightarrow> bval (nbytes n x) = x"
  by (induction n arbitrary: x) (auto simp: less_mult_imp_div_less mult.commute)

lemma nth_nbytes: "j < n \<Longrightarrow> nbytes n x ! j = x div 256 ^ j mod 256"
  by (induction n arbitrary: x j) (auto simp: nth_Cons div_mult2_eq split: nat.splits)

lemma bval_digit:
  "\<forall>b\<in>set bs. b < 256 \<Longrightarrow> j < length bs \<Longrightarrow> bval bs div 256 ^ j mod 256 = bs ! j"
proof (induction bs arbitrary: j)
  case (Cons b bs)
  then show ?case
    by (cases j) (simp_all add: div_mult2_eq)
qed simp

section \<open>The three sideways-addition steps, byte by byte\<close>

definition sw1 :: "nat \<Rightarrow> nat" where "sw1 b = b - (b AND 170) div 2"
definition sw2 :: "nat \<Rightarrow> nat" where "sw2 b = (b AND 51) + ((b div 4) AND 51)"
definition sw3 :: "nat \<Rightarrow> nat" where "sw3 b = (b mod 16 + b div 16) mod 16"

lemma less_4_cases: "(x::nat) < 4 \<Longrightarrow> x = 0 \<or> x = 1 \<or> x = 2 \<or> x = 3"
  by auto

lemma cntp_field:
  assumes "x < 4"
  shows "cntp (bit (x + 4 * y)) (2 + n) = (x - x div 2) + cntp (bit y) n"
proof -
  have "bit (x + 4 * y) (2 + i) = bit y i" for i
  proof -
    have "(x + 4 * y) div 2 div 2 = y" using assms by simp
    then show ?thesis by (simp add: numeral_2_eq_2 bit_Suc)
  qed
  moreover have "cntp (bit (x + 4 * y)) 2 = x - x div 2"
  proof -
    have "(x + 4 * y) div 2 = x div 2 + 2 * y" by presburger
    then have "bit (x + 4 * y) 0 = odd x" "bit (x + 4 * y) (Suc 0) = odd (x div 2)"
      by (simp_all add: bit_0 bit_Suc)
    moreover have "cntp Q 2 = (if Q 0 then 1 else 0) + (if Q (Suc 0) then 1 else 0)" for Q
      by (simp add: numeral_2_eq_2)
    ultimately have "cntp (bit (x + 4 * y)) 2 = (if odd x then 1 else 0) + (if odd (x div 2) then 1 else 0)"
      by simp
    then show ?thesis
      using less_4_cases [OF assms] by (elim disjE) simp_all
  qed
  ultimately show ?thesis by (simp only: cntp_add)
qed

lemma byte_fields:
  assumes "(b::nat) < 256"
  obtains x0 x1 x2 x3 where "x0 < 4" "x1 < 4" "x2 < 4" "x3 < 4"
    "b = x0 + 4 * (x1 + 4 * (x2 + 4 * x3))"
proof
  show "b mod 4 < 4" "b div 4 mod 4 < 4" "b div 4 div 4 mod 4 < 4" "b div 4 div 4 div 4 < 4"
    using assms by auto
  show "b = b mod 4 + 4 * (b div 4 mod 4 + 4 * (b div 4 div 4 mod 4 + 4 * (b div 4 div 4 div 4)))"
    by simp
qed

lemma and_2_half: "x < 4 \<Longrightarrow> (x AND 2) = 2 * (x div 2)" for x :: nat
  by (auto dest!: less_4_cases)

lemma sw1_fields:
  assumes "x0 < 4" "x1 < 4" "x2 < 4" "x3 < 4"
  shows "sw1 (x0 + 4 * (x1 + 4 * (x2 + 4 * x3)))
    = (x0 - x0 div 2) + 4 * ((x1 - x1 div 2) + 4 * ((x2 - x2 div 2) + 4 * (x3 - x3 div 2)))"
proof -
  note f = field_and [of _ 2, simplified]
  have "(x0 + 4 * (x1 + 4 * (x2 + 4 * x3))) AND (2 + 4 * (2 + 4 * (2 + 4 * 2)))
      = 2 * (x0 div 2 + 4 * (x1 div 2 + 4 * (x2 div 2 + 4 * (x3 div 2))))"
    using f [of x0 2 "x1 + 4 * (x2 + 4 * x3)" "2 + 4 * (2 + 4 * 2)"]
      f [of x1 2 "x2 + 4 * x3" "2 + 4 * 2"] f [of x2 2 x3 2] assms and_2_half by simp
  moreover have "a0 + 4 * (a1 + 4 * (a2 + 4 * a3)) - (d0 + 4 * (d1 + 4 * (d2 + 4 * d3)))
      = (a0 - d0) + 4 * ((a1 - d1) + 4 * ((a2 - d2) + 4 * (a3 - d3)))"
    if "d0 \<le> a0" "d1 \<le> a1" "d2 \<le> a2" "d3 \<le> a3" for a0 a1 a2 a3 d0 d1 d2 d3 :: nat
    using that by simp
  ultimately show ?thesis
    unfolding sw1_def by simp
qed

lemma sw2_fields:
  assumes "p0 \<le> 2" "p1 \<le> 2" "p2 \<le> 2" "p3 \<le> 2"
  shows "sw2 (p0 + 4 * (p1 + 4 * (p2 + 4 * p3))) = (p0 + p1) + 16 * (p2 + p3)"
proof -
  note f = field_and [of _ 4, simplified]
  have and3: "(a + 4 * b) AND 3 = a" if "a \<le> 2" for a b :: nat
  proof -
    have "(a + 4 * b) AND 3 = take_bit 2 (a + 4 * b)"
      by (simp add: take_bit_eq_mask mask_eq_exp_minus_1)
    then show ?thesis using that by (simp add: take_bit_eq_mod)
  qed
  have "(p0 + 4 * (p1 + 4 * (p2 + 4 * p3))) AND 51 = ((p0 + 4 * p1) AND 3) + 16 * ((p2 + 4 * p3) AND 3)"
    using f [of "p0 + 4 * p1" 3 "p2 + 4 * p3" 3] assms by (simp add: algebra_simps)
  moreover have "(p0 + 4 * (p1 + 4 * (p2 + 4 * p3))) div 4 = (p1 + 4 * p2) + 16 * p3"
    using assms by simp
  moreover have "((p1 + 4 * p2) + 16 * p3) AND 51 = ((p1 + 4 * p2) AND 3) + 16 * ((p3 + 4 * 0) AND 3)"
    using f [of "p1 + 4 * p2" 3 p3 3] assms by simp
  ultimately show ?thesis
    unfolding sw2_def by (simp only: and3 assms) simp
qed

lemma sw_pop:
  assumes "b < 256"
  shows "sw3 (sw2 (sw1 b)) = cntp (bit b) 8" "sw1 b < 256"
    "sw2 (sw1 b) div 16 \<le> 4" "sw2 (sw1 b) mod 16 \<le> 4"
proof -
  obtain x0 x1 x2 x3 where x: "x0 < 4" "x1 < 4" "x2 < 4" "x3 < 4"
    and b: "b = x0 + 4 * (x1 + 4 * (x2 + 4 * x3))"
    by (rule byte_fields [OF assms])
  define p0 p1 p2 p3 where p: "p0 = x0 - x0 div 2" "p1 = x1 - x1 div 2" "p2 = x2 - x2 div 2" "p3 = x3 - x3 div 2"
  have le: "p0 \<le> 2" "p1 \<le> 2" "p2 \<le> 2" "p3 \<le> 2"
    using x unfolding p by linarith+
  have s1: "sw1 b = p0 + 4 * (p1 + 4 * (p2 + 4 * p3))"
    unfolding b p by (rule sw1_fields [OF x])
  have s2: "sw2 (sw1 b) = (p0 + p1) + 16 * (p2 + p3)"
    unfolding s1 by (rule sw2_fields [OF le])
  have "cntp (bit x3) (2 + 0) = p3" using cntp_field [OF x(4), of 0 0] p by simp
  then have "cntp (bit b) (2 + (2 + (2 + (2 + 0)))) = p0 + (p1 + (p2 + p3))"
    unfolding b p by (simp only: cntp_field x)
  then have c: "cntp (bit b) 8 = p0 + p1 + p2 + p3" by (simp add: add.assoc)
  have "sw3 (u + 16 * v) = u + v" if "u + v < 16" for u v using that by (simp add: sw3_def)
  from this [of "p0 + p1" "p2 + p3"] show "sw3 (sw2 (sw1 b)) = cntp (bit b) 8"
    using le unfolding s2 c by linarith
  show "sw1 b < 256" using le unfolding s1 by simp
  have "(u + 16 * v) div 16 = v" "(u + 16 * v) mod 16 = u" if "u < 16" for u v :: nat
    using that by simp_all
  from this [of "p0 + p1" "p2 + p3"]
  show "sw2 (sw1 b) div 16 \<le> 4" "sw2 (sw1 b) mod 16 \<le> 4" using le unfolding s2 by linarith+
qed

section \<open>The steps on a whole word\<close>

lemma map2_replicate: "length xs = n \<Longrightarrow> map2 f xs (replicate n c) = map (\<lambda>x. f x c) xs"
  by (induction xs arbitrary: n) auto

lemma bval_even: "\<forall>y\<in>set ys. even y \<Longrightarrow> even (bval ys)"
  by (induction ys) auto

lemma bval_half: "\<forall>y\<in>set ys. even y \<Longrightarrow> bval ys div 2 = bval (map (\<lambda>y. y div 2) ys)"
proof (induction ys)
  case (Cons y ys)
  then have "even (bval ys)" by (simp add: bval_even)
  then have "(y + 256 * bval ys) div 2 = y div 2 + 256 * (bval ys div 2)"
    using Cons.prems by (auto elim!: evenE)
  then show ?case using Cons by simp
qed simp

lemma bval_sw1:
  assumes "\<forall>b\<in>set bs. b < 256" "length bs = n"
  shows "bval bs - (bval bs AND bval (replicate n 170)) div 2 = bval (map sw1 bs)"
    and "(bval bs AND bval (replicate n 170)) div 2 \<le> bval bs"
proof -
  have "(bval bs AND bval (replicate n 170)) div 2 = bval (map (\<lambda>b. b AND 170) bs) div 2"
    using assms by (simp add: bval_and map2_replicate)
  also have "\<dots> = bval (map (\<lambda>b. (b AND 170) div 2) bs)"
    by (simp add: bval_half even_and_iff o_def)
  finally have h: "(bval bs AND bval (replicate n 170)) div 2 = bval (map (\<lambda>b. (b AND 170) div 2) bs)" .
  have le: "list_all2 (\<le>) (map (\<lambda>b. (b AND 170) div 2) bs) bs"
  proof (rule list_all2_all_nthI)
    fix i assume "i < length (map (\<lambda>b. (b AND 170) div 2) bs)"
    moreover have "b AND 170 \<le> b" for b :: nat
      by (simp add: and_nat_def nat_le_iff AND_upper1)
    ultimately show "map (\<lambda>b. (b AND 170) div 2) bs ! i \<le> bs ! i"
      by simp (meson div_le_dividend le_trans)
  qed simp
  have "map2 (-) bs (map (\<lambda>b. (b AND 170) div 2) bs) = map sw1 bs"
    by (rule nth_equalityI) (simp_all add: sw1_def)
  with bval_diff [OF le] show "bval bs - (bval bs AND bval (replicate n 170)) div 2 = bval (map sw1 bs)"
    by (simp add: h)
  show "(bval bs AND bval (replicate n 170)) div 2 \<le> bval bs"
    using bval_le [OF le] by (simp add: h)
qed

lemma bval_shift2:
  "\<forall>c\<in>set cs. c < 256 \<Longrightarrow>
     (bval cs div 4) AND bval (replicate (length cs) 51) = bval (map (\<lambda>c. (c div 4) AND 51) cs)"
proof (induction cs)
  case (Cons c cs)
  let ?v = "bval cs"
  have c: "c < 256" using Cons.prems by simp
  have c4: "c div 4 < 64" using c by simp
  have "(c + 256 * ?v) div 4 = c div 4 + 64 * ?v"
    using div_mult_self1 [of 4 c "64 * ?v"] by (simp add: mult.commute)
  also have "64 * ?v = 64 * (?v mod 4) + 256 * (?v div 4)"
    using mult_div_mod_eq [of 4 ?v] by linarith
  finally have "(c + 256 * ?v) div 4 = (c div 4 + 64 * (?v mod 4)) + 256 * (?v div 4)"
    by simp
  moreover have "?v mod 4 < 4" by simp
  then have "c div 4 + 64 * (?v mod 4) < 256" using c4 by linarith
  moreover have "(c div 4 + 64 * (?v mod 4)) AND 51 = (c div 4) AND 51"
    using field_and [of "c div 4" 6 51 "?v mod 4" 0] c4 by simp
  ultimately show ?case
    using Cons by (simp add: byte_and)
qed simp

lemma bval_sw2:
  assumes "\<forall>c\<in>set cs. c < 256" "length cs = n"
  shows "(bval cs AND bval (replicate n 51)) + ((bval cs div 4) AND bval (replicate n 51))
    = bval (map sw2 cs)"
proof -
  have "bval cs AND bval (replicate n 51) = bval (map (\<lambda>c. c AND 51) cs)"
    using assms by (simp add: bval_and map2_replicate)
  moreover have "map2 (+) (map (\<lambda>c. c AND 51) cs) (map (\<lambda>c. (c div 4) AND 51) cs) = map sw2 cs"
    by (rule nth_equalityI) (simp_all add: sw2_def)
  ultimately show ?thesis
    using bval_add [of "map (\<lambda>c. c AND 51) cs" "map (\<lambda>c. (c div 4) AND 51) cs"]
      bval_shift2 [OF assms(1)] assms(2) by simp
qed

lemma bval_mod_16: "bval ds mod 16 = (case ds of [] \<Rightarrow> 0 | d # _ \<Rightarrow> d mod 16)"
proof (cases ds)
  case (Cons d ds')
  have "(d + 256 * bval ds') mod 16 = d mod 16"
    using mod_mult_self1 [of d "16 * bval ds'" 16] by (simp add: mult.commute)
  then show ?thesis by (simp add: Cons)
qed simp

lemma and_15: "n AND 15 = n mod 16" for n :: nat
  using take_bit_eq_mask [of 4 n] by (simp add: take_bit_eq_mod mask_eq_exp_minus_1)

lemma bval_sw3:
  "\<forall>d\<in>set ds. d div 16 \<le> 4 \<and> d mod 16 \<le> 4 \<Longrightarrow>
     (bval ds + bval ds div 16) AND bval (replicate (length ds) 15) = bval (map sw3 ds)"
proof (induction ds)
  case (Cons d ds)
  let ?v = "bval ds"
  have d: "d div 16 \<le> 4" "d mod 16 \<le> 4" using Cons.prems by auto
  have v: "?v mod 16 \<le> 4" using Cons.prems by (auto simp: bval_mod_16 split: list.splits)
  have "(d + 256 * ?v) div 16 = d div 16 + 16 * ?v"
    using div_mult_self1 [of 16 d "16 * ?v"] by (simp add: mult.commute)
  moreover have "?v = ?v mod 16 + 16 * (?v div 16)" by simp
  moreover have "x = e + 16 * v \<Longrightarrow> v = r + 16 * q
      \<Longrightarrow> d + 256 * v + x = (d + e + 16 * r) + 256 * (v + q)" for x e v r q :: nat
    by simp
  ultimately have "(d + 256 * ?v) + (d + 256 * ?v) div 16
      = (d + d div 16 + 16 * (?v mod 16)) + 256 * (?v + ?v div 16)"
    by blast
  moreover have "d = d mod 16 + 16 * (d div 16)" by simp
  then have "d + d div 16 + 16 * (?v mod 16) < 256"
    using d v by linarith
  moreover have "(d + d div 16 + 16 * (?v mod 16)) AND 15 = sw3 d"
    unfolding and_15 sw3_def by (simp add: mod_add_left_eq)
  ultimately have "((d + 256 * ?v) + (d + 256 * ?v) div 16) AND (15 + 256 * r)
      = sw3 d + 256 * ((?v + ?v div 16) AND r)" for r
    by (simp only:) (subst byte_and, simp_all)
  with Cons show ?case by simp
qed simp

lemma bit_nbytes:
  assumes "j < 8" "i < 8"
  shows "bit (nbytes 8 (unat (w :: u64)) ! j) i = bit w (8 * j + i)"
proof -
  have "nbytes 8 (unat w) ! j = take_bit 8 (drop_bit (8 * j) (unat w))"
    using assms(1) by (simp add: nth_nbytes take_bit_eq_mod drop_bit_eq_div power_mult)
  moreover have "bit (unat w) n = bit w n" for n
    using bit_imp_le_length [of w n] by (auto simp: bit_unsigned_iff)
  ultimately show ?thesis
    using assms(2) by (simp add: bit_take_bit_iff bit_drop_bit_eq)
qed

lemma cntp_bytes:
  "j \<le> 8 \<Longrightarrow> sum_list (take j (map (\<lambda>b. cntp (bit b) 8) (nbytes 8 (unat (w :: u64))))) = cntp (bit w) (8 * j)"
proof (induction j)
  case (Suc j)
  have "cntp (bit w) (8 * Suc j) = cntp (bit w) (8 * j) + cntp (\<lambda>i. bit w (8 * j + i)) 8"
    by (metis cntp_add mult_Suc_right add.commute)
  moreover have "cntp (\<lambda>i. bit w (8 * j + i)) 8 = cntp (bit (nbytes 8 (unat w) ! j)) 8"
    using Suc.prems by (intro cntp_cong) (simp add: bit_nbytes)
  ultimately show ?case
    using Suc by (simp add: take_Suc_conv_app_nth del: nbytes.simps)
qed simp

lemma unat_less_bytes: "unat (w :: u64) < 256 ^ 8"
  using unsigned_less [of w] by simp

lemma bval_word: "bval (nbytes 8 (unat (w :: u64))) = unat w"
  by (rule bval_nbytes) (rule unat_less_bytes)

lemma length8_obtain:
  assumes "length xs = 8"
  obtains a b c d e f g h where "xs = [a, b, c, d, e, f, g, h]"
  using assms by (auto simp: length_Suc_conv numeral_eq_Suc)

lemma replicate8: "replicate 8 x = [x, x, x, x, x, x, x, x]"
  by (simp add: numeral_eq_Suc)

lemma nbytes_bval: "\<forall>b\<in>set bs. b < 256 \<Longrightarrow> nbytes (length bs) (bval bs) = bs"
  by (induction bs) auto

text \<open>After the third step every byte holds the number of bits set in that byte of the word.\<close>

lemma byte_counts:
  fixes w :: u64
  defines "bs \<equiv> nbytes 8 (unat w)"
  obtains s1 s2 s3 where
    "chk_sub_w w (drop_bit 1 (w AND 0xAAAAAAAAAAAAAAAA)) = Some s1"
    "chk_add_w (s1 AND 0x3333333333333333) ((drop_bit 2 s1) AND 0x3333333333333333) = Some s2"
    "chk_add_w s2 (drop_bit 4 s2) = Some s3"
    "unat (s3 AND 0x0F0F0F0F0F0F0F0F) = bval (map (\<lambda>b. cntp (bit b) 8) bs)"
proof -
  have bs: "\<forall>b\<in>set bs. b < 256" "length bs = 8" "bval bs = unat w"
    by (simp_all add: bs_def nbytes_less bval_word)
  let ?cs = "map sw1 bs" and ?ds = "map (\<lambda>b. sw2 (sw1 b)) bs"
  have cs: "\<forall>c\<in>set ?cs. c < 256" using bs(1) by (auto simp: sw_pop)
  have ds: "\<forall>d\<in>set ?ds. d div 16 \<le> 4 \<and> d mod 16 \<le> 4" using bs(1) by (auto simp: sw_pop)
  have m170: "unat (0xAAAAAAAAAAAAAAAA :: u64) = bval (replicate 8 170)"
    and m51: "unat (0x3333333333333333 :: u64) = bval (replicate 8 51)"
    and m15: "unat (0x0F0F0F0F0F0F0F0F :: u64) = bval (replicate 8 15)"
    by (simp_all add: replicate8)
  define s1 where "s1 = w - drop_bit 1 (w AND 0xAAAAAAAAAAAAAAAA)"
  have h: "unat (drop_bit 1 (w AND 0xAAAAAAAAAAAAAAAA)) = (bval bs AND bval (replicate 8 170)) div 2"
    by (simp only: unat_drop_bit_eq unsigned_and_eq m170 bs(3)) (simp add: drop_bit_eq_div)
  have le1: "drop_bit 1 (w AND 0xAAAAAAAAAAAAAAAA) \<le> w"
    using bval_sw1(2) [OF bs(1,2)] by (simp only: word_le_nat_alt h bs(3))
  have s1: "unat s1 = bval ?cs"
    using bval_sw1(1) [OF bs(1,2)] unat_sub [OF le1] by (simp only: s1_def h bs(3))
  have add2: "unat (s1 AND 0x3333333333333333) + unat ((drop_bit 2 s1) AND 0x3333333333333333) = bval ?ds"
    using bval_sw2 [OF cs, of 8] bs(2)
    by (simp only: unat_drop_bit_eq unsigned_and_eq m51 s1) (simp add: drop_bit_eq_div o_def)
  have "d < 256" if "d \<in> set ?ds" for d
  proof -
    have "d = d mod 16 + 16 * (d div 16)" by simp
    then show ?thesis using ds that by fastforce
  qed
  then have ds_less: "bval ?ds < 256 ^ 8"
    using bval_less [of ?ds] bs(2) by simp
  define s2 where "s2 = (s1 AND 0x3333333333333333) + ((drop_bit 2 s1) AND 0x3333333333333333)"
  have ov2: "unat (s1 AND 0x3333333333333333) + unat ((drop_bit 2 s1) AND 0x3333333333333333) < 2 ^ LENGTH(64)"
    unfolding add2 using ds_less by simp
  then have s2: "unat s2 = bval ?ds"
    unfolding s2_def add2 [symmetric] by (simp only: unat_add_lem)
  define s3 where "s3 = s2 + drop_bit 4 s2"
  have top: "bval ?ds div 16 \<le> bval (replicate 8 4) * 16 + 4" "bval ?ds \<le> bval (replicate 8 68)"
  proof -
    have "list_all2 (\<le>) ?ds (replicate 8 68)"
    proof (rule list_all2_all_nthI)
      fix i assume i: "i < length ?ds"
      have "?ds ! i \<in> set ?ds" using i by (rule nth_mem)
      then have "?ds ! i div 16 \<le> 4 \<and> ?ds ! i mod 16 \<le> 4" using ds by blast
      moreover have "?ds ! i = ?ds ! i mod 16 + 16 * (?ds ! i div 16)" by simp
      ultimately have "?ds ! i \<le> 68" by linarith
      then show "?ds ! i \<le> replicate 8 68 ! i" using i bs(2) by simp
    qed (simp add: bs(2))
    then show le: "bval ?ds \<le> bval (replicate 8 68)" by (rule bval_le)
    have "bval ?ds div 16 \<le> bval (replicate 8 68) div 16" using le by (rule div_le_mono)
    then show "bval ?ds div 16 \<le> bval (replicate 8 4) * 16 + 4" by (simp add: replicate8)
  qed
  have d4: "unat (drop_bit 4 s2) = bval ?ds div 16"
    by (simp only: unat_drop_bit_eq s2) (simp add: drop_bit_eq_div)
  have ov3: "unat s2 + unat (drop_bit 4 s2) < 2 ^ LENGTH(64)"
    using top unfolding s2 d4 by (simp add: replicate8)
  then have "unat s3 = unat s2 + unat (drop_bit 4 s2)"
    unfolding s3_def by (simp only: unat_add_lem)
  then have s3: "unat s3 = bval ?ds + bval ?ds div 16" by (simp only: s2 d4)
  have "unat (s3 AND 0x0F0F0F0F0F0F0F0F) = bval (map sw3 ?ds)"
    using bval_sw3 [OF ds] bs(2) by (simp only: unsigned_and_eq m15 s3 length_map)
  also have "map sw3 ?ds = map (\<lambda>b. cntp (bit b) 8) bs"
    using bs(1) by (simp add: sw_pop)
  finally have "unat (s3 AND 0x0F0F0F0F0F0F0F0F) = bval (map (\<lambda>b. cntp (bit b) 8) bs)" .
  moreover have "chk_sub_w w (drop_bit 1 (w AND 0xAAAAAAAAAAAAAAAA)) = Some s1"
    unfolding chk_sub_w_def s1_def by (rule if_P [OF le1])
  moreover have "chk_add_w (s1 AND 0x3333333333333333) ((drop_bit 2 s1) AND 0x3333333333333333) = Some s2"
    unfolding chk_add_w_def s2_def by (rule if_P [OF ov2])
  moreover have "chk_add_w s2 (drop_bit 4 s2) = Some s3"
    unfolding chk_add_w_def s3_def by (rule if_P [OF ov3])
  ultimately show ?thesis using that by blast
qed

section \<open>Prefix sums, comparison and the result\<close>

lemma prefix_sums:
  assumes "length ps = 8" "\<forall>p\<in>set ps. p \<le> 8"
  shows "bval ps * 0x0101010101010101 mod 2 ^ 64
    = bval (map (\<lambda>j. sum_list (take (Suc j) ps)) [0..<8])"
proof -
  obtain a b c d e f g h where ps: "ps = [a, b, c, d, e, f, g, h]"
    by (rule length8_obtain [OF assms(1)])
  let ?lo = "bval [a, a+b, a+b+c, a+b+c+d, a+b+c+d+e, a+b+c+d+e+f, a+b+c+d+e+f+g, a+b+c+d+e+f+g+h]"
  let ?hi = "bval [b+c+d+e+f+g+h, c+d+e+f+g+h, d+e+f+g+h, e+f+g+h, f+g+h, g+h, h]"
  have "bval ps * 0x0101010101010101 = ?lo + 2 ^ 64 * ?hi"
    unfolding ps by simp
  moreover have "?lo < 2 ^ 64"
  proof -
    have "?lo < 256 ^ 8"
      by (rule less_le_trans [OF bval_less]) (use assms(2) in \<open>auto simp: ps\<close>)
    then show ?thesis by simp
  qed
  moreover have "[a, a+b, a+b+c, a+b+c+d, a+b+c+d+e, a+b+c+d+e+f, a+b+c+d+e+f+g, a+b+c+d+e+f+g+h]
      = map (\<lambda>j. sum_list (take (Suc j) ps)) [0..<8]"
    unfolding ps by (simp add: numeral_eq_Suc)
  ultimately show ?thesis by (metis mod_less mod_mult_self2)
qed

lemma cntp_8: "cntp P 8 = of_bool (P 0) + of_bool (P 1) + of_bool (P 2) + of_bool (P 3)
    + of_bool (P 4) + of_bool (P 5) + of_bool (P 6) + of_bool (P 7)"
  by (simp add: numeral_eq_Suc)

lemma cntp_downset:
  assumes "\<And>i j. i \<le> j \<Longrightarrow> Q j \<Longrightarrow> Q i" "j < n"
  shows "Q j \<longleftrightarrow> j < cntp Q n"
  using assms(2)
proof (induction n)
  case (Suc n)
  show ?case
  proof (cases "Q n")
    case True
    then have all: "\<And>i. i \<le> n \<Longrightarrow> Q i" using assms(1) by blast
    then have "cntp Q (Suc n) = Suc n" using cntp_cong [of "Suc n" Q "\<lambda>i. True"] by simp
    then show ?thesis using all Suc.prems by simp
  next
    case False
    then show ?thesis
      using Suc cntp_le [of Q n] by (cases "j = n") auto
  qed
qed simp

lemma and_128: "128 + x < 256 \<Longrightarrow> (128 + x) AND 128 = 128" "x < 128 \<Longrightarrow> x AND 128 = 0" for x :: nat
proof -
  show "(128 + x) AND 128 = 128" if "128 + x < 256"
    using field_and [of x 7 0 1 1] that by (simp add: add.commute)
  show "x AND 128 = 0" if "x < 128"
    using field_and [of x 7 0 0 1] that by simp
qed

lemma or_128: "k < 128 \<Longrightarrow> k OR 128 = k + 128" for k :: nat
  using field_or [of k 7 0 0 1] by simp

text \<open>\<open>geq_k_step8\<close> marks the bytes whose prefix count is at most \<open>k\<close>; there are as many as
  bytes before the one that holds the bit sought.\<close>

lemma marked_bytes:
  assumes "length cs = 8" "\<forall>c\<in>set cs. c \<le> 64" "k < 128"
  defines "gs \<equiv> map (\<lambda>c. (k + 128 - c) AND 128) cs"
  shows "(bval (replicate 8 k) OR bval (replicate 8 128)) = bval (replicate 8 (k + 128))"
    and "bval cs \<le> bval (replicate 8 (k + 128))"
    and "(bval (replicate 8 (k + 128)) - bval cs) AND bval (replicate 8 128) = bval gs"
    and "\<forall>g\<in>set gs. g < 256"
    and "sum_list (map (\<lambda>b. cntp (bit b) 8) gs) = cntp (\<lambda>j. cs ! j \<le> k) 8"
proof -
  show "(bval (replicate 8 k) OR bval (replicate 8 128)) = bval (replicate 8 (k + 128))"
    using assms(3) by (subst bval_or) (auto simp: or_128 replicate8)
  have le: "list_all2 (\<le>) cs (replicate 8 (k + 128))"
  proof (rule list_all2_all_nthI)
    fix i assume i: "i < length cs"
    then have "cs ! i \<in> set cs" by (rule nth_mem)
    then have "cs ! i \<le> 64" using assms(2) by blast
    then show "cs ! i \<le> replicate 8 (k + 128) ! i" using i assms(1) by simp
  qed (simp add: assms(1))
  then show "bval cs \<le> bval (replicate 8 (k + 128))" by (rule bval_le)
  have m: "map2 (-) (replicate 8 (k + 128)) cs = map (\<lambda>c. k + 128 - c) cs"
    using assms(1) by (intro nth_equalityI) auto
  have d: "bval (replicate 8 (k + 128)) - bval cs = bval (map (\<lambda>c. k + 128 - c) cs)"
    using bval_diff [OF le] unfolding m by (rule sym)
  have "bval (map (\<lambda>c. k + 128 - c) cs) AND bval (replicate 8 128)
      = bval (map2 (AND) (map (\<lambda>c. k + 128 - c) cs) (replicate 8 128))"
    by (rule bval_and) (use assms(1,3) in auto)
  then show "(bval (replicate 8 (k + 128)) - bval cs) AND bval (replicate 8 128) = bval gs"
    using assms(1) unfolding d by (simp add: map2_replicate gs_def o_def)
  have g: "(k + 128 - c) AND 128 = (if c \<le> k then 128 else 0)" if "c \<in> set cs" for c
  proof -
    have c: "c \<le> 64" using that assms(2) by blast
    show ?thesis
    proof (cases "c \<le> k")
      case True
      then have "k + 128 - c = 128 + (k - c)" by simp
      then show ?thesis using and_128(1) [of "k - c"] True assms(3) by simp
    next
      case False
      then show ?thesis using and_128(2) [of "k + 128 - c"] by simp
    qed
  qed
  show "\<forall>g\<in>set gs. g < 256" by (auto simp: gs_def g)

  have "map (\<lambda>b. cntp (bit b) 8) gs = map (\<lambda>c. if c \<le> k then 1 else 0) cs"
    by (auto simp: gs_def g cntp_8 bit_0)
  also have "sum_list \<dots> = length (filter (\<lambda>c. c \<le> k) cs)"
    by (induction cs) auto
  also have "\<dots> = cntp (\<lambda>j. cs ! j \<le> k) 8"
    using assms(1) length_filter_cntp [of "\<lambda>c. c \<le> k" cs] by simp
  finally show "sum_list (map (\<lambda>b. cntp (bit b) 8) gs) = cntp (\<lambda>j. cs ! j \<le> k) 8" .
qed

lemma select_in_word_marks:
  fixes w k :: u64
  assumes k: "unat k < 128"
  defines "J \<equiv> cntp (\<lambda>j. cntp (bit w) (8 * Suc j) \<le> unat k) 8"
  obtains s1 s2 s3 sums d where
    "chk_sub_w w (drop_bit 1 (w AND 0xAAAAAAAAAAAAAAAA)) = Some s1"
    "chk_add_w (s1 AND 0x3333333333333333) ((drop_bit 2 s1) AND 0x3333333333333333) = Some s2"
    "chk_add_w s2 (drop_bit 4 s2) = Some s3"
    "sums = (s3 AND 0x0F0F0F0F0F0F0F0F) * 0x0101010101010101"
    "chk_mul_w k 0x0101010101010101 = Some (k * 0x0101010101010101)"
    "chk_sub_w ((k * 0x0101010101010101) OR 0x8080808080808080) sums = Some d"
    "pop (d AND 0x8080808080808080) = J"
    "unat sums = bval (map (\<lambda>j. cntp (bit w) (8 * Suc j)) [0..<8])"
proof -
  let ?ps = "map (\<lambda>b. cntp (bit b) 8) (nbytes 8 (unat w))"
  let ?cs = "map (\<lambda>j. cntp (bit w) (8 * Suc j)) [0..<8]"
  obtain s1 s2 s3 where s:
    "chk_sub_w w (drop_bit 1 (w AND 0xAAAAAAAAAAAAAAAA)) = Some s1"
    "chk_add_w (s1 AND 0x3333333333333333) ((drop_bit 2 s1) AND 0x3333333333333333) = Some s2"
    "chk_add_w s2 (drop_bit 4 s2) = Some s3"
    "unat (s3 AND 0x0F0F0F0F0F0F0F0F) = bval ?ps"
    by (rule byte_counts)
  define sums where "sums = (s3 AND 0x0F0F0F0F0F0F0F0F) * 0x0101010101010101"
  have cs: "length ?cs = 8" "\<forall>c\<in>set ?cs. c \<le> 64"
    by (auto intro: cntp_le_trans simp del: cntp.simps)
  have "unat sums = bval ?ps * 0x0101010101010101 mod 2 ^ 64"
    unfolding sums_def by (simp add: unat_word_ariths(2) s(4) del: nbytes.simps)
  also have "\<dots> = bval (map (\<lambda>j. sum_list (take (Suc j) ?ps)) [0..<8])"
    by (rule prefix_sums) (auto intro: cntp_le)
  also have "map (\<lambda>j. sum_list (take (Suc j) ?ps)) [0..<8] = ?cs"
    by (rule map_cong [OF refl]) (simp only: cntp_bytes set_upt atLeastLessThan_iff Suc_leI)
  finally have sums: "unat sums = bval ?cs" .
  have one: "(0x0101010101010101 :: nat) = bval (replicate 8 1)"
    and x80: "unat (0x8080808080808080 :: u64) = bval (replicate 8 128)"
    by (simp_all add: replicate8)
  have rep: "unat k * 0x0101010101010101 = bval (replicate 8 (unat k))"
    by (simp add: replicate8)
  have lt: "unat k * 0x0101010101010101 < 2 ^ 64" using k by simp
  then have mul: "chk_mul_w k 0x0101010101010101 = Some (k * 0x0101010101010101)"
    and kmul: "unat (k * 0x0101010101010101) = bval (replicate 8 (unat k))"
    using rep by (simp_all add: chk_mul_w_def unat_word_ariths(2))
  note m = marked_bytes [OF cs k]
  let ?kk = "(k * 0x0101010101010101) OR 0x8080808080808080"
  have kk: "unat ?kk = bval (replicate 8 (unat k + 128))"
    by (simp only: unsigned_or_eq kmul x80 m(1))
  have le: "sums \<le> ?kk" using m(2) by (simp only: word_le_nat_alt kk sums)
  define d where "d = ?kk - sums"
  have "unat (d AND 0x8080808080808080) = bval (map (\<lambda>c. (unat k + 128 - c) AND 128) ?cs)"
    by (simp only: unsigned_and_eq d_def unat_sub [OF le] kk sums x80 m(3))
  then have "nbytes 8 (unat (d AND 0x8080808080808080)) = map (\<lambda>c. (unat k + 128 - c) AND 128) ?cs"
    using nbytes_bval [OF m(4)] by (simp only: length_map length_upt) simp
  then have "pop (d AND 0x8080808080808080) = cntp (\<lambda>j. ?cs ! j \<le> unat k) 8"
    using cntp_bytes [of 8 "d AND 0x8080808080808080"] m(5) by (simp add: pop_def)
  also have "\<dots> = J" unfolding J_def by (rule cntp_cong) simp
  finally have "pop (d AND 0x8080808080808080) = J" .
  then show ?thesis
    using that [of s1 s2 s3 sums d] s(1,2,3) mul le sums
    by (simp add: chk_sub_w_def d_def [symmetric] sums_def [symmetric])
qed

lemma unat_and_255: "unat (x AND 0xFF :: u64) = unat x mod 256"
proof -
  have "unat (x AND 0xFF) = unat x AND mask 8"
    by (simp add: unsigned_and_eq mask_eq_exp_minus_1)
  then show ?thesis by (simp only: take_bit_eq_mask [symmetric] take_bit_eq_mod) simp
qed

lemma unat_byte: "unat ((drop_bit (J * 8) x) AND 0xFF :: u64) = unat x div 256 ^ J mod 256"
  by (simp only: unat_and_255 unat_drop_bit_eq)
    (simp add: drop_bit_eq_div power_mult mult.commute [of J])

lemma unat_push_8: "unat (push_bit 8 (x :: u64)) = unat x * 256 mod 2 ^ 64"
  by (simp add: push_bit_eq_mult unat_word_ariths(2))

lemma byte_of_mod: "J < 8 \<Longrightarrow> (x mod 2 ^ 64) div 256 ^ J mod 256 = x div 256 ^ J mod (256 :: nat)"
proof -
  assume "J < 8"
  have "take_bit 8 (drop_bit (8 * J) (take_bit 64 x)) = take_bit 8 (drop_bit (8 * J) x)"
    using \<open>J < 8\<close> by (intro bit_eqI) (auto simp: bit_take_bit_iff bit_drop_bit_eq)
  then show ?thesis by (simp add: take_bit_eq_mod drop_bit_eq_div power_mult)
qed

lemma select_in_word_byte:
  fixes w k :: u64
  assumes "J < 8" "cntp (bit w) (8 * J) \<le> unat k" "unat k < cntp (bit w) (8 * Suc J)"
  defines "b \<equiv> unat w div 256 ^ J mod 256"
  obtains q where "K_SELECT_IN_BYTE ! (b + 256 * (unat k - cntp (bit w) (8 * J))) = q"
    "selp (bit w) 64 (unat k) = Some (8 * J + q)" "unat k - cntp (bit w) (8 * J) < 8"
proof -
  let ?r = "unat k - cntp (bit w) (8 * J)"
  have b: "b = nbytes 8 (unat w) ! J" using assms(1) by (simp add: b_def nth_nbytes)
  have bits: "bit b i = bit w (8 * J + i)" if "i < 8" for i
    using that assms(1) by (simp add: b bit_nbytes)
  have cut: "cntp (bit w) (8 * J + m) = cntp (bit w) (8 * J) + cntp (bit b) m" if "m \<le> 8" for m
    unfolding cntp_add using that bits by (intro arg_cong2 [of _ _ _ _ "(+)"] refl cntp_cong) simp
  have "?r < cntp (bit b) 8"
    using assms(2,3) cut [of 8] by (simp add: add.commute del: cntp.simps)
  then obtain q where q: "selp (bit b) 8 ?r = Some q"
    using selp_None_iff [of "bit b" 8 ?r] by (cases "selp (bit b) 8 ?r") auto
  then have "q < 8" "bit b q" "cntp (bit b) q = ?r" by (auto simp: selp_eq_Some_iff)
  then have "selp (bit w) 64 (unat k) = Some (8 * J + q)"
    using assms(1,2) bits [of q] cut [of q] by (intro selpI) auto
  moreover have r: "?r < 8"
    using \<open>?r < cntp (bit b) 8\<close> cntp_le [of "bit b" 8] by simp
  moreover have "K_SELECT_IN_BYTE ! (b + 256 * ?r) = q"
    using r q by (subst K_SELECT_IN_BYTE_nth) (auto simp: b_def)
  ultimately show ?thesis by (rule that [rotated])
qed

text \<open>From 256 on the copies of \<open>k\<close> do not fit the word.\<close>

lemma select_in_word_overflow:
  assumes "256 \<le> unat k"
  shows "select_in_word w k = None"
proof -
  have "chk_mul_w k 0x0101010101010101 = None" using assms by (simp add: chk_mul_w_def)
  then show ?thesis by (simp add: select_in_word_def Let_def bind_eq_None_conv)
qed

lemma select_in_word_eq:
  fixes w k :: u64
  assumes k: "unat k < 128"
  shows "select_in_word w k = Some (case selp (bit w) 64 (unat k) of Some p \<Rightarrow> p | None \<Rightarrow> 64)"
proof -
  let ?P = "\<lambda>j. cntp (bit w) (8 * j)"
  define J where "J = cntp (\<lambda>j. ?P (Suc j) \<le> unat k) 8"
  obtain s1 s2 s3 sums d where s:
    "chk_sub_w w (drop_bit 1 (w AND 0xAAAAAAAAAAAAAAAA)) = Some s1"
    "chk_add_w (s1 AND 0x3333333333333333) ((drop_bit 2 s1) AND 0x3333333333333333) = Some s2"
    "chk_add_w s2 (drop_bit 4 s2) = Some s3"
    "sums = (s3 AND 0x0F0F0F0F0F0F0F0F) * 0x0101010101010101"
    "chk_mul_w k 0x0101010101010101 = Some (k * 0x0101010101010101)"
    "chk_sub_w ((k * 0x0101010101010101) OR 0x8080808080808080) sums = Some d"
    "pop (d AND 0x8080808080808080) = J"
    "unat sums = bval (map (\<lambda>j. ?P (Suc j)) [0..<8])"
    by (rule select_in_word_marks [OF k, of w, folded J_def])
  have cst: "(0xA * 0x1111111111111111 :: u64) = 0xAAAAAAAAAAAAAAAA"
    "(0x3 * 0x1111111111111111 :: u64) = 0x3333333333333333"
    "(0xF * 0x0101010101010101 :: u64) = 0x0F0F0F0F0F0F0F0F" by simp_all
  have sel: "select_in_word w k = (if J * 8 = 64 then Some 64
     else do {
       byte_rank \<leftarrow> chk_sub_w k ((drop_bit (J * 8) (push_bit 8 sums)) AND 0xFF);
       t \<leftarrow> idx K_SELECT_IN_BYTE
              (unat (((drop_bit (J * 8) w) AND 0xFF) OR (push_bit 8 byte_rank)));
       Some (J * 8 + t) })"
    unfolding select_in_word_def Let_def cst s(1) Option.bind.simps s(2) s(3) s(4) [symmetric]
      s(5) s(6) s(7) by (rule refl)
  have down: "?P (Suc j) \<le> unat k \<longleftrightarrow> j < J" if "j < 8" for j
    unfolding J_def using that
    by (rule cntp_downset [rotated]) (meson cntp_mono le_trans mult_le_mono2 Suc_le_mono)
  show ?thesis
  proof (cases "J = 8")
    case True
    then have "cntp (bit w) 64 \<le> unat k" using down [of 7] by simp
    then have "selp (bit w) 64 (unat k) = None" by (simp add: selp_None_iff)
    then show ?thesis unfolding sel True by simp
  next
    case False
    then have J: "J < 8" using cntp_le [of "\<lambda>j. ?P (Suc j) \<le> unat k" 8] by (simp add: J_def)
    have hi: "unat k < ?P (Suc J)" using down [OF J] by simp
    have lo: "?P J \<le> unat k" using down [of "J - 1"] J by (cases J) auto
    obtain q where q: "K_SELECT_IN_BYTE ! (unat w div 256 ^ J mod 256 + 256 * (unat k - ?P J)) = q"
      "selp (bit w) 64 (unat k) = Some (8 * J + q)" "unat k - ?P J < 8"
      by (rule select_in_word_byte [OF J lo hi])
    have "unat ((drop_bit (J * 8) (push_bit 8 sums)) AND 0xFF)
        = bval (0 # map (\<lambda>j. ?P (Suc j)) [0..<8]) div 256 ^ J mod 256"
      using J by (simp only: unat_byte unat_push_8 s(8) byte_of_mod bval.simps) (simp add: mult.commute)
    also have "\<dots> = (0 # map (\<lambda>j. ?P (Suc j)) [0..<8]) ! J"
      by (rule bval_digit) (use J in \<open>auto intro: le_less_trans [OF cntp_le] simp del: cntp.simps upt_Suc\<close>)
    also have "\<dots> = ?P J" using J by (cases J) (simp_all del: upt_Suc)
    finally have br: "unat ((drop_bit (J * 8) (push_bit 8 sums)) AND 0xFF) = ?P J" .
    define rk where "rk = k - ((drop_bit (J * 8) (push_bit 8 sums)) AND 0xFF)"
    have le: "((drop_bit (J * 8) (push_bit 8 sums)) AND 0xFF) \<le> k"
      using lo by (simp only: word_le_nat_alt br)
    then have rk: "unat rk = unat k - ?P J" by (simp only: rk_def unat_sub br)
    have "unat (push_bit 8 rk) = 256 * unat rk"
      using q(3) rk by (simp add: unat_push_8)
    then have ix: "unat (((drop_bit (J * 8) w) AND 0xFF) OR (push_bit 8 rk))
        = unat w div 256 ^ J mod 256 + 256 * (unat k - ?P J)"
      using byte_or [of "unat w div 256 ^ J mod 256" 0 0 "unat rk"]
      by (simp add: unsigned_or_eq unat_byte rk)
    have bound: "unat w div 256 ^ J mod 256 + 256 * (unat k - ?P J) < length K_SELECT_IN_BYTE"
    proof -
      have "unat w div 256 ^ J mod 256 < 256" by simp
      then show ?thesis using q(3) unfolding length_K_SELECT_IN_BYTE by linarith
    qed
    have sub: "chk_sub_w k ((drop_bit (J * 8) (push_bit 8 sums)) AND 0xFF) = Some rk"
      unfolding chk_sub_w_def rk_def by (rule if_P [OF le])
    have look: "idx K_SELECT_IN_BYTE
        (unat (((drop_bit (J * 8) w) AND 0xFF) OR (push_bit 8 rk))) = Some q"
      unfolding ix using idx_Some [OF bound] q(1) by simp
    show ?thesis
      unfolding sel sub Option.bind.simps look q(2) using J by simp
  qed
qed

lemma bit_ucast_low: "i < 64 \<Longrightarrow> bit (ucast (w :: u128) :: u64) i = bit w i"
  by (simp add: bit_ucast_iff)

lemma bit_ucast_high: "i < 64 \<Longrightarrow> bit (ucast (drop_bit 64 (w :: u128)) :: u64) i = bit w (64 + i)"
  by (simp add: bit_ucast_iff bit_drop_bit_eq)

lemma select_in_word_u128_eq:
  fixes w :: u128 and k :: u64
  assumes k: "unat k < 128"
  shows "select_in_word_u128 w k = Some (case selp (bit w) 128 (unat k) of Some p \<Rightarrow> p | None \<Rightarrow> 128)"
proof -
  let ?lo = "ucast w :: u64" and ?hi = "ucast (drop_bit 64 w) :: u64"
  have clo: "cntp (bit ?lo) i = cntp (bit w) i" if "i \<le> 64" for i
    using that by (intro cntp_cong) (simp add: bit_ucast_low)
  have chi: "cntp (bit w) (64 + i) = cntp (bit w) 64 + cntp (bit ?hi) i" if "i \<le> 64" for i
    unfolding cntp_add using that by (intro arg_cong2 [of _ _ _ _ "(+)"] refl cntp_cong) (simp add: bit_ucast_high)
  have pop: "pop ?lo = cntp (bit w) 64" unfolding pop_def by (simp add: clo)
  show ?thesis
  proof (cases "pop ?lo > unat k")
    case True
    then obtain p where p: "selp (bit ?lo) 64 (unat k) = Some p"
      using selp_None_iff [of "bit ?lo" 64 "unat k"] by (cases "selp (bit ?lo) 64 (unat k)") (auto simp: pop_def)
    then have "selp (bit w) 128 (unat k) = Some p"
      by (auto simp: selp_eq_Some_iff bit_ucast_low clo)
    with True p show ?thesis by (simp add: select_in_word_u128_def select_in_word_eq k)
  next
    case False
    have lt: "pop ?lo < 2 ^ 64" using pop_le [of ?lo] by simp
    with False have le: "(of_nat (pop ?lo) :: u64) \<le> k"
      by (simp add: word_le_nat_alt unat_of_nat)
    define k' where "k' = k - of_nat (pop ?lo)"
    from lt have k': "unat k' = unat k - cntp (bit w) 64"
      using le by (simp add: k'_def unat_sub unat_of_nat pop)
    then have s: "select_in_word ?hi k' = Some (case selp (bit ?hi) 64 (unat k') of Some p \<Rightarrow> p | None \<Rightarrow> 64)"
      using k by (intro select_in_word_eq) simp
    have "selp (bit w) 128 (unat k) = map_option ((+) 64) (selp (bit ?hi) 64 (unat k'))"
    proof (cases "selp (bit ?hi) 64 (unat k')")
      case None
      then have "cntp (bit w) 128 \<le> unat k"
        using chi [of 64] False by (simp add: selp_None_iff k' pop)
      then have "selp (bit w) 128 (unat k) = None" by (simp only: selp_None_iff)
      with None show ?thesis by simp
    next
      case (Some p)
      then have "selp (bit w) 128 (unat k) = Some (64 + p)"
        using chi [of p] False by (auto simp: selp_eq_Some_iff bit_ucast_high k' pop)
      with Some show ?thesis by simp
    qed
    then show ?thesis
      using False le by (simp add: select_in_word_u128_def chk_sub_w_def k'_def [symmetric] s split: option.split)
  qed
qed

end
