(* ===== verification/Utils.thy ===== *)
theory Utils
  imports StablePart SelectWord
begin

text \<open>
  The remaining utilities of \<^verbatim>\<open>src/utils/mod.rs\<close>: \<open>msb\<close>, \<open>popcnt_wide\<close>, \<open>text_remap\<close>
  and the stable partitions used to build the wavelet trees. A symbol type \<open>T\<close> (any
  \<open>WTIndexable\<close> unsigned integer) is \<open>'a::len word\<close>; \<open>symbol.as_()\<close> is the conversion to
  \<open>usize\<close>, a truncation to 64 bits. A shift of a \<open>usize\<close> by 64 or more places is an
  overflow that Rust traps, \<open>None\<close> in the model.

  The lemma \<open>scatter_buckets\<close> gives every counting variant: with the right counts, writing
  each element at its bucket's next position yields the concatenation of the buckets, the
  same list the vector-based variants build. Each of the six routines is then an instance.
\<close>

unbundle bit_operations_syntax

section \<open>Small helpers\<close>

text \<open>\<open>leading_zeros\<close>, \<open>msb\<close> and the loop of \<open>popcnt_wide\<close>.\<close>

definition leading_zeros :: "'a::len word \<Rightarrow> nat" where
  "leading_zeros v = length (takeWhile (\<lambda>i. \<not> bit v i) (rev [0..<LENGTH('a)]))"

definition msb_of :: "'a::len word \<Rightarrow> nat" where
  "msb_of v = (if v = 0 then 0 else LENGTH('a) - 1 - leading_zeros v)"

fun popcnt_loop :: "u64 list \<Rightarrow> nat \<Rightarrow> nat" where
  "popcnt_loop [] res = res"
| "popcnt_loop (w # ws) res = popcnt_loop ws (res + pop w)"

definition popcnt_wide :: "nat \<Rightarrow> u64 list \<Rightarrow> nat" where
  "popcnt_wide N data = popcnt_loop (take N data) 0"

lemma popcnt_loop_sum: "popcnt_loop ws res = res + sum_list (map pop ws)"
  by (induction ws arbitrary: res) auto

lemma popcnt_wide_sum: "popcnt_wide N data = sum_list (map pop (take N data))"
  by (simp add: popcnt_wide_def popcnt_loop_sum)

lemma top_bit_ex:
  fixes v :: "'a::len word"
  assumes "v \<noteq> 0"
  obtains m where "m < LENGTH('a)" "bit v m" "\<forall>i. m < i \<longrightarrow> \<not> bit v i"
proof -
  let ?S = "{i. bit v i}"
  have fin: "finite ?S" by (rule finite_subset [of _ "{..<LENGTH('a)}"]) (auto dest: bit_imp_le_length)
  have ne: "?S \<noteq> {}" using assms by (auto simp: bit_eq_iff)
  show ?thesis
  proof
    show "bit v (Max ?S)" using Max_in [OF fin ne] by simp
    then show "Max ?S < LENGTH('a)" by (rule bit_imp_le_length)
    show "\<forall>i. Max ?S < i \<longrightarrow> \<not> bit v i" using fin by (meson Max_ge leD mem_Collect_eq)
  qed
qed

lemma leading_zeros_eq:
  assumes "m < LENGTH('a)" "bit (v :: 'a::len word) m" "\<forall>i. m < i \<longrightarrow> \<not> bit v i"
  shows "leading_zeros v = LENGTH('a) - 1 - m"
proof -
  have "rev [0..<LENGTH('a)] = rev [Suc m..<LENGTH('a)] @ m # rev [0..<m]"
    using assms(1) by (simp add: upt_split [of m])
  moreover have "takeWhile (\<lambda>i. \<not> bit v i) (rev [Suc m..<LENGTH('a)] @ m # rev [0..<m]) = rev [Suc m..<LENGTH('a)]"
    using assms(2,3) by (subst takeWhile_append2) auto
  ultimately show ?thesis by (simp add: leading_zeros_def)
qed

text \<open>\<open>msb\<close> is the floor of the binary logarithm; of zero it is zero.\<close>

lemma msb_of_bounds:
  fixes v :: "'a::len word"
  assumes "v \<noteq> 0"
  shows "2 ^ msb_of v \<le> unat v" "unat v < 2 ^ Suc (msb_of v)" "msb_of v < LENGTH('a)"
proof -
  obtain m where m: "m < LENGTH('a)" "bit v m" "\<forall>i. m < i \<longrightarrow> \<not> bit v i"
    by (rule top_bit_ex [OF assms])
  have eq: "msb_of v = m"
    using m(1) assms by (simp add: msb_of_def leading_zeros_eq [OF m])
  have b: "bit (unat v) i = bit v i" for i
    using bit_imp_le_length [of v i] by (auto simp: bit_unsigned_iff)
  have "take_bit (Suc m) (unat v) = unat v"
    by (rule bit_eqI) (use m(3) in \<open>auto simp: bit_take_bit_iff b not_less_eq\<close>)
  then show "unat v < 2 ^ Suc (msb_of v)" unfolding eq by (metis take_bit_nat_less_exp)
  have "odd (unat v div 2 ^ m)" using b [of m] m(2) by (simp add: bit_iff_odd)
  then have "unat v div 2 ^ m \<noteq> 0" by (metis even_zero)
  then show "2 ^ msb_of v \<le> unat v" unfolding eq by (metis div_less not_le)
  show "msb_of v < LENGTH('a)" using m(1) eq by simp
qed

lemma unat_less_msb: "unat (v :: 'a::len word) < 2 ^ Suc (msb_of v)"
  by (cases "v = 0") (auto dest: msb_of_bounds(2))

section \<open>Digits of a symbol\<close>

text \<open>\<open>symbol.as_()\<close>, and the checked right shift of a \<open>usize\<close>.\<close>

definition as_usize :: "'a::len word \<Rightarrow> u64" where
  "as_usize a = ucast a"

definition shr_usize :: "u64 \<Rightarrow> nat \<Rightarrow> u64 option" where
  "shr_usize w n = (if n < 64 then Some (drop_bit n w) else None)"

text \<open>The shift of a \<open>T\<close> before the conversion, as \<open>from_owned\<close> and the queries write it.\<close>

definition shr_T :: "'a::len word \<Rightarrow> nat \<Rightarrow> 'a word option" where
  "shr_T a n = (if n < LENGTH('a) then Some (drop_bit n a) else None)"

text \<open>\<open>(a.as_() >> shift) & 3\<close> and \<open>(a >> shift).as_() & 1\<close>.\<close>

definition two_bits_usize :: "nat \<Rightarrow> 'a::len word \<Rightarrow> nat option" where
  "two_bits_usize shift a = do { w \<leftarrow> shr_usize (as_usize a) shift; Some (unat (w AND 3)) }"

definition one_bit_T :: "nat \<Rightarrow> 'a::len word \<Rightarrow> nat option" where
  "one_bit_T shift a = do { w \<leftarrow> shr_T a shift; Some (unat (as_usize w AND 1)) }"

record prefix_code =
  pc_content :: u32
  pc_len :: u32

text \<open>Checked right shift of a \<open>u32\<close>.\<close>

definition shr_u32 :: "u32 \<Rightarrow> nat \<Rightarrow> u32 option" where
  "shr_u32 w n = (if n < 32 then Some (drop_bit n w) else None)"

text \<open>
  The bucket of a symbol in the Huffman partitions: the digit of its code at \<open>shift\<close>, or
  the last bucket when the code ended at an earlier level.
\<close>

definition code_bucket :: "nat \<Rightarrow> prefix_code list \<Rightarrow> nat \<Rightarrow> nat \<Rightarrow> 'a::len word \<Rightarrow> nat option" where
  "code_bucket msk codes done_bucket shift a = do {
     code \<leftarrow> idx codes (unat (as_usize a));
     let shift = unat (of_nat shift :: u32);
     if unat (pc_len code) \<le> shift then Some done_bucket
     else do {
       w \<leftarrow> shr_u32 (pc_content code) (unat (pc_len code) - shift);
       Some (unat (w AND of_nat msk))
     }
   }"

section \<open>Partition through growing vectors\<close>

text \<open>The first loop: push each element on the vector of its bucket.\<close>

fun push_loop :: "('a \<Rightarrow> nat option) \<Rightarrow> 'a list \<Rightarrow> 'a list list \<Rightarrow> 'a list list option" where
  "push_loop bucket [] vecs = Some vecs"
| "push_loop bucket (a # rest) vecs = do {
     b \<leftarrow> bucket a;
     v \<leftarrow> idx vecs b;
     push_loop bucket rest (vecs[b := v @ [a]])
   }"

text \<open>The second loop: copy the vectors back one after the other.\<close>

fun copy_back :: "'a list \<Rightarrow> nat \<Rightarrow> 'a list list \<Rightarrow> 'a list option" where
  "copy_back out pos [] = Some out"
| "copy_back out pos (v # vs) =
     (if pos + length v \<le> length out
      then copy_back (take pos out @ v @ drop (pos + length v) out) (pos + length v) vs
      else None)"

definition partition_vecs :: "nat \<Rightarrow> ('a \<Rightarrow> nat option) \<Rightarrow> 'a list \<Rightarrow> 'a list option" where
  "partition_vecs m bucket xs = do {
     vecs \<leftarrow> push_loop bucket xs (replicate m []);
     copy_back xs 0 vecs
   }"

definition stable_partition_of_4 :: "'a::len word list \<Rightarrow> nat \<Rightarrow> 'a word list option" where
  "stable_partition_of_4 xs shift = partition_vecs 4 (two_bits_usize shift) xs"

definition stable_partition_of_4_with_codes ::
    "'a::len word list \<Rightarrow> nat \<Rightarrow> prefix_code list \<Rightarrow> 'a word list option" where
  "stable_partition_of_4_with_codes xs shift codes = partition_vecs 5 (code_bucket 3 codes 4 shift) xs"

definition stable_partition_of_2_with_codes ::
    "'a::len word list \<Rightarrow> nat \<Rightarrow> prefix_code list \<Rightarrow> 'a word list option" where
  "stable_partition_of_2_with_codes xs shift codes = partition_vecs 3 (code_bucket 1 codes 2 shift) xs"

definition stable_partition_of_2 :: "'a::len word list \<Rightarrow> nat \<Rightarrow> 'a word list option" where
  "stable_partition_of_2 xs shift = partition_vecs 2 (one_bit_T shift) xs"

section \<open>Partition with counts known in advance\<close>

fun scatter :: "('a \<Rightarrow> nat option) \<Rightarrow> 'a list \<Rightarrow> nat list \<Rightarrow> 'a list \<Rightarrow> 'a list option" where
  "scatter bucket [] positions output = Some output"
| "scatter bucket (s # rest) positions output = do {
     b \<leftarrow> bucket s;
     p \<leftarrow> idx positions b;
     guard (p < length output);
     scatter bucket rest (positions[b := p + 1]) (output[p := s])
   }"

definition stable_partition_of_4_into ::
    "'a::len word list \<Rightarrow> nat \<Rightarrow> nat list \<Rightarrow> 'a word list \<Rightarrow> 'a word list option" where
  "stable_partition_of_4_into xs shift counts output = do {
     guard (length xs = length output);
     guard (sum_list counts = length xs);
     scatter (two_bits_usize shift) xs
       [0, counts ! 0, counts ! 0 + counts ! 1, counts ! 0 + counts ! 1 + counts ! 2] output
   }"

definition stable_partition_of_4_with_codes_into ::
    "'a::len word list \<Rightarrow> nat \<Rightarrow> prefix_code list \<Rightarrow> nat list \<Rightarrow> 'a word list \<Rightarrow> 'a word list option" where
  "stable_partition_of_4_with_codes_into xs shift codes counts output = do {
     guard (length xs = length output);
     guard (sum_list counts = length xs);
     scatter (code_bucket 3 codes 4 shift) xs
       [0, counts ! 0, counts ! 0 + counts ! 1, counts ! 0 + counts ! 1 + counts ! 2,
        counts ! 0 + counts ! 1 + counts ! 2 + counts ! 3] output
   }"

section \<open>Both build the stable partition\<close>

lemma push_loop_buckets:
  assumes "\<forall>x\<in>set xs. bucket x = Some (f x) \<and> f x < m"
  shows "push_loop bucket xs (map g [0..<m]) = Some (map (\<lambda>b. g b @ filter (\<lambda>x. f x = b) xs) [0..<m])"
  using assms
proof (induction xs arbitrary: g)
  case (Cons x xs)
  have "(map g [0..<m])[f x := g (f x) @ [x]] = map (g(f x := g (f x) @ [x])) [0..<m]"
    using Cons.prems by (intro nth_equalityI) (auto simp: nth_list_update)
  moreover have "map (\<lambda>b. (g(f x := g (f x) @ [x])) b @ filter (\<lambda>y. f y = b) xs) [0..<m]
      = map (\<lambda>b. g b @ filter (\<lambda>y. f y = b) (x # xs)) [0..<m]"
    by auto
  ultimately show ?case
    using Cons.prems Cons.IH [of "g(f x := g (f x) @ [x])"] by (simp del: fun_upd_apply)
qed simp

lemma copy_back_concat:
  "pos + length (concat vs) = length out \<Longrightarrow> copy_back out pos vs = Some (take pos out @ concat vs)"
  by (induction vs arbitrary: out pos) (simp_all add: add.assoc)

lemma partition_vecs_buckets:
  assumes "\<forall>x\<in>set xs. bucket x = Some (f x) \<and> f x < m"
  shows "partition_vecs m bucket xs = Some (buckets f m xs)"
proof -
  have "(replicate m [] :: 'a list list) = map (\<lambda>b. []) [0..<m]" by (simp add: map_replicate_const)
  then have "push_loop bucket xs (replicate m []) = Some (map (\<lambda>b. filter (\<lambda>x. f x = b) xs) [0..<m])"
    using push_loop_buckets [OF assms, of "\<lambda>b. []"] by (simp only: append_Nil)
  moreover have "length (concat (map (\<lambda>b. filter (\<lambda>x. f x = b) xs) [0..<m])) = length xs"
    using length_buckets [of xs f m] assms by (simp add: buckets_def)
  ultimately show ?thesis
    by (simp add: partition_vecs_def copy_back_concat buckets_def)
qed

lemma scatter_step:
  assumes out: "outp = concat (map (\<lambda>b. g b @ h b) [0..<m])"
    and pos: "positions = map (\<lambda>b. sum_list (map (\<lambda>c. length (g c) + length (h c)) [0..<b]) + length (g b)) [0..<m]"
    and h: "\<forall>b<m. length (h b) = length (filter (\<lambda>x. f x = b) xs)"
    and buck: "\<forall>x\<in>set xs. bucket x = Some (f x) \<and> f x < m"
  shows "scatter bucket xs positions outp = Some (concat (map (\<lambda>b. g b @ filter (\<lambda>x. f x = b) xs) [0..<m]))"
  using assms
proof (induction xs arbitrary: g h positions outp)
  case Nil
  then have "map (\<lambda>b. g b @ h b) [0..<m] = map (\<lambda>b. g b @ []) [0..<m]" by simp
  with Nil show ?case by simp
next
  case (Cons x xs)
  let ?b = "f x"
  have b: "?b < m" "bucket x = Some ?b" using Cons.prems(4) by auto
  then obtain r rs where hb: "h ?b = r # rs"
    using Cons.prems(3) by (cases "h ?b") force+
  define g' where "g' = g(?b := g ?b @ [x])"
  define h' where "h' = h(?b := rs)"
  let ?p = "positions ! ?b"
  have p: "?p = sum_list (map (length \<circ> (\<lambda>b. g b @ h b)) [0..<?b]) + length (g ?b)"
    using b Cons.prems(2) by (simp add: o_def)
  have len: "length (g' c) + length (h' c) = length (g c) + length (h c)" for c
    by (simp add: g'_def h'_def hb)
  have blk: "(\<lambda>b. g b @ h b)(?b := (g ?b @ h ?b)[length (g ?b) := x]) = (\<lambda>b. g' b @ h' b)"
    by (auto simp: g'_def h'_def hb list_update_append)
  have "outp[?p := x] = concat (map ((\<lambda>b. g b @ h b)(?b := (g ?b @ h ?b)[length (g ?b) := x])) [0..<m])"
    unfolding Cons.prems(1) p by (rule concat_update) (simp_all add: b hb)
  then have o: "outp[?p := x] = concat (map (\<lambda>b. g' b @ h' b) [0..<m])" unfolding blk .
  have inb: "?p < length outp"
  proof -
    have "[0..<m] = [0..<?b] @ ?b # [Suc ?b..<m]" using b(1) by (rule upt_split)
    then have "length outp = sum_list (map (\<lambda>b. length (g b @ h b)) [0..<?b]) + (length (g ?b @ h ?b)
        + length (concat (map (\<lambda>b. g b @ h b) [Suc ?b..<m])))"
      unfolding Cons.prems(1) by (simp add: length_concat o_def)
    then show ?thesis unfolding p by (simp add: hb o_def)
  qed
  have ps: "positions[?b := ?p + 1] =
      map (\<lambda>b. sum_list (map (\<lambda>c. length (g' c) + length (h' c)) [0..<b]) + length (g' b)) [0..<m]"
    unfolding len using b Cons.prems(2) by (intro nth_equalityI) (auto simp: nth_list_update g'_def)
  have hl: "\<forall>b<m. length (h' b) = length (filter (\<lambda>x. f x = b) xs)"
    using Cons.prems(3) hb by (auto simp: h'_def)
  have res: "map (\<lambda>b. g' b @ filter (\<lambda>y. f y = b) xs) [0..<m]
      = map (\<lambda>b. g b @ filter (\<lambda>y. f y = b) (x # xs)) [0..<m]"
    by (auto simp: g'_def)
  have "scatter bucket xs (positions[?b := ?p + 1]) (outp[?p := x])
      = Some (concat (map (\<lambda>b. g' b @ filter (\<lambda>y. f y = b) xs) [0..<m]))"
    by (rule Cons.IH [OF o ps hl]) (use Cons.prems(4) in auto)
  moreover have "?b < length positions" using b Cons.prems(2) by simp
  ultimately show ?case unfolding res using b inb by simp
qed

lemma scatter_buckets:
  assumes "\<forall>x\<in>set xs. bucket x = Some (f x) \<and> f x < m"
    and "length outp = length xs"
    and "positions = map (smaller_of (map f xs)) [0..<m]"
  shows "scatter bucket xs positions outp = Some (buckets f m xs)"
proof -
  let ?n = "\<lambda>b. length (filter (\<lambda>x. f x = b) xs)"
  let ?h = "\<lambda>b. slice outp (smaller_of (map f xs) b) (smaller_of (map f xs) (Suc b))"
  have cl: "count_list (map f xs) b = ?n b" for b by (induction xs) auto
  have le: "smaller_of (map f xs) b \<le> length outp" for b
    unfolding smaller_of_def assms(2) by (metis length_filter_le length_map)
  have hl: "length (?h b) = ?n b" for b
    using le [of "Suc b"] by (simp add: length_slice smaller_of_Suc cl)
  have tk: "concat (map ?h [0..<k]) = take (smaller_of (map f xs) k) outp" for k
  proof (induction k)
    case (Suc k)
    have "smaller_of (map f xs) k \<le> smaller_of (map f xs) (Suc k)" by (simp add: smaller_of_Suc)
    then show ?case using Suc take_slice [of "smaller_of (map f xs) k" "smaller_of (map f xs) (Suc k)" outp] by simp
  qed simp
  have "smaller_of (map f xs) m = length outp"
    using length_buckets [of xs f m] assms(1,2) length_concat_buckets [of f xs m] by (simp add: buckets_def)
  then have out: "outp = concat (map (\<lambda>b. [] @ ?h b) [0..<m])" by (simp add: tk)
  have sm: "sum_list (map (\<lambda>c. length [] + length (?h c)) [0..<b]) = smaller_of (map f xs) b" for b
    by (induction b) (simp_all add: smaller_of_Suc cl hl [unfolded smaller_of_Suc cl])
  have "positions = map (\<lambda>b. sum_list (map (\<lambda>c. length [] + length (?h c)) [0..<b]) + length []) [0..<m]"
    unfolding sm assms(3) by simp
  from scatter_step [where g = "\<lambda>b. []", OF out this _ assms(1)] show ?thesis
    by (simp add: hl buckets_def)
qed

section \<open>The six routines\<close>

text \<open>The two bits of a symbol at \<open>shift\<close>, and its bit at \<open>shift\<close>, as numbers.\<close>

definition qdigit :: "nat \<Rightarrow> 'a::len word \<Rightarrow> nat" where
  "qdigit shift a = unat a div 2 ^ shift mod 4"

definition bdigit :: "nat \<Rightarrow> 'a::len word \<Rightarrow> nat" where
  "bdigit shift a = unat a div 2 ^ shift mod 2"

lemma qdigit_less [simp]: "qdigit shift a < 4"
  by (simp add: qdigit_def)

lemma bdigit_less [simp]: "bdigit shift a < 2"
  by (simp add: bdigit_def)

lemma unat_and_3: "unat (w AND 3 :: u64) = unat w mod 4"
proof -
  have "unat (w AND 3) = unat w AND mask 2"
    by (simp add: unsigned_and_eq mask_eq_exp_minus_1)
  then show ?thesis by (simp only: take_bit_eq_mask [symmetric] take_bit_eq_mod) simp
qed

lemma unat_and_1: "unat (w AND 1 :: u64) = unat w mod 2"
proof -
  have "unat (w AND 1) = unat w AND mask 1"
    by (simp add: unsigned_and_eq mask_eq_exp_minus_1)
  then show ?thesis by (simp only: take_bit_eq_mask [symmetric] take_bit_eq_mod) simp
qed

lemma unat_as_usize: "LENGTH('a::len) \<le> 64 \<Longrightarrow> unat (as_usize (a :: 'a word)) = unat a"
proof -
  assume "LENGTH('a) \<le> 64"
  then have "unat a < 2 ^ 64"
    by (metis less_le_trans power_increasing unsigned_less one_le_numeral)
  then show ?thesis by (simp add: as_usize_def unsigned_ucast_eq take_bit_nat_eq_self)
qed

lemma two_bits_usize_eq:
  "LENGTH('a::len) \<le> 64 \<Longrightarrow> shift < 64 \<Longrightarrow> two_bits_usize shift (a :: 'a word) = Some (qdigit shift a)"
  by (simp add: two_bits_usize_def shr_usize_def unat_and_3 unat_as_usize unat_drop_bit_eq qdigit_def)
    (simp add: drop_bit_eq_div)

lemma as_usize_mod:
  assumes "k \<le> 64"
  shows "unat (as_usize (a :: 'a::len word)) mod 2 ^ k = unat a mod 2 ^ k"
proof -
  have "take_bit k (take_bit 64 (unat a)) = take_bit k (unat a)"
    using assms by (simp add: take_bit_take_bit min_def)
  then show ?thesis by (simp add: as_usize_def unsigned_ucast_eq take_bit_eq_mod)
qed

lemma one_bit_T_eq:
  "shift < LENGTH('a::len) \<Longrightarrow> one_bit_T shift (a :: 'a word) = Some (bdigit shift a)"
  using as_usize_mod [of 1 "drop_bit shift a"]
  by (simp add: one_bit_T_def shr_T_def unat_and_1 bdigit_def unat_drop_bit_eq)
    (simp add: drop_bit_eq_div)

text \<open>
  The bucket the Huffman partitions compute for a symbol whose code is in the table: the
  digit of the code, or the last bucket for a code that is already complete.
\<close>

definition code_digit :: "nat \<Rightarrow> prefix_code list \<Rightarrow> nat \<Rightarrow> nat \<Rightarrow> 'a::len word \<Rightarrow> nat" where
  "code_digit msk codes done_bucket shift a =
     (let code = codes ! unat (as_usize a) in
      if unat (pc_len code) \<le> shift then done_bucket
      else unat (drop_bit (unat (pc_len code) - shift) (pc_content code) AND of_nat msk))"

lemma unat_and_le: "unat (w AND of_nat msk :: u32) \<le> msk"
  by (metis le_trans unat_of_nat word_and_le1 word_le_nat_alt mod_less_eq_dividend take_bit_nat_less_eq_self)

lemma code_bucket_eq:
  assumes "unat (as_usize a) < length codes" "0 < shift" "shift < 2 ^ 32"
    "unat (pc_len (codes ! unat (as_usize a))) \<le> 32" "msk < d"
  shows "code_bucket msk codes d shift a = Some (code_digit msk codes d shift a)
    \<and> code_digit msk codes d shift a < Suc d"
proof -
  have "unat (w AND of_nat msk :: u32) < Suc d" for w
    using unat_and_le [of w msk] assms(5) by linarith
  moreover have "unat (of_nat shift :: u32) = shift" using assms(3) by (intro unat_of_nat_small) simp
  ultimately show ?thesis
    using assms by (auto simp: code_bucket_def code_digit_def shr_u32_def Let_def)
qed

lemma stable_partition_of_4_eq:
  assumes "LENGTH('a::len) \<le> 64" "shift < 64"
  shows "stable_partition_of_4 (xs :: 'a word list) shift = Some (buckets (qdigit shift) 4 xs)"
  unfolding stable_partition_of_4_def
  by (rule partition_vecs_buckets) (simp add: two_bits_usize_eq assms)

lemma stable_partition_of_2_eq:
  assumes "shift < LENGTH('a::len)"
  shows "stable_partition_of_2 (xs :: 'a word list) shift = Some (buckets (bdigit shift) 2 xs)"
  unfolding stable_partition_of_2_def
  by (rule partition_vecs_buckets) (simp add: one_bit_T_eq assms)

lemma smaller_of_upto:
  assumes "counts = map (count_list ys) [0..<m]" "c \<le> m"
  shows "smaller_of ys c = sum_list (take c counts)"
  using assms(2)
proof (induction c)
  case (Suc c)
  then show ?case using assms(1) by (simp add: smaller_of_Suc take_Suc_conv_app_nth del: upt_Suc)
qed simp

lemma sum_counts:
  assumes "\<forall>y\<in>set ys. y < m" "counts = map (count_list ys) [0..<m]"
  shows "sum_list counts = length ys"
proof -
  have "filter (\<lambda>x. x < m) ys = ys" using assms(1) by (simp add: filter_id_conv)
  then show ?thesis using smaller_of_upto [OF assms(2), of m] assms(2) by (simp add: smaller_of_def)
qed

lemma upt_4: "[0..<4] = [0, 1, 2, 3 :: nat]"
  by (simp add: numeral_eq_Suc)

lemma upt_5: "[0..<5] = [0, 1, 2, 3, 4 :: nat]"
  by (simp add: numeral_eq_Suc)

lemma positions4:
  assumes "counts = map (count_list ys) [0..<4]"
  shows "[0, counts ! 0, counts ! 0 + counts ! 1, counts ! 0 + counts ! 1 + counts ! 2]
    = map (smaller_of ys) [0..<4]"
  by (simp add: assms upt_4 numeral_eq_Suc smaller_of_Suc)

lemma positions5:
  assumes "counts = map (count_list ys) [0..<5]"
  shows "[0, counts ! 0, counts ! 0 + counts ! 1, counts ! 0 + counts ! 1 + counts ! 2,
      counts ! 0 + counts ! 1 + counts ! 2 + counts ! 3] = map (smaller_of ys) [0..<5]"
  by (simp add: assms upt_5 numeral_eq_Suc smaller_of_Suc)

lemma stable_partition_of_4_into_eq:
  assumes "LENGTH('a::len) \<le> 64" "shift < 64" "length out = length xs"
    "counts = map (count_list (map (qdigit shift) xs)) [0..<4]"
  shows "stable_partition_of_4_into (xs :: 'a word list) shift counts out = Some (buckets (qdigit shift) 4 xs)"
proof -
  have "\<forall>y\<in>set (map (qdigit shift) xs). y < 4" by simp
  from sum_counts [OF this assms(4)] show ?thesis
    unfolding stable_partition_of_4_into_def positions4 [OF assms(4)]
    using assms(1-3) by (simp add: scatter_buckets two_bits_usize_eq)
qed

lemma stable_partition_of_4_with_codes_into_eq:
  assumes "\<forall>x\<in>set xs. unat (as_usize x) < length codes
      \<and> unat (pc_len (codes ! unat (as_usize x))) \<le> 32"
    "0 < shift" "shift < 2 ^ 32" "length out = length xs"
    "counts = map (count_list (map (code_digit 3 codes 4 shift) xs)) [0..<5]"
  shows "stable_partition_of_4_with_codes_into xs shift codes counts out
      = stable_partition_of_4_with_codes xs shift codes"
    and "stable_partition_of_4_with_codes xs shift codes = Some (buckets (code_digit 3 codes 4 shift) 5 xs)"
proof -
  have b: "\<forall>x\<in>set xs. code_bucket 3 codes 4 shift x = Some (code_digit 3 codes 4 shift x)
      \<and> code_digit 3 codes 4 shift x < 5"
    using assms(1-3) code_bucket_eq [of _ codes shift 3 4] by auto
  have d: "\<forall>y\<in>set (map (code_digit 3 codes 4 shift) xs). y < 5" using b by simp
  show c: "stable_partition_of_4_with_codes xs shift codes = Some (buckets (code_digit 3 codes 4 shift) 5 xs)"
    unfolding stable_partition_of_4_with_codes_def by (rule partition_vecs_buckets) (use b in auto)
  show "stable_partition_of_4_with_codes_into xs shift codes counts out
      = stable_partition_of_4_with_codes xs shift codes"
    unfolding c stable_partition_of_4_with_codes_into_def positions5 [OF assms(5)] sum_counts [OF d assms(5), unfolded length_map]
    using assms(4) b by (simp add: scatter_buckets)
qed

section \<open>Remapping an alphabet of bytes\<close>

definition text_remap :: "u8 list \<Rightarrow> (u8 list \<times> nat) option" where
  "text_remap input = (
     let unique = sorted_list_of_set (set input);
         remap = map_of (zip unique [0..<length unique])
     in do {
       out \<leftarrow> those (map (\<lambda>c. map_option of_nat (remap c)) input);
       Some (out, card (dom remap))
     })"

lemma map_of_zip_index: "distinct u \<Longrightarrow> i < length u \<Longrightarrow> map_of (zip u [0..<length u]) (u ! i) = Some i"
  by (subst map_of_zip_nth) simp_all

lemma sorted_index:
  assumes "sorted ys" "distinct ys" "i < length ys"
  shows "card {d \<in> set ys. d < ys ! i} = i"
proof -
  have "{d \<in> set ys. d < ys ! i} = (\<lambda>j. ys ! j) ` {..<i}"
  proof (intro set_eqI iffI)
    fix d assume "d \<in> {d \<in> set ys. d < ys ! i}"
    then obtain j where j: "j < length ys" "d = ys ! j" "ys ! j < ys ! i" by (auto simp: in_set_conv_nth)
    then have "j < i" using assms(1,3) by (meson leI leD sorted_nth_mono)
    with j show "d \<in> (\<lambda>j. ys ! j) ` {..<i}" by auto
  next
    fix d assume "d \<in> (\<lambda>j. ys ! j) ` {..<i}"
    then obtain j where j: "j < i" "d = ys ! j" by auto
    then have "ys ! j \<le> ys ! i" "ys ! j \<noteq> ys ! i"
      using assms by (auto simp: sorted_nth_mono nth_eq_iff_index_eq)
    with j assms(3) show "d \<in> {d \<in> set ys. d < ys ! i}" by auto
  qed
  moreover have "inj_on (\<lambda>j. ys ! j) {..<i}"
    using assms by (intro inj_onI) (auto simp: nth_eq_iff_index_eq)
  ultimately show ?thesis by (simp add: card_image)
qed

text \<open>Each byte becomes the number of distinct smaller bytes of the input.\<close>

lemma text_remap_eq:
  "text_remap input = Some (map (\<lambda>c. of_nat (card {d \<in> set input. d < c})) input, card (set input))"
proof -
  let ?u = "sorted_list_of_set (set input)"
  let ?r = "map_of (zip ?u [0..<length ?u])"
  have dist: "distinct ?u" and srt: "sorted ?u" and set_u: "set ?u = set input" by auto
  have r: "?r c = Some (card {d \<in> set input. d < c})" if "c \<in> set input" for c
  proof -
    have "c \<in> set ?u" using that by simp
    then obtain i where i: "i < length ?u" "?u ! i = c"
      by (auto simp only: in_set_conv_nth)
    have "?r (?u ! i) = Some i" using dist i(1) by (rule map_of_zip_index)
    moreover have "card {d \<in> set input. d < ?u ! i} = i"
      using sorted_index [OF srt dist i(1)] unfolding set_u .
    ultimately show ?thesis unfolding i(2) by simp
  qed
  have "those (map (\<lambda>c. map_option of_nat (?r c)) input)
      = Some (map (\<lambda>c. of_nat (card {d \<in> set input. d < c}) :: u8) input)"
    by (rule those_map_Some) (simp only: r option.map)
  moreover have "dom ?r = set input"
    using dom_map_of_zip [of ?u "[0..<length ?u]"] by simp
  ultimately show ?thesis by (simp add: text_remap_def Let_def)
qed

end
