(* ===== verification/WaveletMatrix.thy ===== *)
theory WaveletMatrix
  imports Utils
begin

text \<open>
  The wavelet matrix as mathematics: level 0 is the sequence, and each level is the stable
  partition of the one above by its two-bit digit, the most significant first. A node of the
  tree is a contiguous interval of a level (\<open>wm_node\<close>): the elements of a slice of the
  sequence that share a prefix of digits, in their original order. The lemmas give the
  interval of a child by two ranks, the element a position descends to, and how a position
  selected in a child maps back to its parent; every query of the quad wavelet tree follows
  them level by level.
\<close>

section \<open>Levels\<close>

fun wm_level :: "nat \<Rightarrow> 'a::len word list \<Rightarrow> nat \<Rightarrow> 'a word list" where
  "wm_level L xs 0 = xs"
| "wm_level L xs (Suc l) = buckets (qdigit (2 * (L - 1 - l))) 4 (wm_level L xs l)"

definition wm_digits :: "nat \<Rightarrow> 'a::len word list \<Rightarrow> nat \<Rightarrow> nat list" where
  "wm_digits L xs l = map (qdigit (2 * (L - 1 - l))) (wm_level L xs l)"

text \<open>The first \<open>l\<close> digits of a symbol of \<open>L\<close> digits.\<close>

definition wm_pre :: "nat \<Rightarrow> nat \<Rightarrow> 'a::len word \<Rightarrow> nat" where
  "wm_pre L l x = unat x div 4 ^ (L - l)"

lemma length_wm_level [simp]: "length (wm_level L xs l) = length xs"
  by (induction l) (simp_all add: length_buckets)

lemma set_wm_level [simp]: "set (wm_level L xs l) = set xs"
  by (induction l) (simp_all add: set_buckets)

lemma length_wm_digits [simp]: "length (wm_digits L xs l) = length xs"
  by (simp add: wm_digits_def)

lemma wm_digits_less: "x \<in> set (wm_digits L xs l) \<Longrightarrow> x < 4"
  by (auto simp: wm_digits_def)

lemma nth_wm_digits: "i < length xs \<Longrightarrow> wm_digits L xs l ! i = qdigit (2 * (L - 1 - l)) (wm_level L xs l ! i)"
  by (simp add: wm_digits_def)

lemma wm_pre_0: "unat x < 4 ^ L \<Longrightarrow> wm_pre L 0 x = 0"
  by (simp add: wm_pre_def)

lemma wm_pre_all [simp]: "wm_pre L L x = unat x"
  by (simp add: wm_pre_def)

lemma wm_pre_Suc:
  assumes "l < L"
  shows "wm_pre L (Suc l) x = 4 * wm_pre L l x + qdigit (2 * (L - 1 - l)) x"
proof -
  let ?k = "L - Suc l"
  have "unat x div 4 ^ (L - l) = unat x div 4 ^ ?k div 4"
    using assms div_mult2_eq [of "unat x" "4 ^ ?k" 4] by (simp add: Suc_diff_Suc mult.commute flip: power_Suc)
  moreover have "(2 :: nat) ^ (2 * (L - 1 - l)) = 4 ^ ?k" by (simp add: power_mult)
  ultimately show ?thesis by (simp add: wm_pre_def qdigit_def)
qed

lemma wm_pre_Suc_iff:
  assumes "l < L" "d < 4"
  shows "wm_pre L (Suc l) x = 4 * v + d \<longleftrightarrow> wm_pre L l x = v \<and> qdigit (2 * (L - 1 - l)) x = d"
proof -
  have "4 * p + q = 4 * v + d \<longleftrightarrow> p = v \<and> q = d" if "q < 4" for p q :: nat
  proof
    assume eq: "4 * p + q = 4 * v + d"
    then have "(4 * p + q) div 4 = (4 * v + d) div 4" by simp
    then have "p = v" using that assms(2) by simp
    with eq show "p = v \<and> q = d" by simp
  qed simp
  then show ?thesis unfolding wm_pre_Suc [OF assms(1)] by simp
qed

section \<open>Nodes\<close>

definition wm_part :: "nat \<Rightarrow> nat \<Rightarrow> nat \<Rightarrow> 'a::len word list \<Rightarrow> 'a word list" where
  "wm_part L l v ys = filter (\<lambda>x. wm_pre L l x = v) ys"

definition wm_node :: "nat \<Rightarrow> 'a::len word list \<Rightarrow> 'a word list \<Rightarrow> nat \<Rightarrow> nat \<Rightarrow> nat \<Rightarrow> nat \<Rightarrow> bool" where
  "wm_node L xs ys l v b e \<longleftrightarrow> b \<le> e \<and> e \<le> length xs \<and> slice (wm_level L xs l) b e = wm_part L l v ys"

lemma wm_node_root:
  "s \<le> e \<Longrightarrow> e \<le> length xs \<Longrightarrow> \<forall>x\<in>set xs. unat x < 4 ^ L \<Longrightarrow> wm_node L xs (slice xs s e) 0 0 s e"
  by (auto simp: wm_node_def wm_part_def wm_pre_0 slice_def intro!: filter_True [symmetric] dest!: in_set_takeD in_set_dropD)

lemma wm_part_Suc:
  "l < L \<Longrightarrow> d < 4 \<Longrightarrow> wm_part L (Suc l) (4 * v + d) ys = filter (\<lambda>x. qdigit (2 * (L - 1 - l)) x = d) (wm_part L l v ys)"
  by (auto simp: wm_part_def wm_pre_Suc_iff intro!: filter_cong)

lemma wm_node_size: "wm_node L xs ys l v b e \<Longrightarrow> e - b = length (wm_part L l v ys)"
  by (metis length_slice length_wm_level wm_node_def)

lemma wm_child_le:
  assumes "d < 4" "i \<le> length xs"
  shows "smaller_of (wm_digits L xs l) d + rank_of (wm_digits L xs l) d i \<le> length xs"
  using rank_step_le [of i "wm_level L xs l" "qdigit (2 * (L - 1 - l))" 4 d] assms by (simp add: wm_digits_def)

text \<open>The child for digit \<open>d\<close> of a node.\<close>

lemma wm_node_child:
  assumes "wm_node L xs ys l v b e" "l < L" "d < 4"
  shows "wm_node L xs ys (Suc l) (4 * v + d)
    (smaller_of (wm_digits L xs l) d + rank_of (wm_digits L xs l) d b)
    (smaller_of (wm_digits L xs l) d + rank_of (wm_digits L xs l) d e)"
proof -
  have be: "b \<le> e" "e \<le> length (wm_level L xs l)" using assms(1) by (simp_all add: wm_node_def)
  have "slice (wm_level L xs (Suc l)) (smaller_of (wm_digits L xs l) d + rank_of (wm_digits L xs l) d b)
      (smaller_of (wm_digits L xs l) d + rank_of (wm_digits L xs l) d e) = wm_part L (Suc l) (4 * v + d) ys"
    using assms slice_buckets [OF assms(3) be, of "qdigit (2 * (L - 1 - l))"]
    by (simp add: wm_digits_def wm_node_def wm_part_Suc)
  moreover have "rank_of (wm_digits L xs l) d b \<le> rank_of (wm_digits L xs l) d e"
    using be(1) by (rule rank_of_mono)
  ultimately show ?thesis
    using wm_child_le [OF assms(3), of e xs L l] be by (simp add: wm_node_def)
qed

lemma wm_node_rank:
  assumes "wm_node L xs ys l v b e" "l < L" "d < 4"
  shows "rank_of (wm_digits L xs l) d e = rank_of (wm_digits L xs l) d b + length (wm_part L (Suc l) (4 * v + d) ys)"
proof -
  have "rank_of (wm_digits L xs l) d b \<le> rank_of (wm_digits L xs l) d e"
    using assms(1) by (intro rank_of_mono) (simp add: wm_node_def)
  then show ?thesis using wm_node_size [OF wm_node_child [OF assms]] by simp
qed

lemma wm_part_all: "wm_part L L v ys = filter (\<lambda>x. unat x = v) ys"
  by (simp add: wm_part_def)

lemma length_wm_part_symbol: "length (wm_part L L (unat c) ys) = count_list ys c"
  by (induction ys) (auto simp: wm_part_def simp flip: word_unat_eq_iff)

section \<open>Following one position\<close>

lemma wm_descend:
  fixes xs :: "'a::len word list" and L l :: nat
  assumes "p < length xs"
  defines "D \<equiv> wm_digits L xs l"
  shows "smaller_of D (D ! p) + rank_of D (D ! p) p < length xs"
    and "wm_level L xs (Suc l) ! (smaller_of D (D ! p) + rank_of D (D ! p) p) = wm_level L xs l ! p"
proof -
  let ?f = "qdigit (2 * (L - 1 - l))"
  have d: "D ! p < 4" using assms(1) by (simp add: D_def nth_wm_digits)
  have "smaller_of D (D ! p) + rank_of D (D ! p) (Suc p) \<le> length xs"
    unfolding D_def by (rule wm_child_le) (use d assms(1) in \<open>simp_all add: D_def\<close>)
  then show "smaller_of D (D ! p) + rank_of D (D ! p) p < length xs"
    using assms(1) by (simp add: rank_of_Suc D_def)
  show "wm_level L xs (Suc l) ! (smaller_of D (D ! p) + rank_of D (D ! p) p) = wm_level L xs l ! p"
    using nth_buckets [of "D ! p" 4 p "wm_level L xs l" ?f] d assms(1)
    by (simp add: D_def wm_digits_def)
qed

section \<open>Back from a child\<close>

lemma nth_filter_take:
  assumes "q < length N" "f (N ! q)" "k = length (filter f (take q N))"
  shows "filter f N ! k = N ! q" "take k (filter f N) = filter f (take q N)" "k < length (filter f N)"
proof -
  have "N = take q N @ N ! q # drop (Suc q) N" using assms(1) by (rule id_take_nth_drop)
  then have "filter f N = filter f (take q N) @ N ! q # filter f (drop (Suc q) N)"
    using assms(2) by (metis (mono_tags, lifting) filter.simps(2) filter_append)
  then show "filter f N ! k = N ! q" "take k (filter f N) = filter f (take q N)" "k < length (filter f N)"
    using assms(3) by (simp_all add: nth_append)
qed

lemma filter_position:
  assumes "k < length (filter f N)"
  obtains q where "q < length N" "f (N ! q)" "k = length (filter f (take q N))"
proof -
  have "length (filter f N) = cntp (\<lambda>j. f (N ! j)) (length N)" by (rule length_filter_cntp)
  with assms obtain q where q: "q < length N" "f (N ! q)" "cntp (\<lambda>j. f (N ! j)) q = k"
    using cntp_ex [of k "\<lambda>j. f (N ! j)" "length N"] by auto
  have "length (filter f (take q N)) = cntp (\<lambda>j. f (take q N ! j)) q"
    using q(1) length_filter_cntp [of f "take q N"] by simp
  also have "\<dots> = cntp (\<lambda>j. f (N ! j)) q" by (intro cntp_cong) simp
  finally show ?thesis using that q by simp
qed

lemma rank_of_slice:
  assumes "b + q \<le> length ys"
  shows "rank_of (map f ys) d (b + q) = rank_of (map f ys) d b + length (filter (\<lambda>x. f x = d) (slice ys b (b + q)))"
  by (simp add: rank_of_map take_slice [of b "b + q"])

text \<open>
  A rank inside the child selects the position of that element inside the node; a rank
  beyond the child selects nothing, or a position beyond the node.
\<close>

lemma wm_select_inside:
  assumes node: "wm_node L xs ys l v b e" and "l < L" "d < 4" "k < length (wm_part L (Suc l) (4 * v + d) ys)"
  obtains q where "select_of (wm_digits L xs l) d (rank_of (wm_digits L xs l) d b + k) = Some (b + q)"
    "q < length (wm_part L l v ys)" "wm_part L l v ys ! q = wm_part L (Suc l) (4 * v + d) ys ! k"
    "take k (wm_part L (Suc l) (4 * v + d) ys) = filter (\<lambda>x. qdigit (2 * (L - 1 - l)) x = d) (take q (wm_part L l v ys))"
proof -
  let ?f = "\<lambda>x. qdigit (2 * (L - 1 - l)) x = d" and ?N = "wm_part L l v ys"
  have N': "wm_part L (Suc l) (4 * v + d) ys = filter ?f ?N" by (rule wm_part_Suc) fact+
  obtain q where q: "q < length ?N" "?f (?N ! q)" "k = length (filter ?f (take q ?N))"
    using assms(4) unfolding N' by (rule filter_position)
  have slc: "slice (wm_level L xs l) b e = ?N" and be: "b \<le> e" "e \<le> length xs"
    using node by (simp_all add: wm_node_def)
  have size: "e - b = length ?N" using node by (rule wm_node_size)
  have bq: "b + q < length xs" using q(1) size be by simp
  have "slice (wm_level L xs l) b (b + q) = take q (slice (wm_level L xs l) b e)"
    using q(1) size by (simp add: slice_def min_def)
  then have "rank_of (wm_digits L xs l) d (b + q) = rank_of (wm_digits L xs l) d b + k"
    using rank_of_slice [of b q "wm_level L xs l" "qdigit (2 * (L - 1 - l))" d] bq q(3)
    by (simp add: wm_digits_def slc)
  moreover have "wm_level L xs l ! (b + q) = ?N ! q"
    using nth_slice [of e "wm_level L xs l" q b] q(1) size be slc by simp
  then have "wm_digits L xs l ! (b + q) = d" using bq q(2) by (simp add: nth_wm_digits)
  ultimately have "select_of (wm_digits L xs l) d (rank_of (wm_digits L xs l) d b + k) = Some (b + q)"
    using bq by (simp add: select_of_Some)
  then show ?thesis using that q(1) nth_filter_take [where f = ?f, OF q] unfolding N' by metis
qed

lemma wm_select_outside:
  assumes node: "wm_node L xs ys l v b e" and "l < L" "d < 4" "length (wm_part L (Suc l) (4 * v + d) ys) \<le> k"
    and "select_of (wm_digits L xs l) d (rank_of (wm_digits L xs l) d b + k) = Some p"
  shows "b \<le> p" "length (wm_part L l v ys) \<le> p - b"
proof -
  let ?D = "wm_digits L xs l"
  have p: "p < length ?D" "?D ! p = d" "rank_of ?D d p = rank_of ?D d b + k" using assms(5) by (simp_all add: select_of_Some)
  have "e \<le> p"
  proof (rule ccontr)
    assume "\<not> e \<le> p"
    then have "rank_of ?D d (Suc p) \<le> rank_of ?D d e" by (intro rank_of_mono) simp
    then show False using p wm_node_rank [OF assms(1-3)] assms(4) by (simp add: rank_of_Suc)
  qed
  then show "b \<le> p" "length (wm_part L l v ys) \<le> p - b"
    using node wm_node_size [OF node] by (simp_all add: wm_node_def)
qed

end
