(* ===== verification/QuadVec.thy ===== *)
theory QuadVec
  imports Utils
begin

text \<open>
  Quad vectors, \<^verbatim>\<open>src/qvector/mod.rs\<close>: the 512-bit \<open>DataLine\<close> of 256 two-bit symbols
  stored as two bit planes in four \<open>u128\<close> words, \<open>QVector\<close>, its iterator and
  \<open>QVectorBuilder\<close>.

  \<open>dl_sym\<close> reads the symbol at a position from the two planes, \<open>qv_list\<close> is the list of
  symbols a vector represents. The lemmas show that access, rank and the fused four-symbol
  rank of a line compute the symbol and the counts, and that pushing a value appends its two
  low bits to the represented list.
\<close>

unbundle bit_operations_syntax

section \<open>Data lines\<close>

record data_line =
  dl_words :: "u128 list"

definition data_line_default :: data_line where
  "data_line_default = \<lparr>dl_words = replicate 4 0\<rparr>"

definition REPEATEDSYMB :: "u128 list" where
  "REPEATEDSYMB = [-1, 0]"

definition normalize :: "data_line \<Rightarrow> nat \<Rightarrow> (u128 \<times> u128) option" where
  "normalize self symbol = do {
     mask_high \<leftarrow> idx REPEATEDSYMB (symbol div 2);
     mask_low \<leftarrow> idx REPEATEDSYMB (symbol mod 2);
     w0 \<leftarrow> idx (dl_words self) 0;
     w2 \<leftarrow> idx (dl_words self) 2;
     w1 \<leftarrow> idx (dl_words self) 1;
     w3 \<leftarrow> idx (dl_words self) 3;
     Some ((w0 XOR mask_high) AND (w2 XOR mask_low), (w1 XOR mask_high) AND (w3 XOR mask_low))
   }"

definition dl_set_symbol :: "data_line \<Rightarrow> u8 \<Rightarrow> nat \<Rightarrow> data_line option" where
  "dl_set_symbol self symbol i = (
     let word_id_high = i div 128; word_id_low = word_id_high + 2; cur_shift = i mod 128;
         s = (ucast symbol :: u128) AND 3
     in do {
       h \<leftarrow> idx (dl_words self) word_id_high;
       let ws = (dl_words self)[word_id_high := h OR push_bit cur_shift (drop_bit 1 s)];
       l \<leftarrow> idx ws word_id_low;
       Some (self\<lparr>dl_words := ws[word_id_low := l OR push_bit cur_shift (s AND 1)]\<rparr>)
     })"

text \<open>The four words seen as eight native 64-bit lanes, on a little-endian host.\<close>

definition lanes_le :: "u128 list \<Rightarrow> u64 list" where
  "lanes_le ws = concat (map (\<lambda>w. [ucast w, ucast (drop_bit 64 w)]) ws)"

definition dl_get_unchecked :: "data_line \<Rightarrow> nat \<Rightarrow> nat option" where
  "dl_get_unchecked self i = (
     let lane = i div 64; shift = i mod 64; words = lanes_le (dl_words self)
     in do {
       word_high \<leftarrow> idx words lane;
       word_low \<leftarrow> idx words (lane + 4);
       Some (unat ((push_bit 1 ((drop_bit shift word_high) AND 1)) OR ((drop_bit shift word_low) AND 1)))
     })"

text \<open>The same read on a big-endian host.\<close>

definition dl_get_unchecked_be :: "data_line \<Rightarrow> nat \<Rightarrow> nat option" where
  "dl_get_unchecked_be self i = (
     let word_id_high = i div 128; word_id_low = word_id_high + 2; cur_shift = i mod 128
     in do {
       word_high \<leftarrow> idx (dl_words self) word_id_high;
       word_low \<leftarrow> idx (dl_words self) word_id_low;
       Some (unat ((push_bit 1 ((drop_bit cur_shift word_high) AND 1)) OR ((drop_bit cur_shift word_low) AND 1)))
     })"

definition dl_get :: "data_line \<Rightarrow> nat \<Rightarrow> nat option option" where
  "dl_get self i = do { guard (i < 256); s \<leftarrow> dl_get_unchecked self i; Some (Some s) }"

text \<open>The masks that keep the positions below \<open>i\<close> in each of the two words of a plane.\<close>

definition rank_masks :: "nat \<Rightarrow> u128 \<times> u128" where
  "rank_masks i = (
     let last_word = i div 128; offset = i mod 128; mask_full = (-1 :: u128);
         mask_offset = push_bit offset 1 - 1
     in (if last_word = 0 then mask_offset else mask_full,
         if last_word = 1 then mask_offset else mask_full * of_bool (last_word = 2)))"

definition dl_rank_unchecked :: "data_line \<Rightarrow> nat \<Rightarrow> nat \<Rightarrow> nat option" where
  "dl_rank_unchecked self symbol i = do {
     guard (symbol \<le> 3);
     guard (i \<le> 256);
     (word_0, word_1) \<leftarrow> normalize self symbol;
     let (m0, m1) = rank_masks i;
     Some (pop (word_0 AND m0) + pop (word_1 AND m1))
   }"

definition dl_rank :: "data_line \<Rightarrow> nat \<Rightarrow> nat \<Rightarrow> nat option option" where
  "dl_rank self symbol i =
     (if symbol \<ge> 4 \<or> i > 256 then Some None
      else do { r \<leftarrow> dl_rank_unchecked self symbol i; Some (Some r) })"

definition dl_rank_all_unchecked :: "data_line \<Rightarrow> nat \<Rightarrow> nat list option" where
  "dl_rank_all_unchecked self i = (
     let last_word = i div 128; offset = i mod 128; mask_full = (-1 :: u128);
         mask_offset = (if offset = 0 then 0 else push_bit offset 1 - 1);
         mask0 = (if last_word = 0 then mask_offset else mask_full);
         mask1 = (if last_word = 1 then mask_offset else mask_full * of_bool (last_word = 2))
     in do {
       guard (i \<le> 256);
       w0 \<leftarrow> idx (dl_words self) 0;
       w2 \<leftarrow> idx (dl_words self) 2;
       w1 \<leftarrow> idx (dl_words self) 1;
       w3 \<leftarrow> idx (dl_words self) 3;
       let h0 = w0 AND mask0;
       let l0 = w2 AND mask0;
       let nh0 = mask0 XOR h0;
       let nl0 = mask0 XOR l0;
       let h1 = w1 AND mask1;
       let l1 = w3 AND mask1;
       let nh1 = mask1 XOR h1;
       let nl1 = mask1 XOR l1;
       Some [pop (nh0 AND nl0) + pop (nh1 AND nl1),
             pop (nh0 AND l0) + pop (nh1 AND l1),
             pop (h0 AND nl0) + pop (h1 AND nl1),
             pop (h0 AND l0) + pop (h1 AND l1)]
     })"

section \<open>What a line holds\<close>

definition dl_ok :: "data_line \<Rightarrow> bool" where
  "dl_ok dl \<longleftrightarrow> length (dl_words dl) = 4"

definition dl_sym :: "data_line \<Rightarrow> nat \<Rightarrow> nat" where
  "dl_sym dl i = 2 * of_bool (bit (dl_words dl ! (i div 128)) (i mod 128))
     + of_bool (bit (dl_words dl ! (2 + i div 128)) (i mod 128))"

lemma dl_sym_less [simp]: "dl_sym dl i < 4"
  by (simp add: dl_sym_def)

lemma dl_sym_planes:
  assumes "j < 128"
  shows "dl_sym dl j = 2 * of_bool (bit (dl_words dl ! 0) j) + of_bool (bit (dl_words dl ! 2) j)"
    and "dl_sym dl (128 + j) = 2 * of_bool (bit (dl_words dl ! 1) j) + of_bool (bit (dl_words dl ! 3) j)"
proof -
  have "(128 + j) div 128 = 1" "(128 + j) mod 128 = j" using assms by simp_all
  then show "dl_sym dl (128 + j) = 2 * of_bool (bit (dl_words dl ! 1) j) + of_bool (bit (dl_words dl ! 3) j)"
    by (simp only: dl_sym_def) simp
qed (use assms in \<open>simp add: dl_sym_def numeral_2_eq_2\<close>)

lemma dl_ok_default [simp]: "dl_ok data_line_default"
  by (simp add: dl_ok_def data_line_default_def)

lemma dl_sym_default [simp]: "i < 256 \<Longrightarrow> dl_sym data_line_default i = 0"
proof -
  assume "i < 256"
  then have "i div 128 < 2" by simp
  then show ?thesis by (simp add: dl_sym_def data_line_default_def)
qed

lemma length_lanes_le: "length (lanes_le ws) = 2 * length ws"
  by (induction ws) (simp_all add: lanes_le_def)

lemma nth_lanes_le:
  assumes "k < 2 * length ws" "j < 64"
  shows "bit (lanes_le ws ! k) j = bit (ws ! (k div 2)) (64 * (k mod 2) + j)"
proof -
  have "lanes_le ws ! k = (if even k then ucast (ws ! (k div 2)) else ucast (drop_bit 64 (ws ! (k div 2))))"
    unfolding lanes_le_def using assms(1) by (subst nth_concat_pairs) auto
  then show ?thesis
    using assms(2) by (cases "even k") (auto simp: bit_unsigned_iff bit_drop_bit_eq even_iff_mod_2_eq_zero odd_iff_mod_2_eq_one
        dest: bit_imp_le_length)
qed

lemma and_one_of_bool: "(x :: 'a::len word) AND 1 = of_bool (bit x 0)"
  by (simp add: and_one_eq bit_0 mod_2_eq_odd)

lemma two_bit_value_64: "unat ((push_bit 1 (a AND 1)) OR (b AND 1) :: u64) = 2 * of_bool (bit a 0) + of_bool (bit b 0)"
  unfolding and_one_of_bool by (cases "bit a 0"; cases "bit b 0") simp_all

lemma two_bit_value_128: "unat ((push_bit 1 (a AND 1)) OR (b AND 1) :: u128) = 2 * of_bool (bit a 0) + of_bool (bit b 0)"
  unfolding and_one_of_bool by (cases "bit a 0"; cases "bit b 0") simp_all

text \<open>Access by either memory order reads the symbol.\<close>

lemma dl_get_unchecked_eq:
  assumes "dl_ok dl" "i < 256"
  shows "dl_get_unchecked dl i = Some (dl_sym dl i)"
proof -
  let ?ws = "dl_words dl"
  have len: "length ?ws = 4" using assms(1) by (simp add: dl_ok_def)
  have lane: "i div 64 < 4" using assms(2) by simp
  have pos: "64 * (i div 64 mod 2) + i mod 64 = i mod 128" "i div 64 div 2 = i div 128"
    using mod_mult2_eq [of i 64 2] div_mult2_eq [of i 64 2] by simp_all
  have x4: "(x + 4) div 2 = 2 + x div 2" "(x + 4) mod 2 = x mod 2" for x :: nat by presburger+
  have pos4: "(i div 64 + 4) div 2 = 2 + i div 128" "(i div 64 + 4) mod 2 = i div 64 mod 2"
    unfolding x4 pos(2) by (rule refl)+
  have h: "bit (lanes_le ?ws ! (i div 64)) (i mod 64) = bit (?ws ! (i div 128)) (i mod 128)"
    using nth_lanes_le [of "i div 64" ?ws "i mod 64"] len lane unfolding pos by simp
  have l: "bit (lanes_le ?ws ! (i div 64 + 4)) (i mod 64) = bit (?ws ! (2 + i div 128)) (i mod 128)"
    using nth_lanes_le [of "i div 64 + 4" ?ws "i mod 64"] len lane unfolding pos4 pos by simp
  let ?a = "drop_bit (i mod 64) (lanes_le ?ws ! (i div 64))" and ?b = "drop_bit (i mod 64) (lanes_le ?ws ! (i div 64 + 4))"
  have "unat ((push_bit 1 (?a AND 1)) OR (?b AND 1)) = dl_sym dl i"
    unfolding two_bit_value_64 by (simp add: dl_sym_def bit_drop_bit_eq h l)
  then show ?thesis
    using len lane by (simp add: dl_get_unchecked_def Let_def length_lanes_le)
qed

lemma dl_get_unchecked_be_eq:
  assumes "dl_ok dl" "i < 256"
  shows "dl_get_unchecked_be dl i = Some (dl_sym dl i)"
proof -
  let ?a = "drop_bit (i mod 128) (dl_words dl ! (i div 128))" and ?b = "drop_bit (i mod 128) (dl_words dl ! (i div 128 + 2))"
  have i: "i div 128 < 2" using assms(2) by simp
  have "unat ((push_bit 1 (?a AND 1)) OR (?b AND 1)) = dl_sym dl i"
    unfolding two_bit_value_128 by (simp add: dl_sym_def bit_drop_bit_eq)
  with i show ?thesis
    using assms(1) by (simp add: dl_get_unchecked_be_def Let_def dl_ok_def)
qed

lemma dl_get_eq: "dl_ok dl \<Longrightarrow> dl_get dl i = (if i < 256 then Some (Some (dl_sym dl i)) else None)"
  by (simp add: dl_get_def dl_get_unchecked_eq)

text \<open>\<open>normalize\<close> marks the positions that hold the symbol.\<close>

lemma normalize_eq:
  assumes "dl_ok dl" "c < 4"
  obtains w0 w1 where "normalize dl c = Some (w0, w1)"
    "\<And>j. j < 128 \<Longrightarrow> bit w0 j \<longleftrightarrow> dl_sym dl j = c"
    "\<And>j. j < 128 \<Longrightarrow> bit w1 j \<longleftrightarrow> dl_sym dl (128 + j) = c"
proof -
  let ?w = "\<lambda>k. dl_words dl ! k"
  let ?mh = "REPEATEDSYMB ! (c div 2)" and ?ml = "REPEATEDSYMB ! (c mod 2)"
  have len: "length (dl_words dl) = 4" using assms(1) by (simp add: dl_ok_def)
  have R: "length REPEATEDSYMB = 2" by (simp add: REPEATEDSYMB_def)
  have cd: "c div 2 < 2" "c mod 2 < 2" using assms(2) by auto
  have bits: "j < 128 \<Longrightarrow> bit (REPEATEDSYMB ! d) j \<longleftrightarrow> d = 0" if "d < 2" for d j
    using that by (cases "d = 0") (auto simp: REPEATEDSYMB_def less_2_cases_iff)
  have sym: "(2 * of_bool a + of_bool b = c) \<longleftrightarrow> (a \<noteq> (c div 2 = 0)) \<and> (b \<noteq> (c mod 2 = 0))" for a b
  proof -
    consider "c = 0" | "c = 1" | "c = 2" | "c = 3" using assms(2) by linarith
    then show ?thesis by cases (cases a; cases b; simp)+
  qed
  show ?thesis
  proof
    show "normalize dl c = Some ((?w 0 XOR ?mh) AND (?w 2 XOR ?ml), (?w 1 XOR ?mh) AND (?w 3 XOR ?ml))"
      using len cd R by (simp add: normalize_def)
    show "bit ((?w 0 XOR ?mh) AND (?w 2 XOR ?ml)) j \<longleftrightarrow> dl_sym dl j = c" if "j < 128" for j
      using that by (simp add: bit_and_iff bit_xor_iff bits cd dl_sym_planes sym)
    show "bit ((?w 1 XOR ?mh) AND (?w 3 XOR ?ml)) j \<longleftrightarrow> dl_sym dl (128 + j) = c" if "j < 128" for j
      using that by (simp add: bit_and_iff bit_xor_iff bits cd dl_sym_planes sym)
  qed
qed

lemma pop_0 [simp]: "pop 0 = 0"
  by (simp add: pop_def cntp_zero_iff)

lemma pop_rank_masks:
  assumes "i \<le> 256" "rank_masks i = (m0, m1)"
    and "\<And>j. j < 128 \<Longrightarrow> bit w0 j \<longleftrightarrow> P j" "\<And>j. j < 128 \<Longrightarrow> bit w1 j \<longleftrightarrow> P (128 + j)"
  shows "pop (w0 AND m0) + pop (w1 AND m1) = cntp P i"
proof -
  have full: "pop (w :: u128) = cntp (bit w) 128" for w by (simp add: pop_def)
  consider "i < 128" | "128 \<le> i" "i < 256" | "i = 256" using assms(1) by linarith
  then show ?thesis
  proof cases
    case 1
    then have "m0 = mask i" "m1 = 0" using assms(2) by (auto simp: rank_masks_def Let_def mask_eq_exp_minus_1)
    moreover have "cntp (bit w0) i = cntp P i" using assms(3) 1 by (intro cntp_cong) auto
    ultimately show ?thesis using 1 by (simp add: pop_and_mask)
  next
    case 2
    then have d: "i div 128 = 1" by simp
    have "m0 = -1" "m1 = mask (i mod 128)" using assms(2) d by (auto simp: rank_masks_def Let_def mask_eq_exp_minus_1)
    moreover have "cntp (bit w0) 128 = cntp P 128" using assms(3) by (intro cntp_cong) auto
    moreover have "cntp (bit w1) (i mod 128) = cntp (\<lambda>j. P (128 + j)) (i mod 128)"
      using assms(4) by (intro cntp_cong) auto
    moreover have "128 + i mod 128 = i" using d mult_div_mod_eq [of 128 i] by simp
    ultimately show ?thesis using cntp_add [of P 128 "i mod 128"] by (simp add: pop_and_mask) (simp add: full)
  next
    case 3
    then have "m0 = -1" "m1 = -1" using assms(2) by (auto simp: rank_masks_def Let_def)
    moreover have "cntp (bit w0) 128 = cntp P 128" using assms(3) by (intro cntp_cong) auto
    moreover have "cntp (bit w1) 128 = cntp (\<lambda>j. P (128 + j)) 128" using assms(4) by (intro cntp_cong) auto
    ultimately show ?thesis using cntp_add [of P 128 128] 3 by (simp add: full)
  qed
qed

lemma dl_rank_unchecked_eq:
  assumes "dl_ok dl" "c < 4" "i \<le> 256"
  shows "dl_rank_unchecked dl c i = Some (cntp (\<lambda>j. dl_sym dl j = c) i)"
proof -
  obtain w0 w1 where w: "normalize dl c = Some (w0, w1)"
    "\<And>j. j < 128 \<Longrightarrow> bit w0 j \<longleftrightarrow> dl_sym dl j = c"
    "\<And>j. j < 128 \<Longrightarrow> bit w1 j \<longleftrightarrow> dl_sym dl (128 + j) = c"
    using normalize_eq [OF assms(1,2)] by metis
  obtain m0 m1 where m: "rank_masks i = (m0, m1)" by force
  show ?thesis
    using pop_rank_masks [OF assms(3) m, of w0 "\<lambda>j. dl_sym dl j = c" w1] w m assms(2,3)
    by (simp add: dl_rank_unchecked_def)
qed

lemma dl_rank_eq:
  "dl_ok dl \<Longrightarrow> dl_rank dl c i
    = Some (if c < 4 \<and> i \<le> 256 then Some (cntp (\<lambda>j. dl_sym dl j = c) i) else None)"
  by (simp add: dl_rank_def dl_rank_unchecked_eq)

text \<open>The fused rank of the four symbols agrees with four single ranks.\<close>

lemma dl_rank_all_unchecked_eq:
  assumes "dl_ok dl" "i \<le> 256"
  shows "dl_rank_all_unchecked dl i = Some (map (\<lambda>c. cntp (\<lambda>j. dl_sym dl j = c) i) [0..<4])"
proof -
  obtain m0 m1 where m: "rank_masks i = (m0, m1)" by force
  then have ms: "m0 = fst (rank_masks i)" "m1 = snd (rank_masks i)" by auto
  have off: "(if i mod 128 = 0 then 0 else push_bit (i mod 128) 1 - 1) = (push_bit (i mod 128) 1 - 1 :: u128)"
    by simp
  have len: "length (dl_words dl) = 4" using assms(1) by (simp add: dl_ok_def)
  let ?w = "\<lambda>k. dl_words dl ! k"
  have x: "m XOR (w AND m) = NOT w AND m" for m w :: u128
    by (rule bit_eqI) (auto simp: bit_xor_iff bit_and_iff bit_not_iff)
  have split: "(a AND m) AND (b AND m) = (a AND b) AND m" for a b m :: u128
    by (rule bit_eqI) (auto simp: bit_and_iff)
  have val: "dl_rank_all_unchecked dl i = Some
     [pop ((NOT (?w 0) AND NOT (?w 2)) AND m0) + pop ((NOT (?w 1) AND NOT (?w 3)) AND m1),
      pop ((NOT (?w 0) AND ?w 2) AND m0) + pop ((NOT (?w 1) AND ?w 3) AND m1),
      pop ((?w 0 AND NOT (?w 2)) AND m0) + pop ((?w 1 AND NOT (?w 3)) AND m1),
      pop ((?w 0 AND ?w 2) AND m0) + pop ((?w 1 AND ?w 3) AND m1)]"
    unfolding dl_rank_all_unchecked_def Let_def off ms rank_masks_def fst_conv snd_conv using len assms(2)
    by (simp add: x split)
  show ?thesis
    unfolding val upt_4 list.map option.inject list.inject
    by (intro conjI refl; rule pop_rank_masks [OF assms(2) m])
      (simp_all add: bit_and_iff bit_not_iff dl_sym_planes)
qed

text \<open>Writing a symbol on a free position.\<close>

lemma u128_and_3_bits:
  fixes s :: u8
  shows "bit (drop_bit 1 ((ucast s :: u128) AND 3)) k \<longleftrightarrow> k = 0 \<and> bit s 1"
    and "bit (((ucast s :: u128) AND 3) AND 1) k \<longleftrightarrow> k = 0 \<and> bit s 0"
proof -
  have m: "(3 :: u128) = mask 2" by (simp add: mask_eq_exp_minus_1)
  have p: "possible_bit TYPE(u128) j" if "j < 2" for j using that by simp
  have j: "bit ((ucast s :: u128) AND 3) j \<longleftrightarrow> bit s j \<and> j < 2" for j
    unfolding m bit_and_iff bit_mask_iff bit_unsigned_iff using p [of j] by blast
  have k: "1 + k < 2 \<longleftrightarrow> k = 0" "k = 0 \<Longrightarrow> 1 + k = 1" by simp_all
  show "bit (drop_bit 1 ((ucast s :: u128) AND 3)) k \<longleftrightarrow> k = 0 \<and> bit s 1"
    unfolding bit_drop_bit_eq o_def j k(1) using k(2) by metis
  show "bit (((ucast s :: u128) AND 3) AND 1) k \<longleftrightarrow> k = 0 \<and> bit s 0"
    unfolding bit_and_iff [of _ "1 :: u128"] j bit_1_iff by auto
qed

lemma unat_mod_4: "unat (s :: u8) mod 4 = 2 * of_bool (bit s 1) + of_bool (bit s 0)"
proof -
  have b: "bit (unat s) j = bit s j" for j
    using bit_imp_le_length [of s j] by (auto simp: bit_unsigned_iff)
  have "unat s mod 2 = of_bool (bit (unat s) 0)" "unat s div 2 mod 2 = of_bool (bit (unat s) 1)"
    unfolding bit_iff_odd mod_2_eq_odd power_0 power_one_right div_by_1 by (rule refl)+
  note digits = this [unfolded b]
  show ?thesis unfolding digits [symmetric] using mod_mult2_eq [of "unat s" 2 2] by simp
qed

lemma dl_set_symbol_eq:
  assumes "dl_ok dl" "i < 256" "dl_sym dl i = 0"
  obtains dl' where "dl_set_symbol dl s i = Some dl'" "dl_ok dl'"
    "\<And>j. j < 256 \<Longrightarrow> dl_sym dl' j = (if j = i then unat s mod 4 else dl_sym dl j)"
proof -
  let ?h = "i div 128" and ?k = "i mod 128" and ?ws = "dl_words dl"
  let ?s = "(ucast s :: u128) AND 3"
  let ?dl' = "dl\<lparr>dl_words := ?ws[?h := ?ws ! ?h OR push_bit ?k (drop_bit 1 ?s), ?h + 2 := ?ws ! (?h + 2) OR push_bit ?k (?s AND 1)]\<rparr>"
  have len: "length ?ws = 4" using assms(1) by (simp add: dl_ok_def)
  have h: "?h < 2" using assms(2) by simp
  have k: "?k < 128" by simp
  have z: "\<not> bit (?ws ! ?h) ?k" "\<not> bit (?ws ! (2 + ?h)) ?k" using assms(3) by (auto simp: dl_sym_def)
  have b: "bit (w OR push_bit ?k t) m \<longleftrightarrow> bit w m \<or> m = ?k \<and> bit t 0"
    if "m < 128" "\<And>q. bit t q \<Longrightarrow> q = 0" for w t :: u128 and m
  proof -
    have "m - ?k = 0 \<and> ?k \<le> m \<longleftrightarrow> m = ?k" by auto
    then have "bit (push_bit ?k t) m \<longleftrightarrow> m = ?k \<and> bit t 0"
      unfolding bit_push_bit_iff using that(1) that(2) [of "m - ?k"] by auto
    then show ?thesis by (simp add: bit_or_iff)
  qed
  have sym: "dl_sym ?dl' j = (if j = i then unat s mod 4 else dl_sym dl j)" if j: "j < 256" for j
  proof -
    have jh: "j div 128 < 2" using j by simp
    have ij: "j = i \<longleftrightarrow> j div 128 = ?h \<and> j mod 128 = ?k" by (metis div_mult_mod_eq)
    have m: "j mod 128 < 128" by simp
    have q1: "q = 0" if "bit (drop_bit 1 ?s) q" for q using that unfolding u128_and_3_bits by (rule conjunct1)
    have q2: "q = 0" if "bit (?s AND 1) q" for q using that unfolding u128_and_3_bits by (rule conjunct1)
    have b1: "bit (?ws ! ?h OR push_bit ?k (drop_bit 1 ?s)) (j mod 128) \<longleftrightarrow> bit (?ws ! ?h) (j mod 128) \<or> j mod 128 = ?k \<and> bit s 1"
      using b [OF m, of "drop_bit 1 ?s" "?ws ! ?h"] q1 unfolding u128_and_3_bits by blast
    have b2: "bit (?ws ! (?h + 2) OR push_bit ?k (?s AND 1)) (j mod 128) \<longleftrightarrow> bit (?ws ! (?h + 2)) (j mod 128) \<or> j mod 128 = ?k \<and> bit s 0"
      using b [OF m, of "?s AND 1" "?ws ! (?h + 2)"] q2 unfolding u128_and_3_bits by blast
    consider "j div 128 \<noteq> ?h" | "j div 128 = ?h" by blast
    then show ?thesis
    proof cases
      case 1
      then have "j \<noteq> i" by auto
      then show ?thesis using 1 h jh by (simp add: dl_sym_def nth_list_update)
    next
      case 2
      have "dl_sym ?dl' j = 2 * of_bool (bit (?ws ! ?h OR push_bit ?k (drop_bit 1 ?s)) (j mod 128))
          + of_bool (bit (?ws ! (?h + 2) OR push_bit ?k (?s AND 1)) (j mod 128))"
        using 2 h len by (simp add: dl_sym_def nth_list_update add.commute [of 2])
      then show ?thesis
        using 2 z unfolding b1 b2 ij by (auto simp: dl_sym_def unat_mod_4 add.commute [of 2])
    qed
  qed
  show ?thesis
  proof
    show "dl_set_symbol dl s i = Some ?dl'"
      using h len by (simp add: dl_set_symbol_def Let_def)
    show "dl_ok ?dl'" using assms(1) by (simp add: dl_ok_def)
  qed (rule sym)
qed

end
