(* ===== verification/QVec.thy ===== *)
theory QVec
  imports QuadVec
begin

text \<open>
  \<open>QVector\<close>, its iterator and \<open>QVectorBuilder\<close>, \<^verbatim>\<open>src/qvector/mod.rs\<close>.

  The abstraction \<open>qv_list\<close> is the list of two-bit symbols a vector stands for. The lemmas
  show that \<open>get\<close> is list access, that iterating yields the list, that the builder appends
  the two low bits of each value, and that \<open>from_raw_parts\<close> and deserialisation accept
  exactly the positions the data can hold.
\<close>

section \<open>The vector\<close>

record qvector =
  qv_data :: "data_line list"
  qv_position :: nat

definition qv_is_empty :: "qvector \<Rightarrow> bool" where
  "qv_is_empty self \<longleftrightarrow> qv_position self = 0"

definition qv_len :: "qvector \<Rightarrow> nat" where
  "qv_len self = qv_position self div 2"

definition qv_get_unchecked :: "qvector \<Rightarrow> nat \<Rightarrow> nat option" where
  "qv_get_unchecked self i = do {
     guard (i < qv_position self div 2);
     line \<leftarrow> idx (qv_data self) (i div 256);
     dl_get_unchecked line (i mod 256)
   }"

definition qv_get :: "qvector \<Rightarrow> nat \<Rightarrow> nat option option" where
  "qv_get self i =
     (if i \<ge> qv_position self div 2 then Some None
      else do { s \<leftarrow> qv_get_unchecked self i; Some (Some s) })"

definition qv_from_raw_parts :: "data_line list \<Rightarrow> nat \<Rightarrow> qvector option" where
  "qv_from_raw_parts data position = do {
     guard (position mod 2 = 0);
     guard (position \<le> length data * 512);
     Some \<lparr>qv_data = data, qv_position = position\<rparr>
   }"

text \<open>Deserialisation, after serde has decoded the two fields.\<close>

definition qv_deserialize :: "data_line list \<Rightarrow> nat \<Rightarrow> string + qvector" where
  "qv_deserialize data position =
     (if position mod 2 \<noteq> 0 \<or> position > length data * 512
      then Inl ''QVector position is outside its data capacity''
      else Inr \<lparr>qv_data = data, qv_position = position\<rparr>)"

record qv_iterator =
  qi_i :: nat
  qi_qv :: qvector

definition qv_iter :: "qvector \<Rightarrow> qv_iterator" where
  "qv_iter self = \<lparr>qi_i = 0, qi_qv = self\<rparr>"

definition qv_iter_next :: "qv_iterator \<Rightarrow> (nat option \<times> qv_iterator) option" where
  "qv_iter_next self = (
     let self = self\<lparr>qi_i := qi_i self + 1\<rparr>
     in do { r \<leftarrow> qv_get (qi_qv self) (qi_i self - 1); Some (r, self) })"

section \<open>The builder\<close>

record qvector_builder =
  qb_data :: "data_line list"
  qb_position :: nat

definition qb_default :: qvector_builder where
  "qb_default = \<lparr>qb_data = [], qb_position = 0\<rparr>"

text \<open>\<open>with_capacity\<close> reserves lines of 64 bytes and sets none.\<close>

definition qb_with_capacity :: "nat \<Rightarrow> qvector_builder option" where
  "qb_with_capacity n = do {
     bits \<leftarrow> mul_usize 2 n;
     guard (div_ceil bits 512 * 64 < 2 ^ 63);
     Some \<lparr>qb_data = [], qb_position = 0\<rparr>
   }"

definition qb_push :: "qvector_builder \<Rightarrow> u8 \<Rightarrow> qvector_builder option" where
  "qb_push self symbol = (
     let pos_in_last_line = qb_position self div 2 mod 256;
         data = (if pos_in_last_line = 0 then qb_data self @ [data_line_default] else qb_data self)
     in do {
       n \<leftarrow> chk_sub (length data) 1;
       line \<leftarrow> idx data n;
       line' \<leftarrow> dl_set_symbol line symbol pos_in_last_line;
       position \<leftarrow> add_usize (qb_position self) 2;
       Some \<lparr>qb_data = data[n := line'], qb_position = position\<rparr>
     })"

fun qb_extend :: "qvector_builder \<Rightarrow> 'a::len word list \<Rightarrow> qvector_builder option" where
  "qb_extend self [] = Some self"
| "qb_extend self (x # xs) = do { self \<leftarrow> qb_push self (ucast x); qb_extend self xs }"

definition qb_build :: "qvector_builder \<Rightarrow> qvector" where
  "qb_build self = \<lparr>qv_data = qb_data self, qv_position = qb_position self\<rparr>"

definition qv_from_iter :: "'a::len word list \<Rightarrow> qvector option" where
  "qv_from_iter xs = do { qvb \<leftarrow> qb_extend qb_default xs; Some (qb_build qvb) }"

section \<open>What a vector stands for\<close>

definition qv_ok :: "qvector \<Rightarrow> bool" where
  "qv_ok qv \<longleftrightarrow> (\<forall>dl\<in>set (qv_data qv). dl_ok dl) \<and> even (qv_position qv)
     \<and> qv_position qv \<le> length (qv_data qv) * 512"

definition qv_sym :: "qvector \<Rightarrow> nat \<Rightarrow> nat" where
  "qv_sym qv i = dl_sym (qv_data qv ! (i div 256)) (i mod 256)"

definition qv_list :: "qvector \<Rightarrow> nat list" where
  "qv_list qv = map (qv_sym qv) [0..<qv_len qv]"

text \<open>A vector as the builder makes it: no spare line, and only zeros after the last symbol.\<close>

definition qv_built :: "qvector \<Rightarrow> bool" where
  "qv_built qv \<longleftrightarrow> qv_ok qv \<and> length (qv_data qv) = div_ceil (qv_len qv) 256
     \<and> (\<forall>i. qv_len qv \<le> i \<and> i < length (qv_data qv) * 256 \<longrightarrow> qv_sym qv i = 0)"

lemma length_qv_list [simp]: "length (qv_list qv) = qv_len qv"
  by (simp add: qv_list_def)

lemma nth_qv_list: "i < qv_len qv \<Longrightarrow> qv_list qv ! i = qv_sym qv i"
  by (simp add: qv_list_def)

lemma qv_sym_less [simp]: "qv_sym qv i < 4"
  by (simp add: qv_sym_def)

lemma set_qv_list: "x \<in> set (qv_list qv) \<Longrightarrow> x < 4"
  by (auto simp: qv_list_def)

lemma qv_len_line: "qv_ok qv \<Longrightarrow> i < qv_len qv \<Longrightarrow> i div 256 < length (qv_data qv)"
  by (auto simp: qv_ok_def qv_len_def)

lemma qv_line_ok: "qv_ok qv \<Longrightarrow> l < length (qv_data qv) \<Longrightarrow> dl_ok (qv_data qv ! l)"
  by (simp add: qv_ok_def)

lemma qv_is_empty_eq: "qv_ok qv \<Longrightarrow> qv_is_empty qv \<longleftrightarrow> qv_list qv = []"
  by (auto simp: qv_is_empty_def qv_list_def qv_len_def qv_ok_def)

lemma qv_get_unchecked_eq: "qv_ok qv \<Longrightarrow> i < qv_len qv \<Longrightarrow> qv_get_unchecked qv i = Some (qv_sym qv i)"
  by (simp add: qv_get_unchecked_def flip: qv_len_def) (simp add: qv_len_line qv_line_ok dl_get_unchecked_eq qv_sym_def)

lemma qv_get_eq: "qv_ok qv \<Longrightarrow> qv_get qv i = Some (idx (qv_list qv) i)"
  by (simp add: qv_get_def idx_def qv_get_unchecked_eq nth_qv_list flip: qv_len_def)

lemma qv_iter_collect:
  assumes "qv_ok qv"
  shows "collect qv_iter_next (qv_iter qv) = Some (qv_list qv)"
  using collect_run [where st = "\<lambda>k. \<lparr>qi_i = k, qi_qv = qv\<rparr>" and nxt = qv_iter_next and xs = "qv_list qv" and k = 0]
  by (simp add: qv_iter_def qv_iter_next_def qv_get_eq assms)

lemma qv_from_raw_parts_eq:
  assumes "\<forall>dl\<in>set data. dl_ok dl"
  shows "qv_from_raw_parts data position = Some qv \<longleftrightarrow>
    qv_ok qv \<and> qv_data qv = data \<and> qv_position qv = position"
  using assms by (cases qv) (auto simp: qv_from_raw_parts_def qv_ok_def guard_def even_iff_mod_2_eq_zero)

lemma qv_deserialize_eq:
  assumes "\<forall>dl\<in>set data. dl_ok dl"
  shows "qv_deserialize data position = Inr qv \<longleftrightarrow>
    qv_ok qv \<and> qv_data qv = data \<and> qv_position qv = position"
  using assms by (cases qv) (auto simp: qv_deserialize_def qv_ok_def even_iff_mod_2_eq_zero)

section \<open>The builder appends\<close>

lemma qv_built_default: "qv_built (qb_build qb_default)" "qv_list (qb_build qb_default) = []"
  by (simp_all add: qv_built_def qv_ok_def qv_list_def qv_len_def qb_build_def qb_default_def div_ceil_def)

lemma div_ceil_256:
  "div_ceil n 256 = n div 256 \<longleftrightarrow> n mod 256 = 0"
  "div_ceil (Suc n) 256 = Suc (n div 256)"
proof -
  show "div_ceil n 256 = n div 256 \<longleftrightarrow> n mod 256 = 0" by (simp add: div_ceil_def)
  show "div_ceil (Suc n) 256 = Suc (n div 256)"
    by (auto simp: div_ceil_def div_Suc)
qed

lemma qv_list_snoc:
  assumes "qv_len qv' = Suc (qv_len qv)" "\<And>i. i < qv_len qv \<Longrightarrow> qv_sym qv' i = qv_sym qv i"
    "qv_sym qv' (qv_len qv) = s"
  shows "qv_list qv' = qv_list qv @ [s]"
  using assms by (simp add: qv_list_def)

lemma qb_with_capacity_eq:
  assumes "n < 2 ^ 63"
  shows "qb_with_capacity n = Some qb_default"
proof -
  have "div_ceil (2 * n) 512 \<le> 2 ^ 55" using assms by (intro div_ceil_le) simp_all
  then have "div_ceil (2 * n) 512 * 64 < 2 ^ 63" by simp
  then show ?thesis using assms by (simp add: qb_with_capacity_def mul_usize_def qb_default_def)
qed

lemma qb_with_capacity_default: "qb_with_capacity n = Some b \<Longrightarrow> b = qb_default"
  by (auto simp: qb_with_capacity_def qb_default_def bind_eq_Some_conv)

lemma qb_push_eq:
  assumes "qv_built (qb_build b)" and small: "qv_len (qb_build b) + 1 < 2 ^ 63"
  obtains b' where "qb_push b s = Some b'" "qv_built (qb_build b')"
    "qv_list (qb_build b') = qv_list (qb_build b) @ [unat s mod 4]"
proof -
  define qv n l where "qv = qb_build b" and "n = qv_len qv" and "l = n div 256"
  define d where "d = (if n mod 256 = 0 then qb_data b @ [data_line_default] else qb_data b)"
  have built: "qv_built qv" using assms(1) by (simp add: qv_def)
  have n: "qb_position b div 2 = n" "qb_position b = 2 * n"
    using built by (auto simp: n_def qv_def qv_len_def qb_build_def qv_built_def qv_ok_def)
  have data: "qv_data qv = qb_data b" by (simp add: qv_def qb_build_def)
  have len: "length (qb_data b) = div_ceil n 256" using built by (simp add: qv_built_def data n_def)
  have "\<forall>dl\<in>set (qb_data b). dl_ok dl" using built by (simp add: qv_built_def qv_ok_def data)
  then have ok: "\<forall>dl\<in>set d. dl_ok dl" by (auto simp: d_def)
  have zero: "dl_sym (qb_data b ! (i div 256)) (i mod 256) = 0" if "n \<le> i" "i < length (qb_data b) * 256" for i
    using built that by (simp add: qv_built_def qv_sym_def data n_def)
  have ld: "length d = Suc l" using len by (simp add: div_ceil_def d_def l_def)
  then have ln: "dl_ok (d ! l)" using ok nth_mem [of l d] by (metis lessI)
  have old: "d ! (i div 256) = qb_data b ! (i div 256)" if "i < length (qb_data b) * 256" for i
    using that by (auto simp: d_def nth_append less_mult_imp_div_less)
  have z: "dl_sym (d ! (i div 256)) (i mod 256) = 0" if "n \<le> i" "i < Suc l * 256" for i
  proof (cases "i < length (qb_data b) * 256")
    case True
    then show ?thesis using zero [OF that(1) True] old [OF True] by simp
  next
    case False
    then have m: "n mod 256 = 0" using that(2) ld by (auto simp: d_def split: if_splits)
    then have "length (qb_data b) = l" using len by (simp add: div_ceil_def l_def)
    then have "i div 256 = length (qb_data b)" using False that(2) by (simp add: div_nat_eqI)
    then show ?thesis using m by (simp add: d_def)
  qed
  have nl: "n < Suc l * 256" unfolding l_def by (simp add: div_less_iff_less_mult [symmetric])
  from z [OF order_refl this] have "dl_sym (d ! l) (n mod 256) = 0" by (simp add: l_def)
  with ln obtain dl' where dl': "dl_set_symbol (d ! l) s (n mod 256) = Some dl'" "dl_ok dl'"
    "\<And>j. j < 256 \<Longrightarrow> dl_sym dl' j = (if j = n mod 256 then unat s mod 4 else dl_sym (d ! l) j)"
    using dl_set_symbol_eq [of "d ! l" "n mod 256" s] by (metis mod_less_divisor zero_less_numeral)
  define b' where "b' = \<lparr>qb_data = d[l := dl'], qb_position = qb_position b + 2\<rparr>"
  define qv' where "qv' = qb_build b'"
  have push: "qb_push b s = Some b'"
    using ld dl'(1) small n(2) by (simp add: qb_push_def Let_def n(1) b'_def l_def d_def n_def qv_def)
  have data': "qv_data qv' = d[l := dl']" by (simp add: qv'_def b'_def qb_build_def)
  have pos': "qv_position qv' = 2 * Suc n" by (simp add: qv'_def b'_def qb_build_def n(2))
  have n': "qv_len qv' = Suc n" by (simp add: qv_len_def pos')
  have sym: "qv_sym qv' i = (if i = n then unat s mod 4 else dl_sym (d ! (i div 256)) (i mod 256))" for i
  proof (cases "i div 256 = l")
    case True
    have "i = n \<longleftrightarrow> i mod 256 = n mod 256" using True unfolding l_def by (metis div_mult_mod_eq)
    then show ?thesis using True ld by (simp add: qv_sym_def data' dl'(3))
  next
    case False
    then show ?thesis by (auto simp: qv_sym_def data' l_def)
  qed
  have list: "qv_list qv' = qv_list qv @ [unat s mod 4]"
  proof (rule qv_list_snoc [OF n' [unfolded n_def]])
    show "qv_sym qv' (qv_len qv) = unat s mod 4" by (simp add: sym n_def)
    fix i assume i: "i < qv_len qv"
    then have "i < length (qb_data b) * 256"
      using qv_len_line [of qv i] built by (simp add: qv_built_def data div_less_iff_less_mult)
    then show "qv_sym qv' i = qv_sym qv i"
      using i old [of i] by (simp add: sym n_def) (simp add: qv_sym_def data)
  qed
  have "qv_built qv'" unfolding qv_built_def
  proof (intro conjI)
    have "\<forall>dl\<in>set (d[l := dl']). dl_ok dl"
      using ok dl'(2) by (auto dest!: subsetD [OF set_update_subset_insert])
    then show "qv_ok qv'" using nl unfolding qv_ok_def data' pos' by (simp add: ld)
    show "length (qv_data qv') = div_ceil (qv_len qv') 256"
      unfolding data' n' by (simp add: ld div_ceil_256 l_def)
    show "\<forall>i. qv_len qv' \<le> i \<and> i < length (qv_data qv') * 256 \<longrightarrow> qv_sym qv' i = 0"
      unfolding data' n' using z by (auto simp: ld sym)
  qed
  then show thesis using that [OF push] list unfolding qv'_def qv_def by blast
qed

text \<open>A push that returns keeps the form, whatever the length: it only returns while the position is a \<open>usize\<close>.\<close>

lemma qb_push_built:
  assumes "qv_built (qb_build b)" "qb_push b s = Some b'"
  shows "qv_built (qb_build b')"
proof -
  have "qb_position b + 2 < 2 ^ 64"
    using assms(2) by (auto simp: qb_push_def Let_def add_usize_def bind_eq_Some_conv split: if_splits)
  then have "qv_len (qb_build b) + 1 < 2 ^ 63" by (simp add: qv_len_def qb_build_def)
  from qb_push_eq [OF assms(1) this, of s] show ?thesis using assms(2) by auto
qed

lemma qb_extend_eq:
  assumes "qv_built (qb_build b)" "qv_len (qb_build b) + length xs < 2 ^ 63"
  shows "\<exists>b'. qb_extend b xs = Some b' \<and> qv_built (qb_build b')
    \<and> qv_list (qb_build b') = qv_list (qb_build b) @ map (\<lambda>x. unat (ucast x :: u8) mod 4) xs"
  using assms
proof (induction xs arbitrary: b)
  case (Cons x xs)
  obtain b1 where b1: "qb_push b (ucast x) = Some b1" "qv_built (qb_build b1)"
    "qv_list (qb_build b1) = qv_list (qb_build b) @ [unat (ucast x :: u8) mod 4]"
  proof -
    have "qv_len (qb_build b) + 1 < 2 ^ 63" using Cons.prems(2) by simp
    from qb_push_eq [OF Cons.prems(1) this, of "ucast x"] show thesis using that by metis
  qed
  have "qv_len (qb_build b1) + length xs < 2 ^ 63" using Cons.prems(2) arg_cong [OF b1(3), of length] by simp
  from Cons.IH [OF b1(2) this] show ?case using b1 by simp
qed simp

lemma unat_ucast_mod_4: "unat (ucast x :: u8) mod 4 = unat x mod 4"
proof -
  have "take_bit 2 (take_bit 8 (unat x)) = take_bit 2 (unat x)" by (simp add: take_bit_take_bit)
  then show ?thesis by (simp add: unsigned_ucast_eq take_bit_eq_mod)
qed

text \<open>Collecting values into a vector stores the two low bits of each.\<close>

lemma qv_from_iter_eq:
  assumes "length xs < 2 ^ 63"
  obtains qv where "qv_from_iter xs = Some qv" "qv_built qv" "qv_list qv = map (\<lambda>x. unat x mod 4) xs"
proof -
  have "qv_len (qb_build qb_default) + length xs < 2 ^ 63" using assms by (simp add: qv_len_def qb_build_def qb_default_def)
  from qb_extend_eq [OF qv_built_default(1) this] show thesis
    using that by (auto simp: qv_from_iter_def qv_built_default(2) unat_ucast_mod_4)
qed

lemma qv_built_ok: "qv_built qv \<Longrightarrow> qv_ok qv"
  by (simp add: qv_built_def)

text \<open>The vector with given symbols is unique: the representation is canonical.\<close>

lemma dl_sym_eq_imp:
  assumes "dl_ok a" "dl_ok b" "\<And>j. j < 256 \<Longrightarrow> dl_sym a j = dl_sym b j"
  shows "a = b"
proof -
  have two: "2 * of_bool p + of_bool q = (2 * of_bool p' + of_bool q' :: nat) \<longleftrightarrow> p = p' \<and> q = q'" for p q p' q'
    by (cases p; cases q; cases p'; cases q') simp_all
  have p: "dl_words a ! k = dl_words b ! k" if "k < 4" for k
  proof (rule bit_word_eqI)
    fix j :: nat assume j: "j < LENGTH(128)"
    from that consider "k = 0" | "k = 1" | "k = 2" | "k = 3" by linarith
    then show "bit (dl_words a ! k) j = bit (dl_words b ! k) j"
      using assms(3) [of j] assms(3) [of "128 + j"] j by cases (simp_all add: dl_sym_planes two)
  qed
  have "dl_words a = dl_words b"
    using assms(1,2) p by (intro nth_equalityI) (simp_all add: dl_ok_def)
  then show ?thesis by simp
qed

end
