(* ===== verification/RSPlainBuild.thy ===== *)
theory RSPlainBuild
  imports RSPlainCorrect
begin

text \<open>
  The construction of \<open>RSSupportPlain\<close>: \<open>build_inv\<close> describes the local variables of the loop
  of \<open>RSSupportPlain::new\<close> before each position, every part of the loop body keeps it, and the
  sentinels turn it into \<open>rp_inv\<close>.
\<close>

section \<open>The loop invariant\<close>

definition sbs_inv :: "nat \<Rightarrow> nat list \<Rightarrow> nat \<Rightarrow> superblock_plain list \<Rightarrow> bool" where
  "sbs_inv bs xs i sbs \<longleftrightarrow> (\<forall>j<length sbs. sp_ok (sbs ! j) \<and> (\<forall>c<4.
     sp_base (sbs ! j) c = rank_of xs c (j * (8 * bs))
     \<and> (\<forall>k<8. sp_block (sbs ! j) c k = (if (8 * j + k) * bs < i
          then rank_of xs c ((8 * j + k) * bs) - rank_of xs c (j * (8 * bs)) else 0))))"

definition samples_inv :: "nat \<Rightarrow> nat list \<Rightarrow> nat \<Rightarrow> u32 list list \<Rightarrow> bool" where
  "samples_inv bs xs i smps \<longleftrightarrow> length smps = 4 \<and> (\<forall>c<4.
     length (smps ! c) = div_ceil (rank_of xs c i) 8192
     \<and> (\<forall>s<length (smps ! c). \<exists>p<length xs. xs ! p = c \<and> rank_of xs c p = s * 8192
          \<and> unat (smps ! c ! s) = p div (8 * bs)))"

definition counts_at :: "nat list \<Rightarrow> nat \<Rightarrow> nat list" where
  "counts_at xs i = map (\<lambda>c. rank_of xs c i) [0..<4]"

definition counts_from :: "nat list \<Rightarrow> nat \<Rightarrow> nat \<Rightarrow> nat list" where
  "counts_from xs a i = map (\<lambda>c. rank_of xs c i - rank_of xs c a) [0..<4]"

text \<open>Before position \<open>i\<close>; then after the superblock step; then after the block step.\<close>

definition build_inv :: "nat \<Rightarrow> nat list \<Rightarrow> nat \<Rightarrow> rp_build \<Rightarrow> bool" where
  "build_inv bs xs i st \<longleftrightarrow> b_superblock_counters st = counts_at xs i \<and> b_occs st = counts_at xs i
     \<and> b_block_counters st = counts_from xs ((i - 1) div (8 * bs) * (8 * bs)) i
     \<and> length (b_superblocks st) = div_ceil i (8 * bs) \<and> sbs_inv bs xs i (b_superblocks st)
     \<and> samples_inv bs xs i (b_select_samples st)"

definition build_mid :: "nat \<Rightarrow> nat list \<Rightarrow> nat \<Rightarrow> nat \<Rightarrow> rp_build \<Rightarrow> bool" where
  "build_mid bs xs i b st \<longleftrightarrow> b_superblock_counters st = counts_at xs i \<and> b_occs st = counts_at xs i
     \<and> b_block_counters st = counts_from xs (i div (8 * bs) * (8 * bs)) i
     \<and> length (b_superblocks st) = i div (8 * bs) + 1 \<and> sbs_inv bs xs b (b_superblocks st)
     \<and> samples_inv bs xs i (b_select_samples st)"

lemma length_counts [simp]: "length (counts_at xs i) = 4" "length (counts_from xs a i) = 4"
  by (simp_all add: counts_at_def counts_from_def)

lemma nth_counts [simp]:
  "c < 4 \<Longrightarrow> counts_at xs i ! c = rank_of xs c i"
  "c < 4 \<Longrightarrow> counts_from xs a i ! c = rank_of xs c i - rank_of xs c a"
  by (simp_all add: counts_at_def counts_from_def)

lemma less_4_iff: "c < 4 \<longleftrightarrow> c = 0 \<or> c = 1 \<or> c = 2 \<or> c = (3 :: nat)"
  by auto

lemma build_inv_init: "0 < bs \<Longrightarrow> build_inv bs xs 0 rp_build_init"
  by (auto simp: build_inv_def rp_build_init_def counts_at_def counts_from_def upt_4 div_ceil_def
      sbs_inv_def samples_inv_def less_4_iff)

section \<open>The parts of the loop body\<close>

lemma start_superblock_inv:
  assumes "build_inv bs xs i st" "0 < bs" "length xs < 2 ^ 43" "i \<le> length xs"
  shows "build_mid bs xs i i (rp_start_superblock bs st i)"
proof (cases "i mod (8 * bs) = 0")
  case True
  let ?S = "8 * bs"
  have iS: "i div ?S * ?S = i" using True by (metis add.right_neutral div_mult_mod_eq)
  have len: "length (b_superblocks st) = i div ?S"
    using assms(1) True by (simp add: build_inv_def div_ceil_def)
  have b44: "counts_at xs i ! c < 2 ^ 44" if "c < 4" for c
    using rank_of_le [of xs c i] assms(3,4) that by simp
  let ?new = "sp_new (counts_at xs i)"
  have new: "sp_ok ?new" "sp_base ?new c = rank_of xs c i" "k < 8 \<Longrightarrow> sp_block ?new c k = 0" if "c < 4" for c k
    using sp_new_fields [OF that b44 [OF that]] that by simp_all
  have st: "rp_start_superblock bs st i = st\<lparr>b_superblocks := b_superblocks st @ [?new], b_block_counters := [0, 0, 0, 0]\<rparr>"
    using True assms(1) by (simp add: rp_start_superblock_def build_inv_def)
  have "sbs_inv bs xs i (b_superblocks st @ [?new])"
    unfolding sbs_inv_def
  proof (intro allI impI)
    fix j assume j: "j < length (b_superblocks st @ [?new])"
    have off: "\<not> (8 * (i div ?S) + k) * bs < i" for k
    proof -
      have "i \<le> i + k * bs" by simp
      also have "\<dots> = (8 * (i div ?S) + k) * bs" by (subst iS [symmetric]) (simp add: algebra_simps)
      finally show ?thesis by simp
    qed
    show "sp_ok ((b_superblocks st @ [?new]) ! j) \<and> (\<forall>c<4. sp_base ((b_superblocks st @ [?new]) ! j) c = rank_of xs c (j * ?S)
      \<and> (\<forall>k<8. sp_block ((b_superblocks st @ [?new]) ! j) c k = (if (8 * j + k) * bs < i
          then rank_of xs c ((8 * j + k) * bs) - rank_of xs c (j * ?S) else 0)))"
    proof (cases "j < i div ?S")
      case True
      then show ?thesis using assms(1) len by (simp add: build_inv_def sbs_inv_def nth_append)
    next
      case False
      then have "j = i div ?S" using j len by simp
      then show ?thesis using new new(1) [of 0] off len iS by (simp add: nth_append)
    qed
  qed
  moreover have "counts_from xs (i div ?S * ?S) i = [0, 0, 0, 0]"
    unfolding iS by (simp add: counts_from_def upt_4)
  ultimately show ?thesis
    using assms(1) len unfolding st by (simp add: build_mid_def build_inv_def)
next
  case False
  then have "rp_start_superblock bs st i = st" by (simp add: rp_start_superblock_def)
  moreover have "(i - 1) div (8 * bs) = i div (8 * bs)"
    using False by (cases i) (auto simp: div_Suc mod_Suc split: if_splits)
  ultimately show ?thesis using assms(1) False by (simp add: build_inv_def build_mid_def div_ceil_def)
qed

lemma set_last_fields:
  assumes "b_block_counters st = cs" "length cs = 4" "\<forall>c<4. cs ! c < 4096" "k < 8"
    "length (b_superblocks st) = Suc J" "sp_ok (b_superblocks st ! J)"
    "k \<noteq> 0 \<longrightarrow> (\<forall>c<4. sp_block (b_superblocks st ! J) c k = 0)" "k = 0 \<longrightarrow> (\<forall>c<4. cs ! c = 0)"
  obtains sb' where "rp_set_last st k = Some (st\<lparr>b_superblocks := (b_superblocks st)[J := sb']\<rparr>)" "sp_ok sb'"
    "\<And>c. c < 4 \<Longrightarrow> sp_base sb' c = sp_base (b_superblocks st ! J) c"
    "\<And>c k'. c < 4 \<Longrightarrow> sp_block sb' c k' = (if k' = k then cs ! c else sp_block (b_superblocks st ! J) c k')"
proof -
  obtain sb' where sb': "sp_set_block_counters (b_superblocks st ! J) k cs = Some sb'" "sp_ok sb'"
    "\<And>c. c < 4 \<Longrightarrow> sp_base sb' c = sp_base (b_superblocks st ! J) c"
    "\<And>c k'. c < 4 \<Longrightarrow> sp_block sb' c k' = (if k' = k then cs ! c else sp_block (b_superblocks st ! J) c k')"
    using sp_set_block_counters_fields [OF assms(6,4,2,3,7,8)] by metis
  have "rp_set_last st k = Some (st\<lparr>b_superblocks := (b_superblocks st)[J := sb']\<rparr>)"
    using assms(1,5) sb'(1) by (simp add: rp_set_last_def)
  then show thesis using sb'(2,3,4) by (rule that)
qed

lemma block_counters_bound:
  assumes "0 < bs" "bs \<le> 512" "i mod bs = 0"
  shows "\<forall>c<4. counts_from xs (i div (8 * bs) * (8 * bs)) i ! c < 4096"
proof (intro allI impI)
  fix c :: nat assume c: "c < 4"
  let ?S = "8 * bs"
  have le: "i div ?S * ?S \<le> i" by simp
  have "i - i div ?S * ?S = i mod ?S" by (simp add: minus_div_mult_eq_mod)
  moreover have "i mod ?S = bs * (i div bs mod 8) + i mod bs"
    using mod_mult2_eq [of i bs 8] by (simp add: mult.commute)
  moreover have "bs * (i div bs mod 8) \<le> 512 * 7" using assms(2) by (intro mult_le_mono) auto
  ultimately show "counts_from xs (i div ?S * ?S) i ! c < 4096"
    using rank_of_diff_le [OF le, of xs c] c assms(3) by simp
qed

lemma block_position: "(8 * (i div (8 * bs)) + i div bs mod 8) * bs = i div bs * bs" for i bs :: nat
proof -
  have "i div (8 * bs) = i div bs div 8" using div_mult2_eq [of i bs 8] by (simp add: mult.commute)
  then show ?thesis by simp
qed

text \<open>Setting the counters of block \<open>k\<close> of the last superblock records the position \<open>b\<close>.\<close>

lemma sbs_inv_update:
  assumes "sbs_inv bs xs b sbs" "length sbs = Suc J" "sp_ok sb'"
    and "\<And>c. c < 4 \<Longrightarrow> sp_base sb' c = sp_base (sbs ! J) c"
    and "\<And>c k'. c < 4 \<Longrightarrow> sp_block sb' c k' = (if k' = k then rank_of xs c ((8 * J + k) * bs) - rank_of xs c (J * (8 * bs))
        else sp_block (sbs ! J) c k')"
    and "k < 8" "b \<le> b'" "(8 * J + k) * bs < b'"
    and "\<And>q. b \<le> q * bs \<Longrightarrow> q * bs < b' \<Longrightarrow> q = 8 * J + k"
  shows "sbs_inv bs xs b' (sbs[J := sb'])"
  unfolding sbs_inv_def
proof (intro allI impI)
  fix j assume j: "j < length (sbs[J := sb'])"
  have old: "sp_ok (sbs ! j) \<and> (\<forall>c<4. sp_base (sbs ! j) c = rank_of xs c (j * (8 * bs))
     \<and> (\<forall>k<8. sp_block (sbs ! j) c k = (if (8 * j + k) * bs < b
          then rank_of xs c ((8 * j + k) * bs) - rank_of xs c (j * (8 * bs)) else 0)))"
    using assms(1) j by (simp add: sbs_inv_def)
  have same: "(8 * j + k') * bs < b \<longleftrightarrow> (8 * j + k') * bs < b'" if "j \<noteq> J \<or> k' \<noteq> k" "k' < 8" for k'
  proof -
    have "8 * j + k' \<noteq> 8 * J + k" using that assms(6) by presburger
    then show ?thesis using assms(9) [of "8 * j + k'"] assms(7) by (meson le_trans linorder_not_le)
  qed
  show "sp_ok (sbs[J := sb'] ! j) \<and> (\<forall>c<4. sp_base (sbs[J := sb'] ! j) c = rank_of xs c (j * (8 * bs))
     \<and> (\<forall>k<8. sp_block (sbs[J := sb'] ! j) c k = (if (8 * j + k) * bs < b'
          then rank_of xs c ((8 * j + k) * bs) - rank_of xs c (j * (8 * bs)) else 0)))"
  proof (cases "j = J")
    case True
    have nth: "sbs[J := sb'] ! j = sb'" using True assms(2) by simp
    have "sp_block sb' c k' = (if (8 * J + k') * bs < b' then rank_of xs c ((8 * J + k') * bs) - rank_of xs c (J * (8 * bs)) else 0)"
      if "c < 4" "k' < 8" for c k'
    proof (cases "k' = k")
      case True
      then show ?thesis using assms(5) that assms(8) by simp
    next
      case False
      then show ?thesis using assms(5) that old same [of k'] \<open>j = J\<close> by simp
    qed
    then show ?thesis unfolding nth using True assms(3,4) old by simp
  next
    case False
    then show ?thesis using old same by simp
  qed
qed

lemma start_block_inv:
  assumes "build_mid bs xs i i st" "0 < bs" "bs \<le> 512"
  shows "\<exists>st'. rp_start_block bs st i = Some st' \<and> build_mid bs xs i (Suc i) st'"
proof (cases "i mod bs = 0")
  case True
  let ?S = "8 * bs" and ?J = "i div (8 * bs)" and ?k = "i div bs mod 8"
  let ?cs = "counts_from xs (?J * ?S) i"
  have pos: "(8 * ?J + ?k) * bs = i"
    unfolding block_position using True by (metis add.right_neutral div_mult_mod_eq)
  have len: "length (b_superblocks st) = Suc ?J" and sbs: "sbs_inv bs xs i (b_superblocks st)"
    and cs: "b_block_counters st = ?cs" using assms(1) by (simp_all add: build_mid_def)
  have ok: "sp_ok (b_superblocks st ! ?J)" using sbs len by (simp add: sbs_inv_def)
  have zero: "?k \<noteq> 0 \<longrightarrow> (\<forall>c<4. sp_block (b_superblocks st ! ?J) c ?k = 0)"
    using sbs len pos by (simp add: sbs_inv_def)
  have k0: "?k = 0 \<longrightarrow> (\<forall>c<4. ?cs ! c = 0)"
  proof
    assume "?k = 0"
    then have "?J * ?S = i" using pos by (simp add: algebra_simps)
    then show "\<forall>c<4. ?cs ! c = 0" by simp
  qed
  obtain sb' where sb': "rp_set_last st ?k = Some (st\<lparr>b_superblocks := (b_superblocks st)[?J := sb']\<rparr>)" "sp_ok sb'"
    "\<And>c. c < 4 \<Longrightarrow> sp_base sb' c = sp_base (b_superblocks st ! ?J) c"
    "\<And>c k'. c < 4 \<Longrightarrow> sp_block sb' c k' = (if k' = ?k then ?cs ! c else sp_block (b_superblocks st ! ?J) c k')"
    using set_last_fields [OF cs length_counts(2) block_counters_bound [OF assms(2,3) True] _ len ok zero k0]
    by (metis mod_less_divisor zero_less_numeral)
  let ?st = "st\<lparr>b_superblocks := (b_superblocks st)[?J := sb']\<rparr>"
  have "last (b_superblocks ?st) = sb'" using len by (subst last_conv_nth) auto
  then have chk: "list_all (\<lambda>symbol. sp_get_block_counter (last (b_superblocks ?st)) symbol ?k
      = Some (b_block_counters ?st ! symbol)) [0..<4]"
    using sb'(2,4) cs by (simp add: list_all_iff sp_get_block_counter_eq)
  have "sbs_inv bs xs (Suc i) ((b_superblocks st)[?J := sb'])"
  proof (rule sbs_inv_update [OF sbs len sb'(2,3)])
    show "sp_block sb' c k' = (if k' = ?k then rank_of xs c ((8 * ?J + ?k) * bs) - rank_of xs c (?J * (8 * bs))
        else sp_block (b_superblocks st ! ?J) c k')" if "c < 4" for c k'
      using sb'(4) that pos by simp
    show "q = 8 * ?J + ?k" if "i \<le> q * bs" "q * bs < Suc i" for q
    proof -
      have "q * bs = (8 * ?J + ?k) * bs" unfolding pos using that by simp
      then show ?thesis using assms(2) by simp
    qed
  qed (use pos in simp_all)
  then have "build_mid bs xs i (Suc i) ?st" using assms(1) by (simp add: build_mid_def)
  moreover have "rp_start_block bs st i = Some ?st"
    unfolding rp_start_block_def Let_def sb'(1) using True chk by simp
  ultimately show ?thesis by blast
next
  case False
  have "x * bs < i \<longleftrightarrow> x * bs < Suc i" for x using False by (auto simp: less_Suc_eq)
  then have "build_mid bs xs i (Suc i) st" using assms(1) by (simp add: build_mid_def sbs_inv_def)
  then show ?thesis using False by (simp add: rp_start_block_def)
qed

lemma counts_at_Suc:
  "i < length xs \<Longrightarrow> counts_at xs (Suc i) = (counts_at xs i)[xs ! i := rank_of xs (xs ! i) i + 1]"
  by (rule nth_equalityI) (auto simp: nth_list_update rank_of_Suc)

lemma counts_from_Suc:
  assumes "i < length xs" "a \<le> i"
  shows "counts_from xs a (Suc i) = (counts_from xs a i)[xs ! i := rank_of xs (xs ! i) i - rank_of xs (xs ! i) a + 1]"
  using assms rank_of_mono [OF assms(2), of xs "xs ! i"]
  by (intro nth_equalityI) (auto simp: nth_list_update rank_of_Suc)

lemma samples_inv_skip:
  assumes "samples_inv bs xs i smps" "i < length xs" "rank_of xs (xs ! i) i mod 8192 \<noteq> 0"
  shows "samples_inv bs xs (Suc i) smps"
proof -
  have "div_ceil (rank_of xs c (Suc i)) 8192 = div_ceil (rank_of xs c i) 8192" for c
    using assms(2,3) by (auto simp: rank_of_Suc div_ceil_def div_Suc mod_Suc)
  then show ?thesis using assms(1) by (simp add: samples_inv_def)
qed

lemma samples_inv_push:
  assumes "samples_inv bs xs i smps" "i < length xs" "xs ! i < 4" "rank_of xs (xs ! i) i mod 8192 = 0"
    and "i div (8 * bs) < 2 ^ 32"
  shows "samples_inv bs xs (Suc i) (smps[xs ! i := smps ! (xs ! i) @ [of_nat (i div (8 * bs))]])"
    (is "samples_inv bs xs _ ?smps'")
proof -
  have u: "unat (of_nat (i div (8 * bs)) :: u32) = i div (8 * bs)"
    using assms(5) by (simp add: unsigned_of_nat take_bit_nat_eq_self)
  have len: "length smps = 4" using assms(1) by (simp add: samples_inv_def)
  have "length (?smps' ! c) = div_ceil (rank_of xs c (Suc i)) 8192
     \<and> (\<forall>s<length (?smps' ! c). \<exists>p<length xs. xs ! p = c \<and> rank_of xs c p = s * 8192
          \<and> unat (?smps' ! c ! s) = p div (8 * bs))" if c: "c < 4" for c
  proof (cases "c = xs ! i")
    case True
    have l: "length (smps ! c) = rank_of xs c i div 8192"
      using assms(1,4) c True by (simp add: samples_inv_def div_ceil_def)
    then have m: "length (smps ! c) * 8192 = rank_of xs c i"
      using assms(4) True by (metis add.right_neutral div_mult_mod_eq)
    have n: "?smps' ! c = smps ! c @ [of_nat (i div (8 * bs))]" using True assms(3) len by simp
    have "div_ceil (rank_of xs c (Suc i)) 8192 = Suc (rank_of xs c i div 8192)"
      using assms(2,4) True by (simp add: rank_of_Suc div_ceil_def div_Suc mod_Suc)
    moreover have "\<exists>p<length xs. xs ! p = c \<and> rank_of xs c p = s * 8192 \<and> unat (?smps' ! c ! s) = p div (8 * bs)"
      if s: "s < length (?smps' ! c)" for s
    proof (cases "s < length (smps ! c)")
      case True
      then show ?thesis using assms(1) c unfolding n by (simp add: samples_inv_def nth_append)
    next
      case False
      then have "s = length (smps ! c)" using s unfolding n by simp
      then show ?thesis unfolding n using assms(2) True u m by (intro exI [of _ i]) simp
    qed
    ultimately show ?thesis using l n by simp
  next
    case False
    then show ?thesis using assms(1,2) c by (simp add: samples_inv_def rank_of_Suc)
  qed
  then show ?thesis using len by (simp add: samples_inv_def)
qed

lemma count_symbol_inv:
  assumes "build_mid bs (qv_list qv) i (Suc i) st" "256 \<le> bs" "qv_ok qv" "i < qv_len qv" "qv_len qv < 2 ^ 43"
  shows "\<exists>st'. rp_count_symbol bs qv st i = Some st' \<and> build_inv bs (qv_list qv) (Suc i) st'"
proof -
  let ?xs = "qv_list qv" and ?c = "qv_list qv ! i" and ?S = "8 * bs"
  have get: "qv_get_unchecked qv i = Some ?c" using assms(3,4) by (simp add: qv_get_unchecked_eq nth_qv_list)
  have c: "?c < 4" using assms(4) by (simp add: nth_qv_list)
  have "i div ?S \<le> i div 2048" using assms(2) by (intro div_le_mono2) auto
  moreover have "i < 2 ^ 32 * 2048" using assms(4,5) by simp
  then have "i div 2048 < 2 ^ 32" by (rule less_mult_imp_div_less)
  ultimately have idx: "i div ?S < 2 ^ 32" by linarith
  have sbi: "rp_superblock_index bs i = i div ?S" by (simp add: rp_superblock_index_def mult.commute)
  have smp: "samples_inv bs ?xs i (b_select_samples st)" using assms(1) by (simp add: build_mid_def)
  define smps' where "smps' = (if rank_of ?xs ?c i mod 8192 = 0
     then (b_select_samples st)[?c := b_select_samples st ! ?c @ [of_nat (i div ?S)]] else b_select_samples st)"
  have smps': "samples_inv bs ?xs (Suc i) smps'"
    unfolding smps'_def using samples_inv_skip [OF smp] samples_inv_push [OF smp _ c _ idx] assms(4) by simp
  let ?st' = "st\<lparr>b_select_samples := smps', b_superblock_counters := counts_at ?xs (Suc i),
     b_block_counters := counts_from ?xs (i div ?S * ?S) (Suc i), b_occs := counts_at ?xs (Suc i)\<rparr>"
  have "rp_count_symbol bs qv st i = Some ?st'"
    using assms(1,4) c get idx smp
    by (auto simp: rp_count_symbol_def build_mid_def smps'_def sbi samples_inv_def counts_at_Suc counts_from_Suc)
  moreover have "build_inv bs ?xs (Suc i) ?st'"
    using assms(1) smps' by (auto simp: build_inv_def build_mid_def div_ceil_def div_Suc mod_Suc)
  ultimately show ?thesis by blast
qed

lemma new_step_inv:
  assumes "build_inv bs (qv_list qv) i st" "bs = 256 \<or> bs = 512" "qv_ok qv" "i < qv_len qv" "qv_len qv < 2 ^ 43"
  shows "\<exists>st'. rp_new_step bs qv st i = Some st' \<and> build_inv bs (qv_list qv) (Suc i) st'"
proof -
  have bs: "0 < bs" "bs \<le> 512" "256 \<le> bs" using assms(2) by auto
  have "build_mid bs (qv_list qv) i i (rp_start_superblock bs st i)"
    by (rule start_superblock_inv [OF assms(1) bs(1)]) (use assms(4,5) in simp_all)
  then obtain st1 where st1: "rp_start_block bs (rp_start_superblock bs st i) i = Some st1" "build_mid bs (qv_list qv) i (Suc i) st1"
    using start_block_inv bs by blast
  then show ?thesis using count_symbol_inv [OF st1(2) bs(3) assms(3-5)] by (simp add: rp_new_step_def)
qed

section \<open>The finished structure\<close>

lemma samples_final:
  assumes "samples_inv bs xs (length xs) smps" "c < 4" "n = length xs div (8 * bs)" "n < 2 ^ 32"
  shows "rp_samples_inv bs xs c ((if smps ! c = [] then [0] else smps ! c) @ [of_nat n])"
proof -
  let ?s = "smps ! c"
  have u: "unat (of_nat n :: u32) = n" using assms(4) by (simp add: unsigned_of_nat take_bit_nat_eq_self)
  have cnt: "rank_of xs c (length xs) = count_list xs c" by (simp add: rank_of_all)
  have len: "length ?s = div_ceil (count_list xs c) 8192" using assms(1,2) by (simp add: samples_inv_def cnt)
  have ex: "\<exists>p<length xs. xs ! p = c \<and> rank_of xs c p = s * 8192 \<and> unat (?s ! s) = p div (8 * bs)"
    if "s * 8192 < count_list xs c" for s
    using assms(1,2) len div_less_div_ceil [OF _ that, of 8192] by (simp add: samples_inv_def)
  show ?thesis
  proof (cases "?s = []")
    case True
    then have "count_list xs c = 0" using len by (simp add: div_ceil_def split: if_splits)
    then show ?thesis using True u assms(3) by (simp add: rp_samples_inv_def div_ceil_def)
  next
    case False
    then have "0 < length ?s" by simp
    moreover have "s < length ?s" if "s * 8192 < count_list xs c" for s
      unfolding len using div_less_div_ceil [OF _ that, of 8192] by simp
    ultimately show ?thesis using False len u assms(3) ex by (simp add: rp_samples_inv_def nth_append)
  qed
qed

lemma superblocks_final:
  assumes "sbs_inv bs xs b sbs" "j < length sbs" "length sbs = length xs div (8 * bs) + 1"
    and "\<And>q. q \<le> length xs div bs + 1 \<Longrightarrow> q \<noteq> length xs div bs + 1 \<or> (length xs div bs) mod 8 < 7 \<Longrightarrow> q * bs < b"
  shows "rp_superblock_inv bs xs j (sbs ! j)"
proof -
  have n8: "length xs div (8 * bs) = length xs div bs div 8"
    using div_mult2_eq [of "length xs" bs 8] by (simp add: mult.commute)
  have arith: "N mod 8 < 7" if "j \<le> N div 8" "8 * j + k = N + 1" "k < 8" for j k N :: nat
    using that by presburger
  have "(8 * j + k) * bs < b" if "k < 8" "8 * j + k \<le> length xs div bs + 1" for k
  proof (rule assms(4) [OF that(2)])
    have "(length xs div bs) mod 8 < 7" if "8 * j + k = length xs div bs + 1"
    proof -
      have "j \<le> length xs div bs div 8" using assms(2,3) n8 by simp
      then show ?thesis using arith that \<open>k < 8\<close> by blast
    qed
    then show "8 * j + k \<noteq> length xs div bs + 1 \<or> (length xs div bs) mod 8 < 7" by blast
  qed
  then show ?thesis using assms(1,2) by (simp add: sbs_inv_def rp_superblock_inv_def)
qed

text \<open>The state after the loop.\<close>

lemma rp_new_loop:
  assumes "qv_ok qv" "qv_len qv < 2 ^ 43" "bs = 256 \<or> bs = 512"
  obtains st where "foldM (rp_new_step bs qv) rp_build_init [0..<qv_len qv + 1] = Some st"
    "build_mid bs (qv_list qv) (qv_len qv) (Suc (qv_len qv)) st"
proof -
  let ?xs = "qv_list qv" and ?n = "qv_len qv"
  have bs: "0 < bs" "bs \<le> 512" "256 \<le> bs" using assms(3) by auto
  obtain st where st: "foldM (rp_new_step bs qv) rp_build_init [0..<?n] = Some st" "build_inv bs ?xs ?n st"
    using foldM_upt_inv [of "build_inv bs ?xs" rp_build_init ?n "rp_new_step bs qv"]
      build_inv_init [OF bs(1)] new_step_inv [OF _ assms(3,1) _ assms(2)] by blast
  have "build_mid bs ?xs ?n ?n (rp_start_superblock bs st ?n)"
    by (rule start_superblock_inv [OF st(2) bs(1)]) (use assms(2) in simp_all)
  then obtain st1 where st1: "rp_start_block bs (rp_start_superblock bs st ?n) ?n = Some st1" "build_mid bs ?xs ?n (Suc ?n) st1"
    using start_block_inv bs by blast
  have "foldM (rp_new_step bs qv) rp_build_init [0..<?n + 1] = Some st1"
    using st(1) st1(1) by (simp add: foldM_append rp_new_step_def rp_count_symbol_def)
  then show thesis using st1(2) by (rule that)
qed

text \<open>The structure built for a quad vector satisfies the invariant its queries need.\<close>

lemma rp_new_inv:
  assumes "qv_ok qv" "qv_len qv < 2 ^ 43 - 2048" "bs = 256 \<or> bs = 512"
  shows "\<exists>rp. rp_new bs qv = Some rp \<and> rp_inv bs rp (qv_list qv)"
proof -
  let ?xs = "qv_list qv" and ?n = "qv_len qv" and ?S = "8 * bs"
  have bs: "0 < bs" "bs \<le> 512" "256 \<le> bs" using assms(3) by auto
  have "?n < 2 ^ 43" using assms(2) by simp
  from rp_new_loop [OF assms(1) this assms(3)]
  obtain st1 where loop: "foldM (rp_new_step bs qv) rp_build_init [0..<?n + 1] = Some st1"
    and st1: "build_mid bs ?xs ?n (Suc ?n) st1" .
  let ?J = "?n div ?S" and ?k = "?n div bs mod 8 + 1"
  have len1: "length (b_superblocks st1) = Suc ?J" and sbs1: "sbs_inv bs ?xs (Suc ?n) (b_superblocks st1)"
    and smp1: "samples_inv bs ?xs ?n (b_select_samples st1)"
    and cs1: "b_block_counters st1 = counts_from ?xs (?J * ?S) ?n" using st1 by (simp_all add: build_mid_def)
  have n8: "8 * ?J + ?n div bs mod 8 = ?n div bs"
    using div_mult2_eq [of ?n bs 8] by (simp add: mult.commute)
  have pos: "?n < (8 * ?J + ?k) * bs"
  proof -
    have "(8 * ?J + ?k) * bs = ?n div bs * bs + bs" using n8 by (metis add.assoc add_mult_distrib mult_1)
    then show ?thesis using div_mult_mod_eq [of ?n bs] mod_less_divisor [OF bs(1), of ?n] by linarith
  qed
  have below: "q * bs < Suc ?n" if "q \<le> ?n div bs" for q
    using mult_le_mono1 [OF that, of bs] div_times_less_eq_dividend [of ?n bs] by linarith
  obtain st2 where st2: "(if ?k < 8 then rp_set_last st1 ?k else Some st1) = Some st2"
    "length (b_superblocks st2) = Suc ?J" "b_select_samples st2 = b_select_samples st1"
    "\<forall>j<Suc ?J. rp_superblock_inv bs ?xs j (b_superblocks st2 ! j)"
  proof (cases "?k < 8")
    case True
    have all: "rank_of ?xs c ((8 * ?J + ?k) * bs) = rank_of ?xs c ?n" for c
      using pos by (simp add: rank_of_all)
    have ok: "sp_ok (b_superblocks st1 ! ?J)" using sbs1 len1 by (simp add: sbs_inv_def)
    have zero: "?k \<noteq> 0 \<longrightarrow> (\<forall>c<4. sp_block (b_superblocks st1 ! ?J) c ?k = 0)"
      using sbs1 len1 pos True by (simp add: sbs_inv_def)
    have bound: "\<forall>c<4. counts_from ?xs (?J * ?S) ?n ! c < 4096"
    proof (intro allI impI)
      fix c :: nat assume c: "c < 4"
      have "rank_of ?xs c ?n - rank_of ?xs c (?J * ?S) \<le> ?n - ?J * ?S" by (rule rank_of_diff_le) simp
      also have "\<dots> = ?n mod ?S" by (simp add: minus_div_mult_eq_mod)
      also have "\<dots> < ?S" using bs(1) by simp
      finally show "counts_from ?xs (?J * ?S) ?n ! c < 4096" using bs(2) c by simp
    qed
    obtain sb' where sb': "rp_set_last st1 ?k = Some (st1\<lparr>b_superblocks := (b_superblocks st1)[?J := sb']\<rparr>)" "sp_ok sb'"
      "\<And>c. c < 4 \<Longrightarrow> sp_base sb' c = sp_base (b_superblocks st1 ! ?J) c"
      "\<And>c k'. c < 4 \<Longrightarrow> sp_block sb' c k' = (if k' = ?k then counts_from ?xs (?J * ?S) ?n ! c else sp_block (b_superblocks st1 ! ?J) c k')"
      using set_last_fields [OF cs1 length_counts(2) bound True len1 ok zero] by auto
    let ?b = "Suc ((?n div bs + 1) * bs)"
    have inv: "sbs_inv bs ?xs ?b ((b_superblocks st1)[?J := sb'])"
    proof (rule sbs_inv_update [OF sbs1 len1 sb'(2,3)])
      show "sp_block sb' c k' = (if k' = ?k then rank_of ?xs c ((8 * ?J + ?k) * bs) - rank_of ?xs c (?J * (8 * bs))
          else sp_block (b_superblocks st1 ! ?J) c k')" if "c < 4" for c k'
        using sb'(4) that unfolding all by simp
      have e: "8 * ?J + ?k = ?n div bs + 1" using n8 by simp
      then show "(8 * ?J + ?k) * bs < ?b" by (simp only: lessI)
      then show "Suc ?n \<le> ?b" using pos by simp
      show "q = 8 * ?J + ?k" if q: "Suc ?n \<le> q * bs" "q * bs < ?b" for q
      proof -
        have "q * bs \<le> (?n div bs + 1) * bs" using q(2) by simp
        then have "q \<le> ?n div bs + 1" using bs(1) by (simp only: mult_le_cancel2)
        moreover have "\<not> q \<le> ?n div bs" using below [of q] q(1) by auto
        ultimately show ?thesis unfolding e by simp
      qed
    qed (rule True | assumption)+
    have fin: "q * bs < ?b" if "q \<le> ?n div bs + 1" for q
      using mult_le_mono1 [OF that, of bs] by simp
    show thesis
    proof (rule that)
      show "\<forall>j<Suc ?J. rp_superblock_inv bs ?xs j (b_superblocks (st1\<lparr>b_superblocks := (b_superblocks st1)[?J := sb']\<rparr>) ! j)"
        using superblocks_final [OF inv] len1 fin by simp
    qed (use True sb'(1) len1 in simp_all)
  next
    case False
    have "\<forall>j<Suc ?J. rp_superblock_inv bs ?xs j (b_superblocks st1 ! j)"
    proof (intro allI impI superblocks_final [OF sbs1])
      fix q assume q: "q \<le> length ?xs div bs + 1" "q \<noteq> length ?xs div bs + 1 \<or> (length ?xs div bs) mod 8 < 7"
      then have "q \<le> ?n div bs" using False by auto
      then show "q * bs < Suc ?n" by (rule below)
    qed (use len1 in simp_all)
    then show thesis using that [of st1] False len1 by simp
  qed
  have "?J \<le> ?n div 2048" using bs(3) by (intro div_le_mono2) auto
  moreover have "?n < (2 ^ 32 - 1) * 2048" using assms(2) by simp
  then have "?n div 2048 < 2 ^ 32 - 1" by (rule less_mult_imp_div_less)
  ultimately have "?J < 2 ^ 32 - 1" by linarith
  then have J: "?J < 2 ^ 32" "Suc ?J < 2 ^ 32" by simp_all
  have u: "unat (of_nat (Suc ?J) :: u32) = Suc ?J" by (rule unat_of_nat_small) (use J(2) in simp)
  let ?rp = "\<lparr>rp_superblocks = b_superblocks st2,
       rp_select_samples = map (\<lambda>sample. (if sample = [] then [0] else sample) @ [of_nat ?J]) (b_select_samples st2)\<rparr>"
  have "rp_new bs qv = Some ?rp"
    unfolding rp_new_def loop Let_def using assms(2,3) st2(1,2) u by (simp del: of_nat_Suc)
  moreover have "rp_inv bs ?rp ?xs"
    unfolding rp_inv_def
  proof (intro conjI allI impI)
    show l4: "length (rp_select_samples ?rp) = 4" using smp1 st2(3) by (simp add: samples_inv_def)
    fix c :: nat assume c: "c < 4"
    have "rp_select_samples ?rp ! c
        = (if b_select_samples st2 ! c = [] then [0] else b_select_samples st2 ! c) @ [of_nat ?J]"
      using c l4 by simp
    also have "rp_samples_inv bs ?xs c \<dots>"
      by (rule samples_final) (use smp1 st2(3) c J(1) in simp_all)
    finally show "rp_samples_inv bs ?xs c (rp_select_samples ?rp ! c)" .
  qed (use st2(2,4) in simp_all)
  ultimately show ?thesis by blast
qed

text \<open>
  The longest vectors the assertion accepts have \<open>2 ^ 32\<close> superblocks of 2048 symbols. Their number
  is zero as a \<open>u32\<close> and the sentinel \<open>superblocks.len() as u32 - 1\<close> underflows.
\<close>

lemma length_set_last: "rp_set_last st k = Some st' \<Longrightarrow> length (b_superblocks st') = length (b_superblocks st)"
  by (auto simp: rp_set_last_def split: bind_splits)

lemma rp_new_overflow:
  assumes "qv_ok qv" "2 ^ 43 - 2048 \<le> qv_len qv" "qv_len qv < 2 ^ 43"
  shows "rp_new 256 qv = None"
proof -
  obtain st where st: "foldM (rp_new_step 256 qv) rp_build_init [0..<qv_len qv + 1] = Some st"
    "build_mid 256 (qv_list qv) (qv_len qv) (Suc (qv_len qv)) st"
    by (rule rp_new_loop [OF assms(1,3), of 256]) auto
  have "qv_len qv div 2048 = 2 ^ 32 - 1" using assms(2,3) by (intro div_nat_eqI) simp_all
  then have len: "length (b_superblocks st) = 2 ^ 32" using st(2) by (simp add: build_mid_def)
  have z: "chk_sub (unat (of_nat (length (b_superblocks st'))  :: u32)) 1 = None"
    if "length (b_superblocks st') = 2 ^ 32" for st'
    unfolding that by simp
  let ?k = "qv_len qv div 256 mod 8 + 1"
  show ?thesis
  proof (cases "if ?k < 8 then rp_set_last st ?k else Some st")
    case None
    show ?thesis unfolding rp_new_def st(1) Let_def Option.bind_lunit None Option.bind_lzero Option.bind_rzero ..
  next
    case (Some st2)
    have "length (b_superblocks st2) = 2 ^ 32"
      using Some len length_set_last [of st ?k st2] by (cases "?k < 8") (simp_all only: if_True if_False option.inject)
    note z = z [OF this]
    show ?thesis
      unfolding rp_new_def st(1) Let_def Option.bind_lunit Some z Option.bind_lzero Option.bind_rzero ..
  qed
qed

end
