(* ===== verification/RSQVec.thy ===== *)
theory RSQVec
  imports RSPlainBuild
begin

text \<open>
  Quad vectors with rank and select, \<^verbatim>\<open>src/qvector/rs_qvector.rs\<close>.

  \<open>RSQVector<S>\<close> is generic in its block-level support \<open>S: RSSupport\<close>. The trait is the record
  \<open>rs_support_ops\<close> of its operations, and the operations of \<open>RSQVector\<close> take it as their first
  argument. The locale \<open>rs_support\<close> states what they rely on; it is interpreted on
  \<open>RSSupportPlain\<close> for the two block sizes. Its lemmas show that \<open>get\<close>, \<open>rank\<close>, the fused
  four-symbol rank, \<open>select\<close>, \<open>occs\<close> and \<open>occs_smaller\<close> are the list functions.
\<close>

section \<open>The trait RSSupport and its implementation\<close>

record 's rs_support_ops =
  rs_BLOCK_SIZE :: nat
  rs_new :: "qvector \<Rightarrow> 's option"
  rs_rank_block :: "'s \<Rightarrow> nat \<Rightarrow> nat \<Rightarrow> nat option"
  rs_select_block :: "'s \<Rightarrow> nat \<Rightarrow> nat \<Rightarrow> (nat \<times> nat) option"

definition rs_plain :: "nat \<Rightarrow> rs_support_plain rs_support_ops" where
  "rs_plain B_SIZE = \<lparr>rs_BLOCK_SIZE = B_SIZE, rs_new = rp_new B_SIZE,
     rs_rank_block = rp_rank_block B_SIZE, rs_select_block = rp_select_block B_SIZE\<rparr>"

section \<open>The vector\<close>

record 's rs_qvector =
  rq_qv :: qvector
  rq_rs_support :: 's
  rq_n_occs_smaller :: "nat list"

text \<open>\<open>From<QVector>\<close>: count the symbols, then turn the counts into prefix sums.\<close>

definition rq_count_step :: "nat list \<Rightarrow> nat \<Rightarrow> nat list option" where
  "rq_count_step n_occs c = do { v \<leftarrow> idx n_occs c; Some (n_occs[c := v + 1]) }"

definition rq_prefix_step :: "nat list \<times> nat \<Rightarrow> nat \<Rightarrow> (nat list \<times> nat) option" where
  "rq_prefix_step st i = (
     let (n_occs_smaller, prev) = st
     in do {
       tmp \<leftarrow> idx n_occs_smaller i;
       before \<leftarrow> idx n_occs_smaller (i - 1);
       Some (n_occs_smaller[i := before + prev], tmp)
     })"

definition rq_from :: "'s rs_support_ops \<Rightarrow> qvector \<Rightarrow> 's rs_qvector option" where
  "rq_from S qv = do {
     rank_support \<leftarrow> rs_new S qv;
     symbols \<leftarrow> collect qv_iter_next (qv_iter qv);
     n_occs \<leftarrow> foldM rq_count_step [0, 0, 0, 0, 0] symbols;
     prev \<leftarrow> idx n_occs 0;
     (n_occs_smaller, _) \<leftarrow> foldM rq_prefix_step (n_occs[0 := 0], prev) [1..<5];
     Some \<lparr>rq_qv = qv, rq_rs_support = rank_support, rq_n_occs_smaller = n_occs_smaller\<rparr>
   }"

definition rq_new :: "'s rs_support_ops \<Rightarrow> 'a::len word list \<Rightarrow> 's rs_qvector option" where
  "rq_new S v = do { qv \<leftarrow> qv_from_iter v; rq_from S qv }"

definition rq_from_parts :: "qvector \<Rightarrow> 's \<Rightarrow> nat list \<Rightarrow> 's rs_qvector" where
  "rq_from_parts qv rs_support n_occs_smaller =
     \<lparr>rq_qv = qv, rq_rs_support = rs_support, rq_n_occs_smaller = n_occs_smaller\<rparr>"

text \<open>Deserialisation drops the stored counters and rebuilds them from the decoded vector.\<close>

definition rq_deserialize :: "'s rs_support_ops \<Rightarrow> 's rs_qvector \<Rightarrow> 's rs_qvector option" where
  "rq_deserialize S decoded = rq_from S (rq_qv decoded)"

definition rq_len :: "'s rs_qvector \<Rightarrow> nat" where
  "rq_len self = qv_len (rq_qv self)"

definition rq_is_empty :: "'s rs_qvector \<Rightarrow> bool" where
  "rq_is_empty self \<longleftrightarrow> qv_len (rq_qv self) = 0"

definition rq_get_unchecked :: "'s rs_qvector \<Rightarrow> nat \<Rightarrow> nat option" where
  "rq_get_unchecked self i = qv_get_unchecked (rq_qv self) i"

definition rq_get :: "'s rs_qvector \<Rightarrow> nat \<Rightarrow> nat option option" where
  "rq_get self i = qv_get (rq_qv self) i"

section \<open>Rank\<close>

text \<open>\<open>if let Some(d) = data.get(l) { d.rank_unchecked(symbol, offset) } else { 0 }\<close>\<close>

definition rq_line_rank :: "'s rs_qvector \<Rightarrow> nat \<Rightarrow> nat \<Rightarrow> nat \<Rightarrow> nat option" where
  "rq_line_rank self l symbol offset =
     (if l < length (qv_data (rq_qv self)) then dl_rank_unchecked (qv_data (rq_qv self) ! l) symbol offset else Some 0)"

definition rq_line_rank_all :: "'s rs_qvector \<Rightarrow> nat \<Rightarrow> nat \<Rightarrow> nat list option" where
  "rq_line_rank_all self l offset =
     (if l < length (qv_data (rq_qv self)) then dl_rank_all_unchecked (qv_data (rq_qv self) ! l) offset else Some [0, 0, 0, 0])"

definition rq_rank_intra_block :: "'s rs_support_ops \<Rightarrow> 's rs_qvector \<Rightarrow> nat \<Rightarrow> nat \<Rightarrow> nat option" where
  "rq_rank_intra_block S self symbol i =
     (if symbol > 3 \<or> rs_BLOCK_SIZE S \<noteq> 256 \<and> rs_BLOCK_SIZE S \<noteq> 512 then None
      else if rs_BLOCK_SIZE S = 256 then rq_line_rank self (i div 256) symbol (i mod 256)
      else if rs_BLOCK_SIZE S = 512 then
        (let block_id = i div 512; offset_in_block = i mod 512;
             offset_in_first_block = (if offset_in_block \<le> 256 then offset_in_block else 256)
         in do {
           rank \<leftarrow> rq_line_rank self (block_id * 2) symbol offset_in_first_block;
           if offset_in_block > 256 then do {
             r \<leftarrow> rq_line_rank self (block_id * 2 + 1) symbol (offset_in_block - 256);
             Some (rank + r)
           } else Some rank
         })
      else Some 0)"

definition rq_rank_intra_block_all :: "'s rs_support_ops \<Rightarrow> 's rs_qvector \<Rightarrow> nat \<Rightarrow> nat list option" where
  "rq_rank_intra_block_all S self i =
     (if rs_BLOCK_SIZE S \<noteq> 256 \<and> rs_BLOCK_SIZE S \<noteq> 512 then None
      else if rs_BLOCK_SIZE S = 256 then rq_line_rank_all self (i div 256) (i mod 256)
      else
        (let block_id = i div 512; offset_in_block = i mod 512;
             offset_in_first = (if offset_in_block \<le> 256 then offset_in_block else 256)
         in do {
           ranks \<leftarrow> rq_line_rank_all self (block_id * 2) offset_in_first;
           if offset_in_block > 256 then do {
             second \<leftarrow> rq_line_rank_all self (block_id * 2 + 1) (offset_in_block - 256);
             Some (map2 (+) ranks second)
           } else Some ranks
         }))"

definition rq_rank_unchecked :: "'s rs_support_ops \<Rightarrow> 's rs_qvector \<Rightarrow> nat \<Rightarrow> nat \<Rightarrow> nat option" where
  "rq_rank_unchecked S self symbol i = do {
     guard (symbol \<le> 3);
     b \<leftarrow> rs_rank_block S (rq_rs_support self) symbol i;
     r \<leftarrow> rq_rank_intra_block S self symbol i;
     Some (b + r)
   }"

definition rq_rank :: "'s rs_support_ops \<Rightarrow> 's rs_qvector \<Rightarrow> nat \<Rightarrow> nat \<Rightarrow> nat option option" where
  "rq_rank S self symbol i =
     (if symbol > 3 \<or> i > qv_len (rq_qv self) then Some None
      else do { r \<leftarrow> rq_rank_unchecked S self symbol i; Some (Some r) })"

definition rq_rank_all_unchecked :: "'s rs_support_ops \<Rightarrow> 's rs_qvector \<Rightarrow> nat \<Rightarrow> nat list option" where
  "rq_rank_all_unchecked S self i = do {
     b0 \<leftarrow> rs_rank_block S (rq_rs_support self) 0 i;
     b1 \<leftarrow> rs_rank_block S (rq_rs_support self) 1 i;
     b2 \<leftarrow> rs_rank_block S (rq_rs_support self) 2 i;
     b3 \<leftarrow> rs_rank_block S (rq_rs_support self) 3 i;
     intra \<leftarrow> rq_rank_intra_block_all S self i;
     Some (map2 (+) [b0, b1, b2, b3] intra)
   }"

definition rq_rank_block_unchecked :: "'s rs_support_ops \<Rightarrow> 's rs_qvector \<Rightarrow> nat \<Rightarrow> nat \<Rightarrow> nat option" where
  "rq_rank_block_unchecked S self symbol i = rs_rank_block S (rq_rs_support self) symbol i"

section \<open>Select\<close>

text \<open>
  One turn of the loop over the data lines of a block: the offset found (\<open>Inl\<close>), or the
  remaining rank for the next line (\<open>Inr\<close>).
\<close>

definition rq_select_line :: "data_line \<Rightarrow> nat \<Rightarrow> nat \<Rightarrow> (nat + nat) option" where
  "rq_select_line line symbol i = do {
     (word_0, word_1) \<leftarrow> normalize line symbol;
     let cnt_0 = pop word_0;
     if cnt_0 > i then do { p \<leftarrow> select_in_word_u128 word_0 (of_nat i); Some (Inl p) }
     else do {
       let i = i - cnt_0;
       let cnt_1 = pop word_1;
       if cnt_1 > i then do { p \<leftarrow> select_in_word_u128 word_1 (of_nat i); Some (Inl (128 + p)) }
       else Some (Inr (i - cnt_1))
     }
   }"

fun rq_select_lines :: "data_line list \<Rightarrow> nat \<Rightarrow> nat \<Rightarrow> nat list \<Rightarrow> nat \<Rightarrow> nat \<Rightarrow> nat option" where
  "rq_select_lines data line_id symbol [] i result = Some 0"
| "rq_select_lines data line_id symbol (j # js) i result = do {
     line \<leftarrow> idx data (line_id + j);
     r \<leftarrow> rq_select_line line symbol i;
     case r of
       Inl p \<Rightarrow> Some (result + p)
     | Inr i \<Rightarrow> rq_select_lines data line_id symbol js i (result + 256)
   }"

definition rq_select_intra_block :: "'s rs_support_ops \<Rightarrow> 's rs_qvector \<Rightarrow> nat \<Rightarrow> nat \<Rightarrow> nat \<Rightarrow> nat option" where
  "rq_select_intra_block S self symbol i pos = do {
     let line_id = pos div 256;
     i \<leftarrow> chk_sub i 1;
     rq_select_lines (qv_data (rq_qv self)) line_id symbol [0..<(if rs_BLOCK_SIZE S = 256 then 1 else 2)] i 0
   }"

definition rq_occs_unchecked :: "'s rs_qvector \<Rightarrow> nat \<Rightarrow> nat option" where
  "rq_occs_unchecked self symbol = do {
     guard (symbol \<le> 3);
     a \<leftarrow> idx (rq_n_occs_smaller self) (symbol + 1);
     b \<leftarrow> idx (rq_n_occs_smaller self) symbol;
     chk_sub a b
   }"

definition rq_occs :: "'s rs_qvector \<Rightarrow> nat \<Rightarrow> nat option option" where
  "rq_occs self symbol =
     (if symbol > 3 then Some None else do { n \<leftarrow> rq_occs_unchecked self symbol; Some (Some n) })"

definition rq_occs_smaller_unchecked :: "'s rs_qvector \<Rightarrow> nat \<Rightarrow> nat option" where
  "rq_occs_smaller_unchecked self symbol = do { guard (symbol \<le> 3); idx (rq_n_occs_smaller self) symbol }"

definition rq_occs_smaller :: "'s rs_qvector \<Rightarrow> nat \<Rightarrow> nat option option" where
  "rq_occs_smaller self symbol =
     (if symbol > 3 then Some None else do { n \<leftarrow> rq_occs_smaller_unchecked self symbol; Some (Some n) })"

definition rq_select :: "'s rs_support_ops \<Rightarrow> 's rs_qvector \<Rightarrow> nat \<Rightarrow> nat \<Rightarrow> nat option option" where
  "rq_select S self symbol i =
     (if symbol > 3 then Some None
      else do {
        n \<leftarrow> rq_occs_unchecked self symbol;
        if n \<le> i then Some None
        else do {
          (pos, rank) \<leftarrow> rs_select_block S (rq_rs_support self) symbol (i + 1);
          d \<leftarrow> chk_sub i rank;
          p \<leftarrow> rq_select_intra_block S self symbol (d + 1) pos;
          Some (Some (pos + p))
        }
      })"

text \<open>\<open>self.select(symbol, i).unwrap()\<close>\<close>

definition rq_select_unchecked :: "'s rs_support_ops \<Rightarrow> 's rs_qvector \<Rightarrow> nat \<Rightarrow> nat \<Rightarrow> nat option" where
  "rq_select_unchecked S self symbol i = do {
     guard (symbol \<le> 3);
     n \<leftarrow> rq_occs_unchecked self symbol;
     guard (i < n);
     r \<leftarrow> rq_select S self symbol i;
     r
   }"

section \<open>What the operations compute\<close>

definition rq_list :: "'s rs_qvector \<Rightarrow> nat list" where
  "rq_list self = qv_list (rq_qv self)"

definition n_occs_of :: "nat list \<Rightarrow> nat list" where
  "n_occs_of xs = map (smaller_of xs) [0..<5]"

text \<open>A well-formed vector, for the invariant of its block support.\<close>

definition rq_ok :: "('s \<Rightarrow> nat list \<Rightarrow> bool) \<Rightarrow> 's rs_qvector \<Rightarrow> bool" where
  "rq_ok sinv self \<longleftrightarrow> qv_ok (rq_qv self) \<and> sinv (rq_rs_support self) (rq_list self)
     \<and> rq_n_occs_smaller self = n_occs_of (rq_list self)"

lemma qv_rank_line:
  assumes "qv_ok qv" "p \<le> qv_len qv" "l * 256 \<le> p" "p \<le> l * 256 + 256"
  shows "rank_of (qv_list qv) c p = rank_of (qv_list qv) c (l * 256) + cntp (\<lambda>j. dl_sym (qv_data qv ! l) j = c) (p - l * 256)"
proof -
  have r: "rank_of (qv_list qv) c q = cntp (\<lambda>j. qv_sym qv j = c) q" if "q \<le> qv_len qv" for q
    unfolding rank_of_cntp [OF that [folded length_qv_list]] using that
    by (intro cntp_cong) (simp add: nth_qv_list)
  have "cntp (\<lambda>j. qv_sym qv (l * 256 + j) = c) (p - l * 256) = cntp (\<lambda>j. dl_sym (qv_data qv ! l) j = c) (p - l * 256)"
    using assms(4) by (intro cntp_cong) (simp add: qv_sym_def)
  then show ?thesis
    using cntp_add [of "\<lambda>j. qv_sym qv j = c" "l * 256" "p - l * 256"] assms(2,3) r by simp
qed

lemma rq_line_rank_eq:
  assumes "qv_ok (rq_qv self)" "c < 4" "p \<le> qv_len (rq_qv self)" "l * 256 \<le> p" "p \<le> l * 256 + 256"
  shows "rq_line_rank self l c (p - l * 256) = Some (rank_of (rq_list self) c p - rank_of (rq_list self) c (l * 256))"
proof (cases "l < length (qv_data (rq_qv self))")
  case True
  then show ?thesis
    using assms qv_rank_line [OF assms(1,3,4,5), of c]
    by (simp add: rq_line_rank_def rq_list_def dl_rank_unchecked_eq qv_line_ok)
next
  case False
  have "qv_len (rq_qv self) \<le> length (qv_data (rq_qv self)) * 256"
    using assms(1) by (auto simp: qv_ok_def qv_len_def)
  also have "\<dots> \<le> l * 256" using False by simp
  finally have "p = l * 256" using assms(3,4) by simp
  then show ?thesis using False by (simp add: rq_line_rank_def)
qed

lemma rq_line_rank_all_eq:
  assumes "qv_ok (rq_qv self)" "p \<le> qv_len (rq_qv self)" "l * 256 \<le> p" "p \<le> l * 256 + 256"
  shows "rq_line_rank_all self l (p - l * 256)
    = Some (map (\<lambda>c. rank_of (rq_list self) c p - rank_of (rq_list self) c (l * 256)) [0..<4])"
proof (cases "l < length (qv_data (rq_qv self))")
  case True
  then show ?thesis
    using assms qv_rank_line [OF assms]
    by (simp add: rq_line_rank_all_def rq_list_def dl_rank_all_unchecked_eq qv_line_ok)
next
  case False
  have "qv_len (rq_qv self) \<le> length (qv_data (rq_qv self)) * 256"
    using assms(1) by (auto simp: qv_ok_def qv_len_def)
  also have "\<dots> \<le> l * 256" using False by simp
  finally have "p = l * 256" using assms(2,3) by simp
  then show ?thesis using False by (simp add: rq_line_rank_all_def upt_4)
qed

lemma foldM_count:
  assumes "length ns = 5" "\<forall>x\<in>set xs. x < 5"
  shows "foldM rq_count_step ns xs = Some (map (\<lambda>c. ns ! c + count_list xs c) [0..<5])"
  using assms
proof (induction xs arbitrary: ns)
  case Nil
  have "map (\<lambda>c. ns ! c) [0..<5] = ns" using Nil(1) by (metis map_nth)
  then show ?case by simp
next
  case (Cons x xs)
  have "map (\<lambda>c. ns[x := Suc (ns ! x)] ! c + count_list xs c) [0..<5] = map (\<lambda>c. ns ! c + count_list (x # xs) c) [0..<5]"
    using Cons.prems by (auto simp: nth_list_update)
  then show ?case using Cons by (simp add: rq_count_step_def)
qed

lemma prefix_steps:
  "foldM rq_prefix_step ([0, b, c, d, e], a) [1..<5] = Some ([0, a, a + b, a + b + c, a + b + c + d], e)"
proof -
  have "[1..<5] = [1, 2, 3, 4 :: nat]" by (simp add: upt_conv_Cons)
  then show ?thesis by (simp add: rq_prefix_step_def)
qed

text \<open>Selecting inside one data line.\<close>

lemma rq_select_line_eq:
  assumes "dl_ok dl" "c < 4"
  shows "rq_select_line dl c i = Some (case selp (\<lambda>j. dl_sym dl j = c) 256 i of
     Some p \<Rightarrow> Inl p | None \<Rightarrow> Inr (i - cntp (\<lambda>j. dl_sym dl j = c) 256))"
proof -
  define P where "P = (\<lambda>j. dl_sym dl j = c)"
  obtain w0 w1 where w: "normalize dl c = Some (w0, w1)" "\<And>j. j < 128 \<Longrightarrow> bit w0 j \<longleftrightarrow> P j"
    "\<And>j. j < 128 \<Longrightarrow> bit w1 j \<longleftrightarrow> P (128 + j)"
    using normalize_eq [OF assms(1,2)] unfolding P_def by metis
  have c0: "cntp (bit w0) j = cntp P j" if "j \<le> 128" for j using w(2) that by (intro cntp_cong) auto
  have c1: "cntp P (128 + j) = cntp P 128 + cntp (bit w1) j" if "j \<le> 128" for j
    unfolding cntp_add using w(3) that by (intro arg_cong2 [of _ _ _ _ "(+)"] refl cntp_cong) auto
  have p0: "pop w0 = cntp P 128" and p1: "cntp P 256 = cntp P 128 + pop w1"
    using c0 [of 128] c1 [of 128] by (simp_all add: pop_def)
  have u: "unat (of_nat i' :: u64) = i'" if "i' < 128" for i'
    using that by (simp add: unsigned_of_nat take_bit_nat_eq_self)
  show ?thesis
  proof (cases "i < cntp P 128")
    case True
    then have "selp (bit w0) 128 i \<noteq> None" by (simp add: selp_None_iff c0)
    then obtain p where p: "selp (bit w0) 128 i = Some p" by auto
    then have "selp P 256 i = Some p" by (auto simp: selp_eq_Some_iff w(2) c0)
    moreover have "i < 128" using True cntp_le [of P 128] by simp
    ultimately show ?thesis
      using w(1) p0 p True u [of i] by (simp add: rq_select_line_def select_in_word_u128_eq flip: P_def)
  next
    case False
    define i' where "i' = i - cntp P 128"
    show ?thesis
    proof (cases "i' < pop w1")
      case True
      then have "selp (bit w1) 128 i' \<noteq> None" by (simp add: selp_None_iff pop_def)
      then obtain p where p: "selp (bit w1) 128 i' = Some p" by auto
      then have "selp P 256 i = Some (128 + p)" using False by (auto simp: selp_eq_Some_iff w(3) c1 i'_def)
      moreover have "i' < 128" using True pop_le [of w1] by simp
      ultimately show ?thesis
        using w(1) p0 p True False u [of i'] by (simp add: rq_select_line_def select_in_word_u128_eq i'_def flip: P_def)
    next
      case f: False
      then have "selp P 256 i = None" using False by (simp add: selp_None_iff p1 i'_def)
      then show ?thesis using w(1) p0 p1 f False by (simp add: rq_select_line_def i'_def flip: P_def)
    qed
  qed
qed

section \<open>The contract of the block support\<close>

locale rs_support =
  fixes S :: "'s rs_support_ops" and sinv :: "'s \<Rightarrow> nat list \<Rightarrow> bool"
  assumes block_size: "rs_BLOCK_SIZE S = 256 \<or> rs_BLOCK_SIZE S = 512"
    and new_ok: "qv_ok qv \<Longrightarrow> qv_len qv < 2 ^ 43 - 2048 \<Longrightarrow> \<exists>s. rs_new S qv = Some s \<and> sinv s (qv_list qv)"
    and rank_block_ok: "sinv s xs \<Longrightarrow> c < 4 \<Longrightarrow> i \<le> length xs \<Longrightarrow>
      rs_rank_block S s c i = Some (rank_of xs c (i div rs_BLOCK_SIZE S * rs_BLOCK_SIZE S))"
    and select_block_ok: "sinv s xs \<Longrightarrow> c < 4 \<Longrightarrow> 0 < i \<Longrightarrow> i \<le> count_list xs c \<Longrightarrow>
      \<exists>pos. rs_select_block S s c i = Some (pos, rank_of xs c pos) \<and> pos mod rs_BLOCK_SIZE S = 0
        \<and> rank_of xs c pos < i \<and> i \<le> rank_of xs c (pos + rs_BLOCK_SIZE S)"
begin

lemma rq_len: "rq_len self = length (rq_list self)"
  by (simp add: rq_len_def rq_list_def)

lemma from_ok:
  assumes "qv_ok qv" "qv_len qv < 2 ^ 43 - 2048"
  shows "\<exists>self. rq_from S qv = Some self \<and> rq_ok sinv self \<and> rq_qv self = qv"
proof -
  obtain s where s: "rs_new S qv = Some s" "sinv s (qv_list qv)" using new_ok assms by blast
  let ?n = "count_list (qv_list qv)"
  have small: "\<forall>x\<in>set (qv_list qv). x < 5"
  proof
    fix x assume "x \<in> set (qv_list qv)"
    then have "x < 4" by (rule set_qv_list)
    then show "x < 5" by simp
  qed
  have "foldM rq_count_step [0, 0, 0, 0, 0] (qv_list qv) = Some [?n 0, ?n 1, ?n 2, ?n 3, ?n 4]"
    using foldM_count [of "[0, 0, 0, 0, 0]" "qv_list qv", OF _ small] by (simp add: upt_5 numeral_eq_Suc)
  moreover have "n_occs_of (qv_list qv) = [0, ?n 0, ?n 0 + ?n 1, ?n 0 + ?n 1 + ?n 2, ?n 0 + ?n 1 + ?n 2 + ?n 3]"
    by (simp add: n_occs_of_def upt_5 numeral_eq_Suc smaller_of_Suc)
  ultimately show ?thesis
    using s assms(1) prefix_steps by (simp add: rq_from_def qv_iter_collect rq_ok_def rq_list_def)
qed

lemma get_eq: "rq_ok sinv self \<Longrightarrow> rq_get self i = Some (idx (rq_list self) i)"
  by (simp add: rq_get_def rq_ok_def rq_list_def qv_get_eq)

lemma get_unchecked_eq: "rq_ok sinv self \<Longrightarrow> i < length (rq_list self) \<Longrightarrow> rq_get_unchecked self i = Some (rq_list self ! i)"
  by (simp add: rq_get_unchecked_def rq_ok_def rq_list_def qv_get_unchecked_eq nth_qv_list)

lemma occs_smaller_eq: "rq_ok sinv self \<Longrightarrow> c < 4 \<Longrightarrow> rq_occs_smaller_unchecked self c = Some (smaller_of (rq_list self) c)"
  by (simp add: rq_occs_smaller_unchecked_def rq_ok_def n_occs_of_def)

lemma occs_unchecked_eq: "rq_ok sinv self \<Longrightarrow> c < 4 \<Longrightarrow> rq_occs_unchecked self c = Some (count_list (rq_list self) c)"
  by (simp add: rq_occs_unchecked_def rq_ok_def n_occs_of_def smaller_of_Suc del: upt_Suc)

lemma occs_eq: "rq_ok sinv self \<Longrightarrow> rq_occs self c = Some (if c < 4 then Some (count_list (rq_list self) c) else None)"
  by (simp add: rq_occs_def occs_unchecked_eq)

text \<open>Both ranks inside a block, by the position in the block.\<close>

lemma intra_block_eq:
  assumes "qv_ok (rq_qv self)" "i \<le> length (rq_list self)"
  defines "base \<equiv> i div rs_BLOCK_SIZE S * rs_BLOCK_SIZE S"
  shows "c < 4 \<Longrightarrow> rq_rank_intra_block S self c i = Some (rank_of (rq_list self) c i - rank_of (rq_list self) c base)"
    and "rq_rank_intra_block_all S self i
      = Some (map (\<lambda>c. rank_of (rq_list self) c i - rank_of (rq_list self) c base) [0..<4])"
proof -
  let ?r = "rank_of (rq_list self)"
  have i: "i \<le> qv_len (rq_qv self)" using assms(2) by (simp add: rq_list_def)
  note line = rq_line_rank_eq [OF assms(1) _ i] and line_all = rq_line_rank_all_eq [OF assms(1) i]
  consider (small) "rs_BLOCK_SIZE S = 256" | (first) "rs_BLOCK_SIZE S = 512" "i mod 512 \<le> 256"
    | (second) "rs_BLOCK_SIZE S = 512" "256 < i mod 512"
    using block_size by linarith
  then have "(c < 4 \<longrightarrow> rq_rank_intra_block S self c i = Some (?r c i - ?r c base))
    \<and> rq_rank_intra_block_all S self i = Some (map (\<lambda>c. ?r c i - ?r c base) [0..<4])"
  proof cases
    case small
    have m: "i - i div 256 * 256 = i mod 256" by (simp add: minus_div_mult_eq_mod)
    have le: "i \<le> i div 256 * 256 + 256" by (metis add_left_mono div_mult_mod_eq less_imp_le mod_less_divisor zero_less_numeral)
    show ?thesis
      using line [of c "i div 256"] line_all [of "i div 256"] le small
      by (simp add: m base_def rq_rank_intra_block_def rq_rank_intra_block_all_def)
  next
    case first
    let ?l = "i div 512 * 2"
    have b: "?l * 256 = base" by (simp add: base_def first(1))
    have m: "i - base = i mod 512" by (simp add: base_def first(1) minus_div_mult_eq_mod)
    have le: "base \<le> i" "i \<le> base + 256" using first(2) m by (simp_all add: base_def)
    show ?thesis
      using line [of c ?l] line_all [of ?l] le first unfolding b m
      by (simp add: rq_rank_intra_block_def rq_rank_intra_block_all_def)
  next
    case second
    let ?l = "i div 512 * 2"
    have b: "?l * 256 = base" "(?l + 1) * 256 = base + 256" by (simp_all add: base_def second(1))
    have m: "i - base = i mod 512" by (simp add: base_def second(1) minus_div_mult_eq_mod)
    then have m2: "i - (base + 256) = i mod 512 - 256" by simp
    have le: "base + 256 \<le> i" "i \<le> base + 256 + 256"
      using second(2) m mod_less_divisor [of 512 i] by linarith+
    have bl: "base + 256 \<le> qv_len (rq_qv self)" using le(1) i by linarith
    have "c < 4 \<Longrightarrow> rq_line_rank self ?l c 256 = Some (?r c (base + 256) - ?r c base)"
      "rq_line_rank_all self ?l 256 = Some (map (\<lambda>c. ?r c (base + 256) - ?r c base) [0..<4])"
      using rq_line_rank_eq [OF assms(1) _ bl, of c ?l] rq_line_rank_all_eq [OF assms(1) bl, of ?l]
      unfolding b by simp_all
    moreover have "c < 4 \<Longrightarrow> rq_line_rank self (?l + 1) c (i mod 512 - 256) = Some (?r c i - ?r c (base + 256))"
      "rq_line_rank_all self (?l + 1) (i mod 512 - 256) = Some (map (\<lambda>c. ?r c i - ?r c (base + 256)) [0..<4])"
      using line [of c "?l + 1"] line_all [of "?l + 1"] le unfolding b m2 by simp_all
    moreover have mono: "?r c base \<le> ?r c (base + 256)" "?r c (base + 256) \<le> ?r c i" for c
      using le(1) by (auto intro!: rank_of_mono)
    moreover have "map2 (+) (map (\<lambda>c. ?r c (base + 256) - ?r c base) [0..<4]) (map (\<lambda>c. ?r c i - ?r c (base + 256)) [0..<4])
        = map (\<lambda>c. ?r c i - ?r c base) [0..<4]"
      using mono by (intro nth_equalityI) simp_all
    ultimately show ?thesis
      using second by (simp add: rq_rank_intra_block_def rq_rank_intra_block_all_def)
  qed
  then show "c < 4 \<Longrightarrow> rq_rank_intra_block S self c i = Some (?r c i - ?r c base)"
    and "rq_rank_intra_block_all S self i = Some (map (\<lambda>c. ?r c i - ?r c base) [0..<4])" by blast+
qed

lemma rank_block_unchecked_eq:
  "rq_ok sinv self \<Longrightarrow> c < 4 \<Longrightarrow> i \<le> length (rq_list self) \<Longrightarrow>
    rq_rank_block_unchecked S self c i = Some (rank_of (rq_list self) c (i div rs_BLOCK_SIZE S * rs_BLOCK_SIZE S))"
  by (simp add: rq_rank_block_unchecked_def rq_ok_def rank_block_ok)

lemma block_start_le: "rank_of xs c (i div b * b) \<le> rank_of xs c i"
  by (rule rank_of_mono) simp

lemma rank_unchecked_eq:
  assumes "rq_ok sinv self" "c < 4" "i \<le> length (rq_list self)"
  shows "rq_rank_unchecked S self c i = Some (rank_of (rq_list self) c i)"
  using assms intra_block_eq(1) [of self i c] block_start_le [of "rq_list self" c i "rs_BLOCK_SIZE S"] rank_block_ok [of "rq_rs_support self" "rq_list self" c i]
  by (simp add: rq_rank_unchecked_def rq_ok_def)

lemma rank_eq:
  assumes "rq_ok sinv self"
  shows "rq_rank S self c i = Some (if c < 4 \<and> i \<le> length (rq_list self) then Some (rank_of (rq_list self) c i) else None)"
  using assms by (simp add: rq_rank_def rank_unchecked_eq flip: rq_len [unfolded rq_len_def])

text \<open>The fused rank of all symbols agrees with the four ranks.\<close>

lemma rank_all_unchecked_eq:
  assumes "rq_ok sinv self" "i \<le> length (rq_list self)"
  shows "rq_rank_all_unchecked S self i = Some (map (\<lambda>c. rank_of (rq_list self) c i) [0..<4])"
proof -
  have blk: "rs_rank_block S (rq_rs_support self) c i = Some (rank_of (rq_list self) c (i div rs_BLOCK_SIZE S * rs_BLOCK_SIZE S))"
    if "c < 4" for c
    using assms that by (simp add: rq_ok_def rank_block_ok)
  show ?thesis
    using assms intra_block_eq(2) [of self i] block_start_le [of "rq_list self" _ i]
    by (simp add: rq_rank_all_unchecked_def rq_ok_def blk upt_4)
qed

section \<open>Select\<close>

text \<open>Inside the block the occurrence is in the first or the second line.\<close>

lemma select_lines_found:
  assumes "dl_ok (data ! (l + j))" "l + j < length data" "c < 4" "q < 256"
    "dl_sym (data ! (l + j)) q = c" "i = cntp (\<lambda>p. dl_sym (data ! (l + j)) p = c) q"
  shows "rq_select_lines data l c (j # js) i result = Some (result + q)"
proof -
  have "selp (\<lambda>p. dl_sym (data ! (l + j)) p = c) 256 i = Some q" using assms(4-6) by (intro selpI) simp_all
  then show ?thesis using assms(1-3) by (simp add: rq_select_line_eq)
qed

lemma select_lines_next:
  assumes "dl_ok (data ! (l + j))" "l + j < length data" "c < 4"
    "cntp (\<lambda>p. dl_sym (data ! (l + j)) p = c) 256 \<le> i"
  shows "rq_select_lines data l c (j # js) i result
    = rq_select_lines data l c js (i - cntp (\<lambda>p. dl_sym (data ! (l + j)) p = c) 256) (result + 256)"
proof -
  have "selp (\<lambda>p. dl_sym (data ! (l + j)) p = c) 256 i = None" using assms(4) by (simp add: selp_None_iff)
  then show ?thesis using assms(1-3) by (simp add: rq_select_line_eq)
qed

lemma select_lines_intra:
  assumes ok: "qv_ok (rq_qv self)" and c: "c < 4"
    and p: "p < length (rq_list self)" "rq_list self ! p = c"
    and pos: "pos mod rs_BLOCK_SIZE S = 0" "pos \<le> p" "p < pos + rs_BLOCK_SIZE S"
  shows "rq_select_lines (qv_data (rq_qv self)) (pos div 256) c [0..<(if rs_BLOCK_SIZE S = 256 then 1 else 2)]
    (rank_of (rq_list self) c p - rank_of (rq_list self) c pos) result = Some (result + (p - pos))"
proof -
  let ?qv = "rq_qv self" and ?r = "rank_of (rq_list self) c"
  let ?l = "pos div 256" and ?q = "p mod 256"
  let ?P = "\<lambda>l j. dl_sym (qv_data ?qv ! l) j = c"
  have pl: "p < qv_len ?qv" using p(1) by (simp add: rq_list_def)
  have len: "p div 256 < length (qv_data ?qv)" by (rule qv_len_line [OF ok pl])
  have sym: "?P (p div 256) ?q" using p pl by (simp add: rq_list_def nth_qv_list qv_sym_def)
  have pos256: "pos = ?l * 256"
  proof -
    have "256 dvd rs_BLOCK_SIZE S" using block_size by auto
    then have "256 dvd pos" using pos(1) by (metis dvd_trans mod_0_imp_dvd)
    then show ?thesis by simp
  qed
  have rp: "?r p = ?r (p div 256 * 256) + cntp (?P (p div 256)) ?q"
    using qv_rank_line [OF ok, of p "p div 256" c] pl
    by (simp add: rq_list_def minus_div_mult_eq_mod)
  have dl: "dl_ok (qv_data ?qv ! l)" if "l \<le> p div 256" for l
    using that len by (intro qv_line_ok [OF ok]) simp
  have mono: "?r pos \<le> ?r p" using pos(2) by (rule rank_of_mono)
  have call: "[0..<(if rs_BLOCK_SIZE S = 256 then 1 else 2)] = (if rs_BLOCK_SIZE S = 256 then [0] else [0, 1 :: nat])"
    by (simp add: numeral_2_eq_2)
  have d: "?l \<le> p div 256" using pos(2) by (rule div_le_mono)
  show ?thesis
  proof (cases "p div 256 = ?l")
    case True
    have i: "?r p - ?r pos = cntp (?P ?l) ?q" using rp pos256 True by simp
    have q: "?q = p - pos" using pos256 True by (metis minus_div_mult_eq_mod)
    have found: "rq_select_lines (qv_data ?qv) ?l c (0 # js) (?r p - ?r pos) result = Some (result + ?q)" for js
      by (rule select_lines_found) (use dl len c sym i True in simp_all)
    show ?thesis unfolding call using found [of "[]"] found [of "[1]"] q by (simp del: rq_select_lines.simps)
  next
    case False
    then have lt: "?l < p div 256" using d by simp
    have "p < ?l * 256 + 512" using pos(3) block_size pos256 by linarith
    then have l1: "p div 256 = ?l + 1" using lt by simp
    then have bs: "rs_BLOCK_SIZE S = 512" using block_size pos(3) pos256
      by (metis add.commute div_mult_self3 less_mult_imp_div_less mult.commute mult_Suc_right nat_neq_iff plus_1_eq_Suc zero_neq_numeral)
    have p1: "pos + 256 \<le> p" using l1 pos256 div_mult_mod_eq [of p 256] by linarith
    have "?r (pos + 256) = ?r pos + cntp (?P ?l) 256"
      using qv_rank_line [OF ok, of "pos + 256" ?l c] p1 pl pos256 by (simp add: rq_list_def)
    moreover have "?r (pos + 256) \<le> ?r p" using p1 by (rule rank_of_mono)
    moreover have e: "p div 256 * 256 = pos + 256" using l1 pos256 by simp
    have "?r p = ?r (pos + 256) + cntp (?P (?l + 1)) ?q" using rp unfolding e unfolding l1 .
    ultimately have i: "cntp (?P ?l) 256 \<le> ?r p - ?r pos" "?r p - ?r pos - cntp (?P ?l) 256 = cntp (?P (?l + 1)) ?q"
      by linarith+
    have "rq_select_lines (qv_data ?qv) ?l c (0 # [1]) (?r p - ?r pos) result
        = rq_select_lines (qv_data ?qv) ?l c [1] (?r p - ?r pos - cntp (?P ?l) 256) (result + 256)"
      using select_lines_next [of "qv_data ?qv" ?l 0 c "?r p - ?r pos" "[1]" result] dl [OF d] len c i(1) l1
      by (simp del: rq_select_lines.simps)
    also have "\<dots> = Some (result + 256 + ?q)"
      by (rule select_lines_found) (use dl [of "?l + 1"] len c sym i(2) l1 in simp_all)
    finally show ?thesis
      unfolding call using bs l1 pos256 div_mult_mod_eq [of p 256] by (simp del: rq_select_lines.simps)
  qed
qed

text \<open>The block of an occurrence and its offset in the block.\<close>

lemma select_found:
  assumes ok: "rq_ok sinv self" and c: "c < 4" and p: "select_of (rq_list self) c i = Some p"
  obtains pos where "rs_select_block S (rq_rs_support self) c (i + 1) = Some (pos, rank_of (rq_list self) c pos)"
    "rank_of (rq_list self) c pos \<le> i" "pos \<le> p"
    "\<And>result. rq_select_lines (qv_data (rq_qv self)) (pos div 256) c [0..<(if rs_BLOCK_SIZE S = 256 then 1 else 2)]
      (i - rank_of (rq_list self) c pos) result = Some (result + (p - pos))"
proof -
  let ?xs = "rq_list self"
  have px: "p < length ?xs" "?xs ! p = c" "rank_of ?xs c p = i" using p by (simp_all add: select_of_Some)
  have "\<not> count_list ?xs c \<le> i" using p by (auto simp: select_of_None [symmetric])
  then obtain pos where pos: "rs_select_block S (rq_rs_support self) c (i + 1) = Some (pos, rank_of ?xs c pos)"
    "pos mod rs_BLOCK_SIZE S = 0" "rank_of ?xs c pos < i + 1" "i + 1 \<le> rank_of ?xs c (pos + rs_BLOCK_SIZE S)"
    using select_block_ok [of "rq_rs_support self" ?xs c "i + 1"] ok c by (auto simp: rq_ok_def)
  have le: "pos \<le> p"
  proof (rule ccontr)
    assume "\<not> pos \<le> p"
    then have "rank_of ?xs c (Suc p) \<le> rank_of ?xs c pos" by (intro rank_of_mono) simp
    then show False using px pos(3) by (simp add: rank_of_Suc)
  qed
  have lt: "p < pos + rs_BLOCK_SIZE S"
  proof (rule ccontr)
    assume "\<not> ?thesis"
    then have "rank_of ?xs c (pos + rs_BLOCK_SIZE S) \<le> rank_of ?xs c p" by (intro rank_of_mono) simp
    then show False using px(3) pos(4) by simp
  qed
  show thesis
    by (rule that [OF pos(1) _ le])
      (use select_lines_intra [OF _ c px(1,2) pos(2) le lt] ok px(3) pos(3) in \<open>simp_all add: rq_ok_def del: rq_select_lines.simps\<close>)
qed

lemma select_eq:
  assumes "rq_ok sinv self"
  shows "rq_select S self c i = Some (if c < 4 then select_of (rq_list self) c i else None)"
proof (cases "c < 4")
  case c: True
  show ?thesis
  proof (cases "select_of (rq_list self) c i")
    case None
    then have "count_list (rq_list self) c \<le> i" by (simp add: select_of_None)
    then show ?thesis using assms c None by (simp add: rq_select_def occs_unchecked_eq)
  next
    case (Some p)
    obtain pos where pos: "rs_select_block S (rq_rs_support self) c (i + 1) = Some (pos, rank_of (rq_list self) c pos)"
      "rank_of (rq_list self) c pos \<le> i" "pos \<le> p"
      "\<And>result. rq_select_lines (qv_data (rq_qv self)) (pos div 256) c [0..<(if rs_BLOCK_SIZE S = 256 then 1 else 2)]
        (i - rank_of (rq_list self) c pos) result = Some (result + (p - pos))"
      using select_found [OF assms c Some] by blast
    have "rq_select_intra_block S self c (i - rank_of (rq_list self) c pos + 1) pos = Some (p - pos)"
      using pos(4) [of 0] by (simp add: rq_select_intra_block_def Let_def del: rq_select_lines.simps)
    moreover have "\<not> count_list (rq_list self) c \<le> i" using Some by (auto simp: select_of_None [symmetric])
    ultimately show ?thesis using assms c pos(1-3) Some by (simp add: rq_select_def occs_unchecked_eq)
  qed
qed (simp add: rq_select_def)

lemma select_unchecked_eq:
  "rq_ok sinv self \<Longrightarrow> c < 4 \<Longrightarrow> rq_select_unchecked S self c i = select_of (rq_list self) c i"
  using select_of_None [of "rq_list self" c i]
  by (cases "i < count_list (rq_list self) c") (simp_all add: rq_select_unchecked_def select_eq occs_unchecked_eq)

lemma new_eq:
  assumes "length xs < 2 ^ 43 - 2048"
  shows "\<exists>self. rq_new S xs = Some self \<and> rq_ok sinv self \<and> rq_list self = map (\<lambda>x. unat x mod 4) xs"
proof -
  obtain qv where qv: "qv_from_iter xs = Some qv" "qv_built qv" "qv_list qv = map (\<lambda>x. unat x mod 4) xs"
    by (rule qv_from_iter_eq [of xs]) (use assms in simp_all)
  have "qv_len qv < 2 ^ 43 - 2048" using arg_cong [OF qv(3), of length] assms by simp
  from from_ok [OF qv_built_ok [OF qv(2)] this]
  obtain self where self: "rq_from S qv = Some self" "rq_ok sinv self" "rq_qv self = qv" by blast
  have "rq_new S xs = Some self" unfolding rq_new_def qv(1) Option.bind_lunit by (rule self(1))
  moreover have "rq_list self = map (\<lambda>x. unat x mod 4) xs" unfolding rq_list_def self(3) by (rule qv(3))
  ultimately show ?thesis using self(2) by blast
qed

text \<open>Whatever counters were stored, decoding yields a well-formed vector.\<close>

lemma deserialize_ok:
  assumes "qv_ok (rq_qv decoded)" "qv_len (rq_qv decoded) < 2 ^ 43 - 2048"
  shows "\<exists>self. rq_deserialize S decoded = Some self \<and> rq_ok sinv self \<and> rq_list self = rq_list decoded"
  using from_ok [OF assms] by (auto simp: rq_deserialize_def rq_list_def)

end

section \<open>RSSupportPlain meets the contract\<close>

lemma rs_plain_contract:
  assumes "bs = 256 \<or> bs = 512"
  shows "rs_support (rs_plain bs) (rp_inv bs)"
proof
  have "0 < bs" using assms by auto
  show "rs_BLOCK_SIZE (rs_plain bs) = 256 \<or> rs_BLOCK_SIZE (rs_plain bs) = 512"
    using assms by (simp add: rs_plain_def)
  show "\<exists>s. rs_new (rs_plain bs) qv = Some s \<and> rp_inv bs s (qv_list qv)" if "qv_ok qv" "qv_len qv < 2 ^ 43 - 2048" for qv
    using rp_new_inv [OF that assms] by (simp add: rs_plain_def)
  show "rs_rank_block (rs_plain bs) s c i = Some (rank_of xs c (i div rs_BLOCK_SIZE (rs_plain bs) * rs_BLOCK_SIZE (rs_plain bs)))"
    if "rp_inv bs s xs" "c < 4" "i \<le> length xs" for s xs c i
    using rp_rank_block_eq [OF that(1) \<open>0 < bs\<close> that(2,3)] by (simp add: rs_plain_def)
  show "\<exists>pos. rs_select_block (rs_plain bs) s c i = Some (pos, rank_of xs c pos) \<and> pos mod rs_BLOCK_SIZE (rs_plain bs) = 0
      \<and> rank_of xs c pos < i \<and> i \<le> rank_of xs c (pos + rs_BLOCK_SIZE (rs_plain bs))"
    if "rp_inv bs s xs" "c < 4" "0 < i" "i \<le> count_list xs c" for s xs c i
  proof -
    note h = that
    obtain pos where "rp_select_block bs s c i = Some (pos, rank_of xs c pos)" "pos mod bs = 0"
      "rank_of xs c pos < i" "i \<le> rank_of xs c (pos + bs)"
      by (rule rp_select_block_eq [OF h(1) \<open>0 < bs\<close> h(2-4)])
    then show ?thesis by (intro exI [of _ pos]) (simp add: rs_plain_def)
  qed
qed

interpretation rs256: rs_support "rs_plain 256" "rp_inv 256"
  by (rule rs_plain_contract) simp

interpretation rs512: rs_support "rs_plain 512" "rp_inv 512"
  by (rule rs_plain_contract) simp

end
