(* ===== verification/QuadWT.thy ===== *)
theory QuadWT
  imports WaveletMatrix RSQVec
begin

text \<open>
  The quad wavelet tree, \<^verbatim>\<open>src/quadwt/mod.rs\<close>, and the iterator \<open>WTIterator\<close> of \<^verbatim>\<open>src/lib.rs\<close>:
  the definitions.

  \<open>QWaveletTree<T, RS>\<close> is generic in the quad vector \<open>RS: RSforWT\<close> of its levels. The trait
  is the record \<open>wt_support_ops\<close> of operations, the first argument of the tree's operations;
  \<open>rq_ops\<close> is its implementation by \<open>RSQVector\<close>. The const generic \<open>WITH_PREFETCH_SUPPORT\<close>
  is an optional record of the operations of \<open>PrefetchSupport\<close>. Prefetch instructions have no
  effect on the results and are left out.
\<close>

unbundle bit_operations_syntax

section \<open>The trait WTSupport and its implementation by RSQVector\<close>

record 'r wt_support_ops =
  w_from :: "qvector \<Rightarrow> 'r option"
  w_default :: "'r option"
  w_get :: "'r \<Rightarrow> nat \<Rightarrow> nat option option"
  w_get_unchecked :: "'r \<Rightarrow> nat \<Rightarrow> nat option"
  w_rank :: "'r \<Rightarrow> nat \<Rightarrow> nat \<Rightarrow> nat option option"
  w_rank_unchecked :: "'r \<Rightarrow> nat \<Rightarrow> nat \<Rightarrow> nat option"
  w_rank_all_unchecked :: "'r \<Rightarrow> nat \<Rightarrow> nat list option"
  w_select :: "'r \<Rightarrow> nat \<Rightarrow> nat \<Rightarrow> nat option option"
  w_occs :: "'r \<Rightarrow> nat \<Rightarrow> nat option option"
  w_occs_smaller :: "'r \<Rightarrow> nat \<Rightarrow> nat option option"
  w_occs_smaller_unchecked :: "'r \<Rightarrow> nat \<Rightarrow> nat option"
  w_rank_block_unchecked :: "'r \<Rightarrow> nat \<Rightarrow> nat \<Rightarrow> nat option"

text \<open>The derived \<open>Default\<close> of \<open>RSQVector\<close>: the default of every field.\<close>

definition rq_default :: "'s rs_support_ops \<Rightarrow> 's rs_qvector option" where
  "rq_default S = do {
     s \<leftarrow> rs_new S \<lparr>qv_data = [], qv_position = 0\<rparr>;
     Some \<lparr>rq_qv = \<lparr>qv_data = [], qv_position = 0\<rparr>, rq_rs_support = s, rq_n_occs_smaller = [0, 0, 0, 0, 0]\<rparr>
   }"

definition rq_ops :: "'s rs_support_ops \<Rightarrow> 's rs_qvector wt_support_ops" where
  "rq_ops S = \<lparr>w_from = rq_from S, w_default = rq_default S, w_get = rq_get, w_get_unchecked = rq_get_unchecked,
     w_rank = rq_rank S, w_rank_unchecked = rq_rank_unchecked S, w_rank_all_unchecked = rq_rank_all_unchecked S,
     w_select = rq_select S, w_occs = rq_occs, w_occs_smaller = rq_occs_smaller,
     w_occs_smaller_unchecked = rq_occs_smaller_unchecked, w_rank_block_unchecked = rq_rank_block_unchecked S\<rparr>"

record 'p prefetch_ops =
  p_new :: "qvector \<Rightarrow> nat \<Rightarrow> 'p option"
  p_approx_rank :: "'p \<Rightarrow> nat \<Rightarrow> nat \<Rightarrow> nat option"

section \<open>The tree and its construction\<close>

record ('a, 'r, 'p) qwt =
  qw_n :: nat
  qw_n_levels :: nat
  qw_sigma :: 'a
  qw_qvs :: "'r list"
  qw_prefetch_support :: "'p list option"

text \<open>\<open>((symbol >> shift).as_() & 3) as u8\<close>\<close>

definition two_bits_T :: "nat \<Rightarrow> 'a::len word \<Rightarrow> nat option" where
  "two_bits_T shift symbol = do { w \<leftarrow> shr_T symbol shift; Some (unat (as_usize w AND 3)) }"

definition qw_count_step :: "nat \<Rightarrow> qvector_builder \<times> nat list \<Rightarrow> 'a::len word \<Rightarrow> (qvector_builder \<times> nat list) option" where
  "qw_count_step shift st symbol = (
     let (cur_qv, counts) = st
     in do {
       two_bits \<leftarrow> two_bits_T shift symbol;
       cur_qv \<leftarrow> qb_push cur_qv (of_nat two_bits);
       n \<leftarrow> idx counts two_bits;
       Some (cur_qv, counts[two_bits := n + 1])
     })"

text \<open>The local variables of the loop over the levels, and one turn of it.\<close>

record ('a, 'r, 'p) qw_build =
  bw_sequence :: "'a list"
  bw_partitioned :: "'a list"
  bw_qvs :: "'r list"
  bw_prefetch :: "'p list"
  bw_shift :: nat

definition qw_level_step :: "'r wt_support_ops \<Rightarrow> 'p prefetch_ops option \<Rightarrow>
    ('a::len word, 'r, 'p) qw_build \<Rightarrow> nat \<Rightarrow> ('a word, 'r, 'p) qw_build option" where
  "qw_level_step R pf st level = do {
     cur_qv \<leftarrow> qb_with_capacity (length (bw_sequence st));
     (cur_qv, counts) \<leftarrow> foldM (qw_count_step (bw_shift st)) (cur_qv, [0, 0, 0, 0]) (bw_sequence st);
     let qv = qb_build cur_qv;
     pfs \<leftarrow> (case pf of None \<Rightarrow> Some (bw_prefetch st)
       | Some P \<Rightarrow> do { p \<leftarrow> p_new P qv 11; Some (bw_prefetch st @ [p]) });
     r \<leftarrow> w_from R qv;
     partitioned \<leftarrow> stable_partition_of_4_into (bw_sequence st) (bw_shift st) counts (bw_partitioned st);
     Some \<lparr>bw_sequence = partitioned, bw_partitioned = bw_sequence st, bw_qvs = bw_qvs st @ [r],
       bw_prefetch = pfs, bw_shift = (if bw_shift st \<ge> 2 then bw_shift st - 2 else bw_shift st)\<rparr>
   }"

definition max_symbol :: "'a::len word list \<Rightarrow> 'a word" where
  "max_symbol xs = fold max xs 0"

definition qw_from_owned :: "'r wt_support_ops \<Rightarrow> 'p prefetch_ops option \<Rightarrow> 'a::len word list \<Rightarrow>
    ('a word, 'r, 'p) qwt option" where
  "qw_from_owned R pf sequence =
     (if sequence = [] then do {
        r \<leftarrow> w_default R;
        Some \<lparr>qw_n = 0, qw_n_levels = 0, qw_sigma = 0, qw_qvs = [r], qw_prefetch_support = None\<rparr>
      } else
        (let sigma = max_symbol sequence; log_sigma = msb_of sigma + 1; n_levels = div_ceil log_sigma 2
         in do {
           st \<leftarrow> foldM (qw_level_step R pf)
             \<lparr>bw_sequence = sequence, bw_partitioned = replicate (length sequence) 0, bw_qvs = [], bw_prefetch = [],
               bw_shift = 2 * (n_levels - 1)\<rparr> [0..<n_levels];
           Some \<lparr>qw_n = length (bw_sequence st), qw_n_levels = n_levels, qw_sigma = sigma, qw_qvs = bw_qvs st,
             qw_prefetch_support = (case pf of None \<Rightarrow> None | Some _ \<Rightarrow> Some (bw_prefetch st))\<rparr>
         }))"

definition qw_new :: "'r wt_support_ops \<Rightarrow> 'p prefetch_ops option \<Rightarrow> 'a::len word list \<Rightarrow> ('a word, 'r, 'p) qwt option" where
  "qw_new R pf sequence = qw_from_owned R pf sequence"

definition qw_len :: "('a, 'r, 'p) qwt \<Rightarrow> nat" where
  "qw_len self = qw_n self"

definition qw_is_empty :: "('a, 'r, 'p) qwt \<Rightarrow> bool" where
  "qw_is_empty self \<longleftrightarrow> qw_n self = 0"

definition qw_sigma_opt :: "('a, 'r, 'p) qwt \<Rightarrow> 'a option" where
  "qw_sigma_opt self = (if qw_is_empty self then None else Some (qw_sigma self))"

section \<open>Access\<close>

text \<open>\<open>(result << 2) | (symbol as usize).as_()\<close>\<close>

definition push_digit :: "'a::len word \<Rightarrow> nat \<Rightarrow> 'a word" where
  "push_digit result symbol = push_bit 2 result OR of_nat symbol"

definition qw_get_step :: "'r wt_support_ops \<Rightarrow> ('a::len word, 'r, 'p) qwt \<Rightarrow> 'a word \<times> nat \<Rightarrow> nat \<Rightarrow> ('a word \<times> nat) option" where
  "qw_get_step R self st level = (
     let (result, cur_i) = st
     in do {
       qv \<leftarrow> idx (qw_qvs self) level;
       symbol \<leftarrow> w_get_unchecked R qv cur_i;
       offset \<leftarrow> w_occs_smaller_unchecked R qv symbol;
       r \<leftarrow> w_rank_unchecked R qv symbol cur_i;
       Some (push_digit result symbol, r + offset)
     })"

definition qw_get_unchecked :: "'r wt_support_ops \<Rightarrow> ('a::len word, 'r, 'p) qwt \<Rightarrow> nat \<Rightarrow> 'a word option" where
  "qw_get_unchecked R self i = do {
     l \<leftarrow> chk_sub (qw_n_levels self) 1;
     (result, cur_i) \<leftarrow> foldM (qw_get_step R self) (0, i) [0..<l];
     qv \<leftarrow> idx (qw_qvs self) l;
     symbol \<leftarrow> w_get_unchecked R qv cur_i;
     Some (push_digit result symbol)
   }"

definition qw_get :: "'r wt_support_ops \<Rightarrow> ('a::len word, 'r, 'p) qwt \<Rightarrow> nat \<Rightarrow> 'a word option option" where
  "qw_get R self i =
     (if i \<ge> qw_n self then Some None else do { v \<leftarrow> qw_get_unchecked R self i; Some (Some v) })"

definition qw_get_and_rank_step :: "'r wt_support_ops \<Rightarrow> ('a::len word, 'r, 'p) qwt \<Rightarrow> 'a word \<times> nat \<times> nat \<Rightarrow> nat \<Rightarrow>
    ('a word \<times> nat \<times> nat) option" where
  "qw_get_and_rank_step R self st level = (
     let (result, cur_i, cur_p) = st
     in do {
       qv \<leftarrow> idx (qw_qvs self) level;
       symbol \<leftarrow> w_get_unchecked R qv cur_i;
       offset \<leftarrow> w_occs_smaller_unchecked R qv symbol;
       rp \<leftarrow> w_rank_unchecked R qv symbol cur_p;
       ri \<leftarrow> w_rank_unchecked R qv symbol cur_i;
       Some (push_digit result symbol, ri + offset, rp + offset)
     })"

definition qw_get_and_rank_unchecked :: "'r wt_support_ops \<Rightarrow> ('a::len word, 'r, 'p) qwt \<Rightarrow> nat \<Rightarrow> ('a word \<times> nat) option" where
  "qw_get_and_rank_unchecked R self i = do {
     l \<leftarrow> chk_sub (qw_n_levels self) 1;
     (result, cur_i, cur_p) \<leftarrow> foldM (qw_get_and_rank_step R self) (0, i, 0) [0..<l];
     qv \<leftarrow> idx (qw_qvs self) l;
     symbol \<leftarrow> w_get_unchecked R qv cur_i;
     r_i \<leftarrow> w_rank_unchecked R qv symbol cur_i;
     r_p \<leftarrow> w_rank_unchecked R qv symbol cur_p;
     d \<leftarrow> chk_sub r_i r_p;
     Some (push_digit result symbol, d + 1)
   }"

definition qw_get_and_rank :: "'r wt_support_ops \<Rightarrow> ('a::len word, 'r, 'p) qwt \<Rightarrow> nat \<Rightarrow> ('a word \<times> nat) option option" where
  "qw_get_and_rank R self i =
     (if i \<ge> qw_n self \<or> qw_n_levels self = 0 then Some None
      else do { r \<leftarrow> qw_get_and_rank_unchecked R self i; Some (Some r) })"

section \<open>Rank\<close>

text \<open>The shift is an \<open>i64\<close> that may end at \<open>-2\<close>; it is only used while it is not negative.\<close>

definition qw_rank_step :: "'r wt_support_ops \<Rightarrow> ('a::len word, 'r, 'p) qwt \<Rightarrow> 'a word \<Rightarrow> int \<times> nat \<times> nat \<Rightarrow> nat \<Rightarrow>
    (int \<times> nat \<times> nat) option" where
  "qw_rank_step R self symbol st level = (
     let (shift, cur_i, cur_p) = st
     in do {
       two_bits \<leftarrow> two_bits_T (nat shift) symbol;
       qv \<leftarrow> idx (qw_qvs self) level;
       offset \<leftarrow> w_occs_smaller_unchecked R qv two_bits;
       rp \<leftarrow> w_rank_unchecked R qv two_bits cur_p;
       ri \<leftarrow> w_rank_unchecked R qv two_bits cur_i;
       Some (shift - 2, ri + offset, rp + offset)
     })"

definition qw_rank_unchecked :: "'r wt_support_ops \<Rightarrow> ('a::len word, 'r, 'p) qwt \<Rightarrow> 'a word \<Rightarrow> nat \<Rightarrow> nat option" where
  "qw_rank_unchecked R self symbol i =
     (if qw_n_levels self = 0 then Some 0
      else do {
        l \<leftarrow> chk_sub (qw_n_levels self) 1;
        (shift, cur_i, cur_p) \<leftarrow> foldM (qw_rank_step R self symbol) (int (2 * l), i, 0) [0..<l];
        two_bits \<leftarrow> two_bits_T (nat shift) symbol;
        qv \<leftarrow> idx (qw_qvs self) l;
        cur_i \<leftarrow> w_rank_unchecked R qv two_bits cur_i;
        cur_p \<leftarrow> w_rank_unchecked R qv two_bits cur_p;
        chk_sub cur_i cur_p
      })"

definition qw_rank :: "'r wt_support_ops \<Rightarrow> ('a::len word, 'r, 'p) qwt \<Rightarrow> 'a word \<Rightarrow> nat \<Rightarrow> nat option option" where
  "qw_rank R self symbol i =
     (if i > qw_n self \<or> symbol > qw_sigma self then Some None
      else if qw_n_levels self = 0 then Some (Some 0)
      else do { r \<leftarrow> qw_rank_unchecked R self symbol i; Some (Some r) })"

text \<open>
  \<open>rank_prefetch\<close> first estimates the positions on every level, to prefetch them, and then
  computes the rank. Only the estimates' own arithmetic and indexing can be observed.
\<close>

definition qw_prefetch_block_step :: "'r wt_support_ops \<Rightarrow> ('a::len word, 'r, 'p) qwt \<Rightarrow> 'a word \<Rightarrow> int \<times> nat \<times> nat \<Rightarrow> nat \<Rightarrow>
    (int \<times> nat \<times> nat) option" where
  "qw_prefetch_block_step R self symbol st level = (
     let (shift, range_start, range_end) = st
     in do {
       two_bits \<leftarrow> two_bits_T (nat shift) symbol;
       qv \<leftarrow> idx (qw_qvs self) level;
       offset \<leftarrow> w_occs_smaller_unchecked R qv two_bits;
       rank_start \<leftarrow> w_rank_block_unchecked R qv two_bits range_start;
       rank_end \<leftarrow> w_rank_block_unchecked R qv two_bits range_end;
       guard (level + 1 < length (qw_qvs self));
       Some (shift - 2, rank_start + offset, rank_end + offset)
     })"

definition qw_prefetch_superblock_step :: "'r wt_support_ops \<Rightarrow> 'p prefetch_ops \<Rightarrow> 'p list \<Rightarrow> ('a::len word, 'r, 'p) qwt \<Rightarrow>
    'a word \<Rightarrow> int \<times> nat \<times> nat \<Rightarrow> nat \<Rightarrow> (int \<times> nat \<times> nat) option" where
  "qw_prefetch_superblock_step R P supports self symbol st level = (
     let (shift, range_start, range_end) = st
     in do {
       two_bits \<leftarrow> two_bits_T (nat shift) symbol;
       qv \<leftarrow> idx (qw_qvs self) level;
       offset \<leftarrow> w_occs_smaller_unchecked R qv two_bits;
       support \<leftarrow> idx supports level;
       rank_start \<leftarrow> p_approx_rank P support two_bits range_start;
       rank_end \<leftarrow> p_approx_rank P support two_bits range_end;
       guard (level + 1 < length (qw_qvs self));
       Some (shift - 2, rank_start + offset, rank_end + offset)
     })"

definition qw_rank_prefetch_superblocks_unchecked :: "'r wt_support_ops \<Rightarrow> 'p prefetch_ops option \<Rightarrow> ('a::len word, 'r, 'p) qwt \<Rightarrow>
    'a word \<Rightarrow> nat \<Rightarrow> nat option" where
  "qw_rank_prefetch_superblocks_unchecked R pf self symbol i =
     (case pf of None \<Rightarrow> Some 0
      | Some P \<Rightarrow> (case qw_prefetch_support self of None \<Rightarrow> Some 0
        | Some supports \<Rightarrow> do {
            l \<leftarrow> chk_sub (qw_n_levels self) 1;
            qv \<leftarrow> idx (qw_qvs self) 0;
            (shift, range_start, range_end) \<leftarrow>
              foldM (qw_prefetch_superblock_step R P supports self symbol) (int (2 * l), 0, i) [0..<l];
            chk_sub range_end range_start
          }))"

definition qw_rank_prefetch_unchecked :: "'r wt_support_ops \<Rightarrow> 'p prefetch_ops option \<Rightarrow> ('a::len word, 'r, 'p) qwt \<Rightarrow>
    'a word \<Rightarrow> nat \<Rightarrow> nat option" where
  "qw_rank_prefetch_unchecked R pf self symbol i = do {
     _ \<leftarrow> (case pf of None \<Rightarrow> Some 0 | Some P \<Rightarrow> qw_rank_prefetch_superblocks_unchecked R pf self symbol i);
     l \<leftarrow> chk_sub (qw_n_levels self) 1;
     qv \<leftarrow> idx (qw_qvs self) 0;
     _ \<leftarrow> foldM (qw_prefetch_block_step R self symbol) (int (2 * l), 0, i) [0..<l];
     qw_rank_unchecked R self symbol i
   }"

definition qw_rank_prefetch :: "'r wt_support_ops \<Rightarrow> 'p prefetch_ops option \<Rightarrow> ('a::len word, 'r, 'p) qwt \<Rightarrow>
    'a word \<Rightarrow> nat \<Rightarrow> nat option option" where
  "qw_rank_prefetch R pf self symbol i =
     (if i > qw_n self \<or> symbol > qw_sigma self then Some None
      else do { r \<leftarrow> qw_rank_prefetch_unchecked R pf self symbol i; Some (Some r) })"

section \<open>Select\<close>

definition MAX_QUAD_LEVELS :: nat where
  "MAX_QUAD_LEVELS = 64"

text \<open>
  The loop down the tree: the shift, the position, and the two arrays of offsets on the
  path. The \<open>?\<close> on \<open>rank\<close> ends the function with \<open>None\<close>, here \<open>Inl ()\<close>.
\<close>

fun qw_select_down :: "'r wt_support_ops \<Rightarrow> ('a::len word, 'r, 'p) qwt \<Rightarrow> 'a word \<Rightarrow> nat list \<Rightarrow> int \<Rightarrow> nat \<Rightarrow>
    nat list \<Rightarrow> nat list \<Rightarrow> (unit + nat list \<times> nat list) option" where
  "qw_select_down R self symbol [] shift b path_off rank_path_off = Some (Inr (path_off, rank_path_off))"
| "qw_select_down R self symbol (level # levels) shift b path_off rank_path_off = do {
     guard (level < length path_off);
     two_bits \<leftarrow> two_bits_T (nat shift) symbol;
     qv \<leftarrow> idx (qw_qvs self) level;
     r \<leftarrow> w_rank R qv two_bits b;
     case r of
       None \<Rightarrow> Some (Inl ())
     | Some rank_b \<Rightarrow> do {
         offset \<leftarrow> w_occs_smaller_unchecked R qv two_bits;
         guard (level < length rank_path_off);
         qw_select_down R self symbol levels (shift - 2) (rank_b + offset)
           (path_off[level := b]) (rank_path_off[level := rank_b])
       }
   }"

fun qw_select_up :: "'r wt_support_ops \<Rightarrow> ('a::len word, 'r, 'p) qwt \<Rightarrow> 'a word \<Rightarrow> nat list \<Rightarrow> nat \<Rightarrow> nat list \<Rightarrow> nat list \<Rightarrow>
    nat \<Rightarrow> nat option option" where
  "qw_select_up R self symbol [] shift path_off rank_path_off result = Some (Some result)"
| "qw_select_up R self symbol (level # levels) shift path_off rank_path_off result = do {
     b \<leftarrow> idx path_off level;
     rank_b \<leftarrow> idx rank_path_off level;
     two_bits \<leftarrow> two_bits_T shift symbol;
     qv \<leftarrow> idx (qw_qvs self) level;
     r \<leftarrow> w_select R qv two_bits (rank_b + result);
     case r of
       None \<Rightarrow> Some None
     | Some p \<Rightarrow> do {
         result \<leftarrow> chk_sub p b;
         qw_select_up R self symbol levels (shift + 2) path_off rank_path_off result
       }
   }"

definition qw_select :: "'r wt_support_ops \<Rightarrow> ('a::len word, 'r, 'p) qwt \<Rightarrow> 'a word \<Rightarrow> nat \<Rightarrow> nat option option" where
  "qw_select R self symbol i =
     (if symbol > qw_sigma self then Some None
      else if qw_n_levels self > MAX_QUAD_LEVELS then Some None
      else do {
        l \<leftarrow> chk_sub (qw_n_levels self) 1;
        r \<leftarrow> qw_select_down R self symbol [0..<qw_n_levels self] (int (2 * l)) 0
          (replicate MAX_QUAD_LEVELS 0) (replicate MAX_QUAD_LEVELS 0);
        case r of
          Inl _ \<Rightarrow> Some None
        | Inr (path_off, rank_path_off) \<Rightarrow>
            qw_select_up R self symbol (rev [0..<qw_n_levels self]) 0 path_off rank_path_off i
      })"

definition qw_select_unchecked :: "'r wt_support_ops \<Rightarrow> ('a::len word, 'r, 'p) qwt \<Rightarrow> 'a word \<Rightarrow> nat \<Rightarrow> nat option" where
  "qw_select_unchecked R self symbol i = do { r \<leftarrow> qw_select R self symbol i; r }"

section \<open>Iterators over the values\<close>

record 't wt_iterator =
  wi_i :: nat
  wi_end :: nat
  wi_qwt :: 't

definition wi_next :: "('t \<Rightarrow> nat \<Rightarrow> 'b option) \<Rightarrow> 't wt_iterator \<Rightarrow> ('b option \<times> 't wt_iterator) option" where
  "wi_next get_unchecked self =
     (if wi_i self < wi_end self then
        (let self = self\<lparr>wi_i := wi_i self + 1\<rparr>
         in do { v \<leftarrow> get_unchecked (wi_qwt self) (wi_i self - 1); Some (Some v, self) })
      else Some (None, self))"

definition wi_next_back :: "('t \<Rightarrow> nat \<Rightarrow> 'b option) \<Rightarrow> 't wt_iterator \<Rightarrow> ('b option \<times> 't wt_iterator) option" where
  "wi_next_back get_unchecked self =
     (if wi_i self < wi_end self then
        (let self = self\<lparr>wi_end := wi_end self - 1\<rparr>
         in do { v \<leftarrow> get_unchecked (wi_qwt self) (wi_end self); Some (Some v, self) })
      else Some (None, self))"

definition wi_len :: "'t wt_iterator \<Rightarrow> nat option" where
  "wi_len self = chk_sub (wi_end self) (wi_i self)"

definition qw_iter :: "('a, 'r, 'p) qwt \<Rightarrow> ('a, 'r, 'p) qwt wt_iterator" where
  "qw_iter self = \<lparr>wi_i = 0, wi_end = qw_len self, wi_qwt = self\<rparr>"

end
