(* ===== verification/QuadWTCorrect.thy ===== *)
theory QuadWTCorrect
  imports QuadWT
begin

text \<open>
  Correctness of construction, access, rank and select of the quad wavelet tree.

  The locale \<open>wt_queries\<close> is the contract of the levels for queries, \<open>wt_support\<close> extends it by what construction and decoding use: \<open>rep r D\<close> says
  that \<open>r\<close> stands for the list \<open>D\<close> of two-bit symbols. \<open>qw_ok\<close> says that the levels of a tree
  stand for the digits of the levels of the wavelet matrix. Construction establishes it;
  under it \<open>get\<close>, \<open>rank\<close>, \<open>rank_prefetch\<close>, \<open>get_and_rank\<close> and \<open>select\<close> are the list functions.
  \<open>RSQVector\<close> meets the contract (a sublocale), so the results hold for \<open>QWT256\<close> and \<open>QWT512\<close>.
\<close>

section \<open>Well-formed trees\<close>

definition qw_ok :: "('r \<Rightarrow> nat list \<Rightarrow> bool) \<Rightarrow> ('a::len word, 'r, 'p) qwt \<Rightarrow> 'a word list \<Rightarrow> bool" where
  "qw_ok rep self xs \<longleftrightarrow> qw_n self = length xs
     \<and> (if xs = [] then qw_n_levels self = 0 \<and> qw_sigma self = 0
        else qw_sigma self = max_symbol xs \<and> qw_n_levels self = div_ceil (msb_of (max_symbol xs) + 1) 2
          \<and> length (qw_qvs self) = qw_n_levels self
          \<and> (\<forall>l<qw_n_levels self. rep (qw_qvs self ! l) (wm_digits (qw_n_levels self) xs l)))"

lemma fold_max_ge: "x \<in> set xs \<or> x = a \<Longrightarrow> x \<le> fold max xs (a :: 'b::linorder)"
proof (induction xs arbitrary: a)
  case (Cons y ys)
  consider "x \<in> set ys" | "x = y" | "x = a" using Cons.prems by auto
  then show ?case
  proof cases
    case 1
    then show ?thesis using Cons.IH [of "max y a"] by simp
  next
    case 2
    then have "x \<le> max y a" by simp
    also have "max y a \<le> fold max ys (max y a)"
      by (induction ys arbitrary: a y) (auto simp: le_max_iff_disj intro: order_trans)
    finally show ?thesis by simp
  next
    case 3
    then have "x \<le> max y a" by simp
    also have "max y a \<le> fold max ys (max y a)"
      by (induction ys arbitrary: a y) (auto simp: le_max_iff_disj intro: order_trans)
    finally show ?thesis by simp
  qed
qed simp

lemma max_symbol_ge: "x \<in> set xs \<Longrightarrow> x \<le> max_symbol xs"
  by (simp add: max_symbol_def fold_max_ge)

lemma fold_max_in: "fold max xs a \<in> insert a (set xs)" for a :: "'b::linorder"
  by (induction xs arbitrary: a) (auto simp: max_def split: if_splits)

lemma max_symbol_in:
  assumes "xs \<noteq> []"
  shows "max_symbol xs \<in> set xs"
proof (cases "max_symbol xs = 0")
  case True
  obtain x where x: "x \<in> set xs" using assms by (cases xs) auto
  then have "x \<le> 0" using max_symbol_ge [OF x] True by simp
  then show ?thesis using x True by simp
next
  case False
  then show ?thesis using fold_max_in [of xs 0] by (auto simp: max_symbol_def)
qed

text \<open>The number of levels is enough for the largest symbol, and the shifts stay below the width.\<close>

lemma levels_bounds:
  fixes s :: "'a::len word"
  defines "L \<equiv> div_ceil (msb_of s + 1) 2"
  shows "0 < L" "unat s < 4 ^ L" "2 * (L - 1) < LENGTH('a)"
proof -
  have L: "msb_of s + 1 \<le> 2 * L" "2 * L \<le> msb_of s + 2"
  proof -
    have "m \<le> 2 * div_ceil m 2 \<and> 2 * div_ceil m 2 \<le> m + 1" for m :: nat
    proof (cases "m mod 2 = 0")
      case True
      then have "m = 2 * (m div 2)" by (metis add.right_neutral mult_div_mod_eq)
      then show ?thesis using True by (simp add: div_ceil_def)
    next
      case False
      then have "m mod 2 = 1" by simp
      then have "m = 2 * (m div 2) + 1" by (metis mult_div_mod_eq)
      then show ?thesis using False by (simp add: div_ceil_def)
    qed
    from this [of "msb_of s + 1"] show "msb_of s + 1 \<le> 2 * L" "2 * L \<le> msb_of s + 2"
      by (simp_all add: L_def)
  qed
  then show "0 < L" by simp
  have "unat s < 2 ^ Suc (msb_of s)" by (rule unat_less_msb)
  also have "\<dots> \<le> 2 ^ (2 * L)" using L(1) by (intro power_increasing) auto
  finally show "unat s < 4 ^ L" by (simp add: power_mult)
  have "msb_of s < LENGTH('a)"
    by (cases "s = 0") (auto simp: msb_of_def dest: msb_of_bounds(3))
  then show "2 * (L - 1) < LENGTH('a)" using L(2) by simp
qed

lemma qw_ok_levels:
  fixes self :: "('a::len word, 'r, 'p) qwt"
  assumes "qw_ok rep self xs" "xs \<noteq> []"
  defines "L \<equiv> qw_n_levels self"
  shows "0 < L" "\<forall>x\<in>set xs. unat x < 4 ^ L" "2 * (L - 1) < LENGTH('a)" "length (qw_qvs self) = L"
    "unat (qw_sigma self) < 4 ^ L"
    "l < L \<Longrightarrow> rep (qw_qvs self ! l) (wm_digits L xs l)" "qw_n self = length xs"
proof -
  have L: "L = div_ceil (msb_of (max_symbol xs) + 1) 2" using assms by (simp add: qw_ok_def)
  note b = levels_bounds [of "max_symbol xs", folded L]
  show "0 < L" "2 * (L - 1) < LENGTH('a)" by (rule b)+
  show "\<forall>x\<in>set xs. unat x < 4 ^ L"
    using b(2) max_symbol_ge by (metis order_le_less_trans word_le_nat_alt)
  show "length (qw_qvs self) = L" "l < L \<Longrightarrow> rep (qw_qvs self ! l) (wm_digits L xs l)" "qw_n self = length xs"
    using assms by (auto simp: qw_ok_def)
  show "unat (qw_sigma self) < 4 ^ L" using assms b(2) by (simp add: qw_ok_def)
qed

lemma two_bits_T_eq: "shift < LENGTH('a::len) \<Longrightarrow> two_bits_T shift (a :: 'a word) = Some (qdigit shift a)"
  using as_usize_mod [of 2 "drop_bit shift a"]
  by (simp add: two_bits_T_def shr_T_def unat_and_3 qdigit_def unat_drop_bit_eq) (simp add: drop_bit_eq_div)

text \<open>Appending a digit to a prefix.\<close>

lemma push_digit_unat:
  assumes "d < 4" "4 * unat p + d < 2 ^ LENGTH('a::len)"
  shows "unat (push_digit (p :: 'a word) d) = 4 * unat p + d"
proof -
  have p: "unat (push_bit 2 p) = push_bit 2 (unat p)"
    unfolding unsigned_push_bit_eq by (rule take_bit_nat_eq_self) (use assms(2) in \<open>simp add: push_bit_eq_mult\<close>)
  have d: "unat (of_nat d :: 'a word) = d" using assms(2) by (simp add: unsigned_of_nat take_bit_nat_eq_self)
  have "push_bit 2 (unat p) OR d = push_bit 2 (unat p) + d"
  proof (rule disjunctive_add [symmetric])
    fix n
    have "bit d n \<Longrightarrow> n < 2"
      using assms(1) by (metis bit_take_bit_iff less_exp take_bit_nat_eq_self_iff power2_eq_square numeral_Bit0 mult_2 numeral_One)
    then show "\<not> bit (push_bit 2 (unat p)) n \<or> \<not> bit d n" by (auto simp: bit_push_bit_iff)
  qed
  then show ?thesis unfolding push_digit_def unsigned_or_eq p d by (simp add: push_bit_eq_mult)
qed

section \<open>The contract of the levels\<close>

text \<open>The state of the construction after \<open>l\<close> levels.\<close>

definition build_ok :: "('r \<Rightarrow> nat list \<Rightarrow> bool) \<Rightarrow> nat \<Rightarrow> 'a::len word list \<Rightarrow> nat \<Rightarrow> ('a word, 'r, 'p) qw_build \<Rightarrow> bool" where
  "build_ok rep L xs l st \<longleftrightarrow> bw_sequence st = wm_level L xs l \<and> length (bw_partitioned st) = length xs
     \<and> length (bw_qvs st) = l \<and> (\<forall>k<l. rep (bw_qvs st ! k) (wm_digits L xs k)) \<and> (l < L \<longrightarrow> bw_shift st = 2 * (L - 1 - l))"

text \<open>What a prefetch support promises on construction, and the supports of the first \<open>l\<close> levels.\<close>

definition pf_ok :: "'p prefetch_ops option \<Rightarrow> (nat list \<Rightarrow> 'p \<Rightarrow> bool) \<Rightarrow> bool" where
  "pf_ok pf prep \<longleftrightarrow> (\<forall>P qv. pf = Some P \<and> qv_ok qv \<and> qv_len qv < 2 ^ 43 - 2048 \<longrightarrow>
     (\<exists>p. p_new P qv 11 = Some p \<and> prep (qv_list qv) p))"

definition pf_built :: "'p prefetch_ops option \<Rightarrow> (nat list \<Rightarrow> 'p \<Rightarrow> bool) \<Rightarrow> (nat \<Rightarrow> nat list) \<Rightarrow> nat \<Rightarrow> 'p list \<Rightarrow> bool" where
  "pf_built pf prep digits l ps \<longleftrightarrow> pf \<noteq> None \<longrightarrow> length ps = l \<and> (\<forall>k<l. prep (digits k) (ps ! k))"

lemma pf_built_step:
  assumes "pf_ok pf prep" "pf_built pf prep digits l ps" "qv_ok qv" "qv_len qv < 2 ^ 43 - 2048" "qv_list qv = digits l"
  shows "\<exists>ps'. (case pf of None \<Rightarrow> Some ps | Some P \<Rightarrow> do { p \<leftarrow> p_new P qv 11; Some (ps @ [p]) }) = Some ps'
    \<and> pf_built pf prep digits (Suc l) ps'"
proof (cases pf)
  case (Some P)
  then obtain p where "p_new P qv 11 = Some p" "prep (digits l) p" using assms unfolding pf_ok_def by metis
  then show ?thesis using assms(2) Some by (auto simp: pf_built_def nth_append less_Suc_eq)
qed (simp add: pf_built_def)

locale wt_queries =
  fixes R :: "'r wt_support_ops" and rep :: "'r \<Rightarrow> nat list \<Rightarrow> bool"
  assumes get_unchecked_rep: "rep r D \<Longrightarrow> i < length D \<Longrightarrow> w_get_unchecked R r i = Some (D ! i)"
    and rank_rep: "rep r D \<Longrightarrow> w_rank R r c i = Some (if c < 4 \<and> i \<le> length D then Some (rank_of D c i) else None)"
    and rank_unchecked_rep: "rep r D \<Longrightarrow> c < 4 \<Longrightarrow> i \<le> length D \<Longrightarrow> w_rank_unchecked R r c i = Some (rank_of D c i)"
    and rank_all_rep: "rep r D \<Longrightarrow> i \<le> length D \<Longrightarrow> w_rank_all_unchecked R r i = Some (map (\<lambda>c. rank_of D c i) [0..<4])"
    and select_rep: "rep r D \<Longrightarrow> w_select R r c k = Some (if c < 4 then select_of D c k else None)"
    and occs_smaller_unchecked_rep: "rep r D \<Longrightarrow> c < 4 \<Longrightarrow> w_occs_smaller_unchecked R r c = Some (smaller_of D c)"

locale wt_support = wt_queries R rep
  for R :: "'r wt_support_ops" and rep :: "'r \<Rightarrow> nat list \<Rightarrow> bool" +
  assumes from_rep: "qv_ok qv \<Longrightarrow> qv_len qv < 2 ^ 43 - 2048 \<Longrightarrow> \<exists>r. w_from R qv = Some r \<and> rep r (qv_list qv)"
    and default_rep: "\<exists>r. w_default R = Some r \<and> rep r []"
    and get_rep: "rep r D \<Longrightarrow> w_get R r i = Some (idx D i)"
    and occs_rep: "rep r D \<Longrightarrow> w_occs R r c = Some (if c < 4 then Some (count_list D c) else None)"
    and occs_smaller_rep: "rep r D \<Longrightarrow> w_occs_smaller R r c = Some (if c < 4 then Some (smaller_of D c) else None)"
    and rank_block_rep: "rep r D \<Longrightarrow> c < 4 \<Longrightarrow> i \<le> length D \<Longrightarrow>
      \<exists>j\<le>i. w_rank_block_unchecked R r c i = Some (rank_of D c j)"
begin

text \<open>Building one level.\<close>

lemma count_steps:
  fixes ys :: "'a::len word list"
  assumes "shift < LENGTH('a)" "qv_built (qb_build b)" "length counts = 4" "qv_len (qb_build b) + length ys < 2 ^ 63"
  shows "\<exists>b' counts'. foldM (qw_count_step shift) (b, counts) ys = Some (b', counts') \<and> qv_built (qb_build b')
    \<and> qv_list (qb_build b') = qv_list (qb_build b) @ map (qdigit shift) ys
    \<and> counts' = map (\<lambda>c. counts ! c + count_list (map (qdigit shift) ys) c) [0..<4]"
  using assms(2-)
proof (induction ys arbitrary: b counts)
  case Nil
  have "map (\<lambda>c. counts ! c) [0..<4] = counts" using Nil(2) by (metis map_nth)
  then show ?case using Nil by simp
next
  case (Cons y ys)
  let ?d = "qdigit shift y"
  have d: "?d < 4" by simp
  have u: "unat (of_nat ?d :: u8) mod 4 = ?d"
  proof -
    have "?d < 2 ^ 8" by (rule less_trans [OF d]) simp
    then show ?thesis by (simp add: unsigned_of_nat take_bit_nat_eq_self)
  qed
  obtain b1 where b1: "qb_push b (of_nat ?d) = Some b1" "qv_built (qb_build b1)"
    "qv_list (qb_build b1) = qv_list (qb_build b) @ [?d]"
  proof -
    have "qv_len (qb_build b) + 1 < 2 ^ 63" using Cons.prems(3) by simp
    from qb_push_eq [OF Cons.prems(1) this, of "of_nat ?d"] show thesis using that u by metis
  qed
  have len: "qv_len (qb_build b1) + length ys < 2 ^ 63" using Cons.prems(3) arg_cong [OF b1(3), of length] by simp
  let ?c = "counts[?d := counts ! ?d + 1]"
  obtain b' counts' where s: "foldM (qw_count_step shift) (b1, ?c) ys = Some (b', counts')" "qv_built (qb_build b')"
    "qv_list (qb_build b') = qv_list (qb_build b1) @ map (qdigit shift) ys"
    "counts' = map (\<lambda>c. ?c ! c + count_list (map (qdigit shift) ys) c) [0..<4]"
    using Cons.IH [OF b1(2), of ?c] Cons.prems(2) len by auto
  have "qw_count_step shift (b, counts) y = Some (b1, ?c)"
    using b1(1) d Cons.prems(2) by (simp add: qw_count_step_def two_bits_T_eq [OF assms(1)])
  moreover have "counts' = map (\<lambda>c. counts ! c + count_list (map (qdigit shift) (y # ys)) c) [0..<4]"
    unfolding s(4) using Cons.prems(2) by (auto simp: nth_list_update)
  ultimately show ?case using s b1(3) by simp
qed

lemma level_step_ok:
  fixes xs :: "'a::len word list"
  assumes "build_ok rep L xs l st" "l < L" "2 * (L - 1) < LENGTH('a)" "LENGTH('a) \<le> 64" "length xs < 2 ^ 43 - 2048"
    and pf: "pf_ok pf prep" "pf_built pf prep (wm_digits L xs) l (bw_prefetch st)"
  shows "\<exists>st'. qw_level_step R pf st l = Some st' \<and> build_ok rep L xs (Suc l) st'
    \<and> pf_built pf prep (wm_digits L xs) (Suc l) (bw_prefetch st')"
proof -
  let ?sh = "2 * (L - 1 - l)" and ?ys = "wm_level L xs l"
  have sh: "?sh < LENGTH('a)" using assms(3) by simp
  have small: "length ?ys < 2 ^ 63" using assms(5) by simp
  have cap: "qb_with_capacity (length xs) = Some qb_default" using assms(5) by (intro qb_with_capacity_eq) simp
  have "qv_len (qb_build qb_default) + length ?ys < 2 ^ 63" using small by (simp add: qv_len_def qb_build_def qb_default_def)
  then obtain b counts where bc: "foldM (qw_count_step ?sh) (qb_default, [0, 0, 0, 0]) ?ys = Some (b, counts)"
    "qv_built (qb_build b)" "qv_list (qb_build b) = map (qdigit ?sh) ?ys"
    "counts = map (\<lambda>c. [0, 0, 0, 0] ! c + count_list (map (qdigit ?sh) ?ys) c) [0..<4]"
    using count_steps [OF sh qv_built_default(1), of "[0, 0, 0, 0]" ?ys] qv_built_default(2) by auto
  have cnt: "counts = map (count_list (map (qdigit ?sh) ?ys)) [0..<4]"
    unfolding bc(4) by (simp add: upt_4 numeral_2_eq_2 numeral_3_eq_3)
  have "qv_len (qb_build b) = length xs" using arg_cong [OF bc(3), of length] by simp
  moreover from this obtain r where r: "w_from R (qb_build b) = Some r" "rep r (wm_digits L xs l)"
    using from_rep [OF qv_built_ok [OF bc(2)]] assms(5) bc(3) by (auto simp: wm_digits_def)
  obtain pfs where pfs: "(case pf of None \<Rightarrow> Some (bw_prefetch st)
       | Some P \<Rightarrow> do { p \<leftarrow> p_new P (qb_build b) 11; Some (bw_prefetch st @ [p]) }) = Some pfs"
    "pf_built pf prep (wm_digits L xs) (Suc l) pfs"
    using pf_built_step [OF pf qv_built_ok [OF bc(2)]] \<open>qv_len (qb_build b) = length xs\<close> assms(5) bc(3) by (auto simp: wm_digits_def)
  have part: "stable_partition_of_4_into ?ys ?sh counts (bw_partitioned st) = Some (wm_level L xs (Suc l))"
    using stable_partition_of_4_into_eq [OF assms(4) _ _ cnt, of "bw_partitioned st"] sh assms(1,4)
    by (simp add: build_ok_def)
  let ?st = "\<lparr>bw_sequence = wm_level L xs (Suc l), bw_partitioned = ?ys, bw_qvs = bw_qvs st @ [r], bw_prefetch = pfs,
    bw_shift = (if ?sh \<ge> 2 then ?sh - 2 else ?sh)\<rparr>"
  have "qw_level_step R pf st l = Some ?st"
    using assms(1,2) cap bc(1) pfs(1) r(1) part unfolding qw_level_step_def build_ok_def by simp
  moreover have "build_ok rep L xs (Suc l) ?st"
    using assms(1,2) r(2) by (auto simp: build_ok_def nth_append less_Suc_eq)
  ultimately show ?thesis using pfs(2) by (intro exI [of _ ?st]) simp
qed

text \<open>Building the tree.\<close>

lemma from_owned_ok:
  fixes xs :: "'a::len word list"
  assumes "LENGTH('a) \<le> 64" "length xs < 2 ^ 43 - 2048" and pf: "pf_ok pf prep"
  shows "\<exists>self. qw_from_owned R pf xs = Some self \<and> qw_ok rep self xs
    \<and> (xs \<noteq> [] \<and> pf \<noteq> None \<longrightarrow> (\<exists>ps. qw_prefetch_support self = Some ps
      \<and> pf_built pf prep (wm_digits (qw_n_levels self) xs) (qw_n_levels self) ps))"
proof (cases "xs = []")
  case True
  then show ?thesis using default_rep by (auto simp: qw_from_owned_def qw_ok_def)
next
  case False
  let ?s = "max_symbol xs"
  define L where "L = div_ceil (msb_of ?s + 1) 2"
  note b = levels_bounds [of ?s, folded L_def]
  let ?init = "\<lparr>bw_sequence = xs, bw_partitioned = replicate (length xs) 0, bw_qvs = [], bw_prefetch = [],
    bw_shift = 2 * (L - 1)\<rparr> :: ('a word, 'r, 'b) qw_build"
  let ?Inv = "\<lambda>l st. build_ok rep L xs l st \<and> pf_built pf prep (wm_digits L xs) l (bw_prefetch st)"
  have "?Inv 0 ?init" by (simp add: build_ok_def pf_built_def)
  moreover have "\<exists>st'. qw_level_step R pf st l = Some st' \<and> ?Inv (Suc l) st'" if "l < L" "?Inv l st" for l and st :: "('a word, 'r, 'b) qw_build"
    using level_step_ok [OF _ that(1) b(3) assms(1,2) pf, of st] that(2) by blast
  ultimately obtain st where st: "foldM (qw_level_step R pf) ?init [0..<L] = Some st" "?Inv L st"
    using foldM_upt_inv [of ?Inv ?init L "qw_level_step R pf"] by blast
  show ?thesis
    using False st by (cases pf) (simp_all add: qw_from_owned_def Let_def L_def [symmetric, simplified] qw_ok_def build_ok_def)
qed

end

end
