(* ===== verification/QuadWTPoint.thy ===== *)
theory QuadWTPoint
  imports QuadWTCorrect
begin

text \<open>
  The point queries of the quad wavelet tree: access, rank, the fused access and rank, the
  prefetching rank and select, proved inside the contracts \<open>wt_queries\<close> and \<open>wt_support\<close> of the levels, and
  the sublocale that gives them for \<open>RSQVector\<close>.
\<close>

section \<open>The positions on the path of a symbol\<close>

fun wm_pos :: "nat \<Rightarrow> 'a::len word list \<Rightarrow> 'a word \<Rightarrow> nat \<Rightarrow> nat \<Rightarrow> nat" where
  "wm_pos L xs c p 0 = p"
| "wm_pos L xs c p (Suc l) = smaller_of (wm_digits L xs l) (qdigit (2 * (L - 1 - l)) c)
     + rank_of (wm_digits L xs l) (qdigit (2 * (L - 1 - l)) c) (wm_pos L xs c p l)"

lemma wm_pos_le: "p \<le> length xs \<Longrightarrow> wm_pos L xs c p l \<le> length xs"
  by (induction l) (simp_all add: wm_child_le)

lemma wm_node_pos:
  assumes "s \<le> e" "e \<le> length xs" "\<forall>x\<in>set xs. unat x < 4 ^ L" "unat c < 4 ^ L" "l \<le> L"
  shows "wm_node L xs (slice xs s e) l (wm_pre L l c) (wm_pos L xs c s l) (wm_pos L xs c e l)"
  using assms(5)
proof (induction l)
  case 0
  then show ?case using wm_node_root [OF assms(1-3)] assms(4) by (simp add: wm_pre_0)
next
  case (Suc l)
  then have l: "l < L" by simp
  show ?case
    using wm_node_child [OF Suc.IH l, of "qdigit (2 * (L - 1 - l)) c"] l by (simp add: wm_pre_Suc)
qed

text \<open>The position that follows one element of the sequence.\<close>

lemma wm_pos_element:
  assumes "p < length xs" "l \<le> L"
  shows "wm_pos L xs (xs ! p) p l < length xs" "wm_level L xs l ! wm_pos L xs (xs ! p) p l = xs ! p"
proof -
  have "wm_pos L xs (xs ! p) p l < length xs \<and> wm_level L xs l ! wm_pos L xs (xs ! p) p l = xs ! p"
    using assms(2)
  proof (induction l)
    case 0
    then show ?case using assms(1) by simp
  next
    case (Suc l)
    then have IH: "wm_pos L xs (xs ! p) p l < length xs" "wm_level L xs l ! wm_pos L xs (xs ! p) p l = xs ! p" by simp_all
    then have "wm_digits L xs l ! wm_pos L xs (xs ! p) p l = qdigit (2 * (L - 1 - l)) (xs ! p)"
      by (simp add: nth_wm_digits)
    then show ?case using wm_descend [OF IH(1), of L l] IH(2) by simp
  qed
  then show "wm_pos L xs (xs ! p) p l < length xs" "wm_level L xs l ! wm_pos L xs (xs ! p) p l = xs ! p" by blast+
qed

lemma digit_at_pos:
  assumes "p < length xs" "l \<le> L"
  shows "wm_digits L xs l ! wm_pos L xs (xs ! p) p l = qdigit (2 * (L - 1 - l)) (xs ! p)"
  using wm_pos_element [OF assms] by (simp add: nth_wm_digits)

lemma push_digit_pre:
  fixes x :: "'a::len word"
  assumes "l < L" "unat (p :: 'a word) = wm_pre L l x"
  shows "unat (push_digit p (qdigit (2 * (L - 1 - l)) x)) = wm_pre L (Suc l) x"
proof -
  have "wm_pre L (Suc l) x \<le> unat x" by (simp add: wm_pre_def)
  also have "\<dots> < 2 ^ LENGTH('a)" by (rule unsigned_less)
  finally show ?thesis using assms by (simp add: push_digit_unat wm_pre_Suc)
qed

lemma rank_at_leaf:
  assumes "s \<le> e" "e \<le> length xs" "\<forall>x\<in>set xs. unat x < 4 ^ Suc l" "unat c < 4 ^ Suc l"
  shows "rank_of (wm_digits (Suc l) xs l) (qdigit 0 c) (wm_pos (Suc l) xs c e l)
    = rank_of (wm_digits (Suc l) xs l) (qdigit 0 c) (wm_pos (Suc l) xs c s l) + count_list (slice xs s e) c"
proof -
  have e: "4 * wm_pre (Suc l) l c + qdigit 0 c = unat c" using wm_pre_Suc [of l "Suc l" c] by simp
  show ?thesis
    using wm_node_rank [OF wm_node_pos [OF assms, of l], of "qdigit 0 c"]
    unfolding e length_wm_part_symbol by simp
qed

section \<open>The queries\<close>

context wt_queries
begin

lemma level_rep:
  assumes "qw_ok rep self xs" "xs \<noteq> []" "l < qw_n_levels self"
  obtains r where "idx (qw_qvs self) l = Some r" "rep r (wm_digits (qw_n_levels self) xs l)"
  using qw_ok_levels(4,6) [OF assms(1,2)] assms(3) by simp

text \<open>Access.\<close>

lemma get_unchecked_eq:
  fixes xs :: "'a::len word list"
  assumes ok: "qw_ok rep self xs" and p: "p < length xs"
  shows "qw_get_unchecked R self p = Some (xs ! p)"
proof -
  have ne: "xs \<noteq> []" using p by auto
  let ?x = "xs ! p" and ?L = "qw_n_levels self"
  let ?pre = "\<lambda>l. of_nat (wm_pre ?L l ?x) :: 'a word"
  note lev = qw_ok_levels [OF ok ne]
  have L: "Suc (?L - 1) = ?L" using lev(1) by simp
  have x: "unat ?x < 4 ^ ?L" using lev(2) p by simp
  have pre_le: "wm_pre ?L l ?x < 2 ^ LENGTH('a)" for l
    using unsigned_less [of ?x, where 'a = nat] by (metis div_le_dividend order_le_less_trans wm_pre_def)
  have u: "unat (?pre l) = wm_pre ?L l ?x" for l
    using pre_le by (simp add: unsigned_of_nat take_bit_nat_eq_self)
  have dig: "push_digit (?pre l) (qdigit (2 * (?L - 1 - l)) ?x) = ?pre (Suc l)" if "l < ?L" for l
    using push_digit_pre [OF that u] u [of "Suc l"] by (metis word_unat_eq_iff)
  have step: "qw_get_step R self (?pre l, wm_pos ?L xs ?x p l) l = Some (?pre (Suc l), wm_pos ?L xs ?x p (Suc l))"
    if "l < ?L - 1" for l
  proof -
    have l: "l < ?L" "l \<le> ?L" using that by simp_all
    obtain r where r: "idx (qw_qvs self) l = Some r" "rep r (wm_digits ?L xs l)"
      using level_rep [OF ok ne l(1)] .
    have pos: "wm_pos ?L xs ?x p l < length xs" by (rule wm_pos_element(1) [OF p l(2)])
    show ?thesis
      using r pos digit_at_pos [OF p l(2)] dig [OF l(1)]
      by (simp add: qw_get_step_def get_unchecked_rep occs_smaller_unchecked_rep rank_unchecked_rep)
  qed
  have fold: "foldM (qw_get_step R self) (0, p) [0..<?L - 1] = Some (?pre (?L - 1), wm_pos ?L xs ?x p (?L - 1))"
    using foldM_upt_value [where g = "\<lambda>l. (?pre l, wm_pos ?L xs ?x p l)" and n = "?L - 1"] step x
    by (simp add: wm_pre_0)
  obtain r where r: "idx (qw_qvs self) (?L - 1) = Some r" "rep r (wm_digits ?L xs (?L - 1))"
    using level_rep [OF ok ne, of "?L - 1"] lev(1) by auto
  have "wm_pos ?L xs ?x p (?L - 1) < length xs" by (rule wm_pos_element(1) [OF p]) simp
  then have "w_get_unchecked R r (wm_pos ?L xs ?x p (?L - 1)) = Some (qdigit 0 ?x)"
    using digit_at_pos [OF p, of "?L - 1" ?L] r(2) by (simp add: get_unchecked_rep)
  moreover have "push_digit (?pre (?L - 1)) (qdigit 0 ?x) = ?x"
    using dig [of "?L - 1"] lev(1) L by simp
  ultimately show ?thesis
    using fold r(1) lev(1) by (simp add: qw_get_unchecked_def)
qed

lemma get_eq:
  assumes "qw_ok rep self xs"
  shows "qw_get R self i = Some (idx xs i)"
proof -
  have "qw_n self = length xs" using assms by (simp add: qw_ok_def)
  then show ?thesis using get_unchecked_eq [OF assms] by (simp add: qw_get_def idx_def)
qed

text \<open>Rank.\<close>

lemma rank_step_eq:
  fixes xs :: "'a::len word list"
  assumes "qw_ok rep self xs" "xs \<noteq> []" "l < qw_n_levels self" "i \<le> length xs"
  defines "L \<equiv> qw_n_levels self"
  shows "qw_rank_step R self c (int (2 * (L - 1 - l)), wm_pos L xs c i l, wm_pos L xs c 0 l) l
    = Some (int (2 * (L - 1 - l)) - 2, wm_pos L xs c i (Suc l), wm_pos L xs c 0 (Suc l))"
proof -
  obtain r where r: "idx (qw_qvs self) l = Some r" "rep r (wm_digits L xs l)"
    using level_rep [OF assms(1-3)] unfolding L_def .
  have sh: "2 * (L - 1 - l) < LENGTH('a)" using qw_ok_levels(3) [OF assms(1,2)] by (simp add: L_def)
  have "wm_pos L xs c i l \<le> length xs" "wm_pos L xs c 0 l \<le> length xs"
    using assms(4) by (simp_all add: wm_pos_le)
  then show ?thesis
    using r sh by (simp add: qw_rank_step_def two_bits_T_eq occs_smaller_unchecked_rep rank_unchecked_rep nat_mult_distrib)
qed

lemma rank_unchecked_eq:
  fixes xs :: "'a::len word list"
  assumes ok: "qw_ok rep self xs" and ne: "xs \<noteq> []" and i: "i \<le> length xs" and c: "c \<le> qw_sigma self"
  shows "qw_rank_unchecked R self c i = Some (rank_of xs c i)"
proof -
  let ?L = "qw_n_levels self"
  note lev = qw_ok_levels [OF ok ne]
  obtain l where l: "?L = Suc l" using lev(1) by (cases ?L) auto
  have c4: "unat c < 4 ^ ?L" using lev(5) c by (metis order_le_less_trans word_le_nat_alt)
  let ?g = "\<lambda>k. (int (2 * (?L - 1 - k)), wm_pos ?L xs c i k, wm_pos ?L xs c 0 k)"
  have step: "qw_rank_step R self c (?g k) k = Some (?g (Suc k))" if "k < l" for k
  proof -
    have "int (2 * (?L - 1 - k)) - 2 = int (2 * (?L - 1 - Suc k))" using that l by simp
    then show ?thesis using rank_step_eq [OF ok ne _ i, of k c] that l by simp
  qed
  have fold: "foldM (qw_rank_step R self c) (int (2 * l), i, 0) [0..<l] = Some (?g l)"
    using foldM_upt_value [where g = ?g and n = l and f = "qw_rank_step R self c", OF step] l by simp
  obtain r where r: "idx (qw_qvs self) l = Some r" "rep r (wm_digits ?L xs l)"
    using level_rep [OF ok ne, of l] l by auto
  have "0 < LENGTH('a)" by simp
  then have tb: "two_bits_T 0 c = Some (qdigit 0 c)" by (rule two_bits_T_eq)
  have "rank_of (wm_digits ?L xs l) (qdigit 0 c) (wm_pos ?L xs c i l)
      = rank_of (wm_digits ?L xs l) (qdigit 0 c) (wm_pos ?L xs c 0 l) + rank_of xs c i"
    using rank_at_leaf [of 0 i xs l c] i lev(2) c4 l by (simp add: slice_0 rank_of_def)
  moreover have "wm_pos ?L xs c i l \<le> length xs" "wm_pos ?L xs c 0 l \<le> length xs" using i by (simp_all add: wm_pos_le)
  ultimately show ?thesis
    using fold r l tb by (simp add: qw_rank_unchecked_def rank_unchecked_rep)
qed

lemma rank_eq:
  assumes "qw_ok rep self xs"
  shows "qw_rank R self c i = Some (if i \<le> length xs \<and> c \<le> qw_sigma self then Some (rank_of xs c i) else None)"
proof (cases "xs = []")
  case True
  then show ?thesis using assms by (auto simp: qw_rank_def qw_ok_def rank_of_def word_gt_0)
next
  case False
  note lev = qw_ok_levels [OF assms False]
  show ?thesis using rank_unchecked_eq [OF assms False] lev(1,7) by (auto simp: qw_rank_def dest: leD)
qed

text \<open>A symbol above the largest does not occur.\<close>

lemma above_sigma:
  assumes "qw_ok rep self xs" "qw_sigma self < c"
  shows "c \<notin> set xs"
  using assms max_symbol_ge [of c xs] by (cases "xs = []") (auto simp: qw_ok_def)

end

context wt_support
begin

text \<open>The prefetching rank, without the additional prefetch data.\<close>

lemma prefetch_block_steps:
  fixes xs :: "'a::len word list"
  assumes ok: "qw_ok rep self xs" and ne: "xs \<noteq> []" and "s \<le> length xs" "e \<le> length xs" and L: "qw_n_levels self = Suc l"
  shows "\<exists>st. foldM (qw_prefetch_block_step R self c) (int (2 * l), s, e) [0..<l] = Some st"
proof -
  let ?Inv = "\<lambda>k st. \<exists>b e. st = (int (2 * (l - k)), b, e) \<and> b \<le> length xs \<and> e \<le> length xs"
  note lev = qw_ok_levels [OF ok ne]
  have "\<exists>st'. qw_prefetch_block_step R self c st k = Some st' \<and> ?Inv (Suc k) st'" if k: "k < l" and inv: "?Inv k st" for k st
  proof -
    obtain b e where st: "st = (int (2 * (l - k)), b, e)" "b \<le> length xs" "e \<le> length xs" using inv by blast
    obtain r where r: "idx (qw_qvs self) k = Some r" "rep r (wm_digits (Suc l) xs k)"
      using level_rep [OF ok ne, of k] k L by auto
    let ?D = "wm_digits (Suc l) xs k" and ?d = "qdigit (2 * (l - k)) c"
    have "2 * (l - k) < LENGTH('a)" using lev(3) L by simp
    then have tb: "two_bits_T (2 * (l - k)) c = Some ?d" by (rule two_bits_T_eq)
    obtain j1 j2 where j: "j1 \<le> b" "w_rank_block_unchecked R r ?d b = Some (rank_of ?D ?d j1)"
      "j2 \<le> e" "w_rank_block_unchecked R r ?d e = Some (rank_of ?D ?d j2)"
      using rank_block_rep [OF r(2), of ?d b] rank_block_rep [OF r(2), of ?d e] st(2,3) by auto
    have le: "smaller_of ?D ?d + rank_of ?D ?d j1 \<le> length xs" "smaller_of ?D ?d + rank_of ?D ?d j2 \<le> length xs"
      using j(1,3) st(2,3) by (auto intro!: wm_child_le)
    have sh: "int (2 * (l - k)) - 2 = int (2 * (l - Suc k))" using k by simp
    have nat: "nat (int (2 * (l - k))) = 2 * (l - k)" by (rule nat_int)
    show ?thesis
      using r st(1) tb j(2,4) k lev(4) L le sh nat
      by (auto simp: qw_prefetch_block_step_def occs_smaller_unchecked_rep add.commute simp del: of_nat_mult of_nat_diff)
  qed
  then show ?thesis
    using foldM_upt_inv [of ?Inv "(int (2 * l), s, e)" l "qw_prefetch_block_step R self c"] assms(3,4) by auto
qed

lemma rank_prefetch_eq:
  assumes "qw_ok rep self xs" "xs \<noteq> []"
  shows "qw_rank_prefetch R None self c i = qw_rank R self c i"
proof -
  note lev = qw_ok_levels [OF assms]
  obtain l where l: "qw_n_levels self = Suc l" using lev(1) by (cases "qw_n_levels self") auto
  have "qw_rank_prefetch_unchecked R None self c i = qw_rank_unchecked R self c i" if "i \<le> length xs"
    using prefetch_block_steps [OF assms _ that l, of 0 c] lev(4) l
    by (auto simp: qw_rank_prefetch_unchecked_def)
  then show ?thesis using lev(7) l by (auto simp: qw_rank_prefetch_def qw_rank_def)
qed

end

context wt_queries
begin

text \<open>The fused access and rank.\<close>

lemma get_and_rank_unchecked_eq:
  fixes xs :: "'a::len word list"
  assumes ok: "qw_ok rep self xs" and p: "p < length xs"
  shows "qw_get_and_rank_unchecked R self p = Some (xs ! p, rank_of xs (xs ! p) (p + 1))"
proof -
  have ne: "xs \<noteq> []" using p by auto
  let ?x = "xs ! p" and ?L = "qw_n_levels self"
  let ?pre = "\<lambda>l. of_nat (wm_pre ?L l ?x) :: 'a word"
  note lev = qw_ok_levels [OF ok ne]
  obtain l where L: "?L = Suc l" using lev(1) by (cases ?L) auto
  have x: "unat ?x < 4 ^ ?L" using lev(2) p by simp
  have pre_le: "wm_pre ?L k ?x < 2 ^ LENGTH('a)" for k
    using unsigned_less [of ?x, where 'a = nat] by (metis div_le_dividend order_le_less_trans wm_pre_def)
  have u: "unat (?pre k) = wm_pre ?L k ?x" for k
    using pre_le by (simp add: unsigned_of_nat take_bit_nat_eq_self)
  have dig: "push_digit (?pre k) (qdigit (2 * (?L - 1 - k)) ?x) = ?pre (Suc k)" if "k < ?L" for k
    using push_digit_pre [OF that u] u [of "Suc k"] by (metis word_unat_eq_iff)
  let ?g = "\<lambda>k. (?pre k, wm_pos ?L xs ?x p k, wm_pos ?L xs ?x 0 k)"
  have pos: "wm_pos ?L xs ?x p k < length xs" "wm_pos ?L xs ?x 0 k \<le> length xs" if "k \<le> ?L" for k
    using wm_pos_element(1) [OF p that] wm_pos_le [of 0 xs] by simp_all
  have step: "qw_get_and_rank_step R self (?g k) k = Some (?g (Suc k))" if "k < l" for k
  proof -
    have k: "k < ?L" "k \<le> ?L" using that L by simp_all
    obtain r where r: "idx (qw_qvs self) k = Some r" "rep r (wm_digits ?L xs k)"
      using level_rep [OF ok ne k(1)] .
    show ?thesis
      using r pos [OF k(2)] digit_at_pos [OF p k(2)] dig [OF k(1)]
      by (simp add: qw_get_and_rank_step_def get_unchecked_rep occs_smaller_unchecked_rep rank_unchecked_rep)
  qed
  have fold: "foldM (qw_get_and_rank_step R self) (0, p, 0) [0..<l] = Some (?g l)"
    using foldM_upt_value [where g = ?g and n = l] step x by (simp add: wm_pre_0)
  obtain r where r: "idx (qw_qvs self) l = Some r" "rep r (wm_digits ?L xs l)"
    using level_rep [OF ok ne, of l] L by auto
  have l: "l \<le> ?L" using L by simp
  have "rank_of (wm_digits ?L xs l) (qdigit 0 ?x) (wm_pos ?L xs ?x p l)
      = rank_of (wm_digits ?L xs l) (qdigit 0 ?x) (wm_pos ?L xs ?x 0 l) + rank_of xs ?x p"
    using rank_at_leaf [of 0 p xs l ?x] p lev(2) x L by (simp add: slice_0 rank_of_def)
  moreover have "w_get_unchecked R r (wm_pos ?L xs ?x p l) = Some (qdigit 0 ?x)"
    using digit_at_pos [OF p l] r(2) pos(1) [OF l] L by (simp add: get_unchecked_rep)
  moreover have "push_digit (?pre l) (qdigit 0 ?x) = ?x"
    using dig [of l] L by simp
  ultimately show ?thesis
    using fold r L pos [OF l] p by (simp add: qw_get_and_rank_unchecked_def rank_unchecked_rep rank_of_Suc)
qed

lemma get_and_rank_eq:
  assumes "qw_ok rep self xs"
  shows "qw_get_and_rank R self i = Some (if i < length xs then Some (xs ! i, rank_of xs (xs ! i) (i + 1)) else None)"
proof (cases "i < length xs")
  case True
  then have "xs \<noteq> []" by auto
  then show ?thesis
    using get_and_rank_unchecked_eq [OF assms True] qw_ok_levels(1,7) [OF assms] True by (simp add: qw_get_and_rank_def)
next
  case False
  then show ?thesis using assms by (simp add: qw_get_and_rank_def qw_ok_def)
qed

section \<open>Select\<close>

text \<open>The loop down records the start of each node on the path and its rank.\<close>

lemma select_down_eq:
  fixes xs :: "'a::len word list"
  assumes ok: "qw_ok rep self xs" and ne: "xs \<noteq> []"
  defines "L \<equiv> qw_n_levels self"
  assumes "l \<le> L" "length po = MAX_QUAD_LEVELS" "length rpo = MAX_QUAD_LEVELS" "L \<le> MAX_QUAD_LEVELS"
    and "\<forall>k<l. po ! k = wm_pos L xs c 0 k \<and> rpo ! k = rank_of (wm_digits L xs k) (qdigit (2 * (L - 1 - k)) c) (wm_pos L xs c 0 k)"
    and "l < L \<longrightarrow> shift = int (2 * (L - 1 - l))"
  shows "\<exists>po' rpo'. qw_select_down R self c [l..<L] shift (wm_pos L xs c 0 l) po rpo = Some (Inr (po', rpo'))
    \<and> length po' = MAX_QUAD_LEVELS \<and> length rpo' = MAX_QUAD_LEVELS
    \<and> (\<forall>k<L. po' ! k = wm_pos L xs c 0 k \<and> rpo' ! k = rank_of (wm_digits L xs k) (qdigit (2 * (L - 1 - k)) c) (wm_pos L xs c 0 k))"
  using assms(4-)
proof (induction "L - l" arbitrary: l po rpo shift)
  case 0
  then show ?case by simp
next
  case (Suc d)
  then have l: "l < L" by simp
  let ?d = "qdigit (2 * (L - 1 - l)) c" and ?D = "wm_digits L xs l" and ?b = "wm_pos L xs c 0 l"
  obtain r where r: "idx (qw_qvs self) l = Some r" "rep r ?D"
    using level_rep [OF ok ne, of l] l unfolding L_def by blast
  have "2 * (L - 1 - l) < LENGTH('a)" using qw_ok_levels(3) [OF ok ne] by (simp add: L_def)
  moreover have "nat shift = 2 * (L - 1 - l)" using Suc.prems(6) l by (metis nat_int)
  ultimately have tb: "two_bits_T (nat shift) c = Some ?d" by (simp only: two_bits_T_eq)
  have pos: "?b \<le> length xs" by (simp add: wm_pos_le)
  let ?po = "po[l := ?b]" and ?rpo = "rpo[l := rank_of ?D ?d ?b]"
  have unf: "qw_select_down R self c [l..<L] shift ?b po rpo = qw_select_down R self c [Suc l..<L] (shift - 2) (wm_pos L xs c 0 (Suc l)) ?po ?rpo"
    using l r tb pos Suc.prems(2-4) by (simp add: upt_conv_Cons rank_rep occs_smaller_unchecked_rep add.commute)
  have "Suc l < L \<longrightarrow> shift - 2 = int (2 * (L - 1 - Suc l))" using Suc.prems(6) l by auto
  then show ?case
    unfolding unf using Suc.hyps(1) [of "Suc l" ?po ?rpo "shift - 2"] Suc.hyps(2) Suc.prems(2-5) l
    by (simp add: nth_list_update less_Suc_eq)
qed

text \<open>The loop up: a position inside the node of a level leads to the occurrence.\<close>

lemma count_take_filter:
  assumes "take k (filter f N) = filter f (take q N)" "f c"
  shows "count_list (take k (filter f N)) c = count_list (take q N) c"
proof -
  have "count_list (filter f ys) c = count_list ys c" for ys using assms(2) by (induction ys) auto
  then show ?thesis using assms(1) by simp
qed

lemma select_up_inside:
  fixes xs :: "'a::len word list"
  assumes ok: "qw_ok rep self xs" and ne: "xs \<noteq> []" and c: "unat c < 4 ^ qw_n_levels self"
  defines "L \<equiv> qw_n_levels self"
  assumes arr: "\<forall>k<L. idx po k = Some (wm_pos L xs c 0 k)
      \<and> idx rpo k = Some (rank_of (wm_digits L xs k) (qdigit (2 * (L - 1 - k)) c) (wm_pos L xs c 0 k))"
    and "l \<le> L" "k < length (wm_part L l (wm_pre L l c) xs)" "wm_part L l (wm_pre L l c) xs ! k = c"
  shows "qw_select_up R self c (rev [0..<l]) (2 * (L - l)) po rpo k
    = Some (select_of xs c (rank_of (wm_part L l (wm_pre L l c) xs) c k))"
  using assms(6-)
proof (induction l arbitrary: k)
  case 0
  have "wm_part L 0 (wm_pre L 0 c) xs = xs"
    using qw_ok_levels(2) [OF ok ne] c by (simp add: wm_part_def wm_pre_0 L_def)
  moreover have "select_of xs c (rank_of xs c k) = Some k" if "k < length xs" "xs ! k = c"
    using that by (simp add: select_of_Some)
  ultimately show ?case using 0 by simp
next
  case (Suc l)
  then have l: "l < L" by simp
  let ?d = "qdigit (2 * (L - 1 - l)) c" and ?D = "wm_digits L xs l" and ?b = "wm_pos L xs c 0 l"
  let ?N = "wm_part L l (wm_pre L l c) xs"
  have node: "wm_node L xs xs l (wm_pre L l c) ?b (wm_pos L xs c (length xs) l)"
    using wm_node_pos [of 0 "length xs" xs L c l] qw_ok_levels(2) [OF ok ne] c l by (simp add: L_def slice_0)
  have child: "wm_part L (Suc l) (4 * wm_pre L l c + ?d) xs = wm_part L (Suc l) (wm_pre L (Suc l) c) xs"
    using l by (simp add: wm_pre_Suc)
  obtain q where q: "select_of ?D ?d (rank_of ?D ?d ?b + k) = Some (?b + q)" "q < length ?N" "?N ! q = c"
    "take k (wm_part L (Suc l) (wm_pre L (Suc l) c) xs) = filter (\<lambda>x. qdigit (2 * (L - 1 - l)) x = ?d) (take q ?N)"
    using wm_select_inside [OF node l qdigit_less, of k "2 * (L - 1 - l)" c] Suc.prems(2,3) unfolding child by metis
  have N': "wm_part L (Suc l) (wm_pre L (Suc l) c) xs = filter (\<lambda>x. qdigit (2 * (L - 1 - l)) x = ?d) ?N"
    unfolding child [symmetric] by (rule wm_part_Suc) (use l in simp_all)
  have rank: "rank_of (wm_part L (Suc l) (wm_pre L (Suc l) c) xs) c k = rank_of ?N c q"
    using count_take_filter [of k "\<lambda>x. qdigit (2 * (L - 1 - l)) x = ?d" ?N q c] q(4) unfolding rank_of_def N' by simp
  obtain r where r: "idx (qw_qvs self) l = Some r" "rep r ?D"
    using level_rep [OF ok ne, of l] l unfolding L_def by blast
  have sh: "2 * (L - Suc l) < LENGTH('a)" using qw_ok_levels(3) [OF ok ne] by (simp add: L_def)
  have "qw_select_up R self c (rev [0..<Suc l]) (2 * (L - Suc l)) po rpo k
      = qw_select_up R self c (rev [0..<l]) (2 * (L - Suc l) + 2) po rpo q"
    using arr l r q(1) two_bits_T_eq [OF sh, of c] by (simp add: select_rep)
  also have "2 * (L - Suc l) + 2 = 2 * (L - l)" using l by simp
  finally show ?case using Suc.IH [OF _ q(2,3)] l rank by simp
qed

text \<open>A position beyond the node of a level leads to \<open>None\<close>.\<close>

lemma select_up_step:
  fixes xs :: "'a::len word list"
  assumes ok: "qw_ok rep self xs" and ne: "xs \<noteq> []" and c: "unat c < 4 ^ qw_n_levels self"
  defines "L \<equiv> qw_n_levels self"
  assumes arr: "\<forall>k<L. idx po k = Some (wm_pos L xs c 0 k)
      \<and> idx rpo k = Some (rank_of (wm_digits L xs k) (qdigit (2 * (L - 1 - k)) c) (wm_pos L xs c 0 k))"
    and l: "Suc l \<le> L" and k: "length (wm_part L (Suc l) (wm_pre L (Suc l) c) xs) \<le> k"
  shows "qw_select_up R self c (rev [0..<Suc l]) (2 * (L - Suc l)) po rpo k = Some None
    \<or> (\<exists>q<length xs. length (wm_part L l (wm_pre L l c) xs) \<le> q
        \<and> qw_select_up R self c (rev [0..<Suc l]) (2 * (L - Suc l)) po rpo k
          = qw_select_up R self c (rev [0..<l]) (2 * (L - l)) po rpo q)"
proof -
  let ?d = "qdigit (2 * (L - 1 - l)) c" and ?D = "wm_digits L xs l" and ?b = "wm_pos L xs c 0 l"
  have l': "l < L" using l by simp
  have node: "wm_node L xs xs l (wm_pre L l c) ?b (wm_pos L xs c (length xs) l)"
    using wm_node_pos [of 0 "length xs" xs L c l] qw_ok_levels(2) [OF ok ne] c l by (simp add: L_def slice_0)
  have child: "wm_part L (Suc l) (4 * wm_pre L l c + ?d) xs = wm_part L (Suc l) (wm_pre L (Suc l) c) xs"
    using l by (simp add: wm_pre_Suc)
  obtain r where r: "idx (qw_qvs self) l = Some r" "rep r ?D"
    using level_rep [OF ok ne, of l] l' unfolding L_def by blast
  have sh: "2 * (L - Suc l) < LENGTH('a)" using qw_ok_levels(3) [OF ok ne] by (simp add: L_def)
  show ?thesis
  proof (cases "select_of ?D ?d (rank_of ?D ?d ?b + k)")
    case None
    then show ?thesis using arr l' r two_bits_T_eq [OF sh, of c] by (simp add: select_rep)
  next
    case (Some p)
    have out: "?b \<le> p" "length (wm_part L l (wm_pre L l c) xs) \<le> p - ?b"
      using wm_select_outside [OF node l' qdigit_less _ Some] k unfolding child by simp_all
    have "p < length xs" using Some by (simp add: select_of_Some)
    then have "p - ?b < length xs" by simp
    moreover have "2 * (L - Suc l) + 2 = 2 * (L - l)" using l by simp
    ultimately show ?thesis
      using Some out arr l' r two_bits_T_eq [OF sh, of c] by (intro disjI2 exI [of _ "p - ?b"]) (simp add: select_rep)
  qed
qed

lemma select_up_outside:
  fixes xs :: "'a::len word list"
  assumes ok: "qw_ok rep self xs" and ne: "xs \<noteq> []" and c: "unat c < 4 ^ qw_n_levels self"
  defines "L \<equiv> qw_n_levels self"
  assumes arr: "\<forall>k<L. idx po k = Some (wm_pos L xs c 0 k)
      \<and> idx rpo k = Some (rank_of (wm_digits L xs k) (qdigit (2 * (L - 1 - k)) c) (wm_pos L xs c 0 k))"
    and "Suc l \<le> L" "length (wm_part L (Suc l) (wm_pre L (Suc l) c) xs) \<le> k"
  shows "qw_select_up R self c (rev [0..<Suc l]) (2 * (L - Suc l)) po rpo k = Some None"
  using assms(6-)
proof (induction l arbitrary: k)
  case 0
  have "wm_part L 0 (wm_pre L 0 c) xs = xs"
    using qw_ok_levels(2) [OF ok ne] c by (simp add: wm_part_def wm_pre_0 L_def)
  then show ?case using select_up_step [OF ok ne c arr [unfolded L_def] 0 [unfolded L_def]] by (auto simp: L_def)
next
  case (Suc l)
  show ?case
    using select_up_step [OF ok ne c arr [unfolded L_def] Suc.prems [unfolded L_def]] Suc.IH Suc.prems(1)
    unfolding L_def by (metis Suc_leD)
qed

lemma select_eq:
  fixes xs :: "'a::len word list"
  assumes ok: "qw_ok rep self xs" and ne: "xs \<noteq> []" and w: "LENGTH('a) \<le> 64"
  shows "qw_select R self c i = Some (select_of xs c i)"
proof (cases "qw_sigma self < c")
  case True
  then have "count_list xs c = 0" using above_sigma [OF ok] by (simp add: count_list_0_iff)
  then have "select_of xs c i = None" by (simp add: select_of_None)
  then show ?thesis using True by (simp add: qw_select_def)
next
  case False
  let ?L = "qw_n_levels self"
  note lev = qw_ok_levels [OF ok ne]
  have c: "unat c < 4 ^ ?L" using lev(5) False by (metis not_less order_le_less_trans word_le_nat_alt)
  have max: "?L \<le> MAX_QUAD_LEVELS" using lev(3) w by (simp add: MAX_QUAD_LEVELS_def)
  obtain l where L: "?L = Suc l" using lev(1) by (cases ?L) auto
  obtain po rpo where down: "qw_select_down R self c [0..<?L] (int (2 * l)) 0 (replicate MAX_QUAD_LEVELS 0) (replicate MAX_QUAD_LEVELS 0)
      = Some (Inr (po, rpo))" "length po = MAX_QUAD_LEVELS" "length rpo = MAX_QUAD_LEVELS"
    "\<forall>k<?L. po ! k = wm_pos ?L xs c 0 k \<and> rpo ! k = rank_of (wm_digits ?L xs k) (qdigit (2 * (?L - 1 - k)) c) (wm_pos ?L xs c 0 k)"
    using select_down_eq [OF ok ne, of 0 "replicate MAX_QUAD_LEVELS 0" "replicate MAX_QUAD_LEVELS 0" c "int (2 * l)"] max L by auto
  have arr: "\<forall>k<?L. idx po k = Some (wm_pos ?L xs c 0 k)
      \<and> idx rpo k = Some (rank_of (wm_digits ?L xs k) (qdigit (2 * (?L - 1 - k)) c) (wm_pos ?L xs c 0 k))"
    using down(2-4) max by simp
  have sel: "qw_select R self c i = qw_select_up R self c (rev [0..<?L]) 0 po rpo i"
    using False max L down(1) by (simp add: qw_select_def)
  have leaf: "wm_part ?L ?L (wm_pre ?L ?L c) xs = filter (\<lambda>x. x = c) xs"
    by (simp add: wm_part_all word_unat_eq_iff)
  have cnt: "length (filter (\<lambda>x. x = c) ys) = count_list ys c" for ys by (induction ys) auto
  show ?thesis
  proof (cases "i < count_list xs c")
    case True
    have rep: "filter (\<lambda>x. x = c) ys = replicate (count_list ys c) c" for ys by (induction ys) auto
    have "rank_of (filter (\<lambda>x. x = c) xs) c i = i"
    proof -
      have "count_list (replicate m c) c = m" for m by (induction m) auto
      then show ?thesis using True by (simp add: rep rank_of_def take_replicate min_def)
    qed
    then show ?thesis
      unfolding sel using select_up_inside [OF ok ne c arr, of ?L i] True leaf cnt [of xs] by (simp add: rep)
  next
    case f: False
    then have "select_of xs c i = None" by (simp add: select_of_None)
    moreover have "qw_select_up R self c (rev [0..<?L]) 0 po rpo i = Some None"
      using select_up_outside [OF ok ne c arr, of l i] L leaf cnt [of xs] f by simp
    ultimately show ?thesis unfolding sel by simp
  qed
qed

text \<open>On an empty tree the level count underflows for the symbol 0, the only one that passes the guard.\<close>

lemma select_empty: "qw_ok rep self [] \<Longrightarrow> qw_select R self 0 i = None"
  by (simp add: qw_select_def qw_ok_def)

lemma select_any:
  fixes xs :: "'a::len word list"
  assumes "qw_ok rep self xs" "LENGTH('a) \<le> 64"
  shows "qw_select R self c i = (if xs = [] \<and> c = 0 then None else Some (select_of xs c i))"
proof (cases "xs = [] \<and> c \<noteq> 0")
  case True
  then have "qw_sigma self < c" using assms(1) by (auto simp: qw_ok_def word_gt_0)
  moreover have "select_of xs c i = None" using True by (simp add: select_of_None)
  ultimately show ?thesis using True by (simp add: qw_select_def)
qed (use select_eq [OF assms(1) _ assms(2)] select_empty assms(1) in auto)

text \<open>Iteration, from either end.\<close>

lemma iter_collect:
  assumes "qw_ok rep self xs"
  shows "collect (wi_next (qw_get_unchecked R)) (qw_iter self) = Some xs"
  using collect_run [where st = "\<lambda>k. \<lparr>wi_i = k, wi_end = length xs, wi_qwt = self\<rparr>" and xs = xs and k = 0
      and nxt = "wi_next (qw_get_unchecked R)"] assms get_unchecked_eq [OF assms]
  by (simp add: qw_iter_def qw_len_def qw_ok_def wi_next_def)

lemma iter_back_collect:
  assumes "qw_ok rep self xs"
  shows "collect (wi_next_back (qw_get_unchecked R)) (qw_iter self) = Some (rev xs)"
  using collect_run [where st = "\<lambda>k. \<lparr>wi_i = 0, wi_end = length xs - k, wi_qwt = self\<rparr>" and xs = "rev xs" and k = 0
      and nxt = "wi_next_back (qw_get_unchecked R)"] assms get_unchecked_eq [OF assms]
  by (simp add: qw_iter_def qw_len_def qw_ok_def wi_next_back_def rev_nth Suc_diff_Suc)

end

section \<open>RSQVector meets the contract\<close>

sublocale rs_support \<subseteq> wt: wt_support "rq_ops S" "\<lambda>r D. rq_ok sinv r \<and> rq_list r = D"
proof
  fix r and D :: "nat list" and c i k :: nat and qv
  show "\<exists>r. w_from (rq_ops S) qv = Some r \<and> rq_ok sinv r \<and> rq_list r = qv_list qv" if "qv_ok qv" "qv_len qv < 2 ^ 43 - 2048"
    using from_ok [OF that] by (auto simp: rq_ops_def rq_list_def)
  show "\<exists>r. w_default (rq_ops S) = Some r \<and> rq_ok sinv r \<and> rq_list r = []"
  proof -
    let ?e = "\<lparr>qv_data = [], qv_position = 0\<rparr> :: qvector"
    have e: "qv_ok ?e" "qv_len ?e < 2 ^ 43 - 2048" "qv_list ?e = []" by (simp_all add: qv_ok_def qv_len_def qv_list_def)
    obtain s where "rs_new S ?e = Some s" "sinv s []" using new_ok [OF e(1,2)] e(3) by auto
    then show ?thesis using e
      by (simp add: rq_ops_def rq_default_def rq_ok_def rq_list_def n_occs_of_def upt_5 smaller_of_def)
  qed
  assume r: "rq_ok sinv r \<and> rq_list r = D"
  then show "w_get (rq_ops S) r i = Some (idx D i)"
    "w_rank (rq_ops S) r c i = Some (if c < 4 \<and> i \<le> length D then Some (rank_of D c i) else None)"
    "w_select (rq_ops S) r c k = Some (if c < 4 then select_of D c k else None)"
    "w_occs (rq_ops S) r c = Some (if c < 4 then Some (count_list D c) else None)"
    by (auto simp: rq_ops_def get_eq rank_eq select_eq occs_eq)
  show "w_get_unchecked (rq_ops S) r i = Some (D ! i)" if "i < length D"
    using r that get_unchecked_eq by (auto simp: rq_ops_def)
  show "w_rank_unchecked (rq_ops S) r c i = Some (rank_of D c i)" if "c < 4" "i \<le> length D"
    using r that rank_unchecked_eq by (auto simp: rq_ops_def)
  show "w_rank_all_unchecked (rq_ops S) r i = Some (map (\<lambda>c. rank_of D c i) [0..<4])" if "i \<le> length D"
    using r that rank_all_unchecked_eq by (auto simp: rq_ops_def)
  show "w_occs_smaller (rq_ops S) r c = Some (if c < 4 then Some (smaller_of D c) else None)"
    using r by (auto simp: rq_ops_def rq_occs_smaller_def occs_smaller_eq)
  show "w_occs_smaller_unchecked (rq_ops S) r c = Some (smaller_of D c)" if "c < 4"
    using r that occs_smaller_eq [of r c] by (auto simp: rq_ops_def)
  show "\<exists>j\<le>i. w_rank_block_unchecked (rq_ops S) r c i = Some (rank_of D c j)" if "c < 4" "i \<le> length D"
    using r that rank_block_unchecked_eq [of r c i]
    by (intro exI [of _ "i div rs_BLOCK_SIZE S * rs_BLOCK_SIZE S"]) (auto simp: rq_ops_def)
qed

end
