(* ===== verification/QuadWTRange.thy ===== *)
theory QuadWTRange
  imports QuadWTPoint
begin

text \<open>
  The range queries of the quad wavelet tree, \<^verbatim>\<open>src/quadwt/mod.rs\<close>: the two iterators over
  the distinct symbols of a range (\<open>occs_range\<close>, \<open>RangeDistinctIter\<close>), \<open>range_next_value\<close>,
  \<open>extract_range\<close> and \<open>extract_range_distinct\<close>: the definitions, and the correspondence of
  their stack frames with nodes of the tree.

  A stack is a list with its top first. The fixed arrays of 128 frames keep their bound: a
  push beyond it is an index out of bounds, \<open>None\<close>.
\<close>

unbundle bit_operations_syntax

section \<open>Ranges\<close>

datatype bound = Included nat | Excluded nat | Unbounded

definition range_start :: "bound \<Rightarrow> nat option" where
  "range_start b = (case b of Included s \<Rightarrow> Some s | Excluded s \<Rightarrow> add_usize s 1 | Unbounded \<Rightarrow> Some 0)"

definition range_end :: "nat \<Rightarrow> bound \<Rightarrow> nat option" where
  "range_end n b = (case b of Included e \<Rightarrow> add_usize e 1 | Excluded e \<Rightarrow> Some e | Unbounded \<Rightarrow> Some n)"

section \<open>occs_range\<close>

record occs_range_frame =
  of_start :: nat
  of_end :: nat
  of_level :: nat
  of_bit_path :: u64

definition qw_occs_push :: "'r wt_support_ops \<Rightarrow> 'r \<Rightarrow> occs_range_frame \<Rightarrow> occs_range_frame list \<Rightarrow> nat \<Rightarrow>
    occs_range_frame list option" where
  "qw_occs_push R qv cur stack b = do {
     lo \<leftarrow> w_rank_unchecked R qv b (of_start cur);
     hi \<leftarrow> w_rank_unchecked R qv b (of_end cur);
     if hi = lo then Some stack
     else do {
       offset \<leftarrow> w_occs_smaller_unchecked R qv b;
       Some (\<lparr>of_start = offset + lo, of_end = offset + hi, of_level = of_level cur + 1,
         of_bit_path = push_digit (of_bit_path cur) b\<rparr> # stack)
     }
   }"

partial_function (option) qw_occs_next :: "'r wt_support_ops \<Rightarrow> ('a::len word, 'r, 'p) qwt \<Rightarrow> occs_range_frame list \<Rightarrow>
    (('a word \<times> nat) option \<times> occs_range_frame list) option" where
  "qw_occs_next R tree stack =
     (case stack of
        [] \<Rightarrow> Some (None, [])
      | cur # rest \<Rightarrow>
          if of_level cur = qw_n_levels tree then do {
            d \<leftarrow> chk_sub (of_end cur) (of_start cur);
            Some (Some (ucast (of_bit_path cur), d), rest)
          } else do {
            qv \<leftarrow> idx (qw_qvs tree) (of_level cur);
            stack \<leftarrow> foldM (qw_occs_push R qv cur) rest (rev [0..<4]);
            qw_occs_next R tree stack
          })"

definition qw_occs_range_unchecked :: "nat \<Rightarrow> nat \<Rightarrow> occs_range_frame list" where
  "qw_occs_range_unchecked s e =
     (if s = e then [] else [\<lparr>of_start = s, of_end = e, of_level = 0, of_bit_path = 0\<rparr>])"

definition qw_occs_range :: "('a, 'r, 'p) qwt \<Rightarrow> bound \<Rightarrow> bound \<Rightarrow> occs_range_frame list option option" where
  "qw_occs_range self sb eb = do {
     s \<leftarrow> range_start sb;
     e \<leftarrow> range_end (qw_n self) eb;
     if e > qw_n self \<or> s > e then Some None
     else Some (Some (qw_occs_range_unchecked s e))
   }"

section \<open>RangeDistinctIter\<close>

record range_distinct_iter =
  rd_stack :: "occs_range_frame list"
  rd_rank_probes :: nat
  rd_frames_popped :: nat
  rd_children_pushed :: nat
  rd_empty_branches :: nat
  rd_branch_transitions :: nat
  rd_symbols_yielded :: nat

definition rd_new :: "('a, 'r, 'p) qwt \<Rightarrow> nat \<Rightarrow> nat \<Rightarrow> range_distinct_iter" where
  "rd_new tree s e =
     \<lparr>rd_stack = (if s < e \<and> e \<le> qw_n tree \<and> qw_n_levels tree > 0
         then [\<lparr>of_start = s, of_end = e, of_level = 0, of_bit_path = 0\<rparr>] else []),
       rd_rank_probes = 0, rd_frames_popped = 0, rd_children_pushed = 0, rd_empty_branches = 0,
       rd_branch_transitions = 0, rd_symbols_yielded = 0\<rparr>"

definition qw_range_distinct_iter :: "('a, 'r, 'p) qwt \<Rightarrow> nat \<Rightarrow> nat \<Rightarrow> range_distinct_iter" where
  "qw_range_distinct_iter self s e = rd_new self s e"

text \<open>The loop that collects the nonempty children of a frame, in order.\<close>

definition rd_candidate :: "'r wt_support_ops \<Rightarrow> 'r \<Rightarrow> occs_range_frame \<Rightarrow> nat list \<Rightarrow> nat list \<Rightarrow> occs_range_frame list \<Rightarrow> nat \<Rightarrow>
    occs_range_frame list option" where
  "rd_candidate R qv cur ranks_s ranks_e cands b = do {
     lo \<leftarrow> idx ranks_s b;
     hi \<leftarrow> idx ranks_e b;
     if hi > lo then do {
       offset \<leftarrow> w_occs_smaller_unchecked R qv b;
       Some (cands @ [\<lparr>of_start = offset + lo, of_end = offset + hi, of_level = of_level cur + 1,
         of_bit_path = push_digit (of_bit_path cur) b\<rparr>])
     } else Some cands
   }"

definition rd_push :: "range_distinct_iter \<Rightarrow> occs_range_frame \<Rightarrow> range_distinct_iter option" where
  "rd_push self f = do {
     guard (length (rd_stack self) < 128);
     Some (self\<lparr>rd_stack := f # rd_stack self, rd_children_pushed := rd_children_pushed self + 1,
       rd_branch_transitions := rd_branch_transitions self + 1\<rparr>)
   }"

text \<open>
  \<open>next_symbol\<close>: the first argument after the tree says whether control is at the head of the
  outer loop (\<open>None\<close>) or of the inner loop, which expands a frame in place (\<open>Some cur\<close>).
\<close>

partial_function (option) rd_next_symbol :: "'r wt_support_ops \<Rightarrow> ('a::len word, 'r, 'p) qwt \<Rightarrow> occs_range_frame option \<Rightarrow>
    range_distinct_iter \<Rightarrow> (('a word \<times> nat) option \<times> range_distinct_iter) option" where
  "rd_next_symbol R tree expanding self =
     (case expanding of
        None \<Rightarrow>
          (case rd_stack self of
             [] \<Rightarrow> Some (None, self)
           | cur # rest \<Rightarrow>
               let self = self\<lparr>rd_stack := rest, rd_frames_popped := rd_frames_popped self + 1\<rparr>
               in if of_start cur \<ge> of_end cur then rd_next_symbol R tree None self
                  else if of_level cur = qw_n_levels tree then
                    Some (Some (ucast (of_bit_path cur), of_end cur - of_start cur),
                      self\<lparr>rd_symbols_yielded := rd_symbols_yielded self + 1\<rparr>)
                  else rd_next_symbol R tree (Some cur) self)
      | Some cur \<Rightarrow> do {
          qv \<leftarrow> idx (qw_qvs tree) (of_level cur);
          ranks_s \<leftarrow> w_rank_all_unchecked R qv (of_start cur);
          ranks_e \<leftarrow> w_rank_all_unchecked R qv (of_end cur);
          cands \<leftarrow> foldM (rd_candidate R qv cur ranks_s ranks_e) [] [0..<4];
          let self = self\<lparr>rd_rank_probes := rd_rank_probes self + 2,
            rd_empty_branches := rd_empty_branches self + (4 - length cands)\<rparr>;
          case cands of
            [] \<Rightarrow> rd_next_symbol R tree None self
          | [child] \<Rightarrow>
              (let self = self\<lparr>rd_children_pushed := rd_children_pushed self + 1,
                   rd_branch_transitions := rd_branch_transitions self + 1\<rparr>
               in if of_level child = qw_n_levels tree then do {
                    d \<leftarrow> chk_sub (of_end child) (of_start child);
                    Some (Some (ucast (of_bit_path child), d), self\<lparr>rd_symbols_yielded := rd_symbols_yielded self + 1\<rparr>)
                  } else rd_next_symbol R tree (Some child) self)
          | _ \<Rightarrow> do {
              self \<leftarrow> foldM rd_push self (rev cands);
              rd_next_symbol R tree None self
            }
        })"

definition rd_next :: "'r wt_support_ops \<Rightarrow> ('a::len word, 'r, 'p) qwt \<Rightarrow> range_distinct_iter \<Rightarrow>
    (('a word \<times> nat) option \<times> range_distinct_iter) option" where
  "rd_next R tree self = rd_next_symbol R tree None self"

section \<open>range_next_value\<close>

record rnv_frame =
  rf_start :: nat
  rf_end :: nat
  rf_level :: nat
  rf_sym_lo :: nat
  rf_log2_width :: nat

definition rnv_candidate :: "'r wt_support_ops \<Rightarrow> 'r \<Rightarrow> rnv_frame \<Rightarrow> nat \<Rightarrow> nat \<Rightarrow> rnv_frame list \<Rightarrow> nat \<Rightarrow> rnv_frame list option" where
  "rnv_candidate R qv cur child_log target_us cands b = do {
     child_sym_lo \<leftarrow> add_usize (rf_sym_lo cur) (b * 2 ^ child_log);
     child_sym_hi \<leftarrow> add_usize child_sym_lo (2 ^ child_log);
     if child_sym_hi \<le> target_us then Some cands
     else do {
       lo \<leftarrow> w_rank_unchecked R qv b (rf_start cur);
       hi \<leftarrow> w_rank_unchecked R qv b (rf_end cur);
       if hi > lo then do {
         offset \<leftarrow> w_occs_smaller_unchecked R qv b;
         Some (cands @ [\<lparr>rf_start = offset + lo, rf_end = offset + hi, rf_level = rf_level cur + 1,
           rf_sym_lo = child_sym_lo, rf_log2_width = child_log\<rparr>])
       } else Some cands
     }
   }"

definition rnv_push :: "rnv_frame list \<Rightarrow> rnv_frame \<Rightarrow> rnv_frame list option" where
  "rnv_push stack f = do { guard (length stack < 128); Some (f # stack) }"

partial_function (option) rnv_loop :: "'r wt_support_ops \<Rightarrow> ('a::len word, 'r, 'p) qwt \<Rightarrow> nat \<Rightarrow> rnv_frame list \<Rightarrow>
    'a word option option" where
  "rnv_loop R self target_us stack =
     (case stack of
        [] \<Rightarrow> Some None
      | cur # rest \<Rightarrow>
          if rf_start cur \<ge> rf_end cur then rnv_loop R self target_us rest
          else if rf_log2_width cur = 0 then
            (if rf_sym_lo cur \<ge> target_us then Some (Some (of_nat (rf_sym_lo cur)))
             else rnv_loop R self target_us rest)
          else do {
            qv \<leftarrow> idx (qw_qvs self) (rf_level cur);
            child_log \<leftarrow> chk_sub (rf_log2_width cur) 2;
            guard (child_log < 64);
            cands \<leftarrow> foldM (rnv_candidate R qv cur child_log target_us) [] [0..<4];
            stack \<leftarrow> foldM rnv_push rest (rev cands);
            rnv_loop R self target_us stack
          })"

definition qw_range_next_value_unchecked :: "'r wt_support_ops \<Rightarrow> ('a::len word, 'r, 'p) qwt \<Rightarrow> nat \<Rightarrow> nat \<Rightarrow> 'a word \<Rightarrow>
    'a word option option" where
  "qw_range_next_value_unchecked R self s e target =
     rnv_loop R self (unat (as_usize target))
       [\<lparr>rf_start = s, rf_end = e, rf_level = 0, rf_sym_lo = 0, rf_log2_width = 2 * qw_n_levels self\<rparr>]"

definition qw_range_next_value :: "'r wt_support_ops \<Rightarrow> ('a::len word, 'r, 'p) qwt \<Rightarrow> nat \<Rightarrow> nat \<Rightarrow> 'a word \<Rightarrow>
    'a word option option" where
  "qw_range_next_value R self s e target =
     (if s > e \<or> e > qw_n self \<or> s = e then Some None
      else if qw_n_levels self = 0 then Some None
      else qw_range_next_value_unchecked R self s e target)"

section \<open>extract_range\<close>

definition qw_singleton_step :: "'r wt_support_ops \<Rightarrow> ('a::len word, 'r, 'p) qwt \<Rightarrow> 'a word \<times> nat \<Rightarrow> nat \<Rightarrow> ('a word \<times> nat) option" where
  "qw_singleton_step R self st level = (
     let (prefix, pos) = st
     in do {
       qv \<leftarrow> idx (qw_qvs self) level;
       dig \<leftarrow> w_get_unchecked R qv pos;
       offset \<leftarrow> w_occs_smaller_unchecked R qv dig;
       r \<leftarrow> w_rank_unchecked R qv dig pos;
       Some (push_digit prefix dig, r + offset)
     })"

definition qw_extract_singleton_from :: "'r wt_support_ops \<Rightarrow> ('a::len word, 'r, 'p) qwt \<Rightarrow> nat \<Rightarrow> nat \<Rightarrow> 'a word \<Rightarrow> 'a word option" where
  "qw_extract_singleton_from R self level pos prefix = do {
     (prefix, pos) \<leftarrow> foldM (qw_singleton_step R self) (prefix, pos) [level..<qw_n_levels self - 1];
     qv \<leftarrow> idx (qw_qvs self) (max level (qw_n_levels self - 1));
     dig \<leftarrow> w_get_unchecked R qv pos;
     Some (push_digit prefix dig)
   }"

definition digit_counts :: "nat list \<Rightarrow> nat list \<Rightarrow> nat list option" where
  "digit_counts ranks_s ranks_e = those (map (\<lambda>b. do {
     e \<leftarrow> idx ranks_e b;
     s \<leftarrow> idx ranks_s b;
     chk_sub e s
   }) [0..<4])"

text \<open>
  The recursion on the levels; \<open>fuel\<close> bounds its depth. The slices \<open>out[off..off + cnt]\<close> the
  calls fill follow each other, so a call returns the part of \<open>out\<close> it fills, of length
  \<open>out.len() = end - start\<close>.
\<close>

primrec qw_extract_sorted_rec :: "'r wt_support_ops \<Rightarrow> ('a::len word, 'r, 'p) qwt \<Rightarrow> nat \<Rightarrow> nat \<Rightarrow> nat \<Rightarrow> nat \<Rightarrow> 'a word \<Rightarrow>
    'a word list option" where
  "qw_extract_sorted_rec R self 0 = (\<lambda>level start end' prefix. None)"
| "qw_extract_sorted_rec R self (Suc fuel) = (\<lambda>level start end' prefix.
     if start \<ge> end' then Some []
     else if end' - start = 1 then do {
       v \<leftarrow> qw_extract_singleton_from R self level start prefix;
       Some [v]
     } else do {
       qv \<leftarrow> idx (qw_qvs self) level;
       ranks_s \<leftarrow> w_rank_all_unchecked R qv start;
       ranks_e \<leftarrow> w_rank_all_unchecked R qv end';
       counts \<leftarrow> digit_counts ranks_s ranks_e;
       out \<leftarrow> foldM (\<lambda>out b. do {
         cnt \<leftarrow> idx counts b;
         if cnt = 0 then Some out
         else if level + 1 = qw_n_levels self then Some (out @ replicate cnt (push_digit prefix b))
         else do {
           offset \<leftarrow> w_occs_smaller_unchecked R qv b;
           rs \<leftarrow> idx ranks_s b;
           child \<leftarrow> qw_extract_sorted_rec R self fuel (level + 1) (offset + rs) (offset + rs + cnt) (push_digit prefix b);
           Some (out @ child)
         }
       }) [] [0..<4];
       guard (length out = end' - start);
       Some out
     })"

definition qw_extract_range :: "'r wt_support_ops \<Rightarrow> ('a::len word, 'r, 'p) qwt \<Rightarrow> nat \<Rightarrow> nat \<Rightarrow> 'a word list option" where
  "qw_extract_range R self s e =
     (if s \<ge> e \<or> e > qw_n self \<or> qw_n_levels self = 0 then Some []
      else qw_extract_sorted_rec R self (qw_n_levels self) 0 s e 0)"

primrec qw_extract_distinct_rec :: "'r wt_support_ops \<Rightarrow> ('a::len word, 'r, 'p) qwt \<Rightarrow> nat \<Rightarrow> nat \<Rightarrow> nat \<Rightarrow> nat \<Rightarrow> 'a word \<Rightarrow>
    'a word list \<Rightarrow> 'a word list option" where
  "qw_extract_distinct_rec R self 0 = (\<lambda>level start end' prefix out. None)"
| "qw_extract_distinct_rec R self (Suc fuel) = (\<lambda>level start end' prefix out.
     if start \<ge> end' then Some out
     else if end' - start = 1 then do {
       v \<leftarrow> qw_extract_singleton_from R self level start prefix;
       Some (out @ [v])
     } else do {
       qv \<leftarrow> idx (qw_qvs self) level;
       ranks_s \<leftarrow> w_rank_all_unchecked R qv start;
       ranks_e \<leftarrow> w_rank_all_unchecked R qv end';
       counts \<leftarrow> digit_counts ranks_s ranks_e;
       foldM (\<lambda>out b. do {
         cnt \<leftarrow> idx counts b;
         if cnt = 0 then Some out
         else if level + 1 = qw_n_levels self then Some (out @ [push_digit prefix b])
         else do {
           offset \<leftarrow> w_occs_smaller_unchecked R qv b;
           rs \<leftarrow> idx ranks_s b;
           qw_extract_distinct_rec R self fuel (level + 1) (offset + rs) (offset + rs + cnt) (push_digit prefix b) out
         }
       }) out [0..<4]
     })"

text \<open>The buffer \<open>out\<close> of the caller is cleared first.\<close>

definition qw_extract_range_distinct_into :: "'r wt_support_ops \<Rightarrow> ('a::len word, 'r, 'p) qwt \<Rightarrow> nat \<Rightarrow> nat \<Rightarrow> 'a word list \<Rightarrow>
    'a word list option" where
  "qw_extract_range_distinct_into R self s e out =
     (let out = []
      in if s \<ge> e \<or> e > qw_n self \<or> qw_n_levels self = 0 then Some out
         else qw_extract_distinct_rec R self (qw_n_levels self) 0 s e 0 out)"

definition qw_extract_range_distinct :: "'r wt_support_ops \<Rightarrow> ('a::len word, 'r, 'p) qwt \<Rightarrow> nat \<Rightarrow> nat \<Rightarrow> 'a word list option" where
  "qw_extract_range_distinct R self s e = qw_extract_range_distinct_into R self s e []"

section \<open>Counting symbols under a prefix\<close>

definition cnt_val :: "'a::len word list \<Rightarrow> nat \<Rightarrow> nat" where
  "cnt_val ys v = length (filter (\<lambda>x. unat x = v) ys)"

text \<open>The values under prefix \<open>v\<close> of \<open>l\<close> digits that occur, in increasing order.\<close>

definition vals_under :: "nat \<Rightarrow> nat \<Rightarrow> nat \<Rightarrow> 'a::len word list \<Rightarrow> nat list" where
  "vals_under L l v ys = filter (\<lambda>w. 0 < cnt_val ys w) [v * 4 ^ (L - l)..<Suc v * 4 ^ (L - l)]"

lemma upt_split_4:
  fixes v w :: nat
  shows "[v * (4 * w)..<Suc v * (4 * w)] = concat (map (\<lambda>b. [(4 * v + b) * w..<Suc (4 * v + b) * w]) [0..<4])"
proof -
  have "[v * (4 * w)..<v * (4 * w) + n * w] = concat (map (\<lambda>b. [(4 * v + b) * w..<Suc (4 * v + b) * w]) [0..<n])" for n
  proof (induction n)
    case (Suc n)
    have "[v * (4 * w)..<v * (4 * w) + Suc n * w] = [v * (4 * w)..<v * (4 * w) + n * w] @ [v * (4 * w) + n * w..<v * (4 * w) + n * w + w]"
      using upt_add_eq_append [of "v * (4 * w)" "v * (4 * w) + n * w" w] by (simp add: add.assoc add.commute)
    then show ?case using Suc by (simp add: algebra_simps)
  qed simp
  from this [of 4] show ?thesis by (simp add: algebra_simps)
qed

lemma vals_under_split:
  assumes "l < L"
  shows "vals_under L l v ys = concat (map (\<lambda>b. vals_under L (Suc l) (4 * v + b) ys) [0..<4])"
proof -
  have "(4 :: nat) ^ (L - l) = 4 * 4 ^ (L - Suc l)" using assms by (simp add: Suc_diff_Suc flip: power_Suc)
  then show ?thesis unfolding vals_under_def by (simp only: upt_split_4 filter_concat map_map o_def)
qed

lemma cnt_val_under:
  assumes "l \<le> L" "0 < cnt_val ys w" "v * 4 ^ (L - l) \<le> w" "w < Suc v * 4 ^ (L - l)"
  shows "wm_part L l v ys \<noteq> []"
proof -
  obtain x where x: "x \<in> set ys" "unat x = w"
    using assms(2) by (auto simp: cnt_val_def length_greater_0_conv filter_empty_conv)
  have "w div 4 ^ (L - l) = v" using assms(3,4) by (intro div_nat_eqI) (simp_all add: mult.commute)
  then show ?thesis using x by (auto simp: wm_part_def wm_pre_def filter_empty_conv)
qed

lemma vals_under_empty: "l \<le> L \<Longrightarrow> wm_part L l v ys = [] \<Longrightarrow> vals_under L l v ys = []"
  unfolding vals_under_def filter_empty_conv using cnt_val_under [of l L ys _ v] by (metis atLeastLessThan_iff set_upt)

lemma vals_under_leaf: "wm_part L L v ys \<noteq> [] \<Longrightarrow> vals_under L L v ys = [v]"
  by (simp add: vals_under_def cnt_val_def wm_part_all)

lemma cnt_val_leaf: "cnt_val ys v = length (wm_part L L v ys)"
  by (simp add: cnt_val_def wm_part_all)

lemma vals_under_nonempty:
  assumes "l \<le> L" "wm_part L l v ys \<noteq> []"
  shows "vals_under L l v ys \<noteq> []"
proof -
  obtain x where x: "x \<in> set ys" "wm_pre L l x = v" using assms(2) by (auto simp: wm_part_def filter_empty_conv)
  have "v * 4 ^ (L - l) \<le> unat x" unfolding x(2) [symmetric] wm_pre_def by simp
  moreover have "unat x < Suc v * 4 ^ (L - l)"
  proof -
    have "unat x mod 4 ^ (L - l) < 4 ^ (L - l)" by simp
    then show ?thesis
      unfolding x(2) [symmetric] wm_pre_def mult_Suc using div_mult_mod_eq [of "unat x" "4 ^ (L - l)"] by linarith
  qed
  moreover have "0 < cnt_val ys (unat x)" using x(1) by (auto simp: cnt_val_def filter_empty_conv)
  ultimately show ?thesis by (auto simp: vals_under_def filter_empty_conv intro!: bexI [of _ "unat x"])
qed

text \<open>A nonempty node has a prefix that fits the symbol type.\<close>

lemma part_prefix_bound:
  assumes "wm_part L l v (ys :: 'a::len word list) \<noteq> []"
  shows "v < 2 ^ LENGTH('a)"
proof -
  obtain x where "x \<in> set ys" "wm_pre L l x = v" using assms by (auto simp: wm_part_def filter_empty_conv)
  then have "v \<le> unat x" by (auto simp: wm_pre_def)
  also have "\<dots> < 2 ^ LENGTH('a)" by (rule unsigned_less)
  finally show ?thesis .
qed

end
