(* ===== verification/QuadWTOccs.thy ===== *)
theory QuadWTOccs
  imports QuadWTRange "HOL-Library.Multiset"
begin

text \<open>
  The iterators over the distinct symbols of a range. A frame on the stack stands for the
  values under its prefix that occur in the range (\<open>frame_vals\<close>), a stack for the
  concatenation over its frames; each step returns the first of these values with its
  number of occurrences and leaves a stack for the rest. Both iterators so yield
  \<open>symbol_counts\<close> of the range: every symbol that occurs, in increasing order, with its count.
\<close>

section \<open>The result\<close>

definition symbol_counts :: "'a::len word list \<Rightarrow> ('a word \<times> nat) list" where
  "symbol_counts ys = map (\<lambda>x. (x, count_list ys x)) (sorted_list_of_set (set ys))"

lemma symbol_counts_eval: "symbol_counts ys = map (\<lambda>x. (x, count_list ys x)) (sort (remdups ys))"
  by (simp add: symbol_counts_def sorted_list_of_set_sort_remdups)

lemma cnt_val_count: "cnt_val ys (unat x) = count_list ys x"
  by (induction ys) (auto simp: cnt_val_def simp flip: word_unat_eq_iff)

lemma vals_all:
  fixes ys :: "'a::len word list"
  assumes "\<forall>x\<in>set ys. unat x < 4 ^ L"
  shows "map of_nat (vals_under L 0 0 ys) = sorted_list_of_set (set ys)"
    and "map (\<lambda>w. (of_nat w, cnt_val ys w)) (vals_under L 0 0 ys) = symbol_counts ys"
proof -
  let ?vs = "vals_under L 0 0 ys"
  have in_vs: "w \<in> set ?vs \<longleftrightarrow> w \<in> unat ` set ys" for w
  proof
    assume "w \<in> set ?vs"
    then have "filter (\<lambda>x. unat x = w) ys \<noteq> []" by (auto simp: vals_under_def cnt_val_def)
    then show "w \<in> unat ` set ys" by (auto simp: filter_empty_conv)
  next
    assume "w \<in> unat ` set ys"
    then obtain x where "x \<in> set ys" "w = unat x" by blast
    then show "w \<in> set ?vs" using assms by (auto simp: vals_under_def cnt_val_def filter_empty_conv)
  qed
  have srt: "sorted_wrt (<) ?vs" unfolding vals_under_def by (intro sorted_wrt_filter) simp
  have un: "unat (of_nat w :: 'a word) = w" if "w \<in> set ?vs" for w using in_vs [of w] that by auto
  have "sorted_wrt (<) (map of_nat ?vs :: 'a word list)"
    unfolding sorted_wrt_map by (rule sorted_wrt_mono_rel [OF _ srt]) (simp add: word_less_nat_alt un)
  then have "sorted (map of_nat ?vs :: 'a word list)" "distinct (map of_nat ?vs :: 'a word list)"
    using strict_sorted_iff by blast+
  moreover have "set (map of_nat ?vs) = set ys"
    using in_vs by (force simp: image_iff)
  ultimately show v: "map of_nat ?vs = sorted_list_of_set (set ys)"
    by (metis List.finite_set sorted_distinct_set_unique sorted_list_of_set.distinct_sorted_key_list_of_set
        sorted_list_of_set.set_sorted_key_list_of_set sorted_list_of_set.sorted_sorted_key_list_of_set)
  have "map (\<lambda>w. (of_nat w, cnt_val ys w)) ?vs = map (\<lambda>x. (x, count_list ys x)) (map of_nat ?vs)"
    by (auto simp: un simp flip: cnt_val_count)
  then show "map (\<lambda>w. (of_nat w, cnt_val ys w)) ?vs = symbol_counts ys" unfolding v symbol_counts_def .
qed

section \<open>Frames\<close>

definition frame_ok :: "nat \<Rightarrow> 'a::len word list \<Rightarrow> 'a word list \<Rightarrow> occs_range_frame \<Rightarrow> bool" where
  "frame_ok L xs ys f \<longleftrightarrow> of_level f \<le> L \<and> of_start f < of_end f
     \<and> wm_node L xs ys (of_level f) (unat (of_bit_path f)) (of_start f) (of_end f)"

definition frame_vals :: "nat \<Rightarrow> 'a::len word list \<Rightarrow> occs_range_frame \<Rightarrow> nat list" where
  "frame_vals L ys f = vals_under L (of_level f) (unat (of_bit_path f)) ys"

definition stack_vals :: "nat \<Rightarrow> 'a::len word list \<Rightarrow> occs_range_frame list \<Rightarrow> nat list" where
  "stack_vals L ys st = concat (map (frame_vals L ys) st)"

definition item :: "'a::len word list \<Rightarrow> nat \<Rightarrow> 'a word \<times> nat" where
  "item ys w = (of_nat w, cnt_val ys w)"

definition child_frame :: "nat list \<Rightarrow> occs_range_frame \<Rightarrow> nat \<Rightarrow> occs_range_frame" where
  "child_frame D f b = \<lparr>of_start = smaller_of D b + rank_of D b (of_start f), of_end = smaller_of D b + rank_of D b (of_end f),
     of_level = of_level f + 1, of_bit_path = push_digit (of_bit_path f) b\<rparr>"

definition child_frames :: "nat list \<Rightarrow> occs_range_frame \<Rightarrow> occs_range_frame list" where
  "child_frames D f = map (child_frame D f) (filter (\<lambda>b. rank_of D b (of_start f) < rank_of D b (of_end f)) [0..<4])"

lemma frame_part: "frame_ok L xs ys f \<Longrightarrow> wm_part L (of_level f) (unat (of_bit_path f)) ys \<noteq> []"
  using wm_node_size [of L xs ys "of_level f" "unat (of_bit_path f)" "of_start f" "of_end f"] by (auto simp: frame_ok_def)

lemma frame_vals_nonempty: "frame_ok L xs ys f \<Longrightarrow> frame_vals L ys f \<noteq> []"
  using frame_part [of L xs ys f] by (simp add: frame_vals_def vals_under_nonempty frame_ok_def)

lemma frame_leaf:
  assumes "frame_ok L xs ys f" "of_level f = L"
  shows "frame_vals L ys f = [unat (of_bit_path f)]" "of_end f - of_start f = cnt_val ys (unat (of_bit_path f))"
  using frame_part [OF assms(1)] wm_node_size [of L xs ys L "unat (of_bit_path f)" "of_start f" "of_end f"] assms
  by (simp_all add: frame_vals_def vals_under_leaf cnt_val_leaf [of ys _ L] frame_ok_def)

lemma child_frame_ok:
  fixes ys :: "'a::len word list"
  assumes f: "frame_ok L xs ys f" and l: "of_level f < L" and w: "LENGTH('a) \<le> 64" and b: "b < 4"
  defines "D \<equiv> wm_digits L xs (of_level f)"
  assumes ne: "rank_of D b (of_start f) < rank_of D b (of_end f)"
  shows "frame_ok L xs ys (child_frame D f b)" "unat (push_digit (of_bit_path f) b) = 4 * unat (of_bit_path f) + b"
proof -
  let ?v = "unat (of_bit_path f)"
  have node: "wm_node L xs ys (of_level f) ?v (of_start f) (of_end f)" using f by (simp add: frame_ok_def)
  have "wm_part L (Suc (of_level f)) (4 * ?v + b) ys \<noteq> []"
    using wm_node_rank [OF node l b] ne by (auto simp: D_def)
  then have "4 * ?v + b < 2 ^ LENGTH('a)" by (rule part_prefix_bound)
  also have "(2 :: nat) ^ LENGTH('a) \<le> 2 ^ 64" using w by (rule power_increasing) simp
  finally show u: "unat (push_digit (of_bit_path f) b) = 4 * ?v + b" by (intro push_digit_unat [OF b]) simp
  show "frame_ok L xs ys (child_frame D f b)"
    using wm_node_child [OF node l b] l ne by (simp add: frame_ok_def child_frame_def u D_def)
qed

lemma child_frames_ok:
  fixes ys :: "'a::len word list"
  assumes f: "frame_ok L xs ys f" and l: "of_level f < L" and w: "LENGTH('a) \<le> 64"
  defines "D \<equiv> wm_digits L xs (of_level f)"
  shows "\<forall>g\<in>set (child_frames D f). frame_ok L xs ys g \<and> of_level g = Suc (of_level f)"
    and "stack_vals L ys (child_frames D f) = frame_vals L ys f"
proof -
  show "\<forall>g\<in>set (child_frames D f). frame_ok L xs ys g \<and> of_level g = Suc (of_level f)"
    using child_frame_ok(1) [OF f l w] by (auto simp: child_frames_def D_def child_frame_def)
  let ?P = "\<lambda>b. rank_of D b (of_start f) < rank_of D b (of_end f)" and ?v = "unat (of_bit_path f)"
  have node: "wm_node L xs ys (of_level f) ?v (of_start f) (of_end f)" using f by (simp add: frame_ok_def)
  have one: "frame_vals L ys (child_frame D f b) = vals_under L (Suc (of_level f)) (4 * ?v + b) ys" if "b < 4" "?P b" for b
    using child_frame_ok(2) [OF f l w that(1)] that(2) by (simp add: frame_vals_def child_frame_def D_def)
  have none: "vals_under L (Suc (of_level f)) (4 * ?v + b) ys = []" if "b < 4" "\<not> ?P b" for b
    by (rule vals_under_empty) (use l wm_node_rank [OF node l that(1)] that(2) in \<open>auto simp: D_def\<close>)
  have drop: "concat (map g (filter P bs)) = concat (map h bs)" if "\<forall>b\<in>set bs. h b = (if P b then g b else [])"
    for g h :: "nat \<Rightarrow> nat list" and P bs using that by (induction bs) auto
  have "stack_vals L ys (child_frames D f) = concat (map (\<lambda>b. frame_vals L ys (child_frame D f b)) (filter ?P [0..<4]))"
    by (simp add: stack_vals_def child_frames_def o_def)
  also have "\<dots> = concat (map (\<lambda>b. vals_under L (Suc (of_level f)) (4 * ?v + b) ys) [0..<4])"
    by (rule drop) (use one none in auto)
  finally show "stack_vals L ys (child_frames D f) = frame_vals L ys f"
    using vals_under_split [OF l, of ?v ys] by (simp add: frame_vals_def)
qed

text \<open>A leaf frame of a symbol decodes to the symbol.\<close>

lemma leaf_item:
  fixes ys :: "'a::len word list"
  assumes "frame_ok L xs ys f" "of_level f = L"
  shows "(ucast (of_bit_path f), of_end f - of_start f) = item ys (unat (of_bit_path f))"
  using frame_leaf(2) [OF assms] by (simp add: item_def)

section \<open>occs_range\<close>

context wt_queries
begin

lemma occs_children:
  fixes xs :: "'a::len word list"
  assumes ok: "qw_ok rep self xs" "xs \<noteq> []" and f: "frame_ok (qw_n_levels self) xs ys f" "of_level f < qw_n_levels self"
  obtains r where "idx (qw_qvs self) (of_level f) = Some r" "rep r (wm_digits (qw_n_levels self) xs (of_level f))"
    "foldM (qw_occs_push R r f) rest (rev [0..<4]) = Some (child_frames (wm_digits (qw_n_levels self) xs (of_level f)) f @ rest)"
proof -
  let ?D = "wm_digits (qw_n_levels self) xs (of_level f)"
  obtain r where r: "idx (qw_qvs self) (of_level f) = Some r" "rep r ?D" using level_rep [OF ok f(2)] .
  have le: "of_start f \<le> of_end f" "of_end f \<le> length xs" using f(1) by (simp_all add: frame_ok_def wm_node_def)
  have "qw_occs_push R r f st b = Some (if rank_of ?D b (of_start f) < rank_of ?D b (of_end f) then child_frame ?D f b # st else st)"
    if "b < 4" for st b
    using r(2) that le rank_of_mono [OF le(1), of ?D b]
    by (auto simp: qw_occs_push_def rank_unchecked_rep occs_smaller_unchecked_rep child_frame_def)
  then have "foldM (qw_occs_push R r f) rest (rev [0..<4]) = Some (child_frames ?D f @ rest)"
    unfolding child_frames_def by (intro foldM_push_rev) simp
  with r show thesis by (rule that)
qed

lemma occs_next_frame:
  fixes xs :: "'a::len word list"
  assumes ok: "qw_ok rep self xs" "xs \<noteq> []" and w: "LENGTH('a) \<le> 64"
    and "frame_ok (qw_n_levels self) xs ys f" "\<forall>g\<in>set rest. frame_ok (qw_n_levels self) xs ys g"
  shows "\<exists>v vs st. frame_vals (qw_n_levels self) ys f = v # vs \<and> qw_occs_next R self (f # rest) = Some (Some (item ys v), st)
    \<and> (\<forall>g\<in>set st. frame_ok (qw_n_levels self) xs ys g)
    \<and> stack_vals (qw_n_levels self) ys st = vs @ stack_vals (qw_n_levels self) ys rest"
  using assms(4,5)
proof (induction "qw_n_levels self - of_level f" arbitrary: f rest)
  case 0
  then have l: "of_level f = qw_n_levels self" by (simp add: frame_ok_def)
  have "of_start f \<le> of_end f" using 0 by (simp add: frame_ok_def)
  then show ?case
    using 0 l frame_leaf(1) [OF 0(2) l] leaf_item [OF 0(2) l]
    by (simp add: qw_occs_next.simps [of _ _ "f # rest"])
next
  case (Suc d)
  let ?L = "qw_n_levels self"
  let ?D = "wm_digits ?L xs (of_level f)"
  have l: "of_level f < ?L" using Suc.hyps(2) by simp
  obtain r where r: "idx (qw_qvs self) (of_level f) = Some r"
    "foldM (qw_occs_push R r f) rest (rev [0..<4]) = Some (child_frames ?D f @ rest)"
    using occs_children [OF ok Suc.prems(1) l] by metis
  have step: "qw_occs_next R self (f # rest) = qw_occs_next R self (child_frames ?D f @ rest)"
    using l r by (simp add: qw_occs_next.simps [of _ _ "f # rest"] del: upt_Suc)
  note ch = child_frames_ok [OF Suc.prems(1) l w]
  have "child_frames ?D f \<noteq> []" using ch(2) frame_vals_nonempty [OF Suc.prems(1)] by (auto simp: stack_vals_def)
  then obtain g gs where g: "child_frames ?D f = g # gs" by (cases "child_frames ?D f") auto
  have gok: "frame_ok ?L xs ys g" "of_level g = Suc (of_level f)" "\<forall>h\<in>set gs. frame_ok ?L xs ys h" using ch(1) g by auto
  have "d = ?L - of_level g" using Suc.hyps(2) gok(2) by simp
  then obtain v vs st where v: "frame_vals ?L ys g = v # vs" "qw_occs_next R self (g # gs @ rest) = Some (Some (item ys v), st)"
    "\<forall>h\<in>set st. frame_ok ?L xs ys h" "stack_vals ?L ys st = vs @ stack_vals ?L ys (gs @ rest)"
    using Suc.hyps(1) [OF _ gok(1), of "gs @ rest"] gok(3) Suc.prems(2) by (metis Un_iff set_append)
  have "frame_vals ?L ys f = v # vs @ stack_vals ?L ys gs" using ch(2) g v(1) by (simp add: stack_vals_def)
  then show ?case using step g v(2-4) by (simp add: stack_vals_def)
qed

lemma occs_collect:
  fixes xs :: "'a::len word list"
  assumes "qw_ok rep self xs" "LENGTH('a) \<le> 64" "s \<le> e" "e \<le> length xs"
  shows "collect (qw_occs_next R self) (qw_occs_range_unchecked s e) = Some (symbol_counts (slice xs s e))"
proof (cases "s = e")
  case True
  have "qw_occs_next R self [] = Some (None, [])" by (simp add: qw_occs_next.simps)
  then show ?thesis using True by (simp add: qw_occs_range_unchecked_def collect_None slice_empty symbol_counts_def)
next
  case False
  let ?L = "qw_n_levels self" and ?ys = "slice xs s e"
  have ne: "xs \<noteq> []" using False assms(3,4) by auto
  note lev = qw_ok_levels [OF assms(1) ne]
  let ?f = "\<lparr>of_start = s, of_end = e, of_level = 0, of_bit_path = 0\<rparr>"
  have f: "frame_ok ?L xs ?ys ?f"
    using wm_node_root [OF assms(3,4) lev(2)] False assms(3) by (simp add: frame_ok_def)
  have "collect (qw_occs_next R self) [?f] = Some (map (item ?ys) (stack_vals ?L ?ys [?f]))"
  proof (rule collect_den [where I = "\<lambda>st. \<forall>g\<in>set st. frame_ok ?L xs ?ys g" and den = "\<lambda>st. map (item ?ys) (stack_vals ?L ?ys st)"])
    fix st assume st: "\<forall>g\<in>set st. frame_ok ?L xs ?ys g"
    { assume "map (item ?ys) (stack_vals ?L ?ys st) = []"
      then have "st = []" using st frame_vals_nonempty by (cases st) (auto simp: stack_vals_def)
      then show "\<exists>s'. qw_occs_next R self st = Some (None, s')" by (simp add: qw_occs_next.simps) }
    fix x ws assume x: "map (item ?ys) (stack_vals ?L ?ys st) = x # ws"
    then obtain g rest where g: "st = g # rest" by (cases st) (auto simp: stack_vals_def)
    then show "\<exists>s'. qw_occs_next R self st = Some (Some x, s') \<and> (\<forall>g\<in>set s'. frame_ok ?L xs ?ys g)
        \<and> map (item ?ys) (stack_vals ?L ?ys s') = ws"
      using occs_next_frame [OF assms(1) ne assms(2), of ?ys g rest] st x by (auto simp: stack_vals_def)
  qed (use f in simp)
  moreover have "\<forall>x\<in>set ?ys. unat x < 4 ^ ?L" using lev(2) by (auto simp: slice_def dest!: in_set_takeD in_set_dropD)
  then have "map (item ?ys) (vals_under ?L 0 0 ?ys) = symbol_counts ?ys"
    using vals_all(2) by (simp add: item_def [abs_def])
  ultimately show ?thesis using False by (simp add: qw_occs_range_unchecked_def stack_vals_def frame_vals_def)
qed

end

end
