(* ===== verification/QuadWTDistinct.thy ===== *)
theory QuadWTDistinct
  imports QuadWTOccs
begin

text \<open>
  \<open>RangeDistinctIter\<close>: the same items as \<open>occs_range\<close> from a stack of bounded depth. A frame of
  level \<open>l\<close> has at most \<open>3 l\<close> frames below it (\<open>depth_ok\<close>, on the levels of the stack), so with 32 levels at most 97 of
  the 128 slots are live and no push leaves the array.
\<close>

fun depth_ok :: "nat list \<Rightarrow> bool" where
  "depth_ok [] = True"
| "depth_ok (l # rest) = (length rest \<le> 3 * l \<and> depth_ok rest)"

lemma concat_if: "concat (map (\<lambda>b. if P b then [g b] else []) bs) = map g (filter P bs)"
  by (induction bs) auto

lemma depth_ok_push:
  assumes "depth_ok rest" "\<forall>g\<in>set ls. g = Suc l" "length rest \<le> 3 * l" "length ls \<le> 4"
  shows "depth_ok (ls @ rest)"
proof -
  have "depth_ok (hs @ rest)" if "\<forall>g\<in>set hs. g = Suc l" "length hs \<le> 4" for hs
    using that by (induction hs) (use assms(1,3) in auto)
  then show ?thesis using assms(2,4) by blast
qed

lemma rd_push_all:
  assumes "length (rd_stack self) + length gs \<le> 128"
  shows "\<exists>self'. foldM rd_push self (rev gs) = Some self' \<and> rd_stack self' = gs @ rd_stack self"
  using assms
proof (induction gs)
  case (Cons g gs)
  then obtain s where s: "foldM rd_push self (rev gs) = Some s" "rd_stack s = gs @ rd_stack self" by auto
  have "\<exists>s'. rd_push s g = Some s' \<and> rd_stack s' = g # rd_stack s" using Cons.prems s(2) by (simp add: rd_push_def)
  then show ?case using s by (auto simp: foldM_append)
qed simp

context wt_queries
begin

lemma rd_children:
  fixes xs :: "'a::len word list"
  assumes ok: "qw_ok rep self xs" "xs \<noteq> []" and f: "frame_ok (qw_n_levels self) xs ys f" "of_level f < qw_n_levels self"
  obtains r rs re where "idx (qw_qvs self) (of_level f) = Some r"
    "w_rank_all_unchecked R r (of_start f) = Some rs" "w_rank_all_unchecked R r (of_end f) = Some re"
    "foldM (rd_candidate R r f rs re) [] [0..<4] = Some (child_frames (wm_digits (qw_n_levels self) xs (of_level f)) f)"
proof -
  let ?D = "wm_digits (qw_n_levels self) xs (of_level f)"
  let ?rs = "map (\<lambda>c. rank_of ?D c (of_start f)) [0..<4]" and ?re = "map (\<lambda>c. rank_of ?D c (of_end f)) [0..<4]"
  obtain r where r: "idx (qw_qvs self) (of_level f) = Some r" "rep r ?D" using level_rep [OF ok f(2)] .
  have le: "of_start f \<le> of_end f" "of_end f \<le> length xs" using f(1) by (simp_all add: frame_ok_def wm_node_def)
  then have rk: "w_rank_all_unchecked R r (of_start f) = Some ?rs" "w_rank_all_unchecked R r (of_end f) = Some ?re"
    using r(2) by (simp_all add: rank_all_rep)
  have "rd_candidate R r f ?rs ?re cands b = Some (cands @
      (if rank_of ?D b (of_start f) < rank_of ?D b (of_end f) then [child_frame ?D f b] else []))"
    if "b < 4" for cands b
    using r(2) that by (simp add: rd_candidate_def occs_smaller_unchecked_rep child_frame_def)
  then have "foldM (rd_candidate R r f ?rs ?re) [] [0..<4] = Some ([] @ concat (map (\<lambda>b.
      if rank_of ?D b (of_start f) < rank_of ?D b (of_end f) then [child_frame ?D f b] else []) [0..<4]))"
    by (intro foldM_append_map) simp
  then show thesis using that r(1) rk by (simp add: concat_if child_frames_def del: upt_Suc)
qed

lemma rd_expand:
  fixes xs :: "'a::len word list"
  assumes ok: "qw_ok rep tree xs" "xs \<noteq> []" and w: "LENGTH('a) \<le> 64"
    and "frame_ok (qw_n_levels tree) xs ys f" "of_level f < qw_n_levels tree"
    and "\<forall>g\<in>set (rd_stack self). frame_ok (qw_n_levels tree) xs ys g" "depth_ok (map of_level (rd_stack self))"
    and "length (rd_stack self) \<le> 3 * of_level f"
  shows "\<exists>v vs self'. frame_vals (qw_n_levels tree) ys f = v # vs
    \<and> rd_next_symbol R tree (Some f) self = Some (Some (item ys v), self')
    \<and> (\<forall>g\<in>set (rd_stack self'). frame_ok (qw_n_levels tree) xs ys g) \<and> depth_ok (map of_level (rd_stack self'))
    \<and> stack_vals (qw_n_levels tree) ys (rd_stack self') = vs @ stack_vals (qw_n_levels tree) ys (rd_stack self)"
  using assms(4-)
proof (induction "qw_n_levels tree - of_level f" arbitrary: f self)
  case (Suc d)
  let ?L = "qw_n_levels tree"
  let ?D = "wm_digits ?L xs (of_level f)"
  have L32: "?L \<le> 32" using qw_ok_levels(3) [OF ok] w by simp
  obtain r rs re where r: "idx (qw_qvs tree) (of_level f) = Some r"
    "w_rank_all_unchecked R r (of_start f) = Some rs" "w_rank_all_unchecked R r (of_end f) = Some re"
    "foldM (rd_candidate R r f rs re) [] [0..<4] = Some (child_frames ?D f)"
    by (rule rd_children [OF ok Suc.prems(1,2)])
  note ch = child_frames_ok [OF Suc.prems(1,2) w]
  define s1 where "s1 = self\<lparr>rd_rank_probes := rd_rank_probes self + 2,
      rd_empty_branches := rd_empty_branches self + (4 - length (child_frames ?D f))\<rparr>"
  have s1: "rd_stack s1 = rd_stack self" by (simp add: s1_def)
  have "child_frames ?D f \<noteq> []" using ch(2) frame_vals_nonempty [OF Suc.prems(1)] by (auto simp: stack_vals_def)
  then consider (one) g where "child_frames ?D f = [g]" | (more) g h gs where "child_frames ?D f = g # h # gs"
    by (cases "child_frames ?D f" rule: remdups_adj.cases) auto
  then show ?case
  proof cases
    case one
    define s2 where "s2 = s1\<lparr>rd_children_pushed := rd_children_pushed s1 + 1,
        rd_branch_transitions := rd_branch_transitions s1 + 1\<rparr>"
    have s2: "rd_stack s2 = rd_stack self" by (simp add: s2_def s1)
    have g: "frame_ok ?L xs ys g" "of_level g = Suc (of_level f)" using ch(1) one by auto
    have vals: "frame_vals ?L ys f = frame_vals ?L ys g" using ch(2) one by (simp add: stack_vals_def)
    show ?thesis
    proof (cases "of_level g = ?L")
      case True
      have "of_start g \<le> of_end g" using g(1) by (simp add: frame_ok_def)
      then have "rd_next_symbol R tree (Some f) self
          = Some (Some (item ys (unat (of_bit_path g))), s2\<lparr>rd_symbols_yielded := rd_symbols_yielded s2 + 1\<rparr>)"
        using r one True leaf_item [OF g(1) True]
        by (simp add: rd_next_symbol.simps [of _ _ "Some f"] Let_def s1_def s2_def del: upt_Suc)
      then show ?thesis using vals frame_leaf(1) [OF g(1) True] Suc.prems(3,4) s2 by simp
    next
      case False
      then have lt: "of_level g < ?L" using g by (simp add: frame_ok_def)
      have step: "rd_next_symbol R tree (Some f) self = rd_next_symbol R tree (Some g) s2"
        using r one False by (simp add: rd_next_symbol.simps [of _ _ "Some f"] Let_def s1_def s2_def del: upt_Suc)
      show ?thesis
        unfolding step vals s2 [symmetric]
        by (rule Suc.hyps(1)) (use Suc.hyps(2) g lt Suc.prems s2 in auto)
    qed
  next
    case more
    let ?gs = "g # h # gs"
    have gs: "\<forall>c\<in>set ?gs. frame_ok ?L xs ys c \<and> of_level c = Suc (of_level f)" using ch(1) more by simp
    have len4: "length ?gs \<le> 4"
      unfolding more [symmetric] child_frames_def using length_filter_le [of _ "[0..<4]"] by simp
    have "length (rd_stack s1) + length ?gs \<le> 128" using Suc.prems(2,5) L32 len4 s1 by simp
    then obtain s2 where s2: "foldM rd_push s1 (rev ?gs) = Some s2" "rd_stack s2 = ?gs @ rd_stack self"
      using rd_push_all [of s1 ?gs] s1 by auto
    have dep: "depth_ok (map of_level ?gs @ map of_level (rd_stack self))"
      by (rule depth_ok_push [OF Suc.prems(4), of _ "of_level f"]) (use gs Suc.prems(5) len4 in auto)
    define s3 where "s3 = s2\<lparr>rd_stack := h # gs @ rd_stack self, rd_frames_popped := rd_frames_popped s2 + 1\<rparr>"
    have s3: "rd_stack s3 = h # gs @ rd_stack self" by (simp add: s3_def)
    have g: "frame_ok ?L xs ys g" "of_level g = Suc (of_level f)" "of_start g < of_end g" using gs by (auto simp: frame_ok_def)
    have step: "rd_next_symbol R tree (Some f) self = rd_next_symbol R tree None s2"
      using r more s2(1) by (simp add: rd_next_symbol.simps [of _ _ "Some f"] Let_def s1_def del: upt_Suc foldM.simps rev.simps)
    have st3: "\<forall>c\<in>set (rd_stack s3). frame_ok ?L xs ys c" "depth_ok (map of_level (rd_stack s3))" "length (rd_stack s3) \<le> 3 * of_level g"
      using gs Suc.prems(3) dep s3 by auto
    have vals: "frame_vals ?L ys f = frame_vals ?L ys g @ stack_vals ?L ys (h # gs)"
      using ch(2) more by (simp add: stack_vals_def)
    show ?thesis
    proof (cases "of_level g = ?L")
      case True
      have "rd_next_symbol R tree None s2
          = Some (Some (item ys (unat (of_bit_path g))), s3\<lparr>rd_symbols_yielded := rd_symbols_yielded s3 + 1\<rparr>)"
        using s2(2) g(3) True leaf_item [OF g(1) True]
        by (simp add: rd_next_symbol.simps [of _ _ None] Let_def s3_def)
      then show ?thesis
        using step vals frame_leaf(1) [OF g(1) True] st3 s3 by (simp add: stack_vals_def)
    next
      case False
      then have lt: "of_level g < ?L" using g by (simp add: frame_ok_def)
      have step2: "rd_next_symbol R tree None s2 = rd_next_symbol R tree (Some g) s3"
        using s2(2) g(3) False by (simp add: rd_next_symbol.simps [of _ _ None] Let_def s3_def)
      have d: "d = ?L - of_level g" using Suc.hyps(2) g(2) by simp
      obtain v vs self' where v: "frame_vals ?L ys g = v # vs" "rd_next_symbol R tree (Some g) s3 = Some (Some (item ys v), self')"
        "\<forall>c\<in>set (rd_stack self'). frame_ok ?L xs ys c" "depth_ok (map of_level (rd_stack self'))"
        "stack_vals ?L ys (rd_stack self') = vs @ stack_vals ?L ys (rd_stack s3)"
        using Suc.hyps(1) [OF d g(1) lt st3] by metis
      then show ?thesis using step step2 vals s3 by (simp add: stack_vals_def)
    qed
  qed
qed simp

lemma rd_collect:
  fixes xs :: "'a::len word list"
  assumes "qw_ok rep tree xs" "LENGTH('a) \<le> 64"
  shows "collect (rd_next R tree) (rd_new tree s e)
    = Some (if s < e \<and> e \<le> length xs then symbol_counts (slice xs s e) else [])"
proof (cases "s < e \<and> e \<le> length xs")
  case False
  then have "rd_stack (rd_new tree s e) = []" using assms(1) by (auto simp: rd_new_def qw_ok_def)
  then have "rd_next R tree (rd_new tree s e) = Some (None, rd_new tree s e)"
    by (simp add: rd_next_def rd_next_symbol.simps)
  then show ?thesis using False by (simp only: collect_None if_False)
next
  case True
  let ?L = "qw_n_levels tree" and ?ys = "slice xs s e"
  have ne: "xs \<noteq> []" using True by auto
  note lev = qw_ok_levels [OF assms(1) ne]
  let ?f = "\<lparr>of_start = s, of_end = e, of_level = 0, of_bit_path = 0\<rparr>"
  let ?I = "\<lambda>it :: range_distinct_iter. (\<forall>g\<in>set (rd_stack it). frame_ok ?L xs ?ys g) \<and> depth_ok (map of_level (rd_stack it))"
  have f: "frame_ok ?L xs ?ys ?f"
    using wm_node_root [of s e xs ?L] lev(2) True by (simp add: frame_ok_def)
  have st0: "rd_stack (rd_new tree s e) = [?f]" using True lev(1,7) by (simp add: rd_new_def)
  have "collect (rd_next R tree) (rd_new tree s e) = Some (map (item ?ys) (stack_vals ?L ?ys (rd_stack (rd_new tree s e))))"
  proof (rule collect_den [where I = ?I and den = "\<lambda>it :: range_distinct_iter. map (item ?ys) (stack_vals ?L ?ys (rd_stack it))"])
    fix it :: range_distinct_iter assume it: "?I it"
    { assume "map (item ?ys) (stack_vals ?L ?ys (rd_stack it)) = []"
      then have "rd_stack it = []" using it frame_vals_nonempty by (cases "rd_stack it") (auto simp: stack_vals_def)
      then show "\<exists>s'. rd_next R tree it = Some (None, s')" by (simp add: rd_next_def rd_next_symbol.simps) }
    fix x ws assume x: "map (item ?ys) (stack_vals ?L ?ys (rd_stack it)) = x # ws"
    then obtain g rest where g: "rd_stack it = g # rest" by (cases "rd_stack it") (auto simp: stack_vals_def)
    have gok: "frame_ok ?L xs ?ys g" "of_start g < of_end g" using it g by (auto simp: frame_ok_def)
    define it1 where "it1 = it\<lparr>rd_stack := rest, rd_frames_popped := rd_frames_popped it + 1\<rparr>"
    have it1: "rd_stack it1 = rest" by (simp add: it1_def)
    show "\<exists>s'. rd_next R tree it = Some (Some x, s') \<and> ?I s' \<and> map (item ?ys) (stack_vals ?L ?ys (rd_stack s')) = ws"
    proof (cases "of_level g = ?L")
      case True
      have "rd_next R tree it = Some (Some (item ?ys (unat (of_bit_path g))), it1\<lparr>rd_symbols_yielded := rd_symbols_yielded it1 + 1\<rparr>)"
        using g gok(2) True leaf_item [OF gok(1) True]
        by (simp add: rd_next_def rd_next_symbol.simps [of _ _ None] Let_def it1_def)
      then show ?thesis using x g frame_leaf(1) [OF gok(1) True] it it1 by (simp add: stack_vals_def)
    next
      case False
      then have lt: "of_level g < ?L" using gok by (simp add: frame_ok_def)
      have step: "rd_next R tree it = rd_next_symbol R tree (Some g) it1"
        using g gok(2) False by (simp add: rd_next_def rd_next_symbol.simps [of _ _ None] Let_def it1_def)
      show ?thesis
        unfolding step using rd_expand [OF assms(1) ne assms(2) gok(1) lt, of it1] it g it1 x
        by (auto simp: stack_vals_def)
    qed
  qed (use f st0 in simp)
  moreover have "\<forall>x\<in>set ?ys. unat x < 4 ^ ?L" using lev(2) by (auto simp: slice_def dest!: in_set_takeD in_set_dropD)
  then have "map (item ?ys) (vals_under ?L 0 0 ?ys) = symbol_counts ?ys"
    using vals_all(2) by (simp add: item_def [abs_def])
  ultimately show ?thesis using True st0 by (simp add: stack_vals_def frame_vals_def)
qed

end

end
