(* ===== verification/QuadWTExtract.thy ===== *)
theory QuadWTExtract
  imports QuadWTDistinct "HOL-Library.Multiset"
begin

text \<open>
  \<open>extract_range\<close>, \<open>extract_range_distinct\<close> and \<open>range_next_value\<close>. A recursive call on the node of
  prefix \<open>v\<close> at level \<open>l\<close> emits the values under the prefix (\<open>vals_under\<close>), with their multiplicity
  or once; at the root these are the sorted slice and its distinct symbols. The guided search for a
  successor returns the first value under its stack that is not below the target; it needs fewer
  than 32 levels, since with 32 the upper end of the alphabet is not a \<open>usize\<close>.
\<close>

section \<open>Values under a node\<close>

lemma vals_under_singleton:
  assumes "l \<le> L" "wm_part L l v ys = [x]"
  shows "vals_under L l v ys = [unat x]" "cnt_val ys (unat x) = 1"
proof -
  let ?w = "4 ^ (L - l) :: nat"
  have v: "unat x div ?w = v" using assms(2) by (auto simp: wm_part_def wm_pre_def dest: filter_eq_ConsD)
  have part: "cnt_val ys u = length (filter (\<lambda>y. unat y = u) (wm_part L l v ys))" if "u div ?w = v" for u
    using that by (auto simp: cnt_val_def wm_part_def wm_pre_def intro!: arg_cong [where f = length] filter_cong)
  then show "cnt_val ys (unat x) = 1" using assms(2) v by simp
  have range: "v * ?w \<le> unat x" "unat x < Suc v * ?w"
    using div_times_less_eq_dividend [of "unat x" ?w] dividend_less_div_times [of ?w "unat x"] unfolding v by simp_all
  have "0 < cnt_val ys u \<longleftrightarrow> u = unat x" if "v * ?w \<le> u" "u < Suc v * ?w" for u
  proof -
    have "u div ?w = v" using that by (intro div_nat_eqI) (simp_all add: mult.commute)
    then show ?thesis using part assms(2) by auto
  qed
  then have "vals_under L l v ys = filter (\<lambda>u. u = unat x) [v * ?w..<Suc v * ?w]"
    unfolding vals_under_def by (intro filter_cong) auto
  also have "\<dots> = [unat x]"
  proof -
    have "[v * ?w..<Suc v * ?w] = [v * ?w..<unat x] @ [unat x..<Suc v * ?w]"
      using range upt_add_eq_append [of "v * ?w" "unat x" "Suc v * ?w - unat x"] by simp
    then show ?thesis using range(2) by (simp add: upt_conv_Cons filter_empty_conv)
  qed
  finally show "vals_under L l v ys = [unat x]" .
qed

lemma wm_part_children:
  assumes "l < L"
  shows "length (wm_part L l v ys) = sum_list (map (\<lambda>d. length (wm_part L (Suc l) (4 * v + d) ys)) [0..<4])"
proof -
  have "length (wm_part L l v ys) = length (buckets (qdigit (2 * (L - 1 - l))) 4 (wm_part L l v ys))"
    by (simp add: length_buckets)
  also have "\<dots> = sum_list (map (\<lambda>d. length (wm_part L (Suc l) (4 * v + d) ys)) [0..<4])"
    unfolding buckets_def length_concat map_map o_def
    by (rule arg_cong [where f = sum_list], rule map_cong) (simp_all add: wm_part_Suc [OF assms])
  finally show ?thesis .
qed

lemma sum_list_map_concat: "sum_list (map f (concat xss)) = sum_list (map (\<lambda>xs. sum_list (map f xs)) xss)"
  by (induction xss) auto

lemma vals_under_sum: "l \<le> L \<Longrightarrow> sum_list (map (cnt_val ys) (vals_under L l v ys)) = length (wm_part L l v ys)"
proof (induction "L - l" arbitrary: l v)
  case 0
  then have "l = L" by simp
  then show ?case
    by (cases "wm_part L L v ys = []") (simp_all add: vals_under_empty vals_under_leaf flip: cnt_val_leaf)
next
  case (Suc d)
  then have l: "l < L" by simp
  have "sum_list (map (cnt_val ys) (vals_under L (Suc l) (4 * v + b) ys)) = length (wm_part L (Suc l) (4 * v + b) ys)" for b
    using Suc.hyps l by simp
  then show ?case unfolding vals_under_split [OF l] wm_part_children [OF l] sum_list_map_concat map_map o_def by simp
qed

lemma word_of_child: "unat p = k \<Longrightarrow> of_nat k = p"
  by auto

text \<open>The values with their multiplicities are the sorted list.\<close>

definition spread :: "'a::len word list \<Rightarrow> nat \<Rightarrow> 'a word list" where
  "spread ys w = replicate (cnt_val ys w) (of_nat w)"

lemma length_concat_spread: "length (concat (map (spread ys) ws)) = sum_list (map (cnt_val ys) ws)"
  by (induction ws) (auto simp: spread_def)

lemma set_vals_under:
  fixes ys :: "'a::len word list"
  assumes "\<forall>x\<in>set ys. unat x < 4 ^ L"
  shows "w \<in> set (vals_under L 0 0 ys) \<longleftrightarrow> 0 < cnt_val ys w" "0 < cnt_val ys w \<Longrightarrow> w < 2 ^ LENGTH('a)"
proof -
  have "w < 4 ^ L \<and> w < 2 ^ LENGTH('a)" if pos: "0 < cnt_val ys w"
  proof -
    obtain x where "x \<in> set ys" "unat x = w"
      using pos by (auto simp: cnt_val_def length_greater_0_conv filter_empty_conv)
    then show ?thesis using assms unsigned_less [of x, where 'a = nat] by auto
  qed
  then show "w \<in> set (vals_under L 0 0 ys) \<longleftrightarrow> 0 < cnt_val ys w" "0 < cnt_val ys w \<Longrightarrow> w < 2 ^ LENGTH('a)"
    by (auto simp: vals_under_def)
qed

lemma vals_spread:
  fixes ys :: "'a::len word list"
  assumes "\<forall>x\<in>set ys. unat x < 4 ^ L"
  shows "concat (map (spread ys) (vals_under L 0 0 ys)) = sort ys"
proof (rule properties_for_sort [symmetric])
  let ?vs = "vals_under L 0 0 ys"
  note vs = set_vals_under [OF assms]
  have srt: "sorted_wrt (<) ?vs" unfolding vals_under_def by (intro sorted_wrt_filter) simp
  have "sorted (concat (map (spread ys) ws))" if "sorted_wrt (<) ws" "\<forall>w\<in>set ws. w < 2 ^ LENGTH('a)" for ws
    using that
  proof (induction ws)
    case (Cons w ws)
    have "of_nat w \<le> (of_nat u :: 'a word)" if "u \<in> set ws" for u
      using Cons.prems that by (auto simp: word_le_nat_alt unat_of_nat_small)
    then show ?case using Cons by (auto simp: sorted_append spread_def)
  qed simp
  then show "sorted (concat (map (spread ys) ?vs))" using srt vs by blast
  show "mset (concat (map (spread ys) ?vs)) = mset ys"
  proof (rule multiset_eqI)
    fix x
    have "count (mset (concat (map (spread ys) ws))) x = sum_list (map (\<lambda>w. if w = unat x then cnt_val ys w else 0) ws)"
      if "\<forall>w\<in>set ws. w < 2 ^ LENGTH('a)" for ws
      using that by (induction ws) (auto simp: spread_def count_mset unat_of_nat_small)
    then have "count (mset (concat (map (spread ys) ?vs))) x = sum_list (map (\<lambda>w. if w = unat x then cnt_val ys w else 0) ?vs)"
      using vs by blast
    also have "\<dots> = (\<Sum>w\<in>set ?vs. if w = unat x then cnt_val ys w else 0)"
      using strict_sorted_iff [of ?vs] srt by (simp add: sum_list_distinct_conv_sum_set)
    also have "\<dots> = cnt_val ys (unat x)" using vs(1) by (simp add: sum.delta)
    also have "\<dots> = count (mset ys) x" by (simp add: cnt_val_count count_mset)
    finally show "count (mset (concat (map (spread ys) ?vs))) x = count (mset ys) x" .
  qed
qed

section \<open>The two extractions\<close>

context wt_queries
begin

lemma singleton_from_eq:
  fixes xs :: "'a::len word list"
  assumes ok: "qw_ok rep self xs" "xs \<noteq> []" and l: "l < qw_n_levels self"
    and p: "pos < length xs" "unat prefix = wm_pre (qw_n_levels self) l (wm_level (qw_n_levels self) xs l ! pos)"
  shows "qw_extract_singleton_from R self l pos prefix = Some (wm_level (qw_n_levels self) xs l ! pos)"
proof -
  let ?L = "qw_n_levels self"
  let ?x = "wm_level ?L xs l ! pos"
  let ?Inv = "\<lambda>k st. snd st < length xs \<and> wm_level ?L xs k ! snd st = ?x \<and> unat (fst st) = wm_pre ?L k ?x"
  have digit: "wm_digits ?L xs k ! q = qdigit (2 * (?L - 1 - k)) ?x" if "q < length xs" "wm_level ?L xs k ! q = ?x" for k q
    using that by (simp add: nth_wm_digits)
  have step: "\<exists>st'. qw_singleton_step R self st k = Some st' \<and> ?Inv (Suc k) st'"
    if "l \<le> k" "k < ?L - 1" "?Inv k st" for k st
  proof -
    obtain pre q where st: "st = (pre, q)" by (cases st)
    then have inv: "q < length xs" "wm_level ?L xs k ! q = ?x" "unat pre = wm_pre ?L k ?x" using that(3) by simp_all
    have k: "k < ?L" using that(2) by simp
    obtain r where r: "idx (qw_qvs self) k = Some r" "rep r (wm_digits ?L xs k)" using level_rep [OF ok k] .
    let ?D = "wm_digits ?L xs k"
    have d: "?D ! q < 4" using inv(1) by (simp add: nth_wm_digits)
    have "qw_singleton_step R self st k = Some (push_digit pre (?D ! q), rank_of ?D (?D ! q) q + smaller_of ?D (?D ! q))"
      using r inv(1) d by (simp add: st qw_singleton_step_def get_unchecked_rep rank_unchecked_rep occs_smaller_unchecked_rep)
    then show ?thesis
      using wm_descend [OF inv(1), where L = ?L and l = k] push_digit_pre [OF k inv(3)] digit [OF inv(1,2)] inv(2)
      by (simp add: add.commute)
  qed
  have init: "?Inv l (prefix, pos)" using p by simp
  obtain st where st: "foldM (qw_singleton_step R self) (prefix, pos) [l..<?L - 1] = Some st" "?Inv (?L - 1) st"
  proof (rule exE [OF foldM_from_inv [of l "?L - 1" ?Inv "(prefix, pos)" "qw_singleton_step R self"]])
    show "l \<le> ?L - 1" using l by simp
  qed (use init step that in blast)+
  obtain pre q where q: "st = (pre, q)" by (cases st)
  have lst: "?L - 1 < ?L" "max l (?L - 1) = ?L - 1" "Suc (?L - 1) = ?L" using l by auto
  obtain r where r: "idx (qw_qvs self) (?L - 1) = Some r" "rep r (wm_digits ?L xs (?L - 1))" using level_rep [OF ok lst(1)] .
  have "unat (push_digit pre (qdigit (2 * (?L - 1 - (?L - 1))) ?x)) = wm_pre ?L (Suc (?L - 1)) ?x"
    by (rule push_digit_pre [OF lst(1)]) (use st(2) q in simp)
  then have "push_digit pre (qdigit 0 ?x) = ?x" unfolding lst(3) by (simp add: word_unat_eq_iff)
  then show ?thesis
    using st r q lst(2) digit [of q "?L - 1"] by (simp add: qw_extract_singleton_from_def get_unchecked_rep)
qed

lemma node_counts:
  fixes xs :: "'a::len word list"
  assumes ok: "qw_ok rep self xs" "xs \<noteq> []" and l: "l < qw_n_levels self" and node: "wm_node (qw_n_levels self) xs ys l v b e"
  obtains r rs re where "idx (qw_qvs self) l = Some r" "rep r (wm_digits (qw_n_levels self) xs l)"
    "w_rank_all_unchecked R r b = Some (map (\<lambda>d. rank_of (wm_digits (qw_n_levels self) xs l) d b) [0..<4])"
    "w_rank_all_unchecked R r e = Some re"
    "digit_counts (map (\<lambda>d. rank_of (wm_digits (qw_n_levels self) xs l) d b) [0..<4]) re
      = Some (map (\<lambda>d. length (wm_part (qw_n_levels self) (Suc l) (4 * v + d) ys)) [0..<4])"
proof -
  let ?L = "qw_n_levels self"
  let ?D = "wm_digits ?L xs l"
  let ?rs = "map (\<lambda>d. rank_of ?D d b) [0..<4]" and ?re = "map (\<lambda>d. rank_of ?D d e) [0..<4]"
  obtain r where r: "idx (qw_qvs self) l = Some r" "rep r ?D" using level_rep [OF ok l] .
  have be: "b \<le> e" "e \<le> length xs" using node by (simp_all add: wm_node_def)
  have "digit_counts ?rs ?re = Some (map (\<lambda>d. length (wm_part ?L (Suc l) (4 * v + d) ys)) [0..<4])"
    unfolding digit_counts_def by (rule those_map_Some) (use wm_node_rank [OF node l] in auto)
  then show thesis using that r be rank_all_rep by simp
qed

text \<open>The shape the two recursions share: \<open>emit\<close> is what they append for the values of a child.\<close>

lemma node_loop:
  fixes xs :: "'a::len word list" and g :: "nat \<Rightarrow> 'a word list"
  assumes w: "LENGTH('a) \<le> 64" and l: "l < L" and node: "wm_node L xs ys l v b e" and pre: "unat prefix = v"
    and f: "\<And>d out. d < 4 \<Longrightarrow> wm_part L (Suc l) (4 * v + d) ys \<noteq> [] \<Longrightarrow>
      unat (push_digit prefix d :: 'a word) = 4 * v + d \<Longrightarrow> f out d = Some (out @ concat (map g (vals_under L (Suc l) (4 * v + d) ys)))"
    and f0: "\<And>d out. d < 4 \<Longrightarrow> wm_part L (Suc l) (4 * v + d) ys = [] \<Longrightarrow> f out d = Some out"
  shows "foldM f out [0..<4] = Some (out @ concat (map g (vals_under L l v ys)))"
proof -
  have "f out d = Some (out @ concat (map g (vals_under L (Suc l) (4 * v + d) ys)))" if "d \<in> set [0..<4]" for out d
  proof (cases "wm_part L (Suc l) (4 * v + d) ys = []")
    case True
    then have "vals_under L (Suc l) (4 * v + d) ys = []" using l by (intro vals_under_empty) simp_all
    then show ?thesis using f0 [OF _ True] that by simp
  next
    case False
    from part_prefix_bound [OF this] have "4 * unat prefix + d < 2 ^ LENGTH('a)" using pre by simp
    then show ?thesis using f [OF _ False] that pre push_digit_unat [of d prefix] by simp
  qed
  then have "foldM f out [0..<4] = Some (out @ concat (map (\<lambda>d. concat (map g (vals_under L (Suc l) (4 * v + d) ys))) [0..<4]))"
    by (rule foldM_append_map)
  then show ?thesis unfolding vals_under_split [OF l] by (simp add: upt_4)
qed

lemma node_one:
  fixes xs :: "'a::len word list"
  assumes ok: "qw_ok rep self xs" "xs \<noteq> []" and l: "l < qw_n_levels self"
    and node: "wm_node (qw_n_levels self) xs ys l (unat prefix) b e" and "e - b = 1"
  obtains x where "wm_part (qw_n_levels self) l (unat prefix) ys = [x]" "qw_extract_singleton_from R self l b prefix = Some x"
proof -
  let ?L = "qw_n_levels self"
  have be: "b < length xs" "e = Suc b" "e \<le> length xs" using node assms(5) by (auto simp: wm_node_def)
  let ?x = "wm_level ?L xs l ! b"
  have "slice (wm_level ?L xs l) b e = [?x]" using be by (simp add: slice_def Cons_nth_drop_Suc [symmetric])
  then have part: "wm_part ?L l (unat prefix) ys = [?x]" using node by (simp add: wm_node_def)
  then have "unat prefix = wm_pre ?L l ?x" by (auto simp: wm_part_def dest: filter_eq_ConsD)
  then show thesis using that part singleton_from_eq [OF ok l be(1)] by blast
qed

lemma extract_sorted_rec_eq:
  fixes xs :: "'a::len word list"
  assumes ok: "qw_ok rep self xs" "xs \<noteq> []" and w: "LENGTH('a) \<le> 64"
  defines "L \<equiv> qw_n_levels self"
  assumes "l < L" "L - l \<le> fuel" "wm_node L xs ys l (unat prefix) b e"
  shows "qw_extract_sorted_rec R self fuel l b e prefix = Some (concat (map (spread ys) (vals_under L l (unat prefix) ys)))"
  using assms(5-)
proof (induction fuel arbitrary: l prefix b e)
  case (Suc fuel)
  note node = Suc.prems(3) and l = Suc.prems(1)
  let ?v = "unat prefix" and ?D = "wm_digits L xs l"
  have size: "e - b = length (wm_part L l ?v ys)" using node by (rule wm_node_size)
  consider (empty) "e \<le> b" | (one) "e - b = 1" | (more) "b < e" "e - b \<noteq> 1" by linarith
  then show ?case
  proof cases
    case empty
    then show ?thesis using size vals_under_empty [of l L ?v ys] l by simp
  next
    case one
    then obtain x where "wm_part L l ?v ys = [x]" "qw_extract_singleton_from R self l b prefix = Some x"
      using node_one [OF ok l [unfolded L_def] node [unfolded L_def]] unfolding L_def by blast
    then show ?thesis using one vals_under_singleton [of l L ?v ys x] l by (simp add: spread_def)
  next
    case more
    obtain r rs re where r: "idx (qw_qvs self) l = Some r" "rep r ?D"
      "w_rank_all_unchecked R r b = Some (map (\<lambda>d. rank_of ?D d b) [0..<4])" "w_rank_all_unchecked R r e = Some re"
      "digit_counts (map (\<lambda>d. rank_of ?D d b) [0..<4]) re = Some (map (\<lambda>d. length (wm_part L (Suc l) (4 * ?v + d) ys)) [0..<4])"
      using node_counts [OF ok l [unfolded L_def] node [unfolded L_def]] unfolding L_def by blast
    have len: "length (concat (map (spread ys) (vals_under L l ?v ys))) = e - b"
      using vals_under_sum [of l L ys ?v] l size by (simp add: length_concat_spread)
    have leaf: "concat (map (spread ys) (vals_under L (Suc l) (4 * ?v + d) ys)) = replicate (length (wm_part L (Suc l) (4 * ?v + d) ys)) (push_digit prefix d)"
      if "Suc l = L" "wm_part L (Suc l) (4 * ?v + d) ys \<noteq> []" "unat (push_digit prefix d :: 'a word) = 4 * ?v + d" for d
      using that vals_under_leaf [of L "4 * ?v + d" ys] cnt_val_leaf [of ys "4 * ?v + d" L]
      by (simp only: not_False_eq_True simp_thms spread_def word_of_child [OF that(3)] list.map concat.simps append_Nil2)
    have child: "qw_extract_sorted_rec R self fuel (Suc l) (smaller_of ?D d + rank_of ?D d b)
        (smaller_of ?D d + rank_of ?D d b + length (wm_part L (Suc l) (4 * ?v + d) ys)) (push_digit prefix d)
        = Some (concat (map (spread ys) (vals_under L (Suc l) (4 * ?v + d) ys)))"
      if "Suc l \<noteq> L" "d < 4" "unat (push_digit prefix d :: 'a word) = 4 * ?v + d" for d
      using Suc.IH [of "Suc l" "push_digit prefix d"] wm_node_child [OF node l that(2)] wm_node_rank [OF node l that(2)]
        that l Suc.prems(2) by (simp add: add.assoc)
    have body: "foldM (\<lambda>out d. do {
         cnt \<leftarrow> idx (map (\<lambda>d. length (wm_part L (Suc l) (4 * ?v + d) ys)) [0..<4]) d;
         if cnt = 0 then Some out
         else if l + 1 = qw_n_levels self then Some (out @ replicate cnt (push_digit prefix d))
         else do {
           offset \<leftarrow> w_occs_smaller_unchecked R r d;
           rs \<leftarrow> idx (map (\<lambda>d. rank_of ?D d b) [0..<4]) d;
           child \<leftarrow> qw_extract_sorted_rec R self fuel (l + 1) (offset + rs) (offset + rs + cnt) (push_digit prefix d);
           Some (out @ child)
         }
       }) [] [0..<4] = Some ([] @ concat (map (spread ys) (vals_under L l ?v ys)))"
    proof (rule node_loop [OF w l node refl], goal_cases)
      case (1 d out)
      then show ?case using leaf [of d] child [of d] r(2)
        by (cases "Suc l = L") (simp_all add: occs_smaller_unchecked_rep flip: L_def)
    qed simp
    show ?thesis using more r(1,3,4,5) body len by simp
  qed
qed simp

lemma extract_range_eq:
  fixes xs :: "'a::len word list"
  assumes "qw_ok rep self xs" "LENGTH('a) \<le> 64"
  shows "qw_extract_range R self s e = Some (if s < e \<and> e \<le> length xs then sort (slice xs s e) else [])"
proof (cases "s < e \<and> e \<le> length xs")
  case False
  then show ?thesis using assms(1) by (auto simp: qw_extract_range_def qw_ok_def)
next
  case True
  then have ne: "xs \<noteq> []" by auto
  note lev = qw_ok_levels [OF assms(1) ne]
  have "wm_node (qw_n_levels self) xs (slice xs s e) 0 (unat (0 :: 'a word)) s e"
    using wm_node_root [of s e xs] lev(2) True by simp
  moreover have "\<forall>x\<in>set (slice xs s e). unat x < 4 ^ qw_n_levels self"
    using lev(2) by (auto simp: slice_def dest!: in_set_takeD in_set_dropD)
  ultimately show ?thesis
    using True lev(1,7) extract_sorted_rec_eq [OF assms(1) ne assms(2), of 0 "qw_n_levels self" "slice xs s e" 0 s e]
    by (simp add: qw_extract_range_def vals_spread)
qed

lemma extract_distinct_rec_eq:
  fixes xs :: "'a::len word list"
  assumes ok: "qw_ok rep self xs" "xs \<noteq> []" and w: "LENGTH('a) \<le> 64"
  defines "L \<equiv> qw_n_levels self"
  assumes "l < L" "L - l \<le> fuel" "wm_node L xs ys l (unat prefix) b e"
  shows "qw_extract_distinct_rec R self fuel l b e prefix out = Some (out @ map of_nat (vals_under L l (unat prefix) ys))"
  using assms(5-)
proof (induction fuel arbitrary: l prefix b e out)
  case (Suc fuel)
  note node = Suc.prems(3) and l = Suc.prems(1)
  let ?v = "unat prefix" and ?D = "wm_digits L xs l"
  let ?g = "\<lambda>w. [of_nat w :: 'a word]"
  have g: "concat (map ?g ws) = map of_nat ws" for ws by (induction ws) auto
  have size: "e - b = length (wm_part L l ?v ys)" using node by (rule wm_node_size)
  consider (empty) "e \<le> b" | (one) "e - b = 1" | (more) "b < e" "e - b \<noteq> 1" by linarith
  then show ?case
  proof cases
    case empty
    then show ?thesis using size vals_under_empty [of l L ?v ys] l by simp
  next
    case one
    then obtain x where "wm_part L l ?v ys = [x]" "qw_extract_singleton_from R self l b prefix = Some x"
      using node_one [OF ok l [unfolded L_def] node [unfolded L_def]] unfolding L_def by blast
    then show ?thesis using one vals_under_singleton [of l L ?v ys x] l by simp
  next
    case more
    obtain r rs re where r: "idx (qw_qvs self) l = Some r" "rep r ?D"
      "w_rank_all_unchecked R r b = Some (map (\<lambda>d. rank_of ?D d b) [0..<4])" "w_rank_all_unchecked R r e = Some re"
      "digit_counts (map (\<lambda>d. rank_of ?D d b) [0..<4]) re = Some (map (\<lambda>d. length (wm_part L (Suc l) (4 * ?v + d) ys)) [0..<4])"
      using node_counts [OF ok l [unfolded L_def] node [unfolded L_def]] unfolding L_def by blast
    have leaf: "map of_nat (vals_under L (Suc l) (4 * ?v + d) ys) = [push_digit prefix d :: 'a word]"
      if "Suc l = L" "wm_part L (Suc l) (4 * ?v + d) ys \<noteq> []" "unat (push_digit prefix d :: 'a word) = 4 * ?v + d" for d
      using that vals_under_leaf [of L "4 * ?v + d" ys] by (simp only: not_False_eq_True simp_thms word_of_child [OF that(3)] list.map)
    have child: "qw_extract_distinct_rec R self fuel (Suc l) (smaller_of ?D d + rank_of ?D d b)
        (smaller_of ?D d + rank_of ?D d b + length (wm_part L (Suc l) (4 * ?v + d) ys)) (push_digit prefix d) out
        = Some (out @ map of_nat (vals_under L (Suc l) (4 * ?v + d) ys))"
      if "Suc l \<noteq> L" "d < 4" "unat (push_digit prefix d :: 'a word) = 4 * ?v + d" for d out
      using Suc.IH [of "Suc l" "push_digit prefix d"] wm_node_child [OF node l that(2)] wm_node_rank [OF node l that(2)]
        that l Suc.prems(2) by (simp add: add.assoc)
    have body: "foldM (\<lambda>out d. do {
         cnt \<leftarrow> idx (map (\<lambda>d. length (wm_part L (Suc l) (4 * ?v + d) ys)) [0..<4]) d;
         if cnt = 0 then Some out
         else if l + 1 = qw_n_levels self then Some (out @ [push_digit prefix d])
         else do {
           offset \<leftarrow> w_occs_smaller_unchecked R r d;
           rs \<leftarrow> idx (map (\<lambda>d. rank_of ?D d b) [0..<4]) d;
           qw_extract_distinct_rec R self fuel (l + 1) (offset + rs) (offset + rs + cnt) (push_digit prefix d) out
         }
       }) out [0..<4] = Some (out @ concat (map ?g (vals_under L l ?v ys)))"
    proof (rule node_loop [OF w l node refl], goal_cases)
      case (1 d out)
      then show ?case using leaf [of d] child [of d out] r(2)
        by (cases "Suc l = L") (simp_all add: occs_smaller_unchecked_rep g flip: L_def)
    qed simp
    show ?thesis using more r(1,3,4,5) body by (simp add: g)
  qed
qed simp

lemma extract_range_distinct_into_eq:
  fixes xs :: "'a::len word list"
  assumes "qw_ok rep self xs" "LENGTH('a) \<le> 64"
  shows "qw_extract_range_distinct_into R self s e out
    = Some (if s < e \<and> e \<le> length xs then sorted_list_of_set (set (slice xs s e)) else [])"
proof (cases "s < e \<and> e \<le> length xs")
  case False
  then show ?thesis using assms(1) by (auto simp: qw_extract_range_distinct_into_def Let_def qw_ok_def)
next
  case True
  then have ne: "xs \<noteq> []" by auto
  note lev = qw_ok_levels [OF assms(1) ne]
  have "wm_node (qw_n_levels self) xs (slice xs s e) 0 (unat (0 :: 'a word)) s e"
    using wm_node_root [of s e xs] lev(2) True by simp
  moreover have "\<forall>x\<in>set (slice xs s e). unat x < 4 ^ qw_n_levels self"
    using lev(2) by (auto simp: slice_def dest!: in_set_takeD in_set_dropD)
  ultimately show ?thesis
    using True lev(1,7) extract_distinct_rec_eq [OF assms(1) ne assms(2), of 0 "qw_n_levels self" "slice xs s e" 0 s e "[]"]
    by (simp add: qw_extract_range_distinct_into_def Let_def vals_all(1))
qed

end

end
