(* ===== verification/QuadWTNext.thy ===== *)
theory QuadWTNext
  imports QuadWTDistinct
begin

text \<open>
  \<open>range_next_value\<close>: the guided search keeps a stack of nodes whose values, read top first, are
  in increasing order; popping one node replaces it by its children that are not wholly below the
  target, so the first leaf not below the target is the successor. It takes at most
  \<open>5 ^ (L - l)\<close> steps under a node of level \<open>l\<close>. The code adds up the ends of the symbol
  intervals in \<open>usize\<close>: they stay in range below 32 levels; with 32 the end of the last child of
  the root is \<open>2 ^ 64\<close> and the addition overflows.
\<close>

section \<open>Nodes of the stack\<close>

definition nf_pre :: "nat \<Rightarrow> rnv_frame \<Rightarrow> nat" where
  "nf_pre L f = rf_sym_lo f div 4 ^ (L - rf_level f)"

definition nf_ok :: "nat \<Rightarrow> 'a::len word list \<Rightarrow> 'a word list \<Rightarrow> rnv_frame \<Rightarrow> bool" where
  "nf_ok L xs ys f \<longleftrightarrow> rf_level f \<le> L \<and> rf_log2_width f = 2 * (L - rf_level f) \<and> rf_start f < rf_end f \<and>
     rf_sym_lo f = nf_pre L f * 4 ^ (L - rf_level f) \<and> rf_sym_lo f + 4 ^ (L - rf_level f) \<le> 4 ^ L \<and>
     wm_node L xs ys (rf_level f) (nf_pre L f) (rf_start f) (rf_end f)"

definition nf_vals :: "nat \<Rightarrow> 'a::len word list \<Rightarrow> rnv_frame \<Rightarrow> nat list" where
  "nf_vals L ys f = vals_under L (rf_level f) (nf_pre L f) ys"

definition nf_weight :: "nat \<Rightarrow> rnv_frame \<Rightarrow> nat" where
  "nf_weight L f = 5 ^ (L - rf_level f)"

definition nf_child :: "nat \<Rightarrow> nat list \<Rightarrow> rnv_frame \<Rightarrow> nat \<Rightarrow> rnv_frame" where
  "nf_child L D f b = \<lparr>rf_start = smaller_of D b + rank_of D b (rf_start f), rf_end = smaller_of D b + rank_of D b (rf_end f),
     rf_level = rf_level f + 1, rf_sym_lo = rf_sym_lo f + b * 4 ^ (L - Suc (rf_level f)),
     rf_log2_width = 2 * (L - Suc (rf_level f))\<rparr>"

lemma find_filter: "find P xs = (case filter P xs of [] \<Rightarrow> None | x # _ \<Rightarrow> Some x)"
  by (induction xs) auto

lemma find_filter_cong: "filter P xs = filter P ys \<Longrightarrow> find P xs = find P ys"
  by (simp add: find_filter)

lemma find_map: "find P (map f xs) = map_option f (find (\<lambda>x. P (f x)) xs)"
  by (induction xs) auto

lemma concat_filter_empty: "(\<And>b. b \<in> set bs \<Longrightarrow> \<not> P b \<Longrightarrow> h b = []) \<Longrightarrow> concat (map h (filter P bs)) = concat (map h bs)"
  by (induction bs) auto

lemma rnv_push_all: "length st + length gs \<le> 128 \<Longrightarrow> foldM rnv_push st (rev gs) = Some (gs @ st)"
  by (induction gs) (auto simp: foldM_append rnv_push_def)

lemma vals_under_bounds: "w \<in> set (vals_under L l v ys) \<Longrightarrow> v * 4 ^ (L - l) \<le> w \<and> w < Suc v * 4 ^ (L - l)"
  by (simp add: vals_under_def)

text \<open>The child for digit \<open>b\<close> of a node that is not a leaf.\<close>

lemma nf_child_ok:
  fixes xs :: "'a::len word list"
  assumes f: "nf_ok L xs ys f" "rf_level f < L" and b: "b < 4"
  defines "D \<equiv> wm_digits L xs (rf_level f)"
  defines "g \<equiv> nf_child L D f b"
  shows "nf_pre L g = 4 * nf_pre L f + b" "nf_vals L ys g = vals_under L (Suc (rf_level f)) (4 * nf_pre L f + b) ys"
    "rf_sym_lo g = (4 * nf_pre L f + b) * 4 ^ (L - Suc (rf_level f))"
    "rf_sym_lo g + 4 ^ (L - Suc (rf_level f)) \<le> 4 ^ L"
    "rank_of D b (rf_start f) < rank_of D b (rf_end f) \<Longrightarrow> nf_ok L xs ys g"
    "\<not> rank_of D b (rf_start f) < rank_of D b (rf_end f) \<Longrightarrow> nf_vals L ys g = []"
    "nf_weight L f = 5 * nf_weight L g"
proof -
  let ?w = "4 ^ (L - Suc (rf_level f)) :: nat"
  have w: "4 ^ (L - rf_level f) = 4 * ?w" using f(2) by (simp add: Suc_diff_Suc flip: power_Suc)
  have lo: "rf_sym_lo f = nf_pre L f * (4 * ?w)" "rf_sym_lo f + 4 * ?w \<le> 4 ^ L" using f(1) unfolding nf_ok_def w by blast+
  show lo': "rf_sym_lo g = (4 * nf_pre L f + b) * ?w" by (simp add: g_def nf_child_def lo(1) algebra_simps)
  have lev: "rf_level g = Suc (rf_level f)" by (simp add: g_def nf_child_def)
  show pre: "nf_pre L g = 4 * nf_pre L f + b" unfolding nf_pre_def [of L g] lo' lev by simp
  show vals: "nf_vals L ys g = vals_under L (Suc (rf_level f)) (4 * nf_pre L f + b) ys" by (simp add: nf_vals_def pre lev)
  have "b * ?w + ?w \<le> 4 * ?w" using b mult_le_mono1 [of "Suc b" 4 ?w] by simp
  moreover have "rf_sym_lo g = rf_sym_lo f + b * ?w" by (simp add: g_def nf_child_def)
  ultimately show hi: "rf_sym_lo g + ?w \<le> 4 ^ L" using lo(2) by linarith
  show "nf_weight L f = 5 * nf_weight L g"
    using f(2) by (simp add: nf_weight_def lev Suc_diff_Suc flip: power_Suc)
  have node: "wm_node L xs ys (rf_level f) (nf_pre L f) (rf_start f) (rf_end f)" using f(1) by (simp add: nf_ok_def)
  have child: "wm_node L xs ys (Suc (rf_level f)) (4 * nf_pre L f + b) (rf_start g) (rf_end g)"
    using wm_node_child [OF node f(2) b] by (simp add: g_def nf_child_def D_def)
  { assume "rank_of D b (rf_start f) < rank_of D b (rf_end f)"
    then have "rf_start g < rf_end g" by (simp add: g_def nf_child_def)
    then show "nf_ok L xs ys g" using child f(2) hi lo' unfolding nf_ok_def pre lev by (simp add: g_def nf_child_def) }
  assume "\<not> rank_of D b (rf_start f) < rank_of D b (rf_end f)"
  then have "wm_part L (Suc (rf_level f)) (4 * nf_pre L f + b) ys = []"
    using wm_node_rank [OF node f(2) b] by (simp add: D_def)
  then show "nf_vals L ys g = []" unfolding vals using f(2) by (intro vals_under_empty) simp_all
qed

definition nf_keep :: "nat \<Rightarrow> nat list \<Rightarrow> nat \<Rightarrow> rnv_frame \<Rightarrow> nat \<Rightarrow> bool" where
  "nf_keep L D t f b \<longleftrightarrow> \<not> rf_sym_lo (nf_child L D f b) + 4 ^ (L - Suc (rf_level f)) \<le> t \<and>
     rank_of D b (rf_start f) < rank_of D b (rf_end f)"

definition nf_children :: "nat \<Rightarrow> nat list \<Rightarrow> nat \<Rightarrow> rnv_frame \<Rightarrow> rnv_frame list" where
  "nf_children L D t f = map (nf_child L D f) (filter (nf_keep L D t f) [0..<4])"

text \<open>The children kept have the same values from the target on, and weigh less than the node.\<close>

lemma nf_children_ok:
  fixes xs :: "'a::len word list" and t :: nat
  assumes f: "nf_ok L xs ys f" "rf_level f < L"
  defines "cs \<equiv> nf_children L (wm_digits L xs (rf_level f)) t f"
  shows "\<forall>g\<in>set cs. nf_ok L xs ys g \<and> rf_level g = Suc (rf_level f)" "length cs \<le> 4"
    "filter (\<lambda>w. t \<le> w) (concat (map (nf_vals L ys) cs)) = filter (\<lambda>w. t \<le> w) (nf_vals L ys f)"
    "sum_list (map (nf_weight L) cs) < nf_weight L f"
proof -
  let ?D = "wm_digits L xs (rf_level f)" and ?P = "\<lambda>w. t \<le> w"
  let ?g = "nf_child L ?D f"
  note ch = nf_child_ok [OF f]
  show "\<forall>g\<in>set cs. nf_ok L xs ys g \<and> rf_level g = Suc (rf_level f)"
    unfolding cs_def nf_children_def nf_keep_def using ch(5) by (auto simp: nf_child_def)
  show len: "length cs \<le> 4" unfolding cs_def nf_children_def using length_filter_le [of _ "[0..<4]"] by simp
  have skip: "filter ?P (nf_vals L ys (?g b)) = []" if "b \<in> set [0..<4]" "\<not> nf_keep L ?D t f b" for b
  proof (cases "rank_of ?D b (rf_start f) < rank_of ?D b (rf_end f)")
    case True
    have b: "b < 4" using that(1) by simp
    have "rf_sym_lo (?g b) + 4 ^ (L - Suc (rf_level f)) \<le> t" using that(2) True by (simp add: nf_keep_def)
    then have le: "Suc (4 * nf_pre L f + b) * 4 ^ (L - Suc (rf_level f)) \<le> t" unfolding ch(3) [OF b] by simp
    have "w < t" if "w \<in> set (nf_vals L ys (?g b))" for w
      using vals_under_bounds [OF that [unfolded ch(2) [OF b]]] le by linarith
    then show ?thesis unfolding filter_empty_conv by (meson not_le)
  next
    case False
    then show ?thesis using ch(6) that by simp
  qed
  have "filter ?P (concat (map (nf_vals L ys) cs)) = concat (map (\<lambda>b. filter ?P (nf_vals L ys (?g b))) (filter (nf_keep L ?D t f) [0..<4]))"
    by (simp add: cs_def nf_children_def filter_concat o_def)
  also have "\<dots> = concat (map (\<lambda>b. filter ?P (nf_vals L ys (?g b))) [0..<4])" by (rule concat_filter_empty) (rule skip)
  also have "\<dots> = filter ?P (concat (map (\<lambda>b. nf_vals L ys (?g b)) [0..<4]))" by (simp only: filter_concat map_map o_def)
  also have "map (\<lambda>b. nf_vals L ys (?g b)) [0..<4] = map (\<lambda>b. vals_under L (Suc (rf_level f)) (4 * nf_pre L f + b) ys) [0..<4]"
    by (rule map_cong) (use ch(2) in simp_all)
  finally show "filter ?P (concat (map (nf_vals L ys) cs)) = filter ?P (nf_vals L ys f)"
    unfolding nf_vals_def [of L ys f] vals_under_split [OF f(2)] .
  have "sum_list (map (nf_weight L) cs) = length cs * nf_weight L (?g 0)"
    unfolding cs_def nf_children_def by (simp add: nf_weight_def nf_child_def o_def map_replicate_const sum_list_replicate)
  also have "\<dots> < nf_weight L f" unfolding ch(7) [of 0, simplified] using len by (simp add: nf_weight_def)
  finally show "sum_list (map (nf_weight L) cs) < nf_weight L f" .
qed

section \<open>The search\<close>

context wt_queries
begin

lemma rnv_children:
  fixes xs :: "'a::len word list"
  assumes ok: "qw_ok rep self xs" "xs \<noteq> []" and L: "qw_n_levels self \<le> 31"
    and f: "nf_ok (qw_n_levels self) xs ys f" "rf_level f < qw_n_levels self"
  obtains r where "idx (qw_qvs self) (rf_level f) = Some r" "rf_log2_width f - 2 = 2 * (qw_n_levels self - Suc (rf_level f))"
    "foldM (rnv_candidate R r f (2 * (qw_n_levels self - Suc (rf_level f))) t) [] [0..<4]
      = Some (nf_children (qw_n_levels self) (wm_digits (qw_n_levels self) xs (rf_level f)) t f)"
proof -
  let ?L = "qw_n_levels self"
  let ?D = "wm_digits ?L xs (rf_level f)" and ?log = "2 * (?L - Suc (rf_level f))"
  obtain r where r: "idx (qw_qvs self) (rf_level f) = Some r" "rep r ?D" using level_rep [OF ok f(2)] .
  have le: "rf_start f \<le> rf_end f" "rf_end f \<le> length xs" using f(1) by (simp_all add: nf_ok_def wm_node_def)
  have "(4::nat) ^ ?L \<le> 4 ^ 31" by (rule power_increasing) (use L in simp_all)
  then have small: "(4::nat) ^ ?L < 2 ^ 64" by simp
  have "rnv_candidate R r f ?log t cands b = Some (cands @ (if nf_keep ?L ?D t f b then [nf_child ?L ?D f b] else []))"
    if "b < 4" for cands b
  proof -
    have "rf_sym_lo f + b * 4 ^ (?L - Suc (rf_level f)) + 4 ^ (?L - Suc (rf_level f)) < 2 ^ 64"
      using nf_child_ok(4) [OF f that] small by (simp add: nf_child_def)
    then show ?thesis
      using r(2) that le by (simp add: rnv_candidate_def add_usize_def power_mult nf_keep_def nf_child_def
        rank_unchecked_rep occs_smaller_unchecked_rep)
  qed
  then have "foldM (rnv_candidate R r f ?log t) [] [0..<4]
      = Some ([] @ concat (map (\<lambda>b. if nf_keep ?L ?D t f b then [nf_child ?L ?D f b] else []) [0..<4]))"
    by (intro foldM_append_map) simp
  moreover have "rf_log2_width f - 2 = ?log" using f by (simp add: nf_ok_def)
  ultimately show thesis using that r(1) by (simp add: concat_if nf_children_def del: upt_Suc)
qed

lemma rnv_loop_eq:
  fixes xs :: "'a::len word list"
  assumes ok: "qw_ok rep self xs" "xs \<noteq> []" and L: "qw_n_levels self \<le> 31"
    and "\<forall>f\<in>set stack. nf_ok (qw_n_levels self) xs ys f" "depth_ok (map rf_level stack)"
  shows "rnv_loop R self t stack = Some (map_option of_nat (find (\<lambda>w. t \<le> w) (concat (map (nf_vals (qw_n_levels self) ys) stack))))"
  using assms(4,5)
proof (induction "sum_list (map (nf_weight (qw_n_levels self)) stack)" arbitrary: stack rule: less_induct)
  case less
  let ?L = "qw_n_levels self" and ?P = "\<lambda>w. t \<le> w"
  show ?case
  proof (cases stack)
    case Nil
    then show ?thesis by (simp add: rnv_loop.simps)
  next
    case (Cons f rest)
    have f: "nf_ok ?L xs ys f" "rf_start f < rf_end f" "rf_level f \<le> ?L" "rf_log2_width f = 2 * (?L - rf_level f)"
      using less.prems(1) Cons by (auto simp: nf_ok_def)
    have rest: "\<forall>g\<in>set rest. nf_ok ?L xs ys g" "depth_ok (map rf_level rest)" "length rest \<le> 3 * rf_level f"
      using less.prems Cons by auto
    show ?thesis
    proof (cases "rf_level f = ?L")
      case True
      have "wm_part ?L ?L (nf_pre ?L f) ys \<noteq> []"
        using wm_node_size f(1,2) True by (fastforce simp: nf_ok_def)
      then have vals: "nf_vals ?L ys f = [rf_sym_lo f]"
        using True by (simp add: nf_vals_def vals_under_leaf nf_pre_def)
      have "sum_list (map (nf_weight ?L) rest) < sum_list (map (nf_weight ?L) stack)" using Cons by (simp add: nf_weight_def)
      from less.hyps [OF this rest(1,2)] show ?thesis
        using Cons f(2,4) True vals by (simp add: rnv_loop.simps [of _ _ _ "f # rest"])
    next
      case False
      then have lt: "rf_level f < ?L" using f(3) by simp
      define cs where "cs = nf_children ?L (wm_digits ?L xs (rf_level f)) t f"
      obtain r where r: "idx (qw_qvs self) (rf_level f) = Some r" "rf_log2_width f - 2 = 2 * (?L - Suc (rf_level f))"
        "foldM (rnv_candidate R r f (2 * (?L - Suc (rf_level f))) t) [] [0..<4] = Some cs"
        unfolding cs_def by (rule rnv_children [OF ok L f(1) lt])
      note cs = nf_children_ok [OF f(1) lt, of t, folded cs_def]
      have push: "foldM rnv_push rest (rev cs) = Some (cs @ rest)"
        by (rule rnv_push_all) (use rest(3) lt L cs(2) in simp)
      have "depth_ok (map rf_level cs @ map rf_level rest)"
        by (rule depth_ok_push [OF rest(2), of _ "rf_level f"]) (use cs(1,2) rest(3) in auto)
      then have dep: "depth_ok (map rf_level (cs @ rest))" by simp
      have "sum_list (map (nf_weight ?L) (cs @ rest)) < sum_list (map (nf_weight ?L) stack)" using cs(4) Cons by simp
      then have rec: "rnv_loop R self t (cs @ rest) = Some (map_option of_nat (find ?P (concat (map (nf_vals ?L ys) (cs @ rest)))))"
        by (rule less.hyps) (use cs(1) rest(1) dep in auto)
      have log: "2 \<le> rf_log2_width f" "rf_log2_width f - 2 < 64" "rf_log2_width f \<noteq> 0" using f(4) lt L by auto
      have "rnv_loop R self t stack = rnv_loop R self t (cs @ rest)"
        using Cons f(2) r push log
        by (simp add: rnv_loop.simps [of _ _ _ "f # rest"] del: upt_Suc foldM.simps)
      moreover have "find ?P (concat (map (nf_vals ?L ys) (cs @ rest))) = find ?P (concat (map (nf_vals ?L ys) stack))"
        by (rule find_filter_cong) (simp add: Cons cs(3))
      ultimately show ?thesis using rec by simp
    qed
  qed
qed

lemma range_next_value_eq:
  fixes xs :: "'a::len word list"
  assumes ok: "qw_ok rep self xs" and w: "LENGTH('a) \<le> 64" and L: "qw_n_levels self \<le> 31"
  shows "qw_range_next_value R self s e target
    = Some (if s < e \<and> e \<le> length xs then find (\<lambda>x. target \<le> x) (sorted_list_of_set (set (slice xs s e))) else None)"
proof (cases "s < e \<and> e \<le> length xs")
  case False
  then show ?thesis using ok by (auto simp: qw_range_next_value_def qw_ok_def)
next
  case True
  let ?L = "qw_n_levels self" and ?ys = "slice xs s e"
  have ne: "xs \<noteq> []" using True by auto
  note lev = qw_ok_levels [OF ok ne]
  let ?f = "\<lparr>rf_start = s, rf_end = e, rf_level = 0, rf_sym_lo = 0, rf_log2_width = 2 * ?L\<rparr>"
  have f: "nf_ok ?L xs ?ys ?f" using wm_node_root [of s e xs ?L] lev(2) True by (simp add: nf_ok_def nf_pre_def)
  have bnd: "\<forall>x\<in>set ?ys. unat x < 4 ^ ?L" using lev(2) by (auto simp: slice_def dest!: in_set_takeD in_set_dropD)
  let ?vs = "vals_under ?L 0 0 ?ys"
  have small: "w < 2 ^ LENGTH('a)" if w_in: "w \<in> set ?vs" for w
  proof -
    obtain x where "x \<in> set ?ys" "unat x = w"
      using w_in by (auto simp: vals_under_def cnt_val_def length_greater_0_conv filter_empty_conv)
    then show ?thesis using unsigned_less [of x, where 'a = nat] by auto
  qed
  have "unat target < 2 ^ 64"
    using unsigned_less [of target, where 'a = nat] power_increasing [OF w, of "2 :: nat"] by linarith
  then have tgt: "unat (as_usize target) = unat target" by (simp add: as_usize_def unsigned_ucast_eq take_bit_nat_eq_self)
  have "qw_range_next_value R self s e target = rnv_loop R self (unat target) [?f]"
    using True lev(1,7) by (simp add: qw_range_next_value_def qw_range_next_value_unchecked_def tgt)
  also have "\<dots> = Some (map_option of_nat (find (\<lambda>w. unat target \<le> w) (concat (map (nf_vals ?L ?ys) [?f]))))"
    by (rule rnv_loop_eq [OF ok ne L]) (use f in simp_all)
  also have "concat (map (nf_vals ?L ?ys) [?f]) = ?vs" by (simp add: nf_vals_def nf_pre_def)
  also have "find (\<lambda>w. unat target \<le> w) ?vs = find (\<lambda>w. target \<le> of_nat w) ?vs"
    by (rule find_cong) (use small in \<open>simp_all add: word_le_nat_alt unat_of_nat_small\<close>)
  also have "map_option of_nat \<dots> = find (\<lambda>x. target \<le> x) (map of_nat ?vs)" by (simp add: find_map)
  finally show ?thesis using True vals_all(1) [OF bnd] by simp
qed

text \<open>With 32 levels the end of the last child of the root does not fit.\<close>

lemma range_next_value_overflow:
  fixes xs :: "'a::len word list"
  assumes ok: "qw_ok rep self xs" and L: "qw_n_levels self = 32" and se: "s < e" "e \<le> length xs"
  shows "qw_range_next_value R self s e target = None"
proof -
  have ne: "xs \<noteq> []" using se by auto
  note lev = qw_ok_levels [OF ok ne]
  let ?f = "\<lparr>rf_start = s, rf_end = e, rf_level = 0, rf_sym_lo = 0, rf_log2_width = 64\<rparr>"
  have last: "rnv_candidate R r ?f 62 t cands 3 = None" for r t cands
    by (simp add: rnv_candidate_def add_usize_def)
  have "[0..<4] = [0..<3] @ [3::nat]" by (simp add: upt_rec_numeral upt_conv_Cons)
  then have none: "foldM (rnv_candidate R r ?f 62 t) [] [0..<4] = None" for r t
    by (simp add: foldM_append last split_def del: upt_Suc)
  obtain r where "idx (qw_qvs self) 0 = Some r" using level_rep [OF ok ne, of 0] L by auto
  then have "rnv_loop R self t [?f] = None" for t
    using se none by (simp add: rnv_loop.simps [of _ _ _ "[?f]"] del: upt_Suc)
  then show ?thesis using se L lev(7) by (simp add: qw_range_next_value_def qw_range_next_value_unchecked_def)
qed

end

end
