(* ===== verification/WaveletDecode.thy ===== *)
theory WaveletDecode
  imports QuadWTPoint
begin

text \<open>
  Every stack of digit lists is a wavelet matrix. From lists \<open>Ds\<close> of the same length with digits
  below 4, following each position of the top list down the levels (\<open>dpos\<close>) and collecting the digits
  (\<open>dval\<close>) decodes a sequence; the step of a level is a permutation of the positions, so the
  levels of the wavelet matrix of the decoded sequence are the lists again. This is what makes the
  checks on untrusted levels sufficient.
\<close>

definition dstep :: "nat list \<Rightarrow> nat \<Rightarrow> nat" where
  "dstep D p = smaller_of D (D ! p) + rank_of D (D ! p) p"

fun dpos :: "nat list list \<Rightarrow> nat \<Rightarrow> nat \<Rightarrow> nat" where
  "dpos Ds i 0 = i"
| "dpos Ds i (Suc l) = dstep (Ds ! l) (dpos Ds i l)"

fun dval :: "nat list list \<Rightarrow> nat \<Rightarrow> nat \<Rightarrow> nat" where
  "dval Ds i 0 = 0"
| "dval Ds i (Suc l) = 4 * dval Ds i l + Ds ! l ! dpos Ds i l"

definition decode_levels :: "nat list list \<Rightarrow> nat \<Rightarrow> 'a::len word list" where
  "decode_levels Ds n = map (\<lambda>i. of_nat (dval Ds i (length Ds))) [0..<n]"

definition levels_ok :: "nat list list \<Rightarrow> nat \<Rightarrow> bool" where
  "levels_ok Ds n \<longleftrightarrow> (\<forall>D\<in>set Ds. length D = n \<and> (\<forall>d\<in>set D. d < 4))"

section \<open>The step of a level is a permutation\<close>

lemma dstep_less:
  assumes "\<forall>d\<in>set D. d < 4" "p < length D"
  shows "dstep D p < length D"
proof -
  have "smaller_of (map id D) (D ! p) + rank_of (map id D) (D ! p) (Suc p) \<le> length D"
    by (rule rank_step_le [where m = 4]) (use assms in auto)
  then show ?thesis using assms(2) by (simp add: dstep_def rank_of_Suc)
qed

lemma dstep_bij:
  assumes "\<forall>d\<in>set D. d < 4"
  shows "bij_betw (dstep D) {..<length D} {..<length D}"
proof -
  let ?f = "\<lambda>p. D ! p"
  have undo: "buckets ?f 4 [0..<length D] ! dstep D p = p" if "p < length D" for p
    using nth_buckets [of "D ! p" 4 p "[0..<length D]" ?f] assms that by (simp add: dstep_def map_nth)
  have "inj_on (dstep D) {..<length D}" by (rule inj_onI) (metis undo lessThan_iff)
  moreover have "dstep D ` {..<length D} \<subseteq> {..<length D}" using dstep_less [OF assms] by auto
  ultimately show ?thesis by (simp add: bij_betw_def endo_inj_surj)
qed

lemma levels_okD: "levels_ok Ds n \<Longrightarrow> l < length Ds \<Longrightarrow> length (Ds ! l) = n \<and> (\<forall>d\<in>set (Ds ! l). d < 4)"
  using nth_mem [of l Ds] by (auto simp: levels_ok_def)

lemma dpos_less: "levels_ok Ds n \<Longrightarrow> l \<le> length Ds \<Longrightarrow> i < n \<Longrightarrow> dpos Ds i l < n"
proof (induction l)
  case (Suc l)
  then show ?case using levels_okD [of Ds n l] dstep_less [of "Ds ! l" "dpos Ds i l"] by simp
qed simp

lemma digit_less: "levels_ok Ds n \<Longrightarrow> l < length Ds \<Longrightarrow> i < n \<Longrightarrow> Ds ! l ! dpos Ds i l < 4"
  using dpos_less [of Ds n l i] levels_okD [of Ds n l] by simp

lemma dpos_bij:
  assumes "levels_ok Ds n" "l \<le> length Ds"
  shows "bij_betw (\<lambda>i. dpos Ds i l) {..<n} {..<n}"
  using assms(2)
proof (induction l)
  case 0
  then show ?case by (simp add: bij_betw_def)
next
  case (Suc l)
  then have "bij_betw (dstep (Ds ! l)) {..<n} {..<n}" using levels_okD [OF assms(1), of l] dstep_bij [of "Ds ! l"] by simp
  from bij_betw_trans [OF _ this, of "\<lambda>i. dpos Ds i l"] Suc show ?case by (simp add: o_def)
qed

section \<open>The decoded values\<close>

lemma dval_less: "levels_ok Ds n \<Longrightarrow> l \<le> length Ds \<Longrightarrow> i < n \<Longrightarrow> dval Ds i l < 4 ^ l"
proof (induction l)
  case (Suc l)
  then have "dval Ds i l < 4 ^ l" "Ds ! l ! dpos Ds i l < 4" using digit_less [of Ds n l i] by simp_all
  then show ?case by simp
qed simp

lemma dval_prefix:
  assumes "levels_ok Ds n" "i < n" "l + k \<le> length Ds"
  shows "dval Ds i (l + k) div 4 ^ k = dval Ds i l"
  using assms(3)
proof (induction k)
  case (Suc k)
  have "Ds ! (l + k) ! dpos Ds i (l + k) < 4" using digit_less [OF assms(1) _ assms(2)] Suc.prems by simp
  then have "dval Ds i (l + Suc k) div 4 = dval Ds i (l + k)" by simp
  then have "dval Ds i (l + Suc k) div 4 ^ Suc k = dval Ds i (l + k) div 4 ^ k"
    by (simp only: power_Suc div_mult2_eq)
  then show ?case using Suc by simp
qed simp

lemma decoded_digit:
  assumes "levels_ok Ds n" "i < n" "l < length Ds" "4 ^ length Ds \<le> (2 :: nat) ^ LENGTH('a::len)"
  shows "qdigit (2 * (length Ds - 1 - l)) ((decode_levels Ds n :: 'a word list) ! i) = Ds ! l ! dpos Ds i l"
proof -
  let ?L = "length Ds"
  have "dval Ds i ?L < 2 ^ LENGTH('a)" using dval_less [OF assms(1) order_refl assms(2)] assms(4) by simp
  then have u: "unat ((decode_levels Ds n :: 'a word list) ! i) = dval Ds i ?L"
    using assms(2) by (simp add: decode_levels_def unat_of_nat_small)
  have "Suc l + (?L - Suc l) = ?L" using assms(3) by simp
  then have "dval Ds i ?L div 4 ^ (?L - Suc l) = dval Ds i (Suc l)"
    using dval_prefix [OF assms(1,2), of "Suc l" "?L - Suc l"] by (metis order_refl)
  moreover have "dval Ds i (Suc l) mod 4 = Ds ! l ! dpos Ds i l" using digit_less [OF assms(1,3,2)] by simp
  ultimately show ?thesis unfolding qdigit_def u by (simp add: power_mult)
qed

text \<open>The levels of the wavelet matrix of the decoded sequence are the lists.\<close>

lemma decoded_levels:
  assumes ok: "levels_ok Ds n" and w: "4 ^ length Ds \<le> (2 :: nat) ^ LENGTH('a::len)" and "l < length Ds"
  shows "wm_digits (length Ds) (decode_levels Ds n :: 'a word list) l = Ds ! l"
  using assms(3)
proof -
  let ?xs = "decode_levels Ds n :: 'a word list" and ?L = "length Ds"
  have len: "length ?xs = n" by (simp add: decode_levels_def)
  have digits: "wm_digits ?L ?xs l = Ds ! l" if "l < ?L" "\<And>i. i < n \<Longrightarrow> wm_level ?L ?xs l ! dpos Ds i l = ?xs ! i" for l
  proof (rule nth_equalityI)
    show "length (wm_digits ?L ?xs l) = length (Ds ! l)" using levels_okD [OF ok that(1)] len by simp
    fix p assume "p < length (wm_digits ?L ?xs l)"
    then have "p \<in> {..<n}" using len by simp
    moreover have "(\<lambda>i. dpos Ds i l) ` {..<n} = {..<n}" using dpos_bij [OF ok, of l] that(1) by (simp add: bij_betw_def)
    ultimately obtain i where i: "i < n" "p = dpos Ds i l" by (metis imageE lessThan_iff)
    have "wm_digits ?L ?xs l ! p = qdigit (2 * (?L - 1 - l)) (?xs ! i)"
      using that(2) [OF i(1)] dpos_less [OF ok _ i(1), of l] that(1) len i(2) by (simp add: nth_wm_digits)
    then show "wm_digits ?L ?xs l ! p = Ds ! l ! p"
      using decoded_digit [OF ok i(1) that(1) w] i(2) by simp
  qed
  have level: "wm_level ?L ?xs l ! dpos Ds i l = ?xs ! i" if "i < n" "l \<le> ?L" for i l
    using that
  proof (induction l arbitrary: i)
    case (Suc l)
    then have l: "l < ?L" by simp
    have p: "dpos Ds i l < length ?xs" using dpos_less [OF ok _ Suc.prems(1), of l] l len by simp
    have "wm_digits ?L ?xs l = Ds ! l" by (rule digits) (use l Suc.IH in auto)
    then show ?case using wm_descend(2) [OF p, of ?L l] Suc.IH [OF Suc.prems(1)] l by (simp add: dstep_def)
  qed simp
  show ?thesis by (rule digits) (use assms(3) level in auto)
qed

text \<open>Decoding the levels of the wavelet matrix of a sequence gives the sequence back.\<close>

lemma decoded_wm:
  fixes xs :: "'a::len word list"
  assumes "length Ds = L" "\<And>l. l < L \<Longrightarrow> Ds ! l = wm_digits L xs l" "\<forall>x\<in>set xs. unat x < 4 ^ L"
  shows "i < length xs \<Longrightarrow> l \<le> L \<Longrightarrow> dval Ds i l = wm_pre L l (xs ! i)"
    and "levels_ok Ds (length xs)" "decode_levels Ds (length xs) = xs"
proof -
  have step: "dpos Ds i l = wm_pos L xs (xs ! i) i l \<and> dval Ds i l = wm_pre L l (xs ! i)" if "i < length xs" "l \<le> L" for i l
    using that(2)
  proof (induction l)
    case 0
    then show ?case using assms(3) that(1) by (simp add: wm_pre_0)
  next
    case (Suc l)
    then have l: "l < L" by simp
    have "wm_digits L xs l ! wm_pos L xs (xs ! i) i l = qdigit (2 * (L - 1 - l)) (xs ! i)"
      using digit_at_pos [OF that(1), of l L] l by simp
    then show ?case using Suc l assms(2) [OF l] by (simp add: dstep_def wm_pre_Suc)
  qed
  then show val: "i < length xs \<Longrightarrow> l \<le> L \<Longrightarrow> dval Ds i l = wm_pre L l (xs ! i)" for i l by blast
  show "levels_ok Ds (length xs)"
    unfolding levels_ok_def in_set_conv_nth using assms(1,2) wm_digits_less by (fastforce simp: in_set_conv_nth)
  show "decode_levels Ds (length xs) = xs"
    by (rule nth_equalityI) (simp_all add: decode_levels_def assms(1) val)
qed

end
