(* ===== verification/Layout.thy ===== *)
theory Layout
  imports Prelude
begin

text \<open>
  Results with errors: \<open>LayoutError\<close> of \<^verbatim>\<open>src/bytes/error.rs\<close> and the shape of the code that
  returns \<open>Result\<close>. A model of a function that returns \<open>Result<T, E>\<close> has type \<open>('e + 't) option\<close>:
  \<open>None\<close> when the execution panics, \<open>Some (Inl e)\<close> for \<open>Err(e)\<close>, \<open>Some (Inr x)\<close> for \<open>Ok(x)\<close>.
\<close>

datatype layout_error =
    NotLittleEndian
  | BadMagic
  | BadVersion
  | Truncated
  | Misaligned
  | PrefetchNotSupported
  | Inconsistent (detail: string)

text \<open>\<open>r?\<close>, \<open>opt.ok_or(e)?\<close>, a check that returns \<open>Err(e)\<close> early, and a loop whose body may return.\<close>

definition rbind :: "('e + 'a) option \<Rightarrow> ('a \<Rightarrow> ('e + 'b) option) \<Rightarrow> ('e + 'b) option" where
  "rbind r k = (case r of None \<Rightarrow> None | Some (Inl e) \<Rightarrow> Some (Inl e) | Some (Inr x) \<Rightarrow> k x)"

definition ok_or :: "'a option option \<Rightarrow> 'e \<Rightarrow> ('e + 'a) option" where
  "ok_or r e = (case r of None \<Rightarrow> None | Some None \<Rightarrow> Some (Inl e) | Some (Some x) \<Rightarrow> Some (Inr x))"

definition reject :: "bool \<Rightarrow> 'e \<Rightarrow> ('e + unit) option" where
  "reject b e = Some (if b then Inl e else Inr ())"

fun foldR :: "('s \<Rightarrow> 'a \<Rightarrow> ('e + 's) option) \<Rightarrow> 's \<Rightarrow> 'a list \<Rightarrow> ('e + 's) option" where
  "foldR f s [] = Some (Inr s)"
| "foldR f s (x # xs) = rbind (f s x) (\<lambda>s'. foldR f s' xs)"

lemma rbind_simps [simp]:
  "rbind None k = None" "rbind (Some (Inl e)) k = Some (Inl e)" "rbind (Some (Inr x)) k = k x"
  by (simp_all add: rbind_def)

lemma rbind_Inr_iff: "rbind r k = Some (Inr y) \<longleftrightarrow> (\<exists>x. r = Some (Inr x) \<and> k x = Some (Inr y))"
  by (auto simp: rbind_def split: option.splits sum.splits)

lemma ok_or_simps [simp]:
  "ok_or None e = None" "ok_or (Some None) e = Some (Inl e)" "ok_or (Some (Some x)) e = Some (Inr x)"
  by (simp_all add: ok_or_def)

lemma reject_simps [simp]: "reject True e = Some (Inl e)" "reject False e = Some (Inr ())"
  by (simp_all add: reject_def)

lemma reject_Inr_iff: "reject b e = Some (Inr u) \<longleftrightarrow> \<not> b"
  by (simp add: reject_def)

lemma foldR_append: "foldR f s (xs @ ys) = rbind (foldR f s xs) (\<lambda>s'. foldR f s' ys)"
  by (induction xs arbitrary: s) (auto simp: rbind_def split: option.splits sum.splits)

lemma foldR_map: "foldR f s (map h xs) = foldR (\<lambda>s x. f s (h x)) s xs"
  by (induction xs arbitrary: s) (auto simp: rbind_def split: option.splits sum.splits)

lemma foldR_upt_value:
  assumes "\<And>k. k < n \<Longrightarrow> f (g k) (h k) = Some (Inr (g (Suc k)))"
  shows "foldR f (g 0) (map h [0..<n]) = Some (Inr (g n))"
  using assms by (induction n) (auto simp: foldR_append)

lemma foldR_checks:
  assumes "\<And>s x. x \<in> set xs \<Longrightarrow> f s x = Some (if ok x then Inr s else Inl (e x))"
  shows "foldR f s xs = Some (Inr s') \<longleftrightarrow> s' = s \<and> (\<forall>x\<in>set xs. ok x)"
  using assms by (induction xs) auto

lemma foldR_pass:
  assumes "\<And>x. x \<in> set xs \<Longrightarrow> f () x = Some (Inr ())"
  shows "foldR f () xs = Some (Inr ())"
  using assms by (induction xs) simp_all

end
