(* ===== verification/QuadWTParts.thy ===== *)
theory QuadWTParts
  imports WaveletDecode QuadWTRange Layout
begin

text \<open>
  \<open>QWaveletTree::from_parts\<close> and deserialisation, \<^verbatim>\<open>src/quadwt/mod.rs\<close>: the checks a tree of
  untrusted levels passes before it is used. The parts of a tree that represents a sequence are
  accepted and give the tree back; conversely accepted parts represent the sequence that
  following every position down the levels decodes, so every query on them is correct.
\<close>

section \<open>Definitions\<close>

definition occs_step :: "'r wt_support_ops \<Rightarrow> 'r \<Rightarrow> nat \<Rightarrow> nat \<Rightarrow> (layout_error + nat) option" where
  "occs_step R level acc symbol = do {
     occ \<leftarrow> w_occs R level symbol;
     ok_or (Some (add_usize acc (case occ of None \<Rightarrow> 2 ^ 64 - 1 | Some x \<Rightarrow> x)))
       (Inconsistent ''QWT level occurrence counts overflow'')
   }"

definition qw_check_level :: "'r wt_support_ops \<Rightarrow> nat \<Rightarrow> unit \<Rightarrow> 'r \<Rightarrow> (layout_error + unit) option" where
  "qw_check_level R n u level =
     rbind (foldR (occs_step R level) 0 [0..<4]) (\<lambda>level_len.
       if level_len \<noteq> n then Some (Inl (Inconsistent ''QWT level length disagrees with header length''))
       else do {
         r \<leftarrow> w_rank R level 0 n;
         reject (r = None) (Inconsistent ''QWT level length disagrees with header length'')
       })"

definition qw_decode_step :: "'r wt_support_ops \<Rightarrow> nat \<Rightarrow> 'a::len word \<times> nat \<Rightarrow> nat \<times> 'r \<Rightarrow>
    (layout_error + 'a word \<times> nat) option" where
  "qw_decode_step R n_levels st il = (
     let (value, current) = st; (level_index, level) = il
     in rbind (ok_or (w_get R level current) (Inconsistent ''QWT payload transition is out of bounds'')) (\<lambda>symbol.
        let value = push_digit value symbol
        in if level_index + 1 < n_levels then
             rbind (ok_or (w_occs_smaller R level symbol) (Inconsistent ''QWT payload contains an invalid symbol'')) (\<lambda>offset.
             rbind (ok_or (w_rank R level symbol current) (Inconsistent ''QWT payload rank metadata is invalid'')) (\<lambda>rank.
             rbind (ok_or (Some (add_usize offset rank)) (Inconsistent ''QWT payload transition overflows'')) (\<lambda>current.
               Some (Inr (value, current)))))
           else Some (Inr (value, current))))"

definition qw_decode :: "'r wt_support_ops \<Rightarrow> nat \<Rightarrow> 'r list \<Rightarrow> 'a::len word \<Rightarrow> nat \<Rightarrow> (layout_error + 'a word) option" where
  "qw_decode R n_levels qvs actual_sigma index =
     rbind (foldR (qw_decode_step R n_levels) (0, index) (zip [0..<length qvs] qvs)) (\<lambda>(value, _).
       Some (Inr (max actual_sigma value)))"

definition qw_from_parts :: "'r wt_support_ops \<Rightarrow> bool \<Rightarrow> nat \<Rightarrow> nat \<Rightarrow> 'a::len word \<Rightarrow> 'r list \<Rightarrow>
    (layout_error + ('a word, 'r, 'p) qwt) option" where
  "qw_from_parts R with_prefetch_support n n_levels sigma qvs =
     rbind (reject with_prefetch_support PrefetchNotSupported) (\<lambda>_.
     let max_type_levels = div_ceil LENGTH('a) 2
     in rbind (reject (n_levels > MAX_QUAD_LEVELS \<or> n_levels > max_type_levels)
       (Inconsistent ''QWT level count exceeds the supported maximum'')) (\<lambda>_.
     rbind (if n = 0
        then reject (n_levels \<noteq> 0 \<or> sigma \<noteq> 0) (Inconsistent ''empty tree must have zero sigma and zero levels'')
        else reject (n_levels = 0 \<or> length qvs \<noteq> n_levels) (Inconsistent ''n_levels disagrees with qvs length'')) (\<lambda>_.
     rbind (if n > 0 then
          let expected_levels = div_ceil (msb_of sigma + 1) 2
          in rbind (reject (n_levels \<noteq> expected_levels) (Inconsistent ''n_levels disagrees with sigma'')) (\<lambda>_.
             rbind (foldR (qw_check_level R n) () qvs) (\<lambda>_.
             rbind (foldR (qw_decode R n_levels qvs) 0 [0..<n]) (\<lambda>actual_sigma.
               reject (actual_sigma \<noteq> sigma) (Inconsistent ''sigma disagrees with the encoded QWT payload''))))
        else Some (Inr ())) (\<lambda>_.
     Some (Inr \<lparr>qw_n = n, qw_n_levels = n_levels, qw_sigma = sigma, qw_qvs = qvs, qw_prefetch_support = None\<rparr>)))))"

text \<open>Deserialisation of the fields \<open>decoded\<close> of a tree. \<open>serde::de::Error::custom\<close> keeps a message.\<close>

datatype de_error = DeCustom string | DeLayout layout_error

definition qw_deserialize :: "'r wt_support_ops \<Rightarrow> bool \<Rightarrow> ('a::len word, 'r, 'p) qwt \<Rightarrow>
    (de_error + ('a word, 'r, 'p) qwt) option" where
  "qw_deserialize R with_prefetch_support decoded =
     (if with_prefetch_support \<or> qw_prefetch_support decoded \<noteq> None
      then Some (Inl (DeCustom ''deserializing prefetch-augmented QWT state is not supported''))
      else map_option (map_sum DeLayout id)
        (qw_from_parts R with_prefetch_support (qw_n decoded) (qw_n_levels decoded) (qw_sigma decoded) (qw_qvs decoded)))"

section \<open>The checks on levels that represent digit lists\<close>

lemma smaller_of_4: "\<forall>d\<in>set D. d < 4 \<Longrightarrow> smaller_of D 4 = length D"
  by (simp add: smaller_of_def)

context wt_support
begin

lemma check_level_eq:
  assumes "rep r D" "length D < 2 ^ 64" "\<forall>d\<in>set D. d < 4"
  shows "qw_check_level R n u r
    = Some (if length D = n then Inr () else Inl (Inconsistent ''QWT level length disagrees with header length''))"
proof -
  have le: "smaller_of D c \<le> length D" for c by (simp add: smaller_of_def)
  have "foldR (occs_step R r) (smaller_of D 0) (map id [0..<4]) = Some (Inr (smaller_of D 4))"
  proof (rule foldR_upt_value)
    fix k :: nat assume k: "k < 4"
    have "smaller_of D k + count_list D k < 2 ^ 64" using le [of "Suc k"] assms(2) by (simp add: smaller_of_Suc)
    then show "occs_step R r (smaller_of D k) (id k) = Some (Inr (smaller_of D (Suc k)))"
      using k assms(1) by (simp add: occs_step_def occs_rep add_usize_def smaller_of_Suc)
  qed
  then have "foldR (occs_step R r) 0 [0..<4] = Some (Inr (length D))" using smaller_of_4 [OF assms(3)] by simp
  then show ?thesis using assms(1) by (simp add: qw_check_level_def rank_rep reject_def del: foldR.simps)
qed

lemma decode_eq:
  assumes reps: "length qvs = length Ds" "\<And>l. l < length Ds \<Longrightarrow> rep (qvs ! l) (Ds ! l)"
    and ok: "levels_ok Ds n" "n < 2 ^ 64" "i < n" "0 < length Ds" and w: "4 ^ length Ds \<le> (2 :: nat) ^ LENGTH('a::len)"
  shows "qw_decode R (length Ds) qvs (m :: 'a word) i = Some (Inr (max m (of_nat (dval Ds i (length Ds)))))"
proof -
  let ?L = "length Ds"
  let ?g = "\<lambda>k. (of_nat (dval Ds i k) :: 'a word, dpos Ds i (min k (?L - 1)))"
  have zip: "zip [0..<length qvs] qvs = map (\<lambda>l. (l, qvs ! l)) [0..<?L]"
    using reps(1) by (intro nth_equalityI) simp_all
  have "foldR (qw_decode_step R ?L) (?g 0) (map (\<lambda>l. (l, qvs ! l)) [0..<?L]) = Some (Inr (?g ?L))"
  proof (rule foldR_upt_value)
    fix k assume k: "k < ?L"
    let ?D = "Ds ! k" and ?p = "dpos Ds i k"
    have D: "length ?D = n" "?p < n" "?D ! ?p < 4"
      using levels_okD [OF ok(1) k] dpos_less [OF ok(1) _ ok(3), of k] digit_less [OF ok(1) k ok(3)] k by auto
    have "(4 :: nat) ^ Suc k \<le> 4 ^ ?L" by (rule power_increasing) (use k in simp_all)
    then have v: "4 * dval Ds i k + ?D ! ?p < 2 ^ LENGTH('a)"
      using dval_less [OF ok(1) _ ok(3), of "Suc k"] k w by simp
    then have u: "unat (of_nat (dval Ds i k) :: 'a word) = dval Ds i k" by (simp add: unat_of_nat_small)
    have push: "push_digit (of_nat (dval Ds i k)) (?D ! ?p) = (of_nat (dval Ds i (Suc k)) :: 'a word)"
      using push_digit_unat [of "?D ! ?p" "of_nat (dval Ds i k) :: 'a word"] D(3) v u
        unat_of_nat_small [OF v] by (simp add: word_unat_eq_iff del: of_nat_add of_nat_mult)
    have "dstep ?D ?p < n" using dstep_less [of ?D ?p] levels_okD [OF ok(1) k] D(2) by simp
    then have "dstep ?D ?p < 2 ^ 64" using ok(2) by simp
    moreover have "min k (?L - 1) = k" "min (Suc k) (?L - 1) = (if Suc k < ?L then Suc k else k)" using k by auto
    ultimately show "qw_decode_step R ?L (?g k) (k, qvs ! k) = Some (Inr (?g (Suc k)))"
      using k D reps(2) [OF k] push
      by (simp add: qw_decode_step_def Let_def get_rep occs_smaller_rep rank_rep add_usize_def dstep_def
        del: of_nat_add of_nat_mult)
  qed
  then show ?thesis by (simp add: qw_decode_def zip del: foldR.simps)
qed

text \<open>\<open>from_parts\<close> on levels that represent digit lists of length \<open>n\<close>: accepted exactly when the
  level count and \<open>sigma\<close> are those of the decoded sequence.\<close>

lemma even_levels:
  assumes "even LENGTH('a::len)" "L \<le> div_ceil LENGTH('a) 2"
  shows "4 ^ L \<le> (2 :: nat) ^ LENGTH('a)"
proof -
  have "2 * L \<le> LENGTH('a)" using assms by (auto simp: div_ceil_def)
  then have "(2 :: nat) ^ (2 * L) \<le> 2 ^ LENGTH('a)" by (rule power_increasing) simp
  then show ?thesis by (simp add: power_mult)
qed

lemma max_symbol_decoded:
  assumes "length qvs = length Ds" "\<And>l. l < length Ds \<Longrightarrow> rep (qvs ! l) (Ds ! l)"
    and "levels_ok Ds n" "n < 2 ^ 64" "0 < length Ds" "4 ^ length Ds \<le> (2 :: nat) ^ LENGTH('a::len)"
  shows "foldR (qw_decode R (length Ds) qvs) 0 [0..<n] = Some (Inr (max_symbol (decode_levels Ds n :: 'a word list)))"
proof -
  let ?xs = "decode_levels Ds n :: 'a word list"
  let ?g = "\<lambda>k. fold max (take k ?xs) 0"
  have "foldR (qw_decode R (length Ds) qvs) (?g 0) (map id [0..<n]) = Some (Inr (?g n))"
  proof (rule foldR_upt_value)
    fix k assume k: "k < n"
    then have "take (Suc k) ?xs = take k ?xs @ [of_nat (dval Ds k (length Ds))]"
      by (simp add: take_Suc_conv_app_nth decode_levels_def)
    then have "?g (Suc k) = max (?g k) (of_nat (dval Ds k (length Ds)))" by (simp add: max.commute)
    then show "qw_decode R (length Ds) qvs (?g k) (id k) = Some (Inr (?g (Suc k)))"
      using decode_eq [OF assms(1,2,3,4) k assms(5,6)] by simp
  qed
  then show ?thesis by (simp add: max_symbol_def decode_levels_def)
qed

lemma from_parts_nonempty:
  fixes sigma :: "'a::len word" and qvs :: "'r list"
  assumes reps: "length qvs = length Ds" "\<And>l. l < length Ds \<Longrightarrow> rep (qvs ! l) (Ds ! l)"
    "\<forall>D\<in>set Ds. length D < 2 ^ 64 \<and> (\<forall>d\<in>set D. d < 4)" and n: "0 < n" "n < 2 ^ 64" and w: "even LENGTH('a)"
  shows "qw_from_parts R False n L sigma qvs = Some (Inr (t :: ('a word, 'r, 'p) qwt)) \<longleftrightarrow>
    t = \<lparr>qw_n = n, qw_n_levels = L, qw_sigma = sigma, qw_qvs = qvs, qw_prefetch_support = None\<rparr>
    \<and> L \<le> MAX_QUAD_LEVELS \<and> length Ds = L \<and> L = div_ceil (msb_of sigma + 1) 2 \<and> levels_ok Ds n
    \<and> max_symbol (decode_levels Ds n :: 'a word list) = sigma"
proof -
  have lev: "0 < div_ceil (msb_of sigma + 1) 2" "2 * (div_ceil (msb_of sigma + 1) 2 - 1) < LENGTH('a)"
    using levels_bounds [of sigma] by blast+
  have cap: "div_ceil (msb_of sigma + 1) 2 \<le> div_ceil LENGTH('a) 2"
    using lev(2) w by (auto simp: div_ceil_def)
  have qvs: "qvs = map (\<lambda>l. qvs ! l) [0..<length Ds]" using map_nth [of qvs] reps(1) by simp
  have step: "qw_check_level R n u (qvs ! l)
      = Some (if length (Ds ! l) = n then Inr u else Inl (Inconsistent ''QWT level length disagrees with header length''))"
    if "l \<in> set [0..<length Ds]" for u l
  proof -
    have l: "l < length Ds" using that by simp
    then have "length (Ds ! l) < 2 ^ 64" "\<forall>d\<in>set (Ds ! l). d < 4" using reps(3) nth_mem [OF l] by blast+
    then show ?thesis using check_level_eq [OF reps(2) [OF l], of n u] by simp
  qed
  have chk: "foldR (qw_check_level R n) () qvs = Some (Inr ()) \<longleftrightarrow> levels_ok Ds n"
    by (subst qvs, subst foldR_map, subst foldR_checks [OF step])
      (use reps(3) in \<open>auto simp: levels_ok_def all_set_conv_all_nth\<close>)
  have dec: "foldR (qw_decode R L qvs) 0 [0..<n] = Some (Inr (max_symbol (decode_levels Ds n :: 'a word list)))"
    if "levels_ok Ds n" "length Ds = L" "0 < L" "L \<le> div_ceil LENGTH('a) 2"
    using max_symbol_decoded [OF reps(1,2) that(1) n(2)] that(2,3) even_levels [OF w that(4)] by blast
  have "qw_from_parts R False n L sigma qvs = Some (Inr t) \<longleftrightarrow>
      t = \<lparr>qw_n = n, qw_n_levels = L, qw_sigma = sigma, qw_qvs = qvs, qw_prefetch_support = None\<rparr>
      \<and> L \<le> MAX_QUAD_LEVELS \<and> L \<le> div_ceil LENGTH('a) 2 \<and> 0 < L \<and> length Ds = L \<and> L = div_ceil (msb_of sigma + 1) 2
      \<and> levels_ok Ds n \<and> foldR (qw_decode R L qvs) 0 [0..<n] = Some (Inr sigma)"
    using n(1) reps(1) chk by (auto simp: qw_from_parts_def Let_def rbind_Inr_iff reject_Inr_iff)
  then show ?thesis using dec lev(1) cap by auto
qed

text \<open>The parts of a tree that represents a sequence are accepted; accepted parts represent one.\<close>

lemma from_parts_of_tree:
  fixes t :: "('a::len word, 'r, 'p) qwt"
  assumes ok: "qw_ok rep t xs" and w: "even LENGTH('a)" "LENGTH('a) \<le> 128" and n: "length xs < 2 ^ 64"
  shows "qw_from_parts R False (qw_n t) (qw_n_levels t) (qw_sigma t) (qw_qvs t)
    = Some (Inr (t\<lparr>qw_prefetch_support := (None :: 'p list option)\<rparr>))"
proof (cases "xs = []")
  case True
  then show ?thesis using ok by (simp add: qw_ok_def qw_from_parts_def MAX_QUAD_LEVELS_def)
next
  case False
  let ?L = "qw_n_levels t"
  let ?Ds = "map (wm_digits ?L xs) [0..<?L]"
  note lev = qw_ok_levels [OF ok False]
  have sg: "qw_sigma t = max_symbol xs" "?L = div_ceil (msb_of (qw_sigma t) + 1) 2" using ok False by (simp_all add: qw_ok_def)
  have dw: "levels_ok ?Ds (length xs)" "decode_levels ?Ds (length xs) = xs"
    by (rule decoded_wm [of ?Ds ?L xs]; use lev(2) in simp)+
  have "2 * (?L - 1) < 128" using lev(3) w(2) by simp
  then have cap: "?L \<le> MAX_QUAD_LEVELS" by (simp add: MAX_QUAD_LEVELS_def)
  have "qw_from_parts R False (length xs) ?L (qw_sigma t) (qw_qvs t)
      = Some (Inr (\<lparr>qw_n = length xs, qw_n_levels = ?L, qw_sigma = qw_sigma t, qw_qvs = qw_qvs t, qw_prefetch_support = None\<rparr> :: ('a word, 'r, 'p) qwt))"
    by (subst from_parts_nonempty [where Ds = ?Ds])
      (use lev dw cap sg n w False in \<open>auto dest: wm_digits_less\<close>)
  then show ?thesis using lev(7) by simp
qed

lemma from_parts_sound:
  fixes t :: "('a::len word, 'r, 'p) qwt"
  assumes acc: "qw_from_parts R False n L sigma qvs = Some (Inr t)"
    and reps: "\<forall>r\<in>set qvs. \<exists>D. rep r D \<and> length D < 2 ^ 64 \<and> (\<forall>d\<in>set D. d < 4)" and n: "n < 2 ^ 64" and w: "even LENGTH('a)"
  shows "\<exists>xs. length xs = n \<and> qw_ok rep t xs"
proof (cases "n = 0")
  case True
  then show ?thesis
    using acc by (auto simp: qw_from_parts_def Let_def rbind_Inr_iff reject_Inr_iff qw_ok_def)
next
  case False
  obtain f where f: "\<forall>r\<in>set qvs. rep r (f r) \<and> length (f r) < 2 ^ 64 \<and> (\<forall>d\<in>set (f r). d < 4)" using bchoice [OF reps] by blast
  let ?Ds = "map f qvs"
  let ?xs = "decode_levels ?Ds n :: 'a word list"
  have parts: "t = \<lparr>qw_n = n, qw_n_levels = L, qw_sigma = sigma, qw_qvs = qvs, qw_prefetch_support = None\<rparr>"
    "length ?Ds = L" "L = div_ceil (msb_of sigma + 1) 2" "levels_ok ?Ds n" "max_symbol ?xs = sigma"
    using acc from_parts_nonempty [of qvs ?Ds n L sigma t] f False n w by auto
  have len: "length ?xs = n" by (simp add: decode_levels_def)
  have "2 * (L - 1) < LENGTH('a)" unfolding parts(3) using levels_bounds [of sigma] by blast
  then have "L \<le> div_ceil LENGTH('a) 2" using w by (auto simp: div_ceil_def)
  then have bnd: "4 ^ length ?Ds \<le> (2 :: nat) ^ LENGTH('a)" unfolding parts(2) by (rule even_levels [OF w])
  have "rep (qvs ! l) (wm_digits L ?xs l)" if "l < L" for l
    using decoded_levels [OF parts(4) bnd, of l] parts(2) that f nth_mem [of l qvs] by simp
  then have "qw_ok rep t ?xs" using parts len False by (auto simp: qw_ok_def)
  then show ?thesis using len by blast
qed

end

end
