(* ===== verification/BitLine.thy ===== *)
theory BitLine
  imports SelectWord
begin

text \<open>
  The 512-bit data line of a bit vector: \<open>DataLine\<close> in \<^verbatim>\<open>src/bitvector/mod.rs\<close>. Its eight words read as
  one sequence of bits (\<open>lbit\<close>); rank and select of a line are those of the sequence. \<open>select0\<close>
  of a line calls the select of ones, so it is wrong wherever the two differ.
\<close>

section \<open>Definitions\<close>

record bit_line =
  bl_words :: "u64 list"

definition bl_default :: bit_line where
  "bl_default = \<lparr>bl_words = replicate 8 0\<rparr>"

definition bl_set_symbol :: "bit_line \<Rightarrow> u64 \<Rightarrow> nat \<Rightarrow> bit_line option" where
  "bl_set_symbol self symbol i = do {
     guard (i < 512);
     let mask = push_bit (i mod 64) 1;
     w \<leftarrow> idx (bl_words self) (drop_bit 6 i);
     let w = w XOR (w AND mask);
     let w = w XOR push_bit (i mod 64) (symbol AND 1);
     Some (self\<lparr>bl_words := (bl_words self)[drop_bit 6 i := w]\<rparr>)
   }"

definition bl_get_word :: "bit_line \<Rightarrow> nat \<Rightarrow> u64 option" where
  "bl_get_word self i = do { guard (i < 8); idx (bl_words self) i }"

definition bl_count_ones :: "bit_line \<Rightarrow> nat" where
  "bl_count_ones self = foldl (\<lambda>a x. a + pop x) 0 (bl_words self)"

definition bl_count_zeros :: "bit_line \<Rightarrow> nat option" where
  "bl_count_zeros self = chk_sub 512 (bl_count_ones self)"

definition bl_get_unchecked :: "bit_line \<Rightarrow> nat \<Rightarrow> bool option" where
  "bl_get_unchecked self i = do { w \<leftarrow> idx (bl_words self) (drop_bit 6 i); Some (drop_bit (i mod 64) w AND 1 = 1) }"

definition bl_get :: "bit_line \<Rightarrow> nat \<Rightarrow> bool option option" where
  "bl_get self i = do { guard (i < 512); b \<leftarrow> bl_get_unchecked self i; Some (Some b) }"

text \<open>The loop over the words; \<open>left\<close> is an \<open>i32\<close> that becomes negative.\<close>

fun bl_rank_loop :: "u64 list \<Rightarrow> int \<Rightarrow> nat \<Rightarrow> nat" where
  "bl_rank_loop [] left rank = rank"
| "bl_rank_loop (cur_word # ws) left rank =
     (if left < 0 then rank
      else let mask = (if left > 63 then 0xFFFFFFFFFFFFFFFF else push_bit (nat left) 1 - 1)
           in bl_rank_loop ws (left - 64) (rank + pop (cur_word AND mask)))"

definition bl_rank1_unchecked :: "bit_line \<Rightarrow> nat \<Rightarrow> nat" where
  "bl_rank1_unchecked self i = bl_rank_loop (bl_words self) (sint (of_nat i :: 32 word)) 0"

definition bl_rank1 :: "bit_line \<Rightarrow> nat \<Rightarrow> nat option" where
  "bl_rank1 self i = (if i > 512 then None else Some (bl_rank1_unchecked self i))"

fun bl_select_loop :: "u64 list \<Rightarrow> nat \<Rightarrow> nat \<Rightarrow> nat \<Rightarrow> nat option" where
  "bl_select_loop [] i off rank = Some off"
| "bl_select_loop (w # ws) i off rank = do {
     let kp = pop w;
     k \<leftarrow> chk_sub i rank;
     if kp > k then do { p \<leftarrow> select_in_word w (of_nat k); Some (off + p) }
     else bl_select_loop ws i (off + 64) (rank + kp)
   }"

definition bl_select1_unchecked :: "bit_line \<Rightarrow> nat \<Rightarrow> nat option" where
  "bl_select1_unchecked self i = bl_select_loop (bl_words self) i 0 0"

definition bl_select1 :: "bit_line \<Rightarrow> nat \<Rightarrow> nat option option" where
  "bl_select1 self i =
     (if i \<ge> bl_count_ones self then Some None
      else do { p \<leftarrow> bl_select1_unchecked self i; Some (Some p) })"

definition bl_select0_unchecked :: "bit_line \<Rightarrow> nat \<Rightarrow> nat option" where
  "bl_select0_unchecked self i = bl_select_loop (map (\<lambda>w. NOT w) (bl_words self)) i 0 0"

text \<open>The code calls \<open>select1_unchecked\<close> here.\<close>

definition bl_select0 :: "bit_line \<Rightarrow> nat \<Rightarrow> nat option option" where
  "bl_select0 self i = do {
     z \<leftarrow> bl_count_zeros self;
     if i \<ge> z then Some None
     else do { p \<leftarrow> bl_select1_unchecked self i; Some (Some p) }
   }"

section \<open>Bits of a list of words\<close>

definition lbit :: "u64 list \<Rightarrow> nat \<Rightarrow> bool" where
  "lbit ws p = bit (ws ! (p div 64)) (p mod 64)"

lemma lbit_Cons_low: "p < 64 \<Longrightarrow> lbit (w # ws) p = bit w p"
  by (simp add: lbit_def)

lemma lbit_Cons_high: "lbit (w # ws) (64 + p) = lbit ws p"
proof -
  have "(64 + p) div 64 = Suc (p div 64)" by (subst div_add_self1) simp_all
  then show ?thesis by (simp add: lbit_def)
qed

lemma cntp_lbit_Cons_low: "n \<le> 64 \<Longrightarrow> cntp (lbit (w # ws)) n = cntp (bit w) n"
  by (rule cntp_cong) (simp add: lbit_Cons_low)

lemma cntp_lbit_Cons: "cntp (lbit (w # ws)) (64 + n) = pop w + cntp (lbit ws) n"
  by (simp add: cntp_add cntp_lbit_Cons_low lbit_Cons_high pop_def)

lemma lbit_map_not: "p < 64 * length ws \<Longrightarrow> lbit (map (\<lambda>w. NOT w) ws) p \<longleftrightarrow> \<not> lbit ws p"
  by (simp add: lbit_def bit_not_iff less_mult_imp_div_less mult.commute)

lemma lbit_append_low: "p < 64 * length ws \<Longrightarrow> lbit (ws @ vs) p = lbit ws p"
  by (simp add: lbit_def nth_append less_mult_imp_div_less mult.commute)

lemma lbit_append_high: "lbit (ws @ vs) (64 * length ws + p) = lbit vs p"
  by (simp add: lbit_def nth_append)

lemma lbit_zeros: "p < 64 * n \<Longrightarrow> \<not> lbit (replicate n 0) p"
  by (simp add: lbit_def less_mult_imp_div_less mult.commute)

lemma pop_sum_lbit: "sum_list (map pop ws) = cntp (lbit ws) (64 * length ws)"
  by (induction ws) (simp_all add: cntp_lbit_Cons)

lemma foldl_pop: "foldl (\<lambda>a x. a + pop x) r ws = r + sum_list (map pop ws)"
  by (induction ws arbitrary: r) auto

lemma drop_bit_6: "drop_bit 6 i = i div (64 :: nat)"
  by (simp add: drop_bit_eq_div)

lemma bit_odd_iff: "drop_bit n w AND 1 = (1 :: 'a::len word) \<longleftrightarrow> bit w n"
  by (simp add: bit_iff_and_drop_bit_eq_1 and.commute)

text \<open>Rewriting one bit.\<close>

lemma lbit_update:
  assumes "i < 64 * length ws" "bit w' (i mod 64) = b" "\<And>j. j < 64 \<Longrightarrow> j \<noteq> i mod 64 \<Longrightarrow> bit w' j = bit (ws ! (i div 64)) j"
  shows "lbit (ws[i div 64 := w']) p = (if p = i then b else lbit ws p)"
proof (cases "p div 64 = i div 64")
  case True
  have "i div 64 < length ws" using assms(1) by (simp add: less_mult_imp_div_less mult.commute)
  moreover have "p mod 64 = i mod 64 \<longleftrightarrow> p = i" using True by (metis mult_div_mod_eq)
  ultimately show ?thesis using True assms(2) assms(3) [of "p mod 64"] by (auto simp: lbit_def)
qed (auto simp: lbit_def)

section \<open>Lines\<close>

definition bl_ok :: "bit_line \<Rightarrow> bool" where
  "bl_ok l \<longleftrightarrow> length (bl_words l) = 8"

lemma bl_default_ok [simp]: "bl_ok bl_default"
  by (simp add: bl_ok_def bl_default_def)

lemma bl_set_symbol_eq:
  assumes "bl_ok l" "i < 512"
  obtains l' where "bl_set_symbol l symbol i = Some l'" "bl_ok l'"
    "\<And>p. lbit (bl_words l') p = (if p = i then bit symbol 0 else lbit (bl_words l) p)"
proof -
  let ?m = "push_bit (i mod 64) 1 :: u64" and ?w = "bl_words l ! (i div 64)"
  let ?w' = "(?w XOR (?w AND ?m)) XOR push_bit (i mod 64) (symbol AND 1)"
  have i: "i div 64 < length (bl_words l)" "i < 64 * length (bl_words l)" using assms by (auto simp: bl_ok_def)
  have b: "bit ?w' j = (if j = i mod 64 then bit symbol 0 else bit ?w j)" if "j < 64" for j
  proof (cases "j = i mod 64")
    case True
    then show ?thesis by (auto simp: bit_xor_iff bit_and_iff bit_push_bit_iff bit_1_iff bit_exp_iff)
  next
    case False
    then have "\<not> (i mod 64 \<le> j \<and> j - i mod 64 = 0)" by auto
    then show ?thesis using False that by (auto simp: bit_xor_iff bit_and_iff bit_push_bit_iff bit_1_iff bit_exp_iff)
  qed
  have b1: "bit ?w' (i mod 64) = bit symbol 0" by (subst b) simp_all
  have b2: "bit ?w' j = bit ?w j" if "j < 64" "j \<noteq> i mod 64" for j using that by (subst b) simp_all
  have "lbit ((bl_words l)[i div 64 := ?w']) p = (if p = i then bit symbol 0 else lbit (bl_words l) p)" for p
    by (rule lbit_update [OF i(2) b1 b2])
  moreover have "bl_set_symbol l symbol i = Some (l\<lparr>bl_words := (bl_words l)[i div 64 := ?w']\<rparr>)"
    using assms(2) i(1) by (simp add: bl_set_symbol_def drop_bit_6)
  moreover have "bl_ok (l\<lparr>bl_words := (bl_words l)[i div 64 := ?w']\<rparr>)" using assms(1) by (simp add: bl_ok_def)
  ultimately show thesis using that by simp
qed

lemma bl_count_ones_eq: "bl_ok l \<Longrightarrow> bl_count_ones l = cntp (lbit (bl_words l)) 512"
  using pop_sum_lbit [of "bl_words l"] by (simp add: bl_count_ones_def bl_ok_def foldl_pop)

lemma bl_count_zeros_eq: "bl_ok l \<Longrightarrow> bl_count_zeros l = Some (cntp (\<lambda>p. \<not> lbit (bl_words l) p) 512)"
  by (simp add: bl_count_zeros_def bl_count_ones_eq cntp_le cntp_neg)

lemma bl_get_unchecked_eq: "bl_ok l \<Longrightarrow> i < 512 \<Longrightarrow> bl_get_unchecked l i = Some (lbit (bl_words l) i)"
  by (simp add: bl_get_unchecked_def bl_ok_def drop_bit_6 lbit_def bit_odd_iff)

lemma bl_rank_loop_eq: "bl_rank_loop ws (int i) r = r + cntp (lbit ws) (min i (64 * length ws))"
proof (induction ws arbitrary: i r)
  case (Cons w ws)
  show ?case
  proof (cases "i < 64")
    case True
    have neg: "bl_rank_loop vs (int i - 64) q = q" for vs q using True by (cases vs) auto
    have "pop (w AND (2 ^ i - 1)) = cntp (bit w) i"
      using pop_and_mask [of i w] True unfolding mask_eq_exp_minus_1 by simp
    then show ?thesis using True neg by (simp add: cntp_lbit_Cons_low min_def)
  next
    case False
    have "int i - 64 = int (i - 64)" using False by simp
    moreover have "min i (64 * length (w # ws)) = 64 + min (i - 64) (64 * length ws)" using False by auto
    moreover have "w AND 0xFFFFFFFFFFFFFFFF = w"
    proof -
      have "(0xFFFFFFFFFFFFFFFF :: u64) = - 1" by simp
      show ?thesis unfolding \<open>0xFFFFFFFFFFFFFFFF = - 1\<close> by simp
    qed
    ultimately show ?thesis using False Cons.IH [of "i - 64"] by (simp add: cntp_lbit_Cons)
  qed
qed simp

lemma bl_rank1_unchecked_eq:
  assumes "bl_ok l" "i \<le> 512"
  shows "bl_rank1_unchecked l i = cntp (lbit (bl_words l)) i"
proof -
  have "sint (of_nat i :: 32 word) = int i"
    using assms(2) by (simp add: signed_of_nat signed_take_bit_int_eq_self)
  then show ?thesis using assms bl_rank_loop_eq [of "bl_words l" i 0] by (simp add: bl_rank1_unchecked_def bl_ok_def min_def)
qed

lemma bl_select_loop_eq:
  assumes "r \<le> i" "i - r < 2 ^ 64"
  shows "bl_select_loop ws i off r
    = Some (off + (case selp (lbit ws) (64 * length ws) (i - r) of Some p \<Rightarrow> p | None \<Rightarrow> 64 * length ws))"
  using assms
proof (induction ws arbitrary: off r)
  case Nil
  then show ?case by (simp add: selp_def)
next
  case (Cons w ws)
  show ?case
  proof (cases "pop w > i - r")
    case True
    have small: "i - r < 64" using True pop_le [of w] by simp
    then obtain p where p: "p < 64" "bit w p" "cntp (bit w) p = i - r"
      using cntp_ex [of "i - r" "bit w" 64] True by (auto simp: pop_def)
    have "selp (bit w) 64 (i - r) = Some p" using p by (simp add: selp_eq_Some_iff)
    then have "select_in_word w (of_nat (i - r)) = Some p"
      using small by (subst select_in_word_eq) (simp_all add: unat_of_nat_small)
    moreover have "selp (lbit (w # ws)) (64 * length (w # ws)) (i - r) = Some p"
      using p by (simp add: selp_eq_Some_iff lbit_Cons_low cntp_lbit_Cons_low)
    ultimately show ?thesis using True Cons.prems by simp
  next
    case False
    have IH: "bl_select_loop ws i (off + 64) (r + pop w)
        = Some (off + 64 + (case selp (lbit ws) (64 * length ws) (i - (r + pop w)) of Some p \<Rightarrow> p | None \<Rightarrow> 64 * length ws))"
      by (rule Cons.IH) (use False Cons.prems in auto)
    have "selp (lbit (w # ws)) (64 * length (w # ws)) (i - r)
        = map_option ((+) 64) (selp (lbit ws) (64 * length ws) (i - (r + pop w)))"
    proof (cases "selp (lbit ws) (64 * length ws) (i - (r + pop w))")
      case None
      then have "cntp (lbit (w # ws)) (64 * length (w # ws)) \<le> i - r"
        using False Cons.prems by (simp add: selp_None_iff cntp_lbit_Cons)
      then have "selp (lbit (w # ws)) (64 * length (w # ws)) (i - r) = None" by (simp only: selp_None_iff)
      then show ?thesis using None by simp
    next
      case (Some p)
      then have "selp (lbit (w # ws)) (64 * length (w # ws)) (i - r) = Some (64 + p)"
        using False Cons.prems by (simp add: selp_eq_Some_iff lbit_Cons_high cntp_lbit_Cons)
      then show ?thesis using Some by simp
    qed
    then show ?thesis
      using False Cons.prems IH by (auto split: option.splits)
  qed
qed

lemma bl_select1_unchecked_eq:
  assumes "bl_ok l" "selp (lbit (bl_words l)) 512 i = Some p"
  shows "bl_select1_unchecked l i = Some p"
proof -
  have "i < 2 ^ 64" using assms(2) cntp_le [of "lbit (bl_words l)" p] by (auto simp: selp_eq_Some_iff)
  then show ?thesis using bl_select_loop_eq [of 0 i "bl_words l" 0] assms by (simp add: bl_select1_unchecked_def bl_ok_def)
qed

lemma bl_select0_unchecked_eq:
  assumes "bl_ok l" "selp (\<lambda>p. \<not> lbit (bl_words l) p) 512 i = Some p"
  shows "bl_select0_unchecked l i = Some p"
proof -
  let ?ws = "map (\<lambda>w. NOT w) (bl_words l)"
  have len: "64 * length (bl_words l) = 512" using assms(1) by (simp add: bl_ok_def)
  have p: "p < 512" "\<not> lbit (bl_words l) p" "cntp (\<lambda>p. \<not> lbit (bl_words l) p) p = i" using assms(2) by (auto simp: selp_eq_Some_iff)
  have "cntp (lbit ?ws) p = i"
    unfolding p(3) [symmetric] by (rule cntp_cong) (use p(1) len in \<open>simp add: lbit_map_not\<close>)
  then have "selp (lbit ?ws) (64 * length ?ws) i = Some p"
    using p len by (simp add: selp_eq_Some_iff lbit_map_not)
  moreover have "i < 2 ^ 64" using p cntp_le [of "\<lambda>p. \<not> lbit (bl_words l) p" p] by auto
  ultimately show ?thesis using bl_select_loop_eq [of 0 i ?ws 0] by (simp add: bl_select0_unchecked_def)
qed

lemma bl_select1_eq: "bl_ok l \<Longrightarrow> bl_select1 l i = Some (selp (lbit (bl_words l)) 512 i)"
  using bl_select1_unchecked_eq [of l i] selp_None_iff [of "lbit (bl_words l)" 512 i]
  by (cases "selp (lbit (bl_words l)) 512 i") (auto simp: bl_select1_def bl_count_ones_eq)

end
