(* ===== verification/BitVec.thy ===== *)
theory BitVec
  imports BitLine Layout StablePart
begin

text \<open>
  Bit vectors, \<^verbatim>\<open>src/bitvector/mod.rs\<close>: the mutable \<open>BitVectorMut\<close>, the immutable \<open>BitVector\<close> and
  the conversions. A vector stands for the list of its first \<open>n_bits\<close> bits (\<open>bm_list\<close>). \<open>bm_shape\<close> says
  that it has exactly the lines it needs and that the bits beyond \<open>n_bits\<close> are zero, \<open>bm_ok\<close> also that the
  stored number of ones is right. Every operation keeps \<open>bm_shape\<close>, and every one but \<open>set_bits\<close> also \<open>bm_ok\<close>:
  \<open>set_bits\<close> adds the ones it writes without subtracting those it overwrites. The additions on \<open>n_bits\<close> and
  \<open>count_ones\<close> are checked.
\<close>

section \<open>Definitions\<close>

record bitvector_mut =
  bm_data :: "bit_line list"
  bm_n_bits :: nat
  bm_count_ones :: nat

record bitvector =
  bv_data :: "bit_line list"
  bv_n_bits :: nat
  bv_count_ones :: nat

definition cast_to_u64_slice :: "bit_line list \<Rightarrow> u64 list" where
  "cast_to_u64_slice data_lines = concat (map bl_words data_lines)"

definition bm_new :: bitvector_mut where
  "bm_new = \<lparr>bm_data = [], bm_n_bits = 0, bm_count_ones = 0\<rparr>"

text \<open>\<open>with_capacity\<close> counts 64-bit words, but reserves that many lines of 64 bytes.\<close>

definition bm_with_capacity :: "nat \<Rightarrow> bitvector_mut option" where
  "bm_with_capacity n_bits = do {
     let capacity = div_ceil n_bits 64;
     guard (capacity * 64 < 2 ^ 63);
     Some bm_new
   }"

definition bm_push :: "bitvector_mut \<Rightarrow> bool \<Rightarrow> bitvector_mut option" where
  "bm_push self b = (
     let pos_in_line = bm_n_bits self mod 512;
         data = (if pos_in_line = 0 then bm_data self @ [bl_default] else bm_data self)
     in if b then do {
          data \<leftarrow> (if data = [] then Some data
            else do { l \<leftarrow> bl_set_symbol (last data) 1 pos_in_line; Some (butlast data @ [l]) });
          count_ones \<leftarrow> add_usize (bm_count_ones self) 1;
          n_bits \<leftarrow> add_usize (bm_n_bits self) 1;
          Some \<lparr>bm_data = data, bm_n_bits = n_bits, bm_count_ones = count_ones\<rparr>
        } else do {
          n_bits \<leftarrow> add_usize (bm_n_bits self) 1;
          Some \<lparr>bm_data = data, bm_n_bits = n_bits, bm_count_ones = bm_count_ones self\<rparr>
        })"

text \<open>\<open>assert!(len == 64 || (bits >> len) == 0)\<close>; the shift overflows when \<open>len\<close> is above 64.\<close>

definition spurious_free :: "u64 \<Rightarrow> nat \<Rightarrow> bool" where
  "spurious_free bits len \<longleftrightarrow> len = 64 \<or> len < 64 \<and> drop_bit len bits = 0"

definition bm_append_bits :: "bitvector_mut \<Rightarrow> u64 \<Rightarrow> nat \<Rightarrow> bitvector_mut option" where
  "bm_append_bits self bits len = do {
     guard (spurious_free bits len);
     guard (len \<le> 64);
     if len = 0 then Some self
     else foldM (\<lambda>self i. bm_push self (drop_bit i bits AND 1 = 1)) self [0..<len]
   }"

definition resize_lines :: "bit_line list \<Rightarrow> nat \<Rightarrow> bit_line list" where
  "resize_lines data n = take n data @ replicate (n - length data) bl_default"

definition bm_extend_with_zeros :: "bitvector_mut \<Rightarrow> nat \<Rightarrow> bitvector_mut option" where
  "bm_extend_with_zeros self n = do {
     n_bits \<leftarrow> add_usize (bm_n_bits self) n;
     let new_size = div_ceil n_bits 512;
     Some (self\<lparr>bm_n_bits := n_bits, bm_data := resize_lines (bm_data self) new_size\<rparr>)
   }"

definition bm_with_zeros :: "nat \<Rightarrow> bitvector_mut option" where
  "bm_with_zeros n_bits = do { bv \<leftarrow> bm_with_capacity n_bits; bm_extend_with_zeros bv n_bits }"

definition bm_from_packed_data :: "u64 list \<Rightarrow> nat \<Rightarrow> bitvector_mut option" where
  "bm_from_packed_data data n_bits = do {
     available \<leftarrow> mul_usize (length data) 64;
     guard (n_bits \<le> available);
     let data = take (div_ceil n_bits 64) data;
     v \<leftarrow> bm_with_capacity n_bits;
     if data = [] then Some v
     else do {
       v \<leftarrow> foldM (\<lambda>v d. bm_append_bits v d 64) v (butlast data);
       bm_append_bits v (last data) ((n_bits - 1) mod 64 + 1)
     }
   }"

definition get_bit_slice :: "u64 list \<Rightarrow> nat \<Rightarrow> bool option" where
  "get_bit_slice data index = (
     let word = drop_bit 6 index; pos_in_word = index AND 63
     in do { w \<leftarrow> idx data word; Some (drop_bit pos_in_word w AND 1 = 1) })"

definition bm_get_unchecked :: "bitvector_mut \<Rightarrow> nat \<Rightarrow> bool option" where
  "bm_get_unchecked self index = get_bit_slice (cast_to_u64_slice (bm_data self)) index"

definition bm_len :: "bitvector_mut \<Rightarrow> nat" where
  "bm_len self = bm_n_bits self"

definition bm_is_empty :: "bitvector_mut \<Rightarrow> bool" where
  "bm_is_empty self \<longleftrightarrow> bm_n_bits self = 0"

definition bm_count_zeros :: "bitvector_mut \<Rightarrow> nat option" where
  "bm_count_zeros self = chk_sub (bm_len self) (bm_count_ones self)"

definition bm_get :: "bitvector_mut \<Rightarrow> nat \<Rightarrow> bool option option" where
  "bm_get self index =
     (if index \<ge> bm_len self then Some None else do { b \<leftarrow> bm_get_unchecked self index; Some (Some b) })"

definition bm_set :: "bitvector_mut \<Rightarrow> nat \<Rightarrow> bool \<Rightarrow> bitvector_mut option" where
  "bm_set self index b = do {
     guard (index < bm_n_bits self);
     old \<leftarrow> bm_get_unchecked self index;
     count_ones \<leftarrow> (if b \<and> \<not> old then add_usize (bm_count_ones self) 1
       else if \<not> b \<and> old then chk_sub (bm_count_ones self) 1 else Some (bm_count_ones self));
     let dl = drop_bit 9 index;
     let pos_in_dl = index AND 511;
     l \<leftarrow> idx (bm_data self) dl;
     l \<leftarrow> bl_set_symbol l (if b then 1 else 0) pos_in_dl;
     Some (self\<lparr>bm_count_ones := count_ones, bm_data := (bm_data self)[dl := l]\<rparr>)
   }"

definition bm_set_bits :: "bitvector_mut \<Rightarrow> nat \<Rightarrow> nat \<Rightarrow> u64 \<Rightarrow> bitvector_mut option" where
  "bm_set_bits self index len bits = do {
     e \<leftarrow> add_usize index len;
     guard (e \<le> bm_n_bits self);
     guard (spurious_free bits len);
     guard (len \<le> 64);
     if len = 0 then Some self
     else do {
       count_ones \<leftarrow> add_usize (bm_count_ones self) (pop bits);
       data \<leftarrow> foldM (\<lambda>data i. do {
           l \<leftarrow> idx data (drop_bit 9 (index + i));
           l \<leftarrow> bl_set_symbol l (drop_bit i bits AND 1) ((index + i) mod 512);
           Some (data[drop_bit 9 (index + i) := l])
         }) (bm_data self) [0..<len];
       Some (self\<lparr>bm_count_ones := count_ones, bm_data := data\<rparr>)
     }
   }"

definition get_bits_slice :: "u64 list \<Rightarrow> nat \<Rightarrow> nat \<Rightarrow> u64 option" where
  "get_bits_slice data index len = (
     let block = drop_bit 6 index; shift = index AND 63;
         msk = (if len = 64 then 0xFFFFFFFFFFFFFFFF else push_bit len 1 - 1)
     in if shift + len \<le> 64 then do { w \<leftarrow> idx data block; Some (drop_bit shift w AND msk) }
        else do {
          w0 \<leftarrow> idx data block;
          w1 \<leftarrow> idx data (block + 1);
          Some (drop_bit shift w0 OR (push_bit (64 - shift) w1 AND msk))
        })"

definition bm_get_bits_unchecked :: "bitvector_mut \<Rightarrow> nat \<Rightarrow> nat \<Rightarrow> u64 option" where
  "bm_get_bits_unchecked self index len = get_bits_slice (cast_to_u64_slice (bm_data self)) index len"

definition bm_get_bits :: "bitvector_mut \<Rightarrow> nat \<Rightarrow> nat \<Rightarrow> u64 option option" where
  "bm_get_bits self index len =
     (if len = 0 \<or> len > 64 then Some None
      else case add_usize index len of None \<Rightarrow> Some None
      | Some e \<Rightarrow> if e > bm_n_bits self then Some None
                  else do { w \<leftarrow> bm_get_bits_unchecked self index len; Some (Some w) })"

definition bm_get_word :: "bitvector_mut \<Rightarrow> nat \<Rightarrow> u64 option" where
  "bm_get_word self i = do { l \<leftarrow> idx (bm_data self) (drop_bit 3 i); idx (bl_words l) (i mod 8) }"

definition bm_extend_bools :: "bitvector_mut \<Rightarrow> bool list \<Rightarrow> bitvector_mut option" where
  "bm_extend_bools self bits = foldM bm_push self bits"

definition bm_extend_positions :: "bitvector_mut \<Rightarrow> nat list \<Rightarrow> bitvector_mut option" where
  "bm_extend_positions self ps = foldM (\<lambda>self pos. do {
       self \<leftarrow> (if pos \<ge> bm_n_bits self then do {
           p1 \<leftarrow> add_usize pos 1;
           d \<leftarrow> chk_sub p1 (bm_n_bits self);
           bm_extend_with_zeros self d
         } else Some self);
       bm_set self pos True
     }) self ps"

definition bm_from_bools :: "bool list \<Rightarrow> bitvector_mut option" where
  "bm_from_bools bits = bm_extend_bools bm_new bits"

definition bm_from_positions :: "nat list \<Rightarrow> bitvector_mut option" where
  "bm_from_positions ps = bm_extend_positions bm_new ps"

text \<open>The immutable vector.\<close>

definition bv_from :: "bitvector_mut \<Rightarrow> bitvector" where
  "bv_from bvm = \<lparr>bv_data = bm_data bvm, bv_n_bits = bm_n_bits bvm, bv_count_ones = bm_count_ones bvm\<rparr>"

definition bm_from :: "bitvector \<Rightarrow> bitvector_mut" where
  "bm_from bv = \<lparr>bm_data = bv_data bv, bm_n_bits = bv_n_bits bv, bm_count_ones = bv_count_ones bv\<rparr>"

definition bv_from_bools :: "bool list \<Rightarrow> bitvector option" where
  "bv_from_bools bits = map_option bv_from (bm_extend_bools bm_new bits)"

definition try_into_usize :: "int \<Rightarrow> nat option" where
  "try_into_usize x = (if 0 \<le> x \<and> x < 2 ^ 64 then Some (nat x) else None)"

definition bv_from_positions :: "int list \<Rightarrow> bitvector option" where
  "bv_from_positions xs = map_option bv_from (foldM (\<lambda>bv x. do {
       p \<leftarrow> try_into_usize x;
       bm_extend_positions bv [p]
     }) bm_new xs)"

definition bv_get_unchecked :: "bitvector \<Rightarrow> nat \<Rightarrow> bool option" where
  "bv_get_unchecked self index = get_bit_slice (cast_to_u64_slice (bv_data self)) index"

definition bv_len :: "bitvector \<Rightarrow> nat" where
  "bv_len self = bv_n_bits self"

definition bv_is_empty :: "bitvector \<Rightarrow> bool" where
  "bv_is_empty self \<longleftrightarrow> bv_n_bits self = 0"

definition bv_get :: "bitvector \<Rightarrow> nat \<Rightarrow> bool option option" where
  "bv_get self index =
     (if index \<ge> bv_len self then Some None else do { b \<leftarrow> bv_get_unchecked self index; Some (Some b) })"

definition bv_get_bits_unchecked :: "bitvector \<Rightarrow> nat \<Rightarrow> nat \<Rightarrow> u64 option" where
  "bv_get_bits_unchecked self index len = get_bits_slice (cast_to_u64_slice (bv_data self)) index len"

definition bv_get_bits :: "bitvector \<Rightarrow> nat \<Rightarrow> nat \<Rightarrow> u64 option option" where
  "bv_get_bits self index len =
     (if len = 0 \<or> len > 64 then Some None
      else case add_usize index len of None \<Rightarrow> Some None
      | Some e \<Rightarrow> if e > bv_n_bits self then Some None
                  else do { w \<leftarrow> bv_get_bits_unchecked self index len; Some (Some w) })"

definition bv_get_word :: "bitvector \<Rightarrow> nat \<Rightarrow> u64 option" where
  "bv_get_word self i = do { l \<leftarrow> idx (bv_data self) (drop_bit 3 i); idx (bl_words l) (i mod 8) }"

definition bv_words :: "bitvector \<Rightarrow> u64 list option" where
  "bv_words self = (
     let ws = cast_to_u64_slice (bv_data self); e = div_ceil (bv_n_bits self) 64
     in if e \<le> length ws then Some (take e ws) else None)"

definition bv_count_zeros :: "bitvector \<Rightarrow> nat option" where
  "bv_count_zeros self = chk_sub (bv_len self) (bv_count_ones self)"

definition bv_n_lines :: "bitvector \<Rightarrow> nat" where
  "bv_n_lines self = length (bv_data self)"

text \<open>The checks on decoded data; the result is the number of ones.\<close>

definition validate_step :: "nat \<Rightarrow> nat \<Rightarrow> nat \<times> u64 \<Rightarrow> (string + nat) option" where
  "validate_step n_bits count_ones iw = (
     let (index, word) = iw
     in rbind (ok_or (Some (if index * 64 < 2 ^ 64 then Some (index * 64) else None)) ''bitvector length overflow'') (\<lambda>bit_start.
        if bit_start \<ge> n_bits then
          (if word \<noteq> 0 then Some (Inl ''bitvector has set bits outside its declared length'') else Some (Inr count_ones))
        else
          let used = min (n_bits - bit_start) 64
          in if used < 64 \<and> drop_bit used word \<noteq> 0 then Some (Inl ''bitvector has set bits outside its declared length'')
             else ok_or (Some (add_usize count_ones (pop word))) ''bitvector one count overflow''))"

definition validate_deserialized_data :: "bit_line list \<Rightarrow> nat \<Rightarrow> (string + nat) option" where
  "validate_deserialized_data data n_bits =
     (if length data \<noteq> div_ceil n_bits 512 then Some (Inl ''bitvector length disagrees with its data storage'')
      else (let ws = cast_to_u64_slice data
            in foldR (validate_step n_bits) 0 (zip [0..<length ws] ws)))"

definition bv_deserialize :: "bitvector \<Rightarrow> (string + bitvector) option" where
  "bv_deserialize decoded =
     rbind (validate_deserialized_data (bv_data decoded) (bv_n_bits decoded)) (\<lambda>count_ones.
       Some (Inr \<lparr>bv_data = bv_data decoded, bv_n_bits = bv_n_bits decoded, bv_count_ones = count_ones\<rparr>))"

definition bm_deserialize :: "bitvector_mut \<Rightarrow> (string + bitvector_mut) option" where
  "bm_deserialize decoded =
     rbind (validate_deserialized_data (bm_data decoded) (bm_n_bits decoded)) (\<lambda>count_ones.
       Some (Inr \<lparr>bm_data = bm_data decoded, bm_n_bits = bm_n_bits decoded, bm_count_ones = count_ones\<rparr>))"

section \<open>Bits of the lines\<close>

definition lines_ok :: "bit_line list \<Rightarrow> bool" where
  "lines_ok data \<longleftrightarrow> (\<forall>l\<in>set data. bl_ok l)"

abbreviation dbit :: "bit_line list \<Rightarrow> nat \<Rightarrow> bool" where
  "dbit data \<equiv> lbit (cast_to_u64_slice data)"

lemma cast_simps [simp]:
  "cast_to_u64_slice [] = []" "cast_to_u64_slice (l # data) = bl_words l @ cast_to_u64_slice data"
  "cast_to_u64_slice (xs @ ys) = cast_to_u64_slice xs @ cast_to_u64_slice ys"
  by (simp_all add: cast_to_u64_slice_def)

lemma length_cast: "lines_ok data \<Longrightarrow> length (cast_to_u64_slice data) = 8 * length data"
  by (induction data) (auto simp: lines_ok_def bl_ok_def)

lemma nth_cast: "lines_ok data \<Longrightarrow> k < 8 * length data \<Longrightarrow> cast_to_u64_slice data ! k = bl_words (data ! (k div 8)) ! (k mod 8)"
proof (induction data arbitrary: k)
  case (Cons l data)
  then have l: "length (bl_words l) = 8" and ok: "lines_ok data" by (auto simp: lines_ok_def bl_ok_def)
  show ?case
  proof (cases "k < 8")
    case False
    have "k div 8 = Suc ((k - 8) div 8)" "k mod 8 = (k - 8) mod 8" using False by (simp_all add: le_div_geq le_mod_geq)
    then show ?thesis using False l Cons.IH [OF ok, of "k - 8"] Cons.prems(2) by (simp add: nth_append)
  qed (simp add: l nth_append)
qed simp

text \<open>The bit at a position is in the line of its 512 bits.\<close>

lemma dbit_line: "lines_ok data \<Longrightarrow> p < 512 * length data \<Longrightarrow> dbit data p = lbit (bl_words (data ! (p div 512))) (p mod 512)"
proof -
  assume a: "lines_ok data" "p < 512 * length data"
  have "p div 64 < 8 * length data" using a(2) by (simp add: less_mult_imp_div_less mult.commute)
  moreover have "p div 64 div 8 = p div 512" "p mod 512 div 64 = p div 64 mod 8" "p mod 512 mod 64 = p mod 64"
    using div_mult2_eq [of p 64 8] mod_mult2_eq [of p 64 8] by simp_all
  ultimately show ?thesis using nth_cast [OF a(1), of "p div 64"] by (simp add: lbit_def)
qed

lemma dbit_append_low: "lines_ok data \<Longrightarrow> p < 512 * length data \<Longrightarrow> dbit (data @ ds) p = dbit data p"
  by (simp add: lbit_append_low length_cast)

lemma cast_zeros: "cast_to_u64_slice (replicate n bl_default) = replicate (8 * n) 0"
  by (induction n) (simp_all add: bl_default_def replicate_add [symmetric])

lemma dbit_append_zeros:
  assumes "lines_ok data" "512 * length data \<le> p" "p < 512 * (length data + n)"
  shows "\<not> dbit (data @ replicate n bl_default) p"
proof -
  obtain q where q: "p = 512 * length data + q" using assms(2) le_Suc_ex by blast
  then have "q < 64 * (8 * n)" using assms(3) by simp
  then show ?thesis
    using lbit_append_high [of "cast_to_u64_slice data" "replicate (8 * n) 0" q] length_cast [OF assms(1)] q lbit_zeros
    by (simp add: cast_zeros)
qed

lemma lines_okI: "lines_ok data \<Longrightarrow> bl_ok l \<Longrightarrow> lines_ok (data[i := l])"
  by (auto simp: lines_ok_def dest: set_update_subset_insert [THEN subsetD])

text \<open>Setting one bit.\<close>

lemma set_line_bit:
  assumes ok: "lines_ok data" and p: "p < 512 * length data"
  obtains l where "bl_set_symbol (data ! (p div 512)) s (p mod 512) = Some l" "lines_ok (data[p div 512 := l])"
    "\<And>q. q < 512 * length data \<Longrightarrow> dbit (data[p div 512 := l]) q = (if q = p then bit s 0 else dbit data q)"
proof -
  have d: "p div 512 < length data" using p by (simp add: less_mult_imp_div_less mult.commute)
  then have "bl_ok (data ! (p div 512))" using ok by (simp add: lines_ok_def)
  then obtain l where l: "bl_set_symbol (data ! (p div 512)) s (p mod 512) = Some l" "bl_ok l"
    "\<And>q. lbit (bl_words l) q = (if q = p mod 512 then bit s 0 else lbit (bl_words (data ! (p div 512))) q)"
    by (rule bl_set_symbol_eq [where i = "p mod 512" and symbol = s]) auto
  have ok': "lines_ok (data[p div 512 := l])" using ok l(2) by (rule lines_okI)
  have "dbit (data[p div 512 := l]) q = (if q = p then bit s 0 else dbit data q)" if q: "q < 512 * length data" for q
  proof -
    have "q div 512 = p div 512 \<and> q mod 512 = p mod 512 \<longleftrightarrow> q = p" by (metis mult_div_mod_eq)
    then show ?thesis
      using dbit_line [OF ok', of q] dbit_line [OF ok q] q l(3) [of "q mod 512"] d
      by (cases "q div 512 = p div 512") auto
  qed
  then show thesis using that l(1) ok' by blast
qed

section \<open>Well-formed vectors\<close>

definition bm_list :: "bitvector_mut \<Rightarrow> bool list" where
  "bm_list self = map (dbit (bm_data self)) [0..<bm_n_bits self]"

definition bm_shape :: "bitvector_mut \<Rightarrow> bool" where
  "bm_shape self \<longleftrightarrow> lines_ok (bm_data self) \<and> length (bm_data self) = div_ceil (bm_n_bits self) 512
     \<and> (\<forall>p. bm_n_bits self \<le> p \<and> p < 512 * length (bm_data self) \<longrightarrow> \<not> dbit (bm_data self) p)"

definition bm_ok :: "bitvector_mut \<Rightarrow> bool" where
  "bm_ok self \<longleftrightarrow> lines_ok (bm_data self) \<and> length (bm_data self) = div_ceil (bm_n_bits self) 512
     \<and> (\<forall>p. bm_n_bits self \<le> p \<and> p < 512 * length (bm_data self) \<longrightarrow> \<not> dbit (bm_data self) p)
     \<and> bm_count_ones self = count_list (bm_list self) True"

lemma bm_ok_iff: "bm_ok self \<longleftrightarrow> bm_shape self \<and> bm_count_ones self = count_list (bm_list self) True"
  by (auto simp: bm_ok_def bm_shape_def)

lemma bm_ok_shape: "bm_ok self \<Longrightarrow> bm_shape self"
  by (simp add: bm_ok_iff)

lemma length_bm_list [simp]: "length (bm_list self) = bm_n_bits self"
  by (simp add: bm_list_def)

lemma nth_bm_list: "i < bm_n_bits self \<Longrightarrow> bm_list self ! i = dbit (bm_data self) i"
  by (simp add: bm_list_def)

lemma bm_shape_len: "bm_shape self \<Longrightarrow> bm_n_bits self \<le> 512 * length (bm_data self)"
  using div_ceil_pos_le [of 512 "bm_n_bits self"] by (simp add: bm_shape_def)

lemma bm_ok_len: "bm_ok self \<Longrightarrow> bm_n_bits self \<le> 512 * length (bm_data self)"
  by (rule bm_shape_len [OF bm_ok_shape])

lemma bm_with_capacity_eq: "bm_with_capacity n = (if n \<le> 2 ^ 63 - 64 then Some bm_new else None)"
proof -
  have "div_ceil n 64 * 64 < 2 ^ 63 \<longleftrightarrow> n \<le> 2 ^ 63 - 64"
  proof
    assume "div_ceil n 64 * 64 < 2 ^ 63"
    then have "div_ceil n 64 < 2 ^ 57" by simp
    then have "div_ceil n 64 \<le> 2 ^ 57 - 1" by simp
    moreover have "n \<le> 64 * div_ceil n 64" by (rule div_ceil_pos_le) simp
    ultimately show "n \<le> 2 ^ 63 - 64" by simp
  next
    assume "n \<le> 2 ^ 63 - 64"
    then have "div_ceil n 64 \<le> 2 ^ 57 - 1" by (intro div_ceil_le) simp_all
    then show "div_ceil n 64 * 64 < 2 ^ 63" by simp
  qed
  then show ?thesis by (simp add: bm_with_capacity_def Let_def)
qed

lemma bm_new_ok: "bm_ok bm_new" "bm_list bm_new = []" "bm_n_bits bm_new = 0" "bm_count_ones bm_new = 0"
  by (simp_all add: bm_ok_def bm_new_def bm_list_def lines_ok_def div_ceil_def)

text \<open>A vector with new lines that agree with a list.\<close>

lemma bm_shapeI:
  assumes "lines_ok data" "length data = div_ceil (length bs) 512"
    and "\<And>p. p < 512 * length data \<Longrightarrow> dbit data p = (p < length bs \<and> bs ! p)"
  shows "bm_shape \<lparr>bm_data = data, bm_n_bits = length bs, bm_count_ones = cnt\<rparr>"
    "bm_list \<lparr>bm_data = data, bm_n_bits = length bs, bm_count_ones = cnt\<rparr> = bs"
proof -
  have "length bs \<le> 512 * length data" using assms(2) div_ceil_pos_le [of 512 "length bs"] by simp
  then have "map (dbit data) [0..<length bs] = bs" by (intro nth_equalityI) (simp_all add: assms(3))
  then show "bm_shape \<lparr>bm_data = data, bm_n_bits = length bs, bm_count_ones = cnt\<rparr>"
    "bm_list \<lparr>bm_data = data, bm_n_bits = length bs, bm_count_ones = cnt\<rparr> = bs"
    using assms by (simp_all add: bm_shape_def bm_list_def)
qed

lemma bm_shape_bit: "bm_shape self \<Longrightarrow> p < 512 * length (bm_data self) \<Longrightarrow>
    dbit (bm_data self) p = (p < bm_n_bits self \<and> bm_list self ! p)"
  by (cases "p < bm_n_bits self") (auto simp: bm_shape_def nth_bm_list)

lemma bm_ok_bit: "bm_ok self \<Longrightarrow> p < 512 * length (bm_data self) \<Longrightarrow>
    dbit (bm_data self) p = (p < bm_n_bits self \<and> bm_list self ! p)"
  by (rule bm_shape_bit [OF bm_ok_shape])

end
