(* ===== verification/BitVecOps.thy ===== *)
theory BitVecOps
  imports BitVec
begin

text \<open>
  The operations of bit vectors on the lists they stand for: on any vector of the right shape, whatever its stored
  count of ones, and on well-formed ones.
\<close>

section \<open>Appending\<close>

lemma div_ceil_Suc:
  assumes "0 < b"
  shows "div_ceil (Suc n) b = Suc (n div b)"
proof (cases "Suc n mod b = 0")
  case True
  then have "Suc n div b = Suc (n div b)" using assms by (simp add: div_Suc)
  then show ?thesis using True by (simp add: div_ceil_def)
next
  case False
  then have "Suc n div b = n div b" by (simp add: div_Suc)
  then show ?thesis using False by (simp add: div_ceil_def)
qed

lemma div_ceil_mono: "0 < b \<Longrightarrow> a \<le> c \<Longrightarrow> div_ceil a b \<le> div_ceil c b"
  using div_ceil_le [of b a "div_ceil c b"] div_ceil_pos_le [of b c] by linarith

lemma count_list_snoc: "count_list (xs @ [y]) x = count_list xs x + (if y = x then 1 else 0)"
  by simp

lemma butlast_snoc_update: "xs \<noteq> [] \<Longrightarrow> butlast xs @ [y] = xs[length xs - 1 := y]"
  by (cases xs rule: rev_cases) auto

text \<open>Pushing on a vector of the right shape: where it panics, and what it does to the bits and to the stored count.\<close>

lemma bm_push_shape:
  assumes sh: "bm_shape self" and small: "bm_n_bits self + 1 < 2 ^ 64" "bm_count_ones self + of_bool b < 2 ^ 64"
  shows "\<exists>s'. bm_push self b = Some s' \<and> bm_shape s' \<and> bm_list s' = bm_list self @ [b] \<and> bm_count_ones s' = bm_count_ones self + of_bool b"
proof -
  let ?n = "bm_n_bits self" and ?d = "bm_data self"
  let ?data = "if ?n mod 512 = 0 then ?d @ [bl_default] else ?d"
  let ?bs = "bm_list self @ [b]"
  have d: "lines_ok ?d" "length ?d = div_ceil ?n 512" using sh by (simp_all add: bm_shape_def)
  have ok1: "lines_ok ?data" using d(1) by (auto simp: lines_ok_def)
  have len: "length ?data = Suc (?n div 512)" using d(2) by (auto simp: div_ceil_def)
  have n: "?n < 512 * length ?data" unfolding len by (metis dividend_less_times_div mult_Suc_right zero_less_numeral)
  have bits: "dbit ?data p = (p < ?n \<and> bm_list self ! p)" if p: "p < 512 * length ?data" for p
  proof (cases "p < 512 * length ?d")
    case True
    then show ?thesis using bm_shape_bit [OF sh True] dbit_append_low [OF d(1) True, of "[bl_default]"] by (auto simp del: cast_simps)
  next
    case False
    then have m: "?n mod 512 = 0" using p by (auto split: if_splits)
    have "\<not> dbit (?d @ replicate 1 bl_default) p"
      by (rule dbit_append_zeros [OF d(1)]) (use False p m in auto)
    then show ?thesis using m False bm_shape_len [OF sh] by (simp del: cast_simps)
  qed
  show ?thesis
  proof (cases b)
    case False
    have "dbit ?data p = (p < length ?bs \<and> ?bs ! p)" if "p < 512 * length ?data" for p
      using bits [OF that] False by (auto simp: nth_append)
    from bm_shapeI [OF ok1 _ this, of "bm_count_ones self"] len False
    show ?thesis using small by (simp add: bm_push_def Let_def div_ceil_Suc)
  next
    case True
    have ne: "?data \<noteq> []" using len by auto
    have lst: "last ?data = ?data ! (?n div 512)" unfolding last_conv_nth [OF ne] len by (simp only: diff_Suc_1)
    obtain l where l: "bl_set_symbol (?data ! (?n div 512)) 1 (?n mod 512) = Some l" "lines_ok (?data[?n div 512 := l])"
      "\<And>q. q < 512 * length ?data \<Longrightarrow> dbit (?data[?n div 512 := l]) q = (if q = ?n then bit (1::u64) 0 else dbit ?data q)"
      using set_line_bit [OF ok1 n, of 1] by metis
    have upd: "butlast ?data @ [l] = ?data[?n div 512 := l]"
      unfolding butlast_snoc_update [OF ne] len by (simp only: diff_Suc_1)
    have "dbit (?data[?n div 512 := l]) p = (p < length ?bs \<and> ?bs ! p)" if "p < 512 * length (?data[?n div 512 := l])" for p
      using l(3) [of p] bits [of p] that True by (auto simp: nth_append)
    from bm_shapeI [OF l(2) _ this, of "bm_count_ones self + 1"] len True
    have "bm_shape \<lparr>bm_data = ?data[?n div 512 := l], bm_n_bits = ?n + 1, bm_count_ones = bm_count_ones self + 1\<rparr>"
      "bm_list \<lparr>bm_data = ?data[?n div 512 := l], bm_n_bits = ?n + 1, bm_count_ones = bm_count_ones self + 1\<rparr> = ?bs"
      by (simp_all add: div_ceil_Suc)
    moreover have "bm_push self b = Some \<lparr>bm_data = ?data[?n div 512 := l], bm_n_bits = ?n + 1, bm_count_ones = bm_count_ones self + 1\<rparr>"
      unfolding bm_push_def Let_def lst [symmetric] using True ne l(1) upd lst small by simp
    ultimately show ?thesis using True by simp
  qed
qed

lemma bm_push_panics: "bm_count_ones self < 2 ^ 64 \<Longrightarrow> \<not> (bm_n_bits self + 1 < 2 ^ 64 \<and> bm_count_ones self + of_bool b < 2 ^ 64) \<Longrightarrow> bm_push self b = None"
  by (auto simp: bm_push_def Let_def bind_eq_None_conv not_less split: if_splits)

lemma bm_push_eq:
  assumes ok: "bm_ok self" and "bm_n_bits self + 1 < 2 ^ 64"
  shows "\<exists>s'. bm_push self b = Some s' \<and> bm_ok s' \<and> bm_list s' = bm_list self @ [b]"
proof -
  have "bm_count_ones self \<le> bm_n_bits self" using ok count_le_length [of "bm_list self" True] by (simp add: bm_ok_def)
  then have "bm_count_ones self + of_bool b < 2 ^ 64" using assms(2) by simp
  from bm_push_shape [OF bm_ok_shape [OF ok] assms(2) this] show ?thesis using ok by (auto simp: bm_ok_iff)
qed

text \<open>A run of pushes.\<close>

lemma bm_pushes_shape:
  assumes "bm_shape self" "bm_n_bits self + length xs < 2 ^ 64" "bm_count_ones self + count_list (map f xs) True < 2 ^ 64"
  shows "\<exists>s'. foldM (\<lambda>s x. bm_push s (f x)) self xs = Some s' \<and> bm_shape s' \<and> bm_list s' = bm_list self @ map f xs
    \<and> bm_count_ones s' = bm_count_ones self + count_list (map f xs) True"
  using assms
proof (induction xs arbitrary: self)
  case (Cons x xs)
  have c: "bm_count_ones self + of_bool (f x) < 2 ^ 64" using Cons.prems(3) by (auto split: if_splits)
  obtain s1 where s1: "bm_push self (f x) = Some s1" "bm_shape s1" "bm_list s1 = bm_list self @ [f x]"
    "bm_count_ones s1 = bm_count_ones self + of_bool (f x)"
    using bm_push_shape [OF Cons.prems(1) _ c] Cons.prems(2) by auto
  have n: "bm_n_bits s1 = bm_n_bits self + 1" using arg_cong [OF s1(3), of length] by simp
  have "\<exists>s'. foldM (\<lambda>s x. bm_push s (f x)) s1 xs = Some s' \<and> bm_shape s' \<and> bm_list s' = bm_list s1 @ map f xs
    \<and> bm_count_ones s' = bm_count_ones s1 + count_list (map f xs) True"
    by (rule Cons.IH [OF s1(2)]) (use n s1(4) Cons.prems in \<open>auto split: if_splits\<close>)
  then show ?case using s1 by auto
qed simp

lemma bm_pushes_panics:
  assumes "bm_shape self" "\<not> (bm_n_bits self + length xs < 2 ^ 64 \<and> bm_count_ones self + count_list (map f xs) True < 2 ^ 64)"
    "xs \<noteq> []" "bm_count_ones self < 2 ^ 64"
  shows "foldM (\<lambda>s x. bm_push s (f x)) self xs = None"
  using assms
proof (induction xs arbitrary: self)
  case (Cons x xs)
  show ?case
  proof (cases "bm_n_bits self + 1 < 2 ^ 64 \<and> bm_count_ones self + of_bool (f x) < 2 ^ 64")
    case True
    then obtain s1 where s1: "bm_push self (f x) = Some s1" "bm_shape s1" "bm_list s1 = bm_list self @ [f x]"
      "bm_count_ones s1 = bm_count_ones self + of_bool (f x)"
      using bm_push_shape [OF Cons.prems(1)] by blast
    have n: "bm_n_bits s1 = bm_n_bits self + 1" using arg_cong [OF s1(3), of length] by simp
    have "xs \<noteq> []" using Cons.prems(2) True by (auto split: if_splits)
    then have "foldM (\<lambda>s x. bm_push s (f x)) s1 xs = None"
      by (intro Cons.IH [OF s1(2)]) (use n s1(4) Cons.prems(2) True in \<open>auto split: if_splits\<close>)
    then show ?thesis using s1(1) by simp
  qed (use Cons.prems(4) in \<open>simp add: bm_push_panics\<close>)
qed simp

lemma bm_pushes_eq:
  assumes ok: "bm_ok self" and small: "bm_n_bits self + length xs < 2 ^ 64"
  shows "\<exists>s'. foldM (\<lambda>s x. bm_push s (f x)) self xs = Some s' \<and> bm_ok s' \<and> bm_list s' = bm_list self @ map f xs"
proof -
  have "bm_count_ones self + count_list (map f xs) True \<le> bm_n_bits self + length xs"
    using ok count_le_length [of "bm_list self" True] count_le_length [of "map f xs" True] by (simp add: bm_ok_def)
  then have "bm_count_ones self + count_list (map f xs) True < 2 ^ 64" using small by simp
  from bm_pushes_shape [OF bm_ok_shape [OF ok] small this] show ?thesis using ok by (auto simp: bm_ok_iff)
qed

lemma bm_extend_bools_eq:
  assumes "bm_ok self" "bm_n_bits self + length bits < 2 ^ 64"
  shows "\<exists>s'. bm_extend_bools self bits = Some s' \<and> bm_ok s' \<and> bm_list s' = bm_list self @ bits"
  using bm_pushes_eq [OF assms, of "\<lambda>x. x"] by (simp add: bm_extend_bools_def)

definition word_bits :: "u64 \<Rightarrow> nat \<Rightarrow> bool list" where
  "word_bits w len = map (bit w) [0..<len]"

lemma length_word_bits [simp]: "length (word_bits w len) = len"
  by (simp add: word_bits_def)

lemma bm_append_bits_pushes:
  "bm_append_bits self bits len = (if spurious_free bits len then foldM (\<lambda>s x. bm_push s (bit bits x)) self [0..<len] else None)"
  by (auto simp: bm_append_bits_def spurious_free_def bit_odd_iff)

lemma bm_append_bits_eq:
  assumes "bm_ok self" "spurious_free bits len" "bm_n_bits self + len < 2 ^ 64"
  shows "\<exists>s'. bm_append_bits self bits len = Some s' \<and> bm_ok s' \<and> bm_list s' = bm_list self @ word_bits bits len"
  using bm_pushes_eq [OF assms(1), of "[0..<len]" "bit bits"] assms(2,3)
  by (simp add: bm_append_bits_pushes word_bits_def)

lemma bm_append_bits_panics: "\<not> spurious_free bits len \<Longrightarrow> bm_append_bits self bits len = None"
  by (simp add: bm_append_bits_def)

lemma bm_extend_with_zeros_shape:
  assumes sh: "bm_shape self" and "bm_n_bits self + n < 2 ^ 64"
  shows "\<exists>s'. bm_extend_with_zeros self n = Some s' \<and> bm_shape s' \<and> bm_list s' = bm_list self @ replicate n False
    \<and> bm_count_ones s' = bm_count_ones self"
proof -
  let ?d = "bm_data self" and ?bs = "bm_list self @ replicate n False" and ?m = "div_ceil (bm_n_bits self + n) 512"
  have d: "lines_ok ?d" "length ?d = div_ceil (bm_n_bits self) 512" using sh by (simp_all add: bm_shape_def)
  have le: "length ?d \<le> ?m" unfolding d(2) by (rule div_ceil_mono) simp_all
  have data: "resize_lines ?d ?m = ?d @ replicate (?m - length ?d) bl_default" using le by (simp add: resize_lines_def)
  have ok1: "lines_ok (?d @ replicate (?m - length ?d) bl_default)" using d(1) by (auto simp: lines_ok_def)
  have "dbit (?d @ replicate (?m - length ?d) bl_default) p = (p < length ?bs \<and> ?bs ! p)" if "p < 512 * ?m" for p
  proof (cases "p < 512 * length ?d")
    case True
    then show ?thesis
      using dbit_append_low [OF d(1) True] bm_shape_bit [OF sh True] by (auto simp: nth_append simp del: cast_simps)
  next
    case False
    then have "\<not> dbit (?d @ replicate (?m - length ?d) bl_default) p"
      using dbit_append_zeros [OF d(1), of p "?m - length ?d"] that le by (simp del: cast_simps)
    moreover have "bm_n_bits self \<le> p" using False bm_shape_len [OF sh] by simp
    ultimately show ?thesis by (auto simp: nth_append simp del: cast_simps)
  qed
  with bm_shapeI [OF ok1, of ?bs "bm_count_ones self"] le
  have "bm_shape \<lparr>bm_data = resize_lines ?d ?m, bm_n_bits = bm_n_bits self + n, bm_count_ones = bm_count_ones self\<rparr>"
    "bm_list \<lparr>bm_data = resize_lines ?d ?m, bm_n_bits = bm_n_bits self + n, bm_count_ones = bm_count_ones self\<rparr> = ?bs"
    unfolding data by (simp_all del: cast_simps)
  moreover have "bm_extend_with_zeros self n
      = Some \<lparr>bm_data = resize_lines ?d ?m, bm_n_bits = bm_n_bits self + n, bm_count_ones = bm_count_ones self\<rparr>"
    using assms(2) by (simp add: bm_extend_with_zeros_def Let_def)
  ultimately show ?thesis by simp
qed

lemma bm_extend_with_zeros_eq:
  assumes ok: "bm_ok self" and "bm_n_bits self + n < 2 ^ 64"
  shows "\<exists>s'. bm_extend_with_zeros self n = Some s' \<and> bm_ok s' \<and> bm_list s' = bm_list self @ replicate n False"
  using bm_extend_with_zeros_shape [OF bm_ok_shape [OF ok] assms(2)] ok by (auto simp: bm_ok_iff)

lemma bm_with_zeros_eq:
  assumes "n \<le> 2 ^ 63 - 64"
  shows "\<exists>s. bm_with_zeros n = Some s \<and> bm_ok s \<and> bm_list s = replicate n False"
  using bm_extend_with_zeros_eq [OF bm_new_ok(1), of n] assms
  by (simp add: bm_with_zeros_def bm_with_capacity_eq bm_new_ok)

section \<open>Reading and writing one bit\<close>

lemma and_63: "i AND 63 = i mod (64 :: nat)" and and_511: "i AND 511 = i mod (512 :: nat)"
proof -
  have "(63 :: nat) = mask 6" "(511 :: nat) = mask 9" by (simp_all add: mask_eq_exp_minus_1)
  then show "i AND 63 = i mod 64" "i AND 511 = i mod 512" by (simp_all only: take_bit_eq_mask [symmetric]) (simp_all add: take_bit_eq_mod)
qed

lemma drop_bit_9: "drop_bit 9 i = i div (512 :: nat)"
  by (simp add: drop_bit_eq_div)

lemma get_bit_slice_eq: "p < 64 * length ws \<Longrightarrow> get_bit_slice ws p = Some (lbit ws p)"
  by (simp add: get_bit_slice_def drop_bit_6 and_63 bit_odd_iff lbit_def less_mult_imp_div_less mult.commute)

lemma bm_get_unchecked_shape: "bm_shape self \<Longrightarrow> i < bm_n_bits self \<Longrightarrow> bm_get_unchecked self i = Some (bm_list self ! i)"
  using bm_shape_len [of self] get_bit_slice_eq [of i "cast_to_u64_slice (bm_data self)"]
  by (simp add: bm_get_unchecked_def nth_bm_list length_cast bm_shape_def)

lemma bm_get_unchecked_eq: "bm_ok self \<Longrightarrow> i < bm_n_bits self \<Longrightarrow> bm_get_unchecked self i = Some (bm_list self ! i)"
  by (rule bm_get_unchecked_shape [OF bm_ok_shape])

lemma bm_get_shape: "bm_shape self \<Longrightarrow> bm_get self i = Some (idx (bm_list self) i)"
  by (auto simp: bm_get_def bm_len_def bm_get_unchecked_shape idx_def)

lemma bm_get_eq: "bm_ok self \<Longrightarrow> bm_get self i = Some (idx (bm_list self) i)"
  by (rule bm_get_shape [OF bm_ok_shape])

lemma count_list_True_le: "count_list bs True \<le> length bs"
  by (induction bs) auto

lemma bm_count_zeros_eq: "bm_ok self \<Longrightarrow> bm_count_zeros self = Some (count_list (bm_list self) False)"
proof -
  assume "bm_ok self"
  moreover have "count_list bs True + count_list bs False = length bs" for bs by (induction bs) auto
  from this [of "bm_list self"] have "bm_n_bits self - count_list (bm_list self) True = count_list (bm_list self) False" by simp
  ultimately show ?thesis
    using count_list_True_le [of "bm_list self"] by (simp add: bm_count_zeros_def bm_len_def bm_ok_def)
qed

lemma count_list_update_True:
  "i < length bs \<Longrightarrow> count_list (bs[i := b]) True + (if bs ! i then 1 else 0) = count_list bs True + (if b then 1 else 0)"
proof (induction bs arbitrary: i)
  case (Cons x bs)
  show ?case
  proof (cases i)
    case (Suc j)
    then show ?thesis using Cons.IH [of j] Cons.prems by (auto split: if_splits)
  qed simp
qed simp

text \<open>The stored count after \<open>set\<close>, \<open>None\<close> when its update overflows or underflows.\<close>

definition set_count :: "nat \<Rightarrow> bool \<Rightarrow> bool \<Rightarrow> nat option" where
  "set_count c old b = (if b \<and> \<not> old then add_usize c 1 else if \<not> b \<and> old then chk_sub c 1 else Some c)"

lemma bm_set_shape:
  assumes sh: "bm_shape self" and i: "i < bm_n_bits self"
  shows "case set_count (bm_count_ones self) (bm_list self ! i) b of None \<Rightarrow> bm_set self i b = None
    | Some c \<Rightarrow> \<exists>s'. bm_set self i b = Some s' \<and> bm_shape s' \<and> bm_list s' = (bm_list self)[i := b] \<and> bm_count_ones s' = c"
proof -
  let ?d = "bm_data self" and ?bs = "(bm_list self)[i := b]" and ?old = "bm_list self ! i"
  have d: "lines_ok ?d" "length ?d = div_ceil (bm_n_bits self) 512" using sh by (simp_all add: bm_shape_def)
  have p: "i < 512 * length ?d" using i bm_shape_len [OF sh] by simp
  then have dl: "i div 512 < length ?d" by (simp add: less_mult_imp_div_less mult.commute)
  obtain l where l: "bl_set_symbol (?d ! (i div 512)) (if b then 1 else 0) (i mod 512) = Some l" "lines_ok (?d[i div 512 := l])"
    "\<And>q. q < 512 * length ?d \<Longrightarrow> dbit (?d[i div 512 := l]) q = (if q = i then bit (if b then 1 else 0 :: u64) 0 else dbit ?d q)"
    using set_line_bit [OF d(1) p, of "if b then 1 else 0"] by metis
  have rec: "self\<lparr>bm_count_ones := c, bm_data := d'\<rparr> = \<lparr>bm_data = d', bm_n_bits = bm_n_bits self, bm_count_ones = c\<rparr>" for c d'
    by (cases self) simp
  have set: "bm_set self i b = do { c \<leftarrow> set_count (bm_count_ones self) ?old b;
      Some \<lparr>bm_data = ?d[i div 512 := l], bm_n_bits = bm_n_bits self, bm_count_ones = c\<rparr> }"
    using i bm_get_unchecked_shape [OF sh i] l(1) dl by (simp add: bm_set_def set_count_def drop_bit_9 and_511 rec)
  have "dbit (?d[i div 512 := l]) q = (q < length ?bs \<and> ?bs ! q)" if "q < 512 * length (?d[i div 512 := l])" for q
    using l(3) [of q] that bm_shape_bit [OF sh, of q] i by (auto simp: nth_list_update)
  from bm_shapeI [OF l(2) _ this] d(2)
  have "bm_shape \<lparr>bm_data = ?d[i div 512 := l], bm_n_bits = bm_n_bits self, bm_count_ones = c\<rparr>"
    "bm_list \<lparr>bm_data = ?d[i div 512 := l], bm_n_bits = bm_n_bits self, bm_count_ones = c\<rparr> = ?bs" for c by simp_all
  then show ?thesis unfolding set by (simp split: option.split)
qed

lemma bm_set_eq:
  assumes ok: "bm_ok self" and i: "i < bm_n_bits self" and "bm_n_bits self < 2 ^ 64"
  shows "\<exists>s'. bm_set self i b = Some s' \<and> bm_ok s' \<and> bm_list s' = (bm_list self)[i := b]"
proof -
  let ?bs = "(bm_list self)[i := b]"
  note upd = count_list_update_True [of i "bm_list self" b]
  have "set_count (bm_count_ones self) (bm_list self ! i) b = Some (count_list ?bs True)"
    using upd ok i assms(3) count_le_length [of ?bs True]
    by (auto simp: bm_ok_def set_count_def chk_sub_def add_usize_def split: if_splits)
  then show ?thesis using bm_set_shape [OF bm_ok_shape [OF ok] i, of b] by (auto simp: bm_ok_iff)
qed

end
