(* ===== verification/BitVecPacked.thy ===== *)
theory BitVecPacked
  imports BitVecOps
begin

text \<open>
  Whole words and several bits at a time: packed input, \<open>get_bits\<close>, \<open>words\<close>, \<open>set_bits\<close>, the
  vectors built from positions of ones, and the checks on decoded data, which accept exactly the
  well-formed vectors.
\<close>

lemma drop_bit_zero_iff: "drop_bit n w = 0 \<longleftrightarrow> (\<forall>j\<ge>n. \<not> bit w j)" for w :: "'a::len word"
proof
  assume "drop_bit n w = 0"
  then have "\<not> bit (drop_bit n w) (j - n)" for j by simp
  then have "\<not> bit w (n + (j - n))" for j by (simp add: bit_drop_bit_eq)
  then show "\<forall>j\<ge>n. \<not> bit w j" by (metis le_add_diff_inverse)
next
  assume "\<forall>j\<ge>n. \<not> bit w j"
  then show "drop_bit n w = 0" by (intro bit_word_eqI) (simp add: bit_drop_bit_eq)
qed

lemma pop_zero [simp]: "pop 0 = 0"
  unfolding pop_def cntp_zero_iff by simp

section \<open>Packed data\<close>

lemma word_bits_concat: "concat (map (\<lambda>w. word_bits w 64) ws) = map (lbit ws) [0..<64 * length ws]"
proof (induction ws rule: rev_induct)
  case (snoc w ws)
  have low: "map (lbit (ws @ [w])) [0..<64 * length ws] = map (lbit ws) [0..<64 * length ws]"
    by (rule map_cong) (simp_all add: lbit_append_low)
  have "map (lbit (ws @ [w])) [64 * length ws..<64 * length ws + 64] = map (\<lambda>p. lbit (ws @ [w]) (64 * length ws + p)) [0..<64]"
    by (rule nth_equalityI) simp_all
  also have "\<dots> = word_bits w 64" unfolding lbit_append_high word_bits_def by (rule map_cong) (simp_all add: lbit_def)
  finally show ?case using snoc low upt_add_eq_append [of 0 "64 * length ws" 64] by (simp add: add.commute)
qed simp

lemma word_bits_upt: "r \<le> 64 \<Longrightarrow> word_bits (ws ! k) r = map (lbit ws) [64 * k..<64 * k + r]"
  by (rule nth_equalityI) (simp_all add: word_bits_def lbit_def)

lemma append_words_eq:
  assumes "bm_ok v" "bm_n_bits v + 64 * length ws < 2 ^ 64"
  shows "\<exists>v'. foldM (\<lambda>v d. bm_append_bits v d 64) v ws = Some v' \<and> bm_ok v'
    \<and> bm_list v' = bm_list v @ map (lbit ws) [0..<64 * length ws]"
  unfolding word_bits_concat [symmetric] using assms
proof (induction ws arbitrary: v)
  case (Cons w ws)
  obtain v1 where v1: "bm_append_bits v w 64 = Some v1" "bm_ok v1" "bm_list v1 = bm_list v @ word_bits w 64"
    using bm_append_bits_eq [OF Cons.prems(1), of w 64] Cons.prems(2) by (auto simp: spurious_free_def)
  have "bm_n_bits v1 + 64 * length ws < 2 ^ 64" using arg_cong [OF v1(3), of length] Cons.prems(2) by simp
  with Cons.IH [OF v1(2)] v1 show ?case by auto
qed simp

lemma bm_from_packed_data_eq:
  assumes "n \<le> length ws * 64" "0 < n \<Longrightarrow> spurious_free (ws ! ((n - 1) div 64)) ((n - 1) mod 64 + 1)" and sz: "length ws * 64 < 2 ^ 64" "n \<le> 2 ^ 63 - 64"
  shows "\<exists>v. bm_from_packed_data ws n = Some v \<and> bm_ok v \<and> bm_list v = map (lbit ws) [0..<n]"
proof (cases n)
  case 0
  then show ?thesis using bm_new_ok sz by (simp add: bm_from_packed_data_def bm_with_capacity_eq div_ceil_def mul_usize_def)
next
  case (Suc m)
  let ?k = "m div 64" and ?r = "m mod 64 + 1"
  have k: "div_ceil n 64 = Suc ?k" "?k < length ws" "n = 64 * ?k + ?r"
    using Suc assms(1) by (simp_all add: div_ceil_Suc less_mult_imp_div_less)
  have ne: "take (Suc ?k) ws \<noteq> []" using k(2) by auto
  have lst: "last (take (Suc ?k) ws) = ws ! ?k" "butlast (take (Suc ?k) ws) = take ?k ws"
    using k(2) by (simp_all add: take_Suc_conv_app_nth)
  obtain v where v: "foldM (\<lambda>v d. bm_append_bits v d 64) bm_new (take ?k ws) = Some v" "bm_ok v"
    "bm_list v = map (lbit (take ?k ws)) [0..<64 * ?k]"
    using append_words_eq [OF bm_new_ok(1), of "take ?k ws"] k(2) sz(1) by (auto simp: bm_new_ok min_def)
  have vn: "bm_n_bits v = 64 * ?k" using arg_cong [OF v(3), of length] by simp
  have vr: "bm_n_bits v + ?r < 2 ^ 64" using vn k(3) assms(1) sz(1) by linarith
  obtain v' where v': "bm_append_bits v (ws ! ?k) ?r = Some v'" "bm_ok v'" "bm_list v' = bm_list v @ word_bits (ws ! ?k) ?r"
    using bm_append_bits_eq [OF v(2) _ vr, of "ws ! ?k"] assms(2) Suc by auto
  have "map (lbit (take ?k ws)) [0..<64 * ?k] = map (lbit ws) [0..<64 * ?k]"
    by (rule map_cong) (simp_all add: lbit_def less_mult_imp_div_less mult.commute)
  moreover have "word_bits (ws ! ?k) ?r = map (lbit ws) [64 * ?k..<64 * ?k + ?r]"
    by (rule word_bits_upt) simp
  ultimately have "bm_list v' = map (lbit ws) [0..<n]"
    using v'(3) v(3) upt_add_eq_append [of 0 "64 * ?k" ?r] k(3) by simp
  moreover have "bm_from_packed_data ws n = Some v'"
    using assms(1) sz k(1) ne lst v(1) v'(1) Suc by (simp add: bm_from_packed_data_def bm_with_capacity_eq mul_usize_def)
  ultimately show ?thesis using v'(2) by blast
qed

lemma bm_from_packed_data_panics:
  assumes "0 < n" "n \<le> length ws * 64" "\<not> spurious_free (ws ! ((n - 1) div 64)) ((n - 1) mod 64 + 1)"
  shows "bm_from_packed_data ws n = None"
proof -
  obtain m where m: "n = Suc m" using assms(1) gr0_implies_Suc by blast
  have k: "div_ceil n 64 = Suc (m div 64)" "m div 64 < length ws"
    using m assms(2) by (simp_all add: div_ceil_Suc less_mult_imp_div_less)
  have "last (take (Suc (m div 64)) ws) = ws ! (m div 64)" using k(2) by (simp add: take_Suc_conv_app_nth)
  then have "bm_append_bits v (last (take (div_ceil n 64) ws)) ((n - 1) mod 64 + 1) = None" for v
    using bm_append_bits_panics [OF assms(3)] m k(1) by simp
  moreover have "take (div_ceil n 64) ws \<noteq> []" using k by auto
  ultimately show ?thesis using assms(2) by (auto simp: bm_from_packed_data_def mul_usize_def Let_def bm_with_capacity_eq)
qed

lemma bm_from_packed_data_huge: "2 ^ 64 \<le> length ws * 64 \<or> 2 ^ 63 - 64 < n \<Longrightarrow> bm_from_packed_data ws n = None"
  by (auto simp: bm_from_packed_data_def bm_with_capacity_eq mul_usize_def Let_def)

section \<open>Reading several bits\<close>

lemma word_split: "r < 64 \<Longrightarrow> (64 * q + r) div 64 = q \<and> (64 * q + r) mod 64 = r" for q r :: nat
  by simp

lemma add_in_word:
  assumes "i mod 64 + j < (64 :: nat)"
  shows "(i + j) div 64 = i div 64" "(i + j) mod 64 = i mod 64 + j"
proof -
  have "i + j = 64 * (i div 64) + (i mod 64 + j)" by simp
  then show "(i + j) div 64 = i div 64" "(i + j) mod 64 = i mod 64 + j" using word_split [OF assms, of "i div 64"] by metis+
qed

lemma not_bit_high: "64 \<le> j \<Longrightarrow> \<not> bit (w :: u64) j"
  using bit_imp_le_length [of w j] by auto

lemma get_bits_slice_eq:
  assumes "0 < len" "len \<le> 64" "i + len \<le> 64 * length ws"
  shows "\<exists>w. get_bits_slice ws i len = Some w \<and> (\<forall>j<64. bit w j = (j < len \<and> lbit ws (i + j)))"
proof -
  let ?m = "if len = 64 then 0xFFFFFFFFFFFFFFFF else push_bit len 1 - 1 :: u64"
  let ?s = "i mod 64" and ?b = "i div 64"
  have m: "bit ?m j = (j < len)" if "j < 64" for j
  proof (cases "len = 64")
    case True
    have "(0xFFFFFFFFFFFFFFFF :: u64) = - 1" by simp
    then have "?m = - 1" using True by (simp only: simp_thms if_True)
    then show ?thesis using True that by (simp only: bit_minus_1_iff possible_bit_word len_of_numeral_defs) simp
  next
    case False
    then have "?m = mask len" by (simp only: if_False exp_minus_1_mask)
    then show ?thesis using that by (simp add: bit_mask_iff)
  qed
  have b: "?b < length ws" using assms by (simp add: less_mult_imp_div_less mult.commute)
  have i: "i = 64 * ?b + ?s" by simp
  show ?thesis
  proof (cases "?s + len \<le> 64")
    case True
    have "bit (drop_bit ?s (ws ! ?b) AND ?m) j = (j < len \<and> lbit ws (i + j))" if "j < 64" for j
    proof (cases "j < len")
      case True
      then have "?s + j < 64" using \<open>?s + len \<le> 64\<close> by simp
      then have "(i + j) div 64 = ?b" "(i + j) mod 64 = ?s + j"
        by (simp_all add: add_in_word)
      then show ?thesis using True that m [OF that] by (simp add: bit_and_iff bit_drop_bit_eq lbit_def del: if_split)
    qed (simp add: bit_and_iff m [OF that] del: if_split)
    then show ?thesis using True b by (simp add: get_bits_slice_def drop_bit_6 and_63 Let_def)
  next
    case False
    have b1: "?b + 1 < length ws"
    proof -
      have "64 * ?b + 64 < 64 * length ws" using False assms(3) i by linarith
      then show ?thesis by simp
    qed
    let ?w = "drop_bit ?s (ws ! ?b) OR (push_bit (64 - ?s) (ws ! (?b + 1)) AND ?m)"
    have "bit ?w j = (j < len \<and> lbit ws (i + j))" if j: "j < 64" for j
    proof (cases "?s + j < 64")
      case True
      then have "(i + j) div 64 = ?b" "(i + j) mod 64 = ?s + j"
        by (simp_all add: add_in_word)
      moreover have "j < len" using True False by simp
      ultimately show ?thesis
        using True j by (auto simp: bit_or_iff bit_and_iff bit_drop_bit_eq bit_push_bit_iff lbit_def)
    next
      case sj: False
      have e: "i + j = 64 * (?b + 1) + (j - (64 - ?s))" "j - (64 - ?s) < 64" using sj j i by auto
      have "(i + j) div 64 = ?b + 1" "(i + j) mod 64 = j - (64 - ?s)"
        using word_split [OF e(2), of "?b + 1"] e(1) by metis+
      moreover have "\<not> bit (ws ! ?b) (?s + j)" using sj by (auto dest: bit_imp_le_length)
      ultimately show ?thesis
        using sj j m [OF j] by (auto simp: bit_or_iff bit_and_iff bit_drop_bit_eq bit_push_bit_iff lbit_def simp del: if_split)
    qed
    then show ?thesis using False b b1 by (simp add: get_bits_slice_def drop_bit_6 and_63 Let_def)
  qed
qed

lemma bm_get_bits_eq:
  assumes ok: "bm_ok self" and r: "0 < len" "len \<le> 64" "i + len \<le> bm_n_bits self" "bm_n_bits self < 2 ^ 64"
  shows "\<exists>w. bm_get_bits self i len = Some (Some w) \<and> word_bits w len = slice (bm_list self) i (i + len) \<and> spurious_free w len"
proof -
  let ?ws = "cast_to_u64_slice (bm_data self)"
  have len: "bm_n_bits self \<le> 64 * length ?ws" using bm_ok_len [OF ok] length_cast ok by (simp add: bm_ok_def)
  obtain w where w: "get_bits_slice ?ws i len = Some w" "\<forall>j<64. bit w j = (j < len \<and> lbit ?ws (i + j))"
    using get_bits_slice_eq [of len i ?ws] r len by auto
  have "word_bits w len = slice (bm_list self) i (i + len)"
  proof (rule nth_equalityI)
    show "length (word_bits w len) = length (slice (bm_list self) i (i + len))"
      using r(3) by (simp add: word_bits_def length_slice)
    fix j assume "j < length (word_bits w len)"
    then have "j < len" by (simp add: word_bits_def)
    then show "word_bits w len ! j = slice (bm_list self) i (i + len) ! j"
      using w(2) r by (simp add: word_bits_def nth_slice nth_bm_list)
  qed
  moreover have "drop_bit len w = 0" if "len < 64"
    unfolding drop_bit_zero_iff
  proof (intro allI impI)
    fix j assume "len \<le> j"
    then show "\<not> bit w j" using w(2) by (cases "j < 64") (auto dest: bit_imp_le_length)
  qed
  then have "spurious_free w len" using r(2) by (auto simp: spurious_free_def)
  moreover have "bm_get_bits self i len = Some (Some w)"
    using r w(1) by (simp add: bm_get_bits_def bm_get_bits_unchecked_def)
  ultimately show ?thesis by blast
qed

lemma bm_get_bits_None:
  assumes "len = 0 \<or> 64 < len \<or> bm_n_bits self < i + len"
  shows "bm_get_bits self i len = Some None"
  using assms by (auto simp: bm_get_bits_def add_usize_def)

section \<open>Writing several bits\<close>

lemma bm_set_bits_shape:
  assumes sh: "bm_shape self" and r: "i + len \<le> bm_n_bits self" "bm_n_bits self < 2 ^ 64" "spurious_free bits len"
    and c: "bm_count_ones self + pop bits < 2 ^ 64"
  shows "\<exists>s'. bm_set_bits self i len bits = Some s' \<and> bm_n_bits s' = bm_n_bits self
    \<and> bm_list s' = take i (bm_list self) @ word_bits bits len @ drop (i + len) (bm_list self)
    \<and> bm_count_ones s' = bm_count_ones self + pop bits \<and> bm_shape s'"
proof -
  let ?d = "bm_data self"
  let ?f = "\<lambda>data j. do {
           l \<leftarrow> idx data (drop_bit 9 (i + j));
           l \<leftarrow> bl_set_symbol l (drop_bit j bits AND 1) ((i + j) mod 512);
           Some (data[drop_bit 9 (i + j) := l])
         }"
  let ?Inv = "\<lambda>k data. lines_ok data \<and> length data = length ?d
    \<and> (\<forall>q<512 * length ?d. dbit data q = (if i \<le> q \<and> q < i + k then bit bits (q - i) else dbit ?d q))"
  have len64: "len \<le> 64" using r(3) by (auto simp: spurious_free_def)
  have "\<exists>data. foldM ?f ?d [0..<len] = Some data \<and> ?Inv len data"
  proof (rule foldM_upt_inv [where Inv = ?Inv])
    show "?Inv 0 ?d" using sh by (auto simp: bm_shape_def)
    fix k data assume k: "k < len" "?Inv k data"
    have p: "i + k < 512 * length data" using k r(1) bm_shape_len [OF sh] by linarith
    then have dl: "(i + k) div 512 < length data" by (simp add: less_mult_imp_div_less mult.commute)
    obtain l where l: "bl_set_symbol (data ! ((i + k) div 512)) (drop_bit k bits AND 1) ((i + k) mod 512) = Some l"
      "lines_ok (data[(i + k) div 512 := l])" "\<And>q. q < 512 * length data \<Longrightarrow>
        dbit (data[(i + k) div 512 := l]) q = (if q = i + k then bit (drop_bit k bits AND 1) 0 else dbit data q)"
      using set_line_bit [OF conjunct1 [OF k(2)] p] by metis
    have "bit (drop_bit k bits AND 1) 0 = bit bits k" by (simp add: bit_and_iff bit_drop_bit_eq)
    then have "?Inv (Suc k) (data[(i + k) div 512 := l])" using k(2) l(2,3) by auto
    then show "\<exists>data'. ?f data k = Some data' \<and> ?Inv (Suc k) data'" using l(1) dl by (simp add: drop_bit_9)
  qed
  then obtain data where data: "foldM ?f ?d [0..<len] = Some data" "?Inv len data" by blast
  have "len = 0 \<Longrightarrow> pop bits = 0"
    using r(3) by (simp add: spurious_free_def)
  then have "bm_set_bits self i len bits = Some (self\<lparr>bm_count_ones := bm_count_ones self + pop bits, bm_data := data\<rparr>)"
    using r c data(1) len64 by (auto simp: bm_set_bits_def)
  moreover have "map (dbit data) [0..<bm_n_bits self]
      = take i (bm_list self) @ word_bits bits len @ drop (i + len) (bm_list self)"
  proof (rule nth_equalityI)
    fix q assume "q < length (map (dbit data) [0..<bm_n_bits self])"
    then have q: "q < bm_n_bits self" by simp
    then have "dbit data q = (if i \<le> q \<and> q < i + len then bit bits (q - i) else bm_list self ! q)"
      using data(2) bm_shape_len [OF sh] by (simp add: nth_bm_list)
    then show "map (dbit data) [0..<bm_n_bits self] ! q
        = (take i (bm_list self) @ word_bits bits len @ drop (i + len) (bm_list self)) ! q"
      using q r(1) by (auto simp: nth_append word_bits_def)
  qed (use r(1) in \<open>simp add: word_bits_def\<close>)
  moreover have "bm_shape (self\<lparr>bm_count_ones := bm_count_ones self + pop bits, bm_data := data\<rparr>)"
    using sh data(2) r(1) by (auto simp: bm_shape_def)
  ultimately show ?thesis by (simp add: bm_list_def)
qed

lemma count_list_word_bits:
  assumes "spurious_free bits len"
  shows "count_list (word_bits bits len) True = pop bits"
proof -
  have len: "len \<le> 64" "\<And>j. len \<le> j \<Longrightarrow> \<not> bit bits j"
    using assms by (auto simp: spurious_free_def drop_bit_zero_iff dest: bit_imp_le_length)
  have "count_list (word_bits bits len) True = cntp (bit bits) len"
    unfolding cntp_filter word_bits_def by (induction len) auto
  also have "\<dots> = cntp (\<lambda>j. bit bits j \<and> j < len) 64" using cntp_conj_less [OF len(1)] by simp
  also have "\<dots> = cntp (bit bits) 64" by (rule cntp_cong) (use len(2) not_le in auto)
  also have "\<dots> = pop bits" by (simp add: pop_def)
  finally show ?thesis .
qed

text \<open>The stored number of ones is too large by the number of ones overwritten.\<close>

lemma bm_set_bits_count:
  assumes ok: "bm_ok self" and r: "i + len \<le> bm_n_bits self" "bm_n_bits self < 2 ^ 64" "spurious_free bits len"
    and c: "bm_count_ones self + pop bits < 2 ^ 64"
  shows "\<exists>s'. bm_set_bits self i len bits = Some s'
    \<and> bm_list s' = take i (bm_list self) @ word_bits bits len @ drop (i + len) (bm_list self)
    \<and> bm_count_ones s' = count_list (bm_list s') True + count_list (slice (bm_list self) i (i + len)) True"
proof -
  obtain s' where s': "bm_set_bits self i len bits = Some s'"
    "bm_list s' = take i (bm_list self) @ word_bits bits len @ drop (i + len) (bm_list self)"
    "bm_count_ones s' = bm_count_ones self + pop bits"
    using bm_set_bits_shape [OF bm_ok_shape [OF ok] r c] by blast
  have "bm_list self = take i (bm_list self) @ slice (bm_list self) i (i + len) @ drop (i + len) (bm_list self)"
    by (metis append_assoc append_take_drop_id le_add1 take_slice)
  then have "bm_count_ones self = count_list (take i (bm_list self)) True
      + count_list (slice (bm_list self) i (i + len)) True + count_list (drop (i + len) (bm_list self)) True"
    using ok by (metis (no_types) add.assoc bm_ok_def count_list_append)
  then show ?thesis using s' count_list_word_bits [OF r(3)] by simp
qed

section \<open>Positions of ones\<close>

lemma bm_extend_positions_eq:
  assumes "bm_ok s" "\<forall>p\<in>set ps. Suc p < 2 ^ 64" "bm_n_bits s < 2 ^ 64"
  shows "\<exists>s'. bm_extend_positions s ps = Some s' \<and> bm_ok s' \<and> bm_n_bits s' = fold (\<lambda>p n. max n (Suc p)) ps (bm_n_bits s)
    \<and> (\<forall>i<bm_n_bits s'. bm_list s' ! i = ((i < bm_n_bits s \<and> bm_list s ! i) \<or> i \<in> set ps))"
  using assms
proof (induction ps arbitrary: s)
  case Nil
  then show ?case by (simp add: bm_extend_positions_def)
next
  case (Cons p ps)
  let ?n = "bm_n_bits s"
  have "\<exists>s1. (if p \<ge> ?n then do { p1 \<leftarrow> add_usize p 1; d \<leftarrow> chk_sub p1 ?n; bm_extend_with_zeros s d } else Some s) = Some s1
      \<and> bm_ok s1 \<and> bm_list s1 = bm_list s @ replicate (Suc p - ?n) False"
  proof (cases "p \<ge> ?n")
    case True
    then show ?thesis
      using bm_extend_with_zeros_eq [OF Cons.prems(1), of "Suc p - ?n"] Cons.prems(2) by simp
  qed (use Cons.prems(1) in simp)
  then obtain s1 where s1: "(if p \<ge> ?n then do { p1 \<leftarrow> add_usize p 1; d \<leftarrow> chk_sub p1 ?n; bm_extend_with_zeros s d } else Some s) = Some s1"
    "bm_ok s1" "bm_list s1 = bm_list s @ replicate (Suc p - ?n) False" by blast
  have n1: "bm_n_bits s1 = max ?n (Suc p)" using arg_cong [OF s1(3), of length] by simp
  have small: "p < bm_n_bits s1" "bm_n_bits s1 < 2 ^ 64" using n1 Cons.prems(2,3) by auto
  obtain s2 where s2: "bm_set s1 p True = Some s2" "bm_ok s2" "bm_list s2 = (bm_list s1)[p := True]"
    using bm_set_eq [OF s1(2) small, of True] by blast
  have n2: "bm_n_bits s2 = max ?n (Suc p)" using arg_cong [OF s2(3), of length] n1 by simp
  obtain s' where s': "bm_extend_positions s2 ps = Some s'" "bm_ok s'" "bm_n_bits s' = fold (\<lambda>p n. max n (Suc p)) ps (bm_n_bits s2)"
    "\<forall>i<bm_n_bits s'. bm_list s' ! i = ((i < bm_n_bits s2 \<and> bm_list s2 ! i) \<or> i \<in> set ps)"
    using Cons.IH [OF s2(2)] Cons.prems(2,3) n2 by auto
  have nth2: "(i < bm_n_bits s2 \<and> bm_list s2 ! i) = ((i < ?n \<and> bm_list s ! i) \<or> i = p)" for i
    using n1 n2 s2(3) s1(3) by (auto simp: nth_list_update nth_append)
  have "bm_extend_positions s (p # ps) = Some s'"
    using s1(1) s2(1) s'(1) by (simp add: bm_extend_positions_def)
  then show ?case using s' n2 nth2 by auto
qed

lemma fold_max_Suc: "fold (\<lambda>p n. max n (Suc p)) ps n = Max (insert n (Suc ` set ps))"
proof (induction ps arbitrary: n)
  case (Cons p ps)
  have "insert n (Suc ` set (p # ps)) = insert n (insert (Suc p) (Suc ` set ps))" by auto
  moreover have "Max (insert (max n (Suc p)) A) = Max (insert n (insert (Suc p) A))" if "finite A" for A :: "nat set"
    using that by (cases "A = {}") (simp_all add: max.assoc)
  ultimately show ?case using Cons [of "max n (Suc p)"] by simp
qed simp

lemma bm_from_positions_eq:
  assumes "\<forall>p\<in>set ps. Suc p < 2 ^ 64"
  shows "\<exists>s. bm_from_positions ps = Some s \<and> bm_ok s
    \<and> bm_list s = map (\<lambda>i. i \<in> set ps) [0..<if ps = [] then 0 else Suc (Max (set ps))]"
proof -
  obtain s where s: "bm_from_positions ps = Some s" "bm_ok s" "bm_n_bits s = fold (\<lambda>p n. max n (Suc p)) ps 0"
    "\<forall>i<bm_n_bits s. bm_list s ! i = (i \<in> set ps)"
    using bm_extend_positions_eq [OF bm_new_ok(1) assms] by (auto simp: bm_from_positions_def bm_new_ok(3))
  have "Max (insert 0 (Suc ` set ps)) = (if ps = [] then 0 else Suc (Max (set ps)))"
    using mono_Max_commute [of Suc "set ps"] by (simp add: mono_Suc)
  then have "bm_n_bits s = (if ps = [] then 0 else Suc (Max (set ps)))" unfolding s(3) fold_max_Suc .
  then have "bm_list s = map (\<lambda>i. i \<in> set ps) [0..<if ps = [] then 0 else Suc (Max (set ps))]"
    using s(4) by (intro nth_equalityI) simp_all
  then show ?thesis using s by blast
qed

section \<open>Decoded data\<close>

definition word_in :: "nat \<Rightarrow> nat \<Rightarrow> u64 \<Rightarrow> bool" where
  "word_in n i w \<longleftrightarrow> (\<forall>j<64. n \<le> 64 * i + j \<longrightarrow> \<not> bit w j)"

lemma validate_step_eq:
  assumes "64 * i + 64 < 2 ^ 64" "c + 64 < 2 ^ 64"
  shows "validate_step n c (i, w) = Some (if word_in n i w then Inr (c + pop w)
    else Inl ''bitvector has set bits outside its declared length'')"
proof (cases "n \<le> 64 * i")
  case True
  have "word_in n i w \<longleftrightarrow> w = 0" using True by (auto simp: word_in_def intro!: bit_word_eqI dest: bit_imp_le_length)
  then show ?thesis using True assms by (auto simp: validate_step_def mult.commute)
next
  case False
  define u where "u = min (n - i * 64) 64"
  have "word_in n i w \<longleftrightarrow> \<not> (u < 64 \<and> drop_bit u w \<noteq> 0)"
  proof (cases "u < 64")
    case True
    then have "n \<le> 64 * i + j \<longleftrightarrow> u \<le> j" for j using False by (auto simp: u_def mult.commute)
    then have "drop_bit u w = 0 \<longleftrightarrow> word_in n i w"
      unfolding word_in_def drop_bit_zero_iff by (metis not_bit_high not_le)
    then show ?thesis using True by simp
  qed (auto simp: word_in_def u_def mult.commute)
  then show ?thesis using False assms pop_le [of w] by (auto simp: validate_step_def mult.commute simp flip: u_def)
qed

lemma validate_fold:
  assumes "64 * (k + length ws) < 2 ^ 64" "c + 64 * length ws < 2 ^ 64"
  shows "foldR (validate_step n) c (zip [k..<k + length ws] ws) = Some (Inr c') \<longleftrightarrow>
    c' = c + sum_list (map pop ws) \<and> (\<forall>j<length ws. word_in n (k + j) (ws ! j))"
  using assms
proof (induction ws arbitrary: k c)
  case (Cons w ws)
  have z: "zip [k..<k + length (w # ws)] (w # ws) = (k, w) # zip [Suc k..<Suc k + length ws] ws"
    by (simp add: upt_conv_Cons del: upt_Suc)
  have IH: "foldR (validate_step n) (c + pop w) (zip [Suc k..<Suc k + length ws] ws) = Some (Inr c') \<longleftrightarrow>
      c' = c + pop w + sum_list (map pop ws) \<and> (\<forall>j<length ws. word_in n (Suc k + j) (ws ! j))"
  proof (rule Cons.IH)
    have "pop w \<le> 64" using pop_le [of w] by simp
    then show "c + pop w + 64 * length ws < 2 ^ 64" using Cons.prems(2) by simp
  qed (use Cons.prems in simp)
  have "validate_step n c (k, w) = Some (if word_in n k w then Inr (c + pop w)
      else Inl ''bitvector has set bits outside its declared length'')"
    by (rule validate_step_eq) (use Cons.prems in simp_all)
  moreover have "(\<forall>j<length (w # ws). word_in n (k + j) ((w # ws) ! j)) \<longleftrightarrow>
      word_in n k w \<and> (\<forall>j<length ws. word_in n (Suc k + j) (ws ! j))"
    by (auto simp: less_Suc_eq_0_disj)
  ultimately show ?case unfolding z foldR.simps using IH by auto
qed auto

lemma validate_eq:
  assumes ok: "lines_ok data" and small: "512 * length data < 2 ^ 64"
  shows "validate_deserialized_data data n = Some (Inr c) \<longleftrightarrow>
    bm_ok \<lparr>bm_data = data, bm_n_bits = n, bm_count_ones = c\<rparr>"
proof (cases "length data = div_ceil n 512")
  case True
  let ?ws = "cast_to_u64_slice data"
  have len: "length ?ws = 8 * length data" by (rule length_cast [OF ok])
  have "validate_deserialized_data data n = Some (Inr c) \<longleftrightarrow>
      c = sum_list (map pop ?ws) \<and> (\<forall>j<length ?ws. word_in n j (?ws ! j))"
    using validate_fold [of 0 ?ws 0 n c] small True len by (simp add: validate_deserialized_data_def Let_def)
  also have "(\<forall>j<length ?ws. word_in n j (?ws ! j)) \<longleftrightarrow> (\<forall>p. n \<le> p \<and> p < 512 * length data \<longrightarrow> \<not> dbit data p)"
  proof
    assume w: "\<forall>j<length ?ws. word_in n j (?ws ! j)"
    show "\<forall>p. n \<le> p \<and> p < 512 * length data \<longrightarrow> \<not> dbit data p"
    proof (intro allI impI)
      fix p assume p: "n \<le> p \<and> p < 512 * length data"
      then have "p div 64 < length ?ws" using len by (simp add: less_mult_imp_div_less mult.commute)
      then show "\<not> dbit data p" using w p unfolding word_in_def lbit_def by (metis mod_less_divisor mult_div_mod_eq zero_less_numeral)
    qed
  next
    assume p: "\<forall>p. n \<le> p \<and> p < 512 * length data \<longrightarrow> \<not> dbit data p"
    show "\<forall>j<length ?ws. word_in n j (?ws ! j)"
    proof (intro allI impI)
      fix j assume j: "j < length ?ws"
      have "\<not> bit (?ws ! j) i" if "i < 64" "n \<le> 64 * j + i" for i
        using p [rule_format, of "64 * j + i"] that j len by (simp add: lbit_def)
      then show "word_in n j (?ws ! j)" by (simp add: word_in_def)
    qed
  qed
  also have "c = sum_list (map pop ?ws) \<and> (\<forall>p. n \<le> p \<and> p < 512 * length data \<longrightarrow> \<not> dbit data p) \<longleftrightarrow>
      bm_ok \<lparr>bm_data = data, bm_n_bits = n, bm_count_ones = c\<rparr>"
  proof -
    have "sum_list (map pop ?ws) = count_list (map (dbit data) [0..<n]) True"
      if z: "\<forall>p. n \<le> p \<and> p < 512 * length data \<longrightarrow> \<not> dbit data p"
    proof -
      have le: "n \<le> 512 * length data" using True div_ceil_pos_le [of 512 n] by simp
      have "sum_list (map pop ?ws) = cntp (dbit data) (512 * length data)" using pop_sum_lbit [of ?ws] len by simp
      also have "\<dots> = cntp (\<lambda>p. dbit data p \<and> p < n) (512 * length data)" by (rule cntp_cong) (use z not_le in auto)
      also have "\<dots> = cntp (dbit data) n" by (rule cntp_conj_less [OF le])
      also have "\<dots> = count_list (map (dbit data) [0..<n]) True" unfolding cntp_filter by (induction n) auto
      finally show ?thesis .
    qed
    then show ?thesis using ok True by (auto simp: bm_ok_def bm_list_def)
  qed
  finally show ?thesis .
qed (simp add: validate_deserialized_data_def bm_ok_def)

lemma bm_deserialize_eq:
  assumes "lines_ok (bm_data decoded)" "512 * length (bm_data decoded) < 2 ^ 64"
  shows "bm_deserialize decoded = Some (Inr s) \<longleftrightarrow>
    bm_data s = bm_data decoded \<and> bm_n_bits s = bm_n_bits decoded \<and> bm_ok s"
  unfolding bm_deserialize_def rbind_Inr_iff validate_eq [OF assms]
  by (cases s) auto

section \<open>The immutable vector\<close>

definition bv_list :: "bitvector \<Rightarrow> bool list" where
  "bv_list bv = bm_list (bm_from bv)"

definition bv_ok :: "bitvector \<Rightarrow> bool" where
  "bv_ok bv \<longleftrightarrow> bm_ok (bm_from bv)"

lemma bv_from_ok [simp]: "bv_ok (bv_from s) = bm_ok s" "bv_list (bv_from s) = bm_list s"
  by (cases s; simp add: bv_ok_def bv_list_def bv_from_def bm_from_def)+

lemma length_bv_list [simp]: "length (bv_list bv) = bv_n_bits bv"
  by (simp add: bv_list_def) (simp add: bm_from_def)

lemma bv_as_bm:
  "bv_get bv i = bm_get (bm_from bv) i" "bv_get_bits bv i len = bm_get_bits (bm_from bv) i len"
  "bv_count_zeros bv = bm_count_zeros (bm_from bv)" "bv_get_unchecked bv i = bm_get_unchecked (bm_from bv) i"
  by (simp_all add: bv_get_def bm_get_def bv_len_def bm_len_def bv_get_unchecked_def bm_get_unchecked_def
    bv_get_bits_def bm_get_bits_def bv_get_bits_unchecked_def bm_get_bits_unchecked_def bv_count_zeros_def bm_count_zeros_def bm_from_def
    split: option.split)

lemma bv_get_eq: "bv_ok bv \<Longrightarrow> bv_get bv i = Some (idx (bv_list bv) i)"
  by (simp add: bv_as_bm bv_ok_def bv_list_def bm_get_eq)

lemma bv_count_ones_eq: "bv_ok bv \<Longrightarrow> bv_count_ones bv = count_list (bv_list bv) True"
  by (simp add: bv_ok_def bm_ok_def bv_list_def) (simp add: bm_from_def)

lemma bv_words_eq:
  assumes "bv_ok bv"
  shows "\<exists>ws. bv_words bv = Some ws \<and> length ws = div_ceil (bv_n_bits bv) 64 \<and> (\<forall>p<bv_n_bits bv. lbit ws p = bv_list bv ! p)"
proof -
  let ?ws = "cast_to_u64_slice (bv_data bv)" and ?k = "div_ceil (bv_n_bits bv) 64"
  have n: "bv_n_bits bv \<le> 64 * length ?ws"
    using bm_ok_len [of "bm_from bv"] length_cast [of "bv_data bv"] assms by (simp add: bv_ok_def bm_ok_def bm_from_def)
  then have k: "?k \<le> length ?ws" by (intro div_ceil_le) simp_all
  have "lbit (take ?k ?ws) p = bv_list bv ! p" if p: "p < bv_n_bits bv" for p
  proof -
    have "p div 64 < ?k" using p by (intro div_less_div_ceil) simp_all
    then show ?thesis using p by (simp add: lbit_def bv_list_def bm_list_def bm_from_def)
  qed
  then show ?thesis using k by (auto simp: bv_words_def Let_def)
qed

lemma bv_get_word_eq:
  assumes "bv_ok bv" "64 * i < bv_n_bits bv"
  shows "bv_get_word bv i = Some (cast_to_u64_slice (bv_data bv) ! i)"
proof -
  have ok: "lines_ok (bv_data bv)" and n: "bv_n_bits bv \<le> 512 * length (bv_data bv)"
    using assms(1) bm_ok_len [of "bm_from bv"] by (simp_all add: bv_ok_def bm_ok_def bm_from_def)
  have i: "i < 8 * length (bv_data bv)" "drop_bit 3 i = i div 8" using assms(2) n by (simp_all add: drop_bit_eq_div)
  then have d: "i div 8 < length (bv_data bv)" by (simp add: less_mult_imp_div_less mult.commute)
  then have "length (bl_words (bv_data bv ! (i div 8))) = 8" using ok by (simp add: lines_ok_def bl_ok_def)
  then show ?thesis using nth_cast [OF ok i(1)] i(2) d by (simp add: bv_get_word_def)
qed

lemma bv_deserialize_eq:
  assumes "lines_ok (bv_data decoded)" "512 * length (bv_data decoded) < 2 ^ 64"
  shows "bv_deserialize decoded = Some (Inr bv) \<longleftrightarrow>
    bv_data bv = bv_data decoded \<and> bv_n_bits bv = bv_n_bits decoded \<and> bv_ok bv"
  unfolding bv_deserialize_def rbind_Inr_iff validate_eq [OF assms] bv_ok_def bm_from_def
  by (cases bv) auto

end
