(* ===== verification/BitVecMachine.thy ===== *)
theory BitVecMachine
  imports BitVecPacked
begin

text \<open>
  The mutable bit vector as a state machine: one constructor per operation that changes it (\<open>bm_op\<close>, \<open>bm_step\<close>). The
  abstract machine keeps the list of bits and the stored count of ones, and is not enabled where the code panics: at the end of the
  range of \<open>usize\<close>, on positions past the end and on spurious bits. Collecting, packed construction and \<open>with_zeros\<close> are runs
  of these operations.
\<close>

section \<open>The state machine and its abstraction\<close>

datatype bm_op = Push bool | AppendBits u64 nat | ExtendWithZeros nat | SetBit nat bool | is_set_bits: SetBits nat nat u64

fun bm_exec :: "bitvector_mut \<Rightarrow> bm_op \<Rightarrow> bitvector_mut option" where
  "bm_exec s (Push b) = bm_push s b"
| "bm_exec s (AppendBits w len) = bm_append_bits s w len"
| "bm_exec s (ExtendWithZeros n) = bm_extend_with_zeros s n"
| "bm_exec s (SetBit i b) = bm_set s i b"
| "bm_exec s (SetBits i len w) = bm_set_bits s i len w"

fun abs_exec :: "bool list \<times> nat \<Rightarrow> bm_op \<Rightarrow> (bool list \<times> nat) option" where
  "abs_exec (bs, c) (Push b) =
     (if length bs + 1 < 2 ^ 64 \<and> c + of_bool b < 2 ^ 64 then Some (bs @ [b], c + of_bool b) else None)"
| "abs_exec (bs, c) (AppendBits w len) =
     (if spurious_free w len \<and> length bs + len < 2 ^ 64 \<and> c + pop w < 2 ^ 64 then Some (bs @ word_bits w len, c + pop w) else None)"
| "abs_exec (bs, c) (ExtendWithZeros n) = (if length bs + n < 2 ^ 64 then Some (bs @ replicate n False, c) else None)"
| "abs_exec (bs, c) (SetBit i b) =
     (if i < length bs then map_option (\<lambda>c'. (bs[i := b], c')) (set_count c (bs ! i) b) else None)"
| "abs_exec (bs, c) (SetBits i len w) =
     (if i + len \<le> length bs \<and> spurious_free w len \<and> c + pop w < 2 ^ 64
      then Some (take i bs @ word_bits w len @ drop (i + len) bs, c + pop w) else None)"

inductive bm_step :: "bm_op \<Rightarrow> bitvector_mut \<Rightarrow> bitvector_mut \<Rightarrow> bool" where
  "bm_exec s op = Some s' \<Longrightarrow> bm_step op s s'"

inductive_cases bm_stepE: "bm_step op s s'"

text \<open>The states that operations reach from the empty vector; the flag says whether \<open>set_bits\<close> was one of them.\<close>

inductive bm_reachable :: "bool \<Rightarrow> bitvector_mut \<Rightarrow> bool" where
  bm_init: "bm_reachable False bm_new"
| bm_next: "bm_reachable used s \<Longrightarrow> bm_step op s s' \<Longrightarrow> bm_reachable (used \<or> is_set_bits op) s'"

definition bm_abs :: "bitvector_mut \<Rightarrow> bool list \<times> nat" where
  "bm_abs s = (bm_list s, bm_count_ones s)"

definition bm_inv :: "bitvector_mut \<Rightarrow> bool" where
  "bm_inv s \<longleftrightarrow> bm_shape s \<and> bm_n_bits s < 2 ^ 64 \<and> bm_count_ones s < 2 ^ 64 \<and> count_list (bm_list s) True \<le> bm_count_ones s"

section \<open>Counting on the abstract side\<close>

lemma count_overwrite:
  "i + len \<le> length bs \<Longrightarrow> count_list (take i bs @ ws @ drop (i + len) bs) True \<le> count_list bs True + count_list ws True"
proof -
  have "count_list bs True = count_list (take (i + len) bs) True + count_list (drop (i + len) bs) True"
    by (metis append_take_drop_id count_list_append)
  moreover have "take (i + len) bs = take i bs @ take len (drop i bs)" by (rule take_add)
  ultimately show ?thesis by simp
qed

lemma abs_exec_count:
  assumes "abs_exec (bs, c) op = Some (bs', c')" "length bs < 2 ^ 64" "c < 2 ^ 64"
  shows "length bs' < 2 ^ 64" "c' < 2 ^ 64" "count_list bs True \<le> c \<Longrightarrow> count_list bs' True \<le> c'"
    "count_list bs True = c \<Longrightarrow> \<not> is_set_bits op \<Longrightarrow> count_list bs' True = c'"
proof -
  have upd: "count_list (bs[i := b]) True + (if bs ! i then 1 else 0) = count_list bs True + (if b then 1 else 0)" if "i < length bs" for i b
    by (rule count_list_update_True [OF that])
  have pos: "0 < count_list bs True" if "i < length bs" "bs ! i" for i
    using that count_list_0_iff [of bs True] nth_mem by fastforce
  have "length bs' < 2 ^ 64 \<and> c' < 2 ^ 64 \<and> (count_list bs True \<le> c \<longrightarrow> count_list bs' True \<le> c')
    \<and> (count_list bs True = c \<and> \<not> is_set_bits op \<longrightarrow> count_list bs' True = c')"
  proof (cases op)
    case (Push b)
    then show ?thesis using assms by (auto split: if_splits)
  next
    case (AppendBits w len)
    then show ?thesis using assms count_list_word_bits [of w len] by (auto split: if_splits)
  next
    case (ExtendWithZeros n)
    then show ?thesis using assms by (auto simp: count_list_0_iff split: if_splits)
  next
    case (SetBit i b)
    then have i: "i < length bs" and c': "set_count c (bs ! i) b = Some c'" "bs' = bs[i := b]" using assms(1) by (auto split: if_splits)
    show ?thesis using upd [OF i, of b] pos [OF i] c' assms(2,3) SetBit
      by (auto simp: set_count_def add_usize_def chk_sub_def split: if_splits)
  next
    case (SetBits i len w)
    then have r: "i + len \<le> length bs" "spurious_free w len" "c + pop w < 2 ^ 64"
      "bs' = take i bs @ word_bits w len @ drop (i + len) bs" "c' = c + pop w" using assms(1) by (auto split: if_splits)
    show ?thesis using r count_overwrite [OF r(1), of "word_bits w len"] count_list_word_bits [OF r(2)] assms(2) SetBits by simp
  qed
  then show "length bs' < 2 ^ 64" "c' < 2 ^ 64" "count_list bs True \<le> c \<Longrightarrow> count_list bs' True \<le> c'"
    "count_list bs True = c \<Longrightarrow> \<not> is_set_bits op \<Longrightarrow> count_list bs' True = c'" by blast+
qed

section \<open>Refinement\<close>

text \<open>Each step is the abstract step, panics included.\<close>

lemma bm_append_bits_abs:
  assumes "bm_shape s" "bm_n_bits s < 2 ^ 64" "bm_count_ones s < 2 ^ 64"
  shows "map_option bm_abs (bm_append_bits s w len) = abs_exec (bm_abs s) (AppendBits w len)
    \<and> (\<forall>s'. bm_append_bits s w len = Some s' \<longrightarrow> bm_shape s')"
proof (cases "spurious_free w len")
  case True
  note cnt = count_list_word_bits [OF True, unfolded word_bits_def]
  show ?thesis
  proof (cases "bm_n_bits s + len < 2 ^ 64 \<and> bm_count_ones s + pop w < 2 ^ 64")
    case fits: True
    then show ?thesis
      using bm_pushes_shape [OF assms(1), of "[0..<len]" "bit w"] True cnt
      by (auto simp: bm_append_bits_pushes bm_abs_def word_bits_def)
  next
    case False
    have "len \<noteq> 0" using False assms(2,3) True by (cases "len = 0") (auto simp: spurious_free_def)
    then show ?thesis
      using bm_pushes_panics [OF assms(1), of "[0..<len]" "bit w"] False True cnt assms(3)
      by (auto simp: bm_append_bits_pushes bm_abs_def)
  qed
qed (simp add: bm_append_bits_panics bm_abs_def)

lemma bm_set_bits_abs:
  assumes "bm_shape s" "bm_n_bits s < 2 ^ 64" "bm_count_ones s < 2 ^ 64"
  shows "map_option bm_abs (bm_set_bits s i len w) = abs_exec (bm_abs s) (SetBits i len w)
    \<and> (\<forall>s'. bm_set_bits s i len w = Some s' \<longrightarrow> bm_shape s')"
proof (cases "i + len \<le> bm_n_bits s \<and> spurious_free w len")
  case True
  show ?thesis
  proof (cases "bm_count_ones s + pop w < 2 ^ 64")
    case fits: True
    then show ?thesis using bm_set_bits_shape [OF assms(1) _ assms(2), of i len w] True by (auto simp: bm_abs_def)
  next
    case False
    have "len \<noteq> 0" using False assms(3) True by (cases "len = 0") (auto simp: spurious_free_def)
    then show ?thesis using False by (simp add: bm_set_bits_def bm_abs_def bind_eq_None_conv)
  qed
next
  case False
  then have "bm_set_bits s i len w = None" by (auto simp: bm_set_bits_def bind_eq_None_conv add_usize_def guard_def)
  then show ?thesis using False by (auto simp: bm_abs_def)
qed

lemma bm_exec_refines:
  assumes "bm_inv s"
  shows "map_option bm_abs (bm_exec s op) = abs_exec (bm_abs s) op" "bm_exec s op = Some s' \<Longrightarrow> bm_inv s'"
proof -
  have inv: "bm_shape s" "bm_n_bits s < 2 ^ 64" "bm_count_ones s < 2 ^ 64" "count_list (bm_list s) True \<le> bm_count_ones s"
    using assms by (simp_all add: bm_inv_def)
  have step: "map_option bm_abs (bm_exec s op) = abs_exec (bm_abs s) op \<and> (\<forall>s'. bm_exec s op = Some s' \<longrightarrow> bm_shape s')"
  proof (cases op)
    case (Push b)
    show ?thesis
    proof (cases "bm_n_bits s + 1 < 2 ^ 64 \<and> bm_count_ones s + of_bool b < 2 ^ 64")
      case True
      then show ?thesis using bm_push_shape [OF inv(1), of b] Push by (auto simp: bm_abs_def)
    next
      case False
      then show ?thesis using bm_push_panics [OF inv(3) False] Push by (auto simp: bm_abs_def)
    qed
  next
    case (AppendBits w len)
    then show ?thesis using bm_append_bits_abs [OF inv(1-3), of w len] by simp
  next
    case (ExtendWithZeros n)
    then show ?thesis
      using bm_extend_with_zeros_shape [OF inv(1), of n]
      by (cases "bm_n_bits s + n < 2 ^ 64") (auto simp: bm_extend_with_zeros_def bm_abs_def)
  next
    case (SetBit i b)
    then show ?thesis
      using bm_set_shape [OF inv(1), of i b]
      by (cases "i < bm_n_bits s") (auto simp: bm_set_def bm_abs_def split: option.splits)
  next
    case (SetBits i len w)
    then show ?thesis using bm_set_bits_abs [OF inv(1-3), of i len w] by simp
  qed
  then show "map_option bm_abs (bm_exec s op) = abs_exec (bm_abs s) op" by blast
  show "bm_inv s'" if s': "bm_exec s op = Some s'"
  proof -
    have "abs_exec (bm_list s, bm_count_ones s) op = Some (bm_list s', bm_count_ones s')" using step s' by (simp add: bm_abs_def)
    from abs_exec_count [OF this] show ?thesis using inv step s' by (simp add: bm_inv_def)
  qed
qed

lemma bm_new_inv: "bm_inv bm_new"
  using bm_new_ok by (simp add: bm_inv_def bm_ok_iff)

text \<open>Every reachable state keeps the invariant; the count is exact as long as \<open>set_bits\<close> was not used.\<close>

lemma bm_reachable_inv: "bm_reachable used s \<Longrightarrow> bm_inv s \<and> (used \<or> bm_ok s)"
proof (induction rule: bm_reachable.induct)
  case bm_init
  then show ?case using bm_new_inv bm_new_ok by simp
next
  case (bm_next used s op s')
  from bm_next.hyps(2) have e: "bm_exec s op = Some s'" by (rule bm_stepE)
  have inv: "bm_inv s" "bm_inv s'" using bm_next.IH bm_exec_refines(2) [OF _ e] by blast+
  have "abs_exec (bm_list s, bm_count_ones s) op = Some (bm_list s', bm_count_ones s')"
    using bm_exec_refines(1) [OF inv(1), of op] e by (simp add: bm_abs_def)
  note exact = abs_exec_count(4) [OF this]
  have "used \<or> is_set_bits op \<or> bm_ok s'"
  proof (cases "used \<or> is_set_bits op")
    case False
    then have "count_list (bm_list s) True = bm_count_ones s" using bm_next.IH by (simp add: bm_ok_iff)
    then have "count_list (bm_list s') True = bm_count_ones s'" using exact False inv(1) by (simp add: bm_inv_def)
    then show ?thesis using inv(2) by (simp add: bm_inv_def bm_ok_iff)
  qed blast
  then show ?case using inv(2) by blast
qed

text \<open>A run of operations, and its abstraction.\<close>

lemma bm_run_refines:
  assumes "bm_inv s"
  shows "map_option bm_abs (foldM bm_exec s ops) = foldM abs_exec (bm_abs s) ops"
  using assms
proof (induction ops arbitrary: s)
  case (Cons op ops)
  show ?case
  proof (cases "bm_exec s op")
    case None
    then show ?thesis using bm_exec_refines(1) [OF Cons.prems, of op] by (metis foldM.simps(2) bind_eq_None_conv option.map_disc_iff)
  next
    case (Some s1)
    then have "bm_inv s1" "Some (bm_abs s1) = abs_exec (bm_abs s) op"
      using bm_exec_refines [OF Cons.prems, of op] by simp_all
    note this(1) this(2) [symmetric]
    then show ?thesis using Some Cons.IH [of s1] by simp
  qed
qed simp

end
