(* ===== verification/BitVecIter.thy ===== *)
theory BitVecIter
  imports BitVecPacked
begin

text \<open>
  The iterators of \<^verbatim>\<open>src/bitvector/mod.rs\<close>: \<open>BitVectorBitPositionsIter\<close> over the positions of the ones or
  of the zeros, \<open>BitVectorIter\<close> and \<open>BitVectorIntoIter\<close> over the bits. Each is a state and a
  \<open>next\<close> step; a state stands for the items still to come.
\<close>

section \<open>Definitions\<close>

definition trailing_zeros :: "'a::len word \<Rightarrow> nat" where
  "trailing_zeros v = length (takeWhile (\<lambda>i. \<not> bit v i) [0..<LENGTH('a)])"

record bit_positions_iter =
  bp_data :: "u64 list"
  bp_n_bits :: nat
  bp_cur_position :: nat
  bp_cur_word_pos :: nat
  bp_cur_word :: u64

definition bp_new :: "u64 list \<Rightarrow> nat \<Rightarrow> bit_positions_iter" where
  "bp_new data n_bits = \<lparr>bp_data = data, bp_n_bits = n_bits, bp_cur_position = 0, bp_cur_word_pos = 0, bp_cur_word = 0\<rparr>"

definition bp_with_pos :: "bool \<Rightarrow> u64 list \<Rightarrow> nat \<Rightarrow> nat \<Rightarrow> bit_positions_iter" where
  "bp_with_pos b data n_bits pos = (
     let cur_word_pos = drop_bit 6 pos;
         cur_word = (if cur_word_pos < length data
           then (if b then data ! cur_word_pos else NOT (data ! cur_word_pos)) else 0);
         l = pos mod 64;
         cur_word = drop_bit l cur_word
     in \<lparr>bp_data = data, bp_n_bits = n_bits, bp_cur_position = pos, bp_cur_word_pos = cur_word_pos + 1, bp_cur_word = cur_word\<rparr>)"

text \<open>The loop \<open>while self.cur_word == 0\<close>; the flag says that the data are exhausted.\<close>

function bp_fill :: "bool \<Rightarrow> bit_positions_iter \<Rightarrow> bool \<times> bit_positions_iter" where
  "bp_fill b self =
     (if bp_cur_word self = 0 then
        if bp_cur_word_pos self < length (bp_data self) then
          bp_fill b (self\<lparr>
            bp_cur_word := (if b then bp_data self ! bp_cur_word_pos self else NOT (bp_data self ! bp_cur_word_pos self)),
            bp_cur_position := push_bit 6 (bp_cur_word_pos self),
            bp_cur_word_pos := bp_cur_word_pos self + 1\<rparr>)
        else (False, self)
      else (True, self))"
  by pat_completeness auto

termination by (relation "measure (\<lambda>(b, self). length (bp_data self) - bp_cur_word_pos self)") auto

declare bp_fill.simps [simp del]

definition bp_next :: "bool \<Rightarrow> bit_positions_iter \<Rightarrow> (nat option \<times> bit_positions_iter) option" where
  "bp_next b self =
     (if bp_cur_position self \<ge> bp_n_bits self then Some (None, self)
      else case bp_fill b self of
        (False, self) \<Rightarrow> Some (None, self)
      | (True, self) \<Rightarrow>
          (let l = trailing_zeros (bp_cur_word self);
               pos = bp_cur_position self + l;
               cur_word = (if l \<ge> 63 then 0 else drop_bit (l + 1) (bp_cur_word self));
               self = self\<lparr>bp_cur_word := cur_word, bp_cur_position := pos + 1\<rparr>
           in Some (if pos \<ge> bp_n_bits self then None else Some pos, self)))"

record bitvector_iter =
  bi_data :: "u64 list"
  bi_n_bits :: nat
  bi_i :: nat

definition bi_next :: "bitvector_iter \<Rightarrow> (bool option \<times> bitvector_iter) option" where
  "bi_next self =
     (if bi_i self < bi_n_bits self then do {
        b \<leftarrow> get_bit_slice (bi_data self) (bi_i self);
        Some (Some b, self\<lparr>bi_i := bi_i self + 1\<rparr>)
      } else Some (None, self))"

definition bi_len :: "bitvector_iter \<Rightarrow> nat option" where
  "bi_len self = chk_sub (bi_n_bits self) (bi_i self)"

record bitvector_into_iter =
  bo_bv :: bitvector
  bo_i :: nat

definition bo_next :: "bitvector_into_iter \<Rightarrow> (bool option \<times> bitvector_into_iter) option" where
  "bo_next self = do {
     let self = self\<lparr>bo_i := bo_i self + 1\<rparr>;
     b \<leftarrow> bv_get (bo_bv self) (bo_i self - 1);
     Some (b, self)
   }"

definition bo_len :: "bitvector_into_iter \<Rightarrow> nat option" where
  "bo_len self = chk_sub (bv_n_bits (bo_bv self)) (bo_i self)"

text \<open>The iterators of a vector.\<close>

definition bv_ones :: "bitvector \<Rightarrow> bit_positions_iter" where
  "bv_ones self = bp_new (cast_to_u64_slice (bv_data self)) (bv_n_bits self)"

definition bv_zeros :: "bitvector \<Rightarrow> bit_positions_iter" where
  "bv_zeros self = bp_new (cast_to_u64_slice (bv_data self)) (bv_n_bits self)"

definition bv_ones_with_pos :: "bitvector \<Rightarrow> nat \<Rightarrow> bit_positions_iter" where
  "bv_ones_with_pos self pos = bp_with_pos True (cast_to_u64_slice (bv_data self)) (bv_n_bits self) pos"

definition bv_zeros_with_pos :: "bitvector \<Rightarrow> nat \<Rightarrow> bit_positions_iter" where
  "bv_zeros_with_pos self pos = bp_with_pos False (cast_to_u64_slice (bv_data self)) (bv_n_bits self) pos"

definition bv_iter :: "bitvector \<Rightarrow> bitvector_iter" where
  "bv_iter self = \<lparr>bi_data = cast_to_u64_slice (bv_data self), bi_n_bits = bv_n_bits self, bi_i = 0\<rparr>"

definition bv_into_iter :: "bitvector \<Rightarrow> bitvector_into_iter" where
  "bv_into_iter self = \<lparr>bo_bv = self, bo_i = 0\<rparr>"

definition bm_ones :: "bitvector_mut \<Rightarrow> bit_positions_iter" where
  "bm_ones self = bp_new (cast_to_u64_slice (bm_data self)) (bm_n_bits self)"

definition bm_zeros :: "bitvector_mut \<Rightarrow> bit_positions_iter" where
  "bm_zeros self = bp_new (cast_to_u64_slice (bm_data self)) (bm_n_bits self)"

definition bm_iter :: "bitvector_mut \<Rightarrow> bitvector_iter" where
  "bm_iter self = \<lparr>bi_data = cast_to_u64_slice (bm_data self), bi_n_bits = bm_n_bits self, bi_i = 0\<rparr>"

definition bm_into_iter :: "bitvector_mut \<Rightarrow> bitvector_into_iter" where
  "bm_into_iter self = \<lparr>bo_bv = bv_from self, bo_i = 0\<rparr>"

section \<open>The least set bit\<close>

lemma trailing_zeros_bit:
  assumes "v \<noteq> (0 :: 'a::len word)"
  shows "bit v (trailing_zeros v)" "j < trailing_zeros v \<Longrightarrow> \<not> bit v j" "trailing_zeros v < LENGTH('a)"
proof -
  let ?t = "takeWhile (\<lambda>i. \<not> bit v i) [0..<LENGTH('a)]"
  obtain i where i: "i < LENGTH('a)" "bit v i" using assms by (auto simp: bit_eq_iff dest: bit_imp_le_length)
  have "length ?t \<noteq> LENGTH('a)"
  proof
    assume "length ?t = LENGTH('a)"
    then have "?t = [0..<LENGTH('a)]" by (metis length_upt minus_nat.diff_0 nth_equalityI takeWhile_nth)
    then show False using i by (metis atLeastLessThan_iff le0 set_takeWhileD set_upt)
  qed
  then show lt: "trailing_zeros v < LENGTH('a)"
    using length_takeWhile_le [of "\<lambda>i. \<not> bit v i" "[0..<LENGTH('a)]"] by (simp add: trailing_zeros_def)
  show "bit v (trailing_zeros v)"
    using nth_length_takeWhile [of "\<lambda>i. \<not> bit v i" "[0..<LENGTH('a)]"] lt by (simp add: trailing_zeros_def)
  assume j: "j < trailing_zeros v"
  then have "?t ! j = j" using lt by (simp add: trailing_zeros_def takeWhile_nth)
  then show "\<not> bit v j" using j nth_mem [of j ?t] by (metis set_takeWhileD trailing_zeros_def)
qed

section \<open>The positions still to come\<close>

text \<open>Whether the bits of the data, negated for zeros, are set at a position.\<close>

definition pbit :: "bool \<Rightarrow> u64 list \<Rightarrow> nat \<Rightarrow> bool" where
  "pbit b ws p \<longleftrightarrow> p < 64 * length ws \<and> lbit ws p = b"

definition bp_core :: "bool \<Rightarrow> bit_positions_iter \<Rightarrow> bool" where
  "bp_core b s \<longleftrightarrow> bp_n_bits s \<le> 64 * length (bp_data s) \<and>
     bp_cur_position s \<le> 64 * bp_cur_word_pos s \<and> 64 * bp_cur_word_pos s \<le> bp_cur_position s + 64 \<and>
     bp_cur_word_pos s \<le> length (bp_data s) \<and>
     (\<forall>j. bit (bp_cur_word s) j = (bp_cur_position s + j < 64 * bp_cur_word_pos s \<and> pbit b (bp_data s) (bp_cur_position s + j)))"

definition bp_inv :: "bool \<Rightarrow> bit_positions_iter \<Rightarrow> bool" where
  "bp_inv b s \<longleftrightarrow> bp_n_bits s \<le> bp_cur_position s \<or> bp_core b s"

definition bp_left :: "bool \<Rightarrow> bit_positions_iter \<Rightarrow> nat list" where
  "bp_left b s = filter (pbit b (bp_data s)) [bp_cur_position s..<bp_n_bits s]"

lemma pbit_word: "k < length ws \<Longrightarrow> j < 64 \<Longrightarrow> pbit b ws (64 * k + j) = (bit (ws ! k) j = b)"
proof -
  assume "k < length ws" "j < 64"
  moreover from this have "64 * k + j < 64 * Suc k" "64 * Suc k \<le> 64 * length ws" by simp_all
  then have "64 * k + j < 64 * length ws" by linarith
  ultimately show ?thesis by (simp add: pbit_def lbit_def)
qed

lemma filter_upt_skip: "(\<And>q. a \<le> q \<Longrightarrow> q < c \<Longrightarrow> q < n \<Longrightarrow> \<not> P q) \<Longrightarrow> a \<le> c \<Longrightarrow> filter P [a..<n] = filter P [c..<n]"
proof (cases "c \<le> n")
  case True
  assume a: "\<And>q. a \<le> q \<Longrightarrow> q < c \<Longrightarrow> q < n \<Longrightarrow> \<not> P q" "a \<le> c"
  have "[a..<n] = [a..<c] @ [c..<n]" using a(2) True upt_add_eq_append [of a c "n - c"] by simp
  then show ?thesis using a(1) True by (auto simp: filter_empty_conv)
qed (auto simp: filter_empty_conv)

lemma pbit_not_word: "(if b then w else NOT w) = v \<Longrightarrow> j < 64 \<Longrightarrow> bit (v :: u64) j = (bit w j = b)"
  by (cases b) (auto simp: bit_not_iff)

text \<open>A loaded word, from offset \<open>l\<close> on, represents the positions up to its end.\<close>

lemma word_positions:
  fixes w :: u64
  assumes "k < length ws" "w = (if b then ws ! k else NOT (ws ! k))" "l < 64"
  shows "bit (drop_bit l w) j = (64 * k + l + j < 64 * (k + 1) \<and> pbit b ws (64 * k + l + j))"
proof (cases "l + j < 64")
  case True
  then show ?thesis
    using pbit_word [OF assms(1) True, of b] pbit_not_word [OF assms(2) [symmetric] True] by (simp add: bit_drop_bit_eq add.assoc)
next
  case False
  then have "\<not> bit w (l + j)" by (intro not_bit_high) simp
  then show ?thesis using False by (simp add: bit_drop_bit_eq)
qed

lemma bp_new_inv: "n \<le> 64 * length ws \<Longrightarrow> bp_inv b (bp_new ws n)"
  by (simp add: bp_inv_def bp_core_def bp_new_def)

lemma bp_with_pos_inv:
  assumes "n \<le> 64 * length ws"
  shows "bp_inv b (bp_with_pos b ws n pos)"
proof (cases "pos < n")
  case True
  then have k: "pos div 64 < length ws" using assms by (simp add: less_mult_imp_div_less mult.commute)
  have pos: "64 * (pos div 64) + pos mod 64 = pos" by simp
  have "bit (drop_bit (pos mod 64) (if b then ws ! (pos div 64) else NOT (ws ! (pos div 64)))) j
      = (pos + j < 64 * (pos div 64 + 1) \<and> pbit b ws (pos + j))" for j
    using word_positions [OF k refl, of "pos mod 64" b j] unfolding pos by simp
  moreover have "pos \<le> 64 * (pos div 64 + 1)" "64 * (pos div 64 + 1) \<le> pos + 64" using pos mod_less_divisor [of 64 pos] by simp_all
  ultimately have "bp_core b (bp_with_pos b ws n pos)"
    using assms k unfolding bp_core_def by (simp add: bp_with_pos_def Let_def drop_bit_6)
  then show ?thesis by (simp add: bp_inv_def)
qed (simp add: bp_inv_def bp_with_pos_def Let_def)

lemma bp_zero_word:
  assumes "bp_core b s" "bp_cur_word s = 0" "bp_cur_position s \<le> q" "q < 64 * bp_cur_word_pos s"
  shows "\<not> pbit b (bp_data s) q"
proof -
  obtain j where j: "q = bp_cur_position s + j" using assms(3) le_Suc_ex by blast
  then have "\<not> bit (bp_cur_word s) j" using assms(2) by simp
  then show ?thesis using assms(1,4) j by (simp add: bp_core_def)
qed

lemma bp_fill_ok:
  assumes "bp_core b s"
  shows "case bp_fill b s of (found, t) \<Rightarrow>
      (if found then bp_core b t \<and> bp_left b t = bp_left b s \<and> bp_cur_word t \<noteq> 0 \<and> bp_n_bits t = bp_n_bits s
       else bp_left b s = [])"
  using assms
proof (induction b s rule: bp_fill.induct)
  case (1 b s)
  show ?case
  proof (cases "bp_cur_word s = 0")
    case False
    then show ?thesis using 1 by (simp add: bp_fill.simps [of b s])
  next
    case zero: True
    show ?thesis
    proof (cases "bp_cur_word_pos s < length (bp_data s)")
      case False
      then have "bp_n_bits s \<le> 64 * bp_cur_word_pos s" using "1.prems" by (simp add: bp_core_def)
      then have "bp_left b s = []" using bp_zero_word [OF "1.prems" zero] by (auto simp: bp_left_def filter_empty_conv)
      then show ?thesis using zero False by (simp add: bp_fill.simps [of b s])
    next
      case True
      let ?w = "if b then bp_data s ! bp_cur_word_pos s else NOT (bp_data s ! bp_cur_word_pos s)"
      let ?t = "s\<lparr>bp_cur_word := ?w, bp_cur_position := push_bit 6 (bp_cur_word_pos s), bp_cur_word_pos := bp_cur_word_pos s + 1\<rparr>"
      have p: "push_bit 6 (bp_cur_word_pos s) = 64 * bp_cur_word_pos s" by (simp add: push_bit_eq_mult)
      have "bit ?w j = (64 * bp_cur_word_pos s + j < 64 * (bp_cur_word_pos s + 1)
          \<and> pbit b (bp_data s) (64 * bp_cur_word_pos s + j))" for j
        using word_positions [OF True refl, of 0 b j] by simp
      then have core: "bp_core b ?t" using "1.prems" True unfolding bp_core_def p by (simp add: p del: if_split)
      have "bp_left b ?t = bp_left b s"
        unfolding bp_left_def using "1.prems" bp_zero_word [OF "1.prems" zero]
        by (simp add: p) (rule filter_upt_skip [symmetric]; simp add: bp_core_def)
      moreover have "bp_fill b s = bp_fill b ?t" using zero True by (simp add: bp_fill.simps [of b s])
      ultimately show ?thesis using "1.IH" [OF zero True core] by (simp split: prod.splits if_splits)
    qed
  qed
qed

lemma bp_next_ok:
  assumes "bp_inv b s"
  shows "case bp_left b s of
      [] \<Rightarrow> \<exists>t. bp_next b s = Some (None, t)
    | p # ps \<Rightarrow> \<exists>t. bp_next b s = Some (Some p, t) \<and> bp_inv b t \<and> bp_left b t = ps"
proof (cases "bp_n_bits s \<le> bp_cur_position s")
  case True
  then show ?thesis by (simp add: bp_left_def bp_next_def)
next
  case False
  obtain found t where t: "bp_fill b s = (found, t)" by fastforce
  show ?thesis
  proof (cases found)
    case f: False
    then show ?thesis using bp_fill_ok [of b s] assms False t by (simp add: bp_inv_def bp_next_def)
  next
    case found: True
    have core: "bp_core b t" and left: "bp_left b t = bp_left b s" and w: "bp_cur_word t \<noteq> 0" and n: "bp_n_bits t = bp_n_bits s"
      using bp_fill_ok [of b s] assms False t found by (simp_all add: bp_inv_def)
    define l where "l = trailing_zeros (bp_cur_word t)"
    let ?pos = "bp_cur_position t + l"
    note tz = trailing_zeros_bit [OF w, folded l_def]
    have bits: "bit (bp_cur_word t) j = (bp_cur_position t + j < 64 * bp_cur_word_pos t \<and> pbit b (bp_data t) (bp_cur_position t + j))" for j
      using core by (simp add: bp_core_def)
    have pos: "?pos < 64 * bp_cur_word_pos t" "pbit b (bp_data t) ?pos" using tz(1) bits [of l] by simp_all
    have none: "\<not> pbit b (bp_data t) q" if "bp_cur_position t \<le> q" "q < ?pos" for q
    proof -
      obtain j where j: "q = bp_cur_position t + j" using \<open>bp_cur_position t \<le> q\<close> le_Suc_ex by blast
      then show ?thesis using tz(2) [of j] bits [of j] that pos(1) by simp
    qed
    let ?u = "t\<lparr>bp_cur_word := if l \<ge> 63 then 0 else drop_bit (l + 1) (bp_cur_word t), bp_cur_position := ?pos + 1\<rparr>"
    have step: "bp_next b s = Some (if ?pos \<ge> bp_n_bits t then None else Some ?pos, ?u)"
      using False t found by (simp add: bp_next_def Let_def l_def)
    have "bit (bp_cur_word ?u) j = (bp_cur_position ?u + j < 64 * bp_cur_word_pos t \<and> pbit b (bp_data t) (bp_cur_position ?u + j))" for j
    proof (cases "l \<ge> 63")
      case True
      then have "64 * bp_cur_word_pos t \<le> bp_cur_position ?u + j" using core by (simp add: bp_core_def)
      then show ?thesis using True by simp
    next
      case False
      then show ?thesis using bits [of "l + 1 + j"] by (simp add: bit_drop_bit_eq add.assoc)
    qed
    then have "bp_core b ?u" using core pos(1) by (simp add: bp_core_def del: if_split)
    then have inv: "bp_inv b ?u" by (simp add: bp_inv_def)
    have skip: "bp_left b s = filter (pbit b (bp_data t)) [?pos..<bp_n_bits t]"
      unfolding left [symmetric] unfolding bp_left_def by (rule filter_upt_skip) (use none in auto)
    show ?thesis
    proof (cases "?pos < bp_n_bits t")
      case True
      then have "bp_left b s = ?pos # bp_left b ?u"
        unfolding skip by (simp add: upt_conv_Cons pos(2) bp_left_def)
      then show ?thesis using step True inv by simp
    next
      case False
      then show ?thesis using step skip by simp
    qed
  qed
qed

lemma bp_collect:
  assumes "bp_inv b s"
  shows "collect (bp_next b) s = Some (bp_left b s)"
proof (rule collect_den [where I = "bp_inv b" and den = "bp_left b"])
  fix s assume s: "bp_inv b s"
  { assume "bp_left b s = []" then show "\<exists>t. bp_next b s = Some (None, t)" using bp_next_ok [OF s] by simp }
  fix p ps assume "bp_left b s = p # ps"
  then show "\<exists>t. bp_next b s = Some (Some p, t) \<and> bp_inv b t \<and> bp_left b t = ps" using bp_next_ok [OF s] by simp
qed fact

section \<open>The iterators of a vector\<close>

lemma positions_collect:
  assumes ok: "lines_ok data" "n \<le> 512 * length data" and s: "bp_data s = cast_to_u64_slice data" "bp_n_bits s = n" "bp_inv b s"
  shows "collect (bp_next b) s = Some (filter (\<lambda>p. dbit data p = b) [bp_cur_position s..<n])"
proof -
  have "bp_left b s = filter (\<lambda>p. dbit data p = b) [bp_cur_position s..<n]"
    unfolding bp_left_def s(1,2) by (rule filter_cong) (use ok length_cast [OF ok(1)] in \<open>auto simp: pbit_def\<close>)
  then show ?thesis using bp_collect [OF s(3)] by simp
qed

lemma bv_positions:
  assumes ok: "bv_ok bv"
  defines "n \<equiv> bv_n_bits bv"
  shows "collect (bp_next True) (bv_ones bv) = Some (filter (\<lambda>p. bv_list bv ! p) [0..<n])"
    "collect (bp_next False) (bv_zeros bv) = Some (filter (\<lambda>p. \<not> bv_list bv ! p) [0..<n])"
    "collect (bp_next True) (bv_ones_with_pos bv pos) = Some (filter (\<lambda>p. bv_list bv ! p) [pos..<n])"
    "collect (bp_next False) (bv_zeros_with_pos bv pos) = Some (filter (\<lambda>p. \<not> bv_list bv ! p) [pos..<n])"
proof -
  let ?ws = "cast_to_u64_slice (bv_data bv)"
  have ok': "lines_ok (bv_data bv)" "n \<le> 512 * length (bv_data bv)" "n \<le> 64 * length ?ws"
    using ok bm_ok_len [of "bm_from bv"] length_cast [of "bv_data bv"] by (simp_all add: n_def bv_ok_def bm_ok_def bm_from_def)
  have bit: "filter (\<lambda>p. dbit (bv_data bv) p = b) [a..<n] = filter (\<lambda>p. bv_list bv ! p = b) [a..<n]" for a b
    by (rule filter_cong) (auto simp: bv_list_def nth_bm_list bm_from_def n_def)
  note new = bp_new_inv [OF ok'(3)] and pos = bp_with_pos_inv [OF ok'(3)]
  have "collect (bp_next b) (bp_new ?ws n) = Some (filter (\<lambda>p. bv_list bv ! p = b) [0..<n])" for b
    using positions_collect [OF ok'(1,2) _ _ new, of b] unfolding bit by (simp add: bp_new_def)
  from this [of True] this [of False]
  show "collect (bp_next True) (bv_ones bv) = Some (filter (\<lambda>p. bv_list bv ! p) [0..<n])"
    "collect (bp_next False) (bv_zeros bv) = Some (filter (\<lambda>p. \<not> bv_list bv ! p) [0..<n])"
    by (simp_all add: bv_ones_def bv_zeros_def n_def)
  have "collect (bp_next b) (bp_with_pos b ?ws n pos) = Some (filter (\<lambda>p. bv_list bv ! p = b) [pos..<n])" for b
    using positions_collect [OF ok'(1,2) _ _ pos, of b pos] unfolding bit by (simp add: bp_with_pos_def Let_def)
  from this [of True] this [of False]
  show "collect (bp_next True) (bv_ones_with_pos bv pos) = Some (filter (\<lambda>p. bv_list bv ! p) [pos..<n])"
    "collect (bp_next False) (bv_zeros_with_pos bv pos) = Some (filter (\<lambda>p. \<not> bv_list bv ! p) [pos..<n])"
    by (simp_all add: bv_ones_with_pos_def bv_zeros_with_pos_def n_def)
qed

lemma bv_iter_collect:
  assumes ok: "bv_ok bv"
  shows "collect bi_next (bv_iter bv) = Some (bv_list bv)"
proof -
  let ?ws = "cast_to_u64_slice (bv_data bv)"
  let ?st = "\<lambda>k. \<lparr>bi_data = ?ws, bi_n_bits = bv_n_bits bv, bi_i = k\<rparr>"
  have len: "bv_n_bits bv \<le> 64 * length ?ws"
    using ok bm_ok_len [of "bm_from bv"] length_cast [of "bv_data bv"] by (simp add: bv_ok_def bm_ok_def bm_from_def)
  have "bi_next (?st k) = Some (Some (bv_list bv ! k), ?st (Suc k))" if "k < length (bv_list bv)" for k
    using that len get_bit_slice_eq [of k ?ws] by (simp add: bi_next_def bv_list_def bm_list_def bm_from_def)
  from collect_run [of "bv_list bv" bi_next ?st, OF this] show ?thesis
    by (simp add: bv_iter_def bi_next_def)
qed

lemma bv_into_iter_collect:
  assumes ok: "bv_ok bv"
  shows "collect bo_next (bv_into_iter bv) = Some (bv_list bv)"
proof -
  let ?st = "\<lambda>k. \<lparr>bo_bv = bv, bo_i = k\<rparr>"
  have "bo_next (?st k) = Some (Some (bv_list bv ! k), ?st (Suc k))" if "k < length (bv_list bv)" for k
    using that bv_get_eq [OF ok, of k] by (simp add: bo_next_def)
  from collect_run [of "bv_list bv" bo_next ?st, OF this] bv_get_eq [OF ok, of "bv_n_bits bv"] show ?thesis
    by (simp add: bv_into_iter_def bo_next_def)
qed

text \<open>After the end, the length of \<open>BitVectorIntoIter\<close> is computed below zero.\<close>

lemma bo_len_exhausted:
  assumes "bv_ok bv"
  shows "\<exists>it. bo_next \<lparr>bo_bv = bv, bo_i = bv_n_bits bv\<rparr> = Some (None, it) \<and> bo_len it = None"
  using bv_get_eq [OF assms, of "bv_n_bits bv"] by (simp add: bo_next_def bo_len_def)

end
