(* ===== verification/HintSelect.thy ===== *)
theory HintSelect
  imports Prelude
begin

text \<open>
  What the two rank/select structures over bit vectors share: select starts at a sampled superblock
  (a hint for every \<open>h\<close>-th occurrence), scans superblock ranks, then the eight ranks inside. \<open>P\<close>
  is the predicate counted, \<open>S\<close> the length of a superblock. The hints of a vector are built in one
  pass (\<open>hints_inv\<close>); with them the scan finds the superblock that holds the occurrence.
\<close>

section \<open>Definitions\<close>

text \<open>\<open>for j in 0..8 { if rank(position + j) > i { position += j - 1; break } if j == 7 { position += j } }\<close>\<close>

fun sub_scan :: "(nat \<Rightarrow> nat option) \<Rightarrow> nat \<Rightarrow> nat \<Rightarrow> nat list \<Rightarrow> nat option" where
  "sub_scan rank i position [] = Some position"
| "sub_scan rank i position (j # js) = do {
     r \<leftarrow> rank (position + j);
     if r > i then do { d \<leftarrow> chk_sub j 1; Some (position + d) }
     else sub_scan rank i (if j = 7 then position + j else position) js
   }"

text \<open>\<open>if count / h > cur_hint { samples.push(b); cur_hint += 1 }\<close>\<close>

definition push_hint :: "nat \<Rightarrow> nat \<Rightarrow> nat \<Rightarrow> nat list \<times> nat \<Rightarrow> nat list \<times> nat" where
  "push_hint h count b st = (
     let (samples, cur_hint) = st
     in if count div h > cur_hint then (samples @ [b], cur_hint + 1) else (samples, cur_hint))"

section \<open>Hints\<close>

definition hints_inv :: "(nat \<Rightarrow> bool) \<Rightarrow> nat \<Rightarrow> nat \<Rightarrow> nat \<Rightarrow> nat list \<times> nat \<Rightarrow> bool" where
  "hints_inv P S h c st \<longleftrightarrow> (case st of (hs, m) \<Rightarrow> m = c div h \<and> length hs = Suc m \<and> hs ! 0 = 0 \<and>
     (\<forall>k. 1 \<le> k \<and> k \<le> m \<longrightarrow> cntp P (S * hs ! k) < h * k \<and> h * k \<le> cntp P (S * Suc (hs ! k))))"

lemma hints_init: "0 < h \<Longrightarrow> hints_inv P S h 0 ([0], 0)"
  by (simp add: hints_inv_def)

lemma hints_push:
  assumes inv: "hints_inv P S h (cntp P a) (hs, m)" and h: "0 < h" and ac: "a \<le> c" "cntp P c < cntp P a + h"
    and b: "S * b \<le> a" "c \<le> S * Suc b"
  shows "hints_inv P S h (cntp P c) (push_hint h (cntp P c) b (hs, m))"
proof -
  have m: "m = cntp P a div h" "length hs = Suc m" using inv by (simp_all add: hints_inv_def)
  have lo: "cntp P a < h * Suc m" using m(1) h dividend_less_times_div [of h "cntp P a"] by simp
  show ?thesis
  proof (cases "cntp P c div h > m")
    case True
    have "h * Suc m \<le> h * (cntp P c div h)" using True by (intro mult_le_mono2) simp
    also have "\<dots> \<le> cntp P c" by (rule times_div_less_eq_dividend)
    finally have ge: "h * Suc m \<le> cntp P c" .
    have "cntp P c < h * Suc (Suc m)" using ac(2) lo by simp
    then have "cntp P c div h < Suc (Suc m)" by (metis less_mult_imp_div_less mult.commute)
    then have eq: "cntp P c div h = Suc m" using True by simp
    have "cntp P (S * b) < h * Suc m" using cntp_mono [OF b(1), of P] lo by simp
    moreover have "h * Suc m \<le> cntp P (S * Suc b)" using cntp_mono [OF b(2), of P] ge by simp
    ultimately show ?thesis
      using inv True eq by (auto simp: hints_inv_def push_hint_def nth_append le_Suc_eq m(2))
  next
    case False
    moreover have "m \<le> cntp P c div h" unfolding m(1) using cntp_mono [OF ac(1), of P] by (rule div_le_mono)
    ultimately show ?thesis using inv by (simp add: hints_inv_def push_hint_def)
  qed
qed

section \<open>The scan over superblocks\<close>

lemma cntp_block_mono: "a \<le> b \<Longrightarrow> cntp P (S * a) \<le> cntp P (S * b)"
  by (intro cntp_mono mult_le_mono2)

text \<open>The superblock of an occurrence is the last one with at most that many occurrences before it.\<close>

lemma superblock_unique:
  assumes "cntp P (S * k) \<le> i" "i < cntp P (S * Suc k)" "cntp P (S * k') \<le> i" "i < cntp P (S * Suc k')"
  shows "k = k'"
proof -
  have "k \<le> k'" if "cntp P (S * k) \<le> i" "i < cntp P (S * Suc k')" for k k'
  proof -
    have "S * k < S * Suc k'" by (rule cntp_less_imp [of P]) (use that in simp)
    then show ?thesis by (metis mult_less_cancel1 less_Suc_eq_le)
  qed
  then show ?thesis using assms by (meson le_antisym)
qed

lemma hint_scan:
  assumes inv: "hints_inv P S h cnt (hs, m)" and h: "0 < h" and i: "i < cnt"
    and rank: "\<And>k. k \<le> G \<Longrightarrow> rank k = Some (cntp P (S * k))" and G: "i < cntp P (S * G)"
    and lt: "\<forall>x\<in>set hs. x \<le> G"
  obtains s e q where "idx (hs @ [G]) (i div h) = Some s" "idx (hs @ [G]) (i div h + 1) = Some e"
    "scan_while rank (i + 1) (1 + e) 1 s = Some (Suc q)" "cntp P (S * q) \<le> i" "i < cntp P (S * Suc q)" "q < G"
proof -
  let ?k = "i div h" and ?hs = "hs @ [G]"
  have m: "m = cnt div h" "length hs = Suc m" using inv by (simp_all add: hints_inv_def)
  have hk: "\<forall>k. 1 \<le> k \<and> k \<le> m \<longrightarrow> cntp P (S * hs ! k) < h * k \<and> h * k \<le> cntp P (S * Suc (hs ! k))"
    using inv unfolding hints_inv_def prod.case by blast
  have k: "?k \<le> m" unfolding m(1) using i by (intro div_le_mono) simp
  let ?s = "?hs ! ?k" and ?e = "?hs ! Suc ?k"
  have idx: "idx ?hs ?k = Some ?s" "idx ?hs (?k + 1) = Some ?e" using k m(2) by simp_all
  have sG: "?s \<le> G" and eG: "?e \<le> G" using lt k m(2) by (auto simp: nth_append)
  have ik: "h * ?k \<le> i" "i < h * Suc ?k" using h dividend_less_times_div [of h i] by simp_all
  have start: "cntp P (S * ?s) \<le> i"
  proof (cases "?k = 0")
    case True
    then show ?thesis using inv k m(2) by (simp add: hints_inv_def nth_append)
  next
    case False
    then have "cntp P (S * hs ! ?k) < h * ?k" using hk [rule_format, of ?k] k by simp
    moreover have "?hs ! ?k = hs ! ?k" using k m(2) by (simp add: nth_append)
    ultimately show ?thesis using ik(1) by (simp only:)
  qed
  have stop: "i < cntp P (S * Suc ?e)"
  proof (cases "Suc ?k \<le> m")
    case True
    then have "h * Suc ?k \<le> cntp P (S * Suc (hs ! Suc ?k))" using hk [rule_format, of "Suc ?k"] by simp
    moreover have "?hs ! Suc ?k = hs ! Suc ?k" using True m(2) by (simp add: nth_append)
    ultimately show ?thesis using ik(2) by (simp only:)
  next
    case False
    then have "?e = G" using k m(2) by (simp add: nth_append)
    then show ?thesis using G cntp_block_mono [of G "Suc G" P S] by simp
  qed
  \<comment> \<open>the scan, over ranks that are known up to \<open>G\<close>\<close>
  obtain n where n: "scan_while rank (i + 1) (1 + ?e) 1 ?s = Some (?s + n * 1)"
    "\<forall>m'<n. ?s + m' * 1 < 1 + ?e \<and> cntp P (S * (?s + m' * 1)) < i + 1"
    "1 + ?e \<le> ?s + n * 1 \<or> i + 1 \<le> cntp P (S * (?s + n * 1))"
    using scan_while_result [of 1 "1 + ?e" rank "\<lambda>k. cntp P (S * k)" "i + 1" ?s] rank eG by auto
  have n0: "0 < n"
  proof (rule ccontr)
    assume "\<not> 0 < n"
    then have "1 + ?e \<le> ?s" using n(3) start by auto
    then show False using stop start cntp_block_mono [of "Suc ?e" ?s P S] by linarith
  qed
  define q where "q = ?s + (n - 1)"
  have q: "cntp P (S * q) \<le> i" "q \<le> ?e" using n(2) [rule_format, of "n - 1"] n0 by (simp_all add: q_def)
  have sn: "?s + n = Suc q" using n0 by (simp add: q_def)
  have q': "i < cntp P (S * Suc q)"
  proof (cases "1 + ?e \<le> ?s + n")
    case True
    then have "Suc ?e \<le> Suc q" using sn by simp
    then show ?thesis using stop cntp_block_mono [of "Suc ?e" "Suc q" P S] by linarith
  next
    case False
    then show ?thesis using n(3) sn by simp
  qed
  have "q < G"
  proof (rule ccontr)
    assume "\<not> q < G"
    then show False using G q(1) cntp_block_mono [of G q P S] by simp
  qed
  then show thesis using that idx n(1) q q' sn by simp
qed

section \<open>The scan inside a superblock\<close>

lemma sub_scan_from:
  assumes "j0 \<le> 7" "\<And>j. j \<le> 7 \<Longrightarrow> rank (p + j) = Some (c j)" "\<And>j. j < j0 \<Longrightarrow> c j \<le> i" "j0 = 0 \<Longrightarrow> c 0 \<le> i"
  shows "\<exists>u\<le>7. sub_scan rank i p [j0..<8] = Some (p + u) \<and> c u \<le> i \<and> (u = 7 \<or> i < c (Suc u))"
  using assms(1,3,4)
proof (induction "7 - j0" arbitrary: j0)
  case 0
  then have j0: "j0 = 7" by simp
  then have "[j0..<8] = [7]" by (simp add: upt_conv_Cons)
  then show ?case
    using assms(2) [of 7] 0 j0 by (cases "c 7 > i") (auto intro!: exI [of _ "6 :: nat"] exI [of _ "7 :: nat"])
next
  case (Suc d)
  have j: "[j0..<8] = j0 # [Suc j0..<8]" using Suc.prems(1) by (simp add: upt_conv_Cons del: upt_Suc)
  show ?case
  proof (cases "c j0 > i")
    case True
    then have "0 < j0" using Suc.prems(3) by (cases j0) auto
    then show ?thesis
      using True assms(2) [of j0] Suc.prems(1,2) unfolding j by (intro exI [of _ "j0 - 1"]) simp
  next
    case False
    have "\<exists>u\<le>7. sub_scan rank i p [Suc j0..<8] = Some (p + u) \<and> c u \<le> i \<and> (u = 7 \<or> i < c (Suc u))"
      by (rule Suc.hyps(1)) (use Suc.hyps(2) Suc.prems False in \<open>auto simp: less_Suc_eq\<close>)
    moreover have "j0 \<noteq> 7" using Suc.hyps(2) by simp
    ultimately show ?thesis using False assms(2) [of j0] Suc.prems(1) unfolding j by simp
  qed
qed

text \<open>The scan over the eight parts of length \<open>s\<close> of superblock \<open>q\<close> finds the part of the occurrence.\<close>

lemma sub_scan_eq:
  assumes "\<And>j. j \<le> 7 \<Longrightarrow> rank (8 * q + j) = Some (cntp P (s * (8 * q + j)))"
    and "cntp P (8 * s * q) \<le> i" "i < cntp P (8 * s * Suc q)"
  obtains u where "sub_scan rank i (8 * q) [0..<8] = Some u" "cntp P (s * u) \<le> i" "i < cntp P (s * Suc u)" "u div 8 = q"
proof -
  have e: "8 * s * q = s * (8 * q + 0)" "8 * s * Suc q = s * (8 * q + 8)" by (simp_all add: algebra_simps)
  obtain u where u: "u \<le> 7" "sub_scan rank i (8 * q) [0..<8] = Some (8 * q + u)" "cntp P (s * (8 * q + u)) \<le> i"
    "u = 7 \<or> i < cntp P (s * (8 * q + Suc u))"
    using sub_scan_from [of 0 rank "8 * q" "\<lambda>j. cntp P (s * (8 * q + j))" i] assms(1,2) e by auto
  have "i < cntp P (s * Suc (8 * q + u))"
  proof (cases "u = 7")
    case True
    have "s * Suc (8 * q + 7) = 8 * s * Suc q" by (simp add: algebra_simps)
    then show ?thesis using True assms(3) by (simp only:)
  qed (use u(4) in simp)
  then show thesis using that [of "8 * q + u"] u by simp
qed

text \<open>Both scans together, over a vector of \<open>N\<close> bits.\<close>

lemma find_part:
  assumes inv: "hints_inv P (8 * s) h (cntp P N) (hs, m)" "0 < h" "\<forall>x\<in>set hs. x \<le> G" and i: "i < cntp P N" and N: "N \<le> 8 * s * G"
    and rank: "\<And>k. k \<le> G \<Longrightarrow> rank k = Some (cntp P (8 * s * k))"
    and sub: "\<And>u. u div 8 \<le> G \<Longrightarrow> sub_rank u = Some (cntp P (s * u))"
  obtains st e q u where "idx (hs @ [G]) (i div h) = Some st" "idx (hs @ [G]) (i div h + 1) = Some e"
    "scan_while rank (i + 1) (1 + e) 1 st = Some (Suc q)" "sub_scan sub_rank i (q * 8) [0..<8] = Some u"
    "sub_rank u = Some (cntp P (s * u))" "cntp P (s * u) \<le> i" "i < cntp P (s * u + s)" "s * u < N"
proof -
  have "i < cntp P (8 * s * G)" using i cntp_mono [OF N, of P] by simp
  then obtain st e q where q: "idx (hs @ [G]) (i div h) = Some st" "idx (hs @ [G]) (i div h + 1) = Some e"
    "scan_while rank (i + 1) (1 + e) 1 st = Some (Suc q)" "cntp P (8 * s * q) \<le> i" "i < cntp P (8 * s * Suc q)" "q < G"
    using hint_scan [OF inv(1,2) i rank _ inv(3)] by blast
  have "sub_rank (8 * q + j) = Some (cntp P (s * (8 * q + j)))" if "j \<le> 7" for j
    by (rule sub) (use that q(6) in simp)
  then obtain u where u: "sub_scan sub_rank i (8 * q) [0..<8] = Some u" "cntp P (s * u) \<le> i" "i < cntp P (s * Suc u)" "u div 8 = q"
    using sub_scan_eq [OF _ q(4,5)] by blast
  have "s * u < N" using cntp_less_imp [of P "s * u" N] u(2) i by simp
  moreover have "i < cntp P (s * u + s)" using u(3) by (simp add: add.commute)
  moreover have "sub_rank u = Some (cntp P (s * u))" using sub u(4) q(6) by simp
  ultimately show thesis using that [OF q(1-3), of u] u(1,2) by (simp only: mult.commute)
qed

text \<open>Selection relative to the start of a part.\<close>

lemma selp_from:
  assumes "cntp P a \<le> i" "i < cntp P (a + n)"
  obtains r where "selp (\<lambda>p. P (a + p)) n (i - cntp P a) = Some r" "P (a + r)" "cntp P (a + r) = i" "r < n"
proof -
  have "i - cntp P a < cntp (\<lambda>p. P (a + p)) n" using assms by (simp add: cntp_add)
  then obtain r where r: "r < n" "P (a + r)" "cntp (\<lambda>p. P (a + p)) r = i - cntp P a"
    using cntp_ex [of "i - cntp P a" "\<lambda>p. P (a + p)" n] by auto
  then show thesis using that [of r] assms(1) by (simp add: selp_eq_Some_iff cntp_add)
qed

section \<open>Counters shifted into a word\<close>

text \<open>\<open>w <<= n; w |= c\<close> appends a field; \<open>pack\<close> is the value after \<open>j\<close> fields in base \<open>b = 2 ^ n\<close>.\<close>

fun pack :: "nat \<Rightarrow> nat \<Rightarrow> (nat \<Rightarrow> nat) \<Rightarrow> nat \<Rightarrow> nat" where
  "pack b w c 0 = w"
| "pack b w c (Suc j) = b * pack b w c j + c (Suc j)"

lemma pack_div:
  assumes "\<And>i. i \<le> j + k \<Longrightarrow> c i < b"
  shows "pack b w c (j + k) div b ^ k = pack b w c j"
  using assms
proof (induction k)
  case (Suc k)
  have c: "c (Suc (j + k)) < b" using Suc.prems [of "Suc (j + k)"] by simp
  then have "(b * pack b w c (j + k) + c (Suc (j + k))) div b = pack b w c (j + k)" by simp
  then have "pack b w c (j + Suc k) div b ^ Suc k = pack b w c (j + k) div b ^ k"
    by (simp add: div_mult2_eq)
  then show ?case using Suc by simp
qed simp

lemma pack_field:
  assumes "\<And>i. i \<le> m \<Longrightarrow> c i < b" "Suc j \<le> m"
  shows "pack b w c m div b ^ (m - Suc j) mod b = c (Suc j)"
  using pack_div [of "Suc j" "m - Suc j" c b w] assms by simp

lemma pack_less: "0 < b \<Longrightarrow> (\<And>i. i \<le> j \<Longrightarrow> c i < b) \<Longrightarrow> w < m \<Longrightarrow> pack b w c j < m * b ^ j"
proof (induction j)
  case (Suc j)
  have "Suc (pack b w c j) \<le> m * b ^ j" using Suc by (simp add: Suc_leI)
  then have "b * Suc (pack b w c j) \<le> b * (m * b ^ j)" by (rule mult_le_mono2)
  moreover have "c (Suc j) < b" using Suc.prems(2) by simp
  ultimately show ?case by (simp add: mult.left_commute)
qed simp

lemma pack_zero: "(\<And>i. i \<le> j \<Longrightarrow> c i = 0) \<Longrightarrow> pack b w c j = w * b ^ j"
  by (induction j) (simp_all add: mult.left_commute)

lemma or_shift_unat:
  assumes "c < 2 ^ n" "2 ^ n * unat w + c < 2 ^ LENGTH('a::len)"
  shows "unat (push_bit n w OR of_nat c :: 'a word) = 2 ^ n * unat w + c"
proof -
  have p: "unat (push_bit n w) = push_bit n (unat w)"
    unfolding unsigned_push_bit_eq by (rule take_bit_nat_eq_self) (use assms(2) in \<open>simp add: push_bit_eq_mult mult.commute\<close>)
  have d: "unat (of_nat c :: 'a word) = c" using assms(2) by (simp add: unsigned_of_nat take_bit_nat_eq_self)
  have "push_bit n (unat w) OR c = push_bit n (unat w) + c"
  proof (rule disjunctive_add [symmetric])
    fix k
    have "bit c k \<Longrightarrow> k < n" using assms(1) by (metis bit_take_bit_iff take_bit_nat_eq_self_iff)
    then show "\<not> bit (push_bit n (unat w)) k \<or> \<not> bit c k" by (auto simp: bit_push_bit_iff)
  qed
  then show ?thesis unfolding unsigned_or_eq p d by (simp add: push_bit_eq_mult mult.commute)
qed

lemma unat_of_nat_add: "a + unat w < 2 ^ LENGTH('a) \<Longrightarrow> unat (of_nat a + w :: 'a::len word) = a + unat w"
  by (simp add: unat_word_ariths(1) unsigned_of_nat take_bit_nat_eq_self)

section \<open>Indexed loops\<close>

lemma foldl_zip_inv:
  assumes "Inv 0 s" "\<And>k st. k < length xs \<Longrightarrow> Inv k st \<Longrightarrow> Inv (Suc k) (f st (k, xs ! k))"
  shows "Inv (length xs) (foldl f s (zip [0..<length xs] xs))"
proof -
  have "Inv m (foldl f s (zip [0..<m] (take m xs)))" if "m \<le> length xs" for m
    using that
  proof (induction m)
    case 0
    then show ?case using assms(1) by simp
  next
    case (Suc m)
    have "zip [0..<Suc m] (take (Suc m) xs) = zip [0..<m] (take m xs) @ [(m, xs ! m)]"
      using Suc.prems by (simp add: take_Suc_conv_app_nth)
    then show ?case using Suc assms(2) [of m] by simp
  qed
  from this [of "length xs"] show ?thesis by simp
qed

lemma foldM_zip_inv:
  assumes "Inv 0 s" "\<And>k st. k < length xs \<Longrightarrow> Inv k st \<Longrightarrow> \<exists>st'. f st (k, xs ! k) = Some st' \<and> Inv (Suc k) st'"
  shows "\<exists>st. foldM f s (zip [0..<length xs] xs) = Some st \<and> Inv (length xs) st"
proof -
  have "\<exists>st. foldM f s (zip [0..<m] (take m xs)) = Some st \<and> Inv m st" if "m \<le> length xs" for m
    using that
  proof (induction m)
    case 0
    then show ?case using assms(1) by simp
  next
    case (Suc m)
    then obtain st where st: "foldM f s (zip [0..<m] (take m xs)) = Some st" "Inv m st" by auto
    have "zip [0..<Suc m] (take (Suc m) xs) = zip [0..<m] (take m xs) @ [(m, xs ! m)]"
      using Suc.prems by (simp add: take_Suc_conv_app_nth)
    then show ?case using Suc.prems assms(2) [of m st] st by (auto simp: foldM_append)
  qed
  from this [of "length xs"] show ?thesis by simp
qed

lemma set_push_hint: "set (fst (push_hint h c b st)) \<subseteq> insert b (set (fst st))"
  by (auto simp: push_hint_def split: prod.splits if_splits)

end
