(* ===== verification/BinSupport.thy ===== *)
theory BinSupport
  imports BitVecPacked HintSelect
begin

text \<open>
  The traits \<open>AccessBin\<close>, \<open>RankBin\<close> and \<open>SelectBin\<close> of \<^verbatim>\<open>src/lib.rs\<close> as a record of operations, with
  the default methods, and the contract of an implementation as a locale: over a vector that
  stands for the list of booleans \<open>bs\<close>, access, rank and select are those of the list. The two
  implementations, \<open>RSNarrow\<close> and \<open>RSWide\<close>, interpret it.
\<close>

section \<open>The traits\<close>

record 'b bin_ops =
  b_from :: "bitvector \<Rightarrow> 'b option"
  b_get :: "'b \<Rightarrow> nat \<Rightarrow> bool option option"
  b_get_unchecked :: "'b \<Rightarrow> nat \<Rightarrow> bool option"
  b_rank1 :: "'b \<Rightarrow> nat \<Rightarrow> nat option option"
  b_rank1_unchecked :: "'b \<Rightarrow> nat \<Rightarrow> nat option"
  b_select1 :: "'b \<Rightarrow> nat \<Rightarrow> nat option option"
  b_select1_unchecked :: "'b \<Rightarrow> nat \<Rightarrow> nat option"
  b_select0 :: "'b \<Rightarrow> nat \<Rightarrow> nat option option"
  b_select0_unchecked :: "'b \<Rightarrow> nat \<Rightarrow> nat option"
  b_count_zeros :: "'b \<Rightarrow> nat option"

definition b_rank0 :: "'b bin_ops \<Rightarrow> 'b \<Rightarrow> nat \<Rightarrow> nat option option" where
  "b_rank0 B self i = do {
     r \<leftarrow> b_rank1 B self i;
     case r of Some k \<Rightarrow> do { d \<leftarrow> chk_sub i k; Some (Some d) } | None \<Rightarrow> Some None
   }"

definition b_rank0_unchecked :: "'b bin_ops \<Rightarrow> 'b \<Rightarrow> nat \<Rightarrow> nat option" where
  "b_rank0_unchecked B self i = do { k \<leftarrow> b_rank1_unchecked B self i; chk_sub i k }"

section \<open>Bits of a list at any position\<close>

text \<open>The bit at a position, false from the end on; ranks and selects of a list count it.\<close>

definition obit :: "bool list \<Rightarrow> nat \<Rightarrow> bool" where
  "obit bs p \<longleftrightarrow> p < length bs \<and> bs ! p"

lemma rank_True_obit: "i \<le> length bs \<Longrightarrow> rank_of bs True i = cntp (obit bs) i"
  by (simp add: rank_of_cntp) (rule cntp_cong, simp add: obit_def)

lemma rank_False_obit: "i \<le> length bs \<Longrightarrow> rank_of bs False i = cntp (\<lambda>p. \<not> obit bs p) i"
  by (simp add: rank_of_cntp) (rule cntp_cong, simp add: obit_def)

lemma select_True_obit: "length bs \<le> n \<Longrightarrow> selp (obit bs) n k = select_of bs True k"
  unfolding select_of_def
proof (cases "selp (\<lambda>i. bs ! i = True) (length bs) k")
  case None
  assume n: "length bs \<le> n"
  have "cntp (obit bs) n = cntp (obit bs) (length bs)"
  proof -
    have "cntp (obit bs) n = cntp (\<lambda>p. obit bs p \<and> p < length bs) n" by (rule cntp_cong) (auto simp: obit_def)
    then show ?thesis using cntp_conj_less [OF n] by simp
  qed
  also have "\<dots> = cntp (\<lambda>i. bs ! i = True) (length bs)" by (rule cntp_cong) (simp add: obit_def)
  finally have "cntp (obit bs) n \<le> k" using None by (simp add: selp_None_iff)
  then have "selp (obit bs) n k = None" by (simp add: selp_None_iff)
  then show "selp (obit bs) n k = selp (\<lambda>i. bs ! i = True) (length bs) k" using None by simp
next
  case (Some p)
  assume n: "length bs \<le> n"
  have p: "p < length bs" "bs ! p" "cntp (\<lambda>i. bs ! i = True) p = k" using Some by (auto simp: selp_eq_Some_iff)
  have "cntp (obit bs) p = k" unfolding p(3) [symmetric] by (rule cntp_cong) (use p(1) in \<open>simp add: obit_def\<close>)
  then show "selp (obit bs) n k = selp (\<lambda>i. bs ! i = True) (length bs) k"
    unfolding Some using p n by (simp add: selp_eq_Some_iff obit_def)
qed

lemma cntp_obit_all: "length bs \<le> n \<Longrightarrow> cntp (obit bs) n = count_list bs True"
proof -
  assume n: "length bs \<le> n"
  have "cntp (obit bs) n = cntp (\<lambda>p. obit bs p \<and> p < length bs) n" by (rule cntp_cong) (auto simp: obit_def)
  then have "cntp (obit bs) n = rank_of bs True (length bs)" using cntp_conj_less [OF n] by (simp add: rank_True_obit)
  then show ?thesis by (simp add: rank_of_def)
qed

lemma count_list_False: "count_list bs False = length bs - count_list bs True"
  by (induction bs) (auto simp: Suc_diff_le count_list_True_le)

lemma select_zero:
  assumes "p < length bs" "\<not> obit bs p" "cntp (\<lambda>p. \<not> obit bs p) p = k"
  shows "select_of bs False k = Some p"
proof -
  have "cntp (\<lambda>i. bs ! i = False) p = k"
    unfolding assms(3) [symmetric] by (rule cntp_cong) (use assms(1) in \<open>simp add: obit_def\<close>)
  then show ?thesis using assms(1,2) by (simp add: select_of_def selp_eq_Some_iff obit_def)
qed

lemma select_one:
  assumes "obit bs p" "cntp (obit bs) p = k"
  shows "select_of bs True k = Some p"
proof -
  have "selp (obit bs) (length bs) k = Some p" using assms by (simp add: selp_eq_Some_iff) (simp add: obit_def)
  then show ?thesis by (simp add: select_True_obit)
qed

lemma zeros_before_end:
  assumes "k < count_list bs False" "\<not> obit bs p" "cntp (\<lambda>p. \<not> obit bs p) p = k"
  shows "p < length bs"
proof (rule ccontr)
  assume "\<not> p < length bs"
  then have "cntp (\<lambda>p. \<not> obit bs p) (length bs) \<le> k" using assms(3) cntp_mono [of "length bs" p] by auto
  then show False using assms(1) rank_False_obit [of "length bs" bs] by (simp add: rank_of_def)
qed

section \<open>The bits of a well-formed vector\<close>

lemma bv_ok_bit:
  assumes "bv_ok bv" "p < 512 * length (bv_data bv)"
  shows "dbit (bv_data bv) p = obit (bv_list bv) p"
  using bm_ok_bit [of "bm_from bv" p] assms by (simp add: bv_ok_def bv_list_def obit_def) (simp add: bm_from_def)

lemma bv_ok_lines:
  assumes "bv_ok bv"
  shows "lines_ok (bv_data bv)" "length (bv_list bv) \<le> 512 * length (bv_data bv)" "length (bv_data bv) = div_ceil (length (bv_list bv)) 512"
  using assms bm_ok_len [of "bm_from bv"] by (simp_all add: bv_ok_def bm_ok_def bm_from_def)

lemma obit_beyond: "length bs \<le> p \<Longrightarrow> \<not> obit bs p"
  by (simp add: obit_def)

text \<open>The ones of the first \<open>n\<close> bits of a line, and of a word, as a difference of ranks.\<close>

lemma line_rank:
  assumes ok: "bv_ok bv" and d: "d < length (bv_data bv)" and n: "n \<le> 512"
  shows "cntp (obit (bv_list bv)) (512 * d + n) = cntp (obit (bv_list bv)) (512 * d) + cntp (lbit (bl_words (bv_data bv ! d))) n"
proof -
  have "cntp (\<lambda>p. obit (bv_list bv) (512 * d + p)) n = cntp (lbit (bl_words (bv_data bv ! d))) n"
  proof (rule cntp_cong)
    fix p assume p: "p < n"
    have "512 * d + 512 \<le> 512 * length (bv_data bv)" using d by simp
    then have lt: "512 * d + p < 512 * length (bv_data bv)" using p n by linarith
    then show "obit (bv_list bv) (512 * d + p) = lbit (bl_words (bv_data bv ! d)) p"
      using bv_ok_bit [OF ok lt] dbit_line [OF bv_ok_lines(1) [OF ok] lt] p n by simp
  qed
  then show ?thesis by (simp add: cntp_add)
qed

lemma word_rank:
  assumes ok: "bv_ok bv" and w: "w < 8 * length (bv_data bv)" and n: "n \<le> 64"
  shows "cntp (obit (bv_list bv)) (64 * w + n) = cntp (obit (bv_list bv)) (64 * w) + cntp (bit (cast_to_u64_slice (bv_data bv) ! w)) n"
proof -
  have "cntp (\<lambda>p. obit (bv_list bv) (64 * w + p)) n = cntp (bit (cast_to_u64_slice (bv_data bv) ! w)) n"
  proof (rule cntp_cong)
    fix p assume p: "p < n"
    have "64 * Suc w \<le> 64 * (8 * length (bv_data bv))" using w by (intro mult_le_mono2) simp
    then have lt: "64 * w + p < 512 * length (bv_data bv)" using p n by simp
    then show "obit (bv_list bv) (64 * w + p) = bit (cast_to_u64_slice (bv_data bv) ! w) p"
      using bv_ok_bit [OF ok lt] word_split [of p w] p n by (simp add: lbit_def)
  qed
  then show ?thesis by (simp add: cntp_add)
qed

lemma word_obit:
  assumes ok: "bv_ok bv" and w: "w < 8 * length (bv_data bv)" and p: "p < 64"
  shows "obit (bv_list bv) (64 * w + p) = bit (cast_to_u64_slice (bv_data bv) ! w) p"
proof -
  have "64 * Suc w \<le> 64 * (8 * length (bv_data bv))" using w by (intro mult_le_mono2) simp
  then have lt: "64 * w + p < 512 * length (bv_data bv)" using p by simp
  then show ?thesis using bv_ok_bit [OF ok lt] word_split [OF p, of w] by (simp add: lbit_def)
qed

lemma line_obit:
  assumes ok: "bv_ok bv" and d: "d < length (bv_data bv)" and p: "p < 512"
  shows "obit (bv_list bv) (512 * d + p) = lbit (bl_words (bv_data bv ! d)) p"
proof -
  have "512 * d + 512 \<le> 512 * length (bv_data bv)" using d by simp
  then have lt: "512 * d + p < 512 * length (bv_data bv)" using p by linarith
  then show ?thesis using bv_ok_bit [OF ok lt] dbit_line [OF bv_ok_lines(1) [OF ok] lt] p by simp
qed

text \<open>The words and lines as the code reads them.\<close>

lemma word_of_line:
  assumes ok: "bv_ok bv" and w: "w < 8 * length (bv_data bv)"
  shows "idx (bv_data bv) (drop_bit 3 w) = Some (bv_data bv ! (w div 8))" "bl_ok (bv_data bv ! (w div 8))"
    "idx (bl_words (bv_data bv ! (w div 8))) (w mod 8) = Some (cast_to_u64_slice (bv_data bv) ! w)"
proof -
  have d: "w div 8 < length (bv_data bv)" using w by (simp add: less_mult_imp_div_less mult.commute)
  then show "idx (bv_data bv) (drop_bit 3 w) = Some (bv_data bv ! (w div 8))" by (simp add: drop_bit_eq_div)
  show l: "bl_ok (bv_data bv ! (w div 8))" using bv_ok_lines(1) [OF ok] d by (simp add: lines_ok_def)
  then show "idx (bl_words (bv_data bv ! (w div 8))) (w mod 8) = Some (cast_to_u64_slice (bv_data bv) ! w)"
    using nth_cast [OF bv_ok_lines(1) [OF ok] w] by (simp add: bl_ok_def)
qed

lemma select_in_word_pos:
  assumes "selp (bit w) 64 k = Some p"
  shows "select_in_word w (of_nat k) = Some p"
proof -
  have "k < 64" using assms cntp_strict [of "bit w" p 64] cntp_le [of "bit w" 64] by (auto simp: selp_eq_Some_iff)
  then show ?thesis using assms by (subst select_in_word_eq) (simp_all add: unat_of_nat_small)
qed

lemma pop_push: "k < 64 \<Longrightarrow> pop (push_bit k (w :: u64)) = cntp (bit w) (64 - k)"
proof -
  assume k: "k < 64"
  have "cntp (bit (push_bit k w)) k = 0" unfolding cntp_zero_iff by (simp add: bit_push_bit_iff)
  moreover have "cntp (\<lambda>p. bit (push_bit k w) (k + p)) (64 - k) = cntp (bit w) (64 - k)"
    by (rule cntp_cong) (auto simp: bit_push_bit_iff)
  ultimately have "cntp (bit (push_bit k w)) (k + (64 - k)) = cntp (bit w) (64 - k)" by (simp only: cntp_add)
  then show ?thesis using k by (simp add: pop_def)
qed

text \<open>The ones of a whole vector, and ranks beyond its end.\<close>

lemma rank_all_lines:
  assumes "bv_ok bv" "512 * length (bv_data bv) \<le> x"
  shows "cntp (obit (bv_list bv)) x = count_list (bv_list bv) True"
  using bv_ok_lines(2) [OF assms(1)] assms(2) by (intro cntp_obit_all) simp

lemma obit_rank_less: "length bs < m \<Longrightarrow> cntp (obit bs) x < m"
proof -
  assume "length bs < m"
  moreover have "cntp (obit bs) x \<le> cntp (obit bs) (max (length bs) x)" by (rule cntp_mono) simp
  moreover have "cntp (obit bs) (max (length bs) x) = count_list bs True" by (rule cntp_obit_all) simp
  ultimately show ?thesis using count_list_True_le [of bs] by simp
qed

lemma zeros_le_padded: "length bs \<le> x \<Longrightarrow> count_list bs False \<le> cntp (\<lambda>p. \<not> obit bs p) x"
  using rank_False_obit [of "length bs" bs] cntp_mono [of "length bs" x "\<lambda>p. \<not> obit bs p"] by (simp add: rank_of_def)

lemma select_of_None_iff: "select_of bs b k = None \<longleftrightarrow> count_list bs b \<le> k"
  unfolding select_of_def selp_None_iff using rank_of_cntp [of "length bs" bs b] by (simp add: rank_of_def)

text \<open>The ranks of zeros are differences.\<close>

lemma rank0_from: "cntp P x = r \<Longrightarrow> chk_sub x r = Some (cntp (\<lambda>p. \<not> P p) x)"
  using cntp_le [of P x] by (auto simp: cntp_neg)

section \<open>The contract\<close>

locale bin_support =
  fixes B :: "'b bin_ops" and brep :: "'b \<Rightarrow> bool list \<Rightarrow> bool"
  assumes b_from_rep: "bv_ok bv \<Longrightarrow> bv_n_bits bv < 2 ^ 43 \<Longrightarrow> \<exists>r. b_from B bv = Some r \<and> brep r (bv_list bv)"
    and b_get_rep: "brep r bs \<Longrightarrow> b_get B r i = Some (idx bs i)"
    and b_get_unchecked_rep: "brep r bs \<Longrightarrow> i < length bs \<Longrightarrow> b_get_unchecked B r i = Some (bs ! i)"
    and b_rank1_rep: "brep r bs \<Longrightarrow>
      b_rank1 B r i = Some (if bs \<noteq> [] \<and> i \<le> length bs then Some (rank_of bs True i) else None)"
    and b_rank1_unchecked_rep: "brep r bs \<Longrightarrow> i \<le> length bs \<Longrightarrow> b_rank1_unchecked B r i = Some (rank_of bs True i)"
    and b_select1_rep: "brep r bs \<Longrightarrow> b_select1 B r k = Some (select_of bs True k)"
    and b_select1_unchecked_rep: "brep r bs \<Longrightarrow> select_of bs True k = Some p \<Longrightarrow> b_select1_unchecked B r k = Some p"
    and b_select0_rep: "brep r bs \<Longrightarrow> b_select0 B r k = Some (select_of bs False k)"
    and b_select0_unchecked_rep: "brep r bs \<Longrightarrow> select_of bs False k = Some p \<Longrightarrow> b_select0_unchecked B r k = Some p"
    and b_count_zeros_rep: "brep r bs \<Longrightarrow> b_count_zeros B r = Some (count_list bs False)"
begin

lemma rank_True_le: "rank_of bs True i \<le> i"
  using count_list_True_le [of "take i bs"] by (simp add: rank_of_def)

lemma rank_split: "i \<le> length bs \<Longrightarrow> i - rank_of bs True i = rank_of bs False i"
  using count_list_False [of "take i bs"] by (simp add: rank_of_def)

lemma b_rank0_rep: "brep r bs \<Longrightarrow>
    b_rank0 B r i = Some (if bs \<noteq> [] \<and> i \<le> length bs then Some (rank_of bs False i) else None)"
  by (simp add: b_rank0_def b_rank1_rep rank_True_le rank_split)

lemma b_rank0_unchecked_rep: "brep r bs \<Longrightarrow> i \<le> length bs \<Longrightarrow> b_rank0_unchecked B r i = Some (rank_of bs False i)"
  by (simp add: b_rank0_unchecked_def b_rank1_unchecked_rep rank_True_le rank_split)

end

end
