(* ===== verification/RSNarrow.thy ===== *)
theory RSNarrow
  imports BinSupport
begin

text \<open>
  \<^verbatim>\<open>src/bitvector/narrow.rs\<close>: rank and select over a bit vector with a pair of 64-bit counters for every
  512-bit line: the ones before the line, and seven 9-bit counts of the ones before each word of
  it. Hints every 1024 occurrences start the select. Zeros are counted as bits that are not ones,
  so the padding of the last line counts; it comes after every zero of the vector.
\<close>

section \<open>Definitions\<close>

record rs_narrow =
  rn_bv :: bitvector
  rn_block_rank_pairs :: "u64 list"
  rn_select_samples :: "nat list list"

definition rn_SELECT_PER_HINT :: nat where
  "rn_SELECT_PER_HINT = 64 * 8 * 2"

text \<open>The local variables of the construction; each list of samples is paired with its counter.\<close>

record rn_build =
  rb_block_rank_pairs :: "u64 list"
  rb_next_rank :: nat
  rb_cur_subrank :: nat
  rb_subranks :: u64
  rb_samples_1 :: "nat list \<times> nat"
  rb_zeros_so_far :: nat
  rb_samples_0 :: "nat list \<times> nat"

definition rn_word_step :: "nat \<Rightarrow> rn_build \<Rightarrow> nat \<times> u64 \<Rightarrow> rn_build" where
  "rn_word_step b st bw = (
     let (b1, word) = bw;
         word_pop = pop word;
         shift = (b * 8 + b1) mod 8;
         subranks = (if shift \<ge> 1 then push_bit 9 (rb_subranks st) OR of_nat (rb_cur_subrank st) else rb_subranks st);
         next_rank = rb_next_rank st + word_pop;
         cur_subrank = rb_cur_subrank st + word_pop;
         samples_1 = push_hint rn_SELECT_PER_HINT next_rank b (rb_samples_1 st);
         zeros_so_far = rb_zeros_so_far st + (64 - word_pop);
         samples_0 = push_hint rn_SELECT_PER_HINT zeros_so_far b (rb_samples_0 st)
     in if shift = 8 - 1 then
          \<lparr>rb_block_rank_pairs = rb_block_rank_pairs st @ [subranks, of_nat next_rank], rb_next_rank = next_rank,
            rb_cur_subrank = 0, rb_subranks = 0, rb_samples_1 = samples_1, rb_zeros_so_far = zeros_so_far, rb_samples_0 = samples_0\<rparr>
        else
          \<lparr>rb_block_rank_pairs = rb_block_rank_pairs st, rb_next_rank = next_rank,
            rb_cur_subrank = cur_subrank, rb_subranks = subranks, rb_samples_1 = samples_1, rb_zeros_so_far = zeros_so_far,
            rb_samples_0 = samples_0\<rparr>)"

definition rn_line_step :: "rn_build \<Rightarrow> nat \<times> bit_line \<Rightarrow> rn_build" where
  "rn_line_step st bdl = (
     let (b, dl) = bdl
     in foldl (rn_word_step b) st (zip [0..<length (bl_words dl)] (bl_words dl)))"

definition rn_new :: "bitvector \<Rightarrow> rs_narrow option" where
  "rn_new bv = (
     let n = length (bv_data bv);
         st = foldl rn_line_step
           \<lparr>rb_block_rank_pairs = [0], rb_next_rank = 0, rb_cur_subrank = 0, rb_subranks = 0, rb_samples_1 = ([0], 0),
             rb_zeros_so_far = 0, rb_samples_0 = ([0], 0)\<rparr> (zip [0..<n] (bv_data bv));
         left = 8 - (n mod 8);
         subranks = foldl (\<lambda>s _. push_bit 9 s OR of_nat (rb_cur_subrank st)) (rb_subranks st) [0..<left];
         pairs = rb_block_rank_pairs st @ [subranks];
         pairs = (if n mod 8 \<noteq> 0 then pairs @ [of_nat (rb_next_rank st), 0] else pairs)
     in do {
       g \<leftarrow> chk_sub (length pairs div 2) 1;
       Some \<lparr>rn_bv = bv, rn_block_rank_pairs = pairs,
         rn_select_samples = [fst (rb_samples_0 st) @ [g], fst (rb_samples_1 st) @ [g]]\<rparr>
     })"

text \<open>The bit vector is decoded, with its checks, as a field; the counters are rebuilt.\<close>

definition rn_deserialize :: "rs_narrow \<Rightarrow> (string + rs_narrow) option" where
  "rn_deserialize decoded = rbind (bv_deserialize (rn_bv decoded)) (\<lambda>bv. map_option Inr (rn_new bv))"

definition rn_len :: "rs_narrow \<Rightarrow> nat" where
  "rn_len self = bv_len (rn_bv self)"

definition rn_is_empty :: "rs_narrow \<Rightarrow> bool" where
  "rn_is_empty self \<longleftrightarrow> bv_len (rn_bv self) = 0"

definition rn_count_ones :: "rs_narrow \<Rightarrow> nat" where
  "rn_count_ones self = bv_count_ones (rn_bv self)"

definition rn_count_zeros :: "rs_narrow \<Rightarrow> nat option" where
  "rn_count_zeros self = chk_sub (bv_len (rn_bv self)) (rn_count_ones self)"

definition rn_block_rank :: "rs_narrow \<Rightarrow> nat \<Rightarrow> nat option" where
  "rn_block_rank self block = do { w \<leftarrow> idx (rn_block_rank_pairs self) (block * 2); Some (unat w) }"

definition rn_sub_block_ranks :: "rs_narrow \<Rightarrow> nat \<Rightarrow> u64 option" where
  "rn_sub_block_ranks self block = idx (rn_block_rank_pairs self) (block * 2 + 1)"

definition rn_sub_block_rank :: "rs_narrow \<Rightarrow> nat \<Rightarrow> nat option" where
  "rn_sub_block_rank self sub_block = do {
     let block = sub_block div 8;
     r \<leftarrow> rn_block_rank self block;
     let left = sub_block mod 8;
     s \<leftarrow> rn_sub_block_ranks self block;
     result \<leftarrow> chk_add_w (of_nat r) (drop_bit ((7 - left) * 9) s AND 0x1FF);
     Some (unat result)
   }"

definition rn_select1_subblock :: "rs_narrow \<Rightarrow> nat \<Rightarrow> (nat \<times> nat) option" where
  "rn_select1_subblock self i = do {
     let hint = i div rn_SELECT_PER_HINT;
     samples \<leftarrow> idx (rn_select_samples self) 1;
     hint_start \<leftarrow> idx samples hint;
     e \<leftarrow> idx samples (hint + 1);
     let hint_end = 1 + e;
     hint_start \<leftarrow> scan_while (rn_block_rank self) (i + 1) hint_end 1 hint_start;
     position \<leftarrow> chk_sub hint_start 1;
     position \<leftarrow> sub_scan (rn_sub_block_rank self) i (position * 8) [0..<8];
     rank \<leftarrow> rn_sub_block_rank self position;
     Some (position, rank)
   }"

definition rn_select0_subblock :: "rs_narrow \<Rightarrow> nat \<Rightarrow> (nat \<times> nat) option" where
  "rn_select0_subblock self i = do {
     let hint = i div rn_SELECT_PER_HINT;
     samples \<leftarrow> idx (rn_select_samples self) 0;
     hint_start \<leftarrow> idx samples hint;
     e \<leftarrow> idx samples (hint + 1);
     let hint_end = 1 + e;
     let max_rank_for_block = 8 * 64;
     hint_start \<leftarrow> scan_while (\<lambda>k. do { r \<leftarrow> rn_block_rank self k; chk_sub (max_rank_for_block * k) r }) (i + 1) hint_end 1 hint_start;
     position \<leftarrow> chk_sub hint_start 1;
     let max_rank_for_subblock = 64;
     position \<leftarrow> sub_scan (\<lambda>k. do { r \<leftarrow> rn_sub_block_rank self k; chk_sub (max_rank_for_subblock * k) r }) i (position * 8) [0..<8];
     r \<leftarrow> rn_sub_block_rank self position;
     rank \<leftarrow> chk_sub (max_rank_for_subblock * position) r;
     Some (position, rank)
   }"

definition rn_get_unchecked :: "rs_narrow \<Rightarrow> nat \<Rightarrow> bool option" where
  "rn_get_unchecked self i = bv_get_unchecked (rn_bv self) i"

definition rn_get :: "rs_narrow \<Rightarrow> nat \<Rightarrow> bool option option" where
  "rn_get self i =
     (if i \<ge> bv_len (rn_bv self) then Some None else do { b \<leftarrow> rn_get_unchecked self i; Some (Some b) })"

definition rn_rank1_unchecked :: "rs_narrow \<Rightarrow> nat \<Rightarrow> nat option" where
  "rn_rank1_unchecked self i =
     (if i = 0 then Some 0
      else do {
        let i = i - 1;
        let sub_block = drop_bit 6 i;
        result \<leftarrow> rn_sub_block_rank self sub_block;
        let sub_left = (i AND 63) + 1;
        c \<leftarrow> (if sub_left = 0 then Some 0
          else do {
            l \<leftarrow> idx (bv_data (rn_bv self)) (drop_bit 3 sub_block);
            w \<leftarrow> bl_get_word l (sub_block mod 8);
            Some (pop (push_bit ((64 - sub_left) mod 64) w))
          });
        Some (result + c)
      })"

definition rn_rank1 :: "rs_narrow \<Rightarrow> nat \<Rightarrow> nat option option" where
  "rn_rank1 self i =
     (if bv_is_empty (rn_bv self) \<or> i > bv_len (rn_bv self) then Some None
      else do { r \<leftarrow> rn_rank1_unchecked self i; Some (Some r) })"

definition rn_select1_unchecked :: "rs_narrow \<Rightarrow> nat \<Rightarrow> nat option" where
  "rn_select1_unchecked self i = do {
     (block, rank) \<leftarrow> rn_select1_subblock self i;
     l \<leftarrow> idx (bv_data (rn_bv self)) (drop_bit 3 block);
     word_to_sel \<leftarrow> idx (bl_words l) (block mod 8);
     d \<leftarrow> chk_sub i rank;
     p \<leftarrow> select_in_word word_to_sel (of_nat d);
     Some (block * 64 + p)
   }"

definition rn_select1 :: "rs_narrow \<Rightarrow> nat \<Rightarrow> nat option option" where
  "rn_select1 self i =
     (if i \<ge> rn_count_ones self then Some None else do { p \<leftarrow> rn_select1_unchecked self i; Some (Some p) })"

definition rn_select0_unchecked :: "rs_narrow \<Rightarrow> nat \<Rightarrow> nat option" where
  "rn_select0_unchecked self i = do {
     (block, rank) \<leftarrow> rn_select0_subblock self i;
     l \<leftarrow> idx (bv_data (rn_bv self)) (drop_bit 3 block);
     w \<leftarrow> idx (bl_words l) (block mod 8);
     let word_to_sel = NOT w;
     d \<leftarrow> chk_sub i rank;
     p \<leftarrow> select_in_word word_to_sel (of_nat d);
     Some (block * 64 + p)
   }"

definition rn_select0 :: "rs_narrow \<Rightarrow> nat \<Rightarrow> nat option option" where
  "rn_select0 self i = do {
     z \<leftarrow> rn_count_zeros self;
     if i \<ge> z then Some None else do { p \<leftarrow> rn_select0_unchecked self i; Some (Some p) }
   }"

definition rn_ops :: "rs_narrow bin_ops" where
  "rn_ops = \<lparr>b_from = rn_new, b_get = rn_get, b_get_unchecked = rn_get_unchecked, b_rank1 = rn_rank1,
     b_rank1_unchecked = rn_rank1_unchecked, b_select1 = rn_select1, b_select1_unchecked = rn_select1_unchecked,
     b_select0 = rn_select0, b_select0_unchecked = rn_select0_unchecked, b_count_zeros = rn_count_zeros\<rparr>"

section \<open>Well-formed structures\<close>

text \<open>
  The counters of line \<open>k\<close> hold the ones before it and before each of its words; the two hint lists
  end with a guard whose rank exceeds any that is looked for.
\<close>

definition rn_pair_ok :: "bool list \<Rightarrow> u64 list \<Rightarrow> nat \<Rightarrow> bool" where
  "rn_pair_ok bs pairs k \<longleftrightarrow> unat (pairs ! (2 * k)) = cntp (obit bs) (512 * k) \<and>
     (\<forall>j<8. unat (drop_bit ((7 - j) * 9) (pairs ! (2 * k + 1)) AND 0x1FF)
        = cntp (obit bs) (64 * (8 * k + j)) - cntp (obit bs) (512 * k))"

definition rn_ok :: "rs_narrow \<Rightarrow> bool" where
  "rn_ok self \<longleftrightarrow> (let bs = bv_list (rn_bv self); n = length (bv_data (rn_bv self)) in
     bv_ok (rn_bv self) \<and> length bs < 2 ^ 43 \<and>
     (\<exists>G h0 h1 m0 m1. n \<le> G \<and> rn_select_samples self = [h0 @ [G], h1 @ [G]] \<and> 2 * G + 1 < length (rn_block_rank_pairs self)
       \<and> (\<forall>k\<le>G. rn_pair_ok bs (rn_block_rank_pairs self) k)
       \<and> hints_inv (obit bs) 512 1024 (cntp (obit bs) (512 * n)) (h1, m1) \<and> (\<forall>x\<in>set h1. x \<le> n)
       \<and> hints_inv (\<lambda>p. \<not> obit bs p) 512 1024 (cntp (\<lambda>p. \<not> obit bs p) (512 * n)) (h0, m0) \<and> (\<forall>x\<in>set h0. x \<le> n)))"

section \<open>Construction\<close>

definition rn_hints_ok :: "bool list \<Rightarrow> nat \<Rightarrow> nat \<Rightarrow> rn_build \<Rightarrow> bool" where
  "rn_hints_ok bs t a st \<longleftrightarrow> rb_next_rank st = cntp (obit bs) a \<and> rb_zeros_so_far st = cntp (\<lambda>p. \<not> obit bs p) a
     \<and> hints_inv (obit bs) 512 1024 (cntp (obit bs) a) (rb_samples_1 st) \<and> (\<forall>x\<in>set (fst (rb_samples_1 st)). x \<le> t)
     \<and> hints_inv (\<lambda>p. \<not> obit bs p) 512 1024 (cntp (\<lambda>p. \<not> obit bs p) a) (rb_samples_0 st) \<and> (\<forall>x\<in>set (fst (rb_samples_0 st)). x \<le> t)"

text \<open>The ones of line \<open>t\<close> before its word \<open>j\<close>.\<close>

definition line_cnt :: "bool list \<Rightarrow> nat \<Rightarrow> nat \<Rightarrow> nat" where
  "line_cnt bs t j = cntp (obit bs) (64 * (8 * t + j)) - cntp (obit bs) (512 * t)"

definition rn_pairs_ok :: "bool list \<Rightarrow> nat \<Rightarrow> u64 list \<Rightarrow> bool" where
  "rn_pairs_ok bs t pairs \<longleftrightarrow> length pairs = 2 * t + 1 \<and> unat (pairs ! (2 * t)) = cntp (obit bs) (512 * t) \<and> (\<forall>k<t. rn_pair_ok bs pairs k)"

definition rn_word_inv :: "bool list \<Rightarrow> nat \<Rightarrow> nat \<Rightarrow> rn_build \<Rightarrow> bool" where
  "rn_word_inv bs t j st \<longleftrightarrow> rn_pairs_ok bs t (rb_block_rank_pairs st) \<and> rn_hints_ok bs t (64 * (8 * t + j)) st
     \<and> rb_cur_subrank st = line_cnt bs t j \<and> unat (rb_subranks st) = pack 512 0 (line_cnt bs t) (j - 1)"

definition rn_line_inv :: "bool list \<Rightarrow> nat \<Rightarrow> rn_build \<Rightarrow> bool" where
  "rn_line_inv bs t st \<longleftrightarrow> rn_pairs_ok bs t (rb_block_rank_pairs st) \<and> rn_hints_ok bs t (512 * t) st
     \<and> rb_cur_subrank st = 0 \<and> rb_subranks st = 0"

lemma line_cnt_le: "line_cnt bs t j \<le> 64 * j"
proof -
  have "cntp (obit bs) (64 * (8 * t + j)) \<le> cntp (obit bs) (512 * t) + 64 * j"
    using cntp_diff_le [of "512 * t" "64 * (8 * t + j)" "obit bs"] by simp
  then show ?thesis by (simp add: line_cnt_def)
qed

lemma zeros_count: "cntp (\<lambda>p. \<not> P p) (a + 64) = cntp (\<lambda>p. \<not> P p) a + (64 - c)" if "cntp P (a + 64) = cntp P a + c" "c \<le> 64"
  using that cntp_le [of P a] by (simp add: cntp_neg)

lemma rn_hints_step:
  assumes ok: "bv_ok bv" and w: "8 * t + j < 8 * length (bv_data bv)" "j < 8"
    and inv: "rn_hints_ok (bv_list bv) t (64 * (8 * t + j)) st"
    and st': "rb_next_rank st' = rb_next_rank st + c" "rb_zeros_so_far st' = rb_zeros_so_far st + (64 - c)"
      "rb_samples_1 st' = push_hint 1024 (rb_next_rank st') t (rb_samples_1 st)"
      "rb_samples_0 st' = push_hint 1024 (rb_zeros_so_far st') t (rb_samples_0 st)"
    and c: "c = pop (cast_to_u64_slice (bv_data bv) ! (8 * t + j))"
  shows "rn_hints_ok (bv_list bv) t (64 * (8 * t + Suc j)) st'"
proof -
  let ?P = "obit (bv_list bv)" and ?a = "64 * (8 * t + j)"
  have e: "64 * (8 * t + Suc j) = ?a + 64" by simp
  have r: "cntp ?P (?a + 64) = cntp ?P ?a + c" using word_rank [OF ok w(1), of 64] by (simp add: c pop_def)
  have c64: "c \<le> 64" using pop_le [of "cast_to_u64_slice (bv_data bv) ! (8 * t + j)"] by (simp add: c)
  note z = zeros_count [OF r c64]
  have n: "rb_next_rank st' = cntp ?P (?a + 64)" "rb_zeros_so_far st' = cntp (\<lambda>p. \<not> ?P p) (?a + 64)"
    using inv st'(1,2) r z by (simp_all add: rn_hints_ok_def)
  have push: "hints_inv Q 512 1024 (cntp Q (?a + 64)) (push_hint 1024 (cntp Q (?a + 64)) t sm)"
    if "hints_inv Q 512 1024 (cntp Q ?a) sm" for Q sm
  proof (cases sm)
    case (Pair hs m)
    have "cntp Q (?a + 64) < cntp Q ?a + 1024" using cntp_diff_le [of ?a "?a + 64" Q] by simp
    moreover have "512 * t \<le> ?a" "?a + 64 \<le> 512 * Suc t" using w(2) by simp_all
    ultimately show ?thesis using that hints_push [of Q 512 1024 ?a hs m "?a + 64" t] unfolding Pair by simp
  qed
  have mem: "\<forall>x\<in>set (fst (push_hint h k t sm)). x \<le> t" if "\<forall>x\<in>set (fst sm). x \<le> t" for h k sm
    using that set_push_hint [of h k t sm] by blast
  show ?thesis
    unfolding rn_hints_ok_def e st'(3,4) n
    by (intro conjI refl push mem) (use inv in \<open>simp_all add: rn_hints_ok_def\<close>)
qed

lemma rn_pairs_ok_prefix: "rn_pair_ok bs pairs k \<Longrightarrow> 2 * k + 1 < length pairs \<Longrightarrow> rn_pair_ok bs (pairs @ qs) k"
  by (simp add: rn_pair_ok_def nth_append)

text \<open>The fields of the packed counts of a line.\<close>

lemma rn_fields:
  assumes "unat s = pack 512 0 (line_cnt bs t) 7" "j < 8"
  shows "unat (drop_bit ((7 - j) * 9) (s :: u64) AND 0x1FF) = line_cnt bs t j"
proof -
  have c: "line_cnt bs t i < 512" if "i \<le> 7" for i using line_cnt_le [of bs t i] that by simp
  have f: "unat (drop_bit m s AND 0x1FF) = unat s div 2 ^ m mod 512" for m
  proof -
    have m: "(0x1FF :: u64) = mask 9" by (simp add: mask_eq_exp_minus_1)
    show ?thesis unfolding m take_bit_eq_mask [symmetric]
      by (simp only: unsigned_take_bit_eq unat_drop_bit_eq) (simp add: take_bit_eq_mod drop_bit_eq_div)
  qed
  have p: "(2 :: nat) ^ ((7 - j) * 9) = 512 ^ (7 - j)" by (simp add: power_mult mult.commute)
  show ?thesis
  proof (cases j)
    case 0
    have "pack 512 0 (line_cnt bs t) 7 < 1 * 512 ^ 7" by (rule pack_less) (use c in simp_all)
    then show ?thesis using 0 unfolding f p assms(1) by (simp add: line_cnt_def)
  next
    case (Suc i)
    then show ?thesis unfolding f p assms(1) using pack_field [of 7 "line_cnt bs t" 512 i 0] c assms(2) by simp
  qed
qed

lemma rn_word_step_inv:
  assumes ok: "bv_ok bv" "length (bv_list bv) < 2 ^ 43" and t: "t < length (bv_data bv)" and j: "j < 8"
    and inv: "rn_word_inv (bv_list bv) t j st"
  defines "st' \<equiv> rn_word_step t st (j, bl_words (bv_data bv ! t) ! j)"
  shows "if j = 7 then rn_line_inv (bv_list bv) (Suc t) st' else rn_word_inv (bv_list bv) t (Suc j) st'"
proof -
  let ?bs = "bv_list bv" and ?w = "bl_words (bv_data bv ! t) ! j"
  let ?c = "line_cnt ?bs t" and ?R = "cntp (obit ?bs)"
  have w: "8 * t + j < 8 * length (bv_data bv)" using t j by linarith
  have word: "cast_to_u64_slice (bv_data bv) ! (8 * t + j) = ?w"
    using nth_cast [OF bv_ok_lines(1) [OF ok(1)] w] j by simp
  have hints: "rn_hints_ok ?bs t (64 * (8 * t + Suc j)) st'"
    by (rule rn_hints_step [OF ok(1) w j, of st st' "pop ?w"])
      (use inv in \<open>simp_all add: rn_word_inv_def st'_def rn_word_step_def Let_def rn_SELECT_PER_HINT_def word\<close>)
  have shift: "(t * 8 + j) mod 8 = j" using j by simp
  let ?sub = "if j \<ge> 1 then push_bit 9 (rb_subranks st) OR of_nat (rb_cur_subrank st) else rb_subranks st"
  have c: "?c i < 512" if "i \<le> 7" for i using line_cnt_le [of ?bs t i] that by simp
  have "unat ?sub = pack 512 0 ?c j"
  proof (cases j)
    case 0
    then show ?thesis using inv by (simp add: rn_word_inv_def)
  next
    case (Suc i)
    have "pack 512 0 ?c j < 1 * 512 ^ j" by (rule pack_less) (use c j in simp_all)
    also have "(512 :: nat) ^ j \<le> 512 ^ 7" by (rule power_increasing) (use j in simp_all)
    finally have "2 ^ 9 * pack 512 0 ?c i + ?c j < 2 ^ LENGTH(64)" using Suc by simp
    then have "unat (push_bit 9 (rb_subranks st) OR of_nat (?c j)) = 2 ^ 9 * pack 512 0 ?c i + ?c j"
      using or_shift_unat [of "?c j" 9 "rb_subranks st"] inv c [of j] j Suc by (simp add: rn_word_inv_def)
    then show ?thesis using inv Suc by (simp add: rn_word_inv_def)
  qed
  note sub = this
  have e64: "64 * (8 * t + Suc j) = 64 * (8 * t + j) + 64" by simp
  have rank: "?R (64 * (8 * t + Suc j)) = ?R (64 * (8 * t + j)) + pop ?w"
    unfolding e64 pop_def using word_rank [OF ok(1) w, of 64] word by simp
  have le: "?R (512 * t) \<le> ?R (64 * (8 * t + j))" by (rule cntp_mono) simp
  have cur: "rb_cur_subrank st + pop ?w = ?c (Suc j)"
    using inv le unfolding rn_word_inv_def line_cnt_def rank by simp
  have pairs: "rn_pairs_ok ?bs t (rb_block_rank_pairs st)" using inv by (simp add: rn_word_inv_def)
  show ?thesis
  proof (cases "j = 7")
    case False
    have "rb_block_rank_pairs st' = rb_block_rank_pairs st" "rb_cur_subrank st' = rb_cur_subrank st + pop ?w" "rb_subranks st' = ?sub"
      using False shift by (simp_all add: st'_def rn_word_step_def Let_def)
    then show ?thesis using False hints pairs cur sub by (simp add: rn_word_inv_def)
  next
    case True
    have st': "rb_block_rank_pairs st' = rb_block_rank_pairs st @ [?sub, of_nat (rb_next_rank st')]"
      "rb_cur_subrank st' = 0" "rb_subranks st' = 0"
      using True shift by (simp_all add: st'_def rn_word_step_def Let_def)
    have e: "64 * (8 * t + Suc j) = 512 * Suc t" using True by simp
    have next_rank: "rb_next_rank st' = ?R (512 * Suc t)" using hints unfolding e by (simp add: rn_hints_ok_def)
    have "?R (512 * Suc t) < 2 ^ 64" by (rule obit_rank_less) (use ok(2) in simp)
    then have u: "unat (of_nat (rb_next_rank st') :: u64) = ?R (512 * Suc t)" using next_rank by (simp add: unat_of_nat_small)
    have len: "length (rb_block_rank_pairs st) = 2 * t + 1" using pairs by (simp add: rn_pairs_ok_def)
    have "rn_pair_ok ?bs (rb_block_rank_pairs st') k" if "k < Suc t" for k
    proof (cases "k = t")
      case True
      have s: "rb_block_rank_pairs st' ! (2 * t) = rb_block_rank_pairs st ! (2 * t)" "rb_block_rank_pairs st' ! (2 * t + 1) = ?sub"
        using len unfolding st'(1) by (simp_all add: nth_append)
      have "\<forall>i<8. unat (drop_bit ((7 - i) * 9) ?sub AND 0x1FF) = ?c i"
        using rn_fields [of ?sub ?bs t] sub \<open>j = 7\<close> by simp
      then show ?thesis using pairs unfolding True rn_pair_ok_def s by (simp add: rn_pairs_ok_def line_cnt_def)
    next
      case False
      then show ?thesis unfolding st'(1) using that pairs len by (intro rn_pairs_ok_prefix) (simp_all add: rn_pairs_ok_def)
    qed
    moreover have "rb_block_rank_pairs st' ! (2 * Suc t) = of_nat (rb_next_rank st')" "length (rb_block_rank_pairs st') = 2 * Suc t + 1"
      using len unfolding st'(1) by (simp_all add: nth_append)
    ultimately have "rn_pairs_ok ?bs (Suc t) (rb_block_rank_pairs st')" using u by (simp add: rn_pairs_ok_def)
    moreover have "rn_hints_ok ?bs (Suc t) (512 * Suc t) st'" using hints unfolding e rn_hints_ok_def by auto
    ultimately show ?thesis using True st' by (simp add: rn_line_inv_def)
  qed
qed

lemma rn_line_step_inv:
  assumes ok: "bv_ok bv" "length (bv_list bv) < 2 ^ 43" and t: "t < length (bv_data bv)" and inv: "rn_line_inv (bv_list bv) t st"
  shows "rn_line_inv (bv_list bv) (Suc t) (rn_line_step st (t, bv_data bv ! t))"
proof -
  let ?I = "\<lambda>j st. if j = 8 then rn_line_inv (bv_list bv) (Suc t) st else rn_word_inv (bv_list bv) t j st"
  let ?ws = "bl_words (bv_data bv ! t)"
  have len: "length ?ws = 8" using bv_ok_lines(1) [OF ok(1)] t by (simp add: lines_ok_def bl_ok_def)
  have "?I (length ?ws) (foldl (rn_word_step t) st (zip [0..<length ?ws] ?ws))"
  proof (rule foldl_zip_inv)
    show "?I 0 st" using inv by (simp add: rn_line_inv_def rn_word_inv_def line_cnt_def)
    fix j st assume j: "j < length ?ws" "?I j st"
    then show "?I (Suc j) (rn_word_step t st (j, ?ws ! j))"
      using rn_word_step_inv [OF ok t, of j st] len by (cases "j = 7") simp_all
  qed
  then show ?thesis by (simp add: rn_line_step_def len)
qed

lemma rn_new_ok:
  assumes ok: "bv_ok bv" "length (bv_list bv) < 2 ^ 43"
  shows "\<exists>self. rn_new bv = Some self \<and> rn_ok self \<and> rn_bv self = bv"
proof -
  let ?bs = "bv_list bv" and ?n = "length (bv_data bv)"
  let ?R = "cntp (obit ?bs)"
  let ?st0 = "\<lparr>rb_block_rank_pairs = [0], rb_next_rank = 0, rb_cur_subrank = 0, rb_subranks = 0, rb_samples_1 = ([0], 0),
             rb_zeros_so_far = 0, rb_samples_0 = ([0], 0)\<rparr>"
  define st where "st = foldl rn_line_step ?st0 (zip [0..<?n] (bv_data bv))"
  have "rn_line_inv ?bs ?n st"
    unfolding st_def
  proof (rule foldl_zip_inv)
    show "rn_line_inv ?bs 0 ?st0" by (simp add: rn_line_inv_def rn_pairs_ok_def rn_hints_ok_def hints_init)
  qed (rule rn_line_step_inv [OF ok])
  then have pairs: "rn_pairs_ok ?bs ?n (rb_block_rank_pairs st)" and hints: "rn_hints_ok ?bs ?n (512 * ?n) st"
    and zero: "rb_cur_subrank st = 0" "rb_subranks st = 0" by (simp_all add: rn_line_inv_def)
  have sub: "foldl (\<lambda>s _. push_bit 9 s OR of_nat (rb_cur_subrank st)) 0 xs = (0 :: u64)" for xs :: "nat list"
    by (induction xs) (simp_all add: zero)
  have len: "length (rb_block_rank_pairs st) = 2 * ?n + 1" using pairs by (simp add: rn_pairs_ok_def)
  have total: "?R x = ?R (512 * ?n)" if "512 * ?n \<le> x" for x using rank_all_lines [OF ok(1)] that by simp
  have small: "?R (512 * ?n) < 2 ^ 64" by (rule obit_rank_less) (use ok(2) in simp)
  let ?ps = "if ?n mod 8 \<noteq> 0 then (rb_block_rank_pairs st @ [0]) @ [of_nat (rb_next_rank st), 0] else rb_block_rank_pairs st @ [0]"
  define G where "G = length ?ps div 2 - 1"
  have G: "?n \<le> G" "G \<le> Suc ?n" "2 * G + 1 < length ?ps" "?n mod 8 = 0 \<Longrightarrow> G = ?n" using len by (auto simp: G_def)
  have last_pair: "rn_pair_ok ?bs ps k" if "?n \<le> k" "unat (ps ! (2 * k)) = ?R (512 * ?n)" "ps ! (2 * k + 1) = 0" for ps k
  proof -
    have "512 * ?n \<le> 512 * k" "512 * ?n \<le> 64 * (8 * k + j)" for j using that(1) by simp_all
    then have "?R (512 * k) = ?R (512 * ?n)" "?R (64 * (8 * k + j)) = ?R (512 * ?n)" for j using total by blast+
    then show ?thesis using that(2,3) by (simp add: rn_pair_ok_def)
  qed
  have "rn_pair_ok ?bs ?ps k" if k: "k \<le> G" for k
  proof -
    consider "k < ?n" | "k = ?n" | "k = Suc ?n" "?n mod 8 \<noteq> 0" using k G(2,4) by linarith
    then show ?thesis
    proof cases
      case 1
      then have "rn_pair_ok ?bs (rb_block_rank_pairs st @ qs) k" for qs
        using pairs len by (intro rn_pairs_ok_prefix) (simp_all add: rn_pairs_ok_def)
      from this [of "[0]"] this [of "[0] @ [of_nat (rb_next_rank st), 0]"] show ?thesis by simp
    next
      case 2
      show ?thesis by (rule last_pair) (use 2 pairs len in \<open>simp_all add: rn_pairs_ok_def nth_append\<close>)
    next
      case 3
      have "unat (of_nat (rb_next_rank st) :: u64) = ?R (512 * ?n)"
        using hints small by (simp add: rn_hints_ok_def unat_of_nat_small)
      then show ?thesis by (intro last_pair) (use 3 len in \<open>simp_all add: nth_append\<close>)
    qed
  qed
  moreover obtain h0 m0 h1 m1 where h: "rb_samples_0 st = (h0, m0)" "rb_samples_1 st = (h1, m1)"
    by (metis prod.exhaust)
  moreover have "rn_new bv = Some \<lparr>rn_bv = bv, rn_block_rank_pairs = ?ps,
      rn_select_samples = [h0 @ [G], h1 @ [G]]\<rparr>"
    using len h by (simp add: rn_new_def Let_def zero(2) sub G_def flip: st_def)
  ultimately show ?thesis
    using ok G hints unfolding rn_ok_def Let_def rn_hints_ok_def
    by (intro exI [of _ "\<lparr>rn_bv = bv, rn_block_rank_pairs = ?ps, rn_select_samples = [h0 @ [G], h1 @ [G]]\<rparr>"] conjI)
      (simp_all; blast)+
qed

section \<open>Ranks\<close>

text \<open>What the queries use of a well-formed structure.\<close>

lemma rn_ok_ranks:
  assumes "rn_ok self"
  defines "bs \<equiv> bv_list (rn_bv self)" and "n \<equiv> length (bv_data (rn_bv self))"
  obtains G h0 h1 m0 m1 where "n \<le> G" "rn_select_samples self = [h0 @ [G], h1 @ [G]]"
    "\<And>k. k \<le> G \<Longrightarrow> rn_block_rank self k = Some (cntp (obit bs) (512 * k))"
    "\<And>u. u div 8 \<le> G \<Longrightarrow> rn_sub_block_rank self u = Some (cntp (obit bs) (64 * u))"
    "hints_inv (obit bs) 512 1024 (cntp (obit bs) (512 * n)) (h1, m1)" "\<forall>x\<in>set h1. x \<le> G"
    "hints_inv (\<lambda>p. \<not> obit bs p) 512 1024 (cntp (\<lambda>p. \<not> obit bs p) (512 * n)) (h0, m0)" "\<forall>x\<in>set h0. x \<le> G"
proof -
  obtain G h0 h1 m0 m1 where o: "n \<le> G" "rn_select_samples self = [h0 @ [G], h1 @ [G]]"
    "2 * G + 1 < length (rn_block_rank_pairs self)" "\<forall>k\<le>G. rn_pair_ok bs (rn_block_rank_pairs self) k"
    "hints_inv (obit bs) 512 1024 (cntp (obit bs) (512 * n)) (h1, m1)" "\<forall>x\<in>set h1. x \<le> n"
    "hints_inv (\<lambda>p. \<not> obit bs p) 512 1024 (cntp (\<lambda>p. \<not> obit bs p) (512 * n)) (h0, m0)" "\<forall>x\<in>set h0. x \<le> n"
    using assms(1) unfolding rn_ok_def Let_def bs_def n_def by blast
  have len: "length bs < 2 ^ 64" using assms(1) by (simp add: rn_ok_def bs_def Let_def)
  have block: "rn_block_rank self k = Some (cntp (obit bs) (512 * k))" if "k \<le> G" for k
    using o(3,4) that by (simp add: rn_block_rank_def rn_pair_ok_def mult.commute)
  have "rn_sub_block_rank self u = Some (cntp (obit bs) (64 * u))" if u: "u div 8 \<le> G" for u
  proof -
    let ?k = "u div 8" and ?s = "rn_block_rank_pairs self ! (2 * (u div 8) + 1)"
    have e: "8 * ?k + u mod 8 = u" by simp
    have f: "unat (drop_bit ((7 - u mod 8) * 9) ?s AND 0x1FF) = cntp (obit bs) (64 * u) - cntp (obit bs) (512 * ?k)"
      using o(4) u e unfolding rn_pair_ok_def by (metis mod_less_divisor zero_less_numeral)
    have le: "cntp (obit bs) (512 * ?k) \<le> cntp (obit bs) (64 * u)" by (rule cntp_mono) simp
    have sm: "cntp (obit bs) x < 2 ^ 64" for x by (rule obit_rank_less [OF len])
    have "unat (of_nat (cntp (obit bs) (512 * ?k)) + (drop_bit ((7 - u mod 8) * 9) ?s AND 0x1FF))
        = cntp (obit bs) (512 * ?k) + (cntp (obit bs) (64 * u) - cntp (obit bs) (512 * ?k))"
      unfolding f [symmetric]
      by (rule unat_of_nat_add) (use f le sm [of "64 * u"] in simp)
    then have "unat (of_nat (cntp (obit bs) (512 * ?k)) + (drop_bit ((7 - u mod 8) * 9) ?s AND 0x1FF)) = cntp (obit bs) (64 * u)"
      using le by simp
    moreover have "rn_sub_block_ranks self ?k = Some ?s"
      using o(3) u by (simp add: rn_sub_block_ranks_def mult.commute)
    moreover have "unat (of_nat (cntp (obit bs) (512 * ?k)) :: u64) + unat (drop_bit ((7 - u mod 8) * 9) ?s AND 0x1FF) < 2 ^ LENGTH(64)"
      unfolding f using sm [of "64 * u"] sm [of "512 * ?k"] le by (simp add: unat_of_nat_small)
    ultimately show ?thesis using block [OF u] by (simp add: rn_sub_block_rank_def chk_add_w_def)
  qed
  then show thesis using that [OF o(1,2) block] o by force
qed

lemma rn_rank1_unchecked_eq:
  assumes ok: "rn_ok self" and i: "i \<le> length (bv_list (rn_bv self))"
  shows "rn_rank1_unchecked self i = Some (rank_of (bv_list (rn_bv self)) True i)"
proof (cases "i = 0")
  case False
  let ?bv = "rn_bv self" let ?bs = "bv_list ?bv"
  define u where "u = (i - 1) div 64"
  define l where "l = (i - 1) mod 64 + 1"
  have bv: "bv_ok ?bv" using ok by (simp add: rn_ok_def Let_def)
  have "i - 1 < 512 * length (bv_data ?bv)" using bv_ok_lines(2) [OF bv] i False by simp
  then have u: "u < 8 * length (bv_data ?bv)" by (simp add: u_def less_mult_imp_div_less mult.commute)
  then have ud: "u div 8 < length (bv_data ?bv)" by (simp add: less_mult_imp_div_less mult.commute)
  obtain G where G: "length (bv_data ?bv) \<le> G"
    "\<And>u. u div 8 \<le> G \<Longrightarrow> rn_sub_block_rank self u = Some (cntp (obit ?bs) (64 * u))"
    using rn_ok_ranks [OF ok] by metis
  have sub: "rn_sub_block_rank self u = Some (cntp (obit ?bs) (64 * u))" using G ud by simp
  note w = word_of_line [OF bv u]
  have l: "l \<le> 64" "l \<noteq> 0" by (simp_all add: l_def Suc_leI)
  have e: "64 * u + l = i" using False by (simp add: u_def l_def)
  have "(64 - l) mod 64 < 64" "64 - (64 - l) mod 64 = l" using l by simp_all
  then have p: "pop (push_bit ((64 - l) mod 64) (cast_to_u64_slice (bv_data ?bv) ! u)) = cntp (bit (cast_to_u64_slice (bv_data ?bv) ! u)) l"
    by (simp only: pop_push)
  have g: "bl_get_word (bv_data ?bv ! (u div 8)) (u mod 8) = Some (cast_to_u64_slice (bv_data ?bv) ! u)"
    using w(3) by (simp add: bl_get_word_def)
  have "rn_rank1_unchecked self i = Some (cntp (obit ?bs) (64 * u) + cntp (bit (cast_to_u64_slice (bv_data ?bv) ! u)) l)"
    unfolding rn_rank1_unchecked_def and_63 drop_bit_6 Let_def u_def [symmetric] l_def [symmetric]
    using False l(2) sub w(1) g p by simp
  then show ?thesis using word_rank [OF bv u l(1)] rank_True_obit [OF i] e by simp
qed (simp add: rn_rank1_unchecked_def rank_of_def)

section \<open>Selects\<close>

lemma rn_select1_unchecked_eq:
  assumes ok: "rn_ok self" and k: "k < count_list (bv_list (rn_bv self)) True"
  shows "rn_select1_unchecked self k = select_of (bv_list (rn_bv self)) True k"
proof -
  let ?bv = "rn_bv self" let ?P = "obit (bv_list ?bv)" let ?N = "512 * length (bv_data ?bv)"
  have bv: "bv_ok ?bv" using ok by (simp add: rn_ok_def Let_def)
  obtain G h0 h1 m1 where r: "length (bv_data ?bv) \<le> G" "rn_select_samples self = [h0 @ [G], h1 @ [G]]"
    "\<And>k. k \<le> G \<Longrightarrow> rn_block_rank self k = Some (cntp ?P (512 * k))"
    "\<And>u. u div 8 \<le> G \<Longrightarrow> rn_sub_block_rank self u = Some (cntp ?P (64 * u))"
    "hints_inv ?P 512 1024 (cntp ?P ?N) (h1, m1)" "\<forall>x\<in>set h1. x \<le> G"
    using rn_ok_ranks [OF ok] by metis
  have kN: "k < cntp ?P ?N" using rank_all_lines [OF bv, of ?N] k by simp
  obtain st e q u where f: "idx (h1 @ [G]) (k div 1024) = Some st" "idx (h1 @ [G]) (k div 1024 + 1) = Some e"
    "scan_while (rn_block_rank self) (k + 1) (1 + e) 1 st = Some (Suc q)" "sub_scan (rn_sub_block_rank self) k (q * 8) [0..<8] = Some u"
    "rn_sub_block_rank self u = Some (cntp ?P (64 * u))" "cntp ?P (64 * u) \<le> k" "k < cntp ?P (64 * u + 64)" "64 * u < ?N"
  proof (rule find_part [OF _ _ r(6) kN, where s = 64 and h = 1024])
    show "hints_inv ?P (8 * 64) 1024 (cntp ?P ?N) (h1, m1)" using r(5) by simp
    show "rn_block_rank self k = Some (cntp ?P (8 * 64 * k))" if "k \<le> G" for k using r(3) [OF that] by simp
    show "rn_sub_block_rank self u = Some (cntp ?P (64 * u))" if "u div 8 \<le> G" for u using r(4) [OF that] .
  qed (use r(1) in simp_all)
  have u: "u < 8 * length (bv_data ?bv)" using f(8) by simp
  note w = word_of_line [OF bv u]
  obtain p where p: "selp (\<lambda>p. ?P (64 * u + p)) 64 (k - cntp ?P (64 * u)) = Some p" "?P (64 * u + p)" "cntp ?P (64 * u + p) = k" "p < 64"
    using selp_from [OF f(6,7)] by blast
  have "selp (bit (cast_to_u64_slice (bv_data ?bv) ! u)) 64 (k - cntp ?P (64 * u)) = Some p"
    using p(1) word_obit [OF bv u] by (simp cong: selp_cong)
  note select_in_word_pos [OF this]
  then have "rn_select1_unchecked self k = Some (u * 64 + p)"
    using f(1-6) r(2) w
    by (simp add: rn_select1_unchecked_def rn_select1_subblock_def rn_SELECT_PER_HINT_def del: of_nat_diff)
  then show ?thesis using select_one [OF p(2,3)] by (simp add: mult.commute)
qed

lemma rn_select0_unchecked_eq:
  assumes ok: "rn_ok self" and k: "k < count_list (bv_list (rn_bv self)) False"
  shows "rn_select0_unchecked self k = select_of (bv_list (rn_bv self)) False k"
proof -
  let ?bv = "rn_bv self" let ?P = "\<lambda>p. \<not> obit (bv_list ?bv) p" let ?N = "512 * length (bv_data ?bv)"
  have bv: "bv_ok ?bv" using ok by (simp add: rn_ok_def Let_def)
  obtain G h0 h1 m0 where r: "length (bv_data ?bv) \<le> G" "rn_select_samples self = [h0 @ [G], h1 @ [G]]"
    "\<And>k. k \<le> G \<Longrightarrow> rn_block_rank self k = Some (cntp (obit (bv_list ?bv)) (512 * k))"
    "\<And>u. u div 8 \<le> G \<Longrightarrow> rn_sub_block_rank self u = Some (cntp (obit (bv_list ?bv)) (64 * u))"
    "hints_inv ?P 512 1024 (cntp ?P ?N) (h0, m0)" "\<forall>x\<in>set h0. x \<le> G"
    using rn_ok_ranks [OF ok] by metis
  let ?rank = "\<lambda>k. do { r \<leftarrow> rn_block_rank self k; chk_sub (512 * k) r }"
  let ?sub = "\<lambda>k. do { r \<leftarrow> rn_sub_block_rank self k; chk_sub (64 * k) r }"
  have rank: "?rank k = Some (cntp ?P (8 * 64 * k))" if "k \<le> G" for k using r(3) [OF that] rank0_from [OF refl] by simp
  have sub: "?sub u = Some (cntp ?P (64 * u))" if "u div 8 \<le> G" for u using r(4) [OF that] rank0_from [OF refl] by simp
  have kN: "k < cntp ?P ?N" using zeros_le_padded [OF bv_ok_lines(2) [OF bv]] k by simp
  obtain st e q u where f: "idx (h0 @ [G]) (k div 1024) = Some st" "idx (h0 @ [G]) (k div 1024 + 1) = Some e"
    "scan_while ?rank (k + 1) (1 + e) 1 st = Some (Suc q)" "sub_scan ?sub k (q * 8) [0..<8] = Some u"
    "?sub u = Some (cntp ?P (64 * u))" "cntp ?P (64 * u) \<le> k" "k < cntp ?P (64 * u + 64)" "64 * u < ?N"
  proof (rule find_part [OF _ _ r(6) kN _ rank sub, where h = 1024])
    show "hints_inv ?P (8 * 64) 1024 (cntp ?P ?N) (h0, m0)" using r(5) by simp
  qed (use r(1) in simp_all)
  have u: "u < 8 * length (bv_data ?bv)" using f(8) by simp
  note w = word_of_line [OF bv u]
  obtain p where p: "selp (\<lambda>p. ?P (64 * u + p)) 64 (k - cntp ?P (64 * u)) = Some p" "?P (64 * u + p)" "cntp ?P (64 * u + p) = k" "p < 64"
    using selp_from [of ?P, OF f(6,7)] by blast
  have "selp (bit (NOT (cast_to_u64_slice (bv_data ?bv) ! u))) 64 (k - cntp ?P (64 * u)) = Some p"
    using p(1) word_obit [OF bv u] by (simp add: bit_not_iff cong: selp_cong)
  note select_in_word_pos [OF this]
  moreover have "u div 8 \<le> G" using u r(1) by (simp add: less_mult_imp_div_less mult.commute)
  then have "rn_sub_block_rank self u = Some (cntp (obit (bv_list ?bv)) (64 * u))" using r(4) by simp
  moreover note rank0_from [of "obit (bv_list ?bv)" "64 * u", OF refl]
  ultimately have "rn_select0_unchecked self k = Some (u * 64 + p)"
    using f(1-4,6) r(2) w
    by (simp add: rn_select0_unchecked_def rn_select0_subblock_def rn_SELECT_PER_HINT_def del: of_nat_diff)
  moreover have "64 * u + p < length (bv_list ?bv)" using zeros_before_end [OF k p(2,3)] .
  ultimately show ?thesis using select_zero [OF _ p(2,3)] by (simp add: mult.commute)
qed

section \<open>The contract\<close>

text \<open>The structure over a well-formed vector whose bits are \<open>bs\<close>.\<close>

definition rn_rep :: "rs_narrow \<Rightarrow> bool list \<Rightarrow> bool" where
  "rn_rep self bs \<longleftrightarrow> rn_ok self \<and> bv_list (rn_bv self) = bs"

lemma rn_repD:
  assumes "rn_rep self bs"
  shows "rn_ok self" "bv_ok (rn_bv self)" "bv_list (rn_bv self) = bs" "bv_len (rn_bv self) = length bs"
    "rn_count_ones self = count_list bs True" "rn_count_zeros self = Some (count_list bs False)"
proof -
  show ok: "rn_ok self" "bv_list (rn_bv self) = bs" using assms by (simp_all add: rn_rep_def)
  then show bv: "bv_ok (rn_bv self)" by (simp add: rn_ok_def Let_def)
  show len: "bv_len (rn_bv self) = length bs" using ok(2) by (auto simp: bv_len_def)
  show ones: "rn_count_ones self = count_list bs True" using bv_count_ones_eq [OF bv] ok(2) by (simp add: rn_count_ones_def)
  show "rn_count_zeros self = Some (count_list bs False)"
    unfolding rn_count_zeros_def ones len using count_list_True_le [of bs] by (simp add: count_list_False)
qed

interpretation narrow: bin_support rn_ops rn_rep
proof unfold_locales
  fix bv assume "bv_ok bv" "bv_n_bits bv < 2 ^ 43"
  then show "\<exists>r. b_from rn_ops bv = Some r \<and> rn_rep r (bv_list bv)"
    using rn_new_ok [of bv] by (auto simp: rn_ops_def rn_rep_def)
next
  fix r bs i assume r: "rn_rep r bs"
  note d = rn_repD [OF r]
  show "b_get rn_ops r i = Some (idx bs i)"
    using bv_get_eq [OF d(2), of i] d(3,4)
    by (auto simp: rn_ops_def rn_get_def rn_get_unchecked_def bv_get_def idx_def bind_eq_Some_conv split: if_splits)
  show "i < length bs \<Longrightarrow> b_get_unchecked rn_ops r i = Some (bs ! i)"
    using bv_get_eq [OF d(2), of i] d(3,4)
    by (auto simp: rn_ops_def rn_get_unchecked_def bv_get_def idx_def bind_eq_Some_conv split: if_splits)
  show "b_rank1 rn_ops r i = Some (if bs \<noteq> [] \<and> i \<le> length bs then Some (rank_of bs True i) else None)"
    using rn_rank1_unchecked_eq [OF d(1), of i] d(3,4) by (auto simp: rn_ops_def rn_rank1_def bv_is_empty_def bv_len_def)
  show "i \<le> length bs \<Longrightarrow> b_rank1_unchecked rn_ops r i = Some (rank_of bs True i)"
    using rn_rank1_unchecked_eq [OF d(1), of i] d(3) by (simp add: rn_ops_def)
next
  fix r bs k assume r: "rn_rep r bs"
  note d = rn_repD [OF r]
  show "b_select1 rn_ops r k = Some (select_of bs True k)"
    using rn_select1_unchecked_eq [OF d(1), of k] d(3,5) select_of_None_iff [of bs True k]
    by (cases "select_of bs True k") (auto simp: rn_ops_def rn_select1_def)
  show "b_select0 rn_ops r k = Some (select_of bs False k)"
    using rn_select0_unchecked_eq [OF d(1), of k] d(3,6) select_of_None_iff [of bs False k]
    by (cases "select_of bs False k") (auto simp: rn_ops_def rn_select0_def)
  show "b_count_zeros rn_ops r = Some (count_list bs False)" using d(6) by (simp add: rn_ops_def)
next
  fix r bs k p assume r: "rn_rep r bs"
  note d = rn_repD [OF r]
  show "b_select1_unchecked rn_ops r k = Some p" if "select_of bs True k = Some p"
    using rn_select1_unchecked_eq [OF d(1), of k] d(3) select_of_None_iff [of bs True k] that by (auto simp: rn_ops_def not_le [symmetric])
  show "b_select0_unchecked rn_ops r k = Some p" if "select_of bs False k = Some p"
    using rn_select0_unchecked_eq [OF d(1), of k] d(3) select_of_None_iff [of bs False k] that by (auto simp: rn_ops_def not_le [symmetric])
qed

text \<open>Decoding rebuilds the counters, whatever the stored ones were.\<close>

lemma rn_deserialize_rep:
  assumes "lines_ok (bv_data (rn_bv d))" "512 * length (bv_data (rn_bv d)) < 2 ^ 43" "rn_deserialize d = Some (Inr r)"
  shows "rn_rep r (bv_list (rn_bv r)) \<and> bv_data (rn_bv r) = bv_data (rn_bv d) \<and> bv_n_bits (rn_bv r) = bv_n_bits (rn_bv d)"
proof -
  obtain bv where bv: "bv_deserialize (rn_bv d) = Some (Inr bv)" "rn_new bv = Some r"
    using assms(3) by (auto simp: rn_deserialize_def rbind_Inr_iff)
  then have o: "bv_data bv = bv_data (rn_bv d)" "bv_n_bits bv = bv_n_bits (rn_bv d)" "bv_ok bv"
    using bv_deserialize_eq [OF assms(1)] assms(2) by auto
  have "length (bv_list bv) < 2 ^ 43" using bv_ok_lines(2) [OF o(3)] assms(2) o(1) by simp
  then show ?thesis using rn_new_ok [OF o(3)] bv(2) o by (auto simp: rn_rep_def)
qed

end
