(* ===== verification/RSWide.thy ===== *)
theory RSWide
  imports BinSupport
begin

text \<open>
  \<^verbatim>\<open>src/bitvector/wide.rs\<close>: rank and select over a bit vector with one 128-bit word for every superblock
  of eight 512-bit lines: 44 bits for the ones before the superblock and seven counts of 12 bits of
  the ones before each further line of it. The last word holds the total. Hints every 8192
  occurrences start the select, which ends inside a line.
\<close>

section \<open>Definitions\<close>

record rs_wide =
  rw_bv :: bitvector
  rw_superblock_metadata :: "u128 list"
  rw_select_samples :: "nat list list"
  rw_n_zeros :: nat

definition rw_SELECT_PER_HINT :: nat where
  "rw_SELECT_PER_HINT = 64 * (8 * 8) * 2"

record rw_build =
  wb_superblock_metadata :: "u128 list"
  wb_total_rank :: nat
  wb_cur_metadata :: u128
  wb_word_pop :: nat
  wb_zeros_so_far :: nat
  wb_samples_0 :: "nat list \<times> nat"
  wb_samples_1 :: "nat list \<times> nat"

definition rw_line_step :: "rw_build \<Rightarrow> nat \<times> bit_line \<Rightarrow> rw_build option" where
  "rw_line_step st bdl = (
     let (b, dl) = bdl;
         (total_rank, word_pop, cur_metadata) =
           (if b mod 8 = 0 then (wb_total_rank st + wb_word_pop st, 0, of_nat (wb_total_rank st + wb_word_pop st))
            else (wb_total_rank st, wb_word_pop st, push_bit 12 (wb_cur_metadata st) OR of_nat (wb_word_pop st)));
         word_pop = word_pop + bl_count_ones dl;
         samples_1 = push_hint rw_SELECT_PER_HINT (total_rank + word_pop) (b div 8) (wb_samples_1 st)
     in do {
       z \<leftarrow> bl_count_zeros dl;
       let zeros_so_far = wb_zeros_so_far st + z;
       Some \<lparr>wb_superblock_metadata = (if (b + 1) mod 8 = 0 then wb_superblock_metadata st @ [cur_metadata] else wb_superblock_metadata st),
         wb_total_rank = total_rank, wb_cur_metadata = cur_metadata, wb_word_pop = word_pop, wb_zeros_so_far = zeros_so_far,
         wb_samples_0 = push_hint rw_SELECT_PER_HINT zeros_so_far (b div 8) (wb_samples_0 st), wb_samples_1 = samples_1\<rparr>
     })"

definition rw_new :: "bitvector \<Rightarrow> rs_wide option" where
  "rw_new bv = do {
     let n = length (bv_data bv);
     st \<leftarrow> foldM rw_line_step
       \<lparr>wb_superblock_metadata = [], wb_total_rank = 0, wb_cur_metadata = 0, wb_word_pop = 0, wb_zeros_so_far = 0,
         wb_samples_0 = ([0], 0), wb_samples_1 = ([0], 0)\<rparr> (zip [0..<n] (bv_data bv));
     let total_rank = wb_total_rank st + wb_word_pop st;
     let left = n mod 8;
     let metadata = (if left \<noteq> 0 then wb_superblock_metadata st
         @ [foldl (\<lambda>m _. push_bit 12 m OR of_nat (wb_word_pop st)) (wb_cur_metadata st) [left..<8]]
       else wb_superblock_metadata st);
     let metadata = metadata @ [push_bit (128 - 44) (of_nat total_rank)];
     g \<leftarrow> chk_sub (length metadata) 1;
     count_zeros \<leftarrow> chk_sub (bv_len bv) total_rank;
     Some \<lparr>rw_bv = bv, rw_superblock_metadata = metadata,
       rw_select_samples = [fst (wb_samples_0 st) @ [g], fst (wb_samples_1 st) @ [g]], rw_n_zeros = count_zeros\<rparr>
   }"

definition rw_deserialize :: "rs_wide \<Rightarrow> (string + rs_wide) option" where
  "rw_deserialize decoded = rbind (bv_deserialize (rw_bv decoded)) (\<lambda>bv. map_option Inr (rw_new bv))"

definition rw_count_zeros :: "rs_wide \<Rightarrow> nat" where
  "rw_count_zeros self = rw_n_zeros self"

definition rw_count_ones :: "rs_wide \<Rightarrow> nat option" where
  "rw_count_ones self = chk_sub (bv_len (rw_bv self)) (rw_count_zeros self)"

definition rw_len :: "rs_wide \<Rightarrow> nat" where
  "rw_len self = bv_len (rw_bv self)"

definition rw_is_empty :: "rs_wide \<Rightarrow> bool" where
  "rw_is_empty self \<longleftrightarrow> bv_len (rw_bv self) = 0"

definition rw_superblock_rank :: "rs_wide \<Rightarrow> nat \<Rightarrow> nat option" where
  "rw_superblock_rank self block = do {
     m \<leftarrow> idx (rw_superblock_metadata self) block;
     Some (unat (ucast (drop_bit (128 - 44) m) :: u64))
   }"

definition rw_sub_block_rank :: "rs_wide \<Rightarrow> nat \<Rightarrow> nat option" where
  "rw_sub_block_rank self sub_block = do {
     let superblock = sub_block div 8;
     result \<leftarrow> rw_superblock_rank self superblock;
     let left = sub_block mod 8;
     if left \<noteq> 0 then do {
       m \<leftarrow> idx (rw_superblock_metadata self) superblock;
       Some (result + unat (ucast (drop_bit ((7 - left) * 12) m AND 0xFFF) :: u64))
     } else Some result
   }"

definition rw_select1_subblock :: "rs_wide \<Rightarrow> nat \<Rightarrow> (nat \<times> nat) option" where
  "rw_select1_subblock self i = do {
     let hint = i div rw_SELECT_PER_HINT;
     samples \<leftarrow> idx (rw_select_samples self) 1;
     hint_start \<leftarrow> idx samples hint;
     e \<leftarrow> idx samples (hint + 1);
     let hint_end = 1 + e;
     hint_start \<leftarrow> scan_while (rw_superblock_rank self) (i + 1) hint_end 1 hint_start;
     position \<leftarrow> chk_sub hint_start 1;
     position \<leftarrow> sub_scan (rw_sub_block_rank self) i (position * 8) [0..<8];
     rank \<leftarrow> rw_sub_block_rank self position;
     Some (position, rank)
   }"

definition rw_select0_subblock :: "rs_wide \<Rightarrow> nat \<Rightarrow> (nat \<times> nat) option" where
  "rw_select0_subblock self i = do {
     let hint = i div rw_SELECT_PER_HINT;
     samples \<leftarrow> idx (rw_select_samples self) 0;
     hint_start \<leftarrow> idx samples hint;
     e \<leftarrow> idx samples (hint + 1);
     let hint_end = 1 + e;
     let max_rank_for_block = 8 * 8 * 64;
     hint_start \<leftarrow> scan_while (\<lambda>k. do { r \<leftarrow> rw_superblock_rank self k; chk_sub (max_rank_for_block * k) r }) (i + 1) hint_end 1 hint_start;
     position \<leftarrow> chk_sub hint_start 1;
     let max_rank_for_subblock = 8 * 64;
     position \<leftarrow> sub_scan (\<lambda>k. do { r \<leftarrow> rw_sub_block_rank self k; chk_sub (max_rank_for_subblock * k) r }) i (position * 8) [0..<8];
     r \<leftarrow> rw_sub_block_rank self position;
     rank \<leftarrow> chk_sub (max_rank_for_subblock * position) r;
     Some (position, rank)
   }"

definition rw_get_unchecked :: "rs_wide \<Rightarrow> nat \<Rightarrow> bool option" where
  "rw_get_unchecked self i = bv_get_unchecked (rw_bv self) i"

definition rw_get :: "rs_wide \<Rightarrow> nat \<Rightarrow> bool option option" where
  "rw_get self i =
     (if i \<ge> bv_len (rw_bv self) then Some None else do { b \<leftarrow> rw_get_unchecked self i; Some (Some b) })"

definition rw_rank1_unchecked :: "rs_wide \<Rightarrow> nat \<Rightarrow> nat option" where
  "rw_rank1_unchecked self i =
     (if i = 0 then Some 0
      else do {
        let i = i - 1;
        let sub_block = drop_bit 9 i;
        result \<leftarrow> rw_sub_block_rank self sub_block;
        let sub_left = (i AND 511) + 1;
        c \<leftarrow> (if sub_left = 0 then Some 0
          else do { l \<leftarrow> idx (bv_data (rw_bv self)) sub_block; bl_rank1 l sub_left });
        Some (result + c)
      })"

definition rw_rank1 :: "rs_wide \<Rightarrow> nat \<Rightarrow> nat option option" where
  "rw_rank1 self i =
     (if bv_is_empty (rw_bv self) \<or> i > bv_len (rw_bv self) then Some None
      else do { r \<leftarrow> rw_rank1_unchecked self i; Some (Some r) })"

definition rw_select1_unchecked :: "rs_wide \<Rightarrow> nat \<Rightarrow> nat option" where
  "rw_select1_unchecked self i = do {
     (block, rank) \<leftarrow> rw_select1_subblock self i;
     l \<leftarrow> idx (bv_data (rw_bv self)) block;
     d \<leftarrow> chk_sub i rank;
     off \<leftarrow> bl_select1_unchecked l d;
     Some (block * 512 + off)
   }"

definition rw_select1 :: "rs_wide \<Rightarrow> nat \<Rightarrow> nat option option" where
  "rw_select1 self i = do {
     n \<leftarrow> rw_count_ones self;
     if i \<ge> n then Some None else do { p \<leftarrow> rw_select1_unchecked self i; Some (Some p) }
   }"

definition rw_select0_unchecked :: "rs_wide \<Rightarrow> nat \<Rightarrow> nat option" where
  "rw_select0_unchecked self i = do {
     (block, rank) \<leftarrow> rw_select0_subblock self i;
     l \<leftarrow> idx (bv_data (rw_bv self)) block;
     d \<leftarrow> chk_sub i rank;
     off \<leftarrow> bl_select0_unchecked l d;
     Some (block * 512 + off)
   }"

definition rw_select0 :: "rs_wide \<Rightarrow> nat \<Rightarrow> nat option option" where
  "rw_select0 self i =
     (if i \<ge> rw_count_zeros self then Some None else do { p \<leftarrow> rw_select0_unchecked self i; Some (Some p) })"

definition rw_ops :: "rs_wide bin_ops" where
  "rw_ops = \<lparr>b_from = rw_new, b_get = rw_get, b_get_unchecked = rw_get_unchecked, b_rank1 = rw_rank1,
     b_rank1_unchecked = rw_rank1_unchecked, b_select1 = rw_select1, b_select1_unchecked = rw_select1_unchecked,
     b_select0 = rw_select0, b_select0_unchecked = rw_select0_unchecked, b_count_zeros = (\<lambda>r. Some (rw_count_zeros r))\<rparr>"

section \<open>Well-formed structures\<close>

text \<open>The ones of superblock \<open>q\<close> before its line \<open>i\<close>, and the packed counters of a superblock.\<close>

definition sup_cnt :: "bool list \<Rightarrow> nat \<Rightarrow> nat \<Rightarrow> nat" where
  "sup_cnt bs q i = cntp (obit bs) (512 * (8 * q + i)) - cntp (obit bs) (4096 * q)"

definition rw_md_ok :: "bool list \<Rightarrow> nat \<Rightarrow> u128 \<Rightarrow> bool" where
  "rw_md_ok bs k m \<longleftrightarrow> unat m = pack 4096 (cntp (obit bs) (4096 * k)) (sup_cnt bs k) 7"

definition rw_ok :: "rs_wide \<Rightarrow> bool" where
  "rw_ok self \<longleftrightarrow> (let bs = bv_list (rw_bv self); n = length (bv_data (rw_bv self)) in
     bv_ok (rw_bv self) \<and> length bs < 2 ^ 43 \<and> rw_n_zeros self = count_list bs False \<and>
     (\<exists>G h0 h1 m0 m1. n \<le> 8 * G \<and> rw_select_samples self = [h0 @ [G], h1 @ [G]] \<and> G < length (rw_superblock_metadata self)
       \<and> (\<forall>k\<le>G. rw_md_ok bs k (rw_superblock_metadata self ! k))
       \<and> hints_inv (obit bs) 4096 8192 (cntp (obit bs) (512 * n)) (h1, m1) \<and> (\<forall>x\<in>set h1. x \<le> G)
       \<and> hints_inv (\<lambda>p. \<not> obit bs p) 4096 8192 (cntp (\<lambda>p. \<not> obit bs p) (512 * n)) (h0, m0) \<and> (\<forall>x\<in>set h0. x \<le> G)))"

section \<open>Construction\<close>

lemma sup_cnt_less: "i \<le> 7 \<Longrightarrow> sup_cnt bs q i < 4096"
proof -
  assume i: "i \<le> 7"
  have "cntp (obit bs) (512 * (8 * q + i)) \<le> cntp (obit bs) (4096 * q) + 512 * i"
    using cntp_diff_le [of "4096 * q" "512 * (8 * q + i)" "obit bs"] by simp
  then show ?thesis using i by (simp add: sup_cnt_def)
qed

lemma sup_pack_less:
  assumes "length bs < 2 ^ 43" "j \<le> 7"
  shows "pack 4096 (cntp (obit bs) (4096 * q)) (sup_cnt bs q) j < 2 ^ 127"
proof -
  have "pack 4096 (cntp (obit bs) (4096 * q)) (sup_cnt bs q) j < 2 ^ 43 * 4096 ^ j"
    by (rule pack_less) (use sup_cnt_less assms obit_rank_less in auto)
  also have "\<dots> \<le> 2 ^ 43 * 4096 ^ 7" using assms(2) by (intro mult_le_mono2 power_increasing) simp_all
  finally show ?thesis by simp
qed

text \<open>Appending the counter of line \<open>j\<close>.\<close>

lemma rw_append_field:
  assumes "length bs < 2 ^ 43" "Suc j \<le> 7" "unat m = pack 4096 (cntp (obit bs) (4096 * q)) (sup_cnt bs q) j"
  shows "unat (push_bit 12 m OR of_nat (sup_cnt bs q (Suc j)) :: u128) = pack 4096 (cntp (obit bs) (4096 * q)) (sup_cnt bs q) (Suc j)"
proof -
  have "2 ^ 12 * unat m + sup_cnt bs q (Suc j) < 2 ^ LENGTH(128)"
    using sup_pack_less [OF assms(1,2), of q] assms(3) by simp
  then show ?thesis using or_shift_unat [of "sup_cnt bs q (Suc j)" 12 m] sup_cnt_less [OF assms(2)] assms(3) by simp
qed

definition rw_inv :: "bool list \<Rightarrow> nat \<Rightarrow> rw_build \<Rightarrow> bool" where
  "rw_inv bs t st \<longleftrightarrow> length (wb_superblock_metadata st) = t div 8 \<and> (\<forall>k<t div 8. rw_md_ok bs k (wb_superblock_metadata st ! k))
     \<and> wb_total_rank st + wb_word_pop st = cntp (obit bs) (512 * t) \<and> wb_zeros_so_far st = cntp (\<lambda>p. \<not> obit bs p) (512 * t)
     \<and> (t mod 8 \<noteq> 0 \<longrightarrow> wb_total_rank st = cntp (obit bs) (4096 * (t div 8))
          \<and> unat (wb_cur_metadata st) = pack 4096 (wb_total_rank st) (sup_cnt bs (t div 8)) (t mod 8 - 1))
     \<and> hints_inv (obit bs) 4096 8192 (cntp (obit bs) (512 * t)) (wb_samples_1 st) \<and> (\<forall>x\<in>set (fst (wb_samples_1 st)). 8 * x \<le> t)
     \<and> hints_inv (\<lambda>p. \<not> obit bs p) 4096 8192 (cntp (\<lambda>p. \<not> obit bs p) (512 * t)) (wb_samples_0 st) \<and> (\<forall>x\<in>set (fst (wb_samples_0 st)). 8 * x \<le> t)"

lemma rw_push_hint:
  assumes "hints_inv Q 4096 8192 (cntp Q (512 * t)) sm" "\<forall>x\<in>set (fst sm). 8 * x \<le> t"
  defines "sm' \<equiv> push_hint 8192 (cntp Q (512 * Suc t)) (t div 8) sm"
  shows "hints_inv Q 4096 8192 (cntp Q (512 * Suc t)) sm'" "\<forall>x\<in>set (fst sm'). 8 * x \<le> Suc t"
proof -
  have "cntp Q (512 * Suc t) < cntp Q (512 * t) + 8192" using cntp_diff_le [of "512 * t" "512 * Suc t" Q] by simp
  moreover have "4096 * (t div 8) \<le> 512 * t" "512 * Suc t \<le> 4096 * Suc (t div 8)"
    using mult_le_mono2 [of "8 * (t div 8)" t 512] mult_le_mono2 [of "Suc t" "8 * Suc (t div 8)" 512] by simp_all
  ultimately show "hints_inv Q 4096 8192 (cntp Q (512 * Suc t)) sm'"
    using hints_push [of Q 4096 8192 "512 * t" "fst sm" "snd sm" "512 * Suc t" "t div 8"] assms(1) by (simp add: sm'_def)
  show "\<forall>x\<in>set (fst sm'). 8 * x \<le> Suc t"
    using set_push_hint [of 8192 "cntp Q (512 * Suc t)" "t div 8" sm] assms(2) unfolding sm'_def by fastforce
qed

lemma rw_line_step_inv:
  assumes ok: "bv_ok bv" "length (bv_list bv) < 2 ^ 43" and t: "t < length (bv_data bv)" and inv: "rw_inv (bv_list bv) t st"
  shows "\<exists>st'. rw_line_step st (t, bv_data bv ! t) = Some st' \<and> rw_inv (bv_list bv) (Suc t) st'"
proof -
  let ?bs = "bv_list bv" let ?R = "cntp (obit ?bs)" and ?Z = "cntp (\<lambda>p. \<not> obit ?bs p)"
  let ?l = "bv_data bv ! t" and ?q = "t div 8" and ?j = "t mod 8"
  have l: "bl_ok ?l" using bv_ok_lines(1) [OF ok(1)] t by (simp add: lines_ok_def)
  have tq: "t = 8 * ?q + ?j" by simp
  have R: "?R (512 * Suc t) = ?R (512 * t) + bl_count_ones ?l"
    using line_rank [OF ok(1) t, of 512] bl_count_ones_eq [OF l] by (simp add: add.commute)
  have z: "bl_count_zeros ?l = Some (512 - bl_count_ones ?l)" "bl_count_ones ?l \<le> 512"
    unfolding bl_count_zeros_def bl_count_ones_eq [OF l] by (simp_all add: cntp_le)
  have Z: "?Z (512 * Suc t) = ?Z (512 * t) + (512 - bl_count_ones ?l)"
    unfolding cntp_neg R using z(2) cntp_le [of "obit ?bs" "512 * t"] by simp
  let ?total = "if ?j = 0 then wb_total_rank st + wb_word_pop st else wb_total_rank st"
  let ?pop = "if ?j = 0 then 0 else wb_word_pop st"
  let ?cur = "if ?j = 0 then of_nat (wb_total_rank st + wb_word_pop st) else push_bit 12 (wb_cur_metadata st) OR of_nat (wb_word_pop st)"
  have total: "?total = ?R (4096 * ?q)"
  proof (cases "?j = 0")
    case True
    then have "8 * ?q = t" using mult_div_mod_eq [of 8 t] by simp
    then have e: "512 * t = 4096 * ?q" by linarith
    show ?thesis using True inv e unfolding rw_inv_def by simp
  qed (use inv in \<open>simp add: rw_inv_def\<close>)
  have sum: "?total + ?pop = ?R (512 * t)" using inv unfolding rw_inv_def by (cases "?j = 0") simp_all
  have cur: "unat ?cur = pack 4096 (?R (4096 * ?q)) (sup_cnt ?bs ?q) ?j"
  proof (cases "?j = 0")
    case True
    have "?R (4096 * ?q) < 2 ^ 43" by (rule obit_rank_less [OF ok(2)])
    then show ?thesis using True total by (simp add: unat_of_nat_small)
  next
    case False
    then obtain i where i: "?j = Suc i" by (cases ?j) auto
    have "wb_word_pop st = sup_cnt ?bs ?q ?j" using sum total False unfolding sup_cnt_def tq [symmetric] by simp
    moreover have "Suc i \<le> 7" using i [symmetric] by simp
    ultimately show ?thesis
      using rw_append_field [OF ok(2), of i "wb_cur_metadata st" ?q] inv False total i by (simp add: rw_inv_def)
  qed
  define st' where "st' = \<lparr>wb_superblock_metadata = (if (t + 1) mod 8 = 0 then wb_superblock_metadata st @ [?cur] else wb_superblock_metadata st),
    wb_total_rank = ?total, wb_cur_metadata = ?cur, wb_word_pop = ?pop + bl_count_ones ?l,
    wb_zeros_so_far = wb_zeros_so_far st + (512 - bl_count_ones ?l),
    wb_samples_0 = push_hint 8192 (wb_zeros_so_far st + (512 - bl_count_ones ?l)) ?q (wb_samples_0 st),
    wb_samples_1 = push_hint 8192 (?total + (?pop + bl_count_ones ?l)) ?q (wb_samples_1 st)\<rparr>"
  have st1: "rw_line_step st (t, ?l) = Some st'"
    unfolding st'_def by (cases "?j = 0") (simp_all add: rw_line_step_def rw_SELECT_PER_HINT_def Let_def z(1))
  have ZR: "wb_zeros_so_far st + (512 - bl_count_ones ?l) = ?Z (512 * Suc t)" "?total + (?pop + bl_count_ones ?l) = ?R (512 * Suc t)"
    unfolding Z R using inv sum by (simp_all add: rw_inv_def)
  have st': "rw_line_step st (t, ?l) = Some st'"
    "wb_superblock_metadata st' = (if (t + 1) mod 8 = 0 then wb_superblock_metadata st @ [?cur] else wb_superblock_metadata st)"
    "wb_total_rank st' = ?total" "wb_cur_metadata st' = ?cur" "wb_total_rank st' + wb_word_pop st' = ?R (512 * Suc t)"
    "wb_zeros_so_far st' = ?Z (512 * Suc t)"
    "wb_samples_0 st' = push_hint 8192 (?Z (512 * Suc t)) ?q (wb_samples_0 st)"
    "wb_samples_1 st' = push_hint 8192 (?R (512 * Suc t)) ?q (wb_samples_1 st)"
    by (fact st1) (simp_all only: st'_def rw_build.simps ZR)
  note hints = rw_push_hint [of "obit ?bs" t "wb_samples_1 st", folded st'(8)] rw_push_hint [of "\<lambda>p. \<not> obit ?bs p" t "wb_samples_0 st", folded st'(7)]
  have "rw_inv ?bs (Suc t) st'"
  proof (cases "?j = 7")
    case True
    then have d: "Suc t div 8 = Suc ?q" "Suc t mod 8 = 0" by (simp_all add: div_Suc mod_Suc)
    have "rw_md_ok ?bs ?q ?cur" using cur True by (simp add: rw_md_ok_def)
    then have "\<forall>k<Suc ?q. rw_md_ok ?bs k (wb_superblock_metadata st' ! k)"
      using inv d st'(2) by (simp add: rw_inv_def nth_append less_Suc_eq)
    moreover have "length (wb_superblock_metadata st') = Suc ?q" using inv d st'(2) by (simp add: rw_inv_def)
    ultimately show ?thesis
      using inv d(2) st'(5,6) hints unfolding rw_inv_def d by simp
  next
    case False
    then have d: "Suc t div 8 = ?q" "Suc t mod 8 = Suc ?j" by (simp_all add: div_Suc mod_Suc)
    then have "wb_superblock_metadata st' = wb_superblock_metadata st" using st'(2) by simp
    moreover have "unat (wb_cur_metadata st') = pack 4096 (wb_total_rank st') (sup_cnt ?bs ?q) ?j"
      unfolding st'(3,4) cur total ..
    moreover have "wb_total_rank st' = ?R (4096 * ?q)" unfolding st'(3) total ..
    ultimately show ?thesis
      using inv st'(5,6) hints unfolding rw_inv_def d by simp
  qed
  then show ?thesis using st'(1) by blast
qed

text \<open>The missing lines of the last superblock repeat the last count.\<close>

lemma rw_fill:
  assumes "length bs < 2 ^ 43" "j \<le> 7" "unat m = pack 4096 (cntp (obit bs) (4096 * q)) (sup_cnt bs q) j"
    and "\<And>i. j < i \<Longrightarrow> sup_cnt bs q i = c"
  shows "rw_md_ok bs q (foldl (\<lambda>m _. push_bit 12 m OR of_nat c) m [Suc j..<8])"
  using assms(2-4)
proof (induction "7 - j" arbitrary: j m)
  case 0
  then have "j = 7" by simp
  then show ?case using 0(3) by (simp add: rw_md_ok_def)
next
  case (Suc d)
  have l: "[Suc j..<8] = Suc j # [Suc (Suc j)..<8]" using Suc(2) by (simp add: upt_conv_Cons del: upt_Suc)
  have j: "Suc j \<le> 7" using Suc(2) by simp
  have "unat (push_bit 12 m OR of_nat c) = pack 4096 (cntp (obit bs) (4096 * q)) (sup_cnt bs q) (Suc j)"
    using rw_append_field [OF assms(1) j Suc(4)] Suc(5) [of "Suc j"] by simp
  then show ?case unfolding l foldl_Cons using Suc(1) [of "Suc j"] Suc(2,5) j by simp
qed

lemma rw_new_ok:
  assumes ok: "bv_ok bv" "length (bv_list bv) < 2 ^ 43"
  shows "\<exists>self. rw_new bv = Some self \<and> rw_ok self \<and> rw_bv self = bv"
proof -
  let ?bs = "bv_list bv" and ?n = "length (bv_data bv)"
  let ?R = "cntp (obit ?bs)"
  let ?st0 = "\<lparr>wb_superblock_metadata = [], wb_total_rank = 0, wb_cur_metadata = 0, wb_word_pop = 0, wb_zeros_so_far = 0,
         wb_samples_0 = ([0], 0), wb_samples_1 = ([0], 0)\<rparr>"
  have "rw_inv ?bs 0 ?st0" by (simp add: rw_inv_def hints_init)
  then obtain st where st: "foldM rw_line_step ?st0 (zip [0..<?n] (bv_data bv)) = Some st" "rw_inv ?bs ?n st"
    using foldM_zip_inv [of "rw_inv ?bs" ?st0 "bv_data bv" rw_line_step] rw_line_step_inv [OF ok] by blast
  let ?q = "?n div 8" and ?left = "?n mod 8" and ?ms = "wb_superblock_metadata st"
  define total where "total = wb_total_rank st + wb_word_pop st"
  have total: "total = ?R (512 * ?n)" using st(2) by (simp add: rw_inv_def total_def)
  have beyond: "?R x = total" if "512 * ?n \<le> x" for x using rank_all_lines [OF ok(1)] that total by simp
  have small: "total < 2 ^ 43" unfolding total by (rule obit_rank_less [OF ok(2)])
  define ms where "ms = (if ?left \<noteq> 0 then ?ms @ [foldl (\<lambda>m _. push_bit 12 m OR of_nat (wb_word_pop st)) (wb_cur_metadata st) [?left..<8]] else ?ms)"
  define G where "G = length ms"
  have n8: "?n = 8 * ?q + ?left" by simp
  have len: "length ?ms = ?q" using st(2) by (simp add: rw_inv_def)
  have nG: "?n \<le> 8 * G" using len n8 mod_less_divisor [of 8 ?n] unfolding G_def ms_def by (cases "?left = 0") simp_all
  have ms_ok: "\<forall>k<G. rw_md_ok ?bs k (ms ! k)"
  proof (cases "?left = 0")
    case False
    then obtain j where j: "?left = Suc j" by (cases ?left) auto
    have tot: "wb_total_rank st = ?R (4096 * ?q)" "unat (wb_cur_metadata st) = pack 4096 (?R (4096 * ?q)) (sup_cnt ?bs ?q) j"
      using st(2) False j unfolding rw_inv_def by simp_all
    have "sup_cnt ?bs ?q i = wb_word_pop st" if "j < i" for i
    proof -
      have "512 * ?n \<le> 512 * (8 * ?q + i)" using n8 j that by simp
      then show ?thesis using beyond tot(1) unfolding sup_cnt_def total_def by simp
    qed
    then have "rw_md_ok ?bs ?q (foldl (\<lambda>m _. push_bit 12 m OR of_nat (wb_word_pop st)) (wb_cur_metadata st) [?left..<8])"
      unfolding j using mod_less_divisor [of 8 ?n] j by (intro rw_fill [OF ok(2) _ tot(2)]) simp_all
    then show ?thesis using st(2) False len by (simp add: rw_inv_def ms_def G_def nth_append less_Suc_eq)
  qed (use st(2) in \<open>simp add: rw_inv_def ms_def G_def\<close>)
  have G: "?R (512 * (8 * G + i)) = total" "?R (4096 * G) = total" for i using beyond nG by simp_all
  have "unat (push_bit 84 (of_nat total) :: u128) = 2 ^ 84 * total"
    using or_shift_unat [of 0 84 "of_nat total :: u128"] small by (simp add: unat_of_nat_small)
  then have last: "rw_md_ok ?bs G (push_bit 84 (of_nat total))"
    using G by (simp add: rw_md_ok_def pack_zero sup_cnt_def)
  have "count_list ?bs True = total" using rank_all_lines [OF ok(1), of "512 * ?n"] total by simp
  then have zeros: "chk_sub (bv_len bv) total = Some (count_list ?bs False)"
    using count_list_True_le [of ?bs] by (simp add: bv_len_def count_list_False)
  obtain h0 m0 h1 m1 where h: "wb_samples_0 st = (h0, m0)" "wb_samples_1 st = (h1, m1)" by (metis prod.exhaust)
  let ?self = "\<lparr>rw_bv = bv, rw_superblock_metadata = ms @ [push_bit 84 (of_nat total)],
    rw_select_samples = [h0 @ [G], h1 @ [G]], rw_n_zeros = count_list ?bs False\<rparr>"
  have new: "rw_new bv = Some ?self"
    using st(1) h zeros by (cases "?left = 0") (simp_all add: rw_new_def Let_def G_def ms_def flip: total_def del: of_nat_add)
  have "\<forall>k\<le>G. rw_md_ok ?bs k ((ms @ [push_bit 84 (of_nat total)]) ! k)"
    using ms_ok last by (simp add: nth_append G_def le_less)
  moreover have "\<forall>x\<in>set h1. x \<le> G" "\<forall>x\<in>set h0. x \<le> G" using st(2) h nG unfolding rw_inv_def by fastforce+
  ultimately have "rw_ok ?self"
    unfolding rw_ok_def Let_def using ok nG st(2) h by (simp add: rw_inv_def G_def) blast
  then show ?thesis using new by auto
qed

section \<open>Ranks\<close>

lemma rw_ok_ranks:
  assumes "rw_ok self"
  defines "bs \<equiv> bv_list (rw_bv self)" and "n \<equiv> length (bv_data (rw_bv self))"
  obtains G h0 h1 m0 m1 where "n \<le> 8 * G" "rw_select_samples self = [h0 @ [G], h1 @ [G]]"
    "\<And>k. k \<le> G \<Longrightarrow> rw_superblock_rank self k = Some (cntp (obit bs) (4096 * k))"
    "\<And>u. u div 8 \<le> G \<Longrightarrow> rw_sub_block_rank self u = Some (cntp (obit bs) (512 * u))"
    "hints_inv (obit bs) 4096 8192 (cntp (obit bs) (512 * n)) (h1, m1)" "\<forall>x\<in>set h1. x \<le> G"
    "hints_inv (\<lambda>p. \<not> obit bs p) 4096 8192 (cntp (\<lambda>p. \<not> obit bs p) (512 * n)) (h0, m0)" "\<forall>x\<in>set h0. x \<le> G"
proof -
  obtain G h0 h1 m0 m1 where o: "n \<le> 8 * G" "rw_select_samples self = [h0 @ [G], h1 @ [G]]" "G < length (rw_superblock_metadata self)"
    "\<forall>k\<le>G. rw_md_ok bs k (rw_superblock_metadata self ! k)"
    "hints_inv (obit bs) 4096 8192 (cntp (obit bs) (512 * n)) (h1, m1)" "\<forall>x\<in>set h1. x \<le> G"
    "hints_inv (\<lambda>p. \<not> obit bs p) 4096 8192 (cntp (\<lambda>p. \<not> obit bs p) (512 * n)) (h0, m0)" "\<forall>x\<in>set h0. x \<le> G"
    using assms(1) unfolding rw_ok_def Let_def bs_def n_def by blast
  let ?R = "cntp (obit bs)"
  have len: "length bs < 2 ^ 43" using assms(1) by (simp add: rw_ok_def bs_def Let_def)
  have u64: "unat (ucast (m :: u128) :: u64) = unat m" if "unat m < 2 ^ 64" for m
    using that by (simp add: unsigned_ucast_eq take_bit_nat_eq_self)
  have block: "rw_superblock_rank self k = Some (?R (4096 * k))" if k: "k \<le> G" for k
  proof -
    let ?m = "rw_superblock_metadata self ! k"
    have "(2 :: nat) ^ 84 = 4096 ^ 7" by simp
    then have "unat (drop_bit 84 ?m) = pack 4096 (?R (4096 * k)) (sup_cnt bs k) (0 + 7) div 4096 ^ 7"
      unfolding unat_drop_bit_eq using o(4) k by (simp only: drop_bit_eq_div rw_md_ok_def add_0)
    also have "\<dots> = pack 4096 (?R (4096 * k)) (sup_cnt bs k) 0" by (rule pack_div) (simp add: sup_cnt_less)
    finally have m: "unat (drop_bit 84 ?m) = ?R (4096 * k)" by simp
    then have "unat (drop_bit 84 ?m) < 2 ^ 64" using obit_rank_less [OF len, of "4096 * k"] by simp
    then show ?thesis using u64 m o(3) k by (simp add: rw_superblock_rank_def)
  qed
  have "rw_sub_block_rank self u = Some (?R (512 * u))" if u: "u div 8 \<le> G" for u
  proof (cases "u mod 8")
    case 0
    then have "8 * (u div 8) = u" using mult_div_mod_eq [of 8 u] by simp
    then have "4096 * (u div 8) = 512 * u" by linarith
    note block [OF u, unfolded this]
    then show ?thesis using 0 by (simp add: rw_sub_block_rank_def)
  next
    case (Suc j)
    let ?k = "u div 8" let ?m = "rw_superblock_metadata self ! ?k"
    have j: "Suc j \<le> 7" using mod_less_divisor [of 8 u] Suc by simp
    have p: "(2 :: nat) ^ ((7 - Suc j) * 12) = 4096 ^ (7 - Suc j)" by (simp add: power_mult mult.commute)
    have w: "(0xFFF :: u128) = mask 12" by (simp add: mask_eq_exp_minus_1)
    have "unat (drop_bit ((7 - Suc j) * 12) ?m AND 0xFFF) = unat ?m div 4096 ^ (7 - Suc j) mod 4096"
      unfolding w take_bit_eq_mask [symmetric] p [symmetric]
      by (simp only: unsigned_take_bit_eq unat_drop_bit_eq) (simp add: take_bit_eq_mod drop_bit_eq_div)
    also have "\<dots> = sup_cnt bs ?k (Suc j)"
      using o(4) u pack_field [of 7 "sup_cnt bs ?k" 4096 j] sup_cnt_less j by (simp add: rw_md_ok_def)
    finally have m: "unat (drop_bit ((7 - Suc j) * 12) ?m AND 0xFFF) = sup_cnt bs ?k (Suc j)" .
    then have "unat (drop_bit ((7 - Suc j) * 12) ?m AND 0xFFF) < 2 ^ 64" using sup_cnt_less [OF j, of bs ?k] by simp
    note u64 [OF this]
    moreover have "?R (4096 * ?k) + sup_cnt bs ?k (Suc j) = ?R (512 * u)"
    proof -
      have e: "8 * ?k + Suc j = u" using Suc by (metis mult_div_mod_eq)
      have "4096 * ?k \<le> 512 * u" by simp
      then have "?R (4096 * ?k) \<le> ?R (512 * u)" by (rule cntp_mono)
      then show ?thesis unfolding sup_cnt_def e by simp
    qed
    ultimately show ?thesis using block [OF u] Suc o(3) u m by (simp add: rw_sub_block_rank_def)
  qed
  then show thesis using that [OF o(1,2) block] o by force
qed

lemma rw_rank1_unchecked_eq:
  assumes ok: "rw_ok self" and i: "i \<le> length (bv_list (rw_bv self))"
  shows "rw_rank1_unchecked self i = Some (rank_of (bv_list (rw_bv self)) True i)"
proof (cases "i = 0")
  case False
  let ?bv = "rw_bv self" let ?bs = "bv_list ?bv"
  define u where "u = (i - 1) div 512"
  define l where "l = (i - 1) mod 512 + 1"
  have bv: "bv_ok ?bv" using ok by (simp add: rw_ok_def Let_def)
  have "i - 1 < 512 * length (bv_data ?bv)" using bv_ok_lines(2) [OF bv] i False by simp
  then have u: "u < length (bv_data ?bv)" by (simp add: u_def less_mult_imp_div_less mult.commute)
  obtain G where G: "length (bv_data ?bv) \<le> 8 * G"
    "\<And>u. u div 8 \<le> G \<Longrightarrow> rw_sub_block_rank self u = Some (cntp (obit ?bs) (512 * u))"
    using rw_ok_ranks [OF ok] by metis
  have "u div 8 \<le> G" using G(1) u by linarith
  then have sub: "rw_sub_block_rank self u = Some (cntp (obit ?bs) (512 * u))" using G(2) by blast
  have l: "l \<le> 512" "l \<noteq> 0" by (simp_all add: l_def Suc_leI)
  have e: "512 * u + l = i" using False by (simp add: u_def l_def)
  have "bl_ok (bv_data ?bv ! u)" using bv_ok_lines(1) [OF bv] u by (simp add: lines_ok_def)
  then have r: "bl_rank1 (bv_data ?bv ! u) l = Some (cntp (lbit (bl_words (bv_data ?bv ! u))) l)"
    using bl_rank1_unchecked_eq l(1) by (simp add: bl_rank1_def)
  have d: "drop_bit 9 (i - 1) = u" by (simp add: drop_bit_eq_div u_def)
  have "rw_rank1_unchecked self i = Some (cntp (obit ?bs) (512 * u) + cntp (lbit (bl_words (bv_data ?bv ! u))) l)"
    unfolding rw_rank1_unchecked_def and_511 Let_def d l_def [symmetric]
    using False l(2) sub u r by simp
  then show ?thesis using line_rank [OF bv u l(1)] rank_True_obit [OF i] e by simp
qed (simp add: rw_rank1_unchecked_def rank_of_def)

section \<open>Selects\<close>

lemma rw_select1_unchecked_eq:
  assumes ok: "rw_ok self" and k: "k < count_list (bv_list (rw_bv self)) True"
  shows "rw_select1_unchecked self k = select_of (bv_list (rw_bv self)) True k"
proof -
  let ?bv = "rw_bv self" let ?P = "obit (bv_list ?bv)" let ?N = "512 * length (bv_data ?bv)"
  have bv: "bv_ok ?bv" using ok by (simp add: rw_ok_def Let_def)
  obtain G h0 h1 m1 where r: "length (bv_data ?bv) \<le> 8 * G" "rw_select_samples self = [h0 @ [G], h1 @ [G]]"
    "\<And>k. k \<le> G \<Longrightarrow> rw_superblock_rank self k = Some (cntp ?P (4096 * k))"
    "\<And>u. u div 8 \<le> G \<Longrightarrow> rw_sub_block_rank self u = Some (cntp ?P (512 * u))"
    "hints_inv ?P 4096 8192 (cntp ?P ?N) (h1, m1)" "\<forall>x\<in>set h1. x \<le> G"
    using rw_ok_ranks [OF ok] by metis
  have kN: "k < cntp ?P ?N" using rank_all_lines [OF bv, of ?N] k by simp
  obtain st e q u where f: "idx (h1 @ [G]) (k div 8192) = Some st" "idx (h1 @ [G]) (k div 8192 + 1) = Some e"
    "scan_while (rw_superblock_rank self) (k + 1) (1 + e) 1 st = Some (Suc q)" "sub_scan (rw_sub_block_rank self) k (q * 8) [0..<8] = Some u"
    "rw_sub_block_rank self u = Some (cntp ?P (512 * u))" "cntp ?P (512 * u) \<le> k" "k < cntp ?P (512 * u + 512)" "512 * u < ?N"
  proof (rule find_part [OF _ _ r(6) kN, where s = 512 and h = 8192])
    show "hints_inv ?P (8 * 512) 8192 (cntp ?P ?N) (h1, m1)" using r(5) by simp
    show "rw_superblock_rank self k = Some (cntp ?P (8 * 512 * k))" if "k \<le> G" for k using r(3) [OF that] by simp
    show "rw_sub_block_rank self u = Some (cntp ?P (512 * u))" if "u div 8 \<le> G" for u using r(4) [OF that] .
  qed (use r(1) in simp_all)
  have u: "u < length (bv_data ?bv)" using f(8) by simp
  have l: "bl_ok (bv_data ?bv ! u)" using bv_ok_lines(1) [OF bv] u by (simp add: lines_ok_def)
  obtain p where p: "selp (\<lambda>p. ?P (512 * u + p)) 512 (k - cntp ?P (512 * u)) = Some p" "?P (512 * u + p)" "cntp ?P (512 * u + p) = k" "p < 512"
    using selp_from [OF f(6,7)] by blast
  have "selp (lbit (bl_words (bv_data ?bv ! u))) 512 (k - cntp ?P (512 * u)) = Some p"
    using p(1) line_obit [OF bv u] by (simp cong: selp_cong)
  note bl_select1_unchecked_eq [OF l this]
  then have "rw_select1_unchecked self k = Some (u * 512 + p)"
    using f(1-6) r(2) u
    by (simp add: rw_select1_unchecked_def rw_select1_subblock_def rw_SELECT_PER_HINT_def del: of_nat_diff)
  then show ?thesis using select_one [OF p(2,3)] by (simp add: mult.commute)
qed

lemma rw_select0_unchecked_eq:
  assumes ok: "rw_ok self" and k: "k < count_list (bv_list (rw_bv self)) False"
  shows "rw_select0_unchecked self k = select_of (bv_list (rw_bv self)) False k"
proof -
  let ?bv = "rw_bv self" let ?P = "\<lambda>p. \<not> obit (bv_list ?bv) p" let ?N = "512 * length (bv_data ?bv)"
  have bv: "bv_ok ?bv" using ok by (simp add: rw_ok_def Let_def)
  obtain G h0 h1 m0 where r: "length (bv_data ?bv) \<le> 8 * G" "rw_select_samples self = [h0 @ [G], h1 @ [G]]"
    "\<And>k. k \<le> G \<Longrightarrow> rw_superblock_rank self k = Some (cntp (obit (bv_list ?bv)) (4096 * k))"
    "\<And>u. u div 8 \<le> G \<Longrightarrow> rw_sub_block_rank self u = Some (cntp (obit (bv_list ?bv)) (512 * u))"
    "hints_inv ?P 4096 8192 (cntp ?P ?N) (h0, m0)" "\<forall>x\<in>set h0. x \<le> G"
    using rw_ok_ranks [OF ok] by metis
  let ?rank = "\<lambda>k. do { r \<leftarrow> rw_superblock_rank self k; chk_sub (4096 * k) r }"
  let ?sub = "\<lambda>k. do { r \<leftarrow> rw_sub_block_rank self k; chk_sub (512 * k) r }"
  have rank: "?rank k = Some (cntp ?P (8 * 512 * k))" if "k \<le> G" for k using r(3) [OF that] rank0_from [OF refl] by simp
  have sub: "?sub u = Some (cntp ?P (512 * u))" if "u div 8 \<le> G" for u using r(4) [OF that] rank0_from [OF refl] by simp
  have kN: "k < cntp ?P ?N" using zeros_le_padded [OF bv_ok_lines(2) [OF bv]] k by simp
  obtain st e q u where f: "idx (h0 @ [G]) (k div 8192) = Some st" "idx (h0 @ [G]) (k div 8192 + 1) = Some e"
    "scan_while ?rank (k + 1) (1 + e) 1 st = Some (Suc q)" "sub_scan ?sub k (q * 8) [0..<8] = Some u"
    "?sub u = Some (cntp ?P (512 * u))" "cntp ?P (512 * u) \<le> k" "k < cntp ?P (512 * u + 512)" "512 * u < ?N"
  proof (rule find_part [OF _ _ r(6) kN _ rank sub, where h = 8192])
    show "hints_inv ?P (8 * 512) 8192 (cntp ?P ?N) (h0, m0)" using r(5) by simp
  qed (use r(1) in simp_all)
  have u: "u < length (bv_data ?bv)" using f(8) by simp
  have l: "bl_ok (bv_data ?bv ! u)" using bv_ok_lines(1) [OF bv] u by (simp add: lines_ok_def)
  obtain p where p: "selp (\<lambda>p. ?P (512 * u + p)) 512 (k - cntp ?P (512 * u)) = Some p" "?P (512 * u + p)" "cntp ?P (512 * u + p) = k" "p < 512"
    using selp_from [of ?P, OF f(6,7)] by blast
  have "selp (\<lambda>p. \<not> lbit (bl_words (bv_data ?bv ! u)) p) 512 (k - cntp ?P (512 * u)) = Some p"
    using p(1) line_obit [OF bv u] by (simp cong: selp_cong)
  note bl_select0_unchecked_eq [OF l this]
  moreover have "u div 8 \<le> G" using u r(1) by linarith
  then have "rw_sub_block_rank self u = Some (cntp (obit (bv_list ?bv)) (512 * u))" using r(4) by simp
  moreover note rank0_from [of "obit (bv_list ?bv)" "512 * u", OF refl]
  ultimately have "rw_select0_unchecked self k = Some (u * 512 + p)"
    using f(1-4,6) r(2) u
    by (simp add: rw_select0_unchecked_def rw_select0_subblock_def rw_SELECT_PER_HINT_def del: of_nat_diff)
  moreover have "512 * u + p < length (bv_list ?bv)" using zeros_before_end [OF k p(2,3)] .
  ultimately show ?thesis using select_zero [OF _ p(2,3)] by (simp add: mult.commute)
qed

section \<open>The contract\<close>

definition rw_rep :: "rs_wide \<Rightarrow> bool list \<Rightarrow> bool" where
  "rw_rep self bs \<longleftrightarrow> rw_ok self \<and> bv_list (rw_bv self) = bs"

lemma rw_repD:
  assumes "rw_rep self bs"
  shows "rw_ok self" "bv_ok (rw_bv self)" "bv_list (rw_bv self) = bs" "bv_len (rw_bv self) = length bs"
    "rw_count_zeros self = count_list bs False" "rw_count_ones self = Some (count_list bs True)"
proof -
  show ok: "rw_ok self" "bv_list (rw_bv self) = bs" using assms by (simp_all add: rw_rep_def)
  then show bv: "bv_ok (rw_bv self)" by (simp add: rw_ok_def Let_def)
  show len: "bv_len (rw_bv self) = length bs" using ok(2) by (auto simp: bv_len_def)
  show zeros: "rw_count_zeros self = count_list bs False" using ok by (simp add: rw_count_zeros_def rw_ok_def Let_def)
  show "rw_count_ones self = Some (count_list bs True)"
    unfolding rw_count_ones_def zeros len using count_list_True_le [of bs] by (simp add: count_list_False)
qed

interpretation wide: bin_support rw_ops rw_rep
proof unfold_locales
  fix bv assume "bv_ok bv" "bv_n_bits bv < 2 ^ 43"
  then show "\<exists>r. b_from rw_ops bv = Some r \<and> rw_rep r (bv_list bv)"
    using rw_new_ok [of bv] by (auto simp: rw_ops_def rw_rep_def)
next
  fix r bs i assume r: "rw_rep r bs"
  note d = rw_repD [OF r]
  show "b_get rw_ops r i = Some (idx bs i)"
    using bv_get_eq [OF d(2), of i] d(3,4)
    by (auto simp: rw_ops_def rw_get_def rw_get_unchecked_def bv_get_def idx_def bind_eq_Some_conv split: if_splits)
  show "i < length bs \<Longrightarrow> b_get_unchecked rw_ops r i = Some (bs ! i)"
    using bv_get_eq [OF d(2), of i] d(3,4)
    by (auto simp: rw_ops_def rw_get_unchecked_def bv_get_def idx_def bind_eq_Some_conv split: if_splits)
  show "b_rank1 rw_ops r i = Some (if bs \<noteq> [] \<and> i \<le> length bs then Some (rank_of bs True i) else None)"
    using rw_rank1_unchecked_eq [OF d(1), of i] d(3,4) by (auto simp: rw_ops_def rw_rank1_def bv_is_empty_def bv_len_def)
  show "i \<le> length bs \<Longrightarrow> b_rank1_unchecked rw_ops r i = Some (rank_of bs True i)"
    using rw_rank1_unchecked_eq [OF d(1), of i] d(3) by (simp add: rw_ops_def)
next
  fix r bs k assume r: "rw_rep r bs"
  note d = rw_repD [OF r]
  show "b_select1 rw_ops r k = Some (select_of bs True k)"
    using rw_select1_unchecked_eq [OF d(1), of k] d(3,6) select_of_None_iff [of bs True k]
    by (cases "select_of bs True k") (auto simp: rw_ops_def rw_select1_def)
  show "b_select0 rw_ops r k = Some (select_of bs False k)"
    using rw_select0_unchecked_eq [OF d(1), of k] d(3,5) select_of_None_iff [of bs False k]
    by (cases "select_of bs False k") (auto simp: rw_ops_def rw_select0_def)
  show "b_count_zeros rw_ops r = Some (count_list bs False)" using d(5) by (simp add: rw_ops_def)
next
  fix r bs k p assume r: "rw_rep r bs"
  note d = rw_repD [OF r]
  show "b_select1_unchecked rw_ops r k = Some p" if "select_of bs True k = Some p"
    using rw_select1_unchecked_eq [OF d(1), of k] d(3) select_of_None_iff [of bs True k] that by (auto simp: rw_ops_def not_le [symmetric])
  show "b_select0_unchecked rw_ops r k = Some p" if "select_of bs False k = Some p"
    using rw_select0_unchecked_eq [OF d(1), of k] d(3) select_of_None_iff [of bs False k] that by (auto simp: rw_ops_def not_le [symmetric])
qed

end
