(* ===== verification/BitProperties.thy ===== *)
theory BitProperties
  imports BitVecMachine BitVecIter RSNarrow RSWide
begin

text \<open>
  What the bit vectors of \<^verbatim>\<open>src/bitvector\<close> promise: the growable vector refines a list of booleans,
  the packed accesses and iterators agree with it, decoding accepts exactly the well-formed
  vectors, and both rank/select structures answer for the list.
\<close>

section \<open>The growable vector\<close>

text \<open>C16. Any sequence of pushes, appends of up to 64 bits, extensions by zeros, single-bit writes and \<open>set_bits\<close> on a
  fresh vector does to its bits and to its stored count of ones what the operations of the abstract machine on a list of booleans and
  a number do, and panics exactly where the abstract operation is not enabled: when the length or the stored count would leave the range of \<open>usize\<close>
  (also when single-bit writes move the count out of it), at a position or range beyond the end, and on spurious bits.\<close>

theorem bit_vector_refines:
  "map_option (\<lambda>s. (bm_list s, bm_count_ones s)) (foldM bm_exec bm_new ops) = foldM abs_exec ([], 0) ops"
  using bm_run_refines [OF bm_new_inv, of ops] by (simp add: bm_new_ok bm_abs_def [abs_def])

text \<open>C17. In every state that pushes, appends of up to 64 bits, extensions by zeros, single-bit writes and \<open>set_bits\<close> reach from the
  empty vector there are as many lines as its length
  needs, the bits of the last line past the end are zero, reading never panics and returns the bits, and the stored count of
  ones is at least the number of ones. In the states reached without \<open>set_bits\<close> the stored count is the number of ones and
  \<open>count_zeros\<close> returns the number of zeros.\<close>

theorem bit_vector_invariant:
  assumes "bm_reachable used s"
  shows "length (bm_data s) = div_ceil (bm_n_bits s) 512 \<and> (\<forall>l\<in>set (bm_data s). length (bl_words l) = 8)
    \<and> (\<forall>p. bm_n_bits s \<le> p \<and> p < 512 * length (bm_data s) \<longrightarrow> \<not> lbit (cast_to_u64_slice (bm_data s)) p)
    \<and> (\<forall>i. bm_get s i = Some (idx (bm_list s) i)) \<and> count_list (bm_list s) True \<le> bm_count_ones s
    \<and> (\<not> used \<longrightarrow> bm_count_ones s = count_list (bm_list s) True \<and> bm_count_zeros s = Some (count_list (bm_list s) False))"
proof -
  have s: "bm_shape s" "count_list (bm_list s) True \<le> bm_count_ones s" "\<not> used \<Longrightarrow> bm_ok s"
    using bm_reachable_inv [OF assms] by (auto simp: bm_inv_def)
  then show ?thesis using bm_get_shape [OF s(1)] bm_count_zeros_eq [of s] by (auto simp: bm_shape_def lines_ok_def bl_ok_def bm_ok_iff)
qed

theorem bit_vector_invariant_witness:
  "\<exists>s. bm_reachable False s \<and> bm_list s = [True, False] \<and> bm_count_ones s = 1 \<and> bm_count_zeros s = Some 1"
proof -
  obtain s1 where s1: "bm_exec bm_new (Push True) = Some s1" "bm_ok s1" "bm_list s1 = [True]"
    using bm_push_eq [OF bm_new_ok(1), of True] bm_new_ok by auto
  have "bm_n_bits s1 = 1" using arg_cong [OF s1(3), of length] by simp
  then obtain s2 where s2: "bm_exec s1 (Push False) = Some s2" "bm_list s2 = [True, False]"
    using bm_push_eq [OF s1(2), of False] s1(3) by auto
  have "bm_reachable (False \<or> is_set_bits (Push True)) s1" by (rule bm_next [OF bm_init bm_step.intros [OF s1(1)]])
  then have "bm_reachable (False \<or> is_set_bits (Push True) \<or> is_set_bits (Push False)) s2"
    using bm_next [OF _ bm_step.intros [OF s2(1)]] by fastforce
  then have "bm_reachable False s2" by simp
  then show ?thesis using bit_vector_invariant [of False s2] s2(2) by fastforce
qed

text \<open>C18. Packed words: a vector of the first \<open>n\<close> bits of a word array can be read back in groups of up to 64
  bits at any position; the construction panics when the last word has a bit set at or after \<open>n\<close>, when the number of bits
  of the array leaves the range of \<open>usize\<close>, and when \<open>n\<close> exceeds \<open>2 ^ 63 - 64\<close>, from where on the reserved capacity is too large.\<close>

theorem bit_vector_packed:
  assumes "0 < n" "n \<le> length ws * 64" "n < 2 ^ 64"
  shows "if length ws * 64 < 2 ^ 64 \<and> n \<le> 2 ^ 63 - 64 \<and> spurious_free (ws ! ((n - 1) div 64)) ((n - 1) mod 64 + 1)
    then \<exists>v. bm_from_packed_data ws n = Some v \<and> bm_list v = map (lbit ws) [0..<n]
      \<and> (\<forall>i len. 0 < len \<and> len \<le> 64 \<and> i + len \<le> n \<longrightarrow> (\<exists>w. bm_get_bits v i len = Some (Some w)
           \<and> (\<forall>j<64. bit w j \<longleftrightarrow> j < len \<and> lbit ws (i + j))))
    else bm_from_packed_data ws n = None"
proof (cases "length ws * 64 < 2 ^ 64 \<and> n \<le> 2 ^ 63 - 64 \<and> spurious_free (ws ! ((n - 1) div 64)) ((n - 1) mod 64 + 1)")
  case True
  then obtain v where v: "bm_from_packed_data ws n = Some v" "bm_ok v" "bm_list v = map (lbit ws) [0..<n]"
    using bm_from_packed_data_eq [OF assms(2)] by blast
  have len: "bm_n_bits v = n" using arg_cong [OF v(3), of length] by simp
  have "\<exists>w. bm_get_bits v i len = Some (Some w) \<and> (\<forall>j<64. bit w j \<longleftrightarrow> j < len \<and> lbit ws (i + j))"
    if r: "0 < len" "len \<le> 64" "i + len \<le> n" for i len
  proof -
    obtain w where w: "bm_get_bits v i len = Some (Some w)" "word_bits w len = slice (bm_list v) i (i + len)" "spurious_free w len"
      using bm_get_bits_eq [OF v(2) r(1,2)] r(3) assms(3) len by auto
    have "bit w j \<longleftrightarrow> j < len \<and> lbit ws (i + j)" if "j < 64" for j
    proof (cases "j < len")
      case True
      then have "word_bits w len ! j = slice (bm_list v) i (i + len) ! j" using w(2) by simp
      then show ?thesis using True r(3) by (simp add: word_bits_def slice_def v(3))
    next
      case False
      then show ?thesis using w(3) that by (auto simp: spurious_free_def drop_bit_zero_iff)
    qed
    then show ?thesis using w(1) by blast
  qed
  then show ?thesis using True v by auto
next
  case False
  then have "bm_from_packed_data ws n = None"
    using bm_from_packed_data_panics [OF assms(1,2)] bm_from_packed_data_huge [of ws n] by (meson linorder_not_less)
  then show ?thesis unfolding if_not_P [OF False] .
qed

theorem bit_vector_packed_witness:
  "\<exists>v w. bm_from_packed_data [5, 1] 65 = Some v \<and> bm_get_bits v 62 3 = Some (Some w) \<and> bit w 2 \<and> \<not> bit w 0"
proof -
  have "spurious_free ([5, 1 :: u64] ! ((65 - 1) div 64)) ((65 - 1) mod 64 + 1)" by (simp add: spurious_free_def)
  then obtain v where v: "bm_from_packed_data [5, 1] 65 = Some v"
    "\<forall>i len. 0 < len \<and> len \<le> 64 \<and> i + len \<le> 65 \<longrightarrow> (\<exists>w. bm_get_bits v i len = Some (Some w)
       \<and> (\<forall>j<64. bit w j \<longleftrightarrow> j < len \<and> lbit [5, 1] (i + j)))"
    using bit_vector_packed [of 65 "[5, 1]"] by auto
  obtain w where w: "bm_get_bits v 62 3 = Some (Some w)" "\<forall>j<64. bit w j \<longleftrightarrow> j < 3 \<and> lbit [5, 1] (62 + j)"
    using v(2) [rule_format, of 3 62] by auto
  have "bit w 2 \<longleftrightarrow> lbit [5, 1] 64" "bit w 0 \<longleftrightarrow> lbit [5, 1] 62"
    using w(2) [rule_format, of 2] w(2) [rule_format, of 0] by simp_all
  then have "bit w 2" "\<not> bit w 0" by (simp_all add: lbit_def bit_iff_odd drop_bit_eq_div)
  then show ?thesis using v(1) w(1) by blast
qed

text \<open>\<open>set_bits\<close> writes the bits but not the count: the ones it overwrites stay counted, so afterwards
  the stored count exceeds the number of ones by those that were in the written range.\<close>

theorem set_bits_miscounts:
  assumes "bm_reachable False s" "i + len \<le> bm_n_bits s" "bm_count_ones s + pop bits < 2 ^ 64" "spurious_free bits len"
  shows "\<exists>s'. bm_set_bits s i len bits = Some s'
    \<and> bm_list s' = take i (bm_list s) @ map (bit bits) [0..<len] @ drop (i + len) (bm_list s)
    \<and> bm_count_ones s' = count_list (bm_list s') True + count_list (slice (bm_list s) i (i + len)) True"
proof -
  have "bm_ok s" "bm_n_bits s < 2 ^ 64" using bm_reachable_inv [OF assms(1)] by (auto simp: bm_inv_def)
  from bm_set_bits_count [OF this(1) assms(2) this(2) assms(4,3)] show ?thesis by (simp add: word_bits_def)
qed

section \<open>The immutable vector\<close>

text \<open>C19. Decoding a vector accepts exactly the well-formed ones: enough lines for the declared length and
  no bit set past it. The count of ones is recomputed, whatever was stored.\<close>

theorem bit_vector_deserialize:
  assumes "\<forall>l\<in>set (bv_data decoded). length (bl_words l) = 8" "512 * length (bv_data decoded) < 2 ^ 64"
  shows "bv_deserialize decoded = Some (Inr bv) \<longleftrightarrow>
      bv_data bv = bv_data decoded \<and> bv_n_bits bv = bv_n_bits decoded
      \<and> length (bv_data decoded) = div_ceil (bv_n_bits decoded) 512
      \<and> (\<forall>p. bv_n_bits decoded \<le> p \<and> p < 512 * length (bv_data decoded) \<longrightarrow> \<not> lbit (cast_to_u64_slice (bv_data decoded)) p)
      \<and> bv_count_ones bv = count_list (map (lbit (cast_to_u64_slice (bv_data decoded))) [0..<bv_n_bits decoded]) True"
  using bv_deserialize_eq [of decoded bv] assms
  by (auto simp: lines_ok_def bl_ok_def bv_ok_def bm_ok_def bm_list_def bm_from_def)

theorem bit_vector_deserialize_witness:
  "bv_deserialize \<lparr>bv_data = [], bv_n_bits = 0, bv_count_ones = 7\<rparr> = Some (Inr \<lparr>bv_data = [], bv_n_bits = 0, bv_count_ones = 0\<rparr>)
    \<and> bv_deserialize \<lparr>bv_data = [bl_default], bv_n_bits = 600, bv_count_ones = 0\<rparr> \<noteq> Some (Inr \<lparr>bv_data = [bl_default], bv_n_bits = 600, bv_count_ones = 0\<rparr>)"
  using bit_vector_deserialize [of "\<lparr>bv_data = [], bv_n_bits = 0, bv_count_ones = 7\<rparr>" "\<lparr>bv_data = [], bv_n_bits = 0, bv_count_ones = 0\<rparr>"]
    bit_vector_deserialize [of "\<lparr>bv_data = [bl_default], bv_n_bits = 600, bv_count_ones = 0\<rparr>"
      "\<lparr>bv_data = [bl_default], bv_n_bits = 600, bv_count_ones = 0\<rparr>"]
  by (simp add: div_ceil_def bl_default_def)

lemma filter_mem_sorted: "finite S \<Longrightarrow> (\<forall>x\<in>S. x < n) \<Longrightarrow> filter (\<lambda>i. i \<in> S) [0..<n] = sorted_list_of_set S"
  by (rule sorted_distinct_set_unique) (auto simp: sorted_wrt_filter)

lemma bv_from_positions_eq:
  assumes "\<forall>x\<in>set xs. 0 \<le> x \<and> x + 1 < 2 ^ 64"
  shows "bv_from_positions xs = map_option bv_from (bm_from_positions (map nat xs))"
proof -
  have "foldM (\<lambda>bv x. do { p \<leftarrow> try_into_usize x; bm_extend_positions bv [p] }) b xs = bm_extend_positions b (map nat xs)" for b
    using assms
  proof (induction xs arbitrary: b)
    case (Cons x xs)
    have "bm_extend_positions b (nat x # map nat xs)
        = bm_extend_positions b [nat x] \<bind> (\<lambda>b'. bm_extend_positions b' (map nat xs))"
      by (simp add: bm_extend_positions_def)
    then show ?case using Cons by (simp add: try_into_usize_def)
  qed (simp add: bm_extend_positions_def)
  then show ?thesis by (simp add: bv_from_positions_def bm_from_positions_def)
qed

text \<open>C20. A vector collected from positions, in any order and with repetitions, has its ones exactly there:
  the iterator over the ones terminates and returns the distinct positions in increasing order; the
  iterator over the zeros returns the others, and starting at a position skips those before it.\<close>

theorem bit_positions:
  assumes "\<forall>x\<in>set xs. 0 \<le> x \<and> x + 1 < 2 ^ 64" "xs \<noteq> []"
  shows "\<exists>bv. bv_from_positions xs = Some bv \<and> bv_len bv = nat (Max (set xs)) + 1
    \<and> collect (bp_next True) (bv_ones bv) = Some (sorted_list_of_set (nat ` set xs))
    \<and> collect (bp_next False) (bv_zeros bv) = Some (filter (\<lambda>p. p \<notin> nat ` set xs) [0..<bv_len bv])
    \<and> (\<forall>pos. collect (bp_next True) (bv_ones_with_pos bv pos) = Some (filter (\<lambda>p. p \<in> nat ` set xs) [pos..<bv_len bv]))"
proof -
  let ?S = "nat ` set xs"
  have "\<forall>p\<in>set (map nat xs). Suc p < 2 ^ 64" using assms(1) by auto
  then obtain s where s: "bm_from_positions (map nat xs) = Some s" "bm_ok s"
    "bm_list s = map (\<lambda>i. i \<in> ?S) [0..<Suc (Max ?S)]"
    using bm_from_positions_eq [of "map nat xs"] assms(2) by auto
  let ?bv = "bv_from s"
  have l: "bv_list ?bv = map (\<lambda>i. i \<in> ?S) [0..<Suc (Max ?S)]" using s(3) by simp
  have n: "bv_n_bits ?bv = Suc (Max ?S)" using arg_cong [OF l, of length] unfolding length_bv_list by simp
  have M: "Max ?S = nat (Max (set xs))" using mono_Max_commute [of nat "set xs"] assms(2) by (simp add: mono_def nat_mono)
  have "\<forall>x\<in>?S. x < Suc (Max ?S)" by (simp add: less_Suc_eq_le)
  then have srt: "filter (\<lambda>p. p \<in> ?S) [0..<Suc (Max ?S)] = sorted_list_of_set ?S" by (intro filter_mem_sorted) simp_all
  have f: "filter (\<lambda>p. Q (bv_list ?bv ! p)) [a..<bv_n_bits ?bv] = filter (\<lambda>p. Q (p \<in> ?S)) [a..<Suc (Max ?S)]" for a and Q :: "bool \<Rightarrow> bool"
    unfolding n l by (rule filter_cong) (simp_all del: upt_Suc)
  note c = bv_positions [OF bv_from_ok(1) [THEN iffD2, OF s(2)]]
  have "bv_from_positions xs = Some ?bv" using bv_from_positions_eq [OF assms(1)] s(1) by simp
  moreover have "bv_len ?bv = nat (Max (set xs)) + 1" using n M by (simp add: bv_len_def)
  moreover have "collect (bp_next True) (bv_ones ?bv) = Some (sorted_list_of_set ?S)"
    using c(1) f [of "\<lambda>b. b" 0] srt by simp
  moreover have "collect (bp_next False) (bv_zeros ?bv) = Some (filter (\<lambda>p. p \<notin> ?S) [0..<bv_len ?bv])"
    using c(2) f [of Not 0] n by (simp add: bv_len_def del: upt_Suc)
  moreover have "collect (bp_next True) (bv_ones_with_pos ?bv pos) = Some (filter (\<lambda>p. p \<in> ?S) [pos..<bv_len ?bv])" for pos
    using c(3) [of pos] f [of "\<lambda>b. b" pos] n by (simp add: bv_len_def del: upt_Suc)
  ultimately show ?thesis by blast
qed

theorem bit_positions_witness:
  "\<exists>bv. bv_from_positions [7, 0, 7] = Some bv \<and> collect (bp_next True) (bv_ones bv) = Some [0, 7]"
proof -
  have "nat ` set [7, 0, 7] = set [0, 7 :: nat]" by auto
  then have "sorted_list_of_set (nat ` set [7, 0, 7]) = [0, 7]" unfolding sorted_list_of_set_sort_remdups by simp
  then show ?thesis using bit_positions [of "[7, 0, 7]"] by fastforce
qed

section \<open>Rank and select\<close>

lemma bv_built:
  assumes "length bs < 2 ^ 43"
  obtains bv where "bv_from_bools bs = Some bv" "bv_ok bv" "bv_list bv = bs" "bv_n_bits bv < 2 ^ 43"
proof -
  obtain s where s: "bm_extend_bools bm_new bs = Some s" "bm_ok s" "bm_list s = bs"
    using bm_extend_bools_eq [OF bm_new_ok(1), of bs] bm_new_ok assms by auto
  have "bv_n_bits (bv_from s) = length bs" using s(3) by (simp flip: length_bv_list)
  then show thesis using that [of "bv_from s"] s assms by (simp add: bv_from_bools_def)
qed

text \<open>C21. The narrow structure built from any bits answers access, both ranks and both selects for the list:
  \<open>rank1(i)\<close> counts the ones of the first \<open>i\<close> bits and is \<open>None\<close> beyond the end or on an empty
  vector, \<open>select0(k)\<close> is the position of the \<open>k\<close>-th zero; nothing panics.\<close>

theorem narrow_queries:
  assumes "length bs < 2 ^ 43"
  shows "\<exists>bv r. bv_from_bools bs = Some bv \<and> rn_new bv = Some r \<and> (\<forall>i.
      rn_get r i = Some (idx bs i)
      \<and> rn_rank1 r i = Some (if bs \<noteq> [] \<and> i \<le> length bs then Some (count_list (take i bs) True) else None)
      \<and> b_rank0 rn_ops r i = Some (if bs \<noteq> [] \<and> i \<le> length bs then Some (count_list (take i bs) False) else None)
      \<and> rn_select1 r i = Some (select_of bs True i) \<and> rn_select0 r i = Some (select_of bs False i))"
proof -
  obtain bv where bv: "bv_from_bools bs = Some bv" "bv_ok bv" "bv_list bv = bs" "bv_n_bits bv < 2 ^ 43"
    by (rule bv_built [OF assms])
  obtain r where r: "rn_new bv = Some r" "rn_rep r bs" using narrow.b_from_rep [OF bv(2,4)] bv(3) by (auto simp: rn_ops_def)
  show ?thesis
    using bv(1) r(1) narrow.b_get_rep [OF r(2)] narrow.b_rank1_rep [OF r(2)] narrow.b_rank0_rep [OF r(2)]
      narrow.b_select1_rep [OF r(2)] narrow.b_select0_rep [OF r(2)]
    by (auto simp: rn_ops_def rank_of_def)
qed

theorem narrow_queries_witness:
  "\<exists>bv r. bv_from_bools [True, False, True] = Some bv \<and> rn_new bv = Some r
    \<and> rn_rank1 r 3 = Some (Some 2) \<and> rn_select1 r 1 = Some (Some 2) \<and> rn_select0 r 1 = Some None"
proof -
  have "select_of [True, False, True] True 1 = Some 2" "select_of [True, False, True] False 1 = None"
    by (simp_all add: select_of_Some select_of_None rank_of_def)
  then show ?thesis using narrow_queries [of "[True, False, True]"] by fastforce
qed

text \<open>C22. The wide structure, with 128-bit superblocks, does too.\<close>

theorem wide_queries:
  assumes "length bs < 2 ^ 43"
  shows "\<exists>bv r. bv_from_bools bs = Some bv \<and> rw_new bv = Some r \<and> (\<forall>i.
      rw_get r i = Some (idx bs i)
      \<and> rw_rank1 r i = Some (if bs \<noteq> [] \<and> i \<le> length bs then Some (count_list (take i bs) True) else None)
      \<and> b_rank0 rw_ops r i = Some (if bs \<noteq> [] \<and> i \<le> length bs then Some (count_list (take i bs) False) else None)
      \<and> rw_select1 r i = Some (select_of bs True i) \<and> rw_select0 r i = Some (select_of bs False i))"
proof -
  obtain bv where bv: "bv_from_bools bs = Some bv" "bv_ok bv" "bv_list bv = bs" "bv_n_bits bv < 2 ^ 43"
    by (rule bv_built [OF assms])
  obtain r where r: "rw_new bv = Some r" "rw_rep r bs" using wide.b_from_rep [OF bv(2,4)] bv(3) by (auto simp: rw_ops_def)
  show ?thesis
    using bv(1) r(1) wide.b_get_rep [OF r(2)] wide.b_rank1_rep [OF r(2)] wide.b_rank0_rep [OF r(2)]
      wide.b_select1_rep [OF r(2)] wide.b_select0_rep [OF r(2)]
    by (auto simp: rw_ops_def rank_of_def)
qed

theorem wide_queries_witness:
  "\<exists>bv r. bv_from_bools [True, False, True] = Some bv \<and> rw_new bv = Some r
    \<and> rw_rank1 r 3 = Some (Some 2) \<and> rw_select0 r 0 = Some (Some 1)"
proof -
  have "select_of [True, False, True] False 0 = Some 1" by (simp add: select_of_Some rank_of_def)
  then show ?thesis using wide_queries [of "[True, False, True]"] by fastforce
qed

text \<open>Decoding a narrow structure validates the bit vector and rebuilds the counters: whatever counters and
  samples were stored, an accepted structure answers ranks and selects for the decoded bits.\<close>

theorem narrow_deserialize:
  assumes "\<forall>l\<in>set (bv_data (rn_bv decoded)). length (bl_words l) = 8" "512 * length (bv_data (rn_bv decoded)) < 2 ^ 43"
    and "rn_deserialize decoded = Some (Inr r)"
  shows "\<exists>bs. bs = map (lbit (cast_to_u64_slice (bv_data (rn_bv decoded)))) [0..<bv_n_bits (rn_bv decoded)] \<and> (\<forall>i.
      rn_rank1 r i = Some (if bs \<noteq> [] \<and> i \<le> length bs then Some (count_list (take i bs) True) else None)
      \<and> rn_select1 r i = Some (select_of bs True i) \<and> rn_select0 r i = Some (select_of bs False i))"
proof -
  let ?bs = "bv_list (rn_bv r)"
  have "lines_ok (bv_data (rn_bv decoded))" using assms(1) by (simp add: lines_ok_def bl_ok_def)
  then have r: "rn_rep r ?bs" "bv_data (rn_bv r) = bv_data (rn_bv decoded)" "bv_n_bits (rn_bv r) = bv_n_bits (rn_bv decoded)"
    using rn_deserialize_rep assms(2,3) by blast+
  have "?bs = map (lbit (cast_to_u64_slice (bv_data (rn_bv decoded)))) [0..<bv_n_bits (rn_bv decoded)]"
    using r(2,3) by (simp add: bv_list_def bm_list_def bm_from_def)
  then show ?thesis
    using narrow.b_rank1_rep [OF r(1)] narrow.b_select1_rep [OF r(1)] narrow.b_select0_rep [OF r(1)]
    by (auto simp: rn_ops_def rank_of_def)
qed

theorem narrow_deserialize_witness:
  "\<exists>r. rn_deserialize \<lparr>rn_bv = \<lparr>bv_data = [bl_default], bv_n_bits = 3, bv_count_ones = 9\<rparr>,
      rn_block_rank_pairs = [4], rn_select_samples = []\<rparr> = Some (Inr r) \<and> rn_rank1 r 2 = Some (Some 0)"
proof -
  let ?d = "\<lparr>rn_bv = \<lparr>bv_data = [bl_default], bv_n_bits = 3, bv_count_ones = 9\<rparr>, rn_block_rank_pairs = [4], rn_select_samples = []\<rparr>"
  let ?bv = "\<lparr>bv_data = [bl_default], bv_n_bits = 3, bv_count_ones = 0\<rparr>"
  have z: "lbit (cast_to_u64_slice [bl_default]) p = False" if "p < 512" for p
    using lbit_zeros [of p 8] that by (simp add: bl_default_def)
  have "[0..<3] = [0, 1, 2 :: nat]" by (simp add: upt_rec)
  then have l: "map (lbit (cast_to_u64_slice [bl_default])) [0..<3] = [False, False, False]" using z by simp
  have "bm_ok \<lparr>bm_data = [bl_default], bm_n_bits = 3, bm_count_ones = 0\<rparr>"
    using z l by (simp add: bm_ok_def bm_list_def lines_ok_def div_ceil_def)
  then have ok: "bv_ok ?bv" by (simp add: bv_ok_def bm_from_def)
  have "bv_deserialize (rn_bv ?d) = Some (Inr ?bv)"
    using bv_deserialize_eq [of "rn_bv ?d" ?bv] ok by (simp add: lines_ok_def)
  moreover obtain r where "rn_new ?bv = Some r" using rn_new_ok [OF ok] by auto
  ultimately have r: "rn_deserialize ?d = Some (Inr r)" by (simp add: rn_deserialize_def)
  have "rn_rank1 r 2 = Some (Some 0)"
    using narrow_deserialize [of ?d r] r l by (simp add: bl_default_def)
  then show ?thesis using r by blast
qed

end
