(* ===== verification/BinWT.thy ===== *)
theory BinWT
  imports BinSupport QuadWTRange Layout "HOL-Library.AList"
begin

text \<open>
  The binary wavelet tree, \<^verbatim>\<open>src/binwt/mod.rs\<close>: the definitions. \<open>WaveletTree<T, BRS, COMPRESSED>\<close> is
  generic in the rank/select vector \<open>BRS\<close> of its levels, the record \<open>bin_ops\<close>, and in the flag
  \<open>COMPRESSED\<close>, an argument of the operations. A compressed tree gets the lengths of its codes from the
  crate \<open>minimum_redundancy\<close>, the argument \<open>code_lengths\<close>: from the frequency of every symbol, in the
  order in which the hash map iterates, the length of its code, again in the order of iteration.
\<close>

unbundle bit_operations_syntax

section \<open>Option results\<close>

text \<open>
  \<open>opt?\<close> in a function that returns \<open>Option\<close>, and a loop whose body may return \<open>None\<close>. The outer option
  is the panic, the inner one the result.
\<close>

definition qbind :: "'a option option \<Rightarrow> ('a \<Rightarrow> 'b option option) \<Rightarrow> 'b option option" where
  "qbind r k = (case r of None \<Rightarrow> None | Some None \<Rightarrow> Some None | Some (Some x) \<Rightarrow> k x)"

fun foldQ :: "('s \<Rightarrow> 'a \<Rightarrow> 's option option) \<Rightarrow> 's \<Rightarrow> 'a list \<Rightarrow> 's option option" where
  "foldQ f s [] = Some (Some s)"
| "foldQ f s (x # xs) = qbind (f s x) (\<lambda>s'. foldQ f s' xs)"

section \<open>The tree and its codes\<close>

record ('a, 'b) wavelet_tree =
  wv_n :: nat
  wv_n_levels :: nat
  wv_sigma :: "'a option"
  wv_codes_encode :: "prefix_code list option"
  wv_codes_decode :: "(u32 \<times> 'a) list list option"
  wv_bvs :: "'b list"
  wv_lens :: "nat list"

text \<open>\<open>1 << n\<close> and \<open>w << n\<close> on \<open>u32\<close>, with the check on the amount.\<close>

definition shl_u32 :: "u32 \<Rightarrow> nat \<Rightarrow> u32 option" where
  "shl_u32 w n = (if n < 32 then Some (push_bit n w) else None)"

text \<open>The local variables of \<open>craft_wm_codes\<close>: the codes, read backwards, and how many there are.\<close>

record craft_state =
  cs_c :: "u32 list"
  cs_assignments :: "prefix_code list"
  cs_m :: nat
  cs_l :: nat

definition craft_split :: "nat \<Rightarrow> nat \<Rightarrow> nat \<Rightarrow> u32 list \<Rightarrow> nat \<Rightarrow> u32 list option" where
  "craft_split j m l c r = do {
     x \<leftarrow> idx c r;
     k \<leftarrow> chk_sub m j;
     guard (k * 1 + r < length c);
     let c = c[k * 1 + r := x];
     y \<leftarrow> idx c r;
     one \<leftarrow> shl_u32 1 l;
     Some (c[r := y OR one])
   }"

definition craft_grow :: "nat \<Rightarrow> craft_state \<Rightarrow> nat \<Rightarrow> craft_state option" where
  "craft_grow j st _ = do {
     c \<leftarrow> foldM (craft_split j (cs_m st) (cs_l st)) (cs_c st) [j..<cs_m st];
     m \<leftarrow> chk_sub (2 * cs_m st) j;
     Some (st\<lparr>cs_c := c, cs_m := m, cs_l := cs_l st + 1\<rparr>)
   }"

definition craft_reverse :: "u32 \<Rightarrow> nat \<Rightarrow> u32 \<Rightarrow> nat \<Rightarrow> u32 option" where
  "craft_reverse cj l reversed_code t = do {
     w \<leftarrow> shr_u32 cj t;
     b \<leftarrow> shl_u32 (w AND 1) (l - t - 1);
     Some (reversed_code OR b)
   }"

definition craft_step :: "(nat \<times> u32) list \<Rightarrow> craft_state \<Rightarrow> nat \<Rightarrow> craft_state option" where
  "craft_step f st j = do {
     (symbol, len) \<leftarrow> idx f j;
     st \<leftarrow> foldM (craft_grow j) st [cs_l st..<unat len];
     cj \<leftarrow> idx (cs_c st) j;
     reversed_code \<leftarrow> foldM (craft_reverse cj (cs_l st)) 0 [0..<cs_l st];
     guard (symbol < length (cs_assignments st));
     Some (st\<lparr>cs_assignments := (cs_assignments st)[symbol := \<lparr>pc_content = reversed_code, pc_len = of_nat (cs_l st)\<rparr>]\<rparr>)
   }"

definition craft_wm_codes :: "(nat \<times> u32) list \<Rightarrow> nat \<Rightarrow> prefix_code list option" where
  "craft_wm_codes freq sigma = do {
     let alph_size = length freq;
     let f = sort_key snd freq;
     n_assignments \<leftarrow> add_usize sigma 1;
     assignments \<leftarrow> vec_of 8 \<lparr>pc_content = 0, pc_len = 0\<rparr> n_assignments;
     st \<leftarrow> foldM (craft_step f) \<lparr>cs_c = replicate alph_size 0, cs_assignments = assignments, cs_m = 1, cs_l = 0\<rparr> [0..<alph_size];
     Some (cs_assignments st)
   }"

section \<open>Construction\<close>

text \<open>\<open>*map.entry(c).or_insert(0u32) += 1\<close>: the frequencies are \<open>u32\<close> values.\<close>

definition freq_step :: "(nat \<times> nat) list \<Rightarrow> 'a::len word \<Rightarrow> (nat \<times> nat) list option" where
  "freq_step freqs c = (
     let s = unat (as_usize c); k = (case map_of freqs s of None \<Rightarrow> 0 | Some k \<Rightarrow> k)
     in do { guard (k + 1 < 2 ^ 32); Some (AList.update s (k + 1) freqs) })"

definition decoder_push :: "(u32 \<times> 'a::len word) list list \<Rightarrow> nat \<times> prefix_code \<Rightarrow> (u32 \<times> 'a word) list list option" where
  "decoder_push decoder ic = (
     let (i, c) = ic
     in if pc_len c \<noteq> 0 then do {
          row \<leftarrow> idx decoder (unat (pc_len c));
          Some (decoder[unat (pc_len c) := row @ [(pc_content c, of_nat i)]])
        } else Some decoder)"

definition wv_codes :: "((nat \<times> nat) list \<Rightarrow> (nat \<times> u32) list) \<Rightarrow> 'a::len word list \<Rightarrow> 'a word \<Rightarrow>
    (prefix_code list \<times> (u32 \<times> 'a word) list list \<times> nat) option" where
  "wv_codes code_lengths sequence sigma = do {
     freqs \<leftarrow> foldM freq_step [] sequence;
     codes \<leftarrow> craft_wm_codes (code_lengths freqs) (unat (as_usize sigma));
     let max_len = unat (Max (pc_len ` set codes));
     decoder \<leftarrow> foldM decoder_push (replicate (max_len + 1) []) (zip [0..<length codes] codes);
     Some (codes, map (sort_key fst) decoder, max_len)
   }"

text \<open>The bit a symbol adds to the vector of a level, if its code is long enough.\<close>

definition wv_push :: "prefix_code list option \<Rightarrow> nat \<Rightarrow> nat \<Rightarrow> bitvector_mut \<Rightarrow> 'a::len word \<Rightarrow> bitvector_mut option" where
  "wv_push codes n_levels shift cur_bv s =
     (case codes of
        Some codes_encode \<Rightarrow> do {
          cur_code \<leftarrow> idx codes_encode (unat (as_usize s));
          if pc_len cur_code \<ge> of_nat shift then do {
            w \<leftarrow> shr_u32 (pc_content cur_code) (unat (pc_len cur_code - of_nat shift));
            bm_push cur_bv (w AND 1 = 1)
          } else Some cur_bv
        }
      | None \<Rightarrow> do {
          k \<leftarrow> chk_sub n_levels shift;
          b \<leftarrow> one_bit_T k s;
          bm_push cur_bv (b = 1)
        })"

definition wv_level :: "'b bin_ops \<Rightarrow> prefix_code list option \<Rightarrow> nat \<Rightarrow> 'a::len word list \<times> 'b list \<times> nat list \<Rightarrow> nat \<Rightarrow>
    ('a word list \<times> 'b list \<times> nat list) option" where
  "wv_level B codes n_levels st shift = (
     let (sequence, bvs, lens) = st
     in do {
       cur_bv \<leftarrow> foldM (wv_push codes n_levels shift) bm_new sequence;
       let bv = bv_from cur_bv;
       r \<leftarrow> b_from B bv;
       sequence \<leftarrow> (case codes of
           Some codes_encode \<Rightarrow> stable_partition_of_2_with_codes sequence shift codes_encode
         | None \<Rightarrow> do { k \<leftarrow> chk_sub n_levels shift; stable_partition_of_2 sequence k });
       Some (sequence, bvs @ [r], lens @ [bv_len bv])
     })"

definition wv_new :: "'b bin_ops \<Rightarrow> bool \<Rightarrow> ((nat \<times> nat) list \<Rightarrow> (nat \<times> u32) list) \<Rightarrow> 'a::len word list \<Rightarrow>
    ('a word, 'b) wavelet_tree option" where
  "wv_new B compressed code_lengths sequence =
     (if sequence = [] then
        Some \<lparr>wv_n = 0, wv_n_levels = 0, wv_sigma = None, wv_codes_encode = None, wv_codes_decode = None,
          wv_bvs = [], wv_lens = []\<rparr>
      else (
        let sigma = Max (set sequence)
        in do {
          (codes_encode, codes_decode, n_levels, sig) \<leftarrow>
            (if compressed then do {
               (codes, decoder, max_len) \<leftarrow> wv_codes code_lengths sequence sigma;
               Some (Some codes, Some decoder, max_len, None)
             } else Some (None, None, msb_of sigma + 1, Some sigma));
          (sequence, bvs, lens) \<leftarrow> foldM (wv_level B codes_encode n_levels) (sequence, [], []) [1..<n_levels + 1];
          Some \<lparr>wv_n = length sequence, wv_n_levels = n_levels, wv_sigma = sig, wv_codes_encode = codes_encode,
            wv_codes_decode = codes_decode, wv_bvs = bvs, wv_lens = lens\<rparr>
        }))"

definition wv_len :: "('a, 'b) wavelet_tree \<Rightarrow> nat" where
  "wv_len self = wv_n self"

definition wv_is_empty :: "('a, 'b) wavelet_tree \<Rightarrow> bool" where
  "wv_is_empty self \<longleftrightarrow> wv_n self = 0"

definition wv_iter :: "('a, 'b) wavelet_tree \<Rightarrow> ('a, 'b) wavelet_tree wt_iterator" where
  "wv_iter self = \<lparr>wi_i = 0, wi_end = wv_len self, wi_qwt = self\<rparr>"

section \<open>Access\<close>

text \<open>\<open>binary_search_by_key\<close> of the standard library on a row of the decoder: the position of an entry with this code. The loop halves
  the part of the row that can hold it. On an unsorted row, which only decoded data can have, Rust leaves the result open; the
  loop is the one of the standard library, and such data is rejected either way, by the check on the codes or by the check on the rows
  that follows it.\<close>

fun search_loop :: "u32 \<Rightarrow> (u32 \<times> 'a) list \<Rightarrow> nat \<Rightarrow> nat \<Rightarrow> nat" where
  "search_loop content row base size_left =
     (if size_left \<le> 1 then base
      else let half = size_left div 2; mid = base + half
           in search_loop content row (if fst (row ! mid) > content then base else mid) (size_left - half))"

declare search_loop.simps [simp del]

definition search_code :: "u32 \<Rightarrow> (u32 \<times> 'a) list \<Rightarrow> nat option" where
  "search_code content row =
     (if row = [] then None
      else let base = search_loop content row 0 (length row) in if fst (row ! base) = content then Some base else None)"

text \<open>\<open>T::from(result)\<close> for a \<open>u32\<close>: \<open>None\<close> when the value does not fit in \<open>T\<close>.\<close>

definition T_from :: "u32 \<Rightarrow> 'a::len word option" where
  "T_from r = (if unat r < 2 ^ LENGTH('a) then Some (ucast r) else None)"

text \<open>The loop down the levels: the position, the bits read, and their number.\<close>

fun wv_get_loop :: "'b bin_ops \<Rightarrow> bool \<Rightarrow> ('a, 'b) wavelet_tree \<Rightarrow> nat list \<Rightarrow> nat \<Rightarrow> u32 \<Rightarrow> nat \<Rightarrow> (u32 \<times> nat) option option" where
  "wv_get_loop B compressed self [] cur_i result shift = Some (Some (result, shift))"
| "wv_get_loop B compressed self (level # levels) cur_i result shift =
     qbind (if compressed then Some (map_option (\<lambda>len. cur_i \<ge> len) (idx (wv_lens self) level)) else Some (Some False)) (\<lambda>brk.
     if brk then Some (Some (result, shift))
     else
       qbind (Some (idx (wv_bvs self) level)) (\<lambda>bv.
       qbind (b_get B bv cur_i) (\<lambda>symbol.
       let result = push_bit 1 result OR of_bool symbol in
       qbind (b_rank1 B bv cur_i) (\<lambda>ones.
       qbind (if symbol then do { z \<leftarrow> b_count_zeros B bv; Some (add_usize ones z) } else Some (chk_sub cur_i ones)) (\<lambda>cur_i.
       wv_get_loop B compressed self levels cur_i result (shift + 1))))))"

definition wv_get :: "'b bin_ops \<Rightarrow> bool \<Rightarrow> ('a::len word, 'b) wavelet_tree \<Rightarrow> nat \<Rightarrow> 'a word option option" where
  "wv_get B compressed self i =
     (if i \<ge> wv_n self then Some None
      else qbind (wv_get_loop B compressed self [0..<wv_n_levels self] i 0 0) (\<lambda>(result, shift).
        if compressed then
          qbind (Some (wv_codes_decode self)) (\<lambda>decode.
          qbind (Some (idx decode shift)) (\<lambda>leaves.
          qbind (Some (search_code result leaves)) (\<lambda>index.
          qbind (Some (idx leaves index)) (\<lambda>leaf. Some (Some (snd leaf))))))
        else Some (T_from result)))"

fun wv_get_unchecked_loop :: "'b bin_ops \<Rightarrow> bool \<Rightarrow> ('a, 'b) wavelet_tree \<Rightarrow> nat list \<Rightarrow> nat \<Rightarrow> u32 \<Rightarrow> nat \<Rightarrow> (u32 \<times> nat) option" where
  "wv_get_unchecked_loop B compressed self [] cur_i result shift = Some (result, shift)"
| "wv_get_unchecked_loop B compressed self (level # levels) cur_i result shift = do {
     brk \<leftarrow> (if compressed then map_option (\<lambda>len. cur_i \<ge> len) (idx (wv_lens self) level) else Some False);
     if brk then Some (result, shift)
     else do {
       bv \<leftarrow> idx (wv_bvs self) level;
       symbol \<leftarrow> b_get_unchecked B bv cur_i;
       let result = push_bit 1 result OR of_bool symbol;
       tmp \<leftarrow> b_rank1_unchecked B bv cur_i;
       cur_i \<leftarrow> (if symbol then do { z \<leftarrow> b_count_zeros B bv; Some (tmp + z) } else chk_sub cur_i tmp);
       wv_get_unchecked_loop B compressed self levels cur_i result (shift + 1)
     }
   }"

definition wv_get_unchecked :: "'b bin_ops \<Rightarrow> bool \<Rightarrow> ('a::len word, 'b) wavelet_tree \<Rightarrow> nat \<Rightarrow> 'a word option" where
  "wv_get_unchecked B compressed self i = do {
     (result, shift) \<leftarrow> wv_get_unchecked_loop B compressed self [0..<wv_n_levels self] i 0 0;
     if compressed then do {
       decode \<leftarrow> wv_codes_decode self;
       leaves \<leftarrow> idx decode shift;
       index \<leftarrow> search_code result leaves;
       leaf \<leftarrow> idx leaves index;
       Some (snd leaf)
     } else T_from result
   }"

section \<open>Occurrences in a range\<close>

definition wv_occs_range_unchecked :: "nat \<Rightarrow> nat \<Rightarrow> occs_range_frame list" where
  "wv_occs_range_unchecked s e =
     (if s = e then [] else [\<lparr>of_start = s, of_end = e, of_level = 0, of_bit_path = 0\<rparr>])"

definition wv_occs_range :: "('a, 'b) wavelet_tree \<Rightarrow> bound \<Rightarrow> bound \<Rightarrow> occs_range_frame list option option" where
  "wv_occs_range self sb eb =
     qbind (Some (range_start sb)) (\<lambda>s.
     qbind (Some (range_end (wv_n self) eb)) (\<lambda>e.
     if e > wv_n self \<or> s > e then Some None else Some (Some (wv_occs_range_unchecked s e))))"

text \<open>The two children of a frame, the right one pushed first.\<close>

definition wv_occs_push :: "'b bin_ops \<Rightarrow> 'b \<Rightarrow> occs_range_frame \<Rightarrow> occs_range_frame list \<Rightarrow> occs_range_frame list option option" where
  "wv_occs_push B bv cur stack =
     qbind (b_rank1 B bv (of_start cur)) (\<lambda>r_lo.
     qbind (b_rank1 B bv (of_end cur)) (\<lambda>r_hi. do {
       stack \<leftarrow> (if r_hi > r_lo then do {
           offset \<leftarrow> b_count_zeros B bv;
           Some (\<lparr>of_start = offset + r_lo, of_end = offset + r_hi, of_level = of_level cur + 1,
             of_bit_path = push_bit 1 (of_bit_path cur) OR 1\<rparr> # stack)
         } else Some stack);
       l_lo \<leftarrow> chk_sub (of_start cur) r_lo;
       l_hi \<leftarrow> chk_sub (of_end cur) r_hi;
       Some (Some (if l_hi > l_lo then
           \<lparr>of_start = l_lo, of_end = l_hi, of_level = of_level cur + 1, of_bit_path = push_bit 1 (of_bit_path cur)\<rparr> # stack
         else stack))
     }))"

text \<open>A frame at a leaf: the symbol it yields.\<close>

definition wv_occs_leaf :: "bool \<Rightarrow> ('a::len word, 'b) wavelet_tree \<Rightarrow> occs_range_frame \<Rightarrow> 'a word option option option" where
  "wv_occs_leaf compressed tree cur =
     (if compressed then
        qbind (Some (wv_codes_decode tree)) (\<lambda>decode.
        qbind (Some (idx decode (of_level cur))) (\<lambda>leaves.
        Some (Some (case search_code (ucast (of_bit_path cur)) leaves of
            None \<Rightarrow> None
          | Some index \<Rightarrow> map_option snd (idx leaves index)))))
      else Some (Some (if of_level cur = wv_n_levels tree then Some (ucast (of_bit_path cur)) else None)))"

partial_function (option) wv_occs_next :: "'b bin_ops \<Rightarrow> bool \<Rightarrow> ('a::len word, 'b) wavelet_tree \<Rightarrow> occs_range_frame list \<Rightarrow>
    (('a word \<times> nat) option \<times> occs_range_frame list) option" where
  "wv_occs_next B compressed tree stack =
     (case stack of
        [] \<Rightarrow> Some (None, [])
      | cur # rest \<Rightarrow> do {
          leaf \<leftarrow> wv_occs_leaf compressed tree cur;
          case leaf of
            None \<Rightarrow> Some (None, rest)
          | Some (Some symbol) \<Rightarrow> do { d \<leftarrow> chk_sub (of_end cur) (of_start cur); Some (Some (symbol, d), rest) }
          | Some None \<Rightarrow> do {
              r \<leftarrow> qbind (Some (idx (wv_bvs tree) (of_level cur))) (\<lambda>bv. wv_occs_push B bv cur rest);
              case r of None \<Rightarrow> Some (None, rest) | Some stack \<Rightarrow> wv_occs_next B compressed tree stack
            }
        })"

section \<open>Rank and select\<close>

text \<open>The length of the representation of a symbol and its bits.\<close>

definition wv_repr :: "bool \<Rightarrow> ('a::len word, 'b) wavelet_tree \<Rightarrow> 'a word \<Rightarrow> (nat \<times> u32) option option" where
  "wv_repr compressed self symbol =
     (if compressed then
        qbind (Some (wv_codes_encode self)) (\<lambda>codes.
        qbind (Some (idx codes (unat (as_usize symbol)))) (\<lambda>code.
        if pc_len code = 0 then Some None else Some (Some (unat (pc_len code), pc_content code))))
      else
        qbind (Some (wv_sigma self)) (\<lambda>sigma.
        if symbol > sigma then Some None else Some (Some (wv_n_levels self, ucast (as_usize symbol)))))"

text \<open>\<open>((repr >> (symbol_len - level - 1)) & 1) == 1\<close>\<close>

definition repr_bit :: "nat \<Rightarrow> u32 \<Rightarrow> nat \<Rightarrow> bool option" where
  "repr_bit symbol_len repr level = do {
     k \<leftarrow> chk_sub symbol_len level;
     k \<leftarrow> chk_sub k 1;
     w \<leftarrow> shr_u32 repr k;
     Some (w AND 1 = 1)
   }"

definition wv_rank_step :: "'b bin_ops \<Rightarrow> ('a, 'b) wavelet_tree \<Rightarrow> nat \<Rightarrow> u32 \<Rightarrow> nat \<times> nat \<Rightarrow> nat \<Rightarrow> (nat \<times> nat) option option" where
  "wv_rank_step B self symbol_len repr st level = (
     let (cur_i, cur_p) = st
     in do {
       bit \<leftarrow> repr_bit symbol_len repr level;
       qbind (Some (idx (wv_bvs self) level)) (\<lambda>bv. do {
         offset \<leftarrow> b_count_zeros B bv;
         qbind (b_rank1 B bv cur_p) (\<lambda>tmp_p.
         qbind (b_rank1 B bv cur_i) (\<lambda>tmp_i.
         qbind (Some (if bit then add_usize tmp_p offset else chk_sub cur_p tmp_p)) (\<lambda>cur_p.
         qbind (Some (if bit then add_usize tmp_i offset else chk_sub cur_i tmp_i)) (\<lambda>cur_i.
         Some (Some (cur_i, cur_p))))))
       })
     })"

definition wv_rank :: "'b bin_ops \<Rightarrow> bool \<Rightarrow> ('a::len word, 'b) wavelet_tree \<Rightarrow> 'a word \<Rightarrow> nat \<Rightarrow> nat option option" where
  "wv_rank B compressed self symbol i =
     (if i > wv_n self then Some None
      else qbind (wv_repr compressed self symbol) (\<lambda>(symbol_len, repr).
        qbind (foldQ (wv_rank_step B self symbol_len repr) (i, 0) [0..<symbol_len]) (\<lambda>(cur_i, cur_p).
        Some (chk_sub cur_i cur_p))))"

definition wv_rank_unchecked_step :: "'b bin_ops \<Rightarrow> ('a, 'b) wavelet_tree \<Rightarrow> nat \<Rightarrow> u32 \<Rightarrow> nat \<times> nat \<Rightarrow> nat \<Rightarrow> (nat \<times> nat) option" where
  "wv_rank_unchecked_step B self symbol_len repr st level = (
     let (cur_i, cur_p) = st
     in do {
       bit \<leftarrow> repr_bit symbol_len repr level;
       bv \<leftarrow> idx (wv_bvs self) level;
       offset \<leftarrow> b_count_zeros B bv;
       tmp_p \<leftarrow> b_rank1_unchecked B bv cur_p;
       tmp_i \<leftarrow> b_rank1_unchecked B bv cur_i;
       cur_p \<leftarrow> (if bit then Some (tmp_p + offset) else chk_sub cur_p tmp_p);
       cur_i \<leftarrow> (if bit then Some (tmp_i + offset) else chk_sub cur_i tmp_i);
       Some (cur_i, cur_p)
     })"

definition wv_rank_unchecked :: "'b bin_ops \<Rightarrow> bool \<Rightarrow> ('a::len word, 'b) wavelet_tree \<Rightarrow> 'a word \<Rightarrow> nat \<Rightarrow> nat option" where
  "wv_rank_unchecked B compressed self symbol i = do {
     (symbol_len, repr) \<leftarrow>
       (if compressed then do {
          codes \<leftarrow> wv_codes_encode self;
          code \<leftarrow> idx codes (unat (as_usize symbol));
          Some (unat (pc_len code), pc_content code)
        } else Some (wv_n_levels self, ucast (as_usize symbol)));
     (cur_i, cur_p) \<leftarrow> foldM (wv_rank_unchecked_step B self symbol_len repr) (i, 0) [0..<symbol_len];
     chk_sub cur_i cur_p
   }"

definition wv_select_down :: "'b bin_ops \<Rightarrow> ('a, 'b) wavelet_tree \<Rightarrow> nat \<Rightarrow> u32 \<Rightarrow> nat \<times> nat list \<times> nat list \<Rightarrow> nat \<Rightarrow>
    (nat \<times> nat list \<times> nat list) option option" where
  "wv_select_down B self symbol_len repr st level = (
     let (b, path_off, rank_path_off) = st; path_off = path_off @ [b]
     in do {
       bit \<leftarrow> repr_bit symbol_len repr level;
       qbind (Some (idx (wv_bvs self) level)) (\<lambda>bv.
       qbind (if bit then b_rank1 B bv b else b_rank0 B bv b) (\<lambda>rank_b. do {
         offset \<leftarrow> (if bit then b_count_zeros B bv else Some 0);
         qbind (Some (add_usize rank_b offset)) (\<lambda>b.
         Some (Some (b, path_off, rank_path_off @ [rank_b])))
       }))
     })"

definition wv_select_up :: "'b bin_ops \<Rightarrow> ('a, 'b) wavelet_tree \<Rightarrow> nat \<Rightarrow> u32 \<Rightarrow> nat list \<Rightarrow> nat list \<Rightarrow> nat \<Rightarrow> nat \<Rightarrow> nat option option" where
  "wv_select_up B self symbol_len repr path_off rank_path_off result level = do {
     b \<leftarrow> idx path_off level;
     rank_b \<leftarrow> idx rank_path_off level;
     bit \<leftarrow> repr_bit symbol_len repr level;
     qbind (Some (idx (wv_bvs self) level)) (\<lambda>bv.
     qbind (Some (add_usize rank_b result)) (\<lambda>r.
     qbind (if bit then b_select1 B bv r else b_select0 B bv r) (\<lambda>selected.
     Some (chk_sub selected b))))
   }"

definition wv_select :: "'b bin_ops \<Rightarrow> bool \<Rightarrow> ('a::len word, 'b) wavelet_tree \<Rightarrow> 'a word \<Rightarrow> nat \<Rightarrow> nat option option" where
  "wv_select B compressed self symbol i =
     qbind (wv_repr compressed self symbol) (\<lambda>(symbol_len, repr).
     qbind (foldQ (wv_select_down B self symbol_len repr) (0, [], []) [0..<symbol_len]) (\<lambda>(b, path_off, rank_path_off).
     foldQ (wv_select_up B self symbol_len repr path_off rank_path_off) i (rev [0..<symbol_len])))"

definition wv_select_unchecked :: "'b bin_ops \<Rightarrow> bool \<Rightarrow> ('a::len word, 'b) wavelet_tree \<Rightarrow> 'a word \<Rightarrow> nat \<Rightarrow> nat option" where
  "wv_select_unchecked B compressed self symbol i = do { r \<leftarrow> wv_select B compressed self symbol i; r }"

section \<open>Deserialisation\<close>

definition wv_check_level :: "'b bin_ops \<Rightarrow> bool \<Rightarrow> ('a, 'b) wavelet_tree \<Rightarrow> unit \<Rightarrow> nat \<times> 'b \<times> nat \<Rightarrow> (string + unit) option" where
  "wv_check_level B compressed self u lbl = (
     let (level, bv, len) = lbl
     in rbind (reject (len > wv_n self) ''wavelet-tree level exceeds the sequence length'') (\<lambda>_.
        rbind (do {
            short \<leftarrow> (if len > 0 then do { g \<leftarrow> b_get B bv (len - 1); Some (g = None) } else Some False);
            bad \<leftarrow> (if short then Some True else do { g \<leftarrow> b_get B bv len; Some (g \<noteq> None) });
            reject bad ''wavelet-tree level length disagrees with its bitvector''
          }) (\<lambda>_.
        rbind (reject (\<not> compressed \<and> len \<noteq> wv_n self) ''plain wavelet-tree levels must match the sequence length'') (\<lambda>_.
        if compressed \<and> level > 0 then do {
          previous \<leftarrow> idx (wv_lens self) (level - 1);
          reject (len > previous) ''compressed wavelet-tree level lengths must be non-increasing''
        } else Some (Inr ())))))"

definition wv_check_encoder :: "nat \<Rightarrow> (u32 \<times> 'a::len word) list list \<Rightarrow> unit \<Rightarrow> nat \<times> prefix_code \<Rightarrow> (string + unit) option" where
  "wv_check_encoder n_levels decode u sc = (
     let (symbol, code) = sc; code_len = unat (pc_len code)
     in if pc_len code = 0 then Some (Inr ())
        else rbind (do {
            bad \<leftarrow> (if code_len > n_levels then Some True
                    else if code_len < 32 then do { lim \<leftarrow> shl_u32 1 code_len; Some (pc_content code \<ge> lim) } else Some False);
            reject bad ''compressed wavelet-tree encoder contains an invalid code''
          }) (\<lambda>_. do {
            row \<leftarrow> idx decode code_len;
            let decoded_symbol = (case search_code (pc_content code) row of
                None \<Rightarrow> None
              | Some index \<Rightarrow> map_option (\<lambda>leaf. unat (as_usize (snd leaf))) (idx row index));
            reject (decoded_symbol \<noteq> Some symbol) ''compressed wavelet-tree encode/decode tables disagree''
          }))"

definition wv_check_leaf :: "prefix_code list \<Rightarrow> nat \<Rightarrow> unit \<Rightarrow> u32 \<times> 'a::len word \<Rightarrow> (string + unit) option" where
  "wv_check_leaf encode code_len u leaf = (
     let (content, symbol) = leaf
     in rbind (ok_or (Some (idx encode (unat (as_usize symbol)))) ''compressed wavelet-tree decoder symbol is out of range'') (\<lambda>code.
        reject (unat (pc_len code) \<noteq> code_len \<or> pc_content code \<noteq> content) ''compressed wavelet-tree decode/encode tables disagree''))"

definition wv_check_codes :: "('a::len word, 'b) wavelet_tree \<Rightarrow> (string + unit) option" where
  "wv_check_codes self =
     rbind (reject (wv_sigma self \<noteq> None) ''compressed wavelet tree must not contain plain sigma metadata'') (\<lambda>_.
     rbind (ok_or (Some (wv_codes_encode self)) ''compressed wavelet tree is missing its encoder'') (\<lambda>encode.
     rbind (ok_or (Some (wv_codes_decode self)) ''compressed wavelet tree is missing its decoder'') (\<lambda>decode.
     rbind (reject (length decode \<noteq> wv_n_levels self + 1) ''compressed wavelet-tree decoder has the wrong depth'') (\<lambda>_.
     rbind (foldR (\<lambda>u row. reject (\<not> sorted_wrt (<) (map fst row)) ''compressed wavelet-tree decoder rows must be strictly sorted'')
       () decode) (\<lambda>_.
     rbind (foldR (wv_check_encoder (wv_n_levels self) decode) () (zip [0..<length encode] encode)) (\<lambda>_.
     foldR (\<lambda>u (code_len, row). foldR (wv_check_leaf encode code_len) () row) ()
       (drop 1 (zip [0..<length decode] decode))))))))"

definition wv_check_plain :: "('a::len word, 'b) wavelet_tree \<Rightarrow> (string + unit) option" where
  "wv_check_plain self =
     rbind (reject (wv_codes_encode self \<noteq> None \<or> wv_codes_decode self \<noteq> None) ''plain wavelet tree contains compressed-code metadata'') (\<lambda>_.
     rbind (ok_or (Some (wv_sigma self)) ''plain wavelet tree is missing sigma metadata'') (\<lambda>sigma.
     reject (wv_n_levels self \<noteq> msb_of sigma + 1) ''plain wavelet-tree sigma disagrees with its level count''))"

definition wv_validate_deserialized :: "'b bin_ops \<Rightarrow> bool \<Rightarrow> ('a::len word, 'b) wavelet_tree \<Rightarrow> (string + unit) option" where
  "wv_validate_deserialized B compressed self =
     rbind (reject (length (wv_bvs self) \<noteq> wv_n_levels self \<or> length (wv_lens self) \<noteq> wv_n_levels self)
       ''wavelet-tree level metadata has inconsistent lengths'') (\<lambda>_.
     if wv_n self = 0 then
       reject (wv_n_levels self \<noteq> 0 \<or> wv_bvs self \<noteq> [] \<or> wv_lens self \<noteq> [] \<or> wv_sigma self \<noteq> None
           \<or> wv_codes_encode self \<noteq> None \<or> wv_codes_decode self \<noteq> None)
         ''empty wavelet tree contains non-empty metadata''
     else
       let type_levels = LENGTH('a) div 8 * 8 in
       rbind (reject (wv_n_levels self = 0 \<or> wv_n_levels self > type_levels)
         ''wavelet-tree level count exceeds the symbol type width'') (\<lambda>_.
       rbind (reject (compressed \<and> wv_n_levels self > 32) ''compressed wavelet-tree code exceeds 32 bits'') (\<lambda>_.
       rbind (foldR (wv_check_level B compressed self) ()
         (zip [0..<length (wv_bvs self)] (zip (wv_bvs self) (wv_lens self)))) (\<lambda>_.
       rbind (reject (compressed \<and> idx (wv_lens self) 0 \<noteq> Some (wv_n self))
         ''compressed wavelet-tree first level must match the sequence length'') (\<lambda>_.
       rbind (if compressed then wv_check_codes self else wv_check_plain self) (\<lambda>_.
       rbind (foldR (\<lambda>actual_sigma index.
           rbind (ok_or (wv_get B compressed self index) ''wavelet-tree payload cannot decode every declared position'') (\<lambda>symbol.
           Some (Inr (max actual_sigma (unat (as_usize symbol)))))) 0 [0..<wv_n self]) (\<lambda>actual_sigma.
       reject (\<not> compressed \<and> (case wv_sigma self of None \<Rightarrow> True | Some sigma \<Rightarrow> unat (as_usize sigma) \<noteq> actual_sigma))
         ''plain wavelet-tree sigma disagrees with its encoded payload'')))))))"

definition wv_deserialize :: "'b bin_ops \<Rightarrow> bool \<Rightarrow> ('a::len word, 'b) wavelet_tree \<Rightarrow> (string + ('a word, 'b) wavelet_tree) option" where
  "wv_deserialize B compressed decoded = rbind (wv_validate_deserialized B compressed decoded) (\<lambda>_. Some (Inr decoded))"

section \<open>Rules\<close>

lemma qbind_simps [simp]:
  "qbind None k = None" "qbind (Some None) k = Some None" "qbind (Some (Some x)) k = k x"
  by (simp_all add: qbind_def)

lemma foldQ_append: "foldQ f s (xs @ ys) = qbind (foldQ f s xs) (\<lambda>s'. foldQ f s' ys)"
  by (induction xs arbitrary: s) (auto simp: qbind_def split: option.splits)

lemma foldQ_upt_value:
  assumes "\<And>k. k < n \<Longrightarrow> f (g k) k = Some (Some (g (Suc k)))"
  shows "foldQ f (g 0) [0..<n] = Some (Some (g n))"
  using assms by (induction n) (auto simp: foldQ_append)

end
