(* ===== verification/CodeMatrix.thy ===== *)
theory CodeMatrix
  imports WaveletMatrix
begin

text \<open>
  The wavelet matrix of a variable-length code: element \<open>x\<close> has a code of \<open>len x\<close> digits below \<open>b\<close>,
  the first is \<open>dg 0 x\<close>. Level \<open>l\<close> holds the elements whose code is longer than \<open>l\<close>; the next level is its
  stable partition by the current digit, without the elements whose code ends. The position of an
  element in that partition is its position in the next level only if the elements that end come last,
  which is a property of the code (\<open>cm_ok\<close>): read with the last digit as the most significant one,
  a code is greater than the prefixes of the same length of longer codes. Codes of equal length satisfy
  it trivially, so the plain trees are an instance.
\<close>

section \<open>Levels\<close>

fun cm_level :: "(nat \<Rightarrow> 'a \<Rightarrow> nat) \<Rightarrow> ('a \<Rightarrow> nat) \<Rightarrow> nat \<Rightarrow> 'a list \<Rightarrow> nat \<Rightarrow> 'a list" where
  "cm_level dg len b xs 0 = xs"
| "cm_level dg len b xs (Suc l) = filter (\<lambda>x. Suc l < len x) (buckets (dg l) b (cm_level dg len b xs l))"

definition cm_digits :: "(nat \<Rightarrow> 'a \<Rightarrow> nat) \<Rightarrow> ('a \<Rightarrow> nat) \<Rightarrow> nat \<Rightarrow> 'a list \<Rightarrow> nat \<Rightarrow> nat list" where
  "cm_digits dg len b xs l = map (dg l) (cm_level dg len b xs l)"

text \<open>The first \<open>l\<close> digits as a number, the last of them the most significant.\<close>

fun cm_key :: "(nat \<Rightarrow> 'a \<Rightarrow> nat) \<Rightarrow> nat \<Rightarrow> nat \<Rightarrow> 'a \<Rightarrow> nat" where
  "cm_key dg b 0 x = 0"
| "cm_key dg b (Suc l) x = cm_key dg b l x + dg l x * b ^ l"

definition cm_ok :: "(nat \<Rightarrow> 'a \<Rightarrow> nat) \<Rightarrow> ('a \<Rightarrow> nat) \<Rightarrow> nat \<Rightarrow> 'a list \<Rightarrow> bool" where
  "cm_ok dg len b xs \<longleftrightarrow> (\<forall>x\<in>set xs. 0 < len x) \<and> (\<forall>l. \<forall>x\<in>set xs. dg l x < b)
     \<and> (\<forall>x\<in>set xs. \<forall>y\<in>set xs. len x < len y \<longrightarrow> cm_key dg b (len x) y < cm_key dg b (len x) x)
     \<and> (\<forall>x\<in>set xs. \<forall>y\<in>set xs. len x = len y \<and> cm_key dg b (len x) x = cm_key dg b (len x) y \<longrightarrow> x = y)"

lemma cm_okD:
  assumes "cm_ok dg len b xs" "x \<in> set xs"
  shows "0 < len x" "dg l x < b"
    "y \<in> set xs \<Longrightarrow> len x < len y \<Longrightarrow> cm_key dg b (len x) y < cm_key dg b (len x) x"
    "y \<in> set xs \<Longrightarrow> len x = len y \<Longrightarrow> cm_key dg b (len x) x = cm_key dg b (len x) y \<Longrightarrow> x = y"
  using assms by (auto simp: cm_ok_def)

lemma cm_key_less: "(\<And>t. t < l \<Longrightarrow> dg t x < b) \<Longrightarrow> cm_key dg b l x < b ^ l"
proof (induction l)
  case (Suc l)
  have "Suc (dg l x) * b ^ l \<le> b * b ^ l" using Suc.prems [of l] by (intro mult_le_mono1) simp
  moreover have "cm_key dg b l x < b ^ l" using Suc by simp
  ultimately show ?case by simp
qed simp

lemma cm_key_Suc_iff:
  assumes "\<And>t. dg t x < b" "v < b ^ l" "d < b"
  shows "cm_key dg b (Suc l) x = v + d * b ^ l \<longleftrightarrow> cm_key dg b l x = v \<and> dg l x = d"
proof -
  have k: "cm_key dg b l x < b ^ l" by (rule cm_key_less) (rule assms(1))
  have pos: "0 < b ^ l" using assms(2) by (rule le_less_trans [OF le0])
  have "p + q * b ^ l = v + d * b ^ l \<longleftrightarrow> p = v \<and> q = d" if "p < b ^ l" for p q
  proof
    assume eq: "p + q * b ^ l = v + d * b ^ l"
    then have "(p + q * b ^ l) mod b ^ l = (v + d * b ^ l) mod b ^ l" by simp
    then have "p = v" using that assms(2) by simp
    then show "p = v \<and> q = d" using eq pos by auto
  qed simp
  then show ?thesis using k by simp
qed

lemma set_cm_level:
  assumes "cm_ok dg len b xs"
  shows "set (cm_level dg len b xs l) = {x \<in> set xs. l < len x}"
proof (induction l)
  case (Suc l)
  have "\<forall>x\<in>set (cm_level dg len b xs l). dg l x < b" using Suc cm_okD(2) [OF assms] by simp
  then show ?case using Suc by (auto simp: set_buckets)
qed (use cm_okD(1) [OF assms] in auto)

lemma cm_digit_less: "cm_ok dg len b xs \<Longrightarrow> x \<in> set (cm_level dg len b xs l) \<Longrightarrow> dg l x < b"
  using set_cm_level cm_okD(2) by fastforce

lemma length_cm_digits [simp]: "length (cm_digits dg len b xs l) = length (cm_level dg len b xs l)"
  by (simp add: cm_digits_def)

lemma cm_digits_less: "cm_ok dg len b xs \<Longrightarrow> d \<in> set (cm_digits dg len b xs l) \<Longrightarrow> d < b"
  using cm_digit_less by (fastforce simp: cm_digits_def)

lemma length_level_buckets:
  "cm_ok dg len b xs \<Longrightarrow> length (buckets (dg l) b (cm_level dg len b xs l)) = length (cm_level dg len b xs l)"
  by (intro length_buckets ballI) (rule cm_digit_less)

section \<open>The elements that end come last\<close>

lemma sorted_buckets:
  assumes "sorted (map k xs)" "\<forall>x\<in>set xs. k x < m" "\<forall>x\<in>set xs. f x < b"
  shows "sorted (map (\<lambda>x. k x + f x * m) (buckets f b xs))"
proof -
  have "sorted (map (\<lambda>x. k x + f x * m) (concat (map (\<lambda>c. filter (\<lambda>x. f x = c) xs) [0..<n])))" for n
  proof (induction n)
    case (Suc n)
    have srt: "sorted (map (\<lambda>x. k x + f x * m) (filter (\<lambda>x. f x = n) xs))"
    proof -
      have "map (\<lambda>x. k x + f x * m) (filter (\<lambda>x. f x = n) xs) = map (\<lambda>y. y + n * m) (map k (filter (\<lambda>x. f x = n) xs))" by simp
      moreover have "sorted (map k (filter (\<lambda>x. f x = n) xs))" using assms(1) by (rule sorted_filter)
      then have "sorted (map (\<lambda>y. y + n * m) (map k (filter (\<lambda>x. f x = n) xs)))" by (simp add: sorted_wrt_map)
      ultimately show ?thesis by (simp only:)
    qed
    have "k x + f x * m \<le> k y + f y * m" if "x \<in> set xs" "f x < n" "f y = n" for x y
    proof -
      have "Suc (f x) * m \<le> n * m" using that(2) by (intro mult_le_mono1) simp
      then show ?thesis using assms(2) that by fastforce
    qed
    then show ?case using Suc srt by (auto simp: sorted_append)
  qed simp
  then show ?thesis by (simp add: buckets_def)
qed

lemma cm_sorted:
  assumes "cm_ok dg len b xs"
  shows "sorted (map (cm_key dg b l) (cm_level dg len b xs l))"
    "sorted (map (cm_key dg b (Suc l)) (buckets (dg l) b (cm_level dg len b xs l)))"
proof -
  have b: "sorted (map (cm_key dg b (Suc l)) (buckets (dg l) b (cm_level dg len b xs l)))"
    if "sorted (map (cm_key dg b l) (cm_level dg len b xs l))" for l
  proof -
    have "cm_key dg b l x < b ^ l" if "x \<in> set (cm_level dg len b xs l)" for x
      using that set_cm_level [OF assms] cm_okD(2) [OF assms] by (intro cm_key_less) auto
    moreover have "cm_key dg b (Suc l) = (\<lambda>x. cm_key dg b l x + dg l x * b ^ l)" by (rule ext) simp
    ultimately show ?thesis using sorted_buckets [OF that, of "b ^ l" "dg l" b] cm_digit_less [OF assms] by simp
  qed
  show a: "sorted (map (cm_key dg b l) (cm_level dg len b xs l))"
  proof (induction l)
    case 0
    have "map (\<lambda>x. 0 :: nat) xs = replicate (length xs) 0" by (induction xs) simp_all
    then show ?case by (simp add: sorted_replicate)
  next
    case (Suc l)
    then show ?case using sorted_filter [OF b [OF Suc]] by (simp only: cm_level.simps)
  qed
  show "sorted (map (cm_key dg b (Suc l)) (buckets (dg l) b (cm_level dg len b xs l)))" by (rule b [OF a])
qed

lemma filter_split:
  assumes "\<And>i j. i < j \<Longrightarrow> j < length ys \<Longrightarrow> P (ys ! j) \<Longrightarrow> P (ys ! i)"
  shows "ys = filter P ys @ filter (\<lambda>x. \<not> P x) ys"
  using assms
proof (induction ys)
  case (Cons y ys)
  have IH: "ys = filter P ys @ filter (\<lambda>x. \<not> P x) ys"
    by (rule Cons.IH) (use Cons.prems [of "Suc i" "Suc j" for i j] in simp)
  show ?case
  proof (cases "P y")
    case False
    then have "\<not> P x" if "x \<in> set ys" for x
    proof -
      from that obtain j where "j < length ys" "ys ! j = x" by (auto simp: in_set_conv_nth)
      then show ?thesis using Cons.prems [of 0 "Suc j"] False by auto
    qed
    then have "filter P ys = []" "filter (\<lambda>x. \<not> P x) ys = ys" by (auto simp: filter_empty_conv filter_id_conv)
    then show ?thesis using False by simp
  qed (use IH in simp)
qed simp

text \<open>The next level is a prefix of the partition.\<close>

lemma cm_level_prefix:
  fixes dg :: "nat \<Rightarrow> 'a \<Rightarrow> nat"
  assumes ok: "cm_ok dg len b xs"
  defines "B \<equiv> \<lambda>l. buckets (dg l) b (cm_level dg len b xs l)"
  shows "B l = cm_level dg len b xs (Suc l) @ filter (\<lambda>x. len x = Suc l) (B l)"
proof -
  let ?k = "cm_key dg b (Suc l)"
  have set: "set (B l) = {x \<in> set xs. l < len x}"
    unfolding B_def using set_buckets [of "cm_level dg len b xs l" "dg l" b] cm_digit_less [OF ok] set_cm_level [OF ok] by auto
  have "B l = filter (\<lambda>x. Suc l < len x) (B l) @ filter (\<lambda>x. \<not> Suc l < len x) (B l)"
  proof (rule filter_split)
    fix i j assume ij: "i < j" "j < length (B l)" "Suc l < len (B l ! j)"
    show "Suc l < len (B l ! i)"
    proof (rule ccontr)
      have m: "B l ! i \<in> set xs" "l < len (B l ! i)" "B l ! j \<in> set xs" using set ij nth_mem [of i "B l"] nth_mem [of j "B l"] by auto
      assume "\<not> Suc l < len (B l ! i)"
      then have "len (B l ! i) = Suc l" using m by simp
      then have "?k (B l ! j) < ?k (B l ! i)" using cm_okD(3) [OF ok m(1,3)] ij(3) by simp
      moreover have "?k (B l ! i) \<le> ?k (B l ! j)"
        using cm_sorted(2) [OF ok, of l] ij(1,2) unfolding B_def by (simp add: sorted_iff_nth_mono del: cm_key.simps)
      ultimately show False by simp
    qed
  qed
  moreover have "filter (\<lambda>x. \<not> Suc l < len x) (B l) = filter (\<lambda>x. len x = Suc l) (B l)"
    by (rule filter_cong) (use set in auto)
  moreover have "cm_level dg len b xs (Suc l) = filter (\<lambda>x. Suc l < len x) (B l)" by (simp add: B_def)
  ultimately show ?thesis by simp
qed

lemma cm_level_in_buckets:
  assumes "cm_ok dg len b xs" "e \<le> length (cm_level dg len b xs (Suc l))"
  shows "slice (buckets (dg l) b (cm_level dg len b xs l)) s e = slice (cm_level dg len b xs (Suc l)) s e"
  by (subst cm_level_prefix [OF assms(1)]) (use assms(2) in \<open>simp add: slice_def del: cm_level.simps\<close>)

section \<open>Following one position\<close>

lemma cm_descend:
  assumes ok: "cm_ok dg len b xs" and p: "p < length (cm_level dg len b xs l)"
  defines "D \<equiv> cm_digits dg len b xs l" and "x \<equiv> cm_level dg len b xs l ! p"
  defines "q \<equiv> smaller_of D (D ! p) + rank_of D (D ! p) p"
  shows "D ! p = dg l x" "q < length (cm_level dg len b xs l)"
    "q < length (cm_level dg len b xs (Suc l)) \<longleftrightarrow> Suc l < len x"
    "Suc l < len x \<Longrightarrow> cm_level dg len b xs (Suc l) ! q = x"
proof -
  let ?A = "cm_level dg len b xs l" let ?A' = "cm_level dg len b xs (Suc l)" let ?B = "buckets (dg l) b ?A"
  show d: "D ! p = dg l x" using p by (simp add: D_def cm_digits_def x_def)
  have xA: "x \<in> set ?A" using p by (simp add: x_def)
  then have db: "dg l x < b" by (rule cm_digit_less [OF ok])
  have "smaller_of D (D ! p) + rank_of D (D ! p) (Suc p) \<le> length ?A"
    unfolding d unfolding D_def cm_digits_def by (rule rank_step_le) (use p db cm_digit_less [OF ok] in auto)
  then show q: "q < length ?A" using p by (simp add: q_def rank_of_Suc D_def)
  have Bq: "?B ! q = x"
    using nth_buckets [OF db p, of "dg l"] unfolding q_def d unfolding D_def cm_digits_def by (simp add: x_def)
  note pre = cm_level_prefix [OF ok, of l]
  have len: "length ?B = length ?A" by (rule length_level_buckets [OF ok])
  show iff: "q < length ?A' \<longleftrightarrow> Suc l < len x"
  proof
    assume lt: "q < length ?A'"
    then have "?A' ! q = x" using Bq by (subst (asm) pre) (simp add: nth_append del: cm_level.simps)
    then have "x \<in> set ?A'" using lt nth_mem by fastforce
    then show "Suc l < len x" using set_cm_level [OF ok] by auto
  next
    assume l: "Suc l < len x"
    show "q < length ?A'"
    proof (rule ccontr)
      assume n: "\<not> q < length ?A'"
      then have "filter (\<lambda>x. len x = Suc l) ?B ! (q - length ?A') = x" using Bq by (subst (asm) pre) (simp add: nth_append del: cm_level.simps)
      moreover have "q - length ?A' < length (filter (\<lambda>x. len x = Suc l) ?B)"
        using q len arg_cong [OF pre, of length] n by (simp del: cm_level.simps)
      ultimately have "x \<in> set (filter (\<lambda>x. len x = Suc l) ?B)" using nth_mem by fastforce
      then show False using l by simp
    qed
  qed
  show "?A' ! q = x" if "Suc l < len x"
    using Bq iff that by (subst (asm) pre) (simp add: nth_append del: cm_level.simps)
qed

section \<open>Nodes\<close>

text \<open>
  The elements of \<open>ys\<close> whose first \<open>l\<close> digits are those of \<open>v\<close> occupy the interval from \<open>s\<close> to \<open>e\<close> of
  level \<open>l\<close>, in their order.
\<close>

definition cm_part :: "(nat \<Rightarrow> 'a \<Rightarrow> nat) \<Rightarrow> nat \<Rightarrow> nat \<Rightarrow> nat \<Rightarrow> 'a list \<Rightarrow> 'a list" where
  "cm_part dg b l v ys = filter (\<lambda>x. cm_key dg b l x = v) ys"

definition cm_node :: "(nat \<Rightarrow> 'a \<Rightarrow> nat) \<Rightarrow> ('a \<Rightarrow> nat) \<Rightarrow> nat \<Rightarrow> 'a list \<Rightarrow> 'a list \<Rightarrow> nat \<Rightarrow> nat \<Rightarrow> nat \<Rightarrow> nat \<Rightarrow> bool" where
  "cm_node dg len b xs ys l v s e \<longleftrightarrow> s \<le> e \<and> e \<le> length (cm_level dg len b xs l)
     \<and> slice (cm_level dg len b xs l) s e = cm_part dg b l v ys"

lemma cm_node_root: "s \<le> e \<Longrightarrow> e \<le> length xs \<Longrightarrow> cm_node dg len b xs (slice xs s e) 0 0 s e"
  by (simp add: cm_node_def cm_part_def)

lemma cm_node_size: "cm_node dg len b xs ys l v s e \<Longrightarrow> length (cm_part dg b l v ys) = e - s"
  by (metis cm_node_def length_slice)

lemma cm_part_Suc:
  assumes "cm_ok dg len b xs" "set ys \<subseteq> set xs" "v < b ^ l" "d < b"
  shows "cm_part dg b (Suc l) (v + d * b ^ l) ys = filter (\<lambda>x. dg l x = d) (cm_part dg b l v ys)"
proof -
  have "cm_key dg b (Suc l) x = v + d * b ^ l \<longleftrightarrow> cm_key dg b l x = v \<and> dg l x = d" if "x \<in> set ys" for x
  proof -
    have "x \<in> set xs" using that assms(2) by blast
    from cm_key_Suc_iff [of dg x, OF cm_okD(2) [OF assms(1) this] assms(3,4)] show ?thesis .
  qed
  then show ?thesis unfolding cm_part_def filter_filter by (intro filter_cong) auto
qed

text \<open>The interval of a child, first in the partition of the level, then in the next level.\<close>

lemma cm_child_slice:
  assumes ok: "cm_ok dg len b xs" and node: "cm_node dg len b xs ys l v s e" and ys: "set ys \<subseteq> set xs" and v: "v < b ^ l" "d < b"
  defines "D \<equiv> cm_digits dg len b xs l"
  shows "slice (buckets (dg l) b (cm_level dg len b xs l)) (smaller_of D d + rank_of D d s) (smaller_of D d + rank_of D d e)
      = cm_part dg b (Suc l) (v + d * b ^ l) ys"
    "rank_of D d s \<le> rank_of D d e" "smaller_of D d + rank_of D d e \<le> length (cm_level dg len b xs l)"
    "rank_of D d e = rank_of D d s + length (cm_part dg b (Suc l) (v + d * b ^ l) ys)"
proof -
  have se: "s \<le> e" "e \<le> length (cm_level dg len b xs l)" using node by (simp_all add: cm_node_def)
  show mono: "rank_of D d s \<le> rank_of D d e" using se(1) by (rule rank_of_mono)
  show le: "smaller_of D d + rank_of D d e \<le> length (cm_level dg len b xs l)"
    unfolding D_def cm_digits_def by (rule rank_step_le) (use se(2) v(2) cm_digit_less [OF ok] in auto)
  show slc: "slice (buckets (dg l) b (cm_level dg len b xs l)) (smaller_of D d + rank_of D d s) (smaller_of D d + rank_of D d e)
      = cm_part dg b (Suc l) (v + d * b ^ l) ys"
    using slice_buckets [OF v(2) se, of "dg l"] node cm_part_Suc [OF ok ys v]
    by (simp add: D_def cm_digits_def cm_node_def del: cm_key.simps)
  show "rank_of D d e = rank_of D d s + length (cm_part dg b (Suc l) (v + d * b ^ l) ys)"
    using arg_cong [OF slc, of length] le mono length_level_buckets [OF ok, of l] by (simp add: length_slice)
qed

lemma cm_node_child:
  assumes ok: "cm_ok dg len b xs" and node: "cm_node dg len b xs ys l v s e" and ys: "set ys \<subseteq> set xs" and v: "v < b ^ l" "d < b"
  defines "D \<equiv> cm_digits dg len b xs l"
  assumes fit: "smaller_of D d + rank_of D d e \<le> length (cm_level dg len b xs (Suc l))"
  shows "cm_node dg len b xs ys (Suc l) (v + d * b ^ l) (smaller_of D d + rank_of D d s) (smaller_of D d + rank_of D d e)"
  using cm_child_slice [OF ok node ys v] fit cm_level_in_buckets [OF ok fit]
  by (simp add: cm_node_def D_def del: cm_level.simps)

text \<open>A nonempty slice of elements that do not end lies in the next level.\<close>

lemma cm_slice_fits:
  assumes ok: "cm_ok dg len b xs" and se: "s < e" "e \<le> length (cm_level dg len b xs l)"
    and long: "\<forall>x\<in>set (slice (buckets (dg l) b (cm_level dg len b xs l)) s e). Suc l < len x"
  shows "e \<le> length (cm_level dg len b xs (Suc l))"
proof (rule ccontr)
  let ?B = "buckets (dg l) b (cm_level dg len b xs l)" let ?A' = "cm_level dg len b xs (Suc l)"
  assume n: "\<not> e \<le> length ?A'"
  then have n': "\<not> e - 1 < length ?A'" by linarith
  have len: "length ?B = length (cm_level dg len b xs l)" by (rule length_level_buckets [OF ok])
  have "slice ?B s e ! (e - 1 - s) = ?B ! (e - 1)" using se len by (subst nth_slice) auto
  moreover have "e - 1 - s < length (slice ?B s e)" using se len by (simp add: length_slice)
  ultimately have "?B ! (e - 1) \<in> set (slice ?B s e)" using nth_mem by fastforce
  then have "Suc l < len (?B ! (e - 1))" using long by blast
  moreover have "?B ! (e - 1) \<in> set (filter (\<lambda>x. len x = Suc l) ?B)"
  proof -
    note pre = cm_level_prefix [OF ok, of l]
    have "?B ! (e - 1) = filter (\<lambda>x. len x = Suc l) ?B ! (e - 1 - length ?A')"
      using n' by (subst pre) (simp add: nth_append del: cm_level.simps)
    moreover have "e - 1 - length ?A' < length (filter (\<lambda>x. len x = Suc l) ?B)"
      using se len arg_cong [OF pre, of length] n by (simp del: cm_level.simps)
    ultimately show ?thesis using nth_mem by fastforce
  qed
  ultimately show False by simp
qed

section \<open>The path of a code\<close>

text \<open>Where position \<open>p\<close> of the sequence is at level \<open>l\<close> when it follows the digits of \<open>c\<close>.\<close>

fun cm_pos :: "(nat \<Rightarrow> 'a \<Rightarrow> nat) \<Rightarrow> ('a \<Rightarrow> nat) \<Rightarrow> nat \<Rightarrow> 'a list \<Rightarrow> 'a \<Rightarrow> nat \<Rightarrow> nat \<Rightarrow> nat" where
  "cm_pos dg len b xs c 0 p = p"
| "cm_pos dg len b xs c (Suc l) p = smaller_of (cm_digits dg len b xs l) (dg l c)
     + rank_of (cm_digits dg len b xs l) (dg l c) (cm_pos dg len b xs c l p)"

text \<open>
  The elements whose path stays inside the levels: those of the sequence, and, when all codes have one
  length, any other element with its own code.
\<close>

definition cm_fits :: "(nat \<Rightarrow> 'a \<Rightarrow> nat) \<Rightarrow> ('a \<Rightarrow> nat) \<Rightarrow> nat \<Rightarrow> 'a list \<Rightarrow> 'a \<Rightarrow> bool" where
  "cm_fits dg len b xs c \<longleftrightarrow> 0 < len c \<and> (\<forall>l. dg l c < b) \<and>
     (c \<in> set xs \<or> (\<forall>x\<in>set xs. len x = len c \<and> (cm_key dg b (len c) x = cm_key dg b (len c) c \<longrightarrow> x = c)))"

lemma cm_fitsI: "cm_ok dg len b xs \<Longrightarrow> c \<in> set xs \<Longrightarrow> cm_fits dg len b xs c"
  using cm_okD(1,2) by (auto simp: cm_fits_def)

lemma cm_key_prefix:
  assumes "\<And>t. dg t x < b" "\<And>t. dg t y < b" "cm_key dg b m x = cm_key dg b m y" "l \<le> m"
  shows "cm_key dg b l x = cm_key dg b l y"
  using assms(3,4)
proof (induction m)
  case (Suc m)
  have "cm_key dg b m y < b ^ m" by (rule cm_key_less) (rule assms(2))
  then have "cm_key dg b m x = cm_key dg b m y"
    using cm_key_Suc_iff [of dg x b "cm_key dg b m y" m "dg m y"] assms(1,2) Suc.prems(1) by simp
  then show ?case using Suc by (cases "l = Suc m") auto
qed simp

lemma cm_pos_mono: "p \<le> q \<Longrightarrow> cm_pos dg len b xs c l p \<le> cm_pos dg len b xs c l q"
  by (induction l) (simp_all add: rank_of_mono)

text \<open>An element that shares a prefix with a longer code does not end there.\<close>

lemma cm_shared_prefix:
  assumes ok: "cm_ok dg len b xs" and fits: "cm_fits dg len b xs c" and x: "x \<in> set xs"
    and key: "cm_key dg b l x = cm_key dg b l c" and l: "l \<le> len c" "l \<le> len x"
  shows "l < len c \<Longrightarrow> l < len x" "l = len c \<Longrightarrow> x = c"
proof -
  note c = fits [unfolded cm_fits_def]
  show "l < len x" if "l < len c"
  proof (rule ccontr)
    assume "\<not> l < len x"
    then have lx: "l = len x" using l by simp
    show False
    proof (cases "c \<in> set xs")
      case True
      then show False using cm_okD(3) [OF ok x True] that lx key by simp
    next
      case False
      then have "len x = len c" using c x by blast
      then show False using that lx by simp
    qed
  qed
  show "x = c" if lc: "l = len c"
  proof (cases "c \<in> set xs")
    case True
    have "\<not> len c < len x" using cm_okD(3) [OF ok True x] key unfolding lc by linarith
    then have "len x = len c" using l lc by simp
    then show ?thesis using cm_okD(4) [OF ok x True] key lc by simp
  next
    case False
    then have "cm_key dg b (len c) x = cm_key dg b (len c) c \<longrightarrow> x = c" using c x by blast
    then show ?thesis using key lc by simp
  qed
qed

lemma cm_path_node:
  assumes ok: "cm_ok dg len b xs" and fits: "cm_fits dg len b xs c" and i: "i \<le> length xs" and l: "l < len c"
  shows "cm_node dg len b xs (take i xs) l (cm_key dg b l c) (cm_pos dg len b xs c l 0) (cm_pos dg len b xs c l i)"
  using i l
proof (induction l arbitrary: i)
  case 0
  then show ?case using cm_node_root [of 0 i xs dg len b] by (simp add: slice_0)
next
  case (Suc l)
  let ?A = "cm_level dg len b xs" and ?D = "cm_digits dg len b xs l" and ?d = "dg l c"
  let ?s = "cm_pos dg len b xs c l 0" and ?e = "cm_pos dg len b xs c l i" and ?E = "cm_pos dg len b xs c l (length xs)"
  have dg: "dg t c < b" for t using fits by (simp add: cm_fits_def)
  have v: "cm_key dg b l c < b ^ l" by (rule cm_key_less) (rule dg)
  have node: "cm_node dg len b xs (take i xs) l (cm_key dg b l c) ?s ?e" using Suc by simp
  have full: "cm_node dg len b xs xs l (cm_key dg b l c) ?s ?E" using Suc.IH [of "length xs"] Suc.prems(2) by simp
  note cs = cm_child_slice [OF ok full subset_refl v dg [of l]]
  have "smaller_of ?D ?d + rank_of ?D ?d ?E \<le> length (?A (Suc l))"
  proof (cases "c \<in> set xs")
    case True
    let ?S = "slice (buckets (dg l) b (?A l)) (smaller_of ?D ?d + rank_of ?D ?d ?s) (smaller_of ?D ?d + rank_of ?D ?d ?E)"
    have S: "?S = cm_part dg b (Suc l) (cm_key dg b (Suc l) c) xs" using cs(1) by simp
    have mem: "x \<in> set xs \<and> cm_key dg b (Suc l) x = cm_key dg b (Suc l) c \<and> l < len x" if "x \<in> set ?S" for x
    proof -
      have "x \<in> set (buckets (dg l) b (?A l))" using that by (auto simp: slice_def dest: in_set_takeD in_set_dropD)
      then have "x \<in> set (?A l)" using set_buckets [of "?A l" "dg l" b] cm_digit_less [OF ok] by blast
      then have "l < len x" using set_cm_level [OF ok] by auto
      then show ?thesis using that unfolding S cm_part_def by (simp del: cm_key.simps)
    qed
    have long: "\<forall>x\<in>set ?S. Suc l < len x"
    proof
      fix x assume "x \<in> set ?S"
      note m = mem [OF this]
      have "Suc l \<le> len x" "Suc l \<le> len c" using m Suc.prems(2) by simp_all
      then show "Suc l < len x" using cm_shared_prefix(1) [OF ok fits, of x "Suc l"] m Suc.prems(2) by blast
    qed
    have "c \<in> set ?S" using True unfolding S cm_part_def by simp
    then have "0 < length ?S" by (rule length_pos_if_in_set)
    then have ne: "smaller_of ?D ?d + rank_of ?D ?d ?s < smaller_of ?D ?d + rank_of ?D ?d ?E" by (simp add: slice_def)
    show ?thesis by (rule cm_slice_fits [OF ok ne cs(3) long])
  next
    case False
    then have same: "\<forall>x\<in>set xs. len x = len c" using fits by (auto simp: cm_fits_def)
    have "set (buckets (dg l) b (?A l)) = set (?A l)" by (rule set_buckets) (use cm_digit_less [OF ok] in blast)
    then have "filter (\<lambda>x. len x = Suc l) (buckets (dg l) b (?A l)) = []"
      using set_cm_level [OF ok, of l] same Suc.prems(2) by (auto simp: filter_empty_conv)
    then have "length (?A (Suc l)) = length (?A l)"
      using arg_cong [OF cm_level_prefix [OF ok, of l], of length] length_level_buckets [OF ok, of l] by (simp del: cm_level.simps)
    then show ?thesis using cs(3) by simp
  qed
  moreover have "rank_of ?D ?d ?e \<le> rank_of ?D ?d ?E" using Suc.prems(1) by (intro rank_of_mono cm_pos_mono)
  ultimately have fit: "smaller_of ?D ?d + rank_of ?D ?d ?e \<le> length (?A (Suc l))" by (meson add_left_mono le_trans)
  have "set (take i xs) \<subseteq> set xs" by (rule set_take_subset)
  then show ?case using cm_node_child [OF ok node _ v dg fit] by simp
qed

text \<open>The occurrences of an element are what its path counts on its last level.\<close>

lemma cm_part_leaf:
  assumes ok: "cm_ok dg len b xs" and fits: "cm_fits dg len b xs c" and ys: "set ys \<subseteq> set xs"
  shows "cm_part dg b (len c) (cm_key dg b (len c) c) ys = filter (\<lambda>x. x = c) ys"
  unfolding cm_part_def
proof (rule filter_cong [OF refl])
  fix x assume "x \<in> set ys"
  then have x: "x \<in> set xs" using ys by blast
  show "cm_key dg b (len c) x = cm_key dg b (len c) c \<longleftrightarrow> x = c"
  proof
    assume key: "cm_key dg b (len c) x = cm_key dg b (len c) c"
    have dg: "dg t x < b" "dg t c < b" for t using cm_okD(2) [OF ok x] fits by (simp_all add: cm_fits_def)
    have "len c \<le> len x"
    proof (rule ccontr)
      assume "\<not> len c \<le> len x"
      then have lt: "len x < len c" by simp
      have "cm_key dg b (len x) x = cm_key dg b (len x) c" by (rule cm_key_prefix [OF dg key]) (use lt in simp)
      then show False using cm_shared_prefix(1) [OF ok fits x, of "len x"] lt by simp
    qed
    then show "x = c" using cm_shared_prefix(2) [OF ok fits x key] by simp
  qed simp
qed

lemma cm_path_rank:
  assumes ok: "cm_ok dg len b xs" and fits: "cm_fits dg len b xs c" and i: "i \<le> length xs" and l: "len c = Suc l"
  defines "D \<equiv> cm_digits dg len b xs l"
  shows "rank_of D (dg l c) (cm_pos dg len b xs c l i) = rank_of D (dg l c) (cm_pos dg len b xs c l 0) + count_list (take i xs) c"
proof -
  have dg: "dg t c < b" for t using fits by (simp add: cm_fits_def)
  have v: "cm_key dg b l c < b ^ l" by (rule cm_key_less) (rule dg)
  have node: "cm_node dg len b xs (take i xs) l (cm_key dg b l c) (cm_pos dg len b xs c l 0) (cm_pos dg len b xs c l i)"
    by (rule cm_path_node [OF ok fits i]) (simp add: l)
  have t: "set (take i xs) \<subseteq> set xs" by (rule set_take_subset)
  have "cm_part dg b (Suc l) (cm_key dg b l c + dg l c * b ^ l) (take i xs) = filter (\<lambda>x. x = c) (take i xs)"
    using cm_part_leaf [OF ok fits t] l by simp
  moreover have "length (filter (\<lambda>x. x = c) ys) = count_list ys c" for ys by (induction ys) auto
  ultimately show ?thesis using cm_child_slice(4) [OF ok node t v dg] by (simp add: D_def)
qed

text \<open>The path of an element from its own position, until its code ends.\<close>

lemma cm_path_element:
  assumes ok: "cm_ok dg len b xs" and i: "i < length xs"
  defines "x \<equiv> xs ! i"
  shows "l < len x \<Longrightarrow> cm_pos dg len b xs x l i < length (cm_level dg len b xs l) \<and> cm_level dg len b xs l ! cm_pos dg len b xs x l i = x"
    "length (cm_level dg len b xs (len x)) \<le> cm_pos dg len b xs x (len x) i"
proof -
  have x: "x \<in> set xs" using i by (simp add: x_def)
  have run: "cm_pos dg len b xs x l i < length (cm_level dg len b xs l) \<and> cm_level dg len b xs l ! cm_pos dg len b xs x l i = x"
    if "l < len x" for l
    using that
  proof (induction l)
    case (Suc l)
    then have p: "cm_pos dg len b xs x l i < length (cm_level dg len b xs l)" "cm_level dg len b xs l ! cm_pos dg len b xs x l i = x" by simp_all
    then show ?case using cm_descend [OF ok p(1)] Suc.prems by (simp del: cm_level.simps)
  qed (use i in \<open>simp add: x_def\<close>)
  then show "l < len x \<Longrightarrow> cm_pos dg len b xs x l i < length (cm_level dg len b xs l) \<and> cm_level dg len b xs l ! cm_pos dg len b xs x l i = x" .
  obtain m where m: "len x = Suc m" using cm_okD(1) [OF ok x] by (cases "len x") auto
  have p: "cm_pos dg len b xs x m i < length (cm_level dg len b xs m)" "cm_level dg len b xs m ! cm_pos dg len b xs x m i = x"
    using run [of m] m by simp_all
  show "length (cm_level dg len b xs (len x)) \<le> cm_pos dg len b xs x (len x) i"
    using cm_descend(1,3) [OF ok p(1)] p(2) m by (simp del: cm_level.simps)
qed

section \<open>Back from a child\<close>

lemma nth_cm_digits: "p < length (cm_level dg len b xs l) \<Longrightarrow> cm_digits dg len b xs l ! p = dg l (cm_level dg len b xs l ! p)"
  by (simp add: cm_digits_def)

lemma cm_select_inside:
  assumes ok: "cm_ok dg len b xs" and node: "cm_node dg len b xs ys l v s e" and ys: "set ys \<subseteq> set xs" and v: "v < b ^ l" "d < b"
    and k: "k < length (cm_part dg b (Suc l) (v + d * b ^ l) ys)"
  defines "N \<equiv> cm_part dg b l v ys"
  obtains q where "select_of (cm_digits dg len b xs l) d (rank_of (cm_digits dg len b xs l) d s + k) = Some (s + q)"
    "q < length N" "dg l (N ! q) = d" "k = length (filter (\<lambda>x. dg l x = d) (take q N))"
proof -
  let ?f = "\<lambda>x. dg l x = d" and ?A = "cm_level dg len b xs l"
  have N': "cm_part dg b (Suc l) (v + d * b ^ l) ys = filter ?f N" unfolding N_def by (rule cm_part_Suc [OF ok ys v])
  obtain q where q: "q < length N" "?f (N ! q)" "k = length (filter ?f (take q N))"
    using k unfolding N' by (rule filter_position)
  have slc: "slice ?A s e = N" and se: "s \<le> e" "e \<le> length ?A" using node by (simp_all add: cm_node_def N_def)
  have size: "length N = e - s" using cm_node_size [OF node] by (simp add: N_def)
  have sq: "s + q < length ?A" using q(1) size se by simp
  have "slice ?A s (s + q) = take q (slice ?A s e)" using q(1) size by (simp add: slice_def min_def)
  then have "rank_of (cm_digits dg len b xs l) d (s + q) = rank_of (cm_digits dg len b xs l) d s + k"
    using rank_of_slice [of s q ?A "dg l" d] sq q(3) by (simp add: cm_digits_def slc)
  moreover have "?A ! (s + q) = N ! q" using nth_slice [of e ?A q s] q(1) size se slc by simp
  then have "cm_digits dg len b xs l ! (s + q) = d" using sq q(2) by (simp add: nth_cm_digits)
  ultimately have "select_of (cm_digits dg len b xs l) d (rank_of (cm_digits dg len b xs l) d s + k) = Some (s + q)"
    using sq by (simp add: select_of_Some)
  then show ?thesis using that q by simp
qed

lemma select_of_ge: "select_of D d (rank_of D d s + k) = Some p \<Longrightarrow> s \<le> p"
proof (rule ccontr)
  assume sel: "select_of D d (rank_of D d s + k) = Some p" and "\<not> s \<le> p"
  then have "rank_of D d (Suc p) \<le> rank_of D d s" by (intro rank_of_mono) simp
  then show False using sel by (auto simp: select_of_Some rank_of_Suc)
qed

lemma cm_select_outside:
  assumes ok: "cm_ok dg len b xs" and node: "cm_node dg len b xs ys l v s e" and ys: "set ys \<subseteq> set xs" and v: "v < b ^ l" "d < b"
    and k: "length (cm_part dg b (Suc l) (v + d * b ^ l) ys) \<le> k"
    and sel: "select_of (cm_digits dg len b xs l) d (rank_of (cm_digits dg len b xs l) d s + k) = Some p"
  shows "s \<le> p" "length (cm_part dg b l v ys) \<le> p - s"
proof -
  let ?D = "cm_digits dg len b xs l"
  have p: "p < length ?D" "?D ! p = d" "rank_of ?D d p = rank_of ?D d s + k" using sel by (simp_all add: select_of_Some)
  have "e \<le> p"
  proof (rule ccontr)
    assume "\<not> e \<le> p"
    then have "rank_of ?D d (Suc p) \<le> rank_of ?D d e" by (intro rank_of_mono) simp
    then show False using p cm_child_slice(4) [OF ok node ys v] k by (simp add: rank_of_Suc)
  qed
  then show "s \<le> p" "length (cm_part dg b l v ys) \<le> p - s"
    using node cm_node_size [OF node] by (simp_all add: cm_node_def)
qed

text \<open>The way up the path of \<open>c\<close>: from the \<open>r\<close>-th element of its node at level \<open>l\<close> to the sequence.\<close>

fun cm_up :: "(nat \<Rightarrow> 'a \<Rightarrow> nat) \<Rightarrow> ('a \<Rightarrow> nat) \<Rightarrow> nat \<Rightarrow> 'a list \<Rightarrow> 'a \<Rightarrow> nat \<Rightarrow> nat \<Rightarrow> nat option" where
  "cm_up dg len b xs c 0 r = Some r"
| "cm_up dg len b xs c (Suc l) r =
     (case select_of (cm_digits dg len b xs l) (dg l c) (rank_of (cm_digits dg len b xs l) (dg l c) (cm_pos dg len b xs c l 0) + r) of
        None \<Rightarrow> None
      | Some p \<Rightarrow> cm_up dg len b xs c l (p - cm_pos dg len b xs c l 0))"

lemma filter_filter_key:
  assumes "cm_ok dg len b xs" "cm_fits dg len b xs c" "set ys \<subseteq> set xs"
  shows "cm_part dg b (Suc l) (cm_key dg b (Suc l) c) ys = filter (\<lambda>x. dg l x = dg l c) (cm_part dg b l (cm_key dg b l c) ys)"
proof -
  have dg: "dg t c < b" for t using assms(2) by (simp add: cm_fits_def)
  show ?thesis using cm_part_Suc [OF assms(1,3) cm_key_less [of l dg c b] dg [of l]] dg by simp
qed

lemma cm_up_inside:
  assumes ok: "cm_ok dg len b xs" and fits: "cm_fits dg len b xs c"
  shows "l \<le> len c \<Longrightarrow> k < length (cm_part dg b l (cm_key dg b l c) xs) \<Longrightarrow>
    \<exists>q<length xs. cm_up dg len b xs c l k = Some q \<and> xs ! q = cm_part dg b l (cm_key dg b l c) xs ! k
      \<and> length (cm_part dg b l (cm_key dg b l c) (take q xs)) = k
      \<and> cm_part dg b l (cm_key dg b l c) (take q xs) = take k (cm_part dg b l (cm_key dg b l c) xs)"
proof (induction l arbitrary: k)
  case 0
  then show ?case by (auto simp: cm_part_def)
next
  case (Suc l)
  let ?v = "cm_key dg b l c" and ?f = "\<lambda>x. dg l x = dg l c" and ?s = "cm_pos dg len b xs c l 0"
  let ?N = "cm_part dg b l ?v xs"
  have dg: "dg t c < b" for t using fits by (simp add: cm_fits_def)
  have v: "?v < b ^ l" by (rule cm_key_less) (rule dg)
  have node: "cm_node dg len b xs xs l ?v ?s (cm_pos dg len b xs c l (length xs))"
    using cm_path_node [OF ok fits, of "length xs" l] Suc.prems(1) by simp
  have N': "cm_part dg b (Suc l) (cm_key dg b (Suc l) c) xs = filter ?f ?N" by (rule filter_filter_key [OF ok fits subset_refl])
  have k: "k < length (cm_part dg b (Suc l) (?v + dg l c * b ^ l) xs)" using Suc.prems(2) by simp
  obtain q where q: "select_of (cm_digits dg len b xs l) (dg l c) (rank_of (cm_digits dg len b xs l) (dg l c) ?s + k) = Some (?s + q)"
    "q < length ?N" "?f (?N ! q)" "k = length (filter ?f (take q ?N))"
    by (rule cm_select_inside [OF ok node subset_refl v dg k]) blast
  from Suc.IH [OF _ q(2)] Suc.prems(1) obtain p where p: "p < length xs" "cm_up dg len b xs c l q = Some p" "xs ! p = ?N ! q"
    "cm_part dg b l ?v (take p xs) = take q ?N" by auto
  have tp: "cm_part dg b (Suc l) (cm_key dg b (Suc l) c) (take p xs) = filter ?f (take q ?N)"
    using filter_filter_key [OF ok fits set_take_subset] p(4) by metis
  note nft = nth_filter_take [where f = ?f, OF q(2,3,4)]
  show ?case
  proof (intro exI [of _ p] conjI)
    show "cm_up dg len b xs c (Suc l) k = Some p" using q(1) p(2) by simp
    show "xs ! p = cm_part dg b (Suc l) (cm_key dg b (Suc l) c) xs ! k" unfolding N' nft(1) by (rule p(3))
    show "length (cm_part dg b (Suc l) (cm_key dg b (Suc l) c) (take p xs)) = k" unfolding tp using q(4) by simp
    show "cm_part dg b (Suc l) (cm_key dg b (Suc l) c) (take p xs) = take k (cm_part dg b (Suc l) (cm_key dg b (Suc l) c) xs)"
      unfolding tp N' nft(2) ..
  qed (rule p(1))
qed

lemma cm_up_outside:
  assumes ok: "cm_ok dg len b xs" and fits: "cm_fits dg len b xs c"
  shows "Suc l \<le> len c \<Longrightarrow> length (cm_part dg b (Suc l) (cm_key dg b (Suc l) c) xs) \<le> k \<Longrightarrow> cm_up dg len b xs c (Suc l) k = None"
proof (induction l arbitrary: k)
  case 0
  have "length (filter (\<lambda>x. dg 0 x = dg 0 c) xs) \<le> k"
    using 0(2) filter_filter_key [OF ok fits subset_refl, of 0] by (simp add: cm_part_def)
  moreover have "count_list (map (dg 0) xs) (dg 0 c) = length (filter (\<lambda>x. dg 0 x = dg 0 c) xs)" by (induction xs) auto
  ultimately have "select_of (map (dg 0) xs) (dg 0 c) k = None" by (simp add: select_of_None)
  then show ?case by (simp add: cm_digits_def)
next
  case (Suc l)
  let ?v = "cm_key dg b (Suc l) c" and ?s = "cm_pos dg len b xs c (Suc l) 0" and ?D = "cm_digits dg len b xs (Suc l)" and ?d = "dg (Suc l) c"
  have dg: "dg t c < b" for t using fits by (simp add: cm_fits_def)
  have v: "?v < b ^ Suc l" by (rule cm_key_less) (rule dg)
  have node: "cm_node dg len b xs xs (Suc l) ?v ?s (cm_pos dg len b xs c (Suc l) (length xs))"
    using cm_path_node [OF ok fits, of "length xs" "Suc l"] Suc.prems(1) by simp
  have k: "length (cm_part dg b (Suc (Suc l)) (?v + ?d * b ^ Suc l) xs) \<le> k" using Suc.prems(2) by simp
  show ?case
  proof (cases "select_of ?D ?d (rank_of ?D ?d ?s + k)")
    case (Some p)
    have "cm_up dg len b xs c (Suc l) (p - ?s) = None"
      by (rule Suc.IH [OF Suc_leD [OF Suc.prems(1)] cm_select_outside(2) [OF ok node subset_refl v dg k Some]])
    then show ?thesis using Some by (simp only: cm_up.simps(2) option.case)
  qed (simp only: cm_up.simps(2) option.case)
qed

theorem cm_up_select:
  assumes ok: "cm_ok dg len b xs" and fits: "cm_fits dg len b xs c"
  shows "cm_up dg len b xs c (len c) i = select_of xs c i"
proof -
  have leaf: "cm_part dg b (len c) (cm_key dg b (len c) c) ys = filter (\<lambda>x. x = c) ys" if "set ys \<subseteq> set xs" for ys
    using that by (rule cm_part_leaf [OF ok fits])
  have cl: "count_list ys c = length (filter (\<lambda>x. x = c) ys)" for ys by (induction ys) auto
  show ?thesis
  proof (cases "i < count_list xs c")
    case True
    then have "i < length (cm_part dg b (len c) (cm_key dg b (len c) c) xs)" by (simp add: leaf cl)
    from cm_up_inside [OF ok fits order_refl this] obtain q where q: "q < length xs" "cm_up dg len b xs c (len c) i = Some q"
      "xs ! q = filter (\<lambda>x. x = c) xs ! i" "length (filter (\<lambda>x. x = c) (take q xs)) = i" by (auto simp: leaf set_take_subset)
    have "filter (\<lambda>x. x = c) xs ! i \<in> set (filter (\<lambda>x. x = c) xs)" using True by (intro nth_mem) (simp add: cl)
    then have "xs ! q = c" using q(3) by simp
    then have "select_of xs c i = Some q" using q(1,4) by (simp add: select_of_Some rank_of_def cl)
    then show ?thesis using q(2) by simp
  next
    case False
    obtain l where l: "len c = Suc l" using fits by (cases "len c") (auto simp: cm_fits_def)
    have "cm_up dg len b xs c (len c) i = None"
      using cm_up_outside [OF ok fits, of l i] False leaf [OF subset_refl] l by (simp add: cl del: cm_up.simps cm_key.simps)
    moreover have "select_of xs c i = None" using False by (simp add: select_of_None)
    ultimately show ?thesis by simp
  qed
qed

section \<open>The first digits as a number\<close>

text \<open>The first of them the most significant, as \<open>get\<close> collects them.\<close>

fun cm_val :: "(nat \<Rightarrow> 'a \<Rightarrow> nat) \<Rightarrow> nat \<Rightarrow> nat \<Rightarrow> 'a \<Rightarrow> nat" where
  "cm_val dg b 0 x = 0"
| "cm_val dg b (Suc l) x = b * cm_val dg b l x + dg l x"

lemma cm_key_digits:
  assumes "\<And>t. dg t x < b" "\<And>t. dg t y < b" "cm_key dg b m x = cm_key dg b m y"
  shows "\<forall>t<m. dg t x = dg t y"
  using assms(3)
proof (induction m)
  case (Suc m)
  have "cm_key dg b m y < b ^ m" by (rule cm_key_less) (rule assms(2))
  then have "cm_key dg b m x = cm_key dg b m y \<and> dg m x = dg m y"
    using cm_key_Suc_iff [of dg x b "cm_key dg b m y" m "dg m y"] assms(1,2) Suc.prems by simp
  then show ?case using Suc.IH by (simp add: less_Suc_eq)
qed simp

lemma cm_val_cong: "(\<And>t. t < l \<Longrightarrow> dg t x = dg t y) \<Longrightarrow> cm_val dg b l x = cm_val dg b l y"
  by (induction l) auto

lemma cm_key_cong: "(\<And>t. t < l \<Longrightarrow> dg t x = dg t y) \<Longrightarrow> cm_key dg b l x = cm_key dg b l y"
  by (induction l) auto

lemma mult_add_less_iff:
  assumes "c < b" "d < b"
  shows "b * v + c < b * w + d \<longleftrightarrow> v < w \<or> v = w \<and> c < d" "b * v + c = b * w + d \<longleftrightarrow> v = w \<and> c = (d :: nat)"
proof -
  have less: "b * v + c < b * w + d" if "v < w" "c < b" for v w c d
  proof -
    have "b * v + c < b * Suc v" using that(2) by simp
    also have "b * Suc v \<le> b * w" using that(1) by (intro mult_le_mono2) simp
    finally show ?thesis by simp
  qed
  show "b * v + c < b * w + d \<longleftrightarrow> v < w \<or> v = w \<and> c < d" "b * v + c = b * w + d \<longleftrightarrow> v = w \<and> c = d"
    using less [of v w c d] less [of w v d c] assms by (cases v w rule: linorder_cases; simp)+
qed

lemma cm_val_less: "(\<And>t. dg t x < b) \<Longrightarrow> cm_val dg b l x < b ^ l"
proof (induction l)
  case (Suc l)
  have "b * cm_val dg b l x + dg l x < b * b ^ l + 0" if "0 < b"
    using Suc mult_add_less_iff(1) [of "dg l x" b 0 "cm_val dg b l x" "b ^ l"] that by simp
  then show ?case using Suc.prems [of l] by simp
qed simp

lemma cm_val_digits:
  assumes "\<And>t. dg t x < b" "\<And>t. dg t y < b" "cm_val dg b m x = cm_val dg b m y"
  shows "\<forall>t<m. dg t x = dg t y"
  using assms(3)
proof (induction m)
  case (Suc m)
  then show ?case using mult_add_less_iff(2) [of "dg m x" b "dg m y" "cm_val dg b m x" "cm_val dg b m y"] assms(1,2) by (simp add: less_Suc_eq)
qed simp

text \<open>Two elements share their first digits if the two numbers are equal.\<close>

lemma cm_val_key_iff:
  assumes "\<And>t. dg t x < b" "\<And>t. dg t y < b"
  shows "cm_val dg b l x = cm_val dg b l y \<longleftrightarrow> cm_key dg b l x = cm_key dg b l y"
  using cm_val_digits [of dg x b y l] cm_key_digits [of dg x b y l] cm_val_cong [of l dg x y b] cm_key_cong [of l dg x y b] assms
  by blast

lemma cm_val_mono:
  assumes "\<And>t. dg t x < b" "\<And>t. dg t y < b"
  shows "l \<le> m \<Longrightarrow> cm_val dg b l x < cm_val dg b l y \<Longrightarrow> cm_val dg b m x < cm_val dg b m y"
proof (induction m)
  case (Suc m)
  then show ?case
    using mult_add_less_iff(1) [of "dg m x" b "dg m y" "cm_val dg b m x" "cm_val dg b m y"] assms(1,2) by (cases "l = Suc m") simp_all
qed simp

section \<open>Codes from decreasing numbers\<close>

text \<open>
  Numbers \<open>v\<close> assigned in the order of the lengths, each above what later numbers start with, are the
  keys of such a code.
\<close>

lemma cm_ok_of_values:
  fixes sy :: "nat \<Rightarrow> 'a"
  assumes mem: "\<And>x. x \<in> set xs \<Longrightarrow> \<exists>i<A. sy i = x"
    and len: "\<And>i. i < A \<Longrightarrow> len (sy i) = L i" "\<And>i. i < A \<Longrightarrow> 0 < L i" "\<And>i k. i \<le> k \<Longrightarrow> k < A \<Longrightarrow> L i \<le> L k"
    and dg: "\<And>l x. dg l x < b"
    and key: "\<And>i n. i < A \<Longrightarrow> n \<le> L i \<Longrightarrow> cm_key dg b n (sy i) = v i mod b ^ n"
    and full: "\<And>i. i < A \<Longrightarrow> v i < b ^ L i"
    and above: "\<And>i k. i < k \<Longrightarrow> k < A \<Longrightarrow> v k mod b ^ L i < v i"
  shows "cm_ok dg len b xs"
proof -
  have key_full: "cm_key dg b (L i) (sy i) = v i" if "i < A" for i
    using key [OF that order_refl] full [OF that] by simp
  have below: "cm_key dg b (L i) (sy k) < cm_key dg b (L i) (sy i)" if "i < k" "k < A" for i k
  proof -
    have "i < A" using that by simp
    then show ?thesis using key [OF that(2) len(3)] key_full [of i] above [OF that] that by simp
  qed
  have ordered: "cm_key dg b (len x) y < cm_key dg b (len x) x" if xy: "x \<in> set xs" "y \<in> set xs" "len x < len y" for x y
  proof -
    from mem [OF xy(1)] mem [OF xy(2)] obtain i k where ik: "i < A" "sy i = x" "k < A" "sy k = y" by blast
    have "\<not> k \<le> i" using len(3) [of k i] len(1) [OF ik(1)] len(1) [OF ik(3)] xy(3) ik by auto
    then show ?thesis using below [of i k] len(1) [OF ik(1)] ik by simp
  qed
  have same: "x = y" if xy: "x \<in> set xs" "y \<in> set xs" "len x = len y" "cm_key dg b (len x) x = cm_key dg b (len x) y" for x y
  proof -
    from mem [OF xy(1)] mem [OF xy(2)] obtain i k where ik: "i < A" "sy i = x" "k < A" "sy k = y" by blast
    have li: "len x = L i" "len y = L k" using len(1) ik by auto
    have "\<not> i < k" using below [of i k] ik li xy(4) by auto
    moreover have "\<not> k < i" using below [of k i] ik li xy(3,4) by auto
    ultimately show ?thesis using ik by (metis nat_neq_iff)
  qed
  have "0 < len x" if "x \<in> set xs" for x using mem [OF that] len(1,2) by auto
  then show ?thesis unfolding cm_ok_def using ordered same dg by blast
qed

end
