(* ===== verification/BinWTCorrect.thy ===== *)
theory BinWTCorrect
  imports BinWT CodeMatrix
begin

text \<open>
  The queries of the binary wavelet tree over levels that hold the digits of a code: following a
  position or a symbol down the levels computes the positions \<open>cm_pos\<close> of the code matrix, and back up
  \<open>cm_up\<close>. The lemmas hold for every implementation of the trait, inside the locale \<open>bin_support\<close>,
  and for plain and compressed trees alike.
\<close>

unbundle bit_operations_syntax

section \<open>Digits as bits\<close>

definition bits_of :: "nat list \<Rightarrow> bool list" where
  "bits_of ds = map (\<lambda>d. d = 1) ds"

lemma length_bits_of [simp]: "length (bits_of ds) = length ds"
  by (simp add: bits_of_def)

lemma bits_of_empty [simp]: "bits_of ds = [] \<longleftrightarrow> ds = []"
  by (simp add: bits_of_def)

lemma nth_bits_of [simp]: "i < length ds \<Longrightarrow> bits_of ds ! i \<longleftrightarrow> ds ! i = 1"
  by (simp add: bits_of_def)

lemma digit_eq_iff: "d < 2 \<Longrightarrow> x < 2 \<Longrightarrow> (x = 1) = (d = 1) \<longleftrightarrow> x = d" for x d :: nat
  by auto

lemma count_bits: "d < 2 \<Longrightarrow> \<forall>x\<in>set ds. x < 2 \<Longrightarrow> count_list (bits_of ds) (d = 1) = count_list ds d"
proof (induction ds)
  case (Cons x ds)
  have "(x = 1) = (d = 1) \<longleftrightarrow> x = d" by (rule digit_eq_iff) (use Cons.prems in auto)
  then show ?case using Cons by (simp add: bits_of_def)
qed (simp add: bits_of_def)

lemma rank_bits: "d < 2 \<Longrightarrow> \<forall>x\<in>set ds. x < 2 \<Longrightarrow> rank_of (bits_of ds) (d = 1) i = rank_of ds d i"
proof -
  assume d: "d < 2" "\<forall>x\<in>set ds. x < 2"
  have "take i (bits_of ds) = bits_of (take i ds)" by (simp add: bits_of_def take_map)
  then show ?thesis using count_bits [OF d(1), of "take i ds"] d(2) by (auto simp: rank_of_def dest: in_set_takeD)
qed

lemma select_bits:
  assumes "d < 2" "\<forall>x\<in>set ds. x < 2"
  shows "select_of (bits_of ds) (d = 1) k = select_of ds d k"
proof -
  have "(bits_of ds ! i \<longleftrightarrow> d = 1) \<longleftrightarrow> ds ! i = d" if "i < length ds" for i
    using digit_eq_iff [OF assms(1), of "ds ! i"] assms(2) that by simp
  then have "select_of (bits_of ds) (d = 1) k = Some p \<longleftrightarrow> select_of ds d k = Some p" for p
    unfolding select_of_Some length_bits_of rank_bits [OF assms] by blast
  then show ?thesis by (metis option.exhaust)
qed

lemma smaller_digit:
  assumes "d < 2"
  shows "smaller_of ds d = (if d = 1 then count_list ds 0 else 0)"
proof -
  consider "d = 0" | "d = 1" using assms by linarith
  then show ?thesis using smaller_of_Suc [of ds 0] by cases simp_all
qed

section \<open>Collecting bits\<close>

lemma or_low_bit: "push_bit 1 (of_nat v) OR of_bool d = (of_nat (2 * v + of_bool d) :: 'a::len word)"
proof -
  have "push_bit 1 v OR of_bool d = 2 * v + (of_bool d :: nat)"
    by (cases d) (simp_all add: push_bit_eq_mult or_Suc_0_eq)
  then have "of_nat (push_bit 1 v OR of_bool d) = (of_nat (2 * v + of_bool d) :: 'a word)" by simp
  moreover have "of_nat (push_bit 1 v OR of_bool d) = push_bit 1 (of_nat v) OR (of_bool d :: 'a word)"
    by (simp add: of_nat_or_eq push_bit_of_nat)
  ultimately show ?thesis by simp
qed

lemma push_val: "dg l x < 2 \<Longrightarrow> push_bit 1 (of_nat (cm_val dg 2 l x)) OR of_bool (dg l x = 1) = (of_nat (cm_val dg 2 (Suc l) x) :: 'w::len word)"
proof -
  assume "dg l x < 2"
  then have "dg l x = of_bool (dg l x = 1)" by simp
  then have "cm_val dg 2 (Suc l) x = 2 * cm_val dg 2 l x + of_bool (dg l x = 1)" by simp
  then show ?thesis unfolding or_low_bit by (simp only:)
qed

section \<open>Trees whose levels hold the digits of a code\<close>

definition wv_levels_ok :: "('b \<Rightarrow> bool list \<Rightarrow> bool) \<Rightarrow> (nat \<Rightarrow> 'a::len word \<Rightarrow> nat) \<Rightarrow> ('a word \<Rightarrow> nat) \<Rightarrow> 'a word list \<Rightarrow>
    ('a word, 'b) wavelet_tree \<Rightarrow> bool" where
  "wv_levels_ok brep dg len xs t \<longleftrightarrow> cm_ok dg len 2 xs \<and> wv_n t = length xs \<and> length xs < 2 ^ 43
     \<and> length (wv_bvs t) = wv_n_levels t
     \<and> wv_lens t = map (\<lambda>l. length (cm_level dg len 2 xs l)) [0..<wv_n_levels t]
     \<and> (\<forall>l<wv_n_levels t. brep (wv_bvs t ! l) (bits_of (cm_digits dg len 2 xs l)))
     \<and> (\<forall>x\<in>set xs. len x \<le> wv_n_levels t)"

definition repr_ok :: "(nat \<Rightarrow> 'a \<Rightarrow> nat) \<Rightarrow> ('a \<Rightarrow> nat) \<Rightarrow> 'a \<Rightarrow> u32 \<Rightarrow> bool" where
  "repr_ok dg len c repr \<longleftrightarrow> len c \<le> 32 \<and> (\<forall>l<len c. bit repr (len c - l - 1) = (dg l c = 1))"

lemma and_1_bit: "w AND 1 = (1 :: 'a::len word) \<longleftrightarrow> bit w 0"
  by (simp add: and_one_eq bit_0 odd_iff_mod_2_eq_one)

lemma repr_bit_eq: "repr_ok dg len c repr \<Longrightarrow> l < len c \<Longrightarrow> repr_bit (len c) repr l = Some (dg l c = 1)"
  by (auto simp: repr_bit_def repr_ok_def shr_u32_def and_1_bit bit_drop_bit_eq)

lemma length_cm_level_le: "cm_ok dg len b xs \<Longrightarrow> length (cm_level dg len b xs l) \<le> length xs"
proof (induction l)
  case (Suc l)
  have "length (cm_level dg len b xs (Suc l)) \<le> length (buckets (dg l) b (cm_level dg len b xs l))"
    by (simp add: length_filter_le)
  also have "\<dots> \<le> length xs" using Suc by (simp add: length_level_buckets)
  finally show ?case .
qed simp

text \<open>On the path of a code every level is nonempty and the positions stay inside it.\<close>

lemma cm_path_bounds:
  assumes ok: "cm_ok dg len b xs" and fits: "cm_fits dg len b xs c" and ne: "xs \<noteq> []" and i: "i \<le> length xs" and l: "l < len c"
  defines "D \<equiv> cm_digits dg len b xs l"
  shows "cm_level dg len b xs l \<noteq> []" "cm_pos dg len b xs c l 0 \<le> cm_pos dg len b xs c l i"
    "cm_pos dg len b xs c l i \<le> length (cm_level dg len b xs l)"
    "smaller_of D (dg l c) + rank_of D (dg l c) (cm_pos dg len b xs c l i) \<le> length xs"
    "dg l c < b" "\<forall>x\<in>set D. x < b"
proof -
  have "set (cm_level dg len b xs l) \<noteq> {}"
  proof (cases "c \<in> set xs")
    case False
    then have "\<forall>x\<in>set xs. len x = len c" using fits by (auto simp: cm_fits_def)
    then show ?thesis using ne l set_cm_level [OF ok, of l] by (cases xs) auto
  qed (use l set_cm_level [OF ok, of l] in auto)
  then show "cm_level dg len b xs l \<noteq> []" by simp
  have dg: "dg t c < b" for t using fits by (simp add: cm_fits_def)
  show "dg l c < b" by (rule dg)
  have v: "cm_key dg b l c < b ^ l" by (rule cm_key_less) (rule dg)
  note node = cm_path_node [OF ok fits i l]
  show "cm_pos dg len b xs c l 0 \<le> cm_pos dg len b xs c l i" "cm_pos dg len b xs c l i \<le> length (cm_level dg len b xs l)"
    using node by (simp_all add: cm_node_def)
  have "smaller_of D (dg l c) + rank_of D (dg l c) (cm_pos dg len b xs c l i) \<le> length (cm_level dg len b xs l)"
    unfolding D_def by (rule cm_child_slice(3) [OF ok node set_take_subset v dg])
  then show "smaller_of D (dg l c) + rank_of D (dg l c) (cm_pos dg len b xs c l i) \<le> length xs"
    using length_cm_level_le [OF ok, of l] by linarith
  show "\<forall>x\<in>set D. x < b" using cm_digits_less [OF ok] by (auto simp: D_def)
qed

lemma cm_path_count:
  assumes ok: "cm_ok dg len b xs" and fits: "cm_fits dg len b xs c" and i: "i \<le> length xs"
  shows "cm_pos dg len b xs c (len c) i = cm_pos dg len b xs c (len c) 0 + count_list (take i xs) c"
proof -
  obtain l where l: "len c = Suc l" using fits by (cases "len c") (auto simp: cm_fits_def)
  show ?thesis using cm_path_rank [OF ok fits i l] by (simp add: l)
qed

section \<open>The three queries\<close>

text \<open>The tree's client view of the interface: everything proved below rests on the laws of \<open>bin_support\<close> only.\<close>

locale binary_tree = bin_support B brep
  for B :: "'b bin_ops" and brep :: "'b \<Rightarrow> bool list \<Rightarrow> bool"
begin

lemma level_facts:
  assumes "wv_levels_ok brep dg len xs t" "l < wv_n_levels t"
  shows "idx (wv_bvs t) l = Some (wv_bvs t ! l)" "brep (wv_bvs t ! l) (bits_of (cm_digits dg len 2 xs l))"
    "idx (wv_lens t) l = Some (length (cm_level dg len 2 xs l))"
  using assms by (simp_all add: wv_levels_ok_def)

text \<open>What the operations of a level answer on a path.\<close>

lemma level_rank:
  assumes r: "brep r (bits_of D)" and D: "\<forall>x\<in>set D. x < 2" "D \<noteq> []" and p: "p \<le> length D"
  shows "b_count_zeros B r = Some (count_list D 0)" "b_rank1 B r p = Some (Some (rank_of D 1 p))"
    "b_rank0 B r p = Some (Some (rank_of D 0 p))" "b_rank1_unchecked B r p = Some (rank_of D 1 p)"
    "rank_of D 1 p \<le> p" "p - rank_of D 1 p = rank_of D 0 p"
proof -
  have one: "rank_of (bits_of D) True p = rank_of D 1 p" using rank_bits [of 1 D p] D(1) by simp
  have zero: "rank_of (bits_of D) False p = rank_of D 0 p" using rank_bits [of 0 D p] D(1) by simp
  show "b_count_zeros B r = Some (count_list D 0)" using count_bits [of 0 D] D(1) b_count_zeros_rep [OF r] by simp
  show "b_rank1 B r p = Some (Some (rank_of D 1 p))" using b_rank1_rep [OF r, of p] p D(2) one by simp
  show "b_rank0 B r p = Some (Some (rank_of D 0 p))" using b_rank0_rep [OF r, of p] p D(2) zero by simp
  show "b_rank1_unchecked B r p = Some (rank_of D 1 p)" using b_rank1_unchecked_rep [OF r, of p] p one by simp
  show "rank_of D 1 p \<le> p" by (rule rank_of_le)
  show "p - rank_of D 1 p = rank_of D 0 p" using rank_split [of p "bits_of D"] p one zero by simp
qed

text \<open>One step of \<open>rank\<close> moves both positions along the path.\<close>

lemma wv_rank_step_eq:
  assumes t: "wv_levels_ok brep dg len xs t" and fits: "cm_fits dg len 2 xs c" and ne: "xs \<noteq> []" and i: "i \<le> length xs"
    and l: "l < len c" "len c \<le> wv_n_levels t" and repr: "repr_ok dg len c repr"
  shows "wv_rank_step B t (len c) repr (cm_pos dg len 2 xs c l i, cm_pos dg len 2 xs c l 0) l
      = Some (Some (cm_pos dg len 2 xs c (Suc l) i, cm_pos dg len 2 xs c (Suc l) 0))"
    "wv_rank_unchecked_step B t (len c) repr (cm_pos dg len 2 xs c l i, cm_pos dg len 2 xs c l 0) l
      = Some (cm_pos dg len 2 xs c (Suc l) i, cm_pos dg len 2 xs c (Suc l) 0)"
proof -
  let ?D = "cm_digits dg len 2 xs l" and ?pi = "cm_pos dg len 2 xs c l i" and ?p0 = "cm_pos dg len 2 xs c l 0"
  have ok: "cm_ok dg len 2 xs" and n: "length xs < 2 ^ 43" using t by (simp_all add: wv_levels_ok_def)
  have lt: "l < wv_n_levels t" using l by simp
  note f = level_facts [OF t lt]
  note bi = cm_path_bounds [OF ok fits ne i l(1)] and b0 = cm_path_bounds [OF ok fits ne _ l(1), of 0]
  have ds: "\<forall>x\<in>set ?D. x < 2" "?D \<noteq> []" using bi(6) bi(1) by (simp_all add: cm_digits_def)
  note ri = level_rank [OF f(2) ds, of ?pi] and r0 = level_rank [OF f(2) ds, of ?p0]
  have sm: "smaller_of ?D (dg l c) = (if dg l c = 1 then count_list ?D 0 else 0)" by (rule smaller_digit) (rule bi(5))
  have bnd: "rank_of ?D 1 p + count_list ?D 0 < 2 ^ 64" if "dg l c = 1" "smaller_of ?D (dg l c) + rank_of ?D (dg l c) p \<le> length xs" for p
    using that n sm by simp
  have z: "dg l c = 0" if "dg l c \<noteq> 1" using bi(5) that by simp
  show "wv_rank_step B t (len c) repr (?pi, ?p0) l = Some (Some (cm_pos dg len 2 xs c (Suc l) i, cm_pos dg len 2 xs c (Suc l) 0))"
    using repr_bit_eq [OF repr l(1)] f(1) ri r0 bi(3,4) b0(3,4) bnd [of ?pi] bnd [of ?p0] sm z
    by (cases "dg l c = 1") (simp_all add: wv_rank_step_def add.commute)
  show "wv_rank_unchecked_step B t (len c) repr (?pi, ?p0) l = Some (cm_pos dg len 2 xs c (Suc l) i, cm_pos dg len 2 xs c (Suc l) 0)"
    using repr_bit_eq [OF repr l(1)] f(1) ri r0 bi(3,4) b0(3,4) sm z
    by (cases "dg l c = 1") (simp_all add: wv_rank_unchecked_step_def add.commute)
qed

lemma wv_rank_loop:
  assumes t: "wv_levels_ok brep dg len xs t" and fits: "cm_fits dg len 2 xs c" and ne: "xs \<noteq> []" and i: "i \<le> length xs"
    and l: "len c \<le> wv_n_levels t" and repr: "repr_ok dg len c repr"
  shows "foldQ (wv_rank_step B t (len c) repr) (i, 0) [0..<len c] = Some (Some (cm_pos dg len 2 xs c (len c) i, cm_pos dg len 2 xs c (len c) 0))"
    "foldM (wv_rank_unchecked_step B t (len c) repr) (i, 0) [0..<len c] = Some (cm_pos dg len 2 xs c (len c) i, cm_pos dg len 2 xs c (len c) 0)"
  using foldQ_upt_value [of "len c" "wv_rank_step B t (len c) repr" "\<lambda>l. (cm_pos dg len 2 xs c l i, cm_pos dg len 2 xs c l 0)"]
    foldM_upt_value [of "len c" "wv_rank_unchecked_step B t (len c) repr" "\<lambda>l. (cm_pos dg len 2 xs c l i, cm_pos dg len 2 xs c l 0)"]
    wv_rank_step_eq [OF t fits ne i _ l repr] by simp_all

lemma wv_rank_eq:
  assumes t: "wv_levels_ok brep dg len xs t" and fits: "cm_fits dg len 2 xs c" and ne: "xs \<noteq> []" and i: "i \<le> length xs"
    and l: "len c \<le> wv_n_levels t" and repr: "repr_ok dg len c repr" "wv_repr compressed t c = Some (Some (len c, repr))"
  shows "wv_rank B compressed t c i = Some (Some (count_list (take i xs) c))"
proof -
  have ok: "cm_ok dg len 2 xs" and n: "wv_n t = length xs" using t by (simp_all add: wv_levels_ok_def)
  show ?thesis
    using wv_rank_loop(1) [OF t fits ne i l repr(1)] repr(2) cm_path_count [OF ok fits i] i n by (simp add: wv_rank_def)
qed

lemma wv_rank_unchecked_eq:
  assumes t: "wv_levels_ok brep dg len xs t" and fits: "cm_fits dg len 2 xs c" and ne: "xs \<noteq> []" and i: "i \<le> length xs"
    and l: "len c \<le> wv_n_levels t" and repr: "repr_ok dg len c repr" "wv_repr compressed t c = Some (Some (len c, repr))"
  shows "wv_rank_unchecked B compressed t c i = Some (count_list (take i xs) c)"
proof -
  have ok: "cm_ok dg len 2 xs" using t by (simp add: wv_levels_ok_def)
  have "(if compressed then do {
          codes \<leftarrow> wv_codes_encode t;
          code \<leftarrow> idx codes (unat (as_usize c));
          Some (unat (pc_len code), pc_content code)
        } else Some (wv_n_levels t, ucast (as_usize c))) = Some (len c, repr)"
    using repr(2) by (auto simp: wv_repr_def qbind_def bind_eq_Some_conv split: option.splits if_splits)
  then show ?thesis
    using wv_rank_loop(2) [OF t fits ne i l repr(1)] cm_path_count [OF ok fits i] by (simp add: wv_rank_unchecked_def)
qed

text \<open>\<open>get\<close> follows the path of the element at its own position, until the code of the element ends.\<close>

lemma wv_get_loop_eq:
  assumes t: "wv_levels_ok brep dg len xs t" and i: "i < length xs"
    and full: "\<not> compressed \<Longrightarrow> len (xs ! i) = wv_n_levels t"
  defines "x \<equiv> xs ! i"
  shows "l \<le> len x \<Longrightarrow> wv_get_loop B compressed t [l..<wv_n_levels t] (cm_pos dg len 2 xs x l i) (of_nat (cm_val dg 2 l x)) l
      = Some (Some (of_nat (cm_val dg 2 (len x) x), len x))
    \<and> wv_get_unchecked_loop B compressed t [l..<wv_n_levels t] (cm_pos dg len 2 xs x l i) (of_nat (cm_val dg 2 l x)) l
      = Some (of_nat (cm_val dg 2 (len x) x), len x)"
proof (induction "len x - l" arbitrary: l)
  case 0
  then have l: "l = len x" by simp
  show ?case
  proof (cases "l < wv_n_levels t")
    case True
    then have "compressed" using full l by (auto simp: x_def)
    moreover have "length (cm_level dg len 2 xs l) \<le> cm_pos dg len 2 xs x l i"
      using cm_path_element(2) [of dg len 2 xs i] t i by (simp add: wv_levels_ok_def x_def l)
    ultimately show ?thesis using True level_facts(3) [OF t True] l by (simp add: upt_conv_Cons)
  qed (use l in simp)
next
  case (Suc d)
  let ?D = "cm_digits dg len 2 xs l" and ?p = "cm_pos dg len 2 xs x l i"
  have l: "l < len x" using Suc.hyps(2) by simp
  have ok: "cm_ok dg len 2 xs" and n: "length xs < 2 ^ 43" using t by (simp_all add: wv_levels_ok_def)
  have x: "x \<in> set xs" using i by (simp add: x_def)
  have lt: "l < wv_n_levels t" using t x l by (fastforce simp: wv_levels_ok_def)
  have ne: "xs \<noteq> []" using i by auto
  note f = level_facts [OF t lt]
  have fits: "cm_fits dg len 2 xs x" by (rule cm_fitsI [OF ok x])
  note b = cm_path_bounds [OF ok fits ne less_imp_le [OF i] l]
  have p: "?p < length (cm_level dg len 2 xs l)" "cm_level dg len 2 xs l ! ?p = x"
    using cm_path_element(1) [OF ok i, of l] l by (simp_all add: x_def)
  have ds: "\<forall>x\<in>set ?D. x < 2" "?D \<noteq> []" using b(6) b(1) by (simp_all add: cm_digits_def)
  have bit: "bits_of ?D ! ?p = (dg l x = 1)" using p by (simp add: nth_cm_digits)
  note r = level_rank [OF f(2) ds, of ?p]
  have get: "b_get B (wv_bvs t ! l) ?p = Some (Some (dg l x = 1))" "b_get_unchecked B (wv_bvs t ! l) ?p = Some (dg l x = 1)"
    using b_get_rep [OF f(2), of ?p] b_get_unchecked_rep [OF f(2), of ?p] p(1) bit by simp_all
  have sm: "smaller_of ?D (dg l x) = (if dg l x = 1 then count_list ?D 0 else 0)" by (rule smaller_digit) (rule b(5))
  have bnd: "rank_of ?D 1 ?p + count_list ?D 0 < 2 ^ 64" if "dg l x = 1" using that n b(4) sm by simp
  have z: "dg l x = 0" if "dg l x \<noteq> 1" using b(5) that by simp
  have v: "push_bit 1 (of_nat (cm_val dg 2 l x)) OR of_bool (dg l x = 1) = (of_nat (cm_val dg 2 (Suc l) x) :: u32)"
    by (rule push_val) (rule b(5))
  have IH: "wv_get_loop B compressed t [Suc l..<wv_n_levels t] (cm_pos dg len 2 xs x (Suc l) i) (of_nat (cm_val dg 2 (Suc l) x)) (Suc l)
      = Some (Some (of_nat (cm_val dg 2 (len x) x), len x))
    \<and> wv_get_unchecked_loop B compressed t [Suc l..<wv_n_levels t] (cm_pos dg len 2 xs x (Suc l) i) (of_nat (cm_val dg 2 (Suc l) x)) (Suc l)
      = Some (of_nat (cm_val dg 2 (len x) x), len x)"
    by (rule Suc.hyps(1)) (use Suc.hyps(2) l in simp_all)
  have next_pos: "cm_pos dg len 2 xs x (Suc l) i = (if dg l x = 1 then rank_of ?D 1 ?p + count_list ?D 0 else rank_of ?D 0 ?p)"
    using sm z by (cases "dg l x = 1") simp_all
  show ?case
    unfolding upt_conv_Cons [OF lt] wv_get_loop.simps wv_get_unchecked_loop.simps Let_def
    using IH f(1,3) p(1) get r bnd sm z v unfolding next_pos
    by (cases "dg l x = 1"; cases compressed; simp del: cm_val.simps)
qed

text \<open>\<open>select\<close> goes down the path of the symbol from position 0, and back up.\<close>

lemma wv_select_down_eq:
  assumes t: "wv_levels_ok brep dg len xs t" and fits: "cm_fits dg len 2 xs c" and ne: "xs \<noteq> []"
    and lc: "len c \<le> wv_n_levels t" and repr: "repr_ok dg len c repr"
  shows "foldQ (wv_select_down B t (len c) repr) (0, [], []) [0..<len c] = Some (Some (cm_pos dg len 2 xs c (len c) 0,
    map (\<lambda>l. cm_pos dg len 2 xs c l 0) [0..<len c],
    map (\<lambda>l. rank_of (cm_digits dg len 2 xs l) (dg l c) (cm_pos dg len 2 xs c l 0)) [0..<len c]))"
proof -
  let ?P = "\<lambda>l. cm_pos dg len 2 xs c l 0" and ?D = "cm_digits dg len 2 xs"
  let ?g = "\<lambda>k. (?P k, map ?P [0..<k], map (\<lambda>l. rank_of (?D l) (dg l c) (?P l)) [0..<k])"
  have ok: "cm_ok dg len 2 xs" and n: "length xs < 2 ^ 43" using t by (simp_all add: wv_levels_ok_def)
  have "wv_select_down B t (len c) repr (?g l) l = Some (Some (?g (Suc l)))" if l: "l < len c" for l
  proof -
    have lt: "l < wv_n_levels t" using l lc by simp
    note f = level_facts [OF t lt] and b = cm_path_bounds [OF ok fits ne _ l, of 0]
    have ds: "\<forall>x\<in>set (?D l). x < 2" "?D l \<noteq> []" using b(6) b(1) by (simp_all add: cm_digits_def)
    note r = level_rank [OF f(2) ds, of "?P l"]
    have sm: "smaller_of (?D l) (dg l c) = (if dg l c = 1 then count_list (?D l) 0 else 0)" by (rule smaller_digit) (use b(5) in simp)
    have bnd: "rank_of (?D l) (dg l c) (?P l) + (if dg l c = 1 then count_list (?D l) 0 else 0) < 2 ^ 64"
      using n b(4) sm by simp
    have z: "dg l c = 0" if "dg l c \<noteq> 1" using b(5) that by simp
    show ?thesis
      using repr_bit_eq [OF repr l] f(1) r b(3) bnd sm z
      by (cases "dg l c = 1") (simp_all add: wv_select_down_def add.commute)
  qed
  then show ?thesis using foldQ_upt_value [of "len c" "wv_select_down B t (len c) repr" ?g] by simp
qed

lemma wv_select_up_eq:
  assumes t: "wv_levels_ok brep dg len xs t" and fits: "cm_fits dg len 2 xs c" and ne: "xs \<noteq> []"
    and lc: "len c \<le> wv_n_levels t" and repr: "repr_ok dg len c repr"
    and po: "\<And>l. l < len c \<Longrightarrow> idx po l = Some (cm_pos dg len 2 xs c l 0)"
    and ro: "\<And>l. l < len c \<Longrightarrow> idx ro l = Some (rank_of (cm_digits dg len 2 xs l) (dg l c) (cm_pos dg len 2 xs c l 0))"
  shows "l \<le> len c \<Longrightarrow> foldQ (wv_select_up B t (len c) repr po ro) r (rev [0..<l]) = Some (cm_up dg len 2 xs c l r)"
proof (induction l arbitrary: r)
  case (Suc l)
  let ?D = "cm_digits dg len 2 xs l" and ?s = "cm_pos dg len 2 xs c l 0"
  let ?k = "rank_of ?D (dg l c) ?s + r"
  have l: "l < len c" and lt: "l < wv_n_levels t" using Suc.prems lc by simp_all
  have ok: "cm_ok dg len 2 xs" and n: "length xs < 2 ^ 43" using t by (simp_all add: wv_levels_ok_def)
  note f = level_facts [OF t lt] and b = cm_path_bounds [OF ok fits ne _ l, of 0]
  have ds: "\<forall>x\<in>set ?D. x < 2" using b(6) by simp
  have d: "dg l c < 2" using b(5) by simp
  have sel: "(if dg l c = 1 then b_select1 B (wv_bvs t ! l) ?k else b_select0 B (wv_bvs t ! l) ?k) = Some (select_of ?D (dg l c) ?k)"
    using b_select1_rep [OF f(2), of ?k] b_select0_rep [OF f(2), of ?k] select_bits [OF d ds, of ?k]
    by (cases "dg l c = 1") simp_all
  have step: "wv_select_up B t (len c) repr po ro r l = Some (map_option (\<lambda>p. p - ?s) (select_of ?D (dg l c) ?k))"
  proof (cases "?k < 2 ^ 64")
    case True
    then show ?thesis
      using repr_bit_eq [OF repr l] f(1) po [OF l] ro [OF l] sel select_of_ge [of ?D "dg l c" ?s r]
      by (cases "select_of ?D (dg l c) ?k") (simp_all add: wv_select_up_def)
  next
    case False
    have "count_list ?D (dg l c) \<le> length xs"
      using count_le_length [of ?D "dg l c"] length_cm_level_le [OF ok, of l] by simp
    then have "select_of ?D (dg l c) ?k = None" using False n by (simp add: select_of_None)
    then show ?thesis using False repr_bit_eq [OF repr l] f(1) po [OF l] ro [OF l]
      by (simp add: wv_select_up_def add_usize_def)
  qed
  show ?case
    using Suc.IH [OF less_imp_le [OF l]] by (cases "select_of ?D (dg l c) ?k") (simp_all add: step)
qed simp

lemma wv_select_eq:
  assumes t: "wv_levels_ok brep dg len xs t" and fits: "cm_fits dg len 2 xs c" and ne: "xs \<noteq> []"
    and l: "len c \<le> wv_n_levels t" and repr: "repr_ok dg len c repr" "wv_repr compressed t c = Some (Some (len c, repr))"
  shows "wv_select B compressed t c i = Some (select_of xs c i)"
proof -
  have ok: "cm_ok dg len 2 xs" using t by (simp add: wv_levels_ok_def)
  let ?po = "map (\<lambda>l. cm_pos dg len 2 xs c l 0) [0..<len c]"
  let ?ro = "map (\<lambda>l. rank_of (cm_digits dg len 2 xs l) (dg l c) (cm_pos dg len 2 xs c l 0)) [0..<len c]"
  have "foldQ (wv_select_up B t (len c) repr ?po ?ro) i (rev [0..<len c]) = Some (cm_up dg len 2 xs c (len c) i)"
    by (rule wv_select_up_eq [OF t fits ne l repr(1) _ _ order_refl]) simp_all
  then show ?thesis
    using wv_select_down_eq [OF t fits ne l repr(1)] repr(2) cm_up_select [OF ok fits, of i] by (simp add: wv_select_def)
qed

end

end
