(* ===== verification/BinWTBuild.thy ===== *)
theory BinWTBuild
  imports BinWTCorrect
begin

text \<open>
  The construction of the binary wavelet tree: whatever the code, the loop over the levels leaves the
  digits of the code matrix in the bit vectors. The plain tree is the code of one length, the binary
  representation of the symbol. With the queries of \<open>BinWTCorrect\<close> this gives the answers of a plain
  tree.
\<close>

unbundle bit_operations_syntax

section \<open>Partitions and filters\<close>

lemma filter_buckets_comm: "filter P (buckets f m xs) = buckets f m (filter P xs)"
proof -
  have "filter P (concat (map (\<lambda>b. filter (\<lambda>x. f x = b) xs) bs)) = concat (map (\<lambda>b. filter (\<lambda>x. f x = b) (filter P xs)) bs)" for bs
    by (induction bs) (simp_all add: conj_commute)
  then show ?thesis by (simp add: buckets_def)
qed

lemma buckets_cong: "(\<And>x. x \<in> set xs \<Longrightarrow> f x = g x) \<Longrightarrow> buckets f m xs = buckets g m xs"
  unfolding buckets_def by (intro arg_cong [of _ _ concat] map_cong refl filter_cong) auto

lemma buckets_more: "\<forall>x\<in>set xs. f x < m \<Longrightarrow> buckets f (Suc m) xs = buckets f m xs"
  by (auto simp: buckets_def filter_empty_conv)

section \<open>One level\<close>

lemma foldM_push_filter:
  assumes "\<And>cur s. s \<in> set seq \<Longrightarrow> f cur s = (if P s then bm_push cur (g s) else Some cur)"
  shows "foldM f cur seq = foldM (\<lambda>cur s. bm_push cur (g s)) cur (filter P seq)"
  using assms by (induction seq arbitrary: cur) auto

context binary_tree begin

lemma wv_level_eq:
  assumes push: "\<And>cur s. s \<in> set seq \<Longrightarrow> wv_push codes n_levels (Suc l) cur s = (if l < len s then bm_push cur (dg l s = 1) else Some cur)"
    and part: "(case codes of Some codes_encode \<Rightarrow> stable_partition_of_2_with_codes seq (Suc l) codes_encode
        | None \<Rightarrow> do { k \<leftarrow> chk_sub n_levels (Suc l); stable_partition_of_2 seq k }) = Some seq'"
    and filt: "filter (\<lambda>x. l < len x) seq = cm_level dg len 2 xs l" and small: "length seq < 2 ^ 43"
  shows "\<exists>r. wv_level B codes n_levels (seq, bvs, lens) (Suc l) = Some (seq', bvs @ [r], lens @ [length (cm_level dg len 2 xs l)])
    \<and> brep r (bits_of (cm_digits dg len 2 xs l))"
proof -
  obtain s' where s': "foldM (\<lambda>s x. bm_push s (dg l x = 1)) bm_new (filter (\<lambda>x. l < len x) seq) = Some s'" "bm_ok s'"
    "bm_list s' = map (\<lambda>x. dg l x = 1) (filter (\<lambda>x. l < len x) seq)"
    using bm_pushes_eq [OF bm_new_ok(1), of "filter (\<lambda>x. l < len x) seq" "\<lambda>x. dg l x = 1"] bm_new_ok(2-) small
      le_less_trans [OF length_filter_le small, of "\<lambda>x. l < len x"] by auto
  have fold: "foldM (wv_push codes n_levels (Suc l)) bm_new seq = Some s'"
    using foldM_push_filter [of seq "wv_push codes n_levels (Suc l)" "\<lambda>s. l < len s" "\<lambda>s. dg l s = 1", OF push] s'(1) by simp
  have lst: "bm_list s' = bits_of (cm_digits dg len 2 xs l)" unfolding s'(3) filt by (simp add: bits_of_def cm_digits_def)
  have len: "bm_n_bits s' = length (cm_level dg len 2 xs l)" using arg_cong [OF lst, of length] by (simp add: bm_list_def)
  have "length (cm_level dg len 2 xs l) \<le> length seq" unfolding filt [symmetric] by (rule length_filter_le)
  then have "bv_n_bits (bv_from s') < 2 ^ 43" using small len by (simp add: bv_from_def)
  then obtain r where r: "b_from B (bv_from s') = Some r" "brep r (bv_list (bv_from s'))"
    using b_from_rep [of "bv_from s'"] s'(2) by auto
  have "bv_len (bv_from s') = length (cm_level dg len 2 xs l)" using len by (simp add: bv_len_def bv_from_def)
  then show ?thesis using fold r part lst by (simp add: wv_level_def)
qed

text \<open>All levels, given what one turn of the loop does to the sequence.\<close>

lemma wv_levels_loop:
  assumes step: "\<And>seq l. l < L \<Longrightarrow> Q l seq \<Longrightarrow>
      (\<forall>cur. \<forall>s\<in>set seq. wv_push codes L (Suc l) cur s = (if l < len s then bm_push cur (dg l s = 1) else Some cur))
      \<and> (\<exists>seq'. (case codes of Some codes_encode \<Rightarrow> stable_partition_of_2_with_codes seq (Suc l) codes_encode
          | None \<Rightarrow> do { k \<leftarrow> chk_sub L (Suc l); stable_partition_of_2 seq k }) = Some seq' \<and> Q (Suc l) seq')
      \<and> filter (\<lambda>x. l < len x) seq = cm_level dg len 2 xs l \<and> length seq < 2 ^ 43"
    and Q0: "Q 0 xs"
  shows "\<exists>seq bvs. foldM (wv_level B codes L) (xs, [], []) [1..<L + 1]
      = Some (seq, bvs, map (\<lambda>l. length (cm_level dg len 2 xs l)) [0..<L])
    \<and> Q L seq \<and> length bvs = L \<and> (\<forall>l<L. brep (bvs ! l) (bits_of (cm_digits dg len 2 xs l)))"
proof -
  let ?Inv = "\<lambda>k st. \<exists>seq bvs. st = (seq, bvs, map (\<lambda>l. length (cm_level dg len 2 xs l)) [0..<k - 1])
    \<and> Q (k - 1) seq \<and> length bvs = k - 1 \<and> (\<forall>l<k - 1. brep (bvs ! l) (bits_of (cm_digits dg len 2 xs l)))"
  have turn: "\<exists>st'. wv_level B codes L st k = Some st' \<and> ?Inv (Suc k) st'" if k: "1 \<le> k" "k < L + 1" and inv: "?Inv k st" for k st
  proof -
    obtain l where l: "k = Suc l" using k(1) by (cases k) auto
    obtain seq bvs where st: "st = (seq, bvs, map (\<lambda>l. length (cm_level dg len 2 xs l)) [0..<l])" "Q l seq" "length bvs = l"
      "\<forall>l'<l. brep (bvs ! l') (bits_of (cm_digits dg len 2 xs l'))" using inv unfolding l by auto
    have "l < L" using k l by simp
    note s = step [OF this st(2)]
    then obtain seq' where seq': "(case codes of Some codes_encode \<Rightarrow> stable_partition_of_2_with_codes seq (Suc l) codes_encode
          | None \<Rightarrow> do { k \<leftarrow> chk_sub L (Suc l); stable_partition_of_2 seq k }) = Some seq'" "Q (Suc l) seq'" by blast
    have sf: "filter (\<lambda>x. l < len x) seq = cm_level dg len 2 xs l" "length seq < 2 ^ 43"
      "\<And>cur s. s \<in> set seq \<Longrightarrow> wv_push codes L (Suc l) cur s = (if l < len s then bm_push cur (dg l s = 1) else Some cur)"
      using s by blast+
    obtain r where r: "wv_level B codes L (seq, bvs, map (\<lambda>l. length (cm_level dg len 2 xs l)) [0..<l]) (Suc l)
          = Some (seq', bvs @ [r], map (\<lambda>l. length (cm_level dg len 2 xs l)) [0..<l] @ [length (cm_level dg len 2 xs l)])"
        "brep r (bits_of (cm_digits dg len 2 xs l))"
      using wv_level_eq [OF sf(3) seq'(1) sf(1,2), of bvs "map (\<lambda>l. length (cm_level dg len 2 xs l)) [0..<l]"] by blast
    have "\<forall>l'<Suc l. brep ((bvs @ [r]) ! l') (bits_of (cm_digits dg len 2 xs l'))"
      using st(3,4) r(2) by (auto simp: less_Suc_eq nth_append)
    then show ?thesis using r(1) seq'(2) st(1,3) unfolding l by auto
  qed
  have "?Inv 1 (xs, [], [])" using Q0 by simp
  from foldM_from_inv [where f = "wv_level B codes L" and Inv = ?Inv, OF _ this turn, of "L + 1"] show ?thesis by auto
qed

end

section \<open>The plain tree\<close>

definition plain_dg :: "nat \<Rightarrow> nat \<Rightarrow> 'a::len word \<Rightarrow> nat" where
  "plain_dg L l x = bdigit (L - 1 - l) x"

lemma plain_dg_less [simp]: "plain_dg L l x < 2"
  by (simp add: plain_dg_def)

lemma cm_val_number:
  assumes "\<And>t. t < L \<Longrightarrow> dg t x = v div b ^ (L - Suc t) mod b" "v < b ^ L"
  shows "l \<le> L \<Longrightarrow> cm_val dg b l x = v div b ^ (L - l)"
proof (induction l)
  case (Suc l)
  have "v div b ^ (L - l) = v div b ^ (L - Suc l) div b"
    using Suc.prems(1) div_mult2_eq [of v "b ^ (L - Suc l)" b] by (simp add: Suc_diff_Suc mult.commute flip: power_Suc)
  then show ?case using Suc assms(1) [of l] by simp
qed (use assms(2) in simp)

lemma plain_val: "l \<le> L \<Longrightarrow> unat x < 2 ^ L \<Longrightarrow> cm_val (plain_dg L) 2 l x = unat x div 2 ^ (L - l)"
  by (rule cm_val_number) (simp_all add: plain_dg_def bdigit_def)

lemma plain_key_inj:
  assumes "unat x < 2 ^ L" "unat y < 2 ^ L" "cm_key (plain_dg L) 2 L x = cm_key (plain_dg L) 2 L y"
  shows "x = y"
proof -
  have "\<forall>t<L. plain_dg L t x = plain_dg L t y" by (rule cm_key_digits [OF _ _ assms(3)]) simp_all
  then have "cm_val (plain_dg L) 2 L x = cm_val (plain_dg L) 2 L y" by (intro cm_val_cong) simp
  then have "unat x = unat y" using plain_val [of L L x] plain_val [of L L y] assms(1,2) by simp
  then show ?thesis by (simp add: word_unat_eq_iff)
qed

lemma plain_cm_ok: "0 < L \<Longrightarrow> \<forall>x\<in>set xs. unat x < 2 ^ L \<Longrightarrow> cm_ok (plain_dg L) (\<lambda>_. L) 2 xs"
  using plain_key_inj [of _ L] by (auto simp: cm_ok_def)

lemma plain_cm_fits: "0 < L \<Longrightarrow> \<forall>x\<in>set xs. unat x < 2 ^ L \<Longrightarrow> unat c < 2 ^ L \<Longrightarrow> cm_fits (plain_dg L) (\<lambda>_. L) 2 xs c"
  using plain_key_inj [of _ L c] by (auto simp: cm_fits_def)

lemma plain_repr_ok:
  fixes c :: "'a::len word"
  assumes "L \<le> 32"
  shows "repr_ok (plain_dg L) (\<lambda>_. L) c (ucast (as_usize c))"
proof -
  have "bit (ucast (as_usize c) :: u32) (L - l - 1) = (plain_dg L l c = 1)" if "l < L" for l
  proof -
    have k: "L - l - 1 < 32" "L - 1 - l = L - l - 1" using assms that by simp_all
    have "bit (ucast (as_usize c) :: u32) (L - l - 1) = bit c (L - l - 1)"
      using k(1) by (simp add: as_usize_def bit_ucast_iff)
    also have "\<dots> = bit (unat c) (L - l - 1)" by (simp add: bit_unsigned_iff)
    finally show ?thesis by (simp add: plain_dg_def bdigit_def bit_iff_odd k(2) odd_iff_mod_2_eq_one)
  qed
  then show ?thesis using assms by (simp add: repr_ok_def)
qed

text \<open>The representation invariant of a plain tree.\<close>

definition wv_plain_ok :: "('b \<Rightarrow> bool list \<Rightarrow> bool) \<Rightarrow> 'a::len word list \<Rightarrow> ('a word, 'b) wavelet_tree \<Rightarrow> bool" where
  "wv_plain_ok brep xs t \<longleftrightarrow> wv_levels_ok brep (plain_dg (wv_n_levels t)) (\<lambda>_. wv_n_levels t) xs t
     \<and> wv_codes_encode t = None \<and> wv_codes_decode t = None
     \<and> (if xs = [] then wv_n_levels t = 0 \<and> wv_sigma t = None
        else wv_sigma t = Some (Max (set xs)) \<and> wv_n_levels t = msb_of (Max (set xs)) + 1)"

lemma plain_symbols:
  assumes "xs \<noteq> []" "x \<in> set xs"
  shows "unat x < 2 ^ (msb_of (Max (set xs)) + 1)"
proof -
  have "unat x \<le> unat (Max (set xs))" using assms(2) by (simp add: word_le_nat_alt [symmetric])
  then show ?thesis using unat_less_msb [of "Max (set xs)"] by simp
qed

context binary_tree begin

lemma wv_new_plain:
  fixes xs :: "'a::len word list"
  assumes "length xs < 2 ^ 43"
  shows "\<exists>t. wv_new B False cl xs = Some t \<and> wv_plain_ok brep xs t"
proof (cases "xs = []")
  case True
  then show ?thesis by (simp add: wv_new_def wv_plain_ok_def wv_levels_ok_def cm_ok_def)
next
  case False
  let ?s = "Max (set xs)"
  let ?L = "msb_of ?s + 1"
  let ?dg = "plain_dg ?L :: nat \<Rightarrow> 'a word \<Rightarrow> nat"
  have L: "?L \<le> LENGTH('a)" by (cases "?s = 0") (use msb_of_bounds(3) [of ?s] in \<open>auto simp: msb_of_def Suc_leI\<close>)
  have ok: "cm_ok ?dg (\<lambda>_. ?L) 2 xs" by (rule plain_cm_ok) (use plain_symbols [OF False] in auto)
  let ?Q = "\<lambda>l seq. length seq = length xs \<and> (l < ?L \<longrightarrow> seq = cm_level ?dg (\<lambda>_. ?L) 2 xs l)"
  have turn: "(\<forall>cur. \<forall>s\<in>set seq. wv_push None ?L (Suc l) cur s = (if l < ?L then bm_push cur (?dg l s = 1) else Some cur))
      \<and> (\<exists>seq'. (case None of Some codes_encode \<Rightarrow> stable_partition_of_2_with_codes seq (Suc l) codes_encode
          | None \<Rightarrow> do { k \<leftarrow> chk_sub ?L (Suc l); stable_partition_of_2 seq k }) = Some seq' \<and> ?Q (Suc l) seq')
      \<and> filter (\<lambda>x. l < ?L) seq = cm_level ?dg (\<lambda>_. ?L) 2 xs l \<and> length seq < 2 ^ 43"
    if l: "l < ?L" and Q: "?Q l seq" for seq l
  proof -
    have k: "?L - Suc l < LENGTH('a)" using L by linarith
    have dg: "bdigit (?L - Suc l) = ?dg l" by (rule ext) (simp add: plain_dg_def)
    have seq: "seq = cm_level ?dg (\<lambda>_. ?L) 2 xs l" using l Q by blast
    have "length (buckets (?dg l) 2 seq) = length seq" by (rule length_buckets) simp
    moreover have "buckets (?dg l) 2 seq = cm_level ?dg (\<lambda>_. ?L) 2 xs (Suc l)" if "Suc l < ?L"
      using that unfolding seq by simp
    moreover have "one_bit_T (?L - Suc l) s = Some (?dg l s)" for s :: "'a word" using one_bit_T_eq [OF k, of s] dg by simp
    ultimately show ?thesis
      using l Q assms seq stable_partition_of_2_eq [OF k, of seq] dg by (simp add: wv_push_def)
  qed
  from wv_levels_loop [where Q = ?Q and dg = ?dg and len = "\<lambda>_. ?L" and codes = None, OF turn] obtain seq bvs where
    loop: "foldM (wv_level B None ?L) (xs, [], []) [1..<?L + 1]
      = Some (seq, bvs, map (\<lambda>l. length (cm_level ?dg (\<lambda>_. ?L) 2 xs l)) [0..<?L])"
    "length seq = length xs" "length bvs = ?L" "\<forall>l<?L. brep (bvs ! l) (bits_of (cm_digits ?dg (\<lambda>_. ?L) 2 xs l))"
    by auto
  then show ?thesis using False ok assms
    by (simp add: wv_new_def Let_def wv_plain_ok_def wv_levels_ok_def del: upt_Suc)
qed

text \<open>The queries on a plain tree of at most 32 levels, and \<open>get\<close> on any.\<close>

lemma wv_plain_get:
  fixes xs :: "'a::len word list"
  assumes t: "wv_plain_ok brep xs t"
  shows "wv_get B False t i = Some (if i < length xs then T_from (of_nat (unat (xs ! i))) else None)"
    "i < length xs \<Longrightarrow> wv_get_unchecked B False t i = T_from (of_nat (unat (xs ! i)))"
proof -
  let ?L = "wv_n_levels t"
  have lv: "wv_levels_ok brep (plain_dg ?L) (\<lambda>_. ?L) xs t" and n: "wv_n t = length xs"
    using t by (simp_all add: wv_plain_ok_def wv_levels_ok_def)
  have v: "cm_val (plain_dg ?L) 2 ?L (xs ! i) = unat (xs ! i)" if i: "i < length xs"
  proof -
    have "xs \<noteq> []" using i by auto
    then have "unat (xs ! i) < 2 ^ ?L" using t plain_symbols [of xs "xs ! i"] i by (simp add: wv_plain_ok_def)
    then show ?thesis using plain_val [of ?L ?L "xs ! i"] by simp
  qed
  note loop = wv_get_loop_eq [OF lv, of i False 0]
  show "wv_get B False t i = Some (if i < length xs then T_from (of_nat (unat (xs ! i))) else None)"
    using loop v n by (simp add: wv_get_def)
  show "i < length xs \<Longrightarrow> wv_get_unchecked B False t i = T_from (of_nat (unat (xs ! i)))"
    using loop v by (simp add: wv_get_unchecked_def)
qed

lemma T_from_small:
  fixes x :: "'a::len word"
  assumes "unat x < 2 ^ 32"
  shows "T_from (of_nat (unat x)) = Some x"
proof -
  have "unat (of_nat (unat x) :: u32) = unat x" using assms by (intro unat_of_nat_small) simp
  moreover from this have "(ucast (of_nat (unat x) :: u32) :: 'a word) = x"
    using assms by (simp add: word_unat_eq_iff unsigned_ucast_eq unsigned_take_bit_eq take_bit_nat_eq_self)
  ultimately show ?thesis by (simp add: T_from_def)
qed

lemma wv_plain_symbol:
  fixes xs :: "'a::len word list"
  assumes t: "wv_plain_ok brep xs t" and ne: "xs \<noteq> []" and c: "c \<le> Max (set xs)" and L: "wv_n_levels t \<le> 32"
  shows "cm_fits (plain_dg (wv_n_levels t)) (\<lambda>_. wv_n_levels t) 2 xs c"
    "repr_ok (plain_dg (wv_n_levels t)) (\<lambda>_. wv_n_levels t) c (ucast (as_usize c))"
    "wv_repr False t c = Some (Some (wv_n_levels t, ucast (as_usize c)))"
proof -
  have lev: "wv_n_levels t = msb_of (Max (set xs)) + 1" "wv_sigma t = Some (Max (set xs))"
    using t ne by (simp_all add: wv_plain_ok_def)
  have "unat c \<le> unat (Max (set xs))" using c by (simp add: word_le_nat_alt)
  then have "unat c < 2 ^ wv_n_levels t" using unat_less_msb [of "Max (set xs)"] lev(1) by simp
  then show "cm_fits (plain_dg (wv_n_levels t)) (\<lambda>_. wv_n_levels t) 2 xs c"
    using plain_symbols [OF ne] lev(1) by (intro plain_cm_fits) auto
  show "repr_ok (plain_dg (wv_n_levels t)) (\<lambda>_. wv_n_levels t) c (ucast (as_usize c))" by (rule plain_repr_ok [OF L])
  show "wv_repr False t c = Some (Some (wv_n_levels t, ucast (as_usize c)))" using lev(2) c by (simp add: wv_repr_def)
qed

lemma wv_plain_rank:
  fixes xs :: "'a::len word list"
  assumes t: "wv_plain_ok brep xs t" and L: "wv_n_levels t \<le> 32"
  shows "wv_rank B False t c i = Some (if xs \<noteq> [] \<and> i \<le> length xs \<and> c \<le> Max (set xs) then Some (count_list (take i xs) c) else None)"
    "i \<le> length xs \<Longrightarrow> xs \<noteq> [] \<Longrightarrow> c \<le> Max (set xs) \<Longrightarrow> wv_rank_unchecked B False t c i = Some (count_list (take i xs) c)"
proof -
  have lv: "wv_levels_ok brep (plain_dg (wv_n_levels t)) (\<lambda>_. wv_n_levels t) xs t" and n: "wv_n t = length xs"
    using t by (simp_all add: wv_plain_ok_def wv_levels_ok_def)
  show unc: "wv_rank_unchecked B False t c i = Some (count_list (take i xs) c)" if "i \<le> length xs" "xs \<noteq> []" "c \<le> Max (set xs)"
    using wv_rank_unchecked_eq [OF lv _ that(2,1) order_refl] wv_plain_symbol [OF t that(2,3) L] by blast
  show "wv_rank B False t c i = Some (if xs \<noteq> [] \<and> i \<le> length xs \<and> c \<le> Max (set xs) then Some (count_list (take i xs) c) else None)"
  proof (cases "xs \<noteq> [] \<and> i \<le> length xs \<and> c \<le> Max (set xs)")
    case True
    then have a: "xs \<noteq> []" "i \<le> length xs" "c \<le> Max (set xs)" by simp_all
    note s = wv_plain_symbol [OF t a(1,3) L]
    show ?thesis using wv_rank_eq [OF lv s(1) a(1,2) order_refl s(2,3)] a by simp
  next
    case False
    have "wv_repr False t c = Some None" if "xs = [] \<or> \<not> c \<le> Max (set xs)"
      using t that by (cases "xs = []") (auto simp: wv_repr_def wv_plain_ok_def not_le)
    then show ?thesis using n False by (cases "length xs < i") (simp_all add: wv_rank_def)
  qed
qed

lemma wv_plain_select:
  fixes xs :: "'a::len word list"
  assumes t: "wv_plain_ok brep xs t" and L: "wv_n_levels t \<le> 32"
  shows "wv_select B False t c k = Some (if xs \<noteq> [] \<and> c \<le> Max (set xs) then select_of xs c k else None)"
proof (cases "xs \<noteq> [] \<and> c \<le> Max (set xs)")
  case True
  have lv: "wv_levels_ok brep (plain_dg (wv_n_levels t)) (\<lambda>_. wv_n_levels t) xs t" using t by (simp add: wv_plain_ok_def)
  have a: "xs \<noteq> []" "c \<le> Max (set xs)" using True by simp_all
  note s = wv_plain_symbol [OF t a L]
  show ?thesis using wv_select_eq [OF lv s(1) a(1) order_refl s(2,3)] a by simp
next
  case False
  then have "wv_repr False t c = Some None" using t by (auto simp: wv_repr_def wv_plain_ok_def not_le split: if_splits)
  then show ?thesis using False by (auto simp: wv_select_def)
qed

end

end
