(* ===== verification/BinWTCodes.thy ===== *)
theory BinWTCodes
  imports BinWTCorrect "HOL-Library.Multiset"
begin

text \<open>
  The codes \<open>craft_wm_codes\<close> assigns from their lengths. Read with the first digit as the least
  significant bit, the nodes that are still open are kept in decreasing order, and every symbol takes the
  largest of them: so a code is greater than the prefixes of that length of all later codes, which is
  what the code matrix needs. Nothing panics when the lengths are those of a complete code of at most
  32 bits.
\<close>

unbundle bit_operations_syntax

section \<open>Splitting the open nodes\<close>

lemma craft_split_loop:
  assumes "j \<le> m" "l < 32" "2 * m - j \<le> length c"
  shows "\<exists>c'. foldM (craft_split j m l) c [j..<m] = Some c' \<and> length c' = length c
    \<and> (\<forall>r<j. c' ! r = c ! r) \<and> (\<forall>r. j \<le> r \<and> r < m \<longrightarrow> c' ! r = c ! r OR push_bit l 1 \<and> c' ! (m - j + r) = c ! r)"
proof -
  let ?Inv = "\<lambda>k d. length d = length c \<and> (\<forall>r<j. d ! r = c ! r)
    \<and> (\<forall>r. k \<le> r \<and> r < m \<longrightarrow> d ! r = c ! r)
    \<and> (\<forall>r. j \<le> r \<and> r < k \<longrightarrow> d ! r = c ! r OR push_bit l 1 \<and> d ! (m - j + r) = c ! r)"
  have "\<exists>d'. craft_split j m l d k = Some d' \<and> ?Inv (Suc k) d'" if k: "j \<le> k" "k < m" and inv: "?Inv k d" for k d
  proof -
    have kl: "k < length d" "m - j + k < length d" using assms k inv by auto
    have dk: "d ! k = c ! k" using inv k by simp
    let ?d1 = "d[m - j + k := c ! k]"
    have ne: "m - j + k \<noteq> k" using k by simp
    have "craft_split j m l d k = Some (?d1[k := c ! k OR push_bit l 1])"
      using kl dk ne assms k by (simp add: craft_split_def shl_u32_def)
    moreover have "?Inv (Suc k) (?d1[k := c ! k OR push_bit l 1])"
    proof (intro conjI allI impI)
      fix r assume r: "j \<le> r \<and> r < Suc k"
      have "r \<noteq> m - j + k" "m - j + r \<noteq> k" using k r by linarith+
      then show "?d1[k := c ! k OR push_bit l 1] ! r = c ! r OR push_bit l 1" "?d1[k := c ! k OR push_bit l 1] ! (m - j + r) = c ! r"
        using inv kl r by (cases "r = k"; simp)+
    next
      fix r assume r: "Suc k \<le> r \<and> r < m"
      have "r \<noteq> m - j + k" "k \<noteq> r" using k r by linarith+
      then show "?d1[k := c ! k OR push_bit l 1] ! r = c ! r" using inv r by (metis nth_list_update_neq Suc_leD)
    qed (use inv k in simp_all)
    ultimately show ?thesis by blast
  qed
  then have "\<exists>s'. foldM (craft_split j m l) c [j..<m] = Some s' \<and> ?Inv m s'"
    by (rule foldM_from_inv [where Inv = ?Inv, OF assms(1), rotated]) auto
  then show ?thesis by blast
qed

lemma craft_reverse_loop:
  assumes "l \<le> 32"
  shows "\<exists>w. foldM (craft_reverse cj l) 0 [0..<l] = Some w
    \<and> (\<forall>p. bit w p \<longleftrightarrow> p < l \<and> bit cj (l - p - 1))"
proof -
  let ?Inv = "\<lambda>k w. \<forall>p. bit w p \<longleftrightarrow> l - k \<le> p \<and> p < l \<and> bit cj (l - p - 1)"
  have "\<exists>w'. craft_reverse cj l w k = Some w' \<and> ?Inv (Suc k) w'" if k: "k < l" and inv: "?Inv k w" for k w
  proof -
    let ?b = "push_bit (l - k - 1) (drop_bit k cj AND 1)"
    have one: "drop_bit k cj AND 1 = of_bool (bit cj k)" by (simp add: and_one_eq bit_iff_odd_drop_bit mod_2_eq_odd)
    have "bit ?b p \<longleftrightarrow> p = l - k - 1 \<and> bit cj k" for p
      unfolding one using k assms by (cases "bit cj k") (auto simp: bit_exp_iff)
    then have or: "bit (w OR ?b) p \<longleftrightarrow> bit w p \<or> p = l - k - 1 \<and> bit cj k" for p unfolding bit_or_iff by blast
    have "?Inv (Suc k) (w OR ?b)"
    proof
      fix p
      have "l - Suc k \<le> p \<and> p < l \<longleftrightarrow> (l - k \<le> p \<and> p < l) \<or> p = l - k - 1" "p = l - k - 1 \<Longrightarrow> l - p - 1 = k" using k by linarith+
      then show "bit (w OR ?b) p \<longleftrightarrow> l - Suc k \<le> p \<and> p < l \<and> bit cj (l - p - 1)" 
        unfolding or inv [rule_format] by (cases "p = l - k - 1") (simp; blast)+
    qed
    moreover have "craft_reverse cj l w k = Some (w OR ?b)" using k assms by (simp add: craft_reverse_def shr_u32_def shl_u32_def)
    ultimately show ?thesis by blast
  qed
  then have "\<exists>w. foldM (craft_reverse cj l) 0 [0..<l] = Some w \<and> ?Inv l w"
    by (rule foldM_upt_inv [where Inv = ?Inv, rotated]) simp_all
  then show ?thesis by auto
qed

lemma unat_or_high:
  assumes "unat (w :: u32) < 2 ^ l" "l < 32"
  shows "unat (w OR push_bit l 1) = unat w + 2 ^ l"
proof -
  have disj: "w AND push_bit l 1 = 0"
  proof (rule bit_word_eqI)
    fix p assume "p < LENGTH(32)"
    have "bit w p \<Longrightarrow> p < l" using assms(1) bit_of_nat_less [of "unat w" l p, where 'a = 32] by simp
    then show "bit (w AND push_bit l 1) p = bit (0 :: u32) p" by (auto simp: bit_and_iff bit_exp_iff)
  qed
  have "(2 :: nat) ^ l < 2 ^ LENGTH(32)" using assms(2) by (intro power_strict_increasing) simp_all
  then have u: "unat (push_bit l 1 :: u32) = 2 ^ l" using unat_of_nat_small [of "2 ^ l", where 'a = 32] by (simp only: push_bit_eq_mult mult_1 of_nat_power of_nat_numeral)
  have "unat (w OR push_bit l 1) = unat w OR unat (push_bit l 1 :: u32)" by (simp add: unsigned_or_eq)
  moreover have "unat w AND unat (push_bit l 1 :: u32) = 0" using arg_cong [OF disj, of unat] by (simp add: unsigned_and_eq)
  ultimately show ?thesis using disjunctive_add_eq_or [of "unat w" "2 ^ l"] unfolding u by simp
qed

section \<open>The open nodes\<close>

text \<open>
  Before code \<open>j\<close> is assigned the entries below \<open>j\<close> are the assigned codes and those from \<open>j\<close> to \<open>m\<close> the
  open nodes of level \<open>l\<close>. Their number is what the remaining lengths need.
\<close>

definition code_len :: "(nat \<times> u32) list \<Rightarrow> nat \<Rightarrow> nat" where
  "code_len f i = unat (snd (f ! i))"

definition craft_open :: "(nat \<times> u32) list \<Rightarrow> nat \<Rightarrow> nat \<Rightarrow> nat \<Rightarrow> u32 list \<Rightarrow> bool" where
  "craft_open f j m l c \<longleftrightarrow> j \<le> m \<and> m \<le> length f \<and> length c = length f \<and> l \<le> 32
     \<and> (m - j) * 2 ^ (32 - l) = (\<Sum>i\<in>{j..<length f}. 2 ^ (32 - code_len f i))
     \<and> (\<forall>i. j \<le> i \<and> i < m \<longrightarrow> unat (c ! i) < 2 ^ l)
     \<and> (\<forall>i k. j \<le> i \<and> i < k \<and> k < m \<longrightarrow> unat (c ! k) < unat (c ! i))
     \<and> (\<forall>i k. i < j \<and> i < k \<and> k < m \<longrightarrow> unat (c ! k) mod 2 ^ code_len f i < unat (c ! i))
     \<and> (\<forall>i<j. unat (c ! i) < 2 ^ code_len f i \<and> code_len f i \<le> l)"

lemma craft_openD:
  assumes "craft_open f j m l c"
  shows "j \<le> m" "m \<le> length f" "length c = length f" "l \<le> 32"
    "(m - j) * 2 ^ (32 - l) = (\<Sum>i\<in>{j..<length f}. 2 ^ (32 - code_len f i))"
    "j \<le> i \<Longrightarrow> i < m \<Longrightarrow> unat (c ! i) < 2 ^ l"
    "j \<le> i \<Longrightarrow> i < k \<Longrightarrow> k < m \<Longrightarrow> unat (c ! k) < unat (c ! i)"
    "i < j \<Longrightarrow> i < k \<Longrightarrow> k < m \<Longrightarrow> unat (c ! k) mod 2 ^ code_len f i < unat (c ! i)"
    "i < j \<Longrightarrow> unat (c ! i) < 2 ^ code_len f i" "i < j \<Longrightarrow> code_len f i \<le> l"
  using assms by (auto simp: craft_open_def)

definition lens_ok :: "(nat \<times> u32) list \<Rightarrow> bool" where
  "lens_ok f \<longleftrightarrow> (\<forall>i<length f. 0 < code_len f i \<and> code_len f i \<le> 32)
     \<and> (\<forall>i k. i \<le> k \<and> k < length f \<longrightarrow> code_len f i \<le> code_len f k)"

text \<open>The next level has room in the array.\<close>

lemma craft_room:
  assumes "craft_open f j m l c" "lens_ok f" "j < length f" "l < code_len f j"
  shows "2 * m - j \<le> length f" "l < 32"
proof -
  note o = craft_openD [OF assms(1)]
  show l: "l < 32" using assms(2-4) by (fastforce simp: lens_ok_def)
  have "(\<Sum>i\<in>{j..<length f}. (2 :: nat) ^ (32 - code_len f i)) \<le> (\<Sum>i\<in>{j..<length f}. 2 ^ (32 - Suc l))"
  proof (rule sum_mono)
    fix i assume "i \<in> {j..<length f}"
    then have "Suc l \<le> code_len f i" using assms(2,4) unfolding lens_ok_def by (fastforce dest: spec [of _ j])
    then show "(2 :: nat) ^ (32 - code_len f i) \<le> 2 ^ (32 - Suc l)" by (intro power_increasing) simp_all
  qed
  also have "\<dots> = (length f - j) * 2 ^ (32 - Suc l)" by simp
  finally have le: "(m - j) * 2 ^ (32 - l) \<le> (length f - j) * 2 ^ (32 - Suc l)" using o(5) by simp
  have "(2 :: nat) ^ (32 - l) = 2 * 2 ^ (32 - Suc l)" using l by (simp add: Suc_diff_Suc flip: power_Suc)
  then have "2 * (m - j) * 2 ^ (32 - Suc l) \<le> (length f - j) * 2 ^ (32 - Suc l)" using le by (simp add: ac_simps)
  then have "2 * (m - j) \<le> length f - j" by simp
  then show "2 * m - j \<le> length f" using o(1) assms(3) by linarith
qed

lemma mod_add_high: "n \<le> l \<Longrightarrow> (v + 2 ^ l) mod 2 ^ n = v mod (2 :: nat) ^ n"
  by (simp add: le_imp_power_dvd mod_add_right_eq [symmetric, of v "2 ^ l"])

lemma craft_grow_open:
  assumes o: "craft_open f j (cs_m st) (cs_l st) (cs_c st)" and ok: "lens_ok f" and j: "j < length f" and l: "cs_l st < code_len f j"
  shows "\<exists>c'. craft_grow j st u = Some (st\<lparr>cs_c := c', cs_m := 2 * cs_m st - j, cs_l := cs_l st + 1\<rparr>)
    \<and> craft_open f j (2 * cs_m st - j) (cs_l st + 1) c' \<and> (\<forall>i<j. c' ! i = cs_c st ! i)"
proof -
  let ?c = "cs_c st" and ?m = "cs_m st" and ?l = "cs_l st"
  let ?m' = "2 * ?m - j"
  note od = craft_openD [OF o] and room = craft_room [OF o ok j l]
  obtain c' where c': "foldM (craft_split j ?m ?l) ?c [j..<?m] = Some c'" "length c' = length ?c" "\<forall>r<j. c' ! r = ?c ! r"
    "\<And>r. j \<le> r \<Longrightarrow> r < ?m \<Longrightarrow> c' ! r = ?c ! r OR push_bit ?l 1 \<and> c' ! (?m - j + r) = ?c ! r"
    using craft_split_loop [OF od(1) room(2), of ?c] room(1) od(3) by auto
  have lo: "unat (c' ! i) = unat (?c ! i) + 2 ^ ?l" if "j \<le> i" "i < ?m" for i
    using c'(4) [OF that] unat_or_high [OF od(6) [OF that] room(2)] by simp
  have hi: "\<exists>r. j \<le> r \<and> r < ?m \<and> i = ?m - j + r \<and> c' ! i = ?c ! r" if "?m \<le> i" "i < ?m'" for i
    by (rule exI [of _ "i - (?m - j)"]) (use that od(1) c'(4) [of "i - (?m - j)"] in auto)
  have "craft_open f j ?m' (?l + 1) c'"
    unfolding craft_open_def
  proof (intro conjI allI impI)
    have "(2 :: nat) ^ (32 - ?l) = 2 * 2 ^ (32 - (?l + 1))" using room(2) by (simp add: Suc_diff_Suc flip: power_Suc)
    moreover have "?m' - j = 2 * (?m - j)" by simp
    ultimately show "(?m' - j) * 2 ^ (32 - (?l + 1)) = (\<Sum>i\<in>{j..<length f}. 2 ^ (32 - code_len f i))" using od(5) by simp
  next
    fix i assume i: "j \<le> i \<and> i < ?m'"
    show "unat (c' ! i) < 2 ^ (?l + 1)"
    proof (cases "i < ?m")
      case True
      then show ?thesis using lo [of i] i od(6) [of i] by simp
    next
      case False
      then obtain r where "j \<le> r" "r < ?m" "c' ! i = ?c ! r" using hi [of i] i by auto
      then show ?thesis using od(6) [of r] by simp
    qed
  next
    fix i k assume ik: "j \<le> i \<and> i < k \<and> k < ?m'"
    show "unat (c' ! k) < unat (c' ! i)"
    proof (cases "k < ?m")
      case True
      then show ?thesis using lo [of i] lo [of k] ik od(7) [of i k] by simp
    next
      case False
      then obtain r where r: "j \<le> r" "r < ?m" "k = ?m - j + r" "c' ! k = ?c ! r" using hi [of k] ik by auto
      show ?thesis
      proof (cases "i < ?m")
        case True
        then show ?thesis using lo [of i] od(6) [of r] r ik by simp
      next
        case False
        then obtain r' where r': "j \<le> r'" "r' < ?m" "i = ?m - j + r'" "c' ! i = ?c ! r'" using hi [of i] ik by auto
        have "r' < r" using ik r(3) r'(3) by linarith
        then show ?thesis using od(7) [of r' r] r r' by simp
      qed
    qed
  next
    fix i k assume ik: "i < j \<and> i < k \<and> k < ?m'"
    have old: "c' ! i = ?c ! i" "code_len f i \<le> ?l" using c'(3) od(10) ik by auto
    consider "k < j" | "j \<le> k" "k < ?m" | "?m \<le> k" by linarith
    then show "unat (c' ! k) mod 2 ^ code_len f i < unat (c' ! i)"
    proof cases
      case 1
      then show ?thesis using c'(3) od(8) [of i k] ik od(1) old by simp
    next
      case 2
      then show ?thesis using lo [of k] od(8) [of i k] ik old mod_add_high [OF old(2)] by simp
    next
      case 3
      then obtain r where "j \<le> r" "r < ?m" "c' ! k = ?c ! r" using hi [of k] ik by auto
      then show ?thesis using od(8) [of i r] ik old by simp
    qed
  next
    fix i assume "i < j"
    then show "unat (c' ! i) < 2 ^ code_len f i" "code_len f i \<le> ?l + 1" using c'(3) od(9,10) [of i] by simp_all
  qed (use od room c'(2) in simp_all)
  then show ?thesis using c'(1,3) od(1) by (intro exI [of _ c']) (simp add: craft_grow_def)
qed

section \<open>Assigning the codes\<close>

definition craft_inv :: "(nat \<times> u32) list \<Rightarrow> nat \<Rightarrow> nat \<Rightarrow> craft_state \<Rightarrow> bool" where
  "craft_inv f sigma j st \<longleftrightarrow> craft_open f j (cs_m st) (cs_l st) (cs_c st) \<and> (j < length f \<longrightarrow> cs_l st \<le> code_len f j)
     \<and> length (cs_assignments st) = sigma + 1
     \<and> (\<forall>i<j. pc_len (cs_assignments st ! fst (f ! i)) = snd (f ! i)
         \<and> (\<forall>p. bit (pc_content (cs_assignments st ! fst (f ! i))) p \<longleftrightarrow> p < code_len f i \<and> bit (cs_c st ! i) (code_len f i - p - 1)))
     \<and> (\<forall>s. s \<le> sigma \<and> s \<notin> fst ` set (take j f) \<longrightarrow> pc_len (cs_assignments st ! s) = 0)"

lemma craft_grow_loop:
  assumes o: "craft_open f j (cs_m st) (cs_l st) (cs_c st)" and ok: "lens_ok f" and j: "j < length f" and l: "cs_l st \<le> code_len f j"
  shows "\<exists>st'. foldM (craft_grow j) st [cs_l st..<code_len f j] = Some st'
    \<and> craft_open f j (cs_m st') (code_len f j) (cs_c st') \<and> cs_l st' = code_len f j
    \<and> cs_assignments st' = cs_assignments st \<and> (\<forall>i<j. cs_c st' ! i = cs_c st ! i)"
proof -
  let ?Inv = "\<lambda>k s. craft_open f j (cs_m s) (cs_l s) (cs_c s) \<and> cs_l s = k
    \<and> cs_assignments s = cs_assignments st \<and> (\<forall>i<j. cs_c s ! i = cs_c st ! i)"
  have "\<exists>s'. craft_grow j s k = Some s' \<and> ?Inv (Suc k) s'" if "cs_l st \<le> k" "k < code_len f j" "?Inv k s" for k s
  proof -
    have so: "craft_open f j (cs_m s) (cs_l s) (cs_c s)" using that(3) by blast
    have sl: "cs_l s < code_len f j" using that by simp
    obtain c' where "craft_grow j s k = Some (s\<lparr>cs_c := c', cs_m := 2 * cs_m s - j, cs_l := cs_l s + 1\<rparr>)"
      "craft_open f j (2 * cs_m s - j) (cs_l s + 1) c'" "\<forall>i<j. c' ! i = cs_c s ! i"
      using craft_grow_open [OF so ok j sl, of k] by blast
    then show ?thesis using that(3) by simp
  qed
  from foldM_from_inv [where Inv = ?Inv and f = "craft_grow j" and s = st, OF l _ this] o
  obtain st' where "foldM (craft_grow j) st [cs_l st..<code_len f j] = Some st'" "?Inv (code_len f j) st'" by blast
  then show ?thesis by auto
qed

lemma craft_assign_open:
  assumes o: "craft_open f j m (code_len f j) c" and j: "j < length f"
  shows "craft_open f (Suc j) m (code_len f j) c" "j < m"
proof -
  note od = craft_openD [OF o]
  let ?l = "code_len f j"
  have sum: "(\<Sum>i\<in>{j..<length f}. (2 :: nat) ^ (32 - code_len f i)) = 2 ^ (32 - ?l) + (\<Sum>i\<in>{Suc j..<length f}. 2 ^ (32 - code_len f i))"
    using j by (simp add: sum.atLeast_Suc_lessThan)
  then have eq: "(m - j) * 2 ^ (32 - ?l) = 2 ^ (32 - ?l) + (\<Sum>i\<in>{Suc j..<length f}. 2 ^ (32 - code_len f i))" using od(5) by simp
  show jm: "j < m"
  proof (rule ccontr)
    assume "\<not> j < m"
    then have "(m - j) * 2 ^ (32 - ?l) = 0" by simp
    then show False using eq by simp
  qed
  obtain d where d: "m - j = Suc d" using jm by (cases "m - j") auto
  then have "m - Suc j = d" by simp
  then have sum': "(m - Suc j) * 2 ^ (32 - ?l) = (\<Sum>i\<in>{Suc j..<length f}. 2 ^ (32 - code_len f i))" using eq d by simp
  have pre: "unat (c ! k) mod 2 ^ code_len f i < unat (c ! i)" if "i < Suc j" "i < k" "k < m" for i k
  proof (cases "i = j")
    case True
    have "unat (c ! k) < unat (c ! j)" "unat (c ! k) < 2 ^ ?l" using od(7) [of j k] od(6) [of k] that True by simp_all
    then show ?thesis using True by simp
  qed (use od(8) [of i k] that in simp)
  have small: "unat (c ! i) < 2 ^ code_len f i \<and> code_len f i \<le> ?l" if "i < Suc j" for i
    using od(6) [of j] od(9,10) [of i] that jm by (cases "i = j") simp_all
  show "craft_open f (Suc j) m ?l c"
    unfolding craft_open_def using jm od(2,3,4) sum' od(6,7) pre small by (simp add: Suc_le_eq)
qed

lemma craft_step_inv:
  assumes inv: "craft_inv f sigma j st" and ok: "lens_ok f" and j: "j < length f"
    and syms: "distinct (map fst f)" "\<forall>s\<in>fst ` set f. s \<le> sigma"
  shows "\<exists>st'. craft_step f st j = Some st' \<and> craft_inv f sigma (Suc j) st'"
proof -
  let ?s = "fst (f ! j)" and ?len = "code_len f j"
  have inv': "craft_open f j (cs_m st) (cs_l st) (cs_c st)" "cs_l st \<le> ?len" using inv j by (simp_all add: craft_inv_def)
  obtain st1 where st1: "foldM (craft_grow j) st [cs_l st..<?len] = Some st1" "craft_open f j (cs_m st1) ?len (cs_c st1)"
    "cs_l st1 = ?len" "cs_assignments st1 = cs_assignments st" "\<forall>i<j. cs_c st1 ! i = cs_c st ! i"
    using craft_grow_loop [OF inv'(1) ok j inv'(2)] by blast
  note asg = craft_assign_open [OF st1(2) j]
  have len32: "?len \<le> 32" "0 < ?len" using ok j by (simp_all add: lens_ok_def)
  obtain w where w: "foldM (craft_reverse (cs_c st1 ! j) ?len) 0 [0..<?len] = Some w"
    "\<forall>p. bit w p \<longleftrightarrow> p < ?len \<and> bit (cs_c st1 ! j) (?len - p - 1)"
    using craft_reverse_loop [OF len32(1)] by blast
  have cj: "idx (cs_c st1) j = Some (cs_c st1 ! j)" using craft_openD(2,3) [OF st1(2)] asg(2) by simp
  have sl: "?s < length (cs_assignments st)" using syms(2) j inv by (auto simp: craft_inv_def less_Suc_eq_le)
  have lenw: "of_nat ?len = snd (f ! j)" by (simp add: code_len_def)
  let ?as = "(cs_assignments st)[?s := \<lparr>pc_content = w, pc_len = snd (f ! j)\<rparr>]"
  obtain sy ln where fj: "f ! j = (sy, ln)" by fastforce
  have step: "craft_step f st j = Some (st1\<lparr>cs_assignments := ?as\<rparr>)"
    using st1(1,3,4) w(1) cj sl j lenw unfolding fj by (simp add: craft_step_def fj code_len_def)
  have other: "fst (f ! i) \<noteq> ?s" if "i < j" for i
  proof -
    have "map fst f ! i \<noteq> map fst f ! j" using syms(1) that j by (subst nth_eq_iff_index_eq) simp_all
    then show ?thesis using that j by simp
  qed
  have "craft_inv f sigma (Suc j) (st1\<lparr>cs_assignments := ?as\<rparr>)"
    unfolding craft_inv_def
  proof (intro conjI allI impI)
    show "craft_open f (Suc j) (cs_m (st1\<lparr>cs_assignments := ?as\<rparr>)) (cs_l (st1\<lparr>cs_assignments := ?as\<rparr>)) (cs_c (st1\<lparr>cs_assignments := ?as\<rparr>))"
      using asg(1) st1(3) by simp
    show "cs_l (st1\<lparr>cs_assignments := ?as\<rparr>) \<le> code_len f (Suc j)" if "Suc j < length f"
      using ok that st1(3) by (simp add: lens_ok_def)
    show "length (cs_assignments (st1\<lparr>cs_assignments := ?as\<rparr>)) = sigma + 1" using inv by (simp add: craft_inv_def)
  next
    fix i assume i: "i < Suc j"
    show "pc_len (cs_assignments (st1\<lparr>cs_assignments := ?as\<rparr>) ! fst (f ! i)) = snd (f ! i)"
      using i inv other [of i] sl by (cases "i = j") (simp_all add: craft_inv_def)
    fix p
    show "bit (pc_content (cs_assignments (st1\<lparr>cs_assignments := ?as\<rparr>) ! fst (f ! i))) p
        \<longleftrightarrow> p < code_len f i \<and> bit (cs_c (st1\<lparr>cs_assignments := ?as\<rparr>) ! i) (code_len f i - p - 1)"
      using i inv other [of i] sl w(2) st1(5) by (cases "i = j") (simp_all add: craft_inv_def)
  next
    fix s assume s: "s \<le> sigma \<and> s \<notin> fst ` set (take (Suc j) f)"
    then have "s \<noteq> ?s" "s \<notin> fst ` set (take j f)" using j by (simp_all add: take_Suc_conv_app_nth)
    then show "pc_len (cs_assignments (st1\<lparr>cs_assignments := ?as\<rparr>) ! s) = 0" using inv s by (simp add: craft_inv_def)
  qed
  then show ?thesis using step by blast
qed

section \<open>The codes\<close>

text \<open>
  What the crate promises of the lengths: they are those of a complete prefix code, here of at most 32
  bits. Only then do the codes fit the \<open>u32\<close> contents and the array of open nodes.
\<close>

definition complete_code :: "(nat \<times> u32) list \<Rightarrow> bool" where
  "complete_code ls \<longleftrightarrow> ls \<noteq> [] \<and> distinct (map fst ls) \<and> (\<forall>l\<in>snd ` set ls. 0 < unat l \<and> unat l \<le> 32)
     \<and> sum_list (map (\<lambda>(s, l). 2 ^ (32 - unat l)) ls) = (2 :: nat) ^ 32"

definition code_width :: "prefix_code list \<Rightarrow> nat \<Rightarrow> nat" where
  "code_width codes s = unat (pc_len (codes ! s))"

text \<open>Digit \<open>l\<close> of the code of \<open>s\<close>, the first the most significant bit of the content.\<close>

definition code_dg :: "prefix_code list \<Rightarrow> nat \<Rightarrow> nat \<Rightarrow> nat" where
  "code_dg codes l s = of_bool (l < code_width codes s \<and> bit (pc_content (codes ! s)) (code_width codes s - l - 1))"

definition codes_ok :: "(nat \<times> u32) list \<Rightarrow> nat \<Rightarrow> prefix_code list \<Rightarrow> bool" where
  "codes_ok ls sigma codes \<longleftrightarrow> length codes = sigma + 1
     \<and> (\<forall>s. s \<le> sigma \<longrightarrow> (0 < code_width codes s \<longleftrightarrow> s \<in> fst ` set ls))
     \<and> (\<forall>s\<in>fst ` set ls. code_width codes s \<le> 32 \<and> unat (pc_content (codes ! s)) < 2 ^ code_width codes s)
     \<and> (\<forall>s l. (s, l) \<in> set ls \<longrightarrow> pc_len (codes ! s) = l)
     \<and> (\<forall>ss. set ss \<subseteq> fst ` set ls \<longrightarrow> cm_ok (code_dg codes) (code_width codes) 2 ss)"

lemma cm_key_bits:
  assumes "\<And>t. t < m \<Longrightarrow> dg t x = of_bool (bit v t)"
  shows "cm_key dg 2 m x = v mod 2 ^ m"
  using assms
proof (induction m)
  case (Suc m)
  have "take_bit (Suc m) v = of_bool (bit v m) * 2 ^ m + take_bit m v"
    by (simp add: take_bit_Suc_from_most mult.commute)
  then show ?case using Suc by (simp add: take_bit_eq_mod)
qed simp

lemma unat_less_of_bits:
  assumes "\<And>p. bit (w :: 'a::len word) p \<Longrightarrow> p < n"
  shows "unat w < 2 ^ n"
proof -
  have "take_bit n (unat w) = unat w"
  proof (rule bit_eqI)
    fix p
    show "bit (take_bit n (unat w)) p = bit (unat w) p" using assms [of p] by (auto simp: bit_take_bit_iff bit_unsigned_iff)
  qed
  then show ?thesis by (metis take_bit_nat_less_exp)
qed

lemma craft_inv_codes_ok:
  assumes inv: "craft_inv f sigma (length f) st" and ok: "lens_ok f" and sigma: "\<forall>s\<in>fst ` set f. s \<le> sigma"
  shows "codes_ok f sigma (cs_assignments st)"
proof -
  let ?codes = "cs_assignments st" and ?A = "length f" and ?c = "cs_c st"
  have o: "craft_open f ?A (cs_m st) (cs_l st) ?c" using inv by (simp add: craft_inv_def)
  note od = craft_openD [OF o]
  have m: "cs_m st = ?A" using od(1,2) by simp
  have w: "code_width ?codes (fst (f ! i)) = code_len f i" if "i < ?A" for i
    using inv that by (simp add: craft_inv_def code_width_def code_len_def)
  have bits: "bit (pc_content (?codes ! fst (f ! i))) p \<longleftrightarrow> p < code_len f i \<and> bit (?c ! i) (code_len f i - p - 1)" if "i < ?A" for i p
    using inv that by (simp add: craft_inv_def)
  have dg: "code_dg ?codes t (fst (f ! i)) = of_bool (bit (unat (?c ! i)) t)" if "i < ?A" "t < code_len f i" for i t
  proof -
    have "code_len f i - t - 1 < code_len f i" "code_len f i - (code_len f i - t - 1) - 1 = t" using that(2) by linarith+
    then show ?thesis using that w [OF that(1)] bits [OF that(1)] by (simp add: code_dg_def bit_unsigned_iff)
  qed
  have key: "cm_key (code_dg ?codes) 2 n (fst (f ! i)) = unat (?c ! i) mod 2 ^ n" if "i < ?A" "n \<le> code_len f i" for i n
    by (rule cm_key_bits) (use dg that in simp)
  have mem: "\<exists>i<?A. fst (f ! i) = s" if "s \<in> fst ` set f" for s using that by (metis imageE in_set_conv_nth)
  have pos: "0 < code_len f i" "code_len f i \<le> 32" if "i < ?A" for i using ok that by (simp_all add: lens_ok_def)
  have le: "code_len f i \<le> code_len f k" if "i \<le> k" "k < ?A" for i k using ok that by (simp add: lens_ok_def)
  have cm: "cm_ok (code_dg ?codes) (code_width ?codes) 2 ss" if ss: "set ss \<subseteq> fst ` set f" for ss
  proof (rule cm_ok_of_values [where v = "\<lambda>i. unat (?c ! i)"])
    show "\<exists>i<?A. fst (f ! i) = x" if "x \<in> set ss" for x using mem ss that by blast
    show "unat (?c ! k) mod 2 ^ code_len f i < unat (?c ! i)" if "i < k" "k < ?A" for i k using od(8) [of i k] that m by simp
  qed (use w pos le key od(9) in \<open>simp_all add: code_dg_def\<close>)
  show ?thesis
    unfolding codes_ok_def
  proof (intro conjI allI impI ballI)
    show "length ?codes = sigma + 1" using inv by (simp add: craft_inv_def)
  next
    fix s assume s: "s \<le> sigma"
    show "0 < code_width ?codes s \<longleftrightarrow> s \<in> fst ` set f"
    proof (cases "s \<in> fst ` set f")
      case True
      from mem [OF this] obtain i where "i < ?A" "fst (f ! i) = s" by blast
      then show ?thesis using w pos True by auto
    next
      case False
      then have "pc_len (?codes ! s) = 0" using inv s by (simp add: craft_inv_def)
      then show ?thesis using False by (simp add: code_width_def)
    qed
  next
    fix s assume s: "s \<in> fst ` set f"
    from mem [OF this] obtain i where i: "i < ?A" "fst (f ! i) = s" by blast
    show "code_width ?codes s \<le> 32" using w [OF i(1)] pos(2) [OF i(1)] i(2) by simp
    show "unat (pc_content (?codes ! s)) < 2 ^ code_width ?codes s"
      by (rule unat_less_of_bits) (use bits [OF i(1)] w [OF i(1)] i(2) in simp)
  next
    fix s l assume "(s, l) \<in> set f"
    then obtain i where "i < ?A" "f ! i = (s, l)" by (auto simp: in_set_conv_nth)
    then show "pc_len (?codes ! s) = l" using inv by (auto simp: craft_inv_def)
  qed (use cm in blast)
qed

lemma craft_wm_codes_ok:
  assumes c: "complete_code ls" and sigma: "\<forall>s\<in>fst ` set ls. s \<le> sigma"
    and small: "sigma + 1 < 2 ^ 60"
  shows "\<exists>codes. craft_wm_codes ls sigma = Some codes \<and> codes_ok ls sigma codes"
proof -
  let ?f = "sort_key snd ls"
  let ?A = "length ?f"
  have syms: "distinct (map fst ?f)" "\<forall>s\<in>fst ` set ?f. s \<le> sigma"
    using c sigma by (auto simp: complete_code_def distinct_map)
  have srt: "sorted (map snd ?f)" by simp
  have ok: "lens_ok ?f"
    unfolding lens_ok_def
  proof (intro conjI allI impI)
    fix i assume "i < ?A"
    then have "snd (?f ! i) \<in> snd ` set ?f" by (metis nth_mem imageI)
    then have "snd (?f ! i) \<in> snd ` set ls" by (simp only: set_sort)
    then show "0 < code_len ?f i" "code_len ?f i \<le> 32" using c by (simp_all only: complete_code_def code_len_def)
  next
    fix i k assume "i \<le> k \<and> k < ?A"
    then have "map snd ?f ! i \<le> map snd ?f ! k" using srt by (intro sorted_nth_mono) simp_all
    then show "code_len ?f i \<le> code_len ?f k" using \<open>i \<le> k \<and> k < ?A\<close> by (simp add: code_len_def word_le_nat_alt)
  qed
  let ?st = "\<lparr>cs_c = replicate (length ls) 0, cs_assignments = replicate (sigma + 1) \<lparr>pc_content = 0, pc_len = 0\<rparr>, cs_m = 1, cs_l = 0\<rparr>"
  have "sum_list (map (\<lambda>(s, l). 2 ^ (32 - unat l)) ?f) = (\<Sum>i\<in>{0..<?A}. (2 :: nat) ^ (32 - code_len ?f i))"
    by (simp add: sum_list_sum_nth code_len_def case_prod_beta)
  moreover have "mset (map (\<lambda>(s, l). (2 :: nat) ^ (32 - unat l)) ?f) = mset (map (\<lambda>(s, l). 2 ^ (32 - unat l)) ls)" by simp
  then have "sum_list (map (\<lambda>(s, l). (2 :: nat) ^ (32 - unat l)) ?f) = sum_list (map (\<lambda>(s, l). 2 ^ (32 - unat l)) ls)"
    by (metis sum_mset_sum_list)
  ultimately have sum: "(\<Sum>i\<in>{0..<?A}. (2 :: nat) ^ (32 - code_len ?f i)) = 2 ^ 32" using c by (simp add: complete_code_def)
  have "0 < length ls" using c by (simp add: complete_code_def)
  then have "craft_open ?f 0 1 0 (replicate (length ls) 0)" using sum by (simp add: craft_open_def Suc_leI)
  moreover have "pc_len (replicate (sigma + 1) \<lparr>pc_content = 0, pc_len = 0\<rparr> ! s) = 0" if "s \<le> sigma" for s
    using that by (subst nth_replicate) simp_all
  ultimately have init: "craft_inv ?f sigma 0 ?st" by (simp add: craft_inv_def del: replicate_Suc)
  have "\<exists>st. foldM (craft_step ?f) ?st [0..<?A] = Some st \<and> craft_inv ?f sigma ?A st"
    by (rule foldM_upt_inv [where Inv = "craft_inv ?f sigma", OF init]) (rule craft_step_inv [OF _ ok _ syms])
  then obtain st where st: "foldM (craft_step ?f) ?st [0..<?A] = Some st" "craft_inv ?f sigma ?A st" by blast
  have "codes_ok ?f sigma (cs_assignments st)" by (rule craft_inv_codes_ok [OF st(2) ok syms(2)])
  then have "codes_ok ls sigma (cs_assignments st)" by (simp add: codes_ok_def)
  moreover have "craft_wm_codes ls sigma = Some (cs_assignments st)" using st(1) small by (simp add: craft_wm_codes_def vec_of_def Let_def del: replicate_Suc)
  ultimately show ?thesis by blast
qed

lemma craft_wm_codes_huge: "2 ^ 60 \<le> sigma + 1 \<Longrightarrow> craft_wm_codes ls sigma = None"
  by (simp add: craft_wm_codes_def add_usize_def vec_of_def Let_def)

end
