(* ===== verification/CodeTables.thy ===== *)
theory CodeTables
  imports BinWTCodes
begin

text \<open>
  The tables of the compressed trees: the codes by symbol and, for each length, the codes of that length
  with their symbols, ordered by content. What searching them answers, for any table of codes that
  gives exactly the symbols of the sequence a code, and no two symbols the same one.
\<close>

section \<open>Codes of the symbols\<close>

definition comp_len :: "prefix_code list \<Rightarrow> 'a::len word \<Rightarrow> nat" where
  "comp_len codes x = code_width codes (unat (as_usize x))"

definition coded :: "prefix_code list \<Rightarrow> 'a::len word list \<Rightarrow> bool" where
  "coded codes xs \<longleftrightarrow> LENGTH('a) \<le> 64 \<and> length codes \<le> 2 ^ LENGTH('a)
     \<and> (\<forall>x. x \<in> set xs \<longleftrightarrow> unat x < length codes \<and> pc_len (codes ! unat x) \<noteq> 0)
     \<and> (\<forall>x\<in>set xs. \<forall>y\<in>set xs. codes ! unat x = codes ! unat y \<longrightarrow> x = y)"

lemma codedD:
  fixes xs :: "'a::len word list"
  assumes "coded codes xs"
  shows "unat (as_usize (x :: 'a word)) = unat x" "comp_len codes x = unat (pc_len (codes ! unat x))"
    "x \<in> set xs \<longleftrightarrow> unat x < length codes \<and> pc_len (codes ! unat x) \<noteq> 0"
    "x \<in> set xs \<Longrightarrow> 0 < comp_len codes x" "length codes \<le> 2 ^ LENGTH('a)"
proof -
  have w: "LENGTH('a) \<le> 64" using assms by (simp add: coded_def)
  show u: "unat (as_usize x) = unat x" for x :: "'a word" by (rule unat_as_usize [OF w])
  show c: "comp_len codes x = unat (pc_len (codes ! unat x))" for x :: "'a word" by (simp add: comp_len_def code_width_def u)
  show "x \<in> set xs \<longleftrightarrow> unat x < length codes \<and> pc_len (codes ! unat x) \<noteq> 0" "length codes \<le> 2 ^ LENGTH('a)"
    using assms unfolding coded_def by blast+
  then show "x \<in> set xs \<Longrightarrow> 0 < comp_len codes x" unfolding c by (simp add: unat_gt_0)
qed

lemma coded_unique:
  assumes "coded codes xs" "x \<in> set xs" "y \<in> set xs" "comp_len codes x = comp_len codes y"
    "pc_content (codes ! unat x) = pc_content (codes ! unat y)"
  shows "x = y"
proof -
  have "pc_len (codes ! unat x) = pc_len (codes ! unat y)" using assms(4) unfolding codedD(2) [OF assms(1)] by (simp add: word_unat_eq_iff)
  then have "codes ! unat x = codes ! unat y" using assms(5) by (simp add: prefix_code.equality)
  then show ?thesis using assms(1-3) unfolding coded_def by blast
qed

section \<open>The decoding tables\<close>

definition code_row :: "prefix_code list \<Rightarrow> nat \<Rightarrow> (u32 \<times> 'a::len word) list" where
  "code_row codes l = map (\<lambda>(i, c). (pc_content c, of_nat i)) (filter (\<lambda>(i, c). unat (pc_len c) = l \<and> l \<noteq> 0) (zip [0..<length codes] codes))"

lemma decoder_loop:
  assumes "\<forall>c\<in>snd ` set ics. unat (pc_len c) < length rows"
  shows "foldM decoder_push rows ics = Some (map (\<lambda>l. rows ! l
    @ map (\<lambda>(i, c). (pc_content c, of_nat i)) (filter (\<lambda>(i, c). unat (pc_len c) = l \<and> l \<noteq> 0) ics)) [0..<length rows])"
  using assms
proof (induction ics arbitrary: rows)
  case Nil
  then show ?case by (simp add: map_nth)
next
  case (Cons ic ics)
  obtain i c where ic: "ic = (i, c)" by (cases ic)
  let ?l = "unat (pc_len c)"
  show ?case
  proof (cases "pc_len c = 0")
    case True
    then have "unat (pc_len c) = l \<and> l \<noteq> 0 \<longleftrightarrow> False" for l by auto
    then show ?thesis using Cons True by (simp add: ic decoder_push_def)
  next
    case False
    then have l: "?l < length rows" "?l \<noteq> 0" using Cons.prems by (simp_all add: ic unsigned_eq_0_iff)
    let ?rows = "rows[?l := rows ! ?l @ [(pc_content c, of_nat i)]]"
    have "decoder_push rows ic = Some ?rows" using False l by (simp add: ic decoder_push_def)
    moreover have "foldM decoder_push ?rows ics = Some (map (\<lambda>l. ?rows ! l
        @ map (\<lambda>(i, c). (pc_content c, of_nat i)) (filter (\<lambda>(i, c). unat (pc_len c) = l \<and> l \<noteq> 0) ics)) [0..<length rows])"
      using Cons.IH [of ?rows] Cons.prems by simp
    moreover have "?rows ! k @ map (\<lambda>(i, c). (pc_content c, of_nat i)) (filter (\<lambda>(i, c). unat (pc_len c) = k \<and> k \<noteq> 0) ics)
        = rows ! k @ map (\<lambda>(i, c). (pc_content c, of_nat i)) (filter (\<lambda>(i, c). unat (pc_len c) = k \<and> k \<noteq> 0) (ic # ics))"
      if "k < length rows" for k
      using l that by (cases "k = ?l") (auto simp: ic)
    ultimately show ?thesis by simp
  qed
qed

text \<open>The binary search: its result is an entry with the code, and on a sorted row it finds one if there is one.\<close>

lemma search_loop_less: "0 < n \<Longrightarrow> search_loop w row base n < base + n"
proof (induction w row base n rule: search_loop.induct)
  case (1 w row base n)
  show ?case
  proof (cases "n \<le> 1")
    case False
    let ?h = "n div 2"
    have h: "0 < ?h" "?h < n" using False by simp_all
    have "search_loop w row (if fst (row ! (base + ?h)) > w then base else base + ?h) (n - ?h)
      < (if fst (row ! (base + ?h)) > w then base else base + ?h) + (n - ?h)"
      using 1 False h by (auto simp: Let_def)
    then show ?thesis using False h by (subst search_loop.simps) (auto simp: Let_def split: if_splits)
  qed (use 1 in \<open>simp add: search_loop.simps\<close>)
qed

lemma search_loop_finds:
  assumes "sorted (map fst row)" "\<exists>j. base \<le> j \<and> j < base + n \<and> fst (row ! j) = w" "base + n \<le> length row"
  shows "fst (row ! search_loop w row base n) = w"
  using assms
proof (induction w row base n rule: search_loop.induct)
  case (1 w row base n)
  obtain j where j: "base \<le> j" "j < base + n" "fst (row ! j) = w" using "1.prems"(2) by blast
  show ?case
  proof (cases "n \<le> 1")
    case True
    then have "j = base" using j by simp
    then have "fst (row ! base) = w" using j(3) by blast
    then show ?thesis using True by (simp add: search_loop.simps)
  next
    case False
    let ?h = "n div 2" and ?mid = "base + n div 2"
    let ?b = "if fst (row ! ?mid) > w then base else ?mid"
    have h: "0 < ?h" "?h < n" "?h \<le> n - ?h" using False by simp_all
    have le: "fst (row ! i) \<le> fst (row ! k)" if "i \<le> k" "k < length row" for i k
      using sorted_nth_mono [OF "1.prems"(1), of i k] that by simp
    have "\<exists>j. ?b \<le> j \<and> j < ?b + (n - ?h) \<and> fst (row ! j) = w"
    proof (cases "fst (row ! ?mid) > w")
      case above: True
      then have "j < ?mid" using le [of ?mid j] j "1.prems"(3) by (meson leD less_le_trans not_le)
      then show ?thesis using above j h(3) by (intro exI [of _ j]) simp
    next
      case not: False
      show ?thesis
      proof (cases "?mid \<le> j")
        case True
        then show ?thesis using not j h by (intro exI [of _ j]) simp
      next
        case before: False
        then have "fst (row ! ?mid) = w" using le [of j ?mid] not j h "1.prems"(3) by simp
        then show ?thesis using h by (intro exI [of _ ?mid]) simp
      qed
    qed
    moreover have "?b + (n - ?h) \<le> length row" using "1.prems"(3) h by auto
    ultimately have "fst (row ! search_loop w row ?b (n - ?h)) = w" using "1.IH" False "1.prems"(1) by (simp add: Let_def)
    then show ?thesis using False by (subst search_loop.simps) (simp add: Let_def)
  qed
qed

lemma search_code_Some: "search_code w row = Some k \<Longrightarrow> k < length row \<and> fst (row ! k) = w"
  using search_loop_less [of "length row" w row 0] by (auto simp: search_code_def Let_def split: if_splits)

lemma search_code_ex:
  assumes "w \<in> fst ` set row" "sorted (map fst row)"
  shows "\<exists>k. search_code w row = Some k"
proof -
  obtain j where "j < length row" "fst (row ! j) = w" using assms(1) by (auto simp: in_set_conv_nth)
  then have "fst (row ! search_loop w row 0 (length row)) = w" "row \<noteq> []"
    using search_loop_finds [OF assms(2), of 0 "length row" w] by auto
  then show ?thesis by (simp add: search_code_def)
qed

text \<open>What the tables answer: the symbol of a code, and nothing for a code that no symbol has.\<close>

definition decode_ok :: "prefix_code list \<Rightarrow> 'a::len word list \<Rightarrow> (u32 \<times> 'a word) list list \<Rightarrow> bool" where
  "decode_ok codes xs D \<longleftrightarrow>
     (\<forall>x\<in>set xs. comp_len codes x < length D \<and> (\<exists>k. search_code (pc_content (codes ! unat x)) (D ! comp_len codes x) = Some k
        \<and> idx (D ! comp_len codes x) k = Some (pc_content (codes ! unat x), x)))
   \<and> (\<forall>l<length D. \<forall>w k. search_code w (D ! l) = Some k \<longrightarrow> (\<exists>x\<in>set xs. comp_len codes x = l \<and> pc_content (codes ! unat x) = w))"

text \<open>The rows of the decoder: the codes of each length, ordered by content.\<close>

definition huff_rows :: "prefix_code list \<Rightarrow> (u32 \<times> 'a::len word) list list \<Rightarrow> bool" where
  "huff_rows codes D \<longleftrightarrow> length codes \<le> 2 ^ LENGTH('a) \<and> D = map (\<lambda>l. sort_key fst (code_row codes l)) [0..<length D]"

lemma code_row_entry:
  fixes xs :: "'a::len word list"
  assumes s: "coded codes xs"
  shows "(w, x) \<in> set (code_row codes l) \<longleftrightarrow> x \<in> set xs \<and> comp_len codes x = l \<and> pc_content (codes ! unat x) = w"
proof -
  note d = codedD [OF s]
  have z: "(i, c) \<in> set (zip [0..<length codes] codes) \<longleftrightarrow> i < length codes \<and> c = codes ! i" for i c
    by (auto simp: set_zip intro!: exI [of _ i])
  have row: "(w, x) \<in> set (code_row codes l)
      \<longleftrightarrow> (\<exists>i<length codes. w = pc_content (codes ! i) \<and> x = of_nat i \<and> unat (pc_len (codes ! i)) = l \<and> l \<noteq> 0)"
    by (auto simp: code_row_def z image_iff; blast)
  have un: "unat (of_nat i :: 'a word) = i" if "i < length codes" for i
    using that d(5) by (intro unat_of_nat_small) linarith
  show ?thesis
  proof
    assume "(w, x) \<in> set (code_row codes l)"
    then obtain i where i: "i < length codes" "w = pc_content (codes ! i)" "x = of_nat i" "unat (pc_len (codes ! i)) = l" "l \<noteq> 0"
      unfolding row by blast
    have ux: "unat x = i" using un [OF i(1)] i(3) by simp
    then show "x \<in> set xs \<and> comp_len codes x = l \<and> pc_content (codes ! unat x) = w" using i d(2) [of x] d(3) [of x] by auto
  next
    assume a: "x \<in> set xs \<and> comp_len codes x = l \<and> pc_content (codes ! unat x) = w"
    then have "unat x < length codes" "0 < comp_len codes x" using d(3,4) by blast+
    then show "(w, x) \<in> set (code_row codes l)" unfolding row using a by (intro exI [of _ "unat x"]) (simp add: d(2))
  qed
qed

lemma decode_rows_ok:
  fixes xs :: "'a::len word list"
  assumes s: "coded codes xs" and m: "\<forall>x\<in>set xs. comp_len codes x \<le> m"
  shows "decode_ok codes xs (map (\<lambda>l. sort_key fst (code_row codes l)) [0..<m + 1])"
proof -
  let ?D = "map (\<lambda>l. sort_key fst (code_row codes l)) [0..<m + 1] :: (u32 \<times> 'a word) list list"
  have D: "?D ! l = sort_key fst (code_row codes l)" if "l < m + 1" for l using that by (simp del: upt_Suc)
  note entry = code_row_entry [OF s]
  have one: "comp_len codes x < length ?D \<and> (\<exists>k. search_code (pc_content (codes ! unat x)) (?D ! comp_len codes x) = Some k
      \<and> idx (?D ! comp_len codes x) k = Some (pc_content (codes ! unat x), x))" if x: "x \<in> set xs" for x
  proof -
    let ?w = "pc_content (codes ! unat x)" and ?row = "sort_key fst (code_row codes (comp_len codes x)) :: (u32 \<times> 'a word) list"
    have l: "comp_len codes x < m + 1" using m x by (simp add: less_Suc_eq_le)
    have "(?w, x) \<in> set ?row" using entry [of ?w x "comp_len codes x"] x by simp
    then have "?w \<in> fst ` set ?row" by force
    then obtain k where k: "search_code ?w ?row = Some k" using search_code_ex [of ?w ?row] sorted_sort_key [of fst] by blast
    note kr = search_code_Some [OF k]
    then have "(fst (?row ! k), snd (?row ! k)) \<in> set ?row" by (metis nth_mem prod.collapse)
    then have "snd (?row ! k) \<in> set xs \<and> comp_len codes (snd (?row ! k)) = comp_len codes x \<and> pc_content (codes ! unat (snd (?row ! k))) = ?w"
      using entry [of ?w "snd (?row ! k)" "comp_len codes x"] kr by simp
    then have "snd (?row ! k) = x" using coded_unique [OF s] x by blast
    then have "idx ?row k = Some (?w, x)" using kr by (auto simp: idx_eq_Some_iff prod_eq_iff)
    then show ?thesis using k l D [OF l] by simp
  qed
  have two: "\<exists>x\<in>set xs. comp_len codes x = l \<and> pc_content (codes ! unat x) = w"
    if l: "l < length ?D" and k: "search_code w (?D ! l) = Some k" for l w k
  proof -
    have l': "l < m + 1" using l by simp
    let ?row = "sort_key fst (code_row codes l) :: (u32 \<times> 'a word) list"
    have kr: "k < length ?row" "fst (?row ! k) = w" using search_code_Some [OF k] D [OF l'] by simp_all
    then have "(w, snd (?row ! k)) \<in> set ?row" by (metis nth_mem prod.collapse)
    then show ?thesis using entry [of w "snd (?row ! k)" l] by auto
  qed
  show ?thesis unfolding decode_ok_def using one two by blast
qed

lemma content_small:
  assumes "unat (w :: u32) < 2 ^ n" "n < 32"
  shows "\<not> 2 ^ n \<le> w"
proof -
  have "(2 :: nat) ^ n < 2 ^ 32" using assms(2) by (rule power_strict_increasing) simp
  then have "unat (of_nat (2 ^ n) :: u32) = 2 ^ n" by (intro unat_of_nat_small) simp
  then have "unat (2 ^ n :: u32) = 2 ^ n" by simp
  then show ?thesis using assms(1) by (simp add: word_le_nat_alt)
qed

section \<open>The rows of the decoder\<close>

lemma huff_row:
  assumes "huff_rows codes D" "l < length D"
  shows "D ! l = sort_key fst (code_row codes l)"
proof -
  have "D ! l = map (\<lambda>l. sort_key fst (code_row codes l)) [0..<length D] ! l" using assms(1) unfolding huff_rows_def by metis
  then show ?thesis using assms(2) by simp
qed

lemma code_index:
  fixes xs :: "'a::len word list"
  assumes s: "coded codes xs" and i: "i < length codes" "pc_len (codes ! i) \<noteq> 0"
  shows "unat (of_nat i :: 'a word) = i" "of_nat i \<in> set xs" "comp_len codes (of_nat i :: 'a word) = unat (pc_len (codes ! i))"
proof -
  note d = codedD [OF s]
  show u: "unat (of_nat i :: 'a word) = i" using i(1) d(5) by (intro unat_of_nat_small) linarith
  show "comp_len codes (of_nat i :: 'a word) = unat (pc_len (codes ! i))" by (simp add: d(2) u)
  show "of_nat i \<in> set xs" using d(3) [of "of_nat i"] u i by simp
qed

lemma code_row_distinct:
  fixes xs :: "'a::len word list"
  assumes s: "coded codes xs"
  shows "distinct (map fst (code_row codes l :: (u32 \<times> 'a word) list))"
proof -
  let ?zs = "filter (\<lambda>(i, c). unat (pc_len c) = l \<and> l \<noteq> 0) (zip [0..<length codes] codes)"
  have mem: "i < length codes \<and> c = codes ! i \<and> unat (pc_len c) = l \<and> pc_len c \<noteq> 0" if "(i, c) \<in> set ?zs" for i c
    using that by (auto simp: set_zip)
  have "inj_on (\<lambda>ic. pc_content (snd ic)) (set ?zs)"
  proof (rule inj_onI)
    fix p q assume p: "p \<in> set ?zs" and q: "q \<in> set ?zs" and e: "pc_content (snd p) = pc_content (snd q)"
    obtain i c where pi: "p = (i, c)" by fastforce
    obtain k e where qk: "q = (k, e)" by fastforce
    have mi: "i < length codes" "c = codes ! i" "unat (pc_len c) = l" "pc_len c \<noteq> 0" using mem p unfolding pi by blast+
    have mk: "k < length codes" "e = codes ! k" "unat (pc_len e) = l" "pc_len e \<noteq> 0" using mem q unfolding qk by blast+
    note ci = code_index [OF s mi(1)] and ck = code_index [OF s mk(1)]
    have "(of_nat i :: 'a word) = of_nat k"
      by (rule coded_unique [OF s]) (use ci ck mi mk e in \<open>simp_all add: pi qk\<close>)
    then have "i = k" using ci(1) ck(1) mi mk by metis
    then show "p = q" using mi mk by (simp add: pi qk)
  qed
  then have "distinct (map (\<lambda>ic. pc_content (snd ic)) ?zs)" by (simp add: distinct_map distinct_zipI1)
  moreover have "map fst (code_row codes l :: (u32 \<times> 'a word) list) = map (\<lambda>ic. pc_content (snd ic)) ?zs"
    by (simp add: code_row_def case_prod_beta comp_def)
  ultimately show ?thesis by simp
qed

lemma huff_row_strict:
  fixes xs :: "'a::len word list" and D :: "(u32 \<times> 'a word) list list"
  assumes s: "coded codes xs" and D: "huff_rows codes D" and row: "row \<in> set D"
  shows "sorted_wrt (<) (map fst row)"
proof -
  obtain l where l: "l < length D" "row = D ! l" using row by (auto simp: in_set_conv_nth)
  have eq: "row = sort_key fst (code_row codes l)" using huff_row [OF D l(1)] l(2) by simp
  have "distinct (map fst (code_row codes l :: (u32 \<times> 'a word) list))" by (rule code_row_distinct [OF s])
  moreover have "mset (map fst row) = mset (map fst (code_row codes l :: (u32 \<times> 'a word) list))" unfolding eq by simp
  ultimately have "distinct (map fst row)" using mset_eq_imp_distinct_iff by blast
  moreover have "sorted (map fst row)" unfolding eq by simp
  ultimately show ?thesis by (simp add: strict_sorted_iff)
qed

end
