(* ===== verification/BinWTHuff.thy ===== *)
theory BinWTHuff
  imports BinWTBuild CodeTables
begin

text \<open>
  The compressed binary wavelet tree: with the codes of \<open>craft_wm_codes\<close> the loop over the levels
  leaves the digits of the code matrix in the bit vectors, and the decoding tables find the symbol of a
  code. The answers are then those of the sequence; a symbol that does not occur has no code, and \<open>rank\<close>
  and \<open>select\<close> return \<open>None\<close> for it.
\<close>

unbundle bit_operations_syntax

section \<open>Codes of the symbols\<close>

definition comp_dg :: "prefix_code list \<Rightarrow> nat \<Rightarrow> 'a::len word \<Rightarrow> nat" where
  "comp_dg codes l x = code_dg codes l (unat (as_usize x))"

lemma cm_key_comp: "cm_key (comp_dg codes) b l x = cm_key (code_dg codes) b l (unat (as_usize x))"
  by (induction l) (simp_all add: comp_dg_def)

definition symbols_ok :: "(nat \<times> u32) list \<Rightarrow> nat \<Rightarrow> prefix_code list \<Rightarrow> 'a::len word list \<Rightarrow> bool" where
  "symbols_ok ls sigma codes xs \<longleftrightarrow> LENGTH('a) \<le> 64 \<and> codes_ok ls sigma codes \<and> fst ` set ls = unat ` set xs \<and> (\<forall>x\<in>set xs. unat x \<le> sigma)"

lemma symbols_okD:
  fixes xs :: "'a::len word list"
  assumes "symbols_ok ls sigma codes xs"
  shows "unat (as_usize (x :: 'a word)) = unat x" "x \<in> set xs \<Longrightarrow> unat x < length codes"
    "x \<in> set xs \<Longrightarrow> 0 < comp_len codes x" "x \<in> set xs \<Longrightarrow> comp_len codes x \<le> 32"
    "x \<in> set xs \<Longrightarrow> unat (pc_content (codes ! unat x)) < 2 ^ comp_len codes x"
    "cm_ok (comp_dg codes) (comp_len codes) 2 xs"
    "x \<notin> set xs \<Longrightarrow> unat x < length codes \<Longrightarrow> comp_len codes x = 0"
proof -
  have w: "LENGTH('a) \<le> 64" and c: "codes_ok ls sigma codes" and s: "fst ` set ls = unat ` set xs" "\<forall>x\<in>set xs. unat x \<le> sigma"
    using assms by (simp_all add: symbols_ok_def)
  show u: "unat (as_usize x) = unat x" for x :: "'a word" by (rule unat_as_usize [OF w])
  have len: "length codes = sigma + 1" and iff: "\<And>s. s \<le> sigma \<Longrightarrow> 0 < code_width codes s \<longleftrightarrow> s \<in> unat ` set xs"
    using c s(1) by (simp_all add: codes_ok_def)
  show "x \<in> set xs \<Longrightarrow> unat x < length codes" using len s(2) by auto
  show "x \<in> set xs \<Longrightarrow> 0 < comp_len codes x" using iff [of "unat x"] s(2) u by (simp add: comp_len_def)
  show "comp_len codes x \<le> 32" "unat (pc_content (codes ! unat x)) < 2 ^ comp_len codes x" if "x \<in> set xs"
    using c s(1) that u by (simp_all add: codes_ok_def comp_len_def)
  show "comp_len codes x = 0" if "x \<notin> set xs" "unat x < length codes"
  proof -
    have "unat x \<notin> unat ` set xs" using that(1) by (metis imageE word_unat_eq_iff)
    then show ?thesis using iff [of "unat x"] that(2) len u by (simp add: comp_len_def)
  qed
  have "cm_ok (code_dg codes) (code_width codes) 2 (map unat xs)" using c s(1) by (simp add: codes_ok_def)
  then show "cm_ok (comp_dg codes) (comp_len codes) 2 xs"
    unfolding cm_ok_def cm_key_comp by (simp add: comp_dg_def comp_len_def u word_unat_eq_iff) blast
qed

lemma symbols_ok_coded:
  fixes xs :: "'a::len word list"
  assumes s: "symbols_ok ls sigma codes xs" and sw: "sigma < 2 ^ LENGTH('a)"
  shows "coded codes xs"
  unfolding coded_def
proof (intro conjI allI ballI impI)
  note d = symbols_okD [OF s]
  have cl: "comp_len codes x = unat (pc_len (codes ! unat x))" for x :: "'a word" by (simp add: comp_len_def code_width_def d(1))
  show "LENGTH('a) \<le> 64" "length codes \<le> 2 ^ LENGTH('a)" using s sw by (simp_all add: symbols_ok_def codes_ok_def)
  show "x \<in> set xs \<longleftrightarrow> unat x < length codes \<and> pc_len (codes ! unat x) \<noteq> 0" for x
    using d(2,3,7) [of x] cl [of x] by (cases "x \<in> set xs") (auto simp: unsigned_eq_0_iff)
  fix x y assume xy: "x \<in> set xs" "y \<in> set xs" "codes ! unat x = codes ! unat y"
  have "comp_dg codes t x = comp_dg codes t y" for t
    using xy(3) cl by (simp add: comp_dg_def code_dg_def d(1) code_width_def)
  then have "cm_key (comp_dg codes) 2 l x = cm_key (comp_dg codes) 2 l y" for l by (induction l) simp_all
  then show "x = y" using cm_okD(4) [OF d(6) xy(1,2)] xy(3) cl by simp
qed

lemma comp_dg_less [simp]: "comp_dg codes l x < 2"
  by (simp add: comp_dg_def code_dg_def)

lemma comp_repr_ok:
  assumes "symbols_ok ls sigma codes xs" "x \<in> set xs"
  shows "repr_ok (comp_dg codes) (comp_len codes) x (pc_content (codes ! unat x))"
  using symbols_okD(1,4) [OF assms(1), of x] assms(2)
  by (auto simp: repr_ok_def comp_dg_def code_dg_def comp_len_def)

text \<open>The digits of a code, collected from the first, are its content.\<close>

lemma comp_val:
  assumes "symbols_ok ls sigma codes xs" "x \<in> set xs" "l \<le> comp_len codes x"
  shows "cm_val (comp_dg codes) 2 l x = unat (pc_content (codes ! unat x)) div 2 ^ (comp_len codes x - l)"
proof (rule cm_val_number)
  note d = symbols_okD [OF assms(1)]
  fix t assume t: "t < comp_len codes x"
  have "comp_dg codes t x = of_bool (bit (unat (pc_content (codes ! unat x))) (comp_len codes x - Suc t))"
    using t by (simp add: comp_dg_def code_dg_def comp_len_def d(1) bit_unsigned_iff)
  then show "comp_dg codes t x = unat (pc_content (codes ! unat x)) div 2 ^ (comp_len codes x - Suc t) mod 2"
    by (simp add: bit_iff_odd mod_2_eq_odd)
qed (use symbols_okD(5) [OF assms(1)] assms(2,3) in simp_all)

section \<open>One turn of the construction\<close>

lemma comp_push_eq:
  assumes s: "symbols_ok ls sigma codes xs" "x \<in> set xs" and l: "Suc l \<le> 32"
  shows "wv_push (Some codes) n (Suc l) cur x = (if l < comp_len codes x then bm_push cur (comp_dg codes l x = 1) else Some cur)"
proof -
  note d = symbols_okD [OF s(1)]
  let ?code = "codes ! unat x"
  have len: "unat (pc_len ?code) = comp_len codes x" by (simp add: comp_len_def code_width_def d(1))
  have sh: "unat (of_nat (Suc l) :: u32) = Suc l" using l by (intro unat_of_nat_small) simp
  have ge: "of_nat (Suc l) \<le> pc_len ?code \<longleftrightarrow> l < comp_len codes x" unfolding word_le_nat_alt sh len by (rule Suc_le_eq)
  show ?thesis
  proof (cases "l < comp_len codes x")
    case True
    have "unat (pc_len ?code - of_nat (Suc l)) = comp_len codes x - Suc l"
      using ge True sh len by (simp only: unat_sub)
    moreover have "comp_len codes x - Suc l < 32" using d(4) [OF s(2)] True by linarith
    moreover have "comp_dg codes l x = 1 \<longleftrightarrow> bit (pc_content ?code) (comp_len codes x - Suc l)"
      using True by (simp add: comp_dg_def code_dg_def comp_len_def d(1))
    ultimately show ?thesis
      using True ge d(1,2) s(2) by (simp add: wv_push_def shr_u32_def and_1_bit bit_drop_bit_eq del: of_nat_Suc)
  qed (use ge d(1,2) s(2) in \<open>simp add: wv_push_def del: of_nat_Suc\<close>)
qed

lemma comp_partition_eq:
  fixes xs :: "'a::len word list"
  assumes s: "symbols_ok ls sigma codes xs" and seq: "set seq \<subseteq> set xs" and l: "Suc l < 2 ^ 32"
  shows "\<exists>seq'. stable_partition_of_2_with_codes seq (Suc l) codes = Some seq' \<and> set seq' = set seq \<and> length seq' = length seq
    \<and> filter (\<lambda>x. Suc l < comp_len codes x) seq'
      = filter (\<lambda>x. Suc l < comp_len codes x) (buckets (comp_dg codes l) 2 (filter (\<lambda>x. l < comp_len codes x) seq))"
proof -
  note d = symbols_okD [OF s]
  let ?f = "code_digit 1 codes 2 (Suc l)" and ?P = "\<lambda>x. Suc l < comp_len codes x"
  have len: "unat (pc_len (codes ! unat x)) = comp_len codes x" for x :: "'a word" by (simp add: comp_len_def code_width_def d(1))
  have b: "\<forall>x\<in>set seq. code_bucket 1 codes 2 (Suc l) x = Some (?f x) \<and> ?f x < 3"
  proof
    fix x assume "x \<in> set seq"
    then have x: "x \<in> set xs" using seq by blast
    have "code_bucket 1 codes 2 (Suc l) x = Some (?f x) \<and> ?f x < Suc 2"
      by (rule code_bucket_eq) (use l x d(1,2,4) len in simp_all)
    then show "code_bucket 1 codes 2 (Suc l) x = Some (?f x) \<and> ?f x < 3" by simp
  qed
  have part: "stable_partition_of_2_with_codes seq (Suc l) codes = Some (buckets ?f 3 seq)"
    unfolding stable_partition_of_2_with_codes_def by (rule partition_vecs_buckets) (rule b)
  have dg: "?f x = comp_dg codes l x" if "x \<in> set seq" "?P x" for x
  proof -
    have "unat (drop_bit n w AND 1 :: u32) = of_bool (bit w n)" for n w
      by (simp add: and_one_eq bit_iff_odd_drop_bit mod_2_eq_odd)
    then show ?thesis using that(2) len [of x] by (simp add: code_digit_def comp_dg_def code_dg_def comp_len_def d(1))
  qed
  have three: "(3 :: nat) = Suc 2" by simp
  have "filter ?P (buckets ?f 3 seq) = buckets ?f 3 (filter ?P seq)" by (rule filter_buckets_comm)
  also have "\<dots> = buckets (comp_dg codes l) 3 (filter ?P seq)" by (rule buckets_cong) (use dg in simp)
  also have "\<dots> = buckets (comp_dg codes l) 2 (filter ?P seq)"
    unfolding three by (rule buckets_more) simp
  also have "filter ?P seq = filter ?P (filter (\<lambda>x. l < comp_len codes x) seq)" by (simp cong: conj_cong) (metis Suc_lessD)
  finally have "filter ?P (buckets ?f 3 seq) = filter ?P (buckets (comp_dg codes l) 2 (filter (\<lambda>x. l < comp_len codes x) seq))"
    by (simp only: filter_buckets_comm)
  moreover have "set (buckets ?f 3 seq) = set seq" "length (buckets ?f 3 seq) = length seq"
    using b set_buckets [of seq ?f 3] length_buckets [of seq ?f 3] by auto
  ultimately show ?thesis using part by blast
qed

section \<open>Frequencies\<close>

text \<open>Counting the symbols does not overflow a \<open>u32\<close> on sequences of fewer than \<open>2 ^ 32\<close> elements.\<close>

lemma freq_step_eq:
  fixes c :: "'a::len word"
  assumes "LENGTH('a) \<le> 64" "\<forall>k\<in>ran (map_of freqs). k \<le> m" "m + 1 < 2 ^ 32"
  shows "\<exists>freqs'. freq_step freqs c = Some freqs' \<and> fst ` set freqs' = insert (unat c) (fst ` set freqs)
    \<and> (\<forall>k\<in>ran (map_of freqs'). k \<le> m + 1)"
proof -
  let ?k = "case map_of freqs (unat c) of None \<Rightarrow> 0 | Some k \<Rightarrow> k"
  have k: "?k \<le> m" using assms(2) by (auto simp: ran_def split: option.splits)
  let ?f = "AList.update (unat c) (?k + 1) freqs"
  have "freq_step freqs c = Some ?f" using k assms(3) by (simp add: freq_step_def Let_def unat_as_usize [OF assms(1)])
  moreover have "fst ` set ?f = insert (unat c) (fst ` set freqs)"
    by (metis dom_map_of_conv_image_fst AList.update_conv' dom_fun_upd option.distinct(1))
  moreover have "\<forall>k\<in>ran (map_of ?f). k \<le> m + 1"
    using assms(2) k by (auto simp: AList.update_conv ran_def split: if_splits)
  ultimately show ?thesis by blast
qed

lemma freqs_eq:
  fixes xs :: "'a::len word list"
  assumes "LENGTH('a) \<le> 64" "length xs < 2 ^ 32"
  shows "\<exists>freqs. foldM freq_step [] xs = Some freqs \<and> fst ` set freqs = unat ` set xs"
proof -
  have "\<exists>freqs'. foldM freq_step freqs ys = Some freqs' \<and> fst ` set freqs' = fst ` set freqs \<union> unat ` set ys"
    if "\<forall>k\<in>ran (map_of freqs). k \<le> m" "m + length ys < 2 ^ 32" for freqs m and ys :: "'a word list"
    using that
  proof (induction ys arbitrary: freqs m)
    case (Cons y ys)
    have "m + 1 < 2 ^ 32" using Cons.prems(2) by simp
    from freq_step_eq [OF assms(1) Cons.prems(1) this, of y] obtain freqs' where f: "freq_step freqs y = Some freqs'"
      "fst ` set freqs' = insert (unat y) (fst ` set freqs)" "\<forall>k\<in>ran (map_of freqs'). k \<le> m + 1" by blast
    from Cons.IH [OF f(3)] Cons.prems(2) show ?case using f(1,2) by auto
  qed simp
  from this [of "[]" 0 xs] show ?thesis using assms(2) by simp
qed

section \<open>The codes of a sequence\<close>

text \<open>The crate's part: on the frequencies of the sequence it returns a complete code for their symbols.\<close>

definition lengths_for :: "((nat \<times> nat) list \<Rightarrow> (nat \<times> u32) list) \<Rightarrow> 'a::len word list \<Rightarrow> bool" where
  "lengths_for code_lengths xs \<longleftrightarrow> (\<forall>freqs. foldM freq_step [] xs = Some freqs \<longrightarrow>
     complete_code (code_lengths freqs) \<and> fst ` set (code_lengths freqs) = fst ` set freqs)"

lemma wv_codes_eq:
  fixes xs :: "'a::len word list"
  assumes w: "LENGTH('a) \<le> 64" and n: "length xs < 2 ^ 32" and ne: "xs \<noteq> []" and cl: "lengths_for cl xs"
    and small: "\<forall>x\<in>set xs. unat x + 1 < 2 ^ 60"
  shows "\<exists>ls codes D L. wv_codes cl xs (Max (set xs)) = Some (codes, D, L) \<and> symbols_ok ls (unat (Max (set xs))) codes xs
    \<and> decode_ok codes xs D \<and> length D = L + 1 \<and> L \<le> 32 \<and> (\<forall>x\<in>set xs. comp_len codes x \<le> L) \<and> huff_rows codes D
    \<and> (\<forall>freqs. foldM freq_step [] xs = Some freqs \<longrightarrow> (\<forall>sl\<in>set (cl freqs). unat (snd sl) \<le> L) \<and> (\<exists>sl\<in>set (cl freqs). unat (snd sl) = L))"
proof -
  let ?s = "Max (set xs)"
  obtain freqs where f: "foldM freq_step [] xs = Some freqs" "fst ` set freqs = unat ` set xs" using freqs_eq [OF w n] by blast
  let ?ls = "cl freqs"
  have cc: "complete_code ?ls" "fst ` set ?ls = unat ` set xs" using cl f by (simp_all add: lengths_for_def)
  have le: "unat x \<le> unat ?s" if "x \<in> set xs" for x using that by (simp add: word_le_nat_alt [symmetric])
  then have "\<forall>s\<in>fst ` set ?ls. s \<le> unat ?s" unfolding cc(2) by blast
  moreover have "unat ?s + 1 < 2 ^ 60" using bspec [OF small, of ?s] ne by simp
  ultimately obtain codes where
    codes: "craft_wm_codes ?ls (unat ?s) = Some codes" "codes_ok ?ls (unat ?s) codes"
    using craft_wm_codes_ok [OF cc(1)] by blast
  have s: "symbols_ok ?ls (unat ?s) codes xs" using w codes(2) cc(2) le by (simp add: symbols_ok_def)
  note d = symbols_okD [OF s]
  have len: "length codes = unat ?s + 1" using codes(2) by (simp add: codes_ok_def)
  let ?L = "unat (Max (pc_len ` set codes))"
  have ne': "pc_len ` set codes \<noteq> {}" using len by auto
  have maxl: "unat (pc_len c) \<le> ?L" if "c \<in> set codes" for c using that by (simp add: word_le_nat_alt [symmetric])
  have cl': "comp_len codes x = unat (pc_len (codes ! unat x))" for x :: "'a word" by (simp add: comp_len_def code_width_def d(1))
  have L: "comp_len codes x \<le> ?L" if "x \<in> set xs" for x unfolding cl' using d(2) [OF that] by (intro maxl nth_mem)
  have sw: "unat ?s < 2 ^ LENGTH('a)" by (rule unsigned_less)
  have "Max (pc_len ` set codes) \<in> pc_len ` set codes" by (rule Max_in) (use ne' in auto)
  then obtain c where c: "c \<in> set codes" "Max (pc_len ` set codes) = pc_len c" by blast
  then obtain i where i: "i < length codes" "codes ! i = c" by (auto simp: in_set_conv_nth)
  have "0 < comp_len codes (hd xs)" "comp_len codes (hd xs) \<le> ?L" using d(3) L ne by simp_all
  then have "0 < code_width codes i" using i c(2) by (simp add: code_width_def)
  then have mem: "i \<in> fst ` set ?ls" using codes(2) i len by (simp add: codes_ok_def)
  then have "code_width codes i \<le> 32" using codes(2) unfolding codes_ok_def by blast
  then have L32: "?L \<le> 32" using c(2) i(2) by (simp add: code_width_def)
  have lens: "pc_len (codes ! fst sl) = snd sl" if "sl \<in> set ?ls" for sl
    using codes(2) that unfolding codes_ok_def by (metis prod.collapse)
  have "unat (snd sl) \<le> ?L" if "sl \<in> set ?ls" for sl
  proof -
    have "fst sl \<in> unat ` set xs" using that cc(2) by blast
    then have "fst sl < length codes" using len le by (auto simp: less_Suc_eq_le)
    then show ?thesis using maxl [of "codes ! fst sl"] lens [OF that] by simp
  qed
  moreover obtain sl where sl: "sl \<in> set ?ls" "fst sl = i" using mem by auto
  then have "snd sl = pc_len c" using lens [OF sl(1)] i(2) by simp
  then have "\<exists>sl\<in>set ?ls. unat (snd sl) = ?L" using sl(1) c(2) by (intro bexI [of _ sl]) simp_all
  ultimately have top: "\<forall>freqs. foldM freq_step [] xs = Some freqs \<longrightarrow>
      (\<forall>sl\<in>set (cl freqs). unat (snd sl) \<le> ?L) \<and> (\<exists>sl\<in>set (cl freqs). unat (snd sl) = ?L)" using f(1) by simp
  have "\<forall>c\<in>snd ` set (zip [0..<length codes] codes). unat (pc_len c) < length (replicate (?L + 1) ([] :: (u32 \<times> 'a word) list))"
    using maxl by (auto simp: less_Suc_eq_le dest: set_zip_rightD)
  from decoder_loop [OF this]
  have dec: "foldM decoder_push (replicate (?L + 1) []) (zip [0..<length codes] codes) = Some (map (code_row codes) [0..<?L + 1] :: (u32 \<times> 'a word) list list)"
    by (simp add: code_row_def [abs_def] nth_append del: upt_Suc replicate_Suc)
  let ?D = "map (\<lambda>l. sort_key fst (code_row codes l)) [0..<?L + 1] :: (u32 \<times> 'a word) list list"
  have "wv_codes cl xs ?s = Some (codes, ?D, ?L)"
    using f(1) codes(1) dec by (simp add: wv_codes_def Let_def d(1) o_def del: upt_Suc replicate_Suc)
  moreover have "decode_ok codes xs ?D" by (rule decode_rows_ok [OF symbols_ok_coded [OF s sw]]) (use L in blast)
  moreover have "huff_rows codes ?D" using len Suc_leI [OF sw] by (simp add: huff_rows_def del: upt_Suc)
  ultimately show ?thesis using s L L32 top by (intro exI [of _ ?ls] exI [of _ codes] exI [of _ ?D] exI [of _ ?L]) simp
qed

text \<open>With a symbol of \<open>2 ^ 60 - 1\<close> or more the code array has too many entries to be allocated.\<close>

lemma wv_codes_huge:
  fixes xs :: "'a::len word list"
  assumes w: "LENGTH('a) \<le> 64" and n: "length xs < 2 ^ 32" and x: "x \<in> set xs" "2 ^ 60 \<le> unat x + 1"
  shows "wv_codes cl xs (Max (set xs)) = None"
proof -
  have "unat x \<le> unat (Max (set xs))" using x(1) by (simp add: word_le_nat_alt [symmetric])
  then have "craft_wm_codes ls (unat (Max (set xs))) = None" for ls using x(2) by (intro craft_wm_codes_huge) linarith
  then show ?thesis using unat_as_usize [OF w, of "Max (set xs)"] by (simp add: wv_codes_def Let_def bind_eq_None_conv)
qed

section \<open>Construction and queries\<close>

definition wv_huff_ok :: "('b \<Rightarrow> bool list \<Rightarrow> bool) \<Rightarrow> 'a::len word list \<Rightarrow> ('a word, 'b) wavelet_tree \<Rightarrow> bool" where
  "wv_huff_ok brep xs t \<longleftrightarrow> xs \<noteq> [] \<and> wv_n_levels t \<le> 32 \<and> (\<exists>ls sigma codes D. symbols_ok ls sigma codes xs
     \<and> wv_levels_ok brep (comp_dg codes) (comp_len codes) xs t \<and> wv_codes_encode t = Some codes \<and> wv_sigma t = None
     \<and> wv_codes_decode t = Some D \<and> decode_ok codes xs D \<and> length D = wv_n_levels t + 1 \<and> huff_rows codes D)"

context binary_tree begin

lemma wv_new_huff:
  fixes xs :: "'a::len word list"
  assumes w: "LENGTH('a) \<le> 64" and n: "length xs < 2 ^ 32" and ne: "xs \<noteq> []" and cl: "lengths_for cl xs"
    and small: "\<forall>x\<in>set xs. unat x + 1 < 2 ^ 60"
  shows "\<exists>t. wv_new B True cl xs = Some t \<and> wv_huff_ok brep xs t
    \<and> (\<forall>freqs. foldM freq_step [] xs = Some freqs \<longrightarrow>
        (\<forall>sl\<in>set (cl freqs). unat (snd sl) \<le> wv_n_levels t) \<and> (\<exists>sl\<in>set (cl freqs). unat (snd sl) = wv_n_levels t))"
proof -
  obtain ls codes D L where c: "wv_codes cl xs (Max (set xs)) = Some (codes, D, L)" "symbols_ok ls (unat (Max (set xs))) codes xs"
    "decode_ok codes xs D" "length D = L + 1" "L \<le> 32" "\<forall>x\<in>set xs. comp_len codes x \<le> L" "huff_rows codes D"
    "\<forall>freqs. foldM freq_step [] xs = Some freqs \<longrightarrow> (\<forall>sl\<in>set (cl freqs). unat (snd sl) \<le> L) \<and> (\<exists>sl\<in>set (cl freqs). unat (snd sl) = L)"
    using wv_codes_eq [OF w n ne cl small] by blast
  note d = symbols_okD [OF c(2)]
  let ?dg = "comp_dg codes :: nat \<Rightarrow> 'a word \<Rightarrow> nat" and ?len = "comp_len codes :: 'a word \<Rightarrow> nat"
  let ?Q = "\<lambda>l seq. set seq = set xs \<and> length seq = length xs \<and> filter (\<lambda>x. l < ?len x) seq = cm_level ?dg ?len 2 xs l"
  have turn: "(\<forall>cur. \<forall>s\<in>set seq. wv_push (Some codes) L (Suc l) cur s = (if l < ?len s then bm_push cur (?dg l s = 1) else Some cur))
      \<and> (\<exists>seq'. (case Some codes of Some codes_encode \<Rightarrow> stable_partition_of_2_with_codes seq (Suc l) codes_encode
          | None \<Rightarrow> do { k \<leftarrow> chk_sub L (Suc l); stable_partition_of_2 seq k }) = Some seq' \<and> ?Q (Suc l) seq')
      \<and> filter (\<lambda>x. l < ?len x) seq = cm_level ?dg ?len 2 xs l \<and> length seq < 2 ^ 43"
    if l: "l < L" and Q: "?Q l seq" for seq l
  proof -
    have l32: "Suc l \<le> 32" "Suc l < 2 ^ 32" using l c(5) by simp_all
    have "set seq \<subseteq> set xs" using Q by simp
    from comp_partition_eq [OF c(2) this l32(2)] obtain seq' where seq':
      "stable_partition_of_2_with_codes seq (Suc l) codes = Some seq'" "set seq' = set seq" "length seq' = length seq"
      "filter (\<lambda>x. Suc l < ?len x) seq' = filter (\<lambda>x. Suc l < ?len x) (buckets (?dg l) 2 (filter (\<lambda>x. l < ?len x) seq))" by blast
    have "?Q (Suc l) seq'" using seq' Q by simp
    moreover have "wv_push (Some codes) L (Suc l) cur s = (if l < ?len s then bm_push cur (?dg l s = 1) else Some cur)"
      if "s \<in> set seq" for s cur using comp_push_eq [OF c(2) _ l32(1)] Q that by simp
    ultimately show ?thesis using seq'(1) Q n by simp
  qed
  have "filter (\<lambda>x. 0 < ?len x) xs = xs" using d(3) by (simp add: filter_id_conv)
  then have "?Q 0 xs" by simp
  from wv_levels_loop [where Q = ?Q and dg = ?dg and len = ?len and codes = "Some codes" and L = L, OF turn this]
  obtain seq bvs where loop: "foldM (wv_level B (Some codes) L) (xs, [], []) [1..<L + 1]
      = Some (seq, bvs, map (\<lambda>l. length (cm_level ?dg ?len 2 xs l)) [0..<L])"
    "length seq = length xs" "length bvs = L" "\<forall>l<L. brep (bvs ! l) (bits_of (cm_digits ?dg ?len 2 xs l))" by blast
  let ?t = "\<lparr>wv_n = length seq, wv_n_levels = L, wv_sigma = None, wv_codes_encode = Some codes, wv_codes_decode = Some D,
    wv_bvs = bvs, wv_lens = map (\<lambda>l. length (cm_level ?dg ?len 2 xs l)) [0..<L]\<rparr>"
  have "wv_new B True cl xs = Some ?t" using ne c(1) loop(1) by (simp add: wv_new_def Let_def del: upt_Suc)
  moreover have "wv_levels_ok brep ?dg ?len xs ?t" using d(6) loop n c(6) by (simp add: wv_levels_ok_def)
  then have "wv_huff_ok brep xs ?t"
    unfolding wv_huff_ok_def using ne c by (intro conjI exI [of _ ls] exI [of _ "unat (Max (set xs))"] exI [of _ codes] exI [of _ D]) simp_all
  ultimately show ?thesis using c(8) by (intro exI [of _ ?t]) simp
qed

lemma wv_new_huge:
  fixes xs :: "'a::len word list"
  assumes "LENGTH('a) \<le> 64" "length xs < 2 ^ 32" "xs \<noteq> []" "x \<in> set xs" "2 ^ 60 \<le> unat x + 1"
  shows "wv_new B True cl xs = None"
  using wv_codes_huge [OF assms(1,2,4,5)] assms(3) by (simp add: wv_new_def Let_def)

lemma wv_huff_get:
  fixes xs :: "'a::len word list"
  assumes t: "wv_huff_ok brep xs t"
  shows "wv_get B True t i = Some (idx xs i)" "i < length xs \<Longrightarrow> wv_get_unchecked B True t i = Some (xs ! i)"
proof -
  obtain ls sigma codes D where h: "symbols_ok ls sigma codes xs" "wv_levels_ok brep (comp_dg codes) (comp_len codes) xs t"
    "wv_codes_decode t = Some D" "decode_ok codes xs D" using t by (auto simp: wv_huff_ok_def)
  have n: "wv_n t = length xs" using h(2) by (simp add: wv_levels_ok_def)
  have eq: "wv_get B True t i = Some (Some (xs ! i)) \<and> wv_get_unchecked B True t i = Some (xs ! i)" if i: "i < length xs"
  proof -
    let ?x = "xs ! i"
    have x: "?x \<in> set xs" using i by simp
    have "of_nat (cm_val (comp_dg codes) 2 (comp_len codes ?x) ?x) = pc_content (codes ! unat ?x)"
      using comp_val [OF h(1) x order_refl] by simp
    then have "wv_get_loop B True t [0..<wv_n_levels t] i 0 0 = Some (Some (pc_content (codes ! unat ?x), comp_len codes ?x))"
      "wv_get_unchecked_loop B True t [0..<wv_n_levels t] i 0 0 = Some (pc_content (codes ! unat ?x), comp_len codes ?x)"
      using wv_get_loop_eq [OF h(2) i, of True 0] by simp_all
    moreover obtain k where "comp_len codes ?x < length D" "search_code (pc_content (codes ! unat ?x)) (D ! comp_len codes ?x) = Some k"
      "idx (D ! comp_len codes ?x) k = Some (pc_content (codes ! unat ?x), ?x)" using h(4) x unfolding decode_ok_def by blast
    ultimately show ?thesis using i n h(3) by (simp add: wv_get_def wv_get_unchecked_def)
  qed
  show "wv_get B True t i = Some (idx xs i)" using eq n by (cases "i < length xs") (simp_all add: wv_get_def)
  show "i < length xs \<Longrightarrow> wv_get_unchecked B True t i = Some (xs ! i)" using eq by blast
qed

lemma wv_huff_symbol:
  fixes xs :: "'a::len word list"
  assumes h: "symbols_ok ls sigma codes xs" "wv_codes_encode t = Some codes"
  shows "wv_repr True t c = Some (if c \<in> set xs then Some (comp_len codes c, pc_content (codes ! unat c)) else None)"
proof -
  note d = symbols_okD [OF h(1)]
  have cl: "comp_len codes x = unat (pc_len (codes ! unat x))" for x :: "'a word" by (simp add: comp_len_def code_width_def d(1))
  show ?thesis
  proof (cases "c \<in> set xs")
    case True
    then have "pc_len (codes ! unat c) \<noteq> 0" using d(3) [OF True] by (auto simp: cl)
    then show ?thesis using True d(2) [OF True] h(2) by (simp add: wv_repr_def d(1) cl)
  next
    case False
    then show ?thesis using d(7) [OF False] h(2)
      by (cases "unat c < length codes") (simp_all add: wv_repr_def d(1) cl unsigned_eq_0_iff)
  qed
qed

lemma wv_huff_rank:
  fixes xs :: "'a::len word list"
  assumes t: "wv_huff_ok brep xs t"
  shows "wv_rank B True t c i = Some (if i \<le> length xs \<and> c \<in> set xs then Some (count_list (take i xs) c) else None)"
    "wv_select B True t c k = Some (if c \<in> set xs then select_of xs c k else None)"
    "i \<le> length xs \<Longrightarrow> c \<in> set xs \<Longrightarrow> wv_rank_unchecked B True t c i = Some (count_list (take i xs) c)"
proof -
  obtain ls sigma codes D where h: "symbols_ok ls sigma codes xs" "wv_levels_ok brep (comp_dg codes) (comp_len codes) xs t"
    "wv_codes_encode t = Some codes" and ne: "xs \<noteq> []" using t by (auto simp: wv_huff_ok_def)
  have n: "wv_n t = length xs" and L: "\<forall>x\<in>set xs. comp_len codes x \<le> wv_n_levels t" using h(2) by (simp_all add: wv_levels_ok_def)
  note d = symbols_okD [OF h(1)]
  note repr = wv_huff_symbol [OF h(1,3), of c]
  have in_c: "cm_fits (comp_dg codes) (comp_len codes) 2 xs c" "comp_len codes c \<le> wv_n_levels t"
    "repr_ok (comp_dg codes) (comp_len codes) c (pc_content (codes ! unat c))"
    "wv_repr True t c = Some (Some (comp_len codes c, pc_content (codes ! unat c)))" if "c \<in> set xs"
    using cm_fitsI [OF d(6) that] comp_repr_ok [OF h(1) that] L repr that by simp_all
  show "wv_rank_unchecked B True t c i = Some (count_list (take i xs) c)" if "i \<le> length xs" "c \<in> set xs"
    using wv_rank_unchecked_eq [OF h(2) in_c(1) ne that(1) in_c(2,3,4)] that(2) by blast
  show "wv_rank B True t c i = Some (if i \<le> length xs \<and> c \<in> set xs then Some (count_list (take i xs) c) else None)"
  proof (cases "i \<le> length xs \<and> c \<in> set xs")
    case True
    then show ?thesis using wv_rank_eq [OF h(2) in_c(1) ne _ in_c(2,3,4)] by simp
  next
    case False
    then show ?thesis using n repr by (cases "i \<le> length xs") (simp_all add: wv_rank_def)
  qed
  show "wv_select B True t c k = Some (if c \<in> set xs then select_of xs c k else None)"
  proof (cases "c \<in> set xs")
    case True
    then show ?thesis using wv_select_eq [OF h(2) in_c(1) ne in_c(2,3,4)] by simp
  qed (use repr in \<open>simp add: wv_select_def\<close>)
qed

end

end
