(* ===== verification/CodeDfs.thy ===== *)
theory CodeDfs
  imports CodeMatrix
begin

text \<open>
  The depth-first walk of the tree of a code over the elements of a range: the leaves it reaches, each
  with the number of its occurrences. Every element of the range is met once, and in increasing order when
  all codes have one length. The iterators over occurrences are this walk, unrolled on a stack.
\<close>

fun cm_dfs :: "(nat \<Rightarrow> 'a \<Rightarrow> nat) \<Rightarrow> ('a \<Rightarrow> nat) \<Rightarrow> nat \<Rightarrow> nat \<Rightarrow> nat \<Rightarrow> 'a list \<Rightarrow> ('a \<times> nat) list" where
  "cm_dfs dg len b 0 l N = []"
| "cm_dfs dg len b (Suc f) l N =
     (if N = [] then []
      else if len (hd N) \<le> l then [(hd N, length N)]
      else concat (map (\<lambda>d. cm_dfs dg len b f (Suc l) (filter (\<lambda>x. dg l x = d) N)) [0..<b]))"

text \<open>A list of elements with one prefix of \<open>l\<close> digits, none of whose codes has ended before.\<close>

definition cm_group :: "(nat \<Rightarrow> 'a \<Rightarrow> nat) \<Rightarrow> ('a \<Rightarrow> nat) \<Rightarrow> nat \<Rightarrow> nat \<Rightarrow> 'a list \<Rightarrow> bool" where
  "cm_group dg len b l N \<longleftrightarrow> (\<forall>x\<in>set N. l \<le> len x \<and> (\<forall>t. dg t x < b))
     \<and> (\<forall>x\<in>set N. \<forall>y\<in>set N. cm_val dg b l x = cm_val dg b l y)
     \<and> (\<forall>x\<in>set N. \<forall>y\<in>set N. len x \<le> l \<longrightarrow> x = y)"

lemma cm_groupD:
  assumes "cm_group dg len b l N" "x \<in> set N"
  shows "l \<le> len x" "dg t x < b" "y \<in> set N \<Longrightarrow> cm_val dg b l x = cm_val dg b l y" "y \<in> set N \<Longrightarrow> len x \<le> l \<Longrightarrow> x = y"
  using assms unfolding cm_group_def by blast+

lemma cm_group_filter:
  assumes g: "cm_group dg len b l N" and long: "\<forall>x\<in>set N. l < len x"
    and ends: "\<forall>x\<in>set N. \<forall>y\<in>set N. len x = Suc l \<and> cm_val dg b (Suc l) x = cm_val dg b (Suc l) y \<longrightarrow> x = y"
  shows "cm_group dg len b (Suc l) (filter (\<lambda>x. dg l x = d) N)"
proof -
  have v: "cm_val dg b (Suc l) x = cm_val dg b (Suc l) y" if "x \<in> set N" "y \<in> set N" "dg l x = dg l y" for x y
    using cm_groupD(3) [OF g that(1,2)] that(3) by simp
  have e: "x = y" if "x \<in> set N" "y \<in> set N" "dg l x = dg l y" "len x \<le> Suc l" for x y
  proof -
    have "len x = Suc l" using long that(1,4) by (auto simp: le_Suc_eq)
    then show ?thesis using ends that v [OF that(1-3)] by blast
  qed
  show ?thesis unfolding cm_group_def
  proof (intro conjI ballI impI)
    fix x y assume "x \<in> set (filter (\<lambda>x. dg l x = d) N)" "y \<in> set (filter (\<lambda>x. dg l x = d) N)"
    then have xy: "x \<in> set N" "y \<in> set N" "dg l x = dg l y" by auto
    show "cm_val dg b (Suc l) x = cm_val dg b (Suc l) y" by (rule v [OF xy])
    show "len x \<le> Suc l \<Longrightarrow> x = y" by (rule e [OF xy])
  next
    fix x assume "x \<in> set (filter (\<lambda>x. dg l x = d) N)"
    then have "x \<in> set N" by simp
    then show "Suc l \<le> len x" "\<forall>t. dg t x < b" using long cm_groupD(2) [OF g] by (simp_all add: Suc_le_eq)
  qed
qed

text \<open>All elements below share the code: what \<open>cm_ok\<close> gives for the elements of the sequence.\<close>

definition cm_prefix_free :: "(nat \<Rightarrow> 'a \<Rightarrow> nat) \<Rightarrow> ('a \<Rightarrow> nat) \<Rightarrow> nat \<Rightarrow> 'a set \<Rightarrow> bool" where
  "cm_prefix_free dg len b A \<longleftrightarrow> (\<forall>x\<in>A. \<forall>y\<in>A. len x \<le> len y \<and> cm_val dg b (len x) x = cm_val dg b (len x) y \<longrightarrow> x = y)"

lemma cm_ok_prefix_free: "cm_ok dg len b xs \<Longrightarrow> cm_prefix_free dg len b (set xs)"
  unfolding cm_prefix_free_def
proof (intro ballI impI)
  fix x y assume ok: "cm_ok dg len b xs" and x: "x \<in> set xs" and y: "y \<in> set xs"
    and e: "len x \<le> len y \<and> cm_val dg b (len x) x = cm_val dg b (len x) y"
  have k: "cm_key dg b (len x) x = cm_key dg b (len x) y"
    using cm_val_key_iff [of dg x b y] cm_okD(2) [OF ok x] cm_okD(2) [OF ok y] e by blast
  have "\<not> len x < len y" using cm_okD(3) [OF ok x y] k by auto
  then show "x = y" using cm_okD(4) [OF ok x y] e k by simp
qed

lemma cm_group_child:
  assumes g: "cm_group dg len b l N" and long: "l < len (hd N)" and ne: "N \<noteq> []" and pf: "cm_prefix_free dg len b (set N)"
  shows "\<forall>x\<in>set N. l < len x" "cm_group dg len b (Suc l) (filter (\<lambda>x. dg l x = d) N)"
proof -
  have h: "hd N \<in> set N" using ne by simp
  show all: "\<forall>x\<in>set N. l < len x"
  proof
    fix x assume x: "x \<in> set N"
    show "l < len x"
    proof (rule ccontr)
      assume "\<not> l < len x"
      then have "x = hd N" using cm_groupD(4) [OF g x h] by simp
      then show False using long \<open>\<not> l < len x\<close> by simp
    qed
  qed
  have ends: "x = y" if "x \<in> set N" "y \<in> set N" "len x = Suc l" "cm_val dg b (Suc l) x = cm_val dg b (Suc l) y" for x y
  proof -
    have "len x \<le> len y" using that(2,3) all by (simp add: Suc_leI)
    then show ?thesis using pf that unfolding cm_prefix_free_def by metis
  qed
  show "cm_group dg len b (Suc l) (filter (\<lambda>x. dg l x = d) N)"
    by (rule cm_group_filter [OF g all]) (use ends in blast)
qed

lemma cm_prefix_free_subset: "cm_prefix_free dg len b A \<Longrightarrow> B \<subseteq> A \<Longrightarrow> cm_prefix_free dg len b B"
  unfolding cm_prefix_free_def by blast

text \<open>The leaves of a group are its elements, each once, with their counts.\<close>

lemma cm_dfs_correct:
  assumes "cm_group dg len b l N" "cm_prefix_free dg len b (set N)" "\<forall>x\<in>set N. len x < l + f"
  shows "set (cm_dfs dg len b f l N) = (\<lambda>x. (x, count_list N x)) ` set N \<and> distinct (map fst (cm_dfs dg len b f l N))"
  using assms
proof (induction f arbitrary: l N)
  case 0
  then have "N = []" by (cases N) (force simp: cm_group_def)+
  then show ?case by simp
next
  case (Suc f)
  show ?case
  proof (cases "N = [] \<or> len (hd N) \<le> l")
    case True
    then show ?thesis
    proof (cases "N = []")
      case False
      then have h: "hd N \<in> set N" "len (hd N) \<le> l" using True by simp_all
      have "\<forall>y\<in>set N. y = hd N" using cm_groupD(4) [OF Suc.prems(1) h(1) _ h(2)] by metis
      then have r: "N = replicate (length N) (hd N)" by (simp add: list_eq_iff_nth_eq)
      have "count_list (replicate n x) x = n" for n and x :: 'a by (induction n) simp_all
      then have "count_list N (hd N) = length N" by (metis r)
      moreover have "set N = {hd N}" using \<open>\<forall>y\<in>set N. y = hd N\<close> h(1) by blast
      ultimately show ?thesis using False h(2) by simp
    qed simp
  next
    case False
    then have ne: "N \<noteq> []" and long: "l < len (hd N)" by simp_all
    note ch = cm_group_child [OF Suc.prems(1) long ne Suc.prems(2)]
    let ?N = "\<lambda>d. filter (\<lambda>x. dg l x = d) N" and ?R = "\<lambda>d. cm_dfs dg len b f (Suc l) (filter (\<lambda>x. dg l x = d) N)"
    have IH: "set (?R d) = (\<lambda>x. (x, count_list (?N d) x)) ` set (?N d)" "distinct (map fst (?R d))" for d
      using Suc.IH [OF ch(2) [of d] cm_prefix_free_subset [OF Suc.prems(2)]] Suc.prems(3) by auto
    have cnt: "count_list (?N d) x = count_list N x" if "dg l x = d" for x d using that by (induction N) auto
    have dg: "dg l x < b" if "x \<in> set N" for x by (rule cm_groupD(2) [OF Suc.prems(1) that])
    have sd: "set (?R d) = (\<lambda>x. (x, count_list N x)) ` set (?N d)" for d
      unfolding IH(1) by (rule image_cong) (use cnt in auto)
    have "set (concat (map ?R [0..<b])) = (\<Union>d<b. (\<lambda>x. (x, count_list N x)) ` set (?N d))"
      using sd by auto
    also have "\<dots> = (\<lambda>x. (x, count_list N x)) ` set N" using dg by auto
    finally have s: "set (concat (map ?R [0..<b])) = (\<lambda>x. (x, count_list N x)) ` set N" .
    have "distinct (concat (map (\<lambda>d. map fst (?R d)) [0..<k]))" for k
    proof (induction k)
      case (Suc k)
      have "fst ` set (?R d) = set (?N d)" for d using IH(1) by (force simp: image_def)
      then show ?case using Suc IH(2) by auto
    qed simp
    then have "distinct (map fst (concat (map ?R [0..<b])))" by (simp add: map_concat o_def)
    then show ?thesis using s ne long by simp
  qed
qed

text \<open>Codes of one length: in the order of the code numbers.\<close>

lemma cm_dfs_sorted:
  assumes "cm_group dg (\<lambda>_. L) b l N" "cm_prefix_free dg (\<lambda>_. L) b (set N)" "L < l + f"
  shows "sorted_wrt (<) (map (cm_val dg b L) (map fst (cm_dfs dg (\<lambda>_. L) b f l N)))"
  using assms
proof (induction f arbitrary: l N)
  case (Suc f)
  show ?case
  proof (cases "N = [] \<or> L \<le> l")
    case False
    then have ne: "N \<noteq> []" and long: "l < L" by simp_all
    note ch = cm_group_child [OF Suc.prems(1) long ne Suc.prems(2)]
    let ?N = "\<lambda>d. filter (\<lambda>x. dg l x = d) N" and ?R = "\<lambda>d. cm_dfs dg (\<lambda>_. L) b f (Suc l) (filter (\<lambda>x. dg l x = d) N)"
    have IH: "sorted_wrt (<) (map (cm_val dg b L) (map fst (?R d)))" for d
      using Suc.IH [OF ch(2) [of d] cm_prefix_free_subset [OF Suc.prems(2)]] Suc.prems(3) by auto
    have "set (?R d) = (\<lambda>x. (x, count_list (?N d) x)) ` set (?N d)" for d
      using cm_dfs_correct [OF ch(2) [of d] cm_prefix_free_subset [OF Suc.prems(2)], of f] Suc.prems(3) by auto
    then have mem: "fst ` set (?R d) = set (?N d)" for d by (force simp: image_def)
    have less: "cm_val dg b L x < cm_val dg b L y" if "x \<in> set N" "y \<in> set N" "dg l x < dg l y" for x y
    proof -
      have d: "\<And>t. dg t x < b" "\<And>t. dg t y < b" "cm_val dg b l x = cm_val dg b l y"
        using cm_groupD(2,3) [OF Suc.prems(1)] that(1,2) by blast+
      have "cm_val dg b (Suc l) x < cm_val dg b (Suc l) y"
        using mult_add_less_iff(1) [of "dg l x" b "dg l y" "cm_val dg b l x" "cm_val dg b l y"] d that(3) by simp
      then show ?thesis by (rule cm_val_mono [of dg x b y, OF d(1,2) Suc_leI [OF long]])
    qed
    have "sorted_wrt (<) (map (cm_val dg b L) (map fst (concat (map ?R [0..<k]))))" for k
    proof (induction k)
      case (Suc k)
      have "cm_val dg b L x < cm_val dg b L y" if "x \<in> fst ` set (concat (map ?R [0..<k]))" "y \<in> fst ` set (?R k)" for x y
      proof -
        from that(1) obtain d where "d < k" "x \<in> fst ` set (?R d)" by force
        then show ?thesis using that(2) less [of x y] unfolding mem by auto
      qed
      then show ?case using Suc IH [of k] by (auto simp: sorted_wrt_append)
    qed simp
    then show ?thesis using ne long by simp
  qed auto
qed simp

section \<open>Frames\<close>

text \<open>
  What a frame of the iterators stands for: the elements of \<open>ys\<close> with prefix \<open>p\<close> of \<open>l\<close> digits, which are the
  range from \<open>s\<close> to \<open>e\<close> of level \<open>l\<close> unless their code has ended.
\<close>

definition cm_under :: "(nat \<Rightarrow> 'a \<Rightarrow> nat) \<Rightarrow> nat \<Rightarrow> nat \<Rightarrow> nat \<Rightarrow> 'a list \<Rightarrow> 'a list" where
  "cm_under dg b l p ys = filter (\<lambda>x. cm_val dg b l x = p) ys"

definition cm_frame :: "(nat \<Rightarrow> 'a \<Rightarrow> nat) \<Rightarrow> ('a \<Rightarrow> nat) \<Rightarrow> nat \<Rightarrow> nat \<Rightarrow> 'a list \<Rightarrow> 'a list \<Rightarrow> nat \<Rightarrow> nat \<Rightarrow> nat \<Rightarrow> nat \<Rightarrow> bool" where
  "cm_frame dg len b L xs ys l p s e \<longleftrightarrow> l \<le> L \<and> s < e \<and> cm_group dg len b l (cm_under dg b l p ys)
     \<and> e - s = length (cm_under dg b l p ys)
     \<and> ((\<forall>x\<in>set (cm_under dg b l p ys). l < len x) \<longrightarrow>
         (\<exists>v<b ^ l. cm_part dg b l v ys = cm_under dg b l p ys \<and> cm_node dg len b xs ys l v s e))"

lemma cm_frame_nonempty: "cm_frame dg len b L xs ys l p s e \<Longrightarrow> cm_under dg b l p ys \<noteq> []"
  by (auto simp: cm_frame_def)

lemma cm_frame_child:
  assumes ok: "cm_ok dg len b xs" and f: "cm_frame dg len b L xs ys l p s e" and ys: "set ys \<subseteq> set xs" and d: "d < b"
    and L: "\<forall>x\<in>set xs. len x \<le> L" and long: "l < len (hd (cm_under dg b l p ys))"
  defines "D \<equiv> cm_digits dg len b xs l" and "N \<equiv> filter (\<lambda>x. dg l x = d) (cm_under dg b l p ys)"
  shows "rank_of D d e = rank_of D d s + length N" "e \<le> length (cm_level dg len b xs l)" "cm_under dg b (Suc l) (b * p + d) ys = N"
    "N \<noteq> [] \<Longrightarrow> cm_frame dg len b L xs ys (Suc l) (b * p + d) (smaller_of D d + rank_of D d s) (smaller_of D d + rank_of D d e)"
    "N \<noteq> [] \<Longrightarrow> b * p + d < b ^ Suc l"
    "smaller_of D d + rank_of D d e \<le> length (cm_level dg len b xs l)"
    "N \<noteq> [] \<Longrightarrow> \<forall>x\<in>set N. Suc l < len x \<Longrightarrow> smaller_of D d + rank_of D d e \<le> length (cm_level dg len b xs (Suc l))"
    "N \<noteq> [] \<Longrightarrow> \<forall>x\<in>set N. len x \<le> Suc l \<Longrightarrow> length (cm_level dg len b xs (Suc l)) \<le> smaller_of D d + rank_of D d s"
proof -
  let ?M = "cm_under dg b l p ys"
  have g: "cm_group dg len b l ?M" using f by (simp add: cm_frame_def)
  have M: "set ?M \<subseteq> set xs" using ys by (auto simp: cm_under_def)
  have pf: "cm_prefix_free dg len b (set ?M)" by (rule cm_prefix_free_subset [OF cm_ok_prefix_free [OF ok] M])
  note ch = cm_group_child [OF g long cm_frame_nonempty [OF f] pf]
  obtain v where v: "v < b ^ l" "cm_part dg b l v ys = ?M" "cm_node dg len b xs ys l v s e"
    using f ch(1) unfolding cm_frame_def by blast
  note cs = cm_child_slice [OF ok v(3) ys v(1) d]
  have part: "cm_part dg b (Suc l) (v + d * b ^ l) ys = N"
    using cm_part_Suc [OF ok ys v(1) d] v(2) by (simp add: N_def)
  show r: "rank_of D d e = rank_of D d s + length N" using cs(4) part by (simp add: D_def)
  show "e \<le> length (cm_level dg len b xs l)" using v(3) by (simp add: cm_node_def)
  show le: "smaller_of D d + rank_of D d e \<le> length (cm_level dg len b xs l)" unfolding D_def by (rule cs(3))
  have dg: "dg t y < b" if "y \<in> set xs" for t y using cm_okD(2) [OF ok that] .
  have "cm_val dg b (Suc l) y = b * p + d \<longleftrightarrow> cm_val dg b l y = p \<and> dg l y = d" if "y \<in> set ys" for y
    using mult_add_less_iff(2) [of "dg l y" b d "cm_val dg b l y" p] dg [of y l] d that ys by auto
  then show lst: "cm_under dg b (Suc l) (b * p + d) ys = N"
    unfolding cm_under_def N_def filter_filter by (intro filter_cong) auto
  assume ne: "N \<noteq> []"
  then obtain x where x: "x \<in> set N" by (cases N) auto
  have xM: "x \<in> set ?M" "dg l x = d" using x by (auto simp: N_def)
  then have xs: "x \<in> set xs" using M by blast
  have "Suc l \<le> len x" using ch(1) xM by (simp add: Suc_leI)
  then have lL: "Suc l \<le> L" using L xs by fastforce
  have "cm_val dg b (Suc l) x < b ^ Suc l" by (rule cm_val_less) (rule dg [OF xs])
  then show "b * p + d < b ^ Suc l" using xM by (simp add: cm_under_def)
  show "length (cm_level dg len b xs (Suc l)) \<le> smaller_of D d + rank_of D d s" if short: "\<forall>x\<in>set N. len x \<le> Suc l"
  proof (rule ccontr)
    let ?B = "buckets (dg l) b (cm_level dg len b xs l)" and ?s = "smaller_of D d + rank_of D d s" and ?e = "smaller_of D d + rank_of D d e"
    assume "\<not> length (cm_level dg len b xs (Suc l)) \<le> ?s"
    then have s: "?s < length (cm_level dg len b xs (Suc l))" by simp
    have "?s < ?e" using r ne by simp
    moreover have "?e \<le> length ?B" using le length_level_buckets [OF ok, of l] by simp
    ultimately have "slice ?B ?s ?e ! 0 = ?B ! ?s" "0 < length (slice ?B ?s ?e)" by (simp_all add: nth_slice length_slice)
    moreover have "slice ?B ?s ?e = N" unfolding D_def cs(1) part ..
    ultimately have "?B ! ?s \<in> set N" using nth_mem [of 0 N] by simp
    moreover have "?B ! ?s = cm_level dg len b xs (Suc l) ! ?s"
      using s by (subst cm_level_prefix [OF ok]) (simp add: nth_append del: cm_level.simps)
    then have "?B ! ?s \<in> set (cm_level dg len b xs (Suc l))" using nth_mem [OF s] by simp
    then have "Suc l < len (?B ! ?s)" unfolding set_cm_level [OF ok] by simp
    ultimately show False using short by fastforce
  qed
  let ?fit = "smaller_of D d + rank_of D d e \<le> length (cm_level dg len b xs (Suc l))"
  show fit: ?fit if lng: "\<forall>x\<in>set N. Suc l < len x"
    unfolding D_def
  proof (rule cm_slice_fits [OF ok])
    show "smaller_of (cm_digits dg len b xs l) d + rank_of (cm_digits dg len b xs l) d s
        < smaller_of (cm_digits dg len b xs l) d + rank_of (cm_digits dg len b xs l) d e" using r ne by (simp add: D_def)
    show "smaller_of (cm_digits dg len b xs l) d + rank_of (cm_digits dg len b xs l) d e \<le> length (cm_level dg len b xs l)" by (rule cs(3))
    show "\<forall>x\<in>set (slice (buckets (dg l) b (cm_level dg len b xs l)) (smaller_of (cm_digits dg len b xs l) d + rank_of (cm_digits dg len b xs l) d s)
          (smaller_of (cm_digits dg len b xs l) d + rank_of (cm_digits dg len b xs l) d e)). Suc l < len x"
      unfolding cs(1) part by (rule lng)
  qed
  have node: "cm_node dg len b xs ys (Suc l) (v + d * b ^ l) (smaller_of D d + rank_of D d s) (smaller_of D d + rank_of D d e)"
    if "\<forall>x\<in>set N. Suc l < len x"
    using cm_node_child [OF ok v(3) ys v(1) d] fit [OF that] by (simp add: D_def)
  have "v + d * b ^ l < b ^ Suc l"
  proof -
    have "Suc d * b ^ l \<le> b * b ^ l" using d by (intro mult_le_mono1) simp
    then show ?thesis using v(1) by simp
  qed
  then have "\<exists>v'<b ^ Suc l. cm_part dg b (Suc l) v' ys = N
      \<and> cm_node dg len b xs ys (Suc l) v' (smaller_of D d + rank_of D d s) (smaller_of D d + rank_of D d e)" if "\<forall>x\<in>set N. Suc l < len x"
    using part node [OF that] by blast
  moreover have "cm_group dg len b (Suc l) N" unfolding N_def by (rule ch(2))
  ultimately show "cm_frame dg len b L xs ys (Suc l) (b * p + d) (smaller_of D d + rank_of D d s) (smaller_of D d + rank_of D d e)"
    unfolding cm_frame_def lst using lL r ne by simp
qed

text \<open>The frame of a whole range, and the items below a frame.\<close>

lemma slice_subset: "set (slice xs s e) \<subseteq> set xs"
  by (auto simp: slice_def dest: in_set_takeD in_set_dropD)

lemma cm_frame_root:
  assumes ok: "cm_ok dg len b xs" and se: "s < e" "e \<le> length xs"
  shows "cm_frame dg len b L xs (slice xs s e) 0 0 s e" "cm_under dg b 0 0 (slice xs s e) = slice xs s e"
proof -
  show lst: "cm_under dg b 0 0 (slice xs s e) = slice xs s e" by (simp add: cm_under_def)
  have grp: "cm_group dg len b 0 (slice xs s e)" unfolding cm_group_def using slice_subset [of xs s e] cm_okD(1,2) [OF ok] by fastforce
  have part: "cm_part dg b 0 0 (slice xs s e) = slice xs s e" by (simp add: cm_part_def)
  show "cm_frame dg len b L xs (slice xs s e) 0 0 s e"
    unfolding cm_frame_def lst using se grp cm_node_root [OF less_imp_le [OF se(1)] se(2), of dg len b] part by (simp add: length_slice)
qed

lemma cm_dfs_empty [simp]: "cm_dfs dg len b f l [] = []"
  by (cases f) simp_all

lemma cm_frame_items:
  assumes ok: "cm_ok dg len b xs" and f: "cm_frame dg len b L xs ys l p s e" and ys: "set ys \<subseteq> set xs" and L: "\<forall>x\<in>set xs. len x \<le> L"
  shows "cm_dfs dg len b (Suc L - l) l (cm_under dg b l p ys) \<noteq> []"
proof -
  let ?M = "cm_under dg b l p ys"
  have M: "set ?M \<subseteq> set xs" using ys by (auto simp: cm_under_def)
  have l: "l \<le> L" and grp: "cm_group dg len b l ?M" using f by (simp_all add: cm_frame_def)
  have "\<forall>x\<in>set ?M. len x < l + (Suc L - l)" using M L l by fastforce
  from cm_dfs_correct [OF grp cm_prefix_free_subset [OF cm_ok_prefix_free [OF ok] M] this]
  have "set (cm_dfs dg len b (Suc L - l) l ?M) = (\<lambda>x. (x, count_list ?M x)) ` set ?M" by blast
  then show ?thesis using cm_frame_nonempty [OF f] by (metis image_is_empty list.set(1) set_empty)
qed

lemma cm_dfs_slice:
  assumes ok: "cm_ok dg len b xs" and L: "\<forall>x\<in>set xs. len x \<le> L"
  shows "cm_group dg len b 0 (slice xs s e)" "cm_prefix_free dg len b (set (slice xs s e))" "\<forall>x\<in>set (slice xs s e). len x < 0 + Suc L"
  using slice_subset [of xs s e] cm_okD(1,2) [OF ok] cm_prefix_free_subset [OF cm_ok_prefix_free [OF ok] slice_subset [of xs s e]] L
  unfolding cm_group_def by (fastforce simp: less_Suc_eq_le)+

end
