(* ===== verification/BinWTOccs.thy ===== *)
theory BinWTOccs
  imports BinWTHuff CodeDfs QuadWTOccs
begin

text \<open>
  The iterator over the occurrences of a range of the binary wavelet tree: a frame of its stack stands
  for the elements of the range under its prefix (\<open>bf_list\<close>), and the iterator unrolls the walk
  \<open>cm_dfs\<close> over them. On a plain tree it yields the symbols in increasing order with their counts; on
  a compressed tree the same items in the order of the codes.
\<close>

unbundle bit_operations_syntax

section \<open>Frames\<close>

definition bf_list :: "(nat \<Rightarrow> 'a::len word \<Rightarrow> nat) \<Rightarrow> 'a word list \<Rightarrow> occs_range_frame \<Rightarrow> 'a word list" where
  "bf_list dg ys f = cm_under dg 2 (of_level f) (unat (of_bit_path f)) ys"

definition bf_ok :: "(nat \<Rightarrow> 'a::len word \<Rightarrow> nat) \<Rightarrow> ('a word \<Rightarrow> nat) \<Rightarrow> nat \<Rightarrow> 'a word list \<Rightarrow> 'a word list \<Rightarrow> occs_range_frame \<Rightarrow> bool" where
  "bf_ok dg len L xs ys f \<longleftrightarrow> cm_frame dg len 2 L xs ys (of_level f) (unat (of_bit_path f)) (of_start f) (of_end f)"

lemma bf_okD:
  assumes "bf_ok dg len L xs ys f"
  shows "of_level f \<le> L" "of_start f < of_end f" "cm_group dg len 2 (of_level f) (bf_list dg ys f)"
    "of_end f - of_start f = length (bf_list dg ys f)"
  using assms by (simp_all add: bf_ok_def bf_list_def cm_frame_def)

definition bf_den :: "(nat \<Rightarrow> 'a::len word \<Rightarrow> nat) \<Rightarrow> ('a word \<Rightarrow> nat) \<Rightarrow> nat \<Rightarrow> 'a word list \<Rightarrow> occs_range_frame \<Rightarrow> ('a word \<times> nat) list" where
  "bf_den dg len L ys f = cm_dfs dg len 2 (Suc L - of_level f) (of_level f) (bf_list dg ys f)"

definition bf_child :: "nat list \<Rightarrow> occs_range_frame \<Rightarrow> nat \<Rightarrow> occs_range_frame" where
  "bf_child D f d = \<lparr>of_start = smaller_of D d + rank_of D d (of_start f), of_end = smaller_of D d + rank_of D d (of_end f),
     of_level = of_level f + 1, of_bit_path = of_nat (2 * unat (of_bit_path f) + d)\<rparr>"

lemma bf_nonempty: "bf_ok dg len L xs ys f \<Longrightarrow> bf_list dg ys f \<noteq> []"
  unfolding bf_ok_def bf_list_def by (rule cm_frame_nonempty)

lemma bf_child_ok:
  fixes xs :: "'a::len word list"
  assumes ok: "cm_ok dg len 2 xs" and f: "bf_ok dg len L xs ys f" and ys: "set ys \<subseteq> set xs" and d: "d < 2"
    and L: "L \<le> 64" "\<forall>x\<in>set xs. len x \<le> L" and long: "of_level f < len (hd (bf_list dg ys f))"
  defines "D \<equiv> cm_digits dg len 2 xs (of_level f)" and "N \<equiv> filter (\<lambda>x. dg (of_level f) x = d) (bf_list dg ys f)"
  shows "rank_of D d (of_end f) = rank_of D d (of_start f) + length N"
    "of_end f \<le> length (cm_level dg len 2 xs (of_level f))"
    "N \<noteq> [] \<Longrightarrow> bf_ok dg len L xs ys (bf_child D f d) \<and> bf_list dg ys (bf_child D f d) = N"
proof -
  note c = cm_frame_child [OF ok f [unfolded bf_ok_def] ys d L(2) long [unfolded bf_list_def]]
  show "rank_of D d (of_end f) = rank_of D d (of_start f) + length N"
    using c(1) by (simp only: D_def N_def bf_list_def)
  show "of_end f \<le> length (cm_level dg len 2 xs (of_level f))" by (rule c(2))
  assume "N \<noteq> []"
  then have ne: "filter (\<lambda>x. dg (of_level f) x = d) (cm_under dg 2 (of_level f) (unat (of_bit_path f)) ys) \<noteq> []" by (simp only: N_def bf_list_def) simp
  have "Suc (of_level f) \<le> L" using c(4) [OF ne] by (simp add: cm_frame_def)
  then have "(2 :: nat) ^ Suc (of_level f) \<le> 2 ^ 64" using L(1) by (intro power_increasing) simp_all
  then have "2 * unat (of_bit_path f) + d < 2 ^ 64" using c(5) [OF ne] by linarith
  then have un: "unat (of_bit_path (bf_child D f d)) = 2 * unat (of_bit_path f) + d"
    using unat_of_nat_small [of "2 * unat (of_bit_path f) + d", where 'a = 64] by (simp add: bf_child_def)
  show "bf_ok dg len L xs ys (bf_child D f d) \<and> bf_list dg ys (bf_child D f d) = N"
    unfolding bf_ok_def bf_list_def un N_def using c(3) c(4) [OF ne] by (simp add: bf_child_def D_def)
qed

section \<open>One step of the iterator\<close>

text \<open>The leaf test answers whether the code of the elements of the frame ends at its level.\<close>

definition leaf_sound :: "bool \<Rightarrow> ('a::len word, 'b) wavelet_tree \<Rightarrow> (nat \<Rightarrow> 'a word \<Rightarrow> nat) \<Rightarrow> ('a word \<Rightarrow> nat) \<Rightarrow> 'a word list \<Rightarrow> 'a word list \<Rightarrow> bool" where
  "leaf_sound compressed t dg len xs ys \<longleftrightarrow> (\<forall>f. bf_ok dg len (wv_n_levels t) xs ys f \<longrightarrow>
     wv_occs_leaf compressed t f = Some (Some (if len (hd (bf_list dg ys f)) \<le> of_level f then Some (hd (bf_list dg ys f)) else None)))"

context binary_tree begin

lemma occs_push_eq:
  fixes xs :: "'a::len word list"
  assumes t: "wv_levels_ok brep dg len xs t" and L: "wv_n_levels t \<le> 64" and ys: "set ys \<subseteq> set xs"
    and f: "bf_ok dg len (wv_n_levels t) xs ys f" and long: "of_level f < len (hd (bf_list dg ys f))"
  shows "\<exists>r gs. idx (wv_bvs t) (of_level f) = Some r \<and> wv_occs_push B r f rest = Some (Some (gs @ rest))
    \<and> (\<forall>g\<in>set gs. bf_ok dg len (wv_n_levels t) xs ys g \<and> of_level g = Suc (of_level f))
    \<and> concat (map (bf_den dg len (wv_n_levels t) ys) gs) = bf_den dg len (wv_n_levels t) ys f"
proof -
  let ?L = "wv_n_levels t" and ?l = "of_level f" and ?M = "bf_list dg ys f"
  let ?D = "cm_digits dg len 2 xs ?l" and ?N = "\<lambda>d. filter (\<lambda>x. dg ?l x = d) ?M"
  have ok: "cm_ok dg len 2 xs" and lens: "\<forall>x\<in>set xs. len x \<le> ?L" using t by (simp_all add: wv_levels_ok_def)
  have ne: "?M \<noteq> []" by (rule bf_nonempty [OF f])
  have "hd ?M \<in> set ?M" using ne by (rule hd_in_set)
  then have h: "hd ?M \<in> set xs" using ys by (auto simp: bf_list_def cm_under_def)
  then have lt: "?l < ?L" using lens long by fastforce
  note fct = level_facts [OF t lt]
  have c: "rank_of ?D d (of_end f) = rank_of ?D d (of_start f) + length (?N d)"
    "?N d \<noteq> [] \<Longrightarrow> bf_ok dg len ?L xs ys (bf_child ?D f d) \<and> bf_list dg ys (bf_child ?D f d) = ?N d" if "d < 2" for d
    using bf_child_ok(1,3) [OF ok f ys that L lens long] by simp_all
  have se: "of_start f < of_end f" "of_end f \<le> length ?D"
    using bf_child_ok(2) [OF ok f ys _ L lens long, of 0] bf_okD(2) [OF f] by simp_all
  have "0 < length ?D" using se by linarith
  then have "?D \<noteq> []" by (rule length_greater_0_conv [THEN iffD1])
  then have ds: "\<forall>x\<in>set ?D. x < 2" "?D \<noteq> []" using cm_digits_less [OF ok] by (blast, blast)
  note rs = level_rank [OF fct(2) ds less_imp_le [OF less_le_trans [OF se]]] and re = level_rank [OF fct(2) ds se(2)]
  let ?g = "\<lambda>d. if ?N d = [] then [] else [bf_child ?D f d]"
  have p1: "push_bit 1 (of_bit_path f) OR 1 = of_nat (2 * unat (of_bit_path f) + 1)"
    using or_low_bit [of "unat (of_bit_path f)" True, where 'a = 64] by simp
  have p0: "push_bit 1 (of_bit_path f) = of_nat (2 * unat (of_bit_path f) + 0)"
    using or_low_bit [of "unat (of_bit_path f)" False, where 'a = 64] by simp
  have sm: "smaller_of ?D 1 = count_list ?D 0" using smaller_digit [of 1 ?D] by simp
  have c1: "(if rank_of ?D 1 (of_end f) > rank_of ?D 1 (of_start f)
      then \<lparr>of_start = count_list ?D 0 + rank_of ?D 1 (of_start f), of_end = count_list ?D 0 + rank_of ?D 1 (of_end f),
        of_level = ?l + 1, of_bit_path = push_bit 1 (of_bit_path f) OR 1\<rparr> # st else st) = ?g 1 @ st" for st
    unfolding p1 using c(1) [of 1] sm by (simp add: bf_child_def)
  have c0: "(if rank_of ?D 0 (of_end f) > rank_of ?D 0 (of_start f)
      then \<lparr>of_start = rank_of ?D 0 (of_start f), of_end = rank_of ?D 0 (of_end f), of_level = ?l + 1,
        of_bit_path = push_bit 1 (of_bit_path f)\<rparr> # st else st) = ?g 0 @ st" for st
    unfolding p0 using c(1) [of 0] by (simp add: bf_child_def)
  have push: "wv_occs_push B (wv_bvs t ! ?l) f rest = Some (Some (?g 0 @ ?g 1 @ rest))"
  proof -
    have "wv_occs_push B (wv_bvs t ! ?l) f rest = Some (Some (if rank_of ?D 0 (of_end f) > rank_of ?D 0 (of_start f)
      then \<lparr>of_start = rank_of ?D 0 (of_start f), of_end = rank_of ?D 0 (of_end f), of_level = ?l + 1,
        of_bit_path = push_bit 1 (of_bit_path f)\<rparr> # (?g 1 @ rest) else ?g 1 @ rest))"
      unfolding c1 [of rest, symmetric] wv_occs_push_def using rs(1,2,5,6) re(1,2,5,6) by simp
    then show ?thesis unfolding c0 .
  qed
  have gok: "\<forall>g\<in>set (?g 0 @ ?g 1). bf_ok dg len ?L xs ys g \<and> of_level g = Suc ?l"
    using c(2) [of 0] c(2) [of 1] by (auto simp: bf_child_def)
  have den: "concat (map (bf_den dg len ?L ys) (?g d)) = cm_dfs dg len 2 (?L - ?l) (Suc ?l) (?N d)" if "d < 2" for d
    using c(2) [OF that] by (auto simp: bf_den_def bf_child_def)
  have "Suc ?L - ?l = Suc (?L - ?l)" using lt by simp
  then have "bf_den dg len ?L ys f = cm_dfs dg len 2 (?L - ?l) (Suc ?l) (?N 0) @ cm_dfs dg len 2 (?L - ?l) (Suc ?l) (?N 1)"
    using ne long by (simp add: bf_den_def numeral_2_eq_2)
  then have all: "concat (map (bf_den dg len ?L ys) (?g 0 @ ?g 1)) = bf_den dg len ?L ys f"
    unfolding map_append concat_append using den [of 0] den [of 1] by simp
  show ?thesis
  proof (intro exI conjI)
    show "wv_occs_push B (wv_bvs t ! ?l) f rest = Some (Some ((?g 0 @ ?g 1) @ rest))" unfolding append_assoc by (rule push)
  qed (rule fct(1), rule gok, rule all)
qed

lemma wv_occs_next_frame:
  fixes xs :: "'a::len word list"
  assumes t: "wv_levels_ok brep dg len xs t" and L: "wv_n_levels t \<le> 64" and ys: "set ys \<subseteq> set xs"
    and leaf: "leaf_sound compressed t dg len xs ys"
    and "bf_ok dg len (wv_n_levels t) xs ys f" "\<forall>g\<in>set rest. bf_ok dg len (wv_n_levels t) xs ys g"
  shows "\<exists>v vs st. bf_den dg len (wv_n_levels t) ys f = v # vs \<and> wv_occs_next B compressed t (f # rest) = Some (Some v, st)
    \<and> (\<forall>g\<in>set st. bf_ok dg len (wv_n_levels t) xs ys g)
    \<and> concat (map (bf_den dg len (wv_n_levels t) ys) st) = vs @ concat (map (bf_den dg len (wv_n_levels t) ys) rest)"
  using assms(5,6)
proof (induction "wv_n_levels t - of_level f" arbitrary: f rest rule: less_induct)
  case less
  let ?L = "wv_n_levels t" and ?M = "bf_list dg ys f"
  note f = less.prems(1)
  have ne: "?M \<noteq> []" by (rule bf_nonempty [OF f])
  have lf: "wv_occs_leaf compressed t f = Some (Some (if len (hd ?M) \<le> of_level f then Some (hd ?M) else None))"
    using leaf f unfolding leaf_sound_def by blast
  have se: "of_start f \<le> of_end f" "of_end f - of_start f = length ?M" "of_level f \<le> ?L" using bf_okD [OF f] by simp_all
  show ?case
  proof (cases "len (hd ?M) \<le> of_level f")
    case True
    have "bf_den dg len ?L ys f = [(hd ?M, length ?M)]" using True ne se(3) by (simp add: bf_den_def Suc_diff_le)
    moreover have "wv_occs_next B compressed t (f # rest) = Some (Some (hd ?M, length ?M), rest)"
      using lf True se by (simp add: wv_occs_next.simps [of _ _ _ "f # rest"])
    ultimately show ?thesis using less.prems(2) by auto
  next
    case False
    then have long: "of_level f < len (hd ?M)" by simp
    obtain r gs where g: "idx (wv_bvs t) (of_level f) = Some r" "wv_occs_push B r f rest = Some (Some (gs @ rest))"
      "\<forall>g\<in>set gs. bf_ok dg len ?L xs ys g \<and> of_level g = Suc (of_level f)"
      "concat (map (bf_den dg len ?L ys) gs) = bf_den dg len ?L ys f"
      using occs_push_eq [OF t L ys f long, of rest] by blast
    have step: "wv_occs_next B compressed t (f # rest) = wv_occs_next B compressed t (gs @ rest)"
      using lf False g(1,2) by (simp add: wv_occs_next.simps [of _ _ _ "f # rest"])
    have "bf_den dg len ?L ys f \<noteq> []"
    proof -
      have "cm_ok dg len 2 xs" "\<forall>x\<in>set xs. len x \<le> ?L" using t by (simp_all add: wv_levels_ok_def)
      then show ?thesis unfolding bf_den_def bf_list_def using cm_frame_items f ys unfolding bf_ok_def by blast
    qed
    then obtain g' gs' where gs: "gs = g' # gs'" using g(4) by (cases gs) auto
    have gok: "bf_ok dg len ?L xs ys g'" "of_level g' = Suc (of_level f)" using g(3) gs by simp_all
    have "of_level g' \<le> ?L" by (rule bf_okD(1) [OF gok(1)])
    then have lt: "?L - of_level g' < ?L - of_level f" using gok(2) by simp
    have "\<forall>h\<in>set (gs' @ rest). bf_ok dg len ?L xs ys h" using g(3) less.prems(2) unfolding gs by (simp add: ball_Un)
    note IH = less.hyps [OF lt gok(1) this]
    then obtain v vs st where v: "bf_den dg len ?L ys g' = v # vs"
      "wv_occs_next B compressed t (g' # gs' @ rest) = Some (Some v, st)" "\<forall>g\<in>set st. bf_ok dg len ?L xs ys g"
      "concat (map (bf_den dg len ?L ys) st) = vs @ concat (map (bf_den dg len ?L ys) (gs' @ rest))" by (elim exE conjE) (rule that)
    have "bf_den dg len ?L ys f = v # vs @ concat (map (bf_den dg len ?L ys) gs')" using g(4) gs v(1) by simp
    then show ?thesis using step gs v(2-4) by simp
  qed
qed

lemma wv_occs_collect:
  fixes xs :: "'a::len word list"
  assumes t: "wv_levels_ok brep dg len xs t" and L: "wv_n_levels t \<le> 64" and se: "s \<le> e" "e \<le> length xs"
    and leaf: "leaf_sound compressed t dg len xs (slice xs s e)"
  shows "collect (wv_occs_next B compressed t) (wv_occs_range_unchecked s e)
    = Some (cm_dfs dg len 2 (Suc (wv_n_levels t)) 0 (slice xs s e))"
proof (cases "s = e")
  case True
  have "wv_occs_next B compressed t [] = Some (None, [])" by (simp add: wv_occs_next.simps)
  then show ?thesis using True by (simp add: wv_occs_range_unchecked_def collect_None slice_empty)
next
  case False
  let ?L = "wv_n_levels t" and ?ys = "slice xs s e"
  let ?f = "\<lparr>of_start = s, of_end = e, of_level = 0, of_bit_path = 0\<rparr>"
  have ys: "set ?ys \<subseteq> set xs" by (rule slice_subset)
  have ok: "cm_ok dg len 2 xs" using t by (simp add: wv_levels_ok_def)
  have "s < e" using False se by simp
  from cm_frame_root [OF ok this se(2)] have f: "bf_ok dg len ?L xs ?ys ?f" and lst: "bf_list dg ?ys ?f = ?ys"
    by (simp_all add: bf_ok_def bf_list_def)
  have "collect (wv_occs_next B compressed t) [?f] = Some (concat (map (bf_den dg len ?L ?ys) [?f]))"
  proof (rule collect_den [where I = "\<lambda>st. \<forall>g\<in>set st. bf_ok dg len ?L xs ?ys g" and den = "\<lambda>st. concat (map (bf_den dg len ?L ?ys) st)"])
    fix st assume st: "\<forall>g\<in>set st. bf_ok dg len ?L xs ?ys g"
    note nxt = wv_occs_next_frame [OF t L ys leaf]
    { assume e: "concat (map (bf_den dg len ?L ?ys) st) = []"
      have "st = []"
      proof (rule ccontr)
        assume "st \<noteq> []"
        then obtain g rest where g: "st = g # rest" by (cases st) auto
        have "bf_ok dg len ?L xs ?ys g" "\<forall>h\<in>set rest. bf_ok dg len ?L xs ?ys h" using st g by simp_all
        from nxt [OF this] obtain v vs where "bf_den dg len ?L ?ys g = v # vs" by blast
        then show False using e g by simp
      qed
      then show "\<exists>s'. wv_occs_next B compressed t st = Some (None, s')" by (simp add: wv_occs_next.simps) }
    fix x ws assume x: "concat (map (bf_den dg len ?L ?ys) st) = x # ws"
    then obtain g rest where g: "st = g # rest" by (cases st) auto
    have "bf_ok dg len ?L xs ?ys g" "\<forall>h\<in>set rest. bf_ok dg len ?L xs ?ys h" using st g by simp_all
    from nxt [OF this] show "\<exists>s'. wv_occs_next B compressed t st = Some (Some x, s') \<and> (\<forall>g\<in>set s'. bf_ok dg len ?L xs ?ys g)
        \<and> concat (map (bf_den dg len ?L ?ys) s') = ws" using x g by auto
  qed (use f in simp)
  then show ?thesis using False by (simp add: wv_occs_range_unchecked_def bf_den_def lst)
qed

end

section \<open>The leaf tests\<close>

lemma plain_leaf_sound:
  fixes xs :: "'a::len word list"
  assumes t: "wv_plain_ok brep xs t" and L: "wv_n_levels t \<le> LENGTH('a)" and ys: "set ys \<subseteq> set xs"
  shows "leaf_sound False t (plain_dg (wv_n_levels t)) (\<lambda>_. wv_n_levels t) xs ys"
  unfolding leaf_sound_def
proof (intro allI impI)
  fix f assume f: "bf_ok (plain_dg (wv_n_levels t)) (\<lambda>_. wv_n_levels t) (wv_n_levels t) xs ys f"
  let ?L = "wv_n_levels t"
  let ?M = "bf_list (plain_dg ?L) ys f"
  have l: "of_level f \<le> ?L" by (rule bf_okD(1) [OF f])
  have "hd ?M \<in> set ?M" using bf_nonempty [OF f] by (rule hd_in_set)
  then have h: "hd ?M \<in> set ys" "cm_val (plain_dg ?L) 2 (of_level f) (hd ?M) = unat (of_bit_path f)" by (simp_all add: bf_list_def cm_under_def)
  have "ucast (of_bit_path f) = hd ?M" if "of_level f = ?L"
  proof -
    have "xs \<noteq> []" using h(1) ys by auto
    then have "unat (hd ?M) < 2 ^ ?L" using plain_symbols [of xs "hd ?M"] h(1) ys t by (auto simp: wv_plain_ok_def)
    then have "unat (of_bit_path f) = unat (hd ?M)" using h(2) plain_val [of ?L ?L "hd ?M"] that by simp
    then have "(of_nat (unat (of_bit_path f)) :: 'a word) = of_nat (unat (hd ?M))" by simp
    then show ?thesis by simp
  qed
  then show "wv_occs_leaf False t f = Some (Some (if ?L \<le> of_level f then Some (hd ?M) else None))"
    using l by (simp add: wv_occs_leaf_def)
qed

lemma huff_leaf_sound:
  fixes xs :: "'a::len word list"
  assumes h: "symbols_ok ls sigma codes xs" "wv_levels_ok brep (comp_dg codes) (comp_len codes) xs t"
    "wv_codes_decode t = Some D" "decode_ok codes xs D" "length D = wv_n_levels t + 1" and ys: "set ys \<subseteq> set xs"
  shows "leaf_sound True t (comp_dg codes) (comp_len codes) xs ys"
  unfolding leaf_sound_def
proof (intro allI impI)
  fix f assume f: "bf_ok (comp_dg codes) (comp_len codes) (wv_n_levels t) xs ys f"
  let ?M = "bf_list (comp_dg codes) ys f" and ?l = "of_level f"
  let ?x = "hd ?M"
  note d = symbols_okD [OF h(1)]
  have "?x \<in> set ?M" using bf_nonempty [OF f] by (rule hd_in_set)
  then have x: "?x \<in> set xs" "cm_val (comp_dg codes) 2 ?l ?x = unat (of_bit_path f)" "?l \<le> comp_len codes ?x"
    using ys cm_groupD(1) [of "comp_dg codes" "comp_len codes" 2 ?l ?M ?x] bf_okD(3) [OF f] by (auto simp: bf_list_def cm_under_def)
  have lD: "?l < length D" using bf_okD(1) [OF f] h(5) by simp
  have l32: "?l \<le> 32" using x(3) d(4) [OF x(1)] by simp
  have "cm_val (comp_dg codes) 2 ?l ?x < 2 ^ ?l" by (rule cm_val_less) simp
  also have "(2 :: nat) ^ ?l \<le> 2 ^ 32" using l32 by (rule power_increasing) simp
  finally have un: "unat (of_nat (cm_val (comp_dg codes) 2 ?l ?x) :: u32) = cm_val (comp_dg codes) 2 ?l ?x"
    by (intro unat_of_nat_small) simp
  have w: "(ucast (of_bit_path f) :: u32) = of_nat (cm_val (comp_dg codes) 2 ?l ?x)" unfolding x(2) by simp
  have pf: "cm_prefix_free (comp_dg codes) (comp_len codes) 2 (set xs)" by (rule cm_ok_prefix_free [OF d(6)])
  show "wv_occs_leaf True t f = Some (Some (if comp_len codes ?x \<le> ?l then Some ?x else None))"
  proof (cases "comp_len codes ?x \<le> ?l")
    case True
    then have l: "?l = comp_len codes ?x" using x(3) by simp
    have "cm_val (comp_dg codes) 2 ?l ?x = unat (pc_content (codes ! unat ?x))" using comp_val [OF h(1) x(1), of ?l] l by simp
    then have "(ucast (of_bit_path f) :: u32) = pc_content (codes ! unat ?x)" unfolding w by simp
    moreover obtain k where "search_code (pc_content (codes ! unat ?x)) (D ! ?l) = Some k" "idx (D ! ?l) k = Some (pc_content (codes ! unat ?x), ?x)"
      using h(4) x(1) unfolding decode_ok_def l by blast
    ultimately show ?thesis using h(3) lD True by (simp add: wv_occs_leaf_def)
  next
    case False
    have "search_code (ucast (of_bit_path f)) (D ! ?l) = None"
    proof (rule ccontr)
      assume "search_code (ucast (of_bit_path f)) (D ! ?l) \<noteq> None"
      then obtain k where "search_code (ucast (of_bit_path f)) (D ! ?l) = Some k" by blast
      then obtain y where y: "y \<in> set xs" "comp_len codes y = ?l" "pc_content (codes ! unat y) = ucast (of_bit_path f)"
        using h(4) lD unfolding decode_ok_def by blast
      have "cm_val (comp_dg codes) 2 ?l y = cm_val (comp_dg codes) 2 ?l ?x"
        using comp_val [OF h(1) y(1), of ?l] y(2,3) un w by simp
      then have "y = ?x" using pf y(1,2) x(1) False unfolding cm_prefix_free_def by (metis nat_le_linear)
      then show False using y(2) False by simp
    qed
    then show ?thesis using h(3) lD False by (simp add: wv_occs_leaf_def)
  qed
qed

section \<open>The items of a range\<close>

context binary_tree begin

lemma wv_plain_occs:
  fixes xs :: "'a::len word list"
  assumes t: "wv_plain_ok brep xs t" and w: "LENGTH('a) \<le> 64" and se: "s \<le> e" "e \<le> length xs"
  shows "collect (wv_occs_next B False t) (wv_occs_range_unchecked s e) = Some (symbol_counts (slice xs s e))"
proof -
  let ?L = "wv_n_levels t" and ?ys = "slice xs s e"
  let ?dg = "plain_dg ?L :: nat \<Rightarrow> 'a word \<Rightarrow> nat"
  have lv: "wv_levels_ok brep ?dg (\<lambda>_. ?L) xs t" using t by (simp add: wv_plain_ok_def)
  then have ok: "cm_ok ?dg (\<lambda>_. ?L) 2 xs" by (simp add: wv_levels_ok_def)
  have L: "?L \<le> LENGTH('a)"
  proof (cases "xs = []")
    case False
    let ?s = "Max (set xs)"
    have "?L = msb_of ?s + 1" using t False by (simp add: wv_plain_ok_def)
    moreover have "msb_of ?s < LENGTH('a)" by (cases "?s = 0") (use msb_of_bounds(3) [of ?s] in \<open>auto simp: msb_of_def\<close>)
    ultimately show ?thesis by simp
  qed (use t in \<open>simp add: wv_plain_ok_def\<close>)
  let ?R = "cm_dfs ?dg (\<lambda>_. ?L) 2 (Suc ?L) 0 ?ys"
  have run: "collect (wv_occs_next B False t) (wv_occs_range_unchecked s e) = Some ?R"
    using wv_occs_collect [OF lv _ se plain_leaf_sound [OF t L slice_subset]] L w by simp
  note g = cm_dfs_slice [OF ok, of ?L s e, simplified]
  have R: "set ?R = (\<lambda>x. (x, count_list ?ys x)) ` set ?ys" "distinct (map fst ?R)"
    using cm_dfs_correct [OF g(1,2), of "Suc ?L"] by simp_all
  have srt: "sorted_wrt (<) (map (cm_val ?dg 2 ?L) (map fst ?R))" using cm_dfs_sorted [OF g(1,2), of "Suc ?L"] by simp
  have fst: "fst ` set ?R = set ?ys" unfolding R(1) by (simp add: image_image)
  have val: "cm_val ?dg 2 ?L x = unat x" if "x \<in> set ?ys" for x
  proof -
    have "x \<in> set xs" using slice_subset [of xs s e] that by blast
    then have "unat x < 2 ^ ?L" using t plain_symbols [of xs x] by (cases "xs = []") (simp_all add: wv_plain_ok_def)
    then show ?thesis using plain_val [of ?L ?L x] by simp
  qed
  have "sorted (map fst ?R)"
  proof -
    have "sorted_wrt (\<lambda>x y. cm_val ?dg 2 ?L x < cm_val ?dg 2 ?L y) (map fst ?R)" using srt by (simp only: sorted_wrt_map)
    then show ?thesis
      by (rule sorted_wrt_mono_rel [rotated]) (use fst val in \<open>auto simp: word_le_nat_alt\<close>)
  qed
  then have "map fst ?R = sorted_list_of_set (set ?ys)"
    using R(2) fst by (metis List.finite_set list.set_map sorted_distinct_set_unique sorted_list_of_set.distinct_sorted_key_list_of_set
        sorted_list_of_set.set_sorted_key_list_of_set sorted_list_of_set.sorted_sorted_key_list_of_set)
  moreover have "?R = map (\<lambda>x. (x, count_list ?ys x)) (map fst ?R)"
    unfolding map_map by (rule map_idI [symmetric]) (use R(1) in auto)
  ultimately show ?thesis unfolding run symbol_counts_def by simp
qed

lemma wv_huff_occs:
  fixes xs :: "'a::len word list"
  assumes t: "wv_huff_ok brep xs t" and se: "s \<le> e" "e \<le> length xs"
  shows "\<exists>items. collect (wv_occs_next B True t) (wv_occs_range_unchecked s e) = Some items
    \<and> distinct (map fst items) \<and> set items = (\<lambda>x. (x, count_list (slice xs s e) x)) ` set (slice xs s e)"
proof -
  obtain ls sigma codes D where h: "symbols_ok ls sigma codes xs" "wv_levels_ok brep (comp_dg codes) (comp_len codes) xs t"
    "wv_codes_decode t = Some D" "decode_ok codes xs D" "length D = wv_n_levels t + 1" using t by (auto simp: wv_huff_ok_def)
  have L: "wv_n_levels t \<le> 64" using t by (simp add: wv_huff_ok_def)
  have lens: "\<forall>x\<in>set xs. comp_len codes x \<le> wv_n_levels t" using h(2) by (simp add: wv_levels_ok_def)
  note g = cm_dfs_slice [OF symbols_okD(6) [OF h(1)] lens, of s e]
  show ?thesis
    using wv_occs_collect [OF h(2) L se huff_leaf_sound [OF h slice_subset]] cm_dfs_correct [OF g] by blast
qed

end

end
