(* ===== verification/BinWTSerde.thy ===== *)
theory BinWTSerde
  imports BinWTHuff
begin

text \<open>
  Deserialisation of the binary wavelet trees of \<^verbatim>\<open>src/binwt/mod.rs\<close>: what \<open>validate_deserialized\<close>
  answers on a tree that \<open>new\<close> built. A plain tree passes unless one of its symbols needs more than the
  32 bits \<open>get\<close> returns; a compressed tree passes unless a code is longer than the symbol type is wide.
\<close>

section \<open>Checks that pass\<close>

text \<open>Reading every position computes the largest symbol.\<close>

lemma foldR_max:
  assumes "\<And>i. i < n \<Longrightarrow> g i = Some (Some (h i))"
  shows "foldR (\<lambda>m i. rbind (ok_or (g i) e) (\<lambda>x. Some (Inr (max m (v x))))) 0 [0..<n]
    = Some (Inr (fold max (map (v \<circ> h) [0..<n]) (0 :: nat)))"
  using assms by (induction n) (simp_all add: foldR_append max.commute)

lemma fold_max_nat: "xs \<noteq> [] \<Longrightarrow> fold max xs 0 = Max (set xs)" for xs :: "nat list"
  by (subst Max.set_eq_fold [of "0" xs, symmetric]) (simp_all add: Max_insert)

lemma cm_level_antimono:
  assumes "cm_ok dg len b xs"
  shows "length (cm_level dg len b xs (Suc l)) \<le> length (cm_level dg len b xs l)"
proof -
  have "length (cm_level dg len b xs (Suc l)) \<le> length (buckets (dg l) b (cm_level dg len b xs l))" by simp
  then show ?thesis unfolding length_level_buckets [OF assms] .
qed

lemma cm_level_length:
  assumes "cm_ok dg len b xs"
  shows "length (cm_level dg len b xs l) \<le> length xs"
  by (induction l) (simp, use cm_level_antimono [OF assms] le_trans in blast)

lemma cm_level_full:
  assumes "cm_ok dg (\<lambda>_. L) b xs"
  shows "l < L \<Longrightarrow> length (cm_level dg (\<lambda>_. L) b xs l) = length xs"
proof (induction l)
  case (Suc l)
  then show ?case using length_level_buckets [OF assms, of l] by simp
qed simp

lemma take_bit_32: "unat x < 2 ^ 32 \<Longrightarrow> take_bit 32 x = x" for x :: "'a::len word"
  by (simp add: word_unat_eq_iff unsigned_take_bit_eq take_bit_nat_eq_self)

text \<open>The low 32 bits keep the largest symbol exactly when they keep every symbol.\<close>

lemma max_low_bits:
  fixes xs :: "'a::len word list"
  assumes "xs \<noteq> []"
  shows "Max ((\<lambda>x. unat (take_bit 32 x)) ` set xs) = unat (Max (set xs)) \<longleftrightarrow> (\<forall>x\<in>set xs. unat x < 2 ^ 32)"
proof
  assume a: "\<forall>x\<in>set xs. unat x < 2 ^ 32"
  then have "(\<lambda>x. unat (take_bit 32 x)) ` set xs = unat ` set xs" by (intro image_cong) (simp_all add: take_bit_32)
  moreover have "mono (unat :: 'a word \<Rightarrow> nat)" by (simp add: mono_def word_le_nat_alt)
  then have "unat (Max (set xs)) = Max (unat ` set xs)" using assms by (intro mono_Max_commute) simp_all
  ultimately show "Max ((\<lambda>x. unat (take_bit 32 x)) ` set xs) = unat (Max (set xs))" by simp
next
  assume m: "Max ((\<lambda>x. unat (take_bit 32 x)) ` set xs) = unat (Max (set xs))"
  have "Max ((\<lambda>x. unat (take_bit 32 x)) ` set xs) \<in> (\<lambda>x. unat (take_bit 32 x)) ` set xs" using assms by (intro Max_in) simp_all
  moreover have "unat (take_bit 32 x) < 2 ^ 32" for x :: "'a word"
    using take_bit_nat_less_exp [of 32 "unat x"] by (simp add: unsigned_take_bit_eq)
  ultimately have "unat (Max (set xs)) < 2 ^ 32" unfolding m by auto
  moreover have "unat x \<le> unat (Max (set xs))" if "x \<in> set xs" for x using that by (simp add: word_le_nat_alt [symmetric])
  ultimately show "\<forall>x\<in>set xs. unat x < 2 ^ 32" by (meson le_less_trans)
qed

text \<open>\<open>T::from\<close> of the \<open>u32\<close> in which \<open>get\<close> collected a symbol.\<close>

lemma T_from_low:
  fixes x :: "'a::len word"
  shows "T_from (of_nat (unat x)) = Some (take_bit 32 x)"
proof -
  let ?w = "of_nat (unat x) :: u32"
  have "(ucast ?w :: 'a word) = take_bit 32 x"
    by (rule bit_word_eqI) (auto simp: bit_ucast_iff bit_of_nat_iff bit_take_bit_iff bit_unsigned_iff)
  moreover have "unat ?w < 2 ^ LENGTH('a)"
  proof -
    have "unat ?w = take_bit 32 (unat x)" by (rule bit_eqI) (auto simp: bit_unsigned_iff bit_of_nat_iff bit_take_bit_iff)
    also have "\<dots> \<le> unat x" by (rule take_bit_nat_less_eq_self)
    also have "unat x < 2 ^ LENGTH('a)" by (rule unsigned_less)
    finally show ?thesis .
  qed
  ultimately show ?thesis by (simp add: T_from_def)
qed

lemma symbols_ok_rows:
  fixes xs :: "'a::len word list" and D :: "(u32 \<times> 'a word) list list"
  assumes "symbols_ok ls sigma codes xs" "huff_rows codes D"
  shows "coded codes xs"
  using assms by (intro symbols_ok_coded [OF assms(1)]) (simp add: huff_rows_def symbols_ok_def codes_ok_def)

lemma huff_rows_sorted:
  fixes xs :: "'a::len word list" and D :: "(u32 \<times> 'a word) list list" and e :: string
  assumes s: "symbols_ok ls sigma codes xs" and D: "huff_rows codes D"
  shows "foldR (\<lambda>u row. reject (\<not> sorted_wrt (<) (map fst row)) e) () D = Some (Inr ())"
proof (rule foldR_pass)
  fix row assume "row \<in> set D"
  from huff_row_strict [OF symbols_ok_rows [OF s D] D this]
  show "reject (\<not> sorted_wrt (<) (map fst row)) e = Some (Inr ())" by simp
qed

lemma huff_encoder:
  fixes xs :: "'a::len word list" and D :: "(u32 \<times> 'a word) list list"
  assumes s: "symbols_ok ls sigma codes xs" and dec: "decode_ok codes xs D" and D: "huff_rows codes D" and L: "length D = L + 1"
  shows "foldR (wv_check_encoder L D) () (zip [0..<length codes] codes) = Some (Inr ())"
proof (rule foldR_pass)
  fix ic assume "ic \<in> set (zip [0..<length codes] codes)"
  then obtain i where i: "i < length codes" "ic = (i, codes ! i)" by (auto simp: set_zip)
  show "wv_check_encoder L D () ic = Some (Inr ())"
  proof (cases "pc_len (codes ! i) = 0")
    case False
    let ?x = "of_nat i :: 'a word"
    note c = code_index [OF symbols_ok_rows [OF s D] i(1) False]
    obtain k where k: "comp_len codes ?x < length D" "search_code (pc_content (codes ! i)) (D ! comp_len codes ?x) = Some k"
      "idx (D ! comp_len codes ?x) k = Some (pc_content (codes ! i), ?x)" using dec c unfolding decode_ok_def by metis
    have row: "idx D (unat (pc_len (codes ! i))) = Some (D ! comp_len codes ?x)" using k(1) c(3) by (simp add: idx_def)
    have u: "unat (as_usize ?x) = i" using symbols_okD(1) [OF s, of ?x] c(1) by simp
    have small: "\<not> 2 ^ unat (pc_len (codes ! i)) \<le> pc_content (codes ! i)" if "unat (pc_len (codes ! i)) < 32"
      by (rule content_small [OF _ that]) (use symbols_okD(5) [OF s c(2)] c(1,3) in simp)
    have "unat (pc_len (codes ! i)) \<le> L" using k(1) L c(3) by simp
    then show ?thesis
      using False k(2,3) u row
      by (cases "unat (pc_len (codes ! i)) < 32") (simp_all add: wv_check_encoder_def i(2) small shl_u32_def Let_def push_bit_eq_mult)
  qed (simp add: wv_check_encoder_def i(2))
qed

lemma huff_leaves:
  fixes xs :: "'a::len word list" and D :: "(u32 \<times> 'a word) list list"
  assumes s: "symbols_ok ls sigma codes xs" and D: "huff_rows codes D"
  shows "foldR (\<lambda>u (width, row). foldR (wv_check_leaf codes width) () row) () (drop 1 (zip [0..<length D] D)) = Some (Inr ())"
proof (rule foldR_pass)
  fix lr assume "lr \<in> set (drop 1 (zip [0..<length D] D))"
  then have "lr \<in> set (zip [0..<length D] D)" by (rule in_set_dropD)
  then obtain l where l: "l < length D" "lr = (l, D ! l)" by (auto simp: set_zip)
  have "foldR (wv_check_leaf codes l) () (D ! l) = Some (Inr ())"
  proof (rule foldR_pass)
    fix leaf assume "leaf \<in> set (D ! l)"
    moreover obtain w x where leaf: "leaf = (w, x)" by fastforce
    ultimately have "(w, x) \<in> set (code_row codes l)" using huff_row [OF D l(1)] by simp
    then have x: "x \<in> set xs" "comp_len codes x = l" "pc_content (codes ! unat x) = w" using code_row_entry [OF symbols_ok_rows [OF s D]] by blast+
    have "idx codes (unat x) = Some (codes ! unat x)" using symbols_okD(2) [OF s x(1)] by (simp add: idx_def)
    then show "wv_check_leaf codes l () leaf = Some (Inr ())"
      using x symbols_okD(1) [OF s, of x] by (simp add: wv_check_leaf_def leaf comp_len_def code_width_def)
  qed
  then show "(case lr of (width, row) \<Rightarrow> foldR (wv_check_leaf codes width) () row) = Some (Inr ())" by (simp add: l(2))
qed

section \<open>The checks of a built tree\<close>

context binary_tree begin

lemma check_level:
  assumes t: "wv_levels_ok brep dg len xs t" and l: "l < wv_n_levels t" and c: "\<not> compressed \<Longrightarrow> wv_lens t ! l = wv_n t"
  shows "wv_check_level B compressed t () (l, wv_bvs t ! l, wv_lens t ! l) = Some (Inr ())"
proof -
  let ?bs = "bits_of (cm_digits dg len 2 xs l)"
  have ok: "cm_ok dg len 2 xs" and rep: "brep (wv_bvs t ! l) ?bs" and n: "wv_n t = length xs"
    using t l by (simp_all add: wv_levels_ok_def)
  have lens: "wv_lens t ! k = length (cm_level dg len 2 xs k)" if "k \<le> l" for k
    using t l that by (simp add: wv_levels_ok_def)
  have bl: "length ?bs = length (cm_level dg len 2 xs l)" by (simp add: bits_of_def)
  have le: "length (cm_level dg len 2 xs l) \<le> length xs" by (rule cm_level_length [OF ok])
  have prev: "idx (wv_lens t) (l - 1) = Some (wv_lens t ! (l - 1))" using t l by (simp add: idx_def wv_levels_ok_def)
  have mono: "wv_lens t ! l \<le> wv_lens t ! (l - 1)" if "0 < l"
    using cm_level_antimono [OF ok, of "l - 1"] that lens [of l] lens [of "l - 1"] by simp
  show ?thesis
    using le prev mono c b_get_rep [OF rep]
    by (cases compressed; cases "l = 0") (simp_all add: wv_check_level_def lens n idx_def bl reject_def)
qed

lemma check_levels:
  assumes t: "wv_levels_ok brep dg len xs t" and c: "\<And>l. \<not> compressed \<Longrightarrow> l < wv_n_levels t \<Longrightarrow> wv_lens t ! l = wv_n t"
  shows "foldR (wv_check_level B compressed t) () (zip [0..<length (wv_bvs t)] (zip (wv_bvs t) (wv_lens t))) = Some (Inr ())"
proof (rule foldR_pass)
  have len: "length (wv_bvs t) = wv_n_levels t" "length (wv_lens t) = wv_n_levels t" using t by (simp_all add: wv_levels_ok_def)
  fix x assume "x \<in> set (zip [0..<length (wv_bvs t)] (zip (wv_bvs t) (wv_lens t)))"
  then obtain l where l: "l < wv_n_levels t" "x = (l, wv_bvs t ! l, wv_lens t ! l)" using len by (auto simp: set_zip)
  then show "wv_check_level B compressed t () x = Some (Inr ())" using check_level [OF t l(1) c] by simp
qed

text \<open>The largest symbol \<open>get\<close> returns.\<close>

lemma largest_read:
  fixes e :: string
  assumes get: "\<And>i. i < length xs \<Longrightarrow> wv_get B c t i = Some (Some (h (xs ! i)))" and ne: "xs \<noteq> []"
  shows "foldR (\<lambda>m i. rbind (ok_or (wv_get B c t i) e) (\<lambda>x. Some (Inr (max m (unat (as_usize x)))))) 0 [0..<length xs]
    = Some (Inr (Max ((\<lambda>x. unat (as_usize (h x))) ` set xs)))"
proof -
  have m: "map ((\<lambda>x. unat (as_usize x)) \<circ> (\<lambda>i. h (xs ! i))) [0..<length xs] = map (\<lambda>x. unat (as_usize (h x))) xs"
    by (rule nth_equalityI) simp_all
  show ?thesis
    using foldR_max [of "length xs" "wv_get B c t" "\<lambda>i. h (xs ! i)" e "\<lambda>x. unat (as_usize x)"] get ne
    unfolding m by (simp add: fold_max_nat)
qed

lemma wv_plain_deserialize:
  fixes xs :: "'a::len word list"
  assumes t: "wv_plain_ok brep xs t" and w: "LENGTH('a) \<le> 64" "8 dvd LENGTH('a)"
  shows "wv_deserialize B False t = Some (if \<forall>x\<in>set xs. unat x < 2 ^ 32 then Inr t
      else Inl ''plain wavelet-tree sigma disagrees with its encoded payload'')"
proof (cases "xs = []")
  case True
  then have "wv_n t = 0" "length (wv_bvs t) = 0" "length (wv_lens t) = 0" "wv_n_levels t = 0" "wv_sigma t = None"
    "wv_codes_encode t = None" "wv_codes_decode t = None" using t by (simp_all add: wv_plain_ok_def wv_levels_ok_def)
  then show ?thesis using True by (simp add: wv_deserialize_def wv_validate_deserialized_def)
next
  case False
  let ?s = "Max (set xs)"
  have lv: "wv_levels_ok brep (plain_dg (wv_n_levels t)) (\<lambda>_. wv_n_levels t) xs t"
    and top: "wv_sigma t = Some ?s" "wv_n_levels t = msb_of ?s + 1" "wv_codes_encode t = None" "wv_codes_decode t = None"
    using t False by (auto simp only: wv_plain_ok_def if_False)
  have n: "wv_n t = length xs" and len: "length (wv_bvs t) = wv_n_levels t" "length (wv_lens t) = wv_n_levels t"
    using lv by (simp_all add: wv_levels_ok_def)
  have us: "unat (as_usize x) = unat x" for x :: "'a word" using w(1) by (rule unat_as_usize)
  have "length (cm_level (plain_dg (wv_n_levels t)) (\<lambda>_. wv_n_levels t) 2 xs l) = length xs" if "l < wv_n_levels t" for l
    using lv that by (intro cm_level_full) (simp add: wv_levels_ok_def)
  then have full: "wv_lens t ! l = wv_n t" if "l < wv_n_levels t" for l
    using lv that by (simp add: wv_levels_ok_def)
  have msb: "msb_of ?s + 1 \<le> LENGTH('a)"
    using msb_of_bounds(3) [of ?s] by (cases "?s = 0") (simp_all add: msb_of_def Suc_leI)
  have get: "wv_get B False t i = Some (Some (take_bit 32 (xs ! i)))" if "i < length xs" for i
    using wv_plain_get(1) [OF t, of i] that T_from_low [of "xs ! i"] by simp
  let ?M = "Max ((\<lambda>x. unat (as_usize (take_bit 32 x))) ` set xs)"
  have "wv_deserialize B False t = Some (if ?M = unat ?s then Inr t
      else Inl ''plain wavelet-tree sigma disagrees with its encoded payload'')"
    using False w(2) msb largest_read [OF get False] check_levels [OF lv full]
    by (simp add: wv_deserialize_def wv_validate_deserialized_def n len us top wv_check_plain_def reject_def)
  moreover have "?M = unat ?s \<longleftrightarrow> (\<forall>x\<in>set xs. unat x < 2 ^ 32)" unfolding us by (rule max_low_bits [OF False])
  ultimately show ?thesis by simp
qed

lemma huff_check_codes:
  fixes xs :: "'a::len word list"
  assumes t: "wv_huff_ok brep xs t"
  shows "wv_check_codes t = Some (Inr ())"
proof -
  obtain ls sigma codes D where h: "symbols_ok ls sigma codes xs" "wv_levels_ok brep (comp_dg codes) (comp_len codes) xs t"
    "wv_codes_encode t = Some codes" "wv_sigma t = None" "wv_codes_decode t = Some D" "decode_ok codes xs D"
    "length D = wv_n_levels t + 1" "huff_rows codes D" using t unfolding wv_huff_ok_def by blast
  show ?thesis
    using huff_rows_sorted [OF h(1,8)] huff_encoder [OF h(1,6,8,7)] huff_leaves [OF h(1,8)] h(2-7)
    by (simp add: wv_check_codes_def wv_levels_ok_def)
qed

lemma wv_huff_deserialize:
  fixes xs :: "'a::len word list"
  assumes t: "wv_huff_ok brep xs t" and w: "8 dvd LENGTH('a)"
  shows "wv_deserialize B True t = Some (if wv_n_levels t \<le> LENGTH('a) then Inr t
      else Inl ''wavelet-tree level count exceeds the symbol type width'')"
proof -
  obtain ls sigma codes where h: "symbols_ok ls sigma codes xs" "wv_levels_ok brep (comp_dg codes) (comp_len codes) xs t"
    using t unfolding wv_huff_ok_def by blast
  have ne: "xs \<noteq> []" "wv_n_levels t \<le> 32" using t by (simp_all add: wv_huff_ok_def)
  have n: "wv_n t = length xs" and len: "length (wv_bvs t) = wv_n_levels t" "length (wv_lens t) = wv_n_levels t"
    using h(2) by (simp_all add: wv_levels_ok_def)
  have "0 < comp_len codes (hd xs)" "comp_len codes (hd xs) \<le> wv_n_levels t"
    using symbols_okD(3) [OF h(1)] h(2) ne by (simp_all add: wv_levels_ok_def)
  then have pos: "0 < wv_n_levels t" by linarith
  then have first: "idx (wv_lens t) 0 = Some (length xs)" using h(2) by (simp add: wv_levels_ok_def idx_def)
  have get: "wv_get B True t i = Some (Some (id (xs ! i)))" if "i < length xs" for i
    using wv_huff_get(1) [OF t, of i] that by (simp add: idx_def)
  have "\<exists>m. foldR (\<lambda>m i. rbind (ok_or (wv_get B True t i) e) (\<lambda>x. Some (Inr (max m (unat (as_usize x)))))) 0 [0..<length xs]
      = Some (Inr m)" for e :: string using largest_read [OF get ne(1)] by blast
  then obtain m where "foldR (\<lambda>m i. rbind (ok_or (wv_get B True t i) ''wavelet-tree payload cannot decode every declared position'')
      (\<lambda>x. Some (Inr (max m (unat (as_usize x)))))) 0 [0..<length xs] = Some (Inr m)" by blast
  then show ?thesis
    using pos ne first w check_levels [OF h(2), of True] huff_check_codes [OF t]
    by (simp add: wv_deserialize_def wv_validate_deserialized_def n len reject_def)
qed

end

end
