(* ===== verification/BinWTProperties.thy ===== *)
theory BinWTProperties
  imports BinWTOccs BinWTSerde RSWide
begin

text \<open>
  What the binary wavelet trees of \<^verbatim>\<open>src/binwt/mod.rs\<close> promise over the wide rank/select structure,
  as the crate's types \<open>WT\<close> and \<open>HWT\<close> use them: the queries of plain and compressed trees, the
  iterator over occurrences, the codes, and what happens to symbols that need more than 32 bits.
\<close>

interpretation wt_wide: binary_tree rw_ops rw_rep
  by unfold_locales

section \<open>Plain trees\<close>

lemma plain_levels_32:
  fixes xs :: "'a::len word list"
  assumes t: "wv_plain_ok brep xs t" and small: "\<forall>x\<in>set xs. unat x < 2 ^ 32"
  shows "wv_n_levels t \<le> 32"
proof (cases "xs = []")
  case False
  let ?s = "Max (set xs)"
  have "?s \<in> set xs" using False by (intro Max_in) auto
  then have u: "unat ?s < 2 ^ 32" using small by blast
  have "msb_of ?s < 32"
  proof (cases "?s = 0")
    case False
    have "(2 :: nat) ^ msb_of ?s < 2 ^ 32" using msb_of_bounds(1) [OF False] u by (rule le_less_trans)
    then show ?thesis by (rule power_less_imp_less_exp [rotated]) simp
  qed (simp add: msb_of_def)
  then show ?thesis using t False by (simp add: wv_plain_ok_def)
qed (use t in \<open>simp add: wv_plain_ok_def\<close>)

text \<open>C23. A plain binary wavelet tree of symbols below \<open>2 ^ 32\<close> answers access, rank and select as the
  sequence does, for every argument; a symbol above the largest gives \<open>None\<close>.\<close>

theorem binwt_queries:
  fixes xs :: "'a::len word list"
  assumes "length xs < 2 ^ 43" "\<forall>x\<in>set xs. unat x < 2 ^ 32"
  shows "\<exists>t. wv_new rw_ops False code_lengths xs = Some t \<and> (\<forall>c i.
      wv_get rw_ops False t i = Some (idx xs i)
      \<and> wv_rank rw_ops False t c i = Some (if xs \<noteq> [] \<and> i \<le> length xs \<and> c \<le> Max (set xs) then Some (count_list (take i xs) c) else None)
      \<and> wv_select rw_ops False t c i = Some (if xs \<noteq> [] \<and> c \<le> Max (set xs) then select_of xs c i else None))"
proof -
  obtain t where t: "wv_new rw_ops False code_lengths xs = Some t" "wv_plain_ok rw_rep xs t"
    using wt_wide.wv_new_plain [OF assms(1)] by blast
  have L: "wv_n_levels t \<le> 32" by (rule plain_levels_32 [OF t(2) assms(2)])
  have "T_from (of_nat (unat (xs ! i))) = Some (xs ! i)" if "i < length xs" for i
    using assms(2) that by (intro wt_wide.T_from_small) simp
  then have "wv_get rw_ops False t i = Some (idx xs i)" for i
    using wt_wide.wv_plain_get(1) [OF t(2), of i] by (simp add: idx_def)
  then show ?thesis using t(1) wt_wide.wv_plain_rank(1) [OF t(2) L] wt_wide.wv_plain_select [OF t(2) L] by blast
qed

theorem binwt_queries_witness:
  "\<exists>t. wv_new rw_ops False (\<lambda>_. []) [1, 0, 5, 1 :: 8 word] = Some t \<and> wv_get rw_ops False t 2 = Some (Some 5)
    \<and> wv_rank rw_ops False t 1 4 = Some (Some 2) \<and> wv_select rw_ops False t 6 0 = Some None"
proof -
  have "Max (set [1, 0, 5, 1 :: 8 word]) = 5" by simp
  then show ?thesis using binwt_queries [of "[1, 0, 5, 1 :: 8 word]" "\<lambda>_. []"] by fastforce
qed

text \<open>Collecting \<open>occs_range\<close> on a plain tree gives every symbol of the range once, in increasing order, with its
  number of occurrences; the iterator always ends, and a range that is reversed or leaves the sequence gives \<open>None\<close>.\<close>

theorem binwt_occs_range:
  fixes xs :: "'a::len word list"
  assumes "length xs < 2 ^ 43" "LENGTH('a) \<le> 64" "range_start sb = Some s" "range_end (length xs) eb = Some e"
  shows "\<exists>t. wv_new rw_ops False code_lengths xs = Some t
    \<and> (if e \<le> length xs \<and> s \<le> e
       then \<exists>it. wv_occs_range t sb eb = Some (Some it)
          \<and> collect (wv_occs_next rw_ops False t) it = Some (symbol_counts (slice xs s e))
       else wv_occs_range t sb eb = Some None)"
proof -
  obtain t where t: "wv_new rw_ops False code_lengths xs = Some t" "wv_plain_ok rw_rep xs t"
    using wt_wide.wv_new_plain [OF assms(1)] by blast
  have "wv_n t = length xs" using t(2) by (simp add: wv_plain_ok_def wv_levels_ok_def)
  then show ?thesis using t(1) wt_wide.wv_plain_occs [OF t(2) assms(2)] assms(3,4) by (auto simp: wv_occs_range_def)
qed

text \<open>C24. On a tree with more than 32 levels, which symbols of \<open>2 ^ 32\<close> or more give, \<open>get\<close> returns only the
  low 32 bits of a symbol, and \<open>rank\<close> and \<open>select\<close> of every symbol of the alphabet panic.\<close>

theorem binwt_wide_symbols:
  fixes xs :: "'a::len word list"
  assumes "length xs < 2 ^ 43" "x \<in> set xs" "2 ^ 32 \<le> unat x"
  shows "\<exists>t. wv_new rw_ops False code_lengths xs = Some t
    \<and> (\<forall>i<length xs. wv_get rw_ops False t i = Some (Some (take_bit 32 (xs ! i))))
    \<and> (\<forall>c i. c \<le> Max (set xs) \<and> i \<le> length xs \<longrightarrow> wv_rank rw_ops False t c i = None \<and> wv_select rw_ops False t c i = None)"
proof -
  obtain t where t: "wv_new rw_ops False code_lengths xs = Some t" "wv_plain_ok rw_rep xs t"
    using wt_wide.wv_new_plain [OF assms(1)] by blast
  let ?L = "wv_n_levels t"
  have ne: "xs \<noteq> []" using assms(2) by auto
  have lev: "wv_sigma t = Some (Max (set xs))" "?L = msb_of (Max (set xs)) + 1" and n: "wv_n t = length xs"
    using t(2) ne by (simp_all add: wv_plain_ok_def wv_levels_ok_def)
  have "(2 :: nat) ^ 32 < 2 ^ ?L" using plain_symbols [OF ne assms(2)] assms(3) lev(2) by simp
  then have L: "32 < ?L" by (rule power_less_imp_less_exp [rotated]) simp
  have "unat x < 2 ^ LENGTH('a)" by (rule unsigned_less)
  then have "(2 :: nat) ^ 32 < 2 ^ LENGTH('a)" using assms(3) by linarith
  then have w: "32 < LENGTH('a)" by (rule power_less_imp_less_exp [rotated]) simp
  have get: "wv_get rw_ops False t i = Some (Some (take_bit 32 (xs ! i)))" if "i < length xs" for i
    using wt_wide.wv_plain_get(1) [OF t(2), of i] that T_from_low [of "xs ! i"] by simp
  have first: "repr_bit ?L r 0 = None" for r using L by (simp add: repr_bit_def shr_u32_def)
  have up: "[0..<?L] = 0 # [Suc 0..<?L]" using L by (simp add: upt_conv_Cons)
  have "wv_rank rw_ops False t c i = None \<and> wv_select rw_ops False t c i = None" if "c \<le> Max (set xs)" "i \<le> length xs" for c i
    using that n lev(1) first
    by (simp add: wv_rank_def wv_select_def wv_repr_def up wv_rank_step_def wv_select_down_def)
  then show ?thesis using t(1) get by blast
qed

theorem binwt_wide_symbols_witness:
  "\<exists>t. wv_new rw_ops False (\<lambda>_. []) [2 ^ 32 + 7, 3 :: u64] = Some t
    \<and> wv_get rw_ops False t 0 = Some (Some 7) \<and> wv_rank rw_ops False t 3 2 = None"
proof -
  have "take_bit 32 (2 ^ 32 + 7 :: u64) = 7" by simp
  moreover have "(3 :: u64) \<le> Max (set [2 ^ 32 + 7, 3 :: u64])" by simp
  ultimately show ?thesis using binwt_wide_symbols [of "[2 ^ 32 + 7, 3 :: u64]" "2 ^ 32 + 7" "\<lambda>_. []"] by fastforce
qed

section \<open>Compressed trees\<close>

text \<open>C25. From the lengths of a complete code of distinct symbols, every length between 1 and 32, \<open>craft_wm_codes\<close> makes codes of those
  lengths for exactly the symbols listed, and no code is a prefix of another. With a \<open>sigma\<close> of \<open>2 ^ 60 - 1\<close> or more, whose code array
  cannot be allocated, it panics.\<close>

theorem craft_codes_prefix_free:
  assumes "complete_code ls" "\<forall>s\<in>fst ` set ls. s \<le> sigma"
  shows "if 2 ^ 60 \<le> sigma + 1 then craft_wm_codes ls sigma = None
    else \<exists>codes. craft_wm_codes ls sigma = Some codes \<and> length codes = sigma + 1
    \<and> (\<forall>s. s \<le> sigma \<longrightarrow> pc_len (codes ! s) = (case map_of ls s of Some l \<Rightarrow> l | None \<Rightarrow> 0))
    \<and> (\<forall>s\<in>fst ` set ls. unat (pc_content (codes ! s)) < 2 ^ unat (pc_len (codes ! s)))
    \<and> (\<forall>s\<in>fst ` set ls. \<forall>t\<in>fst ` set ls. pc_len (codes ! s) \<le> pc_len (codes ! t)
        \<and> unat (pc_content (codes ! t)) div 2 ^ (unat (pc_len (codes ! t)) - unat (pc_len (codes ! s))) = unat (pc_content (codes ! s))
        \<longrightarrow> s = t)"
proof (cases "2 ^ 60 \<le> sigma + 1")
  case False
  then have "sigma + 1 < 2 ^ 60" by simp
  then obtain codes where c: "craft_wm_codes ls sigma = Some codes" "codes_ok ls sigma codes"
    using craft_wm_codes_ok [OF assms] by blast
  have len: "pc_len (codes ! s) = (case map_of ls s of Some l \<Rightarrow> l | None \<Rightarrow> 0)" if "s \<le> sigma" for s
  proof (cases "map_of ls s")
    case None
    then have "s \<notin> fst ` set ls" by (simp add: map_of_eq_None_iff)
    then have "\<not> 0 < code_width codes s" using c(2) that by (simp add: codes_ok_def)
    then show ?thesis using None by (simp add: code_width_def unsigned_eq_0_iff)
  next
    case (Some l)
    then have "(s, l) \<in> set ls" by (rule map_of_SomeD)
    then show ?thesis using c(2) Some unfolding codes_ok_def by simp
  qed
  have small: "unat (pc_content (codes ! s)) < 2 ^ code_width codes s" if "s \<in> fst ` set ls" for s
    using c(2) that unfolding codes_ok_def by blast
  have val: "cm_val (code_dg codes) 2 l s = unat (pc_content (codes ! s)) div 2 ^ (code_width codes s - l)"
    if "s \<in> fst ` set ls" "l \<le> code_width codes s" for s l
  proof (rule cm_val_number [OF _ small [OF that(1)] that(2)])
    fix t assume t: "t < code_width codes s"
    have "code_dg codes t s = of_bool (bit (unat (pc_content (codes ! s))) (code_width codes s - Suc t))"
      using t by (simp add: code_dg_def bit_unsigned_iff)
    then show "code_dg codes t s = unat (pc_content (codes ! s)) div 2 ^ (code_width codes s - Suc t) mod 2"
      by (simp add: bit_iff_odd mod_2_eq_odd)
  qed
  have "cm_ok (code_dg codes) (code_width codes) 2 (map fst ls)" using c(2) unfolding codes_ok_def by simp
  then have pf: "cm_prefix_free (code_dg codes) (code_width codes) 2 (fst ` set ls)" using cm_ok_prefix_free by fastforce
  have "s = t" if "s \<in> fst ` set ls" "t \<in> fst ` set ls" "code_width codes s \<le> code_width codes t"
    "unat (pc_content (codes ! t)) div 2 ^ (code_width codes t - code_width codes s) = unat (pc_content (codes ! s))" for s t
  proof -
    have "cm_val (code_dg codes) 2 (code_width codes s) s = cm_val (code_dg codes) 2 (code_width codes s) t"
      using val [OF that(1) order_refl] val [OF that(2,3)] that(4) by simp
    then show ?thesis using pf that(1-3) unfolding cm_prefix_free_def by blast
  qed
  then show ?thesis unfolding if_not_P [OF False]
    using c len small by (intro exI [of _ codes]) (simp add: codes_ok_def code_width_def word_le_nat_alt)
qed (simp add: craft_wm_codes_huge)

theorem craft_codes_prefix_free_witness:
  "\<exists>codes. craft_wm_codes [(0, 2), (3, 1), (2, 2)] 3 = Some codes \<and> pc_len (codes ! 3) = 1 \<and> pc_len (codes ! 1) = 0"
proof -
  have "complete_code [(0, 2), (3, 1), (2, 2)]" by (simp add: complete_code_def)
  from craft_codes_prefix_free [OF this, of 3] obtain codes where
    c: "craft_wm_codes [(0, 2), (3, 1), (2, 2)] 3 = Some codes"
      "\<forall>s. s \<le> 3 \<longrightarrow> pc_len (codes ! s) = (case map_of [(0, 2), (3, 1), (2, 2)] s of Some l \<Rightarrow> l | None \<Rightarrow> 0)" by auto
  then show ?thesis using c(2) [rule_format, of 3] c(2) [rule_format, of 1] by (intro exI [of _ codes]) simp
qed

text \<open>C26. A compressed binary wavelet tree over a nonempty sequence of fewer than \<open>2 ^ 32\<close> symbols of at most 64 bits answers access, rank
  and select as the sequence does; a symbol that does not occur gives \<open>None\<close>. The code lengths come from a complete code, of lengths
  between 1 and 32, for the symbols of the sequence, so there are at least two different ones. A sequence with a symbol of
  \<open>2 ^ 60 - 1\<close> or more cannot be built: the code array, one entry for each symbol up to the largest, panics.\<close>

theorem binwt_huffman_queries:
  fixes xs :: "'a::len word list"
  assumes "LENGTH('a) \<le> 64" "length xs < 2 ^ 32" "xs \<noteq> []" "lengths_for code_lengths xs"
  shows "if \<exists>x\<in>set xs. 2 ^ 60 \<le> unat x + 1 then wv_new rw_ops True code_lengths xs = None
    else \<exists>t. wv_new rw_ops True code_lengths xs = Some t \<and> (\<forall>c i.
      wv_get rw_ops True t i = Some (idx xs i)
      \<and> wv_rank rw_ops True t c i = Some (if i \<le> length xs \<and> c \<in> set xs then Some (count_list (take i xs) c) else None)
      \<and> wv_select rw_ops True t c i = Some (if c \<in> set xs then select_of xs c i else None))"
proof (cases "\<exists>x\<in>set xs. 2 ^ 60 \<le> unat x + 1")
  case True
  then show ?thesis using wt_wide.wv_new_huge [OF assms(1-3)] by auto
next
  case False
  then have "\<forall>x\<in>set xs. unat x + 1 < 2 ^ 60" by (simp add: not_le)
  then obtain t where t: "wv_new rw_ops True code_lengths xs = Some t" "wv_huff_ok rw_rep xs t"
    using wt_wide.wv_new_huff [OF assms] by blast
  then show ?thesis unfolding if_not_P [OF False] using wt_wide.wv_huff_get(1) [OF t(2)] wt_wide.wv_huff_rank(1,2) [OF t(2)] by blast
qed

lemma lengths_for_const:
  fixes xs :: "'a::len word list"
  assumes "LENGTH('a) \<le> 64" "length xs < 2 ^ 32" "complete_code ls" "fst ` set ls = unat ` set xs"
  shows "lengths_for (\<lambda>_. ls) xs"
proof -
  obtain freqs where "foldM freq_step [] xs = Some freqs" "fst ` set freqs = unat ` set xs" using freqs_eq [OF assms(1,2)] by blast
  then show ?thesis using assms(3,4) by (simp add: lengths_for_def)
qed

theorem binwt_huffman_queries_witness:
  "\<exists>t. wv_new rw_ops True (\<lambda>_. [(1, 1), (0, 2), (5, 2)]) [1, 0, 5, 1 :: 8 word] = Some t \<and> wv_get rw_ops True t 2 = Some (Some 5)
    \<and> wv_rank rw_ops True t 1 4 = Some (Some 2) \<and> wv_rank rw_ops True t 3 4 = Some None"
proof -
  have "lengths_for (\<lambda>_. [(1, 1), (0, 2), (5, 2)]) [1, 0, 5, 1 :: 8 word]"
    by (rule lengths_for_const) (simp_all add: complete_code_def insert_commute)
  from binwt_huffman_queries [OF _ _ _ this] obtain t where
    t: "wv_new rw_ops True (\<lambda>_. [(1, 1), (0, 2), (5, 2)]) [1, 0, 5, 1 :: 8 word] = Some t" and
    q: "\<forall>c i. wv_get rw_ops True t i = Some (idx [1, 0, 5, 1 :: 8 word] i)
      \<and> wv_rank rw_ops True t c i = Some (if i \<le> length [1, 0, 5, 1 :: 8 word] \<and> c \<in> set [1, 0, 5, 1] then Some (count_list (take i [1, 0, 5, 1]) c) else None)
      \<and> wv_select rw_ops True t c i = Some (if c \<in> set [1, 0, 5, 1] then select_of [1, 0, 5, 1] c i else None)" by fastforce
  show ?thesis using t q [rule_format, of 2 1] q [rule_format, of 4 1] q [rule_format, of 4 3] by (intro exI [of _ t]) (simp add: idx_def)
qed

text \<open>C27. Collecting \<open>occs_range\<close> on a compressed tree gives every symbol of the range exactly once with its number of
  occurrences; a range that is reversed or leaves the sequence gives \<open>None\<close>, also one whose bound is not a \<open>usize\<close> once
  it is made half open, as in \<open>..=usize::MAX\<close>. The tree is over a nonempty sequence of fewer than \<open>2 ^ 32\<close> symbols of at most 64 bits and below
  \<open>2 ^ 60 - 1\<close>, and its code lengths come from a complete code, of lengths between 1 and 32, for the symbols of the sequence, so
  there are at least two different ones.\<close>

theorem binwt_huffman_occs:
  fixes xs :: "'a::len word list"
  assumes "LENGTH('a) \<le> 64" "length xs < 2 ^ 32" "xs \<noteq> []" "lengths_for code_lengths xs" "\<forall>x\<in>set xs. unat x + 1 < 2 ^ 60"
  shows "\<exists>t. wv_new rw_ops True code_lengths xs = Some t
    \<and> (\<forall>sb eb. case (range_start sb, range_end (length xs) eb) of
         (Some s, Some e) \<Rightarrow>
           (if e \<le> length xs \<and> s \<le> e
            then \<exists>it items. wv_occs_range t sb eb = Some (Some it)
               \<and> collect (wv_occs_next rw_ops True t) it = Some items \<and> distinct (map fst items)
               \<and> set items = (\<lambda>x. (x, count_list (slice xs s e) x)) ` set (slice xs s e)
            else wv_occs_range t sb eb = Some None)
       | _ \<Rightarrow> wv_occs_range t sb eb = Some None)"
proof -
  obtain t where t: "wv_new rw_ops True code_lengths xs = Some t" "wv_huff_ok rw_rep xs t"
    using wt_wide.wv_new_huff [OF assms] by blast
  have "wv_n t = length xs" using t(2) by (auto simp: wv_huff_ok_def wv_levels_ok_def)
  then have "wv_occs_range t sb eb = Some (case (range_start sb, range_end (length xs) eb) of
      (Some s, Some e) \<Rightarrow> if e \<le> length xs \<and> s \<le> e then Some (wv_occs_range_unchecked s e) else None | _ \<Rightarrow> None)" for sb eb
    by (auto simp: wv_occs_range_def qbind_def split: option.split)
  then show ?thesis using t(1) wt_wide.wv_huff_occs [OF t(2)] by (intro exI [of _ t]) (simp split: option.split)
qed

theorem binwt_huffman_occs_witness:
  "\<exists>t it items. wv_new rw_ops True (\<lambda>_. [(1, 1), (0, 2), (5, 2)]) [1, 0, 5, 1 :: 8 word] = Some t
    \<and> wv_occs_range t (Included 1) Unbounded = Some (Some it)
    \<and> collect (wv_occs_next rw_ops True t) it = Some items \<and> set items = {(0, 1), (5, 1), (1, 1)}
    \<and> wv_occs_range t Unbounded (Included (2 ^ 64 - 1)) = Some None"
proof -
  have "lengths_for (\<lambda>_. [(1, 1), (0, 2), (5, 2)]) [1, 0, 5, 1 :: 8 word]"
    by (rule lengths_for_const) (simp_all add: complete_code_def insert_commute)
  from binwt_huffman_occs [OF _ _ _ this] obtain t where t: "wv_new rw_ops True (\<lambda>_. [(1, 1), (0, 2), (5, 2)]) [1, 0, 5, 1 :: 8 word] = Some t"
    "\<And>sb eb. case (range_start sb, range_end (length [1, 0, 5, 1 :: 8 word]) eb) of
         (Some s, Some e) \<Rightarrow>
           (if e \<le> length [1, 0, 5, 1 :: 8 word] \<and> s \<le> e
            then \<exists>it items. wv_occs_range t sb eb = Some (Some it)
               \<and> collect (wv_occs_next rw_ops True t) it = Some items \<and> distinct (map fst items)
               \<and> set items = (\<lambda>x. (x, count_list (slice [1, 0, 5, 1] s e) x)) ` set (slice [1, 0, 5, 1] s e)
            else wv_occs_range t sb eb = Some None)
       | _ \<Rightarrow> wv_occs_range t sb eb = Some None" by auto
  have "wv_occs_range t Unbounded (Included (2 ^ 64 - 1)) = Some None"
    using t(2) [of Unbounded "Included (2 ^ 64 - 1)"] by (simp add: range_start_def range_end_def)
  moreover have "\<exists>it items. wv_occs_range t (Included 1) Unbounded = Some (Some it)
      \<and> collect (wv_occs_next rw_ops True t) it = Some items \<and> set items = {(0, 1), (5, 1), (1, 1)}"
    using t(2) [of "Included 1" Unbounded] by (simp add: range_start_def range_end_def slice_def) blast
  ultimately show ?thesis using t(1) by blast
qed

section \<open>Deserialisation\<close>

text \<open>A plain tree is accepted by its own validation exactly when every symbol is below \<open>2 ^ 32\<close>.\<close>

theorem binwt_plain_roundtrip:
  fixes xs :: "'a::len word list"
  assumes "length xs < 2 ^ 43" "LENGTH('a) \<le> 64" "8 dvd LENGTH('a)"
  shows "\<exists>t. wv_new rw_ops False code_lengths xs = Some t
    \<and> wv_deserialize rw_ops False t = Some (if \<forall>x\<in>set xs. unat x < 2 ^ 32 then Inr t
        else Inl ''plain wavelet-tree sigma disagrees with its encoded payload'')"
proof -
  obtain t where t: "wv_new rw_ops False code_lengths xs = Some t" "wv_plain_ok rw_rep xs t"
    using wt_wide.wv_new_plain [OF assms(1)] by blast
  then show ?thesis using wt_wide.wv_plain_deserialize [OF t(2) assms(2,3)] by blast
qed

text \<open>C28. A compressed tree is accepted by its own validation exactly when no code is longer than the symbol type is
  wide, although nothing bounds the code lengths by that width. The tree is over a nonempty sequence of fewer than \<open>2 ^ 32\<close> symbols
  below \<open>2 ^ 60 - 1\<close>, of a type of whole bytes and at most 64 bits, and its code lengths come from a complete code, of lengths between
  1 and 32, for the symbols of the sequence, so there are at least two different ones.\<close>

theorem binwt_huffman_roundtrip:
  fixes xs :: "'a::len word list"
  assumes "LENGTH('a) \<le> 64" "8 dvd LENGTH('a)" "length xs < 2 ^ 32" "xs \<noteq> []" "lengths_for code_lengths xs"
    "foldM freq_step [] xs = Some freqs" "\<forall>x\<in>set xs. unat x + 1 < 2 ^ 60"
  shows "\<exists>t. wv_new rw_ops True code_lengths xs = Some t
    \<and> wv_deserialize rw_ops True t = Some (if \<forall>sl\<in>set (code_lengths freqs). unat (snd sl) \<le> LENGTH('a) then Inr t
        else Inl ''wavelet-tree level count exceeds the symbol type width'')"
proof -
  obtain t where t: "wv_new rw_ops True code_lengths xs = Some t" "wv_huff_ok rw_rep xs t"
    "(\<forall>sl\<in>set (code_lengths freqs). unat (snd sl) \<le> wv_n_levels t) \<and> (\<exists>sl\<in>set (code_lengths freqs). unat (snd sl) = wv_n_levels t)"
    using wt_wide.wv_new_huff [OF assms(1,3,4,5,7)] assms(6) by metis
  obtain sl where sl: "sl \<in> set (code_lengths freqs)" "unat (snd sl) = wv_n_levels t" using t(3) by blast
  have "(\<forall>sl\<in>set (code_lengths freqs). unat (snd sl) \<le> LENGTH('a)) \<longleftrightarrow> wv_n_levels t \<le> LENGTH('a)"
    using bspec [OF _ sl(1), of "\<lambda>sl. unat (snd sl) \<le> LENGTH('a)"] conjunct1 [OF t(3)] le_trans unfolding sl(2) by blast
  then have "wv_deserialize rw_ops True t = Some (if \<forall>sl\<in>set (code_lengths freqs). unat (snd sl) \<le> LENGTH('a) then Inr t
        else Inl ''wavelet-tree level count exceeds the symbol type width'')"
    using wt_wide.wv_huff_deserialize [OF t(2) assms(2)] by (simp only:)
  then show ?thesis using t(1) by (intro exI [of _ t] conjI)
qed

text \<open>Fibonacci frequencies give an optimal code whose longest codes have nine bits, for ten symbols of type \<open>u8\<close>.\<close>

theorem binwt_huffman_roundtrip_witness:
  "\<exists>t. wv_new rw_ops True (\<lambda>_. [(0, 9), (1, 9), (2, 8), (3, 7), (4, 6), (5, 5), (6, 4), (7, 3), (8, 2), (9, 1)])
      ([0, 1] @ replicate 2 2 @ replicate 3 3 @ replicate 5 4 @ replicate 8 5 @ replicate 13 6 @ replicate 21 7
        @ replicate 34 8 @ replicate 55 (9 :: 8 word)) = Some t
    \<and> wv_deserialize rw_ops True t = Some (Inl ''wavelet-tree level count exceeds the symbol type width'')"
proof -
  let ?ls = "[(0, 9), (1, 9), (2, 8), (3, 7), (4, 6), (5, 5), (6, 4), (7, 3), (8, 2), (9, 1)] :: (nat \<times> u32) list"
  let ?xs = "[0, 1] @ replicate 2 2 @ replicate 3 3 @ replicate 5 4 @ replicate 8 5 @ replicate 13 6 @ replicate 21 7
        @ replicate 34 8 @ replicate 55 (9 :: 8 word)"
  have l: "lengths_for (\<lambda>_. ?ls) ?xs"
    by (rule lengths_for_const) (simp_all add: complete_code_def insert_commute)
  obtain freqs where "foldM freq_step [] ?xs = Some freqs" using freqs_eq [of ?xs] by auto
  from binwt_huffman_roundtrip [OF _ _ _ _ l this] show ?thesis by simp
qed

end
