(* ===== verification/Prefetch.thy ===== *)
theory Prefetch
  imports RSNarrow QuadWTPoint
begin

text \<open>
  \<^verbatim>\<open>src/quadwt/prefetch_support.rs\<close>: for each of the four symbols a bit vector with one bit per block of the
  quad vector, set when the count of the symbol passes a multiple of the sample rate in that block. A rank
  on it estimates the rank in the quad vector, in \<open>rank_prefetch\<close> of the wavelet trees.
\<close>

section \<open>The structure\<close>

record prefetch_support =
  ps_samples :: "rs_narrow list"
  ps_sample_rate_shift :: nat

text \<open>The local variables of \<open>new\<close>.\<close>

record ps_build =
  pb_bvs :: "bitvector_mut list"
  pb_counters :: "nat list"
  pb_bits :: "bool list"

definition ps_push :: "bool list \<Rightarrow> bitvector_mut list \<Rightarrow> nat \<Rightarrow> bitvector_mut list option" where
  "ps_push bits bvs i = do { bv \<leftarrow> idx bvs i; b \<leftarrow> idx bits i; bv \<leftarrow> bm_push bv b; Some (bvs[i := bv]) }"

definition ps_symbol_step :: "nat \<Rightarrow> nat \<Rightarrow> ps_build \<Rightarrow> nat \<times> nat \<Rightarrow> ps_build option" where
  "ps_symbol_step len sample_rate st is = (
     let (i, symbol) = is
     in do {
       c \<leftarrow> idx (pb_counters st) symbol;
       guard (symbol < length (pb_bits st));
       let bits = (if (c + 1) mod sample_rate = 0 then (pb_bits st)[symbol := True] else pb_bits st);
       last \<leftarrow> (if i mod sample_rate = 0 then Some True else do { l \<leftarrow> chk_sub len 1; Some (i = l) });
       if last then do {
         bvs \<leftarrow> foldM (ps_push bits) (pb_bvs st) [0..<4];
         Some \<lparr>pb_bvs = bvs, pb_counters = (pb_counters st)[symbol := c + 1], pb_bits = [False, False, False, False]\<rparr>
       } else Some \<lparr>pb_bvs = pb_bvs st, pb_counters = (pb_counters st)[symbol := c + 1], pb_bits = bits\<rparr>
     })"

definition ps_new :: "qvector \<Rightarrow> nat \<Rightarrow> prefetch_support option" where
  "ps_new qv sample_rate_shift = do {
     let shift = min sample_rate_shift (64 - 1);
     symbols \<leftarrow> collect qv_iter_next (qv_iter qv);
     st \<leftarrow> foldM (ps_symbol_step (qv_len qv) (2 ^ shift))
       \<lparr>pb_bvs = [bm_new, bm_new, bm_new, bm_new], pb_counters = [0, 0, 0, 0], pb_bits = [False, False, False, False]\<rparr>
       (zip [0..<length symbols] symbols);
     samples \<leftarrow> those (map (\<lambda>bvm. rn_new (bv_from bvm)) (pb_bvs st));
     Some \<lparr>ps_samples = samples, ps_sample_rate_shift = shift\<rparr>
   }"

definition ps_approx_rank_unchecked :: "prefetch_support \<Rightarrow> nat \<Rightarrow> nat \<Rightarrow> nat option" where
  "ps_approx_rank_unchecked self symbol i = do {
     let block_id = i div 2 ^ ps_sample_rate_shift self;
     let sample_rate = 2 ^ ps_sample_rate_shift self;
     sample \<leftarrow> idx (ps_samples self) symbol;
     r \<leftarrow> rn_rank1 sample (block_id + 1);
     r \<leftarrow> r;
     guard (r * sample_rate < 2 ^ 64);
     Some (r * sample_rate)
   }"

definition ps_ops :: "prefetch_support prefetch_ops" where
  "ps_ops = \<lparr>p_new = ps_new, p_approx_rank = ps_approx_rank_unchecked\<rparr>"

section \<open>The samples\<close>

text \<open>The elements covered by the first \<open>q\<close> bits, and the bits: block 0 is the first element alone.\<close>

fun ps_cover :: "nat \<Rightarrow> nat \<Rightarrow> nat \<Rightarrow> nat" where
  "ps_cover n rate 0 = 0"
| "ps_cover n rate (Suc j) = min n (j * rate + 1)"

definition ps_count :: "nat list \<Rightarrow> nat \<Rightarrow> nat \<Rightarrow> nat \<Rightarrow> nat" where
  "ps_count D rate c i = count_list (take i D) c div rate"

definition ps_bit :: "nat list \<Rightarrow> nat \<Rightarrow> nat \<Rightarrow> nat \<Rightarrow> bool" where
  "ps_bit D rate c j \<longleftrightarrow> ps_count D rate c (ps_cover (length D) rate (Suc j)) \<noteq> ps_count D rate c (ps_cover (length D) rate j)"

lemma ps_count_mono: "i \<le> k \<Longrightarrow> ps_count D rate c i \<le> ps_count D rate c k"
proof -
  assume "i \<le> k"
  then have "count_list (take i D) c \<le> count_list (take k D) c" using rank_of_mono [of i k D c] by (simp add: rank_of_def)
  then show ?thesis by (simp add: ps_count_def div_le_mono)
qed

lemma ps_count_block:
  assumes "0 < rate" "k \<le> i + rate"
  shows "ps_count D rate c k \<le> ps_count D rate c i + 1"
proof -
  have "count_list (take k D) c \<le> count_list (take i D) c + rate"
  proof (cases "i \<le> k")
    case True
    have "take k D = take i D @ take (k - i) (drop i D)" using True by (metis le_add_diff_inverse take_add)
    moreover have "count_list (take (k - i) (drop i D)) c \<le> k - i"
      using count_le_length [of "take (k - i) (drop i D)" c] by (rule le_trans) simp
    ultimately show ?thesis using assms(2) by simp
  next
    case False
    then show ?thesis using rank_of_mono [of k i D c] by (simp add: rank_of_def)
  qed
  then have "count_list (take k D) c div rate \<le> (count_list (take i D) c + rate) div rate" by (rule div_le_mono)
  then show ?thesis using assms(1) by (simp add: ps_count_def div_add_self2)
qed

text \<open>The ones among the first \<open>q\<close> bits of a symbol count its samples.\<close>

lemma ps_rank:
  assumes "0 < rate" "q \<le> m"
  shows "rank_of (map (ps_bit D rate c) [0..<m]) True q = ps_count D rate c (ps_cover (length D) rate q)"
  using assms(2)
proof (induction q)
  case (Suc q)
  let ?C = "\<lambda>j. ps_count D rate c (ps_cover (length D) rate j)"
  have le: "ps_cover (length D) rate q \<le> ps_cover (length D) rate (Suc q)"
    by (cases q) (auto simp: min_def)
  have "ps_cover (length D) rate (Suc q) \<le> ps_cover (length D) rate q + rate"
    using assms(1) by (cases q) (auto simp: min_def)
  then have "?C (Suc q) \<le> ?C q + 1" by (rule ps_count_block [OF assms(1)])
  moreover have "?C q \<le> ?C (Suc q)" by (rule ps_count_mono [OF le])
  ultimately have "?C (Suc q) = ?C q + of_bool (ps_bit D rate c q)" by (auto simp: ps_bit_def)
  moreover have "rank_of (map (ps_bit D rate c) [0..<m]) True (Suc q) = ?C q + of_bool (ps_bit D rate c q)"
    using Suc by (simp add: rank_of_def take_map take_upt del: upt_Suc ps_cover.simps(2)) (simp add: upt_Suc)
  ultimately show ?case by simp
qed (simp add: rank_of_def ps_count_def)

section \<open>Construction\<close>

lemma ps_push_loop:
  assumes "length bits = m" "length bvs = m" "\<forall>c<m. bm_ok (bvs ! c) \<and> length (bm_list (bvs ! c)) + 1 < 2 ^ 64"
  shows "\<exists>bvs'. foldM (ps_push bits) bvs [0..<m] = Some bvs' \<and> length bvs' = m
    \<and> (\<forall>c<m. bm_ok (bvs' ! c) \<and> bm_list (bvs' ! c) = bm_list (bvs ! c) @ [bits ! c])"
proof -
  let ?Inv = "\<lambda>k vs. length vs = m \<and> (\<forall>c<m. bm_ok (vs ! c)
    \<and> bm_list (vs ! c) = bm_list (bvs ! c) @ (if c < k then [bits ! c] else []))"
  have "\<exists>vs'. ps_push bits vs k = Some vs' \<and> ?Inv (Suc k) vs'" if k: "k < m" and inv: "?Inv k vs" for k vs
  proof -
    obtain bv where bv: "bm_push (vs ! k) (bits ! k) = Some bv" "bm_ok bv" "bm_list bv = bm_list (vs ! k) @ [bits ! k]"
    proof -
      have "bm_ok (vs ! k)" "bm_list (vs ! k) = bm_list (bvs ! k)" using inv k by simp_all
      moreover from this have "bm_n_bits (vs ! k) + 1 < 2 ^ 64" using assms(3) k by (metis length_bm_list)
      ultimately show thesis using that bm_push_eq by blast
    qed
    have "ps_push bits vs k = Some (vs[k := bv])" using bv(1) k inv assms(1) by (simp add: ps_push_def idx_def)
    moreover have "?Inv (Suc k) (vs[k := bv])"
      using inv bv k by (auto simp: nth_list_update less_Suc_eq)
    ultimately show ?thesis by blast
  qed
  then have "\<exists>vs'. foldM (ps_push bits) bvs [0..<m] = Some vs' \<and> ?Inv m vs'"
    by (rule foldM_upt_inv [where Inv = ?Inv, rotated]) (use assms in simp_all)
  then show ?thesis by auto
qed

text \<open>How many bits each vector has after \<open>k\<close> of \<open>n\<close> elements.\<close>

definition ps_pushes :: "nat \<Rightarrow> nat \<Rightarrow> nat \<Rightarrow> nat" where
  "ps_pushes n rate k = (if k = n \<and> 0 < n then div_ceil (n - 1) rate + 1 else div_ceil k rate)"

lemma ps_pushes_le: "0 < rate \<Longrightarrow> k \<le> n \<Longrightarrow> ps_pushes n rate k \<le> k + 1"
proof -
  assume "0 < rate"
  then have "div_ceil a rate \<le> a" for a by (intro div_ceil_le) simp_all
  from this [of k] this [of "n - 1"] show ?thesis by (auto simp: ps_pushes_def intro: le_SucI)
qed

lemma div_ceil_step:
  assumes "0 < (rate :: nat)"
  shows "div_ceil (Suc k) rate = k div rate + 1"
  by (simp add: div_ceil_def div_Suc)

lemma ps_pushes_step:
  assumes "0 < rate" "k < n"
  shows "ps_pushes n rate (Suc k) = ps_pushes n rate k + of_bool (k mod rate = 0 \<or> k = n - 1)"
    "k mod rate = 0 \<or> k = n - 1 \<Longrightarrow> ps_cover n rate (Suc (ps_pushes n rate k)) = Suc k"
    "ps_cover n rate (ps_pushes n rate k) \<le> k"
proof -
  have q: "ps_pushes n rate k = k div rate + of_bool (k mod rate \<noteq> 0)" using assms(2) by (simp add: ps_pushes_def div_ceil_def)
  have q': "ps_pushes n rate (Suc k) = (if Suc k = n then ps_pushes n rate k + 1 else k div rate + 1)"
    using assms by (auto simp: ps_pushes_def div_ceil_step)
  then show "ps_pushes n rate (Suc k) = ps_pushes n rate k + of_bool (k mod rate = 0 \<or> k = n - 1)"
    using q assms(2) by (cases "k mod rate = 0") auto
  have split: "k div rate * rate + k mod rate = k" by simp
  show "ps_cover n rate (Suc (ps_pushes n rate k)) = Suc k" if "k mod rate = 0 \<or> k = n - 1"
  proof (cases "k mod rate = 0")
    case True
    then show ?thesis using q split assms(2) by simp
  next
    case False
    have "k mod rate < rate" using assms(1) by simp
    then have "k \<le> (k div rate + 1) * rate" unfolding add_mult_distrib using split by linarith
    then show ?thesis using q that False assms(2) by simp
  qed
  show "ps_cover n rate (ps_pushes n rate k) \<le> k"
  proof (cases "k mod rate = 0")
    case True
    have "ps_cover n rate j \<le> k" if "j * rate = k" for j
    proof (cases j)
      case (Suc i)
      then show ?thesis using that assms(1) by simp
    qed simp
    then show ?thesis using q True split by simp
  next
    case False
    then have "k div rate * rate + 1 \<le> k" using split by linarith
    then show ?thesis using q False by simp
  qed
qed

definition ps_inv :: "nat list \<Rightarrow> nat \<Rightarrow> nat \<Rightarrow> ps_build \<Rightarrow> bool" where
  "ps_inv D rate k st \<longleftrightarrow> pb_counters st = map (count_list (take k D)) [0..<4] \<and> length (pb_bvs st) = 4
     \<and> (\<forall>c<4. bm_ok (pb_bvs st ! c) \<and> bm_list (pb_bvs st ! c) = map (ps_bit D rate c) [0..<ps_pushes (length D) rate k])
     \<and> pb_bits st = map (\<lambda>c. ps_count D rate c k \<noteq> ps_count D rate c (ps_cover (length D) rate (ps_pushes (length D) rate k))) [0..<4]"

lemma ps_symbol_step_inv:
  assumes rate: "0 < rate" and k: "k < length D" and d: "D ! k < 4" and inv: "ps_inv D rate k st" and small: "length D < 2 ^ 43"
  shows "\<exists>st'. ps_symbol_step (length D) rate st (k, D ! k) = Some st' \<and> ps_inv D rate (Suc k) st'"
proof -
  let ?n = "length D" and ?q = "ps_pushes (length D) rate k"
  let ?last = "k mod rate = 0 \<or> k = ?n - 1"
  let ?base = "\<lambda>c. ps_count D rate c (ps_cover ?n rate ?q)"
  let ?counters = "(pb_counters st)[D ! k := count_list (take k D) (D ! k) + 1]"
  let ?bits = "if (count_list (take k D) (D ! k) + 1) mod rate = 0 then (pb_bits st)[D ! k := True] else pb_bits st"
  note step = ps_pushes_step [OF rate k]
  have st: "pb_counters st = map (count_list (take k D)) [0..<4]" "length (pb_bvs st) = 4" "length (pb_bits st) = 4"
    "\<forall>c<4. bm_ok (pb_bvs st ! c) \<and> bm_list (pb_bvs st ! c) = map (ps_bit D rate c) [0..<?q]"
    "\<forall>c<4. pb_bits st ! c = (ps_count D rate c k \<noteq> ?base c)" using inv by (simp_all add: ps_inv_def)
  have "?q \<le> k + 1" using ps_pushes_le [OF rate, of k ?n] k by simp
  then have q: "?q + 1 < 2 ^ 64" using k small by simp
  have cnt: "count_list (take (Suc k) D) c = count_list (take k D) c + of_bool (c = D ! k)" for c
    using k by (simp add: take_Suc_conv_app_nth)
  have counters: "?counters = map (count_list (take (Suc k) D)) [0..<4]"
    unfolding st(1) by (rule nth_equalityI) (use d in \<open>auto simp: cnt nth_list_update\<close>)
  have lb: "length ?bits = 4" using st(3) by simp
  have bit: "?bits ! c = (ps_count D rate c (Suc k) \<noteq> ?base c)" if c: "c < 4" for c
  proof -
    have ge: "?base c \<le> ps_count D rate c k" by (rule ps_count_mono [OF step(3)])
    have suc: "ps_count D rate c (Suc k) = ps_count D rate c k + of_bool (c = D ! k \<and> (count_list (take k D) c + 1) mod rate = 0)"
      using rate by (simp add: ps_count_def cnt div_Suc)
    show ?thesis
    proof (cases "c = D ! k \<and> (count_list (take k D) c + 1) mod rate = 0")
      case True
      then have "?bits ! c" using st(3) c by auto
      moreover have "of_bool (c = D ! k \<and> (count_list (take k D) c + 1) mod rate = 0) = (1 :: nat)"
        unfolding of_bool_eq_1_iff by (rule True)
      then have "?base c < ps_count D rate c (Suc k)" using suc ge by linarith
      ultimately show ?thesis by simp
    next
      case False
      then have "?bits ! c = pb_bits st ! c" using st(3) c by (auto simp: nth_list_update)
      moreover have "of_bool (c = D ! k \<and> (count_list (take k D) c + 1) mod rate = 0) = (0 :: nat)"
        unfolding of_bool_eq_0_iff by (rule False)
      then have "ps_count D rate c (Suc k) = ps_count D rate c k" using suc by linarith
      ultimately show ?thesis using st(5) c by simp
    qed
  qed
  have sym: "idx (pb_counters st) (D ! k) = Some (count_list (take k D) (D ! k))" using d unfolding st(1) by (simp add: idx_def)
  have lst: "(if k mod rate = 0 then Some True else do { l \<leftarrow> chk_sub ?n 1; Some (k = l) }) = Some ?last" using k by auto
  show ?thesis
  proof (cases ?last)
    case True
    obtain bvs where bvs: "foldM (ps_push ?bits) (pb_bvs st) [0..<4] = Some bvs" "length bvs = 4"
      "\<forall>c<4. bm_ok (bvs ! c) \<and> bm_list (bvs ! c) = bm_list (pb_bvs st ! c) @ [?bits ! c]"
      using ps_push_loop [OF lb st(2)] st(4) q by auto
    let ?st = "\<lparr>pb_bvs = bvs, pb_counters = ?counters, pb_bits = [False, False, False, False]\<rparr>"
    have "of_bool ?last = (1 :: nat)" unfolding of_bool_eq_1_iff by (rule True)
    then have cov: "ps_pushes ?n rate (Suc k) = Suc ?q" "ps_cover ?n rate (Suc ?q) = Suc k"
      using step(1) step(2) [OF True] by linarith+
    have "ps_symbol_step ?n rate st (k, D ! k) = Some ?st"
      using sym d st(3) lst True bvs(1) by (simp add: ps_symbol_step_def Let_def)
    moreover have "bm_list (bvs ! c) = map (ps_bit D rate c) [0..<Suc ?q]" if c: "c < 4" for c
      using bvs(3) st(4) bit [OF c] c cov by (simp add: ps_bit_def)
    then have "ps_inv D rate (Suc k) ?st"
      unfolding ps_inv_def using counters bvs(2,3) cov by (simp add: upt_4)
    ultimately show ?thesis by blast
  next
    case False
    let ?st = "\<lparr>pb_bvs = pb_bvs st, pb_counters = ?counters, pb_bits = ?bits\<rparr>"
    have "of_bool ?last = (0 :: nat)" unfolding of_bool_eq_0_iff by (rule False)
    then have cov: "ps_pushes ?n rate (Suc k) = ?q" using step(1) by linarith
    have "ps_symbol_step ?n rate st (k, D ! k) = Some ?st"
      using sym d st(3) lst False by (simp add: ps_symbol_step_def Let_def)
    moreover have "?bits = map (\<lambda>c. ps_count D rate c (Suc k) \<noteq> ?base c) [0..<4]"
      by (rule nth_equalityI) (use lb bit in simp_all)
    then have "ps_inv D rate (Suc k) ?st" unfolding ps_inv_def using counters st(2,4) cov by simp
    ultimately show ?thesis by blast
  qed
qed

lemma foldM_map: "foldM f s (map h xs) = foldM (\<lambda>s x. f s (h x)) s xs"
proof (induction xs arbitrary: s)
  case (Cons x xs)
  then show ?case by (cases "f s (h x)") simp_all
qed simp

text \<open>A well-formed structure over the digits \<open>D\<close>, with the number of bits of each vector.\<close>

definition ps_ok :: "nat list \<Rightarrow> prefetch_support \<Rightarrow> bool" where
  "ps_ok D self \<longleftrightarrow> length (ps_samples self) = 4
     \<and> (\<forall>c<4. rn_rep (ps_samples self ! c) (map (ps_bit D (2 ^ ps_sample_rate_shift self) c)
          [0..<ps_pushes (length D) (2 ^ ps_sample_rate_shift self) (length D)]))"

lemma ps_new_ok:
  assumes qv: "qv_ok qv" and n: "qv_len qv < 2 ^ 43 - 2048" and shift: "shift < 64"
  shows "\<exists>self. ps_new qv shift = Some self \<and> ps_ok (qv_list qv) self \<and> ps_sample_rate_shift self = shift"
proof -
  let ?D = "qv_list qv" and ?rate = "2 ^ shift :: nat"
  let ?init = "\<lparr>pb_bvs = [bm_new, bm_new, bm_new, bm_new], pb_counters = [0, 0, 0, 0], pb_bits = [False, False, False, False]\<rparr>"
  let ?q = "ps_pushes (length ?D) ?rate (length ?D)"
  have len: "qv_len qv = length ?D" by simp
  have b4: "[bm_new, bm_new, bm_new, bm_new] ! c = bm_new" if "c < 4" for c
    using that by (simp add: less_Suc_eq numeral_eq_Suc) auto
  have "ps_inv ?D ?rate 0 ?init"
    using bm_new_ok b4 by (auto simp: ps_inv_def ps_pushes_def div_ceil_def upt_4)
  moreover have z: "zip [0..<length ?D] ?D = map (\<lambda>k. (k, ?D ! k)) [0..<length ?D]"
    by (rule nth_equalityI) simp_all
  have digit: "?D ! k < 4" if "k < length ?D" for k using that by (intro set_qv_list [OF nth_mem]) simp
  ultimately obtain st where st: "foldM (\<lambda>st k. ps_symbol_step (length ?D) ?rate st (k, ?D ! k)) ?init [0..<length ?D] = Some st"
    "ps_inv ?D ?rate (length ?D) st"
    using foldM_upt_inv [of "ps_inv ?D ?rate" ?init "length ?D" "\<lambda>st k. ps_symbol_step (length ?D) ?rate st (k, ?D ! k)",
        OF _ ps_symbol_step_inv] n by fastforce
  have fold: "foldM (ps_symbol_step (qv_len qv) ?rate) ?init (zip [0..<length ?D] ?D) = Some st"
    unfolding z len using st(1) by (simp add: foldM_map)
  have bvs: "length (pb_bvs st) = 4" "\<forall>c<4. bm_ok (pb_bvs st ! c) \<and> bm_list (pb_bvs st ! c) = map (ps_bit ?D ?rate c) [0..<?q]"
    using st(2) by (simp_all add: ps_inv_def)
  have sample: "\<exists>r. rn_new (bv_from (pb_bvs st ! c)) = Some r \<and> rn_rep r (map (ps_bit ?D ?rate c) [0..<?q])" if c: "c < 4" for c
  proof -
    have ok: "bv_ok (bv_from (pb_bvs st ! c))" "bv_list (bv_from (pb_bvs st ! c)) = map (ps_bit ?D ?rate c) [0..<?q]"
      using bvs(2) c by simp_all
    have "length (bv_list (bv_from (pb_bvs st ! c))) = ?q" using ok(2) by simp
    then have "bv_n_bits (bv_from (pb_bvs st ! c)) = ?q" unfolding length_bv_list .
    moreover have "?q \<le> qv_len qv + 1" using ps_pushes_le [of ?rate "length ?D" "length ?D"] by simp
    ultimately have "bv_n_bits (bv_from (pb_bvs st ! c)) < 2 ^ 43" using n by linarith
    from narrow.b_from_rep [OF ok(1) this] show ?thesis using ok(2) by (simp add: rn_ops_def)
  qed
  define r where "r bvm = the (rn_new (bv_from bvm))" for bvm
  have r: "rn_new (bv_from (pb_bvs st ! c)) = Some (r (pb_bvs st ! c))" "rn_rep (r (pb_bvs st ! c)) (map (ps_bit ?D ?rate c) [0..<?q])"
    if "c < 4" for c using sample [OF that] by (auto simp: r_def)
  have "those (map (\<lambda>bvm. rn_new (bv_from bvm)) (pb_bvs st)) = Some (map r (pb_bvs st))"
  proof (rule those_map_Some)
    fix x assume "x \<in> set (pb_bvs st)"
    then obtain c where "c < 4" "pb_bvs st ! c = x" using bvs(1) by (metis in_set_conv_nth)
    then show "rn_new (bv_from x) = Some (r x)" using r(1) by blast
  qed
  then have "ps_new qv shift = Some \<lparr>ps_samples = map r (pb_bvs st), ps_sample_rate_shift = shift\<rparr>"
    using fold shift by (simp add: ps_new_def qv_iter_collect [OF qv] Let_def)
  moreover have "ps_ok ?D \<lparr>ps_samples = map r (pb_bvs st), ps_sample_rate_shift = shift\<rparr>"
    using r(2) bvs(1) by (simp add: ps_ok_def)
  ultimately show ?thesis by fastforce
qed

text \<open>
  The estimate: the samples up to the first element of the block of \<open>i\<close>. The samples answer a little past
  the end, which the walk of the compressed tree needs.
\<close>

lemma div_ceil_eq_div: "0 < r \<Longrightarrow> div_ceil a r = (a + (r - 1)) div r"
proof -
  assume r: "0 < r"
  let ?q = "a div r" and ?m = "a mod r"
  have a: "a + (r - 1) = ?m + (r - 1) + ?q * r" by simp
  have m: "?m < r" using r by simp
  have "(a + (r - 1)) div r = (?m + (r - 1)) div r + ?q" unfolding a using r by (subst div_mult_self1) simp_all
  moreover have "(?m + (r - 1)) div r = of_bool (?m \<noteq> 0)"
  proof (cases "?m = 0")
    case False
    then have eq: "?m + (r - 1) = r + (?m - 1)" and lt: "?m - 1 < r" using r m by simp_all
    have "(r + (?m - 1)) div r = 1" using r lt by (subst div_add_self1) simp_all
    then show ?thesis unfolding eq using False by simp
  qed (use r in simp)
  ultimately show ?thesis by (simp add: div_ceil_def)
qed

lemma ps_approx_rank_near:
  assumes ok: "ps_ok D self" and shift: "0 < ps_sample_rate_shift self" and ne: "D \<noteq> []" and n: "length D < 2 ^ 64"
    and c: "c < 4"
  defines "rate \<equiv> 2 ^ ps_sample_rate_shift self"
  assumes i: "i + 2 \<le> length D + rate"
  shows "ps_approx_rank_unchecked self c i = Some (count_list (take (i div rate * rate + 1) D) c div rate * rate)"
proof -
  let ?n = "length D" and ?q = "ps_pushes (length D) rate (length D)"
  have rate: "2 \<le> rate" using shift by (cases "ps_sample_rate_shift self") (simp_all add: rate_def)
  have rep: "rn_rep (ps_samples self ! c) (map (ps_bit D rate c) [0..<?q])" "length (ps_samples self) = 4"
    using ok c by (simp_all add: ps_ok_def rate_def)
  have "i \<le> (?n - 1) + (rate - 1)" using i rate ne by (cases D) auto
  then have "i div rate \<le> div_ceil (?n - 1) rate" using rate by (simp add: div_ceil_eq_div div_le_mono)
  then have q: "i div rate + 1 \<le> ?q" using ne by (simp add: ps_pushes_def)
  have "rn_rank1 (ps_samples self ! c) (i div rate + 1) = Some (Some (rank_of (map (ps_bit D rate c) [0..<?q]) True (i div rate + 1)))"
    using narrow.b_rank1_rep [OF rep(1), of "i div rate + 1"] q by (simp add: rn_ops_def)
  also have "rank_of (map (ps_bit D rate c) [0..<?q]) True (i div rate + 1) = ps_count D rate c (ps_cover ?n rate (i div rate + 1))"
    using rate by (intro ps_rank q) simp
  also have "ps_cover ?n rate (i div rate + 1) = min ?n (i div rate * rate + 1)" by simp
  also have "ps_count D rate c \<dots> = count_list (take (i div rate * rate + 1) D) c div rate" by (simp add: ps_count_def min_def)
  finally have r: "rn_rank1 (ps_samples self ! c) (i div rate + 1) = Some (Some (count_list (take (i div rate * rate + 1) D) c div rate))" .
  have "count_list (take (i div rate * rate + 1) D) c div rate * rate \<le> count_list (take (i div rate * rate + 1) D) c" by simp
  also have "\<dots> \<le> ?n" using count_le_length [of "take (i div rate * rate + 1) D" c] by simp
  finally have "count_list (take (i div rate * rate + 1) D) c div rate * rate < 2 ^ 64" using n by linarith
  then show ?thesis using r rep(2) c by (simp add: ps_approx_rank_unchecked_def idx_def Let_def flip: rate_def)
qed

lemma ps_approx_rank_eq:
  assumes ok: "ps_ok D self" and shift: "0 < ps_sample_rate_shift self" and ne: "D \<noteq> []" and n: "length D < 2 ^ 64"
    and c: "c < 4" and i: "i \<le> length D"
  defines "rate \<equiv> 2 ^ ps_sample_rate_shift self"
  shows "ps_approx_rank_unchecked self c i = Some (count_list (take (i div rate * rate + 1) D) c div rate * rate)"
proof -
  have "(2 :: nat) \<le> 2 ^ ps_sample_rate_shift self" using shift by (cases "ps_sample_rate_shift self") simp_all
  then show ?thesis unfolding rate_def using i by (intro ps_approx_rank_near [OF ok shift ne n c]) linarith
qed

text \<open>The estimate never exceeds the occurrences of the symbol, and grows with the position.\<close>

lemma ps_estimate_le: "count_list (take j D) c div rate * rate \<le> count_list D c"
proof -
  have "count_list (take j D) c div rate * rate \<le> count_list (take j D) c" by simp
  also have "\<dots> \<le> count_list D c" by (metis append_take_drop_id count_list_append le_add1)
  finally show ?thesis .
qed

lemma ps_estimate_mono:
  fixes D :: "nat list"
  assumes "i \<le> k"
  shows "count_list (take (i div rate * rate + 1) D) c div rate * rate \<le> count_list (take (k div rate * rate + 1) D) c div rate * rate"
  using ps_count_mono [of "i div rate * rate + 1" "k div rate * rate + 1" D rate c] div_le_mono [OF assms, of rate]
  by (simp add: ps_count_def)

lemma ps_estimate_bounds:
  fixes D :: "nat list"
  assumes "0 < rate"
  shows "count_list (take (i div rate * rate + 1) D) c div rate * rate \<le> rank_of D c i + 1"
    "rank_of D c i < count_list (take (i div rate * rate + 1) D) c div rate * rate + 2 * rate"
proof -
  let ?b = "i div rate * rate"
  let ?cnt = "count_list (take (?b + 1) D) c"
  have b: "?b \<le> i" "i < ?b + rate" using div_mult_mod_eq [of i rate] mod_less_divisor [OF assms, of i] by linarith+
  have "?cnt div rate * rate \<le> ?cnt" by simp
  also have "?cnt \<le> rank_of D c (i + 1)" using rank_of_mono [of "?b + 1" "i + 1" D c] b(1) by (simp add: rank_of_def)
  also have "\<dots> \<le> rank_of D c i + 1"
  proof (cases "i < length D")
    case True
    then show ?thesis by (simp add: rank_of_def take_Suc_conv_app_nth)
  qed (simp add: rank_of_def)
  finally show "?cnt div rate * rate \<le> rank_of D c i + 1" .
  have cnt: "?cnt < ?cnt div rate * rate + rate" using div_mult_mod_eq [of ?cnt rate] mod_less_divisor [OF assms, of ?cnt] by linarith
  have "rank_of D c i < ?cnt + rate"
  proof (cases "i \<le> ?b + 1")
    case True
    then show ?thesis using rank_of_mono [of i "?b + 1" D c] assms by (simp add: rank_of_def)
  next
    case False
    then have "take i D = take (?b + 1) D @ take (i - (?b + 1)) (drop (?b + 1) D)" by (metis le_add_diff_inverse nle_le take_add)
    moreover have "count_list (take (i - (?b + 1)) (drop (?b + 1) D)) c \<le> i - (?b + 1)"
      using count_le_length [of "take (i - (?b + 1)) (drop (?b + 1) D)" c] by (rule le_trans) simp
    ultimately show ?thesis using b(2) assms by (simp add: rank_of_def)
  qed
  then show "rank_of D c i < ?cnt div rate * rate + 2 * rate" using cnt by linarith
qed

section \<open>The prefetching rank\<close>

definition ps_rep :: "nat list \<Rightarrow> prefetch_support \<Rightarrow> bool" where
  "ps_rep D self \<longleftrightarrow> ps_ok D self \<and> ps_sample_rate_shift self = 11"

lemma ps_pf_ok: "pf_ok (Some ps_ops) ps_rep"
  unfolding pf_ok_def ps_rep_def
proof (intro allI impI)
  fix P qv assume a: "Some ps_ops = Some P \<and> qv_ok qv \<and> qv_len qv < 2 ^ 43 - 2048"
  then have "\<exists>p. ps_new qv 11 = Some p \<and> ps_ok (qv_list qv) p \<and> ps_sample_rate_shift p = 11" by (intro ps_new_ok) simp_all
  then show "\<exists>p. p_new P qv 11 = Some p \<and> ps_ok (qv_list qv) p \<and> ps_sample_rate_shift p = 11" using a by (auto simp: ps_ops_def)
qed

context wt_support begin

lemma prefetch_superblock_steps:
  fixes xs :: "'a::len word list" and self :: "('a word, 'r, prefetch_support) qwt"
  assumes ok: "qw_ok rep self xs" and ne: "xs \<noteq> []" and n: "length xs < 2 ^ 43" and i: "i \<le> length xs" and L: "qw_n_levels self = Suc l"
    and ps: "pf_built (Some ps_ops) ps_rep (wm_digits (Suc l) xs) (Suc l) supports"
  shows "\<exists>b e. foldM (qw_prefetch_superblock_step R ps_ops supports self c) (int (2 * l), 0, i) [0..<l] = Some (0, b, e) \<and> b \<le> e"
proof -
  let ?Inv = "\<lambda>k st. \<exists>b e. st = (int (2 * (l - k)), b, e) \<and> b \<le> e \<and> e \<le> length xs"
  note lev = qw_ok_levels [OF ok ne]
  have "\<exists>st'. qw_prefetch_superblock_step R ps_ops supports self c st k = Some st' \<and> ?Inv (Suc k) st'" if k: "k < l" and inv: "?Inv k st" for k st
  proof -
    obtain b e where st: "st = (int (2 * (l - k)), b, e)" "b \<le> e" "e \<le> length xs" using inv by blast
    obtain r where r: "idx (qw_qvs self) k = Some r" "rep r (wm_digits (Suc l) xs k)"
      using level_rep [OF ok ne, of k] k L by auto
    let ?D = "wm_digits (Suc l) xs k" and ?d = "qdigit (2 * (l - k)) c"
    have d4: "?d < 4" by simp
    have "2 * (l - k) < LENGTH('a)" using lev(3) L by simp
    then have tb: "two_bits_T (2 * (l - k)) c = Some ?d" by (rule two_bits_T_eq)
    have sup: "length supports = Suc l" "ps_ok ?D (supports ! k)" "ps_sample_rate_shift (supports ! k) = 11"
      using ps k by (simp_all add: pf_built_def ps_rep_def)
    have D: "length ?D = length xs" by simp
    then have D_ne: "?D \<noteq> []" using ne by (metis length_0_conv)
    let ?est = "\<lambda>i. count_list (take (i div 2 ^ 11 * 2 ^ 11 + 1) ?D) ?d div 2 ^ 11 * 2 ^ 11"
    have est: "ps_approx_rank_unchecked (supports ! k) ?d i = Some (?est i)" if "i \<le> length xs" for i
      using ps_approx_rank_eq [OF sup(2) _ D_ne _ d4, of i] sup(3) D n that by simp
    have "smaller_of ?D ?d + count_list ?D ?d \<le> length xs"
      using length_filter_le [of "\<lambda>x. x < Suc ?d" ?D] D by (simp add: smaller_of_Suc [symmetric]) (simp add: smaller_of_def)
    then have le: "?est e + smaller_of ?D ?d \<le> length xs" using ps_estimate_le [of "e div 2 ^ 11 * 2 ^ 11 + 1" ?D ?d "2 ^ 11"] by linarith
    have mono: "?est b \<le> ?est e" by (rule ps_estimate_mono [OF st(2)])
    have step: "qw_prefetch_superblock_step R ps_ops supports self c st k
        = Some (int (2 * (l - k)) - 2, ?est b + smaller_of ?D ?d, ?est e + smaller_of ?D ?d)"
      using r st tb est [of b] est [of e] sup(1) k lev(4) L
      by (simp add: qw_prefetch_superblock_step_def occs_smaller_unchecked_rep ps_ops_def idx_def nat_int del: of_nat_mult of_nat_diff power_numeral)
    have sh: "int (2 * (l - k)) - 2 = int (2 * (l - Suc k))" using k by simp
    show ?thesis
      by (rule exI [of _ "(int (2 * (l - Suc k)), ?est b + smaller_of ?D ?d, ?est e + smaller_of ?D ?d)"])
        (use step sh le mono in \<open>simp del: of_nat_mult of_nat_diff power_numeral\<close>)
  qed
  then have "\<exists>st. foldM (qw_prefetch_superblock_step R ps_ops supports self c) (int (2 * l), 0, i) [0..<l] = Some st \<and> ?Inv l st"
    using foldM_upt_inv [of ?Inv "(int (2 * l), 0, i)" l "qw_prefetch_superblock_step R ps_ops supports self c"] i by auto
  then show ?thesis by auto
qed

lemma rank_prefetch_support_eq:
  fixes xs :: "'a::len word list" and self :: "('a word, 'r, prefetch_support) qwt"
  assumes ok: "qw_ok rep self xs" and ne: "xs \<noteq> []" and n: "length xs < 2 ^ 43"
    and ps: "qw_prefetch_support self = Some supports" "pf_built (Some ps_ops) ps_rep (wm_digits (qw_n_levels self) xs) (qw_n_levels self) supports"
  shows "qw_rank_prefetch R (Some ps_ops) self c i = qw_rank R self c i"
proof -
  note lev = qw_ok_levels [OF ok ne]
  obtain l where l: "qw_n_levels self = Suc l" using lev(1) by (cases "qw_n_levels self") auto
  have "qw_rank_prefetch_unchecked R (Some ps_ops) self c i = qw_rank_unchecked R self c i" if i: "i \<le> length xs"
  proof -
    obtain b e where "foldM (qw_prefetch_superblock_step R ps_ops supports self c) (int (2 * l), 0, i) [0..<l] = Some (0, b, e)" "b \<le> e"
      using prefetch_superblock_steps [OF ok ne n i l, of supports c] ps(2) unfolding l by blast
    then show ?thesis using prefetch_block_steps [OF ok ne _ i l, of 0 c] lev(4) l ps(1)
      by (auto simp: qw_rank_prefetch_unchecked_def qw_rank_prefetch_superblocks_unchecked_def)
  qed
  then show ?thesis using lev(7) l by (auto simp: qw_rank_prefetch_def qw_rank_def)
qed

end

end
