(* ===== verification/HuffQWT.thy ===== *)
theory HuffQWT
  imports BinWT QuadWTParts "HOL-Library.Product_Lexorder"
begin

text \<open>
  \<^verbatim>\<open>src/quadwt/huffqwt.rs\<close>: the compressed quad wavelet tree, definitions. Codes have two bits per level
  and at most 32 bits; a symbol stays in the levels of its code only. The lengths of an optimal code come
  from the crate \<open>minimum_redundancy\<close>, the argument \<open>code_lengths\<close>: from the symbols that occur with their
  frequencies, in increasing order of frequency, the symbols with the number of fragments of their codes.
\<close>

unbundle bit_operations_syntax

section \<open>Limiting the lengths\<close>

record len_info =
  li_symbol :: nat
  li_len :: nat
  li_frequency :: nat

definition MAX_CODE_BITS :: nat where
  "MAX_CODE_BITS = 32"

definition MAX_DEPTH_SLOTS :: nat where
  "MAX_DEPTH_SLOTS = 2 ^ MAX_CODE_BITS"

text \<open>The loop that lengthens one leaf: its length and the slots occupied at the maximal depth.\<close>

function widen_leaf :: "nat \<Rightarrow> nat \<Rightarrow> (nat \<times> nat) option" where
  "widen_leaf len occupied_slots =
     (if occupied_slots > MAX_DEPTH_SLOTS \<and> len < MAX_CODE_BITS then
        (let old_slots = 2 ^ (MAX_CODE_BITS - len)
         in case chk_sub occupied_slots (old_slots - old_slots div 4) of
              None \<Rightarrow> None
            | Some occupied_slots \<Rightarrow> widen_leaf (len + 2) occupied_slots)
      else Some (len, occupied_slots))"
  by auto
termination by (relation "measure (\<lambda>(len, _). MAX_CODE_BITS - len)") auto

declare widen_leaf.simps [simp del]

fun widen_candidates :: "nat list \<Rightarrow> len_info list \<Rightarrow> nat \<Rightarrow> (len_info list \<times> nat) option" where
  "widen_candidates [] lengths occupied_slots = Some (lengths, occupied_slots)"
| "widen_candidates (index # candidates) lengths occupied_slots = do {
     x \<leftarrow> idx lengths index;
     (len, occupied_slots) \<leftarrow> widen_leaf (li_len x) occupied_slots;
     let lengths = lengths[index := x\<lparr>li_len := len\<rparr>];
     if occupied_slots \<le> MAX_DEPTH_SLOTS then Some (lengths, occupied_slots)
     else widen_candidates candidates lengths occupied_slots
   }"

definition limit_code_lengths :: "len_info list \<Rightarrow> len_info list option" where
  "limit_code_lengths lengths =
     (if \<not> (\<exists>x\<in>set lengths. li_len x > 32) then Some lengths
      else
        let lengths = map (\<lambda>x. x\<lparr>li_len := min (li_len x) MAX_CODE_BITS\<rparr>) lengths;
            occupied_slots = sum_list (map (\<lambda>x. 2 ^ (MAX_CODE_BITS - li_len x)) lengths)
        in if occupied_slots \<le> MAX_DEPTH_SLOTS then Some lengths
           else do {
             let candidates = sort_key (\<lambda>index. let x = lengths ! index in (li_frequency x, li_len x, li_symbol x))
               (filter (\<lambda>index. li_len (lengths ! index) < MAX_CODE_BITS) [0..<length lengths]);
             (lengths, occupied_slots) \<leftarrow> widen_candidates candidates lengths occupied_slots;
             guard (occupied_slots \<le> MAX_DEPTH_SLOTS);
             Some lengths
           })"

section \<open>The codes\<close>

definition craft4_split :: "nat \<Rightarrow> nat \<Rightarrow> nat \<Rightarrow> u32 list \<Rightarrow> nat \<Rightarrow> u32 list option" where
  "craft4_split j m l c r = do {
     k \<leftarrow> chk_sub m j;
     x \<leftarrow> idx c r;
     guard (k * 3 + r < length c);
     let c = c[k * 3 + r := x];
     x \<leftarrow> idx c r;
     b \<leftarrow> shl_u32 1 l;
     guard (k * 2 + r < length c);
     let c = c[k * 2 + r := x OR b];
     x \<leftarrow> idx c r;
     b \<leftarrow> shl_u32 2 l;
     guard (k * 1 + r < length c);
     let c = c[k * 1 + r := x OR b];
     x \<leftarrow> idx c r;
     b \<leftarrow> shl_u32 3 l;
     Some (c[r := x OR b])
   }"

definition craft4_grow :: "nat \<Rightarrow> craft_state \<Rightarrow> nat \<Rightarrow> craft_state option" where
  "craft4_grow j st _ = do {
     c \<leftarrow> foldM (craft4_split j (cs_m st) (cs_l st)) (cs_c st) [j..<cs_m st];
     m \<leftarrow> chk_sub (4 * cs_m st) (3 * j);
     Some (st\<lparr>cs_c := c, cs_m := m, cs_l := cs_l st + 2\<rparr>)
   }"

text \<open>Step \<open>k\<close> of the loop over \<open>t\<close> in steps of two.\<close>

definition craft4_reverse :: "u32 \<Rightarrow> nat \<Rightarrow> u32 \<Rightarrow> nat \<Rightarrow> u32 option" where
  "craft4_reverse cj l reversed_code k = do {
     let t = 2 * k;
     w \<leftarrow> shr_u32 cj t;
     sh \<leftarrow> chk_sub l (t + 2);
     b \<leftarrow> shl_u32 (w AND 3) sh;
     Some (reversed_code OR b)
   }"

text \<open>The \<open>while\<close> loop adds two to \<open>l\<close> until it reaches the length.\<close>

definition craft4_step :: "len_info list \<Rightarrow> craft_state \<Rightarrow> nat \<Rightarrow> craft_state option" where
  "craft4_step lengths st j = do {
     x \<leftarrow> idx lengths j;
     st \<leftarrow> foldM (craft4_grow j) st [0..<div_ceil (li_len x - cs_l st) 2];
     cj \<leftarrow> idx (cs_c st) j;
     reversed_code \<leftarrow> foldM (craft4_reverse cj (cs_l st)) 0 [0..<div_ceil (cs_l st) 2];
     guard (li_symbol x < length (cs_assignments st));
     Some (st\<lparr>cs_assignments := (cs_assignments st)[li_symbol x := \<lparr>pc_content = reversed_code, pc_len = of_nat (cs_l st)\<rparr>]\<rparr>)
   }"

definition craft4_wm_codes :: "len_info list \<Rightarrow> nat \<Rightarrow> prefix_code list option" where
  "craft4_wm_codes lengths sigma = do {
     let alph_size = length lengths;
     lengths \<leftarrow> limit_code_lengths lengths;
     let lengths = sort_key (\<lambda>x. (li_len x, - int (li_frequency x), li_symbol x)) lengths;
     n_assignments \<leftarrow> add_usize sigma 1;
     assignments \<leftarrow> vec_of 8 \<lparr>pc_content = 0, pc_len = 0\<rparr> n_assignments;
     st \<leftarrow> foldM (craft4_step lengths)
       \<lparr>cs_c = replicate (alph_size * 4) 0, cs_assignments = assignments, cs_m = 1, cs_l = 0\<rparr> [0..<alph_size];
     Some (cs_assignments st)
   }"

definition li_from :: "nat list \<Rightarrow> nat \<times> nat \<Rightarrow> len_info option" where
  "li_from frequencies sl = do {
     guard (snd sl * 2 < 2 ^ 32);
     f \<leftarrow> idx frequencies (fst sl);
     Some \<lparr>li_symbol = fst sl, li_len = snd sl * 2, li_frequency = f\<rparr>
   }"

definition huffman_codes_from_frequencies :: "((nat \<times> nat) list \<Rightarrow> (nat \<times> nat) list) \<Rightarrow> nat list \<Rightarrow> prefix_code list option" where
  "huffman_codes_from_frequencies code_lengths frequencies = do {
     let sigma = length frequencies - 1;
     let symbol_frequencies = sort_key (\<lambda>(symbol, frequency). (frequency, symbol))
       (filter (\<lambda>(symbol, frequency). frequency \<noteq> 0) (zip [0..<length frequencies] frequencies));
     lengths \<leftarrow> those (map (li_from frequencies) (code_lengths symbol_frequencies));
     craft4_wm_codes lengths sigma
   }"

section \<open>The tree and its construction\<close>

record ('a, 'r, 'p) huff_qwt =
  hw_n :: nat
  hw_n_levels :: nat
  hw_codes_encode :: "prefix_code list"
  hw_codes_decode :: "(u32 \<times> 'a) list list"
  hw_qvs :: "'r list"
  hw_lens :: "nat list"
  hw_prefetch_support :: "'p list option"

definition freq_count_step :: "nat list \<Rightarrow> 'a::len word \<Rightarrow> nat list option" where
  "freq_count_step frequencies symbol = do {
     f \<leftarrow> idx frequencies (unat (as_usize symbol));
     Some (frequencies[unat (as_usize symbol) := f + 1])
   }"

definition hw_count_step :: "prefix_code list \<Rightarrow> nat \<Rightarrow> qvector_builder \<times> nat list \<Rightarrow> 'a::len word \<Rightarrow> (qvector_builder \<times> nat list) option" where
  "hw_count_step codes shift st s = (
     let (cur_qv, counts) = st
     in do {
       cur_code \<leftarrow> idx codes (unat (as_usize s));
       cur_qv \<leftarrow> (if unat (pc_len cur_code) \<ge> shift then do {
           qv_symbol \<leftarrow> shr_u32 (pc_content cur_code) (unat (pc_len cur_code) - shift);
           qb_push cur_qv (ucast (qv_symbol AND 3))
         } else Some cur_qv);
       bucket \<leftarrow> (if unat (pc_len cur_code) \<le> shift then Some 4
         else do {
           w \<leftarrow> shr_u32 (pc_content cur_code) (unat (pc_len cur_code) - shift);
           Some (unat (w AND 3))
         });
       n \<leftarrow> idx counts bucket;
       Some (cur_qv, counts[bucket := n + 1])
     })"

text \<open>The local variables of the loop over the levels.\<close>

record ('a, 'r, 'p) hw_build =
  hb_sequence :: "'a list"
  hb_partitioned :: "'a list"
  hb_qvs :: "'r list"
  hb_lens :: "nat list"
  hb_prefetch :: "'p list"
  hb_shift :: nat

definition hw_level_step :: "'r wt_support_ops \<Rightarrow> 'p prefetch_ops option \<Rightarrow> prefix_code list \<Rightarrow>
    ('a::len word, 'r, 'p) hw_build \<Rightarrow> nat \<Rightarrow> ('a word, 'r, 'p) hw_build option" where
  "hw_level_step R pf codes st _ = do {
     (cur_qv, counts) \<leftarrow> foldM (hw_count_step codes (hb_shift st)) (qb_default, [0, 0, 0, 0, 0]) (hb_sequence st);
     let qv = qb_build cur_qv;
     let cur_qv_len = qv_len qv;
     pfs \<leftarrow> (case pf of None \<Rightarrow> Some (hb_prefetch st)
       | Some P \<Rightarrow> do { p \<leftarrow> p_new P qv 11; Some (hb_prefetch st @ [p]) });
     r \<leftarrow> w_from R qv;
     partitioned \<leftarrow> stable_partition_of_4_with_codes_into (hb_sequence st) (hb_shift st) codes counts (hb_partitioned st);
     Some \<lparr>hb_sequence = partitioned, hb_partitioned = hb_sequence st, hb_qvs = hb_qvs st @ [r],
       hb_lens = hb_lens st @ [cur_qv_len], hb_prefetch = pfs, hb_shift = hb_shift st + 2\<rparr>
   }"

definition hw_from_owned :: "'r wt_support_ops \<Rightarrow> 'p prefetch_ops option \<Rightarrow> ((nat \<times> nat) list \<Rightarrow> (nat \<times> nat) list) \<Rightarrow>
    'a::len word list \<Rightarrow> ('a word, 'r, 'p) huff_qwt option" where
  "hw_from_owned R pf code_lengths sequence =
     (if sequence = [] then do {
        r \<leftarrow> w_default R;
        Some \<lparr>hw_n = 0, hw_n_levels = 0, hw_codes_encode = [], hw_codes_decode = [], hw_qvs = [r], hw_lens = [0],
          hw_prefetch_support = None\<rparr>
      } else do {
        let sigma = unat (as_usize (Max (set sequence)));
        n_frequencies \<leftarrow> add_usize sigma 1;
        frequencies \<leftarrow> vec_of 8 0 n_frequencies;
        frequencies \<leftarrow> foldM freq_count_step frequencies sequence;
        codes \<leftarrow> huffman_codes_from_frequencies code_lengths frequencies;
        let max_len = unat (Max (pc_len ` set codes));
        let n_levels = max_len div 2;
        codes_decode \<leftarrow> foldM decoder_push (replicate (max_len + 1) []) (zip [0..<length codes] codes);
        st \<leftarrow> foldM (hw_level_step R pf codes)
          \<lparr>hb_sequence = sequence, hb_partitioned = replicate (length sequence) 0, hb_qvs = [], hb_lens = [],
            hb_prefetch = [], hb_shift = 2\<rparr> [0..<n_levels];
        Some \<lparr>hw_n = length (hb_sequence st), hw_n_levels = n_levels, hw_codes_encode = codes,
          hw_codes_decode = map (sort_key fst) codes_decode, hw_qvs = hb_qvs st, hw_lens = hb_lens st,
          hw_prefetch_support = (case pf of None \<Rightarrow> None | Some _ \<Rightarrow> Some (hb_prefetch st))\<rparr>
      })"

definition hw_new :: "'r wt_support_ops \<Rightarrow> 'p prefetch_ops option \<Rightarrow> ((nat \<times> nat) list \<Rightarrow> (nat \<times> nat) list) \<Rightarrow>
    'a::len word list \<Rightarrow> ('a word, 'r, 'p) huff_qwt option" where
  "hw_new R pf code_lengths sequence = hw_from_owned R pf code_lengths sequence"

definition hw_len :: "('a, 'r, 'p) huff_qwt \<Rightarrow> nat" where
  "hw_len self = hw_n self"

definition hw_is_empty :: "('a, 'r, 'p) huff_qwt \<Rightarrow> bool" where
  "hw_is_empty self \<longleftrightarrow> hw_n self = 0"

definition hw_iter :: "('a, 'r, 'p) huff_qwt \<Rightarrow> ('a, 'r, 'p) huff_qwt wt_iterator" where
  "hw_iter self = \<lparr>wi_i = 0, wi_end = hw_len self, wi_qwt = self\<rparr>"

section \<open>Access\<close>

text \<open>The loop down the levels, which ends early at the leaf: the bits read and their number.\<close>

fun hw_get_loop :: "'r wt_support_ops \<Rightarrow> ('a, 'r, 'p) huff_qwt \<Rightarrow> nat list \<Rightarrow> nat \<Rightarrow> u32 \<Rightarrow> nat \<Rightarrow> (u32 \<times> nat) option" where
  "hw_get_loop R self [] cur_i result shift = Some (result, shift)"
| "hw_get_loop R self (level # levels) cur_i result shift = do {
     len \<leftarrow> idx (hw_lens self) level;
     if cur_i \<ge> len then Some (result, shift)
     else do {
       qv \<leftarrow> idx (hw_qvs self) level;
       symbol \<leftarrow> w_get_unchecked R qv cur_i;
       offset \<leftarrow> w_occs_smaller_unchecked R qv symbol;
       r \<leftarrow> w_rank_unchecked R qv symbol cur_i;
       hw_get_loop R self levels (r + offset) (push_bit 2 result OR of_nat symbol) (shift + 2)
     }
   }"

definition hw_get_unchecked :: "'r wt_support_ops \<Rightarrow> ('a, 'r, 'p) huff_qwt \<Rightarrow> nat \<Rightarrow> 'a option" where
  "hw_get_unchecked R self i = do {
     (result, shift) \<leftarrow> hw_get_loop R self [0..<hw_n_levels self] i 0 0;
     row \<leftarrow> idx (hw_codes_decode self) shift;
     index \<leftarrow> search_code result row;
     leaf \<leftarrow> idx row index;
     Some (snd leaf)
   }"

definition hw_get :: "'r wt_support_ops \<Rightarrow> ('a, 'r, 'p) huff_qwt \<Rightarrow> nat \<Rightarrow> 'a option option" where
  "hw_get R self i =
     (if i \<ge> hw_n self then Some None else do { v \<leftarrow> hw_get_unchecked R self i; Some (Some v) })"

section \<open>Rank\<close>

text \<open>\<open>((repr >> shift) & 3) as u8\<close>\<close>

definition two_bits_u32 :: "u32 \<Rightarrow> int \<Rightarrow> nat option" where
  "two_bits_u32 repr shift = do { w \<leftarrow> shr_u32 repr (nat shift); Some (unat (w AND 3)) }"

definition hw_rank_step :: "'r wt_support_ops \<Rightarrow> ('a, 'r, 'p) huff_qwt \<Rightarrow> u32 \<Rightarrow> int \<times> nat \<times> nat \<Rightarrow> nat \<Rightarrow> (int \<times> nat \<times> nat) option" where
  "hw_rank_step R self repr st level = (
     let (shift, cur_i, cur_p) = st
     in do {
       two_bits \<leftarrow> two_bits_u32 repr shift;
       qv \<leftarrow> idx (hw_qvs self) level;
       offset \<leftarrow> w_occs_smaller_unchecked R qv two_bits;
       rp \<leftarrow> w_rank_unchecked R qv two_bits cur_p;
       ri \<leftarrow> w_rank_unchecked R qv two_bits cur_i;
       Some (shift - 2, ri + offset, rp + offset)
     })"

text \<open>The loop runs while the shift, \<open>code.len - 2\<close> at first, is not negative: \<open>code.len div 2\<close> times.\<close>

definition hw_rank_unchecked :: "'r wt_support_ops \<Rightarrow> ('a::len word, 'r, 'p) huff_qwt \<Rightarrow> 'a word \<Rightarrow> nat \<Rightarrow> nat option" where
  "hw_rank_unchecked R self symbol i = do {
     code \<leftarrow> idx (hw_codes_encode self) (unat (as_usize symbol));
     (shift, cur_i, cur_p) \<leftarrow> foldM (hw_rank_step R self (pc_content code))
       (int (unat (pc_len code)) - 2, i, 0) [0..<unat (pc_len code) div 2];
     chk_sub cur_i cur_p
   }"

text \<open>The guard of \<open>select\<close>, and with the position of \<open>rank\<close>: the symbol has no code.\<close>

definition hw_no_code :: "('a::len word, 'r, 'p) huff_qwt \<Rightarrow> 'a word \<Rightarrow> bool" where
  "hw_no_code self symbol = (case idx (hw_codes_encode self) (unat (as_usize symbol)) of
     None \<Rightarrow> True | Some code \<Rightarrow> pc_len code = 0)"

definition hw_rank :: "'r wt_support_ops \<Rightarrow> ('a::len word, 'r, 'p) huff_qwt \<Rightarrow> 'a word \<Rightarrow> nat \<Rightarrow> nat option option" where
  "hw_rank R self symbol i =
     (if i > hw_n self \<or> hw_no_code self symbol then Some None
      else do { r \<leftarrow> hw_rank_unchecked R self symbol i; Some (Some r) })"

text \<open>The estimates \<open>rank_prefetch\<close> walks through before it computes the rank.\<close>

definition hw_prefetch_superblock_step :: "'r wt_support_ops \<Rightarrow> 'p prefetch_ops \<Rightarrow> 'p list \<Rightarrow> ('a, 'r, 'p) huff_qwt \<Rightarrow> u32 \<Rightarrow>
    int \<times> nat \<times> nat \<Rightarrow> nat \<Rightarrow> (int \<times> nat \<times> nat) option" where
  "hw_prefetch_superblock_step R P supports self repr st level = (
     let (shift, range_start, range_end) = st
     in do {
       w \<leftarrow> shr_u32 repr (nat shift);
       let two_bits = unat (ucast w AND 3 :: u8);
       qv \<leftarrow> idx (hw_qvs self) level;
       offset \<leftarrow> w_occs_smaller_unchecked R qv two_bits;
       support \<leftarrow> idx supports level;
       rank_start \<leftarrow> p_approx_rank P support two_bits range_start;
       rank_end \<leftarrow> p_approx_rank P support two_bits range_end;
       guard (level + 1 < length (hw_qvs self));
       Some (shift - 2, rank_start + offset, rank_end + offset)
     })"

definition hw_rank_prefetch_superblocks_unchecked :: "'r wt_support_ops \<Rightarrow> 'p prefetch_ops option \<Rightarrow> ('a, 'r, 'p) huff_qwt \<Rightarrow>
    u32 \<Rightarrow> nat \<Rightarrow> nat \<Rightarrow> nat option" where
  "hw_rank_prefetch_superblocks_unchecked R pf self repr code_len i =
     (case pf of None \<Rightarrow> Some 0
      | Some P \<Rightarrow> (case hw_prefetch_support self of None \<Rightarrow> Some 0
        | Some supports \<Rightarrow> do {
            qv0 \<leftarrow> idx (hw_qvs self) 0;
            (shift, range_start, range_end) \<leftarrow> foldM (hw_prefetch_superblock_step R P supports self repr)
              (int code_len - 2, 0, i) [0..<code_len div 2 - 1];
            chk_sub range_end range_start
          }))"

definition hw_prefetch_block_step :: "'r wt_support_ops \<Rightarrow> ('a, 'r, 'p) huff_qwt \<Rightarrow> u32 \<Rightarrow> int \<times> nat \<times> nat \<Rightarrow> nat \<Rightarrow>
    (int \<times> nat \<times> nat) option" where
  "hw_prefetch_block_step R self repr st level = (
     let (shift, range_start, range_end) = st
     in do {
       w \<leftarrow> shr_u32 repr (nat shift);
       let two_bits = unat (ucast w AND 3 :: u8);
       qv \<leftarrow> idx (hw_qvs self) level;
       offset \<leftarrow> w_occs_smaller_unchecked R qv two_bits;
       rank_start \<leftarrow> w_rank_block_unchecked R qv two_bits range_start;
       rank_end \<leftarrow> w_rank_block_unchecked R qv two_bits range_end;
       guard (level + 1 < length (hw_qvs self));
       Some (shift - 2, rank_start + offset, rank_end + offset)
     })"

definition hw_rank_prefetch_unchecked :: "'r wt_support_ops \<Rightarrow> 'p prefetch_ops option \<Rightarrow> ('a::len word, 'r, 'p) huff_qwt \<Rightarrow>
    'a word \<Rightarrow> nat \<Rightarrow> nat option" where
  "hw_rank_prefetch_unchecked R pf self symbol i = do {
     code \<leftarrow> idx (hw_codes_encode self) (unat (as_usize symbol));
     _ \<leftarrow> hw_rank_prefetch_superblocks_unchecked R pf self (pc_content code) (unat (pc_len code)) i;
     qv0 \<leftarrow> idx (hw_qvs self) 0;
     _ \<leftarrow> foldM (hw_prefetch_block_step R self (pc_content code)) (int (unat (pc_len code)) - 2, 0, i)
       [0..<unat (pc_len code) div 2 - 1];
     hw_rank_unchecked R self symbol i
   }"

definition hw_rank_prefetch :: "'r wt_support_ops \<Rightarrow> 'p prefetch_ops option \<Rightarrow> ('a::len word, 'r, 'p) huff_qwt \<Rightarrow>
    'a word \<Rightarrow> nat \<Rightarrow> nat option option" where
  "hw_rank_prefetch R pf self symbol i =
     (if i > hw_n self \<or> hw_no_code self symbol then Some None
      else do { r \<leftarrow> hw_rank_prefetch_unchecked R pf self symbol i; Some (Some r) })"

section \<open>Select\<close>

fun hw_select_down :: "'r wt_support_ops \<Rightarrow> ('a, 'r, 'p) huff_qwt \<Rightarrow> u32 \<Rightarrow> nat list \<Rightarrow> int \<Rightarrow> nat \<Rightarrow>
    nat list \<Rightarrow> nat list \<Rightarrow> (nat list \<times> nat list) option option" where
  "hw_select_down R self repr [] shift b path_off rank_path_off = Some (Some (path_off, rank_path_off))"
| "hw_select_down R self repr (level # levels) shift b path_off rank_path_off = do {
     guard (level < length path_off);
     two_bits \<leftarrow> two_bits_u32 repr shift;
     qv \<leftarrow> idx (hw_qvs self) level;
     qbind (w_rank R qv two_bits b) (\<lambda>rank_b. do {
       offset \<leftarrow> w_occs_smaller_unchecked R qv two_bits;
       guard (level < length rank_path_off);
       hw_select_down R self repr levels (shift - 2) (rank_b + offset) (path_off[level := b]) (rank_path_off[level := rank_b])
     })
   }"

fun hw_select_up :: "'r wt_support_ops \<Rightarrow> ('a, 'r, 'p) huff_qwt \<Rightarrow> u32 \<Rightarrow> nat list \<Rightarrow> int \<Rightarrow> nat list \<Rightarrow> nat list \<Rightarrow>
    nat \<Rightarrow> nat option option" where
  "hw_select_up R self repr [] shift path_off rank_path_off result = Some (Some result)"
| "hw_select_up R self repr (level # levels) shift path_off rank_path_off result = do {
     b \<leftarrow> idx path_off level;
     rank_b \<leftarrow> idx rank_path_off level;
     two_bits \<leftarrow> two_bits_u32 repr shift;
     qv \<leftarrow> idx (hw_qvs self) level;
     qbind (w_select R qv two_bits (rank_b + result)) (\<lambda>selected. do {
       result \<leftarrow> chk_sub selected b;
       hw_select_up R self repr levels (shift + 2) path_off rank_path_off result
     })
   }"

definition hw_select :: "'r wt_support_ops \<Rightarrow> ('a::len word, 'r, 'p) huff_qwt \<Rightarrow> 'a word \<Rightarrow> nat \<Rightarrow> nat option option" where
  "hw_select R self symbol i =
     (if hw_no_code self symbol then Some None
      else if hw_n_levels self > MAX_QUAD_LEVELS then Some None
      else do {
        code \<leftarrow> idx (hw_codes_encode self) (unat (as_usize symbol));
        let l = unat (pc_len code) div 2;
        qbind (hw_select_down R self (pc_content code) [0..<l] (int (unat (pc_len code)) - 2) 0
            (replicate MAX_QUAD_LEVELS 0) (replicate MAX_QUAD_LEVELS 0)) (\<lambda>(path_off, rank_path_off).
          hw_select_up R self (pc_content code) (rev [0..<l]) 0 path_off rank_path_off i)
      })"

definition hw_select_unchecked :: "'r wt_support_ops \<Rightarrow> ('a::len word, 'r, 'p) huff_qwt \<Rightarrow> 'a word \<Rightarrow> nat \<Rightarrow> nat option" where
  "hw_select_unchecked R self symbol i = do { r \<leftarrow> hw_select R self symbol i; r }"

section \<open>occs_range\<close>

record huff_occs_range_frame =
  hf_start :: nat
  hf_end :: nat
  hf_level :: nat
  hf_bit_path :: u32
  hf_bit_len :: nat

definition hw_occs_range_unchecked :: "nat \<Rightarrow> nat \<Rightarrow> huff_occs_range_frame list" where
  "hw_occs_range_unchecked s e =
     (if s = e then [] else [\<lparr>hf_start = s, hf_end = e, hf_level = 0, hf_bit_path = 0, hf_bit_len = 0\<rparr>])"

definition hw_occs_range :: "('a, 'r, 'p) huff_qwt \<Rightarrow> bound \<Rightarrow> bound \<Rightarrow> huff_occs_range_frame list option option" where
  "hw_occs_range self sb eb = do {
     s \<leftarrow> range_start sb;
     e \<leftarrow> range_end (hw_n self) eb;
     if e > hw_n self \<or> s > e then Some None
     else Some (Some (hw_occs_range_unchecked s e))
   }"

definition hw_occs_push :: "'r wt_support_ops \<Rightarrow> 'r \<Rightarrow> huff_occs_range_frame \<Rightarrow> huff_occs_range_frame list \<Rightarrow> nat \<Rightarrow>
    huff_occs_range_frame list option" where
  "hw_occs_push R qv cur stack b = do {
     lo \<leftarrow> w_rank_unchecked R qv b (hf_start cur);
     hi \<leftarrow> w_rank_unchecked R qv b (hf_end cur);
     if hi = lo then Some stack
     else do {
       offset \<leftarrow> w_occs_smaller_unchecked R qv b;
       Some (\<lparr>hf_start = offset + lo, hf_end = offset + hi, hf_level = hf_level cur + 1,
         hf_bit_path = push_bit 2 (hf_bit_path cur) OR of_nat b, hf_bit_len = hf_bit_len cur + 2\<rparr> # stack)
     }
   }"

partial_function (option) hw_occs_next :: "'r wt_support_ops \<Rightarrow> ('a, 'r, 'p) huff_qwt \<Rightarrow> huff_occs_range_frame list \<Rightarrow>
    (('a \<times> nat) option \<times> huff_occs_range_frame list) option" where
  "hw_occs_next R tree stack =
     (case stack of
        [] \<Rightarrow> Some (None, [])
      | cur # rest \<Rightarrow> do {
          leaves \<leftarrow> idx (hw_codes_decode tree) (hf_bit_len cur);
          case search_code (hf_bit_path cur) leaves of
            Some index \<Rightarrow> do {
              leaf \<leftarrow> idx leaves index;
              d \<leftarrow> chk_sub (hf_end cur) (hf_start cur);
              Some (Some (snd leaf, d), rest)
            }
          | None \<Rightarrow> do {
              qv \<leftarrow> idx (hw_qvs tree) (hf_level cur);
              stack \<leftarrow> foldM (hw_occs_push R qv cur) rest (rev [0..<4]);
              hw_occs_next R tree stack
            }
        })"

end
