(* ===== verification/HuffCodes.thy ===== *)
theory HuffCodes
  imports HuffQWT BinWTCodes
begin

text \<open>
  The codes of the compressed quad wavelet tree: limiting the lengths keeps the code within 32 bits, and
  \<open>craft4_wm_codes\<close> assigns codes of the lengths it is given, in the order the code matrix needs.
\<close>

unbundle bit_operations_syntax

section \<open>Splitting the open nodes in four\<close>

lemma block_index:
  fixes j m :: nat
  assumes "j \<le> r" "r < m" "j \<le> r'" "r' < m" "(m - j) * q + r = (m - j) * q' + r'"
  shows "q = q'" "r = r'"
proof -
  have "(m - j) * q + (r - j) = (m - j) * q' + (r' - j)" using assms by linarith
  moreover have "((m - j) * x + (y - j)) div (m - j) = x" if "j \<le> y" "y < m" for x y
    using that by (subst div_mult_self4) simp_all
  ultimately show "q = q'" using assms(1-4) by metis
  then show "r = r'" using assms(5) by simp
qed

lemma craft4_split_eq:
  assumes r: "j \<le> r" "r < m" and l: "l < 32" and c: "4 * m - 3 * j \<le> length c"
  shows "craft4_split j m l c r = Some (c[(m - j) * 3 + r := c ! r, (m - j) * 2 + r := c ! r OR push_bit l 1,
    (m - j) * 1 + r := c ! r OR push_bit l 2, r := c ! r OR push_bit l 3])"
proof -
  have ne: "(m - j) * 3 + r \<noteq> r" "(m - j) * 2 + r \<noteq> r" "(m - j) * 1 + r \<noteq> r" using r by simp_all
  have len: "(m - j) * 3 + r < length c" "(m - j) * 2 + r < length c" "(m - j) * 1 + r < length c" "r < length c"
    using r c by linarith+
  show ?thesis using ne len r l by (simp add: craft4_split_def shl_u32_def idx_def Let_def)
qed

lemma craft4_split_nth:
  fixes c :: "u32 list" and l :: nat
  assumes r: "j \<le> r" "r < m" and c: "4 * m - 3 * j \<le> length c"
  defines "c' \<equiv> c[(m - j) * 3 + r := c ! r, (m - j) * 2 + r := c ! r OR push_bit l 1,
    (m - j) * 1 + r := c ! r OR push_bit l 2, r := c ! r OR push_bit l (3 :: u32)]"
  shows "q < 4 \<Longrightarrow> c' ! ((m - j) * q + r) = c ! r OR push_bit l (of_nat (3 - q))"
    "j \<le> r' \<Longrightarrow> r' < m \<Longrightarrow> r' \<noteq> r \<Longrightarrow> c' ! ((m - j) * q + r') = c ! ((m - j) * q + r')"
    "r' < j \<Longrightarrow> c' ! r' = c ! r'"
proof -
  have len: "(m - j) * 3 + r < length c" "(m - j) * 2 + r < length c" "(m - j) * 1 + r < length c" "r < length c"
    using r c by linarith+
  have ne: "(m - j) * 3 + r \<noteq> r" "(m - j) * 2 + r \<noteq> r" "(m - j) * 1 + r \<noteq> r" "(m - j) * 2 + r \<noteq> (m - j) * 3 + r"
    "(m - j) * 1 + r \<noteq> (m - j) * 3 + r" "(m - j) * 1 + r \<noteq> (m - j) * 2 + r" using r by simp_all
  show "c' ! ((m - j) * q + r) = c ! r OR push_bit l (of_nat (3 - q))" if "q < 4"
  proof -
    consider "q = 0" | "q = 1" | "q = 2" | "q = 3" using \<open>q < 4\<close> by linarith
    then show ?thesis using len ne by cases (simp_all add: c'_def)
  qed
  show "c' ! ((m - j) * q + r') = c ! ((m - j) * q + r')" if "j \<le> r'" "r' < m" "r' \<noteq> r"
  proof -
    have "(m - j) * q + r' \<noteq> (m - j) * p + r" for p using block_index(2) [OF that(1,2) r] that(3) by blast
    from this [of 0] this [of 1] this [of 2] this [of 3] show ?thesis by (simp add: c'_def)
  qed
  show "c' ! r' = c ! r'" if "r' < j" using that r by (simp add: c'_def)
qed

lemma craft4_split_loop:
  assumes "j \<le> m" "l < 32" "4 * m - 3 * j \<le> length c"
  shows "\<exists>c'. foldM (craft4_split j m l) c [j..<m] = Some c' \<and> length c' = length c \<and> (\<forall>r<j. c' ! r = c ! r)
    \<and> (\<forall>r q. j \<le> r \<and> r < m \<and> q < 4 \<longrightarrow> c' ! ((m - j) * q + r) = c ! r OR push_bit l (of_nat (3 - q)))"
proof -
  let ?Inv = "\<lambda>k d. length d = length c \<and> (\<forall>r<j. d ! r = c ! r) \<and> (\<forall>r. k \<le> r \<and> r < m \<longrightarrow> d ! r = c ! r)
    \<and> (\<forall>r q. j \<le> r \<and> r < k \<and> q < 4 \<longrightarrow> d ! ((m - j) * q + r) = c ! r OR push_bit l (of_nat (3 - q)))"
  have "\<exists>d'. craft4_split j m l d k = Some d' \<and> ?Inv (Suc k) d'" if k: "j \<le> k" "k < m" and inv: "?Inv k d" for k d
  proof -
    have len: "4 * m - 3 * j \<le> length d" using inv assms(3) by simp
    have dk: "d ! k = c ! k" using inv k by simp
    let ?d' = "d[(m - j) * 3 + k := d ! k, (m - j) * 2 + k := d ! k OR push_bit l 1,
      (m - j) * 1 + k := d ! k OR push_bit l 2, k := d ! k OR push_bit l 3]"
    note nth = craft4_split_nth [OF k len, of _ l]
    have "?Inv (Suc k) ?d'"
    proof (intro conjI allI impI)
      fix r assume "r < j"
      then show "?d' ! r = c ! r" using nth(3) inv by simp
    next
      fix r assume r: "Suc k \<le> r \<and> r < m"
      then show "?d' ! r = c ! r" using nth(2) [of r 0] inv k by simp
    next
      fix r q assume r: "j \<le> r \<and> r < Suc k \<and> q < (4 :: nat)"
      show "?d' ! ((m - j) * q + r) = c ! r OR push_bit l (of_nat (3 - q))"
      proof (cases "r = k")
        case True
        then show ?thesis using nth(1) [of q] r dk by simp
      next
        case False
        then have "?d' ! ((m - j) * q + r) = d ! ((m - j) * q + r)" using nth(2) [of r q] r k by simp
        then show ?thesis using inv r False by simp
      qed
    qed (use inv in simp)
    then show ?thesis using craft4_split_eq [OF k assms(2) len] by blast
  qed
  then have "\<exists>s'. foldM (craft4_split j m l) c [j..<m] = Some s' \<and> ?Inv m s'"
    by (rule foldM_from_inv [where Inv = ?Inv, OF assms(1), rotated]) auto
  then show ?thesis by blast
qed

lemma unat_or_digit:
  assumes w: "unat (w :: u32) < 2 ^ l" and d: "d * 2 ^ l < 2 ^ 32"
  shows "unat (w OR push_bit l (of_nat d)) = unat w + d * 2 ^ l"
proof -
  have p: "push_bit l (of_nat d) = (of_nat (d * 2 ^ l) :: u32)" by (simp add: push_bit_eq_mult)
  have u: "unat (push_bit l (of_nat d) :: u32) = d * 2 ^ l" unfolding p using d by (intro unat_of_nat_small) simp
  have "\<not> bit (unat w) n \<or> \<not> bit (d * 2 ^ l) n" for n
  proof (cases "n < l")
    case True
    then show ?thesis by (simp add: bit_push_bit_iff flip: push_bit_eq_mult)
  next
    case False
    then have "(2 :: nat) ^ l \<le> 2 ^ n" by (intro power_increasing) simp_all
    then have "unat w < 2 ^ n" using w by linarith
    then show ?thesis by (simp add: bit_iff_odd)
  qed
  then have "unat w + d * 2 ^ l = unat w OR (d * 2 ^ l)" by (rule disjunctive_add)
  then show ?thesis unfolding unsigned_or_eq u by simp
qed

text \<open>Reversing the digits of a code.\<close>

lemma craft4_reverse_loop:
  assumes "l \<le> 32" "even l"
  shows "\<exists>w. foldM (craft4_reverse cj l) 0 [0..<div_ceil l 2] = Some w
    \<and> (\<forall>p. bit w p \<longleftrightarrow> p < l \<and> bit cj (l - 2 - 2 * (p div 2) + p mod 2))"
proof -
  let ?s = "\<lambda>p. l - 2 - 2 * (p div 2) + p mod 2"
  let ?Inv = "\<lambda>k w. \<forall>p. bit w p \<longleftrightarrow> l - 2 * k \<le> p \<and> p < l \<and> bit cj (?s p)"
  have dc: "div_ceil l 2 = l div 2" using assms(2) by (simp add: div_ceil_def even_iff_mod_2_eq_zero)
  have "\<exists>w'. craft4_reverse cj l w k = Some w' \<and> ?Inv (Suc k) w'" if k: "k < l div 2" and inv: "?Inv k w" for k w
  proof -
    let ?n = "l - (2 * k + 2)"
    let ?b = "push_bit ?n (drop_bit (2 * k) cj AND 3)"
    have kl: "2 * k + 2 \<le> l" using k by linarith
    have three: "bit (3 :: u32) i \<longleftrightarrow> i < 2" for i
    proof -
      have "bit (mask 2 :: u32) i \<longleftrightarrow> i < 2" by (auto simp: bit_mask_iff)
      then show ?thesis by (simp add: mask_eq_exp_minus_1)
    qed
    have b: "bit ?b p \<longleftrightarrow> p < l \<and> ?n \<le> p \<and> p < ?n + 2 \<and> bit cj (2 * k + (p - ?n))" for p
    proof -
      have "bit ?b p \<longleftrightarrow> ?n \<le> p \<and> p < 32 \<and> bit cj (2 * k + (p - ?n)) \<and> p - ?n < 2"
        unfolding bit_push_bit_iff bit_and_iff bit_drop_bit_eq three o_apply by auto
      then show ?thesis using kl assms(1) by auto
    qed
    have "?Inv (Suc k) (w OR ?b)"
    proof
      fix p
      have "bit ?b p \<longleftrightarrow> p < l \<and> ?n \<le> p \<and> p < ?n + 2 \<and> bit cj (?s p)"
      proof (cases "?n \<le> p \<and> p < ?n + 2")
        case True
        have "\<exists>h. l = 2 * (h + k + 1)" using kl assms(2) by presburger
        then obtain h where h: "l = 2 * (h + k + 1)" by blast
        have "p = 2 * h \<or> p = 2 * h + 1" using True h by auto
        then have "?s p = 2 * k + (p - ?n)" using h by auto
        then show ?thesis unfolding b by simp
      next
        case False
        then show ?thesis unfolding b by blast
      qed
      moreover have "l - 2 * Suc k \<le> p \<longleftrightarrow> l - 2 * k \<le> p \<or> (?n \<le> p \<and> p < ?n + 2)" using kl by arith
      ultimately show "bit (w OR ?b) p \<longleftrightarrow> l - 2 * Suc k \<le> p \<and> p < l \<and> bit cj (?s p)"
        using inv [rule_format, of p] by (auto simp: bit_or_iff)
    qed
    moreover have "craft4_reverse cj l w k = Some (w OR ?b)"
      using kl assms by (simp add: craft4_reverse_def shr_u32_def shl_u32_def Let_def)
    ultimately show ?thesis by blast
  qed
  then have "\<exists>w. foldM (craft4_reverse cj l) 0 [0..<l div 2] = Some w \<and> ?Inv (l div 2) w"
    by (rule foldM_upt_inv [where Inv = ?Inv, rotated]) simp_all
  then show ?thesis using assms(2) unfolding dc by auto
qed

section \<open>The open nodes\<close>

text \<open>
  As for two digits: the entries below \<open>j\<close> are the assigned codes and those from \<open>j\<close> to \<open>m\<close> the open nodes
  of level \<open>l\<close>, in decreasing order. Together they fill the code space.
\<close>

definition li_slots :: "len_info list \<Rightarrow> nat \<Rightarrow> nat" where
  "li_slots f i = 2 ^ (32 - li_len (f ! i))"

definition craft4_open :: "len_info list \<Rightarrow> nat \<Rightarrow> nat \<Rightarrow> nat \<Rightarrow> u32 list \<Rightarrow> bool" where
  "craft4_open f j m l c \<longleftrightarrow> j \<le> m \<and> m \<le> length c \<and> length c = 4 * length f \<and> l \<le> 32 \<and> even l
     \<and> (m - j) * 2 ^ (32 - l) + (\<Sum>i<j. li_slots f i) = 2 ^ 32
     \<and> (\<forall>i. j \<le> i \<and> i < m \<longrightarrow> unat (c ! i) < 2 ^ l)
     \<and> (\<forall>i k. j \<le> i \<and> i < k \<and> k < m \<longrightarrow> unat (c ! k) < unat (c ! i))
     \<and> (\<forall>i k. i < j \<and> i < k \<and> k < m \<longrightarrow> unat (c ! k) mod 2 ^ li_len (f ! i) < unat (c ! i))
     \<and> (\<forall>i<j. unat (c ! i) < 2 ^ li_len (f ! i) \<and> li_len (f ! i) \<le> l)"

lemma craft4_openD:
  assumes "craft4_open f j m l c"
  shows "j \<le> m" "m \<le> length c" "length c = 4 * length f" "l \<le> 32" "even l"
    "(m - j) * 2 ^ (32 - l) + (\<Sum>i<j. li_slots f i) = 2 ^ 32"
    "j \<le> i \<Longrightarrow> i < m \<Longrightarrow> unat (c ! i) < 2 ^ l"
    "j \<le> i \<Longrightarrow> i < k \<Longrightarrow> k < m \<Longrightarrow> unat (c ! k) < unat (c ! i)"
    "i < j \<Longrightarrow> i < k \<Longrightarrow> k < m \<Longrightarrow> unat (c ! k) mod 2 ^ li_len (f ! i) < unat (c ! i)"
    "i < j \<Longrightarrow> unat (c ! i) < 2 ^ li_len (f ! i)" "i < j \<Longrightarrow> li_len (f ! i) \<le> l"
  using assms by (auto simp: craft4_open_def)

text \<open>
  What is needed of the lengths: even, at most 32, they fit the code space (Kraft), and above the
  deepest level there are never more open nodes than symbols left, as in the tree of an optimal code, where only the
  deepest level may have unused nodes.
\<close>

definition quad_code :: "len_info list \<Rightarrow> bool" where
  "quad_code ls \<longleftrightarrow> ls \<noteq> [] \<and> distinct (map li_symbol ls) \<and> (\<forall>x\<in>set ls. 0 < li_len x \<and> li_len x \<le> 32 \<and> even (li_len x))
     \<and> sum_list (map (\<lambda>x. 2 ^ (32 - li_len x)) ls) \<le> (2 :: nat) ^ 32
     \<and> (\<forall>l<32. even l \<and> (\<exists>x\<in>set ls. l < li_len x) \<longrightarrow>
          2 ^ 32 \<le> sum_list (map (\<lambda>x. 2 ^ (32 - li_len x)) (filter (\<lambda>x. li_len x \<le> l) ls)) + length (filter (\<lambda>x. l < li_len x) ls) * 2 ^ (32 - l))"

lemma quad_codeD:
  assumes "quad_code ls"
  shows "ls \<noteq> []" "distinct (map li_symbol ls)" "x \<in> set ls \<Longrightarrow> 0 < li_len x" "x \<in> set ls \<Longrightarrow> li_len x \<le> 32" "x \<in> set ls \<Longrightarrow> even (li_len x)"
    "sum_list (map (\<lambda>x. 2 ^ (32 - li_len x)) ls) \<le> (2 :: nat) ^ 32"
    "l < 32 \<Longrightarrow> even l \<Longrightarrow> x \<in> set ls \<Longrightarrow> l < li_len x \<Longrightarrow>
      2 ^ 32 \<le> sum_list (map (\<lambda>x. 2 ^ (32 - li_len x)) (filter (\<lambda>x. li_len x \<le> l) ls)) + length (filter (\<lambda>x. l < li_len x) ls) * 2 ^ (32 - l)"
  using assms unfolding quad_code_def by blast+

text \<open>The same of a sorted list, by index.\<close>

definition quad_lens :: "len_info list \<Rightarrow> bool" where
  "quad_lens f \<longleftrightarrow> (\<forall>i<length f. 0 < li_len (f ! i) \<and> li_len (f ! i) \<le> 32 \<and> even (li_len (f ! i)))
     \<and> (\<forall>i k. i \<le> k \<and> k < length f \<longrightarrow> li_len (f ! i) \<le> li_len (f ! k))
     \<and> (\<Sum>i<length f. li_slots f i) \<le> 2 ^ 32
     \<and> (\<forall>j l. j < length f \<and> even l \<and> l < li_len (f ! j) \<and> (\<forall>i<j. li_len (f ! i) \<le> l)
          \<longrightarrow> 2 ^ 32 \<le> (\<Sum>i<j. li_slots f i) + (length f - j) * 2 ^ (32 - l))"

lemma craft4_room:
  assumes "craft4_open f j m l c" "quad_lens f" "j < length f" "l < li_len (f ! j)"
  shows "m \<le> length f" "l < 32" "l + 2 \<le> li_len (f ! j)" "4 * m - 3 * j \<le> length c"
proof -
  note o = craft4_openD [OF assms(1)]
  have fj: "li_len (f ! j) \<le> 32" "even (li_len (f ! j))" using assms(2,3) by (auto simp: quad_lens_def)
  show l: "l < 32" using fj assms(4) by linarith
  show "l + 2 \<le> li_len (f ! j)" using fj(2) o(5) assms(4) by presburger
  have "2 ^ 32 \<le> (\<Sum>i<j. li_slots f i) + (length f - j) * 2 ^ (32 - l)"
    using assms(2-4) o(5,11) by (auto simp: quad_lens_def)
  then have "(m - j) * 2 ^ (32 - l) \<le> (length f - j) * 2 ^ (32 - l)" using o(6) by linarith
  then have "m - j \<le> length f - j" by simp
  then show m: "m \<le> length f" using o(1) assms(3) by linarith
  then show "4 * m - 3 * j \<le> length c" using o(3) by linarith
qed

lemma index_block:
  assumes "j \<le> i" "i < 4 * m - 3 * j" "j \<le> (m :: nat)"
  shows "\<exists>r q. j \<le> r \<and> r < m \<and> q < 4 \<and> i = (m - j) * q + r"
proof -
  have mj: "0 < m - j" using assms by linarith
  let ?q = "(i - j) div (m - j)" and ?r = "j + (i - j) mod (m - j)"
  have eq: "i = (m - j) * ?q + ?r" using assms(1) mult_div_mod_eq [of "m - j" "i - j"] by linarith
  have "i - j < 4 * (m - j)" using assms by linarith
  then have "?q < 4" by (simp add: mult.commute less_mult_imp_div_less)
  moreover have "(i - j) mod (m - j) < m - j" using mj by simp
  then have "?r < m" by linarith
  ultimately show ?thesis using eq by (metis le_add1)
qed

lemma block_less:
  fixes j m :: nat
  assumes "j \<le> r" "r < m" "j \<le> r'" "r' < m" "(m - j) * q + r < (m - j) * q' + r'"
  shows "q < q' \<or> q = q' \<and> r < r'"
proof (cases "q = q'")
  case False
  have "\<not> q' < q"
  proof
    assume "q' < q"
    then have "(m - j) * (q' + 1) \<le> (m - j) * q" by (intro mult_le_mono2) simp
    then have "(m - j) * q' + (m - j) \<le> (m - j) * q" by simp
    then show False using assms by linarith
  qed
  then show ?thesis using False by linarith
qed (use assms(5) in simp)

lemma craft4_grow_open:
  assumes o: "craft4_open f j (cs_m st) (cs_l st) (cs_c st)" and ok: "quad_lens f" and j: "j < length f" and l: "cs_l st < li_len (f ! j)"
  shows "\<exists>c'. craft4_grow j st u = Some (st\<lparr>cs_c := c', cs_m := 4 * cs_m st - 3 * j, cs_l := cs_l st + 2\<rparr>)
    \<and> craft4_open f j (4 * cs_m st - 3 * j) (cs_l st + 2) c' \<and> (\<forall>i<j. c' ! i = cs_c st ! i)"
proof -
  let ?c = "cs_c st" and ?m = "cs_m st" and ?l = "cs_l st"
  let ?m' = "4 * ?m - 3 * j"
  note od = craft4_openD [OF o] and room = craft4_room [OF o ok j l]
  have l32: "?l + 2 \<le> 32" using room(3) ok j by (auto simp: quad_lens_def)
  obtain c' where c': "foldM (craft4_split j ?m ?l) ?c [j..<?m] = Some c'" "length c' = length ?c" "\<forall>r<j. c' ! r = ?c ! r"
    "\<And>r q. j \<le> r \<Longrightarrow> r < ?m \<Longrightarrow> q < 4 \<Longrightarrow> c' ! ((?m - j) * q + r) = ?c ! r OR push_bit ?l (of_nat (3 - q))"
    using craft4_split_loop [OF od(1) room(2,4)] by blast
  have val: "unat (c' ! ((?m - j) * q + r)) = unat (?c ! r) + (3 - q) * 2 ^ ?l" if "j \<le> r" "r < ?m" "q < 4" for r q
  proof -
    have "(3 - q) * 2 ^ ?l < 4 * (2 :: nat) ^ ?l" by simp
    also have "\<dots> = 2 ^ (?l + 2)" by simp
    also have "\<dots> \<le> 2 ^ 32" using l32 by (intro power_increasing) simp_all
    finally show ?thesis using c'(4) [OF that] unat_or_digit [OF od(7) [OF that(1,2)], of "3 - q"] by simp
  qed
  have blk: "\<exists>r q. j \<le> r \<and> r < ?m \<and> q < 4 \<and> i = (?m - j) * q + r" if "j \<le> i" "i < ?m'" for i
    by (rule index_block [OF that od(1)])
  have "craft4_open f j ?m' (?l + 2) c'"
    unfolding craft4_open_def
  proof (intro conjI allI impI)
    have "32 - ?l = (32 - (?l + 2)) + 2" using l32 by simp
    then have "(2 :: nat) ^ (32 - ?l) = 4 * 2 ^ (32 - (?l + 2))" by (simp only: power_add) simp
    moreover have "?m' - j = 4 * (?m - j)" using od(1) by simp
    ultimately show "(?m' - j) * 2 ^ (32 - (?l + 2)) + (\<Sum>i<j. li_slots f i) = 2 ^ 32" using od(6) by simp
  next
    fix i assume i: "j \<le> i \<and> i < ?m'"
    then obtain r q where rq: "j \<le> r" "r < ?m" "q < 4" "i = (?m - j) * q + r" using blk by blast
    have "(3 - q) * 2 ^ ?l \<le> 3 * (2 :: nat) ^ ?l" by simp
    moreover have "(2 :: nat) ^ (?l + 2) = 4 * 2 ^ ?l" by simp
    ultimately show "unat (c' ! i) < 2 ^ (?l + 2)" using val [OF rq(1-3)] od(7) [OF rq(1,2)] unfolding rq(4) by linarith
  next
    fix i k assume ik: "j \<le> i \<and> i < k \<and> k < ?m'"
    then obtain r q where rq: "j \<le> r" "r < ?m" "q < 4" "i = (?m - j) * q + r" using blk by (meson less_trans)
    obtain r' q' where rq': "j \<le> r'" "r' < ?m" "q' < 4" "k = (?m - j) * q' + r'" using blk ik by (meson less_imp_le order_trans)
    from block_less [OF rq(1,2) rq'(1,2)] ik rq(4) rq'(4) have "q < q' \<or> q = q' \<and> r < r'" by blast
    then show "unat (c' ! k) < unat (c' ! i)"
    proof
      assume "q < q'"
      then have "((3 - q') + 1) * 2 ^ ?l \<le> (3 - q) * (2 :: nat) ^ ?l" using rq'(3) by (intro mult_le_mono1) simp
      then show ?thesis using val [OF rq(1-3)] val [OF rq'(1-3)] od(7) [OF rq'(1,2)] rq(4) rq'(4) by simp
    next
      assume "q = q' \<and> r < r'"
      then show ?thesis using val [OF rq(1-3)] val [OF rq'(1-3)] od(8) [of r r'] rq rq' by simp
    qed
  next
    fix i k assume ik: "i < j \<and> i < k \<and> k < ?m'"
    have old: "c' ! i = ?c ! i" "li_len (f ! i) \<le> ?l" using c'(3) od(11) ik by auto
    show "unat (c' ! k) mod 2 ^ li_len (f ! i) < unat (c' ! i)"
    proof (cases "k < j")
      case True
      then show ?thesis using c'(3) od(9) [of i k] ik od(1) old by simp
    next
      case False
      then obtain r q where rq: "j \<le> r" "r < ?m" "q < 4" "k = (?m - j) * q + r" using blk ik by (meson not_less)
      have "(unat (?c ! r) + (3 - q) * 2 ^ ?l) mod 2 ^ li_len (f ! i) = unat (?c ! r) mod 2 ^ li_len (f ! i)"
        using le_imp_power_dvd [OF old(2), of "2 :: nat"] by (simp add: mod_add_right_eq [symmetric, of _ "(3 - q) * 2 ^ ?l"])
      then show ?thesis using val [OF rq(1-3)] od(9) [of i r] ik rq old by simp
    qed
  next
    fix i assume "i < j"
    then show "unat (c' ! i) < 2 ^ li_len (f ! i)" "li_len (f ! i) \<le> ?l + 2" using c'(3) od(10,11) [of i] by simp_all
  qed (use od room l32 c'(2) in simp_all)
  then show ?thesis using c'(1,3) od(1) by (intro exI [of _ c']) (simp add: craft4_grow_def)
qed

section \<open>Assigning the codes\<close>

definition craft4_inv :: "len_info list \<Rightarrow> nat \<Rightarrow> nat \<Rightarrow> craft_state \<Rightarrow> bool" where
  "craft4_inv f sigma j st \<longleftrightarrow> craft4_open f j (cs_m st) (cs_l st) (cs_c st) \<and> (j < length f \<longrightarrow> cs_l st \<le> li_len (f ! j))
     \<and> length (cs_assignments st) = sigma + 1
     \<and> (\<forall>i<j. unat (pc_len (cs_assignments st ! li_symbol (f ! i))) = li_len (f ! i)
         \<and> (\<forall>p. bit (pc_content (cs_assignments st ! li_symbol (f ! i))) p
              \<longleftrightarrow> p < li_len (f ! i) \<and> bit (cs_c st ! i) (li_len (f ! i) - 2 - 2 * (p div 2) + p mod 2)))
     \<and> (\<forall>s. s \<le> sigma \<and> s \<notin> li_symbol ` set (take j f) \<longrightarrow> pc_len (cs_assignments st ! s) = 0)"

lemma craft4_grow_loop:
  assumes o: "craft4_open f j (cs_m st) (cs_l st) (cs_c st)" and ok: "quad_lens f" and j: "j < length f" and l: "cs_l st \<le> li_len (f ! j)"
  shows "\<exists>st'. foldM (craft4_grow j) st [0..<div_ceil (li_len (f ! j) - cs_l st) 2] = Some st'
    \<and> craft4_open f j (cs_m st') (li_len (f ! j)) (cs_c st') \<and> cs_l st' = li_len (f ! j)
    \<and> cs_assignments st' = cs_assignments st \<and> (\<forall>i<j. cs_c st' ! i = cs_c st ! i)"
proof -
  let ?n = "(li_len (f ! j) - cs_l st) div 2"
  have ev: "even (li_len (f ! j))" "even (cs_l st)" using ok j craft4_openD(5) [OF o] by (auto simp: quad_lens_def)
  have n: "cs_l st + 2 * ?n = li_len (f ! j)" using ev l by simp
  have dc: "div_ceil (li_len (f ! j) - cs_l st) 2 = ?n"
  proof -
    have "even (li_len (f ! j) - cs_l st)" using ev by simp
    then have "(li_len (f ! j) - cs_l st) mod 2 = 0" by presburger
    then show ?thesis by (simp add: div_ceil_def)
  qed
  let ?Inv = "\<lambda>k s. craft4_open f j (cs_m s) (cs_l s) (cs_c s) \<and> cs_l s = cs_l st + 2 * k
    \<and> cs_assignments s = cs_assignments st \<and> (\<forall>i<j. cs_c s ! i = cs_c st ! i)"
  have step: "\<exists>s'. craft4_grow j s k = Some s' \<and> ?Inv (Suc k) s'" if "k < ?n" "?Inv k s" for k s
  proof -
    have so: "craft4_open f j (cs_m s) (cs_l s) (cs_c s)" using that(2) by blast
    have sl: "cs_l s < li_len (f ! j)" using that n by linarith
    obtain c' where "craft4_grow j s k = Some (s\<lparr>cs_c := c', cs_m := 4 * cs_m s - 3 * j, cs_l := cs_l s + 2\<rparr>)"
      "craft4_open f j (4 * cs_m s - 3 * j) (cs_l s + 2) c'" "\<forall>i<j. c' ! i = cs_c s ! i"
      using craft4_grow_open [OF so ok j sl, of k] by blast
    then show ?thesis using that(2) by simp
  qed
  have "?Inv 0 st" using o by simp
  then have "\<exists>s'. foldM (craft4_grow j) st [0..<?n] = Some s' \<and> ?Inv ?n s'" by (rule foldM_upt_inv [where Inv = ?Inv]) (rule step)
  then show ?thesis unfolding dc n by metis
qed

lemma craft4_assign_open:
  assumes o: "craft4_open f j m (li_len (f ! j)) c" and ok: "quad_lens f" and j: "j < length f"
  shows "craft4_open f (Suc j) m (li_len (f ! j)) c" "j < m"
proof -
  note od = craft4_openD [OF o]
  let ?l = "li_len (f ! j)"
  have "(\<Sum>i<Suc j. li_slots f i) \<le> (\<Sum>i<length f. li_slots f i)" using j by (intro sum_mono2) auto
  then have le: "(\<Sum>i<j. li_slots f i) + 2 ^ (32 - ?l) \<le> 2 ^ 32" using ok by (simp add: quad_lens_def li_slots_def)
  show jm: "j < m"
  proof (rule ccontr)
    assume "\<not> j < m"
    then have "(m - j) * 2 ^ (32 - ?l) = 0" by simp
    moreover have "0 < (2 :: nat) ^ (32 - ?l)" by simp
    ultimately show False using od(6) le by linarith
  qed
  obtain d where d: "m - j = Suc d" using jm by (cases "m - j") auto
  then have "m - Suc j = d" by simp
  then have sum': "(m - Suc j) * 2 ^ (32 - ?l) + (\<Sum>i<Suc j. li_slots f i) = 2 ^ 32" using od(6) d by (simp add: li_slots_def)
  have pre: "unat (c ! k) mod 2 ^ li_len (f ! i) < unat (c ! i)" if "i < Suc j" "i < k" "k < m" for i k
  proof (cases "i = j")
    case True
    have "unat (c ! k) < unat (c ! j)" "unat (c ! k) < 2 ^ ?l" using od(8) [of j k] od(7) [of k] that True by simp_all
    then show ?thesis using True by simp
  qed (use od(9) [of i k] that in simp)
  have small: "unat (c ! i) < 2 ^ li_len (f ! i) \<and> li_len (f ! i) \<le> ?l" if "i < Suc j" for i
    using od(7) [of j] od(10,11) [of i] that jm by (cases "i = j") simp_all
  show "craft4_open f (Suc j) m ?l c"
    unfolding craft4_open_def using jm od(2,3,4,5) sum' od(7,8) pre small by (simp add: Suc_le_eq)
qed

lemma craft4_step_inv:
  assumes inv: "craft4_inv f sigma j st" and ok: "quad_lens f" and j: "j < length f"
    and syms: "distinct (map li_symbol f)" "\<forall>s\<in>li_symbol ` set f. s \<le> sigma"
  shows "\<exists>st'. craft4_step f st j = Some st' \<and> craft4_inv f sigma (Suc j) st'"
proof -
  let ?s = "li_symbol (f ! j)" and ?len = "li_len (f ! j)"
  have inv': "craft4_open f j (cs_m st) (cs_l st) (cs_c st)" "cs_l st \<le> ?len" using inv j by (simp_all add: craft4_inv_def)
  obtain st1 where st1: "foldM (craft4_grow j) st [0..<div_ceil (?len - cs_l st) 2] = Some st1" "craft4_open f j (cs_m st1) ?len (cs_c st1)"
    "cs_l st1 = ?len" "cs_assignments st1 = cs_assignments st" "\<forall>i<j. cs_c st1 ! i = cs_c st ! i"
    using craft4_grow_loop [OF inv'(1) ok j inv'(2)] by blast
  note asg = craft4_assign_open [OF st1(2) ok j]
  have len32: "?len \<le> 32" "even ?len" using ok j by (simp_all add: quad_lens_def)
  obtain w where w: "foldM (craft4_reverse (cs_c st1 ! j) ?len) 0 [0..<div_ceil ?len 2] = Some w"
    "\<forall>p. bit w p \<longleftrightarrow> p < ?len \<and> bit (cs_c st1 ! j) (?len - 2 - 2 * (p div 2) + p mod 2)"
    using craft4_reverse_loop [OF len32] by blast
  have cj: "idx (cs_c st1) j = Some (cs_c st1 ! j)" using craft4_openD(2) [OF st1(2)] asg(2) by simp
  have fj: "idx f j = Some (f ! j)" using j by simp
  have sl: "?s < length (cs_assignments st)" using syms(2) j inv by (auto simp: craft4_inv_def less_Suc_eq_le)
  have lenw: "unat (of_nat ?len :: u32) = ?len" using len32(1) by (intro unat_of_nat_small) simp
  let ?as = "(cs_assignments st)[?s := \<lparr>pc_content = w, pc_len = of_nat ?len\<rparr>]"
  have step: "craft4_step f st j = Some (st1\<lparr>cs_assignments := ?as\<rparr>)"
    using st1(1,3,4) w(1) cj sl fj by (simp add: craft4_step_def)
  have other: "li_symbol (f ! i) \<noteq> ?s" if "i < j" for i
  proof -
    have "map li_symbol f ! i \<noteq> map li_symbol f ! j" using syms(1) that j by (subst nth_eq_iff_index_eq) simp_all
    then show ?thesis using that j by simp
  qed
  have "craft4_inv f sigma (Suc j) (st1\<lparr>cs_assignments := ?as\<rparr>)"
    unfolding craft4_inv_def
  proof (intro conjI allI impI)
    show "craft4_open f (Suc j) (cs_m (st1\<lparr>cs_assignments := ?as\<rparr>)) (cs_l (st1\<lparr>cs_assignments := ?as\<rparr>)) (cs_c (st1\<lparr>cs_assignments := ?as\<rparr>))"
      using asg(1) st1(3) by simp
    show "cs_l (st1\<lparr>cs_assignments := ?as\<rparr>) \<le> li_len (f ! Suc j)" if "Suc j < length f"
      using ok that st1(3) by (simp add: quad_lens_def)
    show "length (cs_assignments (st1\<lparr>cs_assignments := ?as\<rparr>)) = sigma + 1" using inv by (simp add: craft4_inv_def)
  next
    fix i assume i: "i < Suc j"
    show "unat (pc_len (cs_assignments (st1\<lparr>cs_assignments := ?as\<rparr>) ! li_symbol (f ! i))) = li_len (f ! i)"
      using i inv other [of i] sl lenw by (cases "i = j") (simp_all add: craft4_inv_def)
    fix p
    show "bit (pc_content (cs_assignments (st1\<lparr>cs_assignments := ?as\<rparr>) ! li_symbol (f ! i))) p
        \<longleftrightarrow> p < li_len (f ! i) \<and> bit (cs_c (st1\<lparr>cs_assignments := ?as\<rparr>) ! i) (li_len (f ! i) - 2 - 2 * (p div 2) + p mod 2)"
      using i inv other [of i] sl w(2) st1(5) by (cases "i = j") (simp_all add: craft4_inv_def)
  next
    fix s assume s: "s \<le> sigma \<and> s \<notin> li_symbol ` set (take (Suc j) f)"
    then have "s \<noteq> ?s" "s \<notin> li_symbol ` set (take j f)" using j by (simp_all add: take_Suc_conv_app_nth)
    then show "pc_len (cs_assignments (st1\<lparr>cs_assignments := ?as\<rparr>) ! s) = 0" using inv s by (simp add: craft4_inv_def)
  qed
  then show ?thesis using step by blast
qed

section \<open>The codes\<close>

definition quad_width :: "prefix_code list \<Rightarrow> nat \<Rightarrow> nat" where
  "quad_width codes s = unat (pc_len (codes ! s)) div 2"

text \<open>Digit \<open>t\<close> of the code of \<open>s\<close>, the first the most significant one of the content.\<close>

definition quad_dg :: "prefix_code list \<Rightarrow> nat \<Rightarrow> nat \<Rightarrow> nat" where
  "quad_dg codes t s = (if t < quad_width codes s then unat (pc_content (codes ! s)) div 4 ^ (quad_width codes s - t - 1) mod 4 else 0)"

definition quad_codes :: "nat set \<Rightarrow> nat \<Rightarrow> prefix_code list \<Rightarrow> bool" where
  "quad_codes syms sigma codes \<longleftrightarrow> length codes = sigma + 1
     \<and> (\<forall>s. s \<le> sigma \<longrightarrow> (pc_len (codes ! s) \<noteq> 0 \<longleftrightarrow> s \<in> syms))
     \<and> (\<forall>s\<in>syms. s \<le> sigma \<and> unat (pc_len (codes ! s)) = 2 * quad_width codes s \<and> 0 < quad_width codes s \<and> quad_width codes s \<le> 16
          \<and> unat (pc_content (codes ! s)) < 4 ^ quad_width codes s)
     \<and> (\<forall>ss. set ss \<subseteq> syms \<longrightarrow> cm_ok (quad_dg codes) (quad_width codes) 4 ss)"

lemma quad_codesD:
  assumes "quad_codes syms sigma codes"
  shows "length codes = sigma + 1" "s \<le> sigma \<Longrightarrow> pc_len (codes ! s) \<noteq> 0 \<longleftrightarrow> s \<in> syms"
    "s \<in> syms \<Longrightarrow> s \<le> sigma" "s \<in> syms \<Longrightarrow> unat (pc_len (codes ! s)) = 2 * quad_width codes s"
    "s \<in> syms \<Longrightarrow> 0 < quad_width codes s" "s \<in> syms \<Longrightarrow> quad_width codes s \<le> 16"
    "s \<in> syms \<Longrightarrow> unat (pc_content (codes ! s)) < 4 ^ quad_width codes s"
    "set ss \<subseteq> syms \<Longrightarrow> cm_ok (quad_dg codes) (quad_width codes) 4 ss"
  using assms by (auto simp: quad_codes_def)

lemma cm_key_base4:
  assumes "\<And>t. t < m \<Longrightarrow> dg t x = v div 4 ^ t mod 4"
  shows "cm_key dg 4 m x = v mod 4 ^ m"
  using assms
proof (induction m)
  case (Suc m)
  have "v mod 4 ^ Suc m = 4 ^ m * (v div 4 ^ m mod 4) + v mod 4 ^ m"
    using mod_mult2_eq [of v "4 ^ m" 4] by (simp only: power_Suc2)
  then show ?case using Suc by simp
qed simp

lemma digit_bits:
  fixes w :: "'a::len word" and v :: "'b::len word"
  assumes "bit w a \<longleftrightarrow> bit v b" "bit w (a + 1) \<longleftrightarrow> bit v (b + 1)"
  shows "unat w div 2 ^ a mod 4 = unat v div 2 ^ b mod 4"
proof -
  have "take_bit 2 (drop_bit a (unat w)) = take_bit 2 (drop_bit b (unat v))"
  proof (rule bit_eqI)
    fix n
    show "bit (take_bit 2 (drop_bit a (unat w))) n = bit (take_bit 2 (drop_bit b (unat v))) n"
      using assms by (auto simp: bit_take_bit_iff bit_drop_bit_eq bit_unsigned_iff less_2_cases_iff add.commute)
  qed
  then show ?thesis by (simp add: take_bit_eq_mod drop_bit_eq_div)
qed

lemma craft4_inv_codes_ok:
  assumes inv: "craft4_inv f sigma (length f) st" and ok: "quad_lens f" and sigma: "\<forall>s\<in>li_symbol ` set f. s \<le> sigma"
  shows "quad_codes (li_symbol ` set f) sigma (cs_assignments st)"
proof -
  let ?codes = "cs_assignments st" and ?A = "length f" and ?c = "cs_c st" and ?L = "\<lambda>i. li_len (f ! i) div 2"
  have o: "craft4_open f ?A (cs_m st) (cs_l st) ?c" using inv by (simp add: craft4_inv_def)
  note od = craft4_openD [OF o]
  have len: "0 < ?L i" "?L i \<le> 16" "li_len (f ! i) = 2 * ?L i" if "i < ?A" for i
  proof -
    have "0 < li_len (f ! i)" "li_len (f ! i) \<le> 32" "even (li_len (f ! i))" using ok that by (simp_all add: quad_lens_def)
    then show "0 < ?L i" "?L i \<le> 16" "li_len (f ! i) = 2 * ?L i" by presburger+
  qed
  have pl: "unat (pc_len (?codes ! li_symbol (f ! i))) = li_len (f ! i)" if "i < ?A" for i
    using inv that by (simp add: craft4_inv_def)
  have w: "quad_width ?codes (li_symbol (f ! i)) = ?L i" if "i < ?A" for i
    using pl [OF that] by (simp add: quad_width_def)
  have bits: "bit (pc_content (?codes ! li_symbol (f ! i))) p \<longleftrightarrow> p < li_len (f ! i) \<and> bit (?c ! i) (li_len (f ! i) - 2 - 2 * (p div 2) + p mod 2)"
    if "i < ?A" for i p using inv that by (simp add: craft4_inv_def)
  have dg: "quad_dg ?codes t (li_symbol (f ! i)) = unat (?c ! i) div 4 ^ t mod 4" if it: "i < ?A" "t < ?L i" for i t
  proof -
    let ?p = "2 * (?L i - t - 1)"
    have lp: "?p + 1 < li_len (f ! i)" "li_len (f ! i) - 2 - ?p = 2 * t" using that(2) len(3) [OF that(1)] by linarith+
    have "bit (pc_content (?codes ! li_symbol (f ! i))) ?p \<longleftrightarrow> bit (?c ! i) (2 * t)"
      "bit (pc_content (?codes ! li_symbol (f ! i))) (?p + 1) \<longleftrightarrow> bit (?c ! i) (2 * t + 1)"
      unfolding bits [OF that(1)] using lp by simp_all
    from digit_bits [OF this] have "unat (pc_content (?codes ! li_symbol (f ! i))) div 4 ^ (?L i - t - 1) mod 4 = unat (?c ! i) div 4 ^ t mod 4"
      by (simp add: power_mult)
    then show ?thesis using it w by (simp add: quad_dg_def)
  qed
  have key: "cm_key (quad_dg ?codes) 4 n (li_symbol (f ! i)) = unat (?c ! i) mod 4 ^ n" if "i < ?A" "n \<le> ?L i" for i n
    by (rule cm_key_base4) (use dg that in simp)
  have pw: "(4 :: nat) ^ ?L i = 2 ^ li_len (f ! i)" if "i < ?A" for i
  proof -
    have "(2 :: nat) ^ li_len (f ! i) = 2 ^ (2 * ?L i)" by (rule arg_cong [OF len(3) [OF that]])
    then show ?thesis by (simp only: power_mult) simp
  qed
  have mem: "\<exists>i<?A. li_symbol (f ! i) = s" if "s \<in> li_symbol ` set f" for s using that by (metis imageE in_set_conv_nth)
  have le: "?L i \<le> ?L k" if "i \<le> k" "k < ?A" for i k using ok that by (simp add: quad_lens_def div_le_mono)
  have m: "?A \<le> cs_m st" by (rule od(1))
  have cm: "cm_ok (quad_dg ?codes) (quad_width ?codes) 4 ss" if ss: "set ss \<subseteq> li_symbol ` set f" for ss
  proof (rule cm_ok_of_values [where v = "\<lambda>i. unat (?c ! i)" and L = ?L and A = ?A and sy = "\<lambda>i. li_symbol (f ! i)"])
    show "\<exists>i<?A. li_symbol (f ! i) = x" if "x \<in> set ss" for x using mem ss that by blast
    show "unat (?c ! k) mod 4 ^ ?L i < unat (?c ! i)" if "i < k" "k < ?A" for i k
      using od(9) [of i k] pw [of i] that m by simp
    show "unat (?c ! i) < 4 ^ ?L i" if "i < ?A" for i using od(10) [of i] pw [OF that] that by simp
    show "quad_dg ?codes l x < 4" for l x by (simp add: quad_dg_def)
  qed (use w len(1,2) le key in simp_all)
  show ?thesis
    unfolding quad_codes_def
  proof (intro conjI allI impI ballI)
    show "length ?codes = sigma + 1" using inv by (simp add: craft4_inv_def)
  next
    fix s assume s: "s \<le> sigma"
    show "pc_len (?codes ! s) \<noteq> 0 \<longleftrightarrow> s \<in> li_symbol ` set f"
    proof (cases "s \<in> li_symbol ` set f")
      case True
      from mem [OF this] obtain i where i: "i < ?A" "li_symbol (f ! i) = s" by blast
      then have "unat (pc_len (?codes ! s)) \<noteq> 0" using pl [OF i(1)] len(1) [OF i(1)] by simp
      then show ?thesis using True by auto
    next
      case False
      then show ?thesis using inv s by (simp add: craft4_inv_def)
    qed
  next
    fix s assume s: "s \<in> li_symbol ` set f"
    show "s \<le> sigma" using sigma s by blast
    from mem [OF s] obtain i where i: "i < ?A" "li_symbol (f ! i) = s" by blast
    show "unat (pc_len (?codes ! s)) = 2 * quad_width ?codes s" "0 < quad_width ?codes s" "quad_width ?codes s \<le> 16"
      unfolding i(2) [symmetric] w [OF i(1)] pl [OF i(1)] by (rule len [OF i(1)])+
    have "unat (pc_content (?codes ! s)) < 2 ^ li_len (f ! i)"
      by (rule unat_less_of_bits) (use bits [OF i(1)] i(2) in simp)
    then show "unat (pc_content (?codes ! s)) < 4 ^ quad_width ?codes s" using w [OF i(1)] pw [OF i(1)] i(2) by simp
  qed (use cm in blast)
qed

text \<open>Sorting by length does not change what a code needs.\<close>

lemma quad_code_mset:
  assumes "mset f = mset ls" "quad_code ls"
  shows "quad_code f"
proof -
  have s: "set f = set ls" "length f = length ls" using assms(1) by (metis set_mset_mset) (metis assms(1) size_mset)
  have d: "distinct (map li_symbol f) = distinct (map li_symbol ls)" using assms(1) by (metis mset_map distinct_count_atmost_1 set_mset_mset)
  have sum: "sum_list (map g (filter P f)) = sum_list (map g (filter P ls))" for g :: "len_info \<Rightarrow> nat" and P
  proof -
    have "mset (map g (filter P f)) = mset (map g (filter P ls))" using assms(1) by simp
    then show ?thesis by (metis sum_mset_sum_list)
  qed
  have "length (filter P f) = length (filter P ls)" for P using assms(1) by (metis mset_filter size_mset)
  moreover have "f = [] \<longleftrightarrow> ls = []" using s(2) by auto
  moreover have "sum_list (map g f) = sum_list (map g ls)" for g :: "len_info \<Rightarrow> nat" using sum [of g "\<lambda>_. True"] by simp
  ultimately show ?thesis using assms(2) s d sum unfolding quad_code_def by simp
qed

lemma quad_code_lens:
  assumes c: "quad_code f" and srt: "sorted (map li_len f)"
  shows "quad_lens f"
  unfolding quad_lens_def
proof (intro conjI allI impI)
  fix i assume "i < length f"
  then have "f ! i \<in> set f" by simp
  then show "0 < li_len (f ! i)" "li_len (f ! i) \<le> 32" "even (li_len (f ! i))" using c by (auto simp: quad_code_def)
next
  fix i k assume "i \<le> k \<and> k < length f"
  then show "li_len (f ! i) \<le> li_len (f ! k)" using sorted_nth_mono [OF srt, of i k] by simp
next
  show "(\<Sum>i<length f. li_slots f i) \<le> 2 ^ 32"
    using c by (simp add: quad_code_def sum_list_sum_nth li_slots_def atLeast0LessThan)
next
  fix j l assume j: "j < length f \<and> even l \<and> l < li_len (f ! j) \<and> (\<forall>i<j. li_len (f ! i) \<le> l)"
  have above: "l < li_len x" if "x \<in> set (drop j f)" for x
  proof -
    from that obtain k where "k < length (drop j f)" "drop j f ! k = x" unfolding in_set_conv_nth by blast
    then have "x = f ! (j + k)" "j + k < length f" using j by simp_all
    then show ?thesis using sorted_nth_mono [OF srt, of j "j + k"] j by simp
  qed
  have below: "li_len x \<le> l" if "x \<in> set (take j f)" for x using that j by (auto simp: in_set_conv_nth)
  have "filter (\<lambda>x. li_len x \<le> l) (take j f @ drop j f) = take j f"
    unfolding filter_append using above below by (simp add: filter_id_conv filter_empty_conv not_le)
  then have "filter (\<lambda>x. li_len x \<le> l) f = take j f" by simp
  moreover have "filter (\<lambda>x. l < li_len x) (take j f @ drop j f) = drop j f"
    unfolding filter_append using above below by (simp add: filter_id_conv filter_empty_conv not_less)
  then have "filter (\<lambda>x. l < li_len x) f = drop j f" by simp
  moreover have "li_len (f ! j) \<le> 32" using c j by (simp add: quad_code_def)
  then have "l < 32" using j by linarith
  ultimately have "2 ^ 32 \<le> sum_list (map (\<lambda>x. 2 ^ (32 - li_len x)) (take j f)) + length (drop j f) * 2 ^ (32 - l)"
    using quad_codeD(7) [OF c, of l "f ! j"] j by simp
  moreover have "sum_list (map (\<lambda>x. 2 ^ (32 - li_len x)) (take j f)) = (\<Sum>i<j. li_slots f i)"
    using j by (simp add: sum_list_sum_nth li_slots_def atLeast0LessThan)
  ultimately show "2 ^ 32 \<le> (\<Sum>i<j. li_slots f i) + (length f - j) * 2 ^ (32 - l)" by (simp only: length_drop)
qed

section \<open>Limiting the lengths\<close>

lemma limit_code_lengths_id: "(\<And>x. x \<in> set ls \<Longrightarrow> li_len x \<le> 32) \<Longrightarrow> limit_code_lengths ls = Some ls"
  by (fastforce simp: limit_code_lengths_def not_less)

lemma widen_leaf_ok:
  assumes "len \<le> 32" "even len"
  shows "\<exists>len' occ'. widen_leaf len occ = Some (len', occ') \<and> len \<le> len' \<and> len' \<le> 32 \<and> even len'
    \<and> occ' + 2 ^ (32 - len) = occ + 2 ^ (32 - len') \<and> (occ' \<le> 2 ^ 32 \<or> len' = 32)"
  using assms
proof (induction len occ rule: widen_leaf.induct)
  case (1 len occ)
  show ?case
  proof (cases "occ > 2 ^ 32 \<and> len < 32")
    case True
    have l2: "len + 2 \<le> 32" "even (len + 2)" using 1(2,3) True by presburger+
    let ?n = "(2 :: nat) ^ (32 - (len + 2))"
    have "32 - len = (32 - (len + 2)) + 2" using l2 by simp
    then have old: "(2 :: nat) ^ (32 - len) = 4 * ?n" by (simp only: power_add) simp
    have "4 * ?n \<le> 2 ^ 32" unfolding old [symmetric] by (intro power_increasing) simp_all
    then have sub: "chk_sub occ (2 ^ (32 - len) - 2 ^ (32 - len) div 4) = Some (occ - 3 * ?n)" "3 * ?n \<le> occ"
      unfolding old using True by simp_all
    have w: "widen_leaf len occ = widen_leaf (len + 2) (occ - 3 * ?n)"
      using True sub(1) by (simp add: widen_leaf.simps [of len occ] MAX_DEPTH_SLOTS_def MAX_CODE_BITS_def)
    have "\<exists>len' occ'. widen_leaf (len + 2) (occ - 3 * ?n) = Some (len', occ') \<and> len + 2 \<le> len' \<and> len' \<le> 32 \<and> even len'
      \<and> occ' + ?n = occ - 3 * ?n + 2 ^ (32 - len') \<and> (occ' \<le> 2 ^ 32 \<or> len' = 32)"
      using True sub(1) l2 by (intro 1(1)) (simp_all add: MAX_DEPTH_SLOTS_def MAX_CODE_BITS_def)
    then obtain len' occ' where r: "widen_leaf (len + 2) (occ - 3 * ?n) = Some (len', occ')" "len + 2 \<le> len'" "len' \<le> 32" "even len'"
      "occ' + ?n = occ - 3 * ?n + 2 ^ (32 - len')" "occ' \<le> 2 ^ 32 \<or> len' = 32" by blast
    have "occ' + 2 ^ (32 - len) = occ + 2 ^ (32 - len')" unfolding old using r(5) sub(2) by linarith
    moreover have "len \<le> len'" using r(2) by linarith
    moreover have "widen_leaf len occ = Some (len', occ')" using w r(1) by simp
    ultimately show ?thesis using r(3,4,6) by (intro exI conjI)
  next
    case False
    then have "widen_leaf len occ = Some (len, occ)" 
      by (subst widen_leaf.simps) (auto simp: MAX_DEPTH_SLOTS_def MAX_CODE_BITS_def)
    then show ?thesis using False 1(2,3) by (intro exI [of _ len] exI [of _ occ]) auto
  qed
qed

text \<open>\<open>ls'\<close> is \<open>ls\<close> with some lengths increased.\<close>

definition widened :: "len_info list \<Rightarrow> len_info list \<Rightarrow> bool" where
  "widened ls ls' \<longleftrightarrow> list_all2 (\<lambda>x x'. li_len x \<le> li_len x' \<and> li_symbol x' = li_symbol x \<and> li_frequency x' = li_frequency x) ls ls'"

lemma widened_trans: "widened a b \<Longrightarrow> widened b c \<Longrightarrow> widened a c"
  unfolding widened_def by (erule (1) list_all2_trans [rotated]) auto

lemma widened_refl: "widened a a"
  unfolding widened_def by (rule list_all2_refl) simp

definition slots :: "len_info list \<Rightarrow> nat" where
  "slots ls = sum_list (map (\<lambda>x. 2 ^ (32 - li_len x)) ls)"

definition short_lens :: "len_info list \<Rightarrow> bool" where
  "short_lens ls \<longleftrightarrow> (\<forall>x\<in>set ls. li_len x \<le> 32 \<and> even (li_len x))"

lemma slots_update:
  assumes "i < length ls"
  shows "slots (ls[i := x]) + 2 ^ (32 - li_len (ls ! i)) = slots ls + 2 ^ (32 - li_len x)"
proof -
  let ?g = "\<lambda>x. (2 :: nat) ^ (32 - li_len x)"
  have "sum_list ((map ?g ls)[i := ?g x]) = sum_list (map ?g ls) + ?g x - map ?g ls ! i"
    using assms by (intro sum_list_update) simp
  moreover have "map ?g ls ! i \<le> sum_list (map ?g ls)" using assms by (intro elem_le_sum_list) simp
  ultimately show ?thesis using assms by (simp add: slots_def map_update)
qed

lemma widen_candidates_ok:
  assumes "occ = slots ls" "short_lens ls" "\<forall>i<length ls. li_len (ls ! i) < 32 \<longrightarrow> i \<in> set cand" "\<forall>i\<in>set cand. i < length ls"
  shows "\<exists>ls' occ'. widen_candidates cand ls occ = Some (ls', occ') \<and> widened ls ls' \<and> short_lens ls' \<and> occ' = slots ls'
    \<and> (occ' \<le> 2 ^ 32 \<or> (\<forall>x\<in>set ls'. li_len x = 32))"
  using assms
proof (induction cand arbitrary: ls occ)
  case Nil
  have "li_len x = 32" if x: "x \<in> set ls" for x
  proof -
    obtain k where "k < length ls" "ls ! k = x" using x unfolding in_set_conv_nth by blast
    then have "\<not> li_len x < 32" using Nil(3) by auto
    moreover have "li_len x \<le> 32" using Nil(2) x by (simp add: short_lens_def)
    ultimately show ?thesis by simp
  qed
  then show ?case using Nil widened_refl by (intro exI [of _ ls] exI [of _ occ]) simp
next
  case (Cons i cand)
  let ?x = "ls ! i"
  have i: "i < length ls" using Cons.prems(4) by simp
  have x: "li_len ?x \<le> 32" "even (li_len ?x)" using Cons.prems(2) i by (simp_all add: short_lens_def)
  from widen_leaf_ok [OF x, of occ] obtain len occ1 where w: "widen_leaf (li_len ?x) occ = Some (len, occ1)" "li_len ?x \<le> len" "len \<le> 32" "even len"
    "occ1 + 2 ^ (32 - li_len ?x) = occ + 2 ^ (32 - len)" "occ1 \<le> 2 ^ 32 \<or> len = 32" by blast
  let ?ls = "ls[i := ?x\<lparr>li_len := len\<rparr>]"
  have wd: "widened ls ?ls" unfolding widened_def using i w(2) by (auto simp: list_all2_conv_all_nth nth_list_update)
  have sh: "short_lens ?ls" using Cons.prems(2) w(3,4) set_update_subset_insert [of ls i] by (fastforce simp: short_lens_def)
  have occ1: "occ1 = slots ?ls" using slots_update [OF i, of "?x\<lparr>li_len := len\<rparr>"] w(5) Cons.prems(1) by simp
  show ?case
  proof (cases "occ1 \<le> 2 ^ 32")
    case True
    then have "widen_candidates (i # cand) ls occ = Some (?ls, occ1)" using i w(1) by (simp add: MAX_DEPTH_SLOTS_def MAX_CODE_BITS_def)
    then show ?thesis using wd sh occ1 True by (intro exI [of _ ?ls] exI [of _ occ1]) simp
  next
    case False
    then have len: "len = 32" using w(6) by simp
    have cand: "\<forall>k<length ?ls. li_len (?ls ! k) < 32 \<longrightarrow> k \<in> set cand" 
    proof (intro allI impI)
      fix k assume k: "k < length ?ls" "li_len (?ls ! k) < 32"
      then show "k \<in> set cand" using Cons.prems(3) [rule_format, of k] len i by (cases "k = i") simp_all
    qed
    have inr: "\<forall>k\<in>set cand. k < length ?ls" using Cons.prems(4) by simp
    from Cons.IH [OF occ1 sh cand inr] obtain ls' occ' where r: "widen_candidates cand ?ls occ1 = Some (ls', occ')" "widened ?ls ls'" "short_lens ls'"
      "occ' = slots ls'" "occ' \<le> 2 ^ 32 \<or> (\<forall>x\<in>set ls'. li_len x = 32)" by blast
    have "widen_candidates (i # cand) ls occ = Some (ls', occ')" using i w(1) False r(1) by (simp add: MAX_DEPTH_SLOTS_def MAX_CODE_BITS_def)
    then show ?thesis using widened_trans [OF wd r(2)] r(3-5) by blast
  qed
qed

text \<open>The limit of lengths that need one: the assertion at the end checks that the widened lengths fit the code space.\<close>

lemma limit_code_lengths_cases:
  assumes ev: "\<forall>x\<in>set ls. even (li_len x)" and long: "\<exists>x\<in>set ls. 32 < li_len x"
  shows "\<exists>f. limit_code_lengths ls = (if slots f \<le> 2 ^ 32 then Some f else None) \<and> short_lens f
    \<and> list_all2 (\<lambda>x x'. min (li_len x) 32 \<le> li_len x' \<and> li_symbol x' = li_symbol x \<and> li_frequency x' = li_frequency x) ls f
    \<and> (slots f \<le> 2 ^ 32 \<or> (\<forall>x\<in>set f. li_len x = 32))"
proof -
  let ?g = "map (\<lambda>x. x\<lparr>li_len := min (li_len x) 32\<rparr>) ls"
  let ?cand = "sort_key (\<lambda>index. let x = ?g ! index in (li_frequency x, li_len x, li_symbol x)) (filter (\<lambda>index. li_len (?g ! index) < 32) [0..<length ?g])"
  let ?R = "\<lambda>x x'. min (li_len x) 32 \<le> li_len x' \<and> li_symbol x' = li_symbol x \<and> li_frequency x' = li_frequency x"
  have sh: "short_lens ?g" using ev by (auto simp: short_lens_def min_def)
  have base: "list_all2 ?R ls ?g" by (simp add: list_all2_conv_all_nth)
  have wide: "list_all2 ?R ls f" if "widened ?g f" for f
    using that unfolding widened_def list_all2_map1 by (rule list_all2_mono) auto
  have slots: "sum_list (map (\<lambda>x. 2 ^ (MAX_CODE_BITS - li_len x)) ?g) = slots ?g" by (simp only: slots_def MAX_CODE_BITS_def)
  show ?thesis
  proof (cases "slots ?g \<le> 2 ^ 32")
    case True
    then have "limit_code_lengths ls = Some ?g"
      using long slots unfolding limit_code_lengths_def Let_def MAX_DEPTH_SLOTS_def by (simp add: MAX_CODE_BITS_def)
    then show ?thesis using sh True base by (intro exI [of _ ?g]) simp
  next
    case False
    have "\<forall>i<length ?g. li_len (?g ! i) < 32 \<longrightarrow> i \<in> set ?cand" "\<forall>i\<in>set ?cand. i < length ?g" by auto
    from widen_candidates_ok [OF refl sh this] obtain f occ where f: "widen_candidates ?cand ?g (slots ?g) = Some (f, occ)"
      "widened ?g f" "short_lens f" "occ = slots f" "occ \<le> 2 ^ 32 \<or> (\<forall>x\<in>set f. li_len x = 32)" by blast
    have "limit_code_lengths ls = (if slots f \<le> 2 ^ 32 then Some f else None)"
      using long slots False f(1,4) unfolding limit_code_lengths_def Let_def MAX_DEPTH_SLOTS_def by (simp add: MAX_CODE_BITS_def)
    then show ?thesis using f(3-5) wide [OF f(2)] by blast
  qed
qed

lemma length_le_slots: "length ls \<le> slots ls"
proof (induction ls)
  case (Cons x ls)
  have "(1 :: nat) \<le> 2 ^ (32 - li_len x)" by simp
  then show ?case using Cons unfolding slots_def list.map sum_list.Cons list.size(4) by linarith
qed (simp add: slots_def)

text \<open>It returns and fits the code space as soon as the symbols do, and panics when they do not.\<close>

lemma limit_code_lengths_ok:
  assumes n: "length ls \<le> 2 ^ 32" and ev: "\<forall>x\<in>set ls. even (li_len x)" and long: "\<exists>x\<in>set ls. 32 < li_len x"
  shows "\<exists>f. limit_code_lengths ls = Some f \<and> short_lens f \<and> slots f \<le> 2 ^ 32
    \<and> list_all2 (\<lambda>x x'. min (li_len x) 32 \<le> li_len x' \<and> li_symbol x' = li_symbol x \<and> li_frequency x' = li_frequency x) ls f"
proof -
  obtain f where f: "limit_code_lengths ls = (if slots f \<le> 2 ^ 32 then Some f else None)" "short_lens f"
    "list_all2 (\<lambda>x x'. min (li_len x) 32 \<le> li_len x' \<and> li_symbol x' = li_symbol x \<and> li_frequency x' = li_frequency x) ls f"
    "slots f \<le> 2 ^ 32 \<or> (\<forall>x\<in>set f. li_len x = 32)" using limit_code_lengths_cases [OF ev long] by blast
  have "slots f \<le> 2 ^ 32"
  proof (cases "\<forall>x\<in>set f. li_len x = 32")
    case True
    then have "map (\<lambda>x. (2 :: nat) ^ (32 - li_len x)) f = map (\<lambda>_. 1) f" by simp
    then have "slots f = length f" by (simp only: slots_def) (simp add: sum_list_triv)
    then show ?thesis using n list_all2_lengthD [OF f(3)] by simp
  qed (use f(4) in blast)
  then show ?thesis using f(1-3) by (intro exI [of _ f]) simp
qed

lemma limit_code_lengths_full:
  assumes n: "2 ^ 32 < length ls" and ev: "\<forall>x\<in>set ls. even (li_len x)" and long: "\<exists>x\<in>set ls. 32 < li_len x"
  shows "limit_code_lengths ls = None"
proof -
  obtain f where f: "limit_code_lengths ls = (if slots f \<le> 2 ^ 32 then Some f else None)" "length ls = length f"
    using limit_code_lengths_cases [OF ev long] list_all2_lengthD by blast
  have "\<not> slots f \<le> 2 ^ 32" using n f(2) length_le_slots [of f] by linarith
  then show ?thesis unfolding f(1) by (rule if_not_P)
qed

lemma widen_candidates_symbols:
  "widen_candidates cand ls occ = Some (ls', occ') \<Longrightarrow> map li_symbol ls' = map li_symbol ls"
proof (induction cand arbitrary: ls occ)
  case (Cons i cand)
  then obtain x len occ1 where x: "idx ls i = Some x" "widen_leaf (li_len x) occ = Some (len, occ1)"
    by (auto split: bind_splits prod.splits)
  have "map li_symbol (ls[i := x\<lparr>li_len := len\<rparr>]) = map li_symbol ls"
    using x(1) by (simp add: map_update idx_eq_Some_iff) (metis length_map list_update_id nth_map)
  then show ?case using Cons x by (auto simp: Let_def split: if_splits)
qed simp

lemma limit_code_lengths_symbols:
  assumes "limit_code_lengths ls = Some f"
  shows "map li_symbol f = map li_symbol ls"
proof -
  let ?g = "map (\<lambda>x. x\<lparr>li_len := min (li_len x) MAX_CODE_BITS\<rparr>) ls"
  have g: "map li_symbol ?g = map li_symbol ls" by simp
  consider "f = ls" | "f = ?g" | cand occ occ' where "widen_candidates cand ?g occ = Some (f, occ')"
    using assms by (auto simp: limit_code_lengths_def Let_def split: if_splits bind_splits)
  then show ?thesis
  proof cases
    case 3
    from widen_candidates_symbols [OF 3] g show ?thesis by simp
  qed simp_all
qed

lemma craft4_wm_codes_ok:
  assumes lim: "limit_code_lengths ls = Some f" and c: "quad_code f" and sigma: "\<forall>s\<in>li_symbol ` set f. s \<le> sigma"
    and small: "sigma + 1 < 2 ^ 60"
  shows "\<exists>codes. craft4_wm_codes ls sigma = Some codes \<and> quad_codes (li_symbol ` set f) sigma codes
    \<and> (\<forall>x\<in>set f. unat (pc_len (codes ! li_symbol x)) = li_len x)"
proof -
  let ?k = "\<lambda>x. (li_len x, - int (li_frequency x), li_symbol x)"
  let ?f = "sort_key ?k f"
  let ?A = "length ?f"
  have A: "length ls = ?A" using limit_code_lengths_symbols [OF lim] by (metis length_map length_sort)
  have cf: "quad_code ?f" by (rule quad_code_mset [OF _ c]) simp
  have "sorted (map ?k ?f)" by (rule sorted_sort_key)
  then have srt: "sorted (map li_len ?f)" by (auto simp: sorted_map intro: sorted_wrt_mono_rel [rotated])
  have ok: "quad_lens ?f" by (rule quad_code_lens [OF cf srt])
  have syms: "distinct (map li_symbol ?f)" "\<forall>s\<in>li_symbol ` set ?f. s \<le> sigma"
    using quad_codeD(2) [OF cf] sigma by simp_all
  let ?st = "\<lparr>cs_c = replicate (?A * 4) 0, cs_assignments = replicate (sigma + 1) \<lparr>pc_content = 0, pc_len = 0\<rparr>, cs_m = 1, cs_l = 0\<rparr>"
  have "0 < ?A" using quad_codeD(1) [OF cf] by blast
  then have "craft4_open ?f 0 1 0 (replicate (?A * 4) 0)" by (simp add: craft4_open_def Suc_le_eq)
  moreover have "pc_len (replicate (sigma + 1) \<lparr>pc_content = 0, pc_len = 0\<rparr> ! s) = 0" if "s \<le> sigma" for s
    using that by (subst nth_replicate) simp_all
  ultimately have init: "craft4_inv ?f sigma 0 ?st" by (simp add: craft4_inv_def del: replicate_Suc)
  have "\<exists>st. foldM (craft4_step ?f) ?st [0..<?A] = Some st \<and> craft4_inv ?f sigma ?A st"
    by (rule foldM_upt_inv [where Inv = "craft4_inv ?f sigma", OF init]) (rule craft4_step_inv [OF _ ok _ syms])
  then obtain st where st: "foldM (craft4_step ?f) ?st [0..<?A] = Some st" "craft4_inv ?f sigma ?A st" by blast
  have "quad_codes (li_symbol ` set ?f) sigma (cs_assignments st)" by (rule craft4_inv_codes_ok [OF st(2) ok syms(2)])
  then have "quad_codes (li_symbol ` set f) sigma (cs_assignments st)" by simp
  moreover have "craft4_wm_codes ls sigma = Some (cs_assignments st)" using st(1) lim A small by (simp add: craft4_wm_codes_def vec_of_def Let_def del: replicate_Suc)
  moreover have "unat (pc_len (cs_assignments st ! li_symbol x)) = li_len x" if "x \<in> set f" for x
  proof -
    have "x \<in> set ?f" using that by simp
    then obtain i where "i < ?A" "x = ?f ! i" unfolding in_set_conv_nth by blast
    then show ?thesis using st(2) unfolding craft4_inv_def by blast
  qed
  ultimately show ?thesis by blast
qed

lemma craft4_wm_codes_huge: "2 ^ 60 \<le> sigma + 1 \<Longrightarrow> craft4_wm_codes ls sigma = None"
  by (cases "limit_code_lengths ls") (simp_all add: craft4_wm_codes_def add_usize_def vec_of_def Let_def)

end
