(* ===== verification/HuffQWTCorrect.thy ===== *)
theory HuffQWTCorrect
  imports HuffCodes CodeTables Prefetch
begin

text \<open>
  The point queries of the compressed quad wavelet tree over levels that hold the digits of a code, in
  the contract \<open>wt_support\<close> of the quad vectors: down the levels a position follows \<open>cm_pos\<close>, and
  back up \<open>cm_up\<close>.
\<close>

unbundle bit_operations_syntax

section \<open>Digits of a code\<close>

definition quad_repr :: "(nat \<Rightarrow> 'a \<Rightarrow> nat) \<Rightarrow> ('a \<Rightarrow> nat) \<Rightarrow> 'a \<Rightarrow> prefix_code \<Rightarrow> bool" where
  "quad_repr dg len c code \<longleftrightarrow> unat (pc_len code) = 2 * len c \<and> len c \<le> 16
     \<and> (\<forall>l<len c. dg l c = unat (pc_content code) div 4 ^ (len c - l - 1) mod 4)"

lemma unat_and_3_u32: "unat (w AND 3 :: u32) = unat w mod 4"
proof -
  have "unat (w AND 3) = unat w AND mask 2"
    by (simp add: unsigned_and_eq mask_eq_exp_minus_1)
  then show ?thesis by (simp add: take_bit_eq_mask [symmetric] take_bit_eq_mod)
qed

text \<open>The prefetching walks cut the code to a byte before they take two bits.\<close>

lemma unat_ucast_and_3: "unat (ucast (w :: u32) AND 3 :: u8) = unat w mod 4"
proof -
  have "unat (ucast w AND 3 :: u8) = unat (ucast w :: u8) AND mask 2"
    by (simp add: unsigned_and_eq mask_eq_exp_minus_1)
  also have "\<dots> = take_bit 2 (unat (ucast w :: u8))" by (simp only: take_bit_eq_mask)
  also have "\<dots> = take_bit 2 (unat w)" by (simp add: unsigned_ucast_eq)
  finally show ?thesis by (simp add: take_bit_eq_mod)
qed

text \<open>The shift at level \<open>l\<close>, of the code as the loops keep it.\<close>

definition quad_shift :: "nat \<Rightarrow> nat \<Rightarrow> int" where
  "quad_shift n l = int (2 * n) - 2 - 2 * int l"

lemma quad_shift_simps [simp]:
  "quad_shift n 0 = int (2 * n) - 2" "quad_shift n l - 2 = quad_shift n (Suc l)"
  by (simp_all add: quad_shift_def)

lemma two_bits_u32_eq:
  assumes "quad_repr dg len c code" "l < len c"
  shows "two_bits_u32 (pc_content code) (quad_shift (len c) l) = Some (dg l c)"
proof -
  have n: "nat (quad_shift (len c) l) = 2 * (len c - l - 1)" using assms(2) by (simp add: quad_shift_def)
  have "len c \<le> 16" using assms(1) by (simp add: quad_repr_def)
  then have "2 * (len c - l - 1) < 32" using assms(2) by linarith
  moreover have "unat (drop_bit (2 * (len c - l - 1)) (pc_content code) AND 3) = unat (pc_content code) div 4 ^ (len c - l - 1) mod 4"
    unfolding unat_and_3_u32 unat_drop_bit_eq by (simp add: drop_bit_eq_div power_mult)
  ultimately show ?thesis using assms by (simp add: two_bits_u32_def n shr_u32_def quad_repr_def)
qed

lemma two_bits_u32_byte:
  assumes "quad_repr dg len c code" "l < len c"
  shows "shr_u32 (pc_content code) (nat (quad_shift (len c) l)) = Some (drop_bit (2 * (len c - l - 1)) (pc_content code))"
    "unat (ucast (drop_bit (2 * (len c - l - 1)) (pc_content code)) AND 3 :: u8) = dg l c"
proof -
  have n: "nat (quad_shift (len c) l) = 2 * (len c - l - 1)" using assms(2) by (simp add: quad_shift_def)
  have "len c \<le> 16" using assms(1) by (simp add: quad_repr_def)
  then have "2 * (len c - l - 1) < 32" using assms(2) by linarith
  then show "shr_u32 (pc_content code) (nat (quad_shift (len c) l)) = Some (drop_bit (2 * (len c - l - 1)) (pc_content code))"
    unfolding n by (simp add: shr_u32_def)
  show "unat (ucast (drop_bit (2 * (len c - l - 1)) (pc_content code)) AND 3 :: u8) = dg l c"
    unfolding unat_ucast_and_3 unat_drop_bit_eq using assms by (simp add: drop_bit_eq_div power_mult quad_repr_def)
qed

lemma push_quad: "d < 4 \<Longrightarrow> push_bit 2 (of_nat v) OR of_nat d = (of_nat (4 * v + d) :: 'a::len word)"
proof -
  assume d: "d < 4"
  have "push_bit 2 v OR d = push_bit 2 v + d"
  proof (rule disjunctive_add [symmetric])
    fix n
    have "bit d n \<Longrightarrow> n < 2" using d by (metis bit_take_bit_iff take_bit_nat_eq_self_iff power2_eq_square numeral_Bit0 mult_2 numeral_One)
    then show "\<not> bit (push_bit 2 v) n \<or> \<not> bit d n" by (auto simp: bit_push_bit_iff)
  qed
  then have "of_nat (push_bit 2 v OR d) = (of_nat (4 * v + d) :: 'a word)" by (simp add: push_bit_eq_mult)
  moreover have "of_nat (push_bit 2 v OR d) = push_bit 2 (of_nat v) OR (of_nat d :: 'a word)"
    by (simp add: of_nat_or_eq push_bit_of_nat)
  ultimately show ?thesis by simp
qed

section \<open>Trees whose levels hold the digits of a code\<close>

definition hw_levels_ok :: "('r \<Rightarrow> nat list \<Rightarrow> bool) \<Rightarrow> (nat \<Rightarrow> 'a::len word \<Rightarrow> nat) \<Rightarrow> ('a word \<Rightarrow> nat) \<Rightarrow> 'a word list \<Rightarrow>
    ('a word, 'r, 'p) huff_qwt \<Rightarrow> bool" where
  "hw_levels_ok rep dg len xs t \<longleftrightarrow> cm_ok dg len 4 xs \<and> hw_n t = length xs \<and> hw_n_levels t \<le> 16
     \<and> length (hw_qvs t) = hw_n_levels t
     \<and> hw_lens t = map (\<lambda>l. length (cm_level dg len 4 xs l)) [0..<hw_n_levels t]
     \<and> (\<forall>l<hw_n_levels t. rep (hw_qvs t ! l) (cm_digits dg len 4 xs l))
     \<and> (\<forall>x\<in>set xs. len x \<le> hw_n_levels t)"

lemma hw_levels_okD:
  assumes "hw_levels_ok rep dg len xs t"
  shows "cm_ok dg len 4 xs" "hw_n t = length xs" "hw_n_levels t \<le> 16" "length (hw_qvs t) = hw_n_levels t"
    "x \<in> set xs \<Longrightarrow> len x \<le> hw_n_levels t" "length (hw_lens t) = hw_n_levels t"
    "l < hw_n_levels t \<Longrightarrow> idx (hw_qvs t) l = Some (hw_qvs t ! l)"
    "l < hw_n_levels t \<Longrightarrow> rep (hw_qvs t ! l) (cm_digits dg len 4 xs l)"
    "l < hw_n_levels t \<Longrightarrow> idx (hw_lens t) l = Some (length (cm_level dg len 4 xs l))"
    "l < hw_n_levels t \<Longrightarrow> hw_lens t ! l = length (cm_level dg len 4 xs l)"
  using assms by (auto simp: hw_levels_ok_def)

text \<open>What the two walks need of the prefetching data of a tree.\<close>

definition hw_pf_ok :: "prefetch_support prefetch_ops option \<Rightarrow> (nat \<Rightarrow> nat list) \<Rightarrow> ('a::len word, 'r, prefetch_support) huff_qwt \<Rightarrow> bool" where
  "hw_pf_ok pf digits t \<longleftrightarrow> pf = None \<or> pf = Some ps_ops \<and> (\<exists>ps. hw_prefetch_support t = Some ps \<and> pf_built pf ps_rep digits (hw_n_levels t) ps)"

lemma rank_of_add_le: "rank_of D c (i + k) \<le> rank_of D c i + k"
proof -
  have "take (i + k) D = take i D @ take k (drop i D)" by (rule take_add)
  moreover have "count_list (take k (drop i D)) c \<le> k"
    using count_le_length [of "take k (drop i D)" c] by (rule le_trans) simp
  ultimately show ?thesis by (simp add: rank_of_def)
qed

context wt_queries begin

text \<open>What a level answers on the path of a symbol of the sequence.\<close>

lemma hw_path_level:
  assumes t: "hw_levels_ok rep dg len xs t" and c: "c \<in> set xs" and i: "i \<le> length xs" and l: "l < len c"
  defines "D \<equiv> cm_digits dg len 4 xs l" and "p \<equiv> cm_pos dg len 4 xs c l i"
  shows "idx (hw_qvs t) l = Some (hw_qvs t ! l)" "rep (hw_qvs t ! l) D" "dg l c < 4" "p \<le> length D"
    "w_occs_smaller_unchecked R (hw_qvs t ! l) (dg l c) = Some (smaller_of D (dg l c))"
    "w_rank_unchecked R (hw_qvs t ! l) (dg l c) p = Some (rank_of D (dg l c) p)"
    "w_rank R (hw_qvs t ! l) (dg l c) p = Some (Some (rank_of D (dg l c) p))"
proof -
  note h = hw_levels_okD [OF t]
  have lt: "l < hw_n_levels t" using h(5) [OF c] l by simp
  have ne: "xs \<noteq> []" using c by auto
  note b = cm_path_bounds [OF h(1) cm_fitsI [OF h(1) c] ne i l]
  show 1: "idx (hw_qvs t) l = Some (hw_qvs t ! l)" by (rule h(7) [OF lt])
  show 2: "rep (hw_qvs t ! l) D" unfolding D_def by (rule h(8) [OF lt])
  show 3: "dg l c < 4" by (rule b(5))
  show 4: "p \<le> length D" using b(3) by (simp add: D_def p_def)
  show "w_occs_smaller_unchecked R (hw_qvs t ! l) (dg l c) = Some (smaller_of D (dg l c))"
    by (rule occs_smaller_unchecked_rep [OF 2 3])
  show "w_rank_unchecked R (hw_qvs t ! l) (dg l c) p = Some (rank_of D (dg l c) p)" by (rule rank_unchecked_rep [OF 2 3 4])
  show "w_rank R (hw_qvs t ! l) (dg l c) p = Some (Some (rank_of D (dg l c) p))" using rank_rep [OF 2] 3 4 by simp
qed

section \<open>Rank\<close>

lemma hw_rank_loop:
  assumes t: "hw_levels_ok rep dg len xs t" and c: "c \<in> set xs" and i: "i \<le> length xs" and code: "quad_repr dg len c code"
  shows "foldM (hw_rank_step R t (pc_content code)) (int (unat (pc_len code)) - 2, i, 0) [0..<unat (pc_len code) div 2]
    = Some (quad_shift (len c) (len c), cm_pos dg len 4 xs c (len c) i, cm_pos dg len 4 xs c (len c) 0)"
proof -
  let ?g = "\<lambda>l. (quad_shift (len c) l, cm_pos dg len 4 xs c l i, cm_pos dg len 4 xs c l 0)"
  have "hw_rank_step R t (pc_content code) (?g l) l = Some (?g (Suc l))" if l: "l < len c" for l
    using hw_path_level [OF t c i l] hw_path_level [OF t c _ l, of 0] two_bits_u32_eq [OF code l]
    by (simp add: hw_rank_step_def add.commute)
  from foldM_upt_value [of "len c" "hw_rank_step R t (pc_content code)" ?g, OF this]
  show ?thesis using code by (simp add: quad_repr_def)
qed

lemma hw_rank_unchecked_eq:
  assumes t: "hw_levels_ok rep dg len xs t" and c: "c \<in> set xs" and i: "i \<le> length xs" and code: "quad_repr dg len c code"
    and enc: "idx (hw_codes_encode t) (unat (as_usize c)) = Some code"
  shows "hw_rank_unchecked R t c i = Some (count_list (take i xs) c)"
proof -
  have ok: "cm_ok dg len 4 xs" by (rule hw_levels_okD [OF t])
  show ?thesis
    using hw_rank_loop [OF t c i code] cm_path_count [OF ok cm_fitsI [OF ok c] i] enc by (simp add: hw_rank_unchecked_def)
qed

section \<open>Access\<close>

lemma hw_get_loop_eq:
  assumes t: "hw_levels_ok rep dg len xs t" and i: "i < length xs"
  defines "x \<equiv> xs ! i"
  shows "l \<le> len x \<Longrightarrow> hw_get_loop R t [l..<hw_n_levels t] (cm_pos dg len 4 xs x l i) (of_nat (cm_val dg 4 l x)) (2 * l)
      = Some (of_nat (cm_val dg 4 (len x) x), 2 * len x)"
proof (induction "len x - l" arbitrary: l)
  case 0
  note h = hw_levels_okD [OF t]
  have l: "l = len x" using 0 by simp
  show ?case
  proof (cases "l < hw_n_levels t")
    case True
    have "length (cm_level dg len 4 xs l) \<le> cm_pos dg len 4 xs x l i"
      using cm_path_element(2) [OF h(1) i] by (simp add: x_def l)
    then show ?thesis using True h(9) [OF True] l by (simp add: upt_conv_Cons)
  qed (use l in simp)
next
  case (Suc d)
  note h = hw_levels_okD [OF t]
  let ?D = "cm_digits dg len 4 xs l" and ?p = "cm_pos dg len 4 xs x l i"
  have l: "l < len x" using Suc.hyps(2) by simp
  have x: "x \<in> set xs" using i by (simp add: x_def)
  have lt: "l < hw_n_levels t" using h(5) [OF x] l by simp
  note lv = hw_path_level [OF t x less_imp_le [OF i] l]
  have p: "?p < length (cm_level dg len 4 xs l)" "cm_level dg len 4 xs l ! ?p = x"
    using cm_path_element(1) [OF h(1) i, of l] l by (simp_all add: x_def)
  have get: "w_get_unchecked R (hw_qvs t ! l) ?p = Some (dg l x)"
    using get_unchecked_rep [OF lv(2), of ?p] p by (simp add: nth_cm_digits)
  have v: "push_bit 2 (of_nat (cm_val dg 4 l x)) OR of_nat (dg l x) = (of_nat (cm_val dg 4 (Suc l) x) :: u32)"
    using push_quad [OF lv(3)] by (simp only: cm_val.simps)
  have "hw_get_loop R t [Suc l..<hw_n_levels t] (cm_pos dg len 4 xs x (Suc l) i) (of_nat (cm_val dg 4 (Suc l) x)) (2 * Suc l)
      = Some (of_nat (cm_val dg 4 (len x) x), 2 * len x)"
    by (rule Suc.hyps(1)) (use Suc.hyps(2) l in simp_all)
  then show ?case
    unfolding upt_conv_Cons [OF lt] hw_get_loop.simps
    using h(9) [OF lt] p(1) get lv(1,5,6) v by (simp add: add.commute del: cm_val.simps)
qed

section \<open>Select\<close>

lemma hw_select_down_eq:
  assumes t: "hw_levels_ok rep dg len xs t" and c: "c \<in> set xs" and code: "quad_repr dg len c code"
  defines "P \<equiv> \<lambda>l. cm_pos dg len 4 xs c l 0"
  defines "K \<equiv> \<lambda>l. rank_of (cm_digits dg len 4 xs l) (dg l c) (P l)"
  shows "l \<le> len c \<Longrightarrow> length po = MAX_QUAD_LEVELS \<Longrightarrow> length ro = MAX_QUAD_LEVELS \<Longrightarrow>
    (\<forall>k<l. po ! k = P k \<and> ro ! k = K k) \<Longrightarrow>
    \<exists>po' ro'. hw_select_down R t (pc_content code) [l..<len c] (quad_shift (len c) l) (P l) po ro = Some (Some (po', ro'))
      \<and> length po' = MAX_QUAD_LEVELS \<and> length ro' = MAX_QUAD_LEVELS \<and> (\<forall>k<len c. po' ! k = P k \<and> ro' ! k = K k)"
proof (induction "len c - l" arbitrary: l po ro)
  case (Suc d)
  have l: "l < len c" using Suc.hyps(2) by simp
  have lm: "l < MAX_QUAD_LEVELS" using l code by (simp add: quad_repr_def MAX_QUAD_LEVELS_def)
  note lv = hw_path_level [OF t c _ l, of 0]
  let ?po = "po[l := P l]" and ?ro = "ro[l := K l]"
  have "?po ! k = P k \<and> ?ro ! k = K k" if "k < Suc l" for k
    using Suc.prems lm that by (cases "k = l") simp_all
  moreover have "d = len c - Suc l" "Suc l \<le> len c" using Suc.hyps(2) by linarith+
  moreover have "length ?po = MAX_QUAD_LEVELS" "length ?ro = MAX_QUAD_LEVELS" using Suc.prems by simp_all
  ultimately have "\<exists>po' ro'. hw_select_down R t (pc_content code) [Suc l..<len c] (quad_shift (len c) (Suc l)) (P (Suc l)) ?po ?ro = Some (Some (po', ro'))
      \<and> length po' = MAX_QUAD_LEVELS \<and> length ro' = MAX_QUAD_LEVELS \<and> (\<forall>k<len c. po' ! k = P k \<and> ro' ! k = K k)"
    by (intro Suc.hyps(1)) blast+
  then obtain po' ro' where r: "hw_select_down R t (pc_content code) [Suc l..<len c] (quad_shift (len c) (Suc l)) (P (Suc l)) ?po ?ro = Some (Some (po', ro'))"
    "length po' = MAX_QUAD_LEVELS" "length ro' = MAX_QUAD_LEVELS" "\<forall>k<len c. po' ! k = P k \<and> ro' ! k = K k" by blast
  have "hw_select_down R t (pc_content code) [l..<len c] (quad_shift (len c) l) (P l) po ro = Some (Some (po', ro'))"
    unfolding upt_conv_Cons [OF l] hw_select_down.simps
    using lv r(1) two_bits_u32_eq [OF code l] lm Suc.prems by (simp add: P_def K_def add.commute)
  then show ?case using r(2-4) by blast
qed auto

lemma hw_select_up_eq:
  assumes t: "hw_levels_ok rep dg len xs t" and c: "c \<in> set xs" and code: "quad_repr dg len c code"
    and po: "\<And>l. l < len c \<Longrightarrow> idx po l = Some (cm_pos dg len 4 xs c l 0)"
    and ro: "\<And>l. l < len c \<Longrightarrow> idx ro l = Some (rank_of (cm_digits dg len 4 xs l) (dg l c) (cm_pos dg len 4 xs c l 0))"
  shows "l \<le> len c \<Longrightarrow> hw_select_up R t (pc_content code) (rev [0..<l]) (int (2 * (len c - l))) po ro r = Some (cm_up dg len 4 xs c l r)"
proof (induction l arbitrary: r)
  case (Suc l)
  let ?D = "cm_digits dg len 4 xs l" and ?s = "cm_pos dg len 4 xs c l 0"
  let ?k = "rank_of ?D (dg l c) ?s + r"
  have l: "l < len c" using Suc.prems by simp
  note lv = hw_path_level [OF t c _ l, of 0]
  have sh: "quad_shift (len c) l = int (2 * (len c - Suc l))" using l by (simp add: quad_shift_def of_nat_diff)
  have two: "two_bits_u32 (pc_content code) (int (2 * (len c - Suc l))) = Some (dg l c)"
    using two_bits_u32_eq [OF code l] unfolding sh .
  have next_sh: "int (2 * (len c - Suc l)) + 2 = int (2 * (len c - l))" using l by (simp add: of_nat_diff)
  have sel: "w_select R (hw_qvs t ! l) (dg l c) ?k = Some (select_of ?D (dg l c) ?k)" using select_rep [OF lv(2)] lv(3) by simp
  have ge: "?s \<le> p" if "select_of ?D (dg l c) ?k = Some p" for p using select_of_ge [OF that] .
  note IH = Suc.IH [OF less_imp_le [OF l]]
  show ?case
  proof (cases "select_of ?D (dg l c) ?k")
    case None
    then show ?thesis using po [OF l] ro [OF l] two lv(1) sel by simp
  next
    case (Some p)
    then show ?thesis using po [OF l] ro [OF l] two lv(1) sel ge [OF Some] IH [of "p - ?s"] next_sh by simp
  qed
qed simp

lemma hw_select_eq:
  assumes t: "hw_levels_ok rep dg len xs t" and c: "c \<in> set xs" and code: "quad_repr dg len c code" "pc_len code \<noteq> 0"
    and enc: "idx (hw_codes_encode t) (unat (as_usize c)) = Some code"
  shows "hw_select R t c i = Some (select_of xs c i)"
proof -
  note h = hw_levels_okD [OF t]
  have n: "\<not> hw_n_levels t > MAX_QUAD_LEVELS" using h(3) by (simp add: MAX_QUAD_LEVELS_def)
  have no: "\<not> hw_no_code t c" using enc code(2) by (simp add: hw_no_code_def)
  obtain po ro where d: "hw_select_down R t (pc_content code) [0..<len c] (quad_shift (len c) 0) 0 (replicate MAX_QUAD_LEVELS 0) (replicate MAX_QUAD_LEVELS 0)
      = Some (Some (po, ro))" "length po = MAX_QUAD_LEVELS" "length ro = MAX_QUAD_LEVELS"
    "\<forall>k<len c. po ! k = cm_pos dg len 4 xs c k 0 \<and> ro ! k = rank_of (cm_digits dg len 4 xs k) (dg k c) (cm_pos dg len 4 xs c k 0)"
    using hw_select_down_eq [OF t c code(1), of 0 "replicate MAX_QUAD_LEVELS 0" "replicate MAX_QUAD_LEVELS 0"] by auto
  have lm: "len c \<le> MAX_QUAD_LEVELS" using code by (simp add: quad_repr_def MAX_QUAD_LEVELS_def)
  have "hw_select_up R t (pc_content code) (rev [0..<len c]) (int (2 * (len c - len c))) po ro i = Some (cm_up dg len 4 xs c (len c) i)"
    by (rule hw_select_up_eq [OF t c code(1) _ _ order_refl]) (use d(2-4) lm in simp_all)
  moreover have u: "unat (pc_len code) = 2 * len c" using code(1) by (simp add: quad_repr_def)
  moreover have "uint (pc_len code) = 2 * int (len c)" unfolding uint_nat u by simp
  ultimately show ?thesis
    using d(1) n no enc cm_up_select [OF h(1) cm_fitsI [OF h(1) c], of i] by (simp add: hw_select_def Let_def)
qed

end

section \<open>The prefetching rank\<close>

context wt_support begin

text \<open>The estimates by blocks never pass the true position, so they stay inside the levels.\<close>

lemma hw_prefetch_blocks:
  assumes t: "hw_levels_ok rep dg len xs t" and c: "c \<in> set xs" and i: "i \<le> length xs" and code: "quad_repr dg len c code"
  shows "\<exists>st. foldM (hw_prefetch_block_step R t (pc_content code)) (int (unat (pc_len code)) - 2, 0, i) [0..<unat (pc_len code) div 2 - 1] = Some st"
proof -
  note h = hw_levels_okD [OF t]
  let ?P = "\<lambda>l i. cm_pos dg len 4 xs c l i"
  let ?Inv = "\<lambda>l st. \<exists>b e. st = (quad_shift (len c) l, b, e) \<and> b \<le> ?P l 0 \<and> e \<le> ?P l i"
  have len: "unat (pc_len code) = 2 * len c" "len c \<le> hw_n_levels t" using code h(5) [OF c] by (simp_all add: quad_repr_def)
  have "\<exists>st'. hw_prefetch_block_step R t (pc_content code) st l = Some st' \<and> ?Inv (Suc l) st'"
    if lc: "l < len c - 1" and inv: "?Inv l st" for l st
  proof -
    have l: "l < len c" using lc by simp
    obtain b e where st: "st = (quad_shift (len c) l, b, e)" "b \<le> ?P l 0" "e \<le> ?P l i" using inv by blast
    let ?D = "cm_digits dg len 4 xs l"
    note lb = hw_path_level [OF t c _ l, of 0] and le = hw_path_level [OF t c i l]
    obtain jb where jb: "jb \<le> b" "w_rank_block_unchecked R (hw_qvs t ! l) (dg l c) b = Some (rank_of ?D (dg l c) jb)"
      using rank_block_rep [OF lb(2,3), of b] lb(4) st(2) by auto
    obtain je where je: "je \<le> e" "w_rank_block_unchecked R (hw_qvs t ! l) (dg l c) e = Some (rank_of ?D (dg l c) je)"
      using rank_block_rep [OF le(2,3), of e] le(4) st(3) by auto
    have le_b: "rank_of ?D (dg l c) jb \<le> rank_of ?D (dg l c) (?P l 0)" by (rule rank_of_mono) (use jb(1) st(2) in linarith)
    have le_e: "rank_of ?D (dg l c) je \<le> rank_of ?D (dg l c) (?P l i)" by (rule rank_of_mono) (use je(1) st(3) in linarith)
    have two: "shr_u32 (pc_content code) (nat (quad_shift (len c) l)) = Some (drop_bit (2 * (len c - l - 1)) (pc_content code))"
      "unat (ucast (drop_bit (2 * (len c - l - 1)) (pc_content code)) AND 3 :: u8) = dg l c"
      using two_bits_u32_byte [OF code l] by simp_all
    have "l + 1 < length (hw_qvs t)" using lc len(2) h(4) by linarith
    then have "hw_prefetch_block_step R t (pc_content code) st l
        = Some (quad_shift (len c) (Suc l), rank_of ?D (dg l c) jb + smaller_of ?D (dg l c), rank_of ?D (dg l c) je + smaller_of ?D (dg l c))"
      using st(1) two jb(2) je(2) lb(1,5) by (simp add: hw_prefetch_block_step_def Let_def)
    then show ?thesis using le_b le_e by simp
  qed
  then have "\<exists>st. foldM (hw_prefetch_block_step R t (pc_content code)) (quad_shift (len c) 0, 0, i) [0..<len c - 1] = Some st \<and> ?Inv (len c - 1) st"
    by (intro foldM_upt_inv [where Inv = ?Inv]) auto
  then show ?thesis using len(1) by (auto simp: uint_nat)
qed

text \<open>
  The estimates by samples are at most one too large on every level; the samples still answer there.
\<close>

lemma hw_prefetch_superblocks:
  fixes t :: "('a::len word, 'r, prefetch_support) huff_qwt"
  assumes t: "hw_levels_ok rep dg len xs t" and c: "c \<in> set xs" and i: "i \<le> length xs" and code: "quad_repr dg len c code"
    and n: "length xs < 2 ^ 43"
    and ps: "pf_built (Some ps_ops) ps_rep (cm_digits dg len 4 xs) (hw_n_levels t) supports"
  shows "\<exists>b e. foldM (hw_prefetch_superblock_step R ps_ops supports t (pc_content code)) (int (unat (pc_len code)) - 2, 0, i)
      [0..<unat (pc_len code) div 2 - 1] = Some (quad_shift (len c) (len c - 1), b, e) \<and> b \<le> e"
proof -
  note h = hw_levels_okD [OF t]
  let ?P = "\<lambda>l i. cm_pos dg len 4 xs c l i"
  let ?Inv = "\<lambda>l st. \<exists>b e. st = (quad_shift (len c) l, b, e) \<and> b \<le> e \<and> e \<le> ?P l i + l"
  have len: "unat (pc_len code) = 2 * len c" "len c \<le> hw_n_levels t" "len c \<le> 16" using code h(5) [OF c] by (simp_all add: quad_repr_def)
  have ne: "xs \<noteq> []" using c by auto
  have "\<exists>st'. hw_prefetch_superblock_step R ps_ops supports t (pc_content code) st l = Some st' \<and> ?Inv (Suc l) st'"
    if lc: "l < len c - 1" and inv: "?Inv l st" for l st
  proof -
    have l: "l < len c" and lt: "l < hw_n_levels t" using lc len(2) by simp_all
    obtain b e where st: "st = (quad_shift (len c) l, b, e)" "b \<le> e" "e \<le> ?P l i + l" using inv by blast
    let ?D = "cm_digits dg len 4 xs l" and ?d = "dg l c"
    note le = hw_path_level [OF t c i l]
    have sup: "length supports = hw_n_levels t" "ps_ok ?D (supports ! l)" "ps_sample_rate_shift (supports ! l) = 11"
      using ps lt by (simp_all add: pf_built_def ps_rep_def)
    have D_ne: "?D \<noteq> []" using cm_path_bounds(1) [OF h(1) cm_fitsI [OF h(1) c] ne i l] by (simp add: cm_digits_def)
    have D: "length ?D < 2 ^ 64" using length_cm_level_le [OF h(1), of l] n by simp
    let ?est = "\<lambda>i. count_list (take (i div 2 ^ 11 * 2 ^ 11 + 1) ?D) ?d div 2 ^ 11 * 2 ^ 11"
    have est: "ps_approx_rank_unchecked (supports ! l) ?d j = Some (?est j)" if "j \<le> e" for j
      using ps_approx_rank_near [OF sup(2) _ D_ne D le(3), of j] sup(3) that st(3) le(4) l len(3) by simp
    have "?est e \<le> rank_of ?D ?d e + 1" by (rule ps_estimate_bounds) simp
    also have "rank_of ?D ?d e \<le> rank_of ?D ?d (?P l i + l)" by (rule rank_of_mono [OF st(3)])
    also have "rank_of ?D ?d (?P l i + l) \<le> rank_of ?D ?d (?P l i) + l" by (rule rank_of_add_le)
    finally have near: "?est e \<le> rank_of ?D ?d (?P l i) + Suc l" by simp
    have mono: "?est b \<le> ?est e" by (rule ps_estimate_mono [OF st(2)])
    have "l + 1 < length (hw_qvs t)" using lc len(2) h(4) by linarith
    then have "hw_prefetch_superblock_step R ps_ops supports t (pc_content code) st l
        = Some (quad_shift (len c) (Suc l), ?est b + smaller_of ?D ?d, ?est e + smaller_of ?D ?d)"
      using st(1,2) two_bits_u32_byte [OF code l] est [of b] est [of e] le(1,5) sup(1) lt
      by (simp add: hw_prefetch_superblock_step_def ps_ops_def idx_def Let_def del: power_numeral)
    then show ?thesis using near mono by simp
  qed
  then have "\<exists>st. foldM (hw_prefetch_superblock_step R ps_ops supports t (pc_content code)) (quad_shift (len c) 0, 0, i) [0..<len c - 1] = Some st
      \<and> ?Inv (len c - 1) st"
    by (intro foldM_upt_inv [where Inv = ?Inv]) auto
  then show ?thesis using len(1) by (auto simp: uint_nat)
qed

lemma hw_rank_prefetch_unchecked_eq:
  assumes t: "hw_levels_ok rep dg len xs t" and c: "c \<in> set xs" and i: "i \<le> length xs" and code: "quad_repr dg len c code"
    and enc: "idx (hw_codes_encode t) (unat (as_usize c)) = Some code" and n: "length xs < 2 ^ 43"
    and pf: "hw_pf_ok pf (cm_digits dg len 4 xs) t"
  shows "hw_rank_prefetch_unchecked R pf t c i = hw_rank_unchecked R t c i"
proof -
  note h = hw_levels_okD [OF t]
  have "0 < len c" by (rule cm_okD(1) [OF h(1) c])
  then have "0 < hw_n_levels t" using h(5) [OF c] by simp
  note q0 = h(7) [OF this]
  have "\<exists>r. hw_rank_prefetch_superblocks_unchecked R pf t (pc_content code) (unat (pc_len code)) i = Some r"
  proof (cases pf)
    case (Some P)
    then obtain ps where ps: "P = ps_ops" "hw_prefetch_support t = Some ps"
      "pf_built (Some ps_ops) ps_rep (cm_digits dg len 4 xs) (hw_n_levels t) ps" using pf by (auto simp: hw_pf_ok_def)
    from hw_prefetch_superblocks [OF t c i code n ps(3)] show ?thesis
      using Some ps(1,2) q0 by (auto simp: hw_rank_prefetch_superblocks_unchecked_def)
  qed (simp add: hw_rank_prefetch_superblocks_unchecked_def)
  then show ?thesis using hw_prefetch_blocks [OF t c i code] q0 enc by (auto simp: hw_rank_prefetch_unchecked_def)
qed

end

end
