(* ===== verification/HuffQWTBuild.thy ===== *)
theory HuffQWTBuild
  imports HuffQWTCorrect BinWTBuild
begin

text \<open>
  Construction of the compressed quad wavelet tree: counting, the codes, the decoding tables and the
  loop over the levels, which leaves the digits of the code matrix in the quad vectors. A tree built
  from a sequence answers every point query like the sequence.
\<close>

unbundle bit_operations_syntax

section \<open>The codes of a sequence\<close>

definition hq_len :: "prefix_code list \<Rightarrow> 'a::len word \<Rightarrow> nat" where
  "hq_len codes x = quad_width codes (unat (as_usize x))"

definition hq_dg :: "prefix_code list \<Rightarrow> nat \<Rightarrow> 'a::len word \<Rightarrow> nat" where
  "hq_dg codes l x = quad_dg codes l (unat (as_usize x))"

lemma hq_dg_less [simp]: "hq_dg codes l x < 4"
  by (simp add: hq_dg_def quad_dg_def)

lemma hq_dg_less_5 [simp]: "hq_dg codes l x < 5"
  by (rule less_trans [OF hq_dg_less]) simp

lemma cm_key_hq: "cm_key (hq_dg codes) b l x = cm_key (quad_dg codes) b l (unat (as_usize x))"
  by (induction l) (simp_all add: hq_dg_def)

definition quad_symbols :: "prefix_code list \<Rightarrow> 'a::len word list \<Rightarrow> bool" where
  "quad_symbols codes xs \<longleftrightarrow> LENGTH('a) \<le> 64 \<and> length codes \<le> 2 ^ LENGTH('a) \<and> quad_codes (unat ` set xs) (length codes - 1) codes"

lemma quad_symbolsD:
  fixes xs :: "'a::len word list"
  assumes "quad_symbols codes xs"
  shows "unat (as_usize (x :: 'a word)) = unat x" "x \<in> set xs \<Longrightarrow> unat x < length codes"
    "x \<in> set xs \<Longrightarrow> unat (pc_len (codes ! unat x)) = 2 * hq_len codes x" "x \<in> set xs \<Longrightarrow> 0 < hq_len codes x"
    "x \<in> set xs \<Longrightarrow> hq_len codes x \<le> 16" "x \<in> set xs \<Longrightarrow> unat (pc_content (codes ! unat x)) < 4 ^ hq_len codes x"
    "cm_ok (hq_dg codes) (hq_len codes) 4 xs" "x \<in> set xs \<Longrightarrow> quad_repr (hq_dg codes) (hq_len codes) x (codes ! unat x)"
    "x \<in> set xs \<longleftrightarrow> unat x < length codes \<and> pc_len (codes ! unat x) \<noteq> 0"
proof -
  have w: "LENGTH('a) \<le> 64" and q: "quad_codes (unat ` set xs) (length codes - 1) codes" using assms by (simp_all add: quad_symbols_def)
  note d = quad_codesD [OF q]
  show u: "unat (as_usize x) = unat x" for x :: "'a word" by (rule unat_as_usize [OF w])
  have lq: "hq_len codes x = quad_width codes (unat x)" for x :: "'a word" by (simp add: hq_len_def u)
  have len: "length codes = (length codes - 1) + 1" by (rule d(1))
  show lt: "unat x < length codes" if "x \<in> set xs" for x using d(3) [of "unat x"] that len by simp
  show 1: "unat (pc_len (codes ! unat x)) = 2 * hq_len codes x" "0 < hq_len codes x" "hq_len codes x \<le> 16"
    "unat (pc_content (codes ! unat x)) < 4 ^ hq_len codes x" if "x \<in> set xs" for x
    unfolding lq using d(4-7) [of "unat x"] that by simp_all
  have "cm_ok (quad_dg codes) (quad_width codes) 4 (map unat xs)" by (rule d(8)) simp
  then show "cm_ok (hq_dg codes) (hq_len codes) 4 xs"
    unfolding cm_ok_def cm_key_hq by (simp add: hq_dg_def hq_len_def u word_unat_eq_iff) blast
  show "quad_repr (hq_dg codes) (hq_len codes) x (codes ! unat x)" if "x \<in> set xs"
    using 1 [OF that] by (simp add: quad_repr_def hq_dg_def quad_dg_def hq_len_def u)
  have "unat x \<in> unat ` set xs \<longleftrightarrow> x \<in> set xs" by (metis imageE image_eqI word_unat_eq_iff)
  then show "x \<in> set xs \<longleftrightarrow> unat x < length codes \<and> pc_len (codes ! unat x) \<noteq> 0"
    using d(2) [of "unat x"] lt [of x] len by (cases "x \<in> set xs") auto
qed

lemma quad_symbols_coded:
  fixes xs :: "'a::len word list"
  assumes s: "quad_symbols codes xs"
  shows "coded codes xs"
  unfolding coded_def
proof (intro conjI allI ballI impI)
  note d = quad_symbolsD [OF s]
  show "LENGTH('a) \<le> 64" "length codes \<le> 2 ^ LENGTH('a)" using s by (simp_all add: quad_symbols_def)
  show "x \<in> set xs \<longleftrightarrow> unat x < length codes \<and> pc_len (codes ! unat x) \<noteq> 0" for x by (rule d(9))
  fix x y assume xy: "x \<in> set xs" "y \<in> set xs" "codes ! unat x = codes ! unat y"
  have "hq_dg codes t x = hq_dg codes t y" for t
    using xy(3) by (simp add: hq_dg_def quad_dg_def d(1) quad_width_def)
  then have "cm_key (hq_dg codes) 4 l x = cm_key (hq_dg codes) 4 l y" for l by (induction l) simp_all
  moreover have "hq_len codes x = hq_len codes y" using d(3) [OF xy(1)] d(3) [OF xy(2)] xy(3) by simp
  ultimately show "x = y" using cm_okD(4) [OF d(7) xy(1,2)] by blast
qed

lemma quad_comp_len: "quad_symbols codes xs \<Longrightarrow> x \<in> set xs \<Longrightarrow> comp_len codes x = 2 * hq_len codes x"
  using codedD(2) [OF quad_symbols_coded, of codes xs x] quad_symbolsD(3) [of codes xs x] by simp

text \<open>The digits of a code, collected from the first, are its content.\<close>

lemma quad_val:
  assumes "quad_symbols codes xs" "x \<in> set xs" "l \<le> hq_len codes x"
  shows "cm_val (hq_dg codes) 4 l x = unat (pc_content (codes ! unat x)) div 4 ^ (hq_len codes x - l)"
proof (rule cm_val_number)
  note d = quad_symbolsD [OF assms(1)]
  show "hq_dg codes t x = unat (pc_content (codes ! unat x)) div 4 ^ (hq_len codes x - Suc t) mod 4" if "t < hq_len codes x" for t
    using d(8) [OF assms(2)] that by (simp add: quad_repr_def)
qed (use quad_symbolsD(6) [OF assms(1)] assms(2,3) in simp_all)

section \<open>One turn of the construction\<close>

lemma quad_code_digit:
  assumes "quad_symbols codes xs" "x \<in> set xs"
  shows "code_digit 3 codes 4 (2 * Suc l) x = (if hq_len codes x \<le> Suc l then 4 else hq_dg codes l x)"
proof -
  note d = quad_symbolsD [OF assms(1)]
  have len: "unat (pc_len (codes ! unat x)) = 2 * hq_len codes x" by (rule d(3) [OF assms(2)])
  have "unat (drop_bit n w AND 3 :: u32) = unat w div 2 ^ n mod 4" for n w
    unfolding unat_and_3_u32 unat_drop_bit_eq by (simp add: drop_bit_eq_div)
  moreover have "2 * hq_len codes x - 2 * Suc l = 2 * (hq_len codes x - l - 1)" by simp
  moreover have "hq_dg codes l x = unat (pc_content (codes ! unat x)) div 4 ^ (hq_len codes x - l - 1) mod 4" if "l < hq_len codes x"
    using d(8) [OF assms(2)] that unfolding quad_repr_def by blast
  ultimately show ?thesis by (simp add: code_digit_def d(1) len Let_def power_mult)
qed

lemma hw_count_step_eq:
  assumes sh: "sh = 2 * l + 2" and s: "quad_symbols codes xs" "x \<in> set xs" and b: "qv_built (qb_build b)" and counts: "length counts = 5"
    and small: "qv_len (qb_build b) + 1 < 2 ^ 63"
  shows "\<exists>b'. hw_count_step codes (sh) (b, counts) x
      = Some (b', counts[code_digit 3 codes 4 (sh) x := counts ! code_digit 3 codes 4 (sh) x + 1])
    \<and> qv_built (qb_build b') \<and> qv_list (qb_build b') = qv_list (qb_build b) @ (if l < hq_len codes x then [hq_dg codes l x] else [])"
proof -
  note d = quad_symbolsD [OF s(1)]
  let ?code = "codes ! unat x" and ?d = "hq_dg codes l x" and ?n = "hq_len codes x"
  have len: "unat (pc_len ?code) = 2 * ?n" "?n \<le> 16" by (rule d(3) [OF s(2)], rule d(5) [OF s(2)])
  have code: "idx codes (unat (as_usize x)) = Some ?code" using d(1,2) s(2) by (simp add: idx_def)
  have cd: "code_digit 3 codes 4 (sh) x = (if ?n \<le> Suc l then 4 else ?d)" using quad_code_digit [OF s, of l] sh by simp
  have bucket: "idx counts (code_digit 3 codes 4 (sh) x) = Some (counts ! code_digit 3 codes 4 (sh) x)"
    using counts by (simp add: cd idx_def)
  have cmp: "sh \<le> 2 * ?n \<longleftrightarrow> l < ?n" "2 * ?n \<le> sh \<longleftrightarrow> ?n \<le> Suc l" using sh by presburger+
  show ?thesis
  proof (cases "l < ?n")
    case True
    have n: "2 * ?n - sh = 2 * (?n - l - 1)" using sh by simp
    let ?w = "drop_bit (2 * (?n - l - 1)) (pc_content ?code)"
    have "2 * (?n - l - 1) < 32" using len True by linarith
    then have shr: "shr_u32 (pc_content ?code) (unat (pc_len ?code) - sh) = Some ?w" unfolding len n by (simp add: shr_u32_def)
    have w: "unat (?w AND 3) = ?d"
      unfolding unat_and_3_u32 unat_drop_bit_eq using d(8) [OF s(2)] True by (simp add: quad_repr_def drop_bit_eq_div power_mult)
    have "?d < 2 ^ 8" by (rule less_trans [OF hq_dg_less]) simp
    then have "unat (ucast (?w AND 3) :: u8) = ?d"
      using w by (simp add: unsigned_ucast_eq take_bit_nat_eq_self)
    then have "unat (ucast (?w AND 3) :: u8) mod 4 = ?d" by simp
    then obtain b' where b': "qb_push b (ucast (?w AND 3)) = Some b'" "qv_built (qb_build b')" "qv_list (qb_build b') = qv_list (qb_build b) @ [?d]"
      using qb_push_eq [OF b small, of "ucast (?w AND 3)"] by metis
    have "hw_count_step codes (sh) (b, counts) x
      = Some (b', counts[code_digit 3 codes 4 (sh) x := counts ! code_digit 3 codes 4 (sh) x + 1])"
      using code shr w b'(1) bucket len(1) cmp True by (cases "?n \<le> Suc l") (simp_all add: hw_count_step_def cd)
    then show ?thesis using b'(2,3) True by simp
  next
    case False
    then have "hw_count_step codes (sh) (b, counts) x
      = Some (b, counts[code_digit 3 codes 4 (sh) x := counts ! code_digit 3 codes 4 (sh) x + 1])"
      using code bucket len(1) cmp False by (simp add: hw_count_step_def cd)
    then show ?thesis using b False by simp
  qed
qed

lemma hw_count_loop:
  assumes sh: "sh = 2 * l + 2" and s: "quad_symbols codes xs" and ys: "set ys \<subseteq> set xs" and b: "qv_built (qb_build b)" and counts: "length counts = 5"
    and small: "qv_len (qb_build b) + length ys < 2 ^ 63"
  shows "\<exists>b' counts'. foldM (hw_count_step codes (sh)) (b, counts) ys = Some (b', counts') \<and> qv_built (qb_build b')
    \<and> qv_list (qb_build b') = qv_list (qb_build b) @ map (hq_dg codes l) (filter (\<lambda>x. l < hq_len codes x) ys)
    \<and> counts' = map (\<lambda>c. counts ! c + count_list (map (code_digit 3 codes 4 (sh)) ys) c) [0..<5]"
  using ys b counts small
proof (induction ys arbitrary: b counts)
  case Nil
  have "map (\<lambda>c. counts ! c) [0..<5] = counts" using Nil(3) by (metis map_nth)
  then show ?case using Nil by simp
next
  case (Cons y ys)
  let ?f = "code_digit 3 codes 4 (sh)"
  let ?c = "counts[?f y := counts ! ?f y + 1]"
  have y: "y \<in> set xs" "set ys \<subseteq> set xs" using Cons.prems(1) by simp_all
  have "qv_len (qb_build b) + 1 < 2 ^ 63" using Cons.prems(4) by simp
  from hw_count_step_eq [OF sh s y(1) Cons.prems(2,3) this] obtain b1 where b1: "hw_count_step codes (sh) (b, counts) y = Some (b1, ?c)"
    "qv_built (qb_build b1)" "qv_list (qb_build b1) = qv_list (qb_build b) @ (if l < hq_len codes y then [hq_dg codes l y] else [])" by blast
  have "length ?c = 5" using Cons.prems(3) by simp
  moreover have "qv_len (qb_build b1) + length ys < 2 ^ 63" using Cons.prems(4) arg_cong [OF b1(3), of length] by simp
  ultimately obtain b' counts' where r: "foldM (hw_count_step codes (sh)) (b1, ?c) ys = Some (b', counts')"
    "qv_built (qb_build b')" "qv_list (qb_build b') = qv_list (qb_build b1) @ map (hq_dg codes l) (filter (\<lambda>x. l < hq_len codes x) ys)"
    "counts' = map (\<lambda>c. ?c ! c + count_list (map ?f ys) c) [0..<5]" using Cons.IH [OF y(2) b1(2)] by blast
  have "counts' = map (\<lambda>c. counts ! c + count_list (map ?f (y # ys)) c) [0..<5]"
    unfolding r(4) using Cons.prems(3) by (auto simp: nth_list_update)
  then show ?case using b1(1,3) r(1-3) by simp
qed

text \<open>The partition that moves on to the next level, on the elements still in it.\<close>

lemma quad_partition_eq:
  fixes xs :: "'a::len word list"
  assumes sh: "sh = 2 * l + 2" "sh < 2 ^ 32" and s: "quad_symbols codes xs" and seq: "set seq \<subseteq> set xs" and out: "length out = length seq"
  shows "\<exists>seq'. stable_partition_of_4_with_codes_into seq sh codes (map (count_list (map (code_digit 3 codes 4 sh) seq)) [0..<5]) out = Some seq'
    \<and> set seq' = set seq \<and> length seq' = length seq
    \<and> filter (\<lambda>x. Suc l < hq_len codes x) seq'
      = filter (\<lambda>x. Suc l < hq_len codes x) (buckets (hq_dg codes l) 4 (filter (\<lambda>x. l < hq_len codes x) seq))"
proof -
  note d = quad_symbolsD [OF s]
  let ?f = "code_digit 3 codes 4 sh" and ?P = "\<lambda>x. Suc l < hq_len codes x"
  have f: "?f x = (if hq_len codes x \<le> Suc l then 4 else hq_dg codes l x)" if "x \<in> set seq" for x
    using quad_code_digit [OF s, of x l] seq that sh(1) by auto
  have f5: "\<forall>x\<in>set seq. ?f x < 5" using f by simp
  have codes: "\<forall>x\<in>set seq. unat (as_usize x) < length codes \<and> unat (pc_len (codes ! unat (as_usize x))) \<le> 32"
    using d(2,3,5) seq by (fastforce simp: d(1))
  have part: "stable_partition_of_4_with_codes_into seq sh codes (map (count_list (map ?f seq)) [0..<5]) out = Some (buckets ?f 5 seq)"
    using stable_partition_of_4_with_codes_into_eq [OF codes _ sh(2) out refl] sh(1) by simp
  have five: "(5 :: nat) = Suc 4" by simp
  have "filter ?P (buckets ?f 5 seq) = buckets ?f 5 (filter ?P seq)" by (rule filter_buckets_comm)
  also have "\<dots> = buckets (hq_dg codes l) 5 (filter ?P seq)" by (rule buckets_cong) (use f in auto)
  also have "\<dots> = buckets (hq_dg codes l) 4 (filter ?P seq)" unfolding five by (rule buckets_more) simp
  also have "filter ?P seq = filter ?P (filter (\<lambda>x. l < hq_len codes x) seq)" by (simp cong: conj_cong) (metis Suc_lessD)
  finally have "filter ?P (buckets ?f 5 seq) = filter ?P (buckets (hq_dg codes l) 4 (filter (\<lambda>x. l < hq_len codes x) seq))"
    by (simp only: filter_buckets_comm)
  moreover have "set (buckets ?f 5 seq) = set seq" "length (buckets ?f 5 seq) = length seq"
    using f5 set_buckets [of seq ?f 5] length_buckets [of seq ?f 5] by auto
  ultimately show ?thesis using part by blast
qed

text \<open>The state of the construction after \<open>l\<close> levels.\<close>

definition hw_build_ok :: "('r \<Rightarrow> nat list \<Rightarrow> bool) \<Rightarrow> prefix_code list \<Rightarrow> 'a::len word list \<Rightarrow> nat \<Rightarrow> ('a word, 'r, 'p) hw_build \<Rightarrow> bool" where
  "hw_build_ok rep codes xs l st \<longleftrightarrow> set (hb_sequence st) = set xs \<and> length (hb_sequence st) = length xs
     \<and> filter (\<lambda>x. l < hq_len codes x) (hb_sequence st) = cm_level (hq_dg codes) (hq_len codes) 4 xs l
     \<and> length (hb_partitioned st) = length xs \<and> length (hb_qvs st) = l
     \<and> (\<forall>k<l. rep (hb_qvs st ! k) (cm_digits (hq_dg codes) (hq_len codes) 4 xs k))
     \<and> hb_lens st = map (\<lambda>k. length (cm_level (hq_dg codes) (hq_len codes) 4 xs k)) [0..<l] \<and> hb_shift st = 2 * l + 2"

context wt_support begin

lemma hw_level_step_ok:
  fixes xs :: "'a::len word list" and st :: "('a word, 'r, 'p) hw_build"
  assumes s: "quad_symbols codes xs" and n: "length xs < 2 ^ 43 - 2048" and l: "l < 16" and st: "hw_build_ok rep codes xs l st"
    and pf: "pf_ok pf prep" "pf_built pf prep (cm_digits (hq_dg codes) (hq_len codes) 4 xs) l (hb_prefetch st)"
  shows "\<exists>st'. hw_level_step R pf codes st l = Some st' \<and> hw_build_ok rep codes xs (Suc l) st'
    \<and> pf_built pf prep (cm_digits (hq_dg codes) (hq_len codes) 4 xs) (Suc l) (hb_prefetch st')"
proof -
  let ?seq = "hb_sequence st" and ?sh = "hb_shift st"
  let ?dg = "hq_dg codes :: nat \<Rightarrow> 'a word \<Rightarrow> nat" and ?len = "hq_len codes :: 'a word \<Rightarrow> nat"
  let ?D = "cm_digits ?dg ?len 4 xs l" and ?f = "code_digit 3 codes 4 ?sh :: 'a word \<Rightarrow> nat"
  have b: "set ?seq = set xs" "length ?seq = length xs" "filter (\<lambda>x. l < ?len x) ?seq = cm_level ?dg ?len 4 xs l"
    "length (hb_partitioned st) = length xs" "length (hb_qvs st) = l" "\<forall>k<l. rep (hb_qvs st ! k) (cm_digits ?dg ?len 4 xs k)"
    "hb_lens st = map (\<lambda>k. length (cm_level ?dg ?len 4 xs k)) [0..<l]" and sh: "?sh = 2 * l + 2"
    using st by (simp_all add: hw_build_ok_def)
  have sh32: "?sh < 2 ^ 32" using sh l by simp
  have sub: "set ?seq \<subseteq> set xs" using b(1) by simp
  note ok = quad_symbolsD(7) [OF s]
  have "qv_len (qb_build qb_default) + length ?seq < 2 ^ 63" using b(2) n by (simp add: qv_len_def qb_build_def qb_default_def)
  then obtain q counts where q: "foldM (hw_count_step codes ?sh) (qb_default, [0, 0, 0, 0, 0]) ?seq = Some (q, counts)" "qv_built (qb_build q)"
    "qv_list (qb_build q) = ?D" "counts = map (\<lambda>c. [0, 0, 0, 0, 0] ! c + count_list (map ?f ?seq) c) [0..<5]"
    using hw_count_loop [OF sh s sub qv_built_default(1), of "[0, 0, 0, 0, 0]"] b(3) qv_built_default(2) by (auto simp: cm_digits_def)
  have "[0, 0, 0, 0, 0] ! c = (0 :: nat)" if "c < 5" for c using that by (simp add: less_Suc_eq numeral_eq_Suc) auto
  then have counts: "counts = map (count_list (map ?f ?seq)) [0..<5]" unfolding q(4) by simp
  have qlen: "qv_len (qb_build q) = length (cm_level ?dg ?len 4 xs l)" using arg_cong [OF q(3), of length] by simp
  have small: "qv_len (qb_build q) < 2 ^ 43 - 2048" using qlen length_cm_level_le [OF ok, of l] n by simp
  obtain r where r: "w_from R (qb_build q) = Some r" "rep r ?D" using from_rep [OF qv_built_ok [OF q(2)] small] q(3) by auto
  obtain pfs where pfs: "(case pf of None \<Rightarrow> Some (hb_prefetch st)
       | Some P \<Rightarrow> do { p \<leftarrow> p_new P (qb_build q) 11; Some (hb_prefetch st @ [p]) }) = Some pfs"
    "pf_built pf prep (cm_digits ?dg ?len 4 xs) (Suc l) pfs"
    using pf_built_step [OF pf qv_built_ok [OF q(2)] small q(3)] by blast
  have "length (hb_partitioned st) = length ?seq" using b by simp
  from quad_partition_eq [OF sh sh32 s sub this] obtain seq' where seq':
    "stable_partition_of_4_with_codes_into ?seq ?sh codes counts (hb_partitioned st) = Some seq'" "set seq' = set ?seq" "length seq' = length ?seq"
    "filter (\<lambda>x. Suc l < ?len x) seq' = filter (\<lambda>x. Suc l < ?len x) (buckets (?dg l) 4 (cm_level ?dg ?len 4 xs l))"
    unfolding counts b(3) by blast
  let ?st = "\<lparr>hb_sequence = seq', hb_partitioned = ?seq, hb_qvs = hb_qvs st @ [r], hb_lens = hb_lens st @ [qv_len (qb_build q)],
    hb_prefetch = pfs, hb_shift = ?sh + 2\<rparr>"
  have "hw_level_step R pf codes st l = Some ?st"
    using q(1) pfs(1) r(1) seq'(1) by (simp add: hw_level_step_def Let_def)
  moreover have "hw_build_ok rep codes xs (Suc l) ?st"
    unfolding hw_build_ok_def using b seq' r(2) sh qlen by (simp add: nth_append less_Suc_eq)
  ultimately show ?thesis using pfs(2) by (intro exI [of _ ?st]) simp
qed

end

section \<open>Frequencies and codes\<close>

definition symbol_freqs :: "'a::len word list \<Rightarrow> nat list" where
  "symbol_freqs xs = map (count_list (map unat xs)) [0..<unat (Max (set xs)) + 1]"

lemma freq_count_loop:
  fixes ys :: "'a::len word list"
  assumes w: "LENGTH('a) \<le> 64" and ys: "\<forall>y\<in>set ys. unat y < length fs"
  shows "foldM freq_count_step fs ys = Some (map (\<lambda>s. fs ! s + count_list (map unat ys) s) [0..<length fs])"
  using ys
proof (induction ys arbitrary: fs)
  case Nil
  then show ?case by (simp add: map_nth)
next
  case (Cons y ys)
  let ?fs = "fs[unat y := fs ! unat y + 1]"
  have "freq_count_step fs y = Some ?fs" using Cons.prems by (simp add: freq_count_step_def unat_as_usize [OF w])
  moreover have "foldM freq_count_step ?fs ys = Some (map (\<lambda>s. ?fs ! s + count_list (map unat ys) s) [0..<length ?fs])"
    by (rule Cons.IH) (use Cons.prems in simp)
  moreover have "?fs ! s + count_list (map unat ys) s = fs ! s + count_list (map unat (y # ys)) s" if "s < length fs" for s
    using that by (simp add: nth_list_update)
  ultimately show ?case by simp
qed

definition sorted_freqs :: "'a::len word list \<Rightarrow> (nat \<times> nat) list" where
  "sorted_freqs xs = sort_key (\<lambda>(symbol, frequency). (frequency, symbol))
     (filter (\<lambda>(symbol, frequency). frequency \<noteq> 0) (zip [0..<length (symbol_freqs xs)] (symbol_freqs xs)))"

text \<open>The crate's lengths as the code makes them: two bits for each fragment, with the frequency of the symbol.\<close>

definition len_infos :: "((nat \<times> nat) list \<Rightarrow> (nat \<times> nat) list) \<Rightarrow> 'a::len word list \<Rightarrow> len_info list" where
  "len_infos cl xs = map (\<lambda>(s, l). \<lparr>li_symbol = s, li_len = l * 2, li_frequency = count_list (map unat xs) s\<rparr>) (cl (sorted_freqs xs))"

text \<open>
  What is needed of the crate: lengths for exactly the symbols of the sequence, whose code, limited to 32
  bits, fits the code space and leaves nodes unused on the deepest level only.
\<close>

definition quad_lengths_for :: "((nat \<times> nat) list \<Rightarrow> (nat \<times> nat) list) \<Rightarrow> 'a::len word list \<Rightarrow> bool" where
  "quad_lengths_for cl xs \<longleftrightarrow> fst ` set (cl (sorted_freqs xs)) = unat ` set xs
     \<and> (\<forall>sl\<in>set (cl (sorted_freqs xs)). snd sl * 2 < 2 ^ 32)
     \<and> (\<exists>f. limit_code_lengths (len_infos cl xs) = Some f \<and> quad_code f)"

lemma huffman_codes_eq:
  fixes xs :: "'a::len word list"
  assumes w: "LENGTH('a) \<le> 64" and ne: "xs \<noteq> []" and cl: "quad_lengths_for cl xs"
    and small: "\<forall>x\<in>set xs. unat x + 1 < 2 ^ 60"
  shows "\<exists>codes. huffman_codes_from_frequencies cl (symbol_freqs xs) = Some codes \<and> quad_symbols codes xs
    \<and> length codes = unat (Max (set xs)) + 1"
proof -
  let ?s = "unat (Max (set xs))" and ?fs = "symbol_freqs xs"
  let ?ls = "cl (sorted_freqs xs)"
  have le: "unat x \<le> ?s" if "x \<in> set xs" for x using that by (simp add: word_le_nat_alt [symmetric])
  have len: "length ?fs = ?s + 1" by (simp add: symbol_freqs_def)
  obtain f where f: "limit_code_lengths (len_infos cl xs) = Some f" "quad_code f" using cl by (auto simp: quad_lengths_for_def)
  have "li_from ?fs sl = Some \<lparr>li_symbol = fst sl, li_len = snd sl * 2, li_frequency = count_list (map unat xs) (fst sl)\<rparr>"
    if "sl \<in> set ?ls" for sl
  proof -
    have "fst sl \<in> unat ` set xs" "snd sl * 2 < 2 ^ 32" using cl that by (auto simp: quad_lengths_for_def)
    then have "fst sl < ?s + 1" "snd sl * 2 < 2 ^ 32" using le by (auto simp: less_Suc_eq_le)
    then show ?thesis by (simp add: li_from_def symbol_freqs_def idx_def del: upt_Suc)
  qed
  then have infos: "those (map (li_from ?fs) ?ls) = Some (len_infos cl xs)"
    unfolding len_infos_def case_prod_beta by (intro those_map_Some) simp
  have syms: "li_symbol ` set f = unat ` set xs"
  proof -
    have "li_symbol ` set f = li_symbol ` set (len_infos cl xs)"
      using arg_cong [OF limit_code_lengths_symbols [OF f(1)], of set] by simp
    also have "\<dots> = fst ` set ?ls" by (force simp: len_infos_def)
    finally show ?thesis using cl by (simp add: quad_lengths_for_def)
  qed
  have "\<forall>s\<in>li_symbol ` set f. s \<le> ?s" unfolding syms using le by blast
  moreover have "?s + 1 < 2 ^ 60" using bspec [OF small, of "Max (set xs)"] ne by simp
  ultimately obtain codes where codes: "craft4_wm_codes (len_infos cl xs) ?s = Some codes"
    "quad_codes (li_symbol ` set f) ?s codes" using craft4_wm_codes_ok [OF f] by blast
  have "huffman_codes_from_frequencies cl ?fs = Some codes"
    using infos codes(1) len by (simp add: huffman_codes_from_frequencies_def sorted_freqs_def Let_def)
  moreover have lc: "length codes = ?s + 1" by (rule quad_codesD(1) [OF codes(2)])
  moreover have "?s + 1 \<le> 2 ^ LENGTH('a)" using unsigned_less [of "Max (set xs)", where 'a = nat] by (simp add: Suc_le_eq)
  then have "quad_symbols codes xs" using w codes(2) lc by (simp add: quad_symbols_def syms)
  ultimately show ?thesis by blast
qed

section \<open>Construction\<close>

definition hw_ok :: "('r \<Rightarrow> nat list \<Rightarrow> bool) \<Rightarrow> 'a::len word list \<Rightarrow> ('a word, 'r, 'p) huff_qwt \<Rightarrow> bool" where
  "hw_ok rep xs t \<longleftrightarrow> xs \<noteq> [] \<and> length xs < 2 ^ 43 \<and> quad_symbols (hw_codes_encode t) xs
     \<and> hw_levels_ok rep (hq_dg (hw_codes_encode t)) (hq_len (hw_codes_encode t)) xs t
     \<and> decode_ok (hw_codes_encode t) xs (hw_codes_decode t) \<and> length (hw_codes_decode t) = 2 * hw_n_levels t + 1
     \<and> huff_rows (hw_codes_encode t) (hw_codes_decode t) \<and> 0 < hw_n_levels t"

text \<open>The largest length, and the tables of that many lengths.\<close>

lemma quad_max_len:
  fixes xs :: "'a::len word list"
  assumes s: "quad_symbols codes xs" and ne: "xs \<noteq> []"
  defines "m \<equiv> unat (Max (pc_len ` set codes))"
  shows "m = 2 * (m div 2)" "m div 2 \<le> 16" "0 < m div 2" "x \<in> set xs \<Longrightarrow> hq_len codes x \<le> m div 2" "c \<in> set codes \<Longrightarrow> unat (pc_len c) \<le> m"
proof -
  note d = quad_symbolsD [OF s]
  have fin: "finite (pc_len ` set codes)" by simp
  have x0: "hd xs \<in> set xs" using ne by simp
  then have ne': "pc_len ` set codes \<noteq> {}" using d(2) by force
  show le: "unat (pc_len c) \<le> m" if "c \<in> set codes" for c
    using Max_ge [OF fin, of "pc_len c"] that by (simp add: m_def word_le_nat_alt)
  have x: "2 * hq_len codes x \<le> m" if "x \<in> set xs" for x
    using le [of "codes ! unat x"] d(2,3) [OF that] by simp
  obtain c where c: "c \<in> set codes" "m = unat (pc_len c)" using Max_in [OF fin ne'] by (auto simp: m_def)
  then obtain i where i: "i < length codes" "c = codes ! i" by (auto simp: in_set_conv_nth)
  have m0: "0 < m" using x [OF x0] d(4) [OF x0] by linarith
  have "length codes \<le> 2 ^ LENGTH('a)" using s by (simp add: quad_symbols_def)
  then have ui: "unat (of_nat i :: 'a word) = i" using i(1) by (intro unat_of_nat_small) linarith
  have "pc_len c \<noteq> 0" using m0 c(2) by auto
  then have mem: "(of_nat i :: 'a word) \<in> set xs" using d(9) [of "of_nat i"] i ui by simp
  have m: "m = 2 * hq_len codes (of_nat i :: 'a word)" using d(3) [OF mem] ui i(2) c(2) by simp
  then show "m = 2 * (m div 2)" "m div 2 \<le> 16" "0 < m div 2" using d(5) [OF mem] m0 by simp_all
  show "hq_len codes x \<le> m div 2" if "x \<in> set xs" using x [OF that] by linarith
qed

context wt_support begin

lemma hw_from_owned_ok:
  fixes xs :: "'a::len word list" and pf :: "'p prefetch_ops option"
  assumes w: "LENGTH('a) \<le> 64" and n: "length xs < 2 ^ 43 - 2048" and ne: "xs \<noteq> []" and cl: "quad_lengths_for cl xs" and pf: "pf_ok pf prep"
    and small: "\<forall>x\<in>set xs. unat x + 1 < 2 ^ 60"
  shows "\<exists>t. hw_from_owned R pf cl xs = Some t \<and> hw_ok rep xs t
    \<and> (case pf of None \<Rightarrow> hw_prefetch_support t = None
       | Some _ \<Rightarrow> \<exists>ps. hw_prefetch_support t = Some ps
           \<and> pf_built pf prep (cm_digits (hq_dg (hw_codes_encode t)) (hq_len (hw_codes_encode t)) 4 xs) (hw_n_levels t) ps)"
proof -
  let ?s = "unat (Max (set xs))"
  have us: "unat (as_usize (Max (set xs))) = ?s" by (rule unat_as_usize [OF w])
  have le: "unat x \<le> ?s" if "x \<in> set xs" for x using that by (simp add: word_le_nat_alt [symmetric])
  have freqs: "foldM freq_count_step (replicate (?s + 1) 0) xs = Some (symbol_freqs xs)"
    using freq_count_loop [OF w, of xs "replicate (?s + 1) 0"] le
    by (simp add: symbol_freqs_def less_Suc_eq_le del: replicate_Suc upt_Suc)
  obtain codes where codes: "huffman_codes_from_frequencies cl (symbol_freqs xs) = Some codes" "quad_symbols codes xs"
    "length codes = ?s + 1" using huffman_codes_eq [OF w ne cl small] by blast
  note d = quad_symbolsD [OF codes(2)]
  let ?m = "unat (Max (pc_len ` set codes))" and ?L = "unat (Max (pc_len ` set codes)) div 2"
  note mx = quad_max_len [OF codes(2) ne]
  let ?dg = "hq_dg codes :: nat \<Rightarrow> 'a word \<Rightarrow> nat" and ?len = "hq_len codes :: 'a word \<Rightarrow> nat"
  have "\<forall>c\<in>snd ` set (zip [0..<length codes] codes). unat (pc_len c) < length (replicate (?m + 1) ([] :: (u32 \<times> 'a word) list))"
    using mx(5) by (auto simp: less_Suc_eq_le dest: set_zip_rightD)
  from decoder_loop [OF this]
  have dec: "foldM decoder_push (replicate (?m + 1) []) (zip [0..<length codes] codes) = Some (map (code_row codes) [0..<?m + 1] :: (u32 \<times> 'a word) list list)"
    by (simp add: code_row_def [abs_def] nth_append del: upt_Suc replicate_Suc)
  let ?D = "map (\<lambda>l. sort_key fst (code_row codes l)) [0..<?m + 1] :: (u32 \<times> 'a word) list list"
  let ?init = "\<lparr>hb_sequence = xs, hb_partitioned = replicate (length xs) 0, hb_qvs = [], hb_lens = [], hb_prefetch = [], hb_shift = 2\<rparr> :: ('a word, 'r, 'p) hw_build"
  let ?Inv = "\<lambda>l st. hw_build_ok rep codes xs l st \<and> pf_built pf prep (cm_digits ?dg ?len 4 xs) l (hb_prefetch st)"
  have "filter (\<lambda>x. 0 < ?len x) xs = xs" using d(4) by (simp add: filter_id_conv)
  then have "?Inv 0 ?init" by (simp add: hw_build_ok_def pf_built_def)
  moreover have "\<exists>st'. hw_level_step R pf codes st l = Some st' \<and> ?Inv (Suc l) st'" if "l < ?L" "?Inv l st" for l and st :: "('a word, 'r, 'p) hw_build"
    using hw_level_step_ok [OF codes(2) n _ _ pf, of l st] that mx(2) by simp
  ultimately obtain st where st: "foldM (hw_level_step R pf codes) ?init [0..<?L] = Some st" "?Inv ?L st"
    using foldM_upt_inv [of ?Inv ?init ?L "hw_level_step R pf codes"] by blast
  let ?t = "\<lparr>hw_n = length (hb_sequence st), hw_n_levels = ?L, hw_codes_encode = codes, hw_codes_decode = ?D, hw_qvs = hb_qvs st, hw_lens = hb_lens st,
    hw_prefetch_support = (case pf of None \<Rightarrow> None | Some _ \<Rightarrow> Some (hb_prefetch st))\<rparr>"
  have "hw_from_owned R pf cl xs = Some ?t"
    using ne freqs codes(1) dec st(1) bspec [OF small, of "Max (set xs)"] by (simp add: hw_from_owned_def vec_of_def Let_def us o_def del: replicate_Suc upt_Suc)
  moreover have "hw_ok rep xs ?t"
  proof -
    have "decode_ok codes xs ?D"
    proof (rule decode_rows_ok [OF quad_symbols_coded [OF codes(2)]], rule ballI)
      fix x assume "x \<in> set xs"
      then show "comp_len codes x \<le> ?m" using mx(4) [of x] mx(1) quad_comp_len [OF codes(2), of x] by linarith
    qed
    moreover have "huff_rows codes ?D" using codes(2) by (simp add: huff_rows_def quad_symbols_def del: upt_Suc)
    moreover have "hw_levels_ok rep ?dg ?len xs ?t"
      using st(2) d(7) mx(2,4) by (simp add: hw_levels_ok_def hw_build_ok_def)
    moreover have "length ?D = 2 * ?L + 1" using mx(1) by (simp del: upt_Suc)
    ultimately show ?thesis using ne n codes(2) mx(3) by (simp add: hw_ok_def del: upt_Suc)
  qed
  moreover have "(case pf of None \<Rightarrow> hw_prefetch_support ?t = None
       | Some _ \<Rightarrow> \<exists>ps. hw_prefetch_support ?t = Some ps
           \<and> pf_built pf prep (cm_digits (hq_dg (hw_codes_encode ?t)) (hq_len (hw_codes_encode ?t)) 4 xs) (hw_n_levels ?t) ps)"
    using st(2) by (cases pf) simp_all
  ultimately show ?thesis by (intro exI [of _ ?t]) blast
qed

section \<open>Queries\<close>

lemma hw_get_eq:
  fixes xs :: "'a::len word list"
  assumes t: "hw_ok rep xs t"
  shows "hw_get R t i = Some (idx xs i)" "i < length xs \<Longrightarrow> hw_get_unchecked R t i = Some (xs ! i)"
proof -
  let ?codes = "hw_codes_encode t" and ?D = "hw_codes_decode t"
  have h: "quad_symbols ?codes xs" "hw_levels_ok rep (hq_dg ?codes) (hq_len ?codes) xs t" "decode_ok ?codes xs ?D"
    using t by (simp_all add: hw_ok_def)
  have n: "hw_n t = length xs" by (rule hw_levels_okD(2) [OF h(2)])
  have eq: "hw_get_unchecked R t i = Some (xs ! i)" if i: "i < length xs"
  proof -
    let ?x = "xs ! i"
    have x: "?x \<in> set xs" using i by simp
    have "of_nat (cm_val (hq_dg ?codes) 4 (hq_len ?codes ?x) ?x) = pc_content (?codes ! unat ?x)"
      using quad_val [OF h(1) x order_refl] by simp
    then have "hw_get_loop R t [0..<hw_n_levels t] i 0 0 = Some (pc_content (?codes ! unat ?x), comp_len ?codes ?x)"
      using hw_get_loop_eq [OF h(2) i, of 0] quad_comp_len [OF h(1) x] by simp
    moreover obtain k where "comp_len ?codes ?x < length ?D" "search_code (pc_content (?codes ! unat ?x)) (?D ! comp_len ?codes ?x) = Some k"
      "idx (?D ! comp_len ?codes ?x) k = Some (pc_content (?codes ! unat ?x), ?x)" using h(3) x unfolding decode_ok_def by blast
    ultimately show ?thesis by (simp add: hw_get_unchecked_def)
  qed
  show "hw_get R t i = Some (idx xs i)" using eq n by (cases "i < length xs") (simp_all add: hw_get_def)
  show "i < length xs \<Longrightarrow> hw_get_unchecked R t i = Some (xs ! i)" by (rule eq)
qed

lemma hw_symbol:
  fixes xs :: "'a::len word list"
  assumes s: "quad_symbols (hw_codes_encode t) xs"
  shows "hw_no_code t c \<longleftrightarrow> c \<notin> set xs"
    "c \<in> set xs \<Longrightarrow> idx (hw_codes_encode t) (unat (as_usize c)) = Some (hw_codes_encode t ! unat c)"
proof -
  note d = quad_symbolsD [OF s]
  show i: "idx (hw_codes_encode t) (unat (as_usize c)) = Some (hw_codes_encode t ! unat c)" if "c \<in> set xs"
    using d(2) [OF that] by (simp add: d(1))
  show "hw_no_code t c \<longleftrightarrow> c \<notin> set xs"
    using d(9) [of c] by (cases "unat c < length (hw_codes_encode t)") (simp_all add: hw_no_code_def d(1))
qed

lemma hw_queries_eq:
  fixes xs :: "'a::len word list"
  assumes t: "hw_ok rep xs t"
  shows "hw_rank R t c i = Some (if i \<le> length xs \<and> c \<in> set xs then Some (count_list (take i xs) c) else None)"
    "hw_select R t c k = Some (if c \<in> set xs then select_of xs c k else None)"
    "i \<le> length xs \<Longrightarrow> c \<in> set xs \<Longrightarrow> hw_rank_unchecked R t c i = Some (count_list (take i xs) c)"
proof -
  let ?codes = "hw_codes_encode t"
  have h: "quad_symbols ?codes xs" "hw_levels_ok rep (hq_dg ?codes) (hq_len ?codes) xs t"
    using t by (simp_all add: hw_ok_def)
  have n: "hw_n t = length xs" by (rule hw_levels_okD(2) [OF h(2)])
  note sym = hw_symbol [OF h(1), of c] and d = quad_symbolsD [OF h(1)]
  show r: "hw_rank_unchecked R t c i = Some (count_list (take i xs) c)" if "i \<le> length xs" "c \<in> set xs"
    by (rule hw_rank_unchecked_eq [OF h(2) that(2,1) d(8) [OF that(2)] sym(2) [OF that(2)]])
  show "hw_rank R t c i = Some (if i \<le> length xs \<and> c \<in> set xs then Some (count_list (take i xs) c) else None)"
    using r n sym(1) by (cases "i \<le> length xs \<and> c \<in> set xs") (auto simp: hw_rank_def)
  show "hw_select R t c k = Some (if c \<in> set xs then select_of xs c k else None)"
  proof (cases "c \<in> set xs")
    case True
    have "pc_len (?codes ! unat c) \<noteq> 0" using d(9) [of c] True by blast
    from hw_select_eq [OF h(2) True d(8) [OF True] this sym(2) [OF True]] show ?thesis using True by simp
  next
    case False
    then show ?thesis using sym(1) by (simp add: hw_select_def)
  qed
qed

lemma hw_rank_prefetch_eq:
  fixes xs :: "'a::len word list"
  assumes t: "hw_ok rep xs t" and pf: "hw_pf_ok pf (cm_digits (hq_dg (hw_codes_encode t)) (hq_len (hw_codes_encode t)) 4 xs) t"
  shows "hw_rank_prefetch R pf t c i = hw_rank R t c i"
proof -
  let ?codes = "hw_codes_encode t"
  have h: "quad_symbols ?codes xs" "hw_levels_ok rep (hq_dg ?codes) (hq_len ?codes) xs t" "length xs < 2 ^ 43"
    using t by (simp_all add: hw_ok_def)
  have n: "hw_n t = length xs" by (rule hw_levels_okD(2) [OF h(2)])
  note sym = hw_symbol [OF h(1), of c] and d = quad_symbolsD [OF h(1)]
  have "hw_rank_prefetch_unchecked R pf t c i = hw_rank_unchecked R t c i" if "i \<le> length xs" "c \<in> set xs"
    by (rule hw_rank_prefetch_unchecked_eq [OF h(2) that(2,1) d(8) [OF that(2)] sym(2) [OF that(2)] h(3) pf])
  then show ?thesis using n sym(1) by (auto simp: hw_rank_prefetch_def hw_rank_def)
qed

end

end
