(* ===== verification/HuffQWTOccs.thy ===== *)
theory HuffQWTOccs
  imports HuffQWTBuild CodeDfs QuadWTOccs
begin

text \<open>
  The iterator over the occurrences of a range of the compressed quad wavelet tree: it unrolls the walk
  \<open>cm_dfs\<close> on its stack, and a search in the decoding table tells it where a code ends.
\<close>

unbundle bit_operations_syntax

section \<open>Frames\<close>

definition hf_list :: "(nat \<Rightarrow> 'a::len word \<Rightarrow> nat) \<Rightarrow> 'a word list \<Rightarrow> huff_occs_range_frame \<Rightarrow> 'a word list" where
  "hf_list dg ys f = cm_under dg 4 (hf_level f) (unat (hf_bit_path f)) ys"

definition hf_ok :: "(nat \<Rightarrow> 'a::len word \<Rightarrow> nat) \<Rightarrow> ('a word \<Rightarrow> nat) \<Rightarrow> nat \<Rightarrow> 'a word list \<Rightarrow> 'a word list \<Rightarrow> huff_occs_range_frame \<Rightarrow> bool" where
  "hf_ok dg len L xs ys f \<longleftrightarrow> cm_frame dg len 4 L xs ys (hf_level f) (unat (hf_bit_path f)) (hf_start f) (hf_end f)
     \<and> hf_bit_len f = 2 * hf_level f"

lemma hf_okD:
  assumes "hf_ok dg len L xs ys f"
  shows "hf_level f \<le> L" "hf_start f < hf_end f" "cm_group dg len 4 (hf_level f) (hf_list dg ys f)"
    "hf_end f - hf_start f = length (hf_list dg ys f)" "hf_bit_len f = 2 * hf_level f" "hf_list dg ys f \<noteq> []"
    "cm_frame dg len 4 L xs ys (hf_level f) (unat (hf_bit_path f)) (hf_start f) (hf_end f)"
  using assms by (auto simp: hf_ok_def hf_list_def cm_frame_def)

definition hf_den :: "(nat \<Rightarrow> 'a::len word \<Rightarrow> nat) \<Rightarrow> ('a word \<Rightarrow> nat) \<Rightarrow> nat \<Rightarrow> 'a word list \<Rightarrow> huff_occs_range_frame \<Rightarrow> ('a word \<times> nat) list" where
  "hf_den dg len L ys f = cm_dfs dg len 4 (Suc L - hf_level f) (hf_level f) (hf_list dg ys f)"

definition hf_child :: "nat list \<Rightarrow> huff_occs_range_frame \<Rightarrow> nat \<Rightarrow> huff_occs_range_frame" where
  "hf_child D f d = \<lparr>hf_start = smaller_of D d + rank_of D d (hf_start f), hf_end = smaller_of D d + rank_of D d (hf_end f),
     hf_level = hf_level f + 1, hf_bit_path = of_nat (4 * unat (hf_bit_path f) + d), hf_bit_len = hf_bit_len f + 2\<rparr>"

lemma hf_child_ok:
  fixes xs :: "'a::len word list"
  assumes ok: "cm_ok dg len 4 xs" and f: "hf_ok dg len L xs ys f" and ys: "set ys \<subseteq> set xs" and d: "d < 4"
    and L: "L \<le> 16" "\<forall>x\<in>set xs. len x \<le> L" and long: "hf_level f < len (hd (hf_list dg ys f))"
  defines "D \<equiv> cm_digits dg len 4 xs (hf_level f)" and "N \<equiv> filter (\<lambda>x. dg (hf_level f) x = d) (hf_list dg ys f)"
  shows "rank_of D d (hf_end f) = rank_of D d (hf_start f) + length N"
    "hf_end f \<le> length (cm_level dg len 4 xs (hf_level f))"
    "N \<noteq> [] \<Longrightarrow> hf_ok dg len L xs ys (hf_child D f d) \<and> hf_list dg ys (hf_child D f d) = N"
proof -
  note c = cm_frame_child [OF ok hf_okD(7) [OF f] ys d L(2) long [unfolded hf_list_def]]
  show "rank_of D d (hf_end f) = rank_of D d (hf_start f) + length N"
    using c(1) by (simp only: D_def N_def hf_list_def)
  show "hf_end f \<le> length (cm_level dg len 4 xs (hf_level f))" by (rule c(2))
  assume "N \<noteq> []"
  then have ne: "filter (\<lambda>x. dg (hf_level f) x = d) (cm_under dg 4 (hf_level f) (unat (hf_bit_path f)) ys) \<noteq> []" by (simp only: N_def hf_list_def) simp
  have "Suc (hf_level f) \<le> 16" using c(4) [OF ne] L(1) by (simp add: cm_frame_def)
  then have "(4 :: nat) ^ Suc (hf_level f) \<le> 4 ^ 16" by (intro power_increasing) simp_all
  then have "4 * unat (hf_bit_path f) + d < 2 ^ 32" using c(5) [OF ne] by simp
  then have un: "unat (hf_bit_path (hf_child D f d)) = 4 * unat (hf_bit_path f) + d"
    using unat_of_nat_small [of "4 * unat (hf_bit_path f) + d", where 'a = 32] by (simp add: hf_child_def)
  show "hf_ok dg len L xs ys (hf_child D f d) \<and> hf_list dg ys (hf_child D f d) = N"
    unfolding hf_ok_def hf_list_def un N_def using c(3) c(4) [OF ne] hf_okD(5) [OF f] by (simp add: hf_child_def D_def)
qed

section \<open>One step of the iterator\<close>

text \<open>The search in the decoding table answers whether the code of the elements of the frame ends at its level.\<close>

definition hf_leaf :: "('a::len word, 'r, 'p) huff_qwt \<Rightarrow> (nat \<Rightarrow> 'a word \<Rightarrow> nat) \<Rightarrow> ('a word \<Rightarrow> nat) \<Rightarrow> 'a word list \<Rightarrow> 'a word list \<Rightarrow> bool" where
  "hf_leaf t dg len xs ys \<longleftrightarrow> (\<forall>f. hf_ok dg len (hw_n_levels t) xs ys f \<longrightarrow>
     (\<exists>row. idx (hw_codes_decode t) (hf_bit_len f) = Some row
       \<and> (if len (hd (hf_list dg ys f)) \<le> hf_level f
          then \<exists>k. search_code (hf_bit_path f) row = Some k \<and> idx row k = Some (hf_bit_path f, hd (hf_list dg ys f))
          else search_code (hf_bit_path f) row = None)))"

lemma concat_map_concat: "concat (map (\<lambda>d. concat (map h (g d))) ds) = concat (map h (concat (map g ds)))"
  by (induction ds) simp_all

context wt_queries begin

lemma hw_push_eq:
  fixes xs :: "'a::len word list"
  assumes t: "hw_levels_ok rep dg len xs t" and ys: "set ys \<subseteq> set xs"
    and f: "hf_ok dg len (hw_n_levels t) xs ys f" and long: "hf_level f < len (hd (hf_list dg ys f))"
  shows "\<exists>r gs. idx (hw_qvs t) (hf_level f) = Some r \<and> foldM (hw_occs_push R r f) rest (rev [0..<4]) = Some (gs @ rest)
    \<and> (\<forall>g\<in>set gs. hf_ok dg len (hw_n_levels t) xs ys g \<and> hf_level g = Suc (hf_level f))
    \<and> concat (map (hf_den dg len (hw_n_levels t) ys) gs) = hf_den dg len (hw_n_levels t) ys f"
proof -
  let ?L = "hw_n_levels t" and ?l = "hf_level f" and ?M = "hf_list dg ys f"
  let ?D = "cm_digits dg len 4 xs ?l" and ?N = "\<lambda>d. filter (\<lambda>x. dg ?l x = d) ?M"
  note h = hw_levels_okD [OF t]
  have lens: "\<forall>x\<in>set xs. len x \<le> ?L" using h(5) by blast
  have "hd ?M \<in> set ?M" using hf_okD(6) [OF f] by (rule hd_in_set)
  then have hd: "hd ?M \<in> set xs" using ys by (auto simp: hf_list_def cm_under_def)
  then have lt: "?l < ?L" using lens long by fastforce
  have c: "rank_of ?D d (hf_end f) = rank_of ?D d (hf_start f) + length (?N d)"
    "?N d \<noteq> [] \<Longrightarrow> hf_ok dg len ?L xs ys (hf_child ?D f d) \<and> hf_list dg ys (hf_child ?D f d) = ?N d" if "d < 4" for d
    using hf_child_ok(1,3) [OF h(1) f ys that h(3) lens long] by simp_all
  have se: "hf_start f < hf_end f" "hf_end f \<le> length ?D"
    using hf_child_ok(2) [OF h(1) f ys _ h(3) lens long, of 0] hf_okD(2) [OF f] by simp_all
  note rep = h(8) [OF lt]
  let ?g = "\<lambda>d. if ?N d = [] then [] else [hf_child ?D f d]"
  have push: "hw_occs_push R (hw_qvs t ! ?l) f st d = Some (?g d @ st)" if d: "d < 4" for st d
  proof -
    have "hf_child ?D f d = \<lparr>hf_start = smaller_of ?D d + rank_of ?D d (hf_start f), hf_end = smaller_of ?D d + rank_of ?D d (hf_end f),
        hf_level = hf_level f + 1, hf_bit_path = push_bit 2 (hf_bit_path f) OR of_nat d, hf_bit_len = hf_bit_len f + 2\<rparr>"
      using push_quad [OF d, of "unat (hf_bit_path f)", where 'a = 32] by (simp add: hf_child_def)
    then show ?thesis
      using rank_unchecked_rep [OF rep d, of "hf_start f"] rank_unchecked_rep [OF rep d se(2)] se occs_smaller_unchecked_rep [OF rep d] c(1) [OF d]
      by (simp add: hw_occs_push_def)
  qed
  have all: "foldM (hw_occs_push R (hw_qvs t ! ?l) f) st (rev [0..<k]) = Some (concat (map ?g [0..<k]) @ st)" if "k \<le> 4" for k st
    using that
  proof (induction k arbitrary: st)
    case (Suc k)
    then show ?case using push [of k] by simp
  qed simp
  have gok: "hf_ok dg len ?L xs ys g \<and> hf_level g = Suc ?l" if g: "g \<in> set (concat (map ?g [0..<4]))" for g
  proof -
    obtain d where "d < 4" "?N d \<noteq> []" "g = hf_child ?D f d" using g by (auto split: if_splits)
    then show ?thesis using c(2) by (auto simp: hf_child_def)
  qed
  have den: "concat (map (hf_den dg len ?L ys) (?g d)) = cm_dfs dg len 4 (?L - ?l) (Suc ?l) (?N d)" if "d < 4" for d
    using c(2) [OF that] by (auto simp: hf_den_def hf_child_def)
  have "Suc ?L - ?l = Suc (?L - ?l)" using lt by simp
  then have "hf_den dg len ?L ys f = concat (map (\<lambda>d. cm_dfs dg len 4 (?L - ?l) (Suc ?l) (?N d)) [0..<4])"
    using hf_okD(6) [OF f] long by (simp add: hf_den_def)
  also have "\<dots> = concat (map (\<lambda>d. concat (map (hf_den dg len ?L ys) (?g d))) [0..<4])" using den by (intro arg_cong [of _ _ concat] map_cong) auto
  also have "\<dots> = concat (map (hf_den dg len ?L ys) (concat (map ?g [0..<4])))" by (rule concat_map_concat)
  finally have d: "concat (map (hf_den dg len ?L ys) (concat (map ?g [0..<4]))) = hf_den dg len ?L ys f" ..
  show ?thesis
    by (intro exI [of _ "hw_qvs t ! ?l"] exI [of _ "concat (map ?g [0..<4])"] conjI) (rule h(7) [OF lt], rule all, simp, use gok in blast, rule d)
qed

lemma hw_occs_next_frame:
  fixes xs :: "'a::len word list"
  assumes t: "hw_levels_ok rep dg len xs t" and ys: "set ys \<subseteq> set xs" and leaf: "hf_leaf t dg len xs ys"
    and "hf_ok dg len (hw_n_levels t) xs ys f" "\<forall>g\<in>set rest. hf_ok dg len (hw_n_levels t) xs ys g"
  shows "\<exists>v vs st. hf_den dg len (hw_n_levels t) ys f = v # vs \<and> hw_occs_next R t (f # rest) = Some (Some v, st)
    \<and> (\<forall>g\<in>set st. hf_ok dg len (hw_n_levels t) xs ys g)
    \<and> concat (map (hf_den dg len (hw_n_levels t) ys) st) = vs @ concat (map (hf_den dg len (hw_n_levels t) ys) rest)"
  using assms(4,5)
proof (induction "hw_n_levels t - hf_level f" arbitrary: f rest rule: less_induct)
  case less
  let ?L = "hw_n_levels t" and ?M = "hf_list dg ys f"
  note f = less.prems(1)
  note fd = hf_okD [OF f] and h = hw_levels_okD [OF t]
  obtain row where row: "idx (hw_codes_decode t) (hf_bit_len f) = Some row"
    "if len (hd ?M) \<le> hf_level f then \<exists>k. search_code (hf_bit_path f) row = Some k \<and> idx row k = Some (hf_bit_path f, hd ?M)
      else search_code (hf_bit_path f) row = None" using leaf f unfolding hf_leaf_def by blast
  show ?case
  proof (cases "len (hd ?M) \<le> hf_level f")
    case True
    then obtain k where k: "search_code (hf_bit_path f) row = Some k" "idx row k = Some (hf_bit_path f, hd ?M)" using row(2) by auto
    have "hf_den dg len ?L ys f = [(hd ?M, length ?M)]" using True fd(1,6) by (simp add: hf_den_def Suc_diff_le)
    moreover have "hw_occs_next R t (f # rest) = Some (Some (hd ?M, length ?M), rest)"
      using row(1) k fd(2,4) by (simp add: hw_occs_next.simps [of _ _ "f # rest"])
    ultimately show ?thesis using less.prems(2) by auto
  next
    case False
    then have long: "hf_level f < len (hd ?M)" by simp
    obtain r gs where g: "idx (hw_qvs t) (hf_level f) = Some r" "foldM (hw_occs_push R r f) rest (rev [0..<4]) = Some (gs @ rest)"
      "\<forall>g\<in>set gs. hf_ok dg len ?L xs ys g \<and> hf_level g = Suc (hf_level f)"
      "concat (map (hf_den dg len ?L ys) gs) = hf_den dg len ?L ys f"
      using hw_push_eq [OF t ys f long, of rest] by blast
    have "search_code (hf_bit_path f) row = None" using row(2) False by simp
    then have step: "hw_occs_next R t (f # rest) = hw_occs_next R t (gs @ rest)"
      using row(1) g(1,2) by (subst hw_occs_next.simps) (simp del: upt_rec_numeral)
    have lens: "\<forall>x\<in>set xs. len x \<le> ?L" using h(5) by blast
    have "hf_den dg len ?L ys f \<noteq> []" unfolding hf_den_def hf_list_def by (rule cm_frame_items [OF h(1) fd(7) ys lens])
    then obtain g' gs' where gs: "gs = g' # gs'" using g(4) by (cases gs) auto
    have gok: "hf_ok dg len ?L xs ys g'" "hf_level g' = Suc (hf_level f)" using g(3) gs by simp_all
    have "hf_level g' \<le> ?L" by (rule hf_okD(1) [OF gok(1)])
    then have lt: "?L - hf_level g' < ?L - hf_level f" using gok(2) by simp
    have "\<forall>h\<in>set (gs' @ rest). hf_ok dg len ?L xs ys h" using g(3) less.prems(2) unfolding gs by (simp add: ball_Un)
    note IH = less.hyps [OF lt gok(1) this]
    then obtain v vs st where v: "hf_den dg len ?L ys g' = v # vs"
      "hw_occs_next R t (g' # gs' @ rest) = Some (Some v, st)" "\<forall>g\<in>set st. hf_ok dg len ?L xs ys g"
      "concat (map (hf_den dg len ?L ys) st) = vs @ concat (map (hf_den dg len ?L ys) (gs' @ rest))" by (elim exE conjE) (rule that)
    have "hf_den dg len ?L ys f = v # vs @ concat (map (hf_den dg len ?L ys) gs')" using g(4) gs v(1) by simp
    then show ?thesis using step gs v(2-4) by simp
  qed
qed

lemma hw_occs_collect:
  fixes xs :: "'a::len word list"
  assumes t: "hw_levels_ok rep dg len xs t" and se: "s \<le> e" "e \<le> length xs"
    and leaf: "hf_leaf t dg len xs (slice xs s e)"
  shows "collect (hw_occs_next R t) (hw_occs_range_unchecked s e)
    = Some (cm_dfs dg len 4 (Suc (hw_n_levels t)) 0 (slice xs s e))"
proof (cases "s = e")
  case True
  have "hw_occs_next R t [] = Some (None, [])" by (simp add: hw_occs_next.simps)
  then show ?thesis using True by (simp add: hw_occs_range_unchecked_def collect_None slice_empty)
next
  case False
  let ?L = "hw_n_levels t" and ?ys = "slice xs s e"
  let ?f = "\<lparr>hf_start = s, hf_end = e, hf_level = 0, hf_bit_path = 0, hf_bit_len = 0\<rparr>"
  have ys: "set ?ys \<subseteq> set xs" by (rule slice_subset)
  note h = hw_levels_okD [OF t]
  have "s < e" using False se by simp
  from cm_frame_root [OF h(1) this se(2)] have f: "hf_ok dg len ?L xs ?ys ?f" and lst: "hf_list dg ?ys ?f = ?ys"
    by (simp_all add: hf_ok_def hf_list_def)
  have "collect (hw_occs_next R t) [?f] = Some (concat (map (hf_den dg len ?L ?ys) [?f]))"
  proof (rule collect_den [where I = "\<lambda>st. \<forall>g\<in>set st. hf_ok dg len ?L xs ?ys g" and den = "\<lambda>st. concat (map (hf_den dg len ?L ?ys) st)"])
    fix st assume st: "\<forall>g\<in>set st. hf_ok dg len ?L xs ?ys g"
    note nxt = hw_occs_next_frame [OF t ys leaf]
    { assume e: "concat (map (hf_den dg len ?L ?ys) st) = []"
      have "st = []"
      proof (rule ccontr)
        assume "st \<noteq> []"
        then obtain g rest where g: "st = g # rest" by (cases st) auto
        have "hf_ok dg len ?L xs ?ys g" "\<forall>h\<in>set rest. hf_ok dg len ?L xs ?ys h" using st g by simp_all
        from nxt [OF this] obtain v vs where "hf_den dg len ?L ?ys g = v # vs" by blast
        then show False using e g by simp
      qed
      then show "\<exists>s'. hw_occs_next R t st = Some (None, s')" by (simp add: hw_occs_next.simps) }
    fix x ws assume x: "concat (map (hf_den dg len ?L ?ys) st) = x # ws"
    then obtain g rest where g: "st = g # rest" by (cases st) auto
    have "hf_ok dg len ?L xs ?ys g" "\<forall>h\<in>set rest. hf_ok dg len ?L xs ?ys h" using st g by simp_all
    from nxt [OF this] show "\<exists>s'. hw_occs_next R t st = Some (Some x, s') \<and> (\<forall>g\<in>set s'. hf_ok dg len ?L xs ?ys g)
        \<and> concat (map (hf_den dg len ?L ?ys) s') = ws" using x g by auto
  qed (use f in simp)
  then show ?thesis using False by (simp add: hw_occs_range_unchecked_def hf_den_def lst)
qed

end

section \<open>The leaf test\<close>

lemma hw_leaf_sound:
  fixes xs :: "'a::len word list"
  assumes h: "quad_symbols codes xs" "hw_codes_decode t = D" "decode_ok codes xs D" "length D = 2 * hw_n_levels t + 1" and ys: "set ys \<subseteq> set xs"
  shows "hf_leaf t (hq_dg codes) (hq_len codes) xs ys"
  unfolding hf_leaf_def
proof (intro allI impI)
  fix f assume f: "hf_ok (hq_dg codes) (hq_len codes) (hw_n_levels t) xs ys f"
  let ?M = "hf_list (hq_dg codes) ys f" and ?l = "hf_level f"
  let ?x = "hd ?M" and ?row = "D ! hf_bit_len f"
  note d = quad_symbolsD [OF h(1)] and fd = hf_okD [OF f]
  have "?x \<in> set ?M" using fd(6) by (rule hd_in_set)
  then have x: "?x \<in> set xs" "cm_val (hq_dg codes) 4 ?l ?x = unat (hf_bit_path f)" "?l \<le> hq_len codes ?x"
    using ys cm_groupD(1) [OF fd(3), of ?x] by (auto simp: hf_list_def cm_under_def)
  have lD: "hf_bit_len f < length D" using fd(1,5) h(4) by simp
  then have row: "idx (hw_codes_decode t) (hf_bit_len f) = Some ?row" using h(2) by (simp add: idx_def)
  have cl: "comp_len codes y = 2 * hq_len codes y" if "y \<in> set xs" for y by (rule quad_comp_len [OF h(1) that])
  have pf: "cm_prefix_free (hq_dg codes) (hq_len codes) 4 (set xs)" by (rule cm_ok_prefix_free [OF d(7)])
  have leaf: "if hq_len codes ?x \<le> ?l then \<exists>k. search_code (hf_bit_path f) ?row = Some k \<and> idx ?row k = Some (hf_bit_path f, ?x)
    else search_code (hf_bit_path f) ?row = None"
  proof (cases "hq_len codes ?x \<le> ?l")
    case True
    then have l: "?l = hq_len codes ?x" using x(3) by simp
    have "cm_val (hq_dg codes) 4 ?l ?x = unat (pc_content (codes ! unat ?x))" using quad_val [OF h(1) x(1), of ?l] l by simp
    then have w: "hf_bit_path f = pc_content (codes ! unat ?x)" using x(2) by (simp add: word_unat_eq_iff)
    have "comp_len codes ?x = hf_bit_len f" using cl [OF x(1)] l fd(5) by simp
    then show ?thesis using h(3) x(1) True unfolding decode_ok_def w by metis
  next
    case False
    have "search_code (hf_bit_path f) ?row = None"
    proof (rule ccontr)
      assume "search_code (hf_bit_path f) ?row \<noteq> None"
      then obtain k where "search_code (hf_bit_path f) ?row = Some k" by blast
      then obtain y where y: "y \<in> set xs" "comp_len codes y = hf_bit_len f" "pc_content (codes ! unat y) = hf_bit_path f"
        using h(3) lD unfolding decode_ok_def by blast
      have ly: "hq_len codes y = ?l" using cl [OF y(1)] y(2) fd(5) by simp
      have "cm_val (hq_dg codes) 4 ?l y = cm_val (hq_dg codes) 4 ?l ?x"
        using quad_val [OF h(1) y(1), of ?l] ly y(3) x(2) by simp
      then have "y = ?x" using pf y(1) ly x(1) False unfolding cm_prefix_free_def by (metis nat_le_linear)
      then show False using ly False by simp
    qed
    then show ?thesis using False by simp
  qed
  show "\<exists>row. idx (hw_codes_decode t) (hf_bit_len f) = Some row \<and> (if hq_len codes ?x \<le> ?l
      then \<exists>k. search_code (hf_bit_path f) row = Some k \<and> idx row k = Some (hf_bit_path f, ?x) else search_code (hf_bit_path f) row = None)"
    by (intro exI [of _ ?row] conjI row leaf)
qed

context wt_queries begin

lemma hw_occs_items:
  fixes xs :: "'a::len word list"
  assumes t: "hw_ok rep xs t" and se: "s \<le> e" "e \<le> length xs"
  shows "\<exists>items. collect (hw_occs_next R t) (hw_occs_range_unchecked s e) = Some items
    \<and> distinct (map fst items) \<and> set items = (\<lambda>x. (x, count_list (slice xs s e) x)) ` set (slice xs s e)"
proof -
  let ?codes = "hw_codes_encode t"
  have h: "quad_symbols ?codes xs" "hw_levels_ok rep (hq_dg ?codes) (hq_len ?codes) xs t" "decode_ok ?codes xs (hw_codes_decode t)"
    "length (hw_codes_decode t) = 2 * hw_n_levels t + 1" using t by (simp_all add: hw_ok_def)
  have lens: "\<forall>x\<in>set xs. hq_len ?codes x \<le> hw_n_levels t" using hw_levels_okD(5) [OF h(2)] by blast
  note g = cm_dfs_slice [OF quad_symbolsD(7) [OF h(1)] lens, of s e]
  show ?thesis
    using hw_occs_collect [OF h(2) se hw_leaf_sound [OF h(1) refl h(3,4) slice_subset]] cm_dfs_correct [OF g] by blast
qed

end

end
