(* ===== verification/HuffQWTParts.thy ===== *)
theory HuffQWTParts
  imports HuffQWT
begin

text \<open>
  \<open>from_parts\<close> and deserialisation of the compressed quad wavelet tree, \<^verbatim>\<open>src/quadwt/huffqwt.rs\<close>: the checks
  on the levels, the tables of codes, and the paths of codes and of positions.
\<close>

unbundle bit_operations_syntax

section \<open>The checks on levels and tables\<close>

definition hw_occs_step :: "'r wt_support_ops \<Rightarrow> 'r \<Rightarrow> nat \<Rightarrow> nat \<Rightarrow> (layout_error + nat) option" where
  "hw_occs_step R level acc symbol = do {
     occ \<leftarrow> w_occs R level symbol;
     ok_or (Some (add_usize acc (case occ of None \<Rightarrow> 2 ^ 64 - 1 | Some x \<Rightarrow> x)))
       (Inconsistent ''Huffman QWT level occurrence counts overflow'')
   }"

definition hw_check_level :: "'r wt_support_ops \<Rightarrow> unit \<Rightarrow> 'r \<times> nat \<Rightarrow> (layout_error + unit) option" where
  "hw_check_level R u ll = (
     let (level, level_len) = ll
     in rbind (foldR (hw_occs_step R level) 0 [0..<4]) (\<lambda>actual_len.
          if actual_len \<noteq> level_len then Some (Inl (Inconsistent ''Huffman QWT level payload length disagrees with directory''))
          else do {
            r \<leftarrow> w_rank R level 0 level_len;
            reject (r = None) (Inconsistent ''Huffman QWT level payload length disagrees with directory'')
          }))"

definition hw_check_encoder :: "nat \<Rightarrow> (u32 \<times> 'a::len word) list list \<Rightarrow> unit \<Rightarrow> nat \<times> prefix_code \<Rightarrow> (layout_error + unit) option" where
  "hw_check_encoder max_code_bits codes_decode u sc = (
     let (symbol, code) = sc; code_len = unat (pc_len code)
     in if pc_len code = 0 then Some (Inr ())
        else rbind (reject (code_len mod 2 \<noteq> 0 \<or> code_len > max_code_bits \<or> code_len > 32)
            (Inconsistent ''Huffman encode code length is invalid'')) (\<lambda>_.
        rbind (do {
            bad \<leftarrow> (if code_len < 32 then do { lim \<leftarrow> shl_u32 1 code_len; Some (pc_content code \<ge> lim) } else Some False);
            reject bad (Inconsistent ''Huffman encode code has bits outside its declared length'')
          }) (\<lambda>_.
        rbind (ok_or (Some (idx codes_decode code_len)) (Inconsistent ''Huffman decode bucket is missing'')) (\<lambda>bucket.
        rbind (ok_or (Some (search_code (pc_content code) bucket)) (Inconsistent ''Huffman encode code is absent from its decode bucket'')) (\<lambda>index. do {
          leaf \<leftarrow> idx bucket index;
          reject (unat (as_usize (snd leaf)) \<noteq> symbol) (Inconsistent ''Huffman encode/decode symbol mapping disagrees'')
        })))))"

definition hw_check_leaf :: "prefix_code list \<Rightarrow> nat \<Rightarrow> unit \<Rightarrow> u32 \<times> 'a::len word \<Rightarrow> (layout_error + unit) option" where
  "hw_check_leaf codes_encode code_len u leaf = (
     let (content, symbol) = leaf
     in rbind (ok_or (Some (idx codes_encode (unat (as_usize symbol)))) (Inconsistent ''Huffman decode symbol is outside the encode table'')) (\<lambda>code.
        reject (unat (pc_len code) \<noteq> code_len \<or> pc_content code \<noteq> content) (Inconsistent ''Huffman decode entry disagrees with its encode code'')))"

definition hw_check_bucket :: "prefix_code list \<Rightarrow> unit \<Rightarrow> nat \<times> (u32 \<times> 'a::len word) list \<Rightarrow> (layout_error + unit) option" where
  "hw_check_bucket codes_encode u lb = (
     let (code_len, bucket) = lb
     in rbind (reject (\<not> sorted_wrt (<) (map fst bucket)) (Inconsistent ''Huffman decode bucket must be strictly sorted'')) (\<lambda>_.
        foldR (hw_check_leaf codes_encode code_len) () bucket))"

section \<open>The checks on paths\<close>

text \<open>\<open>a + b\<close> on \<open>usize\<close>, with the overflow check.\<close>

definition sum_usize :: "nat \<Rightarrow> nat \<Rightarrow> nat option" where
  "sum_usize a b = do { guard (a + b < 2 ^ 64); Some (a + b) }"

definition hw_path_step :: "'r wt_support_ops \<Rightarrow> 'r list \<Rightarrow> nat list \<Rightarrow> u32 \<Rightarrow> nat \<times> nat \<times> nat \<Rightarrow> nat \<Rightarrow> (layout_error + nat \<times> nat \<times> nat) option" where
  "hw_path_step R qvs lens content st level_index = (
     let (start, end_pos, shift) = st
     in do {
       shift \<leftarrow> chk_sub shift 2;
       rbind (ok_or (Some (idx qvs level_index)) (Inconsistent ''Huffman code descends beyond available levels'')) (\<lambda>level. do {
         level_len \<leftarrow> idx lens level_index;
         rbind (reject (end_pos > level_len) (Inconsistent ''Huffman rank path exceeds a level length'')) (\<lambda>_. do {
           fragment \<leftarrow> two_bits_u32 content (int shift);
           smaller \<leftarrow> w_occs_smaller R level fragment;
           let offset = (case smaller of None \<Rightarrow> 0 | Some x \<Rightarrow> x);
           rbind (ok_or (w_rank R level fragment start) (Inconsistent ''Huffman rank path start is invalid'')) (\<lambda>rank_start. do {
             start \<leftarrow> sum_usize rank_start offset;
             rbind (ok_or (w_rank R level fragment end_pos) (Inconsistent ''Huffman rank path end is invalid'')) (\<lambda>rank_end. do {
               end_pos \<leftarrow> sum_usize rank_end offset;
               Some (Inr (start, end_pos, shift))
             })
           })
         })
       })
     })"

definition hw_check_path :: "'r wt_support_ops \<Rightarrow> 'r list \<Rightarrow> nat list \<Rightarrow> nat \<Rightarrow> unit \<Rightarrow> prefix_code \<Rightarrow> (layout_error + unit) option" where
  "hw_check_path R qvs lens n u code =
     rbind (foldR (hw_path_step R qvs lens (pc_content code)) (0, n, unat (pc_len code))
       [0..<div_ceil (unat (pc_len code)) 2]) (\<lambda>_. Some (Inr ()))"

text \<open>An entry of \<open>pending\<close>: a node of the tree of access paths.\<close>

type_synonym hw_pending = "nat \<times> nat \<times> nat \<times> u32 \<times> nat"

text \<open>One digit of a popped node: its check, and the child it pushes.\<close>

definition hw_pending_digit :: "'r wt_support_ops \<Rightarrow> (u32 \<times> 'a) list list \<Rightarrow> nat list \<Rightarrow> 'r \<Rightarrow> nat list \<Rightarrow> nat list \<Rightarrow> nat \<times> u32 \<times> nat \<Rightarrow>
    hw_pending list \<Rightarrow> nat \<Rightarrow> (layout_error + hw_pending list) option" where
  "hw_pending_digit R codes_decode lens level ranks_start ranks_end node pending digit = (
     let (level_index, content, code_len) = node
     in do {
       rank_start \<leftarrow> idx ranks_start digit;
       rank_end \<leftarrow> idx ranks_end digit;
       if rank_start = rank_end then Some (Inr pending)
       else (
         let child_content = push_bit 2 content OR of_nat digit;
             child_code_len = code_len + 2;
             has_decode = (case idx codes_decode child_code_len of None \<Rightarrow> False | Some bucket \<Rightarrow> search_code child_content bucket \<noteq> None)
         in case idx lens (level_index + 1) of
              None \<Rightarrow> rbind (reject (\<not> has_decode) (Inconsistent ''Huffman access path has no decode entry'')) (\<lambda>_. Some (Inr pending))
            | Some next_level_len \<Rightarrow> do {
                smaller \<leftarrow> w_occs_smaller R level digit;
                let offset = (case smaller of None \<Rightarrow> 0 | Some x \<Rightarrow> x);
                child_start \<leftarrow> sum_usize offset rank_start;
                child_end \<leftarrow> sum_usize offset rank_end;
                if child_end \<le> next_level_len then
                  rbind (reject has_decode (Inconsistent ''Huffman decode entry has a populated descendant'')) (\<lambda>_.
                    Some (Inr ((level_index + 1, child_start, child_end, child_content, child_code_len) # pending)))
                else if child_start \<ge> next_level_len then
                  rbind (reject (\<not> has_decode) (Inconsistent ''Huffman access path has no decode entry'')) (\<lambda>_. Some (Inr pending))
                else Some (Inl (Inconsistent ''Huffman prefix is split across terminal and continuing rows''))
              })
     })"

text \<open>\<open>pending\<close> is a stack: its top is the head of the list.\<close>

partial_function (option) hw_check_pending :: "'r wt_support_ops \<Rightarrow> (u32 \<times> 'a) list list \<Rightarrow> 'r list \<Rightarrow> nat list \<Rightarrow> hw_pending list \<Rightarrow>
    (layout_error + unit) option" where
  "hw_check_pending R codes_decode qvs lens pending =
     (case pending of
        [] \<Rightarrow> Some (Inr ())
      | (level_index, start, end_pos, content, code_len) # rest \<Rightarrow>
          (case idx qvs level_index of
             None \<Rightarrow> Some (Inl (Inconsistent ''Huffman access path exceeds available levels''))
           | Some level \<Rightarrow> Option.bind (idx lens level_index) (\<lambda>level_len.
               if end_pos > level_len then Some (Inl (Inconsistent ''Huffman access path exceeds a level''))
               else Option.bind (w_rank_all_unchecked R level start) (\<lambda>ranks_start.
                    Option.bind (w_rank_all_unchecked R level end_pos) (\<lambda>ranks_end.
                    Option.bind (foldR (hw_pending_digit R codes_decode lens level ranks_start ranks_end (level_index, content, code_len)) rest [0..<4]) (\<lambda>r.
                    case r of Inl e \<Rightarrow> Some (Inl e) | Inr pending \<Rightarrow> hw_check_pending R codes_decode qvs lens pending))))))"

section \<open>from_parts and deserialisation\<close>

definition hw_normalize :: "'r wt_support_ops \<Rightarrow> nat \<Rightarrow> nat \<Rightarrow> 'r list \<Rightarrow> nat list \<Rightarrow> (layout_error + 'r list \<times> nat list) option" where
  "hw_normalize R n n_levels qvs lens =
     (if n = 0 then
        rbind (reject (n_levels \<noteq> 0) (Inconsistent ''empty tree must have n_levels == 0'')) (\<lambda>_.
        if qvs = [] \<and> lens = [] then do { r \<leftarrow> w_default R; Some (Inr ([r], [0])) }
        else if length qvs = 1 \<and> lens = [0] then Some (Inr (qvs, lens))
        else Some (Inl (Inconsistent ''empty tree expects empty or default sentinel levels'')))
      else if n_levels = 0 \<or> length qvs \<noteq> n_levels \<or> length lens \<noteq> n_levels
      then Some (Inl (Inconsistent ''n_levels disagrees with qvs/lens lengths''))
      else Some (Inr (qvs, lens)))"

definition hw_from_parts :: "'r wt_support_ops \<Rightarrow> bool \<Rightarrow> nat \<Rightarrow> nat \<Rightarrow> prefix_code list \<Rightarrow> (u32 \<times> 'a::len word) list list \<Rightarrow>
    'r list \<Rightarrow> nat list \<Rightarrow> (layout_error + ('a word, 'r, 'p) huff_qwt) option" where
  "hw_from_parts R with_prefetch_support n n_levels codes_encode codes_decode qvs lens =
     rbind (reject with_prefetch_support PrefetchNotSupported) (\<lambda>_.
     rbind (reject (n_levels > MAX_QUAD_LEVELS) (Inconsistent ''Huffman QWT level count exceeds the supported maximum'')) (\<lambda>_.
     rbind (hw_normalize R n n_levels qvs lens) (\<lambda>(qvs, lens).
     rbind (reject (n > 0 \<and> idx lens 0 \<noteq> Some n) (Inconsistent ''first Huffman QWT level length disagrees with header length'')) (\<lambda>_.
     rbind (if n > 0 then foldR (hw_check_level R) () (zip qvs lens) else Some (Inr ())) (\<lambda>_.
     rbind (foldR (hw_check_encoder (min (n_levels * 2) (2 ^ 64 - 1)) codes_decode) () (zip [0..<length codes_encode] codes_encode)) (\<lambda>_.
     rbind (foldR (hw_check_bucket codes_encode) () (zip [0..<length codes_decode] codes_decode)) (\<lambda>_.
     rbind (foldR (hw_check_path R qvs lens n) () (filter (\<lambda>code. pc_len code \<noteq> 0) codes_encode)) (\<lambda>_.
     rbind (hw_check_pending R codes_decode qvs lens (if n = 0 then [] else [(0, 0, n, 0, 0)])) (\<lambda>_.
     Some (Inr \<lparr>hw_n = n, hw_n_levels = n_levels, hw_codes_encode = codes_encode, hw_codes_decode = codes_decode,
       hw_qvs = qvs, hw_lens = lens, hw_prefetch_support = None\<rparr>))))))))))"

definition hw_deserialize :: "'r wt_support_ops \<Rightarrow> bool \<Rightarrow> ('a::len word, 'r, 'p) huff_qwt \<Rightarrow>
    (de_error + ('a word, 'r, 'p) huff_qwt) option" where
  "hw_deserialize R with_prefetch_support decoded =
     (if with_prefetch_support \<or> hw_prefetch_support decoded \<noteq> None
      then Some (Inl (DeCustom ''deserializing prefetch-augmented Huffman QWT state is not supported''))
      else map_option (map_sum DeLayout id)
        (hw_from_parts R with_prefetch_support (hw_n decoded) (hw_n_levels decoded) (hw_codes_encode decoded)
          (hw_codes_decode decoded) (hw_qvs decoded) (hw_lens decoded)))"

end
