(* ===== verification/HuffQWTSerde.thy ===== *)
theory HuffQWTSerde
  imports HuffQWTOccs HuffQWTParts
begin

text \<open>
  \<open>from_parts\<close> and deserialisation accept the parts of a compressed quad wavelet tree that \<open>new\<close> built,
  and return the same tree: every check on the levels, the tables, the paths of the codes and the
  access paths passes, and the walk over the access paths ends.
\<close>

unbundle bit_operations_syntax

context wt_support begin

section \<open>Levels and tables\<close>

lemma hw_check_level_pass:
  assumes rep: "rep r D" and D: "\<forall>d\<in>set D. d < 4" and n: "length D < 2 ^ 64"
  shows "hw_check_level R () (r, length D) = Some (Inr ())"
proof -
  have "foldR (hw_occs_step R r) (smaller_of D 0) (map (\<lambda>k. k) [0..<4]) = Some (Inr (smaller_of D 4))"
  proof (rule foldR_upt_value)
    fix k :: nat assume k: "k < 4"
    have "smaller_of D (Suc k) \<le> length D" by (simp add: smaller_of_def)
    then have "smaller_of D k + count_list D k < 2 ^ 64" using n by (simp add: smaller_of_Suc)
    then show "hw_occs_step R r (smaller_of D k) k = Some (Inr (smaller_of D (Suc k)))"
      using k by (simp add: hw_occs_step_def occs_rep [OF rep] smaller_of_Suc)
  qed
  moreover have "smaller_of D 4 = length D" using D by (simp add: smaller_of_def filter_id_conv)
  moreover have "smaller_of D 0 = 0" by (simp add: smaller_of_def)
  ultimately have "foldR (hw_occs_step R r) 0 [0..<4] = Some (Inr (length D))" by simp
  then show ?thesis using rank_rep [OF rep, of 0 "length D"] by (simp add: hw_check_level_def)
qed

lemma hw_encoder_pass:
  fixes xs :: "'a::len word list" and D :: "(u32 \<times> 'a word) list list"
  assumes s: "quad_symbols codes xs" and dec: "decode_ok codes xs D" and L: "length D = 2 * L + 1" "L \<le> 16"
  shows "foldR (hw_check_encoder (min (L * 2) (2 ^ 64 - 1)) D) () (zip [0..<length codes] codes) = Some (Inr ())"
proof (rule foldR_pass)
  fix ic assume "ic \<in> set (zip [0..<length codes] codes)"
  then obtain i where i: "i < length codes" "ic = (i, codes ! i)" by (auto simp: set_zip)
  show "hw_check_encoder (min (L * 2) (2 ^ 64 - 1)) D () ic = Some (Inr ())"
  proof (cases "pc_len (codes ! i) = 0")
    case False
    let ?x = "of_nat i :: 'a word" and ?len = "unat (pc_len (codes ! i))"
    note c = code_index [OF quad_symbols_coded [OF s] i(1) False] and d = quad_symbolsD [OF s]
    have len: "?len = 2 * hq_len codes ?x" using d(3) [OF c(2)] c(1) by simp
    obtain k where k: "comp_len codes ?x < length D" "search_code (pc_content (codes ! i)) (D ! comp_len codes ?x) = Some k"
      "idx (D ! comp_len codes ?x) k = Some (pc_content (codes ! i), ?x)" using dec c unfolding decode_ok_def by metis
    have row: "idx D ?len = Some (D ! comp_len codes ?x)" using k(1) c(3) by (simp add: idx_def)
    have u: "unat (as_usize ?x) = i" using d(1) [of ?x] c(1) by simp
    have m: "min (L * 2) (2 ^ 64 - 1) = L * 2" using L(2) by simp
    have lim: "?len mod 2 = 0" "?len \<le> L * 2" "?len \<le> 32" using len k(1) L c(3) by auto
    have bad: "(if ?len < 32 then do { lim \<leftarrow> shl_u32 1 ?len; Some (pc_content (codes ! i) \<ge> lim) } else Some False) = Some False"
    proof (cases "?len < 32")
      case True
      have "unat (pc_content (codes ! i)) < 2 ^ ?len" using d(6) [OF c(2)] c(1) len by (simp add: power_mult)
      from content_small [OF this True] show ?thesis using True by (simp add: shl_u32_def push_bit_eq_mult)
    qed simp
    show ?thesis
      using False lim bad row k(2,3) u unfolding hw_check_encoder_def i(2) m by (simp add: Let_def)
  qed (simp add: hw_check_encoder_def i(2))
qed

lemma hw_buckets_pass:
  fixes xs :: "'a::len word list" and D :: "(u32 \<times> 'a word) list list"
  assumes s: "quad_symbols codes xs" and D: "huff_rows codes D"
  shows "foldR (hw_check_bucket codes) () (zip [0..<length D] D) = Some (Inr ())"
proof (rule foldR_pass)
  fix lb assume "lb \<in> set (zip [0..<length D] D)"
  then obtain l where l: "l < length D" "lb = (l, D ! l)" by (auto simp: set_zip)
  have "sorted_wrt (<) (map fst (D ! l))" by (rule huff_row_strict [OF quad_symbols_coded [OF s] D]) (use l(1) in simp)
  moreover have "foldR (hw_check_leaf codes l) () (D ! l) = Some (Inr ())"
  proof (rule foldR_pass)
    fix leaf assume "leaf \<in> set (D ! l)"
    moreover obtain w x where leaf: "leaf = (w, x)" by fastforce
    ultimately have "(w, x) \<in> set (code_row codes l)" using huff_row [OF D l(1)] by simp
    then have x: "x \<in> set xs" "comp_len codes x = l" "pc_content (codes ! unat x) = w"
      using code_row_entry [OF quad_symbols_coded [OF s]] by blast+
    have "idx codes (unat x) = Some (codes ! unat x)" using quad_symbolsD(2) [OF s x(1)] by (simp add: idx_def)
    then show "hw_check_leaf codes l () leaf = Some (Inr ())"
      using x quad_symbolsD(1) [OF s, of x] codedD(2) [OF quad_symbols_coded [OF s], of x] by (simp add: hw_check_leaf_def leaf)
  qed
  ultimately show "hw_check_bucket codes () lb = Some (Inr ())" by (simp add: hw_check_bucket_def l(2))
qed

section \<open>The paths of the codes\<close>

lemma hw_path_pass:
  assumes t: "hw_levels_ok rep dg len xs t" and c: "c \<in> set xs" and code: "quad_repr dg len c code" and n: "length xs < 2 ^ 43"
  shows "hw_check_path R (hw_qvs t) (hw_lens t) (length xs) () code = Some (Inr ())"
proof -
  note h = hw_levels_okD [OF t]
  have len: "unat (pc_len code) = 2 * len c" using code by (simp add: quad_repr_def)
  let ?P = "\<lambda>l i. cm_pos dg len 4 xs c l i"
  let ?g = "\<lambda>l. (?P l 0, ?P l (length xs), 2 * (len c - l))"
  have "hw_path_step R (hw_qvs t) (hw_lens t) (pc_content code) (?g l) l = Some (Inr (?g (Suc l)))" if l: "l < len c" for l
  proof -
    have lt: "l < hw_n_levels t" using h(5) [OF c] l by simp
    have ne: "xs \<noteq> []" using c by auto
    let ?D = "cm_digits dg len 4 xs l"
    note l0 = hw_path_level [OF t c le0 l] and ln = hw_path_level [OF t c order_refl l]
    note b0 = cm_path_bounds(4) [OF h(1) cm_fitsI [OF h(1) c] ne le0 l] and bn = cm_path_bounds(4) [OF h(1) cm_fitsI [OF h(1) c] ne order_refl l]
    have sub: "chk_sub (2 * (len c - l)) 2 = Some (2 * (len c - Suc l))" using l by simp
    have sh: "quad_shift (len c) l = int (2 * (len c - Suc l))" using l by (simp add: quad_shift_def of_nat_diff)
    have two: "two_bits_u32 (pc_content code) (int (2 * (len c - Suc l))) = Some (dg l c)"
      using two_bits_u32_eq [OF code l] unfolding sh .
    have occ: "w_occs_smaller R (hw_qvs t ! l) (dg l c) = Some (Some (smaller_of ?D (dg l c)))"
      using occs_smaller_rep [OF l0(2)] l0(3) by simp
    have big: "(2 :: nat) ^ 43 < 2 ^ 64" by (rule power_strict_increasing) simp_all
    have sums: "sum_usize (rank_of ?D (dg l c) (?P l 0)) (smaller_of ?D (dg l c)) = Some (?P (Suc l) 0)"
      "sum_usize (rank_of ?D (dg l c) (?P l (length xs))) (smaller_of ?D (dg l c)) = Some (?P (Suc l) (length xs))"
      using b0 bn n big by (simp_all add: sum_usize_def add.commute)
    show ?thesis
      unfolding hw_path_step_def prod.case sub l0(1) two occ h(9) [OF lt] l0(7) ln(7)
      using ln(4) sums sub by (simp add: Let_def two occ l0(7) ln(7) del: of_nat_mult of_nat_diff)
  qed
  from foldR_upt_value [of "len c" "hw_path_step R (hw_qvs t) (hw_lens t) (pc_content code)" ?g "\<lambda>l. l", OF this]
  have "foldR (hw_path_step R (hw_qvs t) (hw_lens t) (pc_content code)) (0, length xs, 2 * len c) [0..<len c] = Some (Inr (?g (len c)))" by simp
  moreover have "div_ceil (2 * len c) 2 = len c" by (simp add: div_ceil_def)
  ultimately show ?thesis by (simp add: hw_check_path_def len)
qed

end

section \<open>The access paths\<close>

text \<open>The entry of \<open>pending\<close> for a frame of the iterator: the check walks the same nodes.\<close>

definition hf_pend :: "huff_occs_range_frame \<Rightarrow> hw_pending" where
  "hf_pend f = (hf_level f, hf_start f, hf_end f, hf_bit_path f, hf_bit_len f)"

definition hf_inner :: "(nat \<Rightarrow> 'a::len word \<Rightarrow> nat) \<Rightarrow> ('a word \<Rightarrow> nat) \<Rightarrow> 'a word list \<Rightarrow> huff_occs_range_frame \<Rightarrow> bool" where
  "hf_inner dg len xs f \<longleftrightarrow> hf_level f < len (hd (hf_list dg xs f))"

lemma cm_group_cases:
  assumes "cm_group dg len b l N" "N \<noteq> []"
  shows "len (hd N) \<le> l \<Longrightarrow> \<forall>x\<in>set N. len x \<le> l" "l < len (hd N) \<Longrightarrow> \<forall>x\<in>set N. l < len x"
proof -
  have h: "hd N \<in> set N" using assms(2) by (rule hd_in_set)
  show "\<forall>x\<in>set N. len x \<le> l" if "len (hd N) \<le> l"
    using cm_groupD(4) [OF assms(1) h _ that] that by metis
  show "\<forall>x\<in>set N. l < len x" if "l < len (hd N)"
    using cm_groupD(4) [OF assms(1) _ h] that by (metis not_le)
qed

context wt_support begin

lemma hw_pending_digit_eq:
  fixes xs :: "'a::len word list"
  assumes t: "hw_levels_ok rep dg len xs t" and leaf: "hf_leaf t dg len xs xs" and n: "length xs < 2 ^ 43"
    and f: "hf_ok dg len (hw_n_levels t) xs xs f" and inner: "hf_inner dg len xs f" and d: "d < 4"
  defines "D \<equiv> cm_digits dg len 4 xs (hf_level f)"
  defines "N \<equiv> filter (\<lambda>x. dg (hf_level f) x = d) (hf_list dg xs f)"
  shows "hw_pending_digit R (hw_codes_decode t) (hw_lens t) (hw_qvs t ! hf_level f)
      (map (\<lambda>c. rank_of D c (hf_start f)) [0..<4]) (map (\<lambda>c. rank_of D c (hf_end f)) [0..<4])
      (hf_level f, hf_bit_path f, hf_bit_len f) pending d
    = Some (Inr ((if N \<noteq> [] \<and> hf_inner dg len xs (hf_child D f d) then [hf_pend (hf_child D f d)] else []) @ pending))"
proof -
  let ?L = "hw_n_levels t" and ?l = "hf_level f" and ?g = "hf_child D f d"
  let ?s = "smaller_of D d + rank_of D d (hf_start f)" and ?e = "smaller_of D d + rank_of D d (hf_end f)"
  note h = hw_levels_okD [OF t] and fd = hf_okD [OF f]
  have lens: "\<forall>x\<in>set xs. len x \<le> ?L" using h(5) by blast
  have long: "?l < len (hd (hf_list dg xs f))" using inner by (simp add: hf_inner_def)
  have "hd (hf_list dg xs f) \<in> set (hf_list dg xs f)" using fd(6) by (rule hd_in_set)
  then have lt: "?l < ?L" using lens long by (fastforce simp: hf_list_def cm_under_def)
  note ch = hf_child_ok [OF h(1) f subset_refl d h(3) lens long, folded D_def N_def]
  note cf = cm_frame_child [OF h(1) fd(7) subset_refl d lens long [unfolded hf_list_def], folded D_def]
  have idxs: "idx (map (\<lambda>c. rank_of D c i) [0..<4]) d = Some (rank_of D d i)" for i using d by (simp add: idx_def)
  show ?thesis
  proof (cases "N = []")
    case True
    then show ?thesis using ch(1) by (simp add: hw_pending_digit_def idxs)
  next
    case False
    then have gok: "hf_ok dg len ?L xs xs ?g" "hf_list dg xs ?g = N" using ch(3) by simp_all
    note gd = hf_okD [OF gok(1), unfolded gok(2)]
    have ne: "rank_of D d (hf_start f) \<noteq> rank_of D d (hf_end f)" using ch(1) False by simp
    have lvl: "hf_level ?g = Suc ?l" "hf_bit_len ?g = hf_bit_len f + 2" by (simp_all add: hf_child_def)
    have path: "push_bit 2 (hf_bit_path f) OR of_nat d = hf_bit_path ?g"
      using push_quad [OF d, of "unat (hf_bit_path f)", where 'a = 32] by (simp add: hf_child_def)
    obtain row where row: "idx (hw_codes_decode t) (hf_bit_len f + 2) = Some row"
      "if len (hd N) \<le> Suc ?l then \<exists>k. search_code (hf_bit_path ?g) row = Some k \<and> idx row k = Some (hf_bit_path ?g, hd N)
        else search_code (hf_bit_path ?g) row = None" using leaf gok unfolding hf_leaf_def lvl by (metis lvl)
    have has: "search_code (hf_bit_path ?g) row \<noteq> None \<longleftrightarrow> len (hd N) \<le> Suc ?l" using row(2) by (auto split: if_splits)
    have inn: "hf_inner dg len xs ?g \<longleftrightarrow> Suc ?l < len (hd N)" by (simp add: hf_inner_def gok(2) lvl)
    have lp: "w_occs_smaller R (hw_qvs t ! ?l) d = Some (Some (smaller_of D d))"
      using occs_smaller_rep [OF h(8) [OF lt], of d] d by (simp add: D_def)
    have ef: "?e \<le> length (cm_level dg len 4 xs ?l)" by (rule cf(6))
    then have big: "?e < 2 ^ 64" "?s < 2 ^ 64" using length_cm_level_le [OF h(1), of ?l] n ch(1) power_strict_increasing [of 43 64 "2 :: nat"] by linarith+
    have Nd: "N = filter (\<lambda>x. dg ?l x = d) (cm_under dg 4 ?l (unat (hf_bit_path f)) xs)" by (simp add: N_def hf_list_def)
    note cg = cm_group_cases [OF gd(3) False, unfolded lvl]
    show ?thesis
    proof (cases "Suc ?l < ?L")
      case True
      have nl: "idx (hw_lens t) (?l + 1) = Some (length (cm_level dg len 4 xs (Suc ?l)))" using h(9) [OF True] by simp
      show ?thesis
      proof (cases "Suc ?l < len (hd N)")
        case True
        then have "?e \<le> length (cm_level dg len 4 xs (Suc ?l))" using cf(7) cg(2) False unfolding Nd by blast
        then show ?thesis
          using ne nl lp big row(1) has inn True False
          by (simp add: hw_pending_digit_def idxs path sum_usize_def hf_pend_def hf_child_def Let_def del: cm_level.simps)
      next
        case leaf: False
        then have "len (hd N) \<le> Suc ?l" by simp
        then have st: "length (cm_level dg len 4 xs (Suc ?l)) \<le> ?s" using cf(8) cg(1) False unfolding Nd by blast
        moreover have "?s < ?e" using ch(1) False by simp
        ultimately have "\<not> ?e \<le> length (cm_level dg len 4 xs (Suc ?l))" by linarith
        then show ?thesis
          using ne nl lp big row(1) has inn leaf False st
          by (simp add: hw_pending_digit_def idxs path sum_usize_def Let_def del: cm_level.simps)
      qed
    next
      case last: False
      have nl: "idx (hw_lens t) (?l + 1) = None" using last h(6) by simp
      have "hd N \<in> set xs" using hd_in_set [OF False] by (auto simp: N_def hf_list_def cm_under_def)
      then have "len (hd N) \<le> Suc ?l" using lens last by fastforce
      then show ?thesis
        using ne nl row(1) has inn False by (simp add: hw_pending_digit_def idxs path Let_def)
    qed
  qed
qed

lemma hw_pending_step:
  fixes xs :: "'a::len word list"
  assumes t: "hw_levels_ok rep dg len xs t" and leaf: "hf_leaf t dg len xs xs" and n: "length xs < 2 ^ 43"
    and f: "hf_ok dg len (hw_n_levels t) xs xs f" and inner: "hf_inner dg len xs f"
  shows "\<exists>gs. hw_check_pending R (hw_codes_decode t) (hw_qvs t) (hw_lens t) (hf_pend f # rest)
      = hw_check_pending R (hw_codes_decode t) (hw_qvs t) (hw_lens t) (map hf_pend gs @ rest)
    \<and> (\<forall>g\<in>set gs. hf_ok dg len (hw_n_levels t) xs xs g \<and> hf_inner dg len xs g \<and> hf_level g = Suc (hf_level f))"
proof -
  let ?L = "hw_n_levels t" and ?l = "hf_level f"
  let ?D = "cm_digits dg len 4 xs ?l" and ?N = "\<lambda>d. filter (\<lambda>x. dg ?l x = d) (hf_list dg xs f)"
  note h = hw_levels_okD [OF t] and fd = hf_okD [OF f]
  have lens: "\<forall>x\<in>set xs. len x \<le> ?L" using h(5) by blast
  have long: "?l < len (hd (hf_list dg xs f))" using inner by (simp add: hf_inner_def)
  have "hd (hf_list dg xs f) \<in> set (hf_list dg xs f)" using fd(6) by (rule hd_in_set)
  then have lt: "?l < ?L" using lens long by (fastforce simp: hf_list_def cm_under_def)
  have e: "hf_end f \<le> length ?D" using hf_child_ok(2) [OF h(1) f subset_refl _ h(3) lens long, of 0] by simp
  let ?P = "\<lambda>d. ?N d \<noteq> [] \<and> hf_inner dg len xs (hf_child ?D f d)"
  let ?rs = "\<lambda>i. map (\<lambda>c. rank_of ?D c i) [0..<4]"
  let ?dig = "hw_pending_digit R (hw_codes_decode t) (hw_lens t) (hw_qvs t ! ?l) (?rs (hf_start f)) (?rs (hf_end f)) (?l, hf_bit_path f, hf_bit_len f)"
  have "?dig p d = Some (Inr ((if ?P d then [hf_pend (hf_child ?D f d)] else []) @ p))" if "d < 4" for p d
    by (rule hw_pending_digit_eq [OF t leaf n f inner that])
  then have "foldR ?dig p [0..<k] = Some (Inr (map hf_pend (map (hf_child ?D f) (filter ?P (rev [0..<k]))) @ p))" if "k \<le> 4" for k p
    using that by (induction k) (auto simp: foldR_append)
  from this [of 4] have loop: "foldR ?dig rest [0..<4] = Some (Inr (map hf_pend (map (hf_child ?D f) (filter ?P (rev [0..<4]))) @ rest))" by blast
  have ranks: "w_rank_all_unchecked R (hw_qvs t ! ?l) i = Some (?rs i)" if "i \<le> length ?D" for i
    by (rule rank_all_rep [OF h(8) [OF lt] that])
  have "hw_check_pending R (hw_codes_decode t) (hw_qvs t) (hw_lens t) (hf_pend f # rest)
      = hw_check_pending R (hw_codes_decode t) (hw_qvs t) (hw_lens t) (map hf_pend (map (hf_child ?D f) (filter ?P (rev [0..<4]))) @ rest)"
    using ranks [of "hf_start f"] ranks [OF e] h(7) [OF lt] h(9) [OF lt] e fd(2) loop
    by (subst hw_check_pending.simps) (simp add: hf_pend_def del: upt_rec_numeral map_map)
  moreover have "\<forall>g\<in>set (map (hf_child ?D f) (filter ?P (rev [0..<4]))). hf_ok dg len ?L xs xs g \<and> hf_inner dg len xs g \<and> hf_level g = Suc ?l"
    using hf_child_ok(3) [OF h(1) f subset_refl _ h(3) lens long] by (auto simp: hf_child_def)
  ultimately show ?thesis by blast
qed

lemma hw_pending_pass:
  fixes xs :: "'a::len word list"
  assumes t: "hw_levels_ok rep dg len xs t" and leaf: "hf_leaf t dg len xs xs" and n: "length xs < 2 ^ 43"
  shows "hf_ok dg len (hw_n_levels t) xs xs f \<Longrightarrow> hf_inner dg len xs f \<Longrightarrow>
    hw_check_pending R (hw_codes_decode t) (hw_qvs t) (hw_lens t) (hf_pend f # rest)
      = hw_check_pending R (hw_codes_decode t) (hw_qvs t) (hw_lens t) rest"
proof (induction "hw_n_levels t - hf_level f" arbitrary: f rest rule: less_induct)
  case less
  let ?chk = "hw_check_pending R (hw_codes_decode t) (hw_qvs t) (hw_lens t)"
  obtain gs where gs: "?chk (hf_pend f # rest) = ?chk (map hf_pend gs @ rest)"
    "\<forall>g\<in>set gs. hf_ok dg len (hw_n_levels t) xs xs g \<and> hf_inner dg len xs g \<and> hf_level g = Suc (hf_level f)"
    using hw_pending_step [OF t leaf n less.prems] by blast
  have "?chk (map hf_pend gs @ rest) = ?chk rest"
    using gs(2)
  proof (induction gs)
    case (Cons g gs)
    have g: "hf_ok dg len (hw_n_levels t) xs xs g" "hf_inner dg len xs g" "hf_level g = Suc (hf_level f)" using Cons.prems by simp_all
    have "hw_n_levels t - hf_level g < hw_n_levels t - hf_level f" using hf_okD(1) [OF g(1)] g(3) by simp
    from less.hyps [OF this g(1,2)] show ?case using Cons by simp
  qed simp
  then show ?case using gs(1) by simp
qed

section \<open>The round trip\<close>

lemma hw_from_parts_ok:
  fixes xs :: "'a::len word list" and t :: "('a word, 'r, 'p) huff_qwt"
  assumes t: "hw_ok rep xs t" and pf: "hw_prefetch_support t = None"
  shows "hw_from_parts R False (hw_n t) (hw_n_levels t) (hw_codes_encode t) (hw_codes_decode t) (hw_qvs t) (hw_lens t) = Some (Inr t)"
    "hw_deserialize R False t = Some (Inr t)"
proof -
  let ?codes = "hw_codes_encode t" and ?D = "hw_codes_decode t" and ?L = "hw_n_levels t"
  let ?dg = "hq_dg ?codes :: nat \<Rightarrow> 'a word \<Rightarrow> nat" and ?len = "hq_len ?codes :: 'a word \<Rightarrow> nat"
  have o: "xs \<noteq> []" "length xs < 2 ^ 43" "quad_symbols ?codes xs" "hw_levels_ok rep ?dg ?len xs t" "decode_ok ?codes xs ?D"
    "length ?D = 2 * ?L + 1" "huff_rows ?codes ?D" "0 < ?L" using t by (simp_all add: hw_ok_def)
  note h = hw_levels_okD [OF o(4)] and d = quad_symbolsD [OF o(3)]
  have n: "0 < hw_n t" using h(2) o(1) by simp
  have first: "idx (hw_lens t) 0 = Some (hw_n t)" using h(9) [OF o(8)] h(2) by simp
  have norm: "hw_normalize R (hw_n t) ?L (hw_qvs t) (hw_lens t) = Some (Inr (hw_qvs t, hw_lens t))"
    using n o(8) h(4,6) by (simp add: hw_normalize_def)
  have levels: "foldR (hw_check_level R) () (zip (hw_qvs t) (hw_lens t)) = Some (Inr ())"
  proof (rule foldR_pass)
    fix ll assume "ll \<in> set (zip (hw_qvs t) (hw_lens t))"
    then obtain l where l: "l < ?L" "ll = (hw_qvs t ! l, hw_lens t ! l)" using h(4,6) by (auto simp: set_zip)
    have "length (cm_digits ?dg ?len 4 xs l) < 2 ^ 64" using length_cm_level_le [OF h(1), of l] o(2) by simp
    from hw_check_level_pass [OF h(8) [OF l(1)] _ this] show "hw_check_level R () ll = Some (Inr ())"
      using cm_digits_less [OF h(1)] h(10) [OF l(1)] by (simp add: l(2))
  qed
  have enc: "foldR (hw_check_encoder (min (?L * 2) (2 ^ 64 - 1)) ?D) () (zip [0..<length ?codes] ?codes) = Some (Inr ())"
    by (rule hw_encoder_pass [OF o(3,5,6) h(3)])
  have buckets: "foldR (hw_check_bucket ?codes) () (zip [0..<length ?D] ?D) = Some (Inr ())" by (rule hw_buckets_pass [OF o(3,7)])
  have paths: "foldR (hw_check_path R (hw_qvs t) (hw_lens t) (hw_n t)) () (filter (\<lambda>code. pc_len code \<noteq> 0) ?codes) = Some (Inr ())"
  proof (rule foldR_pass)
    fix code assume "code \<in> set (filter (\<lambda>code. pc_len code \<noteq> 0) ?codes)"
    then obtain i where i: "i < length ?codes" "code = ?codes ! i" "pc_len (?codes ! i) \<noteq> 0" by (auto simp: in_set_conv_nth)
    note c = code_index [OF quad_symbols_coded [OF o(3)] i(1,3)]
    from hw_path_pass [OF o(4) c(2) d(8) [OF c(2)] o(2)] show "hw_check_path R (hw_qvs t) (hw_lens t) (hw_n t) () code = Some (Inr ())"
      using c(1) i(2) h(2) by simp
  qed
  let ?f = "\<lparr>hf_start = 0, hf_end = hw_n t, hf_level = 0, hf_bit_path = 0, hf_bit_len = 0\<rparr>"
  have leaf: "hf_leaf t ?dg ?len xs xs" by (rule hw_leaf_sound [OF o(3) refl o(5,6) subset_refl])
  have full: "slice xs 0 (length xs) = xs" by (simp add: slice_0)
  have root: "hf_ok ?dg ?len ?L xs xs ?f" "hf_list ?dg xs ?f = xs"
    using cm_frame_root [OF h(1), of 0 "length xs"] o(1) by (simp_all add: hf_ok_def hf_list_def full h(2))
  have "hf_inner ?dg ?len xs ?f" using root(2) d(4) o(1) by (simp add: hf_inner_def)
  from hw_pending_pass [OF o(4) leaf o(2) root(1) this, of "[]"]
  have pend: "hw_check_pending R ?D (hw_qvs t) (hw_lens t) [(0, 0, hw_n t, 0, 0)] = Some (Inr ())"
    by (simp add: hf_pend_def) (simp add: hw_check_pending.simps)
  have lim: "\<not> ?L > MAX_QUAD_LEVELS" using h(3) by (simp add: MAX_QUAD_LEVELS_def)
  show fp: "hw_from_parts R False (hw_n t) ?L ?codes ?D (hw_qvs t) (hw_lens t) = Some (Inr t)"
    using lim norm n first levels enc buckets paths pend pf unfolding hw_from_parts_def by simp
  show "hw_deserialize R False t = Some (Inr t)" unfolding hw_deserialize_def using pf by (simp add: fp)
qed

end

end
