(* ===== verification/HuffQWTProperties.thy ===== *)
theory HuffQWTProperties
  imports HuffQWTSerde
begin

text \<open>
  What the compressed quad wavelet trees \<open>HQWT256\<close> and \<open>HQWT512\<close> of \<^verbatim>\<open>src/quadwt/huffqwt.rs\<close> promise:
  the limited lengths and the codes made from them, the queries with and without prefetching, the
  iterator over occurrences, and reading a tree back.
\<close>

section \<open>Codes\<close>

text \<open>C29. On a list of even lengths with a length above 32 bits \<open>limit_code_lengths\<close> succeeds exactly when the list has at most
  \<open>2 ^ 32\<close> symbols; beyond that its final assertion panics. When it succeeds, the new lengths are even, at most 32 and no shorter
  than the old ones allow, they fit the space of the 32-bit codes, and the symbols keep their places and frequencies.\<close>

theorem limit_code_lengths_fits:
  assumes "\<forall>x\<in>set ls. even (li_len x)" "\<exists>x\<in>set ls. 32 < li_len x"
  shows "if 2 ^ 32 < length ls then limit_code_lengths ls = None
    else \<exists>f. limit_code_lengths ls = Some f \<and> map li_symbol f = map li_symbol ls \<and> map li_frequency f = map li_frequency ls
    \<and> (\<forall>x\<in>set f. li_len x \<le> 32 \<and> even (li_len x)) \<and> list_all2 (\<lambda>x x'. min (li_len x) 32 \<le> li_len x') ls f
    \<and> sum_list (map (\<lambda>x. 2 ^ (32 - li_len x)) f) \<le> (2 :: nat) ^ 32"
proof (cases "2 ^ 32 < length ls")
  case False
  then have n: "length ls \<le> 2 ^ 32" by simp
  obtain f where f: "limit_code_lengths ls = Some f" "short_lens f" "slots f \<le> 2 ^ 32"
    "list_all2 (\<lambda>x x'. min (li_len x) 32 \<le> li_len x' \<and> li_symbol x' = li_symbol x \<and> li_frequency x' = li_frequency x) ls f"
    using limit_code_lengths_ok [OF n assms] by blast
  have "list_all2 (\<lambda>x x'. min (li_len x) 32 \<le> li_len x') ls f" by (rule list_all2_mono [OF f(4)]) simp
  moreover have "map li_symbol f = map li_symbol ls" "map li_frequency f = map li_frequency ls"
    using f(4) by (simp_all add: list_all2_conv_all_nth list_eq_iff_nth_eq)
  ultimately show ?thesis using f(1-3) False by (simp add: short_lens_def slots_def)
qed (use limit_code_lengths_full assms in simp)

theorem limit_code_lengths_fits_witness:
  "\<exists>f. limit_code_lengths [\<lparr>li_symbol = 0, li_len = 2, li_frequency = 9\<rparr>, \<lparr>li_symbol = 1, li_len = 34, li_frequency = 1\<rparr>] = Some f
    \<and> map li_symbol f = [0, 1] \<and> (\<forall>x\<in>set f. li_len x \<le> 32)"
  using limit_code_lengths_fits [of "[\<lparr>li_symbol = 0, li_len = 2, li_frequency = 9\<rparr>, \<lparr>li_symbol = 1, li_len = 34, li_frequency = 1\<rparr>]"] by auto

lemma quad_codes_prefix:
  assumes q: "quad_codes syms sigma codes" and st: "s \<in> syms" "t \<in> syms"
    and len: "unat (pc_len (codes ! s)) \<le> unat (pc_len (codes ! t))"
    and pre: "unat (pc_content (codes ! t)) div 2 ^ (unat (pc_len (codes ! t)) - unat (pc_len (codes ! s))) = unat (pc_content (codes ! s))"
  shows "s = t"
proof -
  note d = quad_codesD [OF q]
  let ?w = "quad_width codes"
  have val: "cm_val (quad_dg codes) 4 l x = unat (pc_content (codes ! x)) div 4 ^ (?w x - l)" if "x \<in> syms" "l \<le> ?w x" for x l
    by (rule cm_val_number [OF _ d(7) [OF that(1)] that(2)]) (simp add: quad_dg_def)
  have w: "?w s \<le> ?w t" "unat (pc_len (codes ! t)) - unat (pc_len (codes ! s)) = 2 * (?w t - ?w s)"
    using d(4) [OF st(1)] d(4) [OF st(2)] len by linarith+
  have "cm_val (quad_dg codes) 4 (?w s) s = cm_val (quad_dg codes) 4 (?w s) t"
    using val [OF st(1) order_refl] val [OF st(2) w(1)] pre unfolding w(2) by (simp add: power_mult)
  moreover have "cm_ok (quad_dg codes) ?w 4 [s, t]" by (rule d(8)) (use st in simp)
  then have "cm_prefix_free (quad_dg codes) ?w 4 (set [s, t])" by (rule cm_ok_prefix_free)
  ultimately show ?thesis using w(1) unfolding cm_prefix_free_def by (metis list.set_intros)
qed

text \<open>C30. From lengths whose limited form fits the code space and leaves nodes unused only on the deepest
  level, \<open>craft4_wm_codes\<close> makes codes of those lengths for exactly the symbols listed, and no code is a
  prefix of another; its code array is never too small. With a \<open>sigma\<close> of \<open>2 ^ 60 - 1\<close> or more, whose code array cannot be
  allocated, it panics.\<close>

theorem craft4_codes_prefix_free:
  assumes "limit_code_lengths ls = Some f" "quad_code f" "\<forall>x\<in>set f. li_symbol x \<le> sigma"
  shows "if 2 ^ 60 \<le> sigma + 1 then craft4_wm_codes ls sigma = None
    else \<exists>codes. craft4_wm_codes ls sigma = Some codes \<and> length codes = sigma + 1
    \<and> (\<forall>s. s \<le> sigma \<longrightarrow> (pc_len (codes ! s) \<noteq> 0 \<longleftrightarrow> s \<in> li_symbol ` set f))
    \<and> (\<forall>x\<in>set f. unat (pc_len (codes ! li_symbol x)) = li_len x \<and> unat (pc_content (codes ! li_symbol x)) < 2 ^ li_len x)
    \<and> (\<forall>x\<in>set f. \<forall>y\<in>set f. li_len x \<le> li_len y
        \<and> unat (pc_content (codes ! li_symbol y)) div 2 ^ (li_len y - li_len x) = unat (pc_content (codes ! li_symbol x)) \<longrightarrow> x = y)"
proof (cases "2 ^ 60 \<le> sigma + 1")
  case False
  obtain codes where c: "craft4_wm_codes ls sigma = Some codes" "quad_codes (li_symbol ` set f) sigma codes"
    "\<forall>x\<in>set f. unat (pc_len (codes ! li_symbol x)) = li_len x"
    using craft4_wm_codes_ok [OF assms(1,2), of sigma] assms(3) False by fastforce
  note d = quad_codesD [OF c(2)]
  have "unat (pc_content (codes ! li_symbol x)) < 2 ^ li_len x" if "x \<in> set f" for x
  proof -
    have s: "li_symbol x \<in> li_symbol ` set f" using that by simp
    have l: "li_len x = 2 * quad_width codes (li_symbol x)" using d(4) [OF s] c(3) that by simp
    show ?thesis using d(7) [OF s] unfolding l by (simp add: power_mult)
  qed
  moreover have "x = y" if h: "x \<in> set f" "y \<in> set f" "li_len x \<le> li_len y"
    "unat (pc_content (codes ! li_symbol y)) div 2 ^ (li_len y - li_len x) = unat (pc_content (codes ! li_symbol x))" for x y
  proof -
    have s: "li_symbol x \<in> li_symbol ` set f" "li_symbol y \<in> li_symbol ` set f" using h(1,2) by simp_all
    have "li_symbol x = li_symbol y" by (rule quad_codes_prefix [OF c(2) s]) (use h c(3) in simp_all)
    then show ?thesis using quad_codeD(2) [OF assms(2)] h(1,2) by (auto simp: distinct_map dest: inj_onD)
  qed
  ultimately show ?thesis unfolding if_not_P [OF False] using c(1,3) d(1,2) by (intro exI [of _ codes]) simp
qed (simp add: craft4_wm_codes_huge)

text \<open>Five symbols: three children of the root are leaves, two leaves hang below the fourth.\<close>

lemma quad_code_five:
  assumes "distinct (map li_symbol ls)" "map li_len ls = [2, 2, 2, 4, 4]"
  shows "quad_code ls"
proof -
  obtain a b c d e where ls: "ls = [a, b, c, d, e]" "li_len a = 2" "li_len b = 2" "li_len c = 2" "li_len d = 4" "li_len e = 4"
    using assms(2) by (auto simp: map_eq_Cons_conv)
  have "l = 0 \<or> l = 2" if "even l" "\<exists>x\<in>set ls. l < li_len x" for l :: nat
  proof -
    have "l < 4" using that(2) ls by auto
    then show ?thesis using that(1) by presburger
  qed
  then show ?thesis using assms(1) ls unfolding quad_code_def by fastforce
qed

theorem craft4_codes_prefix_free_witness:
  "\<exists>codes. craft4_wm_codes [\<lparr>li_symbol = 3, li_len = 4, li_frequency = 1\<rparr>, \<lparr>li_symbol = 0, li_len = 4, li_frequency = 1\<rparr>,
      \<lparr>li_symbol = 1, li_len = 2, li_frequency = 2\<rparr>, \<lparr>li_symbol = 5, li_len = 2, li_frequency = 2\<rparr>, \<lparr>li_symbol = 4, li_len = 2, li_frequency = 3\<rparr>] 5 = Some codes
    \<and> unat (pc_len (codes ! 3)) = 4 \<and> pc_len (codes ! 2) = 0"
proof -
  let ?ls = "[\<lparr>li_symbol = 3, li_len = 4, li_frequency = 1\<rparr>, \<lparr>li_symbol = 0, li_len = 4, li_frequency = 1\<rparr>,
      \<lparr>li_symbol = 1, li_len = 2, li_frequency = 2\<rparr>, \<lparr>li_symbol = 5, li_len = 2, li_frequency = 2\<rparr>, \<lparr>li_symbol = 4, li_len = 2, li_frequency = 3\<rparr>]"
  have lim: "limit_code_lengths ?ls = Some ?ls" by (rule limit_code_lengths_id) auto
  have "quad_code (rev ?ls)" by (rule quad_code_five) simp_all
  then have "quad_code ?ls" by (rule quad_code_mset [rotated]) simp
  from craft4_codes_prefix_free [OF lim this, of 5] obtain codes where "craft4_wm_codes ?ls 5 = Some codes"
    "\<forall>s. s \<le> 5 \<longrightarrow> (pc_len (codes ! s) \<noteq> 0 \<longleftrightarrow> s \<in> li_symbol ` set ?ls)"
    "\<forall>x\<in>set ?ls. unat (pc_len (codes ! li_symbol x)) = li_len x \<and> unat (pc_content (codes ! li_symbol x)) < 2 ^ li_len x" by auto
  then show ?thesis by (intro exI [of _ codes]) (auto dest: spec [of _ 2])
qed

section \<open>Queries\<close>


abbreviation hqwt_represents :: "nat \<Rightarrow> 'a::len word list \<Rightarrow> ('a word, rs_support_plain rs_qvector, 'p) huff_qwt \<Rightarrow> bool" where
  "hqwt_represents bs \<equiv> hw_ok (\<lambda>r D. rq_ok (rp_inv bs) r \<and> rq_list r = D)"

lemma hqwt_built:
  fixes xs :: "'a::len word list"
  assumes "bs = 256 \<or> bs = 512" "LENGTH('a) \<le> 64" "length xs < 2 ^ 43 - 2048" "xs \<noteq> []" "quad_lengths_for code_lengths xs"
    and pf: "pf = None \<or> pf = Some ps_ops" and small: "\<forall>x\<in>set xs. unat x + 1 < 2 ^ 60"
  obtains t :: "('a word, rs_support_plain rs_qvector, prefetch_support) huff_qwt"
  where "hw_new (rq_ops (rs_plain bs)) pf code_lengths xs = Some t" "hqwt_represents bs xs t" "pf = None \<Longrightarrow> hw_prefetch_support t = None"
    "hw_pf_ok pf (cm_digits (hq_dg (hw_codes_encode t)) (hq_len (hw_codes_encode t)) 4 xs) t"
proof -
  have "pf_ok pf ps_rep" using pf ps_pf_ok by (auto simp: pf_ok_def)
  then have "\<exists>t. hw_from_owned (rq_ops (rs_plain bs)) pf code_lengths xs = Some t \<and> hqwt_represents bs xs t
    \<and> (case pf of None \<Rightarrow> hw_prefetch_support t = None
       | Some _ \<Rightarrow> \<exists>ps. hw_prefetch_support t = Some ps
           \<and> pf_built pf ps_rep (cm_digits (hq_dg (hw_codes_encode t)) (hq_len (hw_codes_encode t)) 4 xs) (hw_n_levels t) ps)"
    using assms(1) rs256.wt.hw_from_owned_ok [OF assms(2-5) _ small] rs512.wt.hw_from_owned_ok [OF assms(2-5) _ small] by blast
  then show thesis using that pf by (auto simp: hw_new_def hw_pf_ok_def)
qed




text \<open>Constant lengths of a short code.\<close>

lemma quad_lengths_const:
  fixes xs :: "'a::len word list"
  assumes "fst ` set ls = unat ` set xs" "\<forall>sl\<in>set ls. snd sl \<le> 16" "quad_code (len_infos (\<lambda>_. ls) xs)"
  shows "quad_lengths_for (\<lambda>_. ls) xs"
proof -
  have "li_len x \<le> 32" if "x \<in> set (len_infos (\<lambda>_. ls) xs)" for x using assms(2) that by (fastforce simp: len_infos_def)
  then have "limit_code_lengths (len_infos (\<lambda>_. ls) xs) = Some (len_infos (\<lambda>_. ls) xs)" by (rule limit_code_lengths_id)
  moreover have "snd sl * 2 < 2 ^ 32" if "sl \<in> set ls" for sl using assms(2) that by fastforce
  ultimately show ?thesis using assms(1,3) by (simp add: quad_lengths_for_def)
qed

lemma quad_lengths_five: "quad_lengths_for (\<lambda>_. [(9, 1), (0, 1), (7, 1), (200, 2), (3, 2)]) [9, 0, 200, 7, 0, 3, 9 :: 8 word]"
proof (rule quad_lengths_const)
  show "quad_code (len_infos (\<lambda>_. [(9, 1), (0, 1), (7, 1), (200, 2), (3, 2)]) [9, 0, 200, 7, 0, 3, 9 :: 8 word])"
    by (rule quad_code_five) (simp_all add: len_infos_def)
qed auto


text \<open>\<open>rank_prefetch\<close> of a compressed quad wavelet tree is \<open>rank\<close>, with and without the sampled prefetch data: neither the
  walk over the samples nor the walk over the blocks panics or changes the result.\<close>

theorem hqwt_rank_prefetch:
  fixes xs :: "'a::len word list"
  assumes "bs = 256 \<or> bs = 512" "LENGTH('a) \<le> 64" "length xs < 2 ^ 43 - 2048" "xs \<noteq> []" "quad_lengths_for code_lengths xs"
    "pf = None \<or> pf = Some ps_ops" "\<forall>x\<in>set xs. unat x + 1 < 2 ^ 60"
  shows "\<exists>t. hw_new (rq_ops (rs_plain bs)) pf code_lengths xs = Some t
    \<and> (\<forall>c i. hw_rank_prefetch (rq_ops (rs_plain bs)) pf t c i = hw_rank (rq_ops (rs_plain bs)) t c i)"
proof -
  obtain t :: "('a word, _, prefetch_support) huff_qwt" where t: "hw_new (rq_ops (rs_plain bs)) pf code_lengths xs = Some t" "hqwt_represents bs xs t"
    "hw_pf_ok pf (cm_digits (hq_dg (hw_codes_encode t)) (hq_len (hw_codes_encode t)) 4 xs) t" by (rule hqwt_built [OF assms])
  then show ?thesis using assms(1) rs256.wt.hw_rank_prefetch_eq [of xs t pf] rs512.wt.hw_rank_prefetch_eq [of xs t pf] by blast
qed

section \<open>Occurrences in a range\<close>

text \<open>C32. Collecting \<open>occs_range\<close> on a compressed quad wavelet tree gives every symbol of the range exactly once with its number
  of occurrences; the iterator always ends, and a range that is reversed or leaves the
  sequence gives \<open>None\<close>. A bound that is not a \<open>usize\<close> once it is made half open, as in \<open>..=usize::MAX\<close>, panics instead. The tree is over a
  nonempty sequence of fewer than \<open>2 ^ 43 - 2048\<close> symbols of at most 64 bits and below \<open>2 ^ 60 - 1\<close>, and its code gives lengths of at least
  one digit, and fewer than \<open>2 ^ 31\<close>, to exactly the symbols of the sequence and, limited to 32 bits, fits the code space and leaves nodes unused only on
  the deepest level.\<close>

theorem hqwt_occs_range:
  fixes xs :: "'a::len word list"
  assumes "bs = 256 \<or> bs = 512" "LENGTH('a) \<le> 64" "length xs < 2 ^ 43 - 2048" "xs \<noteq> []" "quad_lengths_for code_lengths xs"
    "\<forall>x\<in>set xs. unat x + 1 < 2 ^ 60"
  shows "\<exists>t :: ('a word, _, prefetch_support) huff_qwt. hw_new (rq_ops (rs_plain bs)) None code_lengths xs = Some t
    \<and> (\<forall>sb eb. case (range_start sb, range_end (length xs) eb) of
         (Some s, Some e) \<Rightarrow>
           (if e \<le> length xs \<and> s \<le> e
            then \<exists>it items. hw_occs_range t sb eb = Some (Some it)
               \<and> collect (hw_occs_next (rq_ops (rs_plain bs)) t) it = Some items \<and> distinct (map fst items)
               \<and> set items = (\<lambda>x. (x, count_list (slice xs s e) x)) ` set (slice xs s e)
            else hw_occs_range t sb eb = Some None)
       | _ \<Rightarrow> hw_occs_range t sb eb = None)"
proof -
  obtain t :: "('a word, _, prefetch_support) huff_qwt" where t: "hw_new (rq_ops (rs_plain bs)) None code_lengths xs = Some t" "hqwt_represents bs xs t"
    by (rule hqwt_built [OF assms(1-5), of None]) (use assms(6) in simp_all)
  have n: "hw_n t = length xs" using t(2) by (auto simp: hw_ok_def hw_levels_ok_def)
  have items: "\<exists>items. collect (hw_occs_next (rq_ops (rs_plain bs)) t) (hw_occs_range_unchecked s e) = Some items
      \<and> distinct (map fst items) \<and> set items = (\<lambda>x. (x, count_list (slice xs s e) x)) ` set (slice xs s e)"
    if "s \<le> e" "e \<le> length xs" for s e
    using assms(1) t(2) that rs256.wt.hw_occs_items [of xs t s e] rs512.wt.hw_occs_items [of xs t s e] by blast
  have "hw_occs_range t sb eb = (case (range_start sb, range_end (length xs) eb) of
      (Some s, Some e) \<Rightarrow> Some (if e \<le> length xs \<and> s \<le> e then Some (hw_occs_range_unchecked s e) else None) | _ \<Rightarrow> None)" for sb eb
    using n by (auto simp: hw_occs_range_def split: option.split)
  then show ?thesis using t(1) items by (intro exI [of _ t]) (simp split: option.split)
qed

theorem hqwt_occs_range_witness:
  "\<exists>(t :: (8 word, _, prefetch_support) huff_qwt) it items.
    hw_new (rq_ops (rs_plain 256)) None (\<lambda>_. [(9, 1), (0, 1), (7, 1), (200, 2), (3, 2)]) [9, 0, 200, 7, 0, 3, 9] = Some t
    \<and> hw_occs_range t (Included 1) (Excluded 5) = Some (Some it)
    \<and> collect (hw_occs_next (rq_ops (rs_plain 256)) t) it = Some items \<and> set items = {(0, 2), (200, 1), (7, 1)}
    \<and> hw_occs_range t Unbounded (Included (2 ^ 64 - 1)) = None"
proof -
  let ?xs = "[9, 0, 200, 7, 0, 3, 9 :: 8 word]"
  have r: "range_start (Included 1) = Some 1" "range_end (length ?xs) (Excluded 5) = Some 5" by (simp_all add: range_start_def range_end_def)
  have items: "(\<lambda>x. (x, count_list (slice ?xs 1 5) x)) ` set (slice ?xs 1 5) = {(0, 2), (200, 1), (7, 1)}" by (auto simp: slice_def)
  have c: "(5 \<le> length ?xs \<and> (1 :: nat) \<le> 5) = True" by simp
  have "256 = (256 :: nat) \<or> 256 = (512 :: nat)" "LENGTH(8) \<le> 64" "length ?xs < 2 ^ 43 - 2048" "?xs \<noteq> []" by simp_all
  moreover have "\<forall>x\<in>set ?xs. unat x + 1 < 2 ^ 60" by simp
  ultimately obtain t :: "(8 word, _, prefetch_support) huff_qwt" where t:
    "hw_new (rq_ops (rs_plain 256)) None (\<lambda>_. [(9, 1), (0, 1), (7, 1), (200, 2), (3, 2)]) ?xs = Some t"
    "\<And>sb eb. case (range_start sb, range_end (length ?xs) eb) of
         (Some s, Some e) \<Rightarrow>
           (if e \<le> length ?xs \<and> s \<le> e
            then \<exists>it items. hw_occs_range t sb eb = Some (Some it)
               \<and> collect (hw_occs_next (rq_ops (rs_plain 256)) t) it = Some items \<and> distinct (map fst items)
               \<and> set items = (\<lambda>x. (x, count_list (slice ?xs s e) x)) ` set (slice ?xs s e)
            else hw_occs_range t sb eb = Some None)
       | _ \<Rightarrow> hw_occs_range t sb eb = None"
    using hqwt_occs_range [OF _ _ _ _ quad_lengths_five, of 256] by blast
  have "hw_occs_range t Unbounded (Included (2 ^ 64 - 1)) = None"
    using t(2) [of Unbounded "Included (2 ^ 64 - 1)"] by (simp add: range_start_def range_end_def)
  moreover have "\<exists>it items. hw_occs_range t (Included 1) (Excluded 5) = Some (Some it)
      \<and> collect (hw_occs_next (rq_ops (rs_plain 256)) t) it = Some items \<and> set items = {(0, 2), (200, 1), (7, 1)}"
    using t(2) [of "Included 1" "Excluded 5"] unfolding r prod.case option.case items c if_True by blast
  ultimately show ?thesis using t(1) by blast
qed

section \<open>Reading a tree back\<close>

text \<open>\<open>from_parts\<close>, and so deserialisation, accepts the parts of a compressed quad wavelet tree and gives the tree back: all checks
  on its levels, tables, codes and access paths pass, and the walk over the pending nodes ends.\<close>

theorem hqwt_roundtrip:
  fixes xs :: "'a::len word list"
  assumes "bs = 256 \<or> bs = 512" "LENGTH('a) \<le> 64" "length xs < 2 ^ 43 - 2048" "xs \<noteq> []" "quad_lengths_for code_lengths xs"
    "\<forall>x\<in>set xs. unat x + 1 < 2 ^ 60"
  shows "\<exists>t :: ('a word, _, prefetch_support) huff_qwt. hw_new (rq_ops (rs_plain bs)) None code_lengths xs = Some t
    \<and> hw_from_parts (rq_ops (rs_plain bs)) False (hw_n t) (hw_n_levels t) (hw_codes_encode t) (hw_codes_decode t) (hw_qvs t) (hw_lens t) = Some (Inr t)
    \<and> hw_deserialize (rq_ops (rs_plain bs)) False t = Some (Inr t)"
proof -
  obtain t :: "('a word, _, prefetch_support) huff_qwt" where t: "hw_new (rq_ops (rs_plain bs)) None code_lengths xs = Some t" "hqwt_represents bs xs t"
    "hw_prefetch_support t = None" by (rule hqwt_built [OF assms(1-5), of None]) (use assms(6) in simp_all)
  then show ?thesis using assms(1) rs256.wt.hw_from_parts_ok [of xs t] rs512.wt.hw_from_parts_ok [of xs t] by (intro exI [of _ t]) auto
qed

end
