(* ===== verification/DArray.thy ===== *)
theory DArray
  imports BitVecIter BinSupport
begin

text \<open>
  \<^verbatim>\<open>src/darray/mod.rs\<close>: select over a bit vector without rank. The occurrences are cut in blocks of 1024; a block
  that spans less than \<open>2 ^ 16\<close> bits is dense and stores the distance of every 32nd occurrence from its first, a
  longer one is sparse and stores all its positions.
\<close>

unbundle bit_operations_syntax

section \<open>Inventories\<close>

definition da_BLOCK_SIZE :: nat where
  "da_BLOCK_SIZE = 1024"

definition da_SUBBLOCK_SIZE :: nat where
  "da_SUBBLOCK_SIZE = 32"

definition da_MAX_IN_BLOCK_DISTACE :: nat where
  "da_MAX_IN_BLOCK_DISTACE = 2 ^ 16"

text \<open>The entries of \<open>block_inventory\<close> are the \<open>i64\<close> values, \<open>as i64\<close> of a \<open>usize\<close>.\<close>

definition as_i64 :: "nat \<Rightarrow> int" where
  "as_i64 v = sint (of_nat v :: u64)"

record inventories =
  iv_n_sets :: nat
  iv_block_inventory :: "int list"
  iv_subblock_inventory :: "u16 list"
  iv_overflow_positions :: "nat list"

text \<open>The three vectors under construction.\<close>

type_synonym inventory_vecs = "int list \<times> u16 list \<times> nat list"

definition flush_block :: "nat list \<Rightarrow> inventory_vecs \<Rightarrow> inventory_vecs option" where
  "flush_block curr_positions iv = (
     let (block_inventory, subblock_inventory, overflow_positions) = iv
     in if curr_positions = [] then Some iv
        else do {
          d \<leftarrow> chk_sub (last curr_positions) (hd curr_positions);
          if d < da_MAX_IN_BLOCK_DISTACE then do {
            let v = hd curr_positions;
            dists \<leftarrow> those (map (\<lambda>k. do {
                p \<leftarrow> idx curr_positions (da_SUBBLOCK_SIZE * k);
                dist \<leftarrow> chk_sub p v;
                Some (of_nat dist :: u16)
              }) [0..<div_ceil (length curr_positions) da_SUBBLOCK_SIZE]);
            Some (block_inventory @ [as_i64 v], subblock_inventory @ dists, overflow_positions)
          } else
            Some (block_inventory @ [- as_i64 (length overflow_positions) - 1],
              subblock_inventory @ replicate (length curr_positions) 0xFFFF, overflow_positions @ curr_positions)
        })"

definition inventories_step :: "nat list \<times> nat \<times> inventory_vecs \<Rightarrow> nat \<Rightarrow> (nat list \<times> nat \<times> inventory_vecs) option" where
  "inventories_step st curr_pos = (
     let (curr_block_positions, n_sets, iv) = st;
         curr_block_positions = curr_block_positions @ [curr_pos]
     in if length curr_block_positions = da_BLOCK_SIZE then do {
          iv \<leftarrow> flush_block curr_block_positions iv;
          Some ([], n_sets + 1, iv)
        } else Some (curr_block_positions, n_sets + 1, iv))"

definition inventories_new :: "bool \<Rightarrow> bitvector \<Rightarrow> inventories option" where
  "inventories_new b bv = do {
     positions \<leftarrow> collect (bp_next b) (if b then bv_ones bv else bv_zeros bv);
     (curr_block_positions, n_sets, iv) \<leftarrow> foldM inventories_step ([], 0, [], [], []) positions;
     (block_inventory, subblock_inventory, overflow_positions) \<leftarrow> flush_block curr_block_positions iv;
     Some \<lparr>iv_n_sets = n_sets, iv_block_inventory = block_inventory, iv_subblock_inventory = subblock_inventory,
       iv_overflow_positions = overflow_positions\<rparr>
   }"

section \<open>The structure\<close>

record darray =
  da_bv :: bitvector
  da_ones_inventories :: inventories
  da_zeroes_inventories :: "inventories option"

definition da_new :: "bool \<Rightarrow> bitvector \<Rightarrow> darray option" where
  "da_new select0_support bv = do {
     ones_inventories \<leftarrow> inventories_new True bv;
     zeroes_inventories \<leftarrow> (if select0_support then do { z \<leftarrow> inventories_new False bv; Some (Some z) } else Some None);
     Some \<lparr>da_bv = bv, da_ones_inventories = ones_inventories, da_zeroes_inventories = zeroes_inventories\<rparr>
   }"

definition da_ones :: "darray \<Rightarrow> bit_positions_iter" where
  "da_ones self = bv_ones (da_bv self)"

definition da_ones_with_pos :: "darray \<Rightarrow> nat \<Rightarrow> bit_positions_iter" where
  "da_ones_with_pos self pos = bv_ones_with_pos (da_bv self) pos"

definition da_zeros :: "darray \<Rightarrow> bit_positions_iter" where
  "da_zeros self = bv_zeros (da_bv self)"

definition da_zeros_with_pos :: "darray \<Rightarrow> nat \<Rightarrow> bit_positions_iter" where
  "da_zeros_with_pos self pos = bv_zeros_with_pos (da_bv self) pos"

definition da_iter :: "darray \<Rightarrow> bitvector_iter" where
  "da_iter self = bv_iter (da_bv self)"

definition da_count_ones :: "darray \<Rightarrow> nat" where
  "da_count_ones self = iv_n_sets (da_ones_inventories self)"

definition da_count_zeros :: "darray \<Rightarrow> nat option" where
  "da_count_zeros self = chk_sub (bv_len (da_bv self)) (iv_n_sets (da_ones_inventories self))"

definition da_len :: "darray \<Rightarrow> nat" where
  "da_len self = bv_len (da_bv self)"

definition da_is_empty :: "darray \<Rightarrow> bool" where
  "da_is_empty self \<longleftrightarrow> bv_len (da_bv self) = 0"

definition da_get :: "darray \<Rightarrow> nat \<Rightarrow> bool option option" where
  "da_get self i = bv_get (da_bv self) i"

definition da_get_unchecked :: "darray \<Rightarrow> nat \<Rightarrow> bool option" where
  "da_get_unchecked self i = bv_get_unchecked (da_bv self) i"

section \<open>Select\<close>

text \<open>The loop over the words; a word past the end of the vector panics.\<close>

partial_function (option) scan_select_words :: "bool \<Rightarrow> bitvector \<Rightarrow> nat \<Rightarrow> nat \<Rightarrow> u64 \<Rightarrow> (nat \<times> u64 \<times> nat) option" where
  "scan_select_words b bv reminder word_idx word =
     (let popcnt = pop word
      in if reminder < popcnt then Some (word_idx, word, reminder)
         else do {
           w \<leftarrow> bv_get_word bv (word_idx + 1);
           scan_select_words b bv (reminder - popcnt) (word_idx + 1) (if b then w else NOT w)
         })"

definition da_select :: "bool \<Rightarrow> darray \<Rightarrow> nat \<Rightarrow> inventories \<Rightarrow> nat option option" where
  "da_select b self i inventories =
     (if i \<ge> iv_n_sets inventories then Some None
      else do {
        let block = i div da_BLOCK_SIZE;
        block_pos \<leftarrow> idx (iv_block_inventory inventories) block;
        if block_pos < 0 then do {
          let overflow_pos = nat (- block_pos - 1);
          p \<leftarrow> idx (iv_overflow_positions inventories) (overflow_pos + (i AND (da_BLOCK_SIZE - 1)));
          Some (Some p)
        } else do {
          let subblock = i div da_SUBBLOCK_SIZE;
          dist \<leftarrow> idx (iv_subblock_inventory inventories) subblock;
          let start_pos = nat block_pos + unat dist;
          let reminder = i AND (da_SUBBLOCK_SIZE - 1);
          if reminder = 0 then Some (Some start_pos)
          else do {
            let word_idx = drop_bit 6 start_pos;
            let word_shift = start_pos AND 63;
            w \<leftarrow> bv_get_word (da_bv self) word_idx;
            let word = (if \<not> b then NOT w AND push_bit word_shift 0xFFFFFFFFFFFFFFFF else w AND push_bit word_shift 0xFFFFFFFFFFFFFFFF);
            (word_idx, word, reminder) \<leftarrow> scan_select_words b (da_bv self) reminder word_idx word;
            select_intra \<leftarrow> select_in_word word (of_nat reminder);
            Some (Some (push_bit 6 word_idx + select_intra))
          }
        }
      })"

definition da_select1 :: "darray \<Rightarrow> nat \<Rightarrow> nat option option" where
  "da_select1 self i = da_select True self i (da_ones_inventories self)"

definition da_select1_unchecked :: "darray \<Rightarrow> nat \<Rightarrow> nat option" where
  "da_select1_unchecked self i = do { r \<leftarrow> da_select True self i (da_ones_inventories self); r }"

definition da_select0 :: "bool \<Rightarrow> darray \<Rightarrow> nat \<Rightarrow> nat option option" where
  "da_select0 select0_support self i = do {
     guard select0_support;
     zeroes_inventories \<leftarrow> da_zeroes_inventories self;
     da_select False self i zeroes_inventories
   }"

definition da_select0_unchecked :: "bool \<Rightarrow> darray \<Rightarrow> nat \<Rightarrow> nat option" where
  "da_select0_unchecked select0_support self i = do {
     guard select0_support;
     zeroes_inventories \<leftarrow> da_zeroes_inventories self;
     r \<leftarrow> da_select False self i zeroes_inventories;
     r
   }"

section \<open>Collecting\<close>

definition da_from_bools :: "bool \<Rightarrow> bool list \<Rightarrow> darray option" where
  "da_from_bools select0_support bits = do { bv \<leftarrow> bv_from_bools bits; da_new select0_support bv }"

definition da_from_positions :: "bool \<Rightarrow> int list \<Rightarrow> darray option" where
  "da_from_positions select0_support data = do {
     guard (\<forall>(v, w)\<in>set (zip data (tl data)). v < w);
     bv \<leftarrow> bv_from_positions data;
     da_new select0_support bv
   }"

section \<open>What the inventories hold\<close>

text \<open>The blocks of a list of positions, the sparse ones among them, and the entries of a block.\<close>

definition da_block :: "nat list \<Rightarrow> nat \<Rightarrow> nat list" where
  "da_block ps b = take 1024 (drop (1024 * b) ps)"

definition da_sparse :: "nat list \<Rightarrow> nat \<Rightarrow> bool" where
  "da_sparse ps b \<longleftrightarrow> 2 ^ 16 \<le> last (da_block ps b) - hd (da_block ps b)"

definition da_over :: "nat list \<Rightarrow> nat \<Rightarrow> nat list" where
  "da_over ps b = (if da_sparse ps b then da_block ps b else [])"

definition da_overs :: "nat list \<Rightarrow> nat \<Rightarrow> nat list" where
  "da_overs ps k = concat (map (da_over ps) [0..<k])"

definition da_dists :: "nat list \<Rightarrow> nat \<Rightarrow> u16 list" where
  "da_dists ps b = (let blk = da_block ps b
     in if da_sparse ps b then replicate (length blk) 0xFFFF
        else map (\<lambda>k. of_nat (blk ! (32 * k) - hd blk)) [0..<div_ceil (length blk) 32])"

definition da_head :: "nat list \<Rightarrow> nat \<Rightarrow> int" where
  "da_head ps b = (if da_sparse ps b then - as_i64 (length (da_overs ps b)) - 1 else as_i64 (hd (da_block ps b)))"

definition da_vecs :: "nat list \<Rightarrow> nat \<Rightarrow> inventory_vecs" where
  "da_vecs ps k = (map (da_head ps) [0..<k], concat (map (da_dists ps) [0..<k]), da_overs ps k)"

lemma sorted_hd_nth: "sorted ps \<Longrightarrow> i < length ps \<Longrightarrow> hd ps \<le> ps ! i"
  by (cases ps) (auto simp: nth_Cons split: nat.splits)

lemma div_32_less: "k < div_ceil n 32 \<Longrightarrow> 32 * k < n" for k n :: nat
proof -
  assume k: "k < div_ceil n 32"
  have n: "n = 32 * (n div 32) + n mod 32" by simp
  show "32 * k < n"
  proof (cases "n mod 32 = 0")
    case True
    then show ?thesis using k n by (simp add: div_ceil_def)
  next
    case False
    then have "k \<le> n div 32" "0 < n mod 32" using k by (simp_all add: div_ceil_def)
    then show ?thesis using n by linarith
  qed
qed

lemma da_block_not_Nil: "1024 * b < length ps \<Longrightarrow> da_block ps b \<noteq> []"
  by (simp add: da_block_def)

lemma sorted_da_block: "sorted ps \<Longrightarrow> sorted (da_block ps b)"
  by (simp add: da_block_def sorted_wrt_take sorted_wrt_drop)

lemma flush_block_eq:
  assumes s: "sorted ps" and b: "1024 * b < length ps"
  shows "flush_block (da_block ps b) (da_vecs ps b) = Some (da_vecs ps (Suc b))"
proof -
  let ?blk = "da_block ps b"
  have ne: "?blk \<noteq> []" by (rule da_block_not_Nil [OF b])
  note srt = sorted_da_block [OF s, of b]
  have "hd ?blk \<le> last ?blk" using sorted_hd_nth [OF srt, of "length ?blk - 1"] ne by (simp add: last_conv_nth)
  then have d: "chk_sub (last ?blk) (hd ?blk) = Some (last ?blk - hd ?blk)" by simp
  have "those (map (\<lambda>k. do { p \<leftarrow> idx ?blk (32 * k); dist \<leftarrow> chk_sub p (hd ?blk); Some (of_nat dist :: u16) }) [0..<div_ceil (length ?blk) 32])
    = Some (map (\<lambda>k. of_nat (?blk ! (32 * k) - hd ?blk)) [0..<div_ceil (length ?blk) 32])"
  proof (rule those_map_Some)
    fix k assume "k \<in> set [0..<div_ceil (length ?blk) 32]"
    then have k: "32 * k < length ?blk" by (simp add: div_32_less)
    then show "do { p \<leftarrow> idx ?blk (32 * k); dist \<leftarrow> chk_sub p (hd ?blk); Some (of_nat dist :: u16) } = Some (of_nat (?blk ! (32 * k) - hd ?blk))"
      using sorted_hd_nth [OF srt k] by simp
  qed
  then show ?thesis
    using ne d by (simp add: flush_block_def da_vecs_def da_MAX_IN_BLOCK_DISTACE_def da_SUBBLOCK_SIZE_def da_head_def da_dists_def
      da_overs_def da_over_def da_sparse_def Let_def not_less)
qed

lemma da_block_append: "1024 * Suc b \<le> length ps \<Longrightarrow> da_block (ps @ qs) b = da_block ps b"
  by (simp add: da_block_def)

lemma da_vecs_append:
  assumes "1024 * k \<le> length ps"
  shows "da_vecs (ps @ qs) k = da_vecs ps k"
proof -
  have b: "da_block (ps @ qs) b = da_block ps b" if "b < k" for b
  proof (rule da_block_append)
    have "1024 * Suc b \<le> 1024 * k" using that by simp
    then show "1024 * Suc b \<le> length ps" using assms by linarith
  qed
  have o: "map (da_over (ps @ qs)) [0..<j] = map (da_over ps) [0..<j]" if "j \<le> k" for j
    using b that by (intro map_cong refl) (simp add: da_over_def da_sparse_def)
  have "map (da_head (ps @ qs)) [0..<k] = map (da_head ps) [0..<k]"
    by (intro map_cong refl) (simp add: da_head_def da_sparse_def da_overs_def b o)
  moreover have "map (da_dists (ps @ qs)) [0..<k] = map (da_dists ps) [0..<k]"
    by (intro map_cong refl) (simp add: da_dists_def da_sparse_def b)
  ultimately show ?thesis using o [OF order_refl] by (simp only: da_vecs_def da_overs_def)
qed

lemma inventories_loop:
  "sorted ps \<Longrightarrow> foldM inventories_step ([], 0, [], [], []) ps
    = Some (drop (1024 * (length ps div 1024)) ps, length ps, da_vecs ps (length ps div 1024))"
proof (induction ps rule: rev_induct)
  case Nil
  then show ?case by (simp add: da_vecs_def da_overs_def)
next
  case (snoc p ps)
  define k where "k = length ps div 1024"
  define cur where "cur = drop (1024 * k) (ps @ [p])"
  have le: "1024 * k \<le> length ps" by (simp add: k_def)
  have cur': "drop (1024 * k) ps @ [p] = cur" using le by (simp add: cur_def)
  have IH: "foldM inventories_step ([], 0, [], [], []) ps = Some (drop (1024 * k) ps, length ps, da_vecs (ps @ [p]) k)"
    using snoc da_vecs_append [OF le, of "[p]"] by (simp add: k_def sorted_wrt_append)
  have len: "length cur = Suc (length ps) - 1024 * k" using le by (simp add: cur_def)
  have step: "inventories_step (drop (1024 * k) ps, length ps, da_vecs (ps @ [p]) k) p
      = (if length cur = 1024 then do { iv \<leftarrow> flush_block cur (da_vecs (ps @ [p]) k); Some ([], length ps + 1, iv) }
         else Some (cur, length ps + 1, da_vecs (ps @ [p]) k))"
    unfolding inventories_step_def Let_def prod.case cur' da_BLOCK_SIZE_def ..
  have dm: "Suc (length ps) = 1024 * (Suc (length ps) div 1024) + Suc (length ps) mod 1024" by simp
  show ?case
  proof (cases "Suc (length ps) mod 1024 = 0")
    case True
    have d: "Suc (length ps) div 1024 = Suc k" using True by (simp add: div_Suc k_def)
    have n: "Suc (length ps) = 1024 * k + 1024" using dm unfolding d True by simp
    have blk: "da_block (ps @ [p]) k = cur" using n by (simp add: da_block_def cur_def)
    have "1024 * k < length (ps @ [p])" using le by simp
    from flush_block_eq [OF snoc.prems this] have "flush_block cur (da_vecs (ps @ [p]) k) = Some (da_vecs (ps @ [p]) (Suc k))" by (simp only: blk)
    moreover have "length cur = 1024" using len n by simp
    moreover have "drop (1024 * Suc k) (ps @ [p]) = []" using n by simp
    moreover have "length (ps @ [p]) div 1024 = Suc k" using d by simp
    ultimately show ?thesis using IH by (simp add: foldM_append step del: mult_Suc_right)
  next
    case False
    have d: "length (ps @ [p]) div 1024 = k" using False by (simp add: div_Suc k_def)
    have "length cur \<noteq> 1024"
    proof
      assume "length cur = 1024"
      then have "Suc (length ps) = 1024 * (k + 1)" using len le by simp
      then show False using False by simp
    qed
    then show ?thesis using IH d by (simp add: foldM_append step) (simp add: cur_def)
  qed
qed

lemma inventories_new_eq:
  assumes ps: "collect (bp_next b) (if b then bv_ones bv else bv_zeros bv) = Some ps" "sorted ps"
  defines "k \<equiv> div_ceil (length ps) 1024"
  shows "inventories_new b bv = Some \<lparr>iv_n_sets = length ps, iv_block_inventory = map (da_head ps) [0..<k],
    iv_subblock_inventory = concat (map (da_dists ps) [0..<k]), iv_overflow_positions = da_overs ps k\<rparr>"
proof -
  let ?q = "length ps div 1024"
  have "flush_block (drop (1024 * ?q) ps) (da_vecs ps ?q) = Some (da_vecs ps k)"
  proof (cases "length ps mod 1024 = 0")
    case True
    have "length ps = 1024 * ?q + length ps mod 1024" by simp
    then have "length ps \<le> 1024 * ?q" using True by linarith
    then have "drop (1024 * ?q) ps = []" by simp
    moreover have "k = ?q" using True by (simp add: k_def div_ceil_def)
    ultimately show ?thesis by (simp add: flush_block_def split: prod.split)
  next
    case False
    then have k: "k = Suc ?q" by (simp add: k_def div_ceil_def)
    have "length ps = 1024 * ?q + length ps mod 1024" "length ps mod 1024 < 1024" by simp_all
    then have "1024 * ?q < length ps" "length ps - 1024 * ?q \<le> 1024" using False by linarith+
    moreover from this have "da_block ps ?q = drop (1024 * ?q) ps" by (simp add: da_block_def)
    ultimately show ?thesis using flush_block_eq [OF ps(2), of ?q] k by simp
  qed
  then show ?thesis using ps(1) inventories_loop [OF ps(2)] by (simp add: inventories_new_def da_vecs_def split: prod.splits)
qed

section \<open>Reading the inventories\<close>

lemma concat_upt_nth:
  assumes "b < k" "j < length (f b)"
  shows "length (concat (map f [0..<b])) + j < length (concat (map f [0..<k]))"
    "concat (map f [0..<k]) ! (length (concat (map f [0..<b])) + j) = f b ! j"
proof -
  have "concat (map f [0..<k]) = concat (map f [0..<b]) @ f b @ concat (map f [Suc b..<k])"
    using upt_split [OF assms(1)] by simp
  then show "length (concat (map f [0..<b])) + j < length (concat (map f [0..<k]))"
    "concat (map f [0..<k]) ! (length (concat (map f [0..<b])) + j) = f b ! j"
    using assms(2) by (simp_all add: nth_append)
qed

lemma da_block_nth:
  assumes "i < length ps"
  shows "i mod 1024 < length (da_block ps (i div 1024))" "da_block ps (i div 1024) ! (i mod 1024) = ps ! i" "i div 1024 < div_ceil (length ps) 1024"
proof -
  have i: "i = 1024 * (i div 1024) + i mod 1024" "i mod 1024 < 1024" by simp_all
  then have "1024 * (i div 1024) + i mod 1024 < length ps" using assms by linarith
  then show 1: "i mod 1024 < length (da_block ps (i div 1024))" using i(2) unfolding da_block_def length_take length_drop by linarith
  show "da_block ps (i div 1024) ! (i mod 1024) = ps ! i" using 1 i by (simp add: da_block_def)
  show "i div 1024 < div_ceil (length ps) 1024" by (rule div_less_div_ceil) (use assms in simp_all)
qed

text \<open>A sparse block: its positions are looked up.\<close>

lemma da_overflow_nth:
  assumes "i < length ps" "da_sparse ps (i div 1024)"
  shows "idx (da_overs ps (div_ceil (length ps) 1024)) (length (da_overs ps (i div 1024)) + i mod 1024) = Some (ps ! i)"
  using concat_upt_nth [OF da_block_nth(3) [OF assms(1)], of "i mod 1024" "da_over ps"] da_block_nth(1,2) [OF assms(1)] assms(2)
  by (simp add: da_overs_def da_over_def)

lemma length_da_dists: "length (da_dists ps b) = (if da_sparse ps b then length (da_block ps b) else div_ceil (length (da_block ps b)) 32)"
  by (simp add: da_dists_def Let_def)

lemma da_block_full: "Suc b \<le> length ps div 1024 \<Longrightarrow> length (da_block ps b) = 1024"
proof -
  assume "Suc b \<le> length ps div 1024"
  then have "1024 * Suc b \<le> 1024 * (length ps div 1024)" by (rule mult_le_mono2)
  moreover have "1024 * (length ps div 1024) \<le> length ps" by simp
  ultimately have "1024 * b + 1024 \<le> length ps" by simp
  then show ?thesis by (simp add: da_block_def)
qed

text \<open>A dense block whose predecessors are all dense: the entry of the subblock is the distance of its first position.\<close>

lemma da_dist_nth:
  assumes i: "i < length ps" and dense: "\<forall>b\<le>i div 1024. \<not> da_sparse ps b" and s: "sorted ps"
  defines "j \<equiv> i div 32 * 32"
  shows "idx (concat (map (da_dists ps) [0..<div_ceil (length ps) 1024])) (i div 32) = Some (of_nat (ps ! j - hd (da_block ps (i div 1024))) :: u16)"
    "hd (da_block ps (i div 1024)) \<le> ps ! j" "ps ! j - hd (da_block ps (i div 1024)) < 2 ^ 16" "j \<le> i"
proof -
  let ?b = "i div 1024" and ?m = "i mod 1024 div 32"
  let ?blk = "da_block ps ?b"
  show ji: "j \<le> i" by (simp add: j_def)
  have q: "i div 32 = 32 * ?b + ?m"
  proof -
    have "i mod (32 * 32) = 32 * (i div 32 mod 32) + i mod 32" by (rule mod_mult2_eq)
    then have "?m = i div 32 mod 32" by simp
    moreover have "?b = i div 32 div 32" using div_mult2_eq [of i 32 32] by simp
    ultimately show ?thesis by simp
  qed
  have jb: "j div 1024 = ?b" "j mod 1024 = 32 * ?m"
  proof -
    have "i mod 1024 < 1024" by simp
    then have m: "32 * ?m < 1024" using times_div_less_eq_dividend [of 32 "i mod 1024"] by linarith
    have "j = 1024 * ?b + 32 * ?m" unfolding j_def q by simp
    then show "j div 1024 = ?b" "j mod 1024 = 32 * ?m" using m by (simp_all add: div_add1_eq)
  qed
  have jl: "j < length ps" using ji i by linarith
  note nth = da_block_nth [OF jl, unfolded jb]
  have pre: "length (concat (map (da_dists ps) [0..<?b])) = 32 * ?b"
  proof -
    have "length (da_dists ps b) = 32" if "b < ?b" for b
    proof -
      have "Suc b \<le> length ps div 1024" using that div_le_mono [of i "length ps" 1024] i by linarith
      then show ?thesis using dense that da_block_full [of b ps] by (simp add: length_da_dists div_ceil_def)
    qed
    then have "map length (map (da_dists ps) [0..<?b]) = map (\<lambda>_. 32) [0..<?b]" by simp
    then have "length (concat (map (da_dists ps) [0..<?b])) = sum_list (map (\<lambda>_. 32) [0..<?b])" by (simp only: length_concat)
    then show ?thesis by (simp add: sum_list_triv)
  qed
  have m: "?m < div_ceil (length ?blk) 32" by (rule div_less_div_ceil) (use da_block_nth(1) [OF i] in simp_all)
  have nd: "\<not> da_sparse ps ?b" using dense by blast
  have "idx (concat (map (da_dists ps) [0..<div_ceil (length ps) 1024])) (32 * ?b + ?m) = Some (da_dists ps ?b ! ?m)"
    using concat_upt_nth [OF da_block_nth(3) [OF i], of ?m "da_dists ps"] m nd pre by (simp add: length_da_dists)
  moreover have "da_dists ps ?b ! ?m = of_nat (?blk ! (32 * ?m) - hd ?blk)" using nd m by (simp add: da_dists_def Let_def)
  ultimately show "idx (concat (map (da_dists ps) [0..<div_ceil (length ps) 1024])) (i div 32) = Some (of_nat (ps ! j - hd ?blk) :: u16)"
    unfolding q using nth(2) by simp
  note srt = sorted_da_block [OF s, of ?b]
  have hd: "hd ?blk \<le> ?blk ! (32 * ?m)" by (rule sorted_hd_nth [OF srt nth(1)])
  then show "hd ?blk \<le> ps ! j" using nth(2) by simp
  have "?blk ! (32 * ?m) \<le> last ?blk"
    using sorted_nth_mono [OF srt, of "32 * ?m" "length ?blk - 1"] nth(1) by (subst last_conv_nth) auto
  then show "ps ! j - hd ?blk < 2 ^ 16" using nd nth(2) by (simp add: da_sparse_def)
qed

section \<open>Scanning the words\<close>

text \<open>The occurrences looked for; past the end the padding counts as zeros.\<close>

abbreviation da_at :: "bool \<Rightarrow> bitvector \<Rightarrow> nat \<Rightarrow> bool" where
  "da_at b bv p \<equiv> obit (bv_list bv) p = b"

text \<open>A word that shows the occurrences of its 64 positions from \<open>a\<close> on.\<close>

definition da_shows :: "bool \<Rightarrow> bitvector \<Rightarrow> nat \<Rightarrow> nat \<Rightarrow> u64 \<Rightarrow> bool" where
  "da_shows b bv k a w \<longleftrightarrow> (\<forall>j. bit w j \<longleftrightarrow> j < 64 \<and> a \<le> 64 * k + j \<and> da_at b bv (64 * k + j))"

lemma da_word:
  assumes ok: "bv_ok bv" and k: "64 * k < bv_n_bits bv"
  shows "\<exists>w. bv_get_word bv k = Some w \<and> (\<forall>j. bit (if b then w else NOT w) j \<longleftrightarrow> j < 64 \<and> da_at b bv (64 * k + j))"
proof -
  have "bv_n_bits bv \<le> 512 * length (bv_data bv)"
    using ok bm_ok_len [of "bm_from bv"] by (simp add: bv_ok_def bm_ok_def bm_from_def)
  then have "k < 8 * length (bv_data bv)" using k by linarith
  note o = word_obit [OF ok this]
  have "bit (cast_to_u64_slice (bv_data bv) ! k) j \<Longrightarrow> j < 64" for j by (auto dest: bit_imp_le_length)
  then have "bit (if b then w else NOT w) j \<longleftrightarrow> j < 64 \<and> da_at b bv (64 * k + j)" if "w = cast_to_u64_slice (bv_data bv) ! k" for j w
    using o [of j] that by (cases b) (auto simp: bit_not_iff)
  then show ?thesis using bv_get_word_eq [OF ok k] by blast
qed

lemma da_shows_count:
  assumes "da_shows b bv k a w" "64 * k \<le> a" "m \<le> 64"
  shows "cntp (da_at b bv) (max a (64 * k + m)) = cntp (da_at b bv) a + cntp (bit w) m"
  using assms(3)
proof (induction m)
  case 0
  then show ?case using assms(2) by (simp add: max_def)
next
  case (Suc m)
  then have IH: "cntp (da_at b bv) (max a (64 * k + m)) = cntp (da_at b bv) a + cntp (bit w) m" by simp
  have bit: "bit w m \<longleftrightarrow> a \<le> 64 * k + m \<and> da_at b bv (64 * k + m)" using assms(1) Suc.prems by (simp add: da_shows_def)
  show ?case
  proof (cases "a \<le> 64 * k + m")
    case True
    then have "max a (64 * k + Suc m) = Suc (64 * k + m)" "max a (64 * k + m) = 64 * k + m" by simp_all
    then show ?thesis using IH bit True by simp
  next
    case False
    then have "max a (64 * k + Suc m) = a" "max a (64 * k + m) = a" by simp_all
    then show ?thesis using IH bit False by simp
  qed
qed

lemma scan_select_words_eq:
  assumes ok: "bv_ok bv" and t: "t < bv_n_bits bv" "da_at b bv t"
    and inv: "da_shows b bv k a w" "64 * k \<le> a" "a \<le> 64 * k + 64" "a \<le> t" "cntp (da_at b bv) t = cntp (da_at b bv) a + r"
  shows "\<exists>k' w' r'. scan_select_words b bv r k w = Some (k', w', r') \<and> select_in_word w' (of_nat r') = Some (t - 64 * k') \<and> 64 * k' \<le> t"
  using inv
proof (induction "t - 64 * k" arbitrary: k a w r rule: less_induct)
  case less
  let ?P = "da_at b bv"
  note h = less.prems
  have "max a (64 * k + 64) = 64 * k + 64" using h(3) by simp
  then have pop: "cntp ?P (64 * k + 64) = cntp ?P a + pop w" using da_shows_count [OF h(1,2) order_refl] by (simp add: pop_def)
  show ?case
  proof (cases "r < pop w")
    case True
    have "cntp ?P t < cntp ?P (64 * k + 64)" unfolding pop h(5) using True by (rule add_strict_left_mono)
    then have "t < 64 * k + 64" by (rule cntp_less_imp)
    moreover define m where "m = t - 64 * k"
    ultimately have m: "t = 64 * k + m" "m < 64" using le_trans [OF h(2,4)] by linarith+
    have "max a (64 * k + m) = t" using h(4) m by simp
    then have "cntp (bit w) m = r" using da_shows_count [OF h(1,2), of m] h(5) m(2) by simp
    moreover have "bit w m" using h(1,4) m t(2) by (simp add: da_shows_def)
    ultimately have "selp (bit w) 64 r = Some m" using m(2) by (intro selpI) simp_all
    from select_in_word_pos [OF this] show ?thesis using True m by (simp add: scan_select_words.simps [of b bv r k w])
  next
    case False
    have ge: "64 * (k + 1) \<le> t"
    proof (rule ccontr)
      assume "\<not> 64 * (k + 1) \<le> t"
      then have "t < 64 * k + 64" by simp
      then have "cntp ?P t < cntp ?P (64 * k + 64)" by (rule cntp_strict [where P = ?P, OF t(2)])
      then show False unfolding pop h(5) using False by linarith
    qed
    then have "64 * (k + 1) < bv_n_bits bv" using t(1) by linarith
    from da_word [OF ok this, of b] obtain v where v: "bv_get_word bv (k + 1) = Some v"
      "\<forall>j. bit (if b then v else NOT v) j \<longleftrightarrow> j < 64 \<and> ?P (64 * (k + 1) + j)" by blast
    have sh: "da_shows b bv (k + 1) (64 * (k + 1)) (if b then v else NOT v)" using v(2) by (simp add: da_shows_def)
    have "64 * (k + 1) = 64 * k + 64" by simp
    then have "cntp ?P t = cntp ?P (64 * (k + 1)) + (r - pop w)" using pop h(5) False by (simp only:)
    moreover have "t - 64 * (k + 1) < t - 64 * k" using ge by simp
    ultimately have "\<exists>k' w' r'. scan_select_words b bv (r - pop w) (k + 1) (if b then v else NOT v) = Some (k', w', r')
      \<and> select_in_word w' (of_nat r') = Some (t - 64 * k') \<and> 64 * k' \<le> t" using less.hyps [OF _ sh _ _ ge] by simp
    moreover have "scan_select_words b bv r k w = scan_select_words b bv (r - pop w) (k + 1) (if b then v else NOT v)"
      unfolding scan_select_words.simps [of b bv r k w] using False v(1) by simp
    ultimately show ?thesis by (simp only:)
  qed
qed

text \<open>The first word, masked from the start.\<close>

lemma da_shows_first:
  assumes ok: "bv_ok bv" and s: "s < bv_n_bits bv"
  shows "\<exists>w. bv_get_word bv (s div 64) = Some w
    \<and> da_shows b bv (s div 64) s ((if b then w else NOT w) AND push_bit (s mod 64) 0xFFFFFFFFFFFFFFFF)"
proof -
  have "64 * (s div 64) < bv_n_bits bv" using s times_div_less_eq_dividend [of 64 s] by linarith
  from da_word [OF ok this, of b] obtain w where w: "bv_get_word bv (s div 64) = Some w"
    "\<forall>j. bit (if b then w else NOT w) j \<longleftrightarrow> j < 64 \<and> da_at b bv (64 * (s div 64) + j)" by blast
  have max: "(0xFFFFFFFFFFFFFFFF :: u64) = - 1" by simp
  have "s = 64 * (s div 64) + s mod 64" by simp
  then have le: "s mod 64 \<le> j \<longleftrightarrow> s \<le> 64 * (s div 64) + j" for j by linarith
  have "bit ((if b then w else NOT w) AND push_bit (s mod 64) (- 1)) j \<longleftrightarrow> j < 64 \<and> s \<le> 64 * (s div 64) + j \<and> da_at b bv (64 * (s div 64) + j)" for j
    unfolding bit_and_iff w(2) [rule_format] bit_push_bit_iff le by auto
  then show ?thesis using w(1) unfolding da_shows_def max by blast
qed

section \<open>Select\<close>

lemma as_i64_small: "v < 2 ^ 63 \<Longrightarrow> as_i64 v = int v"
  by (simp add: as_i64_def signed_of_nat signed_take_bit_int_eq_self_iff)

lemma length_da_overs: "length (da_overs ps k) \<le> 1024 * k"
  by (induction k) (auto simp: da_overs_def da_over_def da_block_def)

lemma and_low: "i AND 1023 = i mod 1024" "i AND 31 = i mod 32" for i :: nat
  using take_bit_eq_mask [of 10 i] take_bit_eq_mask [of 5 i] by (simp_all add: take_bit_eq_mod mask_eq_exp_minus_1)

text \<open>What a structure built from a vector knows of its occurrences.\<close>

definition da_rep :: "bool \<Rightarrow> bitvector \<Rightarrow> nat list \<Rightarrow> inventories \<Rightarrow> bool" where
  "da_rep b bv ps iv \<longleftrightarrow> ps = filter (\<lambda>p. bv_list bv ! p = b) [0..<bv_n_bits bv] \<and> (let k = div_ceil (length ps) 1024
     in iv = \<lparr>iv_n_sets = length ps, iv_block_inventory = map (da_head ps) [0..<k],
       iv_subblock_inventory = concat (map (da_dists ps) [0..<k]), iv_overflow_positions = da_overs ps k\<rparr>)"

lemma da_repD:
  assumes "da_rep b bv ps iv"
  shows "iv_n_sets iv = length ps" "iv_block_inventory iv = map (da_head ps) [0..<div_ceil (length ps) 1024]"
    "iv_subblock_inventory iv = concat (map (da_dists ps) [0..<div_ceil (length ps) 1024])"
    "iv_overflow_positions iv = da_overs ps (div_ceil (length ps) 1024)" "length ps \<le> bv_n_bits bv" "x \<in> set ps \<Longrightarrow> x < bv_n_bits bv" "sorted ps"
  using assms length_filter_le [of "\<lambda>p. bv_list bv ! p = b" "[0..<bv_n_bits bv]"]
  by (auto simp: da_rep_def Let_def intro!: sorted_wrt_filter)

lemma inventories_new_rep:
  assumes "bv_ok bv"
  shows "\<exists>iv. inventories_new b bv = Some iv \<and> da_rep b bv (filter (\<lambda>p. bv_list bv ! p = b) [0..<bv_n_bits bv]) iv"
proof -
  let ?ps = "filter (\<lambda>p. bv_list bv ! p = b) [0..<bv_n_bits bv]"
  have "collect (bp_next b) (if b then bv_ones bv else bv_zeros bv) = Some ?ps" using bv_positions [OF assms] by (cases b) simp_all
  moreover have "sorted ?ps" by (intro sorted_wrt_filter) (simp add: sorted_upt)
  ultimately show ?thesis using inventories_new_eq by (simp add: da_rep_def Let_def)
qed

lemma da_positions:
  assumes "i < length (filter (\<lambda>p. bv_list bv ! p = b) [0..<bv_n_bits bv])"
  defines "t \<equiv> filter (\<lambda>p. bv_list bv ! p = b) [0..<bv_n_bits bv] ! i"
  shows "t < bv_n_bits bv" "da_at b bv t" "cntp (da_at b bv) t = i"
proof -
  have "filter (\<lambda>p. bv_list bv ! p = b) [0..<bv_n_bits bv] = filter (da_at b bv) [0..<bv_n_bits bv]"
    by (rule filter_cong) (auto simp: obit_def)
  then have "selp (da_at b bv) (bv_n_bits bv) i = Some t" using assms by (simp add: selp_def)
  then show "t < bv_n_bits bv" "da_at b bv t" "cntp (da_at b bv) t = i" by (simp_all add: selp_eq_Some_iff)
qed

lemma da_select_sparse:
  assumes rep: "da_rep b bv ps iv" and n: "bv_n_bits bv < 2 ^ 63" and i: "i < length ps" and sp: "da_sparse ps (i div 1024)"
  shows "da_select b self i iv = Some (Some (ps ! i))"
proof -
  let ?b = "i div 1024"
  note r = da_repD [OF rep]
  have "1024 * ?b \<le> i" by simp
  then have "length (da_overs ps ?b) < 2 ^ 63" using length_da_overs [of ps ?b] i n r(5) by linarith
  then have h: "da_head ps ?b = - int (length (da_overs ps ?b)) - 1" using sp by (simp add: da_head_def as_i64_small)
  have "nat (- da_head ps ?b - 1) = length (da_overs ps ?b)" "da_head ps ?b < 0" unfolding h by simp_all
  moreover have "idx (map (da_head ps) [0..<div_ceil (length ps) 1024]) ?b = Some (da_head ps ?b)" using da_block_nth(3) [OF i] by simp
  moreover note da_overflow_nth [OF i sp]
  ultimately show ?thesis using r i by (simp add: da_select_def Let_def da_BLOCK_SIZE_def and_low not_le)
qed

text \<open>A dense block: the entry of the subblock inventory that \<open>select\<close> reads decides.\<close>

lemma da_select_dense:
  assumes rep: "da_rep b bv ps iv" and n: "bv_n_bits bv < 2 ^ 63" and i: "i < length ps" and sp: "\<not> da_sparse ps (i div 1024)"
    and e: "idx (iv_subblock_inventory iv) (i div 32) = Some e"
  defines "s \<equiv> hd (da_block ps (i div 1024)) + unat e"
  shows "da_select b self i iv = (if i mod 32 = 0 then Some (Some s) else do {
      w \<leftarrow> bv_get_word (da_bv self) (s div 64);
      (word_idx, word, reminder) \<leftarrow> scan_select_words b (da_bv self) (i mod 32) (s div 64)
        ((if b then w else NOT w) AND push_bit (s mod 64) 0xFFFFFFFFFFFFFFFF);
      select_intra \<leftarrow> select_in_word word (of_nat reminder);
      Some (Some (push_bit 6 word_idx + select_intra)) })"
proof -
  let ?b = "i div 1024"
  have "hd (da_block ps ?b) \<in> set ps"
    using da_block_nth(1) [OF i] by (metis da_block_def in_set_dropD in_set_takeD list.set_sel(1) list.size(3) not_less_zero)
  then have "hd (da_block ps ?b) < 2 ^ 63" using da_repD(6) [OF rep] n by force
  then have h: "da_head ps ?b = int (hd (da_block ps ?b))" using sp by (simp add: da_head_def as_i64_small)
  have "idx (map (da_head ps) [0..<div_ceil (length ps) 1024]) ?b = Some (int (hd (da_block ps ?b)))" using da_block_nth(3) [OF i] h by simp
  then show ?thesis
    using da_repD [OF rep] i e
    by (cases b) (simp_all add: Let_def da_select_def da_BLOCK_SIZE_def da_SUBBLOCK_SIZE_def and_low and_63 drop_bit_eq_div not_le s_def)
qed

lemma da_select_eq:
  assumes ok: "bv_ok bv" and rep: "da_rep b bv ps iv" and n: "bv_n_bits bv < 2 ^ 63" and self: "da_bv self = bv"
    and blocks: "i < length ps \<Longrightarrow> da_sparse ps (i div 1024) \<or> (\<forall>c\<le>i div 1024. \<not> da_sparse ps c)"
  shows "da_select b self i iv = Some (idx ps i)"
proof (cases "i < length ps")
  case False
  then show ?thesis using da_repD(1) [OF rep] by (simp add: da_select_def)
next
  case i: True
  show ?thesis
  proof (cases "da_sparse ps (i div 1024)")
    case True
    from da_select_sparse [OF rep n i this] show ?thesis using i by simp
  next
    case False
    then have dense: "\<forall>c\<le>i div 1024. \<not> da_sparse ps c" using blocks i by blast
    have ps: "ps = filter (\<lambda>p. bv_list bv ! p = b) [0..<bv_n_bits bv]" using rep by (simp add: da_rep_def)
    note srt = da_repD(7) [OF rep]
    let ?j = "i div 32 * 32" and ?hd = "hd (da_block ps (i div 1024))"
    note e = da_dist_nth [OF i dense srt]
    have "unat (of_nat (ps ! ?j - ?hd) :: u16) = ps ! ?j - ?hd" using e(3) by (simp add: unat_of_nat_small)
    then have s: "?hd + unat (of_nat (ps ! ?j - ?hd) :: u16) = ps ! ?j" using e(2) by simp
    have iv: "idx (iv_subblock_inventory iv) (i div 32) = Some (of_nat (ps ! ?j - ?hd))" using e(1) da_repD(3) [OF rep] by simp
    have j: "?j < length ps" "?j + i mod 32 = i" using e(4) i by simp_all
    note pj = da_positions [OF j(1) [unfolded ps], folded ps] and pt = da_positions [OF i [unfolded ps], folded ps]
    have le: "ps ! ?j \<le> ps ! i" by (rule sorted_nth_mono [OF srt e(4) i])
    from da_shows_first [OF ok pj(1), of b] obtain w where w: "bv_get_word bv (ps ! ?j div 64) = Some w"
      "da_shows b bv (ps ! ?j div 64) (ps ! ?j) ((if b then w else NOT w) AND push_bit (ps ! ?j mod 64) 0xFFFFFFFFFFFFFFFF)" by blast
    have around: "64 * (ps ! ?j div 64) \<le> ps ! ?j" "ps ! ?j \<le> 64 * (ps ! ?j div 64) + 64"
      using div_mult_mod_eq [of "ps ! ?j" 64] mod_less_divisor [of 64 "ps ! ?j"] by linarith+
    have cnt: "cntp (da_at b bv) (ps ! i) = cntp (da_at b bv) (ps ! ?j) + i mod 32" using pj(3) pt(3) j(2) by simp
    from scan_select_words_eq [OF ok pt(1,2) w(2) around le cnt] obtain k' w' r' where
      "scan_select_words b bv (i mod 32) (ps ! ?j div 64) ((if b then w else NOT w) AND push_bit (ps ! ?j mod 64) 0xFFFFFFFFFFFFFFFF) = Some (k', w', r')"
      "select_in_word w' (of_nat r') = Some (ps ! i - 64 * k')" "64 * k' \<le> ps ! i" by blast
    moreover have "i mod 32 = 0 \<Longrightarrow> ?j = i" using j(2) by linarith
    ultimately show ?thesis
      using da_select_dense [OF rep n i False iv, of self, unfolded s] w(1) self i by (auto simp: push_bit_eq_mult)
  qed
qed

end
