(* ===== verification/DArrayProperties.thy ===== *)
theory DArrayProperties
  imports DArray BitProperties
begin

text \<open>
  What \<open>DArray\<close> of \<^verbatim>\<open>src/darray/mod.rs\<close> promises: select of ones and zeros, wherever no sparse block comes before
  the dense block of the occurrence, and what goes wrong behind a sparse block.
\<close>

text \<open>The \<open>i\<close>-th of the positions lies in a sparse block, or in a dense one with only dense blocks before it.\<close>

definition da_reachable :: "nat list \<Rightarrow> nat \<Rightarrow> bool" where
  "da_reachable ps i \<longleftrightarrow> da_sparse ps (i div 1024) \<or> (\<forall>c\<le>i div 1024. \<not> da_sparse ps c)"

abbreviation positions_of :: "bool list \<Rightarrow> bool \<Rightarrow> nat list" where
  "positions_of bs b \<equiv> filter (\<lambda>p. bs ! p = b) [0..<length bs]"

lemma select_of_positions: "select_of bs b i = idx (positions_of bs b) i"
  by (simp add: select_of_def selp_def)

lemma da_new_ok:
  assumes "bv_ok bv"
  shows "\<exists>da. da_new s0 bv = Some da \<and> da_bv da = bv \<and> da_rep True bv (positions_of (bv_list bv) True) (da_ones_inventories da)
    \<and> (case da_zeroes_inventories da of None \<Rightarrow> \<not> s0 | Some z \<Rightarrow> s0 \<and> da_rep False bv (positions_of (bv_list bv) False) z)"
proof -
  obtain o1 where o: "inventories_new True bv = Some o1" "da_rep True bv (positions_of (bv_list bv) True) o1"
    using inventories_new_rep [OF assms, of True] by auto
  obtain z1 where z: "inventories_new False bv = Some z1" "da_rep False bv (positions_of (bv_list bv) False) z1"
    using inventories_new_rep [OF assms, of False] by auto
  show ?thesis using o z by (simp add: da_new_def)
qed

text \<open>C33. A \<open>DArray\<close> collected from bits answers access and the counts exactly, and \<open>select1(i)\<close> (and \<open>select0(i)\<close> when it is
  supported; it panics otherwise) is the position of the \<open>i\<close>-th one (zero) or \<open>None\<close>, as long as no sparse
  block precedes the dense block of the occurrence. Nothing panics.\<close>

theorem darray_select:
  assumes "length bs < 2 ^ 43"
  shows "\<exists>da. da_from_bools s0 bs = Some da \<and> da_len da = length bs \<and> da_count_ones da = count_list bs True
    \<and> (\<forall>i. da_get da i = Some (idx bs i)
      \<and> (da_reachable (positions_of bs True) i \<longrightarrow> da_select1 da i = Some (select_of bs True i))
      \<and> (s0 \<and> da_reachable (positions_of bs False) i \<longrightarrow> da_select0 s0 da i = Some (select_of bs False i))
      \<and> (\<not> s0 \<longrightarrow> da_select0 s0 da i = None))"
proof -
  obtain bv where bv: "bv_from_bools bs = Some bv" "bv_ok bv" "bv_list bv = bs" "bv_n_bits bv < 2 ^ 43"
    by (rule bv_built [OF assms])
  obtain da where da: "da_new s0 bv = Some da" "da_bv da = bv" "da_rep True bv (positions_of bs True) (da_ones_inventories da)"
    "case da_zeroes_inventories da of None \<Rightarrow> \<not> s0 | Some z \<Rightarrow> s0 \<and> da_rep False bv (positions_of bs False) z"
    using da_new_ok [OF bv(2), of s0] bv(3) by auto
  have n: "bv_n_bits bv < 2 ^ 63" "bv_len bv = length bs" using bv(4) arg_cong [OF bv(3), of length] by (simp_all add: bv_len_def)
  have s1: "da_select1 da i = Some (select_of bs True i)" if "da_reachable (positions_of bs True) i" for i
    using da_select_eq [OF bv(2) da(3) n(1) da(2), of i] that by (simp add: da_select1_def da_reachable_def select_of_positions)
  have sel0: "da_select0 s0 da i = Some (select_of bs False i)" if zero: "s0" and reach: "da_reachable (positions_of bs False) i" for i
  proof -
    obtain z where z: "da_zeroes_inventories da = Some z" "da_rep False bv (positions_of bs False) z"
      using da(4) zero by (auto split: option.splits)
    show ?thesis using da_select_eq [OF bv(2) z(2) n(1) da(2), of i] zero reach z(1) by (simp add: da_select0_def da_reachable_def select_of_positions)
  qed
  have "count_list bs True = length (positions_of bs True)" 
  proof -
    have "count_list bs True = length (filter (\<lambda>b. b) bs)" by (induction bs) auto
    then show ?thesis using length_filter_cntp [of "\<lambda>b. b" bs] by (simp add: cntp_filter)
  qed
  then have "da_count_ones da = count_list bs True" using da_repD(1) [OF da(3)] by (simp add: da_count_ones_def)
  moreover have "da_get da i = Some (idx bs i)" for i using bv_get_eq [OF bv(2), of i] bv(3) da(2) by (simp add: da_get_def)
  ultimately show ?thesis using bv(1) da(1,2) n(2) sel0 s1 by (simp add: da_from_bools_def da_len_def) (simp add: da_select0_def)
qed

theorem darray_select_witness:
  "\<exists>da. da_from_bools True [True, False, True] = Some da \<and> da_select1 da 1 = Some (Some 2) \<and> da_select0 True da 0 = Some (Some 1)
    \<and> da_select0 True da 1 = Some None"
proof -
  have "select_of [True, False, True] True 1 = Some 2" "select_of [True, False, True] False 0 = Some 1" "select_of [True, False, True] False 1 = None"
    by (simp_all add: select_of_Some select_of_None rank_of_def)
  moreover have "positions_of [True, False, True] True = [0, 2]" "positions_of [True, False, True] False = [1]" by (simp_all add: upt_rec)
  then have "da_reachable (positions_of [True, False, True] True) 1" "da_reachable (positions_of [True, False, True] False) 0"
    "da_reachable (positions_of [True, False, True] False) 1" by (simp_all add: da_reachable_def da_sparse_def da_block_def)
  ultimately show ?thesis using darray_select [of "[True, False, True]" True] by fastforce
qed

section \<open>Strictly increasing sequences\<close>

lemma strict_pairs: "(\<forall>(v, w)\<in>set (zip xs (tl xs)). v < w) \<longleftrightarrow> sorted_wrt (<) (xs :: int list)"
proof (induction xs)
  case (Cons x xs)
  then show ?case by (cases xs) (auto intro: less_trans)
qed simp

lemma da_from_positions_ok:
  assumes xs: "\<forall>x\<in>set xs. 0 \<le> x \<and> x + 1 < 2 ^ 63" and srt: "sorted_wrt (<) xs"
  shows "\<exists>bv da. da_from_positions s0 xs = Some da \<and> da_bv da = bv \<and> bv_ok bv \<and> bv_n_bits bv < 2 ^ 63
    \<and> da_rep True bv (map nat xs) (da_ones_inventories da)"
proof -
  let ?ps = "map nat xs"
  have "\<forall>p\<in>set ?ps. Suc p < 2 ^ 63" using xs by auto
  then have small: "\<forall>p\<in>set ?ps. Suc p < 2 ^ 64" by fastforce
  obtain s where s: "bm_from_positions ?ps = Some s" "bm_ok s" "bm_list s = map (\<lambda>i. i \<in> set ?ps) [0..<if ?ps = [] then 0 else Suc (Max (set ?ps))]"
    using bm_from_positions_eq [OF small] by blast
  let ?bv = "bv_from s"
  define N where "N = (if ?ps = [] then 0 else Suc (Max (set ?ps)))"
  have l: "bv_list ?bv = map (\<lambda>i. i \<in> set ?ps) [0..<N]" using s(3) by (simp add: N_def)
  have n: "bv_n_bits ?bv = N" using arg_cong [OF l, of length] length_bv_list [of ?bv] by (simp only: length_map length_upt diff_zero)
  have "N < 2 ^ 63" using Max_in [of "set ?ps"] \<open>\<forall>p\<in>set ?ps. Suc p < 2 ^ 63\<close> by (auto simp: N_def)
  have "bv_from_positions xs = Some ?bv" using bv_from_positions_eq [of xs] xs s(1) by fastforce
  moreover have "sorted_wrt (<) ?ps" using srt xs by (auto simp: sorted_wrt_map intro!: sorted_wrt_mono_rel [OF _ srt])
  then have "sorted_list_of_set (set ?ps) = ?ps" by (intro sorted_list_of_set.idem_if_sorted_distinct) (simp_all add: strict_sorted_iff)
  moreover have "filter (\<lambda>p. p \<in> set ?ps) [0..<N] = sorted_list_of_set (set ?ps)"
    by (intro filter_mem_sorted) (auto simp: N_def less_Suc_eq_le)
  moreover have "positions_of (bv_list ?bv) True = filter (\<lambda>p. p \<in> set ?ps) [0..<N]"
    unfolding l by (simp del: upt_Suc cong: filter_cong) (rule filter_cong; simp del: upt_Suc)
  ultimately show ?thesis using da_new_ok [of ?bv s0] s(2) srt n \<open>N < 2 ^ 63\<close> by (auto simp: da_from_positions_def strict_pairs)
qed

text \<open>A \<open>DArray\<close> collected from integers panics unless they increase strictly; then \<open>select1(i)\<close> is the \<open>i\<close>-th of them,
  as long as no sparse block precedes the dense block of \<open>i\<close>.\<close>

theorem darray_positions:
  assumes "\<forall>x\<in>set xs. 0 \<le> x \<and> x + 1 < 2 ^ 63"
  shows "if sorted_wrt (<) xs
    then \<exists>da. da_from_positions s0 xs = Some da \<and> da_count_ones da = length xs
      \<and> (\<forall>i. da_reachable (map nat xs) i \<longrightarrow> da_select1 da i = Some (idx (map nat xs) i))
    else da_from_positions s0 xs = None"
proof (cases "sorted_wrt (<) xs")
  case True
  obtain bv da where da: "da_from_positions s0 xs = Some da" "da_bv da = bv" "bv_ok bv" "bv_n_bits bv < 2 ^ 63"
    "da_rep True bv (map nat xs) (da_ones_inventories da)" using da_from_positions_ok [OF assms True, of s0] by blast
  then show ?thesis
    using True da_select_eq [OF da(3,5,4,2)] da_repD(1) [OF da(5)]
    by (auto simp: da_select1_def da_reachable_def da_count_ones_def)
qed (simp add: da_from_positions_def strict_pairs)

text \<open>C34. Behind a sparse block the answers are wrong: a sparse block puts one entry per occurrence in \<open>subblock_inventory\<close> where a
  dense one puts one per 32, and \<open>select\<close> counts 32 entries per block. If the first block is sparse and the second dense,
  \<open>select1(1024)\<close> returns a position 65535 too far.\<close>

theorem darray_mixed_blocks:
  assumes "\<forall>x\<in>set xs. 0 \<le> x \<and> x + 1 < 2 ^ 63" "sorted_wrt (<) xs" "1024 < length xs"
    "da_sparse (map nat xs) 0" "\<not> da_sparse (map nat xs) 1"
  shows "\<exists>da. da_from_positions s0 xs = Some da \<and> da_select1 da 1024 = Some (Some (nat (xs ! 1024) + 65535))"
proof -
  let ?ps = "map nat xs"
  obtain bv da where da: "da_from_positions s0 xs = Some da" "da_bv da = bv" "bv_ok bv" "bv_n_bits bv < 2 ^ 63"
    "da_rep True bv ?ps (da_ones_inventories da)" using da_from_positions_ok [OF assms(1,2), of s0] by blast
  have "1024 < length ?ps" using assms(3) by simp
  note nth = da_block_nth [OF this]
  have b0: "length (da_block ?ps 0) = 1024" using assms(3) by (simp add: da_block_def)
  have "0 < div_ceil (length ?ps) 1024" using nth(3) by simp
  then have "idx (concat (map (da_dists ?ps) [0..<div_ceil (length ?ps) 1024])) 32 = Some 0xFFFF"
    using concat_upt_nth [of 0 "div_ceil (length ?ps) 1024" 32 "da_dists ?ps"] assms(4) b0 by (simp add: length_da_dists) (simp add: da_dists_def)
  then have "idx (iv_subblock_inventory (da_ones_inventories da)) (1024 div 32) = Some 0xFFFF" using da_repD(3) [OF da(5)] by simp
  from da_select_dense [OF da(5,4) _ _ this, of da] assms(3,5)
  have "da_select1 da 1024 = Some (Some (hd (da_block ?ps 1) + 65535))" by (simp add: da_select1_def)
  moreover have "hd (da_block ?ps 1) = nat (xs ! 1024)" using assms(3) nth(1,2) by (simp add: hd_conv_nth)
  ultimately show ?thesis using da(1) by simp
qed

theorem darray_mixed_blocks_witness:
  "\<exists>da. da_from_positions False (map int [0..<1023] @ [70000, 70001]) = Some da \<and> da_select1 da 1024 = Some (Some 135536)"
proof -
  let ?xs = "map int [0..<1023] @ [70000, 70001]"
  have "sorted_wrt (<) ?xs" using sorted_wrt_upt [of 0 1023] by (auto simp: sorted_wrt_append sorted_wrt_map)
  moreover have ps: "map nat ?xs = [0..<1023] @ [70000, 70001]" by (simp add: o_def)
  have "hd ([0..<1023] @ [70000::nat, 70001]) = 0" by (simp add: hd_append)
  then have "da_sparse (map nat ?xs) 0" "\<not> da_sparse (map nat ?xs) 1" unfolding ps da_sparse_def da_block_def by simp_all
  moreover have "\<forall>x\<in>set ?xs. 0 \<le> x \<and> x + 1 < 2 ^ 63" by auto
  ultimately show ?thesis using darray_mixed_blocks [of ?xs False] by (simp add: nth_append)
qed

end
