(* ===== verification/ByteUtil.thy ===== *)
theory ByteUtil
  imports Layout RSPlain
begin

text \<open>
  The byte layer's primitives, \<^verbatim>\<open>src/bytes/util.rs\<close>, the constants of \<^verbatim>\<open>src/bytes/mod.rs\<close>, the
  little-endian readers and writers of \<^verbatim>\<open>src/bytes/qwtb.rs\<close>, and the level directory.

  A blob is a list of bytes; a mutable buffer is a list that writing returns updated. Plain old
  data has a size, an image in bytes and a reading of an image: the locale \<open>pod\<close>, interpreted for
  \<open>DataLine\<close>, \<open>SuperblockPlain\<close> and \<open>u32\<close>. The address of a byte slice, on which the checks of
  \<open>cast_slice\<close> depend, is an argument.
\<close>

unbundle bit_operations_syntax

section \<open>Constants\<close>

definition QWTB_MAGIC :: "u8 list" where
  "QWTB_MAGIC = [0x51, 0x57, 0x54, 0x42]"

definition HQWB_MAGIC :: "u8 list" where
  "HQWB_MAGIC = [0x48, 0x51, 0x57, 0x42]"

definition FORMAT_VERSION :: u16 where
  "FORMAT_VERSION = 1"

definition HEADER_SIZE :: nat where
  "HEADER_SIZE = 32"

definition LEVEL_DIR_SIZE :: nat where
  "LEVEL_DIR_SIZE = 128"

definition HQWT_LEVEL_DIR_SIZE :: nat where
  "HQWT_LEVEL_DIR_SIZE = LEVEL_DIR_SIZE + 8"

definition FLAG_B512 :: u8 where
  "FLAG_B512 = 1"

definition FLAG_PREFETCH :: u8 where
  "FLAG_PREFETCH = 2"

lemmas format_consts = HEADER_SIZE_def LEVEL_DIR_SIZE_def HQWT_LEVEL_DIR_SIZE_def

section \<open>Slices and integers\<close>

text \<open>\<open>xs[a..b]\<close> and \<open>xs[a..a + ys.len()].copy_from_slice(ys)\<close>, which panic out of range; \<open>to_le_bytes\<close> and
  \<open>from_le_bytes\<close>; \<open>size_of::<T>()\<close>.\<close>

definition range_of :: "'a list \<Rightarrow> nat \<Rightarrow> nat \<Rightarrow> 'a list option" where
  "range_of xs a b = (if a \<le> b \<and> b \<le> length xs then Some (take (b - a) (drop a xs)) else None)"

definition put_range :: "'a list \<Rightarrow> nat \<Rightarrow> 'a list \<Rightarrow> 'a list option" where
  "put_range xs a ys = (if a + length ys \<le> length xs then Some (take a xs @ ys @ drop (a + length ys) xs) else None)"

definition to_le :: "'a::len word \<Rightarrow> u8 list" where
  "to_le w = map (\<lambda>k. ucast (drop_bit (8 * k) w)) [0..<LENGTH('a) div 8]"

primrec from_le :: "u8 list \<Rightarrow> 'a::len word" where
  "from_le [] = 0"
| "from_le (b # bs) = push_bit 8 (from_le bs) OR ucast b"

definition size_of_T :: "'a::len itself \<Rightarrow> nat" where
  "size_of_T T = LENGTH('a) div 8"

definition put_u16 :: "u8 list \<Rightarrow> nat \<Rightarrow> u16 \<Rightarrow> (u8 list \<times> nat) option" where
  "put_u16 out off v = do { out \<leftarrow> put_range out off (to_le v); Some (out, off + 2) }"

definition put_u32 :: "u8 list \<Rightarrow> nat \<Rightarrow> u32 \<Rightarrow> (u8 list \<times> nat) option" where
  "put_u32 out off v = do { out \<leftarrow> put_range out off (to_le v); Some (out, off + 4) }"

definition put_u64 :: "u8 list \<Rightarrow> nat \<Rightarrow> u64 \<Rightarrow> (u8 list \<times> nat) option" where
  "put_u64 out off v = do { out \<leftarrow> put_range out off (to_le v); Some (out, off + 8) }"

definition get_u16 :: "u8 list \<Rightarrow> nat \<Rightarrow> (u16 \<times> nat) option" where
  "get_u16 buf off = do { bs \<leftarrow> range_of buf off (off + 2); Some (from_le bs, off + 2) }"

definition get_u32 :: "u8 list \<Rightarrow> nat \<Rightarrow> (u32 \<times> nat) option" where
  "get_u32 buf off = do { bs \<leftarrow> range_of buf off (off + 4); Some (from_le bs, off + 4) }"

definition get_u64 :: "u8 list \<Rightarrow> nat \<Rightarrow> (u64 \<times> nat) option" where
  "get_u64 buf off = do { bs \<leftarrow> range_of buf off (off + 8); Some (from_le bs, off + 8) }"

section \<open>util.rs\<close>

definition ensure_le :: "bool \<Rightarrow> (layout_error + unit) option" where
  "ensure_le little_endian = reject (\<not> little_endian) NotLittleEndian"

definition align_up :: "nat \<Rightarrow> nat \<Rightarrow> nat option" where
  "align_up n align = do {
     guard (pop (of_nat align :: u64) = 1);
     Some (if n + (align - 1) < 2 ^ 64
       then unat ((of_nat (n + (align - 1)) :: u64) AND NOT (of_nat (align - 1))) else n)
   }"

text \<open>\<open>usize\<close> multiplication checked by the code.\<close>

definition checked_mul :: "nat \<Rightarrow> nat \<Rightarrow> nat option" where
  "checked_mul a b = (if a * b < 2 ^ 64 then Some (a * b) else None)"

definition checked_region :: "nat \<Rightarrow> nat \<Rightarrow> nat \<Rightarrow> nat \<Rightarrow> (layout_error + nat) option" where
  "checked_region off n elem_size buf_len =
     rbind (ok_or (Some (checked_mul n elem_size)) Truncated) (\<lambda>nbytes.
     rbind (ok_or (Some (add_usize off nbytes)) Truncated) (\<lambda>stop.
     rbind (reject (stop > buf_len) Truncated) (\<lambda>_. Some (Inr nbytes))))"

text \<open>The values of plain old data of size \<open>sz\<close> with reading \<open>dec\<close> in a slice of bytes.\<close>

definition pod_values :: "nat \<Rightarrow> (u8 list \<Rightarrow> 't) \<Rightarrow> u8 list \<Rightarrow> nat \<Rightarrow> 't list" where
  "pod_values sz dec bytes n = map (\<lambda>k. dec (take sz (drop (k * sz) bytes))) [0..<n]"

definition cast_slice :: "nat \<Rightarrow> nat \<Rightarrow> (u8 list \<Rightarrow> 't) \<Rightarrow> nat \<Rightarrow> u8 list \<Rightarrow> (layout_error + 't list) option" where
  "cast_slice align sz dec addr bytes =
     (if bytes = [] then Some (Inr [])
      else rbind (reject (addr mod align \<noteq> 0) Misaligned) (\<lambda>_.
           rbind (reject (length bytes mod sz \<noteq> 0) Truncated) (\<lambda>_.
           Some (Inr (pod_values sz dec bytes (length bytes div sz))))))"

definition copy_pod_slice :: "nat \<Rightarrow> (u8 list \<Rightarrow> 't) \<Rightarrow> u8 list \<Rightarrow> nat \<Rightarrow> (layout_error + 't list) option" where
  "copy_pod_slice sz dec bytes n =
     rbind (ok_or (Some (checked_mul n sz)) Truncated) (\<lambda>need.
     rbind (reject (length bytes < need) Truncated) (\<lambda>_.
     Some (Inr (if n = 0 then [] else pod_values sz dec (take need bytes) n))))"

text \<open>\<open>enc\<close> gives the bytes of one value in memory.\<close>

definition write_slice :: "('t \<Rightarrow> u8 list) \<Rightarrow> u8 list \<Rightarrow> 't list \<Rightarrow> u8 list" where
  "write_slice enc out data = (if data = [] then out else out @ concat (map enc data))"

text \<open>The memory images of the two \<open>repr(C)\<close> structures on a little-endian host.\<close>

definition words_bytes :: "u128 list \<Rightarrow> u8 list" where
  "words_bytes ws = concat (map to_le ws)"

definition words_of :: "u8 list \<Rightarrow> u128 list" where
  "words_of bs = pod_values 16 from_le bs 4"

definition dl_bytes :: "data_line \<Rightarrow> u8 list" where
  "dl_bytes line = words_bytes (dl_words line)"

definition dl_of :: "u8 list \<Rightarrow> data_line" where
  "dl_of bs = \<lparr>dl_words = words_of bs\<rparr>"

definition sp_bytes :: "superblock_plain \<Rightarrow> u8 list" where
  "sp_bytes sb = words_bytes (sp_counters sb)"

definition sp_of :: "u8 list \<Rightarrow> superblock_plain" where
  "sp_of bs = \<lparr>sp_counters = words_of bs\<rparr>"

section \<open>Facts on bytes\<close>

lemma length_to_le [simp]: "length (to_le (w :: 'a::len word)) = LENGTH('a) div 8"
  by (simp add: to_le_def)

lemma bit_from_le:
  "bit (from_le bs :: 'a::len word) j \<longleftrightarrow> j < LENGTH('a) \<and> j div 8 < length bs \<and> bit (bs ! (j div 8)) (j mod 8)"
proof (induction bs arbitrary: j)
  case (Cons b bs)
  show ?case
  proof (cases "j < 8")
    case True
    then show ?thesis by (auto simp: bit_or_iff bit_push_bit_iff bit_ucast_iff)
  next
    case False
    then obtain m where m: "j = m + 8" by (metis le_add_diff_inverse2 not_less)
    have "\<not> bit b j" using False bit_imp_le_length [of b j] by auto
    moreover have "(m + 8) div 8 = Suc (m div 8)" by simp
    ultimately show ?thesis unfolding m using Cons.IH [of m] by (auto simp: bit_or_iff bit_push_bit_iff bit_ucast_iff)
  qed
qed simp

lemma from_to_le [simp]:
  assumes "8 dvd LENGTH('a::len)"
  shows "from_le (to_le w) = (w :: 'a word)"
proof (rule bit_word_eqI)
  fix j assume j: "j < LENGTH('a)"
  then have "j div 8 < LENGTH('a) div 8" using assms by (auto elim!: dvdE simp: div_less_iff_less_mult)
  then show "bit (from_le (to_le w) :: 'a word) j = bit w j"
    using j by (simp add: bit_from_le to_le_def bit_ucast_iff bit_drop_bit_eq)
qed

lemma length_range_of: "range_of xs a b = Some ys \<Longrightarrow> length ys = b - a"
  by (auto simp: range_of_def split: if_splits)

lemma range_of_tail: "a \<le> length xs \<Longrightarrow> range_of xs a (length xs) = Some (drop a xs)"
  by (simp add: range_of_def)

lemma foldR_total:
  assumes "\<And>s x. x \<in> set xs \<Longrightarrow> \<exists>r. f s x = Some r"
  shows "\<exists>r. foldR f s xs = Some r"
  using assms
proof (induction xs arbitrary: s)
  case (Cons x xs)
  obtain r where "f s x = Some r" using Cons.prems by fastforce
  then show ?case using Cons by (cases r) simp_all
qed simp

lemma put_range_append: "length P = a \<Longrightarrow> put_range (P @ X @ Z) a Y = (if length Y \<le> length X + length Z then Some (P @ Y @ drop (length Y) (X @ Z)) else None)"
  by (auto simp: put_range_def)

lemma cntp_eq: "cntp (\<lambda>j. j = k) n = of_bool (k < n)"
  by (induction n) auto

lemma align_up_eq:
  assumes "n + (2 ^ k - 1) < 2 ^ 64" "k < 64"
  shows "align_up n (2 ^ k) = Some ((n + (2 ^ k - 1)) div 2 ^ k * 2 ^ k)"
proof -
  let ?m = "n + (2 ^ k - 1)"
  have al: "of_nat (2 ^ k) = (push_bit k 1 :: u64)" by (simp add: push_bit_eq_mult)
  have b: "bit (push_bit k 1 :: u64) j \<longleftrightarrow> j = k" if "j < 64" for j
    using that assms(2) by (simp del: push_bit_of_1 add: bit_push_bit_iff bit_1_iff) auto
  have "cntp (bit (push_bit k 1 :: u64)) 64 = cntp (\<lambda>j. j = k) 64" by (rule cntp_cong) (rule b)
  then have "pop (of_nat (2 ^ k) :: u64) = cntp (\<lambda>j. j = k) 64" unfolding pop_def al by simp
  also have "\<dots> = 1" using cntp_eq [of k 64] assms(2) by simp
  finally have p: "pop (of_nat (2 ^ k) :: u64) = 1" .
  have "(of_nat (2 ^ k - 1) :: u64) = mask k" by (simp add: mask_eq_exp_minus_1 of_nat_diff)
  then have "(of_nat ?m :: u64) AND NOT (of_nat (2 ^ k - 1)) = push_bit k (drop_bit k (of_nat ?m))"
    by (intro bit_word_eqI) (auto simp: bit_and_iff bit_not_iff bit_mask_iff bit_push_bit_iff bit_drop_bit_eq)
  moreover have "unat (of_nat ?m :: u64) = ?m" by (rule unat_of_nat_small) (use assms(1) in simp)
  then have "unat (drop_bit k (of_nat ?m :: u64)) = ?m div 2 ^ k" by (simp only: unat_drop_bit_eq drop_bit_eq_div [of k "_ :: nat"])
  then have "unat (push_bit k (drop_bit k (of_nat ?m :: u64))) = ?m div 2 ^ k * 2 ^ k"
    using assms(1) le_less_trans [OF div_times_less_eq_dividend [of ?m "2 ^ k"]]
    by (simp only: unsigned_push_bit_eq) (simp add: push_bit_eq_mult take_bit_nat_eq_self)
  ultimately show ?thesis using p assms(1) by (simp add: align_up_def)
qed

section \<open>Plain old data\<close>

locale pod =
  fixes sz :: nat and enc :: "'t \<Rightarrow> u8 list" and dec :: "u8 list \<Rightarrow> 't" and valid :: "'t \<Rightarrow> bool"
  assumes sz_pos: "0 < sz"
    and length_enc: "valid x \<Longrightarrow> length (enc x) = sz"
    and dec_enc: "valid x \<Longrightarrow> dec (enc x) = x"
    and valid_dec: "length bs = sz \<Longrightarrow> valid (dec bs)"
begin

lemma length_image: "\<forall>x\<in>set xs. valid x \<Longrightarrow> length (concat (map enc xs)) = length xs * sz"
  by (induction xs) (simp_all add: length_enc)

lemma values_image: "\<forall>x\<in>set xs. valid x \<Longrightarrow> pod_values sz dec (concat (map enc xs) @ Z) (length xs) = xs"
proof (induction xs)
  case (Cons x xs)
  have l: "length (enc x) = sz" using Cons.prems by (simp add: length_enc)
  have "pod_values sz dec (enc x @ Y) (Suc n) = dec (enc x) # pod_values sz dec Y n" for Y n
    using l by (simp add: pod_values_def upt_conv_Cons map_Suc_upt [symmetric] del: upt_Suc)
  then show ?case using Cons by (simp add: dec_enc)
qed (simp add: pod_values_def)

lemma length_values [simp]: "length (pod_values sz dec bytes n) = n"
  by (simp add: pod_values_def)

lemma valid_values:
  assumes "n * sz \<le> length bytes" "x \<in> set (pod_values sz dec bytes n)"
  shows "valid x"
proof -
  obtain k where k: "k < n" "x = dec (take sz (drop (k * sz) bytes))" using assms(2) by (auto simp: pod_values_def)
  have "Suc k * sz \<le> length bytes" using k(1) assms(1) mult_le_mono1 [of "Suc k" n sz] by simp
  then show ?thesis unfolding k(2) by (intro valid_dec) simp
qed

lemma copy_image:
  assumes "\<forall>x\<in>set xs. valid x" "length xs * sz < 2 ^ 64"
  shows "copy_pod_slice sz dec (concat (map enc xs) @ Z) (length xs) = Some (Inr xs)"
  using assms values_image [OF assms(1), of "[]"] length_image [OF assms(1)]
  by (simp add: copy_pod_slice_def checked_mul_def)

lemma cast_image:
  assumes "\<forall>x\<in>set xs. valid x" "xs = [] \<or> addr mod align = 0"
  shows "cast_slice align sz dec addr (concat (map enc xs)) = Some (Inr xs)"
proof (cases "xs = []")
  case False
  then have "concat (map enc xs) \<noteq> []" using length_image [OF assms(1)] sz_pos by fastforce
  then show ?thesis
    using assms False values_image [OF assms(1), of "[]"] length_image [OF assms(1)] sz_pos by (simp add: cast_slice_def)
qed (simp add: cast_slice_def)

lemma copy_result:
  shows "\<exists>r. copy_pod_slice sz dec bytes n = Some r"
    and "copy_pod_slice sz dec bytes n = Some (Inr xs) \<Longrightarrow> length xs = n \<and> (\<forall>x\<in>set xs. valid x)"
  by (auto simp: copy_pod_slice_def checked_mul_def reject_def ok_or_def rbind_def split: if_splits elim!: valid_values [rotated])

lemma cast_result:
  shows "\<exists>r. cast_slice align sz dec addr bytes = Some r"
    and "cast_slice align sz dec addr bytes = Some (Inr xs) \<Longrightarrow> length xs * sz = length bytes \<and> (\<forall>x\<in>set xs. valid x)"
  by (auto simp: cast_slice_def reject_def rbind_def split: if_splits elim!: valid_values [rotated])

end

interpretation word128: pod 16 "to_le :: u128 \<Rightarrow> u8 list" from_le "\<lambda>_. True"
  by unfold_locales simp_all

interpretation word32: pod 4 "to_le :: u32 \<Rightarrow> u8 list" from_le "\<lambda>_. True"
  by unfold_locales simp_all

lemma words_bytes:
  assumes "length ws = 4"
  shows "length (words_bytes ws) = 64" "words_of (words_bytes ws) = ws"
  using word128.length_image [of ws] word128.values_image [of ws "[]"] assms by (simp_all add: words_bytes_def words_of_def)

interpretation dl: pod 64 dl_bytes dl_of dl_ok
  by unfold_locales (simp_all add: dl_bytes_def dl_of_def dl_ok_def words_bytes, simp add: words_of_def)

interpretation sb: pod 64 sp_bytes sp_of sp_ok
  by unfold_locales (simp_all add: sp_bytes_def sp_of_def sp_ok_def words_bytes, simp add: words_of_def)

section \<open>Checked regions\<close>

lemma checked_region_eq:
  "checked_region off n sz len = Some (if off + n * sz < 2 ^ 64 \<and> off + n * sz \<le> len then Inr (n * sz) else Inl Truncated)"
  by (auto simp: checked_region_def checked_mul_def add_usize_def)

end
