(* ===== verification/ByteLevel.thy ===== *)
theory ByteLevel
  imports ByteUtil RSQVec
begin

text \<open>
  The part of a blob that holds one level, in \<^verbatim>\<open>src/bytes/qwtb.rs\<close> and \<^verbatim>\<open>src/bytes/hqwb.rs\<close>: the level directory
  entry, the planning of offsets, writing the payload and reading it back. Both containers use the same
  code here. \<open>level_image\<close> is the byte string a level becomes, and \<open>has_level\<close> says where it is in a blob.
\<close>

section \<open>The level directory\<close>

record level_dir =
  ld_off_data :: u64
  ld_n_datalines :: u32
  ld_position_bits :: u64
  ld_off_superblocks :: u64
  ld_n_superblocks :: u32
  ld_off_sel :: "u64 list"
  ld_n_sel :: "u32 list"
  ld_n_occs_smaller :: "u64 list"

record hq_level_dir = level_dir +
  ld_level_len :: u64

text \<open>The writes that \<open>qwtb::LevelDir::write\<close> and \<open>hqwb::LevelDir::write\<close> share.\<close>

definition ld_put :: "'x level_dir_scheme \<Rightarrow> u8 list \<Rightarrow> (u8 list \<times> nat) option" where
  "ld_put self out = do {
     (out, p) \<leftarrow> put_u64 out 0 (ld_off_data self);
     (out, p) \<leftarrow> put_u32 out p (ld_n_datalines self);
     (out, p) \<leftarrow> put_u32 out p 0;
     (out, p) \<leftarrow> put_u64 out p (ld_position_bits self);
     (out, p) \<leftarrow> put_u64 out p (ld_off_superblocks self);
     (out, p) \<leftarrow> put_u32 out p (ld_n_superblocks self);
     (out, p) \<leftarrow> put_u32 out p 0;
     (out, p) \<leftarrow> foldM (\<lambda>(out, p) i. do { v \<leftarrow> idx (ld_off_sel self) i; put_u64 out p v }) (out, p) [0..<4];
     (out, p) \<leftarrow> foldM (\<lambda>(out, p) i. do { v \<leftarrow> idx (ld_n_sel self) i; put_u32 out p v }) (out, p) [0..<4];
     (out, p) \<leftarrow> foldM (\<lambda>(out, p) i. do { v \<leftarrow> idx (ld_n_occs_smaller self) i; put_u64 out p v }) (out, p) [0..<5];
     guard (p = LEVEL_DIR_SIZE);
     Some (out, p)
   }"

definition ld_write :: "level_dir \<Rightarrow> u8 list \<Rightarrow> u8 list option" where
  "ld_write self out = do {
     guard (length out = LEVEL_DIR_SIZE);
     (out, p) \<leftarrow> ld_put self out;
     Some out
   }"

definition hd_write :: "hq_level_dir \<Rightarrow> u8 list \<Rightarrow> u8 list option" where
  "hd_write self out = do {
     guard (length out = HQWT_LEVEL_DIR_SIZE);
     (out, p) \<leftarrow> ld_put self out;
     (out, p) \<leftarrow> put_u64 out p (ld_level_len self);
     guard (p = HQWT_LEVEL_DIR_SIZE);
     Some out
   }"

text \<open>The reads all the \<open>read\<close> functions share: the entry and the offset behind it.\<close>

definition ld_get :: "u8 list \<Rightarrow> (level_dir \<times> nat) option" where
  "ld_get buf = do {
     (off_data, p) \<leftarrow> get_u64 buf 0;
     (n_datalines, p) \<leftarrow> get_u32 buf p;
     (pad0, p) \<leftarrow> get_u32 buf p;
     (position_bits, p) \<leftarrow> get_u64 buf p;
     (off_superblocks, p) \<leftarrow> get_u64 buf p;
     (n_superblocks, p) \<leftarrow> get_u32 buf p;
     (pad1, p) \<leftarrow> get_u32 buf p;
     (off_sel, p) \<leftarrow> foldM (\<lambda>(xs, p) slot. do { (v, p) \<leftarrow> get_u64 buf p; Some (xs @ [v], p) }) ([], p) [0..<4];
     (n_sel, p) \<leftarrow> foldM (\<lambda>(xs, p) slot. do { (v, p) \<leftarrow> get_u32 buf p; Some (xs @ [v], p) }) ([], p) [0..<4];
     (n_occs_smaller, p) \<leftarrow> foldM (\<lambda>(xs, p) slot. do { (v, p) \<leftarrow> get_u64 buf p; Some (xs @ [v], p) }) ([], p) [0..<5];
     Some (\<lparr>ld_off_data = off_data, ld_n_datalines = n_datalines, ld_position_bits = position_bits,
       ld_off_superblocks = off_superblocks, ld_n_superblocks = n_superblocks, ld_off_sel = off_sel, ld_n_sel = n_sel,
       ld_n_occs_smaller = n_occs_smaller\<rparr>, p)
   }"

definition ld_read :: "u8 list \<Rightarrow> (layout_error + level_dir) option" where
  "ld_read buf = (if length buf < LEVEL_DIR_SIZE then Some (Inl Truncated)
     else do { (dir, p) \<leftarrow> ld_get buf; Some (Inr dir) })"

definition hd_read :: "u8 list \<Rightarrow> (layout_error + hq_level_dir) option" where
  "hd_read buf = (if length buf < HQWT_LEVEL_DIR_SIZE then Some (Inl Truncated)
     else do {
       (dir, p) \<leftarrow> ld_get buf;
       (level_len, p) \<leftarrow> get_u64 buf p;
       Some (Inr (level_dir.extend dir \<lparr>ld_level_len = level_len\<rparr>))
     })"

section \<open>Planning\<close>

text \<open>The first pass over one level: its directory entry and the cursor behind its payload.\<close>

definition plan_sel :: "u32 list \<Rightarrow> u64 list \<times> nat \<Rightarrow> nat \<Rightarrow> (u64 list \<times> nat) option" where
  "plan_sel n_sel st s = (
     let (off_sel, cursor) = st
     in do {
       n \<leftarrow> idx n_sel s;
       cursor' \<leftarrow> add_usize cursor (unat n * 4);
       Some (off_sel[s := of_nat cursor], cursor')
     })"

definition plan_level :: "nat \<Rightarrow> rs_support_plain rs_qvector \<Rightarrow> (level_dir \<times> nat) option" where
  "plan_level cursor level = do {
     let qv = rq_qv level;
     let rs = rq_rs_support level;
     let n_datalines = (of_nat (length (qv_data qv)) :: u32);
     let position_bits = (of_nat (qv_position qv) :: u64);
     let n_superblocks = (of_nat (length (rp_superblocks rs)) :: u32);
     n_sel \<leftarrow> those (map (\<lambda>s. do { samples \<leftarrow> idx (rp_select_samples rs) s; Some (of_nat (length samples) :: u32) }) [0..<4]);
     n_occs_smaller \<leftarrow> those (map (\<lambda>i. do { v \<leftarrow> idx (rq_n_occs_smaller level) i; Some (of_nat v :: u64) }) [0..<5]);
     cursor \<leftarrow> align_up cursor 64;
     let off_data = of_nat cursor;
     cursor \<leftarrow> add_usize cursor (unat n_datalines * 64);
     cursor \<leftarrow> align_up cursor 64;
     let off_superblocks = of_nat cursor;
     cursor \<leftarrow> add_usize cursor (unat n_superblocks * 64);
     cursor \<leftarrow> align_up cursor 4;
     (off_sel, cursor) \<leftarrow> foldM (plan_sel n_sel) ([0, 0, 0, 0], cursor) [0..<4];
     Some (\<lparr>ld_off_data = off_data, ld_n_datalines = n_datalines, ld_position_bits = position_bits,
       ld_off_superblocks = off_superblocks, ld_n_superblocks = n_superblocks, ld_off_sel = off_sel, ld_n_sel = n_sel,
       ld_n_occs_smaller = n_occs_smaller\<rparr>, cursor)
   }"

section \<open>Writing the payload\<close>

text \<open>\<open>slice::from_raw_parts(data.as_ptr() as *const u8, nbytes)\<close>: the first bytes of the array's image.\<close>

definition write_sample :: "nat \<Rightarrow> u8 list \<Rightarrow> nat \<times> u32 \<Rightarrow> u8 list option" where
  "write_sample off out iv = (case iv of (i, v) \<Rightarrow> put_range out (off + i * 4) (to_le v))"

definition write_samples :: "rs_support_plain \<Rightarrow> 'x level_dir_scheme \<Rightarrow> u8 list \<Rightarrow> nat \<Rightarrow> u8 list option" where
  "write_samples rs dir out s = do {
     off \<leftarrow> idx (ld_off_sel dir) s;
     n \<leftarrow> idx (ld_n_sel dir) s;
     samples \<leftarrow> idx (rp_select_samples rs) s;
     guard (length samples = unat n);
     foldM (write_sample (unat off)) out (zip [0..<length samples] samples)
   }"

definition write_level :: "u8 list \<Rightarrow> rs_support_plain rs_qvector \<times> 'x level_dir_scheme \<Rightarrow> u8 list option" where
  "write_level out ld = (
     let (level, dir) = ld; qv = rq_qv level; rs = rq_rs_support level
     in do {
       src \<leftarrow> range_of (concat (map dl_bytes (qv_data qv))) 0 (unat (ld_n_datalines dir) * 64);
       out \<leftarrow> put_range out (unat (ld_off_data dir)) src;
       src \<leftarrow> range_of (concat (map sp_bytes (rp_superblocks rs))) 0 (unat (ld_n_superblocks dir) * 64);
       out \<leftarrow> put_range out (unat (ld_off_superblocks dir)) src;
       foldM (write_samples rs dir) out [0..<4]
     })"

section \<open>Reading the payload\<close>

text \<open>The body of the loop over the directory in \<open>from_bytes_generic\<close>, after the entry has been read. \<open>u64\<close> values
  convert to \<open>usize\<close> without loss.\<close>

definition read_level :: "nat \<Rightarrow> u8 list \<Rightarrow> 'x level_dir_scheme \<Rightarrow> (layout_error + rs_support_plain rs_qvector) option" where
  "read_level B bytes dir = (
     let data_off = unat (ld_off_data dir); n_datalines = unat (ld_n_datalines dir); position_bits = unat (ld_position_bits dir);
         sb_off = unat (ld_off_superblocks dir); n_superblocks = unat (ld_n_superblocks dir)
     in rbind (reject (data_off mod 64 \<noteq> 0) Misaligned) (\<lambda>_.
     rbind (checked_region data_off n_datalines 64 (length bytes)) (\<lambda>_. do {
     src \<leftarrow> range_of bytes data_off (length bytes);
     rbind (copy_pod_slice 64 dl_of src n_datalines) (\<lambda>lines.
     rbind (reject (position_bits mod 2 \<noteq> 0 \<or> position_bits > min (n_datalines * 512) (2 ^ 64 - 1))
       (Inconsistent ''position_bits is invalid for the data payload'')) (\<lambda>_. do {
     qv \<leftarrow> qv_from_raw_parts lines position_bits;
     rbind (reject (sb_off mod 64 \<noteq> 0) Misaligned) (\<lambda>_.
     rbind (checked_region sb_off n_superblocks 64 (length bytes)) (\<lambda>_.
     rbind (foldR (\<lambda>u s. do {
         n_sel \<leftarrow> idx (ld_n_sel dir) s;
         off \<leftarrow> idx (ld_off_sel dir) s;
         rbind (checked_region (unat off) (unat n_sel) 4 (length bytes)) (\<lambda>_. Some (Inr ()))
       }) () [0..<4]) (\<lambda>_. do {
     r \<leftarrow> rq_from (rs_plain B) qv;
     Some (Inr r)
     })))}))})))"

section \<open>The directory entry in bytes\<close>

definition ld_ok :: "'x level_dir_scheme \<Rightarrow> bool" where
  "ld_ok d \<longleftrightarrow> length (ld_off_sel d) = 4 \<and> length (ld_n_sel d) = 4 \<and> length (ld_n_occs_smaller d) = 5"

definition ld_bytes :: "'x level_dir_scheme \<Rightarrow> u8 list" where
  "ld_bytes d = to_le (ld_off_data d) @ to_le (ld_n_datalines d) @ to_le (0 :: u32) @ to_le (ld_position_bits d)
     @ to_le (ld_off_superblocks d) @ to_le (ld_n_superblocks d) @ to_le (0 :: u32)
     @ concat (map to_le (ld_off_sel d)) @ concat (map to_le (ld_n_sel d)) @ concat (map to_le (ld_n_occs_smaller d))"

text \<open>Writing on: what is written so far, followed by the rest of the buffer.\<close>

lemma put_next:
  "length W = p \<Longrightarrow> p + length Y \<le> length out \<Longrightarrow> put_range (W @ drop p out) p Y = Some ((W @ Y) @ drop (p + length Y) out)"
  by (auto simp: put_range_def add.commute)

lemma put_ints_next:
  "length W = p \<Longrightarrow> p + 8 \<le> length out \<Longrightarrow> put_u64 (W @ drop p out) p v = Some ((W @ to_le v) @ drop (p + 8) out, p + 8)"
  "length W = p \<Longrightarrow> p + 4 \<le> length out \<Longrightarrow> put_u32 (W @ drop p out) p v' = Some ((W @ to_le v') @ drop (p + 4) out, p + 4)"
  "length W = p \<Longrightarrow> p + 2 \<le> length out \<Longrightarrow> put_u16 (W @ drop p out) p v'' = Some ((W @ to_le v'') @ drop (p + 2) out, p + 2)"
  using put_next [of W p "to_le v" out] put_next [of W p "to_le v'" out] put_next [of W p "to_le v''" out]
  by (simp_all add: put_u64_def put_u32_def put_u16_def)

lemma put_all_next:
  assumes put: "\<And>W p v. length W = p \<Longrightarrow> p + sz \<le> length out \<Longrightarrow> put (W @ drop p out) p v = Some ((W @ to_le (v :: 'a::len word)) @ drop (p + sz) out, p + sz)"
    and "LENGTH('a) div 8 = sz" "length W = p" "p + sz * length vs \<le> length out" "k \<le> length vs"
  shows "foldM (\<lambda>(out, p) i. do { v \<leftarrow> idx vs i; put out p v }) (W @ drop p out, p) [0..<k]
    = Some ((W @ concat (map to_le (take k vs))) @ drop (p + sz * k) out, p + sz * k)"
  using assms(5)
proof (induction k)
  case (Suc k)
  have "p + sz * Suc k \<le> length out" using assms(4) mult_le_mono2 [OF Suc.prems, of sz] by simp
  moreover have "length (W @ concat (map to_le (take k vs))) = p + sz * k"
    using assms(2,3) Suc.prems by (simp add: length_concat o_def sum_list_triv min_def)
  ultimately have "put ((W @ concat (map to_le (take k vs))) @ drop (p + sz * k) out) (p + sz * k) (vs ! k)
    = Some (((W @ concat (map to_le (take k vs))) @ to_le (vs ! k)) @ drop (p + sz * k + sz) out, p + sz * k + sz)"
    by (intro put) simp_all
  then show ?case using Suc by (simp add: foldM_append take_Suc_conv_app_nth algebra_simps)
qed simp

lemma length_ld_bytes: "ld_ok d \<Longrightarrow> length (ld_bytes d) = 128"
  by (simp add: ld_bytes_def ld_ok_def length_concat o_def sum_list_triv)

lemma ld_put_eq:
  assumes "ld_ok d" "128 \<le> length out"
  shows "ld_put d out = Some (ld_bytes d @ drop 128 out, 128)"
proof -
  define A where "A = (((((to_le (ld_off_data d) @ to_le (ld_n_datalines d)) @ to_le (0 :: u32)) @ to_le (ld_position_bits d))
     @ to_le (ld_off_superblocks d)) @ to_le (ld_n_superblocks d)) @ to_le (0 :: u32)"
  define A1 where "A1 = A @ concat (map to_le (ld_off_sel d))"
  define A2 where "A2 = A1 @ concat (map to_le (ld_n_sel d))"
  have l: "length A = 40" "length A1 = 72" "length A2 = 88"
    using assms(1) by (simp_all add: A_def A1_def A2_def ld_ok_def length_concat o_def sum_list_triv)
  have s1: "foldM (\<lambda>(out, p) i. do { v \<leftarrow> idx (ld_off_sel d) i; put_u64 out p v }) (A @ drop 40 out, 40) [0..<4] = Some (A1 @ drop 72 out, 72)"
    using put_all_next [where put = put_u64 and sz = 8 and out = out and W = A and p = 40 and vs = "ld_off_sel d" and k = 4, OF put_ints_next(1)]
      assms l by (simp add: ld_ok_def A1_def)
  have s2: "foldM (\<lambda>(out, p) i. do { v \<leftarrow> idx (ld_n_sel d) i; put_u32 out p v }) (A1 @ drop 72 out, 72) [0..<4] = Some (A2 @ drop 88 out, 88)"
    using put_all_next [where put = put_u32 and sz = 4 and out = out and W = A1 and p = 72 and vs = "ld_n_sel d" and k = 4, OF put_ints_next(2)]
      assms l by (simp add: ld_ok_def A2_def)
  have s3: "foldM (\<lambda>(out, p) i. do { v \<leftarrow> idx (ld_n_occs_smaller d) i; put_u64 out p v }) (A2 @ drop 88 out, 88) [0..<5] = Some (ld_bytes d @ drop 128 out, 128)"
    using put_all_next [where put = put_u64 and sz = 8 and out = out and W = A2 and p = 88 and vs = "ld_n_occs_smaller d" and k = 5, OF put_ints_next(1)]
      assms l by (simp add: ld_ok_def ld_bytes_def A_def A1_def A2_def)
  have "ld_put d out = do {
     (out, p) \<leftarrow> foldM (\<lambda>(out, p) i. do { v \<leftarrow> idx (ld_off_sel d) i; put_u64 out p v }) (A @ drop 40 out, 40) [0..<4];
     (out, p) \<leftarrow> foldM (\<lambda>(out, p) i. do { v \<leftarrow> idx (ld_n_sel d) i; put_u32 out p v }) (out, p) [0..<4];
     (out, p) \<leftarrow> foldM (\<lambda>(out, p) i. do { v \<leftarrow> idx (ld_n_occs_smaller d) i; put_u64 out p v }) (out, p) [0..<5];
     guard (p = LEVEL_DIR_SIZE);
     Some (out, p)
   }"
    unfolding ld_put_def A_def using assms(2) put_ints_next(1) [of "[]" 0 out "ld_off_data d"]
    by (simp add: put_ints_next del: append_assoc)
  then show ?thesis by (simp add: s1 s2 s3 LEVEL_DIR_SIZE_def)
qed

lemma ld_write_eq: "ld_ok d \<Longrightarrow> length out = 128 \<Longrightarrow> ld_write d out = Some (ld_bytes d)"
  by (simp add: ld_write_def ld_put_eq LEVEL_DIR_SIZE_def)

lemma hd_write_eq: "ld_ok d \<Longrightarrow> length out = 136 \<Longrightarrow> hd_write d out = Some (ld_bytes d @ to_le (ld_level_len d))"
  using put_ints_next(1) [of "ld_bytes d" 128 out "ld_level_len d"]
  by (simp add: hd_write_def ld_put_eq format_consts length_ld_bytes)

text \<open>Reading on: the rest of the buffer.\<close>

lemma drop_next: "drop p buf = Y @ Z \<Longrightarrow> drop (p + length Y) buf = Z"
  by (metis append_eq_conv_conj drop_drop add.commute)

lemma get_ints_next:
  "drop p buf = to_le v @ Z \<Longrightarrow> get_u64 buf p = Some (v, p + 8) \<and> drop (p + 8) buf = Z"
  "drop p buf = to_le v' @ Z \<Longrightarrow> get_u32 buf p = Some (v', p + 4) \<and> drop (p + 4) buf = Z"
  "drop p buf = to_le v'' @ Z \<Longrightarrow> get_u16 buf p = Some (v'', p + 2) \<and> drop (p + 2) buf = Z"
proof -
  have r: "range_of buf p (p + length Y) = Some Y" if "drop p buf = Y @ Z" "0 < length Y" for Y
  proof -
    have "length buf - p = length Y + length Z" using arg_cong [OF that(1), of length] by simp
    then have "p + length Y \<le> length buf" using that(2) by linarith
    then show ?thesis using that by (simp add: range_of_def)
  qed
  show "drop p buf = to_le v @ Z \<Longrightarrow> get_u64 buf p = Some (v, p + 8) \<and> drop (p + 8) buf = Z"
    using r [of "to_le v"] drop_next [of p buf "to_le v" Z] by (simp add: get_u64_def)
  show "drop p buf = to_le v' @ Z \<Longrightarrow> get_u32 buf p = Some (v', p + 4) \<and> drop (p + 4) buf = Z"
    using r [of "to_le v'"] drop_next [of p buf "to_le v'" Z] by (simp add: get_u32_def)
  show "drop p buf = to_le v'' @ Z \<Longrightarrow> get_u16 buf p = Some (v'', p + 2) \<and> drop (p + 2) buf = Z"
    using r [of "to_le v''"] drop_next [of p buf "to_le v''" Z] by (simp add: get_u16_def)
qed

lemma get_all_next:
  assumes get: "\<And>p v Z. drop p buf = to_le (v :: 'a::len word) @ Z \<Longrightarrow> get buf p = Some (v, p + sz) \<and> drop (p + sz) buf = Z"
    and "drop p buf = concat (map to_le vs) @ Z"
  shows "foldM (\<lambda>(xs, p) slot. do { (v, p) \<leftarrow> get buf p; Some (xs @ [v], p) }) (ws, p) [i..<i + length vs] = Some (ws @ vs, p + sz * length vs)
    \<and> drop (p + sz * length vs) buf = Z"
  using assms(2)
proof (induction vs arbitrary: ws p i)
  case (Cons v vs)
  have g: "get buf p = Some (v, p + sz)" "drop (p + sz) buf = concat (map to_le vs) @ Z" using get [of p v "concat (map to_le vs) @ Z"] Cons.prems by simp_all
  have "[i..<i + length (v # vs)] = i # [Suc i..<Suc i + length vs]" by (subst upt_rec) simp
  then show ?case using g(1) Cons.IH [OF g(2), of "ws @ [v]" "Suc i"] by (simp add: algebra_simps)
qed simp

lemma ld_get_eq:
  assumes "ld_ok d"
  shows "ld_get (ld_bytes d @ Z) = Some (level_dir.truncate d, 128)" and "drop 128 (ld_bytes d @ Z) = Z"
proof -
  let ?buf = "ld_bytes d @ Z"
  define Z3 where "Z3 = concat (map to_le (ld_n_occs_smaller d)) @ Z"
  define Z2 where "Z2 = concat (map to_le (ld_n_sel d)) @ Z3"
  define Z1 where "Z1 = concat (map to_le (ld_off_sel d)) @ Z2"
  have b: "drop 0 ?buf = to_le (ld_off_data d) @ to_le (ld_n_datalines d) @ to_le (0 :: u32) @ to_le (ld_position_bits d)
     @ to_le (ld_off_superblocks d) @ to_le (ld_n_superblocks d) @ to_le (0 :: u32) @ Z1"
    by (simp add: ld_bytes_def Z1_def Z2_def Z3_def)
  note g1 = get_ints_next(1) [OF b]
  note g2 = get_ints_next(2) [OF conjunct2 [OF g1]]
  note g3 = get_ints_next(2) [OF conjunct2 [OF g2]]
  note g4 = get_ints_next(1) [OF conjunct2 [OF g3]]
  note g5 = get_ints_next(1) [OF conjunct2 [OF g4]]
  note g6 = get_ints_next(2) [OF conjunct2 [OF g5]]
  note g7 = get_ints_next(2) [OF conjunct2 [OF g6]]
  have d1: "drop 40 ?buf = concat (map to_le (ld_off_sel d)) @ Z2" using conjunct2 [OF g7] by (simp add: Z1_def)
  note s1 = get_all_next [where get = get_u64 and sz = 8 and ws = "[]" and i = 0, OF get_ints_next(1) d1]
  have d2: "drop 72 ?buf = concat (map to_le (ld_n_sel d)) @ Z3" using s1 assms by (simp add: Z2_def ld_ok_def)
  note s2 = get_all_next [where get = get_u32 and sz = 4 and ws = "[]" and i = 0, OF get_ints_next(2) d2]
  have d3: "drop 88 ?buf = concat (map to_le (ld_n_occs_smaller d)) @ Z" using s2 assms by (simp add: Z3_def ld_ok_def)
  note s3 = get_all_next [where get = get_u64 and sz = 8 and ws = "[]" and i = 0, OF get_ints_next(1) d3]
  have f1: "foldM (\<lambda>(xs, p) slot. do { (v, p) \<leftarrow> get_u64 ?buf p; Some (xs @ [v], p) }) ([], 40) [0..<4] = Some (ld_off_sel d, 72)"
    and f2: "foldM (\<lambda>(xs, p) slot. do { (v, p) \<leftarrow> get_u32 ?buf p; Some (xs @ [v], p) }) ([], 72) [0..<4] = Some (ld_n_sel d, 88)"
    and f3: "foldM (\<lambda>(xs, p) slot. do { (v, p) \<leftarrow> get_u64 ?buf p; Some (xs @ [v], p) }) ([], 88) [0..<5] = Some (ld_n_occs_smaller d, 128)"
    using s1 s2 s3 assms by (simp_all add: ld_ok_def)
  show "ld_get ?buf = Some (level_dir.truncate d, 128)"
    unfolding ld_get_def using g1 g2 g3 g4 g5 g6 g7 f1 f2 f3 by (simp add: level_dir.truncate_def)
  show "drop 128 ?buf = Z" using s3 assms by (simp add: ld_ok_def)
qed

lemma ld_read_eq: "ld_ok d \<Longrightarrow> ld_read (ld_bytes d) = Some (Inr (level_dir.truncate d))"
  using ld_get_eq(1) [of d "[]"] by (simp add: ld_read_def length_ld_bytes LEVEL_DIR_SIZE_def)

lemma hd_read_eq:
  assumes "ld_ok d"
  shows "hd_read (ld_bytes d @ to_le (ld_level_len d)) = Some (Inr d)"
proof -
  have "drop 128 (ld_bytes d @ to_le (ld_level_len d)) = to_le (ld_level_len d) @ []" using assms by (simp add: length_ld_bytes)
  then have "get_u64 (ld_bytes d @ to_le (ld_level_len d)) 128 = Some (ld_level_len d, 136)" using get_ints_next(1) by fastforce
  then show ?thesis
    using ld_get_eq(1) [OF assms, of "to_le (ld_level_len d)"] assms
    by (simp add: hd_read_def length_ld_bytes format_consts level_dir.truncate_def level_dir.extend_def)
qed

text \<open>An entry is read from any 128 bytes.\<close>

lemma get_ints_total:
  "p + 8 \<le> length buf \<Longrightarrow> \<exists>v. get_u64 buf p = Some (v, p + 8)"
  "p + 4 \<le> length buf \<Longrightarrow> \<exists>v. get_u32 buf p = Some (v, p + 4)"
  "p + 2 \<le> length buf \<Longrightarrow> \<exists>v. get_u16 buf p = Some (v, p + 2)"
  by (simp_all add: get_u64_def get_u32_def get_u16_def range_of_def)

lemma ld_get_total:
  assumes "128 \<le> length buf"
  shows "\<exists>d. ld_get buf = Some (d, 128) \<and> ld_ok d"
proof -
  have "get_u64 buf p = Some (from_le (take 8 (drop p buf)), p + 8)" if "p + 8 \<le> 128" for p
    using that assms by (simp add: get_u64_def range_of_def)
  moreover have "get_u32 buf p = Some (from_le (take 4 (drop p buf)), p + 4)" if "p + 4 \<le> 128" for p
    using that assms by (simp add: get_u32_def range_of_def)
  moreover have "[0..<4] = [0, 1, 2, 3 :: nat]" "[0..<5] = [0, 1, 2, 3, 4 :: nat]" by (simp_all add: upt_rec)
  ultimately show ?thesis by (simp add: ld_get_def ld_ok_def)
qed

end
