(* ===== verification/LevelImage.thy ===== *)
theory LevelImage
  imports ByteLevel
begin

text \<open>
  What a level becomes in a blob: \<open>level_image c r\<close> are the bytes written for the level \<open>r\<close> when the cursor is at
  \<open>c\<close>, \<open>level_entry c r\<close> its directory entry. Writing appends the image; reading at an image gives the level back.
\<close>

section \<open>The image of a level\<close>

definition up64 :: "nat \<Rightarrow> nat" where
  "up64 c = (c + 63) div 64 * 64"

definition level_sb_off :: "nat \<Rightarrow> rs_support_plain rs_qvector \<Rightarrow> nat" where
  "level_sb_off c r = up64 c + 64 * length (qv_data (rq_qv r))"

definition level_sel_off :: "nat \<Rightarrow> rs_support_plain rs_qvector \<Rightarrow> nat \<Rightarrow> nat" where
  "level_sel_off c r s = level_sb_off c r + 64 * length (rp_superblocks (rq_rs_support r))
     + 4 * length (concat (take s (rp_select_samples (rq_rs_support r))))"

definition level_end :: "nat \<Rightarrow> rs_support_plain rs_qvector \<Rightarrow> nat" where
  "level_end c r = level_sel_off c r 4"

definition level_entry :: "nat \<Rightarrow> rs_support_plain rs_qvector \<Rightarrow> level_dir" where
  "level_entry c r = \<lparr>ld_off_data = of_nat (up64 c), ld_n_datalines = of_nat (length (qv_data (rq_qv r))),
     ld_position_bits = of_nat (qv_position (rq_qv r)), ld_off_superblocks = of_nat (level_sb_off c r),
     ld_n_superblocks = of_nat (length (rp_superblocks (rq_rs_support r))),
     ld_off_sel = map (\<lambda>s. of_nat (level_sel_off c r s)) [0..<4],
     ld_n_sel = map (\<lambda>s. of_nat (length (rp_select_samples (rq_rs_support r) ! s))) [0..<4],
     ld_n_occs_smaller = map (\<lambda>i. of_nat (rq_n_occs_smaller r ! i)) [0..<5]\<rparr>"

definition samples_image :: "rs_support_plain \<Rightarrow> nat \<Rightarrow> u8 list" where
  "samples_image rs k = concat (map to_le (concat (take k (rp_select_samples rs))))"

definition level_image :: "nat \<Rightarrow> rs_support_plain rs_qvector \<Rightarrow> u8 list" where
  "level_image c r = replicate (up64 c - c) 0 @ concat (map dl_bytes (qv_data (rq_qv r)))
     @ concat (map sp_bytes (rp_superblocks (rq_rs_support r))) @ samples_image (rq_rs_support r) 4"

text \<open>The counts fit the fields of the entry, and the parts have their shape.\<close>

definition level_fits :: "rs_support_plain rs_qvector \<Rightarrow> bool" where
  "level_fits r \<longleftrightarrow> (\<forall>x\<in>set (qv_data (rq_qv r)). dl_ok x) \<and> (\<forall>x\<in>set (rp_superblocks (rq_rs_support r)). sp_ok x)
     \<and> length (qv_data (rq_qv r)) < 2 ^ 32 \<and> length (rp_superblocks (rq_rs_support r)) < 2 ^ 32
     \<and> length (rp_select_samples (rq_rs_support r)) = 4 \<and> (\<forall>s<4. length (rp_select_samples (rq_rs_support r) ! s) < 2 ^ 32)
     \<and> even (qv_position (rq_qv r)) \<and> qv_position (rq_qv r) \<le> length (qv_data (rq_qv r)) * 512
     \<and> length (rq_n_occs_smaller r) = 5 \<and> (\<forall>i<5. rq_n_occs_smaller r ! i < 2 ^ 64)"

lemma up64_bounds: "c \<le> up64 c" "up64 c \<le> c + 63" "up64 c mod 64 = 0"
  unfolding up64_def by simp_all

lemma up64_mult: "c mod 64 = 0 \<Longrightarrow> up64 c = c"
proof -
  assume "c mod 64 = 0"
  then obtain q where "c = 64 * q" by (auto elim: dvdE)
  then show ?thesis by (simp add: up64_def)
qed

lemma level_offsets:
  assumes "level_fits r"
  shows "up64 c \<le> level_sb_off c r" "level_sb_off c r \<le> level_sel_off c r s" "s \<le> 4 \<Longrightarrow> level_sel_off c r s \<le> level_end c r"
    "level_end c r \<le> c + 2 ^ 40" "level_sb_off c r mod 64 = 0"
proof -
  let ?ss = "rp_select_samples (rq_rs_support r)"
  have len: "length ?ss = 4" "length (?ss ! k) < 2 ^ 32" if "k < 4" for k using assms that by (auto simp: level_fits_def)
  have sum: "length (concat (take k ?ss)) \<le> k * 2 ^ 32" if "k \<le> 4" for k
    using that
  proof (induction k)
    case (Suc k)
    then show ?case using len [of k] by (simp add: take_Suc_conv_app_nth)
  qed simp
  have mono: "length (concat (take k ?ss)) \<le> length (concat (take l ?ss))" if "k \<le> l" for k l
  proof -
    have "take l ?ss = take k ?ss @ take (l - k) (drop k ?ss)" using that by (metis le_add_diff_inverse take_add)
    then show ?thesis by (simp only: concat_append length_append)
  qed
  show "up64 c \<le> level_sb_off c r" "level_sb_off c r \<le> level_sel_off c r s" by (simp_all add: level_sb_off_def level_sel_off_def)
  show "s \<le> 4 \<Longrightarrow> level_sel_off c r s \<le> level_end c r"
    using mono [of s 4] by (simp add: level_sel_off_def level_end_def)
  show "level_end c r \<le> c + 2 ^ 40"
  proof -
    have l: "length (qv_data (rq_qv r)) < 2 ^ 32" "length (rp_superblocks (rq_rs_support r)) < 2 ^ 32" using assms by (simp_all add: level_fits_def)
    have s4: "length (concat (take 4 ?ss)) \<le> 4 * 2 ^ 32" by (rule sum) simp
    show ?thesis unfolding level_end_def level_sel_off_def level_sb_off_def using l s4 up64_bounds(2) [of c] by simp
  qed
  show "level_sb_off c r mod 64 = 0" using up64_bounds(3) [of c] by (simp only: level_sb_off_def mod_mult_self2)
qed

lemma length_samples_image: "length (samples_image rs k) = 4 * length (concat (take k (rp_select_samples rs)))"
  by (simp add: samples_image_def word32.length_image)

lemma length_level_image:
  assumes "level_fits r"
  shows "c + length (level_image c r) = level_end c r"
  using assms up64_bounds(1) [of c]
  by (simp add: level_image_def level_end_def level_sel_off_def level_sb_off_def length_samples_image dl.length_image sb.length_image level_fits_def)

section \<open>Planning gives the entry\<close>

lemma align_64: "c + 63 < 2 ^ 64 \<Longrightarrow> align_up c 64 = Some (up64 c)"
  using align_up_eq [of c 6] by (simp add: up64_def)

lemma align_4: "c mod 64 = 0 \<Longrightarrow> c + 3 < 2 ^ 64 \<Longrightarrow> align_up c 4 = Some c"
proof -
  assume "c mod 64 = 0" and small: "c + 3 < 2 ^ 64"
  then have "(c + 3) div 4 * 4 = c" by presburger
  then show ?thesis using align_up_eq [of c 2] small by simp
qed

lemma plan_level_eq:
  assumes fits: "level_fits r" and c: "c + 2 ^ 41 < 2 ^ 64"
  shows "plan_level c r = Some (level_entry c r, level_end c r)"
proof -
  let ?rs = "rq_rs_support r"
  note offs = level_offsets [OF fits]
  have F: "length (qv_data (rq_qv r)) < 2 ^ 32" "length (rp_superblocks ?rs) < 2 ^ 32" "length (rp_select_samples ?rs) = 4"
    "length (rp_select_samples ?rs ! s) < 2 ^ 32" if "s < 4" for s using fits that by (auto simp: level_fits_def)
  have small: "level_end c r + 100 < 2 ^ 64" using offs(4) [of c] c by simp
  have le: "level_sel_off c r s \<le> level_end c r" if "s \<le> 4" for s using offs(3) [OF that] by simp
  have a1: "align_up c 64 = Some (up64 c)" by (rule align_64) (use c in simp)
  have b1: "add_usize (up64 c) (unat (of_nat (length (qv_data (rq_qv r))) :: u32) * 64) = Some (level_sb_off c r)"
    using F(1) [of 0] offs(2) [of c 0] le [of 0] small by (simp add: unat_of_nat_small add_usize_def level_sb_off_def mult.commute)
  have a2: "align_up (level_sb_off c r) 64 = Some (level_sb_off c r)"
    using align_64 [of "level_sb_off c r"] offs(2) [of c 0] le [of 0] small offs(5) [of c] by (simp add: up64_mult)
  have b2: "add_usize (level_sb_off c r) (unat (of_nat (length (rp_superblocks ?rs)) :: u32) * 64) = Some (level_sel_off c r 0)"
    using F(2) [of 0] le [of 0] small by (simp add: unat_of_nat_small add_usize_def level_sel_off_def mult.commute)
  have "level_sel_off c r 0 mod 64 = 0" using offs(5) [of c] by (simp add: level_sel_off_def)
  then have a3: "align_up (level_sel_off c r 0) 4 = Some (level_sel_off c r 0)" using align_4 le [of 0] small by simp
  let ?nsel = "map (\<lambda>s. of_nat (length (rp_select_samples ?rs ! s)) :: u32) [0..<4]"
  let ?g = "\<lambda>k. (map (\<lambda>s. if s < k then of_nat (level_sel_off c r s) else 0 :: u64) [0..<4], level_sel_off c r k)"
  have "foldM (plan_sel ?nsel) (?g 0) [0..<4] = Some (?g 4)"
  proof (rule foldM_upt_value)
    fix k :: nat assume k: "k < 4"
    have "level_sel_off c r k + 4 * length (rp_select_samples ?rs ! k) = level_sel_off c r (Suc k)"
      using k F(3) [OF k] by (simp add: level_sel_off_def take_Suc_conv_app_nth)
    then have "add_usize (level_sel_off c r k) (unat (?nsel ! k) * 4) = Some (level_sel_off c r (Suc k))"
      using k F(4) [OF k] le [of "Suc k"] small by (simp add: unat_of_nat_small add_usize_def mult.commute)
    moreover have "(map (\<lambda>s. if s < k then of_nat (level_sel_off c r s) else 0 :: u64) [0..<4])[k := of_nat (level_sel_off c r k)]
      = map (\<lambda>s. if s < Suc k then of_nat (level_sel_off c r s) else 0) [0..<4]"
      using k by (auto intro!: nth_equalityI simp: nth_list_update less_Suc_eq)
    ultimately show "plan_sel ?nsel (?g k) k = Some (?g (Suc k))" using k by (simp add: plan_sel_def)
  qed
  moreover have "map (\<lambda>s. if s < 0 then of_nat (level_sel_off c r s) else 0 :: u64) [0..<4] = [0, 0, 0, 0]" by (simp add: upt_rec)
  moreover have "map (\<lambda>s. if s < 4 then of_nat (level_sel_off c r s) else 0 :: u64) [0..<4] = map (\<lambda>s. of_nat (level_sel_off c r s)) [0..<4]"
    by (rule map_cong) simp_all
  ultimately have sel: "foldM (plan_sel ?nsel) ([0, 0, 0, 0], level_sel_off c r 0) [0..<4] = Some (map (\<lambda>s. of_nat (level_sel_off c r s)) [0..<4], level_end c r)"
    by (simp add: level_end_def)
  have n_sel: "those (map (\<lambda>s. do { samples \<leftarrow> idx (rp_select_samples ?rs) s; Some (of_nat (length samples) :: u32) }) [0..<4]) = Some ?nsel"
    by (rule those_map_Some) (use F(3) [of 0] in auto)
  have occs: "those (map (\<lambda>i. do { v \<leftarrow> idx (rq_n_occs_smaller r) i; Some (of_nat v :: u64) }) [0..<5]) = Some (map (\<lambda>i. of_nat (rq_n_occs_smaller r ! i)) [0..<5])"
    by (rule those_map_Some) (use fits in \<open>auto simp: level_fits_def\<close>)
  show ?thesis unfolding plan_level_def Let_def n_sel occs Option.bind_lunit a1 b1 a2 b2 a3 sel by (simp add: level_entry_def)
qed

section \<open>Writing appends the image\<close>

text \<open>Writing behind what is already written, into a buffer of zeros.\<close>

lemma put_zeros:
  assumes "length P \<le> off" "off + length Y \<le> length P + z"
  shows "put_range (P @ replicate z 0) off Y = Some (P @ replicate (off - length P) 0 @ Y @ replicate (length P + z - (off + length Y)) (0 :: u8))"
  using assms by (auto simp: put_range_def min_def)

lemma put_zeros_at:
  assumes "length P = off" "length Y \<le> z"
  shows "put_range (P @ replicate z 0) off Y = Some ((P @ Y) @ replicate (z - length Y) (0 :: u8))"
  using put_zeros [of P off Y z] assms by simp

lemma write_sample_loop:
  assumes "length P = off" "4 * length vs \<le> z" "k \<le> length vs"
  shows "foldM (write_sample off) (P @ replicate z 0) (zip [0..<k] (take k vs))
    = Some ((P @ concat (map to_le (take k vs))) @ replicate (z - 4 * k) 0)"
  using assms(3)
proof (induction k)
  case (Suc k)
  have zip: "zip [0..<Suc k] (take (Suc k) vs) = zip [0..<k] (take k vs) @ [(k, vs ! k)]"
    using Suc.prems by (simp add: take_Suc_conv_app_nth zip_append)
  have "write_sample off ((P @ concat (map to_le (take k vs))) @ replicate (z - 4 * k) 0) (k, vs ! k)
    = Some (((P @ concat (map to_le (take k vs))) @ to_le (vs ! k)) @ replicate (z - 4 * k - 4) 0)"
    unfolding write_sample_def using put_zeros_at [of "P @ concat (map to_le (take k vs))" "off + k * 4" "to_le (vs ! k)" "z - 4 * k"] assms Suc.prems
    by (simp add: word32.length_image)
  then show ?case using Suc by (simp add: zip foldM_append take_Suc_conv_app_nth)
qed simp

lemma write_level_eq:
  assumes fits: "level_fits r" and P: "length P = c" and z: "level_end c r \<le> c + z" and small: "level_end c r < 2 ^ 64"
  shows "write_level (P @ replicate z 0) (r, level_entry c r) = Some (P @ level_image c r @ replicate (c + z - level_end c r) 0)"
proof -
  let ?qd = "qv_data (rq_qv r)" and ?rs = "rq_rs_support r"
  let ?sb = "rp_superblocks ?rs" and ?ss = "rp_select_samples ?rs"
  note offs = level_offsets [OF fits] and up = up64_bounds [of c]
  have F: "\<forall>x\<in>set ?qd. dl_ok x" "\<forall>x\<in>set ?sb. sp_ok x" "length ?qd < 2 ^ 32" "length ?sb < 2 ^ 32" "length ?ss = 4"
    "\<And>s. s < 4 \<Longrightarrow> length (?ss ! s) < 2 ^ 32" using fits by (auto simp: level_fits_def)
  have ord: "c \<le> up64 c" "up64 c \<le> level_sb_off c r" "level_sb_off c r \<le> level_sel_off c r 0"
    "\<And>s. s \<le> 4 \<Longrightarrow> level_sel_off c r s \<le> level_end c r"
    using up(1) offs(1,2,3) by blast+
  define D where "D = concat (map dl_bytes ?qd)"
  define S where "S = concat (map sp_bytes ?sb)"
  have lD: "length D = 64 * length ?qd" and lS: "length S = 64 * length ?sb" by (simp_all add: D_def S_def dl.length_image sb.length_image F)
  define P1 where "P1 = P @ replicate (up64 c - c) 0 @ D"
  define P2 where "P2 = P1 @ S"
  have l1: "length P1 = level_sb_off c r" using P up(1) lD by (simp add: P1_def level_sb_off_def)
  have l2: "length P2 = level_sel_off c r 0" using l1 lS by (simp add: P2_def level_sel_off_def)
  have e0: "level_sel_off c r 0 \<le> c + z" using ord(4) [of 0] z by simp
  have e1: "level_sb_off c r \<le> c + z" using ord(3) e0 by simp
  have sm: "up64 c < 2 ^ 64" "level_sb_off c r < 2 ^ 64" using ord(2,3) ord(4) [of 0] small by simp_all
  have sel_small: "level_sel_off c r s < 2 ^ 64" if "s \<le> 4" for s using le_less_trans [OF ord(4) [OF that] small] .
  have w1: "put_range (P @ replicate z 0) (up64 c) D = Some (P1 @ replicate (c + z - level_sb_off c r) 0)"
    using put_zeros [of P "up64 c" D z] P lD ord(1) e1 by (simp add: P1_def level_sb_off_def)
  have w2: "put_range (P1 @ replicate (c + z - level_sb_off c r) 0) (level_sb_off c r) S = Some (P2 @ replicate (c + z - level_sel_off c r 0) 0)"
    using put_zeros_at [OF l1, of S "c + z - level_sb_off c r"] lS e0 by (simp add: P2_def level_sel_off_def)
  let ?g = "\<lambda>k. (P2 @ samples_image ?rs k) @ replicate (c + z - level_sel_off c r k) (0 :: u8)"
  have "foldM (write_samples ?rs (level_entry c r)) (?g 0) [0..<4] = Some (?g 4)"
  proof (rule foldM_upt_value)
    fix k :: nat assume k: "k < 4"
    have nxt: "level_sel_off c r (Suc k) = level_sel_off c r k + 4 * length (?ss ! k)"
      using k F(5) by (simp add: level_sel_off_def take_Suc_conv_app_nth)
    have len: "length (P2 @ samples_image ?rs k) = level_sel_off c r k"
      using l2 by (simp add: length_samples_image level_sel_off_def)
    have img: "samples_image ?rs (Suc k) = samples_image ?rs k @ concat (map to_le (?ss ! k))"
      using k F(5) by (simp add: samples_image_def take_Suc_conv_app_nth)
    have fields: "idx (ld_off_sel (level_entry c r)) k = Some (of_nat (level_sel_off c r k))"
      "idx (ld_n_sel (level_entry c r)) k = Some (of_nat (length (?ss ! k)))" using k by (simp_all add: level_entry_def)
    have "4 * length (?ss ! k) \<le> c + z - level_sel_off c r k" using nxt ord(4) [of "Suc k"] k z by simp
    then have "foldM (write_sample (level_sel_off c r k)) (?g k) (zip [0..<length (?ss ! k)] (?ss ! k)) = Some (?g (Suc k))"
      using write_sample_loop [OF len, of "?ss ! k" "c + z - level_sel_off c r k" "length (?ss ! k)"] nxt by (simp add: img)
    then show "write_samples ?rs (level_entry c r) (?g k) k = Some (?g (Suc k))"
      unfolding write_samples_def fields using k F(5,6) sel_small [of k] by (simp add: unat_of_nat_small)
  qed
  then have w3: "foldM (write_samples ?rs (level_entry c r)) (P2 @ replicate (c + z - level_sel_off c r 0) 0) [0..<4]
    = Some (P @ level_image c r @ replicate (c + z - level_end c r) 0)"
    by (simp add: samples_image_def [of _ 0] P2_def P1_def level_image_def D_def S_def level_end_def)
  have "range_of D 0 (unat (of_nat (length ?qd) :: u32) * 64) = Some D" "range_of S 0 (unat (of_nat (length ?sb) :: u32) * 64) = Some S"
    using lD lS F(3,4) by (simp_all add: unat_of_nat_small range_of_def)
  then show ?thesis
    using w1 w2 w3 sm by (simp add: write_level_def Let_def level_entry_def [of c r] unat_of_nat_small flip: D_def S_def)
qed

section \<open>Reading gives the level back\<close>

lemma read_level_eq:
  assumes bytes: "bytes = P @ level_image c r @ Z" "length P = c" "length bytes < 2 ^ 64" and fits: "level_fits r"
    and built: "rq_from (rs_plain B) (rq_qv r) = Some r"
  shows "read_level B bytes (level_entry c r) = Some (Inr r)"
proof -
  let ?qd = "qv_data (rq_qv r)" and ?rs = "rq_rs_support r"
  let ?sb = "rp_superblocks ?rs" and ?ss = "rp_select_samples ?rs"
  note offs = level_offsets [OF fits] and up = up64_bounds [of c]
  have F: "\<forall>x\<in>set ?qd. dl_ok x" "length ?qd < 2 ^ 32" "length ?sb < 2 ^ 32" "length ?ss = 4"
    "\<And>s. s < 4 \<Longrightarrow> length (?ss ! s) < 2 ^ 32" "even (qv_position (rq_qv r))" "qv_position (rq_qv r) \<le> length ?qd * 512"
    using fits by (auto simp: level_fits_def)
  have fin: "level_end c r \<le> length bytes" using length_level_image [OF fits, of c] bytes(1,2) by simp
  have e: "level_sel_off c r s \<le> length bytes" if "s \<le> 4" for s using offs(3) [OF that, of c] fin by simp
  have e1: "level_sb_off c r \<le> length bytes" "up64 c \<le> length bytes" using offs(1,2) [of c] e [of 0] by (meson le_trans zero_le)+
  have sm: "unat (of_nat (up64 c) :: u64) = up64 c" "unat (of_nat (level_sb_off c r) :: u64) = level_sb_off c r"
    using e1 bytes(3) by (simp_all add: unat_of_nat_small)
  have n: "unat (of_nat (length ?qd) :: u32) = length ?qd" "unat (of_nat (length ?sb) :: u32) = length ?sb"
    using F(2,3) by (simp_all add: unat_of_nat_small)
  have pos: "unat (of_nat (qv_position (rq_qv r)) :: u64) = qv_position (rq_qv r)"
    using F(2,7) by (simp add: unat_of_nat_small)
  have r1: "checked_region (up64 c) (length ?qd) 64 (length bytes) = Some (Inr (length ?qd * 64))"
    using e1(1) bytes(3) by (simp add: checked_region_eq level_sb_off_def mult.commute)
  have r2: "checked_region (level_sb_off c r) (length ?sb) 64 (length bytes) = Some (Inr (length ?sb * 64))"
    using e [of 0] bytes(3) by (simp add: checked_region_eq level_sel_off_def mult.commute)
  define rest where "rest = concat (map sp_bytes ?sb) @ samples_image ?rs 4 @ Z"
  have drop: "drop (up64 c) bytes = concat (map dl_bytes ?qd) @ rest"
    using bytes(1,2) up(1) by (simp add: level_image_def rest_def)
  have src: "range_of bytes (up64 c) (length bytes) = Some (concat (map dl_bytes ?qd) @ rest)"
    using range_of_tail [OF e1(2)] drop by simp
  have copy: "copy_pod_slice 64 dl_of (concat (map dl_bytes ?qd) @ rest) (length ?qd) = Some (Inr ?qd)"
    using F(1,2) by (intro dl.copy_image) simp_all
  have sel: "foldR (\<lambda>u s. do {
         n_sel \<leftarrow> idx (ld_n_sel (level_entry c r)) s;
         off \<leftarrow> idx (ld_off_sel (level_entry c r)) s;
         rbind (checked_region (unat off) (unat n_sel) 4 (length bytes)) (\<lambda>_. Some (Inr ()))
       }) () [0..<4] = Some (Inr ())"
  proof (rule foldR_pass)
    fix s :: nat assume "s \<in> set [0..<4]"
    then have s: "s < 4" by simp
    have "level_sel_off c r s + 4 * length (?ss ! s) = level_sel_off c r (Suc s)"
      using s F(4) by (simp add: level_sel_off_def take_Suc_conv_app_nth)
    then have le: "level_sel_off c r s + length (?ss ! s) * 4 \<le> length bytes" using e [of "Suc s"] s by simp
    moreover have "unat (of_nat (level_sel_off c r s) :: u64) = level_sel_off c r s" "unat (of_nat (length (?ss ! s)) :: u32) = length (?ss ! s)"
      using le bytes(3) F(5) [OF s] by (simp_all add: unat_of_nat_small)
    ultimately show "do {
         n_sel \<leftarrow> idx (ld_n_sel (level_entry c r)) s;
         off \<leftarrow> idx (ld_off_sel (level_entry c r)) s;
         rbind (checked_region (unat off) (unat n_sel) 4 (length bytes)) (\<lambda>_. Some (Inr ()))
       } = Some (Inr ())" using s bytes(3) by (simp add: level_entry_def checked_region_eq)
  qed
  have raw: "qv_from_raw_parts ?qd (qv_position (rq_qv r)) = Some (rq_qv r)"
    using F(6,7) by (simp add: qv_from_raw_parts_def)
  have "\<not> (qv_position (rq_qv r) mod 2 \<noteq> 0 \<or> qv_position (rq_qv r) > min (length ?qd * 512) (2 ^ 64 - 1))"
    using F(2,6,7) by auto
  then have rej: "reject (qv_position (rq_qv r) mod 2 \<noteq> 0 \<or> qv_position (rq_qv r) > min (length ?qd * 512) (2 ^ 64 - 1)) e' = Some (Inr ())" for e' :: layout_error
    by (simp only: reject_simps(2) simp_thms)
  have fields: "ld_off_data (level_entry c r) = of_nat (up64 c)" "ld_n_datalines (level_entry c r) = of_nat (length ?qd)"
    "ld_position_bits (level_entry c r) = of_nat (qv_position (rq_qv r))" "ld_off_superblocks (level_entry c r) = of_nat (level_sb_off c r)"
    "ld_n_superblocks (level_entry c r) = of_nat (length ?sb)" by (simp_all add: level_entry_def)
  show ?thesis
    unfolding read_level_def Let_def sel fields sm n pos r1 r2 src copy raw rej up(3) offs(5)
    by (simp add: src copy raw rej built r2 offs(5) del: foldR.simps)
qed

text \<open>An extended entry is read and written like the plain one.\<close>

lemma level_truncate:
  "read_level B bytes d = read_level B bytes (level_dir.truncate d)"
  "write_level out (r, d) = write_level out (r, level_dir.truncate d)"
  by (simp_all add: read_level_def write_level_def write_samples_def [abs_def] level_dir.truncate_def)

section \<open>Reading any bytes\<close>

lemma rq_from_plain:
  assumes "bs = 256 \<or> bs = 512" "qv_ok qv" "qv_len qv < 2 ^ 43 - 2048"
  shows "\<exists>r. rq_from (rs_plain bs) qv = Some r \<and> rq_ok (rp_inv bs) r \<and> rq_qv r = qv"
  by (rule rs_support.from_ok [OF rs_plain_contract [OF assms(1)] assms(2,3)])

text \<open>Reading a level returns, whatever the bytes and the entry are, and what is accepted is a well-formed vector.\<close>

lemma read_level_total:
  assumes bs: "bs = 256 \<or> bs = 512" and bytes: "length bytes < 2 ^ 64" and d: "ld_ok d"
  obtains e where "read_level bs bytes d = Some (Inl e)"
  | r where "read_level bs bytes d = Some (Inr r)" "rq_ok (rp_inv bs) r" "qv_position (rq_qv r) < 2 ^ 64"
proof -
  let ?off = "unat (ld_off_data d)" and ?n = "unat (ld_n_datalines d)" and ?pos = "unat (ld_position_bits d)"
  consider "?off mod 64 \<noteq> 0 \<or> \<not> ?off + ?n * 64 \<le> length bytes" | "?off mod 64 = 0" "?off + ?n * 64 \<le> length bytes" by blast
  then show thesis
  proof cases
    case 1
    then show ?thesis using that(1) by (cases "?off mod 64 = 0") (auto simp: read_level_def checked_region_eq)
  next
    case 2
    then have "?off + ?n * 64 < 2 ^ 64" using bytes by simp
    then have reg: "checked_region ?off ?n 64 (length bytes) = Some (Inr (?n * 64))" using 2(2) by (simp add: checked_region_eq)
    have src: "range_of bytes ?off (length bytes) = Some (drop ?off bytes)" using 2(2) by (simp add: range_of_def)
    obtain lines where l: "copy_pod_slice 64 dl_of (drop ?off bytes) ?n = Some (Inr lines)"
    proof -
      have "\<not> length bytes - ?off < ?n * 64" using 2(2) by linarith
      then have "reject (length (drop ?off bytes) < ?n * 64) Truncated = Some (Inr ())" by simp
      then show thesis using that \<open>?off + ?n * 64 < 2 ^ 64\<close> by (simp add: copy_pod_slice_def checked_mul_def)
    qed
    have lines: "length lines = ?n" "\<forall>x\<in>set lines. dl_ok x" using dl.copy_result(2) [OF l] by blast+
    have n32: "?n < 2 ^ 32" using unsigned_less [of "ld_n_datalines d", where 'a = nat] by simp
    let ?bad = "?pos mod 2 \<noteq> 0 \<or> ?pos > min (?n * 512) (2 ^ 64 - 1)"
    let ?qv = "\<lparr>qv_data = lines, qv_position = ?pos\<rparr>"
    show ?thesis
    proof (cases ?bad)
      case True
      then show ?thesis using that(1) by (simp add: read_level_def 2(1) reg src l)
    next
      case False
      then have p: "?pos mod 2 = 0" "?pos \<le> ?n * 512" "?pos < 2 ^ 64" by auto
      have raw: "qv_from_raw_parts lines ?pos = Some ?qv" using p lines(1) by (simp add: qv_from_raw_parts_def)
      have "qv_ok ?qv" using p lines by (simp add: qv_ok_def even_iff_mod_2_eq_zero)
      moreover have "qv_len ?qv < 2 ^ 43 - 2048" using p(2) n32 by (simp add: qv_len_def)
      ultimately obtain r where r: "rq_from (rs_plain bs) ?qv = Some r" "rq_ok (rp_inv bs) r" "rq_qv r = ?qv" using rq_from_plain [OF bs] by blast
      let ?sel = "\<lambda>u :: unit. \<lambda>s. do {
         n_sel \<leftarrow> idx (ld_n_sel d) s;
         off \<leftarrow> idx (ld_off_sel d) s;
         rbind (checked_region (unat off) (unat n_sel) 4 (length bytes)) (\<lambda>_. Some (Inr ()))
       }"
      have "\<exists>q. ?sel u s = Some q" if "s \<in> set [0..<4]" for s u using that d by (simp add: ld_ok_def checked_region_eq)
      then have "\<exists>q. foldR ?sel () [0..<4] = Some q" by (intro foldR_total)
      then obtain q where q: "foldR ?sel () [0..<4] = Some q" by blast
      have body: "read_level bs bytes d = rbind (reject (unat (ld_off_superblocks d) mod 64 \<noteq> 0) Misaligned) (\<lambda>_.
          rbind (checked_region (unat (ld_off_superblocks d)) (unat (ld_n_superblocks d)) 64 (length bytes)) (\<lambda>_. rbind (Some q) (\<lambda>_. Some (Inr r))))"
        unfolding read_level_def Let_def q using False 2(1) by (simp add: reg src l raw r(1) q del: foldR.simps)
      have "rbind (reject b e) (\<lambda>_. rbind (Some s) (\<lambda>_. rbind (Some q) (\<lambda>_. Some (Inr r)))) = Some (Inr r)
          \<or> (\<exists>e'. rbind (reject b e) (\<lambda>_. rbind (Some s) (\<lambda>_. rbind (Some q) (\<lambda>_. Some (Inr r)))) = Some (Inl e'))"
        for b e and s :: "layout_error + nat" by (cases b; cases s; cases q) simp_all
      then consider e where "read_level bs bytes d = Some (Inl e)" | "read_level bs bytes d = Some (Inr r)"
        unfolding body checked_region_eq by blast
      then show ?thesis using that r p(3) by cases auto
    qed
  qed
qed

end
