(* ===== verification/Qwtb.thy ===== *)
theory Qwtb
  imports ByteLevel QuadWTParts
begin

text \<open>
  The \<open>QWTB\<close> container, \<^verbatim>\<open>src/bytes/qwtb.rs\<close>: writing a tree to bytes and reading one back.
\<close>

unbundle bit_operations_syntax

section \<open>Writing\<close>

definition plan_step :: "level_dir list \<times> nat \<Rightarrow> rs_support_plain rs_qvector \<Rightarrow> (level_dir list \<times> nat) option" where
  "plan_step st level = (
     let (dirs, cursor) = st
     in do { (dir, cursor) \<leftarrow> plan_level cursor level; Some (dirs @ [dir], cursor) })"

definition write_dir :: "nat \<Rightarrow> ('d \<Rightarrow> u8 list \<Rightarrow> u8 list option) \<Rightarrow> u8 list \<times> nat \<Rightarrow> 'd \<Rightarrow> (u8 list \<times> nat) option" where
  "write_dir sz write st dir = (
     let (out, p) = st
     in do {
       s \<leftarrow> range_of out p (p + sz);
       s \<leftarrow> write dir s;
       out \<leftarrow> put_range out p s;
       Some (out, p + sz)
     })"

text \<open>The first 16 bytes of both headers: magic, version, flags, symbol width and length.\<close>

definition write_preamble :: "u8 list \<Rightarrow> nat \<Rightarrow> nat \<Rightarrow> nat \<Rightarrow> u8 list \<Rightarrow> (u8 list \<times> nat) option" where
  "write_preamble magic B t_width n out = do {
     out \<leftarrow> put_range out 0 magic;
     (out, p) \<leftarrow> put_u16 out 4 FORMAT_VERSION;
     out \<leftarrow> put_range out p [if B = 512 then FLAG_B512 else 0];
     out \<leftarrow> put_range out (p + 1) [of_nat t_width];
     put_u64 out (p + 2) (of_nat n)
   }"

definition qwtb_to_bytes :: "bool \<Rightarrow> nat \<Rightarrow> ('a::len word, rs_support_plain rs_qvector, 'p) qwt \<Rightarrow> (layout_error + u8 list) option" where
  "qwtb_to_bytes little_endian B tree =
     rbind (ensure_le little_endian) (\<lambda>_. do {
       let n_levels = qw_n_levels tree;
       let header_and_dir = HEADER_SIZE + n_levels * LEVEL_DIR_SIZE;
       cursor \<leftarrow> align_up header_and_dir 64;
       (dirs, cursor) \<leftarrow> foldM plan_step ([], cursor) (take n_levels (qw_qvs tree));
       (out, p) \<leftarrow> write_preamble QWTB_MAGIC B (size_of_T TYPE('a)) (qw_n tree) (replicate cursor 0);
       (out, p) \<leftarrow> put_u64 out p (as_usize (qw_sigma tree));
       (out, p) \<leftarrow> put_u16 out p (of_nat n_levels);
       guard (p = 26);
       (out, p) \<leftarrow> foldM (write_dir LEVEL_DIR_SIZE ld_write) (out, HEADER_SIZE) dirs;
       out \<leftarrow> foldM write_level out (zip (qw_qvs tree) dirs);
       Some (Inr out)
     })"

section \<open>Reading\<close>

text \<open>The checks on the first eight bytes, the same in every reader of the two formats. They leave the offset at 8.\<close>

definition read_preamble :: "bool \<Rightarrow> u8 list \<Rightarrow> nat \<Rightarrow> nat \<Rightarrow> u8 list \<Rightarrow> (layout_error + nat) option" where
  "read_preamble little_endian magic B t_size bytes =
     rbind (ensure_le little_endian) (\<lambda>_.
     rbind (reject (length bytes < HEADER_SIZE) Truncated) (\<lambda>_. do {
       m \<leftarrow> range_of bytes 0 4;
       rbind (reject (m \<noteq> magic) BadMagic) (\<lambda>_. do {
       (version, p) \<leftarrow> get_u16 bytes 4;
       rbind (reject (version \<noteq> FORMAT_VERSION) BadVersion) (\<lambda>_. do {
       flags \<leftarrow> idx bytes p;
       rbind (reject (flags AND FLAG_PREFETCH \<noteq> 0) PrefetchNotSupported) (\<lambda>_.
       rbind (reject ((B = 512) \<noteq> (flags AND FLAG_B512 \<noteq> 0)) (Inconsistent ''B_SIZE flag does not match requested type'')) (\<lambda>_. do {
       t_width \<leftarrow> idx bytes (p + 1);
       rbind (reject (unat t_width \<noteq> t_size) (Inconsistent ''t_width does not match T'')) (\<lambda>_.
       Some (Inr (p + 2)))}))})})}))"

text \<open>The end of the directory of \<open>n_levels\<close> entries of size \<open>sz\<close>, checked against the blob.\<close>

definition directory_end :: "nat \<Rightarrow> nat \<Rightarrow> nat \<Rightarrow> (layout_error + nat) option" where
  "directory_end n_levels sz buf_len =
     rbind (ok_or (Some (do { size \<leftarrow> checked_mul n_levels sz; add_usize HEADER_SIZE size })) Truncated) (\<lambda>dir_end.
     rbind (reject (buf_len < dir_end) Truncated) (\<lambda>_. Some (Inr dir_end)))"

definition qwtb_read_step :: "nat \<Rightarrow> u8 list \<Rightarrow> rs_support_plain rs_qvector list \<Rightarrow> nat \<Rightarrow>
    (layout_error + rs_support_plain rs_qvector list) option" where
  "qwtb_read_step B bytes qvs li = do {
     let dir_off = HEADER_SIZE + li * LEVEL_DIR_SIZE;
     buf \<leftarrow> range_of bytes dir_off (dir_off + LEVEL_DIR_SIZE);
     rbind (ld_read buf) (\<lambda>dir.
     rbind (read_level B bytes dir) (\<lambda>r.
     Some (Inr (qvs @ [r]))))
   }"

definition qwtb_from_bytes :: "bool \<Rightarrow> nat \<Rightarrow> u8 list \<Rightarrow>
    (layout_error + ('a::len word, rs_support_plain rs_qvector, 'p) qwt) option" where
  "qwtb_from_bytes little_endian B bytes =
     rbind (read_preamble little_endian QWTB_MAGIC B (size_of_T TYPE('a)) bytes) (\<lambda>p. do {
       (n, p) \<leftarrow> get_u64 bytes p;
       (sigma_u, p) \<leftarrow> get_u64 bytes p;
       (n_levels, p) \<leftarrow> get_u16 bytes p;
       let n = unat n;
       let n_levels = unat n_levels;
       let sigma = (ucast sigma_u :: 'a word);
       let max_type_levels = div_ceil (size_of_T TYPE('a) * 8) 2;
       rbind (reject (as_usize sigma \<noteq> sigma_u \<or> n_levels > MAX_QUAD_LEVELS \<or> n_levels > max_type_levels \<or> (n > 0 \<and> n_levels = 0))
         (Inconsistent ''plain QWT header values are invalid for the requested type'')) (\<lambda>_.
       rbind (directory_end n_levels LEVEL_DIR_SIZE (length bytes)) (\<lambda>dir_end.
       rbind (foldR (qwtb_read_step B bytes) [] [0..<n_levels]) (\<lambda>qvs. do {
         qvs \<leftarrow> (if n = 0 \<and> qvs = [] then do { r \<leftarrow> rq_default (rs_plain B); Some (qvs @ [r]) } else Some qvs);
         qw_from_parts (rq_ops (rs_plain B)) False n n_levels sigma qvs
       })))
     })"

end
