(* ===== verification/QwtbCorrect.thy ===== *)
theory QwtbCorrect
  imports LevelImage Qwtb
begin

text \<open>
  A blob is a header, a directory and the images of the levels one behind the other: what \<open>qwtb_to_bytes\<close> writes
  and what \<open>qwtb_from_bytes\<close> reads back.
\<close>

unbundle bit_operations_syntax

section \<open>All levels\<close>

fun level_entries :: "nat \<Rightarrow> rs_support_plain rs_qvector list \<Rightarrow> level_dir list" where
  "level_entries c [] = []"
| "level_entries c (r # rs) = level_entry c r # level_entries (level_end c r) rs"

fun level_images :: "nat \<Rightarrow> rs_support_plain rs_qvector list \<Rightarrow> u8 list" where
  "level_images c [] = []"
| "level_images c (r # rs) = level_image c r @ level_images (level_end c r) rs"

fun levels_end :: "nat \<Rightarrow> rs_support_plain rs_qvector list \<Rightarrow> nat" where
  "levels_end c [] = c"
| "levels_end c (r # rs) = levels_end (level_end c r) rs"

lemma length_level_entries [simp]: "length (level_entries c rs) = length rs"
  by (induction rs arbitrary: c) simp_all

lemma levels_end_le: "\<forall>r\<in>set rs. level_fits r \<Longrightarrow> levels_end c rs \<le> c + length rs * 2 ^ 40"
proof (induction rs arbitrary: c)
  case (Cons r rs)
  then have "level_end c r \<le> c + 2 ^ 40" "levels_end (level_end c r) rs \<le> level_end c r + length rs * 2 ^ 40"
    using level_offsets(4) [of r c] Cons.IH [of "level_end c r"] by simp_all
  then show ?case by simp
qed simp

lemma levels_end_ge: "\<forall>r\<in>set rs. level_fits r \<Longrightarrow> c \<le> levels_end c rs"
proof (induction rs arbitrary: c)
  case (Cons r rs)
  have "c \<le> level_end c r" using length_level_image [of r c] Cons.prems by simp
  then show ?case using Cons le_trans by fastforce
qed simp

lemma length_level_images: "\<forall>r\<in>set rs. level_fits r \<Longrightarrow> c + length (level_images c rs) = levels_end c rs"
proof (induction rs arbitrary: c)
  case (Cons r rs)
  then have "c + length (level_image c r) = level_end c r" "level_end c r + length (level_images (level_end c r) rs) = levels_end (level_end c r) rs"
    using length_level_image [of r c] Cons.IH [of "level_end c r"] by simp_all
  then show ?case by simp
qed simp

lemma plan_levels:
  assumes "\<forall>r\<in>set rs. level_fits r" "c + (length rs + 2) * 2 ^ 40 < 2 ^ 64"
  shows "foldM plan_step (ds, c) rs = Some (ds @ level_entries c rs, levels_end c rs)"
  using assms
proof (induction rs arbitrary: c ds)
  case (Cons r rs)
  have fits: "level_fits r" using Cons.prems by simp
  have "level_end c r + (length rs + 2) * 2 ^ 40 < 2 ^ 64" using level_offsets(4) [OF fits, of c] Cons.prems(2) by simp
  moreover have "plan_level c r = Some (level_entry c r, level_end c r)"
    by (rule plan_level_eq [OF fits]) (use Cons.prems(2) in simp)
  ultimately show ?case using Cons by (simp add: plan_step_def)
qed simp

lemma write_levels:
  assumes "\<forall>r\<in>set rs. level_fits r" "length P = c" "levels_end c rs \<le> c + z" "levels_end c rs < 2 ^ 64"
  shows "foldM write_level (P @ replicate z 0) (zip rs (level_entries c rs))
    = Some (P @ level_images c rs @ replicate (c + z - levels_end c rs) 0)"
  using assms
proof (induction rs arbitrary: c P z)
  case (Cons r rs)
  have fits: "level_fits r" using Cons.prems by simp
  have ge: "level_end c r \<le> levels_end (level_end c r) rs" using levels_end_ge Cons.prems(1) by simp
  have w: "write_level (P @ replicate z 0) (r, level_entry c r) = Some ((P @ level_image c r) @ replicate (c + z - level_end c r) 0)"
    using write_level_eq [OF fits Cons.prems(2), of z] ge Cons.prems(3,4) by simp
  have "length (P @ level_image c r) = level_end c r" using length_level_image [OF fits, of c] Cons.prems(2) by simp
  then have "foldM write_level ((P @ level_image c r) @ replicate (c + z - level_end c r) 0) (zip rs (level_entries (level_end c r) rs))
    = Some ((P @ level_image c r) @ level_images (level_end c r) rs @ replicate (level_end c r + (c + z - level_end c r) - levels_end (level_end c r) rs) 0)"
    using Cons.prems ge by (intro Cons.IH) simp_all
  then show ?case using w ge Cons.prems(3) by simp
qed simp

lemma read_levels:
  assumes "bytes = P @ level_images c rs @ Z" "length P = c" "length bytes < 2 ^ 64"
    "\<forall>r\<in>set rs. level_fits r \<and> rq_from (rs_plain B) (rq_qv r) = Some r" "k < length rs"
  shows "read_level B bytes (level_entries c rs ! k) = Some (Inr (rs ! k))"
  using assms
proof (induction rs arbitrary: c P k)
  case (Cons r rs)
  have fits: "level_fits r" using Cons.prems by simp
  show ?case
  proof (cases k)
    case 0
    have "read_level B bytes (level_entry c r) = Some (Inr r)"
      by (rule read_level_eq [of _ P _ _ "level_images (level_end c r) rs @ Z"]) (use Cons.prems in simp_all)
    then show ?thesis using 0 by simp
  next
    case (Suc j)
    have "length (P @ level_image c r) = level_end c r" using length_level_image [OF fits, of c] Cons.prems(2) by simp
    then have "read_level B bytes (level_entries (level_end c r) rs ! j) = Some (Inr (rs ! j))"
      using Cons.prems Suc by (intro Cons.IH [of "P @ level_image c r"]) simp_all
    then show ?thesis using Suc by simp
  qed
qed simp

lemma level_entries_ok: "d \<in> set (level_entries c rs) \<Longrightarrow> ld_ok d"
  by (induction rs arbitrary: c) (auto simp: ld_ok_def level_entry_def)

section \<open>Blocks of equal size\<close>

lemma concat_block:
  assumes "\<forall>x\<in>set xs. length (f x) = sz" "k < length xs"
  shows "take sz (drop (k * sz) (concat (map f xs) @ Z)) = f (xs ! k)"
  using assms
proof (induction xs arbitrary: k)
  case (Cons x xs)
  then show ?case by (cases k) (simp_all add: add.commute)
qed simp

lemma length_concat_blocks: "\<forall>x\<in>set xs. length (f x) = sz \<Longrightarrow> length (concat (map f xs)) = length xs * sz"
  by (induction xs) simp_all

lemma range_of_block:
  assumes "\<forall>x\<in>set xs. length (f x) = sz" "k < length xs" "length H = h"
  shows "range_of (H @ concat (map f xs) @ Z) (h + k * sz) (h + k * sz + sz) = Some (f (xs ! k))"
proof -
  have "k * sz + sz \<le> length xs * sz" using mult_le_mono1 [of "Suc k" "length xs" sz] assms(2) by simp
  then show ?thesis using concat_block [OF assms(1,2), of Z] length_concat_blocks [OF assms(1)] assms(3) by (simp add: range_of_def)
qed

lemma write_dirs:
  assumes each: "\<And>d s. d \<in> set ds \<Longrightarrow> length s = sz \<Longrightarrow> w d s = Some (f d) \<and> length (f d) = sz"
    and "length P = p" "sz * length ds \<le> z"
  shows "foldM (write_dir sz w) (P @ replicate z 0, p) ds
    = Some ((P @ concat (map f ds)) @ replicate (z - sz * length ds) 0, p + sz * length ds)"
  using assms
proof (induction ds arbitrary: P p z)
  case (Cons d ds)
  have "sz \<le> z" using Cons.prems(3) by simp
  then have r: "range_of (P @ replicate z 0) p (p + sz) = Some (replicate sz (0 :: u8))"
    using Cons.prems(2) by (simp add: range_of_def min_def)
  have wd: "w d (replicate sz 0) = Some (f d)" "length (f d) = sz" using Cons.prems(1) [of d "replicate sz 0"] by simp_all
  have "put_range (P @ replicate z 0) p (f d) = Some ((P @ f d) @ replicate (z - sz) 0)"
    using put_zeros_at [OF Cons.prems(2), of "f d" z] wd(2) \<open>sz \<le> z\<close> by simp
  then have "write_dir sz w (P @ replicate z 0, p) d = Some ((P @ f d) @ replicate (z - sz) 0, p + sz)"
    using r wd by (simp add: write_dir_def)
  moreover have "foldM (write_dir sz w) ((P @ f d) @ replicate (z - sz) 0, p + sz) ds
    = Some (((P @ f d) @ concat (map f ds)) @ replicate (z - sz - sz * length ds) 0, p + sz + sz * length ds)"
    using Cons.prems wd by (intro Cons.IH) simp_all
  ultimately show ?case by (simp add: add.assoc)
qed simp

section \<open>The header\<close>

definition preamble_bytes :: "u8 list \<Rightarrow> nat \<Rightarrow> nat \<Rightarrow> u8 list" where
  "preamble_bytes magic B t_width = magic @ to_le FORMAT_VERSION @ [if B = 512 then FLAG_B512 else 0, of_nat t_width]"

definition qwtb_header :: "nat \<Rightarrow> ('a::len word, 'r, 'p) qwt \<Rightarrow> u8 list" where
  "qwtb_header B t = preamble_bytes QWTB_MAGIC B (size_of_T TYPE('a)) @ to_le (of_nat (qw_n t) :: u64) @ to_le (as_usize (qw_sigma t))
     @ to_le (of_nat (qw_n_levels t) :: u16) @ replicate 6 0"

text \<open>The blob of a tree.\<close>

definition qwtb_image :: "nat \<Rightarrow> ('a::len word, rs_support_plain rs_qvector, 'p) qwt \<Rightarrow> u8 list" where
  "qwtb_image B t = (
     let L = qw_n_levels t; rs = take L (qw_qvs t); base = up64 (32 + L * 128)
     in qwtb_header B t @ concat (map ld_bytes (level_entries base rs)) @ replicate (base - (32 + L * 128)) 0 @ level_images base rs)"

lemma write_preamble_eq:
  assumes "length magic = 4" "16 \<le> length out"
  shows "write_preamble magic B w n out = Some ((preamble_bytes magic B w @ to_le (of_nat n :: u64)) @ drop 16 out, 16)"
  using assms put_next [of "[]" 0 magic out] put_next [of "magic @ to_le FORMAT_VERSION" 6 "[if B = 512 then FLAG_B512 else 0]" out]
    put_next [of "(magic @ to_le FORMAT_VERSION) @ [if B = 512 then FLAG_B512 else 0]" 7 "[of_nat w]" out]
    put_ints_next(1) [of "((magic @ to_le FORMAT_VERSION) @ [if B = 512 then FLAG_B512 else 0]) @ [of_nat w]" 8 out]
  by (simp add: write_preamble_def preamble_bytes_def put_ints_next(3) del: append_assoc)

lemma read_preamble_eq:
  assumes "length magic = 4" "32 \<le> length bytes" "bytes = preamble_bytes magic B w @ Z" "w < 256" "B = 256 \<or> B = 512"
  shows "read_preamble True magic B w bytes = Some (Inr 8)"
proof -
  have "drop 4 bytes = to_le FORMAT_VERSION @ [if B = 512 then FLAG_B512 else 0, of_nat w] @ Z" using assms(1,3) by (simp add: preamble_bytes_def)
  then have v: "get_u16 bytes 4 = Some (FORMAT_VERSION, 6)" using get_ints_next(3) by fastforce
  have i: "idx bytes 6 = Some (if B = 512 then FLAG_B512 else 0)" "idx bytes 7 = Some (of_nat w)"
    using assms(1-3) by (simp_all add: preamble_bytes_def nth_append)
  have m: "range_of bytes 0 4 = Some magic" using assms(1-3) by (simp add: range_of_def preamble_bytes_def)
  have "unat (of_nat w :: u8) = w" using assms(4) by (simp add: unat_of_nat_small)
  then show ?thesis using assms(2,5)
    by (auto simp: read_preamble_def ensure_le_def HEADER_SIZE_def v i m FLAG_B512_def FLAG_PREFETCH_def)
qed

lemma zip_prefix: "length ys \<le> length xs \<Longrightarrow> zip xs ys = zip (take (length ys) xs) ys"
  by (intro nth_equalityI) simp_all

lemma length_preamble [simp]: "length (preamble_bytes magic B w) = length magic + 4"
  by (simp add: preamble_bytes_def)

lemma length_magic [simp]: "length QWTB_MAGIC = 4" "length HQWB_MAGIC = 4"
  by (simp_all add: QWTB_MAGIC_def HQWB_MAGIC_def)

lemma length_qwtb_header [simp]: "length (qwtb_header B t) = 32"
  by (simp add: qwtb_header_def)

text \<open>Writing gives the image.\<close>

theorem qwtb_to_bytes_eq:
  fixes t :: "('a::len word, rs_support_plain rs_qvector, 'p) qwt"
  assumes fits: "\<forall>r\<in>set (take (qw_n_levels t) (qw_qvs t)). level_fits r" and L: "qw_n_levels t \<le> length (qw_qvs t)" "qw_n_levels t \<le> 64"
  shows "qwtb_to_bytes True B t = Some (Inr (qwtb_image B t))"
    and "length (qwtb_image B t) < 2 ^ 64"
proof -
  let ?L = "qw_n_levels t"
  let ?rs = "take ?L (qw_qvs t)"
  define base where "base = up64 (32 + ?L * 128)"
  define es where "es = level_entries base ?rs"
  define H where "H = preamble_bytes QWTB_MAGIC B (size_of_T TYPE('a)) @ to_le (of_nat (qw_n t) :: u64) @ to_le (as_usize (qw_sigma t))
     @ to_le (of_nat ?L :: u16)"
  have len: "length ?rs = ?L" "length es = ?L" using L by (simp_all add: es_def)
  have ok: "ld_ok d" if "d \<in> set es" for d using that level_entries_ok by (simp add: es_def)
  have base: "32 + ?L * 128 \<le> base" "base \<le> 2 ^ 14" using up64_bounds(1,2) [of "32 + ?L * 128"] L(2) by (simp_all add: base_def)
  have "levels_end base ?rs \<le> base + ?L * 2 ^ 40" using levels_end_le [OF fits, of base] len by simp
  also have "?L * 2 ^ 40 \<le> 64 * 2 ^ 40" using L(2) by (rule mult_le_mono1)
  finally have fin: "levels_end base ?rs \<le> 2 ^ 14 + 2 ^ 46" using base(2) by simp
  have al: "align_up (HEADER_SIZE + ?L * LEVEL_DIR_SIZE) 64 = Some base"
    unfolding base_def using align_64 [of "32 + ?L * 128"] L(2) by (simp add: format_consts)
  have "(?L + 2) * 2 ^ 40 \<le> 66 * 2 ^ 40" using L(2) by (intro mult_le_mono1) simp
  then have "base + (length ?rs + 2) * 2 ^ 40 < 2 ^ 64" using base(2) unfolding len(1) by simp
  then have plan: "foldM plan_step ([], base) ?rs = Some (es, levels_end base ?rs)" using plan_levels [OF fits] by (simp add: es_def)
  define c where "c = levels_end base ?rs"
  have c: "base \<le> c" using levels_end_ge [OF fits] by (simp add: c_def)
  let ?z = "replicate c (0 :: u8)"
  have w0: "write_preamble QWTB_MAGIC B (size_of_T TYPE('a)) (qw_n t) ?z
      = Some ((preamble_bytes QWTB_MAGIC B (size_of_T TYPE('a)) @ to_le (of_nat (qw_n t) :: u64)) @ drop 16 ?z, 16)"
    using c base(1) by (intro write_preamble_eq) simp_all
  have w1: "put_u64 ((preamble_bytes QWTB_MAGIC B (size_of_T TYPE('a)) @ to_le (of_nat (qw_n t) :: u64)) @ drop 16 ?z) 16 (as_usize (qw_sigma t))
      = Some (((preamble_bytes QWTB_MAGIC B (size_of_T TYPE('a)) @ to_le (of_nat (qw_n t) :: u64)) @ to_le (as_usize (qw_sigma t))) @ drop 24 ?z, 24)"
    using c base(1) put_ints_next(1) [of "preamble_bytes QWTB_MAGIC B (size_of_T TYPE('a)) @ to_le (of_nat (qw_n t) :: u64)" 16 ?z] by simp
  have w2: "put_u16 (((preamble_bytes QWTB_MAGIC B (size_of_T TYPE('a)) @ to_le (of_nat (qw_n t) :: u64)) @ to_le (as_usize (qw_sigma t))) @ drop 24 ?z) 24 (of_nat ?L)
      = Some (H @ replicate (c - 26) 0, 26)"
    using c base(1) put_ints_next(3) [of "(preamble_bytes QWTB_MAGIC B (size_of_T TYPE('a)) @ to_le (of_nat (qw_n t) :: u64)) @ to_le (as_usize (qw_sigma t))" 24 ?z]
    by (simp add: H_def)
  have hdr: "H @ replicate (c - 26) 0 = qwtb_header B t @ replicate (c - 32) 0"
  proof -
    have "replicate (c - 26) (0 :: u8) = replicate 6 0 @ replicate (c - 32) 0" using c base(1) by (simp flip: replicate_add)
    then show ?thesis by (simp add: H_def qwtb_header_def)
  qed
  have w3: "foldM (write_dir LEVEL_DIR_SIZE ld_write) (qwtb_header B t @ replicate (c - 32) 0, HEADER_SIZE) es
      = Some ((qwtb_header B t @ concat (map ld_bytes es)) @ replicate (c - 32 - 128 * ?L) 0, 32 + 128 * ?L)"
    using write_dirs [where ds = es and sz = 128 and w = ld_write and f = ld_bytes and P = "qwtb_header B t" and p = 32 and z = "c - 32"] c base(1)
    by (simp add: format_consts len(2) ld_write_eq length_ld_bytes ok)
  let ?P = "(qwtb_header B t @ concat (map ld_bytes es)) @ replicate (base - (32 + ?L * 128)) 0"
  have "length (concat (map ld_bytes es)) = ?L * 128"
    using length_concat_blocks [where xs = es and f = ld_bytes and sz = 128] len(2) by (simp add: ok length_ld_bytes)
  then have lP: "length ?P = base" using base(1) by simp
  have parts: "replicate (c - (32 + 128 * ?L)) (0 :: u8) = replicate (base - (32 + ?L * 128)) 0 @ replicate (c - base) 0"
    using c base(1) by (simp flip: replicate_add)
  have w4: "foldM write_level (?P @ replicate (c - base) 0) (zip ?rs es) = Some (?P @ level_images base ?rs)"
    using write_levels [OF fits lP, of "c - base"] c fin by (simp add: es_def c_def)
  have zip: "zip (qw_qvs t) es = zip ?rs es" using zip_prefix [of es "qw_qvs t"] len L by simp
  show "qwtb_to_bytes True B t = Some (Inr (qwtb_image B t))"
    unfolding qwtb_to_bytes_def using al plan w0 w1 w2 hdr w3 w4
    by (simp add: ensure_le_def Let_def c_def [symmetric] zip parts qwtb_image_def base_def [symmetric] es_def [symmetric])
  have "base + length (level_images base ?rs) = c" using length_level_images [OF fits, of base] by (simp add: c_def)
  moreover have "qwtb_image B t = ?P @ level_images base ?rs"
    by (simp add: qwtb_image_def Let_def base_def [symmetric] es_def [symmetric])
  ultimately have "length (qwtb_image B t) = c" using lP by (simp only: length_append)
  then show "length (qwtb_image B t) < 2 ^ 64" using fin by (simp add: c_def)
qed

text \<open>Reading the image rebuilds the levels and passes the parts on to \<open>from_parts\<close>.\<close>

lemma T_size: "8 dvd LENGTH('a::len) \<Longrightarrow> size_of_T TYPE('a) * 8 = LENGTH('a)"
  by (simp add: size_of_T_def)

text \<open>What a reader finds in the blob: the header, the directory, and the image of every level behind its offset.\<close>

lemma level_images_nth:
  assumes "\<forall>r\<in>set rs. level_fits r" "k < length rs"
  obtains A c' Z where "level_images c rs = A @ level_image c' (rs ! k) @ Z" "c + length A = c'" "level_entries c rs ! k = level_entry c' (rs ! k)"
  using assms
proof (induction rs arbitrary: c k thesis)
  case (Cons r rs)
  show ?case
  proof (cases k)
    case 0
    then show ?thesis using Cons.prems(1) [of "[]"] by simp
  next
    case (Suc j)
    obtain A c' Z where "level_images (level_end c r) rs = A @ level_image c' (rs ! j) @ Z" "level_end c r + length A = c'"
      "level_entries (level_end c r) rs ! j = level_entry c' (rs ! j)"
      using Cons.IH [of "level_end c r" j] Cons.prems(2,3) Suc by auto
    then show ?thesis using Cons.prems(1) [of "level_image c r @ A" c' Z] Cons.prems(2) length_level_image [of r c] Suc by (simp add: add.assoc [symmetric])
  qed
qed simp

lemma qwtb_image_parts:
  fixes t :: "('a::len word, rs_support_plain rs_qvector, 'p) qwt"
  assumes B: "B = 256 \<or> B = 512" and w: "LENGTH('a) \<le> 64"
    and fits: "\<forall>r\<in>set (take (qw_n_levels t) (qw_qvs t)). level_fits r" and L: "qw_n_levels t \<le> length (qw_qvs t)" "qw_n_levels t \<le> 64"
    and n: "qw_n t < 2 ^ 64"
  defines "bytes \<equiv> qwtb_image B t" and "rs \<equiv> take (qw_n_levels t) (qw_qvs t)" and "base \<equiv> up64 (32 + qw_n_levels t * 128)"
  shows "read_preamble True QWTB_MAGIC B (size_of_T TYPE('a)) bytes = Some (Inr 8)"
    and "get_u64 bytes 8 = Some (of_nat (qw_n t), 16)" "get_u64 bytes 16 = Some (as_usize (qw_sigma t), 24)"
    and "get_u16 bytes 24 = Some (of_nat (qw_n_levels t), 26)"
    and "directory_end (qw_n_levels t) LEVEL_DIR_SIZE (length bytes) = Some (Inr (32 + qw_n_levels t * 128))"
    and "k < qw_n_levels t \<Longrightarrow> range_of bytes (32 + k * 128) (32 + k * 128 + 128) = Some (ld_bytes (level_entries base rs ! k)) \<and> ld_ok (level_entries base rs ! k)"
    and "\<exists>H. bytes = H @ level_images base rs \<and> length H = base"
    and "length bytes < 2 ^ 64" "(ucast (as_usize (qw_sigma t)) :: 'a word) = qw_sigma t"
proof -
  let ?L = "qw_n_levels t"
  define es where "es = level_entries base rs"
  define Z where "Z = replicate (base - (32 + ?L * 128)) 0 @ level_images base rs"
  have len: "length rs = ?L" "length es = ?L" using L(1) by (simp_all add: es_def rs_def)
  have ok: "ld_ok d" if "d \<in> set es" for d using that level_entries_ok by (simp add: es_def)
  have bytes: "bytes = qwtb_header B t @ concat (map ld_bytes es) @ Z" by (simp add: bytes_def qwtb_image_def Let_def base_def es_def Z_def rs_def)
  show "length bytes < 2 ^ 64" unfolding bytes_def by (rule qwtb_to_bytes_eq(2) [OF fits L])
  have ld: "length (concat (map ld_bytes es)) = ?L * 128"
    using length_concat_blocks [where xs = es and f = ld_bytes and sz = 128] len(2) by (simp add: ok length_ld_bytes)
  have size: "size_of_T TYPE('a) < 256" using w by (simp add: size_of_T_def)
  let ?Y = "concat (map ld_bytes es) @ Z"
  show "read_preamble True QWTB_MAGIC B (size_of_T TYPE('a)) bytes = Some (Inr 8)"
    by (rule read_preamble_eq [OF _ _ _ size B, of _ _ "to_le (of_nat (qw_n t) :: u64) @ to_le (as_usize (qw_sigma t)) @ to_le (of_nat ?L :: u16) @ replicate 6 0 @ ?Y"])
      (simp_all add: bytes, simp add: qwtb_header_def)
  have d8: "drop 8 bytes = to_le (of_nat (qw_n t) :: u64) @ to_le (as_usize (qw_sigma t)) @ to_le (of_nat ?L :: u16) @ replicate 6 0 @ ?Y"
    by (simp add: bytes qwtb_header_def)
  note g1 = get_ints_next(1) [OF d8]
  note g2 = get_ints_next(1) [OF conjunct2 [OF g1]]
  note g3 = get_ints_next(3) [OF conjunct2 [OF g2]]
  show "get_u64 bytes 8 = Some (of_nat (qw_n t), 16)" "get_u64 bytes 16 = Some (as_usize (qw_sigma t), 24)" "get_u16 bytes 24 = Some (of_nat ?L, 26)"
    using g1 g2 g3 by simp_all
  show "(ucast (as_usize (qw_sigma t)) :: 'a word) = qw_sigma t" using w by (intro bit_word_eqI) (auto simp: as_usize_def bit_ucast_iff)
  show "directory_end ?L LEVEL_DIR_SIZE (length bytes) = Some (Inr (32 + ?L * 128))"
    using L(2) ld by (simp add: directory_end_def checked_mul_def format_consts bytes)
  show "range_of bytes (32 + k * 128) (32 + k * 128 + 128) = Some (ld_bytes (level_entries base rs ! k)) \<and> ld_ok (level_entries base rs ! k)" if "k < ?L"
    unfolding bytes es_def [symmetric] using that len(2) by (intro conjI range_of_block) (simp_all add: ok length_ld_bytes)
  show "\<exists>H. bytes = H @ level_images base rs \<and> length H = base"
    using ld up64_bounds(1) [of "32 + ?L * 128"]
    by (intro exI [of _ "qwtb_header B t @ concat (map ld_bytes es) @ replicate (base - (32 + ?L * 128)) 0"]) (simp add: bytes Z_def base_def)
qed

theorem qwtb_from_bytes_image:
  fixes t :: "('a::len word, rs_support_plain rs_qvector, 'p) qwt"
  assumes B: "B = 256 \<or> B = 512" and w: "8 dvd LENGTH('a)" "LENGTH('a) \<le> 64"
    and levels: "\<forall>r\<in>set (take (qw_n_levels t) (qw_qvs t)). level_fits r \<and> rq_from (rs_plain B) (rq_qv r) = Some r"
    and L: "qw_n_levels t \<le> 64" "qw_n_levels t \<le> div_ceil LENGTH('a) 2"
    and n: "qw_n t < 2 ^ 64" "if qw_n t = 0 then qw_n_levels t = 0 else 0 < qw_n_levels t \<and> length (qw_qvs t) = qw_n_levels t"
    and default: "qw_n t = 0 \<Longrightarrow> \<exists>r. rq_default (rs_plain B) = Some r \<and> qw_qvs t = [r]"
  shows "qwtb_from_bytes True B (qwtb_image B t)
    = qw_from_parts (rq_ops (rs_plain B)) False (qw_n t) (qw_n_levels t) (qw_sigma t) (qw_qvs t)"
proof -
  let ?L = "qw_n_levels t" and ?bytes = "qwtb_image B t"
  let ?rs = "take ?L (qw_qvs t)"
  let ?base = "up64 (32 + ?L * 128)"
  have fits: "\<forall>r\<in>set ?rs. level_fits r" using levels by blast
  have Ll: "?L \<le> length (qw_qvs t)" using n(2) by (auto split: if_splits)
  then have len: "length ?rs = ?L" by simp
  note parts = qwtb_image_parts [OF B w(2) fits Ll L(1) n(1)]
  have vals: "unat (of_nat (qw_n t) :: u64) = qw_n t" "unat (of_nat ?L :: u16) = ?L" using n(1) L(1) by (simp_all add: unat_of_nat_small)
  have hdr: "\<not> (as_usize (qw_sigma t) \<noteq> as_usize (qw_sigma t) \<or> ?L > MAX_QUAD_LEVELS \<or> ?L > div_ceil (size_of_T TYPE('a) * 8) 2 \<or> (qw_n t > 0 \<and> ?L = 0))"
    using L n(2) T_size [OF w(1)] by (auto simp: MAX_QUAD_LEVELS_def split: if_splits)
  have nz: "(0 < qw_n t \<and> ?L = 0) = False" using n(2) by (auto split: if_splits)
  obtain H where H: "?bytes = H @ level_images ?base ?rs" "length H = ?base" using parts(7) by blast
  have step: "qwtb_read_step B ?bytes (take k ?rs) k = Some (Inr (take (Suc k) ?rs))" if k: "k < ?L" for k
  proof -
    have "ld_read (ld_bytes (level_entries ?base ?rs ! k)) = Some (Inr (level_entries ?base ?rs ! k))"
      using ld_read_eq [of "level_entries ?base ?rs ! k"] parts(6) [OF k] by (simp add: level_dir.truncate_def)
    moreover have "read_level B ?bytes (level_entries ?base ?rs ! k) = Some (Inr (?rs ! k))"
      by (rule read_levels [of _ H _ _ "[]"]) (use H parts(8) levels k len in simp_all)
    ultimately show ?thesis using parts(6) [OF k] k len by (simp add: qwtb_read_step_def format_consts take_Suc_conv_app_nth)
  qed
  have "foldR (qwtb_read_step B ?bytes) (take 0 ?rs) (map id [0..<?L]) = Some (Inr (take ?L ?rs))"
    by (rule foldR_upt_value) (use step in simp)
  then have read: "foldR (qwtb_read_step B ?bytes) [] [0..<?L] = Some (Inr ?rs)" by simp
  have qvs: "(if qw_n t = 0 \<and> ?rs = [] then do { r \<leftarrow> rq_default (rs_plain B); Some (?rs @ [r]) } else Some ?rs) = Some (qw_qvs t)"
    using n(2) default by (auto split: if_splits)
  show ?thesis
    unfolding qwtb_from_bytes_def parts(1) using parts(2-5) hdr read qvs
    by (simp add: Let_def vals parts(9) nz del: foldR.simps)
qed

end
