(* ===== verification/ByteTrees.thy ===== *)
theory ByteTrees
  imports QwtbCorrect QuadWTPoint
begin

text \<open>
  Trees in bytes: the levels of a constructed tree fit the format, and reading returns on any bytes.
\<close>

section \<open>The levels of a constructed tree\<close>

lemma rq_from_qv: "rq_from S qv = Some r \<Longrightarrow> rq_qv r = qv"
  by (auto simp: rq_from_def bind_eq_Some_conv)

lemma count_built:
  "foldM (qw_count_step sh) (b, c) ys = Some (b', c') \<Longrightarrow> qv_built (qb_build b) \<Longrightarrow> qv_built (qb_build b')"
proof (induction ys arbitrary: b c)
  case (Cons y ys)
  obtain s1 where s1: "qw_count_step sh (b, c) y = Some s1" "foldM (qw_count_step sh) s1 ys = Some (b', c')"
    using Cons.prems(1) by (auto simp: bind_eq_Some_conv)
  obtain d b1 c1 where s: "qb_push b (of_nat d) = Some b1" "s1 = (b1, c1)"
    using s1(1) by (auto simp: qw_count_step_def bind_eq_Some_conv)
  have "qv_built (qb_build b1)" using qb_push_built [OF Cons.prems(2) s(1)] .
  then show ?case using Cons.IH s1(2) s(2) by blast
qed simp

definition level_built :: "'r wt_support_ops \<Rightarrow> 'r \<Rightarrow> bool" where
  "level_built R r \<longleftrightarrow> (\<exists>qv. qv_built qv \<and> w_from R qv = Some r)"

lemma level_step_built:
  assumes "qw_level_step R None st l = Some st'" "\<forall>r\<in>set (bw_qvs st). level_built R r"
  shows "\<forall>r\<in>set (bw_qvs st'). level_built R r"
proof -
  obtain b c r where s: "foldM (qw_count_step (bw_shift st)) (qb_default, [0, 0, 0, 0]) (bw_sequence st) = Some (b, c)"
    "w_from R (qb_build b) = Some r" "bw_qvs st' = bw_qvs st @ [r]"
    using assms(1) by (auto simp: qw_level_step_def bind_eq_Some_conv dest: qb_with_capacity_default)
  then show ?thesis using assms(2) count_built [OF s(1) qv_built_default(1)] by (auto simp: level_built_def)
qed

lemma levels_built:
  "foldM (qw_level_step R None) st ls = Some st' \<Longrightarrow> \<forall>r\<in>set (bw_qvs st). level_built R r \<Longrightarrow> \<forall>r\<in>set (bw_qvs st'). level_built R r"
proof (induction ls arbitrary: st)
  case (Cons l ls)
  obtain st1 where "qw_level_step R None st l = Some st1" "foldM (qw_level_step R None) st1 ls = Some st'"
    using Cons.prems(1) by (auto simp: bind_eq_Some_conv)
  then show ?case using Cons.IH level_step_built Cons.prems(2) by blast
qed simp

lemma tree_built: "qw_new R None xs = Some t \<Longrightarrow> xs \<noteq> [] \<Longrightarrow> \<forall>r\<in>set (qw_qvs t). level_built R r"
  by (auto simp: qw_new_def qw_from_owned_def Let_def bind_eq_Some_conv dest!: levels_built)

lemma level_fits_ok:
  assumes bs: "bs = 256 \<or> bs = 512" and ok: "rq_ok (rp_inv bs) r" and small: "length (rq_list r) < 2 ^ 43 - 2048" "length (qv_data (rq_qv r)) < 2 ^ 32"
  shows "level_fits r"
proof -
  let ?xs = "rq_list r" and ?rs = "rq_rs_support r"
  have inv: "rp_inv bs ?rs ?xs" and qv: "qv_ok (rq_qv r)" and occs: "rq_n_occs_smaller r = n_occs_of ?xs" using ok by (simp_all add: rq_ok_def)
  have sb: "length (rp_superblocks ?rs) < 2 ^ 32"
  proof -
    have "length ?xs div (8 * bs) < 2 ^ 32 - 1" using small(1) bs
      by (auto simp: div_less_iff_less_mult)
    then show ?thesis using inv by (simp add: rp_inv_def)
  qed
  have ok4: "\<forall>x\<in>set (rp_superblocks ?rs). sp_ok x" using inv by (auto simp: rp_inv_def rp_superblock_inv_def in_set_conv_nth)
  have sel: "length (rp_select_samples ?rs ! s) < 2 ^ 32" if "s < 4" for s
  proof -
    have "count_list ?xs s < 2 ^ 43" using small(1) count_le_length [of ?xs s] by linarith
    then have "count_list ?xs s div 8192 < 2 ^ 30" by (intro less_mult_imp_div_less) simp
    then have "div_ceil (count_list ?xs s) 8192 \<le> 2 ^ 30" by (simp add: div_ceil_def)
    then show ?thesis using inv that by (simp add: rp_inv_def rp_samples_inv_def)
  qed
  have "n_occs_of ?xs ! i < 2 ^ 64" if "i < 5" for i
    using that small(1) le_less_trans [OF length_filter_le [of "\<lambda>x. x < i" ?xs], of "2 ^ 64"] by (simp add: n_occs_of_def smaller_of_def)
  then show ?thesis using qv sb ok4 sel occs small(2) inv by (simp add: level_fits_def qv_ok_def rp_inv_def n_occs_of_def)
qed

lemma data_lines_small:
  assumes "qv_built qv" "qv_len qv \<le> 2 ^ 40 - 256"
  shows "length (qv_data qv) < 2 ^ 32"
proof -
  have "qv_len qv div 256 \<le> (2 ^ 40 - 256) div 256" using assms(2) by (rule div_le_mono)
  moreover have "qv_len qv mod 256 = 0 \<or> qv_len qv div 256 < 2 ^ 32 - 1"
  proof (rule ccontr)
    assume "\<not> ?thesis"
    then have "4294967295 \<le> qv_len qv div 256" "0 < qv_len qv mod 256" by simp_all
    moreover have "qv_len qv = 256 * (qv_len qv div 256) + qv_len qv mod 256" "qv_len qv \<le> 1099511627520" using assms(2) by simp_all
    ultimately show False by linarith
  qed
  ultimately show ?thesis using assms(1) by (auto simp: qv_built_def div_ceil_def)
qed

text \<open>The levels of a tree over fewer than \<open>2 ^ 40\<close> symbols.\<close>

lemma tree_levels_fit:
  fixes t :: "('a::len word, rs_support_plain rs_qvector, 'p) qwt"
  assumes bs: "bs = 256 \<or> bs = 512" and t: "qw_new (rq_ops (rs_plain bs)) None xs = Some t"
    and ok: "qw_ok (\<lambda>r D. rq_ok (rp_inv bs) r \<and> rq_list r = D) t xs" and xs: "xs \<noteq> []" "length xs \<le> 2 ^ 40 - 256"
    and r: "r \<in> set (qw_qvs t)"
  shows "level_fits r" "rq_from (rs_plain bs) (rq_qv r) = Some r"
proof -
  obtain qv where qv: "qv_built qv" "rq_from (rs_plain bs) qv = Some r"
    using tree_built [OF t xs(1)] r by (auto simp: level_built_def rq_ops_def)
  note same = rq_from_qv [OF qv(2)]
  then show "rq_from (rs_plain bs) (rq_qv r) = Some r" using qv(2) by simp
  obtain l where "l < qw_n_levels t" "r = qw_qvs t ! l" using r qw_ok_levels(4) [OF ok xs(1)] by (auto simp: in_set_conv_nth)
  then have rep: "rq_ok (rp_inv bs) r" "length (rq_list r) = length xs" using qw_ok_levels(6) [OF ok xs(1)] by auto
  have "qv_len qv \<le> 2 ^ 40 - 256" using rep(2) same xs(2) by (simp add: rq_list_def)
  then have "length (qv_data qv) < 2 ^ 32" by (rule data_lines_small [OF qv(1)])
  then show "level_fits r" using level_fits_ok [OF bs rep(1)] rep(2) xs(2) same by simp
qed

section \<open>Reading any bytes\<close>

lemma rbind_total: "\<exists>r. a = Some r \<Longrightarrow> (\<And>x. a = Some (Inr x) \<Longrightarrow> \<exists>r. k x = Some r) \<Longrightarrow> \<exists>r. rbind a k = Some r"
  by (auto simp: rbind_def split: option.splits sum.splits)

lemma reject_total: "\<exists>r. reject b e = Some r"
  by (simp add: reject_def)

lemma ok_or_total: "\<exists>r. ok_or (Some x) e = Some r"
  by (cases x) simp_all

context wt_support begin

text \<open>\<open>from_parts\<close> returns on levels that represent any lists of digits.\<close>

lemma from_parts_total:
  fixes sigma :: "'a::len word"
  assumes reps: "\<forall>r\<in>set qvs. \<exists>D. rep r D \<and> length D < 2 ^ 64 \<and> (\<forall>d\<in>set D. d < 4)"
  shows "\<exists>res :: layout_error + ('a word, 'r, 'p) qwt. qw_from_parts R False n L sigma qvs = Some res"
proof -
  have chk: "\<exists>x. qw_check_level R n u r = Some x" if r: "r \<in> set qvs" for u r
  proof -
    obtain D where "rep r D" "length D < 2 ^ 64" "\<forall>d\<in>set D. d < 4" using reps r by blast
    from check_level_eq [OF this, of n u] show ?thesis by simp
  qed
  have dec: "\<exists>x. qw_decode_step R L s (l, r) = Some x" if r: "r \<in> set qvs" for s :: "'a word \<times> nat" and l r
  proof -
    obtain D where D: "rep r D" "\<forall>d\<in>set D. d < 4" using reps r by blast
    show ?thesis
    proof (cases "snd s < length D")
      case True
      then have "D ! snd s < 4" using D(2) by simp
      then show ?thesis using True by (cases s) (simp add: qw_decode_step_def Let_def get_rep [OF D(1)] occs_smaller_rep [OF D(1)] rank_rep [OF D(1)] add_usize_def)
    next
      case False
      then show ?thesis by (cases s) (simp add: qw_decode_step_def get_rep [OF D(1)])
    qed
  qed
  have "\<exists>x. qw_decode R L qvs a i = Some x" for a :: "'a word" and i
    unfolding qw_decode_def
    by (rule rbind_total, rule foldR_total) (use dec in \<open>auto dest: set_zip_rightD\<close>)
  then show ?thesis
    unfolding qw_from_parts_def Let_def using chk
    by (intro rbind_total reject_total foldR_total; auto intro!: rbind_total reject_total foldR_total simp del: foldR.simps split: if_splits)
qed

end

lemma read_preamble_total:
  shows "\<exists>r. read_preamble le magic B w bytes = Some r"
    and "read_preamble le magic B w bytes = Some (Inr p) \<Longrightarrow> p = 8 \<and> 32 \<le> length bytes"
proof -
  have "\<exists>r. read_preamble le magic B w bytes = Some r \<and> (\<forall>p. r = Inr p \<longrightarrow> p = 8 \<and> 32 \<le> length bytes)"
  proof (cases "le \<and> 32 \<le> length bytes")
    case True
    obtain v where "get_u16 bytes 4 = Some (v, 6)" using get_ints_total(3) [of 4 bytes] True by auto
    moreover have "range_of bytes 0 4 = Some (take 4 bytes)" using True by (simp add: range_of_def)
    ultimately show ?thesis using True
      by (auto simp: read_preamble_def ensure_le_def HEADER_SIZE_def reject_def rbind_def)
  next
    case False
    then show ?thesis by (auto simp: read_preamble_def ensure_le_def HEADER_SIZE_def reject_def rbind_def not_le)
  qed
  then show "\<exists>r. read_preamble le magic B w bytes = Some r"
    and "read_preamble le magic B w bytes = Some (Inr p) \<Longrightarrow> p = 8 \<and> 32 \<le> length bytes" by auto
qed

lemma directory_end_total:
  shows "\<exists>r. directory_end n sz len = Some r" and "directory_end n sz len = Some (Inr e) \<Longrightarrow> e = 32 + n * sz \<and> e \<le> len"
  by (auto simp: directory_end_def ok_or_def rbind_def reject_def checked_mul_def add_usize_def HEADER_SIZE_def split: option.splits if_splits)

lemma ld_read_total: "128 \<le> length buf \<Longrightarrow> \<exists>d. ld_read buf = Some (Inr d) \<and> ld_ok d"
  using ld_get_total [of buf] by (auto simp: ld_read_def LEVEL_DIR_SIZE_def)

definition level_accepted :: "nat \<Rightarrow> rs_support_plain rs_qvector \<Rightarrow> bool" where
  "level_accepted B r \<longleftrightarrow> rq_ok (rp_inv B) r \<and> qv_position (rq_qv r) < 2 ^ 64"

lemma qwtb_read_step_total:
  assumes "B = 256 \<or> B = 512" "length bytes < 2 ^ 64" "32 + (k + 1) * 128 \<le> length bytes" "\<forall>r\<in>set qvs. level_accepted B r"
  shows "(\<exists>e. qwtb_read_step B bytes qvs k = Some (Inl e))
    \<or> (\<exists>qvs'. qwtb_read_step B bytes qvs k = Some (Inr qvs') \<and> (\<forall>r\<in>set qvs'. level_accepted B r) \<and> length qvs' = Suc (length qvs))"
proof -
  let ?buf = "take 128 (drop (32 + k * 128) bytes)"
  have buf: "range_of bytes (32 + k * 128) (32 + k * 128 + 128) = Some ?buf" "length ?buf = 128" using assms(3) by (simp_all add: range_of_def)
  obtain d where d: "ld_read ?buf = Some (Inr d)" "ld_ok d" using ld_read_total [OF eq_refl [OF buf(2) [symmetric]]] by blast
  have step: "qwtb_read_step B bytes qvs k = rbind (read_level B bytes d) (\<lambda>r. Some (Inr (qvs @ [r])))"
    using buf d by (simp add: qwtb_read_step_def format_consts)
  show ?thesis
    by (rule read_level_total [OF assms(1,2) d(2)]) (use assms(4) in \<open>auto simp: step level_accepted_def\<close>)
qed

lemma foldR_inv:
  assumes "Inv 0 s" "\<And>k s. k < n \<Longrightarrow> Inv k s \<Longrightarrow> (\<exists>e. f s k = Some (Inl e)) \<or> (\<exists>s'. f s k = Some (Inr s') \<and> Inv (Suc k) s')"
  shows "(\<exists>e. foldR f s [0..<n] = Some (Inl e)) \<or> (\<exists>s'. foldR f s [0..<n] = Some (Inr s') \<and> Inv n s')"
  using assms(2)
proof (induction n)
  case 0
  then show ?case using assms(1) by simp
next
  case (Suc n)
  have "(\<exists>e. foldR f s [0..<n] = Some (Inl e)) \<or> (\<exists>s'. foldR f s [0..<n] = Some (Inr s') \<and> Inv n s')"
    using Suc.prems by (intro Suc.IH) (simp add: less_SucI)
  then show ?case
  proof (elim disjE exE conjE)
    fix s' assume s': "foldR f s [0..<n] = Some (Inr s')" "Inv n s'"
    show ?case using Suc.prems [OF lessI s'(2)] s'(1) by (auto simp: foldR_append)
  qed (simp add: foldR_append)
qed

text \<open>\<open>from_bytes\<close> returns on every blob. What it accepts are well-formed levels that \<open>from_parts\<close> has accepted.\<close>

lemma qwtb_from_bytes_total:
  assumes B: "B = 256 \<or> B = 512" and bytes: "length bytes < 2 ^ 64"
  obtains e where "qwtb_from_bytes le B bytes = Some (Inl e :: layout_error + ('a::len word, rs_support_plain rs_qvector, 'p) qwt)"
  | n L sigma qvs and t :: "('a::len word, rs_support_plain rs_qvector, 'p) qwt" where "qwtb_from_bytes le B bytes = Some (Inr t)" "n < 2 ^ 64"
    "\<forall>r\<in>set qvs. level_accepted B r" "qw_from_parts (rq_ops (rs_plain B)) False n L sigma qvs = Some (Inr t)"
proof -
  note concl = that
  show thesis
  proof (cases "read_preamble le QWTB_MAGIC B (size_of_T TYPE('a)) bytes")
    case None
    then show thesis using read_preamble_total(1) [of le QWTB_MAGIC B "size_of_T TYPE('a)" bytes] by simp
  next
    case (Some pre)
    show thesis
    proof (cases pre)
      case (Inl e)
      then show thesis using concl(1) Some by (simp add: qwtb_from_bytes_def)
    next
      case (Inr p)
      then have p: "p = 8" "32 \<le> length bytes" using read_preamble_total(2) Some by blast+
      obtain n where n: "get_u64 bytes 8 = Some (n, 16)" using get_ints_total(1) [of 8 bytes] p(2) by auto
      obtain sg where sg: "get_u64 bytes 16 = Some (sg, 24)" using get_ints_total(1) [of 16 bytes] p(2) by auto
      obtain L where L: "get_u16 bytes 24 = Some (L, 26)" using get_ints_total(3) [of 24 bytes] p(2) by auto
      let ?n = "unat n" and ?L = "unat L" and ?sg = "ucast sg :: 'a word"
      define bad where "bad = (as_usize ?sg \<noteq> sg \<or> ?L > MAX_QUAD_LEVELS \<or> ?L > div_ceil (size_of_T TYPE('a) * 8) 2 \<or> (?n > 0 \<and> ?L = 0))"
      define rest where "rest = (\<lambda>qvs. do {
         qvs \<leftarrow> (if ?n = 0 \<and> qvs = [] then do { r \<leftarrow> rq_default (rs_plain B); Some (qvs @ [r]) } else Some qvs);
         qw_from_parts (rq_ops (rs_plain B)) False ?n ?L ?sg qvs } :: (layout_error + ('a word, rs_support_plain rs_qvector, 'p) qwt) option)"
      have eq: "qwtb_from_bytes le B bytes = rbind (reject bad (Inconsistent ''plain QWT header values are invalid for the requested type'')) (\<lambda>_.
         rbind (directory_end ?L LEVEL_DIR_SIZE (length bytes)) (\<lambda>dir_end.
         rbind (foldR (qwtb_read_step B bytes) [] [0..<?L]) rest))"
        by (simp add: qwtb_from_bytes_def Some Inr p(1) n sg L Let_def bad_def rest_def)
      show thesis
      proof (cases "\<not> bad \<and> (\<exists>e. directory_end ?L LEVEL_DIR_SIZE (length bytes) = Some (Inr e))")
        case False
        obtain r where r: "directory_end ?L LEVEL_DIR_SIZE (length bytes) = Some r" using directory_end_total(1) by blast
        show thesis
        proof (cases bad)
          case True
          then show thesis using concl(1) by (simp add: eq)
        next
          case nb: False
          then obtain e where "r = Inl e" using False r by (cases r) auto
          then show thesis using concl(1) nb r by (simp add: eq)
        qed
      next
        case True
        then have dir: "32 + ?L * 128 \<le> length bytes" using directory_end_total(2) by (auto simp: LEVEL_DIR_SIZE_def)
        have red: "qwtb_from_bytes le B bytes = rbind (foldR (qwtb_read_step B bytes) [] [0..<?L]) rest" using True by (auto simp: eq)
        have "(\<exists>e. foldR (qwtb_read_step B bytes) [] [0..<?L] = Some (Inl e))
          \<or> (\<exists>qvs. foldR (qwtb_read_step B bytes) [] [0..<?L] = Some (Inr qvs) \<and> (\<forall>r\<in>set qvs. level_accepted B r))"
        proof (rule foldR_inv)
          fix k qvs assume k: "k < ?L" and "\<forall>r\<in>set qvs. level_accepted B r"
          moreover have "32 + (k + 1) * 128 \<le> length bytes" using k dir mult_le_mono1 [of "k + 1" ?L 128] by simp
          ultimately show "(\<exists>e. qwtb_read_step B bytes qvs k = Some (Inl e))
            \<or> (\<exists>s'. qwtb_read_step B bytes qvs k = Some (Inr s') \<and> (\<forall>r\<in>set s'. level_accepted B r))"
            using qwtb_read_step_total [OF B bytes] by blast
        qed simp
        then show thesis
        proof (elim disjE exE conjE)
          fix e assume "foldR (qwtb_read_step B bytes) [] [0..<?L] = Some (Inl e)"
          then show thesis using concl(1) red by simp
        next
          fix qvs assume qvs: "foldR (qwtb_read_step B bytes) [] [0..<?L] = Some (Inr qvs)" "\<forall>r\<in>set qvs. level_accepted B r"
          have "\<exists>d. rq_default (rs_plain B) = Some d \<and> level_accepted B d"
            using B rs256.wt.default_rep rs512.wt.default_rep by (auto simp: level_accepted_def rq_ops_def rq_default_def bind_eq_Some_conv)
          then obtain qvs' where q: "rest qvs = qw_from_parts (rq_ops (rs_plain B)) False ?n ?L ?sg qvs'" "\<forall>r\<in>set qvs'. level_accepted B r"
            using qvs(2) unfolding rest_def by (cases "?n = 0 \<and> qvs = []") auto
          have reps: "\<forall>r\<in>set qvs'. \<exists>D. (rq_ok (rp_inv B) r \<and> rq_list r = D) \<and> length D < 2 ^ 64 \<and> (\<forall>d\<in>set D. d < 4)"
            using q(2) by (auto simp: level_accepted_def rq_list_def qv_list_def qv_len_def)
          then obtain res where res: "qw_from_parts (rq_ops (rs_plain B)) False ?n ?L ?sg qvs' = Some (res :: layout_error + ('a word, rs_support_plain rs_qvector, 'p) qwt)"
            using B rs256.wt.from_parts_total rs512.wt.from_parts_total by blast
          show thesis
          proof (cases res)
            case (Inl e)
            then show thesis using concl(1) red qvs(1) q(1) res by simp
          next
            case (Inr t)
            then show thesis using concl(2) [of t ?n qvs' ?L ?sg] red qvs(1) q res unsigned_less [of n, where 'a = nat] by simp
          qed
        qed
      qed
    qed
  qed
qed

end
