(* ===== verification/ByteProperties.thy ===== *)
theory ByteProperties
  imports ByteTrees
begin

text \<open>
  What the byte formats promise: writing and reading a tree gives the tree back, and readers return on any bytes.
\<close>

section \<open>QWTB\<close>

lemma plain_tree:
  fixes xs :: "'a::len word list"
  assumes "bs = 256 \<or> bs = 512" "even LENGTH('a)" "LENGTH('a) \<le> 64" "length xs < 2 ^ 43 - 2048"
  obtains t :: "('a word, rs_support_plain rs_qvector, 'p) qwt"
  where "qw_new (rq_ops (rs_plain bs)) None xs = Some t" "qw_ok (\<lambda>r D. rq_ok (rp_inv bs) r \<and> rq_list r = D) t xs"
    "qw_from_parts (rq_ops (rs_plain bs)) False (qw_n t) (qw_n_levels t) (qw_sigma t) (qw_qvs t) = Some (Inr t)"
proof -
  obtain t :: "('a word, rs_support_plain rs_qvector, 'p) qwt" where t: "qw_new (rq_ops (rs_plain bs)) None xs = Some t"
    "qw_ok (\<lambda>r D. rq_ok (rp_inv bs) r \<and> rq_list r = D) t xs"
    using assms(1) rs256.wt.from_owned_ok [OF assms(3,4), of None] rs512.wt.from_owned_ok [OF assms(3,4), of None]
    by (auto simp: qw_new_def pf_ok_def)
  have "qw_prefetch_support t = None"
    using t(1) by (auto simp: qw_new_def qw_from_owned_def Let_def bind_eq_Some_conv split: if_splits)
  then have none: "t\<lparr>qw_prefetch_support := None\<rparr> = t" by simp
  have "qw_from_parts (rq_ops (rs_plain bs)) False (qw_n t) (qw_n_levels t) (qw_sigma t) (qw_qvs t) = Some (Inr t)"
    using rs256.wt.from_parts_of_tree [of t xs] rs512.wt.from_parts_of_tree [of t xs] assms t(2) none by auto
  then show thesis using that t by blast
qed

text \<open>The tree of a sequence and its blob.\<close>

lemma tree_blob:
  fixes xs :: "'a::len word list"
  assumes B: "B = 256 \<or> B = 512" and w: "8 dvd LENGTH('a)" "LENGTH('a) \<le> 64" and n: "length xs \<le> 2 ^ 40 - 256"
  obtains t :: "('a word, rs_support_plain rs_qvector, 'p) qwt"
  where "qw_new (rq_ops (rs_plain B)) None xs = Some t" "qw_ok (\<lambda>r D. rq_ok (rp_inv B) r \<and> rq_list r = D) t xs"
    "qw_from_parts (rq_ops (rs_plain B)) False (qw_n t) (qw_n_levels t) (qw_sigma t) (qw_qvs t) = Some (Inr t)"
    "\<forall>r\<in>set (take (qw_n_levels t) (qw_qvs t)). level_fits r \<and> rq_from (rs_plain B) (rq_qv r) = Some r"
    "qw_n_levels t \<le> 64 \<and> qw_n_levels t \<le> div_ceil LENGTH('a) 2 \<and> qw_n t < 2 ^ 64
      \<and> (if qw_n t = 0 then qw_n_levels t = 0 else 0 < qw_n_levels t \<and> length (qw_qvs t) = qw_n_levels t)"
    "qwtb_to_bytes True B t = Some (Inr (qwtb_image B t))" "length (qwtb_image B t) < 2 ^ 64"
proof -
  have ev: "even LENGTH('a)" using w(1) by (auto elim: dvdE)
  obtain t :: "('a word, rs_support_plain rs_qvector, 'p) qwt" where t: "qw_new (rq_ops (rs_plain B)) None xs = Some t"
    "qw_ok (\<lambda>r D. rq_ok (rp_inv B) r \<and> rq_list r = D) t xs"
    "qw_from_parts (rq_ops (rs_plain B)) False (qw_n t) (qw_n_levels t) (qw_sigma t) (qw_qvs t) = Some (Inr t)"
    using plain_tree [OF B ev w(2), of xs] n by auto
  have lv: "\<forall>r\<in>set (take (qw_n_levels t) (qw_qvs t)). level_fits r \<and> rq_from (rs_plain B) (rq_qv r) = Some r"
  proof (cases "xs = []")
    case True
    then show ?thesis using t(2) by (simp add: qw_ok_def)
  next
    case False
    then show ?thesis using tree_levels_fit [OF B t(1,2) False n] by (auto dest: in_set_takeD)
  qed
  have bnd: "qw_n_levels t \<le> 64 \<and> qw_n_levels t \<le> div_ceil LENGTH('a) 2 \<and> qw_n t < 2 ^ 64 \<and> qw_n_levels t \<le> length (qw_qvs t)
    \<and> (if qw_n t = 0 then qw_n_levels t = 0 else 0 < qw_n_levels t \<and> length (qw_qvs t) = qw_n_levels t)"
  proof (cases "xs = []")
    case True
    then show ?thesis using t(2) by (simp add: qw_ok_def)
  next
    case False
    note lev = qw_ok_levels [OF t(2) False]
    have "qw_n_levels t \<le> div_ceil LENGTH('a) 2" using lev(3) ev by (auto simp: div_ceil_def)
    moreover have "qw_n_levels t \<le> 64" using lev(3) w(2) by simp
    ultimately show ?thesis using lev(1,4,7) False n by auto
  qed
  have "qwtb_to_bytes True B t = Some (Inr (qwtb_image B t))" "length (qwtb_image B t) < 2 ^ 64"
    by (rule qwtb_to_bytes_eq; use lv bnd in blast)+
  then show thesis using that [OF t lv] bnd by blast
qed

text \<open>The blob is read back, and is short enough to be held in memory.\<close>

lemma tree_read:
  fixes xs :: "'a::len word list"
  assumes B: "B = 256 \<or> B = 512" and w: "8 dvd LENGTH('a)" "LENGTH('a) \<le> 64" and n: "length xs \<le> 2 ^ 40 - 256"
  obtains t :: "('a word, rs_support_plain rs_qvector, 'p) qwt" and bytes
  where "qw_new (rq_ops (rs_plain B)) None xs = Some t" "qwtb_to_bytes True B t = Some (Inr bytes)"
    "qwtb_from_bytes True B bytes = Some (Inr t)" "length bytes < 2 ^ 64" "qw_n t = length xs"
proof -
  obtain t :: "('a word, rs_support_plain rs_qvector, 'p) qwt" where t: "qw_new (rq_ops (rs_plain B)) None xs = Some t"
    "qw_ok (\<lambda>r D. rq_ok (rp_inv B) r \<and> rq_list r = D) t xs"
    "qw_from_parts (rq_ops (rs_plain B)) False (qw_n t) (qw_n_levels t) (qw_sigma t) (qw_qvs t) = Some (Inr t)"
    and lv: "\<forall>r\<in>set (take (qw_n_levels t) (qw_qvs t)). level_fits r \<and> rq_from (rs_plain B) (rq_qv r) = Some r"
    and bnd: "qw_n_levels t \<le> 64 \<and> qw_n_levels t \<le> div_ceil LENGTH('a) 2 \<and> qw_n t < 2 ^ 64
      \<and> (if qw_n t = 0 then qw_n_levels t = 0 else 0 < qw_n_levels t \<and> length (qw_qvs t) = qw_n_levels t)"
    and written: "qwtb_to_bytes True B t = Some (Inr (qwtb_image B t))" "length (qwtb_image B t) < 2 ^ 64"
    using tree_blob [OF B w n] by blast
  have dflt: "\<exists>r. rq_default (rs_plain B) = Some r \<and> qw_qvs t = [r]" if "qw_n t = 0"
  proof -
    have "xs = []" using qw_ok_levels(7) [OF t(2)] that by (cases "xs = []") auto
    then show ?thesis using t(1) by (auto simp: qw_new_def qw_from_owned_def rq_ops_def bind_eq_Some_conv)
  qed
  have "qwtb_from_bytes True B (qwtb_image B t) = Some (Inr t)"
    unfolding t(3) [symmetric] by (rule qwtb_from_bytes_image [OF B w lv]) (use bnd dflt in blast)+
  moreover have "qw_n t = length xs" using t(2) qw_ok_levels(7) [OF t(2)] by (cases "xs = []") (auto simp: qw_ok_def)
  ultimately show thesis using that t(1) written by blast
qed

text \<open>C35. A tree of \<open>u8\<close>, \<open>u16\<close>, \<open>u32\<close> or \<open>u64\<close> symbols built from at most \<open>2 ^ 40 - 256\<close> of them is written to bytes and read back
  unchanged: the header, the directory, the offsets and the payload of every level agree in \<open>to_bytes\<close> and \<open>from_bytes\<close>, and the
  rebuilt counters are the old ones.\<close>

theorem qwtb_roundtrip:
  fixes xs :: "'a::len word list"
  assumes B: "B = 256 \<or> B = 512" and w: "8 dvd LENGTH('a)" "LENGTH('a) \<le> 64" and n: "length xs \<le> 2 ^ 40 - 256"
  shows "\<exists>(t :: ('a word, _, 'p) qwt) bytes. qw_new (rq_ops (rs_plain B)) None xs = Some t
    \<and> qwtb_to_bytes True B t = Some (Inr bytes) \<and> qwtb_from_bytes True B bytes = Some (Inr t)"
  by (rule tree_read [OF assms]) blast

theorem qwtb_roundtrip_witness:
  "\<exists>(t :: (8 word, _, unit) qwt) bytes. qw_new (rq_ops (rs_plain 512)) None [1, 0, 200, 7, 0] = Some t
    \<and> qwtb_to_bytes True 512 t = Some (Inr bytes) \<and> qwtb_from_bytes True 512 bytes = Some (Inr t)"
  by (rule qwtb_roundtrip) simp_all



end
