(* ===== verification/Hqwb.thy ===== *)
theory Hqwb
  imports Qwtb HuffQWTParts
begin

text \<open>
  The \<open>HQWB\<close> container, \<^verbatim>\<open>src/bytes/hqwb.rs\<close>: a compressed tree in bytes, with its code tables between the directory and
  the levels.
\<close>

unbundle bit_operations_syntax

section \<open>Writing\<close>

text \<open>The bytes a bucket of the decoding table takes, added to \<open>decode_bytes\<close>.\<close>

definition hq_bucket_size :: "nat \<Rightarrow> (u32 \<times> 'a::len word) list \<Rightarrow> nat option" where
  "hq_bucket_size decode_bytes bucket = do {
     decode_bytes \<leftarrow> add_usize decode_bytes 4;
     add_usize decode_bytes (length bucket * 12)
   }"

definition hq_plan_step :: "nat list \<Rightarrow> hq_level_dir list \<times> nat \<Rightarrow> nat \<times> rs_support_plain rs_qvector \<Rightarrow> (hq_level_dir list \<times> nat) option" where
  "hq_plan_step level_lens st il = (
     let (dirs, cursor) = st; (li, level) = il; level_len = (case idx level_lens li of None \<Rightarrow> 0 | Some x \<Rightarrow> x)
     in do {
       (dir, cursor) \<leftarrow> plan_level cursor level;
       Some (dirs @ [level_dir.extend dir \<lparr>ld_level_len = of_nat level_len\<rparr>], cursor)
     })"

definition write_code :: "u8 list \<times> nat \<Rightarrow> prefix_code \<Rightarrow> (u8 list \<times> nat) option" where
  "write_code st code = (
     let (out, p) = st
     in do {
       out \<leftarrow> put_range out p (to_le (pc_content code));
       out \<leftarrow> put_range out (p + 4) (to_le (pc_len code));
       Some (out, p + 8)
     })"

definition write_entry :: "u8 list \<times> nat \<Rightarrow> u32 \<times> 'a::len word \<Rightarrow> (u8 list \<times> nat) option" where
  "write_entry st e = (
     let (out, p) = st; (content, sym) = e
     in do {
       out \<leftarrow> put_range out p (to_le content);
       let p = p + 4;
       let sym_u = as_usize sym;
       out \<leftarrow> put_range out p (to_le sym_u);
       Some (out, p + 8)
     })"

definition write_bucket :: "u8 list \<times> nat \<Rightarrow> (u32 \<times> 'a::len word) list \<Rightarrow> (u8 list \<times> nat) option" where
  "write_bucket st bucket = (
     let (out, p) = st
     in do {
       out \<leftarrow> put_range out p (to_le (of_nat (length bucket) :: u32));
       foldM write_entry (out, p + 4) bucket
     })"

definition hqwb_to_bytes :: "bool \<Rightarrow> nat \<Rightarrow> ('a::len word, rs_support_plain rs_qvector, 'p) huff_qwt \<Rightarrow> (layout_error + u8 list) option" where
  "hqwb_to_bytes little_endian B tree =
     rbind (ensure_le little_endian) (\<lambda>_.
     let n_levels = hw_n_levels tree; encode = hw_codes_encode tree; decode = hw_codes_decode tree;
         encode_len = length encode; decode_n_buckets = length decode
     in rbind (reject (encode_len > 65535 \<or> decode_n_buckets > 65535) (Inconsistent ''code table too large for u16 length fields'')) (\<lambda>_. do {
       let header_and_dir = HEADER_SIZE + n_levels * HQWT_LEVEL_DIR_SIZE;
       cursor \<leftarrow> align_up header_and_dir 8;
       let off_encode = cursor;
       cursor \<leftarrow> add_usize cursor (encode_len * 8);
       decode_bytes \<leftarrow> foldM hq_bucket_size 0 decode;
       let off_decode = cursor;
       cursor \<leftarrow> add_usize cursor decode_bytes;
       (dirs, cursor) \<leftarrow> foldM (hq_plan_step (hw_lens tree)) ([], cursor) (zip [0..<n_levels] (take n_levels (hw_qvs tree)));
       (out, p) \<leftarrow> write_preamble HQWB_MAGIC B (size_of_T TYPE('a)) (hw_n tree) (replicate cursor 0);
       (out, p) \<leftarrow> put_u16 out p (of_nat n_levels);
       (out, p) \<leftarrow> put_u16 out p (of_nat encode_len);
       (out, p) \<leftarrow> put_u16 out p (of_nat decode_n_buckets);
       guard (p = 22);
       (out, p) \<leftarrow> foldM (write_dir HQWT_LEVEL_DIR_SIZE hd_write) (out, HEADER_SIZE) dirs;
       (out, p) \<leftarrow> foldM write_code (out, off_encode) encode;
       (out, p) \<leftarrow> foldM write_bucket (out, off_decode) decode;
       out \<leftarrow> foldM write_level out (zip (hw_qvs tree) dirs);
       Some (Inr out)
     }))"

section \<open>Reading\<close>

definition read_code :: "u8 list \<Rightarrow> nat \<Rightarrow> nat \<Rightarrow> prefix_code option" where
  "read_code bytes p i = do {
     let base = p + i * 8;
     (content, q) \<leftarrow> get_u32 bytes base;
     (len, q) \<leftarrow> get_u32 bytes (base + 4);
     Some \<lparr>pc_content = content, pc_len = len\<rparr>
   }"

definition read_entry :: "u8 list \<Rightarrow> nat \<times> (u32 \<times> 'a::len word) list \<Rightarrow> nat \<Rightarrow> (layout_error + nat \<times> (u32 \<times> 'a word) list) option" where
  "read_entry bytes st k = (
     let (p, bucket) = st
     in do {
       (content, p) \<leftarrow> get_u32 bytes p;
       (sym_u, p) \<leftarrow> get_u64 bytes p;
       let sym = (ucast sym_u :: 'a word);
       rbind (reject (as_usize sym \<noteq> sym_u) (Inconsistent ''Huffman decode symbol does not fit the requested type'')) (\<lambda>_.
       Some (Inr (p, bucket @ [(content, sym)])))
     })"

definition read_bucket :: "u8 list \<Rightarrow> nat \<times> (u32 \<times> 'a::len word) list list \<Rightarrow> nat \<Rightarrow> (layout_error + nat \<times> (u32 \<times> 'a word) list list) option" where
  "read_bucket bytes st k = (
     let (p, codes_decode) = st
     in rbind (checked_region p 1 4 (length bytes)) (\<lambda>_. do {
       (n_entries, p) \<leftarrow> get_u32 bytes p;
       let n_entries = unat n_entries;
       rbind (checked_region p n_entries 12 (length bytes)) (\<lambda>need.
       rbind (foldR (read_entry bytes) (p, []) [0..<n_entries]) (\<lambda>(p, bucket). do {
       guard (need = n_entries * 12);
       Some (Inr (p, codes_decode @ [bucket]))
     }))}))"

definition hqwb_read_step :: "nat \<Rightarrow> u8 list \<Rightarrow> rs_support_plain rs_qvector list \<times> nat list \<Rightarrow> nat \<Rightarrow>
    (layout_error + rs_support_plain rs_qvector list \<times> nat list) option" where
  "hqwb_read_step B bytes st li = (
     let (qvs, lens) = st
     in do {
       let dir_off = HEADER_SIZE + li * HQWT_LEVEL_DIR_SIZE;
       buf \<leftarrow> range_of bytes dir_off (dir_off + HQWT_LEVEL_DIR_SIZE);
       rbind (hd_read buf) (\<lambda>dir.
       rbind (read_level B bytes dir) (\<lambda>r.
       Some (Inr (qvs @ [r], lens @ [unat (ld_level_len dir)]))))
     })"

definition hqwb_from_bytes :: "bool \<Rightarrow> nat \<Rightarrow> u8 list \<Rightarrow>
    (layout_error + ('a::len word, rs_support_plain rs_qvector, 'p) huff_qwt) option" where
  "hqwb_from_bytes little_endian B bytes =
     rbind (read_preamble little_endian HQWB_MAGIC B (size_of_T TYPE('a)) bytes) (\<lambda>p. do {
       (n, p) \<leftarrow> get_u64 bytes p;
       (n_levels, p) \<leftarrow> get_u16 bytes p;
       (encode_len, p) \<leftarrow> get_u16 bytes p;
       (decode_n_buckets, p) \<leftarrow> get_u16 bytes p;
       let n = unat n;
       let n_levels = unat n_levels;
       rbind (reject (n_levels > MAX_QUAD_LEVELS \<or> (n > 0 \<and> n_levels = 0)) (Inconsistent ''Huffman QWT level count is invalid'')) (\<lambda>_.
       rbind (directory_end n_levels HQWT_LEVEL_DIR_SIZE (length bytes)) (\<lambda>dir_end. do {
       p \<leftarrow> align_up dir_end 8;
       rbind (checked_region p (unat encode_len) 8 (length bytes)) (\<lambda>encode_bytes. do {
       codes_encode \<leftarrow> those (map (read_code bytes p) [0..<unat encode_len]);
       p \<leftarrow> add_usize p encode_bytes;
       rbind (foldR (read_bucket bytes) (p, []) [0..<unat decode_n_buckets]) (\<lambda>(p, codes_decode).
       rbind (foldR (hqwb_read_step B bytes) ([], []) [0..<n_levels]) (\<lambda>(qvs, lens).
       hw_from_parts (rq_ops (rs_plain B)) False n n_levels codes_encode codes_decode qvs lens))
       })}))
     })"

end
