(* ===== verification/HqwbCorrect.thy ===== *)
theory HqwbCorrect
  imports Hqwb QwtbCorrect
begin

text \<open>
  What \<open>hqwb_to_bytes\<close> writes: a header, the directory, the code tables and the images of the levels; and that
  \<open>hqwb_from_bytes\<close> reads it back.
\<close>

unbundle bit_operations_syntax

section \<open>Appending and reading on\<close>

lemma foldM_appends:
  fixes f :: "'x \<Rightarrow> u8 list"
  assumes each: "\<And>x P p z. x \<in> set xs \<Longrightarrow> length P = p \<Longrightarrow> length (f x) \<le> z \<Longrightarrow>
      step (P @ replicate z 0, p) x = Some ((P @ f x) @ replicate (z - length (f x)) 0, p + length (f x))"
    and "length P = p" "length (concat (map f xs)) \<le> z"
  shows "foldM step (P @ replicate z 0, p) xs
    = Some ((P @ concat (map f xs)) @ replicate (z - length (concat (map f xs))) 0, p + length (concat (map f xs)))"
  using assms
proof (induction xs arbitrary: P p z)
  case (Cons x xs)
  have "step (P @ replicate z 0, p) x = Some ((P @ f x) @ replicate (z - length (f x)) 0, p + length (f x))"
    using Cons.prems(2,3) by (intro Cons.prems(1)) simp_all
  moreover have "foldM step ((P @ f x) @ replicate (z - length (f x)) 0, p + length (f x)) xs
    = Some (((P @ f x) @ concat (map f xs)) @ replicate (z - length (f x) - length (concat (map f xs))) 0, p + length (f x) + length (concat (map f xs)))"
    using Cons.prems by (intro Cons.IH) simp_all
  ultimately show ?case by (simp add: add.assoc)
qed simp

lemma foldR_reads:
  fixes f :: "'x \<Rightarrow> u8 list"
  assumes each: "\<And>k p Y. k < length xs \<Longrightarrow> drop p bytes = f (xs ! k) @ Y \<Longrightarrow>
      step (p, take k xs) k = Some (Inr (p + length (f (xs ! k)), take (Suc k) xs))"
    and at: "drop p bytes = concat (map f xs) @ Z"
  shows "foldR step (p, []) [0..<length xs] = Some (Inr (p + length (concat (map f xs)), xs))"
proof -
  let ?g = "\<lambda>k. (p + length (concat (map f (take k xs))), take k xs)"
  have "foldR step (?g 0) (map id [0..<length xs]) = Some (Inr (?g (length xs)))"
  proof (rule foldR_upt_value)
    fix k assume k: "k < length xs"
    have "concat (map f xs) = concat (map f (take k xs)) @ f (xs ! k) @ concat (map f (drop (Suc k) xs))"
      using id_take_nth_drop [OF k] by (metis concat.simps(2) concat_append list.simps(9) map_append)
    then have "drop (p + length (concat (map f (take k xs)))) bytes = f (xs ! k) @ (concat (map f (drop (Suc k) xs)) @ Z)"
      using at by (simp add: add.commute [of p] flip: drop_drop)
    from each [OF k this] show "step (?g k) (id k) = Some (Inr (?g (Suc k)))"
      using k by (simp add: take_Suc_conv_app_nth add.assoc)
  qed
  then show ?thesis by simp
qed

section \<open>The code tables in bytes\<close>

definition code_bytes :: "prefix_code \<Rightarrow> u8 list" where
  "code_bytes code = to_le (pc_content code) @ to_le (pc_len code)"

definition entry_bytes :: "u32 \<times> 'a::len word \<Rightarrow> u8 list" where
  "entry_bytes e = to_le (fst e) @ to_le (as_usize (snd e))"

definition bucket_bytes :: "(u32 \<times> 'a::len word) list \<Rightarrow> u8 list" where
  "bucket_bytes bucket = to_le (of_nat (length bucket) :: u32) @ concat (map entry_bytes bucket)"

lemma length_code_bytes [simp]: "length (code_bytes c) = 8" "length (entry_bytes e) = 12"
  by (simp_all add: code_bytes_def entry_bytes_def)

lemma length_entries: "length (concat (map entry_bytes b)) = 12 * length b"
  using length_concat_blocks [of b entry_bytes 12] by simp

lemma length_bucket_bytes [simp]: "length (bucket_bytes b) = 4 + 12 * length b"
  using length_entries [of b] by (simp add: bucket_bytes_def)

lemma write_code_eq:
  assumes "length P = p" "8 \<le> z"
  shows "write_code (P @ replicate z 0, p) c = Some ((P @ code_bytes c) @ replicate (z - 8) 0, p + 8)"
  using put_zeros_at [OF assms(1), of "to_le (pc_content c)" z] put_zeros_at [of "P @ to_le (pc_content c)" "p + 4" "to_le (pc_len c)" "z - 4"] assms
  by (simp add: write_code_def code_bytes_def)

lemma write_entry_eq:
  assumes "length P = p" "12 \<le> z"
  shows "write_entry (P @ replicate z 0, p) e = Some ((P @ entry_bytes e) @ replicate (z - 12) 0, p + 12)"
  using put_zeros_at [OF assms(1), of "to_le (fst e)" z] put_zeros_at [of "P @ to_le (fst e)" "p + 4" "to_le (as_usize (snd e))" "z - 4"] assms
  by (cases e) (simp add: write_entry_def entry_bytes_def)

lemma write_bucket_eq:
  assumes "length P = p" "length (bucket_bytes b) \<le> z"
  shows "write_bucket (P @ replicate z 0, p) b = Some ((P @ bucket_bytes b) @ replicate (z - length (bucket_bytes b)) 0, p + length (bucket_bytes b))"
proof -
  let ?h = "to_le (of_nat (length b) :: u32)"
  note l = length_entries [of b]
  have "put_range (P @ replicate z 0) p ?h = Some ((P @ ?h) @ replicate (z - 4) 0)"
    using put_zeros_at [OF assms(1), of ?h z] assms(2) by simp
  moreover have "foldM write_entry ((P @ ?h) @ replicate (z - 4) 0, p + 4) b
    = Some (((P @ ?h) @ concat (map entry_bytes b)) @ replicate (z - 4 - length (concat (map entry_bytes b))) 0, p + 4 + length (concat (map entry_bytes b)))"
    by (rule foldM_appends) (use assms l in \<open>simp_all add: write_entry_eq del: append_assoc\<close>)
  ultimately show ?thesis using l by (simp add: write_bucket_def bucket_bytes_def)
qed

lemma read_code_eq:
  assumes "drop p bytes = concat (map code_bytes codes) @ Z" "i < length codes"
  shows "read_code bytes p i = Some (codes ! i)"
proof -
  have blk: "take 8 (drop (i * 8) (drop p bytes)) = code_bytes (codes ! i)" unfolding assms(1) by (rule concat_block) (use assms(2) in simp_all)
  then have "drop (p + i * 8) bytes = code_bytes (codes ! i) @ drop 8 (drop (p + i * 8) bytes)"
    by (metis add.commute append_take_drop_id drop_drop)
  then have a: "drop (p + i * 8) bytes = to_le (pc_content (codes ! i)) @ to_le (pc_len (codes ! i)) @ drop 8 (drop (p + i * 8) bytes)"
    by (simp add: code_bytes_def)
  note g1 = get_ints_next(2) [OF a]
  note g2 = get_ints_next(2) [OF conjunct2 [OF g1]]
  show ?thesis using g1 g2 by (simp add: read_code_def)
qed

lemma read_entry_eq:
  assumes "drop p bytes = entry_bytes e @ Y" "LENGTH('a::len) \<le> 64"
  shows "read_entry bytes (p, es) k = Some (Inr (p + 12, es @ [e :: u32 \<times> 'a word]))"
proof -
  have a: "drop p bytes = to_le (fst e) @ to_le (as_usize (snd e)) @ Y" using assms(1) by (simp add: entry_bytes_def)
  note g1 = get_ints_next(2) [OF a]
  note g2 = get_ints_next(1) [OF conjunct2 [OF g1]]
  have "(ucast (as_usize (snd e)) :: 'a word) = snd e" using assms(2) by (intro bit_word_eqI) (auto simp: as_usize_def bit_ucast_iff)
  then show ?thesis using g1 g2 by (simp add: read_entry_def reject_def)
qed

lemma read_bucket_eq:
  fixes b :: "(u32 \<times> 'a::len word) list"
  assumes at: "drop p bytes = bucket_bytes b @ Y" and w: "LENGTH('a) \<le> 64" and small: "length b < 2 ^ 32" "length bytes < 2 ^ 64"
  shows "read_bucket bytes (p, bs) k = Some (Inr (p + length (bucket_bytes b), bs @ [b]))"
proof -
  have a: "drop p bytes = to_le (of_nat (length b) :: u32) @ concat (map entry_bytes b) @ Y" using at by (simp add: bucket_bytes_def)
  note g1 = get_ints_next(2) [OF a]
  have n: "unat (of_nat (length b) :: u32) = length b" using small(1) by (simp add: unat_of_nat_small)
  have "length bytes - p = 4 + 12 * length b + length Y" using arg_cong [OF at, of length] by simp
  then have le: "p + 4 + 12 * length b \<le> length bytes" by linarith
  note l = length_entries [of b]
  have "foldR (read_entry bytes) (p + 4, []) [0..<length b] = Some (Inr (p + 4 + length (concat (map entry_bytes b)), b))"
    by (rule foldR_reads [OF _ conjunct2 [OF g1]]) (simp add: read_entry_eq w take_Suc_conv_app_nth)
  then show ?thesis
    using g1 n le l small(2) by (simp add: read_bucket_def checked_region_eq ac_simps)
qed

section \<open>The directory\<close>

definition hq_entries :: "nat \<Rightarrow> rs_support_plain rs_qvector list \<Rightarrow> nat list \<Rightarrow> hq_level_dir list" where
  "hq_entries c rs lens = map2 (\<lambda>e len. level_dir.extend e \<lparr>ld_level_len = of_nat len\<rparr>) (level_entries c rs) lens"

definition hd_bytes :: "hq_level_dir \<Rightarrow> u8 list" where
  "hd_bytes d = ld_bytes d @ to_le (ld_level_len d)"

lemma hq_entries_simps [simp]:
  "hq_entries c [] lens = []"
  "hq_entries c (r # rs) (len # lens) = level_dir.extend (level_entry c r) \<lparr>ld_level_len = of_nat len\<rparr> # hq_entries (level_end c r) rs lens"
  by (simp_all add: hq_entries_def)

lemma length_hq_entries [simp]: "length lens = length rs \<Longrightarrow> length (hq_entries c rs lens) = length rs"
  by (simp add: hq_entries_def)

lemma nth_hq_entries: "length lens = length rs \<Longrightarrow> k < length rs \<Longrightarrow>
  hq_entries c rs lens ! k = level_dir.extend (level_entries c rs ! k) \<lparr>ld_level_len = of_nat (lens ! k)\<rparr>"
  by (simp add: hq_entries_def)

lemma extend_same:
  "ld_ok (level_dir.extend e x) \<longleftrightarrow> ld_ok e" "read_level B bytes (level_dir.extend e x) = read_level B bytes e"
  "write_level out (r, level_dir.extend e x) = write_level out (r, e)"
proof -
  have "write_samples rs (level_dir.extend e x) = write_samples rs e" for rs
    by (simp add: fun_eq_iff write_samples_def level_dir.defs)
  then show "write_level out (r, level_dir.extend e x) = write_level out (r, e)"
    by (simp add: write_level_def) (simp add: level_dir.defs)
qed (simp_all add: ld_ok_def read_level_def level_dir.defs)

lemma hq_entries_ok: "length lens = length rs \<Longrightarrow> d \<in> set (hq_entries c rs lens) \<Longrightarrow> ld_ok d"
  using level_entries_ok by (auto simp: hq_entries_def extend_same dest: set_zip_leftD)

lemma hq_plan_levels:
  assumes "\<forall>r\<in>set rs. level_fits r" "c + (length rs + 2) * 2 ^ 40 < 2 ^ 64" "i + length rs \<le> length lens"
  shows "foldM (hq_plan_step lens) (ds, c) (zip [i..<i + length rs] rs) = Some (ds @ hq_entries c rs (take (length rs) (drop i lens)), levels_end c rs)"
  using assms
proof (induction rs arbitrary: c ds i)
  case (Cons r rs)
  have fits: "level_fits r" using Cons.prems by simp
  have small: "level_end c r + (length rs + 2) * 2 ^ 40 < 2 ^ 64" using level_offsets(4) [OF fits, of c] Cons.prems(2) by simp
  have p: "plan_level c r = Some (level_entry c r, level_end c r)"
    by (rule plan_level_eq [OF fits]) (use Cons.prems(2) in simp)
  have i: "i < length lens" using Cons.prems(3) by simp
  have "foldM (hq_plan_step lens) (ds @ [level_dir.extend (level_entry c r) \<lparr>ld_level_len = of_nat (lens ! i)\<rparr>], level_end c r) (zip [Suc i..<Suc i + length rs] rs)
    = Some ((ds @ [level_dir.extend (level_entry c r) \<lparr>ld_level_len = of_nat (lens ! i)\<rparr>]) @ hq_entries (level_end c r) rs (take (length rs) (drop (Suc i) lens)),
        levels_end (level_end c r) rs)"
    using Cons.prems small by (intro Cons.IH) simp_all
  moreover have "drop i lens = lens ! i # drop (Suc i) lens" using i by (simp add: Cons_nth_drop_Suc)
  moreover have "zip [i..<i + length (r # rs)] (r # rs) = (i, r) # zip [Suc i..<Suc i + length rs] rs"
    by (simp add: upt_conv_Cons del: upt_Suc)
  moreover have "hq_plan_step lens (ds, c) (i, r) = Some (ds @ [level_dir.extend (level_entry c r) \<lparr>ld_level_len = of_nat (lens ! i)\<rparr>], level_end c r)"
    using p i by (simp add: hq_plan_step_def idx_def)
  ultimately show ?case by (simp del: upt_Suc)
qed simp

lemma hq_write_levels:
  "length lens = length rs \<Longrightarrow> foldM write_level out (zip rs (hq_entries c rs lens)) = foldM write_level out (zip rs (level_entries c rs))"
proof (induction rs arbitrary: c lens out)
  case (Cons r rs)
  then obtain l ls where "lens = l # ls" by (cases lens) auto
  then show ?case using Cons by (simp add: extend_same)
qed simp

section \<open>The blob\<close>

definition hqwb_tables :: "('a::len word, 'r, 'p) huff_qwt \<Rightarrow> u8 list" where
  "hqwb_tables t = concat (map code_bytes (hw_codes_encode t)) @ concat (map bucket_bytes (hw_codes_decode t))"

definition hqwb_header :: "nat \<Rightarrow> ('a::len word, 'r, 'p) huff_qwt \<Rightarrow> u8 list" where
  "hqwb_header B t = preamble_bytes HQWB_MAGIC B (size_of_T TYPE('a)) @ to_le (of_nat (hw_n t) :: u64) @ to_le (of_nat (hw_n_levels t) :: u16)
     @ to_le (of_nat (length (hw_codes_encode t)) :: u16) @ to_le (of_nat (length (hw_codes_decode t)) :: u16) @ replicate 10 0"

definition hqwb_image :: "nat \<Rightarrow> ('a::len word, rs_support_plain rs_qvector, 'p) huff_qwt \<Rightarrow> u8 list" where
  "hqwb_image B t = (
     let L = hw_n_levels t; rs = take L (hw_qvs t); base = 32 + L * 136 + length (hqwb_tables t)
     in hqwb_header B t @ concat (map hd_bytes (hq_entries base rs (take L (hw_lens t)))) @ hqwb_tables t @ level_images base rs)"

text \<open>The trees the format can hold.\<close>

definition hqwb_fits :: "('a::len word, rs_support_plain rs_qvector, 'p) huff_qwt \<Rightarrow> bool" where
  "hqwb_fits t \<longleftrightarrow> (\<forall>r\<in>set (take (hw_n_levels t) (hw_qvs t)). level_fits r) \<and> hw_n_levels t \<le> 64
     \<and> hw_n_levels t \<le> length (hw_qvs t) \<and> hw_n_levels t \<le> length (hw_lens t)
     \<and> length (hw_codes_encode t) \<le> 65535 \<and> length (hw_codes_decode t) \<le> 65535 \<and> (\<forall>b\<in>set (hw_codes_decode t). length b \<le> 65535)"

lemma length_concat_le: "\<forall>x\<in>set xs. length (f x) \<le> m \<Longrightarrow> length (concat (map f xs)) \<le> length xs * m"
  by (induction xs) auto

lemma length_hqwb_header [simp]: "length (hqwb_header B t) = 32"
  by (simp add: hqwb_header_def)

lemma tables_small:
  assumes "hqwb_fits t"
  shows "length (hqwb_tables t) < 2 ^ 40"
proof -
  have "length (concat (map code_bytes (hw_codes_encode t))) \<le> 65535 * 8"
    using length_concat_blocks [of "hw_codes_encode t" code_bytes 8] assms by (simp add: hqwb_fits_def)
  moreover have "length (concat (map bucket_bytes (hw_codes_decode t))) \<le> length (hw_codes_decode t) * (4 + 12 * 65535)"
    by (rule length_concat_le) (use assms in \<open>auto simp: hqwb_fits_def\<close>)
  moreover have "length (hw_codes_decode t) * (4 + 12 * 65535) \<le> 65535 * (4 + 12 * 65535)"
    using assms by (intro mult_le_mono1) (simp add: hqwb_fits_def)
  ultimately show ?thesis by (simp add: hqwb_tables_def)
qed

lemma bucket_sizes:
  "s + length (concat (map bucket_bytes bs)) < 2 ^ 64 \<Longrightarrow> foldM hq_bucket_size s bs = Some (s + length (concat (map bucket_bytes bs)))"
proof (induction bs arbitrary: s)
  case (Cons b bs)
  then have "hq_bucket_size s b = Some (s + length (bucket_bytes b))" by (simp add: hq_bucket_size_def add_usize_def)
  then show ?case using Cons.IH [of "s + length (bucket_bytes b)"] Cons.prems by (simp add: add.assoc)
qed simp

lemma align_8:
  assumes "c mod 8 = 0" "c + 7 < 2 ^ 64"
  shows "align_up c 8 = Some c"
proof -
  have "(c + 7) div 8 = c div 8" using assms(1) by presburger
  moreover have "c div 8 * 8 = c" using assms(1) by (auto simp: mod_eq_0_iff_dvd)
  ultimately show ?thesis using align_up_eq [of c 3] assms(2) by simp
qed

text \<open>Writing gives the image.\<close>

theorem hqwb_to_bytes_eq:
  fixes t :: "('a::len word, rs_support_plain rs_qvector, 'p) huff_qwt"
  assumes fits: "hqwb_fits t"
  shows "hqwb_to_bytes True B t = Some (Inr (hqwb_image B t))" and "length (hqwb_image B t) < 2 ^ 64"
proof -
  let ?L = "hw_n_levels t" and ?E = "hw_codes_encode t" and ?D = "hw_codes_decode t"
  let ?rs = "take ?L (hw_qvs t)" and ?lens = "take ?L (hw_lens t)"
  define h where "h = 32 + ?L * 136"
  define e where "e = length (concat (map code_bytes ?E))"
  define d where "d = length (concat (map bucket_bytes ?D))"
  define base where "base = h + e + d"
  define es where "es = hq_entries base ?rs ?lens"
  define H where "H = preamble_bytes HQWB_MAGIC B (size_of_T TYPE('a)) @ to_le (of_nat (hw_n t) :: u64) @ to_le (of_nat ?L :: u16)
     @ to_le (of_nat (length ?E) :: u16) @ to_le (of_nat (length ?D) :: u16)"
  have L: "?L \<le> 64" "?L \<le> length (hw_qvs t)" "?L \<le> length (hw_lens t)" and lv: "\<forall>r\<in>set ?rs. level_fits r"
    and EDs: "length ?E \<le> 65535" "length ?D \<le> 65535" using fits by (simp_all add: hqwb_fits_def)
  have len: "length ?rs = ?L" "length ?lens = length ?rs" "length es = ?L" using L by (simp_all add: es_def)
  have ok: "ld_ok x" if "x \<in> set es" for x using that hq_entries_ok [OF len(2)] by (simp add: es_def)
  have tab: "length (hqwb_tables t) = e + d" by (simp add: hqwb_tables_def e_def d_def)
  have small: "e + d < 2 ^ 40" using tables_small [OF fits] tab by simp
  have h: "h \<le> 2 ^ 14" "h mod 8 = 0" using L(1) by (simp_all add: h_def mod_eq_0_iff_dvd)
  have E8: "e = length ?E * 8" using length_concat_blocks [of ?E code_bytes 8] by (simp add: e_def)
  have base_le: "base \<le> 2 ^ 41" using h(1) small by (simp add: base_def)
  have "levels_end base ?rs \<le> base + ?L * 2 ^ 40" using levels_end_le [OF lv, of base] len by simp
  also have "?L * 2 ^ 40 \<le> 64 * 2 ^ 40" using L(1) by (rule mult_le_mono1)
  finally have fin: "levels_end base ?rs \<le> 2 ^ 41 + 2 ^ 46" using base_le by simp
  have al: "align_up (HEADER_SIZE + ?L * HQWT_LEVEL_DIR_SIZE) 8 = Some h"
    using align_8 [OF h(2)] h(1) by (simp add: format_consts h_def)
  have add1: "add_usize h (length ?E * 8) = Some (h + e)" using h(1) small by (simp add: add_usize_def E8)
  have add2: "add_usize (h + e) d = Some base" using base_le by (simp add: add_usize_def base_def)
  have sizes: "foldM hq_bucket_size 0 ?D = Some d" using bucket_sizes [of 0 ?D] small by (simp add: d_def)
  have "(?L + 2) * 2 ^ 40 \<le> 66 * 2 ^ 40" using L(1) by (intro mult_le_mono1) simp
  then have "base + (length ?rs + 2) * 2 ^ 40 < 2 ^ 64" using base_le unfolding len(1) by simp
  then have plan: "foldM (hq_plan_step (hw_lens t)) ([], base) (zip [0..<?L] ?rs) = Some (es, levels_end base ?rs)"
    using hq_plan_levels [OF lv, of base 0 "hw_lens t" "[]"] L len(1) by (simp add: es_def)
  define c where "c = levels_end base ?rs"
  have c: "base \<le> c" "h + e + d \<le> c" "32 \<le> h" using levels_end_ge [OF lv, of base] by (simp_all add: c_def base_def h_def)
  let ?z = "replicate c (0 :: u8)"
  let ?P0 = "preamble_bytes HQWB_MAGIC B (size_of_T TYPE('a)) @ to_le (of_nat (hw_n t) :: u64)"
  have w0: "write_preamble HQWB_MAGIC B (size_of_T TYPE('a)) (hw_n t) ?z = Some (?P0 @ drop 16 ?z, 16)"
    using c by (intro write_preamble_eq) simp_all
  have w1: "put_u16 (?P0 @ drop 16 ?z) 16 (of_nat ?L) = Some ((?P0 @ to_le (of_nat ?L :: u16)) @ drop 18 ?z, 18)"
    using c put_ints_next(3) [of ?P0 16 ?z] by simp
  have w2: "put_u16 ((?P0 @ to_le (of_nat ?L :: u16)) @ drop 18 ?z) 18 (of_nat (length ?E))
    = Some ((?P0 @ to_le (of_nat ?L :: u16) @ to_le (of_nat (length ?E) :: u16)) @ drop 20 ?z, 20)"
    using c put_ints_next(3) [of "?P0 @ to_le (of_nat ?L :: u16)" 18 ?z] by simp
  have w3: "put_u16 ((?P0 @ to_le (of_nat ?L :: u16) @ to_le (of_nat (length ?E) :: u16)) @ drop 20 ?z) 20 (of_nat (length ?D))
    = Some (H @ replicate (c - 22) 0, 22)"
    using c put_ints_next(3) [of "?P0 @ to_le (of_nat ?L :: u16) @ to_le (of_nat (length ?E) :: u16)" 20 ?z] by (simp add: H_def)
  have hdr: "H @ replicate (c - 22) 0 = hqwb_header B t @ replicate (c - 32) 0"
  proof -
    have "replicate (c - 22) (0 :: u8) = replicate 10 0 @ replicate (c - 32) 0" using c by (simp flip: replicate_add)
    then show ?thesis by (simp add: H_def hqwb_header_def)
  qed
  let ?P1 = "hqwb_header B t @ concat (map hd_bytes es)"
  have w4: "foldM (write_dir HQWT_LEVEL_DIR_SIZE hd_write) (hqwb_header B t @ replicate (c - 32) 0, HEADER_SIZE) es = Some (?P1 @ replicate (c - h) 0, h)"
    using write_dirs [where ds = es and sz = 136 and w = hd_write and f = hd_bytes and P = "hqwb_header B t" and p = 32 and z = "c - 32"] c
    by (simp add: format_consts len(3) hd_write_eq hd_bytes_def length_ld_bytes ok h_def mult.commute)
  have "length (concat (map hd_bytes es)) = ?L * 136"
    using length_concat_blocks [where xs = es and f = hd_bytes and sz = 136] len(3) by (simp add: ok hd_bytes_def length_ld_bytes)
  then have l1: "length ?P1 = h" by (simp add: h_def)
  let ?P2 = "?P1 @ concat (map code_bytes ?E)"
  have w5: "foldM write_code (?P1 @ replicate (c - h) 0, h) ?E = Some (?P2 @ replicate (c - h - e) 0, h + e)"
    unfolding e_def by (rule foldM_appends [OF _ l1]) (use c in \<open>simp_all add: write_code_eq e_def del: append_assoc\<close>)
  have l2: "length ?P2 = h + e" using l1 by (simp add: e_def)
  let ?P3 = "?P2 @ concat (map bucket_bytes ?D)"
  have w6: "foldM write_bucket (?P2 @ replicate (c - h - e) 0, h + e) ?D = Some (?P3 @ replicate (c - h - e - d) 0, h + e + d)"
    unfolding d_def by (rule foldM_appends [OF _ l2 ]) (use c in \<open>simp_all add: write_bucket_eq d_def del: append_assoc length_bucket_bytes\<close>)
  have l3: "length ?P3 = base" using l2 by (simp add: d_def base_def)
  have w7: "foldM write_level (?P3 @ replicate (c - h - e - d) 0) (zip ?rs es) = Some (?P3 @ level_images base ?rs)"
    using write_levels [OF lv l3, of "c - base"] c fin hq_write_levels [OF len(2), of _ base] by (simp add: es_def c_def base_def)
  have zip: "zip (hw_qvs t) es = zip ?rs es" using zip_prefix [of es "hw_qvs t"] len L by simp
  have image: "hqwb_image B t = ?P3 @ level_images base ?rs"
    by (simp add: hqwb_image_def Let_def hqwb_tables_def base_def e_def d_def h_def es_def add.assoc)
  show "hqwb_to_bytes True B t = Some (Inr (hqwb_image B t))"
    unfolding hqwb_to_bytes_def using al add1 add2 sizes plan w0 w1 w2 w3 hdr w4 w5 w6 w7 EDs
    by (simp add: ensure_le_def reject_def Let_def c_def [symmetric] zip image del: append_assoc)
  have "base + length (level_images base ?rs) = c" using length_level_images [OF lv, of base] by (simp add: c_def)
  then have "length (hqwb_image B t) = c" using l3 image by (simp only: length_append)
  then show "length (hqwb_image B t) < 2 ^ 64" using fin by (simp add: c_def)
qed

text \<open>Reading the image finds the same parts, and passes them on to \<open>from_parts\<close>.\<close>

theorem hqwb_from_bytes_image:
  fixes t :: "('a::len word, rs_support_plain rs_qvector, 'p) huff_qwt"
  assumes B: "B = 256 \<or> B = 512" and w: "LENGTH('a) \<le> 64"
    and fits: "hqwb_fits t" and levels: "\<forall>r\<in>set (take (hw_n_levels t) (hw_qvs t)). rq_from (rs_plain B) (rq_qv r) = Some r"
    and n: "0 < hw_n t \<longrightarrow> 0 < hw_n_levels t" "hw_n_levels t \<le> MAX_QUAD_LEVELS" "hw_n t < 2 ^ 64" "\<forall>l\<in>set (hw_lens t). l < 2 ^ 64"
  shows "hqwb_from_bytes True B (hqwb_image B t)
    = hw_from_parts (rq_ops (rs_plain B)) False (hw_n t) (hw_n_levels t) (hw_codes_encode t) (hw_codes_decode t)
        (take (hw_n_levels t) (hw_qvs t)) (take (hw_n_levels t) (hw_lens t))"
proof -
  let ?L = "hw_n_levels t" and ?E = "hw_codes_encode t" and ?D = "hw_codes_decode t" and ?bytes = "hqwb_image B t"
  let ?rs = "take ?L (hw_qvs t)" and ?lens = "take ?L (hw_lens t)"
  define h where "h = 32 + ?L * 136"
  define e where "e = length (concat (map code_bytes ?E))"
  define d where "d = length (concat (map bucket_bytes ?D))"
  define base where "base = h + e + d"
  define es where "es = hq_entries base ?rs ?lens"
  define I where "I = level_images base ?rs"
  have L: "?L \<le> 64" "?L \<le> length (hw_qvs t)" "?L \<le> length (hw_lens t)" and lv: "\<forall>r\<in>set ?rs. level_fits r"
    and EDs: "length ?E \<le> 65535" "length ?D \<le> 65535" and bks: "\<forall>b\<in>set ?D. length b \<le> 65535" using fits by (simp_all add: hqwb_fits_def)
  have len: "length ?rs = ?L" "length ?lens = length ?rs" "length es = ?L" using L by (simp_all add: es_def)
  have ok: "ld_ok x" if "x \<in> set es" for x using that hq_entries_ok [OF len(2)] by (simp add: es_def)
  have E8: "e = length ?E * 8" using length_concat_blocks [of ?E code_bytes 8] by (simp add: e_def)
  have ld: "length (concat (map hd_bytes es)) = ?L * 136"
    using length_concat_blocks [where xs = es and f = hd_bytes and sz = 136] len(3) by (simp add: ok hd_bytes_def length_ld_bytes)
  let ?T = "concat (map code_bytes ?E) @ concat (map bucket_bytes ?D) @ I"
  let ?Y = "concat (map hd_bytes es) @ ?T"
  have bytes: "?bytes = hqwb_header B t @ ?Y"
    by (simp add: hqwb_image_def Let_def hqwb_tables_def base_def e_def d_def h_def es_def I_def add.assoc)
  have small: "length ?bytes < 2 ^ 64" by (rule hqwb_to_bytes_eq(2) [OF fits])
  have lb: "length ?bytes = h + e + d + length I" by (simp add: bytes ld h_def e_def d_def del: length_code_bytes length_bucket_bytes)
  have size: "size_of_T TYPE('a) < 256" using w by (simp add: size_of_T_def)
  have pre: "read_preamble True HQWB_MAGIC B (size_of_T TYPE('a)) ?bytes = Some (Inr 8)"
    by (rule read_preamble_eq [OF _ _ _ size B, of _ _ "to_le (of_nat (hw_n t) :: u64) @ to_le (of_nat ?L :: u16) @ to_le (of_nat (length ?E) :: u16)
       @ to_le (of_nat (length ?D) :: u16) @ replicate 10 0 @ ?Y"])
      (use lb in \<open>simp_all add: h_def\<close>, simp add: bytes hqwb_header_def)
  have d8: "drop 8 ?bytes = to_le (of_nat (hw_n t) :: u64) @ to_le (of_nat ?L :: u16) @ to_le (of_nat (length ?E) :: u16)
     @ to_le (of_nat (length ?D) :: u16) @ replicate 10 0 @ ?Y" by (simp add: bytes hqwb_header_def)
  note g1 = get_ints_next(1) [OF d8]
  note g2 = get_ints_next(3) [OF conjunct2 [OF g1]]
  note g3 = get_ints_next(3) [OF conjunct2 [OF g2]]
  note g4 = get_ints_next(3) [OF conjunct2 [OF g3]]
  have ints: "get_u64 ?bytes 8 = Some (of_nat (hw_n t), 16)" "get_u16 ?bytes 16 = Some (of_nat ?L, 18)"
    "get_u16 ?bytes 18 = Some (of_nat (length ?E), 20)" "get_u16 ?bytes 20 = Some (of_nat (length ?D), 22)" using g1 g2 g3 g4 by simp_all
  have vals: "unat (of_nat (hw_n t) :: u64) = hw_n t" "unat (of_nat ?L :: u16) = ?L" "unat (of_nat (length ?E) :: u16) = length ?E"
    "unat (of_nat (length ?D) :: u16) = length ?D" using n(3) L(1) EDs by (simp_all add: unat_of_nat_small)
  have dir: "directory_end ?L HQWT_LEVEL_DIR_SIZE (length ?bytes) = Some (Inr h)"
    using L(1) lb by (simp add: directory_end_def checked_mul_def format_consts h_def)
  have h: "h < 2 ^ 14" "h mod 8 = 0" using L(1) by (simp_all add: h_def mod_eq_0_iff_dvd)
  have al: "align_up h 8 = Some h" using align_8 [OF h(2)] h(1) by simp
  have at1: "drop h ?bytes = ?T" by (simp add: bytes ld h_def)
  then have at2: "drop (h + e) ?bytes = concat (map bucket_bytes ?D) @ I" by (simp add: add.commute [of h] e_def flip: drop_drop)
  have reg: "checked_region h (length ?E) 8 (length ?bytes) = Some (Inr e)" using lb small E8 by (simp add: checked_region_eq)
  have enc: "those (map (read_code ?bytes h) [0..<length ?E]) = Some ?E"
    using those_map_Some [of "[0..<length ?E]" "read_code ?bytes h" "(!) ?E"] read_code_eq [OF at1] by (simp add: map_nth)
  have ae: "add_usize h e = Some (h + e)" using lb small by (simp add: add_usize_def)
  have dec: "foldR (read_bucket ?bytes) (h + e, []) [0..<length ?D] = Some (Inr (h + e + length (concat (map bucket_bytes ?D)), ?D))"
  proof (rule foldR_reads [OF _ at2])
    fix k p Y assume k: "k < length ?D" "drop p ?bytes = bucket_bytes (?D ! k) @ Y"
    have "length (?D ! k) \<le> 65535" using bks nth_mem [OF k(1)] by (rule bspec)
    then have "length (?D ! k) < 2 ^ 32" by simp
    from read_bucket_eq [OF k(2) w this small] show "read_bucket ?bytes (p, take k ?D) k = Some (Inr (p + length (bucket_bytes (?D ! k)), take (Suc k) ?D))"
      using k(1) by (simp add: take_Suc_conv_app_nth)
  qed
  have step: "hqwb_read_step B ?bytes (take k ?rs, take k ?lens) k = Some (Inr (take (Suc k) ?rs, take (Suc k) ?lens))" if k: "k < ?L" for k
  proof -
    have nth: "es ! k = level_dir.extend (level_entries base ?rs ! k) \<lparr>ld_level_len = of_nat (?lens ! k)\<rparr>"
      using nth_hq_entries [OF len(2)] k len(1) by (simp add: es_def)
    have "ld_ok (es ! k)" using ok k len(3) by simp
    then have "hd_read (hd_bytes (es ! k)) = Some (Inr (es ! k))" by (simp add: hd_read_eq hd_bytes_def)
    moreover have "range_of ?bytes (HEADER_SIZE + k * HQWT_LEVEL_DIR_SIZE) (HEADER_SIZE + k * HQWT_LEVEL_DIR_SIZE + HQWT_LEVEL_DIR_SIZE) = Some (hd_bytes (es ! k))"
      unfolding bytes using k len(3) by (simp only: format_consts, intro range_of_block) (simp_all add: ok hd_bytes_def length_ld_bytes)
    moreover have "read_level B ?bytes (level_entries base ?rs ! k) = Some (Inr (?rs ! k))"
    proof (rule read_levels [OF _ _ small])
      show "?bytes = (hqwb_header B t @ concat (map hd_bytes es) @ concat (map code_bytes ?E) @ concat (map bucket_bytes ?D)) @ level_images base ?rs @ []"
        by (simp add: bytes I_def)
    qed (use lv levels k len(1) ld in \<open>simp_all add: base_def h_def e_def d_def\<close>)
    then have "read_level B ?bytes (es ! k) = Some (Inr (?rs ! k))" by (simp only: nth extend_same(2))
    moreover have "unat (ld_level_len (es ! k)) = ?lens ! k" unfolding nth using n(4) k L(3) by (simp add: level_dir.defs unat_of_nat_small)
    ultimately show ?thesis using k len by (simp add: hqwb_read_step_def take_Suc_conv_app_nth)
  qed
  have "foldR (hqwb_read_step B ?bytes) (take 0 ?rs, take 0 ?lens) (map id [0..<?L]) = Some (Inr (take ?L ?rs, take ?L ?lens))"
    by (rule foldR_upt_value [where g = "\<lambda>k. (take k ?rs, take k ?lens)"]) (use step in simp)
  then have lvs: "foldR (hqwb_read_step B ?bytes) ([], []) [0..<?L] = Some (Inr (?rs, ?lens))" by simp
  have nz: "(0 < hw_n t \<and> ?L = 0) = False" using n(1) by auto
  show ?thesis
    unfolding hqwb_from_bytes_def pre using ints al reg enc ae dec lvs n(2) dir
    by (simp add: Let_def vals reject_def nz)
qed

end
