(* ===== verification/HqwbProperties.thy ===== *)
theory HqwbProperties
  imports HqwbCorrect ByteTrees HuffQWTProperties
begin

text \<open>
  What the \<open>HQWB\<close> format promises: a compressed tree written to bytes is read back unchanged.
\<close>

section \<open>The levels of a constructed tree\<close>

lemma hw_count_built:
  "foldM (hw_count_step codes sh) (b, c) ys = Some (b', c') \<Longrightarrow> qv_built (qb_build b) \<Longrightarrow> qv_built (qb_build b')"
proof (induction ys arbitrary: b c)
  case (Cons y ys)
  obtain b1 c1 where s1: "hw_count_step codes sh (b, c) y = Some (b1, c1)" "foldM (hw_count_step codes sh) (b1, c1) ys = Some (b', c')"
    using Cons.prems(1) by (auto simp: bind_eq_Some_conv)
  have "b1 = b \<or> (\<exists>s. qb_push b s = Some b1)"
    using s1(1) by (auto simp: hw_count_step_def bind_eq_Some_conv split: if_splits)
  then have "qv_built (qb_build b1)" using qb_push_built [OF Cons.prems(2)] Cons.prems(2) by metis
  then show ?case using Cons.IH s1(2) by blast
qed simp

lemma hw_levels_built:
  "foldM (hw_level_step R None codes) st ls = Some st' \<Longrightarrow> \<forall>r\<in>set (hb_qvs st). level_built R r \<Longrightarrow> \<forall>r\<in>set (hb_qvs st'). level_built R r"
proof (induction ls arbitrary: st)
  case (Cons l ls)
  obtain st1 where s: "hw_level_step R None codes st l = Some st1" "foldM (hw_level_step R None codes) st1 ls = Some st'"
    using Cons.prems(1) by (auto simp: bind_eq_Some_conv)
  obtain b c r where step: "foldM (hw_count_step codes (hb_shift st)) (qb_default, [0, 0, 0, 0, 0]) (hb_sequence st) = Some (b, c)"
    "w_from R (qb_build b) = Some r" "hb_qvs st1 = hb_qvs st @ [r]"
    using s(1) by (auto simp: hw_level_step_def Let_def bind_eq_Some_conv)
  have "qv_built (qb_build b)" using hw_count_built [OF step(1)] qv_built_default(1) by simp
  then have "\<forall>r\<in>set (hb_qvs st1). level_built R r" using step(2,3) Cons.prems(2) by (auto simp: level_built_def)
  then show ?case using Cons.IH s(2) by blast
qed simp

lemma hw_tree_built:
  fixes xs :: "'a::len word list" and t :: "('a word, 'r, 'p) huff_qwt"
  assumes t: "hw_new R None cl xs = Some t" and ne: "xs \<noteq> []" and w: "LENGTH('a) \<le> 64" and cl: "quad_lengths_for cl xs"
    and small: "\<forall>x\<in>set xs. unat x + 1 < 2 ^ 60"
  shows "\<forall>r\<in>set (hw_qvs t). level_built R r" "length (hw_codes_encode t) = unat (Max (set xs)) + 1"
proof -
  let ?s = "unat (Max (set xs))"
  have us: "unat (as_usize (Max (set xs))) = ?s" by (rule unat_as_usize [OF w])
  have le: "unat x \<le> ?s" if "x \<in> set xs" for x using that by (simp add: word_le_nat_alt [symmetric])
  have freqs: "foldM freq_count_step (replicate (?s + 1) 0) xs = Some (symbol_freqs xs)"
    using freq_count_loop [OF w, of xs "replicate (?s + 1) 0"] le
    by (simp add: symbol_freqs_def less_Suc_eq_le del: replicate_Suc upt_Suc)
  obtain codes where codes: "huffman_codes_from_frequencies cl (symbol_freqs xs) = Some codes" "length codes = ?s + 1"
    using huffman_codes_eq [OF w ne cl small] by blast
  let ?init = "\<lparr>hb_sequence = xs, hb_partitioned = replicate (length xs) 0, hb_qvs = [], hb_lens = [], hb_prefetch = [], hb_shift = 2\<rparr> :: ('a word, 'r, 'p) hw_build"
  obtain st where st: "foldM (hw_level_step R None codes) ?init [0..<unat (Max (pc_len ` set codes)) div 2] = Some st"
    "hw_qvs t = hb_qvs st" "hw_codes_encode t = codes"
    using t ne freqs codes(1) bspec [OF small, of "Max (set xs)"]
    by (auto simp: hw_new_def hw_from_owned_def Let_def vec_of_def us bind_eq_Some_conv simp del: replicate_Suc upt_Suc)
  show "\<forall>r\<in>set (hw_qvs t). level_built R r" using hw_levels_built [OF st(1)] st(2) by simp
  show "length (hw_codes_encode t) = ?s + 1" using st(3) codes(2) by simp
qed

lemma hw_tree_fits:
  fixes xs :: "'a::len word list" and t :: "('a word, rs_support_plain rs_qvector, 'p) huff_qwt"
  assumes bs: "bs = 256 \<or> bs = 512" and t: "hw_new (rq_ops (rs_plain bs)) None cl xs = Some t" "hqwt_represents bs xs t"
    and xs: "xs \<noteq> []" "length xs \<le> 2 ^ 40 - 256" "\<forall>x\<in>set xs. unat x < 65535" and w: "LENGTH('a) \<le> 64" and cl: "quad_lengths_for cl xs"
  shows "hqwb_fits t" "r \<in> set (hw_qvs t) \<Longrightarrow> rq_from (rs_plain bs) (rq_qv r) = Some r"
    "\<forall>l\<in>set (hw_lens t). l < 2 ^ 64" "hw_n t < 2 ^ 64" "0 < hw_n_levels t" "hw_n_levels t \<le> 16"
    "length (hw_qvs t) = hw_n_levels t" "length (hw_lens t) = hw_n_levels t"
proof -
  let ?codes = "hw_codes_encode t"
  let ?dg = "hq_dg ?codes :: nat \<Rightarrow> 'a word \<Rightarrow> nat" and ?len = "hq_len ?codes :: 'a word \<Rightarrow> nat"
  have o: "hw_levels_ok (\<lambda>r D. rq_ok (rp_inv bs) r \<and> rq_list r = D) ?dg ?len xs t" "length (hw_codes_decode t) = 2 * hw_n_levels t + 1"
    "huff_rows ?codes (hw_codes_decode t)" "0 < hw_n_levels t" using t(2) by (simp_all add: hw_ok_def)
  note h = hw_levels_okD [OF o(1)]
  have "\<forall>x\<in>set xs. unat x + 1 < 2 ^ 60" using xs(3) by fastforce
  note b = hw_tree_built [OF t(1) xs(1) w cl this]
  have lv: "level_fits r \<and> rq_from (rs_plain bs) (rq_qv r) = Some r" if r: "r \<in> set (hw_qvs t)" for r
  proof -
    obtain qv where qv: "qv_built qv" "rq_from (rs_plain bs) qv = Some r" using b(1) r by (auto simp: level_built_def rq_ops_def)
    note same = rq_from_qv [OF qv(2)]
    obtain l where l: "l < hw_n_levels t" "r = hw_qvs t ! l" using r h(4) by (auto simp: in_set_conv_nth)
    have rep: "rq_ok (rp_inv bs) r" "length (rq_list r) \<le> length xs"
      using h(8) [OF l(1)] length_cm_level_le [OF h(1), of l] l(2) by (auto simp flip: length_cm_digits)
    have "qv_len qv \<le> 2 ^ 40 - 256" using rep(2) same xs(2) by (simp add: rq_list_def)
    then have "length (qv_data qv) < 2 ^ 32" by (rule data_lines_small [OF qv(1)])
    then show ?thesis using level_fits_ok [OF bs rep(1)] rep(2) xs(2) same qv(2) by simp
  qed
  show "r \<in> set (hw_qvs t) \<Longrightarrow> rq_from (rs_plain bs) (rq_qv r) = Some r" using lv by blast
  have E: "length ?codes \<le> 65535" using xs(1,3) b(2) by (simp add: Suc_le_eq)
  have "length bk \<le> 65535" if bk: "bk \<in> set (hw_codes_decode t)" for bk
  proof -
    have "bk \<in> set (map (\<lambda>l. sort_key fst (code_row ?codes l)) [0..<length (hw_codes_decode t)])"
      using bk o(3) unfolding huff_rows_def by metis
    then obtain l where l: "bk = sort_key fst (code_row ?codes l)" by auto
    have "length bk \<le> length ?codes" unfolding l by (simp add: code_row_def) (rule order_trans [OF length_filter_le], simp)
    then show ?thesis using E by simp
  qed
  moreover have "length (hw_codes_decode t) \<le> 65535" using o(2) h(3) by simp
  ultimately show "hqwb_fits t" using lv E h(3,4,6) by (auto simp: hqwb_fits_def dest: in_set_takeD)
  show "\<forall>l\<in>set (hw_lens t). l < 2 ^ 64"
  proof
    fix l assume "l \<in> set (hw_lens t)"
    then obtain k where "k < hw_n_levels t" "l = length (cm_level ?dg ?len 4 xs k)" using h(6,10) by (auto simp: in_set_conv_nth)
    then show "l < 2 ^ 64" using length_cm_level_le [OF h(1), of k] xs(2) by simp
  qed
  show "hw_n t < 2 ^ 64" "0 < hw_n_levels t" "hw_n_levels t \<le> 16" "length (hw_qvs t) = hw_n_levels t" "length (hw_lens t) = hw_n_levels t"
    using h(2,3,4,6) o(4) xs(2) by simp_all
qed

text \<open>The empty tree.\<close>

lemma hw_empty_blob:
  assumes bs: "bs = 256 \<or> bs = 512" and w: "LENGTH('a::len) \<le> 64"
    and t: "hw_new (rq_ops (rs_plain bs)) None cl ([] :: 'a word list) = Some t"
  shows "hqwb_fits t" "hw_from_parts (rq_ops (rs_plain bs)) False (hw_n t) (hw_n_levels t) (hw_codes_encode t) (hw_codes_decode t)
        (take (hw_n_levels t) (hw_qvs t)) (take (hw_n_levels t) (hw_lens t)) = Some (Inr t)"
    "hw_n t = 0" "hw_n_levels t = 0" "hw_lens t = [0]"
proof -
  obtain r where r: "w_default (rq_ops (rs_plain bs)) = Some r" "t = \<lparr>hw_n = 0, hw_n_levels = 0, hw_codes_encode = [], hw_codes_decode = [], hw_qvs = [r],
      hw_lens = [0], hw_prefetch_support = None\<rparr>" using t by (auto simp: hw_new_def hw_from_owned_def bind_eq_Some_conv)
  show "hqwb_fits t" "hw_n t = 0" "hw_n_levels t = 0" "hw_lens t = [0]" using r(2) by (simp_all add: hqwb_fits_def)
  show "hw_from_parts (rq_ops (rs_plain bs)) False (hw_n t) (hw_n_levels t) (hw_codes_encode t) (hw_codes_decode t)
        (take (hw_n_levels t) (hw_qvs t)) (take (hw_n_levels t) (hw_lens t)) = Some (Inr t)"
    using r by (simp add: hw_from_parts_def hw_normalize_def reject_def) (simp add: hw_check_pending.simps)
qed

text \<open>C37. A compressed tree built from at most \<open>2 ^ 40 - 256\<close> symbols below 65535 is written to bytes and read back unchanged: the header,
  the directory, the code tables, the offsets and the payload of every level agree in \<open>to_bytes\<close> and \<open>from_bytes\<close>, the rebuilt counters
  are the old ones, and the tables and levels pass every check of \<open>from_parts\<close>. The empty tree is included; for any other the code gives lengths
  to exactly the symbols of the sequence and, limited to 32 bits, fits the code space and leaves nodes unused only on the deepest level.\<close>

theorem hqwb_roundtrip:
  fixes xs :: "'a::len word list"
  assumes B: "B = 256 \<or> B = 512" and w: "LENGTH('a) \<le> 64" and n: "length xs \<le> 2 ^ 40 - 256" "\<forall>x\<in>set xs. unat x < 65535"
    and cl: "xs = [] \<or> quad_lengths_for code_lengths xs"
  shows "\<exists>(t :: ('a word, _, prefetch_support) huff_qwt) bytes. hw_new (rq_ops (rs_plain B)) None code_lengths xs = Some t
    \<and> hqwb_to_bytes True B t = Some (Inr bytes) \<and> hqwb_from_bytes True B bytes = Some (Inr t)"
proof (cases "xs = []")
  case True
  obtain t :: "('a word, _, prefetch_support) huff_qwt" where t: "hw_new (rq_ops (rs_plain B)) None code_lengths ([] :: 'a word list) = Some t"
    using B rs256.wt.default_rep rs512.wt.default_rep by (auto simp: hw_new_def hw_from_owned_def)
  note e = hw_empty_blob [OF B w t]
  have "hqwb_from_bytes True B (hqwb_image B t) = Some (Inr t)"
    unfolding e(2) [symmetric] by (rule hqwb_from_bytes_image [OF B w e(1)]) (simp_all add: e)
  then show ?thesis using True t hqwb_to_bytes_eq(1) [OF e(1)] by blast
next
  case False
  then have cl: "quad_lengths_for code_lengths xs" using cl by simp
  have small: "length xs < 2 ^ 43 - 2048" using n(1) by simp
  obtain t :: "('a word, _, prefetch_support) huff_qwt" where t: "hw_new (rq_ops (rs_plain B)) None code_lengths xs = Some t" "hqwt_represents B xs t"
    "hw_prefetch_support t = None" by (rule hqwt_built [OF B w small False cl, of None]) (use n(2) in fastforce)+
  note f = hw_tree_fits [OF B t(1,2) False n w cl]
  have "hw_from_parts (rq_ops (rs_plain B)) False (hw_n t) (hw_n_levels t) (hw_codes_encode t) (hw_codes_decode t) (hw_qvs t) (hw_lens t) = Some (Inr t)"
    using B t(2,3) rs256.wt.hw_from_parts_ok(1) [of xs t] rs512.wt.hw_from_parts_ok(1) [of xs t] by blast
  moreover have "take (hw_n_levels t) (hw_qvs t) = hw_qvs t" "take (hw_n_levels t) (hw_lens t) = hw_lens t" using f(7,8) by simp_all
  moreover have "hqwb_from_bytes True B (hqwb_image B t) = hw_from_parts (rq_ops (rs_plain B)) False (hw_n t) (hw_n_levels t) (hw_codes_encode t) (hw_codes_decode t)
        (take (hw_n_levels t) (hw_qvs t)) (take (hw_n_levels t) (hw_lens t))"
    by (rule hqwb_from_bytes_image [OF B w f(1)]) (use f in \<open>auto simp: MAX_QUAD_LEVELS_def\<close>)
  ultimately show ?thesis using t(1) hqwb_to_bytes_eq(1) [OF f(1)] by metis
qed

theorem hqwb_roundtrip_witness:
  "\<exists>(t :: (8 word, _, prefetch_support) huff_qwt) bytes.
    hw_new (rq_ops (rs_plain 256)) None (\<lambda>_. [(9, 1), (0, 1), (7, 1), (200, 2), (3, 2)]) [9, 0, 200, 7, 0, 3, 9] = Some t
    \<and> hqwb_to_bytes True 256 t = Some (Inr bytes) \<and> hqwb_from_bytes True 256 bytes = Some (Inr t)"
  using hqwb_roundtrip [of 256 "[9, 0, 200, 7, 0, 3, 9 :: 8 word]", OF _ _ _ _ disjI2 [OF quad_lengths_five]] by simp

end
