(* ===== verification/LevelView.thy ===== *)
theory LevelView
  imports ByteTrees BinWT
begin

text \<open>
  Borrowed views of one level, \<^verbatim>\<open>src/bytes/level.rs\<close>: opening one from a directory entry, with the checks that
  recompute every persisted counter from the symbols, and the queries on it. The base address of the blob is an
  argument of the functions that cast slices in place.
\<close>

unbundle bit_operations_syntax

lemma rbind_mono [partial_function_mono]:
  assumes "mono_option B" "\<And>y. mono_option (\<lambda>f. C y f)"
  shows "mono_option (\<lambda>f. rbind (B f) (\<lambda>y. C y f))"
proof -
  have eq: "rbind (B f) (\<lambda>y. C y f) = Option.bind (B f) (\<lambda>r. case r of Inl e \<Rightarrow> Some (Inl e) | Inr x \<Rightarrow> C x f)" for f
    by (auto simp: rbind_def split: option.splits sum.splits)
  have "mono_option (\<lambda>f. case r of Inl e \<Rightarrow> Some (Inl e) | Inr x \<Rightarrow> C x f)" for r
    using assms(2) by (cases r) (simp_all add: option.const_mono)
  then show ?thesis unfolding eq by (rule bind_mono [OF assms(1)])
qed

section \<open>Directory entries\<close>

definition level_dir_read :: "u8 list \<Rightarrow> (layout_error + level_dir) option" where
  "level_dir_read buf = (if length buf < LEVEL_DIR_SIZE then Some (Inl Truncated)
     else do { (dir, p) \<leftarrow> ld_get buf; guard (p = LEVEL_DIR_SIZE); Some (Inr dir) })"

record hqwt_level_dir =
  hl_plain :: level_dir
  hl_level_len :: u64

definition hqwt_level_dir_read :: "u8 list \<Rightarrow> (layout_error + hqwt_level_dir) option" where
  "hqwt_level_dir_read buf = (if length buf < LEVEL_DIR_SIZE + 8 then Some (Inl Truncated)
     else do {
       s \<leftarrow> range_of buf 0 LEVEL_DIR_SIZE;
       rbind (level_dir_read s) (\<lambda>plain. do {
         (level_len, p) \<leftarrow> get_u64 buf LEVEL_DIR_SIZE;
         Some (Inr \<lparr>hl_plain = plain, hl_level_len = level_len\<rparr>)
       })
     })"

section \<open>Opening a view\<close>

record rsqv_view =
  lv_data :: "data_line list"
  lv_superblocks :: "superblock_plain list"
  lv_select_samples :: "u32 list list"
  lv_position_bits :: nat
  lv_n_occs_smaller :: "nat list"

text \<open>A region checked against the blob and cast in place.\<close>

definition lv_slice :: "nat \<Rightarrow> u8 list \<Rightarrow> nat \<Rightarrow> nat \<Rightarrow> nat \<Rightarrow> nat \<Rightarrow> (u8 list \<Rightarrow> 't) \<Rightarrow> (layout_error + 't list) option" where
  "lv_slice base bytes off n align sz dec =
     rbind (checked_region off n sz (length bytes)) (\<lambda>nbytes. do {
       s \<leftarrow> range_of bytes off (off + nbytes);
       cast_slice align sz dec (base + off) s
     })"

definition lv_sample_step :: "nat \<Rightarrow> u8 list \<Rightarrow> level_dir \<Rightarrow> u32 list list \<Rightarrow> nat \<Rightarrow> (layout_error + u32 list list) option" where
  "lv_sample_step base bytes dir samples s = do {
     n_sel \<leftarrow> idx (ld_n_sel dir) s;
     off \<leftarrow> idx (ld_off_sel dir) s;
     rbind (lv_slice base bytes (unat off) (unat n_sel) 4 4 from_le) (\<lambda>sample. Some (Inr (samples @ [sample])))
   }"

text \<open>\<open>superblock_base\<close> after the checks at the start of a superblock.\<close>

definition lv_check_superblock :: "nat \<Rightarrow> superblock_plain list \<Rightarrow> nat \<Rightarrow> nat list \<Rightarrow> nat list \<Rightarrow> (layout_error + nat list) option" where
  "lv_check_superblock B superblocks block_start totals superblock_base =
     (if block_start mod (B * 8) = 0 then
        (let superblock_index = block_start div (B * 8)
         in if superblock_index < length superblocks then
              rbind (foldR (\<lambda>u symbol. do {
                counter \<leftarrow> sp_get_superblock_counter (superblocks ! superblock_index) symbol;
                reject (counter \<noteq> totals ! symbol) (Inconsistent ''superblock rank counter disagrees with encoded symbols'')
              }) () [0..<4]) (\<lambda>_. Some (Inr totals))
            else Some (Inl (Inconsistent ''missing superblock at a sequence boundary'')))
      else Some (Inr superblock_base))"

definition lv_block_counters :: "superblock_plain \<Rightarrow> nat \<Rightarrow> nat list \<Rightarrow> nat list \<Rightarrow> string \<Rightarrow> (layout_error + unit) option" where
  "lv_block_counters superblock block_index totals superblock_base msg =
     foldR (\<lambda>u symbol. do {
       counter \<leftarrow> sp_get_block_counter superblock symbol block_index;
       d \<leftarrow> chk_sub (totals ! symbol) (superblock_base ! symbol);
       reject (counter \<noteq> d) (Inconsistent msg)
     }) () [0..<4]"

definition lv_check_block :: "nat \<Rightarrow> superblock_plain list \<Rightarrow> nat \<Rightarrow> nat list \<Rightarrow> nat list \<Rightarrow> (layout_error + unit) option" where
  "lv_check_block B superblocks block_start totals superblock_base =
     (if block_start mod B = 0 then
        (let superblock_index = block_start div (B * 8); block_index = block_start div B mod 8
         in if superblock_index < length superblocks
            then lv_block_counters (superblocks ! superblock_index) block_index totals superblock_base
              ''block rank counter disagrees with encoded symbols''
            else Some (Inl (Inconsistent ''missing superblock for block counter'')))
      else Some (Inr ()))"

text \<open>Counting the symbols of one block, data line by data line.\<close>

partial_function (option) lv_count_lines :: "data_line list \<Rightarrow> nat \<Rightarrow> nat list \<Rightarrow> nat \<Rightarrow> (layout_error + nat list) option" where
  "lv_count_lines data block_end totals position =
     (if position < block_end then
        (if position div 256 < length data then do {
           let line = data ! (position div 256);
           let line_start = position mod 256;
           let line_end = min block_end ((position OR 255) + 1);
           line_len \<leftarrow> chk_sub line_end position;
           end_ranks \<leftarrow> dl_rank_all_unchecked line (line_start + line_len);
           start_ranks \<leftarrow> (if line_start = 0 then Some [0, 0, 0, 0] else dl_rank_all_unchecked line line_start);
           totals \<leftarrow> those (map (\<lambda>symbol. do {
             d \<leftarrow> chk_sub (end_ranks ! symbol) (start_ranks ! symbol);
             Some (totals ! symbol + d) }) [0..<4]);
           lv_count_lines data block_end totals line_end
         } else Some (Inl (Inconsistent ''level data is shorter than its position cursor'')))
      else Some (Inr totals))"

text \<open>The loop over the blocks: the totals and the counters at the start of the last superblock.\<close>

partial_function (option) lv_check_blocks :: "nat \<Rightarrow> data_line list \<Rightarrow> superblock_plain list \<Rightarrow> nat \<Rightarrow>
    nat list \<Rightarrow> nat list \<Rightarrow> nat \<Rightarrow> (layout_error + nat list \<times> nat list) option" where
  "lv_check_blocks B data superblocks len totals superblock_base block_start =
     rbind (lv_check_superblock B superblocks block_start totals superblock_base) (\<lambda>superblock_base.
     rbind (lv_check_block B superblocks block_start totals superblock_base) (\<lambda>_.
     if block_start = len then Some (Inr (totals, superblock_base))
     else
       (let block_end = min (block_start + B) len
        in rbind (lv_count_lines data block_end totals block_start) (\<lambda>totals.
           lv_check_blocks B data superblocks len totals superblock_base block_end))))"

text \<open>The select samples of one symbol.\<close>

definition lv_check_sample :: "superblock_plain list \<Rightarrow> nat \<Rightarrow> unit \<Rightarrow> nat \<times> u32 \<Rightarrow> (layout_error + unit) option" where
  "lv_check_sample superblocks symbol u ks = (
     let (k, sample) = ks; target = k * 8192; sb = unat sample
     in do {
       superblock \<leftarrow> idx superblocks sb;
       counter \<leftarrow> sp_get_superblock_counter superblock symbol;
       rbind (reject (counter > target) (Inconsistent ''select sample superblock rank exceeds the sampled occurrence'')) (\<lambda>_.
       if sb + 1 < length superblocks then do {
         next_counter \<leftarrow> sp_get_superblock_counter (superblocks ! (sb + 1)) symbol;
         reject (next_counter \<le> target) (Inconsistent ''select sample superblock is before the sampled occurrence'')
       } else Some (Inr ()))
     })"

definition lv_check_samples :: "nat list \<Rightarrow> u32 list list \<Rightarrow> superblock_plain list \<Rightarrow> nat \<Rightarrow> unit \<Rightarrow> nat \<Rightarrow> (layout_error + unit) option" where
  "lv_check_samples n_occs_smaller select_samples superblocks last_superblock u symbol = do {
     samples \<leftarrow> idx select_samples symbol;
     occurrences \<leftarrow> chk_sub (n_occs_smaller ! (symbol + 1)) (n_occs_smaller ! symbol);
     let expected_samples = (if occurrences = 0 then 2 else (occurrences - 1) div 8192 + 2);
     rbind (reject (length samples \<noteq> expected_samples \<or> samples = [] \<or> last samples \<noteq> of_nat last_superblock
         \<or> list_ex (\<lambda>(a, b). a > b) (zip samples (tl samples)) \<or> list_ex (\<lambda>sample. unat sample > last_superblock) samples)
       (Inconsistent ''select samples do not match the level occurrence counts'')) (\<lambda>_.
     if occurrences = 0 then Some (Inr ())
     else foldR (lv_check_sample superblocks symbol) () (zip [0..<length samples - 1] (take (length samples - 1) samples)))
   }"

text \<open>The last loop, over all persisted counters.\<close>

definition lv_check_order_block :: "nat \<Rightarrow> superblock_plain \<Rightarrow> nat \<Rightarrow> nat \<Rightarrow> nat \<Rightarrow> (layout_error + nat) option" where
  "lv_check_order_block symbol superblock symbols_in_superblock previous_block block = do {
     rank \<leftarrow> sp_get_block_counter superblock symbol block;
     rbind (reject (rank < previous_block \<or> rank > symbols_in_superblock)
       (Inconsistent ''block rank counters must be monotone and in bounds'')) (\<lambda>_. Some (Inr rank))
   }"

definition lv_check_order_step :: "nat \<Rightarrow> nat \<Rightarrow> nat \<Rightarrow> nat \<Rightarrow> nat \<times> superblock_plain \<Rightarrow> (layout_error + nat) option" where
  "lv_check_order_step B len symbol previous isb = (
     let (index, superblock) = isb
     in do {
       prefix \<leftarrow> sp_get_superblock_counter superblock symbol;
       rbind (reject (prefix < previous \<or> prefix > len) (Inconsistent ''superblock rank counters must be monotone and in bounds'')) (\<lambda>_.
       rbind (reject (index > 0 \<and> prefix - previous > B * 8) (Inconsistent ''superblock rank delta exceeds superblock capacity'')) (\<lambda>_.
       let symbols_in_superblock = min (len - index * B * 8) (B * 8);
           valid_blocks = (if symbols_in_superblock = B * 8 then 8 else min (symbols_in_superblock div B + 1) 8)
       in rbind (foldR (lv_check_order_block symbol superblock symbols_in_superblock) 0 [0..<valid_blocks]) (\<lambda>_.
          Some (Inr prefix))))
     })"

text \<open>The checks on the parts, after the slices have been taken; \<open>n_data\<close> and \<open>n_sb\<close> are the counts of the entry.\<close>

definition lv_validate :: "nat \<Rightarrow> nat \<Rightarrow> nat \<Rightarrow> rsqv_view \<Rightarrow> (layout_error + unit) option" where
  "lv_validate B n_data n_sb v = (
     let data = lv_data v; superblocks = lv_superblocks v; select_samples = lv_select_samples v;
         n_occs_smaller = lv_n_occs_smaller v; position_bits = lv_position_bits v
     in rbind (reject (position_bits mod 2 \<noteq> 0) (Inconsistent ''position_bits must be even'')) (\<lambda>_.
     rbind (reject (position_bits > n_data * 512) (Inconsistent ''position_bits exceeds data capacity'')) (\<lambda>_.
     let len = position_bits div 2
     in rbind (reject (n_occs_smaller ! 0 \<noteq> 0 \<or> n_occs_smaller ! 4 \<noteq> len \<or> list_ex (\<lambda>(a, b). a > b) (zip n_occs_smaller (tl n_occs_smaller)))
       (Inconsistent ''child offsets must be monotone from zero through the level length'')) (\<lambda>_.
     let expected_superblocks = (len + B * 8) div (B * 8)
     in rbind (reject (n_sb \<noteq> expected_superblocks) (Inconsistent ''superblock count does not match the level length'')) (\<lambda>_.
     rbind (ok_or (Some (chk_sub n_sb 1)) (Inconsistent ''non-empty level must contain a superblock'')) (\<lambda>last_superblock.
     rbind (lv_check_blocks B data superblocks len [0, 0, 0, 0] [0, 0, 0, 0] 0) (\<lambda>(totals, superblock_base).
     let current_superblock = len div (B * 8); sentinel_block = len div B mod 8 + 1
     in rbind (if sentinel_block < 8 then do {
           superblock \<leftarrow> idx superblocks current_superblock;
           lv_block_counters superblock sentinel_block totals superblock_base ''sentinel block counter disagrees with encoded symbols''
         } else Some (Inr ())) (\<lambda>_.
     rbind (foldR (\<lambda>u symbol. do {
           d \<leftarrow> chk_sub (n_occs_smaller ! (symbol + 1)) (n_occs_smaller ! symbol);
           reject (d \<noteq> totals ! symbol) (Inconsistent ''child offsets disagree with encoded symbol counts'')
         }) () [0..<4]) (\<lambda>_.
     rbind (foldR (lv_check_samples n_occs_smaller select_samples superblocks last_superblock) () [0..<4]) (\<lambda>_.
     foldR (\<lambda>u symbol. rbind (foldR (lv_check_order_step B len symbol) 0 (zip [0..<length superblocks] superblocks)) (\<lambda>_. Some (Inr ())))
       () [0..<4]))))))))))"

definition lv_from_dir :: "nat \<Rightarrow> nat \<Rightarrow> u8 list \<Rightarrow> level_dir \<Rightarrow> (layout_error + rsqv_view) option" where
  "lv_from_dir B base bytes dir = do {
     guard (B = 256 \<or> B = 512);
     let data_off = unat (ld_off_data dir);
     let sb_off = unat (ld_off_superblocks dir);
     let n_data = unat (ld_n_datalines dir);
     let n_sb = unat (ld_n_superblocks dir);
     rbind (reject (data_off mod 64 \<noteq> 0 \<or> sb_off mod 64 \<noteq> 0) Misaligned) (\<lambda>_.
     rbind (lv_slice base bytes data_off n_data 64 64 dl_of) (\<lambda>data.
     rbind (lv_slice base bytes sb_off n_sb 64 64 sp_of) (\<lambda>superblocks.
     rbind (foldR (lv_sample_step base bytes dir) [] [0..<4]) (\<lambda>select_samples.
     let v = \<lparr>lv_data = data, lv_superblocks = superblocks, lv_select_samples = select_samples,
           lv_position_bits = unat (ld_position_bits dir), lv_n_occs_smaller = map unat (ld_n_occs_smaller dir)\<rparr>
     in rbind (lv_validate B n_data n_sb v) (\<lambda>_. Some (Inr v))))))
   }"

text \<open>The vector a view shows.\<close>

definition lv_vec :: "rsqv_view \<Rightarrow> rs_support_plain rs_qvector" where
  "lv_vec v = \<lparr>rq_qv = \<lparr>qv_data = lv_data v, qv_position = lv_position_bits v\<rparr>,
     rq_rs_support = \<lparr>rp_superblocks = lv_superblocks v, rp_select_samples = lv_select_samples v\<rparr>,
     rq_n_occs_smaller = lv_n_occs_smaller v\<rparr>"

end
