(* ===== verification/LevelViewCheck.thy ===== *)
theory LevelViewCheck
  imports LevelView
begin

text \<open>
  The checks of \<open>RSQVectorView::from_dir\<close>: they pass exactly when every persisted counter, sample and offset is
  the one the symbols give, so an accepted view is a well-formed quad vector, and the view of a well-formed one is accepted.
\<close>

unbundle bit_operations_syntax

section \<open>Counting\<close>

abbreviation totals_at :: "nat list \<Rightarrow> nat \<Rightarrow> nat list" where
  "totals_at xs p \<equiv> map (\<lambda>c. rank_of xs c p) [0..<4]"

lemma or_255: "(p :: nat) OR 255 = p div 256 * 256 + 255"
proof -
  have "p div 256 * 256 + 255 = push_bit 8 (drop_bit 8 p) + mask 8" by (simp add: push_bit_eq_mult drop_bit_eq_div mask_eq_exp_minus_1)
  also have "\<dots> = push_bit 8 (drop_bit 8 p) OR mask 8"
    by (rule disjunctive_add) (auto simp: bit_push_bit_iff bit_mask_iff)
  also have "\<dots> = p OR mask 8"
    by (rule bit_eqI) (auto simp: bit_or_iff bit_push_bit_iff bit_drop_bit_eq bit_mask_iff)
  finally show ?thesis by (simp add: mask_eq_exp_minus_1)
qed

lemma count_lines_eq:
  assumes qv: "qv_ok qv" and p: "p \<le> be" "be \<le> qv_len qv"
  shows "lv_count_lines (qv_data qv) be (totals_at (qv_list qv) p) p = Some (Inr (totals_at (qv_list qv) be))"
  using p
proof (induction "be - p" arbitrary: p rule: less_induct)
  case less
  let ?xs = "qv_list qv"
  show ?case
  proof (cases "p < be")
    case False
    then have "p = be" using less.prems by simp
    then show ?thesis by (simp add: lv_count_lines.simps [of _ be])
  next
    case True
    define l where "l = p div 256"
    define e where "e = min be (l * 256 + 256)"
    let ?line = "qv_data qv ! l"
    have l: "l * 256 \<le> p" "p < l * 256 + 256" using dividend_less_div_times [of 256 p] by (simp_all add: l_def)
    have e: "p < e" "e \<le> be" "e \<le> l * 256 + 256" "e \<le> qv_len qv" using True l(2) less.prems by (auto simp: e_def)
    have ll: "l < length (qv_data qv)" unfolding l_def using qv_len_line [OF qv, of p] True less.prems by simp
    have m: "p mod 256 = p - l * 256" by (simp add: l_def minus_div_mult_eq_mod)
    have r: "rank_of ?xs c q = rank_of ?xs c (l * 256) + cntp (\<lambda>j. dl_sym ?line j = c) (q - l * 256)"
      if "q \<le> qv_len qv" "l * 256 \<le> q" "q \<le> l * 256 + 256" for c q by (rule qv_rank_line [OF qv that])
    let ?cn = "\<lambda>q. map (\<lambda>c. cntp (\<lambda>j. dl_sym ?line j = c) q) [0..<4]"
    have e_r: "dl_rank_all_unchecked ?line (p mod 256 + (e - p)) = Some (?cn (e - l * 256))"
      using dl_rank_all_unchecked_eq [OF qv_line_ok [OF qv ll], of "e - l * 256"] e l m by simp
    have s_r: "(if p mod 256 = 0 then Some [0, 0, 0, 0] else dl_rank_all_unchecked ?line (p mod 256)) = Some (?cn (p - l * 256))"
    proof (cases "p mod 256 = 0")
      case True
      then have "p - l * 256 = 0" using m by simp
      then show ?thesis using True by (simp add: upt_4)
    next
      case False
      then show ?thesis using dl_rank_all_unchecked_eq [OF qv_line_ok [OF qv ll], of "p - l * 256"] l m by simp
    qed
    have tot: "those (map (\<lambda>symbol. do { d \<leftarrow> chk_sub (?cn (e - l * 256) ! symbol) (?cn (p - l * 256) ! symbol); Some (totals_at ?xs p ! symbol + d) }) [0..<4])
      = Some (totals_at ?xs e)"
    proof (rule those_map_Some)
      fix c :: nat assume "c \<in> set [0..<4]"
      moreover have "cntp (\<lambda>j. dl_sym ?line j = c) (p - l * 256) \<le> cntp (\<lambda>j. dl_sym ?line j = c) (e - l * 256)"
        using e by (intro cntp_mono) simp
      ultimately show "do { d \<leftarrow> chk_sub (?cn (e - l * 256) ! c) (?cn (p - l * 256) ! c); Some (totals_at ?xs p ! c + d) } = Some (rank_of ?xs c e)"
        using r [of e c] r [of p c] e l less.prems True by simp
    qed
    have me: "min be (Suc (p OR 255)) = e" by (simp add: or_255 e_def l_def)
    have "lv_count_lines (qv_data qv) be (totals_at ?xs p) p = lv_count_lines (qv_data qv) be (totals_at ?xs e) e"
      using True ll e e_r s_r tot
      by (subst lv_count_lines.simps) (simp add: Let_def me l_def [symmetric])
    then show ?thesis using less.hyps [of e] e True less.prems by simp
  qed
qed

section \<open>Blocks\<close>

text \<open>What the loop checks at the start of block \<open>m\<close>.\<close>

definition block_good :: "nat \<Rightarrow> superblock_plain list \<Rightarrow> nat list \<Rightarrow> nat \<Rightarrow> bool" where
  "block_good B sbs xs m \<longleftrightarrow> m div 8 < length sbs \<and> (\<forall>c<4.
     (m mod 8 = 0 \<longrightarrow> sp_base (sbs ! (m div 8)) c = rank_of xs c (m * B))
     \<and> sp_block (sbs ! (m div 8)) c (m mod 8) = rank_of xs c (m * B) - rank_of xs c (m div 8 * 8 * B))"

lemma foldR_reject:
  assumes "\<And>u x. x \<in> set xs \<Longrightarrow> f u x = Some (if ok x then Inr () else Inl (e x))"
  shows "\<exists>res. foldR f () xs = Some res \<and> (case res of Inl _ \<Rightarrow> \<exists>x\<in>set xs. \<not> ok x | Inr _ \<Rightarrow> \<forall>x\<in>set xs. ok x)"
  using assms by (induction xs) (auto split: sum.splits)

lemma reject_if: "reject b e = Some (if \<not> b then Inr () else Inl e)"
  by (simp add: reject_def)

lemma check_superblock_eq:
  assumes sb: "\<forall>x\<in>set sbs. sp_ok x" and B: "0 < B" and p: "p = m * B"
  shows "\<exists>res. lv_check_superblock B sbs p (totals_at xs p) (totals_at xs b) = Some res \<and> (case res of
    Inl _ \<Rightarrow> m mod 8 = 0 \<and> (length sbs \<le> m div 8 \<or> (\<exists>c<4. sp_base (sbs ! (m div 8)) c \<noteq> rank_of xs c p))
    | Inr b' \<Rightarrow> if m mod 8 = 0 then b' = totals_at xs p \<and> m div 8 < length sbs \<and> (\<forall>c<4. sp_base (sbs ! (m div 8)) c = rank_of xs c p)
      else b' = totals_at xs b)"
proof -
  have md: "p mod (B * 8) = 0 \<longleftrightarrow> m mod 8 = 0" "p div (B * 8) = m div 8"
    using B by (simp_all add: p mult.commute [of m B])
  show ?thesis
  proof (cases "m mod 8 = 0 \<and> m div 8 < length sbs")
    case True
    then have ok: "sp_ok (sbs ! (m div 8))" using sb by simp
    let ?f = "\<lambda>u symbol. do {
                counter \<leftarrow> sp_get_superblock_counter (sbs ! (m div 8)) symbol;
                reject (counter \<noteq> totals_at xs p ! symbol) (Inconsistent ''superblock rank counter disagrees with encoded symbols'')
              }"
    have "?f u c = Some (if sp_base (sbs ! (m div 8)) c = rank_of xs c p then Inr () else Inl (Inconsistent ''superblock rank counter disagrees with encoded symbols''))"
      if "c \<in> set [0..<4]" for u :: unit and c using that ok by (simp add: sp_get_superblock_counter_eq reject_if)
    from foldR_reject [of "[0..<4]" ?f, OF this]
    obtain res where res: "foldR ?f () [0..<4] = Some res"
      "case res of Inl _ \<Rightarrow> \<exists>c\<in>set [0..<4]. sp_base (sbs ! (m div 8)) c \<noteq> rank_of xs c p | Inr _ \<Rightarrow> \<forall>c\<in>set [0..<4]. sp_base (sbs ! (m div 8)) c = rank_of xs c p"
      by blast
    have "lv_check_superblock B sbs p (totals_at xs p) (totals_at xs b) = rbind (Some res) (\<lambda>_. Some (Inr (totals_at xs p)))"
      using True md res(1) by (simp add: lv_check_superblock_def del: foldR.simps)
    then show ?thesis using res(2) True by (cases res) auto
  next
    case False
    then show ?thesis using md by (auto simp: lv_check_superblock_def)
  qed
qed

lemma block_counters_eq:
  assumes sb: "sp_ok s" and k: "k < 8" and bp: "b \<le> p"
  shows "\<exists>res. lv_block_counters s k (totals_at xs p) (totals_at xs b) msg = Some res \<and> (case res of
    Inl _ \<Rightarrow> \<exists>c<4. sp_block s c k \<noteq> rank_of xs c p - rank_of xs c b
    | Inr _ \<Rightarrow> \<forall>c<4. sp_block s c k = rank_of xs c p - rank_of xs c b)"
proof -
  let ?f = "\<lambda>u symbol. do {
       counter \<leftarrow> sp_get_block_counter s symbol k;
       d \<leftarrow> chk_sub (totals_at xs p ! symbol) (totals_at xs b ! symbol);
       reject (counter \<noteq> d) (Inconsistent msg)
     }"
  have "?f u c = Some (if sp_block s c k = rank_of xs c p - rank_of xs c b then Inr () else Inl (Inconsistent msg))"
    if "c \<in> set [0..<4]" for u :: unit and c
    using that sb k rank_of_mono [OF bp, of xs c] by (simp add: sp_get_block_counter_eq reject_if)
  from foldR_reject [of "[0..<4]" ?f, OF this] show ?thesis
    by (auto simp: lv_block_counters_def Bex_def Ball_def simp del: foldR.simps split: sum.splits)
qed

lemma check_blocks_step:
  assumes sb: "\<forall>x\<in>set sbs. sp_ok x" and B: "0 < B" and p: "p = m * B" and b: "m mod 8 \<noteq> 0 \<Longrightarrow> b = m div 8 * 8 * B"
  shows "(\<exists>e. rbind (lv_check_superblock B sbs p (totals_at xs p) (totals_at xs b)) (\<lambda>b'. rbind (lv_check_block B sbs p (totals_at xs p) b') (\<lambda>_. k b'))
        = Some (Inl e) \<and> \<not> block_good B sbs xs m)
    \<or> (rbind (lv_check_superblock B sbs p (totals_at xs p) (totals_at xs b)) (\<lambda>b'. rbind (lv_check_block B sbs p (totals_at xs p) b') (\<lambda>_. k b'))
        = k (totals_at xs (m div 8 * 8 * B)) \<and> block_good B sbs xs m)"
proof -
  let ?j = "m div 8"
  have md: "p mod B = 0" "p div (B * 8) = ?j" "p div B mod 8 = m mod 8" using B by (simp_all add: p mult.commute [of m B])
  have le: "?j * 8 * B \<le> p" unfolding p by (intro mult_le_mono1) simp
  have same: "m mod 8 = 0 \<Longrightarrow> ?j * 8 * B = p" unfolding p using div_mult_mod_eq [of m 8] by simp
  obtain r1 where r1: "lv_check_superblock B sbs p (totals_at xs p) (totals_at xs b) = Some r1" "case r1 of
    Inl _ \<Rightarrow> m mod 8 = 0 \<and> (length sbs \<le> ?j \<or> (\<exists>c<4. sp_base (sbs ! ?j) c \<noteq> rank_of xs c p))
    | Inr b' \<Rightarrow> if m mod 8 = 0 then b' = totals_at xs p \<and> ?j < length sbs \<and> (\<forall>c<4. sp_base (sbs ! ?j) c = rank_of xs c p) else b' = totals_at xs b"
    using check_superblock_eq [OF sb B p, of xs b] by blast
  show ?thesis
  proof (cases r1)
    case (Inl e)
    then have "\<not> block_good B sbs xs m" using r1(2) p by (auto simp: block_good_def)
    then show ?thesis using Inl r1(1) by simp
  next
    case (Inr b')
    then have b': "b' = totals_at xs (?j * 8 * B)" and g1: "m mod 8 = 0 \<Longrightarrow> \<forall>c<4. sp_base (sbs ! ?j) c = rank_of xs c p"
      using r1(2) same b by (auto split: if_splits)
    show ?thesis
    proof (cases "?j < length sbs")
      case False
      then have "lv_check_block B sbs p (totals_at xs p) b' = Some (Inl (Inconsistent ''missing superblock for block counter''))"
        using md by (simp add: lv_check_block_def)
      then show ?thesis using False Inr r1(1) by (simp add: block_good_def)
    next
      case True
      then have ok: "sp_ok (sbs ! ?j)" using sb by simp
      obtain r2 where r2: "lv_block_counters (sbs ! ?j) (m mod 8) (totals_at xs p) (totals_at xs (?j * 8 * B)) ''block rank counter disagrees with encoded symbols'' = Some r2"
        "case r2 of Inl _ \<Rightarrow> \<exists>c<4. sp_block (sbs ! ?j) c (m mod 8) \<noteq> rank_of xs c p - rank_of xs c (?j * 8 * B)
          | Inr _ \<Rightarrow> \<forall>c<4. sp_block (sbs ! ?j) c (m mod 8) = rank_of xs c p - rank_of xs c (?j * 8 * B)"
        using block_counters_eq [OF ok _ le, of "m mod 8" xs "''block rank counter disagrees with encoded symbols''"] by auto
      have blk: "lv_check_block B sbs p (totals_at xs p) b' = Some r2" using True md r2(1) by (simp add: lv_check_block_def b')
      show ?thesis
      proof (cases r2)
        case (Inl e)
        then have "\<not> block_good B sbs xs m" using r2(2) p by (auto simp: block_good_def)
        then show ?thesis using Inl Inr r1(1) blk by simp
      next
        case (Inr u)
        then have "block_good B sbs xs m" using r2(2) g1 True p by (auto simp: block_good_def)
        then show ?thesis using Inr \<open>r1 = Inr b'\<close> r1(1) blk b' by simp
      qed
    qed
  qed
qed

lemma check_blocks_eq:
  assumes qv: "qv_ok qv" and sb: "\<forall>x\<in>set sbs. sp_ok x" and B: "0 < B" and p: "p \<le> qv_len qv"
    "B dvd p \<or> p = qv_len qv" "\<not> 8 * B dvd p \<Longrightarrow> b = p div (8 * B) * (8 * B)"
  shows "\<exists>res. lv_check_blocks B (qv_data qv) sbs (qv_len qv) (totals_at (qv_list qv) p) (totals_at (qv_list qv) b) p = Some res \<and> (case res of
    Inl _ \<Rightarrow> \<exists>m. p \<le> m * B \<and> m * B \<le> qv_len qv \<and> \<not> block_good B sbs (qv_list qv) m
    | Inr TB \<Rightarrow> TB = (totals_at (qv_list qv) (qv_len qv), totals_at (qv_list qv) (qv_len qv div (8 * B) * (8 * B)))
        \<and> (\<forall>m. p \<le> m * B \<and> m * B \<le> qv_len qv \<longrightarrow> block_good B sbs (qv_list qv) m))"
  using p
proof (induction "qv_len qv - p" arbitrary: p b rule: less_induct)
  case less
  let ?xs = "qv_list qv" and ?n = "qv_len qv"
  show ?case
  proof (cases "B dvd p")
    case False
    then have n: "p = ?n" using less.prems(2) by blast
    have nd: "\<not> 8 * B dvd p" using False dvd_mult_right by blast
    then have b: "b = p div (8 * B) * (8 * B)" by (rule less.prems(3))
    have s: "lv_check_superblock B sbs p (totals_at ?xs p) (totals_at ?xs b) = Some (Inr (totals_at ?xs b))"
      using nd by (simp add: lv_check_superblock_def mult.commute [of B 8] mod_eq_0_iff_dvd)
    have k: "lv_check_block B sbs p (totals_at ?xs p) (totals_at ?xs b) = Some (Inr ())"
      using False by (simp add: lv_check_block_def mod_eq_0_iff_dvd)
    have "lv_check_blocks B (qv_data qv) sbs ?n (totals_at ?xs p) (totals_at ?xs b) p = Some (Inr (totals_at ?xs p, totals_at ?xs b))"
      by (subst lv_check_blocks.simps) (simp add: s k n [symmetric])
    moreover have "\<forall>m. \<not> (p \<le> m * B \<and> m * B \<le> ?n)" using False n by (metis dvd_triv_right le_antisym)
    moreover have "(totals_at ?xs p, totals_at ?xs b) = (totals_at ?xs ?n, totals_at ?xs (?n div (8 * B) * (8 * B)))" using b n by simp
    ultimately show ?thesis by (intro exI [of _ "Inr (totals_at ?xs p, totals_at ?xs b)"]) (simp only: sum.case, blast)
  next
    case True
    then obtain m where m: "p = m * B" by (metis dvdE mult.commute)
    let ?j = "m div 8"
    let ?b = "?j * 8 * B"
    have b: "m mod 8 \<noteq> 0 \<Longrightarrow> b = ?b"
    proof -
      assume ne: "m mod 8 \<noteq> 0"
      have "p div (8 * B) = m div 8" using B m div_mult2_eq [of "m * B" B 8] by (simp add: mult.commute)
      moreover have "\<not> 8 * B dvd p" using ne B m by (simp add: dvd_eq_mod_eq_0)
      ultimately show "b = ?b" using less.prems(3) by simp
    qed
    define k where "k = (\<lambda>b'. if p = ?n then Some (Inr (totals_at ?xs p, b'))
       else let block_end = min (p + B) ?n in rbind (lv_count_lines (qv_data qv) block_end (totals_at ?xs p) p) (\<lambda>totals.
           lv_check_blocks B (qv_data qv) sbs ?n totals b' block_end))"
    have unf: "lv_check_blocks B (qv_data qv) sbs ?n (totals_at ?xs p) (totals_at ?xs b) p
      = rbind (lv_check_superblock B sbs p (totals_at ?xs p) (totals_at ?xs b)) (\<lambda>b'. rbind (lv_check_block B sbs p (totals_at ?xs p) b') (\<lambda>_. k b'))"
      by (subst lv_check_blocks.simps) (simp add: k_def)
    consider (bad) e where "lv_check_blocks B (qv_data qv) sbs ?n (totals_at ?xs p) (totals_at ?xs b) p = Some (Inl e)" "\<not> block_good B sbs ?xs m"
      | (good) "lv_check_blocks B (qv_data qv) sbs ?n (totals_at ?xs p) (totals_at ?xs b) p = k (totals_at ?xs ?b)" "block_good B sbs ?xs m"
      using check_blocks_step [OF sb B m b, of xs k] check_blocks_step [OF sb B m b, of ?xs k] unf by auto
    then show ?thesis
    proof cases
      case bad
      then show ?thesis using less.prems(1) m by (intro exI [of _ "Inl e"]) auto
    next
      case good
      show ?thesis
      proof (cases "p = ?n")
        case True
        have "?n div (8 * B) * (8 * B) = ?b" using B m True div_mult2_eq [of "m * B" B 8] by (simp add: mult.commute)
        moreover have "m' = m" if h: "p \<le> m' * B \<and> m' * B \<le> ?n" for m'
        proof -
          have "m' * B = m * B" using h True m by (metis le_antisym)
          then show ?thesis using B by simp
        qed
        ultimately show ?thesis using good True by (intro exI [of _ "Inr (totals_at ?xs p, totals_at ?xs ?b)"]) (auto simp: k_def mult.assoc)
      next
        case False
        define e where "e = min (p + B) ?n"
        have e: "p < e" "e \<le> ?n" using False less.prems(1) B by (simp_all add: e_def)
        have k: "k (totals_at ?xs ?b) = lv_check_blocks B (qv_data qv) sbs ?n (totals_at ?xs e) (totals_at ?xs ?b) e"
          using False e count_lines_eq [OF qv, of p e] by (simp add: k_def e_def [symmetric])
        have "?b = e div (8 * B) * (8 * B)" if nd: "\<not> 8 * B dvd e"
        proof -
          have "e div B div 8 = ?j"
          proof (cases "e = p + B")
            case True
            then have "e = Suc m * B" using m by simp
            moreover from this have "\<not> 8 dvd Suc m" using nd mult_dvd_mono [of 8 "Suc m" B B] by auto
            ultimately have "e div B = Suc m" "\<not> 8 dvd Suc m" using B by (simp_all del: mult_Suc)
            then show ?thesis by (simp add: div_Suc dvd_eq_mod_eq_0)
          next
            case F: False
            then have "e < Suc m * B" using m e_def by auto
            then have "e div B = m" using e(1) m B by (intro div_nat_eqI) (simp_all add: mult.commute)
            then show ?thesis by simp
          qed
          then show ?thesis by (simp add: div_mult2_eq mult.commute [of 8 B] mult.assoc)
        qed
        moreover have "B dvd e \<or> e = ?n" using m by (auto simp: e_def min_def)
        ultimately have ih: "\<exists>res. lv_check_blocks B (qv_data qv) sbs ?n (totals_at ?xs e) (totals_at ?xs ?b) e = Some res \<and> (case res of
          Inl _ \<Rightarrow> \<exists>m. e \<le> m * B \<and> m * B \<le> ?n \<and> \<not> block_good B sbs ?xs m
          | Inr TB \<Rightarrow> TB = (totals_at ?xs ?n, totals_at ?xs (?n div (8 * B) * (8 * B)))
            \<and> (\<forall>m. e \<le> m * B \<and> m * B \<le> ?n \<longrightarrow> block_good B sbs ?xs m))"
          using e by (intro less.hyps) auto
        have nxt: "p \<le> m' * B \<and> m' * B \<le> ?n \<longleftrightarrow> m' = m \<or> e \<le> m' * B \<and> m' * B \<le> ?n" for m'
        proof -
          have "e \<le> m' * B" if "p \<le> m' * B" "m' \<noteq> m"
          proof -
            have "Suc m \<le> m'" using that B by (simp add: m)
            then show ?thesis using mult_le_mono1 [of "Suc m" m' B] m by (simp add: e_def)
          qed
          moreover have "p \<le> m' * B" if "e \<le> m' * B" using that e(1) by linarith
          ultimately show ?thesis using less.prems(1) m by blast
        qed
        obtain res where res: "lv_check_blocks B (qv_data qv) sbs ?n (totals_at ?xs e) (totals_at ?xs ?b) e = Some res" "case res of
          Inl _ \<Rightarrow> \<exists>m. e \<le> m * B \<and> m * B \<le> ?n \<and> \<not> block_good B sbs ?xs m
          | Inr TB \<Rightarrow> TB = (totals_at ?xs ?n, totals_at ?xs (?n div (8 * B) * (8 * B)))
            \<and> (\<forall>m. e \<le> m * B \<and> m * B \<le> ?n \<longrightarrow> block_good B sbs ?xs m)" using ih by blast
        have "case res of Inl _ \<Rightarrow> \<exists>m. p \<le> m * B \<and> m * B \<le> ?n \<and> \<not> block_good B sbs ?xs m
          | Inr TB \<Rightarrow> TB = (totals_at ?xs ?n, totals_at ?xs (?n div (8 * B) * (8 * B)))
            \<and> (\<forall>m. p \<le> m * B \<and> m * B \<le> ?n \<longrightarrow> block_good B sbs ?xs m)"
        proof (cases res)
          case (Inl err)
          then show ?thesis using res(2) nxt by (simp only: sum.case) blast
        next
          case (Inr TB)
          then show ?thesis using res(2) nxt good(2) by (simp only: sum.case) blast
        qed
        then show ?thesis using good(1) k res(1) by auto
      qed
    qed
  qed
qed

section \<open>Offsets and samples\<close>

lemma n_occs_iff:
  assumes "length ns = 5" "\<forall>x\<in>set xs. x < 4"
  shows "ns = n_occs_of xs \<longleftrightarrow> ns ! 0 = 0 \<and> (\<forall>c<4. ns ! c \<le> ns ! (c + 1) \<and> ns ! (c + 1) - ns ! c = count_list xs c)"
proof
  assume "ns = n_occs_of xs"
  then show "ns ! 0 = 0 \<and> (\<forall>c<4. ns ! c \<le> ns ! (c + 1) \<and> ns ! (c + 1) - ns ! c = count_list xs c)"
    by (auto simp: n_occs_of_def smaller_of_Suc simp del: upt_Suc)
next
  assume h: "ns ! 0 = 0 \<and> (\<forall>c<4. ns ! c \<le> ns ! (c + 1) \<and> ns ! (c + 1) - ns ! c = count_list xs c)"
  have "i < 5 \<Longrightarrow> ns ! i = smaller_of xs i" for i
  proof (induction i)
    case 0
    then show ?case using h by (simp add: smaller_of_def)
  next
    case (Suc i)
    then have "ns ! i \<le> ns ! (i + 1)" "ns ! (i + 1) - ns ! i = count_list xs i" using h by auto
    then show ?case using Suc by (simp add: smaller_of_Suc)
  qed
  then show "ns = n_occs_of xs" using assms(1) by (intro nth_equalityI) (simp_all add: n_occs_of_def)
qed

lemma expected_samples:
  "(if m = 0 then 2 else (m - 1) div 8192 + 2) = max 1 (div_ceil m 8192) + 1"
proof (cases "m = 0")
  case False
  then obtain k where k: "m = Suc k" by (cases m) auto
  have "div_ceil (Suc k) 8192 = k div 8192 + 1" by (simp add: div_ceil_def div_Suc mod_Suc)
  then show ?thesis using k by simp
qed (simp add: div_ceil_def)

text \<open>The superblock a sample must name is the one of the sampled occurrence.\<close>

lemma sample_block:
  assumes S: "0 < S" and xs: "p < length xs" "xs ! p = c" "rank_of xs c p = t"
  shows "p div S = j \<longleftrightarrow> rank_of xs c (j * S) \<le> t \<and> j \<le> length xs div S \<and> (j < length xs div S \<longrightarrow> t < rank_of xs c (Suc j * S))"
proof
  assume j: "p div S = j"
  have le: "j * S \<le> p" "p < Suc j * S" using j S dividend_less_div_times [of S p] by (auto simp: add.commute)
  have "rank_of xs c (Suc p) \<le> rank_of xs c (Suc j * S)" using le(2) by (intro rank_of_mono) simp
  moreover have "j \<le> length xs div S" using j xs(1) by (simp add: div_le_mono less_imp_le flip: j)
  ultimately show "rank_of xs c (j * S) \<le> t \<and> j \<le> length xs div S \<and> (j < length xs div S \<longrightarrow> t < rank_of xs c (Suc j * S))"
    using rank_of_mono [OF le(1), of xs c] xs by (simp add: rank_of_Suc)
next
  assume h: "rank_of xs c (j * S) \<le> t \<and> j \<le> length xs div S \<and> (j < length xs div S \<longrightarrow> t < rank_of xs c (Suc j * S))"
  have "j * S \<le> p"
  proof (rule ccontr)
    assume "\<not> j * S \<le> p"
    then have "rank_of xs c (Suc p) \<le> rank_of xs c (j * S)" by (intro rank_of_mono) simp
    then show False using h xs by (simp add: rank_of_Suc)
  qed
  moreover have "p < Suc j * S"
  proof (cases "j < length xs div S")
    case True
    then show ?thesis using h xs(3) rank_of_mono [of "Suc j * S" p xs c] by (meson leD not_le_imp_less)
  next
    case False
    then have "length xs div S = j" using h by simp
    then show ?thesis using xs(1) dividend_less_div_times [OF S, of "length xs"] by (simp add: add.commute)
  qed
  ultimately show "p div S = j" by (intro div_nat_eqI) (simp_all add: mult.commute)
qed

section \<open>Soundness\<close>

definition view_shape :: "rsqv_view \<Rightarrow> bool" where
  "view_shape v \<longleftrightarrow> (\<forall>x\<in>set (lv_data v). dl_ok x) \<and> (\<forall>x\<in>set (lv_superblocks v). sp_ok x)
     \<and> length (lv_select_samples v) = 4 \<and> length (lv_n_occs_smaller v) = 5 \<and> length (lv_superblocks v) < 2 ^ 32"

text \<open>Good blocks and a good sentinel are the invariant of the superblocks.\<close>

lemma superblocks_inv:
  assumes B: "0 < B" and good: "\<And>m. m * B \<le> length xs \<Longrightarrow> block_good B sbs xs m" and sb: "\<forall>x\<in>set sbs. sp_ok x"
    and len: "length sbs = length xs div (8 * B) + 1"
    and sentinel: "length xs div B mod 8 + 1 < 8 \<Longrightarrow> \<forall>c<4. sp_block (sbs ! (length xs div (8 * B))) c (length xs div B mod 8 + 1)
      = rank_of xs c (length xs) - rank_of xs c (length xs div (8 * B) * (8 * B))"
    and j: "j < length sbs"
  shows "rp_superblock_inv B xs j (sbs ! j)"
proof -
  let ?n = "length xs"
  have jn: "j \<le> ?n div (8 * B)" using j len by simp
  then have "8 * j \<le> ?n div B" using div_mult2_eq [of ?n B 8] by (simp add: mult.commute [of 8 B] less_eq_div_iff_mult_less_eq mult.commute)
  then have j0: "(8 * j) * B \<le> ?n" using B by (simp add: less_eq_div_iff_mult_less_eq)
  have base: "sp_base (sbs ! j) c = rank_of xs c (j * (8 * B))" if "c < 4" for c
    using good [OF j0] that by (simp add: block_good_def mult.assoc mult.left_commute)
  have blk: "sp_block (sbs ! j) c k = rank_of xs c ((8 * j + k) * B) - rank_of xs c (j * (8 * B))"
    if "c < 4" "k < 8" "8 * j + k \<le> ?n div B + 1" for c k
  proof (cases "8 * j + k \<le> ?n div B")
    case True
    then have "(8 * j + k) * B \<le> ?n" using B by (simp add: less_eq_div_iff_mult_less_eq)
    from good [OF this] have g: "\<forall>c<4. sp_block (sbs ! ((8 * j + k) div 8)) c ((8 * j + k) mod 8)
        = rank_of xs c ((8 * j + k) * B) - rank_of xs c ((8 * j + k) div 8 * 8 * B)" by (simp add: block_good_def)
    have "(8 * j + k) div 8 = j" "(8 * j + k) mod 8 = k" using that(2) by simp_all
    then show ?thesis using g that(1) by (simp only: mult.assoc)
  next
    case False
    then have e: "8 * j + k = ?n div B + 1" using that(3) by simp
    then have k: "0 < k" using \<open>8 * j \<le> ?n div B\<close> by simp
    then have q: "?n div B = 8 * j + (k - 1)" using e by simp
    have d: "?n div (8 * B) = j" unfolding div_mult2_eq [of ?n B 8, simplified mult.commute [of B 8]] q using that(2) by simp
    have m: "?n div B mod 8 + 1 = k" unfolding q using that(2) k by (cases k) (simp_all add: mod_mult_self3)
    have "?n < (8 * j + k) * B" unfolding e using B dividend_less_div_times [of B ?n] by (simp add: add.commute)
    then have "rank_of xs c ((8 * j + k) * B) = rank_of xs c ?n" by (simp add: rank_of_def)
    then show ?thesis using sentinel that(1,2) d m by simp
  qed
  show ?thesis using sb j base blk by (simp add: rp_superblock_inv_def)
qed

lemma check_samples_total:
  assumes c: "c < 4" and ss: "length ss = 4" and ns: "ns ! c \<le> ns ! (c + 1)" and sb: "\<forall>x\<in>set sbs. sp_ok x" and len: "length sbs = Suc lst"
  shows "\<exists>res. lv_check_samples ns ss sbs lst u c = Some res"
proof -
  let ?s = "ss ! c"
  have step: "\<exists>r. lv_check_sample sbs c v (k, x) = Some r" if "unat x \<le> lst" for v k x
  proof -
    have ok: "sp_ok (sbs ! unat x)" "unat x < length sbs" using sb that len by auto
    have ok2: "sp_ok (sbs ! (unat x + 1))" if "unat x + 1 < length sbs" using sb that by auto
    show ?thesis using c ok ok2 by (auto simp: lv_check_sample_def Let_def sp_get_superblock_counter_eq reject_def rbind_def)
  qed
  have "\<exists>r. foldR (lv_check_sample sbs c) () (zip [0..<length ?s - 1] (take (length ?s - 1) ?s)) = Some r"
    if "\<not> list_ex (\<lambda>x. unat x > lst) ?s"
  proof (rule foldR_total)
    fix v and kx assume kx: "kx \<in> set (zip [0..<length ?s - 1] (take (length ?s - 1) ?s))"
    obtain k x where e: "kx = (k, x)" by force
    then have "x \<in> set ?s" using kx by (auto dest: set_zip_rightD in_set_takeD)
    then have "unat x \<le> lst" using that by (auto simp: list_ex_iff not_less)
    then show "\<exists>r. lv_check_sample sbs c v kx = Some r" using step e by simp
  qed
  then show ?thesis using c ss ns by (auto simp: lv_check_samples_def reject_def Let_def simp del: foldR.simps)
qed

lemma check_samples_sound:
  assumes c: "c < 4" and ss: "length ss = 4" and ns: "ns ! c \<le> ns ! (c + 1)" "ns ! (c + 1) - ns ! c = count_list xs c"
    and sb: "\<forall>x\<in>set sbs. sp_ok x" and len: "length sbs = Suc lst" "lst < 2 ^ 32" "lst = length xs div (8 * B)" and B: "0 < B"
    and base: "\<And>j. j < length sbs \<Longrightarrow> sp_base (sbs ! j) c = rank_of xs c (j * (8 * B))"
    and acc: "lv_check_samples ns ss sbs lst u c = Some (Inr ())"
  shows "rp_samples_inv B xs c (ss ! c)"
proof -
  let ?s = "ss ! c" and ?m = "count_list xs c"
  have rej: "length ?s = (if ?m = 0 then 2 else (?m - 1) div 8192 + 2)" "?s \<noteq> []" "last ?s = of_nat lst" "\<forall>x\<in>set ?s. unat x \<le> lst"
    and loop: "?m \<noteq> 0 \<Longrightarrow> foldR (lv_check_sample sbs c) () (zip [0..<length ?s - 1] (take (length ?s - 1) ?s)) = Some (Inr ())"
    using acc c ss ns by (auto simp: lv_check_samples_def Let_def rbind_Inr_iff reject_Inr_iff list_ex_iff not_less simp del: foldR.simps split: if_splits)
  have l: "length ?s = max 1 (div_ceil ?m 8192) + 1" using rej(1) expected_samples [of ?m] by simp
  have "unat (last ?s) = lst" unfolding rej(3) using len(2) by (simp add: unat_of_nat_small)
  then have lastv: "unat (?s ! (length ?s - 1)) = length xs div (8 * B)" using rej(2) len(3) by (simp add: last_conv_nth)
  have samp: "\<exists>p<length xs. xs ! p = c \<and> rank_of xs c p = s * 8192 \<and> unat (?s ! s) = p div (8 * B)" if s: "s * 8192 < ?m" for s
  proof -
    have "?m = cntp (\<lambda>j. xs ! j = c) (length xs)" using rank_of_cntp [of "length xs" xs c] by (simp add: rank_of_def)
    then obtain p where p: "p < length xs" "xs ! p = c" "cntp (\<lambda>j. xs ! j = c) p = s * 8192" using s cntp_ex [of "s * 8192" "\<lambda>j. xs ! j = c" "length xs"] by auto
    then have r: "rank_of xs c p = s * 8192" using rank_of_cntp [of p xs c] by simp
    have "s < length ?s - 1"
    proof -
      have "s \<le> (?m - 1) div 8192" using s by (simp add: less_eq_div_iff_mult_less_eq)
      then show ?thesis using rej(1) s by (cases "?m = 0") auto
    qed
    then have mem: "(s, ?s ! s) \<in> set (zip [0..<length ?s - 1] (take (length ?s - 1) ?s))" "s < length ?s"
      by (auto simp: set_zip intro!: exI [of _ s])
    let ?j = "unat (?s ! s)"
    have j: "?j \<le> lst" using rej(4) mem(2) by simp
    then have ok: "sp_ok (sbs ! ?j)" "?j < length sbs" using sb len by auto
    have ok2: "sp_ok (sbs ! (?j + 1))" if "?j + 1 < length sbs" using sb that by auto
    have "\<forall>kx\<in>set (zip [0..<length ?s - 1] (take (length ?s - 1) ?s)). lv_check_sample sbs c () kx = Some (Inr ())"
    proof -
      have m0: "?m \<noteq> 0" using s by auto
      have "foldR (lv_check_sample sbs c) () ys = Some (Inr ()) \<Longrightarrow> \<forall>kx\<in>set ys. lv_check_sample sbs c () kx = Some (Inr ())" for ys
        by (induction ys) (auto simp: rbind_Inr_iff)
      then show ?thesis using loop [OF m0] by blast
    qed
    then have "lv_check_sample sbs c () (s, ?s ! s) = Some (Inr ())" using mem(1) by blast
    then have "sp_base (sbs ! ?j) c \<le> s * 8192" "?j + 1 < length sbs \<Longrightarrow> s * 8192 < sp_base (sbs ! (?j + 1)) c"
      using c ok ok2 by (auto simp: lv_check_sample_def Let_def sp_get_superblock_counter_eq rbind_Inr_iff reject_Inr_iff not_less split: if_splits)
    then have "p div (8 * B) = ?j"
      using sample_block [of "8 * B" p xs c "s * 8192" ?j] B p(1,2) r base [OF ok(2)] base [of "?j + 1"] j len by simp
    then show ?thesis using p(1,2) r by auto
  qed
  show ?thesis using l lastv samp by (simp add: rp_samples_inv_def)
qed

end
