(* ===== verification/LevelViewSound.thy ===== *)
theory LevelViewSound
  imports LevelViewCheck
begin

text \<open>
  Opening a view returns on any bytes and any entry, and an opened view shows a well-formed quad vector; and the view
  of what was written for a well-formed vector opens.
\<close>

unbundle bit_operations_syntax

section \<open>An accepted view is well-formed\<close>

lemma rbind_result:
  assumes "\<exists>r. a = Some r" "\<And>x. a = Some (Inr x) \<Longrightarrow> \<exists>r. k x = Some r \<and> (\<forall>u. r = Inr u \<longrightarrow> P u)"
  shows "\<exists>r. rbind a k = Some r \<and> (\<forall>u. r = Inr u \<longrightarrow> P u)"
  using assms by (auto simp: rbind_def split: option.splits sum.splits)

lemma rbind_result_pair:
  assumes "\<exists>r. a = Some r" "\<And>x y. a = Some (Inr (x, y)) \<Longrightarrow> \<exists>r. k x y = Some r \<and> (\<forall>u. r = Inr u \<longrightarrow> P u)"
  shows "\<exists>r. rbind a (\<lambda>(x, y). k x y) = Some r \<and> (\<forall>u. r = Inr u \<longrightarrow> P u)"
  by (rule rbind_result [OF assms(1)]) (use assms(2) in auto)

lemma foldR_unit_all: "foldR f () xs = Some (Inr ()) \<longleftrightarrow> (\<forall>x\<in>set xs. f () x = Some (Inr ()))"
  by (induction xs) (auto simp: rbind_Inr_iff)

lemma windows_mono: "\<not> list_ex (\<lambda>(a, b). a > b) (zip xs (tl xs)) \<longleftrightarrow> (\<forall>i. i + 1 < length xs \<longrightarrow> xs ! i \<le> xs ! (i + 1))"
  for xs :: "'b::linorder list"
  by (auto simp: list_ex_iff all_set_conv_all_nth nth_tl not_less)

lemma order_total:
  assumes sb: "\<forall>x\<in>set sbs. sp_ok x" and c: "c < 4"
  shows "\<exists>r. foldR (lv_check_order_step B len c) 0 (zip [0..<length sbs] sbs) = Some r"
proof (rule foldR_total)
  fix previous ix assume ix: "ix \<in> set (zip [0..<length sbs] sbs)"
  obtain i x where e: "ix = (i, x)" by force
  then have ok: "sp_ok x" using ix sb by (auto dest: set_zip_rightD)
  show "\<exists>r. lv_check_order_step B len c previous ix = Some r"
    unfolding lv_check_order_step_def e Let_def prod.case sp_get_superblock_counter_eq [OF ok c] bind.bind_lunit
  proof (intro rbind_total reject_total foldR_total)
    fix s k assume "k \<in> set [0..<if min (len - i * B * 8) (B * 8) = B * 8 then 8 else min (min (len - i * B * 8) (B * 8) div B + 1) 8]"
    then have "k < 8" by (auto split: if_split_asm)
    then show "\<exists>r. lv_check_order_block c x (min (len - i * B * 8) (B * 8)) s k = Some r"
      by (auto simp: lv_check_order_block_def sp_get_block_counter_eq [OF ok c] intro!: rbind_total reject_total)
  qed auto
qed

lemma validate_result:
  assumes shape: "view_shape v" and B: "0 < B"
  shows "\<exists>r. lv_validate B (length (lv_data v)) (length (lv_superblocks v)) v = Some r \<and> (\<forall>u. r = Inr u \<longrightarrow> rq_ok (rp_inv B) (lv_vec v))"
proof -
  define qv where "qv = rq_qv (lv_vec v)"
  let ?xs = "qv_list qv" and ?n = "qv_len qv" and ?sbs = "lv_superblocks v" and ?ns = "lv_n_occs_smaller v" and ?ss = "lv_select_samples v"
  have qv: "qv_data qv = lv_data v" "lv_position_bits v div 2 = ?n" "qv_position qv = lv_position_bits v" by (simp_all add: qv_def lv_vec_def qv_len_def)
  have sb: "\<forall>x\<in>set ?sbs. sp_ok x" and ss: "length ?ss = 4" and ns: "length ?ns = 5" and small: "length ?sbs < 2 ^ 32"
    using shape by (simp_all add: view_shape_def)
  have xs: "length ?xs = ?n" "\<forall>x\<in>set ?xs. x < 4" by (auto simp: qv_list_def qv_sym_def)
  have qok: "qv_ok qv" if "even (lv_position_bits v)" "lv_position_bits v \<le> length (lv_data v) * 512"
    using that shape by (simp add: qv_ok_def qv view_shape_def)
  have blocks: "\<exists>res. lv_check_blocks B (lv_data v) ?sbs ?n [0, 0, 0, 0] [0, 0, 0, 0] 0 = Some res \<and> (\<forall>T b. res = Inr (T, b) \<longrightarrow>
      T = totals_at ?xs ?n \<and> b = totals_at ?xs (?n div (8 * B) * (8 * B)) \<and> (\<forall>m. m * B \<le> ?n \<longrightarrow> block_good B ?sbs ?xs m))" if "qv_ok qv"
  proof -
    have z: "[0, 0, 0, 0] = totals_at ?xs 0" by (simp add: upt_4)
    from check_blocks_eq [OF that sb B, of 0 0] obtain res where "lv_check_blocks B (lv_data v) ?sbs ?n (totals_at ?xs 0) (totals_at ?xs 0) 0 = Some res"
      "\<forall>T b. res = Inr (T, b) \<longrightarrow> T = totals_at ?xs ?n \<and> b = totals_at ?xs (?n div (8 * B) * (8 * B)) \<and> (\<forall>m. m * B \<le> ?n \<longrightarrow> block_good B ?sbs ?xs m)"
      unfolding qv(1) by (fastforce split: sum.splits)
    then show ?thesis unfolding z by blast
  qed
  have sentinel: "\<exists>res. lv_block_counters (?sbs ! (?n div (8 * B))) k (totals_at ?xs ?n) (totals_at ?xs (?n div (8 * B) * (8 * B))) msg = Some res
      \<and> (res = Inr () \<longrightarrow> (\<forall>c<4. sp_block (?sbs ! (?n div (8 * B))) c k = rank_of ?xs c ?n - rank_of ?xs c (?n div (8 * B) * (8 * B))))"
    if "length ?sbs = ?n div (8 * B) + 1" "k < 8" for k msg
  proof -
    have "sp_ok (?sbs ! (?n div (8 * B)))" using sb that(1) by simp
    from block_counters_eq [OF this that(2) div_times_less_eq_dividend, where xs = ?xs and msg = msg, of ?n "8 * B"] show ?thesis
      by (elim exE) (rename_tac res, case_tac res; simp)
  qed
  have good: "rq_ok (rp_inv B) (lv_vec v)"
    if ok: "qv_ok qv" and good: "\<And>m. m * B \<le> ?n \<Longrightarrow> block_good B ?sbs ?xs m" and len: "length ?sbs = ?n div (8 * B) + 1"
      and sent: "?n div B mod 8 + 1 < 8 \<Longrightarrow> \<forall>c<4. sp_block (?sbs ! (?n div (8 * B))) c (?n div B mod 8 + 1)
        = rank_of ?xs c ?n - rank_of ?xs c (?n div (8 * B) * (8 * B))"
      and occs: "?ns ! 0 = 0" "\<forall>c<4. ?ns ! c \<le> ?ns ! (c + 1) \<and> ?ns ! (c + 1) - ?ns ! c = rank_of ?xs c ?n"
      and samples: "\<forall>c<4. lv_check_samples ?ns ?ss ?sbs (?n div (8 * B)) () c = Some (Inr ())"
  proof -
    have inv: "rp_superblock_inv B ?xs j (?sbs ! j)" if "j < length ?sbs" for j
      by (rule superblocks_inv [OF B _ sb _ _ that]) (use good len sent xs(1) in simp_all)
    have cl: "rank_of ?xs c ?n = count_list ?xs c" for c by (simp add: rank_of_all xs(1))
    have "rp_samples_inv B ?xs c (?ss ! c)" if c: "c < 4" for c
    proof (rule check_samples_sound [OF c ss])
      show "?ns ! c \<le> ?ns ! (c + 1)" "?ns ! (c + 1) - ?ns ! c = count_list ?xs c" using occs(2) c cl by auto
      show "\<forall>x\<in>set ?sbs. sp_ok x" by (rule sb)
      show "length ?sbs = Suc (?n div (8 * B))" "?n div (8 * B) < 2 ^ 32" "?n div (8 * B) = length ?xs div (8 * B)" using len small xs(1) by simp_all
      show "0 < B" by (rule B)
      show "sp_base (?sbs ! j) c = rank_of ?xs c (j * (8 * B))" if "j < length ?sbs" for j
        using inv [OF that] c by (simp add: rp_superblock_inv_def)
      show "lv_check_samples ?ns ?ss ?sbs (?n div (8 * B)) () c = Some (Inr ())" using samples c by blast
    qed
    moreover have "?ns = n_occs_of ?xs" using n_occs_iff [OF ns xs(2)] occs cl by simp
    ultimately show ?thesis using ok inv len ss xs(1)
      by (simp add: rq_ok_def rp_inv_def rq_list_def qv_def [symmetric]) (simp add: lv_vec_def)
  qed
  have pre: "qv_ok qv" "?ns ! 0 = 0" "\<forall>c<4. ?ns ! c \<le> ?ns ! (c + 1)" "length ?sbs = ?n div (8 * B) + 1" "lst = ?n div (8 * B)"
    if "reject (lv_position_bits v mod 2 \<noteq> 0) e1 = Some (Inr u1)" "reject (lv_position_bits v > length (lv_data v) * 512) e2 = Some (Inr u2)"
      "reject (?ns ! 0 \<noteq> 0 \<or> ?ns ! 4 \<noteq> ?n \<or> list_ex (\<lambda>(a, b). a > b) (zip ?ns (tl ?ns))) e3 = Some (Inr u3)"
      "reject (length ?sbs \<noteq> (?n + B * 8) div (B * 8)) e4 = Some (Inr u4)" "ok_or (Some (chk_sub (length ?sbs) 1)) e5 = Some (Inr lst)"
    for u1 u2 u3 u4 lst and e1 e2 e3 e4 e5 :: layout_error
  proof -
    show "qv_ok qv" using that(1,2) by (intro qok) (simp_all add: reject_Inr_iff even_iff_mod_2_eq_zero)
    show "?ns ! 0 = 0" "\<forall>c<4. ?ns ! c \<le> ?ns ! (c + 1)" using that(3) ns by (simp_all add: reject_Inr_iff windows_mono)
    have "(?n + B * 8) div (B * 8) = ?n div (8 * B) + 1" using B div_add_self2 [of "B * 8" ?n] by (simp add: mult.commute)
    then show len: "length ?sbs = ?n div (8 * B) + 1" using that(4) by (simp add: reject_Inr_iff)
    then show "lst = ?n div (8 * B)" using that(5) by (simp add: chk_sub_def)
  qed
  show ?thesis
    unfolding lv_validate_def Let_def qv(2)
  proof (intro rbind_result_pair rbind_result reject_total ok_or_total, goal_cases)
    case h: (1 u1 u2 u3 u4 lst)
    show ?case using blocks [OF pre(1) [OF h]] by blast
  next
    case h: (2 u1 u2 u3 u4 lst T b)
    note p = pre [OF h(1-5)]
    have "T = totals_at ?xs ?n" "b = totals_at ?xs (?n div (8 * B) * (8 * B))" using blocks [OF p(1)] h(6) by auto
    moreover have "\<exists>r. lv_block_counters (?sbs ! (?n div (8 * B))) (?n div B mod 8 + 1) (totals_at ?xs ?n) (totals_at ?xs (?n div (8 * B) * (8 * B))) msg = Some r"
      if "?n div B mod 8 + 1 < 8" for msg using sentinel [OF p(4) that, of msg] by blast
    ultimately show ?case using p(4) by (auto simp: mult.commute [of B 8])
  next
    case h: (3 u1 u2 u3 u4 lst T b u5)
    note p = pre [OF h(1-5)]
    show ?case using p(3) by (intro foldR_total) (auto simp: chk_sub_def reject_def)
  next
    case h: (4 u1 u2 u3 u4 lst T b u5 u6)
    note p = pre [OF h(1-5)]
    show ?case
      by (intro foldR_total check_samples_total [OF _ ss _ sb]) (use p(3-5) in auto)
  next
    case h: (5 u1 u2 u3 u4 lst T b u5 u6 u7)
    note p = pre [OF h(1-5)]
    have T: "T = totals_at ?xs ?n" "b = totals_at ?xs (?n div (8 * B) * (8 * B))" and good': "\<And>m. m * B \<le> ?n \<Longrightarrow> block_good B ?sbs ?xs m"
      using blocks [OF p(1)] h(6) by auto
    have "rq_ok (rp_inv B) (lv_vec v)"
    proof (rule good [OF p(1) good' p(4) _ p(2)])
      show "\<forall>c<4. sp_block (?sbs ! (?n div (8 * B))) c (?n div B mod 8 + 1) = rank_of ?xs c ?n - rank_of ?xs c (?n div (8 * B) * (8 * B))"
        if k: "?n div B mod 8 + 1 < 8"
      proof -
        have "?n div (B * 8) < length ?sbs" using p(4) by (simp add: mult.commute)
        then have "lv_block_counters (?sbs ! (?n div (8 * B))) (?n div B mod 8 + 1) (totals_at ?xs ?n) (totals_at ?xs (?n div (8 * B) * (8 * B)))
          ''sentinel block counter disagrees with encoded symbols'' = Some (Inr u5)"
          using h(7) unfolding if_P [OF k] T by (simp add: mult.commute [of B 8])
        then show ?thesis using sentinel [OF p(4) k, of "''sentinel block counter disagrees with encoded symbols''"] by (cases u5) auto
      qed
      have "chk_sub (?ns ! (c + 1)) (?ns ! c) = Some (rank_of ?xs c ?n)" if "c < 4" for c
      proof -
        have "c \<in> set [0..<4]" using that by simp
        then have "do { d \<leftarrow> chk_sub (?ns ! (c + 1)) (?ns ! c); reject (d \<noteq> T ! c) (Inconsistent ''child offsets disagree with encoded symbol counts'') } = Some (Inr ())"
          using h(8) by (cases u6) (auto simp: foldR_unit_all)
        then show ?thesis using that p(3) by (simp add: T chk_sub_def reject_Inr_iff)
      qed
      then show "\<forall>c<4. ?ns ! c \<le> ?ns ! (c + 1) \<and> ?ns ! (c + 1) - ?ns ! c = rank_of ?xs c ?n" using p(3) by (auto simp: chk_sub_def)
      show "\<forall>c<4. lv_check_samples ?ns ?ss ?sbs (?n div (8 * B)) () c = Some (Inr ())"
        using h(9) p(5) by (cases u7) (auto simp: foldR_unit_all)
    qed
    moreover have "\<exists>r. foldR (\<lambda>u symbol. rbind (foldR (lv_check_order_step B ?n symbol) 0 (zip [0..<length ?sbs] ?sbs)) (\<lambda>_. Some (Inr ()))) () [0..<4] = Some r"
      by (intro foldR_total rbind_total order_total [OF sb]) auto
    ultimately show ?case by blast
  qed
qed

section \<open>Opening\<close>

context pod begin

lemma slice_result:
  shows "\<exists>r. lv_slice base bytes off n align sz dec = Some r"
    and "lv_slice base bytes off n align sz dec = Some (Inr xs) \<Longrightarrow> length xs = n \<and> (\<forall>x\<in>set xs. valid x)"
proof -
  let ?s = "take (n * sz) (drop off bytes)"
  have eq: "lv_slice base bytes off n align sz dec = (if off + n * sz < 2 ^ 64 \<and> off + n * sz \<le> length bytes
      then cast_slice align sz dec (base + off) ?s else Some (Inl Truncated))"
    by (simp add: lv_slice_def checked_region_eq range_of_def)
  show "\<exists>r. lv_slice base bytes off n align sz dec = Some r" unfolding eq using cast_result(1) by simp
  show "length xs = n \<and> (\<forall>x\<in>set xs. valid x)" if "lv_slice base bytes off n align sz dec = Some (Inr xs)"
  proof -
    have l: "length ?s = n * sz" and c: "cast_slice align sz dec (base + off) ?s = Some (Inr xs)"
      using that unfolding eq by (auto split: if_splits)
    show ?thesis using cast_result(2) [OF c] l sz_pos by simp
  qed
qed

lemma slice_image:
  assumes "bytes = P @ concat (map enc xs) @ Z" "length P = off" "length bytes < 2 ^ 64" "\<forall>x\<in>set xs. valid x" "(base + off) mod align = 0"
  shows "lv_slice base bytes off (length xs) align sz dec = Some (Inr xs)"
proof -
  have "range_of bytes off (off + length xs * sz) = Some (concat (map enc xs))"
    using assms(1,2) length_image [OF assms(4)] by (simp add: range_of_def)
  then show ?thesis
    using assms(1,2,3) length_image [OF assms(4)] cast_image [OF assms(4) disjI2 [OF assms(5)]]
    by (simp add: lv_slice_def checked_region_eq)
qed

end

lemma sample_steps_total:
  assumes "ld_ok dir"
  shows "(\<exists>e. foldR (lv_sample_step base bytes dir) [] [0..<4] = Some (Inl e))
    \<or> (\<exists>ss. foldR (lv_sample_step base bytes dir) [] [0..<4] = Some (Inr ss) \<and> length ss = 4)"
proof (rule foldR_inv [where Inv = "\<lambda>k ss. length ss = k"])
  fix k :: nat and ss :: "u32 list list" assume k: "k < 4" "length ss = k"
  obtain r where "lv_slice base bytes (unat (ld_off_sel dir ! k)) (unat (ld_n_sel dir ! k)) 4 4 from_le = Some (r :: layout_error + u32 list)"
    using word32.slice_result(1) by blast
  then show "(\<exists>e. lv_sample_step base bytes dir ss k = Some (Inl e)) \<or> (\<exists>s'. lv_sample_step base bytes dir ss k = Some (Inr s') \<and> length s' = Suc k)"
    using assms k by (cases r) (simp_all add: lv_sample_step_def ld_ok_def)
qed simp

lemma from_dir_result:
  assumes B: "B = 256 \<or> B = 512" and d: "ld_ok dir"
  shows "\<exists>r. lv_from_dir B base bytes dir = Some r \<and> (\<forall>v. r = Inr v \<longrightarrow> rq_ok (rp_inv B) (lv_vec v) \<and> lv_position_bits v < 2 ^ 64)"
proof -
  have g: "guard (B = 256 \<or> B = 512) = Some ()" using B by simp
  have ft: "\<exists>r. foldR (lv_sample_step base bytes dir) [] [0..<4] = Some r" using sample_steps_total [OF d, of base bytes] by blast
  have fin: "\<exists>r. rbind (lv_validate B (unat (ld_n_datalines dir)) (unat (ld_n_superblocks dir)) v) (\<lambda>_. Some (Inr v)) = Some r
      \<and> (\<forall>w. r = Inr w \<longrightarrow> rq_ok (rp_inv B) (lv_vec w) \<and> lv_position_bits w < 2 ^ 64)"
    if v: "v = \<lparr>lv_data = data, lv_superblocks = sbs, lv_select_samples = ss, lv_position_bits = unat (ld_position_bits dir),
        lv_n_occs_smaller = map unat (ld_n_occs_smaller dir)\<rparr>"
      and data: "length data = unat (ld_n_datalines dir) \<and> (\<forall>x\<in>set data. dl_ok x)"
      and sbs: "length sbs = unat (ld_n_superblocks dir) \<and> (\<forall>x\<in>set sbs. sp_ok x)" and ss: "length ss = 4" for v data sbs ss
  proof -
    have "length sbs < 2 ^ 32" using sbs unsigned_less [of "ld_n_superblocks dir", where 'a = nat] by simp
    then have shape: "view_shape v" using data sbs ss d by (simp add: view_shape_def v ld_ok_def)
    have "lv_position_bits v < 2 ^ 64" using unsigned_less [of "ld_position_bits dir", where 'a = nat] by (simp add: v)
    moreover have "0 < B" using B by auto
    ultimately show ?thesis
      using validate_result [OF shape, of B] data sbs by (fastforce simp: v rbind_def split: sum.splits)
  qed
  show ?thesis
    unfolding lv_from_dir_def Let_def g bind.bind_lunit
  proof (rule rbind_result [OF reject_total], rule rbind_result [OF dl.slice_result(1)], rule rbind_result [OF sb.slice_result(1)],
      rule rbind_result [OF ft], goal_cases)
    case h: (1 u data sbs ss)
    have "length ss = 4" using sample_steps_total [OF d, of base bytes] h(4) by auto
    then show ?case by (intro fin [OF refl dl.slice_result(2) [OF h(2)] sb.slice_result(2) [OF h(3)]])
  qed
qed

end
