(* ===== verification/LevelViewImage.thy ===== *)
theory LevelViewImage
  imports LevelViewSound
begin

text \<open>
  The view of what was written for a well-formed level opens: no check rejects counters, samples and offsets that
  are right.
\<close>

unbundle bit_operations_syntax

section \<open>The checks accept right counters\<close>

lemma inv_block_good:
  assumes B: "0 < B" and inv: "\<And>j. j < length sbs \<Longrightarrow> rp_superblock_inv B xs j (sbs ! j)"
    and len: "length sbs = length xs div (8 * B) + 1" and m: "m * B \<le> length xs"
  shows "block_good B sbs xs m"
proof -
  have mb: "m \<le> length xs div B" using m B by (simp add: less_eq_div_iff_mult_less_eq)
  then have "m div 8 \<le> length xs div B div 8" by (rule div_le_mono)
  then have j: "m div 8 < length sbs" using len div_mult2_eq [of "length xs" B 8] by (simp add: mult.commute)
  have k: "8 * (m div 8) + m mod 8 = m" by simp
  have "8 * (m div 8) + m mod 8 \<le> length xs div B + 1" using mb by simp
  then have blk: "sp_block (sbs ! (m div 8)) c (m mod 8) = rank_of xs c (m * B) - rank_of xs c (m div 8 * (8 * B))" if "c < 4" for c
    using inv [OF j] that k unfolding rp_superblock_inv_def by (metis mod_less_divisor zero_less_numeral)
  have base: "sp_base (sbs ! (m div 8)) c = rank_of xs c (m div 8 * (8 * B))" if "c < 4" for c
    using inv [OF j] that by (simp add: rp_superblock_inv_def)
  have e: "m div 8 * (8 * B) = m * B" if "m mod 8 = 0"
  proof -
    have "m div 8 * 8 = m" using that by presburger
    then show ?thesis by (metis mult.assoc)
  qed
  then have "sp_base (sbs ! (m div 8)) c = rank_of xs c (m * B)" if "m mod 8 = 0" "c < 4" for c by (metis base e that)
  then show ?thesis using j blk by (simp add: block_good_def mult.assoc)
qed

lemma samples_facts:
  assumes S: "rp_samples_inv B xs c s" and B: "0 < B" and absent: "count_list xs c = 0 \<Longrightarrow> unat (s ! 0) \<le> length xs div (8 * B)"
  shows "i < length s \<Longrightarrow> unat (s ! i) \<le> length xs div (8 * B)" "i + 1 < length s \<Longrightarrow> unat (s ! i) \<le> unat (s ! (i + 1))"
    "length s = (if count_list xs c = 0 then 2 else (count_list xs c - 1) div 8192 + 2)"
proof -
  let ?m = "count_list xs c" and ?n = "length xs"
  show len: "length s = (if ?m = 0 then 2 else (?m - 1) div 8192 + 2)"
    using S expected_samples [of ?m] by (simp add: rp_samples_inv_def)
  have last: "unat (s ! (length s - 1)) = ?n div (8 * B)" using S unfolding rp_samples_inv_def by blast
  have occ: "\<exists>p<?n. rank_of xs c p = i * 8192 \<and> unat (s ! i) = p div (8 * B)" if "i < length s - 1" "?m \<noteq> 0" for i
  proof -
    have "i \<le> (?m - 1) div 8192" using that len by simp
    then have "i * 8192 \<le> ?m - 1" by (simp add: less_eq_div_iff_mult_less_eq)
    then have "i * 8192 < ?m" using that(2) by linarith
    then show ?thesis using S unfolding rp_samples_inv_def by blast
  qed
  show le: "unat (s ! i) \<le> ?n div (8 * B)" if i: "i < length s" for i
  proof (cases "i = length s - 1")
    case True
    then show ?thesis using last by simp
  next
    case False
    then have i1: "i < length s - 1" using i by simp
    show ?thesis
    proof (cases "?m = 0")
      case True
      then have "i = 0" using i1 len by simp
      then show ?thesis using absent [OF True] by simp
    next
      case False
      then show ?thesis using occ [OF i1] by (auto intro!: div_le_mono)
    qed
  qed
  show "unat (s ! i) \<le> unat (s ! (i + 1))" if i: "i + 1 < length s"
  proof (cases "i + 1 = length s - 1")
    case True
    then show ?thesis using le [of i] i last by simp
  next
    case False
    then have i1: "i + 1 < length s - 1" using i by simp
    then have m: "?m \<noteq> 0" using len by (auto split: if_splits)
    obtain p where p: "rank_of xs c p = i * 8192" "unat (s ! i) = p div (8 * B)" using occ [of i] i1 m by auto
    obtain q where q: "rank_of xs c q = (i + 1) * 8192" "unat (s ! (i + 1)) = q div (8 * B)" using occ [OF i1 m] by blast
    have "p \<le> q"
    proof (rule ccontr)
      assume "\<not> p \<le> q"
      then have "rank_of xs c q \<le> rank_of xs c p" by (intro rank_of_mono) simp
      then show False using p(1) q(1) by simp
    qed
    then show ?thesis unfolding p(2) q(2) by (rule div_le_mono)
  qed
qed

lemma check_samples_pass:
  assumes c: "c < 4" and ss: "length ss = 4" and ns: "ns ! c \<le> ns ! (c + 1)" "ns ! (c + 1) - ns ! c = count_list xs c"
    and sb: "\<forall>x\<in>set sbs. sp_ok x" and len: "length sbs = Suc lst" "lst < 2 ^ 32" "lst = length xs div (8 * B)" and B: "0 < B"
    and base: "\<And>j. j < length sbs \<Longrightarrow> sp_base (sbs ! j) c = rank_of xs c (j * (8 * B))"
    and S: "rp_samples_inv B xs c (ss ! c)" and absent: "count_list xs c = 0 \<Longrightarrow> unat (ss ! c ! 0) \<le> lst"
  shows "lv_check_samples ns ss sbs lst u c = Some (Inr ())"
proof -
  let ?s = "ss ! c" and ?m = "count_list xs c"
  note f = samples_facts [OF S B absent [unfolded len(3)]]
  have ne: "?s \<noteq> []" using f(3) by (auto split: if_splits)
  have "unat (?s ! (length ?s - 1)) = lst" using S len(3) unfolding rp_samples_inv_def by blast
  then have "unat (last ?s) = lst" using ne by (simp add: last_conv_nth)
  then have last: "last ?s = of_nat lst" by auto
  have "\<not> list_ex (\<lambda>(a, b). a > b) (zip ?s (tl ?s))" unfolding windows_mono using f(2) by (simp add: word_le_nat_alt)
  moreover have "\<not> list_ex (\<lambda>x. unat x > lst) ?s" using f(1) len(3) by (auto simp: list_ex_iff in_set_conv_nth not_less)
  ultimately have rej: "reject (length ?s \<noteq> (if ?m = 0 then 2 else (?m - 1) div 8192 + 2) \<or> ?s = [] \<or> last ?s \<noteq> of_nat lst
      \<or> list_ex (\<lambda>(a, b). a > b) (zip ?s (tl ?s)) \<or> list_ex (\<lambda>x. unat x > lst) ?s) e = Some (Inr ())" for e :: layout_error
    using f(3) ne last by (simp only: reject_simps not_False_eq_True simp_thms if_cancel)
  have loop: "foldR (lv_check_sample sbs c) () (zip [0..<length ?s - 1] (take (length ?s - 1) ?s)) = Some (Inr ())" if m: "?m \<noteq> 0"
  proof (rule foldR_pass)
    fix kx assume "kx \<in> set (zip [0..<length ?s - 1] (take (length ?s - 1) ?s))"
    then obtain k where kx: "kx = (k, ?s ! k)" and k: "k < length ?s - 1" by (auto simp: set_zip)
    let ?j = "unat (?s ! k)"
    have "k \<le> (?m - 1) div 8192" using k f(3) m by simp
    then have "k * 8192 \<le> ?m - 1" by (simp add: less_eq_div_iff_mult_less_eq)
    then have "k * 8192 < ?m" using m by linarith
    then obtain p where p: "p < length xs" "xs ! p = c" "rank_of xs c p = k * 8192" "?j = p div (8 * B)"
      using S unfolding rp_samples_inv_def by blast
    have S8: "0 < 8 * B" using B by simp
    have sb_ok: "rank_of xs c (?j * (8 * B)) \<le> k * 8192" "?j \<le> lst" "?j < lst \<Longrightarrow> k * 8192 < rank_of xs c (Suc ?j * (8 * B))"
      using sample_block [OF S8 p(1-3), of ?j] p(4) len(3) by simp_all
    have ok: "sp_ok (sbs ! ?j)" "?j < length sbs" using sb sb_ok(2) len by auto
    have ok2: "sp_ok (sbs ! (?j + 1))" if "?j + 1 < length sbs" using sb that by auto
    have next_base: "k * 8192 < sp_base (sbs ! (?j + 1)) c" if "?j + 1 < length sbs" using sb_ok(3) base [OF that] that len by simp
    show "lv_check_sample sbs c () kx = Some (Inr ())"
      using ok ok2 next_base c base [OF ok(2)] sb_ok(1)
      by (auto simp: kx lv_check_sample_def Let_def sp_get_superblock_counter_eq reject_if not_le not_less)
  qed
  have "chk_sub (ns ! (c + 1)) (ns ! c) = Some ?m" using ns by (simp add: chk_sub_def)
  moreover have "idx ss c = Some ?s" using c ss by simp
  ultimately show ?thesis using loop rej by (simp add: lv_check_samples_def Let_def del: foldR.simps)
qed

lemma order_pass:
  assumes sb: "\<forall>x\<in>set sbs. sp_ok x" and c: "c < 4" and B: "0 < B" and len: "length sbs = length xs div (8 * B) + 1"
    and inv: "\<And>j. j < length sbs \<Longrightarrow> rp_superblock_inv B xs j (sbs ! j)"
  shows "\<exists>s. foldR (lv_check_order_step B (length xs) c) 0 (zip [0..<length sbs] sbs) = Some (Inr s)"
proof -
  let ?n = "length xs"
  define g where "g = (\<lambda>i. if i = 0 then 0 else rank_of xs c ((i - 1) * (8 * B)))"
  have step: "lv_check_order_step B ?n c (g i) (i, sbs ! i) = Some (Inr (g (Suc i)))" if i: "i < length sbs" for i
  proof -
    have ok: "sp_ok (sbs ! i)" using sb i by simp
    have base: "sp_base (sbs ! i) c = rank_of xs c (i * (8 * B))" using inv [OF i] c by (simp add: rp_superblock_inv_def)
    have "i \<le> ?n div (8 * B)" using i len by simp
    then have ile: "i * (8 * B) \<le> ?n" using less_eq_div_iff_mult_less_eq [of "8 * B" i ?n] B by simp
    have mono: "g i \<le> rank_of xs c (i * (8 * B))" by (simp add: g_def rank_of_mono)
    have "rank_of xs c (i * (8 * B)) \<le> ?n"
      using count_le_length [of "take (i * (8 * B)) xs" c] by (simp add: rank_of_def)
    then have r1: "\<not> (rank_of xs c (i * (8 * B)) < g i \<or> rank_of xs c (i * (8 * B)) > ?n)" using mono by simp
    have "rank_of xs c (i * (8 * B)) - g i \<le> B * 8" if "0 < i"
    proof -
      have "rank_of xs c (i * (8 * B)) - rank_of xs c ((i - 1) * (8 * B)) \<le> i * (8 * B) - (i - 1) * (8 * B)"
        by (rule rank_of_diff_le) simp
      also have "\<dots> = B * 8" using that by (cases i) simp_all
      finally show ?thesis using that by (simp add: g_def)
    qed
    then have r2: "\<not> (0 < i \<and> rank_of xs c (i * (8 * B)) - g i > B * 8)" by auto
    define sis where "sis = min (?n - i * B * 8) (B * 8)"
    define vb where "vb = (if sis = B * 8 then 8 else min (sis div B + 1) 8)"
    have blocks: "\<exists>s. foldR (lv_check_order_block c (sbs ! i) sis) 0 [0..<vb] = Some (Inr s)"
    proof -
      define h where "h = (\<lambda>k. if k = 0 then 0 else rank_of xs c ((8 * i + (k - 1)) * B) - rank_of xs c (i * (8 * B)))"
      have "lv_check_order_block c (sbs ! i) sis (h k) k = Some (Inr (h (Suc k)))" if k: "k < vb" for k
      proof -
        have k8: "k < 8" using k by (auto simp: vb_def split: if_splits)
        have kn: "k * B \<le> sis"
        proof (cases "sis = B * 8")
          case True
          then show ?thesis using k8 B by simp
        next
          case False
          then have "k \<le> sis div B" using k by (simp add: vb_def)
          then show ?thesis using B by (simp add: less_eq_div_iff_mult_less_eq)
        qed
        have "sis \<le> ?n - i * (8 * B)" by (simp add: sis_def mult.assoc mult.commute [of B])
        then have "i * (8 * B) + k * B \<le> ?n" using kn ile by linarith
        moreover have "(8 * i + k) * B = i * (8 * B) + k * B" by (simp add: algebra_simps)
        ultimately have pos: "(8 * i + k) * B \<le> ?n" by simp
        then have "8 * i + k \<le> ?n div B" using B by (simp add: less_eq_div_iff_mult_less_eq)
        then have blk: "sp_block (sbs ! i) c k = rank_of xs c ((8 * i + k) * B) - rank_of xs c (i * (8 * B))"
          using inv [OF i] c k8 by (simp add: rp_superblock_inv_def)
        have "rank_of xs c ((8 * i + k) * B) - rank_of xs c (i * (8 * B)) \<le> (8 * i + k) * B - i * (8 * B)"
          by (rule rank_of_diff_le) (simp add: algebra_simps)
        also have "\<dots> = k * B" by (simp add: algebra_simps)
        finally have le: "rank_of xs c ((8 * i + k) * B) - rank_of xs c (i * (8 * B)) \<le> sis" using kn by simp
        have "h k \<le> rank_of xs c ((8 * i + k) * B) - rank_of xs c (i * (8 * B))"
          by (auto simp: h_def intro!: diff_le_mono rank_of_mono mult_le_mono1)
        then show ?thesis using le by (simp add: lv_check_order_block_def sp_get_block_counter_eq [OF ok c k8] blk reject_if h_def)
      qed
      then have "foldR (lv_check_order_block c (sbs ! i) sis) (h 0) (map (\<lambda>k. k) [0..<vb]) = Some (Inr (h vb))" by (rule foldR_upt_value)
      then show ?thesis by (simp add: h_def)
    qed
    obtain s where s: "foldR (lv_check_order_block c (sbs ! i) sis) 0 [0..<vb] = Some (Inr s)" using blocks by blast
    show ?thesis
      unfolding lv_check_order_step_def Let_def prod.case sp_get_superblock_counter_eq [OF ok c] bind.bind_lunit base
        sis_def [symmetric] vb_def [symmetric] s
      using r1 r2 by (simp add: reject_if g_def)
  qed
  have z: "zip [0..<length sbs] sbs = map (\<lambda>i. (i, sbs ! i)) [0..<length sbs]" by (rule nth_equalityI) simp_all
  have "g 0 = 0" by (simp add: g_def)
  then show ?thesis unfolding z using foldR_upt_value [of "length sbs" "lv_check_order_step B ?n c" g "\<lambda>i. (i, sbs ! i)", OF step] by simp
qed

lemma validate_pass:
  assumes shape: "view_shape v" and B: "0 < B" and ok: "rq_ok (rp_inv B) (lv_vec v)"
    and absent: "\<And>c. c < 4 \<Longrightarrow> count_list (rq_list (lv_vec v)) c = 0 \<Longrightarrow> unat (lv_select_samples v ! c ! 0) = 0"
  shows "lv_validate B (length (lv_data v)) (length (lv_superblocks v)) v = Some (Inr ())"
proof -
  define qv where "qv = rq_qv (lv_vec v)"
  let ?xs = "qv_list qv" and ?n = "qv_len qv" and ?sbs = "lv_superblocks v" and ?ns = "lv_n_occs_smaller v" and ?ss = "lv_select_samples v"
  have qv: "qv_data qv = lv_data v" "lv_position_bits v div 2 = ?n" "qv_position qv = lv_position_bits v" by (simp_all add: qv_def lv_vec_def qv_len_def)
  have sb: "\<forall>x\<in>set ?sbs. sp_ok x" and ss: "length ?ss = 4" and ns: "length ?ns = 5" and small: "length ?sbs < 2 ^ 32"
    using shape by (simp_all add: view_shape_def)
  have lxs: "rq_list (lv_vec v) = ?xs" by (simp add: rq_list_def qv_def)
  have xs: "length ?xs = ?n" "\<forall>x\<in>set ?xs. x < 4" by (auto simp: qv_list_def qv_sym_def)
  have qok: "qv_ok qv" using ok by (simp add: rq_ok_def qv_def)
  have rp: "length ?sbs = ?n div (8 * B) + 1" "\<And>j. j < length ?sbs \<Longrightarrow> rp_superblock_inv B ?xs j (?sbs ! j)"
    "\<And>c. c < 4 \<Longrightarrow> rp_samples_inv B ?xs c (?ss ! c)"
    using ok xs(1) by (simp_all add: rq_ok_def rp_inv_def lxs) (simp_all add: lv_vec_def)
  have "?ns = n_occs_of ?xs" using ok by (simp add: rq_ok_def lxs) (simp add: lv_vec_def)
  then have occs: "?ns ! 0 = 0" "\<And>c. c < 4 \<Longrightarrow> ?ns ! c \<le> ?ns ! (c + 1) \<and> ?ns ! (c + 1) - ?ns ! c = count_list ?xs c"
    using n_occs_iff [OF ns xs(2)] by auto
  have occs4: "?ns ! 4 = ?n" using \<open>?ns = n_occs_of ?xs\<close> smaller_of_4 [OF xs(2)] xs(1) by (simp add: n_occs_of_def)
  have mono: "\<not> list_ex (\<lambda>(a, b). a > b) (zip ?ns (tl ?ns))"
    unfolding windows_mono using occs(2) ns by (simp add: less_Suc_eq numeral_eq_Suc)
  have good: "block_good B ?sbs ?xs m" if "m * B \<le> ?n" for m
    by (rule inv_block_good [OF B rp(2) _ _]) (use rp(1) xs(1) that in simp_all)
  have z: "[0, 0, 0, 0] = totals_at ?xs 0" by (simp add: upt_4)
  let ?b = "?n div (8 * B) * (8 * B)"
  have blocks: "lv_check_blocks B (lv_data v) ?sbs ?n [0, 0, 0, 0] [0, 0, 0, 0] 0 = Some (Inr (totals_at ?xs ?n, totals_at ?xs ?b))"
  proof -
    obtain res where "lv_check_blocks B (lv_data v) ?sbs ?n (totals_at ?xs 0) (totals_at ?xs 0) 0 = Some res" "case res of
        Inl _ \<Rightarrow> \<exists>m. 0 \<le> m * B \<and> m * B \<le> ?n \<and> \<not> block_good B ?sbs ?xs m
      | Inr TB \<Rightarrow> TB = (totals_at ?xs ?n, totals_at ?xs ?b) \<and> (\<forall>m. 0 \<le> m * B \<and> m * B \<le> ?n \<longrightarrow> block_good B ?sbs ?xs m)"
      using check_blocks_eq [OF qok sb B, of 0 0] unfolding qv(1) by auto
    then show ?thesis using good unfolding z by (cases res) auto
  qed
  have sent: "(if ?n div B mod 8 + 1 < 8 then do {
        superblock \<leftarrow> idx ?sbs (?n div (B * 8));
        lv_block_counters superblock (?n div B mod 8 + 1) (totals_at ?xs ?n) (totals_at ?xs ?b) msg
      } else Some (Inr ())) = Some (Inr ())" for msg
  proof (cases "?n div B mod 8 + 1 < 8")
    case True
    let ?j = "?n div (8 * B)" and ?k = "?n div B mod 8 + 1"
    have j: "?j < length ?sbs" using rp(1) by simp
    have e: "8 * ?j + ?k = ?n div B + 1" using div_mult2_eq [of ?n B 8] by (simp add: mult.commute)
    have "(8 * ?j + ?k) * B = ?n div B * B + B" unfolding e by simp
    then have "?n \<le> (8 * ?j + ?k) * B" using div_mult_mod_eq [of ?n B] mod_less_divisor [OF B, of ?n] by linarith
    then have "rank_of ?xs c ((8 * ?j + ?k) * B) = rank_of ?xs c ?n" for c using xs(1) by (simp add: rank_of_all)
    moreover have "8 * ?j + ?k \<le> length ?xs div B + 1" using e xs(1) by simp
    ultimately have blk: "sp_block (?sbs ! ?j) c ?k = rank_of ?xs c ?n - rank_of ?xs c ?b" if "c < 4" for c
      using rp(2) [OF j] that True unfolding rp_superblock_inv_def by metis
    have "sp_ok (?sbs ! ?j)" using sb j by simp
    from block_counters_eq [OF this True div_times_less_eq_dividend, where xs = ?xs and msg = msg, of ?n "8 * B"]
    obtain res where "lv_block_counters (?sbs ! ?j) ?k (totals_at ?xs ?n) (totals_at ?xs ?b) msg = Some res" "case res of
        Inl _ \<Rightarrow> \<exists>c<4. sp_block (?sbs ! ?j) c ?k \<noteq> rank_of ?xs c ?n - rank_of ?xs c ?b
      | Inr _ \<Rightarrow> \<forall>c<4. sp_block (?sbs ! ?j) c ?k = rank_of ?xs c ?n - rank_of ?xs c ?b" by blast
    then have "lv_block_counters (?sbs ! ?j) ?k (totals_at ?xs ?n) (totals_at ?xs ?b) msg = Some (Inr ())" using blk by (cases res) auto
    then show ?thesis using True j by (simp add: mult.commute [of B 8])
  qed simp
  have count: "rank_of ?xs c ?n = count_list ?xs c" for c by (simp add: rank_of_all xs(1))
  have totals: "foldR (\<lambda>u symbol. do {
        d \<leftarrow> chk_sub (?ns ! (symbol + 1)) (?ns ! symbol);
        reject (d \<noteq> totals_at ?xs ?n ! symbol) e
      }) () [0..<4] = Some (Inr ())" for e :: layout_error
  proof (rule foldR_pass)
    fix c :: nat assume "c \<in> set [0..<4]"
    then have c: "c < 4" by simp
    show "do { d \<leftarrow> chk_sub (?ns ! (c + 1)) (?ns ! c); reject (d \<noteq> totals_at ?xs ?n ! c) e } = Some (Inr ())"
      using occs(2) [OF c] c count by (simp add: chk_sub_def reject_if)
  qed
  have samples: "foldR (lv_check_samples ?ns ?ss ?sbs (?n div (8 * B))) () [0..<4] = Some (Inr ())"
  proof (rule foldR_pass)
    fix c :: nat assume "c \<in> set [0..<4]"
    then have c: "c < 4" by simp
    show "lv_check_samples ?ns ?ss ?sbs (?n div (8 * B)) () c = Some (Inr ())"
    proof (rule check_samples_pass [OF c ss _ _ sb])
      show "sp_base (?sbs ! j) c = rank_of ?xs c (j * (8 * B))" if "j < length ?sbs" for j
        using rp(2) [OF that] c by (simp add: rp_superblock_inv_def)
    qed (use occs(2) [OF c] rp(1) small xs(1) B rp(3) [OF c] absent [OF c] lxs in simp_all)
  qed
  have order: "foldR (\<lambda>u symbol. rbind (foldR (lv_check_order_step B ?n symbol) 0 (zip [0..<length ?sbs] ?sbs)) (\<lambda>_. Some (Inr ()))) () [0..<4] = Some (Inr ())"
  proof (rule foldR_pass)
    fix c :: nat assume "c \<in> set [0..<4]"
    then have "c < 4" by simp
    from order_pass [OF sb this B _ rp(2)] rp(1) xs(1)
    show "rbind (foldR (lv_check_order_step B ?n c) 0 (zip [0..<length ?sbs] ?sbs)) (\<lambda>_. Some (Inr ())) = Some (Inr ())" by auto
  qed
  have pos: "lv_position_bits v mod 2 = 0" "lv_position_bits v \<le> length (lv_data v) * 512"
    using qok by (simp_all add: qv_ok_def qv even_iff_mod_2_eq_zero)
  have nsb: "length ?sbs = (?n + B * 8) div (B * 8)" using rp(1) B div_add_self2 [of "B * 8" ?n] by (simp add: mult.commute)
  have last: "chk_sub (length ?sbs) 1 = Some (?n div (8 * B))" using rp(1) by (simp add: chk_sub_def)
  have rej: "(lv_position_bits v mod 2 \<noteq> 0) = False" "(lv_position_bits v > length (lv_data v) * 512) = False"
    "(?ns ! 0 \<noteq> 0 \<or> ?ns ! 4 \<noteq> ?n \<or> list_ex (\<lambda>(a, b). a > b) (zip ?ns (tl ?ns))) = False"
    "(length ?sbs \<noteq> (?n + B * 8) div (B * 8)) = False"
    using pos occs(1) occs4 mono nsb by (simp_all only: not_less simp_thms)
  show ?thesis
    unfolding lv_validate_def Let_def qv(2) last ok_or_simps rej reject_simps rbind_simps blocks prod.case sent totals samples order ..
qed

text \<open>In a freshly built support the sample of an absent symbol is 0.\<close>

lemma rp_new_absent:
  assumes new: "rp_new bs qv = Some rp" and qv: "qv_ok qv" "bs = 256 \<or> bs = 512" and c: "c < 4" "count_list (qv_list qv) c = 0"
  shows "rp_select_samples rp ! c ! 0 = 0"
proof -
  have n: "qv_len qv < 2 ^ 43" using new by (auto simp: rp_new_def guard_def split: if_splits)
  obtain st where st: "foldM (rp_new_step bs qv) rp_build_init [0..<qv_len qv + 1] = Some st"
    "build_mid bs (qv_list qv) (qv_len qv) (Suc (qv_len qv)) st" by (rule rp_new_loop [OF qv(1) n qv(2)])
  have "samples_inv bs (qv_list qv) (qv_len qv) (b_select_samples st)" using st(2) by (simp add: build_mid_def)
  then have "length (b_select_samples st) = 4" "length (b_select_samples st ! c) = div_ceil (rank_of (qv_list qv) c (qv_len qv)) 8192"
    using c(1) unfolding samples_inv_def by blast+
  moreover have "rank_of (qv_list qv) c (qv_len qv) = 0" using c(2) by (simp add: rank_of_all)
  ultimately have smp: "length (b_select_samples st) = 4" "b_select_samples st ! c = []" by (simp_all add: div_ceil_def)
  have keep: "b_select_samples st' = b_select_samples st" if "rp_set_last st k = Some st'" for k st'
    using that by (auto simp: rp_set_last_def split: bind_splits)
  obtain st' m where "(if qv_len qv div bs mod 8 + 1 < 8 then rp_set_last st (qv_len qv div bs mod 8 + 1) else Some st) = Some st'"
    "rp = \<lparr>rp_superblocks = b_superblocks st', rp_select_samples = map (\<lambda>sample. (if sample = [] then [0] else sample) @ [of_nat m]) (b_select_samples st')\<rparr>"
    using new unfolding rp_new_def st(1) Let_def bind_eq_Some_conv by blast
  moreover from this(1) have "b_select_samples st' = b_select_samples st" using keep by (auto split: if_splits)
  ultimately show ?thesis using smp c(1) by simp
qed

section \<open>The view of a written level\<close>

definition lv_of :: "rs_support_plain rs_qvector \<Rightarrow> rsqv_view" where
  "lv_of r = \<lparr>lv_data = qv_data (rq_qv r), lv_superblocks = rp_superblocks (rq_rs_support r),
     lv_select_samples = rp_select_samples (rq_rs_support r), lv_position_bits = qv_position (rq_qv r),
     lv_n_occs_smaller = rq_n_occs_smaller r\<rparr>"

lemma lv_of_simps [simp]:
  "lv_vec (lv_of r) = r" "lv_select_samples (lv_of r) = rp_select_samples (rq_rs_support r)" "lv_position_bits (lv_of r) = qv_position (rq_qv r)"
  by (simp_all add: lv_vec_def lv_of_def)

theorem from_dir_image:
  assumes bytes: "bytes = P @ level_image c r @ Z" "length P = c" "length bytes < 2 ^ 64" and fits: "level_fits r"
    and built: "rq_from (rs_plain B) (rq_qv r) = Some r" and ok: "rq_ok (rp_inv B) r" and base: "base mod 64 = 0" and B: "B = 256 \<or> B = 512"
  shows "lv_from_dir B base bytes (level_entry c r) = Some (Inr (lv_of r))"
proof -
  let ?qd = "qv_data (rq_qv r)" and ?rs = "rq_rs_support r"
  let ?sb = "rp_superblocks ?rs" and ?ss = "rp_select_samples ?rs"
  note offs = level_offsets [OF fits] and up = up64_bounds [of c]
  have F: "\<forall>x\<in>set ?qd. dl_ok x" "\<forall>x\<in>set ?sb. sp_ok x" "length ?qd < 2 ^ 32" "length ?sb < 2 ^ 32" "length ?ss = 4"
    "\<And>s. s < 4 \<Longrightarrow> length (?ss ! s) < 2 ^ 32" "qv_position (rq_qv r) \<le> length ?qd * 512"
    "length (rq_n_occs_smaller r) = 5" "\<And>i. i < 5 \<Longrightarrow> rq_n_occs_smaller r ! i < 2 ^ 64"
    using fits by (auto simp: level_fits_def)
  have fin: "level_end c r \<le> length bytes" using length_level_image [OF fits, of c] bytes(1,2) by simp
  have e: "level_sel_off c r s \<le> length bytes" if "s \<le> 4" for s using offs(3) [OF that, of c] fin by simp
  have e1: "level_sb_off c r \<le> length bytes" "up64 c \<le> length bytes" using offs(1,2) [of c] e [of 0] by (meson le_trans zero_le)+
  have sm: "unat (of_nat (up64 c) :: u64) = up64 c" "unat (of_nat (level_sb_off c r) :: u64) = level_sb_off c r"
    using e1 bytes(3) by (simp_all add: unat_of_nat_small)
  have n: "unat (of_nat (length ?qd) :: u32) = length ?qd" "unat (of_nat (length ?sb) :: u32) = length ?sb"
    "unat (of_nat (qv_position (rq_qv r)) :: u64) = qv_position (rq_qv r)"
    using F(3,4,7) by (simp_all add: unat_of_nat_small)
  have data: "lv_slice base bytes (up64 c) (length ?qd) 64 64 dl_of = Some (Inr ?qd)"
  proof (rule dl.slice_image)
    show "bytes = (P @ replicate (up64 c - c) 0) @ concat (map dl_bytes ?qd) @ concat (map sp_bytes ?sb) @ samples_image ?rs 4 @ Z"
      using bytes(1) by (simp add: level_image_def)
    show "(base + up64 c) mod 64 = 0" using base up(3) by presburger
  qed (use bytes(2,3) up(1) F(1) in simp_all)
  have sbs: "lv_slice base bytes (level_sb_off c r) (length ?sb) 64 64 sp_of = Some (Inr ?sb)"
  proof (rule sb.slice_image)
    show "bytes = (P @ replicate (up64 c - c) 0 @ concat (map dl_bytes ?qd)) @ concat (map sp_bytes ?sb) @ samples_image ?rs 4 @ Z"
      using bytes(1) by (simp add: level_image_def)
    show "(base + level_sb_off c r) mod 64 = 0" using base offs(5) [of c] by presburger
  qed (use bytes(2,3) up(1) F(1,2) dl.length_image [OF F(1)] in \<open>simp_all add: level_sb_off_def\<close>)
  have sel: "foldR (lv_sample_step base bytes (level_entry c r)) (take 0 ?ss) (map (\<lambda>s. s) [0..<4]) = Some (Inr (take 4 ?ss))"
  proof (rule foldR_upt_value)
    fix s :: nat assume s: "s < 4"
    have l: "length (?ss ! s) < 2 ^ 32" by (rule F(6) [OF s])
    have off: "unat (of_nat (level_sel_off c r s) :: u64) = level_sel_off c r s" using e [of s] s bytes(3) by (simp add: unat_of_nat_small)
    have split: "concat ?ss = concat (take s ?ss) @ ?ss ! s @ concat (drop (Suc s) ?ss)"
      using s F(5) by (metis concat.simps(2) concat_append id_take_nth_drop)
    have four: "samples_image ?rs 4 = concat (map to_le (concat (take s ?ss))) @ concat (map to_le (?ss ! s)) @ concat (map to_le (concat (drop (Suc s) ?ss)))"
      using F(5) split by (simp add: samples_image_def)
    have "lv_slice base bytes (level_sel_off c r s) (length (?ss ! s)) 4 4 from_le = Some (Inr (?ss ! s))"
    proof (rule word32.slice_image)
      show "bytes = (P @ replicate (up64 c - c) 0 @ concat (map dl_bytes ?qd) @ concat (map sp_bytes ?sb) @ concat (map to_le (concat (take s ?ss))))
          @ concat (map to_le (?ss ! s)) @ concat (map to_le (concat (drop (Suc s) ?ss))) @ Z"
        unfolding bytes(1) level_image_def four by simp
      have "level_sel_off c r s mod 4 = 0"
      proof -
        have "level_sb_off c r mod 4 = 0" using offs(5) [of c] by presburger
        then show ?thesis by (simp add: level_sel_off_def mod_eq_0_iff_dvd)
      qed
      then show "(base + level_sel_off c r s) mod 4 = 0" using base by presburger
      show "length (P @ replicate (up64 c - c) 0 @ concat (map dl_bytes ?qd) @ concat (map sp_bytes ?sb) @ concat (map to_le (concat (take s ?ss))))
          = level_sel_off c r s"
        using bytes(2) up(1) dl.length_image [OF F(1)] sb.length_image [OF F(2)] word32.length_image [of "concat (take s ?ss)"]
        by (simp add: level_sel_off_def level_sb_off_def)
    qed (use bytes(3) in simp_all)
    then show "lv_sample_step base bytes (level_entry c r) (take s ?ss) s = Some (Inr (take (Suc s) ?ss))"
      using s l off F(5) by (simp add: lv_sample_step_def level_entry_def unat_of_nat_small take_Suc_conv_app_nth)
  qed
  have sel4: "foldR (lv_sample_step base bytes (level_entry c r)) [] [0..<4] = Some (Inr ?ss)" using sel F(5) by simp
  have occs: "map unat (ld_n_occs_smaller (level_entry c r)) = rq_n_occs_smaller r"
    by (rule nth_equalityI) (use F(8,9) in \<open>simp_all add: level_entry_def unat_of_nat_small\<close>)
  have shape: "view_shape (lv_of r)" using F by (simp add: view_shape_def lv_of_def)
  have "rp_new B (rq_qv r) = Some ?rs" using built by (cases r) (auto simp: rq_from_def rs_plain_def bind_eq_Some_conv)
  then have absent: "?ss ! k ! 0 = 0" if "k < 4" "count_list (rq_list r) k = 0" for k
    using rp_new_absent [of B "rq_qv r" ?rs k] ok B that by (auto simp: rq_ok_def rq_list_def)
  have valid: "lv_validate B (length ?qd) (length ?sb) (lv_of r) = Some (Inr ())"
  proof -
    have "lv_validate B (length (lv_data (lv_of r))) (length (lv_superblocks (lv_of r))) (lv_of r) = Some (Inr ())"
      by (rule validate_pass [OF shape]) (use ok B absent in auto)
    then show ?thesis by (simp add: lv_of_def)
  qed
  have fields: "ld_off_data (level_entry c r) = of_nat (up64 c)" "ld_n_datalines (level_entry c r) = of_nat (length ?qd)"
    "ld_position_bits (level_entry c r) = of_nat (qv_position (rq_qv r))" "ld_off_superblocks (level_entry c r) = of_nat (level_sb_off c r)"
    "ld_n_superblocks (level_entry c r) = of_nat (length ?sb)" by (simp_all add: level_entry_def)
  have g: "guard (B = 256 \<or> B = 512) = Some ()" using B by simp
  have rej: "(up64 c mod 64 \<noteq> 0 \<or> level_sb_off c r mod 64 \<noteq> 0) = False" using up(3) offs(5) by simp
  show ?thesis
    unfolding lv_from_dir_def Let_def g bind.bind_lunit fields sm n rej reject_simps rbind_simps data sbs sel4 occs
      lv_of_def [of r, symmetric] valid ..
qed

end
