(* ===== verification/LevelQuery.thy ===== *)
theory LevelQuery
  imports LevelViewImage
begin

text \<open>
  The queries on a view of one level, \<^verbatim>\<open>src/bytes/level.rs\<close>. \<open>lv_ops\<close> gives them to the queries of the trees, whose
  contract \<open>wt_queries\<close> they meet for every well-formed view.
\<close>

unbundle bit_operations_syntax

section \<open>Access and rank\<close>

definition lv_len :: "rsqv_view \<Rightarrow> nat" where
  "lv_len self = lv_position_bits self div 2"

definition lv_is_empty :: "rsqv_view \<Rightarrow> bool" where
  "lv_is_empty self \<longleftrightarrow> lv_position_bits self = 0"

definition lv_occs_smaller_unchecked :: "rsqv_view \<Rightarrow> nat \<Rightarrow> nat option" where
  "lv_occs_smaller_unchecked self symbol = do { guard (symbol \<le> 3); idx (lv_n_occs_smaller self) symbol }"

definition lv_occs_unchecked :: "rsqv_view \<Rightarrow> nat \<Rightarrow> nat option" where
  "lv_occs_unchecked self symbol = do {
     guard (symbol \<le> 3);
     a \<leftarrow> idx (lv_n_occs_smaller self) (symbol + 1);
     b \<leftarrow> idx (lv_n_occs_smaller self) symbol;
     chk_sub a b
   }"

definition lv_get_unchecked :: "rsqv_view \<Rightarrow> nat \<Rightarrow> nat option" where
  "lv_get_unchecked self i = do {
     guard (i < lv_len self);
     let line = i div 256;
     let pos = i mod 256;
     l \<leftarrow> idx (lv_data self) line;
     dl_get_unchecked l pos
   }"

definition lv_get :: "rsqv_view \<Rightarrow> nat \<Rightarrow> nat option option" where
  "lv_get self i = (if i \<ge> lv_len self then Some None else do { r \<leftarrow> lv_get_unchecked self i; Some (Some r) })"

definition lv_rank_block :: "nat \<Rightarrow> rsqv_view \<Rightarrow> nat \<Rightarrow> nat \<Rightarrow> nat option" where
  "lv_rank_block B self symbol i = (
     let superblock_index = i div (B * 8); block_index = i div B mod 8
     in if superblock_index \<ge> length (lv_superblocks self) then Some 0
        else sp_get_rank (lv_superblocks self ! superblock_index) symbol block_index)"

definition lv_rank_intra_block :: "nat \<Rightarrow> rsqv_view \<Rightarrow> nat \<Rightarrow> nat \<Rightarrow> nat option" where
  "lv_rank_intra_block B self symbol i = (
     let line_rank = (\<lambda>l offset. if l < length (lv_data self) then dl_rank_unchecked (lv_data self ! l) symbol offset else Some 0)
     in if B = 256 then line_rank (i div 256) (i mod 256)
        else
          (let block_id = i div 512; offset_in_block = i mod 512;
               offset_in_first = (if offset_in_block \<le> 256 then offset_in_block else 256)
           in do {
             rank \<leftarrow> line_rank (block_id * 2) offset_in_first;
             if offset_in_block > 256 then do {
               r \<leftarrow> line_rank (block_id * 2 + 1) (offset_in_block - 256);
               Some (rank + r)
             } else Some rank
           }))"

definition lv_rank_intra_block_all :: "nat \<Rightarrow> rsqv_view \<Rightarrow> nat \<Rightarrow> nat list option" where
  "lv_rank_intra_block_all B self i = (
     let line_ranks = (\<lambda>l offset. if l < length (lv_data self) then dl_rank_all_unchecked (lv_data self ! l) offset else Some [0, 0, 0, 0])
     in if B = 256 then line_ranks (i div 256) (i mod 256)
        else
          (let block_id = i div 512; offset_in_block = i mod 512;
               offset_in_first = (if offset_in_block \<le> 256 then offset_in_block else 256)
           in do {
             ranks \<leftarrow> line_ranks (block_id * 2) offset_in_first;
             if offset_in_block > 256 then do {
               second \<leftarrow> line_ranks (block_id * 2 + 1) (offset_in_block - 256);
               Some (map2 (+) ranks second)
             } else Some ranks
           }))"

definition lv_rank_unchecked :: "nat \<Rightarrow> rsqv_view \<Rightarrow> nat \<Rightarrow> nat \<Rightarrow> nat option" where
  "lv_rank_unchecked B self symbol i = do {
     guard (symbol \<le> 3);
     b \<leftarrow> lv_rank_block B self symbol i;
     r \<leftarrow> lv_rank_intra_block B self symbol i;
     Some (b + r)
   }"

definition lv_rank_all_unchecked :: "nat \<Rightarrow> rsqv_view \<Rightarrow> nat \<Rightarrow> nat list option" where
  "lv_rank_all_unchecked B self i = (
     let block = i div B; sb_idx = block div 8; block_in_sb = block mod 8
     in do {
       block_ranks \<leftarrow> (if sb_idx < length (lv_superblocks self) then sp_get_rank_all (lv_superblocks self ! sb_idx) block_in_sb
         else Some [0, 0, 0, 0]);
       intra \<leftarrow> lv_rank_intra_block_all B self i;
       Some (map2 (+) block_ranks intra)
     })"

definition lv_rank :: "nat \<Rightarrow> rsqv_view \<Rightarrow> nat \<Rightarrow> nat \<Rightarrow> nat option option" where
  "lv_rank B self symbol i = (if symbol > 3 \<or> i > lv_len self then Some None
     else do { r \<leftarrow> lv_rank_unchecked B self symbol i; Some (Some r) })"

section \<open>Select\<close>

text \<open>One of the two scans for the superblock; \<open>Some None\<close> is the \<open>?\<close> on a superblock that does not exist.\<close>

partial_function (option) lv_scan :: "superblock_plain list \<Rightarrow> nat \<Rightarrow> nat \<Rightarrow> nat \<Rightarrow> nat \<Rightarrow> nat \<Rightarrow> nat option option" where
  "lv_scan superblocks symbol i step last_sblock_id first_sblock_id =
     (if first_sblock_id < last_sblock_id then
        (if first_sblock_id < length superblocks then do {
           counter \<leftarrow> sp_get_superblock_counter (superblocks ! first_sblock_id) symbol;
           if counter \<ge> i then Some (Some first_sblock_id)
           else lv_scan superblocks symbol i step last_sblock_id (first_sblock_id + step)
         } else Some None)
      else Some (Some first_sblock_id))"

definition lv_select_block :: "nat \<Rightarrow> rsqv_view \<Rightarrow> nat \<Rightarrow> nat \<Rightarrow> (nat \<times> nat) option option" where
  "lv_select_block B self symbol i = do {
     samples \<leftarrow> idx (lv_select_samples self) symbol;
     i1 \<leftarrow> chk_sub i 1;
     let sampled_i = i1 div 8192;
     if sampled_i + 1 < length samples then do {
       let first_sblock_id = unat (samples ! sampled_i);
       let last_sblock_id = 1 + unat (samples ! (sampled_i + 1));
       d \<leftarrow> chk_sub last_sblock_id first_sblock_id;
       let step = isqrt d + 1;
       found \<leftarrow> lv_scan (lv_superblocks self) symbol i step last_sblock_id first_sblock_id;
       case found of None \<Rightarrow> Some None
       | Some first_sblock_id \<Rightarrow> do {
         found \<leftarrow> lv_scan (lv_superblocks self) symbol i 1 last_sblock_id (first_sblock_id - step);
         case found of None \<Rightarrow> Some None
         | Some first_sblock_id \<Rightarrow> do {
           let first_sblock_id = first_sblock_id - 1;
           let position = first_sblock_id * B * 8;
           if first_sblock_id < length (lv_superblocks self) then do {
             let superblock = lv_superblocks self ! first_sblock_id;
             rank \<leftarrow> sp_get_superblock_counter superblock symbol;
             if rank \<le> i then do {
               (block_id, block_rank) \<leftarrow> sp_block_predecessor superblock symbol (i - rank);
               Some (Some (position + block_id * B, rank + block_rank))
             } else Some None
           } else Some None
         }
       }
     } else Some None
   }"

fun lv_select_lines :: "data_line list \<Rightarrow> nat \<Rightarrow> nat \<Rightarrow> nat list \<Rightarrow> nat \<Rightarrow> nat \<Rightarrow> nat option option" where
  "lv_select_lines data line_id symbol [] rem result = Some None"
| "lv_select_lines data line_id symbol (j # js) rem result =
     (if line_id + j < length data then do {
        (word_0, word_1) \<leftarrow> normalize (data ! (line_id + j)) symbol;
        let cnt_0 = pop word_0;
        if cnt_0 > rem then do { p \<leftarrow> select_in_word_u128 word_0 (of_nat rem); Some (Some (result + p)) }
        else do {
          let rem = rem - cnt_0;
          let result = result + 128;
          let cnt_1 = pop word_1;
          if cnt_1 > rem then do { p \<leftarrow> select_in_word_u128 word_1 (of_nat rem); Some (Some (result + p)) }
          else lv_select_lines data line_id symbol js (rem - cnt_1) (result + 128)
        }
      } else Some None)"

definition lv_select_intra_block :: "nat \<Rightarrow> rsqv_view \<Rightarrow> nat \<Rightarrow> nat \<Rightarrow> nat \<Rightarrow> nat option option" where
  "lv_select_intra_block B self symbol i pos = do {
     let line_id = pos div 256;
     rem \<leftarrow> chk_sub i 1;
     let n_lines = (if B = 256 then 1 else 2);
     lv_select_lines (lv_data self) line_id symbol [0..<n_lines] rem 0
   }"

definition lv_select :: "nat \<Rightarrow> rsqv_view \<Rightarrow> nat \<Rightarrow> nat \<Rightarrow> nat option option" where
  "lv_select B self symbol i =
     (if symbol > 3 then Some None
      else do {
        total \<leftarrow> lv_occs_unchecked self symbol;
        if total \<le> i then Some None
        else do {
          block \<leftarrow> lv_select_block B self symbol (i + 1);
          case block of None \<Rightarrow> Some None
          | Some (pos, rank) \<Rightarrow>
              if rank \<le> i then do {
                offset \<leftarrow> lv_select_intra_block B self symbol (i - rank + 1) pos;
                case offset of None \<Rightarrow> Some None
                | Some p \<Rightarrow> Some (if pos + p < lv_len self then Some (pos + p) else None)
              } else Some None
        }
      })"

section \<open>What the queries answer\<close>

text \<open>A view is well-formed when the vector it shows is; it shows a list of two-bit symbols.\<close>

definition lv_ok :: "nat \<Rightarrow> rsqv_view \<Rightarrow> bool" where
  "lv_ok B v \<longleftrightarrow> rq_ok (rp_inv B) (lv_vec v)"

definition lv_list :: "rsqv_view \<Rightarrow> nat list" where
  "lv_list v = rq_list (lv_vec v)"

lemma lv_vec_simps [simp]:
  "qv_data (rq_qv (lv_vec v)) = lv_data v" "qv_position (rq_qv (lv_vec v)) = lv_position_bits v" "rq_n_occs_smaller (lv_vec v) = lv_n_occs_smaller v"
  "rp_superblocks (rq_rs_support (lv_vec v)) = lv_superblocks v" "rp_select_samples (rq_rs_support (lv_vec v)) = lv_select_samples v"
  by (simp_all add: lv_vec_def)

lemma lv_len_eq: "lv_len v = length (lv_list v)"
  by (simp add: lv_len_def lv_list_def rq_list_def qv_len_def)

lemma lv_okD:
  assumes "lv_ok B v"
  shows "qv_ok (rq_qv (lv_vec v))" "rp_inv B (rq_rs_support (lv_vec v)) (lv_list v)" "lv_n_occs_smaller v = n_occs_of (lv_list v)"
  using assms by (simp_all add: lv_ok_def rq_ok_def lv_list_def)

lemma lv_occs_smaller_eq: "lv_ok B v \<Longrightarrow> c < 4 \<Longrightarrow> lv_occs_smaller_unchecked v c = Some (smaller_of (lv_list v) c)"
  by (simp add: lv_occs_smaller_unchecked_def lv_okD(3) n_occs_of_def)

lemma lv_occs_eq: "lv_ok B v \<Longrightarrow> c < 4 \<Longrightarrow> lv_occs_unchecked v c = Some (count_list (lv_list v) c)"
  by (simp add: lv_occs_unchecked_def lv_okD(3) n_occs_of_def smaller_of_Suc del: upt_Suc)

lemma lv_get_unchecked_eq:
  assumes "lv_ok B v" "i < length (lv_list v)"
  shows "lv_get_unchecked v i = Some (lv_list v ! i)"
proof -
  have "i < lv_len v" using assms(2) by (simp add: lv_len_eq)
  moreover have "i < qv_len (rq_qv (lv_vec v))" using assms(2) by (simp add: lv_list_def rq_list_def)
  moreover from this have "i < lv_position_bits v div 2" by (simp add: qv_len_def)
  ultimately show ?thesis
    using qv_get_unchecked_eq [OF lv_okD(1) [OF assms(1)], of i]
    by (simp add: lv_get_unchecked_def qv_get_unchecked_def lv_list_def rq_list_def nth_qv_list)
qed

lemma lv_get_eq: "lv_ok B v \<Longrightarrow> lv_get v i = Some (idx (lv_list v) i)"
  by (simp add: lv_get_def lv_get_unchecked_eq lv_len_eq idx_def)

lemma lv_rank_intra_block_eq:
  "B = 256 \<or> B = 512 \<Longrightarrow> c < 4 \<Longrightarrow> lv_rank_intra_block B v c i = rq_rank_intra_block (rs_plain B) (lv_vec v) c i"
  "B = 256 \<or> B = 512 \<Longrightarrow> lv_rank_intra_block_all B v i = rq_rank_intra_block_all (rs_plain B) (lv_vec v) i"
  by (auto simp: lv_rank_intra_block_def rq_rank_intra_block_def lv_rank_intra_block_all_def rq_rank_intra_block_all_def
      rq_line_rank_def rq_line_rank_all_def rs_plain_def Let_def)

lemma lv_superblock_index:
  assumes "lv_ok B v" "0 < B" "i \<le> length (lv_list v)"
  shows "i div (B * 8) < length (lv_superblocks v)"
  using lv_okD(2) [OF assms(1)] div_le_mono [OF assms(3), of "8 * B"] by (simp add: rp_inv_def mult.commute)

lemma lv_rank_block_eq:
  assumes "lv_ok B v" "0 < B" "c < 4" "i \<le> length (lv_list v)"
  shows "lv_rank_block B v c i = Some (rank_of (lv_list v) c (i div B * B))"
  using rp_rank_block_eq [OF lv_okD(2) [OF assms(1)] assms(2-4)] lv_superblock_index [OF assms(1,2,4)]
  by (simp add: lv_rank_block_def rp_rank_block_def rp_superblock_index_def rp_block_index_def)

lemma rs_plain_support: "B = 256 \<or> B = 512 \<Longrightarrow> rs_support (rs_plain B) (rp_inv B)"
  by (rule rs_plain_contract)

lemma lv_rank_unchecked_eq:
  assumes "lv_ok B v" "B = 256 \<or> B = 512" "c < 4" "i \<le> length (lv_list v)"
  shows "lv_rank_unchecked B v c i = Some (rank_of (lv_list v) c i)"
proof -
  have "rq_rank_intra_block (rs_plain B) (lv_vec v) c i = Some (rank_of (lv_list v) c i - rank_of (lv_list v) c (i div B * B))"
    using rs_support.intra_block_eq(1) [OF rs_plain_support [OF assms(2)] lv_okD(1) [OF assms(1)]] assms(3,4)
    by (simp add: lv_list_def rs_plain_def)
  moreover have "0 < B" using assms(2) by auto
  ultimately show ?thesis
    using lv_rank_block_eq [OF assms(1) _ assms(3,4)] assms(2,3) rank_of_mono [of "i div B * B" i "lv_list v" c]
    by (simp add: lv_rank_unchecked_def lv_rank_intra_block_eq)
qed

lemma lv_rank_eq:
  "lv_ok B v \<Longrightarrow> B = 256 \<or> B = 512 \<Longrightarrow> lv_rank B v c i = Some (if c < 4 \<and> i \<le> length (lv_list v) then Some (rank_of (lv_list v) c i) else None)"
  by (simp add: lv_rank_def lv_rank_unchecked_eq lv_len_eq)

lemma lv_rank_all_unchecked_eq:
  assumes "lv_ok B v" "B = 256 \<or> B = 512" "i \<le> length (lv_list v)"
  shows "lv_rank_all_unchecked B v i = Some (map (\<lambda>c. rank_of (lv_list v) c i) [0..<4])"
proof -
  have B: "0 < B" using assms(2) by auto
  let ?r = "\<lambda>c. rank_of (lv_list v) c (i div B * B)"
  have j: "i div B div 8 < length (lv_superblocks v)"
    using lv_superblock_index [OF assms(1) B assms(3)] by (simp add: div_mult2_eq)
  have inv: "rp_superblock_inv B (lv_list v) (i div B div 8) (lv_superblocks v ! (i div B div 8))"
    using lv_okD(2) [OF assms(1)] j by (simp add: rp_inv_def)
  then have ok: "sp_ok (lv_superblocks v ! (i div B div 8))" by (simp add: rp_superblock_inv_def)
  have blk: "sp_base (lv_superblocks v ! (i div B div 8)) c + sp_block (lv_superblocks v ! (i div B div 8)) c (i div B mod 8) = ?r c" if "c < 4" for c
    using lv_rank_block_eq [OF assms(1) B that assms(3)] j ok that
    by (simp add: lv_rank_block_def Let_def div_mult2_eq sp_get_rank_eq)
  have "rq_rank_intra_block_all (rs_plain B) (lv_vec v) i = Some (map (\<lambda>c. rank_of (lv_list v) c i - ?r c) [0..<4])"
    using rs_support.intra_block_eq(2) [OF rs_plain_support [OF assms(2)] lv_okD(1) [OF assms(1)]] assms(3)
    by (simp add: lv_list_def rs_plain_def)
  moreover have "map2 (+) (map ?r [0..<4]) (map (\<lambda>c. rank_of (lv_list v) c i - ?r c) [0..<4]) = map (\<lambda>c. rank_of (lv_list v) c i) [0..<4]"
    using rank_of_mono [of "i div B * B" i "lv_list v"] by (intro nth_equalityI) simp_all
  moreover have "map (\<lambda>c. sp_base (lv_superblocks v ! (i div B div 8)) c + sp_block (lv_superblocks v ! (i div B div 8)) c (i div B mod 8)) [0..<4] = map ?r [0..<4]"
    using blk by simp
  ultimately show ?thesis
    using j sp_get_rank_all_eq [OF ok, of "i div B mod 8"] by (simp add: lv_rank_all_unchecked_def Let_def lv_rank_intra_block_eq(2) [OF assms(2)] del: map_eq_conv)
qed

section \<open>Select finds the occurrence\<close>

lemma lv_scan_eq:
  assumes "scan_while (rp_counter rs c) i lst step pos = Some m"
  shows "lv_scan (rp_superblocks rs) c i step lst pos = Some (Some m)"
proof -
  have "rp_counter rs c = rp_counter rs c \<longrightarrow> lv_scan (rp_superblocks rs) c i step lst pos = Some (Some m)"
  proof (rule scan_while.raw_induct [OF _ assms, where P = "\<lambda>get i lst step pos m. get = rp_counter rs c \<longrightarrow>
      lv_scan (rp_superblocks rs) c i step lst pos = Some (Some m)"], rule impI)
    fix f :: "(nat \<Rightarrow> nat option) \<Rightarrow> nat \<Rightarrow> nat \<Rightarrow> nat \<Rightarrow> nat \<Rightarrow> nat option" and get i lst step pos m
    assume IH: "\<And>get i lst step pos m. f get i lst step pos = Some m \<Longrightarrow> get = rp_counter rs c \<longrightarrow> lv_scan (rp_superblocks rs) c i step lst pos = Some (Some m)"
      and run: "(if pos < lst then do { v \<leftarrow> get pos; if i \<le> v then Some pos else f get i lst step (pos + step) } else Some pos) = Some m"
      and get: "get = rp_counter rs c"
    show "lv_scan (rp_superblocks rs) c i step lst pos = Some (Some m)"
    proof (cases "pos < lst")
      case False
      then show ?thesis using run by (subst lv_scan.simps) simp
    next
      case True
      then obtain n where n: "pos < length (rp_superblocks rs)" "sp_get_superblock_counter (rp_superblocks rs ! pos) c = Some n"
        "(if i \<le> n then Some pos else f get i lst step (pos + step)) = Some m"
        using run by (auto simp: get rp_counter_def idx_def bind_eq_Some_conv split: if_splits)
      then show ?thesis using True IH [of get i lst step "pos + step" m] get by (subst lv_scan.simps) (simp split: if_splits)
    qed
  qed
  then show ?thesis by simp
qed

lemma lv_select_block_eq:
  assumes "rp_select_block B (rq_rs_support (lv_vec v)) c i = Some res"
  shows "lv_select_block B v c i = Some (Some res)"
proof -
  let ?rs = "rq_rs_support (lv_vec v)"
  obtain i1 samples f l d m1 a m2 b sb rank target where h: "chk_sub i 1 = Some i1" "idx (lv_select_samples v) c = Some samples"
    "idx samples (i1 div 8192) = Some f" "idx samples (i1 div 8192 + 1) = Some l" "chk_sub (1 + unat l) (unat f) = Some d"
    "scan_while (rp_counter ?rs c) i (1 + unat l) (isqrt d + 1) (unat f) = Some m1" "chk_sub m1 (isqrt d + 1) = Some a"
    "scan_while (rp_counter ?rs c) i (1 + unat l) 1 a = Some m2" "chk_sub m2 1 = Some b"
    "idx (lv_superblocks v) b = Some sb" "sp_get_superblock_counter sb c = Some rank" "chk_sub i rank = Some target"
    "(case sp_block_predecessor sb c target of None \<Rightarrow> None | Some (block_id, block_rank) \<Rightarrow> Some (b * B * 8 + block_id * B, rank + block_rank)) = Some res"
    using assms unfolding rp_select_block_def Let_def bind_eq_Some_conv lv_vec_simps by (auto simp: bind_eq_Some_conv)
  note scans = lv_scan_eq [OF h(6)] lv_scan_eq [OF h(8)]
  have sub: "a = m1 - (isqrt d + 1)" "b = m2 - 1" "target = i - rank" "rank \<le> i" using h(7,9,12) by (auto simp: chk_sub_def split: if_splits)
  have smp: "i1 div 8192 + 1 < length samples" "samples ! (i1 div 8192) = f" "samples ! (i1 div 8192 + 1) = l"
    and sblk: "b < length (lv_superblocks v)" "lv_superblocks v ! b = sb" using h(3,4,10) by (auto simp: idx_def split: if_splits)
  obtain block_id block_rank where pred: "sp_block_predecessor sb c target = Some (block_id, block_rank)"
    "res = (b * B * 8 + block_id * B, rank + block_rank)" using h(13) by (auto split: option.splits)
  show ?thesis
    unfolding lv_select_block_def h(1,2) Let_def Option.bind_lunit if_P [OF smp(1)] smp(2,3) h(5) scans [simplified lv_vec_simps] option.case
      sub(1,2) [symmetric] if_P [OF sblk(1)] sblk(2) h(11) if_P [OF sub(4)] sub(3) [symmetric] pred prod.case ..
qed

lemma lv_select_lines_eq:
  "rq_select_lines data l c js i result = Some x \<Longrightarrow>
    lv_select_lines data l c js i result = Some (Some x) \<or> (\<forall>r. rq_select_lines data l c js i r = Some 0)"
proof (induction js arbitrary: i result)
  case (Cons j js)
  obtain w0 w1 where w: "l + j < length data" "normalize (data ! (l + j)) c = Some (w0, w1)"
    using Cons.prems by (auto simp: idx_def rq_select_line_def bind_eq_Some_conv split: if_splits)
  consider "pop w0 > i" | "pop w0 \<le> i" "pop w1 > i - pop w0" | "pop w0 \<le> i" "pop w1 \<le> i - pop w0" by linarith
  then show ?case
  proof cases
    case 1
    then show ?thesis using Cons.prems w by (auto simp: rq_select_line_def bind_eq_Some_conv)
  next
    case 2
    then show ?thesis using Cons.prems w by (auto simp: rq_select_line_def bind_eq_Some_conv)
  next
    case 3
    then have line: "rq_select_line (data ! (l + j)) c i = Some (Inr (i - pop w0 - pop w1))" using w(2) by (simp add: rq_select_line_def)
    then show ?thesis using Cons.prems w 3 Cons.IH [of "i - pop w0 - pop w1" "result + 256"] by (auto simp: add.assoc)
  qed
qed simp

lemma lv_select_eq:
  assumes ok: "lv_ok B v" and B: "B = 256 \<or> B = 512"
  shows "lv_select B v c i = Some (if c < 4 then select_of (lv_list v) c i else None)"
proof (cases "c < 4")
  case c: True
  have rq: "rq_ok (rp_inv B) (lv_vec v)" using ok by (simp add: lv_ok_def)
  show ?thesis
  proof (cases "select_of (lv_list v) c i")
    case None
    then have "count_list (lv_list v) c \<le> i" by (simp add: select_of_None)
    then show ?thesis using ok c None by (simp add: lv_select_def lv_occs_eq)
  next
    case (Some p)
    have lt: "\<not> count_list (lv_list v) c \<le> i" using Some by (auto simp: select_of_None [symmetric])
    have pl: "p < lv_len v" using Some by (simp add: select_of_Some lv_len_eq)
    obtain pos where pos: "rp_select_block B (rq_rs_support (lv_vec v)) c (i + 1) = Some (pos, rank_of (lv_list v) c pos)"
      "rank_of (lv_list v) c pos \<le> i" "pos \<le> p"
      "\<And>result. rq_select_lines (lv_data v) (pos div 256) c [0..<(if B = 256 then 1 else 2)] (i - rank_of (lv_list v) c pos) result = Some (result + (p - pos))"
      by (rule rs_support.select_found [OF rs_plain_support [OF B] rq c Some [unfolded lv_list_def]]) (simp_all add: rs_plain_def lv_list_def)
    have "lv_select_lines (lv_data v) (pos div 256) c [0..<(if B = 256 then 1 else 2)] (i - rank_of (lv_list v) c pos) 0 = Some (Some (p - pos))"
      using lv_select_lines_eq [OF pos(4) [of 0]] pos(4) [of 1] by (auto simp del: rq_select_lines.simps lv_select_lines.simps)
    then have intra: "lv_select_intra_block B v c (i - rank_of (lv_list v) c pos + 1) pos = Some (Some (p - pos))"
      by (simp add: lv_select_intra_block_def Let_def del: lv_select_lines.simps)
    show ?thesis
      using c lt pl pos(2,3) intra lv_select_block_eq [OF pos(1)] Some
      by (simp add: lv_select_def lv_occs_eq [OF ok])
  qed
qed (simp add: lv_select_def)

section \<open>The contract of the levels\<close>

text \<open>A view cannot be built from a vector and offers no other queries.\<close>

definition lv_ops :: "nat \<Rightarrow> rsqv_view wt_support_ops" where
  "lv_ops B = \<lparr>w_from = \<lambda>_. None, w_default = None, w_get = lv_get, w_get_unchecked = lv_get_unchecked, w_rank = lv_rank B,
     w_rank_unchecked = lv_rank_unchecked B, w_rank_all_unchecked = lv_rank_all_unchecked B, w_select = lv_select B,
     w_occs = \<lambda>_ _. None, w_occs_smaller = \<lambda>_ _. None, w_occs_smaller_unchecked = lv_occs_smaller_unchecked,
     w_rank_block_unchecked = \<lambda>_ _ _. None\<rparr>"

lemma lv_ops_simps [simp]:
  "w_get_unchecked (lv_ops B) = lv_get_unchecked" "w_rank (lv_ops B) = lv_rank B" "w_rank_unchecked (lv_ops B) = lv_rank_unchecked B"
  "w_rank_all_unchecked (lv_ops B) = lv_rank_all_unchecked B" "w_select (lv_ops B) = lv_select B"
  "w_occs_smaller_unchecked (lv_ops B) = lv_occs_smaller_unchecked"
  by (simp_all add: lv_ops_def)

definition view_rep :: "nat \<Rightarrow> rsqv_view \<Rightarrow> nat list \<Rightarrow> bool" where
  "view_rep B v D \<longleftrightarrow> lv_ok B v \<and> lv_list v = D"

lemma lv_contract: "B = 256 \<or> B = 512 \<Longrightarrow> wt_queries (lv_ops B) (view_rep B)"
  by unfold_locales (auto simp: view_rep_def lv_get_unchecked_eq lv_rank_eq lv_rank_unchecked_eq lv_rank_all_unchecked_eq lv_select_eq lv_occs_smaller_eq)

interpretation lv256: wt_queries "lv_ops 256" "view_rep 256"
  by (rule lv_contract) simp

interpretation lv512: wt_queries "lv_ops 512" "view_rep 512"
  by (rule lv_contract) simp

end
