(* ===== verification/LevelCursor.thy ===== *)
theory LevelCursor
  imports LevelQuery BitVecIter
begin

text \<open>
  \<open>select_after\<close> of \<^verbatim>\<open>src/bytes/level.rs\<close>: from one occurrence of a symbol to a later one, by scanning the data lines.
\<close>

unbundle bit_operations_syntax

section \<open>The scan\<close>

text \<open>\<open>(selected < self.len()).then_some(selected)\<close>\<close>

definition lv_selected :: "rsqv_view \<Rightarrow> nat \<Rightarrow> nat option option" where
  "lv_selected self selected = Some (if selected < lv_len self then Some selected else None)"

text \<open>The words of the line with the bits before \<open>offset\<close> cleared.\<close>

definition lv_masked :: "nat \<Rightarrow> u128 \<times> u128 \<Rightarrow> u128 \<times> u128" where
  "lv_masked offset words = (case words of (low, high) \<Rightarrow>
     if offset < 128 then (low AND push_bit offset (- 1), high)
     else (0, high AND push_bit (offset - 128) (- 1)))"

partial_function (option) lv_after_loop :: "rsqv_view \<Rightarrow> nat \<Rightarrow> nat \<Rightarrow> nat \<Rightarrow> nat option option" where
  "lv_after_loop self symbol next_pos advance =
     (if next_pos < lv_len self then
        (let line_index = next_pos div 256; offset = next_pos mod 256
         in if line_index < length (lv_data self) then do {
              words \<leftarrow> normalize (lv_data self ! line_index) symbol;
              let (low, high) = lv_masked offset words;
              let following = checked_mul (line_index + 1) 256;
              if advance = 1 then
                (if low \<noteq> 0 then lv_selected self (line_index * 256 + trailing_zeros low)
                 else if high \<noteq> 0 then lv_selected self (line_index * 256 + 128 + trailing_zeros high)
                 else (case following of None \<Rightarrow> Some None | Some next_pos \<Rightarrow> lv_after_loop self symbol next_pos advance))
              else do {
                let low_count = pop low;
                if advance \<le> low_count then do {
                  k \<leftarrow> chk_sub advance 1;
                  selected \<leftarrow> select_in_word_u128 low (of_nat k);
                  lv_selected self (line_index * 256 + selected)
                } else do {
                  let advance = advance - low_count;
                  let high_count = pop high;
                  if advance \<le> high_count then do {
                    k \<leftarrow> chk_sub advance 1;
                    selected \<leftarrow> select_in_word_u128 high (of_nat k);
                    lv_selected self (line_index * 256 + 128 + selected)
                  } else
                    (case following of None \<Rightarrow> Some None
                     | Some next_pos \<Rightarrow> lv_after_loop self symbol next_pos (advance - high_count))
                }
              }
            } else Some None)
      else Some None)"

definition lv_select_after :: "rsqv_view \<Rightarrow> nat \<Rightarrow> nat \<Rightarrow> nat \<Rightarrow> nat option option" where
  "lv_select_after self symbol position advance =
     (if symbol > 3 \<or> position \<ge> lv_len self \<or> advance = 0 then Some None
      else (case add_usize position 1 of None \<Rightarrow> Some None
        | Some next_pos \<Rightarrow> lv_after_loop self symbol next_pos advance))"

section \<open>It finds the occurrence\<close>

lemma selp_at: "P q \<Longrightarrow> cntp P q = k \<Longrightarrow> selp P n k = (if q < n then Some q else None)"
  using cntp_mono [of n q P] by (auto simp: selp_None_iff intro: selpI)

text \<open>The symbols of the lines, padding included.\<close>

definition line_sym :: "rsqv_view \<Rightarrow> nat \<Rightarrow> nat" where
  "line_sym v j = dl_sym (lv_data v ! (j div 256)) (j mod 256)"

lemma select_of_lines: "select_of (lv_list v) c k = selp (\<lambda>j. line_sym v j = c) (lv_len v) k"
proof -
  have "lv_list v ! j = line_sym v j" if "j < lv_len v" for j
    using that by (simp add: lv_list_def rq_list_def lv_len_def nth_qv_list qv_sym_def line_sym_def qv_len_def)
  then have "filter (\<lambda>j. lv_list v ! j = c) [0..<lv_len v] = filter (\<lambda>j. line_sym v j = c) [0..<lv_len v]" by (intro filter_cong) auto
  then show ?thesis by (simp add: select_of_def selp_def lv_len_eq [symmetric])
qed

lemma masked_bits:
  assumes ok: "dl_ok dl" "c < 4" and j: "j < 128"
    and w: "normalize dl c = Some (w0, w1)" and m: "lv_masked offset (w0, w1) = (low, high)"
  shows "bit low j \<longleftrightarrow> offset \<le> j \<and> dl_sym dl j = c" "bit high j \<longleftrightarrow> offset \<le> 128 + j \<and> dl_sym dl (128 + j) = c"
proof -
  have b: "bit w0 j \<longleftrightarrow> dl_sym dl j = c" "bit w1 j \<longleftrightarrow> dl_sym dl (128 + j) = c" if "j < 128" for j
    using normalize_eq [OF ok] w that by (metis option.inject prod.inject)+
  show "bit low j \<longleftrightarrow> offset \<le> j \<and> dl_sym dl j = c" "bit high j \<longleftrightarrow> offset \<le> 128 + j \<and> dl_sym dl (128 + j) = c"
    using m j b [OF j] by (auto simp: lv_masked_def bit_and_iff bit_not_iff bit_mask_iff push_bit_minus_one_eq_not_mask split: if_splits)
qed

lemma after_loop_eq:
  assumes ok: "lv_ok B v" and c: "c < 4" and small: "lv_position_bits v < 2 ^ 64" and a: "0 < a"
  shows "lv_after_loop v c next_pos a = Some (selp (\<lambda>j. line_sym v j = c) (lv_len v) (cntp (\<lambda>j. line_sym v j = c) next_pos + a - 1))"
  using a
proof (induction "lv_len v - next_pos" arbitrary: next_pos a rule: less_induct)
  case less
  let ?Q = "\<lambda>j. line_sym v j = c" and ?n = "lv_len v"
  show ?case
  proof (cases "next_pos < ?n")
    case False
    then have "cntp ?Q ?n \<le> cntp ?Q next_pos" by (intro cntp_mono) simp
    then have "selp ?Q ?n (cntp ?Q next_pos + a - 1) = None" using less.prems by (simp add: selp_None_iff)
    then show ?thesis using False by (simp add: lv_after_loop.simps [of _ _ next_pos])
  next
    case True
    define l where "l = next_pos div 256"
    define k where "k = next_pos mod 256"
    define W where "W = (\<lambda>j. k \<le> j \<and> ?Q (l * 256 + j))"
    have np: "next_pos = l * 256 + k" "k < 256" by (simp_all add: l_def k_def)
    have qv: "qv_ok (rq_qv (lv_vec v))" by (rule lv_okD(1) [OF ok])
    have ll: "l < length (lv_data v)" using qv_len_line [OF qv, of next_pos] True by (simp add: lv_len_def qv_len_def l_def)
    have dl: "dl_ok (lv_data v ! l)" using qv_line_ok [OF qv, of l] ll by simp
    have Q: "?Q (l * 256 + j) \<longleftrightarrow> dl_sym (lv_data v ! l) j = c" if "j < 256" for j using that by (simp add: line_sym_def)
    obtain w0 w1 where w: "normalize (lv_data v ! l) c = Some (w0, w1)" using normalize_eq [OF dl c] by metis
    obtain low high where m: "lv_masked k (w0, w1) = (low, high)" by force
    note bits = masked_bits [OF dl c _ w m]
    have low: "bit low j \<longleftrightarrow> W j" and high: "bit high j \<longleftrightarrow> W (128 + j)" if "j < 128" for j
      using bits [OF that] Q that by (simp_all add: W_def)
    have cW: "cntp W j + cntp ?Q next_pos = cntp ?Q (l * 256 + j)" if "k \<le> j" for j
    proof -
      have "cntp W k = 0" by (simp add: cntp_zero_iff W_def)
      moreover have "cntp (\<lambda>i. W (k + i)) (j - k) = cntp (\<lambda>i. ?Q (next_pos + i)) (j - k)"
        by (intro cntp_cong) (simp add: W_def np(1) add.assoc)
      moreover have "cntp W (k + (j - k)) = cntp W k + cntp (\<lambda>i. W (k + i)) (j - k)" by (rule cntp_add)
      moreover have "cntp ?Q (next_pos + (j - k)) = cntp ?Q next_pos + cntp (\<lambda>i. ?Q (next_pos + i)) (j - k)" by (rule cntp_add)
      moreover have "k + (j - k) = j" "next_pos + (j - k) = l * 256 + j" using that np(1) by simp_all
      ultimately show ?thesis by simp
    qed
    have found: "selp ?Q ?n (cntp ?Q next_pos + a - 1) = (if l * 256 + j < ?n then Some (l * 256 + j) else None)"
      if "W j" "cntp W j + 1 = a" for j
    proof (rule selp_at)
      show "?Q (l * 256 + j)" using that(1) by (simp add: W_def)
      show "cntp ?Q (l * 256 + j) = cntp ?Q next_pos + a - 1" using cW [of j] that by (simp add: W_def)
    qed
    have c0: "cntp (bit low) j = cntp W j" if "j \<le> 128" for j using low that by (intro cntp_cong) auto
    have c1: "cntp W (128 + j) = cntp W 128 + cntp (bit high) j" if "j \<le> 128" for j
      unfolding cntp_add using high that by (intro arg_cong2 [of _ _ _ _ "(+)"] refl cntp_cong) auto
    have p0: "pop low = cntp W 128" and p1: "cntp W 256 = cntp W 128 + pop high" using c0 [of 128] c1 [of 128] by (simp_all add: pop_def)
    have len64: "(l + 1) * 256 < 2 ^ 64"
      using True np(1) small by (simp add: lv_len_def)
    then have fol: "checked_mul (l + 1) 256 = Some ((l + 1) * 256)" by (simp add: checked_mul_def)
    have c256: "cntp W 256 + cntp ?Q next_pos = cntp ?Q ((l + 1) * 256)" using cW [of 256] np(2) by (simp add: add.commute)
    have IH: "lv_after_loop v c ((l + 1) * 256) a' = Some (selp ?Q ?n (cntp ?Q next_pos + a - 1))" if "a' = a - cntp W 256" "cntp W 256 < a" for a'
    proof -
      have "?n - (l + 1) * 256 < ?n - next_pos" using True np by simp
      moreover have "0 < a'" using that by simp
      moreover have "cntp ?Q ((l + 1) * 256) + a' - 1 = cntp ?Q next_pos + a - 1" using c256 that by simp
      ultimately show ?thesis using less.hyps by metis
    qed
    have sel: "select_in_word_u128 x (of_nat i) = selp (bit x) 128 i" if "i < cntp (bit x) 128" for x i
    proof -
      have "i < 128" using that cntp_le [of "bit x" 128] by simp
      then have u: "unat (of_nat i :: u64) = i" by (simp add: unat_of_nat_small)
      have "selp (bit x) 128 i \<noteq> None" using that by (simp add: selp_None_iff)
      then obtain p where "selp (bit x) 128 i = Some p" by blast
      then show ?thesis using select_in_word_u128_eq [of "of_nat i" x] \<open>i < 128\<close> by (simp add: u)
    qed
    have unfold: "lv_after_loop v c next_pos a =
      (if a = 1 then
         (if low \<noteq> 0 then lv_selected v (l * 256 + trailing_zeros low)
          else if high \<noteq> 0 then lv_selected v (l * 256 + 128 + trailing_zeros high)
          else lv_after_loop v c ((l + 1) * 256) a)
       else if a \<le> pop low then do {
          k \<leftarrow> chk_sub a 1;
          selected \<leftarrow> select_in_word_u128 low (of_nat k);
          lv_selected v (l * 256 + selected)
       } else if a - pop low \<le> pop high then do {
          k \<leftarrow> chk_sub (a - pop low) 1;
          selected \<leftarrow> select_in_word_u128 high (of_nat k);
          lv_selected v (l * 256 + 128 + selected)
       } else lv_after_loop v c ((l + 1) * 256) (a - pop low - pop high))"
      using True ll fol by (subst lv_after_loop.simps) (simp add: l_def [symmetric] k_def [symmetric] w m Let_def)
    have tz: "bit x (trailing_zeros x)" "cntp (bit x) (trailing_zeros x) = 0" "trailing_zeros x < 128" if "x \<noteq> 0" for x :: u128
      using trailing_zeros_bit [OF that] by (simp_all add: cntp_zero_iff)
    have zero: "cntp (bit (0 :: u128)) 128 = 0" by (simp add: cntp_zero_iff)
    consider (first) "a = 1" "low \<noteq> 0" | (second) "a = 1" "low = 0" "high \<noteq> 0" | (none) "a = 1" "low = 0" "high = 0"
      | (low) "a \<noteq> 1" "a \<le> pop low" | (high) "a \<noteq> 1" "\<not> a \<le> pop low" "a - pop low \<le> pop high" | (next_line) "a \<noteq> 1" "\<not> a \<le> pop low" "\<not> a - pop low \<le> pop high"
      by blast
    then show ?thesis
    proof cases
      case first
      let ?j = "trailing_zeros low"
      have "W ?j" "cntp W ?j + 1 = a" using tz [OF first(2)] low [of ?j] c0 [of ?j] first(1) by simp_all
      then show ?thesis using unfold first found [of ?j] by (simp add: lv_selected_def)
    next
      case second
      let ?j = "trailing_zeros high"
      have "cntp W 128 = 0" using p0 second(2) zero by (simp add: pop_def)
      then have "W (128 + ?j)" "cntp W (128 + ?j) + 1 = a" using tz [OF second(3)] high [of ?j] c1 [of ?j] second(1) by simp_all
      then show ?thesis using unfold second found [of "128 + ?j"] by (simp add: lv_selected_def add.assoc)
    next
      case none
      then have "cntp W 256 = 0" using p0 p1 zero by (simp add: pop_def)
      then show ?thesis using unfold none IH [of a] by simp
    next
      case lo: low
      have lt: "a - 1 < cntp (bit low) 128" using lo less.prems by (simp add: pop_def)
      then have "selp (bit low) 128 (a - 1) \<noteq> None" by (simp add: selp_None_iff)
      then obtain j where j: "selp (bit low) 128 (a - 1) = Some j" by blast
      then have "W j" "cntp W j + 1 = a" using low [of j] c0 [of j] less.prems by (simp_all add: selp_eq_Some_iff)
      then show ?thesis using unfold lo sel [OF lt] j found [of j] less.prems by (simp add: lv_selected_def chk_sub_def)
    next
      case hi: high
      have lt: "a - pop low - 1 < cntp (bit high) 128" using hi by (simp add: pop_def)
      then have "selp (bit high) 128 (a - pop low - 1) \<noteq> None" by (simp add: selp_None_iff)
      then obtain j where j: "selp (bit high) 128 (a - pop low - 1) = Some j" by blast
      then have "W (128 + j)" "cntp W (128 + j) + 1 = a" using high [of j] c1 [of j] p0 hi(2) by (simp_all add: selp_eq_Some_iff)
      then show ?thesis using unfold hi sel [OF lt] j found [of "128 + j"] by (simp add: lv_selected_def chk_sub_def add.assoc)
    next
      case next_line
      then have "cntp W 256 < a" "a - pop low - pop high = a - cntp W 256" using p0 p1 by simp_all
      then show ?thesis using unfold next_line IH [of "a - pop low - pop high"] by simp
    qed
  qed
qed

lemma lv_select_after_eq:
  assumes ok: "lv_ok B v" and c: "c < 4" and small: "lv_position_bits v < 2 ^ 64"
    and p: "p < length (lv_list v)" "lv_list v ! p = c" and a: "0 < a"
  shows "lv_select_after v c p a = Some (select_of (lv_list v) c (rank_of (lv_list v) c p + a))"
proof -
  let ?Q = "\<lambda>j. line_sym v j = c"
  have sym: "lv_list v ! j = line_sym v j" if "j < lv_len v" for j
    using that by (simp add: lv_list_def rq_list_def lv_len_def nth_qv_list qv_sym_def line_sym_def qv_len_def)
  have pl: "p < lv_len v" using p(1) by (simp add: lv_len_eq)
  have "rank_of (lv_list v) c p = cntp (\<lambda>j. lv_list v ! j = c) p" using p(1) by (intro rank_of_cntp) simp
  also have "\<dots> = cntp ?Q p" using pl by (intro cntp_cong) (simp add: sym)
  finally have r: "cntp ?Q (p + 1) = rank_of (lv_list v) c p + 1" using sym [OF pl] p(2) by simp
  have "lv_len v < 2 ^ 63" using small by (simp add: lv_len_def)
  then have "add_usize p 1 = Some (p + 1)" using pl by (simp add: add_usize_def)
  then show ?thesis
    using c pl a after_loop_eq [OF ok c small a, of "p + 1"] unfolding r select_of_lines by (simp add: lv_select_after_def)
qed

end
