(* ===== verification/View.thy ===== *)
theory View
  imports LevelCursor
begin

text \<open>
  \<open>QwtView\<close>, the borrowed view of a plain tree in a \<open>QWTB\<close> blob, \<^verbatim>\<open>src/bytes/view.rs\<close>: opening it, its queries, the
  extractions from a range and the cursor over the occurrences of one symbol. \<open>base\<close> is the address of the blob.
\<close>

unbundle bit_operations_syntax

section \<open>Opening\<close>

record 'a qwt_view =
  vw_n :: nat
  vw_n_levels :: nat
  vw_sigma :: 'a
  vw_levels :: "rsqv_view list"

definition vw_level_step :: "nat \<Rightarrow> nat \<Rightarrow> u8 list \<Rightarrow> rsqv_view list \<Rightarrow> nat \<Rightarrow> (layout_error + rsqv_view list) option" where
  "vw_level_step B base bytes levels li = do {
     let dir_off = HEADER_SIZE + li * LEVEL_DIR_SIZE;
     buf \<leftarrow> range_of bytes dir_off (dir_off + LEVEL_DIR_SIZE);
     rbind (level_dir_read buf) (\<lambda>dir.
     rbind (lv_from_dir B base bytes dir) (\<lambda>level.
     Some (Inr (levels @ [level]))))
   }"

text \<open>One level of the descent along the largest symbol.\<close>

definition vw_max_step :: "nat \<Rightarrow> nat \<Rightarrow> 'a::len word \<times> nat \<times> nat \<Rightarrow> nat \<times> rsqv_view \<Rightarrow> (layout_error + 'a word \<times> nat \<times> nat) option" where
  "vw_max_step B n_levels st il = (
     let (actual_sigma, start, end') = st; (level_index, level) = il
     in do {
       ranks_start \<leftarrow> lv_rank_all_unchecked B level start;
       ranks_end \<leftarrow> lv_rank_all_unchecked B level end';
       case find (\<lambda>digit. ranks_end ! digit > ranks_start ! digit) (rev [0..<4]) of
         None \<Rightarrow> Some (Inl (Inconsistent ''plain QWT maximum path is empty''))
       | Some digit \<Rightarrow>
           let actual_sigma = push_bit 2 actual_sigma OR of_nat digit
           in if level_index + 1 < n_levels then do {
                offset \<leftarrow> idx (lv_n_occs_smaller level) digit;
                Some (Inr (actual_sigma, offset + ranks_start ! digit, offset + ranks_end ! digit))
              } else Some (Inr (actual_sigma, start, end'))
     })"

definition vw_from_bytes :: "bool \<Rightarrow> nat \<Rightarrow> nat \<Rightarrow> u8 list \<Rightarrow> (layout_error + 'a::len word qwt_view) option" where
  "vw_from_bytes little_endian B base bytes =
     rbind (read_preamble little_endian QWTB_MAGIC B (size_of_T TYPE('a)) bytes) (\<lambda>p. do {
       (n, p) \<leftarrow> get_u64 bytes p;
       (sigma_u, p) \<leftarrow> get_u64 bytes p;
       (n_levels, p) \<leftarrow> get_u16 bytes p;
       let n = unat n;
       let n_levels = unat n_levels;
       let sigma = (ucast sigma_u :: 'a word);
       let max_type_levels = div_ceil (size_of_T TYPE('a) * 8) 2;
       rbind (reject (as_usize sigma \<noteq> sigma_u \<or> n_levels > MAX_QUAD_LEVELS \<or> n_levels > max_type_levels \<or> (n > 0 \<and> n_levels = 0)
           \<or> (n = 0 \<and> (n_levels \<noteq> 0 \<or> sigma \<noteq> 0)))
         (Inconsistent ''plain QWT level count is invalid'')) (\<lambda>_.
       rbind (directory_end n_levels LEVEL_DIR_SIZE (length bytes)) (\<lambda>dir_end.
       rbind (foldR (vw_level_step B base bytes) [] [0..<n_levels]) (\<lambda>levels.
       rbind (reject (list_ex (\<lambda>level. lv_len level \<noteq> n) levels)
         (Inconsistent ''plain QWT level length disagrees with header length'')) (\<lambda>_.
       rbind (reject (n > 0 \<and> n_levels \<noteq> div_ceil (msb_of sigma + 1) 2)
         (Inconsistent ''plain QWT level count disagrees with sigma'')) (\<lambda>_.
       rbind (if n > 0 then
            rbind (foldR (vw_max_step B n_levels) (0, 0, n) (zip [0..<length levels] levels)) (\<lambda>(actual_sigma, _, _).
              reject (actual_sigma \<noteq> sigma) (Inconsistent ''plain QWT sigma disagrees with encoded payload''))
          else Some (Inr ())) (\<lambda>_.
       Some (Inr \<lparr>vw_n = n, vw_n_levels = n_levels, vw_sigma = sigma, vw_levels = levels\<rparr>)))))))
     })"

definition vw_len :: "'a qwt_view \<Rightarrow> nat" where
  "vw_len self = vw_n self"

definition vw_is_empty :: "'a qwt_view \<Rightarrow> bool" where
  "vw_is_empty self \<longleftrightarrow> vw_n self = 0"

section \<open>Access and rank\<close>

definition vw_get_step :: "'a::len word qwt_view \<Rightarrow> nat \<Rightarrow> 'a word \<times> nat \<Rightarrow> nat \<Rightarrow> ('a word \<times> nat) option" where
  "vw_get_step self B st level = (
     let (result, cur_i) = st
     in do {
       lv \<leftarrow> idx (vw_levels self) level;
       symbol \<leftarrow> lv_get_unchecked lv cur_i;
       offset \<leftarrow> lv_occs_smaller_unchecked lv symbol;
       r \<leftarrow> lv_rank_unchecked B lv symbol cur_i;
       Some (push_digit result symbol, r + offset)
     })"

definition vw_get_unchecked :: "nat \<Rightarrow> 'a::len word qwt_view \<Rightarrow> nat \<Rightarrow> 'a word option" where
  "vw_get_unchecked B self i = do {
     l \<leftarrow> chk_sub (vw_n_levels self) 1;
     (result, cur_i) \<leftarrow> foldM (vw_get_step self B) (0, i) [0..<l];
     lv \<leftarrow> idx (vw_levels self) l;
     symbol \<leftarrow> lv_get_unchecked lv cur_i;
     Some (push_digit result symbol)
   }"

definition vw_get :: "nat \<Rightarrow> 'a::len word qwt_view \<Rightarrow> nat \<Rightarrow> 'a word option option" where
  "vw_get B self i = (if i \<ge> vw_n self \<or> vw_n_levels self = 0 then Some None
     else do { v \<leftarrow> vw_get_unchecked B self i; Some (Some v) })"

definition vw_get_and_rank_step :: "'a::len word qwt_view \<Rightarrow> nat \<Rightarrow> 'a word \<times> nat \<times> nat \<Rightarrow> nat \<Rightarrow> ('a word \<times> nat \<times> nat) option" where
  "vw_get_and_rank_step self B st level = (
     let (result, cur_i, cur_p) = st
     in do {
       lv \<leftarrow> idx (vw_levels self) level;
       symbol \<leftarrow> lv_get_unchecked lv cur_i;
       offset \<leftarrow> lv_occs_smaller_unchecked lv symbol;
       rp \<leftarrow> lv_rank_unchecked B lv symbol cur_p;
       ri \<leftarrow> lv_rank_unchecked B lv symbol cur_i;
       Some (push_digit result symbol, ri + offset, rp + offset)
     })"

definition vw_get_and_rank_unchecked :: "nat \<Rightarrow> 'a::len word qwt_view \<Rightarrow> nat \<Rightarrow> ('a word \<times> nat) option" where
  "vw_get_and_rank_unchecked B self i = do {
     last \<leftarrow> chk_sub (vw_n_levels self) 1;
     (result, cur_i, cur_p) \<leftarrow> foldM (vw_get_and_rank_step self B) (0, i, 0) [0..<last];
     lv \<leftarrow> idx (vw_levels self) last;
     symbol \<leftarrow> lv_get_unchecked lv cur_i;
     r_i \<leftarrow> lv_rank_unchecked B lv symbol cur_i;
     r_p \<leftarrow> lv_rank_unchecked B lv symbol cur_p;
     d \<leftarrow> chk_sub r_i r_p;
     Some (push_digit result symbol, d + 1)
   }"

definition vw_get_and_rank :: "nat \<Rightarrow> 'a::len word qwt_view \<Rightarrow> nat \<Rightarrow> ('a word \<times> nat) option option" where
  "vw_get_and_rank B self i = (if i \<ge> vw_n self \<or> vw_n_levels self = 0 then Some None
     else do { r \<leftarrow> vw_get_and_rank_unchecked B self i; Some (Some r) })"

definition vw_rank_step :: "'a::len word qwt_view \<Rightarrow> nat \<Rightarrow> 'a word \<Rightarrow> int \<times> nat \<times> nat \<Rightarrow> nat \<Rightarrow> (int \<times> nat \<times> nat) option" where
  "vw_rank_step self B symbol st level = (
     let (shift, cur_i, cur_p) = st
     in do {
       two_bits \<leftarrow> two_bits_T (nat shift) symbol;
       lv \<leftarrow> idx (vw_levels self) level;
       offset \<leftarrow> lv_occs_smaller_unchecked lv two_bits;
       rp \<leftarrow> lv_rank_unchecked B lv two_bits cur_p;
       ri \<leftarrow> lv_rank_unchecked B lv two_bits cur_i;
       Some (shift - 2, ri + offset, rp + offset)
     })"

definition vw_rank_unchecked :: "nat \<Rightarrow> 'a::len word qwt_view \<Rightarrow> 'a word \<Rightarrow> nat \<Rightarrow> nat option" where
  "vw_rank_unchecked B self symbol i = do {
     l \<leftarrow> chk_sub (vw_n_levels self) 1;
     (shift, cur_i, cur_p) \<leftarrow> foldM (vw_rank_step self B symbol) (int (2 * l), i, 0) [0..<l];
     two_bits \<leftarrow> two_bits_T (nat shift) symbol;
     lv \<leftarrow> idx (vw_levels self) l;
     cur_i \<leftarrow> lv_rank_unchecked B lv two_bits cur_i;
     cur_p \<leftarrow> lv_rank_unchecked B lv two_bits cur_p;
     chk_sub cur_i cur_p
   }"

definition vw_rank :: "nat \<Rightarrow> 'a::len word qwt_view \<Rightarrow> 'a word \<Rightarrow> nat \<Rightarrow> nat option option" where
  "vw_rank B self symbol i =
     (if vw_n_levels self = 0 then Some (if i \<le> vw_n self then Some 0 else None)
      else if i > vw_n self \<or> symbol > vw_sigma self then Some None
      else do { r \<leftarrow> vw_rank_unchecked B self symbol i; Some (Some r) })"

section \<open>Select\<close>

fun vw_select_down :: "nat \<Rightarrow> 'a::len word qwt_view \<Rightarrow> 'a word \<Rightarrow> nat list \<Rightarrow> int \<Rightarrow> nat \<Rightarrow>
    nat list \<Rightarrow> nat list \<Rightarrow> (unit + nat list \<times> nat list) option" where
  "vw_select_down B self symbol [] shift b path_off rank_path_off = Some (Inr (path_off, rank_path_off))"
| "vw_select_down B self symbol (level # levels) shift b path_off rank_path_off = do {
     guard (level < length path_off);
     let path_off = path_off[level := b];
     two_bits \<leftarrow> two_bits_T (nat shift) symbol;
     lv \<leftarrow> idx (vw_levels self) level;
     if b > lv_len lv then Some (Inl ())
     else do {
       rank_b \<leftarrow> lv_rank_unchecked B lv two_bits b;
       offset \<leftarrow> lv_occs_smaller_unchecked lv two_bits;
       guard (level < length rank_path_off);
       vw_select_down B self symbol levels (shift - 2) (rank_b + offset) path_off (rank_path_off[level := rank_b])
     }
   }"

fun vw_select_up :: "nat \<Rightarrow> 'a::len word qwt_view \<Rightarrow> 'a word \<Rightarrow> nat list \<Rightarrow> nat \<Rightarrow> nat list \<Rightarrow> nat list \<Rightarrow> nat \<Rightarrow> nat option option" where
  "vw_select_up B self symbol [] shift path_off rank_path_off result = Some (Some result)"
| "vw_select_up B self symbol (level # levels) shift path_off rank_path_off result = do {
     b \<leftarrow> idx path_off level;
     rank_b \<leftarrow> idx rank_path_off level;
     two_bits \<leftarrow> two_bits_T shift symbol;
     lv \<leftarrow> idx (vw_levels self) level;
     r \<leftarrow> lv_select B lv two_bits (rank_b + result);
     case r of
       None \<Rightarrow> Some None
     | Some p \<Rightarrow> do {
         result \<leftarrow> chk_sub p b;
         vw_select_up B self symbol levels (shift + 2) path_off rank_path_off result
       }
   }"

definition vw_select :: "nat \<Rightarrow> 'a::len word qwt_view \<Rightarrow> 'a word \<Rightarrow> nat \<Rightarrow> nat option option" where
  "vw_select B self symbol i =
     (if vw_n_levels self = 0 \<or> symbol > vw_sigma self then Some None
      else if vw_n_levels self > MAX_QUAD_LEVELS then Some None
      else do {
        r \<leftarrow> vw_select_down B self symbol [0..<vw_n_levels self] (int (2 * (vw_n_levels self - 1))) 0
          (replicate MAX_QUAD_LEVELS 0) (replicate MAX_QUAD_LEVELS 0);
        case r of
          Inl _ \<Rightarrow> Some None
        | Inr (path_off, rank_path_off) \<Rightarrow>
            vw_select_up B self symbol (rev [0..<vw_n_levels self]) 0 path_off rank_path_off i
      })"

definition vw_select_unchecked :: "nat \<Rightarrow> 'a::len word qwt_view \<Rightarrow> 'a word \<Rightarrow> nat \<Rightarrow> nat option" where
  "vw_select_unchecked B self symbol i = do { r \<leftarrow> vw_select B self symbol i; r }"

section \<open>Extraction\<close>

definition vw_singleton_step :: "'a::len word qwt_view \<Rightarrow> nat \<Rightarrow> 'a word \<times> nat \<Rightarrow> nat \<Rightarrow> ('a word \<times> nat) option" where
  "vw_singleton_step self B st level = (
     let (prefix, pos) = st
     in do {
       lv \<leftarrow> idx (vw_levels self) level;
       dig \<leftarrow> lv_get_unchecked lv pos;
       offset \<leftarrow> lv_occs_smaller_unchecked lv dig;
       r \<leftarrow> lv_rank_unchecked B lv dig pos;
       Some (push_digit prefix dig, r + offset)
     })"

definition vw_extract_singleton_from :: "nat \<Rightarrow> 'a::len word qwt_view \<Rightarrow> nat \<Rightarrow> nat \<Rightarrow> 'a word \<Rightarrow> 'a word option" where
  "vw_extract_singleton_from B self level pos prefix = do {
     (prefix, pos) \<leftarrow> foldM (vw_singleton_step self B) (prefix, pos) [level..<vw_n_levels self - 1];
     lv \<leftarrow> idx (vw_levels self) (max level (vw_n_levels self - 1));
     dig \<leftarrow> lv_get_unchecked lv pos;
     Some (push_digit prefix dig)
   }"

text \<open>The recursion goes down one level at a time; \<open>fuel\<close> bounds its depth. A call returns the part of \<open>out\<close> it fills.\<close>

primrec vw_extract_sorted_rec :: "nat \<Rightarrow> 'a::len word qwt_view \<Rightarrow> nat \<Rightarrow> nat \<Rightarrow> nat \<Rightarrow> nat \<Rightarrow> 'a word \<Rightarrow> 'a word list option" where
  "vw_extract_sorted_rec B self 0 = (\<lambda>level start end' prefix. None)"
| "vw_extract_sorted_rec B self (Suc fuel) = (\<lambda>level start end' prefix.
     if start \<ge> end' then Some []
     else if end' - start = 1 then do {
       v \<leftarrow> vw_extract_singleton_from B self level start prefix;
       Some [v]
     } else do {
       lv \<leftarrow> idx (vw_levels self) level;
       ranks_s \<leftarrow> lv_rank_all_unchecked B lv start;
       ranks_e \<leftarrow> lv_rank_all_unchecked B lv end';
       counts \<leftarrow> digit_counts ranks_s ranks_e;
       out \<leftarrow> foldM (\<lambda>out b. do {
         cnt \<leftarrow> idx counts b;
         if cnt = 0 then Some out
         else if level + 1 = vw_n_levels self then Some (out @ replicate cnt (push_digit prefix b))
         else do {
           offset \<leftarrow> lv_occs_smaller_unchecked lv b;
           rs \<leftarrow> idx ranks_s b;
           child \<leftarrow> vw_extract_sorted_rec B self fuel (level + 1) (offset + rs) (offset + rs + cnt) (push_digit prefix b);
           Some (out @ child)
         }
       }) [] [0..<4];
       guard (length out = end' - start);
       Some out
     })"

definition vw_extract_range :: "nat \<Rightarrow> 'a::len word qwt_view \<Rightarrow> nat \<Rightarrow> nat \<Rightarrow> 'a word list option" where
  "vw_extract_range B self s e =
     (if s \<ge> e \<or> e > vw_n self \<or> vw_n_levels self = 0 then Some []
      else vw_extract_sorted_rec B self (vw_n_levels self) 0 s e 0)"

primrec vw_extract_distinct_rec :: "nat \<Rightarrow> 'a::len word qwt_view \<Rightarrow> nat \<Rightarrow> nat \<Rightarrow> nat \<Rightarrow> nat \<Rightarrow> 'a word \<Rightarrow>
    'a word list \<Rightarrow> 'a word list option" where
  "vw_extract_distinct_rec B self 0 = (\<lambda>level start end' prefix out. None)"
| "vw_extract_distinct_rec B self (Suc fuel) = (\<lambda>level start end' prefix out.
     if start \<ge> end' then Some out
     else if end' - start = 1 then do {
       v \<leftarrow> vw_extract_singleton_from B self level start prefix;
       Some (out @ [v])
     } else do {
       lv \<leftarrow> idx (vw_levels self) level;
       ranks_s \<leftarrow> lv_rank_all_unchecked B lv start;
       ranks_e \<leftarrow> lv_rank_all_unchecked B lv end';
       counts \<leftarrow> digit_counts ranks_s ranks_e;
       foldM (\<lambda>out b. do {
         cnt \<leftarrow> idx counts b;
         if cnt = 0 then Some out
         else if level + 1 = vw_n_levels self then Some (out @ [push_digit prefix b])
         else do {
           offset \<leftarrow> lv_occs_smaller_unchecked lv b;
           rs \<leftarrow> idx ranks_s b;
           vw_extract_distinct_rec B self fuel (level + 1) (offset + rs) (offset + rs + cnt) (push_digit prefix b) out
         }
       }) out [0..<4]
     })"

definition vw_extract_range_distinct_into :: "nat \<Rightarrow> 'a::len word qwt_view \<Rightarrow> nat \<Rightarrow> nat \<Rightarrow> 'a word list \<Rightarrow> 'a word list option" where
  "vw_extract_range_distinct_into B self s e out =
     (let out = []
      in if s \<ge> e \<or> e > vw_n self \<or> vw_n_levels self = 0 then Some out
         else vw_extract_distinct_rec B self (vw_n_levels self) 0 s e 0 out)"

definition vw_extract_range_distinct :: "nat \<Rightarrow> 'a::len word qwt_view \<Rightarrow> nat \<Rightarrow> nat \<Rightarrow> 'a word list option" where
  "vw_extract_range_distinct B self s e = vw_extract_range_distinct_into B self s e []"

section \<open>The cursor over the occurrences of a symbol\<close>

record 'a qwt_select_cursor =
  vc_view :: "'a qwt_view"
  vc_symbol :: 'a
  vc_path_offsets :: "nat list"
  vc_rank_path_offsets :: "nat list"
  vc_level_positions :: "nat list"
  vc_level_inputs :: "nat list"
  vc_next_occurrence :: nat
  vc_occurrences :: nat
  vc_initialized :: bool

definition vc_path_step :: "nat \<Rightarrow> 'a::len word qwt_view \<Rightarrow> 'a word \<Rightarrow> int \<times> nat \<times> nat \<times> nat list \<times> nat list \<Rightarrow> nat \<Rightarrow>
    (int \<times> nat \<times> nat \<times> nat list \<times> nat list) option" where
  "vc_path_step B self symbol st level = (
     let (shift, begin', end', path_offsets, rank_path_offsets) = st
     in do {
       guard (level < length path_offsets);
       let path_offsets = path_offsets[level := begin'];
       digit \<leftarrow> two_bits_T (nat shift) symbol;
       vector \<leftarrow> idx (vw_levels self) level;
       begin_rank \<leftarrow> lv_rank_unchecked B vector digit begin';
       end_rank \<leftarrow> lv_rank_unchecked B vector digit end';
       offset \<leftarrow> lv_occs_smaller_unchecked vector digit;
       guard (level < length rank_path_offsets);
       Some (shift - 2, begin_rank + offset, end_rank + offset, path_offsets, rank_path_offsets[level := begin_rank])
     })"

definition vw_select_cursor :: "nat \<Rightarrow> 'a::len word qwt_view \<Rightarrow> 'a word \<Rightarrow> 'a word qwt_select_cursor option option" where
  "vw_select_cursor B self symbol =
     (if vw_n_levels self = 0 \<or> symbol > vw_sigma self \<or> vw_n_levels self > MAX_QUAD_LEVELS then Some None
      else do {
        (shift, begin', end', path_offsets, rank_path_offsets) \<leftarrow> foldM (vc_path_step B self symbol)
          (int (2 * (vw_n_levels self - 1)), 0, vw_n self, replicate MAX_QUAD_LEVELS 0, replicate MAX_QUAD_LEVELS 0) [0..<vw_n_levels self];
        Some (if begin' \<le> end' then
            Some \<lparr>vc_view = self, vc_symbol = symbol, vc_path_offsets = path_offsets, vc_rank_path_offsets = rank_path_offsets,
              vc_level_positions = replicate MAX_QUAD_LEVELS 0, vc_level_inputs = replicate MAX_QUAD_LEVELS 0,
              vc_next_occurrence = 0, vc_occurrences = end' - begin', vc_initialized = False\<rparr>
          else None)
      })"

text \<open>The loop up the levels. A \<open>?\<close> ends \<open>next\<close> with the cursor as it is then.\<close>

fun vc_up :: "nat \<Rightarrow> 'a::len word qwt_select_cursor \<Rightarrow> nat list \<Rightarrow> nat \<Rightarrow> nat \<Rightarrow> (nat option \<times> 'a word qwt_select_cursor) option" where
  "vc_up B self [] shift result =
     Some (Some result, self\<lparr>vc_initialized := True, vc_next_occurrence := vc_next_occurrence self + 1\<rparr>)"
| "vc_up B self (level # levels) shift result = do {
     digit \<leftarrow> two_bits_T shift (vc_symbol self);
     vector \<leftarrow> idx (vw_levels (vc_view self)) level;
     position \<leftarrow> (if vc_initialized self then do {
         input \<leftarrow> idx (vc_level_inputs self) level;
         old \<leftarrow> idx (vc_level_positions self) level;
         (case chk_sub result input of None \<Rightarrow> Some None
          | Some advance \<Rightarrow> lv_select_after vector digit old advance)
       } else do {
         rank_b \<leftarrow> idx (vc_rank_path_offsets self) level;
         lv_select B vector digit (rank_b + result)
       });
     case position of None \<Rightarrow> Some (None, self)
     | Some position \<Rightarrow> do {
         guard (level < length (vc_level_inputs self));
         guard (level < length (vc_level_positions self));
         let self = self\<lparr>vc_level_inputs := (vc_level_inputs self)[level := result], vc_level_positions := (vc_level_positions self)[level := position]\<rparr>;
         b \<leftarrow> idx (vc_path_offsets self) level;
         (case chk_sub position b of None \<Rightarrow> Some (None, self)
          | Some result \<Rightarrow> vc_up B self levels (shift + 2) result)
       }
   }"

definition vc_next :: "nat \<Rightarrow> 'a::len word qwt_select_cursor \<Rightarrow> (nat option \<times> 'a word qwt_select_cursor) option" where
  "vc_next B self =
     (if vc_next_occurrence self \<ge> vc_occurrences self then Some (None, self)
      else vc_up B self (rev [0..<vw_n_levels (vc_view self)]) 0 (vc_next_occurrence self))"

definition vc_size_hint :: "'a qwt_select_cursor \<Rightarrow> nat \<times> nat option" where
  "vc_size_hint self = (let remaining = vc_occurrences self - vc_next_occurrence self in (remaining, Some remaining))"

end
