(* ===== verification/ViewCorrect.thy ===== *)
theory ViewCorrect
  imports View ByteProperties QuadWTExtract
begin

text \<open>
  The view of a plain tree: its queries are those of a tree whose levels are views, so a well-formed view answers as the
  sequence it shows; opening one never fails to return, and what it accepts is well-formed.
\<close>

unbundle bit_operations_syntax

section \<open>A view is a tree over views of levels\<close>

definition vw_tree :: "'a qwt_view \<Rightarrow> ('a, rsqv_view, unit) qwt" where
  "vw_tree v = \<lparr>qw_n = vw_n v, qw_n_levels = vw_n_levels v, qw_sigma = vw_sigma v, qw_qvs = vw_levels v, qw_prefetch_support = None\<rparr>"

lemma vw_tree_simps [simp]:
  "qw_n (vw_tree v) = vw_n v" "qw_n_levels (vw_tree v) = vw_n_levels v" "qw_sigma (vw_tree v) = vw_sigma v" "qw_qvs (vw_tree v) = vw_levels v"
  by (simp_all add: vw_tree_def)

lemma vw_steps:
  "qw_get_step (lv_ops B) (vw_tree v) = vw_get_step v B"
  "qw_get_and_rank_step (lv_ops B) (vw_tree v) = vw_get_and_rank_step v B"
  "qw_rank_step (lv_ops B) (vw_tree v) c = vw_rank_step v B c"
  "qw_singleton_step (lv_ops B) (vw_tree v) = vw_singleton_step v B"
  by (auto simp: fun_eq_iff qw_get_step_def vw_get_step_def qw_get_and_rank_step_def vw_get_and_rank_step_def qw_rank_step_def vw_rank_step_def
      qw_singleton_step_def vw_singleton_step_def)

lemma vw_get_unchecked_tree: "vw_get_unchecked B v i = qw_get_unchecked (lv_ops B) (vw_tree v) i"
  by (simp add: vw_get_unchecked_def qw_get_unchecked_def vw_steps)

lemma vw_get_and_rank_tree: "vw_get_and_rank B v i = qw_get_and_rank (lv_ops B) (vw_tree v) i"
  by (simp add: vw_get_and_rank_def qw_get_and_rank_def vw_get_and_rank_unchecked_def qw_get_and_rank_unchecked_def vw_steps)

lemma vw_rank_unchecked_tree: "vw_n_levels v \<noteq> 0 \<Longrightarrow> vw_rank_unchecked B v c i = qw_rank_unchecked (lv_ops B) (vw_tree v) c i"
  by (simp add: vw_rank_unchecked_def qw_rank_unchecked_def vw_steps)

lemma vw_singleton_tree: "vw_extract_singleton_from B v l pos prefix = qw_extract_singleton_from (lv_ops B) (vw_tree v) l pos prefix"
  by (simp add: vw_extract_singleton_from_def qw_extract_singleton_from_def vw_steps)

lemma vw_sorted_tree: "vw_extract_sorted_rec B v fuel = qw_extract_sorted_rec (lv_ops B) (vw_tree v) fuel"
  by (induction fuel) (simp_all add: vw_singleton_tree cong: if_cong)

lemma vw_distinct_tree: "vw_extract_distinct_rec B v fuel = qw_extract_distinct_rec (lv_ops B) (vw_tree v) fuel"
  by (induction fuel) (simp_all add: vw_singleton_tree cong: if_cong)

lemma vw_extract_range_tree: "vw_extract_range B v s e = qw_extract_range (lv_ops B) (vw_tree v) s e"
  by (simp add: vw_extract_range_def qw_extract_range_def vw_sorted_tree cong: if_cong)

lemma vw_extract_distinct_tree: "vw_extract_range_distinct_into B v s e out = qw_extract_range_distinct_into (lv_ops B) (vw_tree v) s e out"
  by (simp add: vw_extract_range_distinct_into_def qw_extract_range_distinct_into_def vw_distinct_tree cong: if_cong)

lemma two_bits_T_less: "two_bits_T s c = Some d \<Longrightarrow> d < 4"
  by (auto simp: two_bits_T_def bind_eq_Some_conv unat_and_3)

lemma vw_select_down_tree:
  "vw_select_down B v c ls shift b ps rs = qw_select_down (lv_ops B) (vw_tree v) c ls shift b ps rs"
proof (induction ls arbitrary: shift b ps rs)
  case (Cons l ls)
  show ?case
    by (auto simp: Cons lv_rank_def not_less Let_def bind_eq_None_conv intro!: Option.bind_cong dest: two_bits_T_less split: option.splits)
qed simp

lemma vw_select_up_tree: "vw_select_up B v c ls shift ps rs i = qw_select_up (lv_ops B) (vw_tree v) c ls shift ps rs i"
  by (induction ls arbitrary: shift i) (auto intro!: Option.bind_cong split: option.splits)

lemma vw_select_tree: "vw_n_levels v \<noteq> 0 \<Longrightarrow> vw_select B v c i = qw_select (lv_ops B) (vw_tree v) c i"
  by (simp add: vw_select_def qw_select_def vw_select_down_tree vw_select_up_tree)

section \<open>The path along the largest digits\<close>

lemma last_digit:
  assumes "\<exists>d<4. P d"
  obtains d where "find P (rev [0..<4]) = Some d" "d < 4" "P d" "\<forall>d'<4. P d' \<longrightarrow> d' \<le> d"
proof -
  have r: "rev [0..<4] = [3, 2, 1, 0 :: nat]" by (simp add: upt_rec)
  have "find P (rev [0..<4]) \<noteq> None" using assms by (auto simp: find_None_iff)
  then obtain d where "find P (rev [0..<4]) = Some d" by blast
  moreover from this have "d < 4" "P d" "\<forall>d'<4. P d' \<longrightarrow> d' \<le> d" unfolding r by (auto split: if_splits simp: less_Suc_eq numeral_eq_Suc)
  ultimately show thesis using that by blast
qed

lemma max_path:
  fixes xs :: "'a::len word list"
  assumes B: "B = 256 \<or> B = 512" and reps: "length vs = L" "\<And>l. l < L \<Longrightarrow> view_rep B (vs ! l) (wm_digits L xs l)"
    and xs: "xs \<noteq> []" "\<forall>x\<in>set xs. unat x < 4 ^ L" and L: "0 < L"
  obtains b e where "foldR (vw_max_step B L) (0, 0, length xs) (zip [0..<length vs] vs) = Some (Inr (max_symbol xs, b, e))"
proof -
  let ?Inv = "\<lambda>l (a :: 'a word, b, e). wm_part L l (unat a) xs \<noteq> [] \<and> (\<forall>x\<in>set xs. wm_pre L l x \<le> unat a) \<and> (l < L \<longrightarrow> wm_node L xs xs l (unat a) b e)"
  have zip: "zip [0..<length vs] vs = map (\<lambda>l. (l, vs ! l)) [0..<L]" using reps(1) by (intro nth_equalityI) simp_all
  have "\<exists>st. foldR (\<lambda>s l. vw_max_step B L s (l, vs ! l)) (0, 0, length xs) [0..<k] = Some (Inr st) \<and> ?Inv k st" if "k \<le> L" for k
    using that
  proof (induction k)
    case 0
    have "wm_node L xs (slice xs 0 (length xs)) 0 0 0 (length xs)" using xs(2) by (intro wm_node_root) simp_all
    moreover have "wm_part L 0 0 xs = xs" using xs(2) by (simp add: wm_part_def wm_pre_0)
    ultimately show ?case using xs L by (simp add: wm_pre_0 slice_def)
  next
    case (Suc k)
    then have k: "k < L" by simp
    obtain a :: "'a word" and b e where st: "foldR (\<lambda>s l. vw_max_step B L s (l, vs ! l)) (0, 0, length xs) [0..<k] = Some (Inr (a, b, e))"
      and part: "wm_part L k (unat a) xs \<noteq> []" and top: "\<forall>x\<in>set xs. wm_pre L k x \<le> unat a" and node: "wm_node L xs xs k (unat a) b e"
    proof -
      obtain st where "foldR (\<lambda>s l. vw_max_step B L s (l, vs ! l)) (0, 0, length xs) [0..<k] = Some (Inr st)" and "?Inv k st" using Suc k by auto
      then show ?thesis using that k by (cases st) auto
    qed
    let ?D = "wm_digits L xs k"
    let ?child = "\<lambda>d. wm_part L (Suc k) (4 * unat a + d) xs"
    have v: "lv_ok B (vs ! k)" "lv_list (vs ! k) = ?D" using reps(2) [OF k] by (simp_all add: view_rep_def)
    have be: "b \<le> e" "e \<le> length xs" using node by (simp_all add: wm_node_def)
    have ranks: "lv_rank_all_unchecked B (vs ! k) p = Some (map (\<lambda>c. rank_of ?D c p) [0..<4])" if "p \<le> length xs" for p
      using lv_rank_all_unchecked_eq [OF v(1) B] that by (simp add: v(2))
    have pos: "rank_of ?D d e > rank_of ?D d b \<longleftrightarrow> ?child d \<noteq> []" if "d < 4" for d
      using wm_node_rank [OF node k that] by simp
    obtain x where x: "x \<in> set (wm_part L k (unat a) xs)" using part by fastforce
    have "?child (qdigit (2 * (L - 1 - k)) x) \<noteq> []" using x k by (auto simp: wm_part_Suc filter_empty_conv)
    then have ex: "\<exists>d<4. rank_of ?D d e > rank_of ?D d b" using pos by (intro exI [of _ "qdigit (2 * (L - 1 - k)) x"]) simp
    obtain d where d: "find (\<lambda>d. rank_of ?D d e > rank_of ?D d b) (rev [0..<4]) = Some d" "d < 4" "rank_of ?D d e > rank_of ?D d b"
      "\<forall>d'<4. rank_of ?D d' e > rank_of ?D d' b \<longrightarrow> d' \<le> d" using last_digit [OF ex] .
    have find: "find (\<lambda>d. map (\<lambda>c. rank_of ?D c e) [0..<4] ! d > map (\<lambda>c. rank_of ?D c b) [0..<4] ! d) (rev [0..<4]) = Some d"
      using d(1) by (subst find_cong [OF refl, where Q = "\<lambda>d. rank_of ?D d e > rank_of ?D d b"]) auto
    have child: "?child d \<noteq> []" using pos d(2,3) by simp
    from part_prefix_bound [OF this] have ua: "unat (push_digit a d) = 4 * unat a + d" using d(2) by (intro push_digit_unat)
    have top': "wm_pre L (Suc k) y \<le> 4 * unat a + d" if y: "y \<in> set xs" for y
    proof (cases "wm_pre L k y = unat a")
      case True
      let ?q = "qdigit (2 * (L - 1 - k)) y"
      have "y \<in> set (wm_part L k (unat a) xs)" using y True by (simp add: wm_part_def)
      then have "?child ?q \<noteq> []" using k by (auto simp: wm_part_Suc filter_empty_conv)
      then have "?q \<le> d" using d(4) pos by simp
      then show ?thesis using True k by (simp add: wm_pre_Suc)
    next
      case False
      then have "wm_pre L k y < unat a" using top y by (simp add: le_neq_implies_less)
      moreover have "wm_pre L (Suc k) y < 4 * wm_pre L k y + 4" using k by (simp add: wm_pre_Suc)
      ultimately show ?thesis by simp
    qed
    have "smaller_of ?D d = lv_n_occs_smaller (vs ! k) ! d \<and> d < length (lv_n_occs_smaller (vs ! k))"
      using lv_okD(3) [OF v(1)] d(2) by (simp add: n_occs_of_def v(2) del: upt_Suc)
    then have "vw_max_step B L (a, b, e) (k, vs ! k) = Some (Inr (if k + 1 < L
        then (push_digit a d, smaller_of ?D d + rank_of ?D d b, smaller_of ?D d + rank_of ?D d e) else (push_digit a d, b, e)))"
      using ranks be find d(2) by (simp add: vw_max_step_def push_digit_def)
    then show ?case using st child ua top' wm_node_child [OF node k d(2)] by (simp add: foldR_append)
  qed
  from this [of L] obtain a :: "'a word" and b e where fold: "foldR (\<lambda>s l. vw_max_step B L s (l, vs ! l)) (0, 0, length xs) [0..<L] = Some (Inr (a, b, e))"
    and part: "wm_part L L (unat a) xs \<noteq> []" and top: "\<forall>x\<in>set xs. unat x \<le> unat a" by auto
  have "a \<in> set xs" using part by (auto simp: wm_part_all filter_empty_conv simp flip: word_unat_eq_iff)
  then have "a \<le> max_symbol xs" by (rule max_symbol_ge)
  moreover have "max_symbol xs \<le> a" using top max_symbol_in [OF xs(1)] by (simp add: word_le_nat_alt)
  ultimately show thesis using that fold by (simp add: zip foldR_map)
qed

section \<open>What a view answers\<close>

definition vw_ok :: "nat \<Rightarrow> 'a::len word qwt_view \<Rightarrow> 'a word list \<Rightarrow> bool" where
  "vw_ok B v xs \<longleftrightarrow> qw_ok (view_rep B) (vw_tree v) xs \<and> (\<forall>level\<in>set (vw_levels v). lv_position_bits level < 2 ^ 64)"

lemma vw_okD:
  assumes "vw_ok B v xs"
  shows "qw_ok (view_rep B) (vw_tree v) xs" "vw_n v = length xs" "vw_n_levels v = 0 \<longleftrightarrow> xs = []"
    "l < vw_n_levels v \<Longrightarrow> l < length (vw_levels v) \<and> lv_position_bits (vw_levels v ! l) < 2 ^ 64"
proof -
  show ok: "qw_ok (view_rep B) (vw_tree v) xs" using assms by (simp add: vw_ok_def)
  show "vw_n v = length xs" using ok by (simp add: qw_ok_def)
  have pos: "0 < vw_n_levels v" if "xs \<noteq> []" using qw_ok_levels(1) [OF ok that] by simp
  show "vw_n_levels v = 0 \<longleftrightarrow> xs = []" using ok pos by (cases "xs = []") (auto simp: qw_ok_def)
  show "l < length (vw_levels v) \<and> lv_position_bits (vw_levels v ! l) < 2 ^ 64" if "l < vw_n_levels v"
    using that ok assms by (cases "xs = []") (auto simp: qw_ok_def vw_ok_def)
qed

lemma vw_queries:
  fixes xs :: "'a::len word list"
  assumes B: "B = 256 \<or> B = 512" and ok: "vw_ok B v xs"
  shows "vw_get B v i = Some (idx xs i)"
    and "vw_get_and_rank B v i = Some (if i < length xs then Some (xs ! i, rank_of xs (xs ! i) (i + 1)) else None)"
    and "vw_rank B v c i = Some (if i \<le> length xs \<and> (xs = [] \<or> c \<le> max_symbol xs) then Some (rank_of xs c i) else None)"
    and "LENGTH('a) \<le> 64 \<Longrightarrow> vw_select B v c i = Some (select_of xs c i)"
    and "LENGTH('a) \<le> 64 \<Longrightarrow> vw_extract_range B v s e = Some (if s < e \<and> e \<le> length xs then sort (slice xs s e) else [])"
    and "LENGTH('a) \<le> 64 \<Longrightarrow> vw_extract_range_distinct_into B v s e out
      = Some (if s < e \<and> e \<le> length xs then sorted_list_of_set (set (slice xs s e)) else [])"
proof -
  note wt = lv_contract [OF B] and t = vw_okD(1) [OF ok]
  have lev: "vw_n_levels v = 0 \<longleftrightarrow> xs = []" "vw_n v = length xs" using vw_okD(2,3) [OF ok] by blast+
  show "vw_get B v i = Some (idx xs i)"
    using wt_queries.get_unchecked_eq [OF wt t, of i] lev by (simp add: vw_get_def vw_get_unchecked_tree idx_def)
  show "vw_get_and_rank B v i = Some (if i < length xs then Some (xs ! i, rank_of xs (xs ! i) (i + 1)) else None)"
    unfolding vw_get_and_rank_tree by (rule wt_queries.get_and_rank_eq [OF wt t])
  show "vw_rank B v c i = Some (if i \<le> length xs \<and> (xs = [] \<or> c \<le> max_symbol xs) then Some (rank_of xs c i) else None)"
  proof (cases "xs = []")
    case True
    then show ?thesis using lev by (simp add: vw_rank_def rank_of_def)
  next
    case False
    then show ?thesis
      using wt_queries.rank_eq [OF wt t, of c i] lev t
      by (auto simp: vw_rank_def qw_rank_def vw_rank_unchecked_tree qw_ok_def split: if_splits)
  qed
  show "vw_select B v c i = Some (select_of xs c i)" if w: "LENGTH('a) \<le> 64"
  proof (cases "xs = []")
    case True
    then show ?thesis using lev by (simp add: vw_select_def select_of_def selp_def)
  next
    case False
    then have "vw_select B v c i = qw_select (lv_ops B) (vw_tree v) c i" using lev by (intro vw_select_tree) simp
    then show ?thesis using wt_queries.select_eq [OF wt t False w] by simp
  qed
  show "vw_extract_range B v s e = Some (if s < e \<and> e \<le> length xs then sort (slice xs s e) else [])" if "LENGTH('a) \<le> 64"
    unfolding vw_extract_range_tree by (rule wt_queries.extract_range_eq [OF wt t that])
  show "vw_extract_range_distinct_into B v s e out
      = Some (if s < e \<and> e \<le> length xs then sorted_list_of_set (set (slice xs s e)) else [])" if "LENGTH('a) \<le> 64"
    unfolding vw_extract_distinct_tree by (rule wt_queries.extract_range_distinct_into_eq [OF wt t that])
qed

section \<open>Opening\<close>

lemma level_dir_read_total: "128 \<le> length buf \<Longrightarrow> \<exists>d. level_dir_read buf = Some (Inr d) \<and> ld_ok d"
  using ld_get_total [of buf] by (auto simp: level_dir_read_def LEVEL_DIR_SIZE_def)

lemma level_steps_result:
  assumes B: "B = 256 \<or> B = 512" and "32 + L * 128 \<le> length bytes"
  shows "(\<exists>e. foldR (vw_level_step B base bytes) [] [0..<L] = Some (Inl e))
    \<or> (\<exists>vs. foldR (vw_level_step B base bytes) [] [0..<L] = Some (Inr vs) \<and> length vs = L \<and> (\<forall>v\<in>set vs. lv_ok B v \<and> lv_position_bits v < 2 ^ 64))"
proof (rule foldR_inv [where Inv = "\<lambda>k vs. length vs = k \<and> (\<forall>v\<in>set vs. lv_ok B v \<and> lv_position_bits v < 2 ^ 64)"])
  fix k vs assume k: "k < L" and vs: "length vs = k \<and> (\<forall>v\<in>set vs. lv_ok B v \<and> lv_position_bits v < 2 ^ 64)"
  let ?buf = "take 128 (drop (32 + k * 128) bytes)"
  have "k * 128 + 128 \<le> L * 128" using mult_le_mono1 [of "Suc k" L 128] k by simp
  then have buf: "range_of bytes (32 + k * 128) (32 + k * 128 + 128) = Some ?buf" "length ?buf = 128" using assms(2) by (simp_all add: range_of_def)
  obtain d where d: "level_dir_read ?buf = Some (Inr d)" "ld_ok d" using level_dir_read_total [OF eq_refl [OF buf(2) [symmetric]]] by blast
  obtain r where r: "lv_from_dir B base bytes d = Some r" "\<forall>v. r = Inr v \<longrightarrow> lv_ok B v \<and> lv_position_bits v < 2 ^ 64"
    using from_dir_result [OF B d(2), of base bytes] by (auto simp: lv_ok_def)
  show "(\<exists>e. vw_level_step B base bytes vs k = Some (Inl e))
    \<or> (\<exists>vs'. vw_level_step B base bytes vs k = Some (Inr vs') \<and> length vs' = Suc k \<and> (\<forall>v\<in>set vs'. lv_ok B v \<and> lv_position_bits v < 2 ^ 64))"
    using buf d r vs by (cases r) (simp_all add: vw_level_step_def format_consts)
qed simp

lemma levels_decoded:
  assumes "\<forall>v\<in>set vs. lv_ok B v \<and> lv_len v = n" and bnd: "4 ^ length vs \<le> (2 :: nat) ^ LENGTH('a::len)"
  obtains xs :: "'a::len word list" where "length xs = n" "\<forall>x\<in>set xs. unat x < 4 ^ length vs"
    "\<And>l. l < length vs \<Longrightarrow> view_rep B (vs ! l) (wm_digits (length vs) xs l)"
proof -
  let ?Ds = "map lv_list vs"
  let ?xs = "decode_levels ?Ds n :: 'a word list"
  have ok: "levels_ok ?Ds n" using assms(1) by (auto simp: levels_ok_def lv_len_eq lv_list_def rq_list_def qv_list_def qv_sym_def)
  have "view_rep B (vs ! l) (wm_digits (length vs) ?xs l)" if "l < length vs" for l
    using decoded_levels [OF ok, of l, where 'a = 'a] that bnd assms(1) by (simp add: view_rep_def)
  moreover have "unat x < 4 ^ length vs" if x: "x \<in> set ?xs" for x
  proof -
    obtain i where i: "i < n" "x = of_nat (dval ?Ds i (length ?Ds))" using x by (auto simp: decode_levels_def)
    have "dval ?Ds i (length ?Ds) < 4 ^ length ?Ds" using dval_less [OF ok order_refl i(1)] .
    then show ?thesis using i(2) le_less_trans [OF take_bit_nat_less_eq_self] by (auto simp: unsigned_of_nat)
  qed
  ultimately show thesis using that [of ?xs] by (simp add: decode_levels_def)
qed

theorem vw_from_bytes_result:
  assumes B: "B = 256 \<or> B = 512" and w: "8 dvd LENGTH('a)"
  shows "\<exists>res :: layout_error + 'a::len word qwt_view. vw_from_bytes le B base bytes = Some res \<and> (\<forall>v. res = Inr v \<longrightarrow> (\<exists>xs. vw_ok B v xs))"
  unfolding vw_from_bytes_def
proof (rule rbind_result [OF read_preamble_total(1)], goal_cases)
  case (1 p)
  then have p: "p = 8" "32 \<le> length bytes" using read_preamble_total(2) by blast+
  obtain n where n: "get_u64 bytes 8 = Some (n, 16)" using get_ints_total(1) [of 8 bytes] p(2) by auto
  obtain sg where sg: "get_u64 bytes 16 = Some (sg, 24)" using get_ints_total(1) [of 16 bytes] p(2) by auto
  obtain L where L: "get_u16 bytes 24 = Some (L, 26)" using get_ints_total(3) [of 24 bytes] p(2) by auto
  let ?n = "unat n" and ?L = "unat L" and ?sg = "ucast sg :: 'a word"
  show ?case
    unfolding p(1) n sg L bind.bind_lunit prod.case Let_def
  proof (rule rbind_result [OF reject_total], rule rbind_result [OF directory_end_total(1)], goal_cases)
    case h: (1 u fin)
    have dir: "32 + ?L * 128 \<le> length bytes" using directory_end_total(2) [OF h(2)] by (simp add: LEVEL_DIR_SIZE_def)
    note steps = level_steps_result [OF B dir, of base]
    show ?case
    proof (rule rbind_result, goal_cases)
      case 1 then show ?case using steps by blast
    next
      case (2 vs)
      then have vs: "length vs = ?L" "\<forall>v\<in>set vs. lv_ok B v \<and> lv_position_bits v < 2 ^ 64" using steps by auto
      show ?case
      proof (rule rbind_result [OF reject_total], rule rbind_result [OF reject_total], goal_cases)
        case k: (1 u1 u2)
        have len: "\<forall>v\<in>set vs. lv_ok B v \<and> lv_len v = ?n" using k(1) vs(2) by (auto simp: reject_Inr_iff list_ex_iff)
        have ok: "vw_ok B \<lparr>vw_n = ?n, vw_n_levels = ?L, vw_sigma = ?sg, vw_levels = vs\<rparr> []" if "?n = 0"
          using h(1) vs that by (auto simp: reject_Inr_iff vw_ok_def qw_ok_def)
        show ?case
        proof (cases "?n = 0")
          case True
          then show ?thesis using ok by auto
        next
          case False
          have lev: "?L = div_ceil (msb_of ?sg + 1) 2" "0 < ?L" using k(2) h(1) False by (simp_all add: reject_Inr_iff)
          have ev: "even LENGTH('a)" using w by (auto elim: dvdE)
          have "2 * (?L - 1) < LENGTH('a)" unfolding lev(1) using levels_bounds [of ?sg] by blast
          then have "?L \<le> div_ceil LENGTH('a) 2" using ev by (auto simp: div_ceil_def)
          then have bnd: "4 ^ length vs \<le> (2 :: nat) ^ LENGTH('a)" unfolding vs(1) by (rule rs256.wt.even_levels [OF ev])
          obtain xs :: "'a word list" where xs: "length xs = ?n" "\<forall>x\<in>set xs. unat x < 4 ^ ?L"
            "\<And>l. l < ?L \<Longrightarrow> view_rep B (vs ! l) (wm_digits ?L xs l)"
            using levels_decoded [OF len bnd] vs(1) by auto
          then have ne: "xs \<noteq> []" using False by auto
          obtain b e where fold: "foldR (vw_max_step B ?L) (0, 0, length xs) (zip [0..<length vs] vs) = Some (Inr (max_symbol xs, b, e))"
            using max_path [OF B vs(1) xs(3) ne xs(2) lev(2)] .
          have "vw_ok B \<lparr>vw_n = ?n, vw_n_levels = ?L, vw_sigma = ?sg, vw_levels = vs\<rparr> xs" if "max_symbol xs = ?sg"
            using that xs(1,3) ne lev vs by (simp add: vw_ok_def qw_ok_def)
          then show ?thesis using fold xs(1) False by (auto simp: reject_def)
        qed
      qed
    qed
  qed
qed

end
