(* ===== verification/ViewImage.thy ===== *)
theory ViewImage
  imports ViewCorrect LevelViewImage
begin

text \<open>
  A view opens on every blob \<open>qwtb_to_bytes\<close> writes, at an aligned address, and shows the tree the blob was written from.
\<close>

lemma level_dir_read_eq: "ld_ok d \<Longrightarrow> level_dir_read (ld_bytes d) = Some (Inr d)" for d :: level_dir
  using ld_get_eq(1) [of d "[]"] by (simp add: level_dir_read_def length_ld_bytes LEVEL_DIR_SIZE_def level_dir.truncate_def)

definition vw_of :: "('a, rs_support_plain rs_qvector, 'p) qwt \<Rightarrow> 'a qwt_view" where
  "vw_of t = \<lparr>vw_n = qw_n t, vw_n_levels = qw_n_levels t, vw_sigma = qw_sigma t, vw_levels = map lv_of (take (qw_n_levels t) (qw_qvs t))\<rparr>"

lemma view_rep_of: "view_rep B (lv_of r) D \<longleftrightarrow> rq_ok (rp_inv B) r \<and> rq_list r = D"
  by (simp add: view_rep_def lv_ok_def lv_list_def)

lemma vw_of_ok:
  assumes "qw_ok (\<lambda>r D. rq_ok (rp_inv B) r \<and> rq_list r = D) t xs" "\<forall>r\<in>set (take (qw_n_levels t) (qw_qvs t)). qv_position (rq_qv r) < 2 ^ 64"
  shows "vw_ok B (vw_of t) xs"
  using assms by (cases "xs = []") (auto simp: vw_ok_def qw_ok_def vw_of_def view_rep_of)

theorem vw_from_bytes_image:
  fixes t :: "('a::len word, rs_support_plain rs_qvector, 'p) qwt"
  assumes B: "B = 256 \<or> B = 512" and w: "8 dvd LENGTH('a)" "LENGTH('a) \<le> 64" and base: "addr mod 64 = 0"
    and levels: "\<forall>r\<in>set (take (qw_n_levels t) (qw_qvs t)). level_fits r \<and> rq_from (rs_plain B) (rq_qv r) = Some r"
    and ok: "qw_ok (\<lambda>r D. rq_ok (rp_inv B) r \<and> rq_list r = D) t xs" and n: "length xs < 2 ^ 64"
  shows "vw_from_bytes True B addr (qwtb_image B t) = Some (Inr (vw_of t))"
proof -
  let ?L = "qw_n_levels t" and ?bytes = "qwtb_image B t"
  let ?rs = "take ?L (qw_qvs t)"
  let ?base = "up64 (32 + ?L * 128)"
  have fits: "\<forall>r\<in>set ?rs. level_fits r" using levels by blast
  have lev: "qw_n t = length xs" "?L = 0 \<longleftrightarrow> xs = []" "?L \<le> length (qw_qvs t)" "?L \<le> 64" "?L \<le> div_ceil LENGTH('a) 2"
    "xs = [] \<Longrightarrow> qw_sigma t = 0" "xs \<noteq> [] \<Longrightarrow> ?L = div_ceil (msb_of (qw_sigma t) + 1) 2 \<and> qw_sigma t = max_symbol xs"
  proof -
    show "qw_n t = length xs" "xs = [] \<Longrightarrow> qw_sigma t = 0" using ok by (simp_all add: qw_ok_def)
    show "xs \<noteq> [] \<Longrightarrow> ?L = div_ceil (msb_of (qw_sigma t) + 1) 2 \<and> qw_sigma t = max_symbol xs" using ok by (simp add: qw_ok_def)
    have ev: "even LENGTH('a)" using w(1) by (auto elim: dvdE)
    have "?L \<le> length (qw_qvs t) \<and> ?L \<le> 64 \<and> ?L \<le> div_ceil LENGTH('a) 2 \<and> (?L = 0 \<longleftrightarrow> xs = [])"
    proof (cases "xs = []")
      case True then show ?thesis using ok by (simp add: qw_ok_def)
    next
      case False
      note l = qw_ok_levels [OF ok False]
      have "?L \<le> div_ceil LENGTH('a) 2" using l(3) ev by (auto simp: div_ceil_def)
      then show ?thesis using l(1,3,4) w(2) False by simp
    qed
    then show "?L = 0 \<longleftrightarrow> xs = []" "?L \<le> length (qw_qvs t)" "?L \<le> 64" "?L \<le> div_ceil LENGTH('a) 2" by blast+
  qed
  have len: "length ?rs = ?L" using lev(3) by simp
  note parts = qwtb_image_parts [OF B w(2) fits lev(3,4)]
  have n64: "qw_n t < 2 ^ 64" using n lev(1) by simp
  note parts = parts [OF n64]
  have vals: "unat (of_nat (qw_n t) :: u64) = qw_n t" "unat (of_nat ?L :: u16) = ?L" using n64 lev(4) by (simp_all add: unat_of_nat_small)
  obtain H where H: "?bytes = H @ level_images ?base ?rs" "length H = ?base" using parts(7) by blast
  have rep: "rq_ok (rp_inv B) (?rs ! l) \<and> rq_list (?rs ! l) = wm_digits ?L xs l" if "l < ?L" for l
    using ok that lev(2) by (cases "xs = []") (auto simp: qw_ok_def)
  have step: "vw_level_step B addr ?bytes (map lv_of (take k ?rs)) k = Some (Inr (map lv_of (take (Suc k) ?rs)))" if k: "k < ?L" for k
  proof -
    obtain A c Z where img: "level_images ?base ?rs = A @ level_image c (?rs ! k) @ Z" "?base + length A = c"
      "level_entries ?base ?rs ! k = level_entry c (?rs ! k)" 
      by (rule level_images_nth [OF fits, of k]) (use k len in simp)
    have r: "level_fits (?rs ! k)" "rq_from (rs_plain B) (rq_qv (?rs ! k)) = Some (?rs ! k)" using levels nth_mem [of k ?rs] k len by auto
    have "lv_from_dir B addr ?bytes (level_entry c (?rs ! k)) = Some (Inr (lv_of (?rs ! k)))"
      by (rule from_dir_image [OF _ _ parts(8) r conjunct1 [OF rep [OF k]] base B, of "H @ A" _ Z]) (use H img in simp_all)
    moreover have "level_dir_read (ld_bytes (level_entries ?base ?rs ! k)) = Some (Inr (level_entries ?base ?rs ! k))"
      using parts(6) [OF k] by (intro level_dir_read_eq) simp
    ultimately show ?thesis using parts(6) [OF k] k len img(3) by (simp add: vw_level_step_def format_consts take_Suc_conv_app_nth)
  qed
  have "foldR (vw_level_step B addr ?bytes) (map lv_of (take 0 ?rs)) (map id [0..<?L]) = Some (Inr (map lv_of (take ?L ?rs)))"
    by (rule foldR_upt_value) (use step in simp)
  then have read: "foldR (vw_level_step B addr ?bytes) [] [0..<?L] = Some (Inr (map lv_of ?rs))" by simp
  have lens: "\<not> list_ex (\<lambda>level. lv_len level \<noteq> qw_n t) (map lv_of ?rs)"
    using rep lev(1) len by (auto simp: list_ex_iff in_set_conv_nth lv_len_eq lv_list_def)
  have maximum: "xs \<noteq> [] \<Longrightarrow> \<exists>b e. foldR (vw_max_step B ?L) (0, 0, qw_n t) (zip [0..<?L] (map lv_of ?rs)) = Some (Inr (qw_sigma t, b, e))"
  proof -
    assume ne: "xs \<noteq> []"
    have xs: "\<forall>x\<in>set xs. unat x < 4 ^ ?L" using qw_ok_levels(2) [OF ok ne] by simp
    obtain b e where "foldR (vw_max_step B ?L) (0, 0, length xs) (zip [0..<length (map lv_of ?rs)] (map lv_of ?rs)) = Some (Inr (max_symbol xs, b, e))"
      by (rule max_path [OF B, of "map lv_of ?rs" ?L xs]) (use len rep view_rep_of ne xs lev(2) in auto)
    then show ?thesis using lev(1,7) ne len by auto
  qed
  have hdr: "\<not> (as_usize (qw_sigma t) \<noteq> as_usize (qw_sigma t) \<or> ?L > MAX_QUAD_LEVELS \<or> ?L > div_ceil (size_of_T TYPE('a) * 8) 2 \<or> (qw_n t > 0 \<and> ?L = 0)
      \<or> (qw_n t = 0 \<and> (?L \<noteq> 0 \<or> qw_sigma t \<noteq> 0)))"
    using lev T_size [OF w(1)] by (auto simp: MAX_QUAD_LEVELS_def)
  have lc: "\<not> (qw_n t > 0 \<and> ?L \<noteq> div_ceil (msb_of (qw_sigma t) + 1) 2)" using lev(1,7) by auto
  have final: "(if qw_n t > 0 then rbind (foldR (vw_max_step B ?L) (0, 0, qw_n t) (zip [0..<?L] (map lv_of ?rs))) (\<lambda>(actual_sigma, _, _).
      reject (actual_sigma \<noteq> qw_sigma t) (Inconsistent ''plain QWT sigma disagrees with encoded payload'')) else Some (Inr ())) = Some (Inr ())"
    using maximum lev(1) by (cases "xs = []") auto
  show ?thesis
    unfolding vw_from_bytes_def parts(1) rbind_simps parts(2-4) bind.bind_lunit prod.case Let_def vals parts(9) parts(5) read length_map len final
    using hdr lens lc by (simp add: reject_def vw_of_def)
qed

text \<open>So there are blobs that open.\<close>

lemma blob_opens:
  fixes xs :: "'a::len word list"
  assumes B: "B = 256 \<or> B = 512" and base: "base mod 64 = 0" and w: "8 dvd LENGTH('a)" "LENGTH('a) \<le> 64" and n: "length xs \<le> 2 ^ 40 - 256"
  shows "\<exists>bytes v. vw_from_bytes True B base bytes = Some (Inr (v :: 'a word qwt_view)) \<and> vw_len v = length xs"
proof -
  obtain t :: "('a word, rs_support_plain rs_qvector, unit) qwt" where t: "qw_ok (\<lambda>r D. rq_ok (rp_inv B) r \<and> rq_list r = D) t xs"
    and lv: "\<forall>r\<in>set (take (qw_n_levels t) (qw_qvs t)). level_fits r \<and> rq_from (rs_plain B) (rq_qv r) = Some r"
    using tree_blob [OF B w n] by blast
  have "length xs < 2 ^ 64" using n by simp
  then have "vw_from_bytes True B base (qwtb_image B t) = Some (Inr (vw_of t))" by (rule vw_from_bytes_image [OF B w base lv t])
  moreover have "vw_len (vw_of t) = length xs" using t by (simp add: vw_len_def vw_of_def qw_ok_def)
  ultimately show ?thesis by blast
qed

end
