(* ===== verification/ViewCursor.thy ===== *)
theory ViewCursor
  imports ViewCorrect
begin

text \<open>
  The select cursor of a view, \<^verbatim>\<open>src/bytes/view.rs\<close>: it gives the positions of a symbol in ascending order.
\<close>

section \<open>The occurrences of a symbol on each level\<close>

text \<open>The place of the \<open>i\<close>-th occurrence of \<open>c\<close> within its node on level \<open>l\<close>.\<close>

definition wm_nth :: "nat \<Rightarrow> 'a::len word list \<Rightarrow> 'a word \<Rightarrow> nat \<Rightarrow> nat \<Rightarrow> nat" where
  "wm_nth L xs c l i = the (select_of (wm_part L l (wm_pre L l c) xs) c i)"

lemma count_part: "count_list (wm_part L l (wm_pre L l c) xs) c = count_list xs c"
  by (induction xs) (auto simp: wm_part_def)

lemma wm_nth:
  assumes "i < count_list xs c"
  shows "select_of (wm_part L l (wm_pre L l c) xs) c i = Some (wm_nth L xs c l i)"
  using assms select_of_None [of "wm_part L l (wm_pre L l c) xs" c i] count_part [of L l c xs]
  by (cases "select_of (wm_part L l (wm_pre L l c) xs) c i") (auto simp: wm_nth_def)

lemma wm_nth_leaf:
  assumes "i < count_list xs c"
  shows "wm_nth L xs c L i = i"
proof -
  have "wm_part L L (wm_pre L L c) xs = replicate (count_list xs c) c"
    by (induction xs) (auto simp: wm_part_all word_unat_eq_iff)
  moreover have "count_list (replicate k c) c = k" for k by (induction k) simp_all
  ultimately show ?thesis using wm_nth [OF assms, of L L] assms by (auto simp: select_of_Some rank_of_def)
qed

lemma wm_nth_root:
  assumes "i < count_list xs c" "\<forall>x\<in>set xs. unat x < 4 ^ L" "unat c < 4 ^ L"
  shows "select_of xs c i = Some (wm_nth L xs c 0 i)"
proof -
  have "wm_part L 0 (wm_pre L 0 c) xs = xs" using assms(2,3) by (simp add: wm_part_def wm_pre_0)
  then show ?thesis using wm_nth [OF assms(1), of L 0] by simp
qed

lemma wm_nth_step:
  assumes i: "i < count_list xs c" and xs: "\<forall>x\<in>set xs. unat x < 4 ^ L" "unat c < 4 ^ L" and l: "l < L"
  defines "D \<equiv> wm_digits L xs l" and "d \<equiv> qdigit (2 * (L - 1 - l)) c" and "b \<equiv> wm_pos L xs c 0 l"
  shows "select_of D d (rank_of D d b + wm_nth L xs c (Suc l) i) = Some (b + wm_nth L xs c l i)"
proof -
  let ?N = "wm_part L l (wm_pre L l c) xs" and ?C = "wm_part L (Suc l) (wm_pre L (Suc l) c) xs"
  let ?k = "wm_nth L xs c (Suc l) i"
  have k: "?k < length ?C" "?C ! ?k = c" "rank_of ?C c ?k = i" using wm_nth [OF i, of L "Suc l"] by (simp_all add: select_of_Some)
  have node: "wm_node L xs xs l (wm_pre L l c) b (wm_pos L xs c (length xs) l)"
    using wm_node_pos [of 0 "length xs" xs L c l] xs l by (simp add: b_def slice_0)
  have child: "wm_part L (Suc l) (4 * wm_pre L l c + d) xs = ?C" using l by (simp add: wm_pre_Suc d_def)
  obtain q where q: "select_of D d (rank_of D d b + ?k) = Some (b + q)" "q < length ?N" "?N ! q = c"
    "take ?k ?C = filter (\<lambda>x. qdigit (2 * (L - 1 - l)) x = d) (take q ?N)"
    using wm_select_inside [OF node l, of d ?k] k(1,2) unfolding child D_def by (metis d_def qdigit_less)
  have C: "?C = filter (\<lambda>x. qdigit (2 * (L - 1 - l)) x = d) ?N"
    unfolding child [symmetric] by (rule wm_part_Suc) (use l in \<open>simp_all add: d_def\<close>)
  have "rank_of ?C c ?k = rank_of ?N c q"
    using lv256.count_take_filter [of ?k "\<lambda>x. qdigit (2 * (L - 1 - l)) x = d" ?N q c] q(4) unfolding rank_of_def C by (simp add: d_def)
  then have "select_of ?N c i = Some q" using q(2,3) k(3) by (simp add: select_of_Some)
  then have "q = wm_nth L xs c l i" by (simp add: wm_nth_def)
  then show ?thesis using q(1) by simp
qed

lemma select_of_mono: "select_of D d i = Some p \<Longrightarrow> select_of D d j = Some q \<Longrightarrow> i < j \<Longrightarrow> p < q"
  using rank_of_mono [of q p D d] by (force simp: select_of_Some not_less)

lemma wm_nth_mono: "i < j \<Longrightarrow> j < count_list xs c \<Longrightarrow> wm_nth L xs c l i < wm_nth L xs c l j"
  by (rule select_of_mono [OF wm_nth wm_nth]) simp_all

section \<open>The state of the cursor\<close>

definition vc_ok :: "nat \<Rightarrow> 'a::len word list \<Rightarrow> 'a word qwt_select_cursor \<Rightarrow> bool" where
  "vc_ok B xs cur \<longleftrightarrow> (let v = vc_view cur; c = vc_symbol cur; L = vw_n_levels v
     in vw_ok B v xs \<and> xs \<noteq> [] \<and> unat c < 4 ^ L \<and> L \<le> MAX_QUAD_LEVELS
       \<and> length (vc_level_inputs cur) = MAX_QUAD_LEVELS \<and> length (vc_level_positions cur) = MAX_QUAD_LEVELS
       \<and> (\<forall>l<L. idx (vc_path_offsets cur) l = Some (wm_pos L xs c 0 l)
         \<and> idx (vc_rank_path_offsets cur) l = Some (rank_of (wm_digits L xs l) (qdigit (2 * (L - 1 - l)) c) (wm_pos L xs c 0 l)))
       \<and> vc_occurrences cur = count_list xs c)"

text \<open>What is stored for level \<open>l\<close> once the \<open>i\<close>-th occurrence has been returned.\<close>

definition vc_row :: "'a::len word list \<Rightarrow> 'a word qwt_select_cursor \<Rightarrow> nat \<Rightarrow> nat \<Rightarrow> bool" where
  "vc_row xs cur l i \<longleftrightarrow> (let c = vc_symbol cur; L = vw_n_levels (vc_view cur)
     in vc_level_inputs cur ! l = wm_nth L xs c (Suc l) i \<and> vc_level_positions cur ! l = wm_pos L xs c 0 l + wm_nth L xs c l i)"

definition vc_at :: "nat \<Rightarrow> 'a::len word list \<Rightarrow> nat \<Rightarrow> 'a word qwt_select_cursor \<Rightarrow> bool" where
  "vc_at B xs i cur \<longleftrightarrow> vc_ok B xs cur \<and> vc_next_occurrence cur = i \<and> i \<le> vc_occurrences cur \<and> (vc_initialized cur \<longleftrightarrow> 0 < i)
     \<and> (0 < i \<longrightarrow> (\<forall>l<vw_n_levels (vc_view cur). vc_row xs cur l (i - 1)))"

lemma cursor_level:
  assumes "vc_ok B xs cur" "l < vw_n_levels (vc_view cur)"
  obtains lv where "idx (vw_levels (vc_view cur)) l = Some lv" "lv_ok B lv" "lv_list lv = wm_digits (vw_n_levels (vc_view cur)) xs l"
    "lv_position_bits lv < 2 ^ 64"
proof -
  let ?lv = "vw_levels (vc_view cur) ! l"
  have ok: "vw_ok B (vc_view cur) xs" "xs \<noteq> []" using assms(1) by (simp_all add: vc_ok_def Let_def)
  have "view_rep B ?lv (wm_digits (vw_n_levels (vc_view cur)) xs l)"
    using qw_ok_levels(6) [OF vw_okD(1) [OF ok(1)] ok(2), of l] assms(2) by simp
  then show thesis using that [of ?lv] vw_okD(4) [OF ok(1) assms(2)] by (simp add: view_rep_def)
qed

text \<open>The position on a level, computed anew or from the one before.\<close>

lemma cursor_position:
  assumes cur: "vc_ok B xs cur" "B = 256 \<or> B = 512" and i: "i < vc_occurrences cur" and l: "l < vw_n_levels (vc_view cur)"
    and lv: "lv_ok B lv" "lv_list lv = wm_digits (vw_n_levels (vc_view cur)) xs l" "lv_position_bits lv < 2 ^ 64"
    and init: "vc_initialized cur \<longleftrightarrow> 0 < i" "0 < i \<longrightarrow> vc_row xs cur l (i - 1)"
  defines "L \<equiv> vw_n_levels (vc_view cur)" and "c \<equiv> vc_symbol cur"
  defines "d \<equiv> qdigit (2 * (L - 1 - l)) c" and "b \<equiv> wm_pos L xs c 0 l"
  shows "(if vc_initialized cur then do {
         input \<leftarrow> idx (vc_level_inputs cur) l;
         old \<leftarrow> idx (vc_level_positions cur) l;
         (case chk_sub (wm_nth L xs c (Suc l) i) input of None \<Rightarrow> Some None
          | Some advance \<Rightarrow> lv_select_after lv d old advance)
       } else do {
         rank_b \<leftarrow> idx (vc_rank_path_offsets cur) l;
         lv_select B lv d (rank_b + wm_nth L xs c (Suc l) i)
       }) = Some (Some (b + wm_nth L xs c l i))"
proof -
  have xs: "\<forall>x\<in>set xs. unat x < 4 ^ L" "unat c < 4 ^ L"
    using cur(1) qw_ok_levels(2) [OF vw_okD(1), of B "vc_view cur" xs] by (simp_all add: vc_ok_def Let_def L_def c_def)
  have m: "vc_occurrences cur = count_list xs c" and len: "length (vc_level_inputs cur) = MAX_QUAD_LEVELS" "length (vc_level_positions cur) = MAX_QUAD_LEVELS" "L \<le> MAX_QUAD_LEVELS"
    using cur(1) by (simp_all add: vc_ok_def Let_def c_def L_def)
  have ic: "i < count_list xs c" using i m by simp
  let ?D = "wm_digits L xs l"
  have step: "select_of ?D d (rank_of ?D d b + wm_nth L xs c (Suc l) j) = Some (b + wm_nth L xs c l j)" if "j \<le> i" for j
    unfolding d_def b_def by (rule wm_nth_step [OF _ xs]) (use that ic l in \<open>simp_all add: L_def\<close>)
  have d4: "d < 4" by (simp add: d_def)
  show ?thesis
  proof (cases "0 < i")
    case False
    have "lv_select B lv d (rank_of ?D d b + wm_nth L xs c (Suc l) i) = Some (Some (b + wm_nth L xs c l i))"
      using lv_select_eq [OF lv(1) cur(2)] step [of i] lv(2) d4 by (simp add: L_def)
    moreover have "idx (vc_rank_path_offsets cur) l = Some (rank_of ?D d b)"
      using cur(1) l by (simp add: vc_ok_def Let_def L_def c_def d_def b_def)
    ultimately show ?thesis using False init(1) by simp
  next
    case True
    let ?k = "wm_nth L xs c (Suc l)"
    have row: "vc_level_inputs cur ! l = ?k (i - 1)" "vc_level_positions cur ! l = b + wm_nth L xs c l (i - 1)"
      using init(2) True by (simp_all add: vc_row_def Let_def L_def c_def b_def)
    have lt: "?k (i - 1) < ?k i" using True ic by (intro wm_nth_mono) simp_all
    have p: "b + wm_nth L xs c l (i - 1) < length ?D" "?D ! (b + wm_nth L xs c l (i - 1)) = d"
      "rank_of ?D d (b + wm_nth L xs c l (i - 1)) = rank_of ?D d b + ?k (i - 1)"
      using step [of "i - 1"] by (simp_all add: select_of_Some)
    have "lv_select_after lv d (b + wm_nth L xs c l (i - 1)) (?k i - ?k (i - 1))
        = Some (select_of ?D d (rank_of ?D d (b + wm_nth L xs c l (i - 1)) + (?k i - ?k (i - 1))))"
      using lv_select_after_eq [OF lv(1) d4 lv(3)] p(1,2) lt lv(2) by (simp add: L_def)
    also have "\<dots> = Some (Some (b + wm_nth L xs c l i))" using step [of i] lt unfolding p(3) by simp
    finally show ?thesis using True init(1) row lt len l by (simp add: chk_sub_def idx_def L_def)
  qed
qed

section \<open>One step\<close>

lemma vc_up_eq:
  assumes "vc_ok B xs cur" and B: "B = 256 \<or> B = 512" and "i < vc_occurrences cur" "l \<le> vw_n_levels (vc_view cur)"
    "vc_initialized cur \<longleftrightarrow> 0 < i" "0 < i \<Longrightarrow> \<forall>k<l. vc_row xs cur k (i - 1)" "\<forall>k<vw_n_levels (vc_view cur). l \<le> k \<longrightarrow> vc_row xs cur k i"
  shows "\<exists>cur'. vc_up B cur (rev [0..<l]) (2 * (vw_n_levels (vc_view cur) - l)) (wm_nth (vw_n_levels (vc_view cur)) xs (vc_symbol cur) l i)
      = Some (Some (wm_nth (vw_n_levels (vc_view cur)) xs (vc_symbol cur) 0 i), cur')
    \<and> vc_ok B xs cur' \<and> vc_view cur' = vc_view cur \<and> vc_symbol cur' = vc_symbol cur \<and> vc_initialized cur'
    \<and> vc_next_occurrence cur' = vc_next_occurrence cur + 1 \<and> vc_occurrences cur' = vc_occurrences cur
    \<and> (\<forall>k<vw_n_levels (vc_view cur). vc_row xs cur' k i)"
  using assms(1,3-)
proof (induction l arbitrary: cur)
  case 0
  then show ?case by (simp add: vc_ok_def vc_row_def Let_def)
next
  case (Suc l)
  let ?v = "vc_view cur" and ?c = "vc_symbol cur"
  let ?L = "vw_n_levels ?v"
  let ?d = "qdigit (2 * (?L - 1 - l)) ?c" and ?b = "wm_pos ?L xs ?c 0 l"
  have l: "l < ?L" using Suc.prems(3) by simp
  obtain lv where lv: "idx (vw_levels ?v) l = Some lv" "lv_ok B lv" "lv_list lv = wm_digits ?L xs l" "lv_position_bits lv < 2 ^ 64"
    using cursor_level [OF Suc.prems(1) l] .
  have row: "0 < i \<longrightarrow> vc_row xs cur l (i - 1)" using Suc.prems(5) by simp
  note pos = cursor_position [OF Suc.prems(1) B Suc.prems(2) l lv(2,3,4) Suc.prems(4) row]
  have frame: "l < length (vc_level_inputs cur)" "l < length (vc_level_positions cur)" "idx (vc_path_offsets cur) l = Some ?b"
    using Suc.prems(1) l by (simp_all add: vc_ok_def Let_def)
  have ok: "vw_ok B ?v xs" "xs \<noteq> []" using Suc.prems(1) by (simp_all add: vc_ok_def Let_def)
  have "2 * (?L - Suc l) < LENGTH('a)" using qw_ok_levels(3) [OF vw_okD(1) [OF ok(1)] ok(2)] by simp
  then have tb: "two_bits_T (2 * (?L - Suc l)) ?c = Some ?d" by (simp add: two_bits_T_eq)
  define cur1 where "cur1 = cur\<lparr>vc_level_inputs := (vc_level_inputs cur)[l := wm_nth ?L xs ?c (Suc l) i],
    vc_level_positions := (vc_level_positions cur)[l := ?b + wm_nth ?L xs ?c l i]\<rparr>"
  have same: "vc_view cur1 = ?v" "vc_symbol cur1 = ?c" "vc_occurrences cur1 = vc_occurrences cur" "vc_next_occurrence cur1 = vc_next_occurrence cur"
    "vc_initialized cur1 = vc_initialized cur" by (simp_all add: cur1_def)
  have r: "rev [0..<Suc l] = l # rev [0..<l]" by simp
  have unf: "vc_up B cur (rev [0..<Suc l]) (2 * (?L - Suc l)) (wm_nth ?L xs ?c (Suc l) i)
      = vc_up B cur1 (rev [0..<l]) (2 * (?L - Suc l) + 2) (wm_nth ?L xs ?c l i)"
    unfolding r vc_up.simps(2) tb lv(1) bind.bind_lunit pos using frame by (simp add: cur1_def Let_def)
  have sh: "2 * (?L - Suc l) + 2 = 2 * (?L - l)" using l by simp
  have ok1: "vc_ok B xs cur1" using Suc.prems(1) by (simp add: cur1_def vc_ok_def Let_def)
  have old: "vc_row xs cur1 k j \<longleftrightarrow> vc_row xs cur k j" if "k \<noteq> l" for k j using that by (simp add: cur1_def vc_row_def Let_def)
  have new: "vc_row xs cur1 l i" using frame by (simp add: cur1_def vc_row_def Let_def)
  have "\<exists>cur'. vc_up B cur1 (rev [0..<l]) (2 * (vw_n_levels (vc_view cur1) - l)) (wm_nth (vw_n_levels (vc_view cur1)) xs (vc_symbol cur1) l i)
      = Some (Some (wm_nth (vw_n_levels (vc_view cur1)) xs (vc_symbol cur1) 0 i), cur')
    \<and> vc_ok B xs cur' \<and> vc_view cur' = vc_view cur1 \<and> vc_symbol cur' = vc_symbol cur1 \<and> vc_initialized cur'
    \<and> vc_next_occurrence cur' = vc_next_occurrence cur1 + 1 \<and> vc_occurrences cur' = vc_occurrences cur1
    \<and> (\<forall>k<vw_n_levels (vc_view cur1). vc_row xs cur' k i)"
  proof (rule Suc.IH [OF ok1], goal_cases)
    case 4
    then show ?case using Suc.prems(5) old by auto
  next
    case 5
    show ?case using Suc.prems(6) old new by (auto simp: same le_less)
  qed (use Suc.prems l same in simp_all)
  then show ?case unfolding unf sh same .
qed

lemma vc_next_eq:
  assumes at: "vc_at B xs i cur" and B: "B = 256 \<or> B = 512" and i: "i < vc_occurrences cur"
  obtains cur' where "vc_next B cur = Some (Some (the (select_of xs (vc_symbol cur) i)), cur')" "vc_at B xs (Suc i) cur'"
    "vc_symbol cur' = vc_symbol cur" "vc_occurrences cur' = vc_occurrences cur"
proof -
  let ?L = "vw_n_levels (vc_view cur)" and ?c = "vc_symbol cur"
  have ok: "vc_ok B xs cur" using at by (simp add: vc_at_def)
  then have m: "vc_occurrences cur = count_list xs ?c" and v: "vw_ok B (vc_view cur) xs" "xs \<noteq> []" "unat ?c < 4 ^ ?L" by (simp_all add: vc_ok_def Let_def)
  obtain cur' where cur': "vc_up B cur (rev [0..<?L]) (2 * (?L - ?L)) (wm_nth ?L xs ?c ?L i) = Some (Some (wm_nth ?L xs ?c 0 i), cur')"
    "vc_ok B xs cur'" "vc_view cur' = vc_view cur" "vc_symbol cur' = ?c" "vc_initialized cur'" "vc_next_occurrence cur' = vc_next_occurrence cur + 1"
    "vc_occurrences cur' = vc_occurrences cur" "\<forall>k<?L. vc_row xs cur' k i"
    using vc_up_eq [OF ok B i order_refl] at by (auto simp: vc_at_def)
  have "wm_nth ?L xs ?c ?L i = i" using i m by (intro wm_nth_leaf) simp
  moreover have "select_of xs ?c i = Some (wm_nth ?L xs ?c 0 i)"
    using i m v(3) qw_ok_levels(2) [OF vw_okD(1) [OF v(1)] v(2)] by (intro wm_nth_root) simp_all
  ultimately have "vc_next B cur = Some (Some (the (select_of xs ?c i)), cur')"
    using cur'(1) at i by (simp add: vc_next_def vc_at_def)
  moreover have "vc_at B xs (Suc i) cur'" using cur' at i by (simp add: vc_at_def)
  ultimately show thesis using that cur'(4,7) by blast
qed

section \<open>The whole run\<close>

lemma occurrences_list: "map (\<lambda>i. the (select_of xs c i)) [0..<count_list xs c] = filter (\<lambda>p. xs ! p = c) [0..<length xs]"
proof -
  have "count_list xs c = length (filter (\<lambda>p. xs ! p = c) [0..<length xs])"
    using rank_of_cntp [of "length xs" xs c] by (simp add: rank_of_def cntp_filter)
  then show ?thesis by (intro nth_equalityI) (simp_all add: select_of_def selp_def)
qed

lemma cursor_run:
  assumes at: "vc_at B xs i cur" and B: "B = 256 \<or> B = 512"
  shows "collect (vc_next B) cur = Some (drop i (filter (\<lambda>p. xs ! p = vc_symbol cur) [0..<length xs]))"
  using at
proof (induction "vc_occurrences cur - i" arbitrary: i cur)
  case 0
  then have "i = vc_occurrences cur" by (simp add: vc_at_def)
  moreover from this have "vc_next B cur = Some (None, cur)" using 0 by (simp add: vc_next_def vc_at_def)
  moreover have "vc_occurrences cur = length (map (\<lambda>i. the (select_of xs (vc_symbol cur) i)) [0..<count_list xs (vc_symbol cur)])"
    using 0 by (simp add: vc_at_def vc_ok_def Let_def)
  ultimately show ?case unfolding occurrences_list [symmetric] by (simp add: collect_None)
next
  case (Suc m)
  then have i: "i < vc_occurrences cur" by simp
  then have n: "i < count_list xs (vc_symbol cur)" using Suc.prems by (simp add: vc_at_def vc_ok_def Let_def)
  obtain cur' where cur': "vc_next B cur = Some (Some (the (select_of xs (vc_symbol cur) i)), cur')" "vc_at B xs (Suc i) cur'"
    "vc_symbol cur' = vc_symbol cur" "vc_occurrences cur' = vc_occurrences cur" using vc_next_eq [OF Suc.prems B i] .
  have "collect (vc_next B) cur' = Some (drop (Suc i) (filter (\<lambda>p. xs ! p = vc_symbol cur') [0..<length xs]))"
    using Suc.hyps(1) [of cur' "Suc i"] Suc.hyps(2) cur' i by simp
  then show ?case
    using collect_Some [of "vc_next B" cur, OF cur'(1)] n unfolding cur'(3) occurrences_list [symmetric] by (simp add: Cons_nth_drop_Suc [symmetric])
qed

section \<open>Making a cursor\<close>

lemma path_steps:
  fixes xs :: "'a::len word list"
  assumes ok: "vw_ok B v xs" "xs \<noteq> []" and B: "B = 256 \<or> B = 512" and cap: "vw_n_levels v \<le> MAX_QUAD_LEVELS"
  defines "L \<equiv> vw_n_levels v"
  assumes k: "k \<le> L"
  shows "\<exists>ps rs. foldM (vc_path_step B v c) (int (2 * (L - 1)), 0, length xs, replicate MAX_QUAD_LEVELS 0, replicate MAX_QUAD_LEVELS 0) [0..<k]
      = Some (int (2 * (L - 1)) - 2 * int k, wm_pos L xs c 0 k, wm_pos L xs c (length xs) k, ps, rs)
    \<and> length ps = MAX_QUAD_LEVELS \<and> length rs = MAX_QUAD_LEVELS
    \<and> (\<forall>l<k. ps ! l = wm_pos L xs c 0 l \<and> rs ! l = rank_of (wm_digits L xs l) (qdigit (2 * (L - 1 - l)) c) (wm_pos L xs c 0 l))"
  using k
proof (induction k)
  case (Suc k)
  then have k: "k < L" by simp
  let ?D = "wm_digits L xs k" and ?d = "qdigit (2 * (L - 1 - k)) c"
  obtain ps rs where st: "foldM (vc_path_step B v c) (int (2 * (L - 1)), 0, length xs, replicate MAX_QUAD_LEVELS 0, replicate MAX_QUAD_LEVELS 0) [0..<k]
      = Some (int (2 * (L - 1)) - 2 * int k, wm_pos L xs c 0 k, wm_pos L xs c (length xs) k, ps, rs)"
    "length ps = MAX_QUAD_LEVELS" "length rs = MAX_QUAD_LEVELS"
    "\<forall>l<k. ps ! l = wm_pos L xs c 0 l \<and> rs ! l = rank_of (wm_digits L xs l) (qdigit (2 * (L - 1 - l)) c) (wm_pos L xs c 0 l)"
    using Suc.IH k by auto
  have rep: "lv_ok B (vw_levels v ! k)" "lv_list (vw_levels v ! k) = ?D" "k < length (vw_levels v)"
    using qw_ok_levels(6) [OF vw_okD(1) [OF ok(1)] ok(2), of k] k vw_okD(4) [OF ok(1), of k] by (simp_all add: view_rep_def L_def)
  have sh: "nat (int (2 * (L - 1)) - 2 * int k) = 2 * (L - 1 - k)" using k by simp
  have "2 * (L - 1 - k) < LENGTH('a)" using qw_ok_levels(3) [OF vw_okD(1) [OF ok(1)] ok(2)] by (simp add: L_def)
  then have tb: "two_bits_T (nat (int (2 * (L - 1)) - 2 * int k)) c = Some ?d" unfolding sh by (rule two_bits_T_eq)
  have pos: "wm_pos L xs c 0 k \<le> length xs" "wm_pos L xs c (length xs) k \<le> length xs" by (simp_all add: wm_pos_le)
  have cap': "k < MAX_QUAD_LEVELS" using k cap by (simp add: L_def)
  have "vc_path_step B v c (int (2 * (L - 1)) - 2 * int k, wm_pos L xs c 0 k, wm_pos L xs c (length xs) k, ps, rs) k
      = Some (int (2 * (L - 1)) - 2 * int k - 2, wm_pos L xs c 0 (Suc k), wm_pos L xs c (length xs) (Suc k),
          ps[k := wm_pos L xs c 0 k], rs[k := rank_of ?D ?d (wm_pos L xs c 0 k)])"
    using st(2,3) cap' rep pos lv_rank_unchecked_eq [OF rep(1) B] lv_occs_smaller_eq [OF rep(1)]
    unfolding vc_path_step_def prod.case Let_def tb bind.bind_lunit by (simp add: add.commute)
  then show ?case using st cap' by (simp add: foldM_append nth_list_update less_Suc_eq)
qed simp

lemma vw_select_cursor_eq:
  fixes xs :: "'a::len word list"
  assumes ok: "vw_ok B v xs" and B: "B = 256 \<or> B = 512" and w: "LENGTH('a) \<le> 64"
  shows "if xs \<noteq> [] \<and> c \<le> max_symbol xs
    then \<exists>cur. vw_select_cursor B v c = Some (Some cur) \<and> vc_at B xs 0 cur \<and> vc_symbol cur = c \<and> vc_occurrences cur = count_list xs c
    else vw_select_cursor B v c = Some None"
proof (cases "xs = []")
  case True
  then show ?thesis using vw_okD(3) [OF ok] by (simp add: vw_select_cursor_def)
next
  case False
  note lev = qw_ok_levels [OF vw_okD(1) [OF ok] False]
  have sigma: "vw_sigma v = max_symbol xs" using vw_okD(1) [OF ok] False by (simp add: qw_ok_def)
  let ?L = "vw_n_levels v"
  have cap: "?L \<le> MAX_QUAD_LEVELS" "0 < ?L" using lev(1,3) w by (simp_all add: MAX_QUAD_LEVELS_def)
  show ?thesis
  proof (cases "c \<le> max_symbol xs")
    case above: False
    then have "c > vw_sigma v" using sigma by simp
    then show ?thesis using above by (simp add: vw_select_cursor_def)
  next
    case True
    have xs: "\<forall>x\<in>set xs. unat x < 4 ^ ?L" using lev(2) by simp
    have "unat (max_symbol xs) < 4 ^ ?L" using max_symbol_in [OF False] xs by blast
    then have c: "unat c < 4 ^ ?L" using True by (simp add: word_le_nat_alt)
    obtain ps rs where st: "foldM (vc_path_step B v c) (int (2 * (?L - 1)), 0, length xs, replicate MAX_QUAD_LEVELS 0, replicate MAX_QUAD_LEVELS 0) [0..<?L]
        = Some (int (2 * (?L - 1)) - 2 * int ?L, wm_pos ?L xs c 0 ?L, wm_pos ?L xs c (length xs) ?L, ps, rs)"
      "length ps = MAX_QUAD_LEVELS" "length rs = MAX_QUAD_LEVELS"
      "\<forall>l<?L. ps ! l = wm_pos ?L xs c 0 l \<and> rs ! l = rank_of (wm_digits ?L xs l) (qdigit (2 * (?L - 1 - l)) c) (wm_pos ?L xs c 0 l)"
      using path_steps [OF ok False B cap(1) order_refl, of c] by blast
    have node: "wm_node ?L xs xs ?L (wm_pre ?L ?L c) (wm_pos ?L xs c 0 ?L) (wm_pos ?L xs c (length xs) ?L)"
      using wm_node_pos [of 0 "length xs" xs ?L c ?L] xs c by (simp add: slice_0)
    have n: "wm_pos ?L xs c (length xs) ?L - wm_pos ?L xs c 0 ?L = count_list xs c" "wm_pos ?L xs c 0 ?L \<le> wm_pos ?L xs c (length xs) ?L"
      using wm_node_size [OF node] node length_wm_part_symbol [of ?L c xs] by (simp_all add: wm_node_def)
    let ?cur = "\<lparr>vc_view = v, vc_symbol = c, vc_path_offsets = ps, vc_rank_path_offsets = rs,
      vc_level_positions = replicate MAX_QUAD_LEVELS 0, vc_level_inputs = replicate MAX_QUAD_LEVELS 0,
      vc_next_occurrence = 0, vc_occurrences = count_list xs c, vc_initialized = False\<rparr>"
    have "vw_select_cursor B v c = Some (Some ?cur)"
      using True sigma cap vw_okD(2) [OF ok] st(1) n by (simp add: vw_select_cursor_def not_less)
    moreover have "vc_at B xs 0 ?cur"
      using ok False c cap(1) st(2-4) by (simp add: vc_at_def vc_ok_def idx_def)
    ultimately show ?thesis using False True by auto
  qed
qed

end
