(* ===== verification/ViewProperties.thy ===== *)
theory ViewProperties
  imports ViewImage ViewCursor
begin

text \<open>
  What a view of a plain tree promises: on any bytes, and on the blob of a tree.
\<close>





text \<open>C40. The select cursor of an opened view runs through the positions of its symbol in ascending order and then ends: it never
  panics, misses no occurrence and gives none twice, and its size hint is exact at the start. No cursor is made for a symbol above the
  largest one or on an empty tree.\<close>

theorem qwt_view_cursor:
  assumes B: "B = 256 \<or> B = 512" and w: "8 dvd LENGTH('a)" "LENGTH('a) \<le> 64"
  shows "\<exists>res :: layout_error + 'a::len word qwt_view. vw_from_bytes little_endian B base bytes = Some res
    \<and> (\<forall>v. res = Inr v \<longrightarrow> (\<exists>xs. (\<forall>i. vw_get B v i = Some (idx xs i))
      \<and> (\<forall>c. if xs \<noteq> [] \<and> c \<le> max_symbol xs
        then \<exists>cur. vw_select_cursor B v c = Some (Some cur) \<and> vc_size_hint cur = (count_list xs c, Some (count_list xs c))
          \<and> collect (vc_next B) cur = Some (filter (\<lambda>p. xs ! p = c) [0..<length xs])
        else vw_select_cursor B v c = Some None)))"
proof -
  obtain res :: "layout_error + 'a word qwt_view" where res: "vw_from_bytes little_endian B base bytes = Some res"
    "\<forall>v. res = Inr v \<longrightarrow> (\<exists>xs. vw_ok B v xs)" using vw_from_bytes_result [OF B w(1)] by blast
  have "\<exists>xs. (\<forall>i. vw_get B v i = Some (idx xs i))
      \<and> (\<forall>c. if xs \<noteq> [] \<and> c \<le> max_symbol xs
        then \<exists>cur. vw_select_cursor B v c = Some (Some cur) \<and> vc_size_hint cur = (count_list xs c, Some (count_list xs c))
          \<and> collect (vc_next B) cur = Some (filter (\<lambda>p. xs ! p = c) [0..<length xs])
        else vw_select_cursor B v c = Some None)" if v: "res = Inr v" for v
  proof -
    obtain xs where xs: "vw_ok B v xs" using res(2) v by blast
    have "\<exists>cur. vw_select_cursor B v c = Some (Some cur) \<and> vc_size_hint cur = (count_list xs c, Some (count_list xs c))
          \<and> collect (vc_next B) cur = Some (filter (\<lambda>p. xs ! p = c) [0..<length xs])" if c: "xs \<noteq> [] \<and> c \<le> max_symbol xs" for c
    proof -
      obtain cur where cur: "vw_select_cursor B v c = Some (Some cur)" "vc_at B xs 0 cur" "vc_symbol cur = c" "vc_occurrences cur = count_list xs c"
        using vw_select_cursor_eq [OF xs B w(2), of c] c by auto
      then show ?thesis using cursor_run [OF cur(2) B] by (simp add: vc_size_hint_def vc_at_def Let_def)
    qed
    moreover have "vw_select_cursor B v c = Some None" if "\<not> (xs \<noteq> [] \<and> c \<le> max_symbol xs)" for c
      using vw_select_cursor_eq [OF xs B w(2), of c] that by (simp only: if_False)
    ultimately show ?thesis using vw_queries(1) [OF B xs] by (intro exI [of _ xs]) simp
  qed
  then show ?thesis using res(1) by blast
qed

theorem qwt_view_cursor_witness:
  "\<exists>bytes v. vw_from_bytes True 256 0 bytes = Some (Inr (v :: 16 word qwt_view)) \<and> vw_len v = 3
    \<and> (\<forall>c. \<exists>r. vw_select_cursor 256 v c = Some r)"
proof -
  have "\<exists>bytes v. vw_from_bytes True 256 0 bytes = Some (Inr (v :: 16 word qwt_view)) \<and> vw_len v = length ([5, 900, 5] :: 16 word list)"
    by (rule blob_opens) simp_all
  then obtain bytes and v :: "16 word qwt_view" where v: "vw_from_bytes True 256 0 bytes = Some (Inr v)"
    and "vw_len v = length ([5, 900, 5] :: 16 word list)" by blast
  then have "vw_len v = 3" by simp
  moreover have "\<exists>r. vw_select_cursor 256 v c = Some r" for c
    using qwt_view_cursor [where 'a = 16, of 256 True 0 bytes] v by (auto split: if_splits)
  ultimately show ?thesis using v by blast
qed

end
