(* ===== verification/Spec2Isabelle.thy ===== *)
theory Spec2Isabelle
  imports QuadWTExtract QuadWTNext QuadWTParts BitProperties BinWTProperties Prefetch HuffQWTProperties DArrayProperties ByteProperties HqwbProperties ViewProperties
begin

text \<open>
  A verification development for the Rust crate \<open>qwt\<close>: compact rank/select structures over
  bit vectors and two-bit vectors, and the wavelet trees built from them. All paths below are
  under \<^verbatim>\<open>src/src/\<close>.

  \<^bold>\<open>The program.\<close> A \<open>QVector\<close> packs two-bit symbols in data lines of four 128-bit words. An
  \<open>RSQVector\<close> adds to it block-level counters and select samples (\<open>RSSupportPlain\<close>) and so answers
  rank and select for the four symbols. A \<open>QWaveletTree\<close> holds one such vector per pair of bits of
  the symbols, most significant first; the construction partitions the sequence by the current
  digit, level by level, and every query walks down (rank, access, range queries) or down and up
  (select) through the levels by \<open>occs_smaller(digit) + rank(digit, position)\<close>. A \<open>BitVector\<close> is an
  array of 512-bit lines, grown by \<open>BitVectorMut\<close>; the two structures \<open>RS\<close> of \<^verbatim>\<open>bitvector/narrow.rs\<close> and
  \<^verbatim>\<open>bitvector/wide.rs\<close> add counters and hints to it for rank and select of ones and zeros.

  \<^bold>\<open>Outcomes.\<close> An operation of the model returns \<open>None\<close> where the code panics: an index out of
  bounds, a failed assertion (debug assertions included), an arithmetic overflow trapped by overflow
  checks, or a read outside a slice in unchecked code. A Rust \<open>Option\<close> result is then a nested
  option: \<open>Some None\<close> is the code's \<open>None\<close>. A theorem that says \<open>f x = Some y\<close> therefore says that the
  code returns, does not panic, and returns \<open>y\<close>. Symbols of type \<open>T\<close> are words of any length;
  positions and counts are natural numbers, and a \<open>usize\<close> addition or multiplication that an input can make overflow is a checked
  one (\<open>add_usize\<close>, \<open>mul_usize\<close>). A \<open>vec![x; n]\<close> or \<open>with_capacity\<close> whose size an input chooses panics when it would take more than
  \<open>isize::MAX\<close> bytes (\<open>vec_of\<close>, \<open>bm_with_capacity\<close>, \<open>qb_with_capacity\<close>); running out of memory below that is outside the model.

  \<^bold>\<open>The theories.\<close>
  \<^item> \<open>Prelude\<close>: outcomes, loops (\<open>foldM\<close>, \<open>scan_while\<close>, \<open>collect\<close>), packed fields of words, counting and
    selecting positions.
  \<^item> \<open>SelectTable\<close>, \<open>SelectWord\<close>, \<open>StablePart\<close>, \<open>Utils\<close>: \<^verbatim>\<open>utils/mod.rs\<close>. The byte table is checked against
    its meaning, the broadword selection is proved by bytes, and the partitions are instances of one
    lemma on scattering into buckets.
  \<^item> \<open>QuadVec\<close>, \<open>QVec\<close>: \<^verbatim>\<open>qvector/mod.rs\<close>, data lines, the vector, its iterator and builder.
  \<^item> \<open>RSPlain\<close>, \<open>RSPlainCorrect\<close>, \<open>RSPlainBuild\<close>: \<^verbatim>\<open>qvector/rs_qvector/rs_support_plain.rs\<close>, its queries under
    the invariant \<open>rp_inv\<close>, and the construction loop that establishes it.
  \<^item> \<open>RSQVec\<close>: \<^verbatim>\<open>qvector/rs_qvector.rs\<close>. The trait \<open>RSSupport\<close> is a record of operations with the
    contract locale \<open>rs_support\<close>, interpreted for block sizes 256 and 512.
  \<^item> \<open>WaveletMatrix\<close>: the mathematics of the levels: the sequence of level \<open>l\<close>, its nodes, and how a
    position moves from one level to the next.
  \<^item> \<open>QuadWT\<close>, \<open>QuadWTRange\<close>: \<^verbatim>\<open>quadwt/mod.rs\<close> and the iterator of \<^verbatim>\<open>lib.rs\<close>, definitions.
  \<^item> \<open>QuadWTCorrect\<close>, \<open>QuadWTPoint\<close>, \<open>QuadWTOccs\<close>, \<open>QuadWTDistinct\<close>: construction, point queries and range
    iterators, proved in contract locales of the levels: \<open>wt_queries\<close> holds the laws of the operations the queries
    use, \<open>wt_support\<close> extends it by those of the construction and the checks. A sublocale shows that every \<open>RSQVector\<close>
    meets them; views of levels are a second instance of \<open>wt_queries\<close>.
  \<^item> \<open>Prefetch\<close>: \<^verbatim>\<open>quadwt/prefetch_support.rs\<close>: the sampled counts, their estimate of the rank, and the prefetching
    rank of a tree that has them.
  \<^item> \<open>QuadWTExtract\<close>, \<open>QuadWTNext\<close>: the recursive range extractions and \<open>range_next_value\<close>.
  \<^item> \<open>Layout\<close>, \<open>WaveletDecode\<close>, \<open>QuadWTParts\<close>: results with errors; \<open>from_parts\<close> and deserialisation. What
    following a position down arbitrary levels decodes, and that accepted levels are the levels of the
    decoded sequence.
  \<^item> \<open>BitLine\<close>, \<open>BitVec\<close>, \<open>BitVecOps\<close>, \<open>BitVecPacked\<close>, \<open>BitVecIter\<close>: \<^verbatim>\<open>bitvector/mod.rs\<close>. \<open>BitVecMachine\<close> makes the operations
    that change the growable vector, \<open>set_bits\<close> included, a state machine (\<open>bm_step\<close>) that refines one on a list of booleans
    and the stored count of ones (\<open>abs_exec\<close>).
  \<^item> \<open>HintSelect\<close>, \<open>BinSupport\<close>, \<open>RSNarrow\<close>, \<open>RSWide\<close>: the scans and packed counters the two rank/select
    structures share, their contract as the locale \<open>bin_support\<close> over the traits \<open>RankBin\<close> and \<open>SelectBin\<close>, and
    the two structures, each with the invariant of its construction loop and an interpretation.
  \<^item> \<open>BitProperties\<close>: the properties of bit vectors and of both structures.
  \<^item> \<open>CodeMatrix\<close>, \<open>CodeDfs\<close>: the mathematics of levels of codes of different lengths (\<open>cm_ok\<close>), of which equal lengths
    are a case, and of collecting the leaves below a node.
  \<^item> \<open>BinWT\<close>: \<^verbatim>\<open>binwt/mod.rs\<close>, definitions. \<open>BinWTCorrect\<close> (queries on any well-formed levels), \<open>BinWTBuild\<close> (the plain
    tree), \<open>BinWTCodes\<close>, \<open>BinWTHuff\<close> (the codes and the compressed tree), \<open>BinWTOccs\<close> (the iterator), \<open>BinWTSerde\<close> (the
    checks after decoding) prove it in the locale \<open>binary_tree\<close> over the contract \<open>bin_support\<close>; \<open>BinWTProperties\<close>
    interprets it for the wide structure. The lengths of the code are the parameter \<open>code_lengths\<close>; the theorems assume
    \<open>lengths_for\<close>: on the frequencies of the sequence they are those of a complete code (Kraft sum one) of lengths 1 to
    32 for its symbols, which is what a minimum-redundancy coding of two or more symbols is.
  \<^item> \<open>CodeTables\<close>: what both compressed trees share: symbols that have distinct codes, and the rows of the decoding table.
  \<^item> \<open>HuffQWT\<close>, \<open>HuffQWTParts\<close>: \<^verbatim>\<open>quadwt/huffqwt.rs\<close>, definitions: the compressed quad wavelet tree. \<open>HuffCodes\<close> proves that
    the limited lengths fit 32 bits and that \<open>craft4_wm_codes\<close> makes prefix-free codes of them, \<open>HuffQWTCorrect\<close> the
    queries on well-formed levels, \<open>HuffQWTBuild\<close> the construction, \<open>HuffQWTOccs\<close> the iterator and \<open>HuffQWTSerde\<close> the checks,
    all in the same contract locales; \<open>HuffQWTProperties\<close> states the results for \<open>HQWT256\<close> and \<open>HQWT512\<close>. The
    theorems assume \<open>quad_lengths_for\<close>: the lengths the crate returns are for exactly the symbols of the sequence, and after
    \<open>limit_code_lengths\<close> they fit the code space and leave nodes unused only on the deepest level, as the lengths of an
    optimal four-way code of at most 32 bits do; no length reaches \<open>2 ^ 31\<close> digits.

  \<^item> \<open>DArray\<close>, \<open>DArrayProperties\<close>: \<^verbatim>\<open>darray/mod.rs\<close>: the inventories as a function of the positions of the ones or zeros
    (\<open>da_rep\<close>), select from them, and the wrong answers behind a sparse block.

  \<^item> \<open>ByteUtil\<close>, \<open>ByteLevel\<close>: \<^verbatim>\<open>bytes/util.rs\<close> and the parts of \<^verbatim>\<open>bytes/qwtb.rs\<close> and \<^verbatim>\<open>bytes/hqwb.rs\<close> about one level: its directory
    entry, planning its offsets, writing its payload and reading it. A plain-old-data type is its size and its image in
    bytes, with the contract \<open>pod\<close>, interpreted for words, data lines and superblocks. \<open>LevelImage\<close> says what bytes the
    steps write for a level. \<open>Qwtb\<close> models the two functions of \<^verbatim>\<open>bytes/qwtb.rs\<close>, \<open>QwtbCorrect\<close> gives the whole blob and
    reads it back, \<open>ByteTrees\<close> joins this with the trees, \<open>ByteProperties\<close> states the results.
  \<^item> \<open>Hqwb\<close>, \<open>HqwbCorrect\<close>, \<open>HqwbProperties\<close>: the two functions of \<^verbatim>\<open>bytes/hqwb.rs\<close>: the same container with the code tables
    of a compressed tree between the directory and the levels; its image, and that writing and reading give the tree back.
  \<^item> \<open>LevelView\<close>: opening a level of a blob in place, \<^verbatim>\<open>bytes/level.rs\<close>. \<open>LevelViewCheck\<close> says what each loop of checks
    establishes, \<open>LevelViewSound\<close> that an accepted level is well-formed, \<open>LevelViewImage\<close> that a written level is accepted.
    \<open>LevelQuery\<close> and \<open>LevelCursor\<close> model its queries and prove them equal to the functions on lists. \<open>View\<close> models \<open>QwtView\<close> of
    \<^verbatim>\<open>bytes/view.rs\<close>; \<open>ViewCorrect\<close> reads it as a tree whose levels are views, \<open>ViewImage\<close> opens the blob of a tree, \<open>ViewCursor\<close> follows the
    select cursor up the levels, and \<open>ViewProperties\<close> states the results.

  \<^bold>\<open>Bounds.\<close> The theorems about trees assume symbols of at most 64 bits and fewer than
  \<open>2 ^ 43 - 2048\<close> elements; both are sharp, as the theorems on overflows show. The rank/select structures
  over bit vectors are proved for fewer than \<open>2 ^ 43\<close> bits, half of what the 44-bit counters hold. The compressed trees
  have tables indexed by symbol and are proved for symbols below \<open>2 ^ 60 - 1\<close>; from there on their construction panics.
  Loops that are not structural are \<open>partial_function (option)\<close>, so a theorem with result \<open>Some\<close>
  includes termination; the fuel of the two recursive extractions is the number of levels, which
  their depth cannot exceed.

  \<^bold>\<open>Not modelled.\<close> Prefetch instructions and memory accounting, which do not affect results;
  the processor dispatch of the population count; serde's encodings (the checks after decoding are
  modelled). Of the byte formats, the view of a compressed tree and the builders that write blobs
  directly, as the manifest lists.
\<close>

unbundle bit_operations_syntax

section \<open>The quad wavelet trees QWT256 and QWT512\<close>

abbreviation QWT_ops :: "nat \<Rightarrow> rs_support_plain rs_qvector wt_support_ops" where
  "QWT_ops bs \<equiv> rq_ops (rs_plain bs)"

abbreviation qwt_represents :: "nat \<Rightarrow> ('a::len word, rs_support_plain rs_qvector, 'p) qwt \<Rightarrow> 'a word list \<Rightarrow> bool" where
  "qwt_represents bs t xs \<equiv> qw_ok (\<lambda>r D. rq_ok (rp_inv bs) r \<and> rq_list r = D) t xs"

lemma qwt_built:
  fixes xs :: "'a::len word list"
  assumes "bs = 256 \<or> bs = 512" "LENGTH('a) \<le> 64" "length xs < 2 ^ 43 - 2048"
  obtains t :: "('a word, rs_support_plain rs_qvector, 'p) qwt"
  where "qw_new (QWT_ops bs) None xs = Some t" "qwt_represents bs t xs"
  using assms(1)
proof
  assume "bs = 256"
  then show thesis using that rs256.wt.from_owned_ok [OF assms(2,3), of None] by (auto simp: qw_new_def pf_ok_def)
next
  assume "bs = 512"
  then show thesis using that rs512.wt.from_owned_ok [OF assms(2,3), of None] by (auto simp: qw_new_def pf_ok_def)
qed

lemma no_prefetch: "qw_new R None xs = Some t \<Longrightarrow> qw_prefetch_support t = None"
  by (auto simp: qw_new_def qw_from_owned_def Let_def bind_eq_Some_conv split: if_splits)

lemma levels_le: "m < 62 \<Longrightarrow> div_ceil (Suc m) 2 \<le> 31"
  by (simp add: div_ceil_def) presburger


lemma msb_less: "unat v < 2 ^ k \<Longrightarrow> 0 < k \<Longrightarrow> msb_of v < k"
proof (cases "v = 0")
  case False
  assume "unat v < 2 ^ k"
  then have "(2 :: nat) ^ msb_of v < 2 ^ k" using msb_of_bounds(1) [OF False] by linarith
  then show ?thesis by simp
qed (simp add: msb_of_def)

text \<open>C1. Access: a tree built from a sequence returns the symbol at every position of it, with \<open>get_and_rank\<close> also
  the number of its occurrences up to and including the position, and \<open>None\<close> beyond the end; neither building nor reading panics.\<close>

theorem qwt_get:
  fixes xs :: "'a::len word list"
  assumes "bs = 256 \<or> bs = 512" "LENGTH('a) \<le> 64" "length xs < 2 ^ 43 - 2048"
  shows "\<exists>t :: ('a word, _, 'p) qwt. qw_new (QWT_ops bs) None xs = Some t
    \<and> qw_len t = length xs \<and> (\<forall>i. qw_get (QWT_ops bs) t i = Some (idx xs i)
      \<and> qw_get_and_rank (QWT_ops bs) t i = Some (if i < length xs then Some (xs ! i, count_list (take (i + 1) xs) (xs ! i)) else None))"
proof -
  obtain t :: "('a word, _, 'p) qwt" where t: "qw_new (QWT_ops bs) None xs = Some t" "qwt_represents bs t xs"
    by (rule qwt_built [OF assms])
  have "qw_get (QWT_ops bs) t i = Some (idx xs i)" for i
    using assms(1) t(2) rs256.wt.get_eq rs512.wt.get_eq by blast
  moreover have "qw_get_and_rank (QWT_ops bs) t i
      = Some (if i < length xs then Some (xs ! i, count_list (take (i + 1) xs) (xs ! i)) else None)" for i
    using assms(1) t(2) rs256.wt.get_and_rank_eq [of t xs i] rs512.wt.get_and_rank_eq [of t xs i] by (auto simp: rank_of_def)
  moreover have "qw_len t = length xs" using t(2) by (auto simp: qw_len_def qw_ok_def)
  ultimately show ?thesis using t(1) by blast
qed

theorem qwt_get_witness:
  "\<exists>t :: (8 word, _, unit) qwt. qw_new (QWT_ops 256) None [1, 0, 200, 7, 0] = Some t
    \<and> qw_get (QWT_ops 256) t 2 = Some (Some 200) \<and> qw_get (QWT_ops 256) t 5 = Some None
    \<and> qw_get_and_rank (QWT_ops 256) t 4 = Some (Some (0, 2))"
  using qwt_get [of 256 "[1, 0, 200, 7, 0 :: 8 word]"] by fastforce

text \<open>C2. Rank: for every symbol up to the largest one and every prefix, \<open>rank\<close> is the number of occurrences
  of the symbol in the prefix; it is \<open>None\<close> for a longer prefix or a larger symbol.\<close>

theorem qwt_rank:
  fixes xs :: "'a::len word list"
  assumes "bs = 256 \<or> bs = 512" "LENGTH('a) \<le> 64" "length xs < 2 ^ 43 - 2048"
  shows "\<exists>t :: ('a word, _, 'p) qwt. qw_new (QWT_ops bs) None xs = Some t
    \<and> (\<forall>c i. qw_rank (QWT_ops bs) t c i
        = Some (if i \<le> length xs \<and> c \<le> max_symbol xs then Some (count_list (take i xs) c) else None))"
proof -
  obtain t :: "('a word, _, 'p) qwt" where t: "qw_new (QWT_ops bs) None xs = Some t" "qwt_represents bs t xs"
    by (rule qwt_built [OF assms])
  have "qw_sigma t = max_symbol xs" using t(2) by (cases "xs = []") (simp_all add: qw_ok_def max_symbol_def)
  then have "qw_rank (QWT_ops bs) t c i
      = Some (if i \<le> length xs \<and> c \<le> max_symbol xs then Some (count_list (take i xs) c) else None)" for c i
    using assms(1) t(2) rs256.wt.rank_eq [of t xs c i] rs512.wt.rank_eq [of t xs c i] by (auto simp: rank_of_def)
  then show ?thesis using t(1) by blast
qed

theorem qwt_rank_witness:
  "\<exists>t :: (8 word, _, unit) qwt. qw_new (QWT_ops 512) None [1, 0, 200, 7, 0] = Some t
    \<and> qw_rank (QWT_ops 512) t 0 5 = Some (Some 2) \<and> qw_rank (QWT_ops 512) t 200 2 = Some (Some 0)
    \<and> qw_rank (QWT_ops 512) t 201 2 = Some None"
  using qwt_rank [of 512 "[1, 0, 200, 7, 0 :: 8 word]"] by (fastforce simp: max_symbol_def)



text \<open>C4. \<open>rank_prefetch\<close> on a nonempty tree is \<open>rank\<close>, with and without the sampled prefetch data: the
  estimates it walks through neither panic nor change the result.\<close>

theorem qwt_rank_prefetch:
  fixes xs :: "'a::len word list"
  assumes "bs = 256 \<or> bs = 512" "LENGTH('a) \<le> 64" "length xs < 2 ^ 43 - 2048" "xs \<noteq> []" "pf = None \<or> pf = Some ps_ops"
  shows "\<exists>t. qw_new (QWT_ops bs) pf xs = Some t \<and> (\<forall>c i. qw_rank_prefetch (QWT_ops bs) pf t c i = qw_rank (QWT_ops bs) t c i)"
proof (cases pf)
  case None
  obtain t :: "('a word, _, prefetch_support) qwt" where t: "qw_new (QWT_ops bs) None xs = Some t" "qwt_represents bs t xs"
    by (rule qwt_built [OF assms(1-3)])
  have "qw_rank_prefetch (QWT_ops bs) None t c i = qw_rank (QWT_ops bs) t c i" for c i
    using assms(1,4) t(2) rs256.wt.rank_prefetch_eq rs512.wt.rank_prefetch_eq by blast
  then show ?thesis using t(1) None by blast
next
  case (Some P)
  then have pf: "pf = Some ps_ops" using assms(5) by simp
  obtain t where t: "qw_new (QWT_ops bs) (Some ps_ops) xs = Some t" "qwt_represents bs t xs"
    "\<exists>ps. qw_prefetch_support t = Some ps \<and> pf_built (Some ps_ops) ps_rep (wm_digits (qw_n_levels t) xs) (qw_n_levels t) ps"
    using rs256.wt.from_owned_ok [OF assms(2,3) ps_pf_ok] rs512.wt.from_owned_ok [OF assms(2,3) ps_pf_ok] assms(1,4)
    unfolding qw_new_def by blast
  have n: "length xs < 2 ^ 43" using assms(3) by simp
  have "qw_rank_prefetch (QWT_ops bs) (Some ps_ops) t c i = qw_rank (QWT_ops bs) t c i" for c i
    using assms(1,4) t(2,3) n rs256.wt.rank_prefetch_support_eq rs512.wt.rank_prefetch_support_eq by blast
  then show ?thesis using t(1) pf by blast
qed

theorem qwt_rank_prefetch_witness:
  "\<exists>t :: (8 word, _, prefetch_support) qwt. qw_new (QWT_ops 256) (Some ps_ops) [1, 0, 200, 7, 0] = Some t
    \<and> qw_rank_prefetch (QWT_ops 256) (Some ps_ops) t 200 5 = qw_rank (QWT_ops 256) t 200 5"
  using qwt_rank_prefetch [of 256 "[1, 0, 200, 7, 0 :: 8 word]" "Some ps_ops"] by fastforce

text \<open>C5. The estimate of a \<open>PrefetchSupport\<close> is a multiple of the sample rate, exceeds the rank by at most one and
  is less than two sample rates below it, for every position of a nonempty vector and every rate of at least two.\<close>

theorem prefetch_support_estimate:
  fixes xs :: "'a::len word list"
  assumes "length xs < 2 ^ 43 - 2048" "xs \<noteq> []" "0 < shift" "shift < 64" "c < 4" "i \<le> length xs"
  shows "\<exists>qv self r. qv_from_iter xs = Some qv \<and> ps_new qv shift = Some self \<and> ps_approx_rank_unchecked self c i = Some r
    \<and> 2 ^ shift dvd r \<and> r \<le> rank_of (map (\<lambda>x. unat x mod 4) xs) c i + 1
    \<and> rank_of (map (\<lambda>x. unat x mod 4) xs) c i < r + 2 * 2 ^ shift"
proof -
  let ?D = "map (\<lambda>x. unat x mod 4) xs"
  obtain qv where qv: "qv_from_iter xs = Some qv" "qv_built qv" "qv_list qv = ?D"
    by (rule qv_from_iter_eq [of xs]) (use assms(1) in simp_all)
  have "qv_len qv = length xs" using arg_cong [OF qv(3), of length] by simp
  then obtain self where self: "ps_new qv shift = Some self" "ps_ok ?D self" "ps_sample_rate_shift self = shift"
    using ps_new_ok [OF qv_built_ok [OF qv(2)] _ assms(4)] assms(1) qv(3) by auto
  have "ps_approx_rank_unchecked self c i = Some (count_list (take (i div 2 ^ shift * 2 ^ shift + 1) ?D) c div 2 ^ shift * 2 ^ shift)"
    using ps_approx_rank_eq [OF self(2) _ _ _ assms(5), of i] self(3) assms by simp
  then show ?thesis using qv(1) self(1) ps_estimate_bounds [where rate = "2 ^ shift" and i = i and D = ?D and c = c] by auto
qed

theorem prefetch_support_estimate_witness:
  "\<exists>qv self r. qv_from_iter [1, 3, 1, 1, 2 :: 8 word] = Some qv \<and> ps_new qv 1 = Some self
    \<and> ps_approx_rank_unchecked self 1 5 = Some r \<and> 2 dvd r \<and> r \<le> 4"
  using prefetch_support_estimate [of "[1, 3, 1, 1, 2 :: 8 word]" 1 1 5] by (auto simp: rank_of_def)

text \<open>C6. \<open>occs_range\<close> yields, in increasing order, every symbol of the range once, with its number of
  occurrences there; a range that is reversed or leaves the sequence gives \<open>None\<close>. A bound that is not a \<open>usize\<close> once it is
  made half open, as in \<open>..=usize::MAX\<close>, panics instead, on every tree.\<close>

theorem qwt_occs_range:
  fixes xs :: "'a::len word list"
  assumes "bs = 256 \<or> bs = 512" "LENGTH('a) \<le> 64" "length xs < 2 ^ 43 - 2048"
  shows "\<exists>t :: ('a word, _, 'p) qwt. qw_new (QWT_ops bs) None xs = Some t
    \<and> (\<forall>sb eb. case (range_start sb, range_end (length xs) eb) of
         (Some s, Some e) \<Rightarrow>
           (if e \<le> length xs \<and> s \<le> e
            then \<exists>it. qw_occs_range t sb eb = Some (Some it)
               \<and> collect (qw_occs_next (QWT_ops bs) t) it = Some (symbol_counts (slice xs s e))
            else qw_occs_range t sb eb = Some None)
       | _ \<Rightarrow> qw_occs_range t sb eb = None)"
proof -
  obtain t :: "('a word, _, 'p) qwt" where t: "qw_new (QWT_ops bs) None xs = Some t" "qwt_represents bs t xs"
    by (rule qwt_built [OF assms])
  have n: "qw_n t = length xs" using t(2) by (simp add: qw_ok_def)
  have items: "collect (qw_occs_next (QWT_ops bs) t) (qw_occs_range_unchecked s e) = Some (symbol_counts (slice xs s e))"
    if "e \<le> length xs" "s \<le> e" for s e
    using assms(1,2) t(2) that rs256.wt.occs_collect rs512.wt.occs_collect by blast
  have "qw_occs_range t sb eb = (case (range_start sb, range_end (length xs) eb) of
      (Some s, Some e) \<Rightarrow> Some (if e \<le> length xs \<and> s \<le> e then Some (qw_occs_range_unchecked s e) else None) | _ \<Rightarrow> None)" for sb eb
    using n by (auto simp: qw_occs_range_def split: option.split)
  then show ?thesis using t(1) items by (intro exI [of _ t]) (simp split: option.split)
qed

theorem qwt_occs_range_witness:
  "\<exists>t :: (8 word, _, unit) qwt. qw_new (QWT_ops 256) None [1, 0, 200, 7, 0] = Some t
    \<and> (\<exists>it. qw_occs_range t (Included 1) Unbounded = Some (Some it)
      \<and> collect (qw_occs_next (QWT_ops 256) t) it = Some [(0, 2), (7, 1), (200, 1)])
    \<and> qw_occs_range t Unbounded (Included (2 ^ 64 - 1)) = None"
proof -
  let ?xs = "[1, 0, 200, 7, 0 :: 8 word]"
  have items: "symbol_counts (slice ?xs 1 5) = [(0, 2), (7, 1), (200, 1)]" by (simp add: slice_def symbol_counts_eval)
  obtain t :: "(8 word, _, unit) qwt" where t: "qw_new (QWT_ops 256) None ?xs = Some t"
    "\<And>sb eb. case (range_start sb, range_end (length ?xs) eb) of
         (Some s, Some e) \<Rightarrow>
           (if e \<le> length ?xs \<and> s \<le> e
            then \<exists>it. qw_occs_range t sb eb = Some (Some it)
               \<and> collect (qw_occs_next (QWT_ops 256) t) it = Some (symbol_counts (slice ?xs s e))
            else qw_occs_range t sb eb = Some None)
       | _ \<Rightarrow> qw_occs_range t sb eb = None"
    using qwt_occs_range [of 256 ?xs] by auto
  have r: "range_start (Included 1) = Some 1" "range_end (length ?xs) Unbounded = Some 5" and c: "(5 \<le> length ?xs \<and> (1 :: nat) \<le> 5) = True"
    by (simp_all add: range_start_def range_end_def)
  have "\<exists>it. qw_occs_range t (Included 1) Unbounded = Some (Some it)
      \<and> collect (qw_occs_next (QWT_ops 256) t) it = Some [(0, 2), (7, 1), (200, 1)]"
    using t(2) [of "Included 1" Unbounded] unfolding r prod.case option.case items c if_True .
  moreover have "qw_occs_range t Unbounded (Included (2 ^ 64 - 1)) = None"
    using t(2) [of Unbounded "Included (2 ^ 64 - 1)"] by (simp add: range_start_def range_end_def)
  ultimately show ?thesis using t(1) by blast
qed

text \<open>C7. \<open>range_distinct_iter\<close> yields the same items from its fixed stack of 128 frames, without
  overflowing it; an empty or ill-formed range yields nothing.\<close>

theorem qwt_range_distinct_iter:
  fixes xs :: "'a::len word list"
  assumes "bs = 256 \<or> bs = 512" "LENGTH('a) \<le> 64" "length xs < 2 ^ 43 - 2048"
  shows "\<exists>t :: ('a word, _, 'p) qwt. qw_new (QWT_ops bs) None xs = Some t
    \<and> (\<forall>s e. collect (rd_next (QWT_ops bs) t) (rd_new t s e)
        = Some (if s < e \<and> e \<le> length xs then symbol_counts (slice xs s e) else []))"
proof -
  obtain t :: "('a word, _, 'p) qwt" where t: "qw_new (QWT_ops bs) None xs = Some t" "qwt_represents bs t xs"
    by (rule qwt_built [OF assms])
  have "collect (rd_next (QWT_ops bs) t) (rd_new t s e)
      = Some (if s < e \<and> e \<le> length xs then symbol_counts (slice xs s e) else [])" for s e
    using assms(1) rs256.wt.rd_collect [OF _ assms(2), of t xs] rs512.wt.rd_collect [OF _ assms(2), of t xs] t(2) by blast
  then show ?thesis using t(1) by blast
qed

theorem qwt_range_distinct_iter_witness:
  "\<exists>t :: (8 word, _, unit) qwt. qw_new (QWT_ops 512) None [1, 0, 200, 7, 0] = Some t
    \<and> collect (rd_next (QWT_ops 512) t) (rd_new t 1 5) = Some [(0, 2), (7, 1), (200, 1)]"
proof -
  have "symbol_counts (slice [1, 0, 200, 7, 0 :: 8 word] 1 5) = [(0, 2), (7, 1), (200, 1)]"
    by (simp add: slice_def symbol_counts_eval)
  then show ?thesis using qwt_range_distinct_iter [of 512 "[1, 0, 200, 7, 0 :: 8 word]"] by fastforce
qed

text \<open>C8. \<open>extract_range\<close> returns the symbols of a range in sorted order, with their multiplicities, and
  \<open>extract_range_distinct\<close> every symbol of it once; both give nothing for an empty or ill-formed
  range.\<close>

theorem qwt_extract_range:
  fixes xs :: "'a::len word list"
  assumes "bs = 256 \<or> bs = 512" "LENGTH('a) \<le> 64" "length xs < 2 ^ 43 - 2048"
  shows "\<exists>t :: ('a word, _, 'p) qwt. qw_new (QWT_ops bs) None xs = Some t \<and> (\<forall>s e.
      qw_extract_range (QWT_ops bs) t s e = Some (if s < e \<and> e \<le> length xs then sort (slice xs s e) else [])
      \<and> qw_extract_range_distinct (QWT_ops bs) t s e
        = Some (if s < e \<and> e \<le> length xs then sorted_list_of_set (set (slice xs s e)) else []))"
proof -
  obtain t :: "('a word, _, 'p) qwt" where t: "qw_new (QWT_ops bs) None xs = Some t" "qwt_represents bs t xs"
    by (rule qwt_built [OF assms])
  have "qw_extract_range (QWT_ops bs) t s e = Some (if s < e \<and> e \<le> length xs then sort (slice xs s e) else [])" for s e
    using assms(1,2) t(2) rs256.wt.extract_range_eq rs512.wt.extract_range_eq by blast
  moreover have "qw_extract_range_distinct (QWT_ops bs) t s e
      = Some (if s < e \<and> e \<le> length xs then sorted_list_of_set (set (slice xs s e)) else [])" for s e
    unfolding qw_extract_range_distinct_def
    using assms(1,2) t(2) rs256.wt.extract_range_distinct_into_eq rs512.wt.extract_range_distinct_into_eq by blast
  ultimately show ?thesis using t(1) by blast
qed

theorem qwt_extract_range_witness:
  "\<exists>t :: (8 word, _, unit) qwt. qw_new (QWT_ops 256) None [1, 0, 200, 7, 0] = Some t
    \<and> qw_extract_range (QWT_ops 256) t 1 5 = Some [0, 0, 7, 200] \<and> qw_extract_range_distinct (QWT_ops 256) t 1 5 = Some [0, 7, 200]"
proof -
  have "slice [1, 0, 200, 7, 0 :: 8 word] 1 5 = [0, 200, 7, 0]" by (simp add: slice_def)
  moreover have "sort [0, 200, 7, 0 :: 8 word] = [0, 0, 7, 200]" by simp
  moreover have "sorted_list_of_set (set [0, 200, 7, 0 :: 8 word]) = [0, 7, 200]"
    unfolding sorted_list_of_set_sort_remdups by simp
  ultimately show ?thesis using qwt_extract_range [of 256 "[1, 0, 200, 7, 0 :: 8 word]"] by fastforce
qed

text \<open>C9. \<open>range_next_value\<close> returns the least symbol of the range that is at least the target. The
  symbols of the sequence have to be below \<open>2 ^ 62\<close>.\<close>

theorem qwt_range_next_value:
  fixes xs :: "'a::len word list"
  assumes "bs = 256 \<or> bs = 512" "LENGTH('a) \<le> 64" "length xs < 2 ^ 43 - 2048" "\<forall>x\<in>set xs. unat x < 2 ^ 62"
  shows "\<exists>t :: ('a word, _, 'p) qwt. qw_new (QWT_ops bs) None xs = Some t \<and> (\<forall>s e target.
      qw_range_next_value (QWT_ops bs) t s e target
        = Some (if s < e \<and> e \<le> length xs then find (\<lambda>x. target \<le> x) (sorted_list_of_set (set (slice xs s e))) else None))"
proof -
  obtain t :: "('a word, _, 'p) qwt" where t: "qw_new (QWT_ops bs) None xs = Some t" "qwt_represents bs t xs"
    by (rule qwt_built [OF assms(1-3)])
  have "qw_n_levels t \<le> 31"
  proof (cases "xs = []")
    case False
    then have "unat (max_symbol xs) < 2 ^ 62" using assms(4) max_symbol_in by blast
    then have "msb_of (max_symbol xs) < 62" by (rule msb_less) simp
    then show ?thesis using t(2) False levels_le by (simp add: qw_ok_def)
  qed (use t(2) in \<open>simp add: qw_ok_def\<close>)
  then have "qw_range_next_value (QWT_ops bs) t s e target
      = Some (if s < e \<and> e \<le> length xs then find (\<lambda>x. target \<le> x) (sorted_list_of_set (set (slice xs s e))) else None)" for s e target
    using assms(1,2) t(2) rs256.wt.range_next_value_eq rs512.wt.range_next_value_eq by blast
  then show ?thesis using t(1) by blast
qed

theorem qwt_range_next_value_witness:
  "\<exists>t :: (8 word, _, unit) qwt. qw_new (QWT_ops 256) None [1, 0, 200, 7, 0] = Some t
    \<and> qw_range_next_value (QWT_ops 256) t 1 5 3 = Some (Some 7) \<and> qw_range_next_value (QWT_ops 256) t 1 5 201 = Some None"
proof -
  have "sorted_list_of_set (set (slice [1, 0, 200, 7, 0 :: 8 word] 1 5)) = [0, 7, 200]"
    unfolding sorted_list_of_set_sort_remdups by (simp add: slice_def)
  then show ?thesis using qwt_range_next_value [of 256 "[1, 0, 200, 7, 0 :: 8 word]"] by fastforce
qed

text \<open>With a symbol of \<open>2 ^ 62\<close> or more the tree has 32 levels, and the upper bound of the last child,
  \<open>sym_lo + (digit + 1) << 62\<close>, does not fit in 64 bits: \<open>range_next_value\<close> panics on every
  nonempty range, whatever the target.\<close>

theorem qwt_range_next_value_overflow:
  fixes xs :: "64 word list"
  assumes "bs = 256 \<or> bs = 512" "length xs < 2 ^ 43 - 2048" "x \<in> set xs" "2 ^ 62 \<le> unat x" "s < e" "e \<le> length xs"
  shows "\<exists>t :: (64 word, _, 'p) qwt. qw_new (QWT_ops bs) None xs = Some t \<and> qw_range_next_value (QWT_ops bs) t s e target = None"
proof -
  obtain t :: "(64 word, _, 'p) qwt" where t: "qw_new (QWT_ops bs) None xs = Some t" "qwt_represents bs t xs"
    by (rule qwt_built [OF assms(1) _ assms(2)]) simp_all
  have ne: "xs \<noteq> []" using assms(3) by auto
  have "2 ^ 62 \<le> unat (max_symbol xs)" using assms(4) max_symbol_ge [OF assms(3)] by (simp add: word_le_nat_alt)
  then have "62 \<le> msb_of (max_symbol xs)"
    using unat_less_msb [of "max_symbol xs"] power_increasing [of "Suc (msb_of (max_symbol xs))" 62 "2 :: nat"] by fastforce
  moreover have "msb_of (max_symbol xs) < 64" by (rule msb_less) (use unsigned_less [of "max_symbol xs"] in simp_all)
  ultimately have "msb_of (max_symbol xs) = 62 \<or> msb_of (max_symbol xs) = 63" by linarith
  then have "qw_n_levels t = 32" using t(2) ne by (auto simp: qw_ok_def div_ceil_def)
  then have "qw_range_next_value (QWT_ops bs) t s e target = None"
    using assms(1,5,6) t(2) rs256.wt.range_next_value_overflow [of t xs s e target] rs512.wt.range_next_value_overflow [of t xs s e target] by auto
  then show ?thesis using t(1) by blast
qed

text \<open>C10. Iterating over a tree gives the sequence back, and iterating from the end its reverse.\<close>

theorem qwt_iter:
  fixes xs :: "'a::len word list"
  assumes "bs = 256 \<or> bs = 512" "LENGTH('a) \<le> 64" "length xs < 2 ^ 43 - 2048"
  shows "\<exists>t :: ('a word, _, 'p) qwt. qw_new (QWT_ops bs) None xs = Some t
    \<and> collect (wi_next (qw_get_unchecked (QWT_ops bs))) (qw_iter t) = Some xs
    \<and> collect (wi_next_back (qw_get_unchecked (QWT_ops bs))) (qw_iter t) = Some (rev xs)
    \<and> wi_len (qw_iter t) = Some (length xs)"
proof -
  obtain t :: "('a word, _, 'p) qwt" where t: "qw_new (QWT_ops bs) None xs = Some t" "qwt_represents bs t xs"
    by (rule qwt_built [OF assms])
  have "wi_len (qw_iter t) = Some (length xs)" using t(2) by (simp add: wi_len_def qw_iter_def qw_len_def qw_ok_def)
  moreover have "collect (wi_next (qw_get_unchecked (QWT_ops bs))) (qw_iter t) = Some xs"
    using assms(1) t(2) rs256.wt.iter_collect rs512.wt.iter_collect by blast
  moreover have "collect (wi_next_back (qw_get_unchecked (QWT_ops bs))) (qw_iter t) = Some (rev xs)"
    using assms(1) t(2) rs256.wt.iter_back_collect rs512.wt.iter_back_collect by blast
  ultimately show ?thesis using t(1) by blast
qed

theorem qwt_iter_witness:
  "\<exists>t :: (8 word, _, unit) qwt. qw_new (QWT_ops 256) None [1, 0, 200, 7, 0] = Some t
    \<and> collect (wi_next_back (qw_get_unchecked (QWT_ops 256))) (qw_iter t) = Some [0, 7, 200, 0, 1]"
  using qwt_iter [of 256 "[1, 0, 200, 7, 0 :: 8 word]"] by fastforce

lemma qwt_parts_of_built:
  fixes xs :: "'a::len word list"
  assumes "bs = 256 \<or> bs = 512" "even LENGTH('a)" "LENGTH('a) \<le> 64" "length xs < 2 ^ 43 - 2048"
  obtains t :: "('a word, rs_support_plain rs_qvector, 'p) qwt"
  where "qw_new (QWT_ops bs) None xs = Some t" "qwt_represents bs t xs"
    "qw_from_parts (QWT_ops bs) False (qw_n t) (qw_n_levels t) (qw_sigma t) (qw_qvs t) = Some (Inr t)"
    "qw_deserialize (QWT_ops bs) False t = Some (Inr t)"
proof -
  obtain t :: "('a word, _, 'p) qwt" where t: "qw_new (QWT_ops bs) None xs = Some t" "qwt_represents bs t xs"
    by (rule qwt_built [OF assms(1,3,4)])
  note none = no_prefetch [OF t(1)]
  have "qw_from_parts (QWT_ops bs) False (qw_n t) (qw_n_levels t) (qw_sigma t) (qw_qvs t)
      = Some (Inr (t\<lparr>qw_prefetch_support := None\<rparr>))"
    using assms t(2) rs256.wt.from_parts_of_tree [of t xs] rs512.wt.from_parts_of_tree [of t xs] by auto
  moreover have "t\<lparr>qw_prefetch_support := None\<rparr> = t" using none by simp
  ultimately show thesis using that [OF t] none by (simp add: qw_deserialize_def)
qed

text \<open>C11. \<open>from_parts\<close>, and so deserialisation, accepts the parts of a tree and gives the tree back.\<close>

theorem qwt_from_parts_roundtrip:
  fixes xs :: "'a::len word list"
  assumes "bs = 256 \<or> bs = 512" "even LENGTH('a)" "LENGTH('a) \<le> 64" "length xs < 2 ^ 43 - 2048"
  shows "\<exists>t :: ('a word, _, 'p) qwt. qw_new (QWT_ops bs) None xs = Some t
    \<and> qw_from_parts (QWT_ops bs) False (qw_n t) (qw_n_levels t) (qw_sigma t) (qw_qvs t) = Some (Inr t)
    \<and> qw_deserialize (QWT_ops bs) False t = Some (Inr t)"
  by (rule qwt_parts_of_built [OF assms]) blast

theorem qwt_from_parts_roundtrip_witness:
  "\<exists>t :: (8 word, _, unit) qwt. qw_new (QWT_ops 256) None [1, 0, 200, 7, 0] = Some t
    \<and> qw_from_parts (QWT_ops 256) False (qw_n t) (qw_n_levels t) (qw_sigma t) (qw_qvs t) = Some (Inr t)"
  using qwt_from_parts_roundtrip [of 256 "[1, 0, 200, 7, 0 :: 8 word]"] by fastforce



text \<open>The one operation that panics on a tree the constructor builds: \<open>select\<close> of symbol 0 on the
  empty tree computes \<open>n_levels - 1\<close> below zero instead of returning \<open>None\<close>.\<close>

theorem qwt_select_empty:
  "\<exists>t :: ('a::len word, _, 'p) qwt. qw_new (QWT_ops 256) None [] = Some t \<and> (\<forall>k. qw_select (QWT_ops 256) t 0 k = None)"
proof -
  have "\<exists>t :: ('a word, _, 'p) qwt. qw_from_owned (QWT_ops 256) None [] = Some t \<and> qwt_represents 256 t []"
    using rs256.wt.default_rep by (auto simp: qw_from_owned_def qw_ok_def)
  then show ?thesis using rs256.wt.select_empty by (auto simp: qw_new_def)
qed

section \<open>Quad vectors with rank and select\<close>

lemma rq_built:
  fixes xs :: "'a::len word list"
  assumes "bs = 256 \<or> bs = 512" "length xs < 2 ^ 43 - 2048"
  obtains r where "rq_new (rs_plain bs) xs = Some r" "rq_ok (rp_inv bs) r" "rq_list r = map (\<lambda>x. unat x mod 4) xs"
  using assms(1)
proof
  assume "bs = 256"
  then show thesis using that rs256.new_eq [OF assms(2)] by auto
next
  assume "bs = 512"
  then show thesis using that rs512.new_eq [OF assms(2)] by auto
qed

text \<open>C13. An \<open>RSQVector\<close> built from a sequence stores its values modulo 4 and answers \<open>get\<close>, \<open>rank\<close>,
  \<open>select\<close> and \<open>occs\<close> on them exactly, for both block sizes, with \<open>None\<close> outside their domain.\<close>

theorem rs_qvector_queries:
  fixes xs :: "'a::len word list"
  assumes "bs = 256 \<or> bs = 512" "length xs < 2 ^ 43 - 2048"
  defines "ys \<equiv> map (\<lambda>x. unat x mod 4) xs"
  shows "\<exists>r. rq_new (rs_plain bs) xs = Some r \<and> (\<forall>c i.
      rq_get r i = Some (idx ys i)
      \<and> rq_rank (rs_plain bs) r c i = Some (if c < 4 \<and> i \<le> length ys then Some (rank_of ys c i) else None)
      \<and> rq_select (rs_plain bs) r c i = Some (if c < 4 then select_of ys c i else None)
      \<and> rq_occs r c = Some (if c < 4 then Some (count_list ys c) else None))"
proof -
  obtain r where r: "rq_new (rs_plain bs) xs = Some r" "rq_ok (rp_inv bs) r" "rq_list r = ys"
    using rq_built [OF assms(1,2)] unfolding ys_def .
  have "rq_get r i = Some (idx ys i)"
    "rq_rank (rs_plain bs) r c i = Some (if c < 4 \<and> i \<le> length ys then Some (rank_of ys c i) else None)"
    "rq_select (rs_plain bs) r c i = Some (if c < 4 then select_of ys c i else None)"
    "rq_occs r c = Some (if c < 4 then Some (count_list ys c) else None)" for c i
    using assms(1) r(2,3) rs256.get_eq [of r i] rs512.get_eq [of r i] rs256.rank_eq [of r c i] rs512.rank_eq [of r c i]
      rs256.select_eq [of r c i] rs512.select_eq [of r c i] rs256.occs_eq [of r c] rs512.occs_eq [of r c] by blast+
  then show ?thesis using r(1) by blast
qed

theorem rs_qvector_queries_witness:
  "\<exists>r. rq_new (rs_plain 256) [1, 3, 1, 6 :: 8 word] = Some r
    \<and> rq_rank (rs_plain 256) r 1 3 = Some (Some 2) \<and> rq_select (rs_plain 256) r 1 1 = Some (Some 2)
    \<and> rq_get r 3 = Some (Some 2) \<and> rq_rank (rs_plain 256) r 4 0 = Some None"
proof -
  have "select_of [1, 3, 1, 2 :: nat] 1 1 = Some 2" by (simp add: select_of_Some rank_of_def)
  then show ?thesis
    using rs_qvector_queries [of 256 "[1, 3, 1, 6 :: 8 word]"] by (fastforce simp: rank_of_def)
qed

text \<open>The fused rank of the four symbols, with one pass over the data lines, agrees with the four
  single-symbol ranks and with the reference definition.\<close>

theorem rs_qvector_rank_all:
  fixes xs :: "'a::len word list"
  assumes "bs = 256 \<or> bs = 512" "length xs < 2 ^ 43 - 2048"
  shows "\<exists>r. rq_new (rs_plain bs) xs = Some r \<and> (\<forall>i\<le>length xs.
      rq_rank_all_unchecked (rs_plain bs) r i = those (map (\<lambda>c. rq_rank_unchecked (rs_plain bs) r c i) [0..<4])
      \<and> rq_rank_all_unchecked (rs_plain bs) r i = Some (map (\<lambda>c. rank_of (map (\<lambda>x. unat x mod 4) xs) c i) [0..<4]))"
proof -
  obtain r where r: "rq_new (rs_plain bs) xs = Some r" "rq_ok (rp_inv bs) r" "rq_list r = map (\<lambda>x. unat x mod 4) xs"
    using rq_built [OF assms(1,2)] .
  have "rq_rank_all_unchecked (rs_plain bs) r i = Some (map (\<lambda>c. rank_of (map (\<lambda>x. unat x mod 4) xs) c i) [0..<4])"
    if "i \<le> length xs" for i
    using assms(1) r(2,3) that rs256.rank_all_unchecked_eq [of r i] rs512.rank_all_unchecked_eq [of r i] by auto
  moreover have "rq_rank_unchecked (rs_plain bs) r c i = Some (rank_of (map (\<lambda>x. unat x mod 4) xs) c i)"
    if "i \<le> length xs" "c \<in> set [0..<4]" for c i
    using assms(1) r(2,3) that rs256.rank_unchecked_eq [of r c i] rs512.rank_unchecked_eq [of r c i] by auto
  then have "those (map (\<lambda>c. rq_rank_unchecked (rs_plain bs) r c i) [0..<4])
      = Some (map (\<lambda>c. rank_of (map (\<lambda>x. unat x mod 4) xs) c i) [0..<4])" if "i \<le> length xs" for i
    using that by (intro those_map_Some) blast
  ultimately show ?thesis using r(1) by auto
qed

text \<open>Deserialisation discards whatever rank counters were stored and rebuilds them: any decoded
  vector whose quad vector is well formed becomes one that answers all queries on the decoded symbols.\<close>

theorem rs_qvector_deserialize:
  assumes "bs = 256 \<or> bs = 512" "qv_ok (rq_qv decoded)" "qv_len (rq_qv decoded) < 2 ^ 43 - 2048"
  shows "\<exists>r. rq_deserialize (rs_plain bs) decoded = Some r \<and> (\<forall>c i.
      rq_rank (rs_plain bs) r c i = Some (if c < 4 \<and> i \<le> qv_len (rq_qv decoded) then Some (rank_of (qv_list (rq_qv decoded)) c i) else None)
      \<and> rq_select (rs_plain bs) r c i = Some (if c < 4 then select_of (qv_list (rq_qv decoded)) c i else None))"
proof -
  have "\<exists>r. rq_deserialize (rs_plain bs) decoded = Some r \<and> rq_ok (rp_inv bs) r \<and> rq_list r = rq_list decoded"
    using assms(1) rs256.deserialize_ok [OF assms(2,3)] rs512.deserialize_ok [OF assms(2,3)] by blast
  then obtain r where r: "rq_deserialize (rs_plain bs) decoded = Some r" "rq_ok (rp_inv bs) r"
    "rq_list r = qv_list (rq_qv decoded)" by (auto simp: rq_list_def)
  have "rq_rank (rs_plain bs) r c i
      = Some (if c < 4 \<and> i \<le> qv_len (rq_qv decoded) then Some (rank_of (qv_list (rq_qv decoded)) c i) else None)"
    "rq_select (rs_plain bs) r c i = Some (if c < 4 then select_of (qv_list (rq_qv decoded)) c i else None)" for c i
    using assms(1) r(2,3) rs256.rank_eq [of r c i] rs512.rank_eq [of r c i]
      rs256.select_eq [of r c i] rs512.select_eq [of r c i] by auto
  then show ?thesis using r(1) by blast
qed

text \<open>The length assertion of \<open>RSSupportPlain::new\<close> lets through vectors it cannot finish: with
  256-symbol blocks and at least \<open>2 ^ 43 - 2048\<close> symbols there are \<open>2 ^ 32\<close> superblocks, and the
  sentinel \<open>superblocks.len() as u32 - 1\<close> underflows.\<close>

theorem rs_support_plain_overflow:
  assumes "qv_ok qv" "2 ^ 43 - 2048 \<le> qv_len qv" "qv_len qv < 2 ^ 43"
  shows "rp_new 256 qv = None"
  using assms by (rule rp_new_overflow)

section \<open>Utilities\<close>

text \<open>C14. For every word and every \<open>k\<close> below 128 the broadword \<open>select_in_word\<close>, with its byte table, returns the position of the
  set bit of rank \<open>k\<close>, and 64 when the word has no such bit; none of its checked operations overflows and the table is not
  left. From \<open>k = 256\<close> on its multiplication overflows and it panics on every word. (Between the two the outcome depends on
  the word.)\<close>

theorem select_in_word_correct:
  assumes "unat k < 128 \<or> 256 \<le> unat k"
  shows "select_in_word w k
    = (if unat k < 128 then Some (case selp (bit w) 64 (unat k) of Some p \<Rightarrow> p | None \<Rightarrow> 64) else None)"
  using assms select_in_word_eq [of k w] select_in_word_overflow [of k w] by auto

theorem select_in_word_correct_witness:
  "select_in_word 0xF0 2 = Some (case selp (bit (0xF0 :: u64)) 64 2 of Some p \<Rightarrow> p | None \<Rightarrow> 64) \<and> select_in_word 0xF0 256 = None"
  using select_in_word_correct [of 2 "0xF0"] select_in_word_correct [of 256 "0xF0"] by simp

text \<open>The 128-bit variant, which tries the low word first, selects in the whole word.\<close>

theorem select_in_word_u128_correct:
  assumes "unat k < 128"
  shows "select_in_word_u128 w k = Some (case selp (bit w) 128 (unat k) of Some p \<Rightarrow> p | None \<Rightarrow> 128)"
  using assms by (rule select_in_word_u128_eq)

theorem select_in_word_u128_correct_witness:
  "select_in_word_u128 (push_bit 100 1) 0 = Some (case selp (bit (push_bit 100 1 :: u128)) 128 0 of Some p \<Rightarrow> p | None \<Rightarrow> 128)"
  using select_in_word_u128_correct [of 0 "push_bit 100 1"] by simp

text \<open>The counting partition used by the construction agrees with the one through growing vectors and is
  the stable partition: the four classes one after the other, each in the order of the sequence.\<close>

theorem partition_of_4_agree:
  fixes xs :: "'a::len word list"
  assumes "LENGTH('a) \<le> 64" "shift < 64" "length out = length xs"
    "counts = map (count_list (map (qdigit shift) xs)) [0..<4]"
  shows "stable_partition_of_4_into xs shift counts out = stable_partition_of_4 xs shift
    \<and> stable_partition_of_4 xs shift = Some (concat (map (\<lambda>b. filter (\<lambda>x. unat x div 2 ^ shift mod 4 = b) xs) [0..<4]))"
  using stable_partition_of_4_into_eq [OF assms] stable_partition_of_4_eq [OF assms(1,2), of xs]
  by (simp add: buckets_def qdigit_def drop_bit_eq_div)

theorem partition_of_4_agree_witness:
  "stable_partition_of_4_into [1, 0, 3, 5 :: 8 word] 0 [1, 2, 0, 1] [0, 0, 0, 0] = Some [0, 1, 5, 3]"
  using partition_of_4_agree [of 0 "[0, 0, 0, 0]" "[1, 0, 3, 5 :: 8 word]" "[1, 2, 0, 1]"]
  by (simp add: qdigit_def upt_4)

text \<open>The same for the partition by Huffman codes, whose fifth class holds the symbols with a code that
  ended at an earlier level.\<close>

theorem partition_of_4_with_codes_agree:
  assumes "\<forall>x\<in>set xs. unat (as_usize x) < length codes \<and> unat (pc_len (codes ! unat (as_usize x))) \<le> 32"
    "0 < shift" "shift < 2 ^ 32" "length out = length xs"
    "counts = map (count_list (map (code_digit 3 codes 4 shift) xs)) [0..<5]"
  shows "stable_partition_of_4_with_codes_into xs shift codes counts out = stable_partition_of_4_with_codes xs shift codes
    \<and> stable_partition_of_4_with_codes xs shift codes = Some (buckets (code_digit 3 codes 4 shift) 5 xs)"
  using stable_partition_of_4_with_codes_into_eq [OF assms] by blast

text \<open>C15. A sequence with a symbol of \<open>2 ^ 64\<close> or more, as the type \<open>u128\<close> allows, cannot be indexed: the
  partition converts the symbol to \<open>usize\<close> before it shifts it by 64 or more places, which
  overflows, whatever the quad vectors and the prefetch support do.\<close>

theorem qwt_wide_symbol_overflow:
  fixes xs :: "'a::len word list"
  assumes "x \<in> set xs" "2 ^ 64 \<le> unat x"
  shows "qw_new R pf xs = None"
proof -
  let ?L = "div_ceil (msb_of (max_symbol xs) + 1) 2"
  have ne: "xs \<noteq> []" using assms(1) by auto
  have "2 ^ 64 \<le> unat (max_symbol xs)" using assms max_symbol_ge [OF assms(1)] by (simp add: word_le_nat_alt)
  then have "\<not> msb_of (max_symbol xs) < 64"
    using unat_less_msb [of "max_symbol xs"] power_increasing [of "Suc (msb_of (max_symbol xs))" 64 "2 :: nat"] by fastforce
  then have L: "32 < ?L" by (simp add: div_ceil_def) presburger
  have "stable_partition_of_4_into xs (2 * (?L - 1)) counts out = None" for counts and out :: "'a word list"
  proof -
    have "two_bits_usize (2 * (?L - 1)) y = None" for y :: "'a word" using L by (simp add: two_bits_usize_def shr_usize_def)
    then show ?thesis using ne by (cases xs) (simp_all add: stable_partition_of_4_into_def)
  qed
  then have "qw_level_step R pf \<lparr>bw_sequence = xs, bw_partitioned = replicate (length xs) 0, bw_qvs = [], bw_prefetch = [],
      bw_shift = 2 * (?L - 1)\<rparr> 0 = None"
    by (simp add: qw_level_step_def split_def Let_def)
  moreover have "[0..<?L] = 0 # [1..<?L]" using L by (simp add: upt_conv_Cons)
  ultimately show ?thesis using ne by (simp add: qw_new_def qw_from_owned_def Let_def)
qed

theorem qwt_wide_symbol_overflow_witness:
  "qw_new (QWT_ops 256) (None :: unit prefetch_ops option) [3, 2 ^ 64 :: u128] = None"
  by (rule qwt_wide_symbol_overflow [of "2 ^ 64"]) simp_all

text \<open>\<open>text_remap\<close> replaces every byte by the number of distinct smaller bytes of the text, so the new
  alphabet is \<open>0..k\<close> in the same order, and returns the number \<open>k\<close> of distinct bytes.\<close>

theorem text_remap_correct:
  "text_remap input = Some (map (\<lambda>c. of_nat (card {d \<in> set input. d < c})) input, card (set input))"
  by (rule text_remap_eq)

text \<open>\<open>msb\<close> of a positive integer of any width is the floor of its binary logarithm.\<close>

theorem msb_correct:
  fixes v :: "'a::len word"
  assumes "v \<noteq> 0"
  shows "2 ^ msb_of v \<le> unat v \<and> unat v < 2 ^ Suc (msb_of v)"
  using msb_of_bounds [OF assms] by blast

theorem msb_correct_witness: "2 ^ msb_of (37 :: u8) \<le> (37 :: nat) \<and> 37 < (2 :: nat) ^ Suc (msb_of (37 :: u8))"
  using msb_correct [of "37 :: u8"] by simp

section \<open>Quad vectors\<close>

text \<open>Collecting fewer than \<open>2 ^ 63\<close> integers of any width into a \<open>QVector\<close> and reading it back gives their
  values modulo 4, by index and by iteration.\<close>

theorem qvector_roundtrip:
  assumes "length xs < 2 ^ 63"
  shows "\<exists>qv. qv_from_iter xs = Some qv \<and> qv_len qv = length xs
    \<and> (\<forall>i. qv_get qv i = Some (idx (map (\<lambda>x. unat x mod 4) xs) i))
    \<and> collect qv_iter_next (qv_iter qv) = Some (map (\<lambda>x. unat x mod 4) xs)"
proof -
  obtain qv where qv: "qv_from_iter xs = Some qv" "qv_built qv" "qv_list qv = map (\<lambda>x. unat x mod 4) xs"
    by (rule qv_from_iter_eq [OF assms])
  note ok = qv_built_ok [OF qv(2)]
  have "qv_len qv = length xs" using arg_cong [OF qv(3), of length] by simp
  then show ?thesis using qv(1) qv_get_eq [OF ok] qv_iter_collect [OF ok] qv(3) by auto
qed

text \<open>Deserialisation accepts exactly the well-formed quad vectors: whatever lines and position were
  decoded, an accepted vector never reads outside its lines.\<close>

theorem qvector_deserialize_safe:
  assumes "\<forall>dl\<in>set data. length (dl_words dl) = 4" "qv_deserialize data position = Inr qv" "i < qv_len qv"
  shows "\<exists>v<4. qv_get_unchecked qv i = Some v"
proof -
  have "qv_ok qv" using qv_deserialize_eq [of data position qv] assms(1,2) by (simp add: dl_ok_def)
  then show ?thesis using qv_get_unchecked_eq [OF _ assms(3)] by auto
qed

text \<open>Reading a symbol of a data line through the little-endian 64-bit lanes gives the same value as
  assembling it from the 128-bit planes.\<close>

theorem data_line_get_agree:
  assumes "length (dl_words dl) = 4" "i < 256"
  shows "dl_get_unchecked dl i = dl_get_unchecked_be dl i \<and> (\<exists>v<4. dl_get_unchecked dl i = Some v)"
  using assms dl_get_unchecked_eq [of dl i] dl_get_unchecked_be_eq [of dl i] by (simp add: dl_ok_def)

theorem data_line_get_agree_witness:
  "dl_get_unchecked \<lparr>dl_words = [6, 0, 5, 1]\<rparr> 130 = dl_get_unchecked_be \<lparr>dl_words = [6, 0, 5, 1]\<rparr> 130"
  using data_line_get_agree [of "\<lparr>dl_words = [6, 0, 5, 1]\<rparr>" 130] by simp

end
